(* ===== verification/Prelude.thy ===== *)
theory Prelude
  imports Main "HOL-Library.Word" "HOL-Library.Signed_Division"
begin

text \<open>
  Shared vocabulary of the development: the machine-integer types of the 64-bit build, the
  ways an operation can fail, the counted loop of the C++ code, and the generic facts on
  bit lengths, residues, words and lists that every component uses.
\<close>

unbundle bit_operations_syntax

named_theorems unat_spec "what an operation computes, read through unat"
named_theorems vec_len "lengths of the vectors an operation returns"

type_synonym u8 = "8 word"
type_synonym u32 = "32 word"
type_synonym u64 = "64 word"
type_synonym u128 = "128 word"

subsection \<open>Failures\<close>

text \<open>
  \<open>OpenFHEError\<close> is the exception thrown by the macro \<open>OPENFHE_THROW\<close>. The other
  constructors stand for behaviour C++ leaves undefined and that traps or goes wrong on the
  machine: a zero divisor, a shift by the width or more, a signed overflow, a vector accessed
  out of range, a null pointer followed, and a loop that does not end.
\<close>

datatype exn =
    OpenFHEError string
  | DivideByZero
  | ShiftOutOfRange
  | SignedOverflow
  | OutOfRange
  | NullPointer
  | Diverges

type_synonym 'a res = "exn + 'a"

definition ebind :: "'a res \<Rightarrow> ('a \<Rightarrow> 'b res) \<Rightarrow> 'b res" where
  "ebind r f = (case r of Inl e \<Rightarrow> Inl e | Inr x \<Rightarrow> f x)"

lemma ebind_simps [simp]:
  "ebind (Inl e) f = Inl e"
  "ebind (Inr x) f = f x"
  by (simp_all add: ebind_def)

lemma ebind_cong [fundef_cong]:
  "r = r' \<Longrightarrow> (\<And>x. r' = Inr x \<Longrightarrow> f x = g x) \<Longrightarrow> ebind r f = ebind r' g"
  by (cases r') (simp_all add: ebind_def)

lemma ebind_InrE:
  assumes "ebind r f = Inr y"
  obtains x where "r = Inr x" "f x = Inr y"
  using assms by (cases r) auto

text \<open>A map whose function may fail, run from left to right.\<close>

fun emap :: "('a \<Rightarrow> 'b res) \<Rightarrow> 'a list \<Rightarrow> 'b list res" where
  "emap f [] = Inr []"
| "emap f (x # xs) = ebind (f x) (\<lambda>y. ebind (emap f xs) (\<lambda>ys. Inr (y # ys)))"

lemma emap_all_Inr:
  "(\<And>x. x \<in> set xs \<Longrightarrow> f x = Inr (g x)) \<Longrightarrow> emap f xs = Inr (map g xs)"
  by (induction xs) auto

lemma length_emap: "emap f xs = Inr ys \<Longrightarrow> length ys = length xs"
  by (induction xs arbitrary: ys) (auto elim!: ebind_InrE)

subsection \<open>Counted loops\<close>

text \<open>\<open>for (i = a; i < b; ++i) s = f i s\<close>\<close>

definition for_range :: "nat \<Rightarrow> nat \<Rightarrow> (nat \<Rightarrow> 's \<Rightarrow> 's) \<Rightarrow> 's \<Rightarrow> 's" where
  "for_range a b f s = fold f [a..<b] s"

lemma for_range_empty [simp]: "b \<le> a \<Longrightarrow> for_range a b f s = s"
  by (simp add: for_range_def)

lemma for_range_Suc: "a \<le> b \<Longrightarrow> for_range a (Suc b) f s = f b (for_range a b f s)"
  by (simp add: for_range_def)

lemma for_range_step: "a < b \<Longrightarrow> for_range a b f s = for_range (Suc a) b f (f a s)"
  by (simp add: for_range_def upt_conv_Cons)

lemma for_range_invariant:
  assumes "a \<le> b" "P a s"
    and "\<And>i s. a \<le> i \<Longrightarrow> i < b \<Longrightarrow> P i s \<Longrightarrow> P (Suc i) (f i s)"
  shows "P b (for_range a b f s)"
  using assms
proof (induction b)
  case 0
  then show ?case by simp
next
  case (Suc b)
  show ?case
  proof (cases "a = Suc b")
    case True
    with Suc.prems show ?thesis by simp
  next
    case False
    with Suc.prems(1) have ab: "a \<le> b" by simp
    have "P b (for_range a b f s)"
      using Suc.IH [OF ab Suc.prems(2)] Suc.prems(3) by simp
    with Suc.prems(3) [of b] ab show ?thesis by (simp add: for_range_Suc)
  qed
qed

lemma for_range_cong:
  assumes "\<And>i s. a \<le> i \<Longrightarrow> i < b \<Longrightarrow> f i s = g i s"
  shows "for_range a b f s = for_range a b g s"
  unfolding for_range_def by (rule fold_cong) (auto simp: assms)

lemma length_for_range [vec_len]:
  assumes "\<And>i s. length (f i s) = length s"
  shows "length (for_range a b f s) = length s"
proof -
  have "length (fold f is s) = length s" for "is"
    by (induction "is" arbitrary: s) (simp_all add: assms)
  then show ?thesis by (simp add: for_range_def)
qed

subsection \<open>Bit lengths\<close>

fun bit_len :: "nat \<Rightarrow> nat" where
  "bit_len n = (if n = 0 then 0 else Suc (bit_len (n div 2)))"

declare bit_len.simps [simp del]

lemma bit_len_0 [simp]: "bit_len 0 = 0"
  by (simp add: bit_len.simps)

lemma bit_len_upper: "n < 2 ^ bit_len n"
proof (induction n rule: bit_len.induct)
  case (1 n)
  show ?case
  proof (cases "n = 0")
    case False
    with 1 have "n div 2 < 2 ^ bit_len (n div 2)" by simp
    then have "n < 2 * 2 ^ bit_len (n div 2)" by linarith
    with False show ?thesis by (simp add: bit_len.simps [of n])
  qed simp
qed

lemma bit_len_lower: "0 < n \<Longrightarrow> 2 ^ (bit_len n - 1) \<le> n"
proof (induction n rule: bit_len.induct)
  case (1 n)
  show ?case
  proof (cases "n div 2 = 0")
    case True
    with 1 show ?thesis by (simp add: bit_len.simps [of n])
  next
    case False
    with 1 have "2 ^ (bit_len (n div 2) - 1) \<le> n div 2" by simp
    then have le: "2 * 2 ^ (bit_len (n div 2) - 1) \<le> n" by linarith
    from False have "bit_len (n div 2) > 0"
      by (simp add: bit_len.simps [of "n div 2"])
    then have "2 * 2 ^ (bit_len (n div 2) - 1) = (2::nat) ^ bit_len (n div 2)"
      by (cases "bit_len (n div 2)") simp_all
    with le False show ?thesis by (simp add: bit_len.simps [of n])
  qed
qed

lemma bit_len_pos_iff [simp]: "0 < bit_len n \<longleftrightarrow> 0 < n"
  by (subst bit_len.simps) simp

lemma bit_len_le_iff: "bit_len n \<le> k \<longleftrightarrow> n < 2 ^ k"
proof
  assume "bit_len n \<le> k"
  then have "(2::nat) ^ bit_len n \<le> 2 ^ k" by simp
  with bit_len_upper [of n] show "n < 2 ^ k" by linarith
next
  assume lt: "n < 2 ^ k"
  show "bit_len n \<le> k"
  proof (rule ccontr)
    assume "\<not> bit_len n \<le> k"
    then have k: "k \<le> bit_len n - 1" and "0 < n" by (cases "n = 0"; simp)+
    from k have "(2::nat) ^ k \<le> 2 ^ (bit_len n - 1)" by simp
    with bit_len_lower [OF \<open>0 < n\<close>] lt show False by linarith
  qed
qed

lemma bit_len_eqI:
  assumes "2 ^ k \<le> n" "n < 2 ^ Suc k"
  shows "bit_len n = Suc k"
proof -
  have "bit_len n \<le> Suc k" using assms(2) by (simp add: bit_len_le_iff)
  moreover have "\<not> bit_len n \<le> k" using assms(1) by (simp add: bit_len_le_iff)
  ultimately show ?thesis by simp
qed

lemma bit_len_power2 [simp]: "bit_len (2 ^ k) = Suc k"
  by (rule bit_len_eqI) simp_all

lemma bit_len_power2_minus_1 [simp]: "bit_len (2 ^ k - 1) = k"
proof (cases k)
  case (Suc j)
  have "(2::nat) ^ j \<le> 2 ^ Suc j - 1" using one_le_power [of "2::nat" j] by simp
  then show ?thesis using Suc by (intro bit_len_eqI [of j, simplified Suc [symmetric]]) simp_all
qed simp

lemma bit_len_mono: "m \<le> n \<Longrightarrow> bit_len m \<le> bit_len n"
  using bit_len_upper [of n] by (simp add: bit_len_le_iff)

subsection \<open>Machine words read as naturals\<close>

lemma unat_ucast_128 [simp]: "unat (ucast (a :: u64) :: u128) = unat a"
proof -
  have "unat a < 2 ^ 64" using unsigned_less [of a, where ?'a = nat] by simp
  then show ?thesis by (simp add: unsigned_ucast_eq take_bit_nat_eq_self_iff)
qed

lemma unat_push_bit: "unat (push_bit n (x :: 'a::len word)) = unat x * 2 ^ n mod 2 ^ LENGTH('a)"
  by (subst unsigned_push_bit_eq) (simp add: take_bit_eq_mod push_bit_eq_mult)

lemma unat_drop_bit: "unat (drop_bit n (x :: 'a::len word)) = unat x div 2 ^ n"
  by (subst unat_drop_bit_eq) (rule drop_bit_eq_div)

lemma unat_ucast_64: "unat (ucast (a :: u128) :: u64) = unat a mod 2 ^ 64"
  by (simp add: unsigned_ucast_eq take_bit_eq_mod)

lemma unat_less_64: "unat (a :: u64) < 2 ^ 64"
  using unsigned_less [of a] by simp

lemma bit_len_unat_le: "bit_len (unat (x :: u64)) \<le> 64"
  using unat_less_64 [of x] by (simp add: bit_len_le_iff)

lemma unat_mult_ucast: "unat (ucast (a::u64) * ucast (b::u64) :: u128) = unat a * unat b"
proof -
  have "unat a * unat b < 2 ^ 64 * 2 ^ 64"
    using unat_less_64 [of a] unat_less_64 [of b] by (intro mult_strict_mono) auto
  then show ?thesis by (simp add: unat_word_ariths)
qed

lemma unat_add_small: "unat a + unat b < 2 ^ 64 \<Longrightarrow> unat (a + b :: u64) = unat a + unat b"
  by (simp add: unat_word_ariths)

lemma unat_sub_small: "unat b \<le> unat a \<Longrightarrow> unat (a - b :: u64) = unat a - unat b"
  by (simp add: unat_sub word_le_nat_alt)

lemma unat_reduce: "0 < unat m \<Longrightarrow> unat (if a \<ge> m then a mod m else a :: u64) = unat a mod unat m"
  by (simp add: unat_mod word_le_nat_alt)

lemma sint_word_of_int_64:
  "- (2 ^ 63) \<le> d \<Longrightarrow> d < 2 ^ 63 \<Longrightarrow> sint (word_of_int d :: u64) = d"
  by (simp add: signed_of_int signed_take_bit_int_eq_self_iff)

lemma unat_word_of_int_64: "0 \<le> d \<Longrightarrow> d < 2 ^ 64 \<Longrightarrow> unat (word_of_int d :: u64) = nat d"
  by (simp add: unsigned_of_int take_bit_int_eq_self_iff nat_take_bit_eq take_bit_nat_eq_self_iff)

lemma unat_mult_128: "unat a < 2 ^ 64 \<Longrightarrow> unat b < 2 ^ 64 \<Longrightarrow> unat (a * b :: u128) = unat a * unat b"
proof -
  assume "unat a < 2 ^ 64" "unat b < 2 ^ 64"
  then have "unat a * unat b < 2 ^ 64 * 2 ^ 64" by (intro mult_strict_mono) auto
  then show ?thesis by (simp add: unat_word_ariths)
qed

lemma mulmod_128:
  assumes "unat a < 2 ^ 64" "unat b < 2 ^ 64" "0 < unat m"
  shows "unat (let r = a * b in if r \<ge> m then r mod m else r :: u128) = unat a * unat b mod unat m"
  using assms by (simp add: Let_def unat_mult_128 unat_mod word_le_nat_alt)

lemma odd_word: "(p AND 1 \<noteq> 0) \<longleftrightarrow> odd (unat (p :: 'a::len word))"
proof -
  have "p AND 1 = of_bool (odd p)" by (simp add: and_one_eq mod_2_eq_odd)
  moreover have "odd p \<longleftrightarrow> odd (unat p)"
  proof -
    have "bit (unat p) 0 = bit p 0" by (simp only: bit_unsigned_iff) simp
    then show ?thesis by (simp add: bit_0)
  qed
  ultimately show ?thesis by auto
qed

lemma split_word_128:
  "push_bit 64 (ucast (ucast (drop_bit 64 x) :: u64)) + ucast (ucast (x AND (push_bit 64 1 - 1)) :: u64) = (x :: u128)"
proof -
  have m: "push_bit 64 1 - 1 = (mask 64 :: u128)"
    by (simp only: mask_eq_exp_minus_1 push_bit_eq_mult mult_1_left)
  have x: "unat x < 2 ^ 128" using unsigned_less [of x, where ?'a = nat] by simp
  have hi: "unat x div 2 ^ 64 < 2 ^ 64" using x by (simp add: less_mult_imp_div_less)
  have u: "unat (push_bit 64 (ucast (ucast (drop_bit 64 x) :: u64) :: u128)) = unat x div 2 ^ 64 * 2 ^ 64"
    unfolding unat_push_bit unat_ucast_128 unat_ucast_64 unat_drop_bit using hi by simp
  have l: "unat (ucast (ucast (x AND mask 64) :: u64) :: u128) = unat x mod 2 ^ 64"
    unfolding unat_ucast_128 unat_ucast_64
    unfolding take_bit_eq_mask [symmetric] unsigned_take_bit_eq by (simp add: take_bit_eq_mod)
  have "unat x div 2 ^ 64 * 2 ^ 64 + unat x mod 2 ^ 64 = unat x" by simp
  then show ?thesis unfolding m
    by (intro word_unat_eq_iff [THEN iffD2]) (simp only: unat_word_ariths u l, use x in simp)
qed

lemma unat_power2_u32:
  assumes "k \<le> 31"
  shows "unat (of_nat (2 ^ k) :: u32) = 2 ^ k" "unat (push_bit k (1 :: u32)) = 2 ^ k"
proof -
  have lt: "(2::nat) ^ k < 2 ^ 32" using assms by (intro power_strict_increasing) auto
  then show "unat (of_nat (2 ^ k) :: u32) = 2 ^ k"
    unfolding unat_of_nat by simp
  show "unat (push_bit k (1 :: u32)) = 2 ^ k"
    using lt by (simp only: unat_push_bit) simp
qed

end
