(* ===== verification/Barrett.thy ===== *)
theory Barrett
  imports Prelude
begin

text \<open>
  The two reductions by a precomputed reciprocal, on natural numbers: Barrett's quotient with the
  constants of \<open>ubintnat.h\<close> (a reciprocal of \<open>2 * bit_len m + 3\<close> bits, the dividend
  shifted down by \<open>bit_len m - 2\<close>) and Shoup's quotient for a constant factor. \<open>NatInt\<close>
  shows that the machine code computes them.
\<close>

definition barrett_mu :: "nat \<Rightarrow> nat" where
  "barrett_mu m = 2 ^ (2 * bit_len m + 3) div m"

definition barrett_q :: "nat \<Rightarrow> nat \<Rightarrow> nat" where
  "barrett_q x m = (x div 2 ^ (bit_len m - 2)) * barrett_mu m div 2 ^ (bit_len m + 5)"

lemma barrett_q_upper: "0 < m \<Longrightarrow> 2 \<le> bit_len m \<Longrightarrow> barrett_q x m * m \<le> x"
proof -
  assume m: "0 < m" "2 \<le> bit_len m"
  define l where "l = bit_len m"
  define A where "A = x div 2 ^ (l - 2)"
  have e: "(2::nat) ^ (2 * l + 3) = 2 ^ (l - 2) * 2 ^ (l + 5)"
    using m by (simp add: l_def flip: power_add)
  have "barrett_q x m * m * 2 ^ (l + 5) \<le> A * barrett_mu m * m"
    unfolding barrett_q_def l_def [symmetric] A_def [symmetric]
    by (metis div_times_less_eq_dividend mult.commute mult.left_commute mult_le_mono1)
  also have "\<dots> \<le> A * 2 ^ (2 * l + 3)"
    unfolding barrett_mu_def l_def [symmetric] by (metis div_times_less_eq_dividend mult.assoc mult_le_mono2)
  also have "\<dots> = A * 2 ^ (l - 2) * 2 ^ (l + 5)" by (simp add: e)
  also have "\<dots> \<le> x * 2 ^ (l + 5)" by (simp add: A_def)
  finally show ?thesis by simp
qed

lemma barrett_q_lower:
  assumes m: "2 \<le> bit_len m" and x: "x < 2 ^ (2 * bit_len m + 2)"
  shows "x < barrett_q x m * m + 2 * m"
proof -
  define l where "l = bit_len m"
  define A where "A = x div 2 ^ (l - 2)"
  define P where "P = (2::nat) ^ (l + 5)"
  define H where "H = (2::nat) ^ (l - 2)"
  have m0: "0 < m" using m by (metis bit_len_0 gr0I not_numeral_le_zero)
  have HP: "(2::nat) ^ (2 * l + 3) = H * P"
    using m by (simp add: l_def H_def P_def flip: power_add)
  have xlt: "x < (A + 1) * H"
    unfolding A_def H_def using dividend_less_times_div [of "2 ^ (l - 2)" x] by (simp add: algebra_simps)
  have "2 * l + 2 = (l - 2) + (l + 4)" using m l_def by simp
  then have "x < 2 ^ (l - 2) * 2 ^ (l + 4)" using x by (metis l_def power_add)
  then have "A < 2 ^ (l + 4)" unfolding A_def by (simp add: less_mult_imp_div_less mult.commute)
  then have A2: "2 * A < P" by (simp add: P_def power_add)
  have "2 * H * 1 \<le> 2 ^ (l - 1)" using m by (simp add: H_def l_def flip: power_Suc)
  also have "\<dots> \<le> m" unfolding l_def by (rule bit_len_lower [OF m0])
  finally have H2: "2 * H \<le> m" by simp
  define q where "q = barrett_q x m"
  have q1: "A * barrett_mu m < (q + 1) * P"
    unfolding q_def barrett_q_def l_def [symmetric] A_def [symmetric] P_def
    using dividend_less_times_div [of "2 ^ (l + 5)" "A * barrett_mu m"] by (simp add: algebra_simps)
  have mu1: "H * P < (barrett_mu m + 1) * m"
    unfolding barrett_mu_def l_def [symmetric] HP
    using dividend_less_times_div [OF m0, of "H * P"] by (simp add: algebra_simps)
  have "A * (H * P) \<le> A * ((barrett_mu m + 1) * m)" using mu1 by (simp add: mult_le_mono2 less_imp_le)
  also have "\<dots> = A * barrett_mu m * m + A * m" by (simp add: algebra_simps)
  also have "2 * \<dots> \<le> 2 * ((q + 1) * P) * m + P * m"
  proof -
    have "A * barrett_mu m * m \<le> (q + 1) * P * m" using q1 by (simp add: less_imp_le)
    moreover have "2 * (A * m) \<le> P * m" using A2 by (metis less_imp_le mult.assoc mult_le_mono1)
    moreover have "2 * ((q + 1) * P) * m = 2 * ((q + 1) * P * m)" by simp
    ultimately show ?thesis by (simp only: distrib_left)
  qed
  finally have "2 * A * H * P \<le> (2 * (q + 1) * m + m) * P" by (simp add: algebra_simps)
  then have "2 * A * H \<le> 2 * (q + 1) * m + m" by (simp add: P_def)
  moreover have "2 * x < 2 * A * H + 2 * H" using xlt by (simp add: algebra_simps)
  ultimately have "2 * x < 2 * (q + 1) * m + m + m" using H2 by linarith
  then show ?thesis by (simp add: q_def algebra_simps)
qed

lemma barrett_correction:
  assumes m: "2 \<le> bit_len m" and x: "x < 2 ^ (2 * bit_len m + 2)"
  defines "r \<equiv> x - barrett_q x m * m"
  shows "(if m \<le> r then r - m else r) = x mod m" "r < 2 * m" "barrett_q x m * m \<le> x"
proof -
  have m0: "0 < m" using m by (metis bit_len_0 gr0I not_numeral_le_zero)
  show le: "barrett_q x m * m \<le> x" by (rule barrett_q_upper [OF m0 m])
  show r: "r < 2 * m" using barrett_q_lower [OF m x] le by (simp add: r_def)
  have xm: "x mod m = r mod m" using le unfolding r_def
    by (metis mod_mult_self3 le_add_diff_inverse)
  show "(if m \<le> r then r - m else r) = x mod m"
    using r by (auto simp: xm le_mod_geq)
qed

lemma shoup_quotient:
  fixes a b m :: nat
  assumes "0 < m" "b < m" "a < W" "0 < W"
  defines "q \<equiv> a * (b * W div m) div W"
  shows "q * m \<le> a * b" "a * b < q * m + 2 * m"
proof -
  have "q * W \<le> a * (b * W div m)" unfolding q_def by (rule div_times_less_eq_dividend)
  then have "q * W * m \<le> a * ((b * W div m) * m)" by (metis mult.assoc mult_le_mono1)
  also have "\<dots> \<le> a * (b * W)" by (intro mult_le_mono2) (rule div_times_less_eq_dividend)
  finally have "q * m * W \<le> a * b * W" by (simp add: algebra_simps)
  then show "q * m \<le> a * b" using \<open>0 < W\<close> by simp
  have "b * W < (b * W div m) * m + m"
    using dividend_less_times_div [OF \<open>0 < m\<close>, of "b * W"] by (simp add: algebra_simps)
  then have "a * (b * W) \<le> a * ((b * W div m) * m) + a * m"
    by (metis add_mult_distrib2 less_imp_le mult_le_mono2)
  moreover have "a * (b * W div m) < q * W + W"
    using dividend_less_times_div [OF \<open>0 < W\<close>, of "a * (b * W div m)"] by (simp add: q_def algebra_simps)
  then have "a * (b * W div m) * m < (q * W + W) * m" using \<open>0 < m\<close> by simp
  moreover have "a * m < W * m" using assms(1,3) by (simp only: mult_less_mono1)
  ultimately have "a * b * W < (q * W + W) * m + W * m"
    unfolding mult.assoc [symmetric] by linarith
  also have "\<dots> = (q * m + 2 * m) * W" by (simp add: algebra_simps)
  finally show "a * b < q * m + 2 * m" by simp
qed

end
