(* ===== verification/NatInt.thy ===== *)
theory NatInt
  imports Barrett
begin

text \<open>
  The native integer \<open>NativeIntegerT\<close> of \<open>src/core/include/math/hal/intnat/ubintnat.h\<close>
  in the default build (\<open>NATIVEINT = 64\<close>, \<open>HAVE_INT128\<close>): the class holds one
  \<open>uint64_t\<close>, so a value is a \<open>u64\<close> and every method is a function of the words it
  reads; the double-word type \<open>DNativeInt\<close> is \<open>u128\<close>. Overloads selected by
  \<open>is_same<T, DNativeInt>\<close> belong to the 128-bit build and are not modelled.
  A method and its in-place variant \<open>...Eq\<close> are separate definitions, as in the code; an
  in-place variant returns the new value of the object. Division by a zero modulus and shifts by
  the width or more are undefined in C++; where the code does not test for them the lemmas exclude
  them by hypothesis.
\<close>

section \<open>Definitions\<close>

subsection \<open>Position of the most significant bit (nbtheory.h)\<close>

definition clz :: "'a::len word \<Rightarrow> nat" where
  "clz x = LENGTH('a) - bit_len (unat x)"

definition clz_u128 :: "u128 \<Rightarrow> nat" where
  "clz_u128 u =
     (let hi = ucast (drop_bit 64 u) :: u64; lo = ucast u :: u64
      in if hi \<noteq> 0 then clz hi else if lo \<noteq> 0 then clz lo + 64 else 128)"

definition GetMSB :: "u64 \<Rightarrow> u32" where
  "GetMSB x = (if x = 0 then 0 else 64 - of_nat (clz x))"

definition GetMSB_u128 :: "u128 \<Rightarrow> u32" where
  "GetMSB_u128 x = 128 - of_nat (clz_u128 x)"

definition GetMSB64 :: "u64 \<Rightarrow> u32" where
  "GetMSB64 x = GetMSB x"

subsection \<open>Strings\<close>

text \<open>\<open>char\<close> is signed on the supported platforms, so \<open>c - '0'\<close> may be negative.\<close>

definition char_minus_0 :: "char \<Rightarrow> int" where
  "char_minus_0 c = sint (of_nat (of_char c) :: u8) - 48"

fun SetValue_loop :: "string \<Rightarrow> string \<Rightarrow> u64 \<Rightarrow> u64 \<Rightarrow> u64 res" where
  "SetValue_loop str [] acc tst = Inr acc"
| "SetValue_loop str (c # cs) acc tst =
     (if char_minus_0 c > 9 then Inl (OpenFHEError ''String contains a non-digit'')
      else let acc' = 10 * acc + word_of_int (char_minus_0 c)
           in if acc' < tst
              then Inl (OpenFHEError (str @ '' is too large to fit in this native integer object''))
              else SetValue_loop str cs acc' acc')"

definition SetValue :: "string \<Rightarrow> u64 res" where
  "SetValue str = SetValue_loop str str 0 0"

definition SetIdentity :: u64 where
  "SetIdentity = 1"

text \<open>\<open>std::to_string\<close>: the decimal digits, most significant first.\<close>

fun std_to_string :: "nat \<Rightarrow> string" where
  "std_to_string n =
     (if n < 10 then [char_of (48 + n)] else std_to_string (n div 10) @ [char_of (48 + n mod 10)])"

declare std_to_string.simps [simp del]

definition ToString :: "u64 \<Rightarrow> string" where
  "ToString x = std_to_string (unat x)"

fun FromBinaryString_loop :: "string \<Rightarrow> u64 \<Rightarrow> u64 res" where
  "FromBinaryString_loop [] v = Inr v"
| "FromBinaryString_loop (c # cs) v =
     (let n = char_minus_0 c
      in if n < 0 \<or> n > 1 then Inl (OpenFHEError ''Bit string must contain only 0 or 1'')
         else FromBinaryString_loop cs (push_bit 1 v OR word_of_int n))"

definition FromBinaryString :: "string \<Rightarrow> u64 res" where
  "FromBinaryString bitString =
     (if length bitString > 64
      then Inl (OpenFHEError ''Bit string is too long to fit in an intnat'')
      else FromBinaryString_loop bitString 0)"

subsection \<open>Plain arithmetic\<close>

text \<open>\<open>NATIVEINT_DO_CHECKS\<close> is false, so the dispatching operations take the fast branch.\<close>

definition NATIVEINT_DO_CHECKS :: bool where
  "NATIVEINT_DO_CHECKS = False"

definition AddCheck :: "u64 \<Rightarrow> u64 \<Rightarrow> u64 res" where
  "AddCheck a b =
     (let r = a + b
      in if r < a \<or> r < b then Inl (OpenFHEError ''NativeIntegerT AddCheck: Overflow'') else Inr r)"

definition AddFast :: "u64 \<Rightarrow> u64 \<Rightarrow> u64" where
  "AddFast a b = b + a"

definition Add :: "u64 \<Rightarrow> u64 \<Rightarrow> u64 res" where
  "Add a b = (if NATIVEINT_DO_CHECKS then AddCheck a b else Inr (AddFast a b))"

definition AddEqCheck :: "u64 \<Rightarrow> u64 \<Rightarrow> u64 res" where
  "AddEqCheck a b =
     (let r = a + b
      in if r < a then Inl (OpenFHEError ''NativeIntegerT AddEqCheck: Overflow'') else Inr r)"

definition AddEqFast :: "u64 \<Rightarrow> u64 \<Rightarrow> u64" where
  "AddEqFast a b = b + a"

definition AddEq :: "u64 \<Rightarrow> u64 \<Rightarrow> u64 res" where
  "AddEq a b = (if NATIVEINT_DO_CHECKS then AddEqCheck a b else Inr (AddEqFast a b))"

definition SubCheck :: "u64 \<Rightarrow> u64 \<Rightarrow> u64" where
  "SubCheck a b = (if a \<le> b then 0 else a - b)"

definition SubFast :: "u64 \<Rightarrow> u64 \<Rightarrow> u64" where
  "SubFast a b = a - b"

definition Sub :: "u64 \<Rightarrow> u64 \<Rightarrow> u64" where
  "Sub a b = (if NATIVEINT_DO_CHECKS then SubCheck a b else SubFast a b)"

definition SubEqCheck :: "u64 \<Rightarrow> u64 \<Rightarrow> u64 res" where
  "SubEqCheck a b =
     (if a < b then Inl (OpenFHEError ''NativeIntegerT SubEqCheck: neg value'') else Inr (a - b))"

definition SubEqFast :: "u64 \<Rightarrow> u64 \<Rightarrow> u64" where
  "SubEqFast a b = a - b"

definition SubEq :: "u64 \<Rightarrow> u64 \<Rightarrow> u64 res" where
  "SubEq a b = (if NATIVEINT_DO_CHECKS then SubEqCheck a b else Inr (SubEqFast a b))"

definition uminus_op :: "u64 \<Rightarrow> u64" where
  "uminus_op a = Sub 0 a"

definition MulCheck :: "u64 \<Rightarrow> u64 \<Rightarrow> u64 res" where
  "MulCheck a b =
     (let p = b * a
      in if p < a \<or> p < b then Inl (OpenFHEError ''NativeIntegerT MulCheck: Overflow'') else Inr p)"

definition MulFast :: "u64 \<Rightarrow> u64 \<Rightarrow> u64" where
  "MulFast a b = b * a"

definition Mul :: "u64 \<Rightarrow> u64 \<Rightarrow> u64 res" where
  "Mul a b = (if NATIVEINT_DO_CHECKS then MulCheck a b else Inr (MulFast a b))"

definition MulEqCheck :: "u64 \<Rightarrow> u64 \<Rightarrow> u64 res" where
  "MulEqCheck a b =
     (let r = a * b
      in if r < a then Inl (OpenFHEError ''NativeIntegerT MulEqCheck: Overflow'') else Inr r)"

definition MulEqFast :: "u64 \<Rightarrow> u64 \<Rightarrow> u64" where
  "MulEqFast a b = b * a"

definition MulEq :: "u64 \<Rightarrow> u64 \<Rightarrow> u64 res" where
  "MulEq a b = (if NATIVEINT_DO_CHECKS then MulEqCheck a b else Inr (MulEqFast a b))"

definition DividedBy :: "u64 \<Rightarrow> u64 \<Rightarrow> u64 res" where
  "DividedBy a b =
     (if b = 0 then Inl (OpenFHEError ''NativeIntegerT DividedBy: zero'') else Inr (a div b))"

definition DividedByEq :: "u64 \<Rightarrow> u64 \<Rightarrow> u64 res" where
  "DividedByEq a b =
     (if b = 0 then Inl (OpenFHEError ''NativeIntegerT DividedByEq: zero'') else Inr (a div b))"

text \<open>\<open>for (x = m_value; p > 0; p >>= 1, x *= x) r *= (p & 1) ? x : 1\<close>\<close>

function Exp_loop :: "u64 \<Rightarrow> u64 \<Rightarrow> u32 \<Rightarrow> u64" where
  "Exp_loop r x p =
     (if p > 0 then Exp_loop (r * (if p AND 1 \<noteq> 0 then x else 1)) (x * x) (drop_bit 1 p) else r)"
  by pat_completeness auto
termination
  by (relation "measure (\<lambda>(r, x, p). unat p)")
    (auto simp: drop_bit_eq_div word_less_nat_alt unat_div)

declare Exp_loop.simps [simp del]

definition Exp :: "u64 \<Rightarrow> u32 \<Rightarrow> u64" where
  "Exp a p = Exp_loop 1 a p"

definition ExpEq :: "u64 \<Rightarrow> u32 \<Rightarrow> u64" where
  "ExpEq a p = Exp_loop 1 a p"

definition DivideAndRound :: "u64 \<Rightarrow> u64 \<Rightarrow> u64 res" where
  "DivideAndRound a q =
     (if q = 0 then Inl (OpenFHEError ''NativeIntegerT DivideAndRound: zero'')
      else let ans = a div q; rem = a mod q; halfQ = drop_bit 1 q
           in if rem > halfQ then Inr (ans + 1) else Inr ans)"

definition DivideAndRoundEq :: "u64 \<Rightarrow> u64 \<Rightarrow> u64 res" where
  "DivideAndRoundEq a q =
     (if q = 0 then Inl (OpenFHEError ''NativeIntegerT DivideAndRoundEq: zero'')
      else let ans = a div q; rem = a mod q; halfQ = drop_bit 1 q
           in if rem > halfQ then Inr (ans + 1) else Inr ans)"

subsection \<open>Double words\<close>

record 'w typeD =
  hiD :: 'w
  loD :: 'w

definition MaxBits :: nat where
  "MaxBits = 64"

definition MultD :: "u64 \<Rightarrow> u64 \<Rightarrow> u64 typeD" where
  "MultD a b =
     (let c = ucast a * ucast b :: u128
      in \<lparr>hiD = ucast (drop_bit 64 c), loD = ucast c\<rparr>)"

definition MultDHi :: "u64 \<Rightarrow> u64 \<Rightarrow> u64" where
  "MultDHi a b = hiD (MultD a b)"

definition RShiftD :: "u64 typeD \<Rightarrow> nat \<Rightarrow> u64" where
  "RShiftD x shift = drop_bit shift (loD x) OR push_bit (MaxBits - shift) (hiD x)"

definition GetD :: "u64 typeD \<Rightarrow> u128" where
  "GetD x = push_bit MaxBits (ucast (hiD x)) OR ucast (loD x)"

subsection \<open>Modular reduction\<close>

definition Mod :: "u64 \<Rightarrow> u64 \<Rightarrow> u64" where
  "Mod a modulus = a mod modulus"

definition ModEq :: "u64 \<Rightarrow> u64 \<Rightarrow> u64" where
  "ModEq a modulus = a mod modulus"

definition ComputeMu :: "u64 \<Rightarrow> u64 res" where
  "ComputeMu m =
     (if m = 0 then Inl (OpenFHEError ''NativeIntegerT ComputeMu: Divide by zero'')
      else let tmp = push_bit (2 * unat (GetMSB m) + 3) (1 :: u128)
           in Inr (ucast (tmp div ucast m)))"

text \<open>The shift amount \<open>GetMSB() - 2\<close> is computed in \<open>uint32_t\<close>.\<close>

definition barrett_n :: "u64 \<Rightarrow> nat" where
  "barrett_n modulus = unat (GetMSB modulus - 2)"

definition ModMu :: "u64 \<Rightarrow> u64 \<Rightarrow> u64 \<Rightarrow> nat \<Rightarrow> u64" where
  "ModMu a mv mu n =
     (let prod = MultD (RShiftD \<lparr>hiD = 0, loD = a\<rparr> n) mu;
          a' = a - ucast (drop_bit (n + 7) (GetD prod) * ucast mv)
      in if a' \<ge> mv then a' - mv else a')"

definition Mod_mu :: "u64 \<Rightarrow> u64 \<Rightarrow> u64 \<Rightarrow> u64" where
  "Mod_mu a modulus mu = ModMu a modulus mu (barrett_n modulus)"

definition ModEq_mu :: "u64 \<Rightarrow> u64 \<Rightarrow> u64 \<Rightarrow> u64" where
  "ModEq_mu a modulus mu = ModMu a modulus mu (barrett_n modulus)"

subsection \<open>Modular addition and subtraction\<close>

definition ModAdd :: "u64 \<Rightarrow> u64 \<Rightarrow> u64 \<Rightarrow> u64" where
  "ModAdd a b mv =
     (let av = (if a \<ge> mv then a mod mv else a);
          bv = (if b \<ge> mv then b mod mv else b);
          av = av + bv
      in if av \<ge> mv then av - mv else av)"

definition ModAddEq :: "u64 \<Rightarrow> u64 \<Rightarrow> u64 \<Rightarrow> u64" where
  "ModAddEq a b mv =
     (let a = (if a \<ge> mv then a mod mv else a);
          bv = (if b \<ge> mv then b mod mv else b);
          a = a + bv
      in if a \<ge> mv then a - mv else a)"

definition ModAddFast :: "u64 \<Rightarrow> u64 \<Rightarrow> u64 \<Rightarrow> u64" where
  "ModAddFast a b mv = (let r = a + b in if r \<ge> mv then r - mv else r)"

definition ModAddFastEq :: "u64 \<Rightarrow> u64 \<Rightarrow> u64 \<Rightarrow> u64" where
  "ModAddFastEq a b mv = (let a = a + b in if a \<ge> mv then a - mv else a)"

definition ModAdd_mu :: "u64 \<Rightarrow> u64 \<Rightarrow> u64 \<Rightarrow> u64 \<Rightarrow> u64" where
  "ModAdd_mu a b modulus mu =
     (let av = (if a \<ge> modulus then ModEq_mu a modulus mu else a);
          bv = (if b \<ge> modulus then ModEq_mu b modulus mu else b);
          av = av + bv
      in if av \<ge> modulus then av - modulus else av)"

definition ModAddEq_mu :: "u64 \<Rightarrow> u64 \<Rightarrow> u64 \<Rightarrow> u64 \<Rightarrow> u64" where
  "ModAddEq_mu a b modulus mu =
     (let av = (if a \<ge> modulus then ModEq_mu a modulus mu else a);
          bv = (if b \<ge> modulus then ModEq_mu b modulus mu else b);
          r = av + bv
      in if r \<ge> modulus then r - modulus else r)"

definition ModSub :: "u64 \<Rightarrow> u64 \<Rightarrow> u64 \<Rightarrow> u64" where
  "ModSub a b mv =
     (let av = (if a \<ge> mv then a mod mv else a);
          bv = (if b \<ge> mv then b mod mv else b)
      in if av < bv then av + mv - bv else av - bv)"

definition ModSubEq :: "u64 \<Rightarrow> u64 \<Rightarrow> u64 \<Rightarrow> u64" where
  "ModSubEq a b mv =
     (let av = (if a \<ge> mv then a mod mv else a);
          bv = (if b \<ge> mv then b mod mv else b)
      in if av < bv then av + mv - bv else av - bv)"

definition ModSubFast :: "u64 \<Rightarrow> u64 \<Rightarrow> u64 \<Rightarrow> u64" where
  "ModSubFast a b modulus = (if a < b then a + modulus - b else a - b)"

definition ModSubFastEq :: "u64 \<Rightarrow> u64 \<Rightarrow> u64 \<Rightarrow> u64" where
  "ModSubFastEq a b modulus = (if a < b then a + modulus - b else a - b)"

definition ModSub_mu :: "u64 \<Rightarrow> u64 \<Rightarrow> u64 \<Rightarrow> u64 \<Rightarrow> u64" where
  "ModSub_mu a b modulus mu =
     (let av = (if a \<ge> modulus then ModEq_mu a modulus mu else a);
          bv = (if b \<ge> modulus then ModEq_mu b modulus mu else b)
      in if av < bv then av + modulus - bv else av - bv)"

definition ModSubEq_mu :: "u64 \<Rightarrow> u64 \<Rightarrow> u64 \<Rightarrow> u64 \<Rightarrow> u64" where
  "ModSubEq_mu a b modulus mu =
     (let av = (if a \<ge> modulus then ModEq_mu a modulus mu else a);
          bv = (if b \<ge> modulus then ModEq_mu b modulus mu else b)
      in if av < bv then av + modulus - bv else av - bv)"

subsection \<open>Modular multiplication\<close>

definition ModMul :: "u64 \<Rightarrow> u64 \<Rightarrow> u64 \<Rightarrow> u64" where
  "ModMul a b mv =
     (let av = (if a \<ge> mv then a mod mv else a);
          bv = (if b \<ge> mv then b mod mv else b);
          rv = ucast av * ucast bv :: u128;
          dmv = ucast mv
      in ucast (if rv \<ge> dmv then rv mod dmv else rv))"

definition ModMulEq :: "u64 \<Rightarrow> u64 \<Rightarrow> u64 \<Rightarrow> u64" where
  "ModMulEq a b mv =
     (let av = (if a \<ge> mv then a mod mv else a);
          bv = (if b \<ge> mv then b mod mv else b);
          rv = ucast av * ucast bv :: u128;
          dmv = ucast mv
      in ucast (if rv \<ge> dmv then rv mod dmv else rv))"

definition ModMulFast :: "u64 \<Rightarrow> u64 \<Rightarrow> u64 \<Rightarrow> u64" where
  "ModMulFast a b mv =
     (let rv = ucast a * ucast b :: u128; dmv = ucast mv
      in ucast (if rv \<ge> dmv then rv mod dmv else rv))"

definition ModMulFastEq :: "u64 \<Rightarrow> u64 \<Rightarrow> u64 \<Rightarrow> u64" where
  "ModMulFastEq a b mv =
     (let rv = ucast a * ucast b :: u128; dmv = ucast mv
      in ucast (if rv \<ge> dmv then rv mod dmv else rv))"

definition ModMul_mu :: "u64 \<Rightarrow> u64 \<Rightarrow> u64 \<Rightarrow> u64 \<Rightarrow> u64" where
  "ModMul_mu a b mv mu =
     (let n = barrett_n mv;
          av = (if a \<ge> mv then ModMu a mv mu n else a);
          bv = (if b \<ge> mv then ModMu b mv mu n else b);
          tmp = MultD av bv;
          rv = GetD tmp;
          tmp = MultD (RShiftD tmp n) mu;
          rv = rv - ucast mv * drop_bit (n + 7) (GetD tmp);
          r = ucast rv
      in if r \<ge> mv then r - mv else r)"

definition ModMulEq_mu :: "u64 \<Rightarrow> u64 \<Rightarrow> u64 \<Rightarrow> u64 \<Rightarrow> u64" where
  "ModMulEq_mu a b mv mu =
     (let n = barrett_n mv;
          av = (if a \<ge> mv then ModMu a mv mu n else a);
          bv = (if b \<ge> mv then ModMu b mv mu n else b);
          tmp = MultD av bv;
          rv = GetD tmp;
          tmp = MultD (RShiftD tmp n) mu;
          rv = rv - ucast mv * drop_bit (n + 7) (GetD tmp);
          r = ucast rv
      in if r \<ge> mv then r - mv else r)"

definition ModMulFast_mu :: "u64 \<Rightarrow> u64 \<Rightarrow> u64 \<Rightarrow> u64 \<Rightarrow> u64" where
  "ModMulFast_mu a b mv mu =
     (let n = barrett_n mv;
          tmp = MultD a b;
          rv = GetD tmp;
          tmp = MultD (RShiftD tmp n) mu;
          rv = rv - ucast mv * drop_bit (n + 7) (GetD tmp);
          r = ucast rv
      in if r \<ge> mv then r - mv else r)"

definition ModMulFastEq_mu :: "u64 \<Rightarrow> u64 \<Rightarrow> u64 \<Rightarrow> u64 \<Rightarrow> u64" where
  "ModMulFastEq_mu a b mv mu =
     (let tmp = MultD a b;
          rv = GetD tmp;
          n = barrett_n mv;
          tmp = MultD (RShiftD tmp n) mu;
          rv = rv - ucast mv * drop_bit (n + 7) (GetD tmp);
          r = ucast rv
      in if r \<ge> mv then r - mv else r)"

text \<open>The multiplication by a constant prepared in advance (Shoup, Harvey).\<close>

definition PrepModMulConst :: "u64 \<Rightarrow> u64 \<Rightarrow> u64 res" where
  "PrepModMulConst b modulus =
     (if modulus = 0 then Inl (OpenFHEError ''Divide by zero'')
      else let w = push_bit MaxBits (ucast b) :: u128 in Inr (ucast (w div ucast modulus)))"

text \<open>\<open>yprime\<close> is the difference read as \<open>int64_t\<close>; the sum with the unsigned modulus is unsigned.\<close>

definition ModMulFastConst :: "u64 \<Rightarrow> u64 \<Rightarrow> u64 \<Rightarrow> u64 \<Rightarrow> u64" where
  "ModMulFastConst a b modulus bInv =
     (let q = MultDHi a bInv + 1;
          yprime = a * b - q * modulus
      in if sint yprime \<ge> 0 then yprime else yprime + modulus)"

definition ModMulFastConstEq :: "u64 \<Rightarrow> u64 \<Rightarrow> u64 \<Rightarrow> u64 \<Rightarrow> u64" where
  "ModMulFastConstEq a b modulus bInv =
     (let q = MultDHi a bInv + 1;
          yprime = a * b - q * modulus
      in if sint yprime \<ge> 0 then yprime else yprime + modulus)"

subsection \<open>Modular exponentiation and inverse\<close>

function ModExp_loop :: "u128 \<Rightarrow> u128 \<Rightarrow> u128 \<Rightarrow> u128 \<Rightarrow> u128" where
  "ModExp_loop t p m r =
     (let p' = drop_bit 1 p
      in if p' \<noteq> 0
         then let t' = t * t;
                  t'' = (if t' \<ge> m then t' mod m else t');
                  r' = (if p' AND 1 \<noteq> 0
                        then (let r1 = r * t'' in if r1 \<ge> m then r1 mod m else r1) else r)
              in ModExp_loop t'' p' m r'
         else r)"
  by pat_completeness auto
termination
  by (relation "measure (\<lambda>(t, p, m, r). unat p)")
    (auto simp: drop_bit_eq_div unat_div word_less_nat_alt unat_0_iff [symmetric] simp del: unat_0_iff)

declare ModExp_loop.simps [simp del]

definition ModExp :: "u64 \<Rightarrow> u64 \<Rightarrow> u64 \<Rightarrow> u64" where
  "ModExp a b md =
     (let t = ucast a :: u128; p = ucast b; m = ucast md; r = 1;
          r = (if p AND 1 \<noteq> 0 then (let r1 = r * t in if r1 \<ge> m then r1 mod m else r1) else r)
      in ucast (ModExp_loop t p m r))"

definition ModExpEq :: "u64 \<Rightarrow> u64 \<Rightarrow> u64 \<Rightarrow> u64" where
  "ModExpEq a b md = ModExp a b md"

text \<open>
  The extended Euclidean loop of \<open>ModInverse\<close> works on \<open>int64_t\<close>: a result outside its
  range is undefined behaviour (\<open>SignedOverflow\<close>) and so is a zero divisor
  (\<open>DivideByZero\<close>). C++ division truncates, so \<open>sdiv\<close> and \<open>smod\<close>.
\<close>

definition i64 :: "int \<Rightarrow> int res" where
  "i64 x = (if - (2 ^ 63) \<le> x \<and> x < 2 ^ 63 then Inr x else Inl SignedOverflow)"

function ModInverse_loop :: "int \<Rightarrow> int \<Rightarrow> int \<Rightarrow> int \<Rightarrow> int res" where
  "ModInverse_loop a modulus y x =
     (if a > 1 then
        if modulus = 0 then Inl DivideByZero
        else let t = modulus; q = a sdiv t in
             ebind (i64 (q * y)) (\<lambda>qy. ebind (i64 (x - qy)) (\<lambda>y'.
               ModInverse_loop t (a smod t) y' y))
      else Inr x)"
  by pat_completeness auto
termination
  by (relation "measure (\<lambda>(a, modulus, y, x). nat \<bar>modulus\<bar>)")
    (auto simp: signed_modulo_int_def abs_mult sgn_if)

declare ModInverse_loop.simps [simp del]

definition ModInverse :: "u64 \<Rightarrow> u64 \<Rightarrow> u64 res" where
  "ModInverse v md =
     (if md = 0 then Inl DivideByZero
      else let modulus = sint md; a = sint (v mod md)
      in if a = 0
         then Inl (OpenFHEError (ToString v @ '' does not have a ModInverse using '' @ ToString md))
         else if modulus = 1 then Inr 0
         else ebind (ModInverse_loop a modulus 0 1) (\<lambda>x.
                Inr (if x < 0 then word_of_int x + md else word_of_int x)))"

definition ModInverseEq :: "u64 \<Rightarrow> u64 \<Rightarrow> u64 res" where
  "ModInverseEq v md = ModInverse v md"

subsection \<open>Shifts, comparison, bits and digits\<close>

definition LShift :: "u64 \<Rightarrow> nat \<Rightarrow> u64 res" where
  "LShift a shift = (if shift < MaxBits then Inr (push_bit shift a) else Inl ShiftOutOfRange)"

definition LShiftEq :: "u64 \<Rightarrow> nat \<Rightarrow> u64 res" where
  "LShiftEq a shift = (if shift < MaxBits then Inr (push_bit shift a) else Inl ShiftOutOfRange)"

definition RShift :: "u64 \<Rightarrow> nat \<Rightarrow> u64 res" where
  "RShift a shift = (if shift < MaxBits then Inr (drop_bit shift a) else Inl ShiftOutOfRange)"

definition RShiftEq :: "u64 \<Rightarrow> nat \<Rightarrow> u64 res" where
  "RShiftEq a shift = (if shift < MaxBits then Inr (drop_bit shift a) else Inl ShiftOutOfRange)"

definition Compare :: "u64 \<Rightarrow> u64 \<Rightarrow> int" where
  "Compare a b = (if a < b then -1 else if a > b then 1 else 0)"

definition GetLengthForBase :: "u64 \<Rightarrow> u32 \<Rightarrow> u32" where
  "GetLengthForBase a base = GetMSB a"

text \<open>Bit positions count from 1; a shift by 64 or more is undefined.\<close>

definition GetBitAtIndex :: "u64 \<Rightarrow> u32 \<Rightarrow> u8 res" where
  "GetBitAtIndex a index =
     (if index = 0 then Inl (OpenFHEError ''Zero index in GetBitAtIndex'')
      else if unat (index - 1) < MaxBits then Inr (ucast (drop_bit (unat (index - 1)) a AND 1))
      else Inl ShiftOutOfRange)"

text \<open>\<open>ceil(log2(base))\<close> is exact for a 32-bit \<open>base\<close>.\<close>

definition ceil_log2 :: "nat \<Rightarrow> nat" where
  "ceil_log2 b = bit_len (b - 1)"

text \<open>
  The counter \<open>i\<close> of the loop is \<open>1 << k\<close>; it becomes 0 when \<open>base\<close> is above \<open>2^31\<close>
  and the loop then never ends.
\<close>

function GetDigit_loop :: "u64 \<Rightarrow> u32 \<Rightarrow> u32 \<Rightarrow> u32 \<Rightarrow> nat \<Rightarrow> u32 res" where
  "GetDigit_loop a base newIndex digit k =
     (let i = push_bit k 1 :: u32
      in if k \<ge> 32 then Inl Diverges
         else if i < base
         then ebind (GetBitAtIndex a newIndex) (\<lambda>bt.
                GetDigit_loop a base (newIndex + 1) (digit + ucast bt * i) (Suc k))
         else Inr digit)"
  by pat_completeness auto
termination
  by (relation "measure (\<lambda>(a, base, newIndex, digit, k). 32 - k)") auto

declare GetDigit_loop.simps [simp del]

definition GetDigitAtIndexForBase :: "u64 \<Rightarrow> u32 \<Rightarrow> u32 \<Rightarrow> u32 res" where
  "GetDigitAtIndexForBase a index base =
     (let DigitLen = of_nat (ceil_log2 (unat base));
          newIndex = 1 + (index - 1) * DigitLen
      in GetDigit_loop a base newIndex 0 0)"

subsection \<open>Serialization\<close>

text \<open>An archive is the list of 64-bit words written; \<open>version\<close> is checked on reading.\<close>

definition SerializedVersion :: nat where
  "SerializedVersion = 1"

definition save_u64 :: "u64 \<Rightarrow> u64 list" where
  "save_u64 v = [v]"

definition load_u64 :: "nat \<Rightarrow> u64 list \<Rightarrow> u64 res" where
  "load_u64 version ar =
     (if version > SerializedVersion
      then Inl (OpenFHEError (''serialized object version '' @ std_to_string version @
             '' is from a later version of the library''))
      else case ar of v # _ \<Rightarrow> Inr v | [] \<Rightarrow> Inl OutOfRange)"

definition save_u128 :: "u128 \<Rightarrow> u64 list" where
  "save_u128 m_value =
     (let mask = push_bit 64 1 - 1 in [ucast (m_value AND mask), ucast (drop_bit 64 m_value)])"

definition load_u128 :: "nat \<Rightarrow> u64 list \<Rightarrow> u128 res" where
  "load_u128 version ar =
     (if version > SerializedVersion
      then Inl (OpenFHEError (''serialized object version '' @ std_to_string version @
             '' is from a later version of the library''))
      else case ar of v0 # v1 # _ \<Rightarrow> Inr (push_bit 64 (ucast v1) + ucast v0) | _ \<Rightarrow> Inl OutOfRange)"

section \<open>Facts\<close>

subsection \<open>Double words and Barrett reduction\<close>

lemma unat_GetMSB: "unat (GetMSB x) = bit_len (unat x)"
proof -
  have le: "bit_len (unat x) \<le> 64" by (rule bit_len_unat_le)
  then obtain k where k: "bit_len (unat x) = 64 - k" "k \<le> 64" by (metis diff_diff_cancel diff_le_self)
  have "unat (of_nat k :: u32) = k" using k(2) by (simp add: unat_of_nat take_bit_nat_eq_self_iff)
  then have "unat (64 - of_nat k :: u32) = 64 - k"
    using k(2) by (subst unat_sub) (simp_all add: word_le_nat_alt)
  with k show ?thesis by (auto simp: GetMSB_def clz_def)
qed

lemma GetD_MultD: "GetD (MultD a b) = ucast a * ucast b"
  unfolding GetD_def MultD_def Let_def MaxBits_def
  by (rule bit_word_eqI) (auto simp: bit_simps)

lemma unat_GetD_MultD: "unat (GetD (MultD a b)) = unat a * unat b"
  by (simp add: GetD_MultD unat_mult_ucast)

lemma RShiftD_GetD: "0 < n \<Longrightarrow> n < 64 \<Longrightarrow> RShiftD x n = ucast (drop_bit n (GetD x))"
  unfolding GetD_def RShiftD_def MaxBits_def
  by (rule bit_word_eqI) (auto simp: bit_simps add.commute)

lemma unat_RShiftD: "0 < n \<Longrightarrow> n < 64 \<Longrightarrow> unat (RShiftD x n) = unat (GetD x) div 2 ^ n mod 2 ^ 64"
  by (simp add: RShiftD_GetD unat_ucast_64 unat_drop_bit del: drop_bit_eq_div)

lemma unat_RShiftD_MultD:
  "0 < n \<Longrightarrow> n < 64 \<Longrightarrow> unat (RShiftD (MultD a b) n) = unat a * unat b div 2 ^ n mod 2 ^ 64"
  by (simp add: unat_RShiftD unat_GetD_MultD)

lemma unat_RShiftD_lo: 
  "0 < n \<Longrightarrow> n < 64 \<Longrightarrow> unat (RShiftD \<lparr>hiD = 0, loD = a\<rparr> n) = unat a div 2 ^ n"
proof -
  assume "0 < n" "n < 64"
  moreover have "unat a div 2 ^ n < 2 ^ 64" using unat_less_64 [of a]
    by (meson div_le_dividend le_less_trans)
  ultimately show ?thesis by (simp add: unat_RShiftD GetD_def MaxBits_def)
qed

lemma unat_MultDHi: "unat (MultDHi a b) = unat a * unat b div 2 ^ 64"
proof -
  have "unat a * unat b < 2 ^ 64 * 2 ^ 64"
    using unat_less_64 [of a] unat_less_64 [of b] by (intro mult_strict_mono) auto
  then have "unat a * unat b div 2 ^ 64 < 2 ^ 64" by (simp add: less_mult_imp_div_less)
  then show ?thesis
    by (simp add: MultDHi_def MultD_def Let_def unat_ucast_64 unat_drop_bit unat_mult_ucast)
qed

definition barrett_modulus :: "u64 \<Rightarrow> bool" where
  "barrett_modulus m \<longleftrightarrow> 4 \<le> unat m \<and> unat m < 2 ^ 60 \<and> unat m \<noteq> 2 ^ 59"

lemma barrett_modulus_bit_len:
  assumes "barrett_modulus m"
  shows "3 \<le> bit_len (unat m)" "bit_len (unat m) \<le> 60"
proof -
  have "\<not> bit_len (unat m) \<le> 2" using assms by (simp add: bit_len_le_iff barrett_modulus_def)
  then show "3 \<le> bit_len (unat m)" by simp
  show "bit_len (unat m) \<le> 60" using assms by (simp add: bit_len_le_iff barrett_modulus_def)
qed

lemma barrett_mu_less:
  assumes "barrett_modulus m"
  shows "barrett_mu (unat m) < 2 ^ 64"
proof -
  define l where "l = bit_len (unat m)"
  have l: "3 \<le> l" "l \<le> 60" using barrett_modulus_bit_len [OF assms] by (simp_all add: l_def)
  have m: "2 ^ (l - 1) \<le> unat m" "0 < unat m"
    using assms bit_len_lower [of "unat m"] by (simp_all add: l_def barrett_modulus_def)
  have "2 ^ (2 * l + 3) < 2 ^ 64 * unat m"
  proof (cases "l = 60")
    case True
    with m assms have "2 ^ 59 < unat m" by (simp add: barrett_modulus_def)
    then have "2 ^ 64 * 2 ^ 59 < 2 ^ 64 * unat m" by simp
    with True show ?thesis by (simp flip: power_add)
  next
    case False
    with l have "2 * l + 3 < 64 + (l - 1)" by simp
    then have "(2::nat) ^ (2 * l + 3) < 2 ^ (64 + (l - 1))" by (rule power_strict_increasing) simp
    also have "\<dots> \<le> 2 ^ 64 * unat m" using m by (simp add: power_add)
    finally show ?thesis .
  qed
  then show ?thesis by (simp add: barrett_mu_def less_mult_imp_div_less flip: l_def)
qed

lemma ComputeMu_barrett:
  assumes "barrett_modulus m"
  obtains mu where "ComputeMu m = Inr mu" "unat mu = barrett_mu (unat m)"
proof -
  define l where "l = bit_len (unat m)"
  have l: "l \<le> 60" using barrett_modulus_bit_len [OF assms] by (simp add: l_def)
  define tmp where "tmp = push_bit (2 * l + 3) (1::u128)"
  have "(2::nat) ^ (2 * l + 3) < 2 ^ 128" using l by (intro power_strict_increasing) simp_all
  then have tmp: "unat tmp = 2 ^ (2 * l + 3)"
    unfolding tmp_def by (simp only: unat_push_bit) simp
  have "unat (ucast (tmp div ucast m) :: u64) = barrett_mu (unat m)"
    using barrett_mu_less [OF assms]
    by (simp add: unat_ucast_64 unat_div tmp barrett_mu_def flip: l_def)
  moreover have "m \<noteq> 0" using assms by (auto simp: barrett_modulus_def)
  ultimately show ?thesis
    by (intro that) (auto simp: ComputeMu_def unat_GetMSB Let_def tmp_def l_def)
qed

lemma barrett_n_eq: "2 \<le> bit_len (unat m) \<Longrightarrow> barrett_n m = bit_len (unat m) - 2"
proof -
  assume "2 \<le> bit_len (unat m)"
  then have "2 \<le> GetMSB m" by (simp add: word_le_nat_alt unat_GetMSB)
  then show ?thesis by (simp add: barrett_n_def unat_sub unat_GetMSB)
qed

text \<open>The high word product that both reductions compute is the Barrett quotient.\<close>

lemma barrett_quotient_word:
  assumes m: "barrett_modulus m" and x: "x < 2 ^ (2 * bit_len (unat m) + 2)"
    and r: "unat r = x div 2 ^ (bit_len (unat m) - 2) mod 2 ^ 64" and mu: "unat mu = barrett_mu (unat m)"
  shows "unat (drop_bit (barrett_n m + 7) (GetD (MultD r mu))) = barrett_q x (unat m)"
proof -
  define l where "l = bit_len (unat m)"
  have l: "3 \<le> l" "l \<le> 60" using barrett_modulus_bit_len [OF m] by (simp_all add: l_def)
  have "2 * l + 2 = (l - 2) + (l + 4)" using l by simp
  then have "x < 2 ^ (l - 2) * 2 ^ (l + 4)" using x by (metis l_def power_add)
  then have "x div 2 ^ (l - 2) < 2 ^ (l + 4)" by (simp add: less_mult_imp_div_less mult.commute)
  also have "\<dots> \<le> 2 ^ 64" using l by (intro power_increasing) simp_all
  finally have rr: "unat r = x div 2 ^ (l - 2)" using r by (simp add: l_def)
  have bn: "barrett_n m + 7 = l + 5" using l by (simp add: barrett_n_eq flip: l_def)
  show ?thesis
    unfolding barrett_q_def unat_drop_bit unat_GetD_MultD bn rr mu l_def [symmetric] by (rule refl)
qed

lemma ModMu_correct:
  assumes m: "barrett_modulus m" and mu: "unat mu = barrett_mu (unat m)"
    and x: "unat a < 2 ^ (2 * bit_len (unat m) + 2)"
  shows "unat (ModMu a m mu (barrett_n m)) = unat a mod unat m"
proof -
  define l where "l = bit_len (unat m)"
  define q where "q = barrett_q (unat a) (unat m)"
  define pr where "pr = GetD (MultD (RShiftD \<lparr>hiD = 0, loD = a\<rparr> (barrett_n m)) mu)"
  have l: "3 \<le> l" "l \<le> 60" using barrett_modulus_bit_len [OF m] by (simp_all add: l_def)
  have n: "barrett_n m = l - 2" using l by (simp add: barrett_n_eq l_def)
  have bl: "2 \<le> bit_len (unat m)" using l by (simp add: l_def)
  note bc = barrett_correction [OF bl x, folded q_def]
  have qm: "q * unat m < 2 ^ 64" using bc(3) unat_less_64 [of a] by linarith
  have "unat a div 2 ^ (l - 2) < 2 ^ 64" using unat_less_64 [of a] by (meson div_le_dividend le_less_trans)
  then have "unat (drop_bit (barrett_n m + 7) pr) = q"
    unfolding pr_def q_def using l by (intro barrett_quotient_word [OF m x _ mu])
     (simp add: unat_RShiftD_lo n flip: l_def)
  then have "unat (ucast (drop_bit (barrett_n m + 7) pr * ucast m) :: u64) = q * unat m"
    using qm by (simp add: unat_ucast_64 unat_word_ariths)
  then have r: "unat (a - ucast (drop_bit (barrett_n m + 7) pr * ucast m)) = unat a - q * unat m"
    using bc(3) by (subst unat_sub) (simp_all add: word_le_nat_alt)
  show ?thesis
    unfolding ModMu_def Let_def pr_def [symmetric] using bc(1)
    by (auto simp: word_le_nat_alt unat_sub r)
qed

lemma ModMulFast_mu_correct:
  assumes m: "barrett_modulus m" and mu: "unat mu = barrett_mu (unat m)"
    and x: "unat a * unat b < 2 ^ (2 * bit_len (unat m) + 2)"
  shows "unat (ModMulFast_mu a b m mu) = unat a * unat b mod unat m"
proof -
  define l where "l = bit_len (unat m)"
  define q where "q = barrett_q (unat a * unat b) (unat m)"
  define pr where "pr = GetD (MultD (RShiftD (MultD a b) (barrett_n m)) mu)"
  have l: "3 \<le> l" "l \<le> 60" using barrett_modulus_bit_len [OF m] by (simp_all add: l_def)
  have n: "barrett_n m = l - 2" using l by (simp add: barrett_n_eq l_def)
  have bl: "2 \<le> bit_len (unat m)" using l by (simp add: l_def)
  note bc = barrett_correction [OF bl x, folded q_def]
  have ab: "unat a * unat b < 2 ^ 128"
    using unsigned_less [of "GetD (MultD a b)", where ?'a = nat] by (simp add: unat_GetD_MultD)
  have qm: "q * unat m < 2 ^ 128" using bc(3) ab by linarith
  have "unat (drop_bit (barrett_n m + 7) pr) = q"
    unfolding pr_def q_def using l by (intro barrett_quotient_word [OF m x _ mu])
     (simp add: unat_RShiftD_MultD n flip: l_def)
  then have p: "unat (ucast m * drop_bit (barrett_n m + 7) pr) = q * unat m"
    using qm by (simp add: unat_word_ariths mult.commute)
  then have r: "unat (GetD (MultD a b) - ucast m * drop_bit (barrett_n m + 7) pr) = unat a * unat b - q * unat m"
    using bc(3) by (subst unat_sub) (simp_all add: word_le_nat_alt unat_GetD_MultD)
  have "unat a * unat b - q * unat m < 2 ^ 64"
    using bc(2) m by (simp add: barrett_modulus_def)
  then have r64: "unat (ucast (GetD (MultD a b) - ucast m * drop_bit (barrett_n m + 7) pr) :: u64) = unat a * unat b - q * unat m"
    by (simp add: unat_ucast_64 r)
  show ?thesis
    unfolding ModMulFast_mu_def Let_def pr_def [symmetric] using bc(1)
    by (auto simp: word_le_nat_alt unat_sub r64)
qed

subsection \<open>Modular addition, subtraction and multiplication\<close>

lemma ModAddFast_correct [unat_spec]:
  assumes "unat a < unat m" "unat b < unat m" "unat m \<le> 2 ^ 63"
  shows "unat (ModAddFast a b m) = (unat a + unat b) mod unat m"
proof -
  have s: "unat (a + b) = unat a + unat b" using assms by (intro unat_add_small) simp
  show ?thesis
  proof (cases "unat m \<le> unat a + unat b")
    case True
    then have "unat (a + b - m) = unat a + unat b - unat m" by (simp add: unat_sub_small s)
    moreover have "(unat a + unat b) mod unat m = unat a + unat b - unat m"
      using assms True by (simp add: le_mod_geq)
    ultimately show ?thesis using True by (simp add: ModAddFast_def Let_def word_le_nat_alt s)
  next
    case False
    then show ?thesis by (simp add: ModAddFast_def Let_def word_le_nat_alt s)
  qed
qed

lemma ModAddFastEq_eq: "ModAddFastEq a b m = ModAddFast a b m"
  by (simp add: ModAddFastEq_def ModAddFast_def)

lemma ModAdd_eq_fast:
  "ModAdd a b m = ModAddFast (if a \<ge> m then a mod m else a) (if b \<ge> m then b mod m else b) m"
  by (simp add: ModAdd_def ModAddFast_def Let_def)

lemma ModAddEq_eq: "ModAddEq a b m = ModAdd a b m"
  by (simp add: ModAddEq_def ModAdd_def Let_def)

lemma ModAdd_correct [unat_spec]:
  assumes "0 < unat m" "unat m \<le> 2 ^ 63"
  shows "unat (ModAdd a b m) = (unat a + unat b) mod unat m"
  using assms unfolding ModAdd_eq_fast
  by (subst ModAddFast_correct) (simp_all only: unat_reduce mod_less_divisor mod_add_eq)

lemma ModSubFast_correct [unat_spec]:
  assumes "unat a < unat m" "unat b < unat m" "unat m \<le> 2 ^ 63"
  shows "unat (ModSubFast a b m) = (unat a + (unat m - unat b)) mod unat m"
proof (cases "unat a < unat b")
  case True
  have s: "unat (a + m) = unat a + unat m" using assms by (intro unat_add_small) simp
  have "unat (a + m - b) = unat a + unat m - unat b" using assms by (simp add: unat_sub_small s)
  with True assms show ?thesis by (simp add: ModSubFast_def word_less_nat_alt)
next
  case False
  then have "unat a + (unat m - unat b) = unat m + (unat a - unat b)"
    using assms by linarith
  then have "(unat a + (unat m - unat b)) mod unat m = (unat m + (unat a - unat b)) mod unat m"
    by simp
  also have "\<dots> = unat a - unat b" using assms by simp
  finally show ?thesis using False by (simp add: ModSubFast_def word_less_nat_alt unat_sub_small)
qed

lemma ModSubFastEq_eq: "ModSubFastEq a b m = ModSubFast a b m"
  by (simp add: ModSubFastEq_def ModSubFast_def)

lemma ModSub_eq_fast:
  "ModSub a b m = ModSubFast (if a \<ge> m then a mod m else a) (if b \<ge> m then b mod m else b) m"
  by (simp add: ModSub_def ModSubFast_def Let_def)

lemma ModSubEq_eq: "ModSubEq a b m = ModSub a b m"
  by (simp add: ModSubEq_def ModSub_def Let_def)

lemma ModSub_correct [unat_spec]:
  assumes "0 < unat m" "unat m \<le> 2 ^ 63"
  shows "unat (ModSub a b m) = (unat a + (unat m - unat b mod unat m)) mod unat m"
  using assms unfolding ModSub_eq_fast
  by (subst ModSubFast_correct) (simp_all only: unat_reduce mod_less_divisor mod_add_left_eq)

text \<open>The variants that reduce by Barrett differ only in the reduction of the operands.\<close>

lemma ModMu_word:
  assumes "barrett_modulus m" "unat mu = barrett_mu (unat m)" "unat a < 2 ^ (2 * bit_len (unat m) + 2)"
  shows "ModMu a m mu (barrett_n m) = a mod m"
  using ModMu_correct [OF assms] by (simp add: word_unat_eq_iff unat_mod)

lemma ModAdd_mu_eq:
  assumes "barrett_modulus m" "unat mu = barrett_mu (unat m)"
    "unat a < 2 ^ (2 * bit_len (unat m) + 2)" "unat b < 2 ^ (2 * bit_len (unat m) + 2)"
  shows "ModAdd_mu a b m mu = ModAdd a b m" "ModAddEq_mu a b m mu = ModAdd a b m"
    "ModSub_mu a b m mu = ModSub a b m" "ModSubEq_mu a b m mu = ModSub a b m"
  by (simp_all add: ModAdd_mu_def ModAddEq_mu_def ModSub_mu_def ModSubEq_mu_def ModEq_mu_def
      ModAdd_def ModSub_def ModMu_word [OF assms(1,2,3)] ModMu_word [OF assms(1,2,4)] Let_def)

lemma ModMulFast_correct [unat_spec]:
  assumes "0 < unat m"
  shows "unat (ModMulFast a b m) = unat a * unat b mod unat m"
proof -
  have "unat a * unat b mod unat m < 2 ^ 64"
    using assms unat_less_64 [of m] mod_less_divisor [of "unat m" "unat a * unat b"] by linarith
  then show ?thesis using assms
    by (auto simp: ModMulFast_def Let_def unat_ucast_64 unat_mult_ucast unat_mod word_le_nat_alt)
qed

lemma ModMulFastEq_eq: "ModMulFastEq a b m = ModMulFast a b m"
  by (simp add: ModMulFastEq_def ModMulFast_def)

lemma ModMul_eq_fast:
  "ModMul a b m = ModMulFast (if a \<ge> m then a mod m else a) (if b \<ge> m then b mod m else b) m"
  by (simp add: ModMul_def ModMulFast_def Let_def)

lemma ModMulEq_eq: "ModMulEq a b m = ModMul a b m"
  by (simp add: ModMulEq_def ModMul_def Let_def)

lemma ModMul_correct [unat_spec]:
  assumes "0 < unat m"
  shows "unat (ModMul a b m) = unat a * unat b mod unat m"
  using assms unfolding ModMul_eq_fast
  by (subst ModMulFast_correct) (simp_all only: unat_reduce mod_mult_eq)

lemma ModMulFastEq_mu_eq: "ModMulFastEq_mu a b m mu = ModMulFast_mu a b m mu"
  by (simp add: ModMulFastEq_mu_def ModMulFast_mu_def Let_def)

lemma reduced_product_bound:
  assumes "unat a < unat m" "unat b < unat m"
  shows "unat a * unat b < 2 ^ (2 * bit_len (unat m) + 2)"
proof -
  have "unat a * unat b < 2 ^ bit_len (unat m) * 2 ^ bit_len (unat m)"
    using assms bit_len_upper [of "unat m"] by (intro mult_strict_mono) auto
  also have "\<dots> = 2 ^ (2 * bit_len (unat m))" by (simp add: mult_2 flip: power_add)
  also have "\<dots> \<le> 2 ^ (2 * bit_len (unat m) + 2)" by (rule power_increasing) simp_all
  finally show ?thesis .
qed

lemma ModMul_mu_eq:
  assumes "barrett_modulus m" "unat mu = barrett_mu (unat m)"
    "unat a < 2 ^ (2 * bit_len (unat m) + 2)" "unat b < 2 ^ (2 * bit_len (unat m) + 2)"
  shows "ModMul_mu a b m mu = ModMul a b m" "ModMulEq_mu a b m mu = ModMul a b m"
proof -
  let ?a = "if a \<ge> m then a mod m else a" and ?b = "if b \<ge> m then b mod m else b"
  have m: "0 < unat m" using assms(1) by (simp add: barrett_modulus_def)
  have e: "ModMul_mu a b m mu = ModMulFast_mu ?a ?b m mu" "ModMulEq_mu a b m mu = ModMul_mu a b m mu"
    by (simp_all add: ModMul_mu_def ModMulEq_mu_def ModMulFast_mu_def Let_def
        ModMu_word [OF assms(1,2,3)] ModMu_word [OF assms(1,2,4)])
  have "unat ?a < unat m" "unat ?b < unat m" using m by (simp_all only: unat_reduce mod_less_divisor)
  then have "unat (ModMulFast_mu ?a ?b m mu) = unat ?a * unat ?b mod unat m"
    by (intro ModMulFast_mu_correct [OF assms(1,2)] reduced_product_bound)
  also have "\<dots> = unat (ModMul a b m)"
    using m by (simp only: unat_reduce mod_mult_eq ModMul_correct)
  finally show "ModMul_mu a b m mu = ModMul a b m" "ModMulEq_mu a b m mu = ModMul a b m"
    using e by (simp_all add: word_unat_eq_iff)
qed

lemma ModMulFast_mu_reduced [unat_spec]:
  assumes "barrett_modulus m" "unat mu = barrett_mu (unat m)" "unat a < unat m" "unat b < unat m"
  shows "unat (ModMulFast_mu a b m mu) = unat a * unat b mod unat m"
  using ModMulFast_mu_correct [OF assms(1,2) reduced_product_bound [OF assms(3,4)]] .

text \<open>Shoup's multiplication\<close>

lemma PrepModMulConst_spec:
  assumes "0 < unat m" "unat b < unat m"
  obtains bi where "PrepModMulConst b m = Inr bi" "unat bi = unat b * 2 ^ 64 div unat m"
proof -
  define w where "w = push_bit MaxBits (ucast b :: u128)"
  have "unat b * 2 ^ 64 < 2 ^ 64 * 2 ^ 64" using unat_less_64 [of b] by simp
  then have w: "unat w = unat b * 2 ^ 64"
    unfolding w_def MaxBits_def by (simp only: unat_push_bit unat_ucast_128) simp
  have "unat b * 2 ^ 64 div unat m < 2 ^ 64"
    using assms by (simp add: less_mult_imp_div_less)
  then have "unat (ucast (w div ucast m) :: u64) = unat b * 2 ^ 64 div unat m"
    by (simp add: unat_ucast_64 unat_div w)
  moreover have "m \<noteq> 0" using assms by auto
  ultimately show ?thesis by (intro that) (auto simp: PrepModMulConst_def Let_def w_def)
qed

lemma ModMulFastConst_correct [unat_spec]:
  assumes m: "0 < unat m" "unat m \<le> 2 ^ 63" and b: "unat b < unat m"
    and bi: "unat bi = unat b * 2 ^ 64 div unat m"
  shows "unat (ModMulFastConst a b m bi) = unat a * unat b mod unat m"
proof -
  define h where "h = MultDHi a bi"
  define d where "d = uint a * uint b - (uint h + 1) * uint m"
  have y: "a * b - (h + 1) * m = word_of_int d" by (simp add: d_def)
  have h: "unat h = unat a * (unat b * 2 ^ 64 div unat m) div 2 ^ 64"
    by (simp add: h_def unat_MultDHi bi)
  note sq = shoup_quotient [OF m(1) b unat_less_64 [of a], of, folded h]
  have le: "unat h * unat m \<le> unat a * unat b" and lt: "unat a * unat b < unat h * unat m + 2 * unat m"
    using sq by simp_all
  have d_eq: "d = int (unat a * unat b) - int (unat h * unat m) - int (unat m)"
    unfolding d_def uint_nat by (simp add: algebra_simps)
  have d: "- int (unat m) \<le> d" "d < int (unat m)" using le lt unfolding d_eq by linarith+
  have dm: "d mod int (unat m) = int (unat a * unat b mod unat m)"
  proof -
    have "int (unat a * unat b) = d + (int (unat h) + 1) * int (unat m)"
      by (simp add: d_eq algebra_simps)
    then have "d mod int (unat m) = int (unat a * unat b) mod int (unat m)"
      by (simp only: mod_mult_self1)
    then show ?thesis by (simp add: zmod_int)
  qed
  have m63: "int (unat m) \<le> 2 ^ 63"
    using m(2) unfolding of_nat_le_iff [where ?'a = int, symmetric] by simp
  have s: "sint (word_of_int d :: u64) = d"
    using d m63 by (intro sint_word_of_int_64; linarith)
  show ?thesis
  proof (cases "0 \<le> d")
    case True
    then have "ModMulFastConst a b m bi = word_of_int d"
      by (simp add: ModMulFastConst_def Let_def y s flip: h_def)
    moreover have "unat (word_of_int d :: u64) = nat d"
      using True order.strict_trans2 [OF d(2) m63] by (intro unat_word_of_int_64) simp_all
    ultimately show ?thesis using dm d(2) True by simp
  next
    case False
    then have "ModMulFastConst a b m bi = word_of_int d + m"
      by (simp add: ModMulFastConst_def Let_def y s flip: h_def)
    also have "\<dots> = word_of_int (d + int (unat m))" by (simp flip: uint_nat)
    finally have "unat (ModMulFastConst a b m bi) = nat (d + int (unat m))"
      by (simp only:) (rule unat_word_of_int_64; use d(1) False order.strict_trans2 [of "d + int (unat m)", OF _ m63] in simp)
    moreover have "(d + int (unat m)) mod int (unat m) = d + int (unat m)"
      using d False by (intro mod_pos_pos_trivial) auto
    then have "d mod int (unat m) = d + int (unat m)" by simp
    ultimately show ?thesis using dm by simp
  qed
qed

lemma ModMulFastConstEq_eq: "ModMulFastConstEq a b m bi = ModMulFastConst a b m bi"
  by (simp add: ModMulFastConstEq_def ModMulFastConst_def)

lemma ModExp_loop_correct:
  assumes "unat t < 2 ^ 64" "unat r < unat m" "1 < unat m" "unat m \<le> 2 ^ 64"
  shows "unat (ModExp_loop t p m r) = unat r * unat t ^ (2 * (unat p div 2)) mod unat m"
  using assms
proof (induction t p m r rule: ModExp_loop.induct)
  case (1 t p m r)
  define p' where "p' = drop_bit 1 p"
  have p': "unat p' = unat p div 2" by (simp add: p'_def unat_drop_bit del: drop_bit_eq_div)
  show ?case
  proof (cases "p' = 0")
    case True
    then have "unat p div 2 = 0" using p' by simp
    then show ?thesis using True 1(3)
      unfolding ModExp_loop.simps [of t p m r] Let_def p'_def [symmetric] by simp
  next
    case False
    define t'' where "t'' = (let x = t * t in if x \<ge> m then x mod m else x)"
    define r' where "r' = (if p' AND 1 \<noteq> 0 then (let r1 = r * t'' in if r1 \<ge> m then r1 mod m else r1) else r)"
    have t: "unat t'' = unat t * unat t mod unat m"
      unfolding t''_def using 1(2,4) by (intro mulmod_128) auto
    have t64: "unat t'' < unat m" using 1(4) by (simp add: t)
    have r: "unat r' = unat r * unat t'' ^ (unat p' mod 2) mod unat m"
    proof (cases "odd (unat p')")
      case True
      then have "unat r' = unat r * unat t'' mod unat m"
        using 1(3,4,5) t64 mulmod_128 [of r t'' m] by (simp add: r'_def odd_word)
      with True show ?thesis by (simp add: odd_iff_mod_2_eq_one)
    next
      case e: False
      then show ?thesis using 1(3) by (simp add: r'_def odd_word)
    qed
    have "ModExp_loop t p m r = ModExp_loop t'' p' m r'"
      using False unfolding ModExp_loop.simps [of t p m r] Let_def p'_def [symmetric] t''_def r'_def
      by simp
    also have "unat \<dots> = unat r' * unat t'' ^ (2 * (unat p' div 2)) mod unat m"
    proof (rule 1(1) [OF p'_def False refl])
      show "t'' = (if m \<le> t * t then t * t mod m else t * t)" by (simp add: t''_def Let_def)
      show "r' = (if p' AND 1 \<noteq> 0 then let r1 = r * t'' in if m \<le> r1 then r1 mod m else r1 else r)"
        by (rule r'_def)
      show "unat t'' < 2 ^ 64" using t64 1(5) by linarith
      show "unat r' < unat m" using 1(4) unfolding r by (intro mod_less_divisor) linarith
    qed (use 1(4,5) in simp_all)
    also have "\<dots> = unat r * unat t'' ^ (unat p' mod 2) * unat t'' ^ (2 * (unat p' div 2)) mod unat m"
      by (simp add: r mod_mult_left_eq)
    also have "\<dots> = unat r * unat t'' ^ unat p' mod unat m"
      by (simp add: mult.assoc flip: power_add)
    also have "\<dots> = unat r * (unat t * unat t) ^ unat p' mod unat m"
      unfolding t by (metis mod_mult_right_eq power_mod)
    also have "(unat t * unat t) ^ unat p' = unat t ^ (2 * (unat p div 2))"
      by (simp add: p' power2_eq_square power_mult)
    finally show ?thesis .
  qed
qed

theorem ModExp_correct [unat_spec]:
  assumes "1 < unat m"
  shows "unat (ModExp a b m) = unat a ^ unat b mod unat m"
proof -
  define r where "r = (if ucast b AND (1::u128) \<noteq> 0 then (let r1 = 1 * (ucast a :: u128) in
     if r1 \<ge> ucast m then r1 mod ucast m else r1) else 1)"
  have r: "unat r = unat a ^ (unat b mod 2) mod unat m"
  proof (cases "odd (unat b)")
    case True
    then show ?thesis using assms
      by (simp add: r_def odd_word Let_def unat_mod word_le_nat_alt odd_iff_mod_2_eq_one)
  next
    case False
    then show ?thesis using assms by (simp add: r_def odd_word)
  qed
  have "unat (ModExp_loop (ucast a) (ucast b) (ucast m) r) = unat r * unat a ^ (2 * (unat b div 2)) mod unat m"
    using assms unat_less_64 [of a] unat_less_64 [of m]
    by (subst ModExp_loop_correct) (simp_all add: r less_imp_le)
  also have "\<dots> = unat a ^ unat b mod unat m"
    by (simp add: r mod_mult_left_eq flip: power_add)
  finally have e: "unat (ModExp_loop (ucast a) (ucast b) (ucast m) r) = unat a ^ unat b mod unat m" .
  have "unat a ^ unat b mod unat m < 2 ^ 64"
    using assms unat_less_64 [of m] mod_less_divisor [of "unat m" "unat a ^ unat b"] by linarith
  with e show ?thesis by (simp add: ModExp_def Let_def unat_ucast_64 flip: r_def)
qed

subsection \<open>Modular inverse\<close>

lemma i64_Inr: "\<bar>x\<bar> < 2 ^ 63 \<Longrightarrow> i64 x = Inr x"
  by (simp add: i64_def abs_less_iff)

lemma sdiv_nonneg: "0 \<le> a \<Longrightarrow> 0 \<le> b \<Longrightarrow> a sdiv b = a div (b::int)"
  by (auto simp: signed_divide_int_def sgn_if)

lemma smod_nonneg: "0 \<le> a \<Longrightarrow> 0 \<le> b \<Longrightarrow> a smod b = a mod (b::int)"
  by (auto simp: signed_modulo_int_def sgn_if)

text \<open>
  The invariant of the loop: both rows of the Euclidean scheme, the size identity that bounds the
  cofactors by the modulus, and the alternation of their signs.
\<close>

definition inverse_inv :: "int \<Rightarrow> int \<Rightarrow> int \<Rightarrow> int \<Rightarrow> int \<Rightarrow> int \<Rightarrow> bool" where
  "inverse_inv M v a t y x \<longleftrightarrow>
     0 < a \<and> 0 \<le> t \<and> t * \<bar>x\<bar> + a * \<bar>y\<bar> = M \<and> x * y \<le> 0 \<and> \<bar>x\<bar> \<le> M \<and>
     M dvd a - x * v \<and> M dvd t - y * v"

lemma abs_diff_opposite: "x * y \<le> 0 \<Longrightarrow> 0 \<le> q \<Longrightarrow> \<bar>x - q * y\<bar> = \<bar>x\<bar> + q * \<bar>y\<bar>" for x y q :: int
proof -
  assume xy: "x * y \<le> 0" and q: "0 \<le> q"
  consider "y = 0" | "0 < y" "x \<le> 0" | "y < 0" "0 \<le> x"
    using xy by (cases "y = 0"; auto simp: mult_le_0_iff less_le)
  then show ?thesis
  proof cases
    case 2
    then have "0 \<le> q * y" using q by simp
    with 2 show ?thesis by simp
  next
    case 3
    then have "q * y \<le> 0" using q by (simp add: mult_nonneg_nonpos)
    with 3 show ?thesis by simp
  qed simp
qed

lemma inverse_inv_step:
  assumes inv: "inverse_inv M v a t y x" and a: "1 < a" and t: "t \<noteq> 0"
  shows "inverse_inv M v t (a mod t) (x - a div t * y) y"
    "\<bar>a div t * y\<bar> \<le> M" "\<bar>x - a div t * y\<bar> \<le> M"
proof -
  define q where "q = a div t"
  have inv': "0 < t" "t * \<bar>x\<bar> + a * \<bar>y\<bar> = M" "x * y \<le> 0" "M dvd a - x * v" "M dvd t - y * v"
    using inv t by (simp_all add: inverse_inv_def)
  have q: "0 \<le> q" using a inv'(1) by (simp add: q_def pos_imp_zdiv_nonneg_iff)
  have aq: "a mod t = a - q * t" by (simp add: q_def minus_div_mult_eq_mod)
  have e: "\<bar>x - q * y\<bar> = \<bar>x\<bar> + q * \<bar>y\<bar>" by (rule abs_diff_opposite [OF inv'(3) q])
  have s: "(a mod t) * \<bar>y\<bar> + t * \<bar>x - q * y\<bar> = M"
    unfolding e aq using inv'(2) by (simp add: algebra_simps)
  have pos: "0 \<le> (a mod t) * \<bar>y\<bar>" using inv'(1) by simp
  have "1 * \<bar>x - q * y\<bar> \<le> t * \<bar>x - q * y\<bar>" using inv'(1) by (intro mult_right_mono) auto
  then show b: "\<bar>x - a div t * y\<bar> \<le> M" using s pos by (simp add: q_def)
  have "\<bar>q * y\<bar> = q * \<bar>y\<bar>" using q by (simp add: abs_mult)
  then show "\<bar>a div t * y\<bar> \<le> M" using b e by (simp add: q_def)
  have "1 * \<bar>y\<bar> \<le> a * \<bar>y\<bar>" using a by (intro mult_right_mono) auto
  moreover have "0 \<le> t * \<bar>x\<bar>" using inv'(1) by simp
  ultimately have y: "\<bar>y\<bar> \<le> M" using inv'(2) by linarith
  have "x * y - q * (y * y) \<le> 0" using inv'(3) q by (smt (verit) mult_nonneg_nonneg zero_le_square)
  then have sg: "y * (x - q * y) \<le> 0" by (simp add: algebra_simps)
  have "a - x * v - q * (t - y * v) = a mod t - (x - q * y) * v" by (simp add: aq algebra_simps)
  then have "M dvd a mod t - (x - q * y) * v" by (metis inv'(4,5) dvd_diff dvd_mult)
  then show "inverse_inv M v t (a mod t) (x - a div t * y) y"
    using inv' s y sg by (simp add: inverse_inv_def flip: q_def)
qed

lemma ModInverse_loop_result:
  assumes "inverse_inv M v a t y x" "M < 2 ^ 63"
  shows "if coprime a t
         then \<exists>r. ModInverse_loop a t y x = Inr r \<and> \<bar>r\<bar> \<le> M \<and> M dvd 1 - r * v
         else ModInverse_loop a t y x = Inl DivideByZero"
  using assms
proof (induction a t y x rule: ModInverse_loop.induct)
  case (1 a t y x)
  have a0: "0 < a" "0 \<le> t" using 1(2) by (simp_all add: inverse_inv_def)
  show ?case
  proof (cases "1 < a \<and> t \<noteq> 0")
    case True
    then have a1: "1 < a" and t0: "t \<noteq> 0" by simp_all
    note st = inverse_inv_step [OF 1(2) a1 t0]
    have q: "a sdiv t = a div t" "a smod t = a mod t"
      using a0 by (simp_all add: sdiv_nonneg smod_nonneg)
    have i: "i64 (a div t * y) = Inr (a div t * y)" "i64 (x - a div t * y) = Inr (x - a div t * y)"
      using st(2,3) 1(3) by (intro i64_Inr; linarith)+
    have "ModInverse_loop a t y x = ModInverse_loop t (a mod t) (x - a div t * y) y"
      using a1 t0 by (subst ModInverse_loop.simps) (simp add: Let_def q i)
    moreover have "coprime t (a mod t) \<longleftrightarrow> coprime a t"
      using t0 by (simp add: coprime_commute)
    moreover note 1(1) [of t "a div t" "a div t * y" "x - a div t * y"]
    ultimately show ?thesis using True st(1) 1(3) q i by auto
  next
    case False
    then consider "a = 1" | "1 < a" "t = 0" using a0 by fastforce
    then show ?thesis
    proof cases
      case 1
      then show ?thesis using \<open>inverse_inv M v a t y x\<close>
        by (subst (1 2) ModInverse_loop.simps) (simp add: inverse_inv_def)
    next
      case 2
      then show ?thesis by (subst (1 2) ModInverse_loop.simps) simp
    qed
  qed
qed

lemma ModInverse_start:
  assumes m: "0 < unat m" "unat v mod unat m \<noteq> 0"
  shows "inverse_inv (int (unat m)) (int (unat v)) (int (unat v mod unat m)) (int (unat m)) 0 1"
proof -
  have "int (unat m) dvd int (unat v mod unat m) - int (unat v)"
    by (metis mod_eq_dvd_iff mod_mod_trivial of_nat_mod)
  moreover have "0 < int (unat v mod unat m)" "1 \<le> int (unat m)" using m by linarith+
  ultimately show ?thesis using m unfolding inverse_inv_def by simp
qed

lemma ModInverse_cases:
  assumes "unat m < 2 ^ 63" "0 < unat m"
  shows "ModInverse v m =
    (if unat v mod unat m = 0
     then Inl (OpenFHEError (ToString v @ '' does not have a ModInverse using '' @ ToString m))
     else ebind (ModInverse_loop (int (unat v mod unat m)) (int (unat m)) 0 1)
       (\<lambda>x. Inr (if x < 0 then word_of_int x + m else word_of_int x)))"
proof -
  have s: "sint w = int (unat w)" if "unat w < 2 ^ 63" for w :: u64
  proof -
    have "uint w < 2 ^ 63" using that unfolding uint_nat by (simp only: of_nat_less_numeral_power_cancel_iff)
    then show ?thesis
      by (simp add: sint_uint signed_take_bit_int_eq_self_iff order.trans [OF _ uint_ge_0])
  qed
  have v: "unat (v mod m) = unat v mod unat m" by (simp add: unat_mod)
  have lt: "unat v mod unat m < 2 ^ 63"
    using assms mod_less_divisor [of "unat m" "unat v"] by linarith
  show ?thesis
  proof (cases "unat m = 1")
    case True
    then have "unat v mod unat m = 0" by simp
    then show ?thesis using assms v s [of "v mod m"]
      by (auto simp: ModInverse_def Let_def)
  next
    case False
    have "sint m \<noteq> 1" using False unfolding s [OF assms(1)] of_nat_eq_1_iff .
    then show ?thesis using assms v lt s [of "v mod m"] s [of m]
      by (auto simp: ModInverse_def Let_def)
  qed
qed

theorem ModInverse_correct:
  assumes m: "1 < unat m" "unat m < 2 ^ 63" and c: "coprime (unat v) (unat m)"
  obtains r where "ModInverse v m = Inr r" "unat r < unat m" "unat r * unat v mod unat m = 1"
proof -
  define M where "M = int (unat m)"
  have M1: "1 < M" "M < 2 ^ 63" using m unfolding M_def by (simp_all only: of_nat_less_numeral_power_cancel_iff) 
  have nz: "unat v mod unat m \<noteq> 0"
    using m(1) c by (metis coprime_absorb_right less_irrefl mod_0_imp_dvd nat_dvd_1_iff_1)
  have "coprime (int (unat v mod unat m)) M"
    unfolding M_def coprime_int_iff using c m(1) by simp
  then obtain x where x: "ModInverse_loop (int (unat v mod unat m)) M 0 1 = Inr x"
      "\<bar>x\<bar> \<le> M" "M dvd 1 - x * int (unat v)"
    using ModInverse_loop_result [OF ModInverse_start [OF _ nz, folded M_def] M1(2)] m(1) by auto
  define r where "r = (if x < 0 then word_of_int x + m else word_of_int x)"
  define d where "d = (if x < 0 then x + M else x)"
  have dv: "M dvd 1 - d * int (unat v)"
  proof (cases "x < 0")
    case True
    have "1 - d * int (unat v) = 1 - x * int (unat v) - M * int (unat v)"
      using True by (simp add: d_def algebra_simps)
    with x(3) show ?thesis by (simp only: dvd_diff dvd_triv_left)
  qed (use x(3) d_def in simp)
  have "x \<noteq> M" using x(3) M1 by (auto simp: dvd_diff_left_iff)
  then have d: "0 \<le> d" "d < M" using x(2) by (auto simp: d_def)
  have "m = word_of_int M" by (simp add: M_def)
  then have "r = word_of_int d" by (simp add: r_def d_def)
  moreover have "d < 2 ^ 64" using d M1 by simp
  ultimately have ru: "unat r = nat d" using d(1) by (simp add: unat_word_of_int_64)
  have "M dvd int (unat r * unat v) - 1" using dv d(1) by (simp add: ru dvd_diff_commute)
  then have "int (unat r * unat v) mod M = 1 mod M" by (simp only: mod_eq_dvd_iff)
  then have "unat r * unat v mod unat m = 1" using M1 unfolding M_def by (metis mod_less of_nat_1 of_nat_eq_iff of_nat_mod m(1))
  moreover have "ModInverse v m = Inr r"
    using m nz x(1) by (simp add: ModInverse_cases r_def M_def)
  moreover have "unat r < unat m" using d ru unfolding M_def by linarith
  ultimately show ?thesis using that by blast
qed

theorem ModInverse_not_coprime:
  assumes m: "unat m < 2 ^ 63" "unat v mod unat m \<noteq> 0" and c: "\<not> coprime (unat v) (unat m)"
    and m0: "0 < unat m"
  shows "ModInverse v m = Inl DivideByZero"
proof -
  have "\<not> coprime (int (unat v mod unat m)) (int (unat m))"
    using c m0 unfolding coprime_int_iff by simp
  then have "ModInverse_loop (int (unat v mod unat m)) (int (unat m)) 0 1 = Inl DivideByZero"
    using ModInverse_loop_result [OF ModInverse_start [OF m0 m(2)]] m(1)
    by (simp only: if_False of_nat_less_numeral_power_cancel_iff simp_thms)
  then show ?thesis using m m0 by (simp add: ModInverse_cases)
qed

subsection \<open>Plain operations, strings, digits\<close>

lemma Exp_loop_correct: "Exp_loop r x p = r * x ^ unat p"
proof (induction r x p rule: Exp_loop.induct)
  case (1 r x p)
  show ?case
  proof (cases "p > 0")
    case True
    have h: "unat (drop_bit 1 p) = unat p div 2" by (simp add: unat_drop_bit del: drop_bit_eq_div)
    have x2: "(x * x) ^ (unat p div 2) = x ^ (2 * (unat p div 2))" by (simp add: power2_eq_square power_mult)
    have "Exp_loop r x p = r * (if p AND 1 \<noteq> 0 then x else 1) * x ^ (2 * (unat p div 2))"
      using True 1 by (subst Exp_loop.simps) (simp only: h x2 if_True)
    also have "(if p AND 1 \<noteq> 0 then x else 1) = x ^ (unat p mod 2)"
      unfolding odd_word by (simp add: mod_2_eq_odd)
    also have "r * x ^ (unat p mod 2) * x ^ (2 * (unat p div 2)) = r * x ^ unat p"
      by (simp add: mult.assoc flip: power_add)
    finally show ?thesis .
  next
    case False
    then show ?thesis by (subst Exp_loop.simps) (simp add: word_gt_0)
  qed
qed

theorem Exp_correct: "Exp a p = a ^ unat p" "ExpEq a p = a ^ unat p"
  by (simp_all add: Exp_def ExpEq_def Exp_loop_correct)

lemma DivideAndRound_correct:
  assumes "q \<noteq> 0"
  obtains r where "DivideAndRound a q = Inr r" "unat r = (2 * unat a + unat q - 1) div (2 * unat q)"
proof -
  define r where "r = (if a mod q > drop_bit 1 q then a div q + 1 else a div q)"
  define A Q k s where "A = unat a" "Q = unat q" "k = A div Q" "s = A mod Q"
  note defs = A_Q_k_s_def
  have Q: "0 < Q" using assms by (simp add: defs(2) unat_gt_0)
  have s: "s < Q" "A = k * Q + s" using Q by (simp_all add: defs(3,4))
  have c: "a mod q > drop_bit 1 q \<longleftrightarrow> Q + 1 \<le> 2 * s"
    unfolding word_less_nat_alt unat_drop_bit unat_mod using defs by auto
  have e: "(2 * A + Q - 1) div (2 * Q) = k + (2 * s + Q - 1) div (2 * Q)"
  proof -
    have "2 * A + Q - 1 = (2 * s + Q - 1) + k * (2 * Q)" using Q s(2) by (simp add: algebra_simps)
    then have "(2 * A + Q - 1) div (2 * Q) = ((2 * s + Q - 1) + k * (2 * Q)) div (2 * Q)" by (rule arg_cong)
    also have "\<dots> = k + (2 * s + Q - 1) div (2 * Q)" using Q by (intro div_mult_self1) simp
    finally show ?thesis .
  qed
  have k1: "k + 1 < 2 ^ 64" if "Q + 1 \<le> 2 * s"
  proof -
    have "2 \<le> Q" using that s(1) by (cases "Q = 1") auto
    then have "k * 2 \<le> A" by (metis s(2) le_add1 le_trans mult_le_mono2)
    then show ?thesis using unat_less_64 [of a] defs(1) by simp
  qed
  have u: "unat (a div q) = k" by (simp add: unat_div defs)
  have "unat r = (2 * A + Q - 1) div (2 * Q)"
  proof (cases "Q + 1 \<le> 2 * s")
    case True
    have "(2 * s + Q - 1) div (2 * Q) = 1"
      using True s(1) by (intro div_nat_eqI) auto
    moreover have "unat r = k + 1" using True k1 u c by (simp add: r_def unat_add_small)
    ultimately show ?thesis unfolding e by simp
  next
    case False
    moreover from this have "2 * s + Q - 1 < 2 * Q" using Q by linarith
    ultimately have "unat r = k" "(2 * s + Q - 1) div (2 * Q) = 0" using u c by (simp_all add: r_def)
    then show ?thesis unfolding e by simp
  qed
  moreover have "DivideAndRound a q = Inr r"
    using assms by (simp add: DivideAndRound_def Let_def r_def)
  ultimately show ?thesis using that defs by simp
qed

lemma DivideAndRoundEq_eq:
  "q \<noteq> 0 \<Longrightarrow> DivideAndRoundEq a q = DivideAndRound a q"
  by (simp add: DivideAndRoundEq_def DivideAndRound_def)

lemma load_save_u128: "v \<le> SerializedVersion \<Longrightarrow> load_u128 v (save_u128 x) = Inr x"
  unfolding load_u128_def save_u128_def Let_def by (simp only: split_word_128 list.case) simp

lemma char_minus_0_digit: "d < 10 \<Longrightarrow> char_minus_0 (char_of (48 + d)) = int d"
proof -
  assume d: "d < 10"
  have "of_char (char_of (48 + d)) = 48 + d" using d by simp
  moreover have "sint (of_nat (48 + d) :: u8) = int (48 + d)"
    using d by (simp add: signed_of_nat signed_take_bit_int_eq_self_iff del: of_nat_add)
  ultimately show ?thesis by (simp add: char_minus_0_def)
qed

lemma SetValue_loop_digits:
  "n < 2 ^ 64 \<Longrightarrow> SetValue_loop str (std_to_string n @ cs) 0 0 = SetValue_loop str cs (of_nat n) (of_nat n)"
proof (induction n arbitrary: cs rule: std_to_string.induct)
  case (1 n)
  have digit: "char_minus_0 (char_of (48 + n mod 10)) = int (n mod 10)" by (rule char_minus_0_digit) simp
  show ?case
  proof (cases "n < 10")
    case True
    with digit show ?thesis by (simp add: std_to_string.simps [of n] Let_def)
  next
    case False
    define w :: u64 where "w = of_nat (n div 10)"
    have n10: "n div 10 < 2 ^ 64" using 1(2) by simp
    have e: "10 * w + word_of_int (int (n mod 10)) = of_nat n"
    proof -
      have "10 * w + word_of_int (int (n mod 10)) = of_nat (10 * (n div 10) + n mod 10)"
        unfolding w_def by (simp only: of_nat_add of_nat_mult of_nat_numeral of_int_of_nat_eq)
      then show ?thesis by (simp only: mult_div_mod_eq)
    qed
    have u: "unat (of_nat n :: u64) = n" "unat w = n div 10"
      using 1(2) n10 by (simp_all add: w_def unat_of_nat take_bit_nat_eq_self_iff)
    have lt: "\<not> (of_nat n :: u64) < w" by (simp add: word_less_nat_alt u)
    have d9: "\<not> int (n mod 10) > 9" by simp
    have "SetValue_loop str (std_to_string n @ cs) 0 0
      = SetValue_loop str (char_of (48 + n mod 10) # cs) w w"
      using False 1(1) [OF False n10] by (simp add: std_to_string.simps [of n] w_def)
    also have "\<dots> = SetValue_loop str cs (of_nat n) (of_nat n)"
      using lt d9 by (simp only: SetValue_loop.simps digit Let_def e if_False)
    finally show ?thesis .
  qed
qed

theorem SetValue_ToString: "SetValue (ToString x) = Inr x"
proof -
  have "SetValue_loop str (std_to_string (unat x) @ []) 0 0 = Inr x" for str
    by (subst SetValue_loop_digits [OF unat_less_64]) simp
  then show ?thesis by (simp add: SetValue_def ToString_def)
qed

text \<open>The value of a string of binary digits, most significant first.\<close>

definition bin_val :: "bool list \<Rightarrow> nat" where
  "bin_val bs = foldl (\<lambda>v b. 2 * v + of_bool b) 0 bs"

definition bin_chars :: "bool list \<Rightarrow> string" where
  "bin_chars bs = map (\<lambda>b. if b then CHR ''1'' else CHR ''0'') bs"

lemma char_minus_0_bin: "char_minus_0 (if b then CHR ''1'' else CHR ''0'') = of_bool b"
  by (simp add: char_minus_0_def)

lemma push_or_bit: "push_bit 1 v OR of_bool b = (2 * v + of_bool b :: u64)"
proof -
  have "push_bit 1 v + of_bool b = push_bit 1 v OR of_bool b"
    by (rule disjunctive_add) (auto simp: bit_push_bit_iff bit_1_iff simp del: push_bit_of_1 One_nat_def)
  then show ?thesis by (simp add: push_bit_eq_mult mult.commute)
qed

lemma FromBinaryString_loop_value:
  "FromBinaryString_loop (bin_chars bs) v = Inr (foldl (\<lambda>v b. 2 * v + of_bool b) v bs)"
proof (induction bs arbitrary: v)
  case (Cons b bs)
  have "word_of_int (of_bool b) = (of_bool b :: u64)" by simp
  moreover have "\<not> ((of_bool b :: int) < 0 \<or> (of_bool b :: int) > 1)" by simp
  moreover have "bin_chars (b # bs) = (if b then CHR ''1'' else CHR ''0'') # bin_chars bs"
    by (simp add: bin_chars_def)
  ultimately show ?case using Cons
    by (simp only: FromBinaryString_loop.simps char_minus_0_bin Let_def push_or_bit if_False foldl.simps)
qed (simp add: bin_chars_def)

lemma foldl_bin_word: "foldl (\<lambda>v b. 2 * v + of_bool b) (of_nat n) bs = (of_nat (foldl (\<lambda>v b. 2 * v + of_bool b) n bs) :: u64)"
proof (induction bs arbitrary: n)
  case (Cons b bs)
  have "2 * of_nat n + of_bool b = (of_nat (2 * n + of_bool b) :: u64)" by simp
  then show ?case using Cons by (simp only: foldl.simps)
qed simp

theorem FromBinaryString_value:
  "length bs \<le> 64 \<Longrightarrow> FromBinaryString (bin_chars bs) = Inr (of_nat (bin_val bs))"
  using foldl_bin_word [of 0 bs]
  by (simp add: FromBinaryString_def FromBinaryString_loop_value bin_val_def bin_chars_def [THEN arg_cong, of length])

lemma GetBitAtIndex_eq:
  "0 < unat i \<Longrightarrow> unat i \<le> 64 \<Longrightarrow> GetBitAtIndex a i = Inr (of_nat (unat a div 2 ^ (unat i - 1) mod 2))"
proof -
  assume i: "0 < unat i" "unat i \<le> 64"
  then have i0: "i \<noteq> 0" by auto
  then have u: "unat (i - 1) = unat i - 1" using i by (subst unat_sub) (simp_all add: word_le_nat_alt)
  define w where "w = drop_bit (unat i - 1) a"
  have "w AND 1 = of_nat (unat w mod 2)"
    by (cases "odd (unat w)") (use odd_word [of w] in \<open>auto simp: and_one_eq mod_2_eq_odd\<close>)
  moreover have "unat w = unat a div 2 ^ (unat i - 1)" by (simp only: w_def unat_drop_bit)
  moreover have "GetBitAtIndex a i = Inr (ucast (w AND 1))"
    using i i0 u by (simp add: GetBitAtIndex_def MaxBits_def w_def)
  ultimately show ?thesis by (simp add: mod_2_eq_odd)
qed

lemma GetDigit_loop_correct:
  assumes "j \<le> k" "k \<le> 31" "0 < unat ni" "unat ni + (k - j) \<le> 65" "unat d < 2 ^ j"
  shows "\<exists>r. GetDigit_loop a (of_nat (2 ^ k)) ni d j = Inr r \<and>
    unat r = unat d + 2 ^ j * (unat a div 2 ^ (unat ni - 1) mod 2 ^ (k - j))"
  using assms
proof (induction "k - j" arbitrary: j ni d)
  case 0
  then have j: "j = k" by simp
  define p :: u32 where "p = push_bit k 1"
  have "p = of_nat (2 ^ k)" by (simp add: p_def push_bit_eq_mult)
  then have "\<not> p < of_nat (2 ^ k)" by simp
  then show ?case using 0 j
    by (subst GetDigit_loop.simps) (simp add: Let_def flip: p_def)
next
  case (Suc c)
  have jk: "j < k" using Suc(2) by simp
  define bt where "bt = unat a div 2 ^ (unat ni - 1) mod 2"
  define d' where "d' = d + ucast (of_nat bt :: u8) * push_bit j (1 :: u32)"
  have bt: "bt = 0 \<or> bt = 1" by (auto simp: bt_def)
  have p: "unat (push_bit j (1 :: u32)) = 2 ^ j" "unat (of_nat (2 ^ k) :: u32) = 2 ^ k"
    using jk Suc(4) by (simp_all only: unat_power2_u32)
  have lt: "push_bit j 1 < (of_nat (2 ^ k) :: u32)" using jk by (simp only: word_less_nat_alt p) simp
  have bit: "GetBitAtIndex a ni = Inr (of_nat bt)"
    unfolding bt_def using Suc jk by (intro GetBitAtIndex_eq) auto
  have step: "GetDigit_loop a (of_nat (2 ^ k)) ni d j = GetDigit_loop a (of_nat (2 ^ k)) (ni + 1) d' (Suc j)"
    using jk Suc(4) lt by (subst GetDigit_loop.simps) (simp add: Let_def bit d'_def)
  have d': "unat d' = unat d + bt * 2 ^ j"
  proof -
    have "2 ^ j + 2 ^ j \<le> (2::nat) ^ 31" using jk Suc(4) power_increasing [of "Suc j" 31 "2::nat"] by simp
    then show ?thesis using bt Suc(7)
      by (auto simp: d'_def unat_word_ariths p simp del: push_bit_of_1)
  qed
  have ni: "unat (ni + 1) = unat ni + 1" using Suc(6) by (subst unat_plus_if') simp
  have dj: "unat d' < 2 ^ Suc j" using bt Suc(7) unfolding d' by auto
  have pre: "c = k - Suc j" "Suc j \<le> k" "0 < unat (ni + 1)" "unat (ni + 1) + (k - Suc j) \<le> 65"
    using Suc(2,6) jk by (simp_all add: ni)
  then obtain r where r: "GetDigit_loop a (of_nat (2 ^ k)) (ni + 1) d' (Suc j) = Inr r"
    "unat r = unat d' + 2 ^ Suc j * (unat a div 2 ^ unat ni mod 2 ^ (k - Suc j))"
    using Suc(1) [OF pre(1,2) Suc(4) pre(3,4) dj] unfolding ni by auto
  define X where "X = unat a div 2 ^ (unat ni - 1)"
  have kj: "k - j = Suc (k - Suc j)" using jk by simp
  have "unat ni = Suc (unat ni - 1)" using Suc(5) by simp
  then have X2: "unat a div 2 ^ unat ni = X div 2"
    unfolding X_def by (metis div_mult2_eq mult.commute power_Suc)
  have "X mod 2 ^ (k - j) = X mod 2 + 2 * (X div 2 mod 2 ^ (k - Suc j))"
    unfolding kj power_Suc mod_mult2_eq by simp
  then have "unat r = unat d + 2 ^ j * (X mod 2 ^ (k - j))"
    unfolding r(2) d' X2 bt_def X_def [symmetric] by (simp add: algebra_simps)
  then show ?case unfolding step r(1) X_def by (intro exI [of _ r] conjI refl)
qed

theorem GetDigitAtIndexForBase_correct:
  assumes k: "0 < k" "k \<le> 31" and i: "0 < unat index" "unat index * k \<le> 64"
  shows "\<exists>r. GetDigitAtIndexForBase a index (of_nat (2 ^ k)) = Inr r \<and>
    unat r = unat a div (2 ^ k) ^ (unat index - 1) mod 2 ^ k"
proof -
  define ni where "ni = 1 + (index - 1) * of_nat (ceil_log2 (unat (of_nat (2 ^ k) :: u32)))"
  have "unat (of_nat (2 ^ k) :: u32) = 2 ^ k" using k(2) by (rule unat_power2_u32)
  then have cl: "ceil_log2 (unat (of_nat (2 ^ k) :: u32)) = k" by (simp only: ceil_log2_def bit_len_power2_minus_1)
  have k32: "unat (of_nat k :: u32) = k" using k by (simp add: unat_of_nat take_bit_nat_eq_self_iff)
  have i1: "unat (index - 1) = unat index - 1" using i by (subst unat_sub) (simp_all add: word_le_nat_alt)
  have b: "(unat index - 1) * k + k \<le> 64" using i by (cases "unat index") auto
  then have ni: "unat ni = 1 + (unat index - 1) * k"
    unfolding ni_def cl using k by (simp add: unat_word_ariths k32 i1)
  have "\<exists>r. GetDigit_loop a (of_nat (2 ^ k)) ni 0 0 = Inr r \<and>
    unat r = unat (0 :: u32) + 2 ^ 0 * (unat a div 2 ^ (unat ni - 1) mod 2 ^ (k - 0))"
    using k b by (intro GetDigit_loop_correct) (simp_all add: ni)
  then show ?thesis
    by (simp add: GetDigitAtIndexForBase_def Let_def ni mult.commute flip: ni_def power_mult
        del: of_nat_power)
qed

end
