(* ===== verification/BitRev.thy ===== *)
theory BitRev
  imports NatInt
begin

text \<open>
  Bit reversal: \<open>reverse_byte\<close>, \<open>shift_trick\<close> and \<open>ReverseBits\<close> of
  \<open>src/core/include/math/nbtheory.h\<close>, and the reversal \<open>brv L i\<close> of the \<open>L\<close> low
  bits of \<open>i\<close> that it computes.
\<close>

section \<open>Reversal of the low bits\<close>

fun brv :: "nat \<Rightarrow> nat \<Rightarrow> nat" where
  "brv 0 i = 0"
| "brv (Suc L) i = (i mod 2) * 2 ^ L + brv L (i div 2)"

lemma brv_less: "brv L i < 2 ^ L"
proof (induction L arbitrary: i)
  case (Suc L)
  have "brv L (i div 2) < 2 ^ L" by (rule Suc)
  moreover have "i mod 2 = 0 \<or> i mod 2 = 1" by auto
  ultimately show ?case by auto
qed simp

lemma brv_0 [simp]: "brv L 0 = 0"
  by (induction L) simp_all

lemma brv_even_odd: "brv (Suc s) (2 * i) = brv s i" "brv (Suc s) (2 * i + 1) = 2 ^ s + brv s i"
  by simp_all

lemma brv_high: "i < 2 ^ s \<Longrightarrow> brv (s + d) i = brv s i * 2 ^ d"
proof (induction s arbitrary: i)
  case (Suc s)
  then have "brv (s + d) (i div 2) = brv s (i div 2) * 2 ^ d" by simp
  then show ?case by (simp add: power_add algebra_simps)
qed simp

lemma brv_top: "i < 2 ^ s \<Longrightarrow> brv (s + Suc d) (2 ^ s + i) = 2 ^ d * (1 + 2 * brv s i)"
proof (induction s arbitrary: i)
  case (Suc s)
  have "(2 ^ Suc s + i) div 2 = 2 ^ s + i div 2" "(2 ^ Suc s + i) mod 2 = i mod 2" by simp_all
  moreover have "brv (s + Suc d) (2 ^ s + i div 2) = 2 ^ d * (1 + 2 * brv s (i div 2))"
    using Suc by simp
  ultimately show ?case by (simp add: power_add algebra_simps)
qed simp

lemma brv_rev: "i < 2 ^ Suc L \<Longrightarrow> brv (Suc L) i = 2 * brv L (i mod 2 ^ L) + i div 2 ^ L"
proof (induction L arbitrary: i)
  case (Suc L)
  have e: "i mod 2 ^ Suc L mod 2 = i mod 2" by (simp add: mod_mod_cancel)
  have h: "(i mod 2 ^ Suc L) div 2 = (i div 2) mod 2 ^ L"
    by (metis div_exp_mod_exp_eq add.commute plus_1_eq_Suc power_one_right power_Suc)
  have d: "i div 2 div 2 ^ L = i div 2 ^ Suc L" by (simp add: div_mult2_eq)
  have "brv (Suc (Suc L)) i = (i mod 2) * 2 ^ Suc L + (2 * brv L (i div 2 mod 2 ^ L) + i div 2 div 2 ^ L)"
    using Suc by (subst brv.simps) (simp del: brv.simps)
  also have "\<dots> = 2 * brv (Suc L) (i mod 2 ^ Suc L) + i div 2 ^ Suc L"
    unfolding brv.simps(2) [of L] e h d by simp
  finally show ?case .
qed auto

lemma brv_brv: "i < 2 ^ L \<Longrightarrow> brv L (brv L i) = i"
proof (induction L arbitrary: i)
  case (Suc L)
  define j where "j = brv L (i div 2)"
  have j: "j < 2 ^ L" by (simp add: j_def brv_less)
  have "brv (Suc L) (brv (Suc L) i) = 2 * brv L (((i mod 2) * 2 ^ L + j) mod 2 ^ L) + ((i mod 2) * 2 ^ L + j) div 2 ^ L"
    using brv_less [of "Suc L" i] by (subst brv_rev) (simp_all add: j_def)
  also have "\<dots> = 2 * brv L j + i mod 2" using j by simp
  also have "\<dots> = i" using Suc by (simp add: j_def)
  finally show ?case .
qed simp

lemma brv_inj: "inj_on (brv L) {..<2 ^ L}"
  by (rule inj_on_inverseI [of _ "brv L"]) (simp add: brv_brv)


section \<open>ReverseBits\<close>

lemma bit_digit_add:
  assumes "r < 2 ^ L" "b < 2"
  shows "bit (b * 2 ^ L + r :: nat) k \<longleftrightarrow> (if k < L then bit r k else k = L \<and> b = 1)"
proof -
  consider "k < L" | "k = L" | "L < k" by linarith
  then show ?thesis
  proof cases
    case 1
    then have "b * 2 ^ L + r = r + (b * 2 ^ (L - k)) * 2 ^ k" by (simp flip: power_add)
    then have "(b * 2 ^ L + r) div 2 ^ k = r div 2 ^ k + b * 2 ^ (L - k)"
      by (simp only: div_mult_self3) simp
    moreover have "even (b * 2 ^ (L - k))" using 1 by simp
    ultimately show ?thesis using 1 by (simp add: bit_iff_odd)
  next
    case 2
    then show ?thesis using assms by (auto simp: bit_iff_odd less_2_cases_iff)
  next
    case 3
    then have "b * 2 ^ L + r < 2 ^ k"
    proof -
      have "b * 2 ^ L + r < 2 ^ Suc L" using assms by (auto simp: less_2_cases_iff)
      also have "\<dots> \<le> (2::nat) ^ k" using 3 by (intro power_increasing) auto
      finally show ?thesis .
    qed
    then show ?thesis using 3 by (simp add: bit_iff_odd)
  qed
qed

lemma bit_brv: "bit (brv L i) k \<longleftrightarrow> k < L \<and> bit i (L - 1 - k)"
proof (induction L arbitrary: i k)
  case (Suc L)
  have "bit (brv (Suc L) i) k \<longleftrightarrow> (if k < L then bit (brv L (i div 2)) k else k = L \<and> i mod 2 = 1)"
    unfolding brv.simps by (rule bit_digit_add [OF brv_less]) simp
  also have "\<dots> \<longleftrightarrow> k < Suc L \<and> bit i (Suc L - 1 - k)"
  proof (cases "k < L")
    case True
    then have "L - k = Suc (L - 1 - k)" by simp
    then show ?thesis using True Suc by (simp add: bit_Suc)
  qed (auto simp: bit_0 odd_iff_mod_2_eq_one)
  finally show ?case .
qed simp

definition reverse_table :: "u8 list" where
  "reverse_table =
    [0x00, 0x80, 0x40, 0xc0, 0x20, 0xa0, 0x60, 0xe0, 0x10, 0x90, 0x50, 0xd0, 0x30, 0xb0, 0x70, 0xf0, 0x08, 0x88,
     0x48, 0xc8, 0x28, 0xa8, 0x68, 0xe8, 0x18, 0x98, 0x58, 0xd8, 0x38, 0xb8, 0x78, 0xf8, 0x04, 0x84, 0x44, 0xc4,
     0x24, 0xa4, 0x64, 0xe4, 0x14, 0x94, 0x54, 0xd4, 0x34, 0xb4, 0x74, 0xf4, 0x0c, 0x8c, 0x4c, 0xcc, 0x2c, 0xac,
     0x6c, 0xec, 0x1c, 0x9c, 0x5c, 0xdc, 0x3c, 0xbc, 0x7c, 0xfc, 0x02, 0x82, 0x42, 0xc2, 0x22, 0xa2, 0x62, 0xe2,
     0x12, 0x92, 0x52, 0xd2, 0x32, 0xb2, 0x72, 0xf2, 0x0a, 0x8a, 0x4a, 0xca, 0x2a, 0xaa, 0x6a, 0xea, 0x1a, 0x9a,
     0x5a, 0xda, 0x3a, 0xba, 0x7a, 0xfa, 0x06, 0x86, 0x46, 0xc6, 0x26, 0xa6, 0x66, 0xe6, 0x16, 0x96, 0x56, 0xd6,
     0x36, 0xb6, 0x76, 0xf6, 0x0e, 0x8e, 0x4e, 0xce, 0x2e, 0xae, 0x6e, 0xee, 0x1e, 0x9e, 0x5e, 0xde, 0x3e, 0xbe,
     0x7e, 0xfe, 0x01, 0x81, 0x41, 0xc1, 0x21, 0xa1, 0x61, 0xe1, 0x11, 0x91, 0x51, 0xd1, 0x31, 0xb1, 0x71, 0xf1,
     0x09, 0x89, 0x49, 0xc9, 0x29, 0xa9, 0x69, 0xe9, 0x19, 0x99, 0x59, 0xd9, 0x39, 0xb9, 0x79, 0xf9, 0x05, 0x85,
     0x45, 0xc5, 0x25, 0xa5, 0x65, 0xe5, 0x15, 0x95, 0x55, 0xd5, 0x35, 0xb5, 0x75, 0xf5, 0x0d, 0x8d, 0x4d, 0xcd,
     0x2d, 0xad, 0x6d, 0xed, 0x1d, 0x9d, 0x5d, 0xdd, 0x3d, 0xbd, 0x7d, 0xfd, 0x03, 0x83, 0x43, 0xc3, 0x23, 0xa3,
     0x63, 0xe3, 0x13, 0x93, 0x53, 0xd3, 0x33, 0xb3, 0x73, 0xf3, 0x0b, 0x8b, 0x4b, 0xcb, 0x2b, 0xab, 0x6b, 0xeb,
     0x1b, 0x9b, 0x5b, 0xdb, 0x3b, 0xbb, 0x7b, 0xfb, 0x07, 0x87, 0x47, 0xc7, 0x27, 0xa7, 0x67, 0xe7, 0x17, 0x97,
     0x57, 0xd7, 0x37, 0xb7, 0x77, 0xf7, 0x0f, 0x8f, 0x4f, 0xcf, 0x2f, 0xaf, 0x6f, 0xef, 0x1f, 0x9f, 0x5f, 0xdf,
     0x3f, 0xbf, 0x7f, 0xff]"

definition reverse_byte :: "u8 \<Rightarrow> u8" where
  "reverse_byte x = reverse_table ! unat x"

definition shift_trick :: "nat list" where
  "shift_trick = [0, 7, 6, 5, 4, 3, 2, 1]"

text \<open>
  The bytes are promoted to \<open>int\<close>, so the shifts left and the \<open>|\<close> are on 32-bit signed
  values and the final \<open>>>\<close> copies the sign bit.
\<close>

definition ReverseBits :: "u32 \<Rightarrow> u32 \<Rightarrow> u32 res" where
  "ReverseBits num msb =
     (let msbb = drop_bit 3 msb + (if msb AND 0x7 \<noteq> 0 then 1 else 0);
          byte = (\<lambda>k. ucast (reverse_byte (ucast (drop_bit k num AND 0xff))) :: u32);
          sh = shift_trick ! unat (msb AND 0x7)
      in if msbb = 1 then Inr (signed_drop_bit sh (byte 0))
         else if msbb = 2 then Inr (signed_drop_bit sh (push_bit 8 (byte 0) OR byte 8))
         else if msbb = 3 then Inr (signed_drop_bit sh (push_bit 16 (byte 0) OR push_bit 8 (byte 8) OR byte 16))
         else if msbb = 4 then Inr (signed_drop_bit sh
           (push_bit 24 (byte 0) OR push_bit 16 (byte 8) OR push_bit 8 (byte 16) OR byte 24))
         else Inl (OpenFHEError (''msbb value not handled:'' @ std_to_string (unat msbb))))"

lemma reverse_table_ok: "map unat reverse_table = map (brv 8) [0..<256]"
  unfolding reverse_table_def by code_simp

lemma bit_reverse_byte: "bit (reverse_byte x) k \<longleftrightarrow> k < 8 \<and> bit x (7 - k)"
proof -
  have x: "unat x < 256" using unsigned_less [of x, where ?'a = nat] by simp
  have "length reverse_table = 256" by (simp add: reverse_table_def)
  then have "unat (reverse_byte x) = map unat reverse_table ! unat x"
    using x by (simp add: reverse_byte_def)
  also have "\<dots> = brv 8 (unat x)" unfolding reverse_table_ok using x by simp
  finally have u: "unat (reverse_byte x) = brv 8 (unat x)" .
  have "bit (reverse_byte x) k = bit (unat (reverse_byte x)) k"
    by (auto simp: bit_unsigned_iff dest: bit_imp_le_length)
  also have "\<dots> \<longleftrightarrow> k < 8 \<and> bit x (7 - k)" unfolding u bit_brv by (auto simp: bit_unsigned_iff)
  finally show ?thesis .
qed

definition rev_byte_at :: "u32 \<Rightarrow> nat \<Rightarrow> u32" where
  "rev_byte_at num k = ucast (reverse_byte (ucast (drop_bit k num AND 0xff)))"

lemma bit_rev_byte_at: "k \<le> 24 \<Longrightarrow> bit (rev_byte_at num k) j \<longleftrightarrow> j < 8 \<and> bit num (k + 7 - j)"
proof -
  assume "k \<le> 24"
  have "x AND 0xff = take_bit 8 x" for x :: u32 by (simp add: take_bit_eq_mask mask_eq_exp_minus_1)
  with \<open>k \<le> 24\<close> show ?thesis unfolding rev_byte_at_def
    by (auto simp: bit_simps bit_reverse_byte)
qed

lemma ReverseBits_1_bits:
  assumes "sh \<le> 7" "j < 32"
  shows "bit (signed_drop_bit sh (rev_byte_at num 0)) j \<longleftrightarrow> j < 8 - sh \<and> bit num (7 - sh - j)"
  using assms by (auto simp: bit_signed_drop_bit_iff bit_rev_byte_at)

lemma bit_two_bytes:
  "p < 32 \<Longrightarrow> bit (push_bit 8 (rev_byte_at num 0) OR rev_byte_at num 8) p \<longleftrightarrow> p < 16 \<and> bit num (15 - p)"
  by (cases "p < 8") (auto simp: bit_or_iff bit_push_bit_iff bit_rev_byte_at not_less le_iff_add)

lemma bit_three_bytes:
  "p < 32 \<Longrightarrow> bit (push_bit 16 (rev_byte_at num 0) OR push_bit 8 (rev_byte_at num 8) OR rev_byte_at num 16) p
    \<longleftrightarrow> p < 24 \<and> bit num (23 - p)"
  by (cases "p < 8"; cases "p < 16") (auto simp: bit_or_iff bit_push_bit_iff bit_rev_byte_at not_less le_iff_add)

lemma bit_four_bytes:
  "p < 32 \<Longrightarrow> bit (push_bit 24 (rev_byte_at num 0) OR push_bit 16 (rev_byte_at num 8)
      OR push_bit 8 (rev_byte_at num 16) OR rev_byte_at num 24) p \<longleftrightarrow> bit num (31 - p)"
  by (cases "p < 8"; cases "p < 16"; cases "p < 24")
    (auto simp: bit_or_iff bit_push_bit_iff bit_rev_byte_at not_less le_iff_add)

lemma bit_drop_signed:
  fixes w :: u32
  assumes "\<And>p. p < 32 \<Longrightarrow> bit w p \<longleftrightarrow> p < n \<and> bit num (n - 1 - p)" "n \<le> 31 \<or> sh = 0" "n \<le> 32"
  shows "bit (signed_drop_bit sh w) j \<longleftrightarrow> j < n - sh \<and> bit num (n - sh - 1 - j)"
proof (cases "j < 32")
  case True
  then show ?thesis using assms by (auto simp: bit_signed_drop_bit_iff)
next
  case False
  then have "\<not> bit (signed_drop_bit sh w) j" by (auto dest: bit_imp_le_length)
  with False assms(3) show ?thesis by auto
qed

text \<open>The number of bytes and the final shift that \<open>msb\<close> selects.\<close>

lemma msb_split:
  fixes msb :: u32
  defines "c \<equiv> drop_bit 3 msb + (if msb AND 0x7 \<noteq> 0 then 1 else 0)" and "sh \<equiv> shift_trick ! unat (msb AND 0x7)"
  assumes "0 < unat msb" "unat msb \<le> 32"
  shows "unat c \<in> {1, 2, 3, 4}" "8 * unat c - sh = unat msb" "sh \<le> 7"
proof -
  have "\<forall>n \<in> {1..32}. (let msb = of_nat n :: u32; c = drop_bit 3 msb + (if msb AND 0x7 \<noteq> 0 then 1 else 0);
      sh = shift_trick ! unat (msb AND 0x7) in
      unat c \<in> {1, 2, 3, 4} \<and> 8 * unat c - sh = n \<and> sh \<le> 7)"
    by code_simp
  from bspec [OF this, of "unat msb"] assms(3,4)
  have "(let msb = of_nat (unat msb) :: u32; c = drop_bit 3 msb + (if msb AND 0x7 \<noteq> 0 then 1 else 0);
      sh = shift_trick ! unat (msb AND 0x7) in
      unat c \<in> {1, 2, 3, 4} \<and> 8 * unat c - sh = unat msb \<and> sh \<le> 7)"
    by (simp only: atLeastAtMost_iff) simp
  moreover have e: "of_nat (unat msb) = msb" by simp
  ultimately have *: "unat c \<in> {1, 2, 3, 4} \<and> 8 * unat c - sh = unat msb \<and> sh \<le> 7"
    unfolding Let_def e c_def [symmetric] sh_def [symmetric] by blast
  show "unat c \<in> {1, 2, 3, 4}" "8 * unat c - sh = unat msb" "sh \<le> 7"
    using * by blast+
qed

lemma ReverseBits_correct:
  assumes "0 < unat msb" "unat msb \<le> 24 \<or> unat msb = 32"
  obtains r where "ReverseBits num msb = Inr r" "unat r = brv (unat msb) (unat num)"
proof -
  define c where "c = drop_bit 3 msb + (if msb AND 0x7 \<noteq> 0 then 1 else 0)"
  define sh where "sh = shift_trick ! unat (msb AND 0x7)"
  have le32: "unat msb \<le> 32" using assms(2) by auto
  note sp = msb_split [OF assms(1) le32, folded c_def sh_def]
  define w :: u32 where "w = (if unat c = 1 then rev_byte_at num 0
    else if unat c = 2 then push_bit 8 (rev_byte_at num 0) OR rev_byte_at num 8
    else if unat c = 3 then push_bit 16 (rev_byte_at num 0) OR push_bit 8 (rev_byte_at num 8) OR rev_byte_at num 16
    else push_bit 24 (rev_byte_at num 0) OR push_bit 16 (rev_byte_at num 8)
        OR push_bit 8 (rev_byte_at num 16) OR rev_byte_at num 24)"
  have c: "unat c = 1 \<or> unat c = 2 \<or> unat c = 3 \<or> unat c = 4" "8 * unat c - sh = unat msb"
    using sp assms by auto
  have cw: "c = of_nat (unat c)" by simp
  have wb: "bit w p \<longleftrightarrow> p < 8 * unat c \<and> bit num (8 * unat c - 1 - p)" if "p < 32" for p
    using c(1) that bit_two_bytes [OF that] bit_three_bytes [OF that] bit_four_bytes [OF that]
    by (auto simp: w_def bit_rev_byte_at)
  have sh0: "8 * unat c \<le> 31 \<or> sh = 0"
    using c assms(2) sp(3) by auto
  have rb: "bit (signed_drop_bit sh w) j \<longleftrightarrow> j < unat msb \<and> bit num (unat msb - 1 - j)" for j
    using bit_drop_signed [OF wb sh0] c by auto
  have "unat (signed_drop_bit sh w) = brv (unat msb) (unat num)"
  proof (rule bit_eqI)
    fix j
    show "bit (unat (signed_drop_bit sh w)) j = bit (brv (unat msb) (unat num)) j"
      using assms(2) by (auto simp: bit_brv bit_unsigned_iff rb)
  qed
  moreover have "ReverseBits num msb = Inr (signed_drop_bit sh w)"
    using c(1) cw unfolding ReverseBits_def Let_def c_def [symmetric] sh_def [symmetric] rev_byte_at_def [symmetric] w_def
    by (auto simp: word_unat_eq_iff)
  ultimately show ?thesis using that by blast
qed

end
