(* ===== verification/NttSpec.thy ===== *)
theory NttSpec
  imports BitRev
begin

text \<open>
  What the negacyclic number-theoretic transform computes, on integer sequences and up to
  congruence modulo \<open>q\<close>: the stages \<open>ct_spec\<close> of the Cooley-Tukey recursion, the
  evaluation of the input polynomial at the odd powers of a root of \<open>x ^ n + 1\<close>, and the
  product of polynomials modulo \<open>x ^ n + 1\<close>.
\<close>

section \<open>Congruences\<close>

lemma sum_mod_cong: "(\<And>k. k \<in> A \<Longrightarrow> f k mod q = g k mod q) \<Longrightarrow> sum f A mod q = sum g A mod (q :: int)"
  by (induction A rule: infinite_finite_induct) (auto intro!: mod_add_cong)

lemma power_mod_cong: "x mod q = y mod q \<Longrightarrow> x ^ n mod q = y ^ n mod (q :: int)"
  by (metis power_mod)

section \<open>The stages of the forward transform, on integers\<close>

fun ct_spec :: "(nat \<Rightarrow> int) \<Rightarrow> nat \<Rightarrow> (nat \<Rightarrow> int) \<Rightarrow> nat \<Rightarrow> nat \<Rightarrow> int" where
  "ct_spec W L a 0 p = a p"
| "ct_spec W L a (Suc s) p =
     (let t = 2 ^ (L - Suc s); w = W (2 ^ s + p div (2 * t))
      in if p mod (2 * t) < t then ct_spec W L a s p + w * ct_spec W L a s (p + t)
         else ct_spec W L a s (p - t) - w * ct_spec W L a s p)"

lemma ct_spec_lo:
  assumes "k < 2 ^ (L - Suc s)"
  shows "ct_spec W L a (Suc s) (i * (2 * 2 ^ (L - Suc s)) + k) =
      ct_spec W L a s (i * (2 * 2 ^ (L - Suc s)) + k)
    + W (2 ^ s + i) * ct_spec W L a s (i * (2 * 2 ^ (L - Suc s)) + k + 2 ^ (L - Suc s))"
proof -
  define t :: nat where "t = 2 ^ (L - Suc s)"
  have "(i * (2 * t) + k) div (2 * t) = i" "(i * (2 * t) + k) mod (2 * t) = k"
    using assms unfolding t_def [symmetric] by simp_all
  then show ?thesis using assms by (simp add: Let_def flip: t_def)
qed

lemma ct_spec_hi:
  assumes "k < 2 ^ (L - Suc s)"
  shows "ct_spec W L a (Suc s) (i * (2 * 2 ^ (L - Suc s)) + k + 2 ^ (L - Suc s)) =
      ct_spec W L a s (i * (2 * 2 ^ (L - Suc s)) + k)
    - W (2 ^ s + i) * ct_spec W L a s (i * (2 * 2 ^ (L - Suc s)) + k + 2 ^ (L - Suc s))"
proof -
  define t :: nat where "t = 2 ^ (L - Suc s)"
  have k: "k < t" using assms by (simp add: t_def)
  then have "(i * (2 * t) + k + t) div (2 * t) = i" "(i * (2 * t) + k + t) mod (2 * t) = k + t"
    by (simp_all add: add.assoc)
  then show ?thesis by (simp add: Let_def flip: t_def)
qed

declare ct_spec.simps(2) [simp del]

text \<open>The polynomial with coefficients \<open>a 0, \<dots>, a (n - 1)\<close> at \<open>x\<close>.\<close>

definition peval :: "nat \<Rightarrow> (nat \<Rightarrow> int) \<Rightarrow> int \<Rightarrow> int" where
  "peval n a x = (\<Sum>k<n. a k * x ^ k)"

lemma peval_mod_cong: "(\<And>k. k < n \<Longrightarrow> a k mod q = b k mod q) \<Longrightarrow> x mod q = y mod q \<Longrightarrow> peval n a x mod q = peval n b y mod q"
  unfolding peval_def by (intro sum_mod_cong mod_mult_cong power_mod_cong) auto

lemma peval_double: "peval (2 * t) a x = peval t (\<lambda>k. a k + x ^ t * a (k + t)) x"
proof -
  have "peval (2 * t) a x = (\<Sum>k<t. a k * x ^ k) + (\<Sum>k<t. a (k + t) * x ^ (k + t))"
  proof -
    have "peval (2 * t) a x = (\<Sum>k<t. a k * x ^ k) + (\<Sum>k\<in>{t..<2 * t}. a k * x ^ k)"
      unfolding peval_def
      by (subst sum.atLeastLessThan_concat [of 0 t "2 * t", symmetric, simplified atLeast0LessThan]) simp_all
    also have "(\<Sum>k\<in>{t..<2 * t}. a k * x ^ k) = (\<Sum>k<t. a (k + t) * x ^ (k + t))"
      by (rule sum.reindex_bij_witness [of _ "\<lambda>k. k + t" "\<lambda>k. k - t"]) auto
    finally show ?thesis .
  qed
  also have "\<dots> = peval t (\<lambda>k. a k + x ^ t * a (k + t)) x"
    unfolding peval_def by (simp add: sum.distrib [symmetric] power_add algebra_simps)
  finally show ?thesis .
qed

text \<open>
  After \<open>s\<close> stages block \<open>i\<close> holds the residue of the input modulo
  \<open>x ^ T - psi ^ (T * (1 + 2 * brv s i))\<close>, \<open>T = 2 ^ (L - s)\<close>: at a root of that
  polynomial the block and the input have the same value.
\<close>

lemma ct_spec_eval:
  assumes root: "psi ^ (2 ^ L) mod q = (- 1) mod q"
    and W: "\<And>s i. s < L \<Longrightarrow> i < 2 ^ s \<Longrightarrow> W (2 ^ s + i) mod q = psi ^ (brv L (2 ^ s + i)) mod q"
    and "s \<le> L" "i < 2 ^ s"
    and "x ^ (2 ^ (L - s)) mod q = psi ^ (2 ^ (L - s) * (1 + 2 * brv s i)) mod q"
  shows "peval (2 ^ (L - s)) (\<lambda>k. ct_spec W L a s (i * 2 ^ (L - s) + k)) x mod q = peval (2 ^ L) a x mod q"
  using assms(3-)
proof (induction s arbitrary: i)
  case 0
  then show ?case by simp
next
  case (Suc s)
  define t :: nat where "t = 2 ^ (L - Suc s)"
  define j where "j = i div 2"
  have sL: "s < L" using Suc.prems(1) by simp
  have T: "2 ^ (L - s) = 2 * t" using sL by (simp add: t_def Suc_diff_Suc flip: power_Suc)
  have j: "j < 2 ^ s" using Suc.prems(2) by (simp add: j_def)
  have w: "brv L (2 ^ s + j) = t * (1 + 2 * brv s j)"
    using brv_top [OF j, of "L - Suc s"] sL by (simp add: t_def)
  have ts: "t * 2 ^ Suc s = 2 ^ L" using sL by (simp add: t_def flip: power_add power_Suc)
  have ij: "i = 2 * j \<or> i = 2 * j + 1" by (auto simp: j_def)
  define w where "w = psi ^ (t * (1 + 2 * brv s j))"
  have Wj: "W (2 ^ s + j) mod q = w mod q" using W [OF sL j] w by (simp add: w_def)
  have xt: "x ^ t mod q = (if i = 2 * j then w else - w) mod q"
  proof (cases "i = 2 * j")
    case True
    then show ?thesis using Suc.prems(3) unfolding True brv_even_odd by (simp add: w_def t_def)
  next
    case False
    then have i: "i = 2 * j + 1" using ij by simp
    have "x ^ t mod q = psi ^ (t * (1 + 2 * (2 ^ s + brv s j))) mod q"
      using Suc.prems(3) unfolding i brv_even_odd t_def [symmetric] .
    also have "t * (1 + 2 * (2 ^ s + brv s j)) = t * (1 + 2 * brv s j) + 2 ^ L"
      using ts by (simp add: algebra_simps)
    also have "psi ^ \<dots> mod q = (w * (- 1)) mod q"
      unfolding power_add w_def by (intro mod_mult_cong refl root)
    finally show ?thesis using False by simp
  qed
  have x2: "x ^ (2 ^ (L - s)) mod q = psi ^ (2 ^ (L - s) * (1 + 2 * brv s j)) mod q"
  proof -
    have "x ^ (2 * t) mod q = (if i = 2 * j then w else - w) ^ 2 mod q"
      unfolding power_even_eq using power_mod_cong [OF xt] .
    also have "(if i = 2 * j then w else - w) ^ 2 = psi ^ (2 * t * (1 + 2 * brv s j))"
      by (simp add: w_def mult.commute flip: power_mult)
    finally show ?thesis unfolding T .
  qed
  have "peval (2 ^ L) a x mod q = peval (2 * t) (\<lambda>k. ct_spec W L a s (j * (2 * t) + k)) x mod q"
    using Suc.IH [OF _ j x2] sL unfolding T by simp
  also have "\<dots> = peval t (\<lambda>k. ct_spec W L a s (j * (2 * t) + k) + x ^ t * ct_spec W L a s (j * (2 * t) + (k + t))) x mod q"
    unfolding peval_double ..
  also have "\<dots> = peval t (\<lambda>k. ct_spec W L a (Suc s) (i * t + k)) x mod q"
  proof (rule peval_mod_cong [OF _ refl])
    fix k assume k: "k < t"
    show "(ct_spec W L a s (j * (2 * t) + k) + x ^ t * ct_spec W L a s (j * (2 * t) + (k + t))) mod q
      = ct_spec W L a (Suc s) (i * t + k) mod q"
    proof (cases "i = 2 * j")
      case True
      then have ik: "i * t + k = j * (2 * t) + k" by simp
      have "x ^ t mod q = W (2 ^ s + j) mod q" using xt Wj True by simp
      then show ?thesis using ct_spec_lo [of k L s W a j] k
        unfolding t_def [symmetric] ik by (simp only: add.assoc) (intro mod_add_cong mod_mult_cong refl)
    next
      case False
      then have i: "i = 2 * j + 1" using ij by simp
      then have ik: "i * t + k = j * (2 * t) + k + t" by (simp add: algebra_simps)
      have xw: "x ^ t mod q = (- W (2 ^ s + j)) mod q"
      proof -
        have "(0 - W (2 ^ s + j)) mod q = (0 - w) mod q" by (intro mod_diff_cong refl Wj)
        then show ?thesis using xt False by simp
      qed
      have e: "ct_spec W L a (Suc s) (j * (2 * t) + k + t)
        = ct_spec W L a s (j * (2 * t) + k) + (- W (2 ^ s + j)) * ct_spec W L a s (j * (2 * t) + (k + t))"
        using ct_spec_hi [of k L s W a j] k by (simp add: add.assoc flip: t_def)
      show ?thesis unfolding ik e by (intro mod_add_cong mod_mult_cong refl xw)
    qed
  qed
  finally show ?case by (simp add: t_def)
qed

lemma ct_spec_final:
  assumes "psi ^ (2 ^ L) mod q = (- 1) mod q"
    and "\<And>s i. s < L \<Longrightarrow> i < 2 ^ s \<Longrightarrow> W (2 ^ s + i) mod q = psi ^ (brv L (2 ^ s + i)) mod q"
    and "i < 2 ^ L"
  shows "ct_spec W L a L i mod q = peval (2 ^ L) a (psi ^ (1 + 2 * brv L i)) mod q"
  using ct_spec_eval [OF assms(1,2) order_refl assms(3), of "psi ^ (1 + 2 * brv L i)" a]
  by (simp add: peval_def)

section \<open>Products modulo \<open>x\<^sup>n - c\<close>\<close>

definition wrap_conv :: "int \<Rightarrow> nat \<Rightarrow> (nat \<Rightarrow> int) \<Rightarrow> (nat \<Rightarrow> int) \<Rightarrow> nat \<Rightarrow> int" where
  "wrap_conv c n a b k = (\<Sum>i<n. a i * (if i \<le> k then b (k - i) else c * b (n + k - i)))"

lemma wrap_conv_eval:
  assumes "x ^ n mod q = c mod q"
  shows "peval n (wrap_conv c n a b) x mod q = (peval n a x * peval n b x) mod q"
proof -
  have row: "(\<Sum>k<n. (if i \<le> k then b (k - i) else c * b (n + k - i)) * x ^ k) mod q = (x ^ i * peval n b x) mod q"
    if i: "i < n" for i
  proof -
    have "(\<Sum>k<n. (if i \<le> k then b (k - i) else c * b (n + k - i)) * x ^ k)
      = (\<Sum>k<i. c * b (n + k - i) * x ^ k) + (\<Sum>k\<in>{i..<n}. b (k - i) * x ^ k)"
      using i by (subst sum.atLeastLessThan_concat [of 0 i n, symmetric, simplified atLeast0LessThan]) simp_all
    also have "(\<Sum>k\<in>{i..<n}. b (k - i) * x ^ k) = (\<Sum>j<n - i. b j * x ^ (i + j))"
      using i by (intro sum.reindex_bij_witness [of _ "\<lambda>j. i + j" "\<lambda>k. k - i"]) auto
    finally have 1: "(\<Sum>k<n. (if i \<le> k then b (k - i) else c * b (n + k - i)) * x ^ k)
      = (\<Sum>k<i. c * b (n + k - i) * x ^ k) + (\<Sum>j<n - i. b j * x ^ (i + j))" .
    have "x ^ i * peval n b x = (\<Sum>j<n. b j * x ^ (i + j))"
      by (simp add: peval_def sum_distrib_left power_add algebra_simps)
    also have "\<dots> = (\<Sum>j<n - i. b j * x ^ (i + j)) + (\<Sum>j\<in>{n - i..<n}. b j * x ^ (i + j))"
      using i by (subst sum.atLeastLessThan_concat [of 0 "n - i" n, symmetric, simplified atLeast0LessThan]) simp_all
    also have "(\<Sum>j\<in>{n - i..<n}. b j * x ^ (i + j)) = (\<Sum>k<i. b (n + k - i) * (x ^ n * x ^ k))"
      using i by (intro sum.reindex_bij_witness [of _ "\<lambda>k. n + k - i" "\<lambda>j. i + j - n"])
        (auto simp flip: power_add)
    finally have 2: "x ^ i * peval n b x = (\<Sum>k<i. b (n + k - i) * (x ^ n * x ^ k)) + (\<Sum>j<n - i. b j * x ^ (i + j))"
      by simp
    have "(b (n + k - i) * (x ^ n * x ^ k)) mod q = (c * b (n + k - i) * x ^ k) mod q" for k
    proof -
      have "(x ^ n * (b (n + k - i) * x ^ k)) mod q = (c * (b (n + k - i) * x ^ k)) mod q"
        by (intro mod_mult_cong assms refl)
      then show ?thesis by (simp add: algebra_simps)
    qed
    then show ?thesis unfolding 1 2 by (intro mod_add_cong sum_mod_cong) auto
  qed
  have "peval n (wrap_conv c n a b) x = (\<Sum>i<n. a i * (\<Sum>k<n. (if i \<le> k then b (k - i) else c * b (n + k - i)) * x ^ k))"
    unfolding peval_def wrap_conv_def sum_distrib_right sum_distrib_left
    by (subst sum.swap) (simp add: mult.assoc)
  also have "\<dots> mod q = (\<Sum>i<n. a i * (x ^ i * peval n b x)) mod q"
    by (intro sum_mod_cong mod_mult_cong row refl) simp
  also have "(\<Sum>i<n. a i * (x ^ i * peval n b x)) = peval n a x * peval n b x"
    by (simp add: peval_def [of n a] sum_distrib_right mult.assoc)
  finally show ?thesis .
qed

text \<open>The product modulo \<open>x\<^sup>n + 1\<close>.\<close>

definition negacyclic :: "nat \<Rightarrow> (nat \<Rightarrow> int) \<Rightarrow> (nat \<Rightarrow> int) \<Rightarrow> nat \<Rightarrow> int" where
  "negacyclic n a b k = (\<Sum>i<n. a i * (if i \<le> k then b (k - i) else - b (n + k - i)))"

lemma negacyclic_eval:
  assumes "x ^ n mod q = (- 1) mod q"
  shows "peval n (negacyclic n a b) x mod q = (peval n a x * peval n b x) mod q"
proof -
  have "negacyclic n a b = wrap_conv (- 1) n a b"
    by (rule ext) (simp only: negacyclic_def wrap_conv_def mult_minus_left mult_1)
  then show ?thesis using wrap_conv_eval [OF assms] by simp
qed

end
