(* ===== verification/NatVec.thy ===== *)
theory NatVec
  imports NttSpec
begin

text \<open>
  The vector \<open>NativeVectorT<NativeInteger>\<close> of
  \<open>src/core/include/math/hal/intnat/mubintvecnat.h\<close> and \<open>mubintvecnat.cpp\<close>: a modulus
  and the list of entries. A method of the class whose name a method of the integer class already
  has is written with a leading \<open>v\<close>, its scalar overload with a trailing \<open>_s\<close>. Every
  operation is total where the code is; \<open>OPENFHE_THROW\<close> and reads past the end are errors.
\<close>

section \<open>Definitions\<close>

record nvec =
  m_modulus :: u64
  m_data :: "u64 list"

definition GetLength :: "nvec \<Rightarrow> nat" where
  "GetLength v = length (m_data v)"

text \<open>\<open>MAX_MODULUS_SIZE\<close> of \<open>basicint.h\<close> for 64-bit words with 128-bit arithmetic.\<close>

definition MAX_MODULUS_SIZE :: nat where
  "MAX_MODULUS_SIZE = 60"

subsection \<open>Construction and access\<close>

definition nvec_zero :: "nat \<Rightarrow> u64 \<Rightarrow> nvec" where
  "nvec_zero len modulus = \<lparr>m_modulus = modulus, m_data = replicate len 0\<rparr>"

definition nvec_fill :: "nat \<Rightarrow> u64 \<Rightarrow> u64 \<Rightarrow> nvec" where
  "nvec_fill len modulus val = \<lparr>m_modulus = modulus, m_data = replicate len (Mod val modulus)\<rparr>"

definition Single :: "u64 \<Rightarrow> u64 \<Rightarrow> nvec" where
  "Single val modulus = nvec_fill 1 modulus val"

definition nvec_of_strings :: "nat \<Rightarrow> u64 \<Rightarrow> string list \<Rightarrow> nvec res" where
  "nvec_of_strings len modulus rhs =
     (let vlen = (if length rhs < len then length rhs else len)
      in ebind (emap (\<lambda>s. ebind (SetValue s) (\<lambda>x. Inr (Mod x modulus))) (take vlen rhs)) (\<lambda>xs.
           Inr \<lparr>m_modulus = modulus, m_data = xs @ replicate (len - vlen) 0\<rparr>))"

definition nvec_of_list :: "nat \<Rightarrow> u64 \<Rightarrow> u64 list \<Rightarrow> nvec" where
  "nvec_of_list len modulus rhs =
     (let vlen = (if length rhs < len then length rhs else len)
      in \<lparr>m_modulus = modulus, m_data = map (\<lambda>x. x mod modulus) (take vlen rhs) @ replicate (len - vlen) 0\<rparr>)"

text \<open>Assignment from an initializer list keeps the modulus, grows the vector if needed and
  clears the entries the list does not give.\<close>

definition assign_strings :: "nvec \<Rightarrow> string list \<Rightarrow> nvec res" where
  "assign_strings v rhs =
     (let vlen = length rhs;
          size = (if length (m_data v) < vlen then vlen else length (m_data v))
      in ebind (emap (\<lambda>s. ebind (SetValue s) (\<lambda>x.
           Inr (if m_modulus v \<noteq> 0 then x mod m_modulus v else x))) rhs) (\<lambda>xs.
           Inr (v\<lparr>m_data := xs @ replicate (size - vlen) 0\<rparr>)))"

definition assign_list :: "nvec \<Rightarrow> u64 list \<Rightarrow> nvec" where
  "assign_list v rhs =
     (let vlen = length rhs;
          size = (if length (m_data v) < vlen then vlen else length (m_data v))
      in v\<lparr>m_data := map (\<lambda>x. if m_modulus v \<noteq> 0 then x mod m_modulus v else x) rhs
           @ replicate (size - vlen) 0\<rparr>)"

definition assign_vec :: "nvec \<Rightarrow> nvec \<Rightarrow> nvec" where
  "assign_vec v rhs =
     (let v1 = v\<lparr>m_modulus := m_modulus rhs\<rparr>
      in if length (m_data v1) \<ge> length (m_data rhs)
         then v1\<lparr>m_data := take (length (m_data rhs))
                (m_data rhs @ drop (length (m_data rhs)) (m_data v1))\<rparr>
         else v1\<lparr>m_data := m_data rhs\<rparr>)"

definition assign_u64 :: "nvec \<Rightarrow> u64 \<Rightarrow> nvec res" where
  "assign_u64 v val =
     (let d = map (\<lambda>_. 0) (m_data v)
      in if length d = 0 then Inl OutOfRange else Inr (v\<lparr>m_data := d[0 := val]\<rparr>))"

definition IndexCheck :: "nvec \<Rightarrow> nat \<Rightarrow> bool" where
  "IndexCheck v i \<longleftrightarrow> i < length (m_data v)"

definition at :: "nvec \<Rightarrow> nat \<Rightarrow> u64 res" where
  "at v i = (if \<not> IndexCheck v i then Inl (OpenFHEError ''NativeVectorT index out of range'')
             else Inr (m_data v ! i))"

definition vec_eq :: "nvec \<Rightarrow> nvec \<Rightarrow> bool" where
  "vec_eq a b =
     (if GetLength a \<noteq> GetLength b \<or> m_modulus a \<noteq> m_modulus b then False
      else list_all (\<lambda>i. \<not> (m_data a ! i \<noteq> m_data b ! i)) [0..<GetLength a])"

definition SetModulus :: "nvec \<Rightarrow> u64 \<Rightarrow> nvec res" where
  "SetModulus v value =
     (if unat (GetMSB value) > MAX_MODULUS_SIZE
      then Inl (OpenFHEError ((''Requested modulus' size '' @ std_to_string (unat (GetMSB value)) @ '' is not supported.'')
             @ '' NativeVectorT supports only modulus size <=  '' @ std_to_string MAX_MODULUS_SIZE))
      else Inr (v\<lparr>m_modulus := value\<rparr>))"

subsection \<open>Change of modulus\<close>

definition SwitchModulus :: "nvec \<Rightarrow> u64 \<Rightarrow> nvec res" where
  "SwitchModulus v modulus =
     (let halfQ = drop_bit 1 (m_modulus v);
          diff = (if m_modulus v > modulus then m_modulus v - modulus else modulus - m_modulus v);
          d = (if modulus > m_modulus v
               then map (\<lambda>x. AddEqFast x (if x > halfQ then diff else 0)) (m_data v)
               else map (\<lambda>x. ModSubEq x (if x > halfQ then diff else 0) modulus) (m_data v))
      in SetModulus (v\<lparr>m_data := d\<rparr>) modulus)"

definition LazySwitchModulus :: "nvec \<Rightarrow> u64 \<Rightarrow> nvec res" where
  "LazySwitchModulus v modulus =
     SetModulus (v\<lparr>m_data := map (\<lambda>x. ModEq x modulus) (m_data v)\<rparr>) modulus"

definition vModByTwo :: "nvec \<Rightarrow> nvec" where
  "vModByTwo v =
     (let halfQ = drop_bit 1 (m_modulus v)
      in v\<lparr>m_data := map (\<lambda>x. 1 AND (x XOR (if x > halfQ then 1 else 0))) (m_data v)\<rparr>)"

definition vModByTwoEq :: "nvec \<Rightarrow> nvec" where
  "vModByTwoEq v =
     (let halfQ = drop_bit 1 (m_modulus v)
      in v\<lparr>m_data := map (\<lambda>x. 1 AND (x XOR (if x > halfQ then 1 else 0))) (m_data v)\<rparr>)"

text \<open>The modulus of the result is unchanged, only the entries are.\<close>

definition vMod :: "nvec \<Rightarrow> u64 \<Rightarrow> nvec" where
  "vMod v modulus =
     (if modulus = 2 then vModByTwoEq v
      else let halfQ = drop_bit 1 (m_modulus v);
               diff = (if m_modulus v > modulus then m_modulus v - modulus else modulus - m_modulus v)
           in if modulus > m_modulus v
              then v\<lparr>m_data := map (\<lambda>x. AddEqFast x (if x > halfQ then diff else 0)) (m_data v)\<rparr>
              else v\<lparr>m_data := map (\<lambda>x. ModSubEq x (if x > halfQ then diff else 0) modulus) (m_data v)\<rparr>)"

definition vModEq :: "nvec \<Rightarrow> u64 \<Rightarrow> nvec" where
  "vModEq v modulus =
     (if modulus = 2 then vModByTwoEq v
      else let halfQ = drop_bit 1 (m_modulus v);
               diff = (if m_modulus v > modulus then m_modulus v - modulus else modulus - m_modulus v)
           in if modulus > m_modulus v
              then v\<lparr>m_data := map (\<lambda>x. AddEqFast x (if x > halfQ then diff else 0)) (m_data v)\<rparr>
              else v\<lparr>m_data := map (\<lambda>x. ModSubEq x (if x > halfQ then diff else 0) modulus) (m_data v)\<rparr>)"

subsection \<open>Entrywise arithmetic\<close>

definition diff_params :: "'a res" where
  "diff_params = Inl (OpenFHEError ''Called on NativeVectorT's with different parameters.'')"

definition vModAdd_s :: "nvec \<Rightarrow> u64 \<Rightarrow> nvec" where
  "vModAdd_s a b =
     (let mv = m_modulus a; bv = (if b \<ge> mv then ModEq b mv else b)
      in a\<lparr>m_data := map (\<lambda>x. ModAddFast x bv mv) (m_data a)\<rparr>)"

definition vModAddEq_s :: "nvec \<Rightarrow> u64 \<Rightarrow> nvec" where
  "vModAddEq_s a b =
     (let mv = m_modulus a; bv = (if b \<ge> mv then ModEq b mv else b)
      in a\<lparr>m_data := map (\<lambda>x. ModAddFast x bv mv) (m_data a)\<rparr>)"

definition ModAddAtIndex :: "nvec \<Rightarrow> nat \<Rightarrow> u64 \<Rightarrow> nvec res" where
  "ModAddAtIndex a i b =
     ebind (at a i) (\<lambda>x. Inr (a\<lparr>m_data := (m_data a)[i := ModAddEq x b (m_modulus a)]\<rparr>))"

definition ModAddAtIndexEq :: "nvec \<Rightarrow> nat \<Rightarrow> u64 \<Rightarrow> nvec res" where
  "ModAddAtIndexEq a i b =
     ebind (at a i) (\<lambda>x. Inr (a\<lparr>m_data := (m_data a)[i := ModAddEq x b (m_modulus a)]\<rparr>))"

definition vModAdd :: "nvec \<Rightarrow> nvec \<Rightarrow> nvec res" where
  "vModAdd a b =
     (if m_modulus a \<noteq> m_modulus b \<or> length (m_data a) \<noteq> length (m_data b) then diff_params
      else let mv = m_modulus a
           in Inr (a\<lparr>m_data := map2 (\<lambda>x y. ModAddFastEq x y mv) (m_data a) (m_data b)\<rparr>))"

definition vModAddEq :: "nvec \<Rightarrow> nvec \<Rightarrow> nvec res" where
  "vModAddEq a b =
     (if length (m_data a) \<noteq> length (m_data b) \<or> m_modulus a \<noteq> m_modulus b then diff_params
      else let mv = m_modulus a
           in Inr (a\<lparr>m_data := map2 (\<lambda>x y. ModAddFastEq x y mv) (m_data a) (m_data b)\<rparr>))"

text \<open>Without the check a shorter operand is read past its end.\<close>

definition vModAddNoCheckEq :: "nvec \<Rightarrow> nvec \<Rightarrow> nvec res" where
  "vModAddNoCheckEq a b =
     (let mv = m_modulus a
      in if length (m_data b) < length (m_data a) then Inl OutOfRange
         else Inr (a\<lparr>m_data := map2 (\<lambda>x y. ModAddFastEq x y mv) (m_data a) (m_data b)\<rparr>))"

definition vModSub_s :: "nvec \<Rightarrow> u64 \<Rightarrow> nvec" where
  "vModSub_s a b =
     (let mv = m_modulus a; bv = (if b \<ge> mv then ModEq b mv else b)
      in a\<lparr>m_data := map (\<lambda>x. ModSubFastEq x bv mv) (m_data a)\<rparr>)"

definition vModSubEq_s :: "nvec \<Rightarrow> u64 \<Rightarrow> nvec" where
  "vModSubEq_s a b =
     (let mv = m_modulus a; bv = (if b \<ge> mv then ModEq b mv else b)
      in a\<lparr>m_data := map (\<lambda>x. ModSubFastEq x bv mv) (m_data a)\<rparr>)"

definition vModSub :: "nvec \<Rightarrow> nvec \<Rightarrow> nvec res" where
  "vModSub a b =
     (if length (m_data a) \<noteq> length (m_data b) \<or> m_modulus a \<noteq> m_modulus b then diff_params
      else let mv = m_modulus a
           in Inr (a\<lparr>m_data := map2 (\<lambda>x y. ModSubFastEq x y mv) (m_data a) (m_data b)\<rparr>))"

definition vModSubEq :: "nvec \<Rightarrow> nvec \<Rightarrow> nvec res" where
  "vModSubEq a b =
     (if length (m_data a) \<noteq> length (m_data b) \<or> m_modulus a \<noteq> m_modulus b then diff_params
      else Inr (a\<lparr>m_data := map2 (\<lambda>x y. ModSubFastEq x y (m_modulus a)) (m_data a) (m_data b)\<rparr>))"

definition vModMul_s :: "nvec \<Rightarrow> u64 \<Rightarrow> nvec res" where
  "vModMul_s a b =
     (let mv = m_modulus a; bv = (if b \<ge> mv then ModEq b mv else b)
      in ebind (PrepModMulConst bv mv) (\<lambda>bconst.
           Inr (a\<lparr>m_data := map (\<lambda>x. ModMulFastConstEq x bv mv bconst) (m_data a)\<rparr>)))"

definition vModMulEq_s :: "nvec \<Rightarrow> u64 \<Rightarrow> nvec res" where
  "vModMulEq_s a b =
     (let mv = m_modulus a; bv = (if b \<ge> mv then ModEq b mv else b)
      in ebind (PrepModMulConst bv mv) (\<lambda>bconst.
           Inr (a\<lparr>m_data := map (\<lambda>x. ModMulFastConstEq x bv mv bconst) (m_data a)\<rparr>)))"

definition vModMul :: "nvec \<Rightarrow> nvec \<Rightarrow> nvec res" where
  "vModMul a b =
     (if length (m_data a) \<noteq> length (m_data b) \<or> m_modulus a \<noteq> m_modulus b then diff_params
      else let mv = m_modulus a
           in ebind (ComputeMu mv) (\<lambda>mu.
                Inr (a\<lparr>m_data := map2 (\<lambda>x y. ModMulFastEq_mu x y mv mu) (m_data a) (m_data b)\<rparr>)))"

definition vModMulEq :: "nvec \<Rightarrow> nvec \<Rightarrow> nvec res" where
  "vModMulEq a b =
     (if length (m_data a) \<noteq> length (m_data b) \<or> m_modulus a \<noteq> m_modulus b then diff_params
      else let mv = m_modulus a
           in ebind (ComputeMu mv) (\<lambda>mu.
                Inr (a\<lparr>m_data := map2 (\<lambda>x y. ModMulFastEq_mu x y mv mu) (m_data a) (m_data b)\<rparr>)))"

definition vModMulNoCheckEq :: "nvec \<Rightarrow> nvec \<Rightarrow> nvec res" where
  "vModMulNoCheckEq a b =
     (let mv = m_modulus a
      in ebind (ComputeMu mv) (\<lambda>mu.
           if length (m_data b) < length (m_data a) then Inl OutOfRange
           else Inr (a\<lparr>m_data := map2 (\<lambda>x y. ModMulFastEq_mu x y mv mu) (m_data a) (m_data b)\<rparr>)))"

definition MultAccEqNoCheck :: "nvec \<Rightarrow> nvec \<Rightarrow> u64 \<Rightarrow> nvec res" where
  "MultAccEqNoCheck a V I =
     (let mv = m_modulus a; iv = (if I \<ge> mv then ModEq I mv else I)
      in ebind (PrepModMulConst iv mv) (\<lambda>iinv.
           if length (m_data V) < length (m_data a) then Inl OutOfRange
           else Inr (a\<lparr>m_data := map2 (\<lambda>x y. ModAddFastEq x (ModMulFastConst y iv mv iinv) mv)
                  (m_data a) (m_data V)\<rparr>)))"

definition vMultWithOutMod :: "nvec \<Rightarrow> nvec \<Rightarrow> nvec res" where
  "vMultWithOutMod a b =
     (if length (m_data a) \<noteq> length (m_data b) \<or> m_modulus a \<noteq> m_modulus b then diff_params
      else Inr (a\<lparr>m_data := map2 (\<lambda>x y. x * y) (m_data a) (m_data b)\<rparr>))"

text \<open>\<open>-a\<close> of \<open>vector.h\<close> multiplies by the modulus minus one.\<close>

definition vec_uminus :: "nvec \<Rightarrow> nvec res" where
  "vec_uminus a = vModMul_s a (m_modulus a - 1)"

definition vModExp :: "nvec \<Rightarrow> u64 \<Rightarrow> nvec" where
  "vModExp a b =
     (let mv = m_modulus a; bv = (if b \<ge> mv then ModEq b mv else b)
      in a\<lparr>m_data := map (\<lambda>x. ModExp x bv mv) (m_data a)\<rparr>)"

definition vModExpEq :: "nvec \<Rightarrow> u64 \<Rightarrow> nvec" where
  "vModExpEq a b =
     (let mv = m_modulus a; bv = (if b \<ge> mv then ModEq b mv else b)
      in a\<lparr>m_data := map (\<lambda>x. ModExp x bv mv) (m_data a)\<rparr>)"

definition vModInverse :: "nvec \<Rightarrow> nvec res" where
  "vModInverse a =
     (let mv = m_modulus a
      in ebind (emap (\<lambda>x. ModInverse x mv) (m_data a)) (\<lambda>d.
           Inr \<lparr>m_modulus = mv, m_data = d\<rparr>))"

definition vModInverseEq :: "nvec \<Rightarrow> nvec res" where
  "vModInverseEq a =
     (let mv = m_modulus a
      in ebind (emap (\<lambda>x. ModInverse x mv) (m_data a)) (\<lambda>d. Inr (a\<lparr>m_data := d\<rparr>)))"

definition vDivideAndRound :: "nvec \<Rightarrow> u64 \<Rightarrow> nvec res" where
  "vDivideAndRound a q =
     (let halfQ = drop_bit 1 (m_modulus a); mv = m_modulus a
      in ebind (emap (\<lambda>x. if x > halfQ
             then (let tmp = mv - x in ebind (DivideAndRound tmp q) (\<lambda>r. Inr (mv - r)))
             else DivideAndRound x q) (m_data a)) (\<lambda>d. Inr (a\<lparr>m_data := d\<rparr>)))"

definition vDivideAndRoundEq :: "nvec \<Rightarrow> u64 \<Rightarrow> nvec res" where
  "vDivideAndRoundEq a q =
     (let halfQ = drop_bit 1 (m_modulus a); mv = m_modulus a
      in ebind (emap (\<lambda>x. if x > halfQ
             then (let tmp = mv - x in ebind (DivideAndRound tmp q) (\<lambda>r. Inr (mv - r)))
             else DivideAndRound x q) (m_data a)) (\<lambda>d. Inr (a\<lparr>m_data := d\<rparr>)))"

definition vGetDigitAtIndexForBase :: "nvec \<Rightarrow> u32 \<Rightarrow> u32 \<Rightarrow> nvec res" where
  "vGetDigitAtIndexForBase a index base =
     ebind (emap (\<lambda>x. ebind (GetDigitAtIndexForBase x index base) (\<lambda>d. Inr (ucast d))) (m_data a)) (\<lambda>d.
       Inr (a\<lparr>m_data := d\<rparr>))"

subsection \<open>Serialization\<close>

text \<open>The binary archive holds the length, the entries and the modulus, as 64-bit words.\<close>

definition save_vec :: "nvec \<Rightarrow> u64 list" where
  "save_vec v = of_nat (length (m_data v)) # m_data v @ save_u64 (m_modulus v)"

definition load_vec :: "nat \<Rightarrow> u64 list \<Rightarrow> nvec res" where
  "load_vec version ar =
     (if version > SerializedVersion
      then Inl (OpenFHEError (''serialized object version '' @ std_to_string version @
             '' is from a later version of the library''))
      else case ar of [] \<Rightarrow> Inl OutOfRange
           | n # rest \<Rightarrow>
               if length rest < unat n then Inl OutOfRange
               else ebind (load_u64 version (drop (unat n) rest)) (\<lambda>m.
                      Inr \<lparr>m_modulus = m, m_data = take (unat n) rest\<rparr>))"

section \<open>Facts\<close>

subsection \<open>The constants the vector operations prepare\<close>

definition mu_of :: "u64 \<Rightarrow> u64" where
  "mu_of m = of_nat (barrett_mu (unat m))"

definition shoup_of :: "u64 \<Rightarrow> u64 \<Rightarrow> u64" where
  "shoup_of b m = of_nat (unat b * 2 ^ 64 div unat m)"

lemma word_of_unat_eq: "unat w = n \<Longrightarrow> w = of_nat n"
  by auto

lemma ComputeMu_eq: "barrett_modulus m \<Longrightarrow> ComputeMu m = Inr (mu_of m)"
  by (erule ComputeMu_barrett [of m]) (simp add: mu_of_def word_of_unat_eq)

lemma unat_mu_of: "barrett_modulus m \<Longrightarrow> unat (mu_of m) = barrett_mu (unat m)"
  by (metis ComputeMu_barrett ComputeMu_eq sum.inject(2))

lemma PrepModMulConst_eq: "0 < unat m \<Longrightarrow> unat b < unat m \<Longrightarrow> PrepModMulConst b m = Inr (shoup_of b m)"
  by (erule (1) PrepModMulConst_spec) (simp add: shoup_of_def word_of_unat_eq)

lemma unat_shoup_of: "0 < unat m \<Longrightarrow> unat b < unat m \<Longrightarrow> unat (shoup_of b m) = unat b * 2 ^ 64 div unat m"
  by (metis PrepModMulConst_eq PrepModMulConst_spec sum.inject(2))

subsection \<open>Operations on residues\<close>

text \<open>
  A vector is well formed when its modulus leaves a bit of head room and every entry is reduced;
  a residue operation maps reduced words to the reduced result of an arithmetic function. Lifted
  entry by entry it keeps vectors well formed.
\<close>

definition head_room :: "u64 \<Rightarrow> bool" where
  "head_room m \<longleftrightarrow> 0 < unat m \<and> unat m \<le> 2 ^ 63"

definition reduced :: "u64 \<Rightarrow> u64 list \<Rightarrow> bool" where
  "reduced m xs \<longleftrightarrow> list_all (\<lambda>x. x < m) xs"

definition same_params :: "nvec \<Rightarrow> nvec \<Rightarrow> bool" where
  "same_params a b \<longleftrightarrow> m_modulus a = m_modulus b \<and> length (m_data a) = length (m_data b)"

definition vec_map2 :: "(u64 \<Rightarrow> u64 \<Rightarrow> u64 \<Rightarrow> u64) \<Rightarrow> nvec \<Rightarrow> nvec \<Rightarrow> nvec" where
  "vec_map2 f a b = a\<lparr>m_data := map2 (f (m_modulus a)) (m_data a) (m_data b)\<rparr>"

definition vec_map :: "(u64 \<Rightarrow> u64 \<Rightarrow> u64 \<Rightarrow> u64) \<Rightarrow> nvec \<Rightarrow> u64 \<Rightarrow> nvec" where
  "vec_map f a y = a\<lparr>m_data := map (\<lambda>x. f (m_modulus a) x y) (m_data a)\<rparr>"

definition nv_ok :: "nvec \<Rightarrow> bool" where
  "nv_ok v \<longleftrightarrow> head_room (m_modulus v) \<and> reduced (m_modulus v) (m_data v)"

lemma reduced_nth: "reduced m xs \<Longrightarrow> i < length xs \<Longrightarrow> unat (xs ! i) < unat m"
  by (auto simp: reduced_def list_all_length word_less_nat_alt)

lemma reducedI: "(\<And>i. i < length xs \<Longrightarrow> unat (xs ! i) < unat m) \<Longrightarrow> reduced m xs"
  by (auto simp: reduced_def list_all_length word_less_nat_alt)

lemma barrett_head_room: "barrett_modulus m \<Longrightarrow> head_room m"
  by (auto simp: barrett_modulus_def head_room_def)

locale residue_op =
  fixes ok :: "u64 \<Rightarrow> bool"
    and f :: "u64 \<Rightarrow> u64 \<Rightarrow> u64 \<Rightarrow> u64"
    and g :: "nat \<Rightarrow> nat \<Rightarrow> nat \<Rightarrow> nat"
  assumes ok_pos: "ok m \<Longrightarrow> 0 < unat m"
    and op: "ok m \<Longrightarrow> unat x < unat m \<Longrightarrow> unat y < unat m \<Longrightarrow> unat (f m x y) = g (unat m) (unat x) (unat y) mod unat m"
begin

lemma less: "ok m \<Longrightarrow> unat x < unat m \<Longrightarrow> unat y < unat m \<Longrightarrow> unat (f m x y) < unat m"
  using ok_pos [of m] by (simp add: op)

lemma map2_nth:
  assumes "ok m" "reduced m xs" "reduced m ys" "length xs = length ys" "i < length xs"
  shows "unat (map2 (f m) xs ys ! i) = g (unat m) (unat (xs ! i)) (unat (ys ! i)) mod unat m"
  using assms reduced_nth [of m xs i] reduced_nth [of m ys i] by (simp add: op)

lemma map2_reduced:
  assumes "ok m" "reduced m xs" "reduced m ys" "length xs = length ys"
  shows "reduced m (map2 (f m) xs ys)"
  using assms reduced_nth [of m xs] reduced_nth [of m ys] by (intro reducedI) (simp add: less)

lemma vec_map2:
  assumes "ok (m_modulus a)" "nv_ok a" "nv_ok b" "same_params a b"
  shows "nv_ok (vec_map2 f a b)" "same_params a (vec_map2 f a b)"
    "i < length (m_data a) \<Longrightarrow> unat (m_data (vec_map2 f a b) ! i)
      = g (unat (m_modulus a)) (unat (m_data a ! i)) (unat (m_data b ! i)) mod unat (m_modulus a)"
  using assms map2_reduced [of "m_modulus a" "m_data a" "m_data b"]
    map2_nth [of "m_modulus a" "m_data a" "m_data b" i]
  by (simp_all add: nv_ok_def same_params_def vec_map2_def)

lemma map_nth:
  assumes "ok m" "reduced m xs" "unat y < unat m" "i < length xs"
  shows "unat (map (\<lambda>x. f m x y) xs ! i) = g (unat m) (unat (xs ! i)) (unat y) mod unat m"
  using assms reduced_nth [of m xs i] by (simp add: op)

lemma map_reduced:
  assumes "ok m" "reduced m xs" "unat y < unat m"
  shows "reduced m (map (\<lambda>x. f m x y) xs)"
  using assms reduced_nth [of m xs] by (intro reducedI) (simp add: less)

lemma vec_map:
  assumes "ok (m_modulus a)" "nv_ok a" "unat y < unat (m_modulus a)"
  shows "nv_ok (vec_map f a y)" "same_params a (vec_map f a y)"
    "i < length (m_data a) \<Longrightarrow> unat (m_data (vec_map f a y) ! i)
      = g (unat (m_modulus a)) (unat (m_data a ! i)) (unat y) mod unat (m_modulus a)"
  using assms map_reduced [of "m_modulus a" "m_data a" y] map_nth [of "m_modulus a" "m_data a" y i]
  by (simp_all add: nv_ok_def same_params_def vec_map_def)

end

interpretation add: residue_op head_room "\<lambda>m x y. ModAddFast x y m" "\<lambda>m a b. a + b"
  by unfold_locales (auto simp: head_room_def ModAddFast_correct)

interpretation sub: residue_op head_room "\<lambda>m x y. ModSubFast x y m" "\<lambda>m a b. a + (m - b)"
  by unfold_locales (auto simp: head_room_def ModSubFast_correct)

interpretation mul: residue_op barrett_modulus "\<lambda>m x y. ModMulFast_mu x y m (mu_of m)" "\<lambda>m a b. a * b"
  by unfold_locales (auto simp: barrett_modulus_def ModMulFast_mu_reduced unat_mu_of)

interpretation cmul: residue_op head_room "\<lambda>m x y. ModMulFastConst x y m (shoup_of y m)" "\<lambda>m a b. a * b"
  by unfold_locales (auto simp: head_room_def ModMulFastConst_correct unat_shoup_of)

text \<open>The operations in terms of the lifted ones.\<close>

lemma vec_binop_eqs:
  assumes "same_params a b"
  shows "vModAdd a b = Inr (vec_map2 (\<lambda>m x y. ModAddFast x y m) a b)"
    "vModSub a b = Inr (vec_map2 (\<lambda>m x y. ModSubFast x y m) a b)"
    "barrett_modulus (m_modulus a) \<Longrightarrow> vModMul a b = Inr (vec_map2 (\<lambda>m x y. ModMulFast_mu x y m (mu_of m)) a b)"
  using assms by (simp_all add: same_params_def vModAdd_def vModSub_def vModMul_def vec_map2_def ModAddFastEq_eq
      ModSubFastEq_eq ModMulFastEq_mu_eq ComputeMu_eq Let_def)

lemma vec_binop_variants:
  "vModAddEq a b = vModAdd a b" "vModSubEq a b = vModSub a b" "vModMulEq a b = vModMul a b"
  "same_params a b \<Longrightarrow> vModAddNoCheckEq a b = vModAdd a b"
  "same_params a b \<Longrightarrow> vModMulNoCheckEq a b = vModMul a b"
  by (auto simp: vModAddEq_def vModAdd_def vModSubEq_def vModSub_def vModMulEq_def vModMul_def
      vModAddNoCheckEq_def vModMulNoCheckEq_def same_params_def Let_def)

lemma vec_binop_error:
  "\<not> same_params a b \<Longrightarrow> vModAdd a b = diff_params \<and> vModSub a b = diff_params \<and> vModMul a b = diff_params"
  by (auto simp: vModAdd_def vModSub_def vModMul_def same_params_def)

definition reduce_arg :: "u64 \<Rightarrow> u64 \<Rightarrow> u64" where
  "reduce_arg b m = (if b \<ge> m then ModEq b m else b)"

lemma unat_reduce_arg: "0 < unat m \<Longrightarrow> unat (reduce_arg b m) = unat b mod unat m"
  using unat_reduce [of m b] by (simp only: ModEq_def reduce_arg_def)

lemma vec_scalar_eqs:
  assumes "0 < unat (m_modulus a)"
  shows "vModAdd_s a b = vec_map (\<lambda>m x y. ModAddFast x y m) a (reduce_arg b (m_modulus a))"
    "vModSub_s a b = vec_map (\<lambda>m x y. ModSubFast x y m) a (reduce_arg b (m_modulus a))"
    "vModMul_s a b = Inr (vec_map (\<lambda>m x y. ModMulFastConst x y m (shoup_of y m)) a (reduce_arg b (m_modulus a)))"
proof -
  have "unat (reduce_arg b (m_modulus a)) < unat (m_modulus a)" using assms by (simp add: unat_reduce_arg)
  from PrepModMulConst_eq [OF assms this]
  show "vModMul_s a b = Inr (vec_map (\<lambda>m x y. ModMulFastConst x y m (shoup_of y m)) a (reduce_arg b (m_modulus a)))"
    by (simp add: vModMul_s_def vec_map_def ModMulFastConstEq_eq Let_def flip: reduce_arg_def)
qed (simp_all add: vModAdd_s_def vModSub_s_def vec_map_def reduce_arg_def ModSubFastEq_eq Let_def)

lemma vec_scalar_variants:
  "vModAddEq_s a b = vModAdd_s a b" "vModSubEq_s a b = vModSub_s a b" "vModMulEq_s a b = vModMul_s a b"
  by (simp_all add: vModAddEq_s_def vModAdd_s_def vModSubEq_s_def vModSub_s_def vModMulEq_s_def vModMul_s_def)

subsection \<open>Change of modulus\<close>

text \<open>The representative of a residue nearest to 0; the entry \<open>q div 2\<close> stays positive.\<close>

definition centered :: "nat \<Rightarrow> nat \<Rightarrow> int" where
  "centered q v = (if v > q div 2 then int v - int q else int v)"

definition switch_entry :: "u64 \<Rightarrow> u64 \<Rightarrow> u64 \<Rightarrow> u64" where
  "switch_entry om nm x =
     (let halfQ = drop_bit 1 om; diff = (if om > nm then om - nm else nm - om)
      in if nm > om then AddEqFast x (if x > halfQ then diff else 0)
         else ModSubEq x (if x > halfQ then diff else 0) nm)"

lemma int_sub_mod: "(x + (n - d mod n)) mod n = (x - d) mod (n :: int)"
proof -
  have "x + (n - d mod n) = (x - d mod n) + n" by simp
  then show ?thesis by (simp only: mod_add_self2 mod_diff_right_eq)
qed

lemma switch_entry_centered:
  assumes om: "unat x < unat om" and nm: "0 < unat nm" "unat nm \<le> 2 ^ 63"
  shows "int (unat (switch_entry om nm x)) = centered (unat om) (unat x) mod int (unat nm)"
proof -
  have half: "drop_bit 1 om < x \<longleftrightarrow> unat om div 2 < unat x"
    by (simp add: word_less_nat_alt unat_drop_bit del: drop_bit_eq_div)
  consider (up) "unat om < unat nm" | (down) "unat nm \<le> unat om" by linarith
  then show ?thesis
  proof cases
    case up
    then have d: "unat (nm - om) = unat nm - unat om" by (simp add: unat_sub_small)
    show ?thesis
    proof (cases "unat om div 2 < unat x")
      case True
      have "unat (nm - om + x) = unat nm - unat om + unat x"
        using om up nm(2) d by (subst unat_add_small) auto
      then have u: "int (unat (switch_entry om nm x)) = int (unat nm) + (int (unat x) - int (unat om))"
        using up True half by (simp add: switch_entry_def AddEqFast_def Let_def word_less_nat_alt del: drop_bit_eq_div)
      have "(int (unat x) - int (unat om)) mod int (unat nm) = (int (unat nm) + (int (unat x) - int (unat om))) mod int (unat nm)"
        by simp
      also have "\<dots> = int (unat nm) + (int (unat x) - int (unat om))"
        using om up by (intro mod_pos_pos_trivial) linarith+
      finally show ?thesis using True u by (simp only: centered_def if_True)
    next
      case False
      then have "unat (switch_entry om nm x) = unat x"
        using up half by (simp add: switch_entry_def AddEqFast_def Let_def word_less_nat_alt del: drop_bit_eq_div)
      moreover have "int (unat x) mod int (unat nm) = int (unat x)"
        using om up by (intro mod_pos_pos_trivial) linarith+
      ultimately show ?thesis using False by (simp only: centered_def if_False)
    qed
  next
    case down
    then have le: "\<not> om < nm" by (simp add: word_less_nat_alt)
    show ?thesis
    proof (cases "unat om div 2 < unat x")
      case True
      define D where "D = (if om > nm then om - nm else nm - om)"
      have D: "unat D = unat om - unat nm"
        using down by (auto simp: D_def word_less_nat_alt unat_sub_small)
      have e: "switch_entry om nm x = ModSub x D nm"
        using True half le by (simp add: switch_entry_def ModSubEq_eq Let_def D_def del: drop_bit_eq_div)
      have Dm: "unat D mod unat nm < unat nm" using nm by simp
      have "int (unat (ModSub x D nm)) = (int (unat x) + (int (unat nm) - int (unat D mod unat nm))) mod int (unat nm)"
        using nm Dm by (subst ModSub_correct) (simp_all only: of_nat_mod of_nat_add of_nat_diff less_imp_le)
      also have "\<dots> = (int (unat x) - int (unat D)) mod int (unat nm)"
        by (simp only: of_nat_mod int_sub_mod)
      also have "\<dots> = (int (unat x) - int (unat om) + int (unat nm)) mod int (unat nm)"
        using down by (simp only: D of_nat_diff) (simp add: algebra_simps)
      also have "\<dots> = (int (unat x) - int (unat om)) mod int (unat nm)" by simp
      finally show ?thesis using True by (simp only: e centered_def if_True)
    next
      case False
      then have e: "switch_entry om nm x = ModSub x 0 nm"
        using half le by (simp add: switch_entry_def ModSubEq_eq Let_def del: drop_bit_eq_div)
      then have "unat (switch_entry om nm x) = unat x mod unat nm"
        using nm by (simp add: ModSub_correct)
      then show ?thesis using False by (simp add: centered_def zmod_int)
    qed
  qed
qed

lemma SwitchModulus_eq:
  "SwitchModulus v m = SetModulus (v\<lparr>m_data := map (switch_entry (m_modulus v) m) (m_data v)\<rparr>) m"
  unfolding SwitchModulus_def switch_entry_def [abs_def] Let_def by (cases "m > m_modulus v") simp_all

lemma vMod_eq:
  "m \<noteq> 2 \<Longrightarrow> vMod v m = v\<lparr>m_data := map (switch_entry (m_modulus v) m) (m_data v)\<rparr>"
  unfolding vMod_def switch_entry_def [abs_def] Let_def by (cases "m > m_modulus v") simp_all

lemma vModEq_eq: "vModEq v m = vMod v m"
  by (simp add: vModEq_def vMod_def)

lemma vModByTwoEq_eq: "vModByTwoEq v = vModByTwo v"
  by (simp add: vModByTwoEq_def vModByTwo_def)

lemma and_1_xor: "unat (1 AND (x XOR (if c then 1 else 0)) :: u64) = (if c then 1 - unat x mod 2 else unat x mod 2)"
proof -
  have "1 AND (x XOR b) = of_bool (odd (x XOR b))" for b :: u64 by (simp add: and.commute [of 1] and_one_eq mod_2_eq_odd)
  moreover have "odd (x XOR 1) \<longleftrightarrow> even x" by (simp add: even_xor_iff)
  moreover have "odd x \<longleftrightarrow> odd (unat x)" using odd_word [of x] by (simp add: and_one_eq mod_2_eq_odd)
  ultimately show ?thesis by (auto simp: mod_2_eq_odd)
qed

lemma int_diff_mod_2: "odd m \<Longrightarrow> (int a - int m) mod 2 = int (1 - a mod 2)"
  by presburger

lemma mod_two_centered:
  fixes x om :: u64
  assumes "unat x < unat om" "odd (unat om)"
  shows "int (unat (1 AND (x XOR (if x > drop_bit 1 om then 1 else 0)))) = centered (unat om) (unat x) mod 2"
proof -
  have half: "drop_bit 1 om < x \<longleftrightarrow> unat om div 2 < unat x"
    by (simp add: word_less_nat_alt unat_drop_bit del: drop_bit_eq_div)
  show ?thesis
  proof (cases "unat om div 2 < unat x")
    case True
    then show ?thesis unfolding and_1_xor half centered_def
      by (simp only: if_True int_diff_mod_2 [OF assms(2)])
  next
    case False
    then show ?thesis unfolding and_1_xor half centered_def
      by (simp only: if_False of_nat_mod of_nat_numeral)
  qed
qed

lemma vMod_nth:
  assumes "nv_ok v" "0 < unat m" "unat m \<le> 2 ^ 63" "m = 2 \<Longrightarrow> odd (unat (m_modulus v))" "i < length (m_data v)"
  shows "int (unat (m_data (vMod v m) ! i)) = centered (unat (m_modulus v)) (unat (m_data v ! i)) mod int (unat m)"
proof -
  have x: "unat (m_data v ! i) < unat (m_modulus v)" using assms(1,5) by (simp add: nv_ok_def reduced_nth)
  show ?thesis
  proof (cases "m = 2")
    case True
    then show ?thesis using assms(5) mod_two_centered [OF x assms(4)]
      by (simp add: vMod_def vModByTwoEq_def Let_def del: drop_bit_eq_div)
  next
    case False
    then show ?thesis using assms(5) switch_entry_centered [OF x assms(2,3)] by (simp add: vMod_eq)
  qed
qed

subsection \<open>Serialization\<close>

lemma load_save_vec:
  assumes "length (m_data v) < 2 ^ 64" "version \<le> SerializedVersion"
  shows "load_vec version (save_vec v) = Inr v"
proof -
  have "unat (of_nat (length (m_data v)) :: u64) = length (m_data v)"
    using assms(1) by (simp add: unat_of_nat take_bit_nat_eq_self_iff)
  then show ?thesis using assms(2)
    by (simp add: load_vec_def save_vec_def save_u64_def load_u64_def)
qed

lemma SwitchModulus_ok:
  assumes "nv_ok v" "0 < unat m" "unat m < 2 ^ 60"
  shows "\<exists>w. SwitchModulus v m = Inr w \<and> m_modulus w = m \<and> nv_ok w \<and> length (m_data w) = length (m_data v) \<and>
    (\<forall>i < length (m_data v).
      int (unat (m_data w ! i)) = centered (unat (m_modulus v)) (unat (m_data v ! i)) mod int (unat m))"
proof -
  define w where "w = v\<lparr>m_data := map (switch_entry (m_modulus v) m) (m_data v), m_modulus := m\<rparr>"
  have m: "unat m \<le> 2 ^ 63" using assms(3) by simp
  have "bit_len (unat m) \<le> 60" using assms(3) by (simp add: bit_len_le_iff)
  then have "SwitchModulus v m = Inr w"
    by (simp add: SwitchModulus_eq SetModulus_def unat_GetMSB MAX_MODULUS_SIZE_def w_def)
  moreover have e: "int (unat (m_data w ! i)) = centered (unat (m_modulus v)) (unat (m_data v ! i)) mod int (unat m)"
    if "i < length (m_data v)" for i
    using switch_entry_centered [OF _ assms(2) m, of "m_data v ! i" "m_modulus v"] that assms(1)
    by (simp add: w_def nv_ok_def reduced_nth)
  moreover have "nv_ok w"
  proof -
    have "unat (m_data w ! i) < unat m" if "i < length (m_data v)" for i
    proof -
      have "int (unat (m_data w ! i)) < int (unat m)"
        unfolding e [OF that] using assms(2) by (intro pos_mod_bound) linarith
      then show ?thesis by (simp only: of_nat_less_iff)
    qed
    then show ?thesis using assms(2) m by (auto simp: nv_ok_def head_room_def w_def intro!: reducedI)
  qed
  ultimately show ?thesis by (intro exI [of _ w]) (simp add: w_def)
qed

section \<open>Properties\<close>

lemma bit_len_17: "bit_len 17 = 5"
  by (simp add: bit_len.simps)

lemma barrett_17: "barrett_modulus 17"
  by (simp add: barrett_modulus_def)

text \<open>
  C33. Modular multiplication by Barrett's method is exact: for every modulus of at most 60 bits other than
  \<open>2 ^ 59\<close> and 1, 2, 3, \<open>ComputeMu\<close> succeeds and \<open>ModMul\<close>, its in-place variant and
  (on reduced operands) \<open>ModMulFast\<close> and \<open>ModMulFastEq\<close> return the product modulo \<open>m\<close>,
  for all operands below \<open>2 ^ (2 n + 2)\<close>, \<open>n\<close> the bit length of the modulus.
\<close>

theorem barrett_multiplication:
  assumes "barrett_modulus m" "unat a < 2 ^ (2 * bit_len (unat m) + 2)" "unat b < 2 ^ (2 * bit_len (unat m) + 2)"
  shows "\<exists>mu. ComputeMu m = Inr mu \<and>
    unat (ModMul_mu a b m mu) = unat a * unat b mod unat m \<and>
    unat (ModMulEq_mu a b m mu) = unat a * unat b mod unat m \<and>
    (unat a < unat m \<and> unat b < unat m \<longrightarrow>
      unat (ModMulFast_mu a b m mu) = unat a * unat b mod unat m \<and>
      unat (ModMulFastEq_mu a b m mu) = unat a * unat b mod unat m)"
proof -
  have m: "0 < unat m" using assms(1) by (simp add: barrett_modulus_def)
  show ?thesis
    using assms ModMul_mu_eq [OF assms(1) unat_mu_of [OF assms(1)] assms(2,3)] ModMul_correct [OF m, of a b]
      ModMulFast_mu_reduced [OF assms(1) unat_mu_of [OF assms(1)], of a b]
    by (intro exI [of _ "mu_of m"]) (simp add: ComputeMu_eq ModMulFastEq_mu_eq)
qed

theorem barrett_multiplication_witness:
  "\<exists>mu. ComputeMu 17 = Inr mu \<and> unat (ModMul_mu 1000 2000 17 mu) = 1"
  using barrett_multiplication [OF barrett_17, of 1000 2000] by (auto simp: bit_len_17)

text \<open>
  The modulus \<open>2 ^ 59\<close> is the one 60-bit exception: its reciprocal needs 65 bits,
  \<open>ComputeMu\<close> returns 0 and the reduction of \<open>2 ^ 61\<close> with it is wrong.
\<close>

theorem barrett_exception:
  "ComputeMu (2 ^ 59) = Inr 0 \<and> Mod_mu (2 ^ 61) (2 ^ 59) 0 \<noteq> (2 ^ 61) mod (2 ^ 59)"
proof -
  have "bit_len (unat (2 ^ 59 :: u64)) = 60" using bit_len_power2 [of 59] by simp
  then show ?thesis
    by (simp add: ComputeMu_def unat_GetMSB Mod_mu_def ModMu_def Let_def MultD_def GetD_def)
qed

text \<open>
  Multiplication by a prepared constant: for a modulus of at most 63 bits and a reduced constant
  \<open>b\<close>, \<open>PrepModMulConst\<close> succeeds and \<open>ModMulFastConst\<close> and its in-place variant
  return \<open>a * b mod m\<close> for every 64-bit \<open>a\<close>, reduced or not.
\<close>

theorem const_multiplication:
  assumes "0 < unat m" "unat m \<le> 2 ^ 63" "unat b < unat m"
  shows "\<exists>bInv. PrepModMulConst b m = Inr bInv \<and>
    unat (ModMulFastConst a b m bInv) = unat a * unat b mod unat m \<and>
    ModMulFastConstEq a b m bInv = ModMulFastConst a b m bInv"
  using assms PrepModMulConst_eq [OF assms(1,3)] ModMulFastConst_correct [OF assms unat_shoup_of [OF assms(1,3)]]
  by (simp add: ModMulFastConstEq_eq)

theorem const_multiplication_witness:
  "\<exists>bInv. PrepModMulConst 5 17 = Inr bInv \<and> unat (ModMulFastConst (2 ^ 63) 5 17 bInv) = 2 ^ 63 * 5 mod 17"
  using const_multiplication [of 17 5 "2 ^ 63"] by auto

text \<open>
  Modular exponentiation by squaring returns \<open>a ^ b mod m\<close> for every base and exponent and every
  modulus above 1.
\<close>

theorem modular_exponentiation:
  assumes "1 < unat m"
  shows "unat (ModExp a b m) = unat a ^ unat b mod unat m \<and> ModExpEq a b m = ModExp a b m"
  using assms by (simp add: ModExp_correct ModExpEq_def)

theorem modular_exponentiation_witness: "unat (ModExp 3 5 17) = 3 ^ 5 mod 17"
  using modular_exponentiation [of 17 3 5] by simp

text \<open>
  The modular inverse, for moduli below \<open>2 ^ 63\<close>: on a number coprime to the modulus the signed
  Euclidean loop never overflows and returns the reduced inverse; on a multiple of the modulus the
  method throws; on any other number it divides by zero.
\<close>

theorem modular_inverse:
  assumes "1 < unat m" "unat m < 2 ^ 63"
  shows "if coprime (unat v) (unat m)
    then \<exists>r. ModInverse v m = Inr r \<and> unat r < unat m \<and> unat r * unat v mod unat m = 1
    else if unat v mod unat m = 0
    then ModInverse v m = Inl (OpenFHEError (ToString v @ '' does not have a ModInverse using '' @ ToString m))
    else ModInverse v m = Inl DivideByZero"
proof (cases "coprime (unat v) (unat m)")
  case True
  then obtain r where "ModInverse v m = Inr r" "unat r < unat m" "unat r * unat v mod unat m = 1"
    by (rule ModInverse_correct [OF assms])
  with True show ?thesis by simp
next
  case False
  then show ?thesis
    using assms ModInverse_not_coprime [of m v] ModInverse_cases [of m v] by simp
qed

theorem modular_inverse_witness: "\<exists>r. ModInverse 3 17 = Inr r \<and> unat r * 3 mod 17 = 1"
proof -
  have "coprime (unat (3 :: u64)) (unat (17 :: u64))" by (simp add: coprime_iff_gcd_eq_1) code_simp
  then show ?thesis using modular_inverse [of 17 3] by auto
qed

text \<open>Parsing undoes printing: \<open>SetValue\<close> on the decimal string of a value gives the value.\<close>

theorem decimal_round_trip: "SetValue (ToString x) = Inr x"
  by (rule SetValue_ToString)

text \<open>
  \<open>SetValue\<close> accepts strings it should reject: a character below \<open>'0'\<close> passes the digit
  test (its difference to \<open>'0'\<close> is negative), and the test for overflow misses products that wrap
  around past the previous value.
\<close>

theorem parsing_gaps:
  "SetValue ''1 '' = Inr (2 ^ 64 - 6) \<and> SetValue ''30000000000000000000'' = Inr 11553255926290448384"
  by code_simp

text \<open>
  Division with rounding returns the integer nearest to \<open>a / q\<close>, the lower one when \<open>a / q\<close>
  is half way, and never overflows; division by zero throws.
\<close>

theorem rounded_division:
  "if q = 0 then DivideAndRound a q = Inl (OpenFHEError ''NativeIntegerT DivideAndRound: zero'')
   else \<exists>r. DivideAndRound a q = Inr r \<and> DivideAndRoundEq a q = Inr r \<and>
     unat r = (2 * unat a + unat q - 1) div (2 * unat q)"
proof (cases "q = 0")
  case False
  then show ?thesis
    by (auto intro: DivideAndRound_correct [OF False, of a] simp: DivideAndRoundEq_eq)
qed (simp add: DivideAndRound_def)

text \<open>
  Digits in a power-of-two base count from 1: for base \<open>2 ^ k\<close> and an index whose digit lies within
  the word, \<open>GetDigitAtIndexForBase\<close> returns digit number \<open>index - 1\<close> of the value (the
  comment of the method counts them from 0).
\<close>

theorem digit_extraction:
  assumes "0 < k" "k \<le> 31" "0 < unat index" "unat index * k \<le> 64"
  shows "\<exists>r. GetDigitAtIndexForBase a index (of_nat (2 ^ k)) = Inr r \<and>
    unat r = unat a div (2 ^ k) ^ (unat index - 1) mod 2 ^ k"
  by (rule GetDigitAtIndexForBase_correct [OF assms])

theorem digit_extraction_witness:
  "\<exists>r. GetDigitAtIndexForBase 83 2 (of_nat (2 ^ 2)) = Inr r \<and> unat r = 0"
  using digit_extraction [of 2 2 83] by simp

text \<open>
  Entrywise arithmetic of vectors: on well-formed operands with the same modulus (in the Barrett range)
  and length, addition, subtraction and multiplication succeed, the results are well formed with the same
  parameters and their entries are the sums, differences and products modulo the modulus; on operands
  with different parameters all three throw.
\<close>

theorem vector_arithmetic:
  assumes "nv_ok a" "nv_ok b" "barrett_modulus (m_modulus a)"
  shows "if same_params a b then
      \<exists>s d p. vModAdd a b = Inr s \<and> vModSub a b = Inr d \<and> vModMul a b = Inr p \<and>
        nv_ok s \<and> nv_ok d \<and> nv_ok p \<and> same_params a s \<and> same_params a d \<and> same_params a p \<and>
        (\<forall>i < length (m_data a).
          unat (m_data s ! i) = (unat (m_data a ! i) + unat (m_data b ! i)) mod unat (m_modulus a) \<and>
          unat (m_data d ! i) = (unat (m_data a ! i) + (unat (m_modulus a) - unat (m_data b ! i))) mod unat (m_modulus a) \<and>
          unat (m_data p ! i) = unat (m_data a ! i) * unat (m_data b ! i) mod unat (m_modulus a))
    else vModAdd a b = diff_params \<and> vModSub a b = diff_params \<and> vModMul a b = diff_params"
proof (cases "same_params a b")
  case True
  have h: "head_room (m_modulus a)" using assms(3) by (rule barrett_head_room)
  show ?thesis
    using add.vec_map2 [OF h assms(1,2) True] sub.vec_map2 [OF h assms(1,2) True]
      mul.vec_map2 [OF assms(3,1,2) True] vec_binop_eqs [OF True] assms(3) True
    by simp
qed (simp add: vec_binop_error)

theorem vector_arithmetic_witness:
  "\<exists>s d p. vModAdd \<lparr>m_modulus = 17, m_data = [3, 16]\<rparr> \<lparr>m_modulus = 17, m_data = [5, 4]\<rparr> = Inr s \<and> nv_ok s \<and>
    vModSub \<lparr>m_modulus = 17, m_data = [3, 16]\<rparr> \<lparr>m_modulus = 17, m_data = [5, 4]\<rparr> = Inr d \<and> nv_ok d \<and>
    vModMul \<lparr>m_modulus = 17, m_data = [3, 16]\<rparr> \<lparr>m_modulus = 17, m_data = [5, 4]\<rparr> = Inr p \<and> nv_ok p"
  using vector_arithmetic [of "\<lparr>m_modulus = 17, m_data = [3, 16]\<rparr>" "\<lparr>m_modulus = 17, m_data = [5, 4]\<rparr>"] barrett_17
  by (auto simp: nv_ok_def head_room_def reduced_def same_params_def)

text \<open>
  Arithmetic with a scalar: addition, subtraction and multiplication by any 64-bit scalar, reduced or
  not, keep a vector well formed and act on every entry modulo the modulus.
\<close>

theorem scalar_arithmetic:
  assumes "nv_ok a"
  shows "\<exists>p. vModMul_s a c = Inr p \<and> nv_ok p \<and> nv_ok (vModAdd_s a c) \<and> nv_ok (vModSub_s a c) \<and>
    (\<forall>i < length (m_data a).
      unat (m_data (vModAdd_s a c) ! i) = (unat (m_data a ! i) + unat c mod unat (m_modulus a)) mod unat (m_modulus a) \<and>
      unat (m_data (vModSub_s a c) ! i)
        = (unat (m_data a ! i) + (unat (m_modulus a) - unat c mod unat (m_modulus a))) mod unat (m_modulus a) \<and>
      unat (m_data p ! i) = unat (m_data a ! i) * (unat c mod unat (m_modulus a)) mod unat (m_modulus a))"
proof -
  have h: "head_room (m_modulus a)" and m: "0 < unat (m_modulus a)" using assms by (simp_all add: nv_ok_def head_room_def)
  have c: "unat (reduce_arg c (m_modulus a)) = unat c mod unat (m_modulus a)" by (rule unat_reduce_arg [OF m])
  then have lt: "unat (reduce_arg c (m_modulus a)) < unat (m_modulus a)" using m by simp
  show ?thesis
    using add.vec_map [OF h assms lt] sub.vec_map [OF h assms lt] cmul.vec_map [OF h assms lt] vec_scalar_eqs [OF m] c
    by simp
qed

theorem scalar_arithmetic_witness:
  "\<exists>p. vModMul_s \<lparr>m_modulus = 17, m_data = [3, 16]\<rparr> 100 = Inr p \<and> nv_ok p"
  using scalar_arithmetic [of "\<lparr>m_modulus = 17, m_data = [3, 16]\<rparr>" 100]
  by (auto simp: nv_ok_def head_room_def reduced_def)

text \<open>
  Switching the modulus keeps the value an entry stands for: every entry of the result is the
  representative nearest to zero of the old entry, reduced modulo the new modulus; the new vector is
  well formed. A modulus of more than 60 bits is refused.
\<close>

theorem switch_modulus:
  assumes "nv_ok v" "0 < unat m" "unat m < 2 ^ 60"
  shows "\<exists>w. SwitchModulus v m = Inr w \<and> m_modulus w = m \<and> nv_ok w \<and> length (m_data w) = length (m_data v) \<and>
    (\<forall>i < length (m_data v).
      int (unat (m_data w ! i)) = centered (unat (m_modulus v)) (unat (m_data v ! i)) mod int (unat m))"
  by (rule SwitchModulus_ok [OF assms])

theorem switch_modulus_witness:
  "\<exists>w. SwitchModulus \<lparr>m_modulus = 17, m_data = [3, 16]\<rparr> 257 = Inr w \<and> int (unat (m_data w ! 1)) = 256"
  using switch_modulus [of "\<lparr>m_modulus = 17, m_data = [3, 16]\<rparr>" 257]
  by (auto simp: nv_ok_def head_room_def reduced_def centered_def)

text \<open>
  Reduction of a vector: \<open>Mod\<close> returns the representative nearest to zero of each entry modulo the
  new modulus, for modulus 2 (parity) provided the old modulus is odd; \<open>ModEq\<close> does the same in place.
\<close>

theorem vector_reduction:
  assumes "nv_ok v" "0 < unat m" "unat m \<le> 2 ^ 63" "m = 2 \<Longrightarrow> odd (unat (m_modulus v))" "i < length (m_data v)"
  shows "int (unat (m_data (vMod v m) ! i)) = centered (unat (m_modulus v)) (unat (m_data v ! i)) mod int (unat m) \<and>
    vModEq v m = vMod v m"
  using vMod_nth [OF assms] by (simp add: vModEq_eq)

theorem vector_reduction_witness:
  "int (unat (m_data (vMod \<lparr>m_modulus = 17, m_data = [3, 16]\<rparr> 2) ! 1)) = 1"
  using vector_reduction [of "\<lparr>m_modulus = 17, m_data = [3, 16]\<rparr>" 2 1]
  by (simp add: nv_ok_def head_room_def reduced_def centered_def)

text \<open>Reading back a saved vector of fewer than \<open>2 ^ 64\<close> entries gives the vector.\<close>

theorem vector_archive_round_trip:
  assumes "length (m_data v) < 2 ^ 64" "version \<le> SerializedVersion"
  shows "load_vec version (save_vec v) = Inr v"
  by (rule load_save_vec [OF assms])

theorem vector_archive_round_trip_witness:
  "load_vec 1 (save_vec \<lparr>m_modulus = 17, m_data = [3, 16]\<rparr>) = Inr \<lparr>m_modulus = 17, m_data = [3, 16]\<rparr>"
  using vector_archive_round_trip [of "\<lparr>m_modulus = 17, m_data = [3, 16]\<rparr>" 1] by (simp add: SerializedVersion_def)

text \<open>
  Rounded division of a vector may leave an entry outside the residues: an entry above half the modulus
  whose negation rounds to 0 becomes the modulus itself.
\<close>

theorem vector_division_unreduced:
  "vDivideAndRound \<lparr>m_modulus = 17, m_data = [16, 3]\<rparr> 8 = Inr \<lparr>m_modulus = 17, m_data = [17, 0]\<rparr> \<and>
   \<not> nv_ok \<lparr>m_modulus = 17, m_data = [17, 0]\<rparr>"
  by (simp add: vDivideAndRound_def DivideAndRound_def Let_def nv_ok_def reduced_def)

end
