(* ===== verification/Loops.thy ===== *)
theory Loops
  imports Prelude
begin

text \<open>
  The other shapes of counted loop in the code, and the stage of butterflies that every
  number-theoretic transform is made of.
\<close>

section \<open>Loops with a step, doubling and halving loops\<close>

text \<open>\<open>for (i = a; i < b; i += d) s = f i s\<close>, \<open>for (m = a; m < b; m <<= 1)\<close> and
  \<open>for (m = a; m > b; m >>= 1)\<close>. The first needs a positive step and the second a positive start,
  as every loop of the code has.\<close>

function for_step :: "nat \<Rightarrow> nat \<Rightarrow> nat \<Rightarrow> (nat \<Rightarrow> 's \<Rightarrow> 's) \<Rightarrow> 's \<Rightarrow> 's" where
  "for_step a b d f s = (if a < b \<and> 0 < d then for_step (a + d) b d f (f a s) else s)"
  by pat_completeness auto
termination by (relation "measure (\<lambda>(a, b, d, f, s). b - a)") auto

function for_dbl :: "nat \<Rightarrow> nat \<Rightarrow> (nat \<Rightarrow> 's \<Rightarrow> 's) \<Rightarrow> 's \<Rightarrow> 's" where
  "for_dbl a b f s = (if a < b \<and> 0 < a then for_dbl (2 * a) b f (f a s) else s)"
  by pat_completeness auto
termination by (relation "measure (\<lambda>(a, b, f, s). b - a)") auto

fun for_hlv :: "nat \<Rightarrow> nat \<Rightarrow> (nat \<Rightarrow> 's \<Rightarrow> 's) \<Rightarrow> 's \<Rightarrow> 's" where
  "for_hlv a b f s = (if b < a then for_hlv (a div 2) b f (f a s) else s)"

declare for_step.simps [simp del] for_dbl.simps [simp del] for_hlv.simps [simp del]

lemma for_step_range: "0 < d \<Longrightarrow> for_step a (a + k * d) d f s = for_range 0 k (\<lambda>i. f (a + i * d)) s"
proof (induction k arbitrary: a s)
  case 0
  then show ?case by (subst for_step.simps) simp
next
  case (Suc k)
  have "for_step a (a + Suc k * d) d f s = for_step (a + d) ((a + d) + k * d) d f (f a s)"
    using Suc.prems by (subst for_step.simps) (simp add: algebra_simps)
  also have "\<dots> = for_range 0 k (\<lambda>i. f (a + d + i * d)) (f a s)" by (rule Suc.IH [OF Suc.prems])
  also have "\<dots> = for_range 0 (Suc k) (\<lambda>i. f (a + i * d)) s"
    unfolding for_range_def
    by (simp add: upt_conv_Cons map_Suc_upt [symmetric] fold_map o_def algebra_simps del: upt_Suc)
  finally show ?case .
qed

lemma for_dbl_range: "for_dbl (2 ^ j) (2 ^ (j + k)) f s = for_range j (j + k) (\<lambda>i. f (2 ^ i)) s"
proof (induction k arbitrary: j s)
  case 0
  then show ?case by (subst for_dbl.simps) simp
next
  case (Suc k)
  have "for_dbl (2 ^ j) (2 ^ (j + Suc k)) f s = for_dbl (2 ^ Suc j) (2 ^ (Suc j + k)) f (f (2 ^ j) s)"
    using power_strict_increasing [of j "j + Suc k" "2::nat"] by (subst for_dbl.simps) simp
  then show ?case by (simp only: Suc.IH) (simp add: for_range_step)
qed

text \<open>Counting down: the values of the loop variable are \<open>2^(k-1), \<dots>, 2^j\<close>.\<close>

lemma for_hlv_range:
  assumes "2 ^ j \<le> 2 * b + 1" "b < 2 ^ j"
  shows "for_hlv (2 ^ (j + k) div 2) b f s = for_range 0 k (\<lambda>i. f (2 ^ (j + k - 1 - i))) s"
proof (induction k arbitrary: s)
  case 0
  from assms have "2 ^ j div 2 \<le> b" by linarith
  then show ?case by (subst for_hlv.simps) simp
next
  case (Suc k)
  have "b < 2 ^ (j + k)" using assms(2) by (meson le_add1 less_le_trans one_le_numeral power_increasing)
  then have "for_hlv (2 ^ (j + Suc k) div 2) b f s = for_hlv (2 ^ (j + k) div 2) b f (f (2 ^ (j + k)) s)"
    by (subst for_hlv.simps) simp
  also have "\<dots> = for_range 0 k (\<lambda>i. f (2 ^ (j + k - 1 - i))) (f (2 ^ (j + k)) s)"
    by (rule Suc.IH)
  also have "\<dots> = for_range 0 (Suc k) (\<lambda>i. f (2 ^ (j + Suc k - 1 - i))) s"
    unfolding for_range_def by (simp add: upt_conv_Cons map_Suc_upt [symmetric] fold_map o_def del: upt_Suc)
  finally show ?case .
qed

text \<open>
  One stage of a transform: \<open>m\<close> groups of \<open>t\<close> butterflies, group \<open>i\<close> on the
  positions \<open>i * 2t + k\<close> and \<open>i * 2t + t + k\<close>. A butterfly reads its two entries only, so the
  stage acts on all pairs independently.
\<close>

definition bf_at :: "('a \<Rightarrow> 'a \<Rightarrow> 'a \<times> 'a) \<Rightarrow> nat \<Rightarrow> nat \<Rightarrow> 'a list \<Rightarrow> 'a list" where
  "bf_at f lo hi e = (let p = f (e ! lo) (e ! hi) in e[lo := fst p, hi := snd p])"

lemma length_bf_at [simp]: "length (bf_at f lo hi e) = length e"
  by (simp add: bf_at_def Let_def)

text \<open>One group: the butterfly may depend on the offset \<open>k\<close> in it.\<close>

lemma bf_group_nth:
  fixes f :: "nat \<Rightarrow> 'a \<Rightarrow> 'a \<Rightarrow> 'a \<times> 'a"
  assumes "b + t + c \<le> length e" "c \<le> t"
  defines "r \<equiv> for_range 0 c (\<lambda>k. bf_at (f k) (b + k) (b + k + t)) e"
  shows "length r = length e"
    "\<And>k. k < c \<Longrightarrow> r ! (b + k) = fst (f k (e ! (b + k)) (e ! (b + k + t)))"
    "\<And>k. k < c \<Longrightarrow> r ! (b + k + t) = snd (f k (e ! (b + k)) (e ! (b + k + t)))"
    "\<And>p. p < length e \<Longrightarrow> \<not> (b \<le> p \<and> p < b + c) \<Longrightarrow> \<not> (b + t \<le> p \<and> p < b + t + c) \<Longrightarrow> r ! p = e ! p"
proof -
  have "length r = length e \<and>
    (\<forall>k < c. r ! (b + k) = fst (f k (e ! (b + k)) (e ! (b + k + t)))) \<and>
    (\<forall>k < c. r ! (b + k + t) = snd (f k (e ! (b + k)) (e ! (b + k + t)))) \<and>
    (\<forall>p < length e. \<not> (b \<le> p \<and> p < b + c) \<longrightarrow> \<not> (b + t \<le> p \<and> p < b + t + c) \<longrightarrow> r ! p = e ! p)"
    using assms(1,2) unfolding r_def
  proof (induction c)
    case (Suc c)
    define s where "s = for_range 0 c (\<lambda>k. bf_at (f k) (b + k) (b + k + t)) e"
    have IH: "length s = length e"
      "\<And>k. k < c \<Longrightarrow> s ! (b + k) = fst (f k (e ! (b + k)) (e ! (b + k + t)))"
      "\<And>k. k < c \<Longrightarrow> s ! (b + k + t) = snd (f k (e ! (b + k)) (e ! (b + k + t)))"
      "\<And>p. p < length e \<Longrightarrow> \<not> (b \<le> p \<and> p < b + c) \<Longrightarrow> \<not> (b + t \<le> p \<and> p < b + t + c) \<Longrightarrow> s ! p = e ! p"
      using Suc by (simp_all add: s_def)
    have e1: "s ! (b + c) = e ! (b + c)" "s ! (b + c + t) = e ! (b + c + t)"
      using Suc.prems by (auto intro!: IH(4))
    have st: "for_range 0 (Suc c) (\<lambda>k. bf_at (f k) (b + k) (b + k + t)) e = bf_at (f c) (b + c) (b + c + t) s"
      by (simp add: for_range_Suc s_def)
    show ?case
      unfolding st unfolding bf_at_def Let_def e1 using Suc.prems
      by (auto simp: IH(1) nth_list_update IH(2-4) less_Suc_eq add_eq_self_zero)
  qed simp
  then show "length r = length e"
    "\<And>k. k < c \<Longrightarrow> r ! (b + k) = fst (f k (e ! (b + k)) (e ! (b + k + t)))"
    "\<And>k. k < c \<Longrightarrow> r ! (b + k + t) = snd (f k (e ! (b + k)) (e ! (b + k + t)))"
    "\<And>p. p < length e \<Longrightarrow> \<not> (b \<le> p \<and> p < b + c) \<Longrightarrow> \<not> (b + t \<le> p \<and> p < b + t + c) \<Longrightarrow> r ! p = e ! p"
    by auto
qed

definition bf_stage_at :: "(nat \<Rightarrow> nat \<Rightarrow> 'a \<Rightarrow> 'a \<Rightarrow> 'a \<times> 'a) \<Rightarrow> nat \<Rightarrow> nat \<Rightarrow> 'a list \<Rightarrow> 'a list" where
  "bf_stage_at F m t e = for_range 0 m (\<lambda>i. for_range 0 t (\<lambda>k. bf_at (F i k) (i * (2 * t) + k) (i * (2 * t) + k + t))) e"

lemma bf_stage_at_nth:
  fixes F :: "nat \<Rightarrow> nat \<Rightarrow> 'a \<Rightarrow> 'a \<Rightarrow> 'a \<times> 'a"
  assumes "m * (2 * t) \<le> length e"
  defines "r \<equiv> bf_stage_at F m t e"
  shows "length r = length e"
    "\<And>i k. i < m \<Longrightarrow> k < t \<Longrightarrow> r ! (i * (2 * t) + k) = fst (F i k (e ! (i * (2 * t) + k)) (e ! (i * (2 * t) + k + t)))"
    "\<And>i k. i < m \<Longrightarrow> k < t \<Longrightarrow> r ! (i * (2 * t) + k + t) = snd (F i k (e ! (i * (2 * t) + k)) (e ! (i * (2 * t) + k + t)))"
proof -
  have "length r = length e \<and>
    (\<forall>i < m. \<forall>k < t. r ! (i * (2 * t) + k) = fst (F i k (e ! (i * (2 * t) + k)) (e ! (i * (2 * t) + k + t))) \<and>
       r ! (i * (2 * t) + k + t) = snd (F i k (e ! (i * (2 * t) + k)) (e ! (i * (2 * t) + k + t)))) \<and>
    (\<forall>p < length e. m * (2 * t) \<le> p \<longrightarrow> r ! p = e ! p)"
    using assms(1) unfolding r_def bf_stage_at_def
  proof (induction m)
    case (Suc m)
    define s where "s = for_range 0 m (\<lambda>i. for_range 0 t (\<lambda>k. bf_at (F i k) (i * (2 * t) + k) (i * (2 * t) + k + t))) e"
    define b where "b = m * (2 * t)"
    have len: "b + t + t \<le> length e" using Suc.prems by (simp add: b_def)
    have IH: "length s = length e"
      "\<And>i k. i < m \<Longrightarrow> k < t \<Longrightarrow> s ! (i * (2 * t) + k) = fst (F i k (e ! (i * (2 * t) + k)) (e ! (i * (2 * t) + k + t)))"
      "\<And>i k. i < m \<Longrightarrow> k < t \<Longrightarrow> s ! (i * (2 * t) + k + t) = snd (F i k (e ! (i * (2 * t) + k)) (e ! (i * (2 * t) + k + t)))"
      "\<And>p. p < length e \<Longrightarrow> b \<le> p \<Longrightarrow> s ! p = e ! p"
      using Suc.IH len by (simp_all add: s_def b_def)
    define q where "q = for_range 0 t (\<lambda>k. bf_at (F m k) (b + k) (b + k + t)) s"
    note g = bf_group_nth [where b = b and t = t and c = t and e = s and f = "F m", folded q_def]
    have G: "length q = length e"
      "\<And>k. k < t \<Longrightarrow> q ! (b + k) = fst (F m k (e ! (b + k)) (e ! (b + k + t)))"
      "\<And>k. k < t \<Longrightarrow> q ! (b + k + t) = snd (F m k (e ! (b + k)) (e ! (b + k + t)))"
      "\<And>p. p < length e \<Longrightarrow> p < b \<or> b + 2 * t \<le> p \<Longrightarrow> q ! p = s ! p"
      using g len IH(1,4) by auto
    have st: "for_range 0 (Suc m) (\<lambda>i. for_range 0 t (\<lambda>k. bf_at (F i k) (i * (2 * t) + k) (i * (2 * t) + k + t))) e = q"
      by (simp add: for_range_Suc q_def s_def b_def)
    have old: "i * (2 * t) + k < b \<and> i * (2 * t) + k + t < b" if "i < m" "k < t" for i k
    proof -
      have "(i + 1) * (2 * t) \<le> m * (2 * t)" using that(1) by (intro mult_le_mono1) simp
      then show ?thesis using that(2) by (simp add: b_def)
    qed
    have "q ! (i * (2 * t) + k) = fst (F i k (e ! (i * (2 * t) + k)) (e ! (i * (2 * t) + k + t))) \<and>
       q ! (i * (2 * t) + k + t) = snd (F i k (e ! (i * (2 * t) + k)) (e ! (i * (2 * t) + k + t)))"
      if "i < Suc m" "k < t" for i k
    proof (cases "i = m")
      case True
      with G(2,3) that show ?thesis by (simp add: b_def)
    next
      case False
      with that have i: "i < m" by simp
      note o = old [OF i that(2)]
      with len have l: "i * (2 * t) + k < length e" "i * (2 * t) + k + t < length e" by linarith+
      from G(4) [OF l(1)] G(4) [OF l(2)] o IH(2,3) [OF i that(2)] show ?thesis by simp
    qed
    moreover have "q ! p = e ! p" if "p < length e" "Suc m * (2 * t) \<le> p" for p
      using G(4) [of p] IH(4) [of p] that by (simp add: b_def)
    ultimately show ?case unfolding st using G(1) by blast
  qed simp
  then show "length r = length e"
    "\<And>i k. i < m \<Longrightarrow> k < t \<Longrightarrow> r ! (i * (2 * t) + k) = fst (F i k (e ! (i * (2 * t) + k)) (e ! (i * (2 * t) + k + t)))"
    "\<And>i k. i < m \<Longrightarrow> k < t \<Longrightarrow> r ! (i * (2 * t) + k + t) = snd (F i k (e ! (i * (2 * t) + k)) (e ! (i * (2 * t) + k + t)))"
    by auto
qed

text \<open>A stage whose butterfly is the same in the whole group.\<close>

definition bf_stage :: "(nat \<Rightarrow> 'a \<Rightarrow> 'a \<Rightarrow> 'a \<times> 'a) \<Rightarrow> nat \<Rightarrow> nat \<Rightarrow> 'a list \<Rightarrow> 'a list" where
  "bf_stage F m t e = for_range 0 m (\<lambda>i. for_range (i * (2 * t)) (i * (2 * t) + t) (\<lambda>j. bf_at (F i) j (j + t))) e"

lemma for_range_shift: "for_range b (b + c) f = for_range 0 c (\<lambda>k. f (b + k))"
proof
  show "for_range b (b + c) f s = for_range 0 c (\<lambda>k. f (b + k)) s" for s
    by (induction c) (simp_all add: for_range_Suc)
qed

lemma bf_stage_eq: "bf_stage F m t e = bf_stage_at (\<lambda>i k. F i) m t e"
  by (simp add: bf_stage_def bf_stage_at_def for_range_shift)

lemmas bf_stage_nth = bf_stage_at_nth [where F = "\<lambda>i k. F i" for F, folded bf_stage_eq]

text \<open>The loops of the code give the start of group \<open>i\<close> as \<open>i << logt\<close>.\<close>

definition bf_loops :: "(nat \<Rightarrow> 'a \<Rightarrow> 'a \<Rightarrow> 'a \<times> 'a) \<Rightarrow> nat \<Rightarrow> nat \<Rightarrow> nat \<Rightarrow> 'a list \<Rightarrow> 'a list" where
  "bf_loops F m t logt e =
     for_range 0 m (\<lambda>i e. let j1 = i * 2 ^ logt; j2 = j1 + t
       in for_range j1 j2 (\<lambda>j e. bf_at (F i) j (j + t) e) e) e"

lemma bf_loops_stage: "2 ^ logt = 2 * t \<Longrightarrow> bf_loops F m t logt e = bf_stage F m t e"
  by (simp add: bf_loops_def bf_stage_def Let_def)

text \<open>A counted loop whose body may fail.\<close>

definition efor :: "nat \<Rightarrow> nat \<Rightarrow> (nat \<Rightarrow> 's \<Rightarrow> 's res) \<Rightarrow> 's \<Rightarrow> 's res" where
  "efor a b f s = fold (\<lambda>i r. ebind r (f i)) [a..<b] (Inr s)"

lemma efor_Inr:
  assumes "\<And>i s. a \<le> i \<Longrightarrow> i < b \<Longrightarrow> P i s \<Longrightarrow> \<exists>s'. f i s = Inr s' \<and> P (Suc i) s'" "a \<le> b" "P a s"
  shows "\<exists>s'. efor a b f s = Inr s' \<and> P b s'"
proof -
  have "case for_range a b (\<lambda>i r. ebind r (f i)) (Inr s) of Inl e \<Rightarrow> False | Inr s' \<Rightarrow> P b s'"
    using assms by (intro for_range_invariant [where P = "\<lambda>i r. case r of Inl e \<Rightarrow> False | Inr s' \<Rightarrow> P i s'"])
      (fastforce split: sum.splits)+
  then show ?thesis by (auto simp: efor_def for_range_def split: sum.splits)
qed

definition set_at :: "'a list \<Rightarrow> nat \<Rightarrow> 'a \<Rightarrow> 'a list res" where
  "set_at xs i x = (if i < length xs then Inr (xs[i := x]) else Inl OutOfRange)"

definition get_at :: "'a list \<Rightarrow> nat \<Rightarrow> 'a res" where
  "get_at xs i = (if i < length xs then Inr (xs ! i) else Inl OutOfRange)"

text \<open>A loop over a list whose body may fail.\<close>

fun efold :: "('a \<Rightarrow> 's \<Rightarrow> 's res) \<Rightarrow> 'a list \<Rightarrow> 's \<Rightarrow> 's res" where
  "efold f [] s = Inr s"
| "efold f (x # xs) s = ebind (f x s) (efold f xs)"

lemma efold_cong [fundef_cong]:
  "xs = ys \<Longrightarrow> s = t \<Longrightarrow> (\<And>x s. x \<in> set ys \<Longrightarrow> f x s = g x s) \<Longrightarrow> efold f xs s = efold g ys t"
proof -
  assume "xs = ys" "s = t" and fg: "\<And>x s. x \<in> set ys \<Longrightarrow> f x s = g x s"
  moreover have "efold f ys t = efold g ys t"
    using fg by (induction ys arbitrary: t) (auto intro!: ebind_cong)
  ultimately show ?thesis by simp
qed

end
