(* ===== verification/NumFacts.thy ===== *)
theory NumFacts
  imports Prelude Complex_Main
begin

text \<open>
  Number theory on naturals behind the prime and root-of-unity routines: primes, Fermat's
  little theorem, the square roots of one, and the multiplicative order of a residue.
\<close>

subsection \<open>Primes\<close>

definition is_prime :: "nat \<Rightarrow> bool" where
  "is_prime p \<longleftrightarrow> 1 < p \<and> (\<forall>d\<in>{2..<p}. \<not> d dvd p)"

lemma is_prime_divisor: "is_prime p \<Longrightarrow> d dvd p \<Longrightarrow> d = 1 \<or> d = p"
proof -
  assume p: "is_prime p" and d: "d dvd p"
  then have "0 < p" by (simp add: is_prime_def)
  with d have "d \<le> p" "d \<noteq> 0" by (auto dest: dvd_imp_le intro: ccontr)
  moreover from p d have "d \<notin> {2..<p}" by (auto simp: is_prime_def)
  ultimately show ?thesis by auto
qed

lemma is_prime_gt_1: "is_prime p \<Longrightarrow> 1 < p"
  by (simp add: is_prime_def)

lemma is_prime_coprime: "is_prime p \<Longrightarrow> \<not> p dvd a \<Longrightarrow> coprime a p"
  using is_prime_divisor [of p "gcd a p"] by (metis coprime_iff_gcd_eq_1 gcd_dvd1 gcd_dvd2)

lemma is_prime_dvd_mult: "is_prime p \<Longrightarrow> p dvd a * b \<Longrightarrow> p dvd a \<or> p dvd b"
  using is_prime_coprime [of p a] by (metis coprime_commute coprime_dvd_mult_right_iff)

lemma is_prime_dvd_power: "is_prime p \<Longrightarrow> p dvd a ^ n \<Longrightarrow> p dvd a"
  by (induction n) (auto dest: is_prime_dvd_mult is_prime_gt_1)

lemma prime_factor_exists: "1 < n \<Longrightarrow> \<exists>p. is_prime p \<and> p dvd n"
proof (induction n rule: less_induct)
  case (less n)
  show ?case
  proof (cases "is_prime n")
    case False
    with less.prems obtain d where d: "2 \<le> d" "d < n" "d dvd n" by (auto simp: is_prime_def)
    with less.IH [of d] obtain p where "is_prime p" "p dvd d" by auto
    with d(3) show ?thesis using dvd_trans by blast
  qed auto
qed

lemma prime_dvd_binomial:
  assumes "is_prime p" "0 < k" "k < p"
  shows "p dvd (p choose k)"
proof -
  have "k * (p choose k) = p * (p - 1 choose (k - 1))"
    using assms times_binomial_minus1_eq [of k p] by simp
  then have "p dvd k * (p choose k)" by simp
  moreover have "\<not> p dvd k" using assms by (auto dest: dvd_imp_le)
  ultimately show ?thesis using is_prime_dvd_mult [OF assms(1)] by blast
qed

lemma binomial_prime_mod:
  assumes p: "is_prime p"
  shows "(a + 1) ^ p mod p = (a ^ p + 1) mod p"
proof -
  have p0: "0 < p" using is_prime_gt_1 [OF p] by simp
  have "(a + 1) ^ p = (\<Sum>k\<le>p. (p choose k) * a ^ k)"
    using binomial_ring [of a 1 p] by simp
  also have "\<dots> = (\<Sum>k\<in>{0<..<p}. (p choose k) * a ^ k) + (1 + a ^ p)"
  proof -
    have "{..p} = insert 0 (insert p {0<..<p})" using p0 by auto
    then show ?thesis using p0 by simp
  qed
  finally have e: "(a + 1) ^ p = (\<Sum>k\<in>{0<..<p}. (p choose k) * a ^ k) + (1 + a ^ p)" .
  have "p dvd (\<Sum>k\<in>{0<..<p}. (p choose k) * a ^ k)"
    using prime_dvd_binomial [OF p] by (intro dvd_sum) auto
  then show ?thesis unfolding e by (metis add.commute dvd_eq_mod_eq_0 mod_add_self1 add_0 mod_add_left_eq)
qed

lemma fermat_power: "is_prime p \<Longrightarrow> a ^ p mod p = a mod p"
proof (induction a)
  case 0
  then show ?case using is_prime_gt_1 [of p] by (simp add: power_0_left)
next
  case (Suc a)
  then have "(a ^ p + 1) mod p = (a + 1) mod p" by (metis mod_add_left_eq)
  with binomial_prime_mod [OF Suc.prems, of a] show ?case by simp
qed

lemma mult_cancel_mod:
  assumes "coprime a m" "a * b mod m = a * c mod (m :: nat)"
  shows "b mod m = c mod m"
proof -
  have "int m dvd int a * (int b - int c)"
    using assms(2) by (metis mod_eq_dvd_iff of_nat_mult right_diff_distrib zmod_int)
  moreover have "coprime (int m) (int a)" using assms(1) by (simp add: coprime_commute)
  ultimately have "int m dvd int b - int c" by (simp add: coprime_dvd_mult_right_iff)
  then show ?thesis by (metis mod_eq_dvd_iff of_nat_eq_iff zmod_int)
qed

theorem fermat:
  assumes "is_prime p" "\<not> p dvd a"
  shows "a ^ (p - 1) mod p = 1"
proof -
  have p: "1 < p" using assms(1) by (rule is_prime_gt_1)
  have "a * a ^ (p - 1) mod p = a * 1 mod p"
    using fermat_power [OF assms(1), of a] p by (metis Suc_diff_1 mult.right_neutral order_less_trans power_Suc zero_less_one)
  then have "a ^ (p - 1) mod p = 1 mod p"
    using mult_cancel_mod is_prime_coprime [OF assms] by blast
  then show ?thesis using p by simp
qed

lemma square_root_of_one:
  assumes "is_prime p" "x < p" "x * x mod p = 1"
  shows "x = 1 \<or> x = p - 1"
proof -
  have x0: "0 < x" using assms by (cases x) auto
  have p: "1 < p" using assms(1) by (rule is_prime_gt_1)
  have e: "x * x = (x - 1) * (x + 1) + 1" using x0 by (cases x) auto
  have "p dvd (x - 1) * (x + 1)"
  proof -
    have "1 \<le> x * x" using x0 by simp
    moreover have "x * x mod p = 1 mod p" using assms(3) p by simp
    ultimately have "p dvd x * x - 1" using mod_eq_dvd_iff_nat [of 1 "x * x" p] by simp
    then show ?thesis using e by simp
  qed
  then consider "p dvd x - 1" | "p dvd x + 1" using is_prime_dvd_mult [OF assms(1)] by blast
  then show ?thesis
  proof cases
    case 1
    with assms(2) have "x - 1 = 0" by (metis dvd_imp_le gr0I less_imp_diff_less not_less)
    with x0 show ?thesis by simp
  next
    case 2
    with assms(2) have "p = x + 1" by (metis Suc_eq_plus1 Suc_leI dvd_imp_le le_antisym zero_less_Suc)
    then show ?thesis by simp
  qed
qed

subsection \<open>The order of a residue\<close>

definition has_order :: "nat \<Rightarrow> nat \<Rightarrow> nat \<Rightarrow> bool" where
  "has_order q g m \<longleftrightarrow> 1 < q \<and> 0 < m \<and> g ^ m mod q = 1 \<and> (\<forall>k\<in>{1..<m}. g ^ k mod q \<noteq> 1)"

lemma has_order_gt_1: "has_order q g m \<Longrightarrow> 1 < q"
  by (simp add: has_order_def)

lemma has_order_mod: "has_order q (g mod q) m \<longleftrightarrow> has_order q g m"
  by (simp add: has_order_def power_mod)

lemma order_coprime:
  assumes "has_order q g m"
  shows "coprime g q"
proof -
  from assms have m: "0 < m" and e: "g ^ m mod q = 1" by (simp_all add: has_order_def)
  have "gcd (g ^ m) q = gcd (g ^ m mod q) q" by (metis gcd.commute gcd_red_nat)
  with e have "coprime (g ^ m) q" by (simp add: coprime_iff_gcd_eq_1)
  with m show ?thesis by simp
qed

lemma order_dvd:
  assumes "has_order q g m"
  shows "g ^ k mod q = 1 \<longleftrightarrow> m dvd k"
proof -
  have q: "1 < q" using assms by (rule has_order_gt_1)
  have one: "g ^ (m * c) mod q = 1" for c
  proof -
    have "g ^ (m * c) mod q = (g ^ m mod q) ^ c mod q" by (simp add: power_mult power_mod)
    with assms q show ?thesis by (simp add: has_order_def)
  qed
  have "g ^ k mod q = g ^ (k mod m) mod q"
  proof -
    have "g ^ k = g ^ (m * (k div m)) * g ^ (k mod m)" by (simp flip: power_add)
    then have "g ^ k mod q = (g ^ (m * (k div m)) mod q) * g ^ (k mod m) mod q" by (simp add: mod_mult_left_eq)
    then show ?thesis using one by simp
  qed
  moreover have "k mod m < m" using assms by (simp add: has_order_def)
  ultimately show ?thesis using assms q one
    by (cases "k mod m = 0") (auto simp: has_order_def dvd_eq_mod_eq_0)
qed

lemma has_order_from_prime_factors:
  assumes q: "1 < q" and n: "0 < n" and one: "g ^ n mod q = 1"
    and pf: "\<And>r. is_prime r \<Longrightarrow> r dvd n \<Longrightarrow> g ^ (n div r) mod q \<noteq> 1"
  shows "has_order q g n"
proof -
  define k where "k = (LEAST k. 0 < k \<and> g ^ k mod q = 1)"
  have k: "0 < k \<and> g ^ k mod q = 1" unfolding k_def by (rule LeastI [of _ n]) (use n one in simp)
  have least: "g ^ j mod q \<noteq> 1" if "0 < j" "j < k" for j
    using that not_less_Least [of j "\<lambda>k. 0 < k \<and> g ^ k mod q = 1"] by (auto simp: k_def)
  have ord: "has_order q g k" using k least q by (auto simp: has_order_def)
  have dv: "k dvd n" using order_dvd [OF ord] one by blast
  show ?thesis
  proof (cases "k = n")
    case False
    from dv obtain c where c: "n = k * c" by blast
    with False n have "1 < c" by (cases c) (auto intro: Suc_lessI)
    then obtain r where r: "is_prime r" "r dvd c" using prime_factor_exists by blast
    then obtain e where e: "c = r * e" by blast
    have "0 < r" using is_prime_gt_1 [OF r(1)] by simp
    then have "n div r = k * e" by (simp add: c e)
    then have "g ^ (n div r) mod q = 1" using order_dvd [OF ord] by simp
    with pf [OF r(1)] r(2) c show ?thesis by simp
  qed (use ord in simp)
qed

lemma has_order_power:
  assumes "has_order q g (c * m)"
  shows "has_order q (g ^ c mod q) m"
proof -
  have cm: "0 < c" "0 < m" using assms by (simp_all add: has_order_def)
  have "(g ^ c) ^ k mod q = 1 \<longleftrightarrow> m dvd k" for k
    using order_dvd [OF assms, of "c * k"] cm by (simp add: power_mult)
  with cm has_order_gt_1 [OF assms] show ?thesis unfolding has_order_mod by (auto simp: has_order_def dest: dvd_imp_le)
qed

lemma has_order_power_iff:
  assumes "has_order q w m"
  shows "has_order q (w ^ k mod q) m \<longleftrightarrow> coprime k m"
proof -
  have m: "0 < m" using assms by (simp add: has_order_def)
  have dv: "(w ^ k) ^ j mod q = 1 \<longleftrightarrow> m dvd k * j" for j
    using order_dvd [OF assms, of "k * j"] by (simp add: power_mult)
  show ?thesis
  proof
    assume "coprime k m"
    then have "m dvd k * j \<longleftrightarrow> m dvd j" for j by (simp add: coprime_commute coprime_dvd_mult_right_iff)
    with dv m show "has_order q (w ^ k mod q) m"
      using has_order_gt_1 [OF assms] unfolding has_order_mod by (auto simp: has_order_def dest: dvd_imp_le)
  next
    assume o: "has_order q (w ^ k mod q) m"
    define d where "d = gcd k m"
    have d: "d dvd k" "d dvd m" "0 < d" using m by (simp_all add: d_def)
    then obtain a b where ab: "k = d * a" "m = d * b" by blast
    have "m dvd k * b" by (simp add: ab)
    then have "m dvd b" using dv [of b] order_dvd [OF o, of b] by (simp add: power_mod)
    moreover have "0 < b" using m ab by (cases b) auto
    ultimately have "m \<le> b" by (simp add: dvd_imp_le)
    with ab m d(3) have "d = 1" by (cases d) (auto simp: not_less)
    then show "coprime k m" by (simp add: d_def coprime_iff_gcd_eq_1)
  qed
qed

lemma power_inj_order:
  assumes "has_order q g m" "a < m" "b < m" "g ^ a mod q = g ^ b mod q"
  shows "a = b"
proof -
  have *: "a = b" if "a \<le> b" "b < m" "g ^ a mod q = g ^ b mod q" for a b
  proof -
    have "g ^ a * 1 mod q = g ^ a * g ^ (b - a) mod q" using that by (simp flip: power_add)
    moreover have "coprime (g ^ a) q" using order_coprime [OF assms(1)] by simp
    ultimately have "1 mod q = g ^ (b - a) mod q" by (rule mult_cancel_mod [rotated])
    then have "m dvd b - a" using order_dvd [OF assms(1), of "b - a"] has_order_gt_1 [OF assms(1)] by simp
    moreover have "b - a < m" using that by simp
    ultimately have "b - a = 0" by (metis dvd_imp_le gr0I not_less)
    with that show "a = b" by simp
  qed
  show ?thesis using * [of a b] * [of b a] assms by (cases "a \<le> b") simp_all
qed

lemma generator_reaches:
  assumes "is_prime q" "has_order q g (q - 1)" "0 < x" "x < q"
  shows "\<exists>a<q - 1. g ^ a mod q = x"
proof -
  let ?f = "\<lambda>a. g ^ a mod q"
  have inj: "inj_on ?f {..<q - 1}" using power_inj_order [OF assms(2)] by (auto intro!: inj_onI)
  have "?f a \<noteq> 0" for a
  proof
    assume "?f a = 0"
    then have "q dvd g ^ a" by auto
    then have "q dvd g" by (rule is_prime_dvd_power [OF assms(1)])
    then have "q dvd gcd g q" by simp
    then have "q dvd 1" using order_coprime [OF assms(2)] by (simp add: coprime_iff_gcd_eq_1)
    then show False using is_prime_gt_1 [OF assms(1)] by simp
  qed
  then have sub: "?f ` {..<q - 1} \<subseteq> {1..<q}" using is_prime_gt_1 [OF assms(1)] by (force simp: Suc_le_eq)
  have "card (?f ` {..<q - 1}) = card {1..<q}" using inj by (simp add: card_image)
  then have "?f ` {..<q - 1} = {1..<q}" by (intro card_subset_eq [OF _ sub]) simp_all
  moreover have "x \<in> {1..<q}" using assms by simp
  ultimately have "x \<in> ?f ` {..<q - 1}" by (simp only:)
  then show ?thesis by (auto simp only: image_iff lessThan_iff intro: sym)
qed

lemma same_order_power:
  assumes q: "is_prime q" and g: "has_order q g (c * m)" and cm: "c * m = q - 1"
    and x: "has_order q x m" "x < q"
  shows "\<exists>k<m. coprime k m \<and> x = (g ^ c) ^ k mod q"
proof -
  have m: "0 < m" and c: "0 < c" using g by (simp_all add: has_order_def)
  have x0: "0 < x" using x m by (cases "x = 0") (auto simp: has_order_def power_0_left)
  from generator_reaches [OF q _ x0 x(2), of g] g cm obtain a where a: "g ^ a mod q = x" by auto
  have "x ^ m mod q = 1" using x by (simp add: has_order_def)
  then have "g ^ (a * m) mod q = 1" by (simp add: power_mult power_mod flip: a)
  then have "c * m dvd a * m" using order_dvd [OF g] by blast
  with m obtain k where k: "a = c * k" by auto
  have w: "has_order q (g ^ c mod q) m" using g by (rule has_order_power)
  have "x = (g ^ c mod q) ^ k mod q" using a k by (simp add: power_mult power_mod)
  also have "\<dots> = (g ^ c mod q) ^ (k mod m) mod q"
  proof -
    let ?w = "g ^ c mod q"
    have "?w ^ k = ?w ^ (m * (k div m)) * ?w ^ (k mod m)" by (simp flip: power_add)
    then have "?w ^ k mod q = (?w ^ (m * (k div m)) mod q) * ?w ^ (k mod m) mod q"
      by (simp add: mod_mult_left_eq)
    moreover have "?w ^ (m * (k div m)) mod q = 1" using order_dvd [OF w] by simp
    ultimately show ?thesis by simp
  qed
  finally have e: "x = (g ^ c mod q) ^ (k mod m) mod q" .
  with x(1) has_order_power_iff [OF w] have "coprime (k mod m) m" by blast
  with e m show ?thesis by (intro exI [of _ "k mod m"]) (simp add: power_mod)
qed

end
