(* ===== verification/Primes.thy ===== *)
theory Primes
  imports NatVec Loops NumFacts
begin

text \<open>
  The prime routines of \<open>nbtheory-impl.h\<close> for the 64-bit integers: random residues, greatest
  common divisor, Miller-Rabin test, Pollard's rho, factorisation, and the searches for primes
  in an arithmetic progression.

  The pseudo-random generator is a parameter: \<open>draw hi s\<close> stands for
  \<open>distribution(GetPRNG(), {0, hi})\<close> in generator state \<open>s\<close> and returns the drawn number
  and the next state. A loop that may not end is a partial function; \<open>None\<close> is the run that does
  not return. Nothing is assumed of \<open>draw\<close>: the code checks what it needs of the drawn values.
\<close>

section \<open>Definitions\<close>

type_synonym 's prng = "u32 \<Rightarrow> 's \<Rightarrow> u32 \<times> 's"
type_synonym ('a, 's) run = "('a \<times> 's) res option"

definition rbind :: "('a, 's) run \<Rightarrow> ('a \<Rightarrow> 's \<Rightarrow> ('b, 's) run) \<Rightarrow> ('b, 's) run" where
  "rbind r f = Option.bind r (\<lambda>r. case r of Inl e \<Rightarrow> Some (Inl e) | Inr (x, s) \<Rightarrow> f x s)"

definition rlift :: "'a res \<Rightarrow> 's \<Rightarrow> ('a, 's) run" where
  "rlift r s = (case r of Inl e \<Rightarrow> Some (Inl e) | Inr x \<Rightarrow> Some (Inr (x, s)))"

lemma rbind_mono [partial_function_mono]:
  assumes "mono_option B" "\<And>x s. mono_option (\<lambda>f. C x s f)"
  shows "mono_option (\<lambda>f. rbind (B f) (\<lambda>x s. C x s f))"
  unfolding rbind_def
proof (rule bind_mono [OF assms(1)])
  fix r :: "exn + 'c \<times> 'd"
  show "mono_option (\<lambda>f. case r of Inl e \<Rightarrow> Some (Inl e) | Inr (x, s) \<Rightarrow> C x s f)"
    by (cases r) (auto intro: assms(2) option.const_mono split: prod.splits)
qed

lemma rbind_simps [simp]:
  "rbind (Some (Inl e)) f = Some (Inl e)"
  "rbind (Some (Inr (x, s))) f = f x s"
  "rbind None f = None"
  by (simp_all add: rbind_def)

lemma rlift_simps [simp]:
  "rlift (Inl e) s = Some (Inl e)"
  "rlift (Inr x) s = Some (Inr (x, s))"
  by (simp_all add: rlift_def)

lemma rbind_InrE:
  assumes "rbind r f = Some (Inr y)"
  obtains x s where "r = Some (Inr (x, s))" "f x s = Some (Inr y)"
  using assms by (auto simp: rbind_def split: Option.bind_splits sum.splits)

lemma rlift_InrE:
  assumes "rlift r s = Some (Inr (x, s'))"
  obtains "r = Inr x" "s' = s"
  using assms by (auto simp: rlift_def split: sum.splits)

subsection \<open>Random residues\<close>

definition RNG_value :: "'s prng \<Rightarrow> nat \<Rightarrow> nat \<Rightarrow> u32 \<Rightarrow> 's \<Rightarrow> (u64 \<times> 's) res" where
  "RNG_value draw chunksPerValue shiftChunk bound s =
     ebind (efor 0 chunksPerValue (\<lambda>i (result, shift, s).
         let (d, s) = draw (- 1) s
         in ebind (LShift (ucast d) (unat (ucast (shift :: u32) :: 16 word))) (\<lambda>t.
            ebind (AddEq result t) (\<lambda>result.
            Inr (result, shift + 32, s))))
       (0, 0, s)) (\<lambda>(result, shift, s).
     let (d, s) = draw bound s
     in ebind (LShift (ucast d) shiftChunk) (\<lambda>t.
        ebind (AddEq result t) (\<lambda>result. Inr (result, s))))"

partial_function (option) RNG_loop :: "'s prng \<Rightarrow> nat \<Rightarrow> nat \<Rightarrow> u32 \<Rightarrow> u64 \<Rightarrow> 's \<Rightarrow> (u64, 's) run" where
  "RNG_loop draw chunksPerValue shiftChunk bound modulus s =
     (case RNG_value draw chunksPerValue shiftChunk bound s of
        Inl e \<Rightarrow> Some (Inl e)
      | Inr (result, s) \<Rightarrow>
          if result < modulus then Some (Inr (result, s))
          else RNG_loop draw chunksPerValue shiftChunk bound modulus s)"

declare RNG_loop.simps [code]

text \<open>The shift operators take their amount as a 16-bit number.\<close>

definition RNG :: "'s prng \<Rightarrow> u64 \<Rightarrow> 's \<Rightarrow> (u64, 's) run" where
  "RNG draw modulus s =
     (let chunksPerValue = (GetMSB modulus - 1) div 32;
          shiftChunk = unat (ucast (chunksPerValue * 32) :: 16 word)
      in case RShift modulus shiftChunk of
           Inl e \<Rightarrow> Some (Inl e)
         | Inr b \<Rightarrow> RNG_loop draw (unat chunksPerValue) shiftChunk (ucast b) modulus s)"

subsection \<open>Greatest common divisor\<close>

function GreatestCommonDivisor :: "u64 \<Rightarrow> u64 \<Rightarrow> u64" where
  "GreatestCommonDivisor m_a m_b =
     (if m_b \<noteq> 0 then GreatestCommonDivisor m_b (Mod m_a m_b) else m_a)"
  by auto
termination
proof (relation "measure (\<lambda>(a, b). unat b)")
  fix m_a m_b :: u64
  assume "m_b \<noteq> 0"
  then show "((m_b, Mod m_a m_b), m_a, m_b) \<in> measure (\<lambda>(a, b). unat b)"
    by (simp add: Mod_def unat_mod unat_gt_0)
qed simp

declare GreatestCommonDivisor.simps [simp del]

subsection \<open>Miller-Rabin test\<close>

text \<open>One squaring per step; a one that is not the square of one or \<open>p - 1\<close> ends the loop.\<close>

fun WitnessFunction_loop :: "nat \<Rightarrow> u64 \<Rightarrow> u64 \<Rightarrow> bool" where
  "WitnessFunction_loop 0 md p = (md \<noteq> 1)"
| "WitnessFunction_loop (Suc k) md p =
     (let prevMod = (md \<noteq> 1 \<and> md \<noteq> Sub p 1);
          md = ModMulFastEq md md p
      in if md = 1 \<and> prevMod then True else WitnessFunction_loop k md p)"

definition WitnessFunction :: "u64 \<Rightarrow> u64 \<Rightarrow> u32 \<Rightarrow> u64 \<Rightarrow> bool" where
  "WitnessFunction a d s p = WitnessFunction_loop (unat s) (ModExp a d p) p"

text \<open>Splits off the factors of two; \<open>d = 0\<close> would loop for ever.\<close>

function MillerRabin_split :: "u64 \<Rightarrow> u32 \<Rightarrow> (u64 \<times> u32) res" where
  "MillerRabin_split d s =
     (if d = 0 then Inl Diverges
      else if Mod d 2 = 0 then ebind (RShiftEq d 1) (\<lambda>d. MillerRabin_split d (s + 1))
      else Inr (d, s))"
  by auto
termination
proof (relation "measure (\<lambda>(d, s). unat d)")
  fix d d' :: u64 and s :: u32
  assume "d \<noteq> 0" and r: "RShiftEq d 1 = Inr d'"
  then have "0 < unat d" by (simp add: unat_gt_0)
  moreover have "unat d' = unat d div 2"
    using r by (auto simp: RShiftEq_def unat_drop_bit simp del: drop_bit_eq_div split: if_splits)
  ultimately show "((d', s + 1), d, s) \<in> measure (\<lambda>(d, s). unat d)" by simp
qed simp

declare MillerRabin_split.simps [simp del]

fun MillerRabin_loop :: "'s prng \<Rightarrow> nat \<Rightarrow> u64 \<Rightarrow> u32 \<Rightarrow> u64 \<Rightarrow> 's \<Rightarrow> (bool, 's) run" where
  "MillerRabin_loop draw 0 d s p st = Some (Inr (True, st))"
| "MillerRabin_loop draw (Suc k) d s p st =
     rbind (RNG draw (Sub p 3) st) (\<lambda>r st.
       if WitnessFunction (ModAdd r 2 p) d s p then Some (Inr (False, st))
       else MillerRabin_loop draw k d s p st)"

definition MillerRabinPrimalityTest :: "'s prng \<Rightarrow> u64 \<Rightarrow> u32 \<Rightarrow> 's \<Rightarrow> (bool, 's) run" where
  "MillerRabinPrimalityTest draw p niter st =
     (if p = 2 \<or> p = 3 \<or> p = 5 then Some (Inr (True, st))
      else if p < 2 \<or> Mod p 2 = 0 then Some (Inr (False, st))
      else rbind (rlift (MillerRabin_split (Sub p 1) 0) st) (\<lambda>(d, s) st.
             MillerRabin_loop draw (unat niter) d s p st))"

text \<open>The default number of rounds.\<close>

definition niter_default :: u32 where
  "niter_default = 100"

subsection \<open>Factorisation\<close>

definition PollardRho_step :: "u64 \<Rightarrow> u64 \<Rightarrow> u64 \<Rightarrow> u64 \<Rightarrow> u64 \<Rightarrow> u64 \<times> u64 \<times> u64" where
  "PollardRho_step n mu c x xx =
     (let x = ModAdd_mu (ModMul_mu x x n mu) c n mu;
          xx = ModAdd_mu (ModMul_mu xx xx n mu) c n mu;
          xx = ModAdd_mu (ModMul_mu xx xx n mu) c n mu;
          divisor = GreatestCommonDivisor (if x > xx then Sub x xx else Sub xx x) n
      in (x, xx, divisor))"

partial_function (option) PollardRho_loop ::
    "u64 \<Rightarrow> u64 \<Rightarrow> u64 \<Rightarrow> u64 \<Rightarrow> u64 \<Rightarrow> 's \<Rightarrow> (u64, 's) run" where
  "PollardRho_loop n mu c x1 x2 st =
     (case PollardRho_step n mu c x1 x2 of (x, xx, divisor) \<Rightarrow>
        if divisor = 1 then PollardRho_loop n mu c x xx st else Some (Inr (divisor, st)))"

declare PollardRho_loop.simps [code]

definition PollardRhoFactorization :: "'s prng \<Rightarrow> u64 \<Rightarrow> 's \<Rightarrow> (u64, 's) run" where
  "PollardRhoFactorization draw n st =
     (if Mod n 2 = 0 then Some (Inr (2, st))
      else rbind (RNG draw n st) (\<lambda>c st.
           rbind (RNG draw n st) (\<lambda>x st.
           rbind (rlift (ComputeMu n) st) (\<lambda>mu st.
             PollardRho_loop n mu c x x st))))"

text \<open>\<open>std::set\<close> is the ascending list of its elements.\<close>

partial_function (option) PrimeFactorize :: "'s prng \<Rightarrow> u64 \<Rightarrow> u64 list \<Rightarrow> 's \<Rightarrow> (u64 list, 's) run" where
  "PrimeFactorize draw n primeFactors st =
     (if n = 0 \<or> n = 1 then Some (Inr (primeFactors, st))
      else rbind (MillerRabinPrimalityTest draw n niter_default st) (\<lambda>isPrime st.
        if isPrime then Some (Inr (insort_insert n primeFactors, st))
        else rbind (PollardRhoFactorization draw n st) (\<lambda>divisor st.
             rbind (PrimeFactorize draw divisor primeFactors st) (\<lambda>primeFactors st.
             rbind (rlift (DividedBy n divisor) st) (\<lambda>quotient st.
               PrimeFactorize draw quotient primeFactors st)))))"

declare PrimeFactorize.simps [code]

subsection \<open>Searches in an arithmetic progression\<close>

definition too_long_error :: "u32 \<Rightarrow> exn" where
  "too_long_error nBits =
     OpenFHEError (''Requested bit length '' @ std_to_string (unat nBits) @
       '' exceeds maximum allowed length '' @ std_to_string MAX_MODULUS_SIZE)"

partial_function (option) grow_candidate :: "'s prng \<Rightarrow> u64 \<Rightarrow> u64 \<Rightarrow> u64 \<Rightarrow> 's \<Rightarrow> (u64, 's) run" where
  "grow_candidate draw q M qNew st =
     rbind (MillerRabinPrimalityTest draw qNew niter_default st) (\<lambda>isPrime st.
       if isPrime then Some (Inr (qNew, st))
       else rbind (rlift (AddEq qNew M) st) (\<lambda>qNew st.
            if qNew < q then Some (Inl (OpenFHEError ''Overflow growing candidate''))
            else grow_candidate draw q M qNew st))"

declare grow_candidate.simps [code]

partial_function (option) shrink_candidate :: "string \<Rightarrow> 's prng \<Rightarrow> u64 \<Rightarrow> u64 \<Rightarrow> u64 \<Rightarrow> 's \<Rightarrow> (u64, 's) run" where
  "shrink_candidate msg draw q M qNew st =
     rbind (MillerRabinPrimalityTest draw qNew niter_default st) (\<lambda>isPrime st.
       if isPrime then Some (Inr (qNew, st))
       else rbind (rlift (SubEq qNew M) st) (\<lambda>qNew st.
            if qNew > q then Some (Inl (OpenFHEError msg))
            else shrink_candidate msg draw q M qNew st))"

declare shrink_candidate.simps [code]

definition FirstPrime :: "'s prng \<Rightarrow> u32 \<Rightarrow> u64 \<Rightarrow> 's \<Rightarrow> (u64, 's) run" where
  "FirstPrime draw nBits m st =
     (if unat nBits > MAX_MODULUS_SIZE then Some (Inl (too_long_error nBits))
      else rbind (rlift (LShift 1 (unat nBits)) st) (\<lambda>q st.
        if m = 0 then Some (Inl DivideByZero)
        else let r = Mod q m in
        rbind (rlift (Add q 1) st) (\<lambda>q1 st.
        let qNew = Sub q1 r in
        rbind (rlift (if r > 0 then AddEq qNew m else Inr qNew) st) (\<lambda>qNew st.
          grow_candidate draw q m qNew st))))"

definition LastPrime :: "'s prng \<Rightarrow> u32 \<Rightarrow> u64 \<Rightarrow> 's \<Rightarrow> (u64, 's) run" where
  "LastPrime draw nBits m st =
     (if unat nBits > MAX_MODULUS_SIZE then Some (Inl (too_long_error nBits))
      else rbind (rlift (LShift 1 (unat nBits)) st) (\<lambda>q st.
        if m = 0 then Some (Inl DivideByZero)
        else let r = Mod q m in
        rbind (rlift (Add q 1) st) (\<lambda>q1 st.
        let qNew = Sub q1 r in
        rbind (rlift (if r < 2 then SubEq qNew m else Inr qNew) st) (\<lambda>qNew st.
        rbind (shrink_candidate ''overflow shrinking candidate'' draw q m qNew st) (\<lambda>qNew st.
          if GetMSB qNew \<noteq> nBits
          then Some (Inl (OpenFHEError (''Requested '' @ std_to_string (unat nBits) @ '' bits, but returned '' @
                 std_to_string (unat (GetMSB qNew)) @ ''. Please adjust parameters.'')))
          else Some (Inr (qNew, st)))))))"

definition NextPrime :: "'s prng \<Rightarrow> u64 \<Rightarrow> u64 \<Rightarrow> 's \<Rightarrow> (u64, 's) run" where
  "NextPrime draw q m st =
     rbind (rlift (Add q m) st) (\<lambda>qNew st. grow_candidate draw q m qNew st)"

definition PreviousPrime :: "'s prng \<Rightarrow> u64 \<Rightarrow> u64 \<Rightarrow> 's \<Rightarrow> (u64, 's) run" where
  "PreviousPrime draw q m st =
     (let qNew = Sub q m in shrink_candidate ''Overflow shrinking candidate'' draw q m qNew st)"

section \<open>Facts\<close>

subsection \<open>Random residues and the greatest common divisor\<close>

lemma RNG_loop_less:
  "RNG_loop draw c sh bound m st = Some r \<Longrightarrow> (\<forall>x st'. r = Inr (x, st') \<longrightarrow> x < m)"
proof (induction rule: RNG_loop.raw_induct [rotated, consumes 1])
  case (1 loop draw c sh bound m st r)
  then show ?case by (auto split: sum.splits prod.splits if_splits)
qed

lemma RNG_less:
  assumes "RNG draw m st = Some (Inr (x, st'))"
  shows "x < m"
proof -
  from assms obtain b where
    "RNG_loop draw (unat ((GetMSB m - 1) div 32)) (unat (ucast ((GetMSB m - 1) div 32 * 32) :: 16 word)) b m st
       = Some (Inr (x, st'))"
    by (auto simp: RNG_def Let_def split: sum.splits)
  from RNG_loop_less [OF this] show ?thesis by simp
qed

lemma GreatestCommonDivisor_gcd: "unat (GreatestCommonDivisor a b) = gcd (unat a) (unat b)"
proof (induction a b rule: GreatestCommonDivisor.induct)
  case (1 a b)
  show ?case
  proof (cases "b = 0")
    case True
    then show ?thesis by (simp add: GreatestCommonDivisor.simps)
  next
    case False
    then have "unat (GreatestCommonDivisor a b) = gcd (unat b) (unat a mod unat b)"
      using 1 by (subst GreatestCommonDivisor.simps) (simp add: Mod_def unat_mod)
    then show ?thesis by (metis gcd.commute gcd_red_nat)
  qed
qed

lemma gcd_word_one: "GreatestCommonDivisor a b = 1 \<longleftrightarrow> coprime (unat a) (unat b)"
  by (metis GreatestCommonDivisor_gcd coprime_iff_gcd_eq_1 unat_1 word_unat_eq_iff)

subsection \<open>Miller-Rabin\<close>

lemma Sub_unat: "unat b \<le> unat a \<Longrightarrow> unat (Sub a b) = unat a - unat b"
  by (simp add: Sub_def SubFast_def NATIVEINT_DO_CHECKS_def unat_sub_small)

lemma WitnessFunction_loop_prime:
  assumes p: "is_prime (unat p)"
  shows "unat md < unat p \<Longrightarrow> unat md ^ (2 ^ k) mod unat p = 1 \<Longrightarrow> \<not> WitnessFunction_loop k md p"
proof (induction k arbitrary: md)
  case 0
  then have "unat md = 1" by simp
  then show ?case by (simp add: word_unat_eq_iff)
next
  case (Suc k)
  have p1: "1 < unat p" using p by (rule is_prime_gt_1)
  define md' where "md' = ModMulFastEq md md p"
  have md': "unat md' = unat md * unat md mod unat p"
    using p1 by (simp add: md'_def ModMulFastEq_eq ModMulFast_correct)
  then have "unat md' ^ (2 ^ k) mod unat p = 1"
    using Suc.prems(2) by (simp add: power_mod power_mult_distrib flip: power_add mult_2)
  moreover have "unat md' < unat p" using md' p1 by simp
  ultimately have ih: "\<not> WitnessFunction_loop k md' p" using Suc.IH by blast
  have "\<not> (md' = 1 \<and> md \<noteq> 1 \<and> md \<noteq> Sub p 1)"
  proof
    assume a: "md' = 1 \<and> md \<noteq> 1 \<and> md \<noteq> Sub p 1"
    then have "unat md * unat md mod unat p = 1" using md' by simp
    then have "unat md = 1 \<or> unat md = unat p - 1"
      using square_root_of_one [OF p Suc.prems(1)] by blast
    moreover have "unat (Sub p 1) = unat p - 1" using p1 by (simp add: Sub_unat)
    ultimately show False using a by (auto simp: word_unat_eq_iff)
  qed
  then show ?case using ih unfolding WitnessFunction_loop.simps Let_def md'_def by metis
qed

lemma MillerRabin_split_correct:
  "MillerRabin_split d s = Inr (d', s') \<Longrightarrow>
     \<exists>k. unat d = 2 ^ k * unat d' \<and> odd (unat d') \<and> s' = s + of_nat k"
proof (induction d s rule: MillerRabin_split.induct)
  case (1 d s)
  show ?case
  proof (cases "d = 0 \<or> Mod d 2 \<noteq> 0")
    case True
    with 1(2) have "d' = d" "s' = s" "Mod d 2 \<noteq> 0"
      by (auto simp: MillerRabin_split.simps [of d] split: if_splits)
    moreover then have "odd (unat d)"
      by (simp add: Mod_def word_unat_eq_iff unat_mod odd_iff_mod_2_eq_one)
    ultimately show ?thesis by (intro exI [of _ 0]) simp
  next
    case False
    define h where "h = (drop_bit 1 d :: u64)"
    have r: "RShiftEq d 1 = Inr h" by (simp add: RShiftEq_def MaxBits_def h_def)
    from 1(2) False r have e: "MillerRabin_split h (s + 1) = Inr (d', s')"
      by (simp add: MillerRabin_split.simps [of d])
    from False have ev: "unat d mod 2 = 0" by (simp add: Mod_def word_unat_eq_iff unat_mod)
    have "unat h = unat d div 2" unfolding h_def by (simp add: unat_drop_bit del: drop_bit_eq_div)
    with ev have u: "unat d = 2 * unat h" by presburger
    from 1(1) [OF _ _ r e] False obtain k where
      "unat h = 2 ^ k * unat d'" "odd (unat d')" "s' = s + 1 + of_nat k" by blast
    then show ?thesis by (intro exI [of _ "Suc k"]) (simp add: u)
  qed
qed

lemma MillerRabin_split_total: "0 < unat d \<Longrightarrow> \<exists>r. MillerRabin_split d s = Inr r"
proof (induction d s rule: MillerRabin_split.induct)
  case (1 d s)
  then have d0: "d \<noteq> 0" by auto
  show ?case
  proof (cases "Mod d 2 = 0")
    case False
    with d0 show ?thesis by (simp add: MillerRabin_split.simps [of d])
  next
    case True
    define h where "h = (drop_bit 1 d :: u64)"
    have r: "RShiftEq d 1 = Inr h" by (simp add: RShiftEq_def MaxBits_def h_def)
    from True have ev: "unat d mod 2 = 0" by (simp add: Mod_def word_unat_eq_iff unat_mod)
    have "unat h = unat d div 2" unfolding h_def by (simp add: unat_drop_bit del: drop_bit_eq_div)
    with ev 1(2) have "0 < unat h" by auto
    from 1(1) [OF d0 True r this] show ?thesis using d0 True r by (simp add: MillerRabin_split.simps [of d])
  qed
qed

lemma WitnessFunction_prime:
  assumes p: "is_prime (unat p)" and a: "0 < unat a" "unat a < unat p"
    and d: "MillerRabin_split (Sub p 1) 0 = Inr (d, s)"
  shows "\<not> WitnessFunction a d s p"
proof -
  have p1: "1 < unat p" using p by (rule is_prime_gt_1)
  have sp: "unat (Sub p 1) = unat p - 1" using p1 by (simp add: Sub_unat)
  from MillerRabin_split_correct [OF d] obtain k where
    k: "unat p - 1 = 2 ^ k * unat d" "odd (unat d)" "s = of_nat k" using sp by auto
  have "(2::nat) ^ k \<le> 2 ^ k * unat d" using k(2) by (cases "unat d") auto
  then have "(2::nat) ^ k < 2 ^ 64" using k(1) unat_less_64 [of p] by linarith
  then have "k < 64" by (rule power_less_imp_less_exp [rotated]) simp
  then have us: "unat s = k" by (simp add: k(3) unat_of_nat)
  have e: "unat (ModExp a d p) = unat a ^ unat d mod unat p" using p1 by (rule ModExp_correct)
  have "\<not> unat p dvd unat a" using a by (auto dest: dvd_imp_le)
  then have "unat a ^ (unat p - 1) mod unat p = 1" by (rule fermat [OF p])
  then have "unat (ModExp a d p) ^ (2 ^ k) mod unat p = 1"
    unfolding e k(1) by (simp add: power_mod mult.commute flip: power_mult)
  then show ?thesis unfolding WitnessFunction_def us
    using WitnessFunction_loop_prime [OF p] e p1 by simp
qed

lemma MillerRabin_loop_prime:
  assumes p: "is_prime (unat p)" "3 < unat p" "unat p \<le> 2 ^ 63"
    and d: "MillerRabin_split (Sub p 1) 0 = Inr (d, s)"
  shows "MillerRabin_loop draw k d s p st \<noteq> Some (Inr (False, st'))"
proof (induction k arbitrary: st)
  case (Suc k)
  show ?case
  proof
    assume f: "MillerRabin_loop draw (Suc k) d s p st = Some (Inr (False, st'))"
    then obtain r st1 where r: "RNG draw (Sub p 3) st = Some (Inr (r, st1))"
      and rest: "(if WitnessFunction (ModAdd r 2 p) d s p then Some (Inr (False, st1))
         else MillerRabin_loop draw k d s p st1) = Some (Inr (False, st'))"
      by (auto elim!: rbind_InrE)
    have "unat r < unat p - 3" using RNG_less [OF r] p(2) by (simp add: word_less_nat_alt Sub_unat)
    then have "unat (ModAdd r 2 p) = unat r + 2" using p by (subst ModAdd_correct) auto
    then have "\<not> WitnessFunction (ModAdd r 2 p) d s p"
      using \<open>unat r < unat p - 3\<close> by (intro WitnessFunction_prime [OF p(1) _ _ d]) simp_all
    with rest Suc.IH show False by simp
  qed
qed simp

lemma MillerRabin_prime:
  assumes p: "is_prime (unat p)" "unat p \<le> 2 ^ 63"
    and r: "MillerRabinPrimalityTest draw p niter st = Some (Inr (b, st'))"
  shows "b"
proof (rule ccontr)
  assume "\<not> b"
  with r have f: "MillerRabinPrimalityTest draw p niter st = Some (Inr (False, st'))" by simp
  have p1: "1 < unat p" using p(1) by (rule is_prime_gt_1)
  show False
  proof (cases "p = 2 \<or> p = 3 \<or> p = 5")
    case True
    with f show ?thesis by (auto simp: MillerRabinPrimalityTest_def)
  next
    case False
    then have n23: "unat p \<noteq> 2" "unat p \<noteq> 3" by (auto simp: word_unat_eq_iff)
    then have "\<not> 2 dvd unat p" using is_prime_divisor [OF p(1), of 2] by auto
    then have "\<not> (p < 2 \<or> Mod p 2 = 0)"
      using p1 by (auto simp: word_less_nat_alt Mod_def word_unat_eq_iff unat_mod dvd_eq_mod_eq_0)
    with f False obtain d s where d: "MillerRabin_split (Sub p 1) 0 = Inr (d, s)"
      and l: "MillerRabin_loop draw (unat niter) d s p st = Some (Inr (False, st'))"
      by (auto simp: MillerRabinPrimalityTest_def elim!: rbind_InrE rlift_InrE)
    have "3 < unat p" using p1 n23 by linarith
    from MillerRabin_loop_prime [OF p(1) this p(2) d] l show ?thesis by (rule notE)
  qed
qed

lemma MillerRabin_True:
  assumes "MillerRabinPrimalityTest draw p niter st = Some (Inr (True, st'))"
  shows "1 < unat p" "unat p = 2 \<or> odd (unat p)"
  using assms by (auto simp: MillerRabinPrimalityTest_def Mod_def word_less_nat_alt word_unat_eq_iff unat_mod
      odd_iff_mod_2_eq_one not_less split: if_splits)

lemma RNG_loop_no_error:
  "RNG_loop draw c sh bound m st = Some r \<Longrightarrow> c \<le> 1 \<Longrightarrow> sh < 64 \<Longrightarrow> \<exists>x st'. r = Inr (x, st')"
proof (induction rule: RNG_loop.raw_induct [rotated, consumes 1])
  case (1 loop draw c sh bound m st r)
  have "c = 0 \<or> c = 1" using 1(3) by auto
  then have "\<exists>x st1. RNG_value draw c sh bound st = Inr (x, st1)"
    using 1(4) by (auto simp: RNG_value_def efor_def LShift_def MaxBits_def AddEq_def NATIVEINT_DO_CHECKS_def
        split: prod.splits)
  then obtain x st1 where v: "RNG_value draw c sh bound st = Inr (x, st1)" by blast
  show ?case using 1(2) 1(1) [of draw c sh bound m st1 r, OF _ 1(3,4)] unfolding v by (auto split: if_splits)
qed

lemma RNG_no_error:
  assumes "m \<noteq> 0" "RNG draw m st = Some r"
  shows "\<exists>x st'. r = Inr (x, st')"
proof -
  define c where "c = (GetMSB m - 1) div (32 :: u32)"
  have b: "0 < bit_len (unat m)" "bit_len (unat m) \<le> 64"
    using assms(1) bit_len_unat_le [of m] by (simp_all add: unat_gt_0)
  have u: "unat (GetMSB m - 1) = bit_len (unat m) - 1"
    using b unat_GetMSB [of m] by (subst unat_sub) (simp_all add: word_le_nat_alt Suc_le_eq del: bit_len_pos_iff)
  then have c: "unat c = (bit_len (unat m) - 1) div 32" by (simp add: c_def unat_div)
  then have c1: "unat c \<le> 1" using b by simp
  then have "unat c = 0 \<or> unat c = 1" by linarith
  then have "c = 0 \<or> c = 1" by (simp add: word_unat_eq_iff)
  then have sh: "unat (ucast (c * 32) :: 16 word) < 64" by auto
  from assms(2) obtain bd where
    "RNG_loop draw (unat c) (unat (ucast (c * 32) :: 16 word)) bd m st = Some r"
    using sh unfolding RNG_def c_def [symmetric] Let_def by (auto simp: RShift_def MaxBits_def split: sum.splits)
  from RNG_loop_no_error [OF this c1 sh] show ?thesis .
qed

lemma MillerRabin_loop_no_error:
  assumes "Sub p 3 \<noteq> 0"
  shows "MillerRabin_loop draw k d s p st = Some r \<Longrightarrow> \<exists>b st'. r = Inr (b, st')"
proof (induction k arbitrary: st)
  case (Suc k)
  then obtain r0 where r0: "RNG draw (Sub p 3) st = Some r0" by (auto simp: rbind_def split: Option.bind_splits)
  from RNG_no_error [OF assms r0] obtain x st1 where "r0 = Inr (x, st1)" by blast
  with Suc.prems r0 have "(if WitnessFunction (ModAdd x 2 p) d s p then Some (Inr (False, st1))
      else MillerRabin_loop draw k d s p st1) = Some r" by simp
  with Suc.IH show ?case by (metis option.inject)
qed (auto dest: sym)

lemma MillerRabin_no_error:
  assumes "MillerRabinPrimalityTest draw p niter st = Some r"
  shows "\<exists>b st'. r = Inr (b, st')"
proof (cases "p = 2 \<or> p = 3 \<or> p = 5 \<or> p < 2 \<or> Mod p 2 = 0")
  case True
  with assms show ?thesis by (auto simp: MillerRabinPrimalityTest_def split: if_splits)
next
  case False
  then have g: "3 < unat p"
  proof -
    have "unat p \<noteq> 3" "unat p \<noteq> 2" "\<not> unat p < 2" using False by (auto simp: word_unat_eq_iff word_less_nat_alt)
    then show ?thesis by linarith
  qed
  then have "0 < unat (Sub p 1)" and nz: "Sub p 3 \<noteq> 0"
    using Sub_unat [of 1 p] Sub_unat [of 3 p] by auto
  then obtain d s where "MillerRabin_split (Sub p 1) 0 = Inr (d, s)"
    using MillerRabin_split_total by (metis surj_pair)
  with assms False have "MillerRabin_loop draw (unat niter) d s p st = Some r"
    by (simp add: MillerRabinPrimalityTest_def)
  from MillerRabin_loop_no_error [OF nz this] show ?thesis .
qed

subsection \<open>Searches\<close>

text \<open>A candidate accepted by the test, all the earlier ones of the progression being composite.\<close>

definition passes :: "'s prng \<Rightarrow> u64 \<Rightarrow> bool" where
  "passes draw p \<longleftrightarrow> (\<exists>st st'. MillerRabinPrimalityTest draw p niter_default st = Some (Inr (True, st')))"

lemma passes_gt_1: "passes draw p \<Longrightarrow> 1 < unat p"
  by (auto simp: passes_def dest: MillerRabin_True(1))

lemma grow_candidate_result:
  "grow_candidate draw q M c st = Some r \<Longrightarrow> unat M \<le> unat q \<Longrightarrow> unat q \<le> unat c \<Longrightarrow> r = Inr (p, st') \<Longrightarrow>
   \<exists>k. unat p = unat c + k * unat M \<and> passes draw p \<and>
     (unat p \<le> 2 ^ 63 \<longrightarrow> (\<forall>j<k. \<not> is_prime (unat c + j * unat M)))"
proof (induction arbitrary: p st' rule: grow_candidate.raw_induct [rotated, consumes 1])
  case (1 loop draw q M c st r)
  from 1(2) obtain b st1 where b: "MillerRabinPrimalityTest draw c niter_default st = Some (Inr (b, st1))"
    and rest: "(if b then Some (Inr (c, st1)) else rbind (rlift (AddEq c M) st1) (\<lambda>qNew st.
            if qNew < q then Some (Inl (OpenFHEError ''Overflow growing candidate''))
            else loop draw q M qNew st)) = Some (Inr (p, st'))"
    unfolding 1(5) by (auto elim!: rbind_InrE)
  show ?case
  proof (cases b)
    case True
    with rest b show ?thesis by (intro exI [of _ 0]) (auto simp: passes_def)
  next
    case False
    define c' where "c' = c + M"
    have "AddEq c M = Inr c'"
      by (simp add: AddEq_def AddEqFast_def NATIVEINT_DO_CHECKS_def c'_def add.commute)
    with rest False have ge: "\<not> c' < q" and l: "loop draw q M c' st1 = Some (Inr (p, st'))"
      by (auto split: if_splits)
    have u: "unat c' = unat c + unat M"
    proof (cases "unat c + unat M < 2 ^ 64")
      case True
      then show ?thesis unfolding c'_def by (rule unat_add_small)
    next
      case False
      have lt: "unat c < 2 ^ 64" "unat M < 2 ^ 64" by (rule unat_less_64)+
      have "unat c' = (unat c + unat M) mod 2 ^ 64" by (simp add: c'_def unat_word_ariths)
      also have "\<dots> = unat c + unat M - 2 ^ 64" using False lt by (simp add: le_mod_geq)
      finally have "unat c' < unat q" using False lt 1(3) by linarith
      with ge show ?thesis by (simp add: word_less_nat_alt)
    qed
    from 1(4) u have "unat q \<le> unat c'" by simp
    from 1(1) [OF l 1(3) this refl] obtain k where
      k: "unat p = unat c' + k * unat M" "passes draw p"
        "unat p \<le> 2 ^ 63 \<longrightarrow> (\<forall>j<k. \<not> is_prime (unat c' + j * unat M))" by blast
    have "\<not> is_prime (unat c + j * unat M)" if "unat p \<le> 2 ^ 63" "j < Suc k" for j
    proof (cases j)
      case 0
      have "unat c \<le> 2 ^ 63" using that(1) k(1) u by linarith
      then show ?thesis using MillerRabin_prime [OF _ _ b] False 0 by auto
    next
      case (Suc i)
      with that k(3) have "\<not> is_prime (unat c' + i * unat M)" by simp
      then show ?thesis by (simp add: Suc u algebra_simps)
    qed
    with k u show ?thesis by (intro exI [of _ "Suc k"]) simp
  qed
qed

lemma shrink_candidate_result:
  "shrink_candidate msg draw q M c st = Some r \<Longrightarrow> unat c \<le> unat q \<Longrightarrow> unat q \<le> 2 ^ 63 \<Longrightarrow> unat M \<le> 2 ^ 63 - 1
   \<Longrightarrow> r = Inr (p, st') \<Longrightarrow>
   \<exists>k. unat c = unat p + k * unat M \<and> passes draw p \<and> (\<forall>j<k. \<not> is_prime (unat c - j * unat M))"
proof (induction arbitrary: p st' rule: shrink_candidate.raw_induct [rotated, consumes 1])
  case (1 loop msg draw q M c st r)
  from 1(2) obtain b st1 where b: "MillerRabinPrimalityTest draw c niter_default st = Some (Inr (b, st1))"
    and rest: "(if b then Some (Inr (c, st1)) else rbind (rlift (SubEq c M) st1) (\<lambda>qNew st.
            if qNew > q then Some (Inl (OpenFHEError msg))
            else loop msg draw q M qNew st)) = Some (Inr (p, st'))"
    unfolding 1(6) by (auto elim!: rbind_InrE)
  show ?case
  proof (cases b)
    case True
    with rest b show ?thesis by (intro exI [of _ 0]) (auto simp: passes_def)
  next
    case False
    define c' where "c' = c - M"
    have "SubEq c M = Inr c'"
      by (simp add: SubEq_def SubEqFast_def NATIVEINT_DO_CHECKS_def c'_def)
    with rest False have ge: "\<not> c' > q" and l: "loop msg draw q M c' st1 = Some (Inr (p, st'))"
      by (auto split: if_splits)
    have Mc: "unat M \<le> unat c"
    proof (rule ccontr)
      assume n: "\<not> unat M \<le> unat c"
      have "unat c' = 2 ^ 64 + unat c - unat M"
        using n unat_sub_if_size [of c M] by (simp add: c'_def word_size)
      then have "unat q < unat c'" using 1(4,5) n by simp
      with ge show False by (simp add: word_less_nat_alt)
    qed
    then have u: "unat c' = unat c - unat M" unfolding c'_def by (rule unat_sub_small)
    from 1(3) u have "unat c' \<le> unat q" by simp
    from 1(1) [OF l this 1(4,5) refl] obtain k where
      k: "unat c' = unat p + k * unat M" "passes draw p" "\<forall>j<k. \<not> is_prime (unat c' - j * unat M)" by blast
    have "\<not> is_prime (unat c - j * unat M)" if "j < Suc k" for j
    proof (cases j)
      case 0
      then show ?thesis using MillerRabin_prime [OF _ _ b] False 1(3,4) by auto
    next
      case (Suc i)
      with that k(3) have "\<not> is_prime (unat c' - i * unat M)" by simp
      then show ?thesis by (simp add: Suc u)
    qed
    with k u Mc show ?thesis by (intro exI [of _ "Suc k"]) simp
  qed
qed

subsection \<open>Draws that the rejection accepts at once\<close>

definition low_draws :: "'s prng \<Rightarrow> bool" where
  "low_draws draw \<longleftrightarrow> (\<forall>hi s. fst (draw hi s) < hi \<or> fst (draw hi s) = 0)"

lemma unat_ucast_32_64 [simp]: "unat (ucast (x :: u32) :: u64) = unat x"
  by (simp add: unsigned_ucast_eq take_bit_nat_eq_self_iff order.strict_trans2 [OF unsigned_less])

lemma RNG_returns:
  assumes d: "low_draws draw" and m: "m \<noteq> 0"
  shows "\<exists>x st'. RNG draw m st = Some (Inr (x, st'))"
proof -
  define c where "c = (GetMSB m - 1) div (32 :: u32)"
  have b: "0 < bit_len (unat m)" "bit_len (unat m) \<le> 64"
    using m bit_len_unat_le [of m] by (simp_all add: unat_gt_0)
  have u: "unat (GetMSB m - 1) = bit_len (unat m) - 1"
    using b unat_GetMSB [of m] by (subst unat_sub) (simp_all add: word_le_nat_alt Suc_le_eq del: bit_len_pos_iff)
  then have c: "unat c = (bit_len (unat m) - 1) div 32" by (simp add: c_def unat_div)
  with b have c01: "c = 0 \<and> bit_len (unat m) \<le> 32 \<or> c = 1 \<and> 32 < bit_len (unat m)"
    by (auto simp: word_unat_eq_iff)
  then show ?thesis
  proof
    assume c0: "c = 0 \<and> bit_len (unat m) \<le> 32"
    then have m32: "unat m < 2 ^ 32" by (simp add: bit_len_le_iff)
    define bd where "bd = (ucast m :: u32)"
    have bd: "unat bd = unat m" using m32 by (simp add: bd_def unsigned_ucast_eq take_bit_nat_eq_self_iff)
    obtain y st' where y: "draw bd st = (y, st')" by fastforce
    with d have "y < bd \<or> y = 0" by (metis fst_conv low_draws_def)
    with m bd have "ucast y < m" by (auto simp: word_less_nat_alt unat_gt_0)
    moreover have "RNG_value draw 0 0 bd st = Inr (ucast y, st')"
      by (simp add: RNG_value_def efor_def LShift_def MaxBits_def AddEq_def AddEqFast_def NATIVEINT_DO_CHECKS_def y)
    ultimately have "RNG_loop draw 0 0 bd m st = Some (Inr (ucast y, st'))"
      by (subst RNG_loop.simps) simp
    with c0 show ?thesis unfolding RNG_def c_def [symmetric] bd_def by (simp add: RShift_def MaxBits_def)
  next
    assume c1: "c = 1 \<and> 32 < bit_len (unat m)"
    then have m32: "2 ^ 32 \<le> unat m" by (metis bit_len_le_iff not_le)
    define bd where "bd = (ucast (drop_bit 32 m) :: u32)"
    have "unat m div 2 ^ 32 < 2 ^ 32" using unat_less_64 [of m] by (simp add: less_mult_imp_div_less)
    then have bd: "unat bd = unat m div 2 ^ 32"
      by (simp add: bd_def unsigned_ucast_eq unat_drop_bit take_bit_nat_eq_self_iff)
    obtain x st1 where x: "draw (- 1) st = (x, st1)" by fastforce
    obtain y st' where y: "draw bd st1 = (y, st')" by fastforce
    with d have "y < bd \<or> y = 0" by (metis fst_conv low_draws_def)
    then have yb: "unat y < unat m div 2 ^ 32"
      using m32 bd by (auto simp: word_less_nat_alt div_greater_zero_iff)
    define v where "v = push_bit 32 (ucast y) + (ucast x :: u64)"
    have x32: "unat x < 2 ^ 32" using unsigned_less [of x, where ?'a = nat] by simp
    have y32: "unat y < 2 ^ 32" using unsigned_less [of y, where ?'a = nat] by simp
    have p: "unat (push_bit 32 (ucast y) :: u64) = unat y * 2 ^ 32"
      using y32 by (simp add: unat_push_bit)
    have s: "unat y * 2 ^ 32 + unat x < unat m"
    proof -
      have "(unat y + 1) * 2 ^ 32 \<le> unat m div 2 ^ 32 * 2 ^ 32" using yb by (intro mult_le_mono1) simp
      also have "\<dots> \<le> unat m" by (rule div_times_less_eq_dividend)
      finally show ?thesis using x32 by simp
    qed
    have "unat v = unat y * 2 ^ 32 + unat x"
    proof -
      have "unat y * 2 ^ 32 + unat x < 2 ^ 64" using s unat_less_64 [of m] by linarith
      then have "unat (push_bit 32 (ucast y) :: u64) + unat (ucast x :: u64) < 2 ^ 64" by (simp only: p unat_ucast_32_64)
      from unat_add_small [OF this] show ?thesis unfolding v_def by (simp only: p unat_ucast_32_64)
    qed
    with s have "v < m" by (simp add: word_less_nat_alt)
    moreover have "RNG_value draw 1 32 bd st = Inr (v, st')"
      by (simp add: RNG_value_def efor_def LShift_def MaxBits_def AddEq_def AddEqFast_def NATIVEINT_DO_CHECKS_def x y v_def)
    ultimately have "RNG_loop draw 1 32 bd m st = Some (Inr (v, st'))"
      by (subst RNG_loop.simps) simp
    with c1 show ?thesis unfolding RNG_def c_def [symmetric] bd_def by (simp add: RShift_def MaxBits_def)
  qed
qed

lemma MillerRabin_loop_returns:
  assumes d: "low_draws draw" and "Sub p 3 \<noteq> 0"
  shows "\<exists>b st'. MillerRabin_loop draw k d0 s p st = Some (Inr (b, st'))"
proof (induction k arbitrary: st)
  case (Suc k)
  from RNG_returns [OF assms] obtain r st1 where r: "RNG draw (Sub p 3) st = Some (Inr (r, st1))" by blast
  from Suc.IH obtain b st2 where "MillerRabin_loop draw k d0 s p st1 = Some (Inr (b, st2))" by blast
  with r show ?case by (cases "WitnessFunction (ModAdd r 2 p) d0 s p") auto
qed auto

lemma MillerRabin_returns:
  assumes d: "low_draws draw"
  shows "\<exists>b st'. MillerRabinPrimalityTest draw p niter st = Some (Inr (b, st'))"
proof (cases "p = 2 \<or> p = 3 \<or> p = 5 \<or> p < 2 \<or> Mod p 2 = 0")
  case True
  then show ?thesis by (auto simp: MillerRabinPrimalityTest_def)
next
  case False
  then have "unat p \<noteq> 3" "unat p \<noteq> 2" "\<not> unat p < 2" by (auto simp: word_unat_eq_iff word_less_nat_alt)
  then have g: "3 < unat p" by linarith
  then have "0 < unat (Sub p 1)" and nz: "Sub p 3 \<noteq> 0"
    using Sub_unat [of 1 p] Sub_unat [of 3 p] by auto
  then obtain d0 s where "MillerRabin_split (Sub p 1) 0 = Inr (d0, s)"
    using MillerRabin_split_total by (metis surj_pair)
  with False MillerRabin_loop_returns [OF d nz] show ?thesis by (simp add: MillerRabinPrimalityTest_def)
qed

lemma passes_prime:
  assumes "low_draws draw" "is_prime (unat p)" "unat p \<le> 2 ^ 63"
  shows "passes draw p"
  using MillerRabin_returns [OF assms(1), of p niter_default] MillerRabin_prime [OF assms(2,3)]
  unfolding passes_def by (metis (full_types))

subsection \<open>Factorisation\<close>

lemma PollardRho_loop_divides:
  "PollardRho_loop n mu c x xx st = Some r \<Longrightarrow> r = Inr (d, st') \<Longrightarrow> unat d dvd unat n \<and> d \<noteq> 1"
proof (induction rule: PollardRho_loop.raw_induct [rotated, consumes 1])
  case (1 loop n mu c x xx st r)
  show ?case using 1 unfolding PollardRho_step_def Let_def by (auto simp: GreatestCommonDivisor_gcd split: if_splits)
qed

lemma PollardRho_divides:
  assumes "PollardRhoFactorization draw n st = Some (Inr (d, st'))"
  shows "unat d dvd unat n" "d \<noteq> 1"
proof -
  have "unat d dvd unat n \<and> d \<noteq> 1"
  proof (cases "Mod n 2 = 0")
    case True
    then have "2 dvd unat n" by (simp add: Mod_def word_unat_eq_iff unat_mod dvd_eq_mod_eq_0)
    with True assms show ?thesis by (auto simp: PollardRhoFactorization_def)
  next
    case False
    with assms obtain mu c x st1 where "PollardRho_loop n mu c x x st1 = Some (Inr (d, st'))"
      by (auto simp: PollardRhoFactorization_def elim!: rbind_InrE)
    then show ?thesis by (rule PollardRho_loop_divides [OF _ refl])
  qed
  then show "unat d dvd unat n" "d \<noteq> 1" by simp_all
qed

text \<open>Every prime factor of the number divides an element of the set, and every new element is
  a divisor that passed the primality test.\<close>

lemma PrimeFactorize_result:
  "PrimeFactorize draw n fs st = Some r \<Longrightarrow> 0 < unat n \<Longrightarrow> r = Inr (fs', st') \<Longrightarrow>
   set fs \<subseteq> set fs' \<and> (\<forall>p. is_prime p \<and> p dvd unat n \<longrightarrow> (\<exists>x\<in>set fs'. p dvd unat x)) \<and>
   (\<forall>x\<in>set fs'. x \<in> set fs \<or> unat x dvd unat n \<and> passes draw x) \<and>
   (sorted fs \<and> distinct fs \<longrightarrow> sorted fs' \<and> distinct fs')"
proof (induction arbitrary: fs' st' rule: PrimeFactorize.raw_induct [rotated, consumes 1])
  case (1 loop draw n fs st r)
  show ?case
  proof (cases "n = 1")
    case True
    with 1(2,4) show ?thesis using is_prime_gt_1 by fastforce
  next
    case False
    have n0: "n \<noteq> 0" using 1(3) by auto
    from False n0 1(2) obtain b st1 where b: "MillerRabinPrimalityTest draw n niter_default st = Some (Inr (b, st1))"
      and rest: "(if b then Some (Inr (insort_insert n fs, st1))
        else rbind (PollardRhoFactorization draw n st1) (\<lambda>divisor st.
             rbind (loop draw divisor fs st) (\<lambda>primeFactors st.
             rbind (rlift (DividedBy n divisor) st) (\<lambda>quotient st. loop draw quotient primeFactors st)))) = Some (Inr (fs', st'))"
      unfolding 1(4) by (auto elim!: rbind_InrE)
    show ?thesis
    proof (cases b)
      case True
      with rest have fs': "fs' = insort_insert n fs" by simp
      have pn: "passes draw n" using True b by (auto simp: passes_def)
      then show ?thesis by (auto simp: fs' set_insort_insert sorted_insort_insert distinct_insort_insert)
    next
      case False
      with rest obtain d st2 f1 st3 st4 where
        d: "PollardRhoFactorization draw n st1 = Some (Inr (d, st2))"
        and f1: "loop draw d fs st2 = Some (Inr (f1, st3))"
        and rec: "rbind (rlift (DividedBy n d) st3) (\<lambda>quotient st. loop draw quotient f1 st) = Some (Inr (fs', st'))"
        by (auto elim!: rbind_InrE)
      from PollardRho_divides(1) [OF d] 1(3) have d0: "0 < unat d" by (cases "unat d") auto
      then have "d \<noteq> 0" by auto
      with rec have f2: "loop draw (n div d) f1 st3 = Some (Inr (fs', st'))" by (simp add: DividedBy_def)
      have nd: "unat n = unat d * unat (n div d)"
        using PollardRho_divides(1) [OF d] by (simp add: unat_div)
      then have q0: "0 < unat (n div d)" using 1(3) by (cases "unat (n div d)") auto
      note I1 = 1(1) [OF f1 d0 refl] and I2 = 1(1) [OF f2 q0 refl]
      have "\<exists>x\<in>set fs'. p dvd unat x" if "is_prime p" "p dvd unat n" for p
        using is_prime_dvd_mult [of p "unat d" "unat (n div d)"] that I1 I2 unfolding nd by blast
      moreover have "unat d dvd unat n" "unat (n div d) dvd unat n" unfolding nd by simp_all
      ultimately show ?thesis using I1 I2 by (meson dvd_trans subset_iff)
    qed
  qed
qed

subsection \<open>A fixed generator for concrete runs\<close>

definition fixed_draw :: "unit prng" where
  "fixed_draw hi s = (if hi > 2 then 2 else 0, s)"

lemma low_draws_fixed_draw: "low_draws fixed_draw"
  by (auto simp: low_draws_def fixed_draw_def)

lemma MillerRabin_fixed_draw:
  assumes "is_prime (unat p)" "unat p \<le> 2 ^ 63"
  shows "MillerRabinPrimalityTest fixed_draw p niter () = Some (Inr (True, ()))"
  using MillerRabin_returns [OF low_draws_fixed_draw, of p niter "()"] MillerRabin_prime [OF assms] by fastforce

lemma progression_gap:
  fixes a d x :: nat
  assumes "\<forall>j<k. \<not> is_prime (a + j * d)" "x < a + k * d" "a \<le> x + (d - 1)" "d dvd x + d - a" "0 < d"
  shows "\<not> is_prime x"
proof -
  from assms(4) obtain j where j: "x + d - a = d * j" by blast
  have "a < x + d" using assms(3,5) by linarith
  with j have "0 < j" by (cases j) auto
  then obtain i where i: "j = Suc i" by (cases j) auto
  have x: "x = a + i * d" using j \<open>a < x + d\<close> by (simp add: i algebra_simps)
  with assms(2,5) have "i < k" by simp
  with assms(1) x show ?thesis by blast
qed

text \<open>The first candidate of \<open>FirstPrime\<close>: the least number above \<open>2 ^ nBits\<close> that is one modulo \<open>m\<close>.\<close>

definition first_candidate :: "u64 \<Rightarrow> u64 \<Rightarrow> u64" where
  "first_candidate q m = (let c = q + 1 - q mod m in if q mod m > 0 then c + m else c)"

lemma FirstPrime_candidate:
  assumes "unat nBits \<le> 60" "0 < unat m" "FirstPrime draw nBits m st = Some (Inr r)"
  shows "grow_candidate draw (push_bit (unat nBits) 1) m (first_candidate (push_bit (unat nBits) 1) m) st = Some (Inr r)"
  using assms by (auto simp: FirstPrime_def MAX_MODULUS_SIZE_def LShift_def MaxBits_def Add_def AddFast_def AddEq_def
      AddEqFast_def Sub_def SubFast_def NATIVEINT_DO_CHECKS_def Mod_def first_candidate_def Let_def unat_gt_0
      add.commute split: if_splits)

lemma unat_push_bit_60: "k \<le> 60 \<Longrightarrow> unat (push_bit k (1 :: u64)) = 2 ^ k" "k \<le> 60 \<Longrightarrow> (2::nat) ^ k \<le> 2 ^ 60"
proof -
  assume "k \<le> 60"
  then show "(2::nat) ^ k \<le> 2 ^ 60" by (intro power_increasing) auto
  then show "unat (push_bit k (1 :: u64)) = 2 ^ k" unfolding unat_push_bit by simp
qed

lemma first_candidate_range:
  assumes "unat q \<le> 2 ^ 60" "0 < unat m" "unat m \<le> unat q"
  shows "unat q < unat (first_candidate q m)" "unat (first_candidate q m) \<le> unat q + unat m"
    "unat m dvd unat (first_candidate q m) - 1"
proof -
  define N where "N = unat q"
  have lt: "unat (q mod m) = N mod unat m" by (simp add: unat_mod N_def)
  have mr: "N mod unat m < unat m" and le: "N mod unat m \<le> N" using assms by simp_all
  have "unat (q + 1 - q mod m) = N + 1 - N mod unat m"
    using assms(1) lt le by (subst unat_sub_small) (simp_all add: unat_add_small N_def le_SucI)
  then have uc: "unat (first_candidate q m) = (if N mod unat m > 0 then N + 1 - N mod unat m + unat m else N + 1)"
    using lt assms le by (auto simp: first_candidate_def Let_def word_less_nat_alt unat_add_small N_def)
  then show "unat q < unat (first_candidate q m)" using mr by (auto simp flip: N_def)
  show "unat (first_candidate q m) \<le> unat q + unat m"
    using uc le assms(2) by (auto simp flip: N_def)
  have "unat m dvd N - N mod unat m" by (rule dvd_minus_mod)
  then have "unat m dvd (if N mod unat m > 0 then (N - N mod unat m) + unat m else N)"
    by (cases "N mod unat m > 0") (simp_all only: if_True if_False dvd_add_triv_right_iff, simp add: dvd_eq_mod_eq_0)
  moreover have "unat (first_candidate q m) - 1 = (if N mod unat m > 0 then (N - N mod unat m) + unat m else N)"
  proof (cases "N mod unat m > 0")
    case True
    with uc have "unat (first_candidate q m) = N + 1 - N mod unat m + unat m" by simp
    with True le have "unat (first_candidate q m) - 1 = (N - N mod unat m) + unat m" by linarith
    with True show ?thesis by simp
  qed (use uc in simp)
  ultimately show "unat m dvd unat (first_candidate q m) - 1" by (simp only:)
qed

text \<open>The first candidate of \<open>LastPrime\<close>.\<close>

definition last_candidate :: "u64 \<Rightarrow> u64 \<Rightarrow> u64" where
  "last_candidate q m = (let c = q + 1 - q mod m in if q mod m < 2 then c - m else c)"

lemma LastPrime_candidate:
  assumes "unat nBits \<le> 60" "0 < unat m" "LastPrime draw nBits m st = Some (Inr (p, st'))"
  shows "\<exists>msg. shrink_candidate msg draw (push_bit (unat nBits) 1) m (last_candidate (push_bit (unat nBits) 1) m) st
       = Some (Inr (p, st'))" "GetMSB p = nBits"
  using assms by (auto simp: LastPrime_def MAX_MODULUS_SIZE_def LShift_def MaxBits_def Add_def AddFast_def SubEq_def
      SubEqFast_def Sub_def SubFast_def NATIVEINT_DO_CHECKS_def Mod_def last_candidate_def Let_def unat_gt_0
      add.commute elim!: rbind_InrE split: if_splits)

lemma last_candidate_range:
  assumes "unat q \<le> 2 ^ 60" "0 < unat m" "unat m \<le> unat q"
  shows "0 < unat (last_candidate q m)" "unat (last_candidate q m) \<le> unat q"
    "unat q \<le> unat (last_candidate q m) + unat m" "unat m dvd unat (last_candidate q m) - 1"
proof -
  define N where "N = unat q"
  define r where "r = N mod unat m"
  have lt: "unat (q mod m) = r" by (simp add: unat_mod N_def r_def)
  have rm: "r < unat m" and le: "r \<le> N" using assms by (simp_all add: r_def)
  have "m = 0 \<or> N = r + unat m * (N div unat m)" by (simp add: r_def)
  then have "r = 1 \<Longrightarrow> unat m < N"
    using assms rm by (cases "N = unat m") (auto simp: r_def N_def)
  moreover have c0: "unat (q + 1 - q mod m) = N + 1 - r"
    using assms(1) lt le by (subst unat_sub_small) (simp_all add: unat_add_small N_def le_SucI)
  ultimately have uc: "unat (last_candidate q m) = (if r < 2 then N + 1 - r - unat m else N + 1 - r)"
    and pos: "r = 1 \<Longrightarrow> unat m < N"
    using lt assms by (auto simp: last_candidate_def Let_def word_less_nat_alt unat_sub_small N_def)
  show "0 < unat (last_candidate q m)" "unat (last_candidate q m) \<le> unat q"
    "unat q \<le> unat (last_candidate q m) + unat m"
    using uc pos rm assms by (cases "r = 0"; cases "r = 1"; simp flip: N_def)+
  have d: "unat m dvd N - r" unfolding r_def by (rule dvd_minus_mod)
  then have "unat m dvd (N - r) - unat m" by (rule dvd_diff_nat) (rule dvd_refl)
  with d have "unat m dvd (if r < 2 then (N - r) - unat m else N - r)" by (cases "r < 2") simp_all
  moreover have "unat (last_candidate q m) - 1 = (if r < 2 then (N - r) - unat m else N - r)"
  proof (cases "r < 2")
    case True
    with uc have "unat (last_candidate q m) = N + 1 - r - unat m" by simp
    with True le have "unat (last_candidate q m) - 1 = (N - r) - unat m" by linarith
    with True show ?thesis by simp
  next
    case False
    with uc have "unat (last_candidate q m) = N + 1 - r" by simp
    with False le have "unat (last_candidate q m) - 1 = N - r" by linarith
    with False show ?thesis by simp
  qed
  ultimately show "unat m dvd unat (last_candidate q m) - 1" by (simp only:)
qed

lemma progression_gap_down:
  fixes a d x :: nat
  assumes "\<forall>j<k. \<not> is_prime (a - j * d)" "a = p + k * d" "p < x" "x \<le> a" "d dvd a - x"
  shows "\<not> is_prime x"
proof -
  from assms(5) obtain j where j: "a - x = d * j" by blast
  then have "x = a - j * d" using assms(4) by (simp add: mult.commute)
  moreover have "j < k"
  proof (rule ccontr)
    assume "\<not> j < k"
    then have "k * d \<le> j * d" by simp
    moreover have "a - x = j * d" using j by (simp add: mult.commute)
    ultimately show False using assms(2-4) by linarith
  qed
  ultimately show ?thesis using assms(1) by blast
qed

subsection \<open>Concrete runs\<close>

lemma composite_33: "MillerRabinPrimalityTest fixed_draw 33 niter_default () = Some (Inr (False, ()))"
  by code_simp

lemma test_5: "MillerRabinPrimalityTest fixed_draw 5 niter_default () = Some (Inr (True, ()))"
  by (simp add: MillerRabinPrimalityTest_def)

lemma prime_41: "is_prime (unat (41 :: u64))"
  by code_simp

lemma grow_33_41: "unat q \<le> 33 \<Longrightarrow> grow_candidate fixed_draw q 8 33 () = Some (Inr (41, ()))"
  by (subst grow_candidate.simps, subst grow_candidate.simps)
     (auto simp: composite_33 MillerRabin_fixed_draw [OF prime_41] AddEq_def AddEqFast_def NATIVEINT_DO_CHECKS_def
        word_less_nat_alt)

lemma FirstPrime_41: "FirstPrime fixed_draw 5 8 () = Some (Inr (41, ()))"
  using grow_33_41 [of 32]
  by (simp add: FirstPrime_def MAX_MODULUS_SIZE_def LShift_def MaxBits_def Add_def AddFast_def AddEq_def
      AddEqFast_def Sub_def SubFast_def NATIVEINT_DO_CHECKS_def Mod_def Let_def push_bit_eq_mult)

lemma NextPrime_41: "NextPrime fixed_draw 25 8 () = Some (Inr (41, ()))"
  using grow_33_41 [of 25] by (simp add: NextPrime_def Add_def AddFast_def NATIVEINT_DO_CHECKS_def)

lemma LastPrime_5: "LastPrime fixed_draw 3 4 () = Some (Inr (5, ()))"
  by code_simp

lemma PreviousPrime_5: "PreviousPrime fixed_draw 61 28 () = Some (Inr (5, ()))"
proof -
  have "shrink_candidate msg fixed_draw 61 28 33 () = Some (Inr (5, ()))" for msg
    by (subst shrink_candidate.simps, subst shrink_candidate.simps)
       (simp add: composite_33 test_5 SubEq_def SubEqFast_def NATIVEINT_DO_CHECKS_def)
  then show ?thesis by (simp add: PreviousPrime_def Sub_def SubFast_def NATIVEINT_DO_CHECKS_def)
qed

section \<open>Properties\<close>

text \<open>
  C38. The Miller-Rabin test never rejects a prime (up to 63 bits), whatever the random generator draws:
  a run either does not return or returns true. It does return when the generator keeps drawing
  numbers below the requested bound.
\<close>

theorem miller_rabin_accepts_primes:
  assumes "is_prime (unat p)" "unat p \<le> 2 ^ 63"
  shows "(MillerRabinPrimalityTest draw p niter st = None \<or>
           (\<exists>st'. MillerRabinPrimalityTest draw p niter st = Some (Inr (True, st')))) \<and>
         (low_draws draw \<longrightarrow> (\<exists>st'. MillerRabinPrimalityTest draw p niter st = Some (Inr (True, st'))))"
proof (intro conjI impI)
  show "MillerRabinPrimalityTest draw p niter st = None \<or>
          (\<exists>st'. MillerRabinPrimalityTest draw p niter st = Some (Inr (True, st')))"
    using MillerRabin_no_error MillerRabin_prime [OF assms] by (metis (full_types) option.exhaust)
  show "\<exists>st'. MillerRabinPrimalityTest draw p niter st = Some (Inr (True, st'))" if "low_draws draw"
    using MillerRabin_returns [OF that] MillerRabin_prime [OF assms] by (metis (full_types))
qed

lemma miller_rabin_accepts_primes_witness:
  "\<exists>st'. MillerRabinPrimalityTest fixed_draw 41 100 () = Some (Inr (True, st'))"
proof -
  have "is_prime (unat (41 :: u64))" "unat (41 :: u64) \<le> 2 ^ 63" by code_simp simp
  from miller_rabin_accepts_primes [OF this, THEN conjunct2, THEN mp, OF low_draws_fixed_draw] show ?thesis .
qed

text \<open>
  \<open>FirstPrime\<close> searches the numbers above \<open>2 ^ nBits\<close> that are one more than a multiple of \<open>m\<close>:
  its result is one of them, it passed the primality test, and no smaller one is prime.
\<close>

theorem first_prime_search:
  assumes n: "unat nBits \<le> 60" and m: "0 < unat m" "unat m \<le> 2 ^ unat nBits"
    and r: "FirstPrime draw nBits m st = Some (Inr (p, st'))"
  shows "2 ^ unat nBits < unat p \<and> unat m dvd unat p - 1 \<and> passes draw p \<and>
    (unat p \<le> 2 ^ 63 \<longrightarrow> (\<forall>x. 2 ^ unat nBits < x \<and> x < unat p \<and> unat m dvd x - 1 \<longrightarrow> \<not> is_prime x))"
proof (intro conjI allI impI; (elim conjE)?)
  define q where "q = push_bit (unat nBits) (1 :: u64)"
  define c where "c = first_candidate q m"
  have q: "unat q = 2 ^ unat nBits" "unat q \<le> 2 ^ 60" using unat_push_bit_60 [OF n] by (simp_all add: q_def)
  have mq: "unat m \<le> unat q" using m q by simp
  note c = first_candidate_range [OF q(2) m(1) mq, folded c_def]
  have g: "grow_candidate draw q m c st = Some (Inr (p, st'))"
    using FirstPrime_candidate [OF n m(1) r] by (simp add: q_def c_def)
  from grow_candidate_result [OF g mq less_imp_le [OF c(1)] refl] obtain k where
    k: "unat p = unat c + k * unat m" "passes draw p"
    "unat p \<le> 2 ^ 63 \<longrightarrow> (\<forall>j<k. \<not> is_prime (unat c + j * unat m))" by blast
  from k c q show "2 ^ unat nBits < unat p" "passes draw p" by simp_all
  have "unat p - 1 = (unat c - 1) + k * unat m" using k(1) c(1) by simp
  with c(3) show "unat m dvd unat p - 1" by simp
  show "\<not> is_prime x" if x: "unat p \<le> 2 ^ 63" "2 ^ unat nBits < x" "x < unat p" "unat m dvd x - 1" for x
  proof (rule progression_gap [of k "unat c" "unat m"])
    show le: "unat c \<le> x + (unat m - 1)" using x(2) c(2) q m by linarith
    have "x + unat m - unat c = (x - 1 + unat m) - (unat c - 1)" using x(2) c(1) m by linarith
    moreover have "unat m dvd (x - 1 + unat m) - (unat c - 1)" using x(4) c(3) by simp
    ultimately show "unat m dvd x + unat m - unat c" by simp
  qed (use k x m in auto)
qed

lemma first_prime_search_witness:
  "(2::nat) ^ 5 < 41 \<and> \<not> is_prime 33"
proof -
  have h: "unat (5 :: u32) \<le> 60" "0 < unat (8 :: u64)" "unat (8 :: u64) \<le> 2 ^ unat (5 :: u32)" by simp_all
  show ?thesis
    using first_prime_search [OF h FirstPrime_41] by (auto dest: spec [of _ 33])
qed

text \<open>
  \<open>NextPrime\<close> returns a number above \<open>q\<close>, congruent to it modulo \<open>m\<close>, that passed the
  primality test, and no number of the progression between the two is prime.
\<close>

theorem next_prime_search:
  assumes m: "0 < unat m" "unat m \<le> unat q" "unat q + unat m < 2 ^ 64"
    and r: "NextPrime draw q m st = Some (Inr (p, st'))"
  shows "unat q < unat p \<and> unat m dvd unat p - unat q \<and> passes draw p \<and>
    (unat p \<le> 2 ^ 63 \<longrightarrow> (\<forall>x. unat q < x \<and> x < unat p \<and> unat m dvd x - unat q \<longrightarrow> \<not> is_prime x))"
proof (intro conjI allI impI; (elim conjE)?)
  have g: "grow_candidate draw q m (q + m) st = Some (Inr (p, st'))"
    using r by (simp add: NextPrime_def Add_def AddFast_def NATIVEINT_DO_CHECKS_def add.commute)
  have u: "unat (q + m) = unat q + unat m" using m(3) by (rule unat_add_small)
  then have "unat q \<le> unat (q + m)" by simp
  from grow_candidate_result [OF g m(2) this refl, unfolded u] obtain k where
    k: "unat p = unat q + unat m + k * unat m" "passes draw p"
    "unat p \<le> 2 ^ 63 \<longrightarrow> (\<forall>j<k. \<not> is_prime (unat q + unat m + j * unat m))" by blast
  from k m show "unat q < unat p" "unat m dvd unat p - unat q" "passes draw p" by simp_all
  show "\<not> is_prime x" if x: "unat p \<le> 2 ^ 63" "unat q < x" "x < unat p" "unat m dvd x - unat q" for x
  proof (rule progression_gap [of k "unat q + unat m" "unat m"])
    show "unat q + unat m \<le> x + (unat m - 1)" using x(2) m by linarith
    show "unat m dvd x + unat m - (unat q + unat m)" using x(4) by simp
  qed (use k x m in auto)
qed

lemma next_prime_search_witness: "\<not> is_prime 33"
proof -
  have h: "0 < unat (8 :: u64)" "unat (8 :: u64) \<le> unat (25 :: u64)" "unat (25 :: u64) + unat (8 :: u64) < 2 ^ 64"
    by simp_all
  show ?thesis using next_prime_search [OF h NextPrime_41] by (auto dest: spec [of _ 33])
qed

text \<open>
  \<open>LastPrime\<close> returns a number of exactly \<open>nBits\<close> bits, one more than a multiple of \<open>m\<close>, that
  passed the primality test, and no larger number of that form below \<open>2 ^ nBits\<close> is prime.
\<close>

theorem last_prime_search:
  assumes n: "unat nBits \<le> 60" and m: "0 < unat m" "unat m \<le> 2 ^ unat nBits"
    and r: "LastPrime draw nBits m st = Some (Inr (p, st'))"
  shows "2 ^ (unat nBits - 1) \<le> unat p \<and> unat p < 2 ^ unat nBits \<and> unat m dvd unat p - 1 \<and> passes draw p \<and>
    (\<forall>x. unat p < x \<and> x < 2 ^ unat nBits \<and> unat m dvd x - 1 \<longrightarrow> \<not> is_prime x)"
proof (intro conjI allI impI; (elim conjE)?)
  define q where "q = push_bit (unat nBits) (1 :: u64)"
  define c where "c = last_candidate q m"
  have q: "unat q = 2 ^ unat nBits" "unat q \<le> 2 ^ 60" using unat_push_bit_60 [OF n] by (simp_all add: q_def)
  have mq: "unat m \<le> unat q" using m q by simp
  note c = last_candidate_range [OF q(2) m(1) mq, folded c_def]
  obtain msg where g: "shrink_candidate msg draw q m c st = Some (Inr (p, st'))"
    using LastPrime_candidate(1) [OF n m(1) r] unfolding q_def c_def by blast
  have b: "unat q \<le> 2 ^ 63" "unat m \<le> 2 ^ 63 - 1" using q(2) mq by simp_all
  from shrink_candidate_result [OF g c(2) b refl] obtain k where
    k: "unat c = unat p + k * unat m" "passes draw p" "\<forall>j<k. \<not> is_prime (unat c - j * unat m)" by blast
  have p1: "1 < unat p" using k(2) by (rule passes_gt_1)
  from LastPrime_candidate(2) [OF n m(1) r] have bl: "bit_len (unat p) = unat nBits"
    by (simp flip: unat_GetMSB)
  show "2 ^ (unat nBits - 1) \<le> unat p" using bit_len_lower [of "unat p"] p1 bl by simp
  show "unat p < 2 ^ unat nBits" using bit_len_upper [of "unat p"] bl by simp
  show "passes draw p" by (rule k(2))
  have "unat c - 1 = (unat p - 1) + k * unat m" using k(1) p1 by simp
  with c(4) show dp: "unat m dvd unat p - 1" by (metis dvd_add_left_iff dvd_triv_right)
  show "\<not> is_prime x" if x: "unat p < x" "x < 2 ^ unat nBits" "unat m dvd x - 1" for x
  proof (rule progression_gap_down [OF k(3,1) x(1)])
    have "unat m dvd (x - 1) - (unat c - 1)" using x(3) c(4) by (rule dvd_diff_nat)
    moreover have "(x - 1) - (unat c - 1) < unat m" using x(2) c(1,3) q m by linarith
    ultimately have "x - 1 \<le> unat c - 1" by (metis diff_is_0_eq dvd_imp_le gr0I not_less)
    then show "x \<le> unat c" using c(1) by linarith
    have "unat m dvd (unat c - 1) - (x - 1)" using c(4) x(3) by (rule dvd_diff_nat)
    moreover have "(unat c - 1) - (x - 1) = unat c - x" using x(1) p1 by linarith
    ultimately show "unat m dvd unat c - x" by simp
  qed
qed

lemma last_prime_search_witness: "(4::nat) \<le> 5 \<and> passes fixed_draw 5 \<and> (4::nat) dvd 5 - 1"
proof -
  have h: "unat (3 :: u32) \<le> 60" "0 < unat (4 :: u64)" "unat (4 :: u64) \<le> 2 ^ unat (3 :: u32)" by simp_all
  show ?thesis
    using last_prime_search [OF h LastPrime_5] by simp
qed

text \<open>
  \<open>PreviousPrime\<close> returns a number below \<open>q\<close>, congruent to it modulo \<open>m\<close>, that passed the
  primality test, and no number of the progression between the two is prime.
\<close>

theorem previous_prime_search:
  assumes m: "0 < unat m" "unat m \<le> unat q" "unat q \<le> 2 ^ 62"
    and r: "PreviousPrime draw q m st = Some (Inr (p, st'))"
  shows "unat p < unat q \<and> unat m dvd unat q - unat p \<and> passes draw p \<and>
    (\<forall>x. unat p < x \<and> x < unat q \<and> unat m dvd unat q - x \<longrightarrow> \<not> is_prime x)"
proof (intro conjI allI impI; (elim conjE)?)
  have g: "shrink_candidate ''Overflow shrinking candidate'' draw q m (q - m) st = Some (Inr (p, st'))"
    using r by (simp add: PreviousPrime_def Sub_def SubFast_def NATIVEINT_DO_CHECKS_def)
  have u: "unat (q - m) = unat q - unat m" using m(2) by (rule unat_sub_small)
  then have le: "unat (q - m) \<le> unat q" by simp
  have b: "unat q \<le> 2 ^ 63" "unat m \<le> 2 ^ 63 - 1" using m by simp_all
  from shrink_candidate_result [OF g le b refl, unfolded u] obtain k where
    k: "unat q - unat m = unat p + k * unat m" "passes draw p"
    "\<forall>j<k. \<not> is_prime (unat q - unat m - j * unat m)" by blast
  have qp: "unat q = unat p + (k + 1) * unat m" using k(1) m(2) by simp
  with m k show "unat p < unat q" "unat m dvd unat q - unat p" "passes draw p" by simp_all
  show "\<not> is_prime x" if x: "unat p < x" "x < unat q" "unat m dvd unat q - x" for x
  proof (rule progression_gap_down [OF k(3,1) x(1)])
    have "unat m \<le> unat q - x" using x(2,3) by (simp add: dvd_imp_le)
    then show "x \<le> unat q - unat m" using x(2) by linarith
    then have "unat q - x = (unat q - unat m - x) + unat m" using m(2) by linarith
    with x(3) show "unat m dvd unat q - unat m - x" by simp
  qed
qed

lemma previous_prime_search_witness: "\<not> is_prime 33 \<and> passes fixed_draw 5"
proof -
  have h: "0 < unat (28 :: u64)" "unat (28 :: u64) \<le> unat (61 :: u64)" "unat (61 :: u64) \<le> 2 ^ 62" by simp_all
  show ?thesis
    using previous_prime_search [OF h PreviousPrime_5] by (auto dest: spec [of _ 33])
qed

text \<open>
  C39. \<open>PrimeFactorize\<close> returns the set of the prime factors of its argument, without repetition and
  in ascending order, provided the probabilistic test lets no composite divisor of it through.
\<close>

theorem prime_factorization:
  assumes "0 < unat n"
    and "\<And>x. unat x dvd unat n \<Longrightarrow> passes draw x \<Longrightarrow> is_prime (unat x)"
    and "PrimeFactorize draw n [] st = Some (Inr (fs, st'))"
  shows "unat ` set fs = {p. is_prime p \<and> p dvd unat n} \<and> sorted fs \<and> distinct fs"
proof (intro conjI)
  from PrimeFactorize_result [OF assms(3,1) refl] have
    cover: "\<And>p. is_prime p \<Longrightarrow> p dvd unat n \<Longrightarrow> \<exists>x\<in>set fs. p dvd unat x"
    and mem: "\<And>x. x \<in> set fs \<Longrightarrow> unat x dvd unat n \<and> passes draw x"
    and so: "sorted fs \<and> distinct fs" by auto
  show "unat ` set fs = {p. is_prime p \<and> p dvd unat n}"
  proof (intro set_eqI iffI)
    fix p assume "p \<in> {p. is_prime p \<and> p dvd unat n}"
    then obtain x where x: "x \<in> set fs" "p dvd unat x" "is_prime p" using cover by blast
    then have "is_prime (unat x)" using mem assms(2) by blast
    then have "p = unat x" using is_prime_divisor [OF _ x(2)] is_prime_gt_1 [OF x(3)] by auto
    with x(1) show "p \<in> unat ` set fs" by blast
  qed (use mem assms(2) in blast)
  show "sorted fs" "distinct fs" using so by simp_all
qed

lemma is_prime_2_3: "is_prime 2" "is_prime 3"
  by code_simp+

lemma divisors_of_12: "(x::nat) dvd 12 \<Longrightarrow> 1 < x \<Longrightarrow> x = 2 \<or> odd x \<Longrightarrow> is_prime x"
proof -
  assume x: "x dvd 12" "1 < x" "x = 2 \<or> odd x"
  then have "x \<le> 12" by (simp add: dvd_imp_le)
  then have "x = 0 \<or> x = 1 \<or> x = 2 \<or> x = 3 \<or> x = 4 \<or> x = 5 \<or> x = 6 \<or> x = 7 \<or> x = 8 \<or> x = 9 \<or> x = 10
    \<or> x = 11 \<or> x = 12" by presburger
  then show ?thesis using x by (elim disjE) (simp_all add: is_prime_2_3)
qed

lemma prime_factorization_witness: "unat ` set [2, 3 :: u64] = {p. is_prime p \<and> p dvd 12}"
proof -
  have "PrimeFactorize fixed_draw 12 [] () = Some (Inr ([2, 3], ()))" by code_simp
  moreover have "is_prime (unat x)" if "unat x dvd unat (12 :: u64)" "passes fixed_draw x" for x
  proof (rule divisors_of_12)
    from that(2) obtain st st' where "MillerRabinPrimalityTest fixed_draw x niter_default st = Some (Inr (True, st'))"
      unfolding passes_def by blast
    then show "1 < unat x" "unat x = 2 \<or> odd (unat x)" by (rule MillerRabin_True)+
  qed (use that in simp)
  ultimately have "unat ` set [2, 3 :: u64] = {p. is_prime p \<and> p dvd unat (12 :: u64)}"
    using prime_factorization [of 12 fixed_draw "()" "[2, 3]" "()"] by simp
  then show ?thesis by simp
qed

end
