(* ===== verification/Ntt.thy ===== *)
theory Ntt
  imports NatVec Loops
begin

text \<open>
  \<open>NumberTheoreticTransformNat\<close> of
  \<open>src/core/include/math/hal/intnat/transformnat-impl.h\<close>. A transform takes the vectors it
  reads and the old value of the vector it writes, and returns its new value. Overloads with
  precomputed quotients end in \<open>_precon\<close>, those that reduce by Barrett in \<open>_mu\<close>; of
  the two butterfly codings the one compiled by GCC is modelled. The loop counters are
  \<open>uint32_t\<close> in the code and naturals here: they stay below twice the length. \<open>+\<close>,
  \<open>-\<close> on entries are \<open>AddFast\<close> and \<open>SubFast\<close>, as \<open>NATIVEINT_DO_CHECKS\<close>
  is false. A table shorter than the vector is read past its end in C++; the lemmas exclude it.
\<close>

section \<open>Definitions\<close>

definition size_mismatch :: "'a res" where
  "size_mismatch = Inl (OpenFHEError ''size of input element and size of output element not of same size'')"

text \<open>\<open>GetMSB\<close> of a loop counter.\<close>

definition msb_of :: "nat \<Rightarrow> nat" where
  "msb_of n = unat (GetMSB (of_nat n))"

subsection \<open>Butterflies\<close>

definition ct_butterfly :: "u64 \<Rightarrow> u64 \<Rightarrow> u64 \<Rightarrow> u64 \<times> u64" where
  "ct_butterfly modulus loVal omegaFactor =
     (let hiVal = loVal + omegaFactor;
          hiVal = (if hiVal \<ge> modulus then hiVal - modulus else hiVal);
          loVal = (if loVal < omegaFactor then loVal + modulus else loVal);
          loVal = loVal - omegaFactor
      in (hiVal, loVal))"

text \<open>Sum and difference of the two inputs; the caller multiplies the difference.\<close>

definition gs_butterfly :: "u64 \<Rightarrow> u64 \<Rightarrow> u64 \<Rightarrow> u64 \<times> u64" where
  "gs_butterfly modulus loVal hiVal =
     (let omegaFactor = loVal;
          omegaFactor = (if omegaFactor < hiVal then omegaFactor + modulus else omegaFactor);
          omegaFactor = omegaFactor - hiVal;
          loVal = loVal + hiVal;
          loVal = (if loVal \<ge> modulus then loVal - modulus else loVal)
      in (loVal, omegaFactor))"

subsection \<open>Forward transforms to bit-reversed order\<close>

definition ForwardTransformToBitReverseInPlace_mu :: "nvec \<Rightarrow> nvec \<Rightarrow> nvec res" where
  "ForwardTransformToBitReverseInPlace_mu rootOfUnityTable element =
     (let n = GetLength element; modulus = m_modulus element
      in ebind (ComputeMu modulus) (\<lambda>mu.
        let t = n div 2; logt1 = msb_of t;
            (t, logt1, d) = for_dbl 1 n (\<lambda>m (t, logt1, d).
              (t div 2, logt1 - 1,
               bf_loops (\<lambda>i loVal hi.
                   let omega = m_data rootOfUnityTable ! (m + i);
                       omegaFactor = ModMulFastEq_mu hi omega modulus mu
                   in ct_butterfly modulus loVal omegaFactor) m t logt1 d))
              (t, logt1, m_data element)
        in Inr (element\<lparr>m_data := d\<rparr>)))"

definition ForwardTransformToBitReverse_mu :: "nvec \<Rightarrow> nvec \<Rightarrow> nvec \<Rightarrow> nvec res" where
  "ForwardTransformToBitReverse_mu element rootOfUnityTable result =
     (let n = GetLength element
      in if GetLength result \<noteq> n then size_mismatch
         else let modulus = m_modulus element
          in ebind (ComputeMu modulus) (\<lambda>mu. ebind (SetModulus result modulus) (\<lambda>result.
        let t = n div 2; logt1 = msb_of t;
            d = for_range 0 n (\<lambda>i d. d[i := m_data element ! i]) (m_data result);
            (t, logt1, d) = for_dbl 1 n (\<lambda>m (t, logt1, d).
              (t div 2, logt1 - 1,
               bf_loops (\<lambda>i loVal omegaFactor.
                   let omega = m_data rootOfUnityTable ! (m + i)
                   in if omegaFactor \<noteq> 0
                      then ct_butterfly modulus loVal (ModMulFastEq_mu omegaFactor omega modulus mu)
                      else (loVal, loVal)) m t logt1 d))
              (t, logt1, d)
        in Inr (result\<lparr>m_data := d\<rparr>))))"

text \<open>The last stage is peeled off: its butterflies are on neighbours.\<close>

definition ForwardTransformToBitReverseInPlace_precon :: "nvec \<Rightarrow> nvec \<Rightarrow> nvec \<Rightarrow> nvec" where
  "ForwardTransformToBitReverseInPlace_precon rootOfUnityTable preconRootOfUnityTable element =
     (let modulus = m_modulus element; n = GetLength element div 2;
          bf = (\<lambda>omega preconOmega loVal hi.
            let omegaFactor = ModMulFastConstEq hi omega modulus preconOmega
            in ct_butterfly modulus loVal omegaFactor);
          (t, logt, d) = for_dbl 1 n (\<lambda>m (t, logt, d).
            (t div 2, logt - 1,
             bf_loops (\<lambda>i. bf (m_data rootOfUnityTable ! (i + m)) (m_data preconRootOfUnityTable ! (i + m)))
               m t logt d))
            (n, msb_of n, m_data element);
          d = for_step 0 (2 * n) 2 (\<lambda>i d.
            bf_at (bf (m_data rootOfUnityTable ! (i div 2 + n)) (m_data preconRootOfUnityTable ! (i div 2 + n)))
              (i + 0) (i + 1) d) d
      in element\<lparr>m_data := d\<rparr>)"

definition ForwardTransformToBitReverse_precon :: "nvec \<Rightarrow> nvec \<Rightarrow> nvec \<Rightarrow> nvec \<Rightarrow> nvec res" where
  "ForwardTransformToBitReverse_precon element rootOfUnityTable preconRootOfUnityTable result =
     (let n = GetLength element
      in if GetLength result \<noteq> n then size_mismatch
         else let modulus = m_modulus element
          in ebind (SetModulus result modulus) (\<lambda>result.
        let d = for_range 0 n (\<lambda>i d. d[i := m_data element ! i]) (m_data result);
            t = n div 2; logt1 = msb_of t;
            (t, logt1, d) = for_dbl 1 n (\<lambda>m (t, logt1, d).
              (t div 2, logt1 - 1,
               bf_loops (\<lambda>i loVal omegaFactor.
                   let omega = m_data rootOfUnityTable ! (m + i);
                       preconOmega = m_data preconRootOfUnityTable ! (m + i)
                   in if omegaFactor \<noteq> 0
                      then ct_butterfly modulus loVal (ModMulFastConstEq omegaFactor omega modulus preconOmega)
                      else (loVal, loVal)) m t logt1 d))
              (t, logt1, d)
        in Inr (result\<lparr>m_data := d\<rparr>)))"

subsection \<open>Inverse transforms from bit-reversed order\<close>

definition InverseTransformFromBitReverseInPlace_mu :: "nvec \<Rightarrow> u64 \<Rightarrow> nvec \<Rightarrow> nvec res" where
  "InverseTransformFromBitReverseInPlace_mu rootOfUnityInverseTable cycloOrderInv element =
     (let n = GetLength element; modulus = m_modulus element
      in ebind (ComputeMu modulus) (\<lambda>mu.
        let (t, logt1, d) = for_hlv (n div 2) 0 (\<lambda>m (t, logt1, d).
              (2 * t, logt1 + 1,
               bf_loops (\<lambda>i lo hi.
                   let omega = m_data rootOfUnityInverseTable ! (m + i);
                       (loVal, omegaFactor) = gs_butterfly modulus lo hi
                   in (loVal, ModMulFastEq_mu omegaFactor omega modulus mu)) m t logt1 d))
              (1, 1, m_data element);
            d = for_range 0 n (\<lambda>i d. d[i := ModMulFastEq_mu (d ! i) cycloOrderInv modulus mu]) d
        in Inr (element\<lparr>m_data := d\<rparr>)))"

definition InverseTransformFromBitReverse_mu :: "nvec \<Rightarrow> nvec \<Rightarrow> u64 \<Rightarrow> nvec \<Rightarrow> nvec res" where
  "InverseTransformFromBitReverse_mu element rootOfUnityInverseTable cycloOrderInv result =
     (let n = GetLength element
      in if GetLength result \<noteq> n then size_mismatch
         else ebind (SetModulus result (m_modulus element)) (\<lambda>result.
           let d = for_range 0 n (\<lambda>i d. d[i := m_data element ! i]) (m_data result)
           in InverseTransformFromBitReverseInPlace_mu rootOfUnityInverseTable cycloOrderInv
                (result\<lparr>m_data := d\<rparr>)))"

text \<open>
  The first stage (on neighbours) is peeled off, and so is the last one, where the multiplication
  by the inverse of the length is merged into the root of unity for the upper half.
\<close>

definition InverseTransformFromBitReverseInPlace_precon ::
    "nvec \<Rightarrow> nvec \<Rightarrow> u64 \<Rightarrow> u64 \<Rightarrow> nvec \<Rightarrow> nvec res" where
  "InverseTransformFromBitReverseInPlace_precon rootOfUnityInverseTable preconRootOfUnityInverseTable
      cycloOrderInv preconCycloOrderInv element =
     (let modulus = m_modulus element; n = GetLength element;
          bf = (\<lambda>omega preconOmega lo hi.
            let (loVal, omegaFactor) = gs_butterfly modulus lo hi
            in (loVal, ModMulFastConstEq omegaFactor omega modulus preconOmega));
          omega1Inv = ModMulFastConst (m_data rootOfUnityInverseTable ! 1) cycloOrderInv modulus preconCycloOrderInv
      in ebind (PrepModMulConst omega1Inv modulus) (\<lambda>preconOmega1Inv.
        let d = (if n > 2
              then for_step 0 n 2 (\<lambda>i d.
                bf_at (bf (m_data rootOfUnityInverseTable ! ((i + n) div 2))
                          (m_data preconRootOfUnityInverseTable ! ((i + n) div 2))) (i + 0) (i + 1) d)
                (m_data element)
              else m_data element);
            (t, logt, d) = for_hlv (n div 4) 1 (\<lambda>m (t, logt, d).
              (2 * t, logt + 1,
               bf_loops (\<lambda>i. bf (m_data rootOfUnityInverseTable ! (i + m))
                                (m_data preconRootOfUnityInverseTable ! (i + m))) m t logt d))
              (2, 2, d);
            j2 = n div 2;
            d = for_range 0 j2 (\<lambda>j1 d. bf_at (bf omega1Inv preconOmega1Inv) j1 (j1 + j2) d) d;
            d = for_range 0 j2 (\<lambda>i d. d[i := ModMulFastConstEq (d ! i) cycloOrderInv modulus preconCycloOrderInv]) d
        in Inr (element\<lparr>m_data := d\<rparr>)))"

definition InverseTransformFromBitReverse_precon ::
    "nvec \<Rightarrow> nvec \<Rightarrow> nvec \<Rightarrow> u64 \<Rightarrow> u64 \<Rightarrow> nvec \<Rightarrow> nvec res" where
  "InverseTransformFromBitReverse_precon element rootOfUnityInverseTable preconRootOfUnityInverseTable
      cycloOrderInv preconCycloOrderInv result =
     (let n = GetLength element
      in if GetLength result \<noteq> n then size_mismatch
         else ebind (SetModulus result (m_modulus element)) (\<lambda>result.
           let d = for_range 0 n (\<lambda>i d. d[i := m_data element ! i]) (m_data result)
           in InverseTransformFromBitReverseInPlace_precon rootOfUnityInverseTable preconRootOfUnityInverseTable
                cycloOrderInv preconCycloOrderInv (result\<lparr>m_data := d\<rparr>)))"

subsection \<open>Iterative transforms in natural order\<close>

definition ForwardTransformIterative :: "nvec \<Rightarrow> nvec \<Rightarrow> nvec \<Rightarrow> nvec res" where
  "ForwardTransformIterative element rootOfUnityTable result =
     (let n = GetLength element
      in if GetLength result \<noteq> n then size_mismatch
         else let modulus = m_modulus element
          in ebind (ComputeMu modulus) (\<lambda>mu. ebind (SetModulus result modulus) (\<lambda>result.
        let msb = GetMSB (ucast (of_nat n - 1 :: u32))
        in ebind (efor 0 n (\<lambda>i d. ebind (ReverseBits (of_nat i) msb) (\<lambda>r.
               if unat r < n then set_at d i (m_data element ! unat r) else Inl OutOfRange)) (m_data result)) (\<lambda>d.
        let logn = unat msb;
            d = for_range 1 (logn + 1) (\<lambda>logm d.
              for_step 0 n (2 ^ logm) (\<lambda>j d.
                for_range 0 (2 ^ (logm - 1)) (\<lambda>i d.
                  bf_at (\<lambda>evenVal oddVal.
                      let omega = m_data rootOfUnityTable ! (i * 2 ^ (logn - logm));
                          omegaFactor = ModMul_mu omega oddVal modulus mu
                      in ct_butterfly modulus evenVal omegaFactor)
                    (j + i) (j + i + 2 ^ (logm - 1)) d) d) d) d
        in Inr (result\<lparr>m_data := d\<rparr>)))))"

definition InverseTransformIterative :: "nvec \<Rightarrow> nvec \<Rightarrow> nvec \<Rightarrow> nvec res" where
  "InverseTransformIterative element rootOfUnityInverseTable result =
     (let n = GetLength element; modulus = m_modulus element
      in ebind (ComputeMu modulus) (\<lambda>mu.
         ebind (ForwardTransformIterative element rootOfUnityInverseTable result) (\<lambda>result.
         ebind (ModInverse (of_nat n) modulus) (\<lambda>cycloOrderInv.
           if length (m_data result) < n then Inl OutOfRange
           else let d = for_range 0 n (\<lambda>i d. d[i := ModMulEq_mu (d ! i) cycloOrderInv modulus mu]) (m_data result)
                in Inr (result\<lparr>m_data := d\<rparr>)))))"

section \<open>Facts\<close>

subsection \<open>Butterflies on residues\<close>

abbreviation iu :: "u64 \<Rightarrow> int" where
  "iu x \<equiv> int (unat x)"

lemma ct_butterfly_eq: "ct_butterfly m lo w = (ModAddFast lo w m, ModSubFast lo w m)"
  by (simp add: ct_butterfly_def ModAddFast_def ModSubFast_def Let_def)

lemma gs_butterfly_eq: "gs_butterfly m lo hi = (ModAddFast lo hi m, ModSubFast lo hi m)"
  by (simp add: gs_butterfly_def ModAddFast_def ModSubFast_def Let_def)

lemma ModAddFast_int:
  assumes "head_room m" "unat a < unat m" "unat b < unat m"
  shows "unat (ModAddFast a b m) < unat m" "iu (ModAddFast a b m) mod iu m = (iu a + iu b) mod iu m"
  using assms ModAddFast_correct [of a m b] by (auto simp: head_room_def zmod_int simp del: int_nat_eq)

lemma ModSubFast_int:
  assumes "head_room m" "unat a < unat m" "unat b < unat m"
  shows "unat (ModSubFast a b m) < unat m" "iu (ModSubFast a b m) mod iu m = (iu a - iu b) mod iu m"
proof -
  have e: "unat (ModSubFast a b m) = (unat a + (unat m - unat b)) mod unat m"
    using assms by (simp add: head_room_def ModSubFast_correct)
  show "unat (ModSubFast a b m) < unat m" using assms unfolding e by simp
  have "(iu a + (iu m - iu b)) mod iu m = (iu a - iu b) mod iu m"
  proof -
    have "iu a + (iu m - iu b) = (iu a - iu b) + iu m" by simp
    then show ?thesis by (simp only: mod_add_self2)
  qed
  then show "iu (ModSubFast a b m) mod iu m = (iu a - iu b) mod iu m"
    unfolding e using assms by (simp only: of_nat_mod of_nat_add of_nat_diff less_imp_le mod_mod_trivial)
qed

text \<open>
  What a stage needs of its butterflies: \<open>ct_bf m w f\<close> says that \<open>f\<close> maps reduced
  \<open>lo\<close>, \<open>hi\<close> to the reduced \<open>lo + w hi\<close>, \<open>lo - w hi\<close>, and \<open>gs_bf m v f\<close> that
  it maps them to \<open>lo + hi\<close>, \<open>v (lo - hi)\<close>.
\<close>

definition ct_bf :: "u64 \<Rightarrow> int \<Rightarrow> (u64 \<Rightarrow> u64 \<Rightarrow> u64 \<times> u64) \<Rightarrow> bool" where
  "ct_bf m w f \<longleftrightarrow> (\<forall>lo hi. unat lo < unat m \<longrightarrow> unat hi < unat m \<longrightarrow>
     unat (fst (f lo hi)) < unat m \<and> unat (snd (f lo hi)) < unat m \<and>
     iu (fst (f lo hi)) mod iu m = (iu lo + w * iu hi) mod iu m \<and>
     iu (snd (f lo hi)) mod iu m = (iu lo - w * iu hi) mod iu m)"

definition gs_bf :: "u64 \<Rightarrow> int \<Rightarrow> (u64 \<Rightarrow> u64 \<Rightarrow> u64 \<times> u64) \<Rightarrow> bool" where
  "gs_bf m v f \<longleftrightarrow> (\<forall>lo hi. unat lo < unat m \<longrightarrow> unat hi < unat m \<longrightarrow>
     unat (fst (f lo hi)) < unat m \<and> unat (snd (f lo hi)) < unat m \<and>
     iu (fst (f lo hi)) mod iu m = (iu lo + iu hi) mod iu m \<and>
     iu (snd (f lo hi)) mod iu m = (v * (iu lo - iu hi)) mod iu m)"

text \<open>
  The multiplication by a constant, as the transforms use it: \<open>mulc x w m c\<close> with an auxiliary
  word \<open>c\<close> (the Barrett reciprocal of \<open>m\<close> or the quotient prepared for \<open>w\<close>).
\<close>

locale const_mul =
  fixes ok :: "u64 \<Rightarrow> u64 \<Rightarrow> u64 \<Rightarrow> bool"
    and mulc :: "u64 \<Rightarrow> u64 \<Rightarrow> u64 \<Rightarrow> u64 \<Rightarrow> u64"
  assumes ok_head_room: "ok m w c \<Longrightarrow> head_room m"
    and mulc: "ok m w c \<Longrightarrow> unat x < unat m \<Longrightarrow> unat (mulc x w m c) = unat x * unat w mod unat m"
begin

lemma mulc_int:
  assumes "ok m w c" "unat x < unat m"
  shows "unat (mulc x w m c) < unat m" "iu (mulc x w m c) mod iu m = (iu w * iu x) mod iu m"
proof -
  have m: "0 < unat m" using ok_head_room [OF assms(1)] by (simp add: head_room_def)
  then show "unat (mulc x w m c) < unat m" by (simp add: mulc [OF assms])
  show "iu (mulc x w m c) mod iu m = (iu w * iu x) mod iu m"
    unfolding mulc [OF assms] by (simp only: of_nat_mod of_nat_mult mod_mod_trivial mult.commute)
qed

lemma mulc_zero: "ok m w c \<Longrightarrow> mulc 0 w m c = 0"
  using mulc [of m w c 0] ok_head_room [of m w c] by (simp add: head_room_def unat_eq_0 unat_gt_0)

lemma ct:
  assumes "ok m w c"
  shows "ct_bf m (iu w) (\<lambda>lo hi. ct_butterfly m lo (mulc hi w m c))"
  unfolding ct_bf_def ct_butterfly_eq fst_conv snd_conv
proof (intro allI impI conjI)
  fix lo hi :: u64 assume lh: "unat lo < unat m" "unat hi < unat m"
  note h = ok_head_room [OF assms] and k = mulc_int [OF assms lh(2)]
  show "unat (ModAddFast lo (mulc hi w m c) m) < unat m" "unat (ModSubFast lo (mulc hi w m c) m) < unat m"
    by (intro ModAddFast_int ModSubFast_int h lh k)+
  have "iu (ModAddFast lo (mulc hi w m c) m) mod iu m = (iu lo + iu (mulc hi w m c)) mod iu m"
    by (intro ModAddFast_int h lh k)
  also have "\<dots> = (iu lo + iu w * iu hi) mod iu m" by (intro mod_add_cong refl k)
  finally show "iu (ModAddFast lo (mulc hi w m c) m) mod iu m = (iu lo + iu w * iu hi) mod iu m" .
  have "iu (ModSubFast lo (mulc hi w m c) m) mod iu m = (iu lo - iu (mulc hi w m c)) mod iu m"
    by (intro ModSubFast_int h lh k)
  also have "\<dots> = (iu lo - iu w * iu hi) mod iu m" by (intro mod_diff_cong refl k)
  finally show "iu (ModSubFast lo (mulc hi w m c) m) mod iu m = (iu lo - iu w * iu hi) mod iu m" .
qed

text \<open>Skipping the multiplication of a zero changes nothing on residues.\<close>

lemma ct_skip:
  assumes "ok m w c"
  shows "ct_bf m (iu w) (\<lambda>lo hi. if hi \<noteq> 0 then ct_butterfly m lo (mulc hi w m c) else (lo, lo))"
proof -
  have "ct_butterfly m lo (mulc 0 w m c) = (lo, lo)" if "unat lo < unat m" for lo
    using that by (simp add: mulc_zero [OF assms] ct_butterfly_def word_le_nat_alt)
  then have e: "(if hi \<noteq> 0 then ct_butterfly m lo (mulc hi w m c) else (lo, lo)) = ct_butterfly m lo (mulc hi w m c)"
    if "unat lo < unat m" for lo hi using that by auto
  show ?thesis using ct [OF assms] unfolding ct_bf_def by (simp add: e)
qed

lemma gs:
  assumes "ok m w c"
  shows "gs_bf m (iu w) (\<lambda>lo hi. let (loVal, omegaFactor) = gs_butterfly m lo hi in (loVal, mulc omegaFactor w m c))"
  unfolding gs_bf_def gs_butterfly_eq Let_def prod.case fst_conv snd_conv
proof (intro allI impI conjI)
  fix lo hi :: u64 assume lh: "unat lo < unat m" "unat hi < unat m"
  note h = ok_head_room [OF assms]
  note d = ModSubFast_int [OF h lh]
  note k = mulc_int [OF assms d(1)]
  show "unat (ModAddFast lo hi m) < unat m" "unat (mulc (ModSubFast lo hi m) w m c) < unat m"
    "iu (ModAddFast lo hi m) mod iu m = (iu lo + iu hi) mod iu m"
    by (intro ModAddFast_int h lh k)+
  have "iu (mulc (ModSubFast lo hi m) w m c) mod iu m = (iu w * iu (ModSubFast lo hi m)) mod iu m"
    by (rule k)
  also have "\<dots> = (iu w * (iu lo - iu hi)) mod iu m" by (intro mod_mult_cong refl d)
  finally show "iu (mulc (ModSubFast lo hi m) w m c) mod iu m = (iu w * (iu lo - iu hi)) mod iu m" .
qed

end

interpretation barrett: const_mul "\<lambda>m w c. barrett_modulus m \<and> unat w < unat m \<and> c = mu_of m" ModMulFastEq_mu
  by unfold_locales (auto simp: barrett_head_room ModMulFastEq_mu_eq ModMulFast_mu_reduced unat_mu_of)

interpretation shoup: const_mul "\<lambda>m w c. head_room m \<and> unat w < unat m \<and> c = shoup_of w m" ModMulFastConstEq
  by unfold_locales (auto simp: ModMulFastConstEq_eq head_room_def ModMulFastConst_correct unat_shoup_of)

subsection \<open>The stages refine their specification\<close>

text \<open>\<open>stage_rel m c f e\<close>: the list \<open>e\<close> holds the reduced residues of \<open>c\<close> times \<open>f\<close>.\<close>

definition stage_rel :: "u64 \<Rightarrow> nat \<Rightarrow> int \<Rightarrow> (nat \<Rightarrow> int) \<Rightarrow> u64 list \<Rightarrow> bool" where
  "stage_rel m n c f e \<longleftrightarrow> length e = n \<and>
     (\<forall>p < n. unat (e ! p) < unat m \<and> iu (e ! p) mod iu m = (c * f p) mod iu m)"

lemma stage_relD:
  "stage_rel m n c f e \<Longrightarrow> length e = n"
  "stage_rel m n c f e \<Longrightarrow> p < n \<Longrightarrow> unat (e ! p) < unat m"
  "stage_rel m n c f e \<Longrightarrow> p < n \<Longrightarrow> iu (e ! p) mod iu m = (c * f p) mod iu m"
  by (auto simp: stage_rel_def)

text \<open>Every position below \<open>k * 2t\<close> is in the lower or the upper half of one block.\<close>

lemma block_position:
  fixes p k t :: nat
  assumes "p < k * (2 * t)"
  obtains i j where "i < k" "j < t" "p = i * (2 * t) + j \<or> p = i * (2 * t) + j + t"
proof -
  have t: "0 < t" using assms by (cases t) auto
  define i r where "i = p div (2 * t)" and "r = p mod (2 * t)"
  have p: "p = i * (2 * t) + r" unfolding i_def r_def by (simp only: div_mult_mod_eq)
  have i: "i < k" using assms t by (simp add: i_def less_mult_imp_div_less)
  have r: "r < 2 * t" using t by (simp add: r_def)
  show ?thesis
  proof (cases "r < t")
    case True
    then show ?thesis using p i by (intro that [of i r]) auto
  next
    case False
    then show ?thesis using p i r by (intro that [of i "r - t"]) auto
  qed
qed

lemma ct_stage:
  assumes e: "stage_rel m (2 ^ L) c (ct_spec W L a s) e" and s: "s < L"
    and F: "\<And>i. i < 2 ^ s \<Longrightarrow> ct_bf m (W (2 ^ s + i)) (F i)"
  shows "stage_rel m (2 ^ L) c (ct_spec W L a (Suc s)) (bf_stage F (2 ^ s) (2 ^ (L - Suc s)) e)"
  unfolding stage_rel_def
proof (intro conjI allI impI)
  define t :: nat where "t = 2 ^ (L - Suc s)"
  have N: "2 ^ s * (2 * t) = (2::nat) ^ L" using s unfolding t_def by (simp flip: power_add power_Suc)
  have len: "2 ^ s * (2 * t) \<le> length e" using e N by (simp add: stage_rel_def)
  note r = bf_stage_nth [OF len, where F = F]
  show "length (bf_stage F (2 ^ s) (2 ^ (L - Suc s)) e) = 2 ^ L"
    using r(1) e by (simp add: stage_rel_def t_def)
  fix p :: nat assume "p < 2 ^ L"
  then have "p < 2 ^ s * (2 * t)" by (simp add: N)
  then obtain i j where ij: "i < 2 ^ s" "j < t" "p = i * (2 * t) + j \<or> p = i * (2 * t) + j + t"
    by (rule block_position)
  define lo hi where "lo = i * (2 * t) + j" and "hi = i * (2 * t) + j + t"
  have "i * (2 * t) + (2 * t) \<le> 2 ^ s * (2 * t)" using ij(1) by (metis Suc_leI add.commute mult_Suc mult_le_mono1)
  then have b: "lo < 2 ^ L" "hi < 2 ^ L" using ij(2) N unfolding lo_def hi_def by linarith+
  note x = stage_relD(2,3) [OF e b(1)] stage_relD(2,3) [OF e b(2)]
  note f = F [OF ij(1), unfolded ct_bf_def, rule_format, OF x(1,3)]
  have sp: "ct_spec W L a (Suc s) lo = ct_spec W L a s lo + W (2 ^ s + i) * ct_spec W L a s hi"
    "ct_spec W L a (Suc s) hi = ct_spec W L a s lo - W (2 ^ s + i) * ct_spec W L a s hi"
    using ct_spec_lo [of j L s W a i] ct_spec_hi [of j L s W a i] ij(2) by (simp_all add: lo_def hi_def t_def)
  have wh: "(W (2 ^ s + i) * iu (e ! hi)) mod iu m = (W (2 ^ s + i) * (c * ct_spec W L a s hi)) mod iu m"
    by (intro mod_mult_cong refl x)
  have "(iu (e ! lo) + W (2 ^ s + i) * iu (e ! hi)) mod iu m = (c * ct_spec W L a s lo + W (2 ^ s + i) * (c * ct_spec W L a s hi)) mod iu m"
    "(iu (e ! lo) - W (2 ^ s + i) * iu (e ! hi)) mod iu m = (c * ct_spec W L a s lo - W (2 ^ s + i) * (c * ct_spec W L a s hi)) mod iu m"
    by (intro mod_add_cong mod_diff_cong x wh)+
  then have cs: "(iu (e ! lo) + W (2 ^ s + i) * iu (e ! hi)) mod iu m = (c * ct_spec W L a (Suc s) lo) mod iu m"
    "(iu (e ! lo) - W (2 ^ s + i) * iu (e ! hi)) mod iu m = (c * ct_spec W L a (Suc s) hi) mod iu m"
    unfolding sp by (simp_all add: algebra_simps)
  have rl: "bf_stage F (2 ^ s) t e ! lo = fst (F i (e ! lo) (e ! hi))"
    "bf_stage F (2 ^ s) t e ! hi = snd (F i (e ! lo) (e ! hi))"
    using r(2,3) [OF ij(1,2)] by (simp_all add: lo_def hi_def)
  have "p = lo \<or> p = hi" using ij(3) by (simp add: lo_def hi_def)
  then show "unat (bf_stage F (2 ^ s) (2 ^ (L - Suc s)) e ! p) < unat m"
    "iu (bf_stage F (2 ^ s) (2 ^ (L - Suc s)) e ! p) mod iu m = (c * ct_spec W L a (Suc s) p) mod iu m"
    unfolding t_def [symmetric] using rl f cs by auto
qed

lemma gs_stage:
  assumes e: "stage_rel m (2 ^ L) c (ct_spec W L a (Suc s)) e" and s: "s < L"
    and F: "\<And>i. i < 2 ^ s \<Longrightarrow> gs_bf m (V (2 ^ s + i)) (F i)"
    and VW: "\<And>i. i < 2 ^ s \<Longrightarrow> (V (2 ^ s + i) * W (2 ^ s + i)) mod iu m = 1 mod iu m"
  shows "stage_rel m (2 ^ L) (2 * c) (ct_spec W L a s) (bf_stage F (2 ^ s) (2 ^ (L - Suc s)) e)"
  unfolding stage_rel_def
proof (intro conjI allI impI)
  define t :: nat where "t = 2 ^ (L - Suc s)"
  have N: "2 ^ s * (2 * t) = (2::nat) ^ L" using s unfolding t_def by (simp flip: power_add power_Suc)
  have len: "2 ^ s * (2 * t) \<le> length e" using e N by (simp add: stage_rel_def)
  note r = bf_stage_nth [OF len, where F = F]
  show "length (bf_stage F (2 ^ s) (2 ^ (L - Suc s)) e) = 2 ^ L"
    using r(1) e by (simp add: stage_rel_def t_def)
  fix p :: nat assume "p < 2 ^ L"
  then have "p < 2 ^ s * (2 * t)" by (simp add: N)
  then obtain i j where ij: "i < 2 ^ s" "j < t" "p = i * (2 * t) + j \<or> p = i * (2 * t) + j + t"
    by (rule block_position)
  define lo hi where "lo = i * (2 * t) + j" and "hi = i * (2 * t) + j + t"
  have "i * (2 * t) + (2 * t) \<le> 2 ^ s * (2 * t)" using ij(1) by (metis Suc_leI add.commute mult_Suc mult_le_mono1)
  then have b: "lo < 2 ^ L" "hi < 2 ^ L" using ij(2) N unfolding lo_def hi_def by linarith+
  note x = stage_relD(2,3) [OF e b(1)] stage_relD(2,3) [OF e b(2)]
  note f = F [OF ij(1), unfolded gs_bf_def, rule_format, OF x(1,3)]
  define w v A B where "w = W (2 ^ s + i)" and "v = V (2 ^ s + i)" and "A = ct_spec W L a s lo" and "B = ct_spec W L a s hi"
  have sp: "ct_spec W L a (Suc s) lo = A + w * B" "ct_spec W L a (Suc s) hi = A - w * B"
    using ct_spec_lo [of j L s W a i] ct_spec_hi [of j L s W a i] ij(2)
    by (simp_all add: lo_def hi_def t_def w_def A_def B_def)
  note x2 = x(2) [unfolded sp] x(4) [unfolded sp]
  have "(iu (e ! lo) + iu (e ! hi)) mod iu m = (c * (A + w * B) + c * (A - w * B)) mod iu m"
    by (intro mod_add_cong x2)
  then have s1: "(iu (e ! lo) + iu (e ! hi)) mod iu m = (2 * c * A) mod iu m" by (simp add: algebra_simps)
  have "(v * (iu (e ! lo) - iu (e ! hi))) mod iu m = (v * (c * (A + w * B) - c * (A - w * B))) mod iu m"
    by (intro mod_mult_cong mod_diff_cong refl x2)
  also have "v * (c * (A + w * B) - c * (A - w * B)) = (v * w) * (2 * c * B)" by (simp add: algebra_simps)
  also have "\<dots> mod iu m = (1 * (2 * c * B)) mod iu m"
    unfolding v_def w_def by (intro mod_mult_cong refl VW ij)
  finally have s2: "(v * (iu (e ! lo) - iu (e ! hi))) mod iu m = (2 * c * B) mod iu m" by simp
  have rl: "bf_stage F (2 ^ s) t e ! lo = fst (F i (e ! lo) (e ! hi))"
    "bf_stage F (2 ^ s) t e ! hi = snd (F i (e ! lo) (e ! hi))"
    using r(2,3) [OF ij(1,2)] by (simp_all add: lo_def hi_def)
  have "p = lo \<or> p = hi" using ij(3) by (simp add: lo_def hi_def)
  then show "unat (bf_stage F (2 ^ s) (2 ^ (L - Suc s)) e ! p) < unat m"
    "iu (bf_stage F (2 ^ s) (2 ^ (L - Suc s)) e ! p) mod iu m = (2 * c * ct_spec W L a s p) mod iu m"
    unfolding t_def [symmetric] using rl f s1 s2 by (auto simp: A_def B_def v_def)
qed

subsection \<open>The loops over the stages\<close>

lemma msb_of_power2: "k < 63 \<Longrightarrow> msb_of (2 ^ k) = Suc k"
proof -
  assume "k < 63"
  then have "(2::nat) ^ k < 2 ^ 64" by (intro power_strict_increasing) auto
  then have "unat (of_nat (2 ^ k) :: u64) = 2 ^ k" unfolding unat_of_nat by simp
  then show ?thesis by (simp only: msb_of_def unat_GetMSB bit_len_power2)
qed

text \<open>The forward loop runs the stages \<open>0, \<dots>, k - 1\<close>, each with its stride.\<close>

lemma forward_loop:
  assumes L: "k \<le> L" "0 < L"
    and step: "\<And>s d. s < k \<Longrightarrow> P s d \<Longrightarrow> P (Suc s) (bf_stage (G (2 ^ s)) (2 ^ s) (2 ^ (L - Suc s)) d)"
    and "P 0 d"
  shows "P k (snd (snd (for_dbl 1 (2 ^ k) (\<lambda>m (t, lg, d). (t div 2, lg - 1, bf_loops (G m) m t lg d))
      (2 ^ (L - 1), L, d))))"
proof -
  define st where "st = (\<lambda>s (d :: 'a list). (2 ^ L div 2 ^ Suc s :: nat, L - s, d))"
  define f where "f = (\<lambda>i. \<lambda>(t, lg, d). (t div 2, lg - 1, bf_loops (G (2 ^ i)) (2 ^ i) t lg d))"
  have t: "(2 ^ L div 2 ^ Suc s :: nat) = 2 ^ (L - Suc s)" if "s < L" for s
    using that by (simp add: power_diff)
  have "\<exists>d'. for_range 0 k f (st 0 d) = st k d' \<and> P k d'"
  proof (rule for_range_invariant [where P = "\<lambda>s x. \<exists>d'. x = st s d' \<and> P s d'"])
    show "\<exists>d'. st 0 d = st 0 d' \<and> P 0 d'" using assms(4) by blast
  next
    fix s x assume s: "s < k" and "\<exists>d'. x = st s d' \<and> P s d'"
    then obtain d' where d': "x = st s d'" "P s d'" by blast
    have sL: "s < L" using s L(1) by simp
    have "2 ^ (L - s) = 2 * (2::nat) ^ (L - Suc s)" using sL by (simp add: Suc_diff_Suc flip: power_Suc)
    then have bl: "bf_loops (G (2 ^ s)) (2 ^ s) (2 ^ (L - Suc s)) (L - s) d' = bf_stage (G (2 ^ s)) (2 ^ s) (2 ^ (L - Suc s)) d'"
      by (rule bf_loops_stage)
    have half: "2 ^ L div 2 ^ Suc s div 2 = (2 ^ L div 2 ^ Suc (Suc s) :: nat)"
      by (simp add: div_mult2_eq [symmetric] mult.commute)
    have "f s x = st (Suc s) (bf_stage (G (2 ^ s)) (2 ^ s) (2 ^ (L - Suc s)) d')"
      unfolding d'(1) f_def st_def prod.case t [OF sL] bl by (simp add: half t [OF sL, symmetric] del: power_Suc)
    with step [OF s d'(2)] show "\<exists>d'. f s x = st (Suc s) d' \<and> P (Suc s) d'" by blast
  qed simp
  moreover have "for_dbl 1 (2 ^ k) (\<lambda>m (t, lg, d). (t div 2, lg - 1, bf_loops (G m) m t lg d)) (2 ^ (L - 1), L, d)
    = for_range 0 k f (st 0 d)"
    using for_dbl_range [of 0 k "\<lambda>m (t, lg, d). (t div 2, lg - 1, bf_loops (G m) m t lg d)" "(2 ^ (L - 1), L, d)"] t [of 0] L(2)
    by (simp add: f_def st_def)
  ultimately show ?thesis by (auto simp: st_def)
qed

text \<open>The inverse loop runs the stages \<open>L - 1 - j, \<dots>, h\<close> downwards.\<close>

lemma inverse_loop:
  assumes L: "j + h \<le> L" "b + 1 = 2 ^ h"
    and step: "\<And>s d. h \<le> s \<Longrightarrow> s < L - j \<Longrightarrow> P (Suc s) d \<Longrightarrow> P s (bf_stage (G (2 ^ s)) (2 ^ s) (2 ^ (L - Suc s)) d)"
    and "P (L - j) d"
  shows "P h (snd (snd (for_hlv (2 ^ (L - j) div 2) b (\<lambda>m (t, lg, d). (2 * t, lg + 1, bf_loops (G m) m t lg d))
      (2 ^ j, Suc j, d))))"
proof -
  define k where "k = L - j - h"
  define st where "st = (\<lambda>i (d :: 'a list). (2 ^ (j + i) :: nat, Suc (j + i), d))"
  define f where "f = (\<lambda>i. \<lambda>(t, lg, d). (2 * t, lg + 1, bf_loops (G (2 ^ (L - j - 1 - i))) (2 ^ (L - j - 1 - i)) t lg d))"
  have hk: "h + k = L - j" using L(1) by (simp add: k_def)
  have "\<exists>d'. for_range 0 k f (st 0 d) = st k d' \<and> P (L - j - k) d'"
  proof (rule for_range_invariant [where P = "\<lambda>i x. \<exists>d'. x = st i d' \<and> P (L - j - i) d'"])
    show "\<exists>d'. st 0 d = st 0 d' \<and> P (L - j - 0) d'" using assms(4) by (intro exI [of _ d]) simp
  next
    fix i x assume i: "i < k" and "\<exists>d'. x = st i d' \<and> P (L - j - i) d'"
    then obtain d' where d': "x = st i d'" "P (L - j - i) d'" by blast
    define s where "s = L - j - 1 - i"
    have s: "h \<le> s" "s < L - j" "L - j - i = Suc s" "L - j - Suc i = s" "j + i = L - Suc s"
      using i by (simp_all add: s_def k_def)
    have "bf_loops (G (2 ^ s)) (2 ^ s) (2 ^ (j + i)) (Suc (j + i)) d' = bf_stage (G (2 ^ s)) (2 ^ s) (2 ^ (L - Suc s)) d'"
      by (subst bf_loops_stage) (simp_all add: s(5))
    then have "f i x = st (Suc i) (bf_stage (G (2 ^ s)) (2 ^ s) (2 ^ (L - Suc s)) d')"
      unfolding d'(1) f_def st_def prod.case s_def [symmetric] by simp
    moreover have "P s (bf_stage (G (2 ^ s)) (2 ^ s) (2 ^ (L - Suc s)) d')"
      using step [OF s(1,2)] d'(2) s(3) by simp
    ultimately show "\<exists>d'. f i x = st (Suc i) d' \<and> P (L - j - Suc i) d'" unfolding s(4) by blast
  qed simp
  moreover have "for_hlv (2 ^ (L - j) div 2) b (\<lambda>m (t, lg, d). (2 * t, lg + 1, bf_loops (G m) m t lg d)) (2 ^ j, Suc j, d)
    = for_range 0 k f (st 0 d)"
  proof -
    have "2 ^ h \<le> 2 * b + 1" "b < 2 ^ h" using L(2) by linarith+
    from for_hlv_range [OF this, of k] show ?thesis unfolding hk by (simp add: f_def st_def)
  qed
  moreover have "L - j - k = h" using L(1) by (simp add: k_def)
  ultimately show ?thesis by (auto simp: st_def)
qed

lemma copy_loop:
  "length xs = n \<Longrightarrow> length ys = n \<Longrightarrow> for_range 0 n (\<lambda>i d. d[i := xs ! i]) ys = xs"
proof -
  assume l: "length xs = n" "length ys = n"
  have "for_range 0 k (\<lambda>i d. d[i := xs ! i]) ys = take k xs @ drop k ys" if "k \<le> n" for k
    using that l
  proof (induction k)
    case (Suc k)
    then show ?case
      by (simp add: for_range_Suc list_update_append take_Suc_conv_app_nth Cons_nth_drop_Suc [symmetric])
  qed simp
  with l show ?thesis by simp
qed

lemma update_loop:
  "k \<le> length d \<Longrightarrow> for_range 0 k (\<lambda>i d. d[i := g (d ! i)]) d = map g (take k d) @ drop k d"
proof (induction k)
  case (Suc k)
  then show ?case
    by (simp add: for_range_Suc nth_append list_update_append take_Suc_conv_app_nth Cons_nth_drop_Suc [symmetric])
qed simp

text \<open>A loop over neighbours is a stage of stride one.\<close>

lemma neighbour_stage:
  "for_step 0 (2 * n) 2 (\<lambda>i. bf_at (F i) (i + 0) (i + 1)) d = bf_stage (\<lambda>i. F (2 * i)) n 1 d"
proof -
  have "for_step 0 (2 * n) 2 (\<lambda>i. bf_at (F i) (i + 0) (i + 1)) d
    = for_range 0 n (\<lambda>i. bf_at (F (2 * i)) (i * 2) (i * 2 + 1)) d"
    using for_step_range [of 2 0 n "\<lambda>i. bf_at (F i) (i + 0) (i + 1)" d] by (simp add: mult.commute)
  also have "\<dots> = bf_stage (\<lambda>i. F (2 * i)) n 1 d"
    unfolding bf_stage_def by (intro for_range_cong) (simp add: for_range_Suc)
  finally show ?thesis .
qed

subsection \<open>Forward transforms\<close>

text \<open>The table of the powers of a root of unity, in bit-reversed order.\<close>

definition root_table :: "u64 \<Rightarrow> nat \<Rightarrow> int \<Rightarrow> nvec \<Rightarrow> bool" where
  "root_table m L psi tab \<longleftrightarrow> length (m_data tab) = 2 ^ L \<and>
     (\<forall>i < 2 ^ L. unat (m_data tab ! i) < unat m \<and> iu (m_data tab ! i) mod iu m = psi ^ brv L i mod iu m)"

definition precon_table :: "u64 \<Rightarrow> nvec \<Rightarrow> nvec \<Rightarrow> bool" where
  "precon_table m tab ptab \<longleftrightarrow> length (m_data ptab) = length (m_data tab) \<and>
     (\<forall>i < length (m_data tab). m_data ptab ! i = shoup_of (m_data tab ! i) m)"

abbreviation coeffs :: "nvec \<Rightarrow> nat \<Rightarrow> int" where
  "coeffs v i \<equiv> iu (m_data v ! i)"

text \<open>The values of the input polynomial at the odd powers of \<open>psi\<close>, in bit-reversed order.\<close>

definition ntt_values :: "u64 \<Rightarrow> nat \<Rightarrow> int \<Rightarrow> (nat \<Rightarrow> int) \<Rightarrow> u64 list \<Rightarrow> bool" where
  "ntt_values m L psi a e \<longleftrightarrow> length e = 2 ^ L \<and>
     (\<forall>i < 2 ^ L. unat (e ! i) < unat m \<and> iu (e ! i) mod iu m = peval (2 ^ L) a (psi ^ (1 + 2 * brv L i)) mod iu m)"

lemma root_tableD:
  "root_table m L psi tab \<Longrightarrow> length (m_data tab) = 2 ^ L"
  "root_table m L psi tab \<Longrightarrow> i < 2 ^ L \<Longrightarrow> unat (m_data tab ! i) < unat m"
  "root_table m L psi tab \<Longrightarrow> i < 2 ^ L \<Longrightarrow> coeffs tab i mod iu m = psi ^ brv L i mod iu m"
  by (simp_all add: root_table_def)

lemma stage_index: "s < L \<Longrightarrow> i < 2 ^ s \<Longrightarrow> 2 ^ s + i < (2::nat) ^ L"
proof -
  assume "s < L" "i < 2 ^ s"
  then have "2 ^ s + i < 2 ^ Suc s" by simp
  also have "\<dots> \<le> (2::nat) ^ L" using \<open>s < L\<close> by (intro power_increasing) auto
  finally show ?thesis .
qed

lemma ntt_values_stages:
  assumes "root_table m L psi tab" "psi ^ (2 ^ L) mod iu m = (- 1) mod iu m"
    and "stage_rel m (2 ^ L) 1 (ct_spec (coeffs tab) L a L) e"
  shows "ntt_values m L psi a e"
  unfolding ntt_values_def
proof (intro conjI allI impI)
  fix i :: nat assume i: "i < 2 ^ L"
  have "ct_spec (coeffs tab) L a L i mod iu m = peval (2 ^ L) a (psi ^ (1 + 2 * brv L i)) mod iu m"
    using assms(2) i by (intro ct_spec_final root_tableD [OF assms(1)] stage_index)
  with stage_relD(3) [OF assms(3) i]
  show "iu (e ! i) mod iu m = peval (2 ^ L) a (psi ^ (1 + 2 * brv L i)) mod iu m" by simp
qed (use stage_relD [OF assms(3)] in auto)

lemma stage_rel_input:
  assumes "nv_ok v" "length (m_data v) = 2 ^ L"
  shows "stage_rel (m_modulus v) (2 ^ L) 1 (ct_spec W L (coeffs v) 0) (m_data v)"
  using assms by (simp add: stage_rel_def nv_ok_def reduced_nth)

lemma msb_of_half: "0 < L \<Longrightarrow> L \<le> 32 \<Longrightarrow> msb_of (2 ^ (L - Suc 0)) = L"
  by (cases L) (simp_all add: msb_of_power2)

lemma half_power: "0 < L \<Longrightarrow> 2 ^ L div 2 = (2::nat) ^ (L - Suc 0)"
  by (cases L) simp_all

text \<open>All stages of a forward loop whose butterflies multiply by the table entries.\<close>

lemma forward_stages:
  assumes L: "k \<le> L" "0 < L"
    and F: "\<And>j i. j < k \<Longrightarrow> i < 2 ^ j \<Longrightarrow> ct_bf m (W (2 ^ j + i)) (G (2 ^ j) i)"
    and "stage_rel m (2 ^ L) 1 (ct_spec W L a 0) d"
  shows "stage_rel m (2 ^ L) 1 (ct_spec W L a k)
    (snd (snd (for_dbl 1 (2 ^ k) (\<lambda>m (t, lg, d). (t div 2, lg - 1, bf_loops (G m) m t lg d)) (2 ^ (L - 1), L, d))))"
  using assms(4) L by (intro forward_loop [where P = "\<lambda>s. stage_rel m (2 ^ L) 1 (ct_spec W L a s)"])
    (auto intro!: ct_stage F)

lemma ForwardInPlace_mu_stages:
  assumes v: "nv_ok v" "length (m_data v) = 2 ^ L" "0 < L" "L \<le> 32" and m: "barrett_modulus (m_modulus v)"
    and tab: "root_table (m_modulus v) L psi tab"
  obtains d where "ForwardTransformToBitReverseInPlace_mu tab v = Inr (v\<lparr>m_data := d\<rparr>)"
    "stage_rel (m_modulus v) (2 ^ L) 1 (ct_spec (coeffs tab) L (coeffs v) L) d"
proof -
  let ?m = "m_modulus v"
  define G where "G = (\<lambda>m i loVal hi. ct_butterfly ?m loVal (ModMulFastEq_mu hi (m_data tab ! (m + i)) ?m (mu_of ?m)))"
  define d where "d = snd (snd (for_dbl 1 (2 ^ L) (\<lambda>m (t, lg, d). (t div 2, lg - 1, bf_loops (G m) m t lg d)) (2 ^ (L - 1), L, m_data v)))"
  have "ct_bf ?m (coeffs tab (2 ^ j + i)) (G (2 ^ j) i)" if "j < L" "i < 2 ^ j" for i j
    unfolding G_def using m root_tableD(2) [OF tab stage_index [OF that]] by (intro barrett.ct) simp
  then have "stage_rel ?m (2 ^ L) 1 (ct_spec (coeffs tab) L (coeffs v) L) d"
    unfolding d_def using v by (intro forward_stages stage_rel_input) auto
  moreover have "ForwardTransformToBitReverseInPlace_mu tab v = Inr (v\<lparr>m_data := d\<rparr>)"
    unfolding d_def G_def ForwardTransformToBitReverseInPlace_mu_def
    using v by (simp add: GetLength_def ComputeMu_eq m half_power msb_of_half Let_def split_beta)
  ultimately show ?thesis by (rule that [rotated])
qed

lemma SetModulus_ok: "barrett_modulus m \<Longrightarrow> SetModulus v m = Inr (v\<lparr>m_modulus := m\<rparr>)"
  using barrett_modulus_bit_len(2) [of m] by (simp add: SetModulus_def unat_GetMSB MAX_MODULUS_SIZE_def)

lemma Forward_mu_stages:
  assumes v: "nv_ok v" "length (m_data v) = 2 ^ L" "0 < L" "L \<le> 32" and m: "barrett_modulus (m_modulus v)"
    and tab: "root_table (m_modulus v) L psi tab" and r: "length (m_data r) = 2 ^ L"
  obtains d where "ForwardTransformToBitReverse_mu v tab r = Inr \<lparr>m_modulus = m_modulus v, m_data = d\<rparr>"
    "stage_rel (m_modulus v) (2 ^ L) 1 (ct_spec (coeffs tab) L (coeffs v) L) d"
proof -
  let ?m = "m_modulus v"
  define G where "G = (\<lambda>m i loVal omegaFactor. if omegaFactor \<noteq> 0
    then ct_butterfly ?m loVal (ModMulFastEq_mu omegaFactor (m_data tab ! (m + i)) ?m (mu_of ?m)) else (loVal, loVal))"
  define d where "d = snd (snd (for_dbl 1 (2 ^ L) (\<lambda>m (t, lg, d). (t div 2, lg - 1, bf_loops (G m) m t lg d)) (2 ^ (L - 1), L, m_data v)))"
  have "ct_bf ?m (coeffs tab (2 ^ j + i)) (G (2 ^ j) i)" if "j < L" "i < 2 ^ j" for i j
    unfolding G_def using m root_tableD(2) [OF tab stage_index [OF that]] by (intro barrett.ct_skip) simp
  then have "stage_rel ?m (2 ^ L) 1 (ct_spec (coeffs tab) L (coeffs v) L) d"
    unfolding d_def using v by (intro forward_stages stage_rel_input) auto
  moreover have "ForwardTransformToBitReverse_mu v tab r = Inr \<lparr>m_modulus = m_modulus v, m_data = d\<rparr>"
    unfolding d_def G_def ForwardTransformToBitReverse_mu_def
    using v r copy_loop [OF v(2) r] by (simp add: GetLength_def ComputeMu_eq SetModulus_ok m half_power msb_of_half Let_def split_beta)
  ultimately show ?thesis by (rule that [rotated])
qed

lemma precon_ok:
  assumes "head_room m" "root_table m L psi tab" "precon_table m tab ptab" "i < 2 ^ L"
  shows "head_room m \<and> unat (m_data tab ! i) < unat m \<and> m_data ptab ! i = shoup_of (m_data tab ! i) m"
  using assms by (simp add: root_table_def precon_table_def)

lemma ForwardInPlace_precon_stages:
  assumes v: "nv_ok v" "length (m_data v) = 2 ^ L" "0 < L" "L \<le> 32"
    and tab: "root_table (m_modulus v) L psi tab" "precon_table (m_modulus v) tab ptab"
  obtains d where "ForwardTransformToBitReverseInPlace_precon tab ptab v = v\<lparr>m_data := d\<rparr>"
    "stage_rel (m_modulus v) (2 ^ L) 1 (ct_spec (coeffs tab) L (coeffs v) L) d"
proof -
  let ?m = "m_modulus v"
  have h: "head_room ?m" using v(1) by (simp add: nv_ok_def)
  define B where "B = (\<lambda>k loVal hi. ct_butterfly ?m loVal (ModMulFastConstEq hi (m_data tab ! k) ?m (m_data ptab ! k)))"
  define G where "G = (\<lambda>m i. B (i + m))"
  define d where "d = snd (snd (for_dbl 1 (2 ^ (L - 1)) (\<lambda>m (t, lg, d). (t div 2, lg - 1, bf_loops (G m) m t lg d)) (2 ^ (L - 1), L, m_data v)))"
  define d' where "d' = for_step 0 (2 * 2 ^ (L - 1)) 2 (\<lambda>i. bf_at (B (i div 2 + 2 ^ (L - 1))) (i + 0) (i + 1)) d"
  have bf: "ct_bf ?m (coeffs tab (2 ^ j + i)) (B (2 ^ j + i))" if "j < L" "i < 2 ^ j" for i j
    unfolding B_def by (rule shoup.ct) (rule precon_ok [OF h tab stage_index [OF that]])
  have "stage_rel ?m (2 ^ L) 1 (ct_spec (coeffs tab) L (coeffs v) (L - 1)) d"
    unfolding d_def using v bf by (intro forward_stages stage_rel_input) (auto simp: G_def add.commute)
  then have "stage_rel ?m (2 ^ L) 1 (ct_spec (coeffs tab) L (coeffs v) (Suc (L - 1))) (bf_stage (\<lambda>i. B (2 ^ (L - 1) + i)) (2 ^ (L - 1)) (2 ^ (L - Suc (L - 1))) d)"
    using v(3) bf by (intro ct_stage) auto
  moreover have "bf_stage (\<lambda>i. B (2 ^ (L - 1) + i)) (2 ^ (L - 1)) (2 ^ (L - Suc (L - 1))) d = d'"
    using v(3) unfolding d'_def neighbour_stage [where n = "2 ^ (L - 1)"] by (simp add: add.commute)
  ultimately have "stage_rel ?m (2 ^ L) 1 (ct_spec (coeffs tab) L (coeffs v) L) d'" using v(3) by simp
  moreover have "ForwardTransformToBitReverseInPlace_precon tab ptab v = v\<lparr>m_data := d'\<rparr>"
    unfolding d'_def d_def G_def B_def ForwardTransformToBitReverseInPlace_precon_def
    using v by (simp add: GetLength_def half_power msb_of_half Let_def split_beta)
  ultimately show ?thesis by (rule that [rotated])
qed

lemma Forward_precon_stages:
  assumes v: "nv_ok v" "length (m_data v) = 2 ^ L" "0 < L" "L \<le> 32" and m: "barrett_modulus (m_modulus v)"
    and tab: "root_table (m_modulus v) L psi tab" "precon_table (m_modulus v) tab ptab" and r: "length (m_data r) = 2 ^ L"
  obtains d where "ForwardTransformToBitReverse_precon v tab ptab r = Inr \<lparr>m_modulus = m_modulus v, m_data = d\<rparr>"
    "stage_rel (m_modulus v) (2 ^ L) 1 (ct_spec (coeffs tab) L (coeffs v) L) d"
proof -
  let ?m = "m_modulus v"
  have h: "head_room ?m" using v(1) by (simp add: nv_ok_def)
  define G where "G = (\<lambda>m i loVal omegaFactor. if omegaFactor \<noteq> 0
    then ct_butterfly ?m loVal (ModMulFastConstEq omegaFactor (m_data tab ! (m + i)) ?m (m_data ptab ! (m + i))) else (loVal, loVal))"
  define d where "d = snd (snd (for_dbl 1 (2 ^ L) (\<lambda>m (t, lg, d). (t div 2, lg - 1, bf_loops (G m) m t lg d)) (2 ^ (L - 1), L, m_data v)))"
  have "ct_bf ?m (coeffs tab (2 ^ j + i)) (G (2 ^ j) i)" if "j < L" "i < 2 ^ j" for i j
    unfolding G_def by (rule shoup.ct_skip) (rule precon_ok [OF h tab stage_index [OF that]])
  then have "stage_rel ?m (2 ^ L) 1 (ct_spec (coeffs tab) L (coeffs v) L) d"
    unfolding d_def using v by (intro forward_stages stage_rel_input) auto
  moreover have "ForwardTransformToBitReverse_precon v tab ptab r = Inr \<lparr>m_modulus = m_modulus v, m_data = d\<rparr>"
    unfolding d_def G_def ForwardTransformToBitReverse_precon_def
    using v r copy_loop [OF v(2) r] by (simp add: GetLength_def SetModulus_ok m half_power msb_of_half Let_def split_beta)
  ultimately show ?thesis by (rule that [rotated])
qed

subsection \<open>Inverse transforms\<close>

text \<open>\<open>vtab\<close> is the table of the inverses of the entries of \<open>tab\<close>.\<close>

definition inverse_tables :: "u64 \<Rightarrow> nvec \<Rightarrow> nvec \<Rightarrow> bool" where
  "inverse_tables m tab vtab \<longleftrightarrow> length (m_data vtab) = length (m_data tab) \<and>
     (\<forall>i < length (m_data tab). unat (m_data vtab ! i) < unat m \<and>
        (coeffs vtab i * coeffs tab i) mod iu m = 1 mod iu m)"

text \<open>All stages of an inverse loop; the list gains a factor 2 in each.\<close>

lemma inverse_stages:
  assumes L: "j + h \<le> L" "b + 1 = 2 ^ h"
    and F: "\<And>s i. h \<le> s \<Longrightarrow> s < L - j \<Longrightarrow> i < 2 ^ s \<Longrightarrow> gs_bf m (V (2 ^ s + i)) (G (2 ^ s) i)"
    and VW: "\<And>s i. s < L \<Longrightarrow> i < 2 ^ s \<Longrightarrow> (V (2 ^ s + i) * W (2 ^ s + i)) mod iu m = 1 mod iu m"
    and "stage_rel m (2 ^ L) (2 ^ j) (ct_spec W L a (L - j)) d"
  shows "stage_rel m (2 ^ L) (2 ^ (L - h)) (ct_spec W L a h)
    (snd (snd (for_hlv (2 ^ (L - j) div 2) b (\<lambda>m (t, lg, d). (2 * t, lg + 1, bf_loops (G m) m t lg d)) (2 ^ j, Suc j, d))))"
proof (rule inverse_loop [where P = "\<lambda>s. stage_rel m (2 ^ L) (2 ^ (L - s)) (ct_spec W L a s)"])
  fix s d assume s: "h \<le> s" "s < L - j" and d: "stage_rel m (2 ^ L) (2 ^ (L - Suc s)) (ct_spec W L a (Suc s)) d"
  have "stage_rel m (2 ^ L) (2 * 2 ^ (L - Suc s)) (ct_spec W L a s) (bf_stage (G (2 ^ s)) (2 ^ s) (2 ^ (L - Suc s)) d)"
    by (intro gs_stage [where V = V] d F VW) (use s in auto)
  moreover have "2 * 2 ^ (L - Suc s) = (2 ^ (L - s) :: int)" using s by (simp add: Suc_diff_Suc flip: power_Suc)
  ultimately show "stage_rel m (2 ^ L) (2 ^ (L - s)) (ct_spec W L a s) (bf_stage (G (2 ^ s)) (2 ^ s) (2 ^ (L - Suc s)) d)"
    by simp
qed (use assms in auto)

definition restores :: "u64 \<Rightarrow> nat \<Rightarrow> (nat \<Rightarrow> int) \<Rightarrow> u64 list \<Rightarrow> bool" where
  "restores m n a e \<longleftrightarrow> length e = n \<and> (\<forall>p < n. unat (e ! p) < unat m \<and> iu (e ! p) mod iu m = a p mod iu m)"

text \<open>The final multiplication by the inverse of the length removes the factor.\<close>

lemma scale_cong:
  assumes "iu x mod iu m = (c * y) mod iu m" "(iu k * c) mod iu m = 1 mod iu m"
  shows "(iu k * iu x) mod iu m = y mod iu m"
proof -
  have "(iu k * iu x) mod iu m = (iu k * (c * y)) mod iu m" by (intro mod_mult_cong refl assms)
  also have "iu k * (c * y) = (iu k * c) * y" by simp
  also have "\<dots> mod iu m = (1 * y) mod iu m" by (intro mod_mult_cong refl assms)
  finally show ?thesis by simp
qed

lemma InverseInPlace_mu_restores:
  assumes L: "0 < L" "L \<le> 32" and m: "barrett_modulus (m_modulus v)"
    and tab: "root_table (m_modulus v) L psi tab" "inverse_tables (m_modulus v) tab vtab"
    and k: "unat k < unat (m_modulus v)" "(iu k * 2 ^ L) mod iu (m_modulus v) = 1 mod iu (m_modulus v)"
    and e: "stage_rel (m_modulus v) (2 ^ L) 1 (ct_spec (coeffs tab) L a L) (m_data v)"
  obtains d where "InverseTransformFromBitReverseInPlace_mu vtab k v = Inr (v\<lparr>m_data := d\<rparr>)"
    "restores (m_modulus v) (2 ^ L) a d"
proof -
  let ?m = "m_modulus v"
  have len: "length (m_data tab) = 2 ^ L" using tab(1) by (simp add: root_table_def)
  define G where "G = (\<lambda>m i lo hi. let (loVal, omegaFactor) = gs_butterfly ?m lo hi
    in (loVal, ModMulFastEq_mu omegaFactor (m_data vtab ! (m + i)) ?m (mu_of ?m)))"
  define d where "d = snd (snd (for_hlv (2 ^ L div 2) 0 (\<lambda>m (t, lg, d). (2 * t, lg + 1, bf_loops (G m) m t lg d)) (1, 1, m_data v)))"
  define r where "r = map (\<lambda>x. ModMulFastEq_mu x k ?m (mu_of ?m)) d"
  have bf: "gs_bf ?m (coeffs vtab (2 ^ j + i)) (G (2 ^ j) i)" if "j < L" "i < 2 ^ j" for i j
    unfolding G_def using m tab(2) len stage_index [OF that] by (intro barrett.gs) (simp add: inverse_tables_def)
  have inv: "(coeffs vtab (2 ^ j + i) * coeffs tab (2 ^ j + i)) mod iu ?m = 1 mod iu ?m" if "j < L" "i < 2 ^ j" for i j
    using tab(2) len stage_index [OF that] by (simp add: inverse_tables_def del: int_nat_eq)
  have "stage_rel ?m (2 ^ L) (2 ^ (L - 0)) (ct_spec (coeffs tab) L a 0) d"
    unfolding d_def using inverse_stages [where j = 0 and h = 0 and L = L and b = 0 and d = "m_data v" and a = a
      and W = "coeffs tab" and V = "coeffs vtab" and G = G and m = ?m] bf inv e by simp
  then have d: "stage_rel ?m (2 ^ L) (2 ^ L) a d" by (simp add: stage_rel_def)
  have "restores ?m (2 ^ L) a r"
    unfolding restores_def
  proof (intro conjI allI impI)
    show "length r = 2 ^ L" using stage_relD(1) [OF d] by (simp add: r_def)
    fix p :: nat assume p: "p < 2 ^ L"
    then have rp: "r ! p = ModMulFastEq_mu (d ! p) k ?m (mu_of ?m)"
      using stage_relD(1) [OF d] by (simp add: r_def)
    have ok: "barrett_modulus ?m \<and> unat k < unat ?m \<and> mu_of ?m = mu_of ?m" using m k by simp
    note mk = barrett.mulc_int [OF ok stage_relD(2) [OF d p]]
    show "unat (r ! p) < unat ?m" unfolding rp by (rule mk)
    show "iu (r ! p) mod iu ?m = a p mod iu ?m"
      unfolding rp mk(2) by (rule scale_cong [OF stage_relD(3) [OF d p] k(2)])
  qed
  moreover have "InverseTransformFromBitReverseInPlace_mu vtab k v = Inr (v\<lparr>m_data := r\<rparr>)"
    using update_loop [of "2 ^ L" d "\<lambda>x. ModMulFastEq_mu x k ?m (mu_of ?m)"] stage_relD(1) [OF d] stage_relD(1) [OF e]
    unfolding r_def d_def G_def InverseTransformFromBitReverseInPlace_mu_def
    by (simp add: GetLength_def ComputeMu_eq m Let_def split_beta)
  ultimately show ?thesis by (rule that [rotated])
qed

lemma Inverse_mu_eq:
  assumes "barrett_modulus (m_modulus v)" "length (m_data r) = length (m_data v)"
  shows "InverseTransformFromBitReverse_mu v vtab k r =
    InverseTransformFromBitReverseInPlace_mu vtab k \<lparr>m_modulus = m_modulus v, m_data = m_data v\<rparr>"
  using assms copy_loop [OF refl assms(2)]
  by (cases r) (simp add: InverseTransformFromBitReverse_mu_def GetLength_def SetModulus_ok)

lemma Inverse_precon_eq:
  assumes "barrett_modulus (m_modulus v)" "length (m_data r) = length (m_data v)"
  shows "InverseTransformFromBitReverse_precon v vtab pvtab k pk r =
    InverseTransformFromBitReverseInPlace_precon vtab pvtab k pk \<lparr>m_modulus = m_modulus v, m_data = m_data v\<rparr>"
  using assms copy_loop [OF refl assms(2)]
  by (cases r) (simp add: InverseTransformFromBitReverse_precon_def GetLength_def SetModulus_ok)

text \<open>
  The last stage with the scaling merged in: the lower half is scaled afterwards, the upper half
  is multiplied by \<open>v\<close> times the scaling factor.
\<close>

lemma gs_last_stage:
  assumes e: "stage_rel m (2 ^ L) (2 ^ (L - 1)) (ct_spec W L a 1) e" and L: "0 < L"
    and h: "head_room m" and F: "gs_bf m v1 F" and VW: "(v * W 1) mod iu m = 1 mod iu m"
    and v1: "v1 mod iu m = (v * iu k) mod iu m" and k: "(iu k * 2 ^ L) mod iu m = 1 mod iu m"
    and g: "\<And>x. unat x < unat m \<Longrightarrow> unat (g x) < unat m \<and> iu (g x) mod iu m = (iu k * iu x) mod iu m"
  defines "d \<equiv> for_range 0 (2 ^ (L - 1)) (\<lambda>j. bf_at F j (j + 2 ^ (L - 1))) e"
  shows "restores m (2 ^ L) a (for_range 0 (2 ^ (L - 1)) (\<lambda>i d. d[i := g (d ! i)]) d)"
proof -
  define t :: nat where "t = 2 ^ (L - 1)"
  define c :: int where "c = 2 ^ (L - 1)"
  have N: "2 ^ L = 2 * t" using L by (cases L) (simp_all add: t_def)
  have c2: "2 ^ L = 2 * c" using L by (cases L) (simp_all add: c_def)
  have len: "0 + t + t \<le> length e" using stage_relD(1) [OF e] N by simp
  note b = bf_group_nth [OF len order_refl, where f = "\<lambda>_. F"]
  have bl: "length d = 2 * t" "\<And>j. j < t \<Longrightarrow> d ! j = fst (F (e ! j) (e ! (j + t)))"
    "\<And>j. j < t \<Longrightarrow> d ! (j + t) = snd (F (e ! j) (e ! (j + t)))"
    unfolding d_def t_def [symmetric] using b stage_relD(1) [OF e] N by simp_all
  define r where "r = map g (take t d) @ drop t d"
  have rr: "for_range 0 t (\<lambda>i d. d[i := g (d ! i)]) d = r"
    using bl(1) by (simp add: r_def update_loop)
  have entry: "(unat (r ! j) < unat m \<and> iu (r ! j) mod iu m = a j mod iu m) \<and>
      (unat (r ! (j + t)) < unat m \<and> iu (r ! (j + t)) mod iu m = a (j + t) mod iu m)" if j: "j < t" for j
  proof -
    have p: "j < 2 ^ L" "j + t < 2 ^ L" using j N by simp_all
    note x = stage_relD(2) [OF e p(1)] stage_relD(2) [OF e p(2)]
    note f = F [unfolded gs_bf_def, rule_format, OF x]
    have sp: "ct_spec W L a 1 j = a j + W 1 * a (j + t)" "ct_spec W L a 1 (j + t) = a j - W 1 * a (j + t)"
      using ct_spec_lo [of j L 0 W a 0] ct_spec_hi [of j L 0 W a 0] j by (simp_all add: t_def)
    note y = stage_relD(3) [OF e p(1), unfolded sp, folded c_def] stage_relD(3) [OF e p(2), unfolded sp, folded c_def]
    have "(iu (e ! j) + iu (e ! (j + t))) mod iu m = (c * (a j + W 1 * a (j + t)) + c * (a j - W 1 * a (j + t))) mod iu m"
      by (intro mod_add_cong y)
    then have lo: "iu (d ! j) mod iu m = (2 ^ L * a j) mod iu m"
      using f bl(2) [OF j] by (simp add: c2 algebra_simps)
    have dj: "unat (d ! j) < unat m" using f bl(2) [OF j] by simp
    have rj: "r ! j = g (d ! j)" "r ! (j + t) = d ! (j + t)" using j bl(1) by (simp_all add: r_def nth_append add.commute)
    have 1: "iu (r ! j) mod iu m = a j mod iu m"
      using g [OF dj] scale_cong [OF lo k] by (simp only: rj)
    have "iu (d ! (j + t)) mod iu m = (v1 * (iu (e ! j) - iu (e ! (j + t)))) mod iu m"
      using f bl(3) [OF j] by simp
    also have "\<dots> = ((v * iu k) * (c * (a j + W 1 * a (j + t)) - c * (a j - W 1 * a (j + t)))) mod iu m"
      by (intro mod_mult_cong mod_diff_cong y v1)
    also have "(v * iu k) * (c * (a j + W 1 * a (j + t)) - c * (a j - W 1 * a (j + t)))
      = (v * W 1) * ((iu k * 2 ^ L) * a (j + t))" by (simp add: c2 algebra_simps)
    also have "\<dots> mod iu m = (1 * (1 * a (j + t))) mod iu m" by (intro mod_mult_cong VW k refl)
    finally have 2: "iu (r ! (j + t)) mod iu m = a (j + t) mod iu m" by (simp add: rj)
    show ?thesis using 1 2 g [OF dj] f bl(3) [OF j] by (simp add: rj)
  qed
  have "restores m (2 ^ L) a r"
    unfolding restores_def
  proof (intro conjI allI impI)
    show "length r = 2 ^ L" using bl(1) N by (simp add: r_def)
    fix p :: nat assume "p < 2 ^ L"
    then have "p < t \<or> (p - t < t \<and> p = p - t + t)" using N by auto
    then show "unat (r ! p) < unat m" "iu (r ! p) mod iu m = a p mod iu m"
      using entry [of p] entry [of "p - t"] by auto
  qed
  then show ?thesis using rr by (simp add: t_def)
qed

lemma InverseInPlace_precon_restores:
  assumes L: "0 < L" "L \<le> 32" and h: "head_room (m_modulus v)"
    and tab: "root_table (m_modulus v) L psi tab" "inverse_tables (m_modulus v) tab vtab"
      "precon_table (m_modulus v) vtab pvtab"
    and k: "unat k < unat (m_modulus v)" "(iu k * 2 ^ L) mod iu (m_modulus v) = 1 mod iu (m_modulus v)"
    and pk: "pk = shoup_of k (m_modulus v)"
    and e: "stage_rel (m_modulus v) (2 ^ L) 1 (ct_spec (coeffs tab) L a L) (m_data v)"
  obtains d where "InverseTransformFromBitReverseInPlace_precon vtab pvtab k pk v = Inr (v\<lparr>m_data := d\<rparr>)"
    "restores (m_modulus v) (2 ^ L) a d"
proof -
  let ?m = "m_modulus v"
  let ?n = "2 ^ L :: nat"
  have len: "length (m_data tab) = 2 ^ L" "length (m_data v) = 2 ^ L"
    using tab(1) stage_relD(1) [OF e] by (simp_all add: root_table_def)
  have m0: "0 < unat ?m" using h by (simp add: head_room_def)
  define B where "B = (\<lambda>w c lo hi. let (loVal, omegaFactor) = gs_butterfly ?m lo hi
    in (loVal, ModMulFastConstEq omegaFactor w ?m c))"
  have ok: "head_room ?m \<and> unat (m_data vtab ! i) < unat ?m \<and> m_data pvtab ! i = shoup_of (m_data vtab ! i) ?m"
    if "i < 2 ^ L" for i using tab(2,3) len h that by (simp add: inverse_tables_def precon_table_def)
  have bf: "gs_bf ?m (coeffs vtab i) (B (m_data vtab ! i) (m_data pvtab ! i))" if "i < 2 ^ L" for i
    unfolding B_def by (rule shoup.gs [OF ok [OF that]])
  have inv: "(coeffs vtab i * coeffs tab i) mod iu ?m = 1 mod iu ?m" if "i < 2 ^ L" for i
    using tab(2) len that by (simp add: inverse_tables_def del: int_nat_eq)
  define d1 where "d1 = (if ?n > 2 then for_step 0 ?n 2 (\<lambda>i. bf_at (B (m_data vtab ! ((i + ?n) div 2)) (m_data pvtab ! ((i + ?n) div 2)))
      (i + 0) (i + 1)) (m_data v) else m_data v)"
  define G where "G = (\<lambda>m i. B (m_data vtab ! (i + m)) (m_data pvtab ! (i + m)))"
  define d2 where "d2 = snd (snd (for_hlv (?n div 4) 1 (\<lambda>m (t, lg, d). (2 * t, lg + 1, bf_loops (G m) m t lg d)) (2, 2, d1)))"
  have d2: "stage_rel ?m (2 ^ L) (2 ^ (L - 1)) (ct_spec (coeffs tab) L a 1) d2"
  proof (cases "L = 1")
    case True
    then have "d2 = m_data v" by (simp add: d2_def d1_def for_hlv.simps)
    then show ?thesis using e True by simp
  next
    case False
    then have L2: "2 \<le> L" using L by simp
    define F where "F = (\<lambda>i. B (m_data vtab ! (2 ^ (L - 1) + i)) (m_data pvtab ! (2 ^ (L - 1) + i)))"
    have n2: "?n = 2 * 2 ^ (L - 1)" using L by (cases L) simp_all
    have idx: "(2 * i + ?n) div 2 = 2 ^ (L - 1) + i" for i unfolding n2 by simp
    have "(4::nat) \<le> ?n" using power_increasing [OF L2, of "2::nat"] by simp
    then have "d1 = for_step 0 ?n 2 (\<lambda>i. bf_at (B (m_data vtab ! ((i + ?n) div 2)) (m_data pvtab ! ((i + ?n) div 2)))
      (i + 0) (i + 1)) (m_data v)" unfolding d1_def by simp
    also have "\<dots> = bf_stage F (2 ^ (L - 1)) 1 (m_data v)"
      using neighbour_stage [where n = "2 ^ (L - 1)" and d = "m_data v" and
          F = "\<lambda>i. B (m_data vtab ! ((i + ?n) div 2)) (m_data pvtab ! ((i + ?n) div 2))", folded n2]
      unfolding idx F_def by simp
    finally have d1: "d1 = bf_stage F (2 ^ (L - 1)) (2 ^ (L - Suc (L - 1))) (m_data v)" using L by simp
    have "stage_rel ?m (2 ^ L) (2 * 1) (ct_spec (coeffs tab) L a (L - 1)) d1"
      unfolding d1 using L e bf inv stage_index [of "L - 1" L]
      by (intro gs_stage [where V = "coeffs vtab"]) (auto simp: F_def)
    then have "stage_rel ?m (2 ^ L) (2 ^ (L - 1)) (ct_spec (coeffs tab) L a 1)
      (snd (snd (for_hlv (2 ^ (L - 1) div 2) 1 (\<lambda>m (t, lg, d). (2 * t, lg + 1, bf_loops (G m) m t lg d)) (2 ^ 1, Suc 1, d1))))"
      using L2 bf inv stage_index
      by (intro inverse_stages [where V = "coeffs vtab"]) (auto simp: G_def add.commute)
    moreover have "2 ^ (L - 1) div 2 = ?n div 4" unfolding n2 by simp
    ultimately show ?thesis by (simp add: d2_def numeral_2_eq_2)
  qed
  define w1 where "w1 = ModMulFastConst (m_data vtab ! 1) k ?m pk"
  have L1: "(1::nat) < 2 ^ L" using L(1) by (rule one_less_power [rotated]) simp
  have okk: "head_room ?m \<and> unat k < unat ?m \<and> pk = shoup_of k ?m" using h k pk by simp
  note w1 = shoup.mulc_int [OF okk, unfolded ModMulFastConstEq_eq, OF ok [OF L1, THEN conjunct2, THEN conjunct1], folded w1_def]
  have p1: "PrepModMulConst w1 ?m = Inr (shoup_of w1 ?m)" using m0 w1(1) by (rule PrepModMulConst_eq)
  have bl: "gs_bf ?m (iu w1) (B w1 (shoup_of w1 ?m))"
    unfolding B_def using h w1(1) by (intro shoup.gs) simp
  define r where "r = for_range 0 (2 ^ (L - 1)) (\<lambda>i d. d[i := ModMulFastConstEq (d ! i) k ?m pk])
    (for_range 0 (2 ^ (L - 1)) (\<lambda>j. bf_at (B w1 (shoup_of w1 ?m)) j (j + 2 ^ (L - 1))) d2)"
  have "restores ?m (2 ^ L) a r"
    unfolding r_def
  proof (rule gs_last_stage [OF d2 L(1) h bl inv [OF L1] _ k(2)])
    show "iu w1 mod iu ?m = (coeffs vtab 1 * iu k) mod iu ?m" using w1(2) by (simp only: mult.commute)
    fix x :: u64 assume "unat x < unat ?m"
    then show "unat (ModMulFastConstEq x k ?m pk) < unat ?m \<and> iu (ModMulFastConstEq x k ?m pk) mod iu ?m = (iu k * iu x) mod iu ?m"
      using shoup.mulc_int [OF okk] by blast
  qed
  moreover have "InverseTransformFromBitReverseInPlace_precon vtab pvtab k pk v = Inr (v\<lparr>m_data := r\<rparr>)"
    unfolding r_def d2_def G_def d1_def B_def w1_def InverseTransformFromBitReverseInPlace_precon_def
    using len L p1 [unfolded w1_def] by (simp add: GetLength_def half_power Let_def split_beta)
  ultimately show ?thesis by (rule that [rotated])
qed

end
