(* ===== verification/Ftt.thy ===== *)
theory Ftt
  imports Ntt
begin

text \<open>
  \<open>ChineseRemainderTransformFTTNat\<close> of
  \<open>src/core/include/math/hal/intnat/transformnat-impl.h\<close>: the negacyclic transform with the
  tables cached in six static maps from the modulus. The maps are one record threaded through the
  operations. A wrapper returns the maps and the vector it writes.
\<close>

section \<open>Definitions\<close>

record ftt =
  m_cycloOrderInverseTableByModulus :: "u64 \<rightharpoonup> nvec"
  m_cycloOrderInversePreconTableByModulus :: "u64 \<rightharpoonup> nvec"
  m_rootOfUnityReverseTableByModulus :: "u64 \<rightharpoonup> nvec"
  m_rootOfUnityInverseReverseTableByModulus :: "u64 \<rightharpoonup> nvec"
  m_rootOfUnityPreconReverseTableByModulus :: "u64 \<rightharpoonup> nvec"
  m_rootOfUnityInversePreconReverseTableByModulus :: "u64 \<rightharpoonup> nvec"

definition Reset :: ftt where
  "Reset = \<lparr>m_cycloOrderInverseTableByModulus = Map.empty,
     m_cycloOrderInversePreconTableByModulus = Map.empty,
     m_rootOfUnityReverseTableByModulus = Map.empty,
     m_rootOfUnityInverseReverseTableByModulus = Map.empty,
     m_rootOfUnityPreconReverseTableByModulus = Map.empty,
     m_rootOfUnityInversePreconReverseTableByModulus = Map.empty\<rparr>"

text \<open>\<open>map[key]\<close> of a \<open>std::map\<close> gives the default vector for a missing key.\<close>

definition tab_get :: "(u64 \<rightharpoonup> nvec) \<Rightarrow> u64 \<Rightarrow> nvec" where
  "tab_get M q = (case M q of Some v \<Rightarrow> v | None \<Rightarrow> \<lparr>m_modulus = 0, m_data = []\<rparr>)"

definition vec_at :: "nvec \<Rightarrow> nat \<Rightarrow> u64 res" where
  "vec_at v i = (if i < length (m_data v) then Inr (m_data v ! i) else Inl OutOfRange)"

text \<open>The running powers \<open>x\<close>, \<open>xinv\<close> and the four tables under construction.\<close>

type_synonym root_tables = "u64 \<times> u64 \<times> u64 list \<times> u64 list \<times> u64 list \<times> u64 list"

definition PreCompute_step ::
    "u64 \<Rightarrow> u64 \<Rightarrow> u64 \<Rightarrow> u64 \<Rightarrow> u32 \<Rightarrow> nat \<Rightarrow> root_tables \<Rightarrow> root_tables res" where
  "PreCompute_step rootOfUnity rootOfUnityInverse modulus mu msb i = (\<lambda>(x, xinv, Table, TableI, preconTable, preconTableI).
     ebind (ReverseBits (of_nat i) msb) (\<lambda>iinv.
     ebind (set_at Table (unat iinv) x) (\<lambda>Table.
     ebind (PrepModMulConst x modulus) (\<lambda>px.
     ebind (set_at preconTable (unat iinv) px) (\<lambda>preconTable.
       let x = ModMulEq_mu x rootOfUnity modulus mu in
     ebind (set_at TableI (unat iinv) xinv) (\<lambda>TableI.
     ebind (PrepModMulConst xinv modulus) (\<lambda>pxinv.
     ebind (set_at preconTableI (unat iinv) pxinv) (\<lambda>preconTableI.
       let xinv = ModMulEq_mu xinv rootOfUnityInverse modulus mu in
       Inr (x, xinv, Table, TableI, preconTable, preconTableI)))))))))"

definition PreCompute_coi_step :: "u64 \<Rightarrow> nat \<Rightarrow> u64 \<times> u64 list \<times> u64 list \<Rightarrow> (u64 \<times> u64 list \<times> u64 list) res" where
  "PreCompute_coi_step modulus i = (\<lambda>(coInv, TableCOI, preconTableCOI).
     ebind (ModInverse coInv modulus) (\<lambda>c.
     ebind (set_at TableCOI i c) (\<lambda>TableCOI.
     ebind (PrepModMulConst (TableCOI ! i) modulus) (\<lambda>pc.
     ebind (set_at preconTableCOI i pc) (\<lambda>preconTableCOI.
     ebind (LShiftEq coInv 1) (\<lambda>coInv.
       Inr (coInv, TableCOI, preconTableCOI)))))))"

definition PreCompute :: "u64 \<Rightarrow> u32 \<Rightarrow> u64 \<Rightarrow> ftt \<Rightarrow> ftt res" where
  "PreCompute rootOfUnity cycloOrder modulus st =
     (let ringDim = drop_bit 1 cycloOrder;
          mapSearch = m_rootOfUnityReverseTableByModulus st modulus
      in if (case mapSearch of None \<Rightarrow> True | Some v \<Rightarrow> GetLength v \<noteq> unat ringDim)
         then let msb = GetMSB (ucast (ringDim - 1)); n = unat ringDim; zeros = replicate n 0
          in ebind (ComputeMu modulus) (\<lambda>mu.
             ebind (ModInverse rootOfUnity modulus) (\<lambda>rootOfUnityInverse.
             ebind (efor 0 n (PreCompute_step rootOfUnity rootOfUnityInverse modulus mu msb)
               (1, 1, zeros, zeros, zeros, zeros)) (\<lambda>(x, xinv, Table, TableI, preconTable, preconTableI).
               let st = st\<lparr>m_rootOfUnityReverseTableByModulus :=
                        (m_rootOfUnityReverseTableByModulus st)(modulus \<mapsto> \<lparr>m_modulus = modulus, m_data = Table\<rparr>),
                      m_rootOfUnityInverseReverseTableByModulus :=
                        (m_rootOfUnityInverseReverseTableByModulus st)(modulus \<mapsto> \<lparr>m_modulus = modulus, m_data = TableI\<rparr>),
                      m_rootOfUnityPreconReverseTableByModulus :=
                        (m_rootOfUnityPreconReverseTableByModulus st)(modulus \<mapsto> \<lparr>m_modulus = modulus, m_data = preconTable\<rparr>),
                      m_rootOfUnityInversePreconReverseTableByModulus :=
                        (m_rootOfUnityInversePreconReverseTableByModulus st)(modulus \<mapsto> \<lparr>m_modulus = modulus, m_data = preconTableI\<rparr>)\<rparr>;
                   czeros = replicate (unat msb + 1) 0
               in ebind (efor 0 (unat msb + 1) (PreCompute_coi_step modulus) (1, czeros, czeros))
                    (\<lambda>(coInv, TableCOI, preconTableCOI).
                    Inr (st\<lparr>m_cycloOrderInverseTableByModulus :=
                        (m_cycloOrderInverseTableByModulus st)(modulus \<mapsto> \<lparr>m_modulus = modulus, m_data = TableCOI\<rparr>),
                      m_cycloOrderInversePreconTableByModulus :=
                        (m_cycloOrderInversePreconTableByModulus st)(modulus \<mapsto> \<lparr>m_modulus = modulus, m_data = preconTableCOI\<rparr>)\<rparr>)))))
         else Inr st)"

fun PreCompute_loop :: "u64 list \<Rightarrow> u32 \<Rightarrow> u64 list \<Rightarrow> ftt \<Rightarrow> ftt res" where
  "PreCompute_loop (r # rs) cycloOrder (q # qs) st =
     ebind (PreCompute r cycloOrder q st) (PreCompute_loop rs cycloOrder qs)"
| "PreCompute_loop _ cycloOrder _ st = Inr st"

definition PreCompute_chain :: "u64 list \<Rightarrow> u32 \<Rightarrow> u64 list \<Rightarrow> ftt \<Rightarrow> ftt res" where
  "PreCompute_chain rootOfUnity cycloOrder moduliiChain st =
     (if length rootOfUnity \<noteq> length moduliiChain
      then Inl (OpenFHEError ''size of root of unity and size of moduli chain not of same size'')
      else PreCompute_loop rootOfUnity cycloOrder moduliiChain st)"

definition FTT_ForwardTransformToBitReverseInPlace :: "u64 \<Rightarrow> u32 \<Rightarrow> nvec \<Rightarrow> ftt \<Rightarrow> (ftt \<times> nvec) res" where
  "FTT_ForwardTransformToBitReverseInPlace rootOfUnity cycloOrder element st =
     (if rootOfUnity = 1 \<or> rootOfUnity = 0 then Inr (st, element)
      else let modulus = m_modulus element
       in ebind (PreCompute rootOfUnity cycloOrder modulus st) (\<lambda>st.
            Inr (st, ForwardTransformToBitReverseInPlace_precon
              (tab_get (m_rootOfUnityReverseTableByModulus st) modulus)
              (tab_get (m_rootOfUnityPreconReverseTableByModulus st) modulus) element)))"

definition FTT_ForwardTransformToBitReverse :: "nvec \<Rightarrow> u64 \<Rightarrow> u32 \<Rightarrow> nvec \<Rightarrow> ftt \<Rightarrow> (ftt \<times> nvec) res" where
  "FTT_ForwardTransformToBitReverse element rootOfUnity cycloOrder result st =
     (if rootOfUnity = 1 \<or> rootOfUnity = 0 then Inr (st, element)
      else let modulus = m_modulus element
       in ebind (PreCompute rootOfUnity cycloOrder modulus st) (\<lambda>st.
          ebind (ForwardTransformToBitReverse_precon element
              (tab_get (m_rootOfUnityReverseTableByModulus st) modulus)
              (tab_get (m_rootOfUnityPreconReverseTableByModulus st) modulus) result) (\<lambda>result.
            Inr (st, result))))"

definition FTT_InverseTransformFromBitReverseInPlace :: "u64 \<Rightarrow> u32 \<Rightarrow> nvec \<Rightarrow> ftt \<Rightarrow> (ftt \<times> nvec) res" where
  "FTT_InverseTransformFromBitReverseInPlace rootOfUnity cycloOrder element st =
     (if rootOfUnity = 1 \<or> rootOfUnity = 0 then Inr (st, element)
      else let modulus = m_modulus element
       in ebind (PreCompute rootOfUnity cycloOrder modulus st) (\<lambda>st.
          let msb = unat (GetMSB (ucast (drop_bit 1 cycloOrder - 1))) in
          ebind (vec_at (tab_get (m_cycloOrderInverseTableByModulus st) modulus) msb) (\<lambda>coi.
          ebind (vec_at (tab_get (m_cycloOrderInversePreconTableByModulus st) modulus) msb) (\<lambda>pcoi.
          ebind (InverseTransformFromBitReverseInPlace_precon
              (tab_get (m_rootOfUnityInverseReverseTableByModulus st) modulus)
              (tab_get (m_rootOfUnityInversePreconReverseTableByModulus st) modulus) coi pcoi element) (\<lambda>element.
            Inr (st, element))))))"

definition FTT_InverseTransformFromBitReverse :: "nvec \<Rightarrow> u64 \<Rightarrow> u32 \<Rightarrow> nvec \<Rightarrow> ftt \<Rightarrow> (ftt \<times> nvec) res" where
  "FTT_InverseTransformFromBitReverse element rootOfUnity cycloOrder result st =
     (if rootOfUnity = 1 \<or> rootOfUnity = 0 then Inr (st, element)
      else let modulus = m_modulus element
       in ebind (SetModulus result modulus) (\<lambda>result.
          ebind (PreCompute rootOfUnity cycloOrder modulus st) (\<lambda>st.
          let n = GetLength element in
          if GetLength result < n then Inl OutOfRange
          else
          let result = result\<lparr>m_data := for_range 0 n (\<lambda>i d. d[i := m_data element ! i]) (m_data result)\<rparr>;
              msb = unat (GetMSB (ucast (of_nat n - 1 :: u32))) in
          ebind (vec_at (tab_get (m_cycloOrderInverseTableByModulus st) modulus) msb) (\<lambda>coi.
          ebind (vec_at (tab_get (m_cycloOrderInversePreconTableByModulus st) modulus) msb) (\<lambda>pcoi.
          ebind (InverseTransformFromBitReverseInPlace_precon
              (tab_get (m_rootOfUnityInverseReverseTableByModulus st) modulus)
              (tab_get (m_rootOfUnityInversePreconReverseTableByModulus st) modulus) coi pcoi result) (\<lambda>result.
            Inr (st, result)))))))"

section \<open>Facts\<close>

subsection \<open>PreCompute builds valid tables\<close>

definition tables_ok :: "u64 \<Rightarrow> nat \<Rightarrow> int \<Rightarrow> ftt \<Rightarrow> bool" where
  "tables_ok m L psi st \<longleftrightarrow>
     m_rootOfUnityReverseTableByModulus st m \<noteq> None \<and>
     root_table m L psi (tab_get (m_rootOfUnityReverseTableByModulus st) m) \<and>
     precon_table m (tab_get (m_rootOfUnityReverseTableByModulus st) m) (tab_get (m_rootOfUnityPreconReverseTableByModulus st) m) \<and>
     inverse_tables m (tab_get (m_rootOfUnityReverseTableByModulus st) m) (tab_get (m_rootOfUnityInverseReverseTableByModulus st) m) \<and>
     precon_table m (tab_get (m_rootOfUnityInverseReverseTableByModulus st) m) (tab_get (m_rootOfUnityInversePreconReverseTableByModulus st) m) \<and>
     length (m_data (tab_get (m_cycloOrderInverseTableByModulus st) m)) = Suc L \<and>
     length (m_data (tab_get (m_cycloOrderInversePreconTableByModulus st) m)) = Suc L \<and>
     (\<forall>i \<le> L. unat (m_data (tab_get (m_cycloOrderInverseTableByModulus st) m) ! i) < unat m \<and>
        (coeffs (tab_get (m_cycloOrderInverseTableByModulus st) m) i * 2 ^ i) mod iu m = 1 mod iu m \<and>
        m_data (tab_get (m_cycloOrderInversePreconTableByModulus st) m) ! i =
          shoup_of (m_data (tab_get (m_cycloOrderInverseTableByModulus st) m) ! i) m)"

lemma reduced_bound: "unat a < unat m \<Longrightarrow> unat a < 2 ^ (2 * bit_len (unat m) + 2)"
proof -
  assume "unat a < unat m"
  also have "unat m < 2 ^ bit_len (unat m)" by (rule bit_len_upper)
  also have "\<dots> \<le> (2::nat) ^ (2 * bit_len (unat m) + 2)" by (intro power_increasing) auto
  finally show ?thesis .
qed

lemma ModMulEq_mu_int:
  assumes "barrett_modulus m" "unat a < unat m" "unat b < unat m"
  shows "unat (ModMulEq_mu a b m (mu_of m)) < unat m"
    "iu (ModMulEq_mu a b m (mu_of m)) mod iu m = (iu a * iu b) mod iu m"
proof -
  have m: "0 < unat m" using assms(1) by (simp add: barrett_modulus_def)
  have e: "unat (ModMulEq_mu a b m (mu_of m)) = unat a * unat b mod unat m"
    using ModMul_mu_eq(2) [OF assms(1) unat_mu_of [OF assms(1)] reduced_bound [OF assms(2)] reduced_bound [OF assms(3)]]
      ModMul_correct [OF m, of a b] by simp
  show "unat (ModMulEq_mu a b m (mu_of m)) < unat m" using m by (simp add: e)
  show "iu (ModMulEq_mu a b m (mu_of m)) mod iu m = (iu a * iu b) mod iu m"
    unfolding e by (simp only: of_nat_mod of_nat_mult mod_mod_trivial)
qed

text \<open>A root of \<open>x ^ N + 1\<close> is invertible.\<close>

lemma root_coprime:
  assumes "iu w ^ (2 ^ L) mod iu m = (- 1) mod iu m" "1 < unat m"
  shows "coprime (unat w) (unat m)"
proof (rule coprimeI)
  fix d assume d: "d dvd unat w" "d dvd unat m"
  have "iu m dvd iu w ^ (2 ^ L) - (- 1)" using assms(1) by (simp only: mod_eq_dvd_iff)
  moreover have "int d dvd iu m" using d(2) by (simp only: int_dvd_int_iff)
  ultimately have "int d dvd iu w ^ (2 ^ L) - (- 1)" by (rule dvd_trans [rotated])
  then have "int d dvd iu w ^ (2 ^ L) + 1" by simp
  moreover have "int d dvd iu w ^ (2 ^ L)"
    using d(1) by (meson dvd_power dvd_trans int_dvd_int_iff zero_less_numeral zero_less_power)
  ultimately have "int d dvd 1" by (simp add: dvd_add_right_iff)
  then show "is_unit d" by simp
qed

definition step_inv :: "u64 \<Rightarrow> nat \<Rightarrow> int \<Rightarrow> nat \<Rightarrow> root_tables \<Rightarrow> bool" where
  "step_inv m L psi i = (\<lambda>(x, xi, T, TI, pT, pTI).
     unat x < unat m \<and> iu x mod iu m = psi ^ i mod iu m \<and> unat xi < unat m \<and> (iu xi * iu x) mod iu m = 1 mod iu m \<and>
     length T = 2 ^ L \<and> length TI = 2 ^ L \<and> length pT = 2 ^ L \<and> length pTI = 2 ^ L \<and>
     (\<forall>j < i. unat (T ! brv L j) < unat m \<and> iu (T ! brv L j) mod iu m = psi ^ j mod iu m \<and>
       unat (TI ! brv L j) < unat m \<and> (iu (TI ! brv L j) * iu (T ! brv L j)) mod iu m = 1 mod iu m \<and>
       pT ! brv L j = shoup_of (T ! brv L j) m \<and> pTI ! brv L j = shoup_of (TI ! brv L j) m))"

lemma PreCompute_step_inv:
  assumes m: "barrett_modulus m" and L: "0 < L" "L \<le> 24" and i: "i < 2 ^ L"
    and r: "unat r < unat m" "psi = iu r" and ri: "unat ri < unat m" "(iu ri * iu r) mod iu m = 1 mod iu m"
    and msb: "unat msb = L" and s: "step_inv m L psi i s"
  shows "\<exists>s'. PreCompute_step r ri m (mu_of m) msb i s = Inr s' \<and> step_inv m L psi (Suc i) s'"
proof -
  obtain x xi T TI pT pTI where sx: "s = (x, xi, T, TI, pT, pTI)" by (cases s)
  note s' = s [unfolded sx step_inv_def prod.case]
  have m0: "0 < unat m" using m by (simp add: barrett_modulus_def)
  have "2 ^ L \<le> (2::nat) ^ 24" using L by (intro power_increasing) auto
  then have i32: "unat (of_nat i :: u32) = i" using i by (simp add: unat_of_nat take_bit_nat_eq_self_iff)
  obtain ii where ii: "ReverseBits (of_nat i) msb = Inr ii" "unat ii = brv L i"
    using ReverseBits_correct [of msb "of_nat i"] L msb i32 by auto
  have iL: "brv L i < 2 ^ L" by (rule brv_less)
  have ne: "brv L j \<noteq> brv L i" if "j < i" for j
    using that i brv_inj [of L] by (auto dest!: inj_onD)
  have x: "unat x < unat m" "iu x mod iu m = psi ^ i mod iu m" "unat xi < unat m" "(iu xi * iu x) mod iu m = 1 mod iu m"
    using s' by blast+
  have p: "PrepModMulConst x m = Inr (shoup_of x m)" "PrepModMulConst xi m = Inr (shoup_of xi m)"
    using m0 x by (auto intro!: PrepModMulConst_eq)
  define y yi where "y = ModMulEq_mu x r m (mu_of m)" and "yi = ModMulEq_mu xi ri m (mu_of m)"
  have y: "unat y < unat m" "iu y mod iu m = (iu x * iu r) mod iu m" "unat yi < unat m" "iu yi mod iu m = (iu xi * iu ri) mod iu m"
    unfolding y_def yi_def by (intro ModMulEq_mu_int m x r ri)+
  have "(iu x * iu r) mod iu m = (psi ^ i * psi) mod iu m" unfolding r(2) using x(2) r(2) by (intro mod_mult_cong) simp_all
  then have y1: "iu y mod iu m = psi ^ Suc i mod iu m" using y(2) by (simp add: mult.commute)
  have "(iu yi * iu y) mod iu m = ((iu xi * iu ri) * (iu x * iu r)) mod iu m" by (intro mod_mult_cong y)
  also have "(iu xi * iu ri) * (iu x * iu r) = (iu xi * iu x) * (iu ri * iu r)" by simp
  also have "\<dots> mod iu m = (1 * 1) mod iu m" by (intro mod_mult_cong x ri)
  finally have y2: "(iu yi * iu y) mod iu m = 1 mod iu m" by simp
  have "PreCompute_step r ri m (mu_of m) msb i s = Inr (y, yi, T[brv L i := x], TI[brv L i := xi],
      pT[brv L i := shoup_of x m], pTI[brv L i := shoup_of xi m])"
    using s' iL by (simp add: sx PreCompute_step_def ii set_at_def p y_def yi_def)
  moreover have "step_inv m L psi (Suc i) (y, yi, T[brv L i := x], TI[brv L i := xi],
      pT[brv L i := shoup_of x m], pTI[brv L i := shoup_of xi m])"
    unfolding step_inv_def prod.case using s' y y1 y2 x iL by (auto simp: less_Suc_eq ne ne [symmetric])
  ultimately show ?thesis by blast
qed

lemma root_tables_built:
  assumes s: "step_inv m L psi (2 ^ L) (x, xi, T, TI, pT, pTI)"
  shows "root_table m L psi \<lparr>m_modulus = m, m_data = T\<rparr>"
    "precon_table m \<lparr>m_modulus = m, m_data = T\<rparr> \<lparr>m_modulus = m', m_data = pT\<rparr>"
    "inverse_tables m \<lparr>m_modulus = m, m_data = T\<rparr> \<lparr>m_modulus = m, m_data = TI\<rparr>"
    "precon_table m \<lparr>m_modulus = m, m_data = TI\<rparr> \<lparr>m_modulus = m', m_data = pTI\<rparr>"
proof -
  note s' = s [unfolded step_inv_def prod.case]
  have len: "length T = 2 ^ L" "length TI = 2 ^ L" "length pT = 2 ^ L" "length pTI = 2 ^ L" using s' by blast+
  have k: "unat (T ! k) < unat m \<and> iu (T ! k) mod iu m = psi ^ brv L k mod iu m \<and>
       unat (TI ! k) < unat m \<and> (iu (TI ! k) * iu (T ! k)) mod iu m = 1 mod iu m \<and>
       pT ! k = shoup_of (T ! k) m \<and> pTI ! k = shoup_of (TI ! k) m" if "k < 2 ^ L" for k
    using s' [THEN conjunct2, THEN conjunct2, THEN conjunct2, THEN conjunct2, THEN conjunct2, THEN conjunct2, THEN conjunct2, THEN conjunct2, rule_format, OF brv_less [of L k]]
    unfolding brv_brv [OF that] .
  show "root_table m L psi \<lparr>m_modulus = m, m_data = T\<rparr>" unfolding root_table_def nvec.simps using len k by blast
  show "precon_table m \<lparr>m_modulus = m, m_data = T\<rparr> \<lparr>m_modulus = m', m_data = pT\<rparr>"
    "inverse_tables m \<lparr>m_modulus = m, m_data = T\<rparr> \<lparr>m_modulus = m, m_data = TI\<rparr>"
    "precon_table m \<lparr>m_modulus = m, m_data = TI\<rparr> \<lparr>m_modulus = m', m_data = pTI\<rparr>"
    unfolding precon_table_def inverse_tables_def nvec.simps len using k by blast+
qed

definition coi_inv :: "u64 \<Rightarrow> nat \<Rightarrow> nat \<Rightarrow> u64 \<times> u64 list \<times> u64 list \<Rightarrow> bool" where
  "coi_inv m L i = (\<lambda>(c, T, pT). unat c = 2 ^ i \<and> length T = Suc L \<and> length pT = Suc L \<and>
     (\<forall>j < i. unat (T ! j) < unat m \<and> (iu (T ! j) * 2 ^ j) mod iu m = 1 mod iu m \<and> pT ! j = shoup_of (T ! j) m))"

lemma PreCompute_coi_inv:
  assumes m: "1 < unat m" "unat m < 2 ^ 63" "odd (unat m)" and i: "i < Suc L" "L \<le> 24" and s: "coi_inv m L i s"
  shows "\<exists>s'. PreCompute_coi_step m i s = Inr s' \<and> coi_inv m L (Suc i) s'"
proof -
  obtain c T pT where sx: "s = (c, T, pT)" by (cases s)
  note s' = s [unfolded sx coi_inv_def prod.case]
  have c: "unat c = 2 ^ i" using s' by blast
  have "coprime (unat c) (unat m)" unfolding c using m(3) by simp
  then obtain r where r: "ModInverse c m = Inr r" "unat r < unat m" "unat r * unat c mod unat m = 1"
    by (rule ModInverse_correct [OF m(1,2)])
  have p: "PrepModMulConst r m = Inr (shoup_of r m)" using m(1) r(2) by (intro PrepModMulConst_eq) auto
  have r1: "(iu r * 2 ^ i) mod iu m = 1 mod iu m"
  proof -
    have "int (unat r * unat c mod unat m) = 1" using r(3) by simp
    then have "(iu r * 2 ^ i) mod iu m = 1" by (simp only: of_nat_mod of_nat_mult c of_nat_power of_nat_numeral)
    moreover have "1 mod iu m = 1" using m(1) by (intro mod_pos_pos_trivial) linarith+
    ultimately show ?thesis by simp
  qed
  have "2 ^ i * 2 < (2::nat) ^ 64"
  proof -
    have "2 ^ Suc i < (2::nat) ^ 64" using i by (intro power_strict_increasing) auto
    then show ?thesis by simp
  qed
  then have c2: "unat (push_bit 1 c) = 2 ^ Suc i" by (simp only: unat_push_bit c) simp
  have "PreCompute_coi_step m i s = Inr (push_bit 1 c, T[i := r], pT[i := shoup_of r m])"
    using s' i r p by (simp add: sx PreCompute_coi_step_def set_at_def LShiftEq_def MaxBits_def)
  moreover have "coi_inv m L (Suc i) (push_bit 1 c, T[i := r], pT[i := shoup_of r m])"
    unfolding coi_inv_def prod.case c2 using s' r r1 i by (auto simp: less_Suc_eq nth_list_update)
  ultimately show ?thesis by blast
qed

text \<open>
  The parameters under which the transform is defined: the ring dimension is \<open>2 ^ L\<close>, the
  modulus odd and in the range of the Barrett reduction, and \<open>r\<close> a root of \<open>x ^ (2 ^ L) + 1\<close>.
\<close>

definition ntt_params :: "u64 \<Rightarrow> u64 \<Rightarrow> u32 \<Rightarrow> nat \<Rightarrow> bool" where
  "ntt_params m r cycloOrder L \<longleftrightarrow> barrett_modulus m \<and> odd (unat m) \<and> 0 < L \<and> L \<le> 24 \<and>
     unat cycloOrder = 2 ^ Suc L \<and> unat r < unat m \<and> iu r ^ (2 ^ L) mod iu m = (- 1) mod iu m"

lemma ntt_paramsD:
  assumes "ntt_params m r cycloOrder L"
  shows "unat (drop_bit 1 cycloOrder) = 2 ^ L" "unat (GetMSB (ucast (drop_bit 1 cycloOrder - 1))) = L"
    "1 < unat m" "unat m < 2 ^ 63" "head_room m"
proof -
  show u: "unat (drop_bit 1 cycloOrder) = 2 ^ L"
    using assms by (simp only: unat_drop_bit ntt_params_def) simp
  have "1 \<le> drop_bit 1 cycloOrder" using u by (simp add: word_le_nat_alt del: drop_bit_eq_div)
  then have "unat (drop_bit 1 cycloOrder - 1) = 2 ^ L - 1" by (simp only: unat_sub u unat_1)
  moreover have "(2::nat) ^ L - 1 < 2 ^ 64"
    using assms power_increasing [of L 24 "2::nat"] by (simp add: ntt_params_def)
  ultimately have "unat (ucast (drop_bit 1 cycloOrder - 1) :: u64) = 2 ^ L - 1"
    by (simp only: unsigned_ucast_eq take_bit_nat_eq_self_iff len_of_numeral_defs) (simp add: take_bit_nat_eq_self_iff)
  then show "unat (GetMSB (ucast (drop_bit 1 cycloOrder - 1))) = L"
    by (simp only: unat_GetMSB bit_len_power2_minus_1)
  show "1 < unat m" "unat m < 2 ^ 63" "head_room m"
    using assms by (auto simp: ntt_params_def barrett_modulus_def head_room_def)
qed

lemma PreCompute_cached:
  assumes "tables_ok m L psi st" "unat (drop_bit 1 cycloOrder) = 2 ^ L"
  shows "PreCompute r cycloOrder m st = Inr st"
  using assms by (auto simp: PreCompute_def tables_ok_def root_table_def tab_get_def GetLength_def Let_def
      split: option.splits simp del: drop_bit_eq_div)

lemma PreCompute_builds:
  assumes p: "ntt_params m r cycloOrder L"
    and new: "case m_rootOfUnityReverseTableByModulus st m of None \<Rightarrow> True | Some v \<Rightarrow> GetLength v \<noteq> 2 ^ L"
  obtains st' where "PreCompute r cycloOrder m st = Inr st'" "tables_ok m L (iu r) st'"
    "\<And>q psi K. q \<noteq> m \<Longrightarrow> tables_ok q K psi st' = tables_ok q K psi st"
proof -
  have m: "barrett_modulus m" "odd (unat m)" and L: "0 < L" "L \<le> 24" and r: "unat r < unat m"
    and root: "iu r ^ (2 ^ L) mod iu m = (- 1) mod iu m" using p by (simp_all add: ntt_params_def del: int_nat_eq)
  note d = ntt_paramsD [OF p]
  obtain ri where ri: "ModInverse r m = Inr ri" "unat ri < unat m" "unat ri * unat r mod unat m = 1"
    by (rule ModInverse_correct [OF d(3,4) root_coprime [OF root d(3)]])
  have one: "1 mod iu m = 1" using d(3) by (intro mod_pos_pos_trivial) linarith+
  have ri1: "(iu ri * iu r) mod iu m = 1 mod iu m"
  proof -
    have "int (unat ri * unat r mod unat m) = 1" using ri(3) by simp
    then show ?thesis unfolding one by (simp only: of_nat_mod of_nat_mult)
  qed
  have z: "step_inv m L (iu r) 0 (1, 1, replicate (2 ^ L) 0, replicate (2 ^ L) 0, replicate (2 ^ L) 0, replicate (2 ^ L) 0)"
    using d(3) by (simp add: step_inv_def)
  have "\<exists>s'. efor 0 (2 ^ L) (PreCompute_step r ri m (mu_of m) (GetMSB (ucast (drop_bit 1 cycloOrder - 1))))
      (1, 1, replicate (2 ^ L) 0, replicate (2 ^ L) 0, replicate (2 ^ L) 0, replicate (2 ^ L) 0) = Inr s' \<and>
    step_inv m L (iu r) (2 ^ L) s'"
  proof (rule efor_Inr [where P = "step_inv m L (iu r)"])
    fix i s assume "i < 2 ^ L" "step_inv m L (iu r) i s"
    then show "\<exists>s'. PreCompute_step r ri m (mu_of m) (GetMSB (ucast (drop_bit 1 cycloOrder - 1))) i s = Inr s' \<and> step_inv m L (iu r) (Suc i) s'"
      by (intro PreCompute_step_inv [OF m(1) L _ r refl ri(2) ri1 d(2)])
  qed (simp, rule z)
  then obtain x xi T TI pT pTI where
    e1: "efor 0 (2 ^ L) (PreCompute_step r ri m (mu_of m) (GetMSB (ucast (drop_bit 1 cycloOrder - 1))))
      (1, 1, replicate (2 ^ L) 0, replicate (2 ^ L) 0, replicate (2 ^ L) 0, replicate (2 ^ L) 0) = Inr (x, xi, T, TI, pT, pTI)"
    and si: "step_inv m L (iu r) (2 ^ L) (x, xi, T, TI, pT, pTI)" by auto
  have "\<exists>s'. efor 0 (Suc L) (PreCompute_coi_step m) (1, replicate (Suc L) 0, replicate (Suc L) 0) = Inr s' \<and> coi_inv m L (Suc L) s'"
  proof (rule efor_Inr [where P = "coi_inv m L"])
    fix i s assume "i < Suc L" "coi_inv m L i s"
    then show "\<exists>s'. PreCompute_coi_step m i s = Inr s' \<and> coi_inv m L (Suc i) s'"
      by (intro PreCompute_coi_inv [OF d(3,4) m(2) _ L(2)])
  qed (simp_all add: coi_inv_def)
  then obtain c C pC where
    e2: "efor 0 (Suc L) (PreCompute_coi_step m) (1, replicate (Suc L) 0, replicate (Suc L) 0) = Inr (c, C, pC)"
    and ci: "coi_inv m L (Suc L) (c, C, pC)" by auto
  define V where "V = (\<lambda>l. \<lparr>m_modulus = m, m_data = l\<rparr>)"
  define st' where "st' = st\<lparr>m_rootOfUnityReverseTableByModulus := (m_rootOfUnityReverseTableByModulus st)(m \<mapsto> V T),
    m_rootOfUnityInverseReverseTableByModulus := (m_rootOfUnityInverseReverseTableByModulus st)(m \<mapsto> V TI),
    m_rootOfUnityPreconReverseTableByModulus := (m_rootOfUnityPreconReverseTableByModulus st)(m \<mapsto> V pT),
    m_rootOfUnityInversePreconReverseTableByModulus := (m_rootOfUnityInversePreconReverseTableByModulus st)(m \<mapsto> V pTI),
    m_cycloOrderInverseTableByModulus := (m_cycloOrderInverseTableByModulus st)(m \<mapsto> V C),
    m_cycloOrderInversePreconTableByModulus := (m_cycloOrderInversePreconTableByModulus st)(m \<mapsto> V pC)\<rparr>"
  have "PreCompute r cycloOrder m st = Inr st'"
    using new d(1,2) e1 e2 ri(1) unfolding PreCompute_def st'_def V_def
    by (simp add: ComputeMu_eq m Let_def split: option.splits del: drop_bit_eq_div)
  moreover have "tables_ok m L (iu r) st'"
    using root_tables_built(1,3) [OF si] root_tables_built(2,4) [OF si, of m] ci
    unfolding tables_ok_def st'_def V_def by (simp add: tab_get_def coi_inv_def less_Suc_eq_le del: int_nat_eq)
  moreover have "tables_ok q K psi st' = tables_ok q K psi st" if "q \<noteq> m" for q psi K
    using that by (simp add: tables_ok_def st'_def tab_get_def)
  ultimately show ?thesis by (rule that)
qed

text \<open>Whatever the caches hold for other moduli, after a call the tables for this one are valid.\<close>

lemma PreCompute_tables:
  assumes p: "ntt_params m r cycloOrder L"
    and "m_rootOfUnityReverseTableByModulus st m = None \<or> tables_ok m L (iu r) st"
  obtains st' where "PreCompute r cycloOrder m st = Inr st'" "tables_ok m L (iu r) st'"
    "\<And>q psi K. q \<noteq> m \<Longrightarrow> tables_ok q K psi st' = tables_ok q K psi st"
proof (cases "m_rootOfUnityReverseTableByModulus st m")
  case None
  have "case m_rootOfUnityReverseTableByModulus st m of None \<Rightarrow> True | Some v \<Rightarrow> GetLength v \<noteq> 2 ^ L"
    by (simp add: None)
  then show ?thesis by (rule PreCompute_builds [OF p _ that])
next
  case (Some v)
  then have "tables_ok m L (iu r) st" using assms(2) by simp
  then show ?thesis by (intro that [of st] PreCompute_cached [OF _ ntt_paramsD(1) [OF p]] refl)
qed

subsection \<open>The transforms through the caches\<close>

lemma residue_eqI: "iu x mod iu m = iu y mod iu m \<Longrightarrow> unat x < unat m \<Longrightarrow> unat y < unat m \<Longrightarrow> x = (y :: u64)"
  by (simp only: of_nat_mod [symmetric] of_nat_eq_iff mod_less word_unat_eq_iff)

lemma ntt_values_unique:
  assumes "ntt_values m L psi a e" "ntt_values m L psi b f"
    and "\<And>i. i < 2 ^ L \<Longrightarrow> peval (2 ^ L) a (psi ^ (1 + 2 * brv L i)) mod iu m = peval (2 ^ L) b (psi ^ (1 + 2 * brv L i)) mod iu m"
  shows "e = f"
proof (rule nth_equalityI)
  show "length e = length f" using assms(1,2) by (simp add: ntt_values_def)
  fix i assume "i < length e"
  then have i: "i < 2 ^ L" using assms(1) by (simp add: ntt_values_def)
  have "iu (e ! i) mod iu m = iu (f ! i) mod iu m" "unat (e ! i) < unat m" "unat (f ! i) < unat m"
    using assms(3) [OF i] assms(1,2) i by (auto simp only: ntt_values_def)
  then show "e ! i = f ! i" by (rule residue_eqI)
qed

lemma restores_unique:
  assumes "restores m n a e" "length xs = n" "\<And>i. i < n \<Longrightarrow> unat (xs ! i) < unat m \<and> iu (xs ! i) mod iu m = a i mod iu m"
  shows "e = xs"
proof (rule nth_equalityI)
  show "length e = length xs" using assms by (simp add: restores_def)
  fix i assume "i < length e"
  then have i: "i < n" using assms(1) by (simp add: restores_def)
  have "iu (e ! i) mod iu m = iu (xs ! i) mod iu m" "unat (e ! i) < unat m" "unat (xs ! i) < unat m"
    using assms(3) [OF i] assms(1) i by (auto simp only: restores_def)
  then show "e ! i = xs ! i" by (rule residue_eqI)
qed

lemma params_not_trivial:
  assumes "ntt_params m r cycloOrder L"
  shows "r \<noteq> 0" "r \<noteq> 1"
proof -
  have root: "iu r ^ (2 ^ L) mod iu m = (- 1) mod iu m" and m4: "4 \<le> unat m"
    using assms by (simp_all add: ntt_params_def barrett_modulus_def del: int_nat_eq)
  have "iu m dvd iu r ^ (2 ^ L) - (- 1)" using root by (simp only: mod_eq_dvd_iff)
  moreover have "\<not> iu m dvd int 1" "\<not> iu m dvd int 2"
    using m4 unfolding int_dvd_int_iff by (auto dest: dvd_imp_le)
  ultimately show "r \<noteq> 0" "r \<noteq> 1" by (auto simp: zero_power)
qed

text \<open>The caches either have nothing for the modulus or the tables of this root.\<close>

definition cache_ok :: "u64 \<Rightarrow> nat \<Rightarrow> u64 \<Rightarrow> ftt \<Rightarrow> bool" where
  "cache_ok m L r st \<longleftrightarrow> m_rootOfUnityReverseTableByModulus st m = None \<or> tables_ok m L (iu r) st"

lemma PreCompute_ok:
  assumes "ntt_params m r cycloOrder L" "cache_ok m L r st"
  shows "\<exists>st'. PreCompute r cycloOrder m st = Inr st' \<and> tables_ok m L (iu r) st'"
  by (rule PreCompute_tables [OF assms(1) assms(2) [unfolded cache_ok_def]]) (intro exI conjI)

definition ntt_vec :: "u64 \<Rightarrow> nat \<Rightarrow> nvec \<Rightarrow> bool" where
  "ntt_vec m L v \<longleftrightarrow> m_modulus v = m \<and> nv_ok v \<and> length (m_data v) = 2 ^ L"

lemma tables_okD:
  assumes "tables_ok m L psi st"
  shows "root_table m L psi (tab_get (m_rootOfUnityReverseTableByModulus st) m)"
    "precon_table m (tab_get (m_rootOfUnityReverseTableByModulus st) m) (tab_get (m_rootOfUnityPreconReverseTableByModulus st) m)"
    "inverse_tables m (tab_get (m_rootOfUnityReverseTableByModulus st) m) (tab_get (m_rootOfUnityInverseReverseTableByModulus st) m)"
    "precon_table m (tab_get (m_rootOfUnityInverseReverseTableByModulus st) m) (tab_get (m_rootOfUnityInversePreconReverseTableByModulus st) m)"
    "vec_at (tab_get (m_cycloOrderInverseTableByModulus st) m) L = Inr (m_data (tab_get (m_cycloOrderInverseTableByModulus st) m) ! L)"
    "vec_at (tab_get (m_cycloOrderInversePreconTableByModulus st) m) L = Inr (shoup_of (m_data (tab_get (m_cycloOrderInverseTableByModulus st) m) ! L) m)"
    "unat (m_data (tab_get (m_cycloOrderInverseTableByModulus st) m) ! L) < unat m"
    "(coeffs (tab_get (m_cycloOrderInverseTableByModulus st) m) L * 2 ^ L) mod iu m = 1 mod iu m"
  using assms unfolding tables_ok_def vec_at_def by (simp_all del: int_nat_eq)

lemma ntt_values_length: "ntt_values m L psi a d \<Longrightarrow> length d = 2 ^ L"
  by (simp add: ntt_values_def)

lemma FTT_ForwardInPlace_values:
  assumes p: "ntt_params m r cycloOrder L" and v: "ntt_vec m L v" and c: "cache_ok m L r st"
  obtains st' d where "FTT_ForwardTransformToBitReverseInPlace r cycloOrder v st = Inr (st', v\<lparr>m_data := d\<rparr>)"
    "tables_ok m L (iu r) st'" "ntt_values m L (iu r) (coeffs v) d"
proof -
  obtain st' where st': "PreCompute r cycloOrder m st = Inr st'" "tables_ok m L (iu r) st'"
    using PreCompute_ok [OF p c] by blast
  have v': "nv_ok v" "length (m_data v) = 2 ^ L" "0 < L" "L \<le> 32" "m_modulus v = m"
    using v p by (simp_all add: ntt_vec_def ntt_params_def)
  have root: "iu r ^ (2 ^ L) mod iu m = (- 1) mod iu m" using p unfolding ntt_params_def by blast
  note t = tables_okD [OF st'(2)]
  obtain d where d: "ForwardTransformToBitReverseInPlace_precon (tab_get (m_rootOfUnityReverseTableByModulus st') m)
      (tab_get (m_rootOfUnityPreconReverseTableByModulus st') m) v = v\<lparr>m_data := d\<rparr>"
    "stage_rel m (2 ^ L) 1 (ct_spec (coeffs (tab_get (m_rootOfUnityReverseTableByModulus st') m)) L (coeffs v) L) d"
    by (rule ForwardInPlace_precon_stages [OF v'(1-4), unfolded v'(5), OF t(1,2)])
  show ?thesis
    using params_not_trivial [OF p] st' d v'(5)
    by (intro that [of st' d] ntt_values_stages [OF t(1) root])
      (simp_all add: FTT_ForwardTransformToBitReverseInPlace_def)
qed

lemma FTT_Forward_values:
  assumes p: "ntt_params m r cycloOrder L" and v: "ntt_vec m L v" and c: "cache_ok m L r st"
    and res: "length (m_data w) = 2 ^ L"
  obtains st' d where "FTT_ForwardTransformToBitReverse v r cycloOrder w st = Inr (st', v\<lparr>m_data := d\<rparr>)"
    "tables_ok m L (iu r) st'" "ntt_values m L (iu r) (coeffs v) d"
proof -
  obtain st' where st': "PreCompute r cycloOrder m st = Inr st'" "tables_ok m L (iu r) st'"
    using PreCompute_ok [OF p c] by blast
  have v': "nv_ok v" "length (m_data v) = 2 ^ L" "0 < L" "L \<le> 32" "m_modulus v = m" and bm: "barrett_modulus m"
    using v p by (simp_all add: ntt_vec_def ntt_params_def)
  have root: "iu r ^ (2 ^ L) mod iu m = (- 1) mod iu m" using p unfolding ntt_params_def by blast
  note t = tables_okD [OF st'(2)]
  obtain d where d: "ForwardTransformToBitReverse_precon v (tab_get (m_rootOfUnityReverseTableByModulus st') m)
      (tab_get (m_rootOfUnityPreconReverseTableByModulus st') m) w = Inr \<lparr>m_modulus = m, m_data = d\<rparr>"
    "stage_rel m (2 ^ L) 1 (ct_spec (coeffs (tab_get (m_rootOfUnityReverseTableByModulus st') m)) L (coeffs v) L) d"
    by (rule Forward_precon_stages [OF v'(1-4), unfolded v'(5), OF bm t(1,2) res])
  have "v\<lparr>m_data := d\<rparr> = \<lparr>m_modulus = m, m_data = d\<rparr>" using v'(5) by (cases v) simp
  then show ?thesis
    using params_not_trivial [OF p] st' d v'(5)
    by (intro that [of st' d] ntt_values_stages [OF t(1) root])
      (simp_all add: FTT_ForwardTransformToBitReverse_def)
qed

text \<open>From the values back to the stages, where the inverse starts.\<close>

lemma stages_ntt_values:
  assumes "root_table m L psi tab" "psi ^ (2 ^ L) mod iu m = (- 1) mod iu m" "ntt_values m L psi a e"
  shows "stage_rel m (2 ^ L) 1 (ct_spec (coeffs tab) L a L) e"
  unfolding stage_rel_def
proof (intro conjI allI impI)
  fix i :: nat assume i: "i < 2 ^ L"
  have "ct_spec (coeffs tab) L a L i mod iu m = peval (2 ^ L) a (psi ^ (1 + 2 * brv L i)) mod iu m"
    using assms(2) i by (intro ct_spec_final root_tableD [OF assms(1)] stage_index)
  then show "iu (e ! i) mod iu m = (1 * ct_spec (coeffs tab) L a L i) mod iu m"
    using assms(3) i unfolding ntt_values_def by simp
qed (use assms(3) in \<open>auto simp: ntt_values_def\<close>)

lemma FTT_InverseInPlace_restores:
  assumes p: "ntt_params m r cycloOrder L" and v: "m_modulus v = m" "ntt_values m L (iu r) a (m_data v)"
    and c: "cache_ok m L r st"
  obtains st' d where "FTT_InverseTransformFromBitReverseInPlace r cycloOrder v st = Inr (st', v\<lparr>m_data := d\<rparr>)"
    "tables_ok m L (iu r) st'" "restores m (2 ^ L) a d"
proof -
  obtain st' where st': "PreCompute r cycloOrder m st = Inr st'" "tables_ok m L (iu r) st'"
    using PreCompute_ok [OF p c] by blast
  have L: "0 < L" "L \<le> 32" and root: "iu r ^ (2 ^ L) mod iu m = (- 1) mod iu m"
    using p unfolding ntt_params_def by auto
  note t = tables_okD [OF st'(2)]
  obtain d where d: "InverseTransformFromBitReverseInPlace_precon (tab_get (m_rootOfUnityInverseReverseTableByModulus st') m)
      (tab_get (m_rootOfUnityInversePreconReverseTableByModulus st') m)
      (m_data (tab_get (m_cycloOrderInverseTableByModulus st') m) ! L)
      (shoup_of (m_data (tab_get (m_cycloOrderInverseTableByModulus st') m) ! L) m) v = Inr (v\<lparr>m_data := d\<rparr>)"
    "restores m (2 ^ L) a d"
    by (rule InverseInPlace_precon_restores [OF L, where v = v, unfolded v(1), OF ntt_paramsD(5) [OF p] t(1,3,4,7,8) refl
          stages_ntt_values [OF t(1) root v(2)]])
  show ?thesis
    using params_not_trivial [OF p] st' d t(5,6) v(1) ntt_paramsD(2) [OF p]
    by (intro that [of st' d])
      (simp_all add: FTT_InverseTransformFromBitReverseInPlace_def Let_def del: drop_bit_eq_div)
qed

lemma FTT_Inverse_eq:
  assumes p: "ntt_params m r cycloOrder L" and v: "m_modulus v = m" "length (m_data v) = 2 ^ L"
    and w: "length (m_data w) = 2 ^ L" and c: "cache_ok m L r st"
  shows "FTT_InverseTransformFromBitReverse v r cycloOrder w st = FTT_InverseTransformFromBitReverseInPlace r cycloOrder v st"
proof -
  obtain st' where st': "PreCompute r cycloOrder m st = Inr st'"
    using PreCompute_ok [OF p c] by blast
  have bm: "barrett_modulus m" and L: "L \<le> 24" using p by (simp_all add: ntt_params_def)
  have "2 ^ L \<le> (2::nat) ^ 24" using L by (intro power_increasing) auto
  then have "of_nat (2 ^ L) = drop_bit 1 cycloOrder"
    using ntt_paramsD(1) [OF p] by (metis word_of_unat_eq)
  then have msb: "unat (GetMSB (ucast (of_nat (2 ^ L) - 1 :: u32))) = L"
    using ntt_paramsD(2) [OF p] by (simp only:)
  show ?thesis
    using params_not_trivial [OF p] st' v w copy_loop [OF v(2) w] msb ntt_paramsD(2) [OF p]
    by (cases w; cases v) (simp add: FTT_InverseTransformFromBitReverse_def FTT_InverseTransformFromBitReverseInPlace_def
        SetModulus_ok [OF bm] GetLength_def Let_def del: drop_bit_eq_div of_nat_power)
qed

subsection \<open>Round trip and product\<close>

lemma restores_coeffs: "ntt_vec m L v \<Longrightarrow> restores m (2 ^ L) (coeffs v) d \<Longrightarrow> d = m_data v"
  by (rule restores_unique) (auto simp: ntt_vec_def nv_ok_def reduced_nth)

lemma inverse_of_forward:
  assumes p: "ntt_params m r cycloOrder L" and v: "ntt_vec m L v" and c: "cache_ok m L r st"
  shows "\<exists>st1 w st2. FTT_ForwardTransformToBitReverseInPlace r cycloOrder v st = Inr (st1, w) \<and>
    FTT_InverseTransformFromBitReverseInPlace r cycloOrder w st1 = Inr (st2, v)"
proof -
  obtain st1 d where 1: "FTT_ForwardTransformToBitReverseInPlace r cycloOrder v st = Inr (st1, v\<lparr>m_data := d\<rparr>)"
    "tables_ok m L (iu r) st1" "ntt_values m L (iu r) (coeffs v) d"
    by (rule FTT_ForwardInPlace_values [OF p v c])
  obtain st2 d2 where 2: "FTT_InverseTransformFromBitReverseInPlace r cycloOrder (v\<lparr>m_data := d\<rparr>) st1
      = Inr (st2, v\<lparr>m_data := d\<rparr>\<lparr>m_data := d2\<rparr>)" "restores m (2 ^ L) (coeffs v) d2"
    by (rule FTT_InverseInPlace_restores [OF p, where v = "v\<lparr>m_data := d\<rparr>" and a = "coeffs v" and st = st1])
      (use 1 v in \<open>auto simp: ntt_vec_def cache_ok_def\<close>)
  have "d2 = m_data v" by (rule restores_coeffs [OF v 2(2)])
  with 1(1) 2(1) show ?thesis by auto
qed

text \<open>The entrywise product of two transforms is the transform of the negacyclic product.\<close>

lemma ntt_values_mult:
  assumes p: "ntt_params m r cycloOrder L"
    and a: "ntt_values m L (iu r) a (m_data x)" and b: "ntt_values m L (iu r) b (m_data y)"
    and xy: "m_modulus x = m" "m_modulus y = m"
  obtains z where "vModMul x y = Inr z" "m_modulus z = m" "ntt_values m L (iu r) (negacyclic (2 ^ L) a b) (m_data z)"
proof -
  have bm: "barrett_modulus m" and root: "iu r ^ (2 ^ L) mod iu m = (- 1) mod iu m"
    using p unfolding ntt_params_def by auto
  have red: "nv_ok x" "nv_ok y" "same_params x y" "length (m_data x) = 2 ^ L"
    using a b xy barrett_head_room [OF bm]
    by (auto simp: nv_ok_def same_params_def ntt_values_def intro!: reducedI)
  define z where "z = vec_map2 (\<lambda>m x y. ModMulFast_mu x y m (mu_of m)) x y"
  have z: "vModMul x y = Inr z" using vec_binop_eqs(3) [OF red(3)] bm xy by (simp add: z_def)
  note mz = mul.vec_map2 [OF _ red(1-3), unfolded xy, OF bm, folded z_def]
  have "ntt_values m L (iu r) (negacyclic (2 ^ L) a b) (m_data z)"
    unfolding ntt_values_def
  proof (intro conjI allI impI)
    show "length (m_data z) = 2 ^ L" using mz(2) red(4) by (simp add: same_params_def)
    fix i :: nat assume i: "i < 2 ^ L"
    define w where "w = iu r ^ (1 + 2 * brv L i)"
    have iz: "unat (m_data z ! i) = unat (m_data x ! i) * unat (m_data y ! i) mod unat m"
      using mz(3) [of i] i red(4) by simp
    show "unat (m_data z ! i) < unat m" unfolding iz using ntt_paramsD(3) [OF p] by simp
    have w: "w ^ (2 ^ L) mod iu m = (- 1) mod iu m"
    proof -
      have "w ^ (2 ^ L) = (iu r ^ (2 ^ L)) ^ (1 + 2 * brv L i)"
        unfolding w_def by (simp only: power_mult [symmetric] mult.commute)
      also have "\<dots> mod iu m = (- 1) ^ (1 + 2 * brv L i) mod iu m" by (rule power_mod_cong [OF root])
      also have "(- 1 :: int) ^ (1 + 2 * brv L i) = - 1" by simp
      finally show ?thesis .
    qed
    have "iu (m_data z ! i) mod iu m = (coeffs x i * coeffs y i) mod iu m"
      unfolding iz by (simp only: of_nat_mod of_nat_mult mod_mod_trivial)
    also have "\<dots> = (peval (2 ^ L) a w * peval (2 ^ L) b w) mod iu m"
      using a b i unfolding ntt_values_def w_def by (intro mod_mult_cong) auto
    also have "\<dots> = peval (2 ^ L) (negacyclic (2 ^ L) a b) w mod iu m"
      by (rule negacyclic_eval [OF w, symmetric])
    finally show "iu (m_data z ! i) mod iu m = peval (2 ^ L) (negacyclic (2 ^ L) a b) (iu r ^ (1 + 2 * brv L i)) mod iu m"
      by (simp only: w_def)
  qed
  with z mz(2) xy show ?thesis by (intro that [of z]) (auto simp: same_params_def)
qed

lemma multiply_by_transform:
  assumes p: "ntt_params m r cycloOrder L" and v: "ntt_vec m L v" "ntt_vec m L w" and c: "cache_ok m L r st"
  shows "\<exists>st1 x st2 y z st3 u.
    FTT_ForwardTransformToBitReverseInPlace r cycloOrder v st = Inr (st1, x) \<and>
    FTT_ForwardTransformToBitReverseInPlace r cycloOrder w st1 = Inr (st2, y) \<and>
    vModMul x y = Inr z \<and>
    FTT_InverseTransformFromBitReverseInPlace r cycloOrder z st2 = Inr (st3, u) \<and>
    m_modulus u = m \<and> restores m (2 ^ L) (negacyclic (2 ^ L) (coeffs v) (coeffs w)) (m_data u)"
proof -
  have vm: "m_modulus v = m" "m_modulus w = m" using v by (simp_all add: ntt_vec_def)
  obtain st1 d where 1: "FTT_ForwardTransformToBitReverseInPlace r cycloOrder v st = Inr (st1, v\<lparr>m_data := d\<rparr>)"
    "tables_ok m L (iu r) st1" "ntt_values m L (iu r) (coeffs v) d"
    by (rule FTT_ForwardInPlace_values [OF p v(1) c])
  have c1: "cache_ok m L r st1" using 1(2) by (simp add: cache_ok_def)
  obtain st2 e where 2: "FTT_ForwardTransformToBitReverseInPlace r cycloOrder w st1 = Inr (st2, w\<lparr>m_data := e\<rparr>)"
    "tables_ok m L (iu r) st2" "ntt_values m L (iu r) (coeffs w) e"
    by (rule FTT_ForwardInPlace_values [OF p v(2) c1])
  have c2: "cache_ok m L r st2" using 2(2) by (simp add: cache_ok_def)
  obtain z where z: "vModMul (v\<lparr>m_data := d\<rparr>) (w\<lparr>m_data := e\<rparr>) = Inr z" "m_modulus z = m"
    "ntt_values m L (iu r) (negacyclic (2 ^ L) (coeffs v) (coeffs w)) (m_data z)"
    by (rule ntt_values_mult [OF p, where x = "v\<lparr>m_data := d\<rparr>" and y = "w\<lparr>m_data := e\<rparr>"]) (use 1 2 vm in simp_all)
  obtain st3 u where u: "FTT_InverseTransformFromBitReverseInPlace r cycloOrder z st2 = Inr (st3, z\<lparr>m_data := u\<rparr>)"
    "restores m (2 ^ L) (negacyclic (2 ^ L) (coeffs v) (coeffs w)) u"
    by (rule FTT_InverseInPlace_restores [OF p z(2,3) c2])
  show ?thesis using 1(1) 2(1) z(1,2) u by (intro exI conjI) (assumption | simp)+
qed

section \<open>Properties\<close>

lemma params_17: "ntt_params 17 2 8 2"
  by (simp add: ntt_params_def barrett_modulus_def)

lemma vec_17: "ntt_vec 17 2 \<lparr>m_modulus = 17, m_data = [1, 2, 3, 4]\<rparr>"
  by (simp add: ntt_vec_def nv_ok_def head_room_def reduced_def)

lemma Reset_cache_ok: "cache_ok m L r Reset"
  by (simp add: cache_ok_def Reset_def)

text \<open>
  C32. The inverse transform undoes the forward one: for a ring dimension \<open>2 ^ L\<close>, an odd modulus
  in the Barrett range and a root \<open>r\<close> of \<open>x ^ (2 ^ L) + 1\<close>, transforming a reduced vector
  in place and transforming the result back through the caches returns the vector, whatever tables of
  other moduli the caches hold.
\<close>

theorem ntt_round_trip:
  assumes "ntt_params m r cycloOrder L" "ntt_vec m L v" "cache_ok m L r st"
  shows "\<exists>st1 w st2. FTT_ForwardTransformToBitReverseInPlace r cycloOrder v st = Inr (st1, w) \<and>
    FTT_InverseTransformFromBitReverseInPlace r cycloOrder w st1 = Inr (st2, v)"
  by (rule inverse_of_forward [OF assms])

theorem ntt_round_trip_witness:
  "\<exists>st1 w st2. FTT_ForwardTransformToBitReverseInPlace 2 8 \<lparr>m_modulus = 17, m_data = [1, 2, 3, 4]\<rparr> Reset = Inr (st1, w) \<and>
    FTT_InverseTransformFromBitReverseInPlace 2 8 w st1 = Inr (st2, \<lparr>m_modulus = 17, m_data = [1, 2, 3, 4]\<rparr>)"
  by (rule ntt_round_trip [OF params_17 vec_17 Reset_cache_ok])

text \<open>
  C1. Multiplication through the transform: transforming two polynomials, multiplying the results entry
  by entry and transforming back gives the coefficients of their product modulo \<open>x ^ (2 ^ L) + 1\<close>
  and modulo \<open>m\<close>, all reduced.
\<close>

theorem ntt_multiplies_polynomials:
  assumes "ntt_params m r cycloOrder L" "ntt_vec m L v" "ntt_vec m L w" "cache_ok m L r st"
  shows "\<exists>st1 x st2 y z st3 u.
    FTT_ForwardTransformToBitReverseInPlace r cycloOrder v st = Inr (st1, x) \<and>
    FTT_ForwardTransformToBitReverseInPlace r cycloOrder w st1 = Inr (st2, y) \<and>
    vModMul x y = Inr z \<and>
    FTT_InverseTransformFromBitReverseInPlace r cycloOrder z st2 = Inr (st3, u) \<and>
    m_modulus u = m \<and> restores m (2 ^ L) (negacyclic (2 ^ L) (coeffs v) (coeffs w)) (m_data u)"
  by (rule multiply_by_transform [OF assms])

theorem ntt_multiplies_polynomials_witness:
  "\<exists>st1 x st2 y z st3 u.
    FTT_ForwardTransformToBitReverseInPlace 2 8 \<lparr>m_modulus = 17, m_data = [1, 2, 3, 4]\<rparr> Reset = Inr (st1, x) \<and>
    FTT_ForwardTransformToBitReverseInPlace 2 8 \<lparr>m_modulus = 17, m_data = [1, 2, 3, 4]\<rparr> st1 = Inr (st2, y) \<and>
    vModMul x y = Inr z \<and>
    FTT_InverseTransformFromBitReverseInPlace 2 8 z st2 = Inr (st3, u) \<and>
    m_modulus u = 17 \<and> restores 17 (2 ^ 2) (negacyclic (2 ^ 2) (coeffs \<lparr>m_modulus = 17, m_data = [1, 2, 3, 4]\<rparr>)
      (coeffs \<lparr>m_modulus = 17, m_data = [1, 2, 3, 4]\<rparr>)) (m_data u)"
  by (rule ntt_multiplies_polynomials [OF params_17 vec_17 vec_17 Reset_cache_ok])

text \<open>
  What the forward transform computes: the out-of-place transform through the caches returns, in
  bit-reversed order, the values of the input polynomial at the odd powers of the root of unity, and
  leaves tables of that root in the cache.
\<close>

theorem ntt_forward_values:
  assumes "ntt_params m r cycloOrder L" "ntt_vec m L v" "cache_ok m L r st" "length (m_data w) = 2 ^ L"
  shows "\<exists>st' d. FTT_ForwardTransformToBitReverse v r cycloOrder w st = Inr (st', v\<lparr>m_data := d\<rparr>) \<and>
    cache_ok m L r st' \<and> length d = 2 ^ L \<and>
    (\<forall>i < 2 ^ L. unat (d ! i) < unat m \<and>
       iu (d ! i) mod iu m = peval (2 ^ L) (coeffs v) (iu r ^ (1 + 2 * brv L i)) mod iu m)"
  using FTT_Forward_values [OF assms] unfolding ntt_values_def cache_ok_def by metis

theorem ntt_forward_values_witness:
  "\<exists>st' d. FTT_ForwardTransformToBitReverse \<lparr>m_modulus = 17, m_data = [1, 2, 3, 4]\<rparr> 2 8
      \<lparr>m_modulus = 17, m_data = [0, 0, 0, 0]\<rparr> Reset = Inr (st', \<lparr>m_modulus = 17, m_data = d\<rparr>) \<and> length d = 4"
  using ntt_forward_values [OF params_17 vec_17 Reset_cache_ok, of "\<lparr>m_modulus = 17, m_data = [0, 0, 0, 0]\<rparr>"] by auto

lemma stage_rel_unique:
  assumes "stage_rel m n c f d" "stage_rel m n c f e"
  shows "d = e"
proof (rule nth_equalityI)
  show "length d = length e" using assms by (simp add: stage_rel_def)
  fix i assume "i < length d"
  then have i: "i < n" using assms(1) by (simp add: stage_rel_def)
  show "d ! i = e ! i"
    using stage_relD(3) [OF assms(1) i] stage_relD(3) [OF assms(2) i]
    by (intro residue_eqI [of _ m] stage_relD(2) [OF assms(1) i] stage_relD(2) [OF assms(2) i]) (simp only:)
qed

text \<open>
  The four codings of the forward transform agree: with the Barrett reduction or with prepared
  quotients, in place (with the last stage peeled off in the second) or into another vector (skipping
  the multiplication of zeros), they write the same entries.
\<close>

theorem forward_variants_agree:
  assumes "nv_ok v" "length (m_data v) = 2 ^ L" "0 < L" "L \<le> 32" "barrett_modulus (m_modulus v)"
    and "root_table (m_modulus v) L psi tab" "precon_table (m_modulus v) tab ptab" "length (m_data w) = 2 ^ L"
  shows "\<exists>u. ForwardTransformToBitReverseInPlace_mu tab v = Inr u \<and>
    ForwardTransformToBitReverse_mu v tab w = Inr u \<and>
    ForwardTransformToBitReverseInPlace_precon tab ptab v = u \<and>
    ForwardTransformToBitReverse_precon v tab ptab w = Inr u"
proof -
  obtain a where a: "ForwardTransformToBitReverseInPlace_mu tab v = Inr (v\<lparr>m_data := a\<rparr>)"
    "stage_rel (m_modulus v) (2 ^ L) 1 (ct_spec (coeffs tab) L (coeffs v) L) a"
    by (rule ForwardInPlace_mu_stages [OF assms(1-6)])
  obtain b where b: "ForwardTransformToBitReverse_mu v tab w = Inr \<lparr>m_modulus = m_modulus v, m_data = b\<rparr>"
    "stage_rel (m_modulus v) (2 ^ L) 1 (ct_spec (coeffs tab) L (coeffs v) L) b"
    by (rule Forward_mu_stages [OF assms(1-6,8)])
  obtain c where c: "ForwardTransformToBitReverseInPlace_precon tab ptab v = v\<lparr>m_data := c\<rparr>"
    "stage_rel (m_modulus v) (2 ^ L) 1 (ct_spec (coeffs tab) L (coeffs v) L) c"
    by (rule ForwardInPlace_precon_stages [OF assms(1-4,6,7)])
  obtain d where d: "ForwardTransformToBitReverse_precon v tab ptab w = Inr \<lparr>m_modulus = m_modulus v, m_data = d\<rparr>"
    "stage_rel (m_modulus v) (2 ^ L) 1 (ct_spec (coeffs tab) L (coeffs v) L) d"
    by (rule Forward_precon_stages [OF assms(1-8)])
  have "v\<lparr>m_data := a\<rparr> = \<lparr>m_modulus = m_modulus v, m_data = a\<rparr>" by (cases v) simp
  moreover have "b = a" "c = a" "d = a" using a(2) b(2) c(2) d(2) stage_rel_unique by metis+
  ultimately show ?thesis using a(1) b(1) c(1) d(1) by simp
qed

theorem forward_variants_agree_witness:
  "\<exists>u. ForwardTransformToBitReverseInPlace_mu \<lparr>m_modulus = 17, m_data = [1, 4]\<rparr> \<lparr>m_modulus = 17, m_data = [3, 5]\<rparr> = Inr u \<and>
    ForwardTransformToBitReverse_mu \<lparr>m_modulus = 17, m_data = [3, 5]\<rparr> \<lparr>m_modulus = 17, m_data = [1, 4]\<rparr> \<lparr>m_modulus = 17, m_data = [0, 0]\<rparr> = Inr u \<and>
    ForwardTransformToBitReverseInPlace_precon \<lparr>m_modulus = 17, m_data = [1, 4]\<rparr>
      \<lparr>m_modulus = 17, m_data = [shoup_of 1 17, shoup_of 4 17]\<rparr> \<lparr>m_modulus = 17, m_data = [3, 5]\<rparr> = u \<and>
    ForwardTransformToBitReverse_precon \<lparr>m_modulus = 17, m_data = [3, 5]\<rparr> \<lparr>m_modulus = 17, m_data = [1, 4]\<rparr>
      \<lparr>m_modulus = 17, m_data = [shoup_of 1 17, shoup_of 4 17]\<rparr> \<lparr>m_modulus = 17, m_data = [0, 0]\<rparr> = Inr u"
  using forward_variants_agree [of "\<lparr>m_modulus = 17, m_data = [3, 5]\<rparr>" 1 4 "\<lparr>m_modulus = 17, m_data = [1, 4]\<rparr>"
      "\<lparr>m_modulus = 17, m_data = [shoup_of 1 17, shoup_of 4 17]\<rparr>" "\<lparr>m_modulus = 17, m_data = [0, 0]\<rparr>"]
  by (auto simp: nv_ok_def head_room_def reduced_def barrett_modulus_def root_table_def precon_table_def
      less_2_cases_iff All_less_Suc)

text \<open>
  The caches are keyed by the modulus and the length only: once they hold the tables of a root
  \<open>psi\<close> for a modulus and a ring dimension, a transform asked for with another root of unity
  computes the values at the powers of \<open>psi\<close>.
\<close>

theorem cached_root_wins:
  assumes "tables_ok m L psi st" "psi ^ (2 ^ L) mod iu m = (- 1) mod iu m" "ntt_vec m L v" "0 < L" "L \<le> 24"
    and "unat cycloOrder = 2 ^ Suc L" "r \<noteq> 0" "r \<noteq> 1"
  shows "\<exists>d. FTT_ForwardTransformToBitReverseInPlace r cycloOrder v st = Inr (st, v\<lparr>m_data := d\<rparr>) \<and>
    ntt_values m L psi (coeffs v) d"
proof -
  have v: "nv_ok v" "length (m_data v) = 2 ^ L" "m_modulus v = m" using assms(3) by (simp_all add: ntt_vec_def)
  note t = tables_okD [OF assms(1)]
  have "unat (drop_bit 1 cycloOrder) = 2 ^ L" using assms(6) by (simp only: unat_drop_bit) simp
  then have pc: "PreCompute r cycloOrder m st = Inr st" by (rule PreCompute_cached [OF assms(1)])
  have "L \<le> 32" using assms(5) by simp
  then obtain d where d: "ForwardTransformToBitReverseInPlace_precon (tab_get (m_rootOfUnityReverseTableByModulus st) m)
      (tab_get (m_rootOfUnityPreconReverseTableByModulus st) m) v = v\<lparr>m_data := d\<rparr>"
    "stage_rel m (2 ^ L) 1 (ct_spec (coeffs (tab_get (m_rootOfUnityReverseTableByModulus st) m)) L (coeffs v) L) d"
    by (rule ForwardInPlace_precon_stages [OF v(1,2) assms(4), unfolded v(3), OF _ t(1,2)])
  show ?thesis using assms(7,8) pc d(1) v(3) ntt_values_stages [OF t(1) assms(2) d(2)]
    by (intro exI [of _ d]) (simp add: FTT_ForwardTransformToBitReverseInPlace_def)
qed

theorem cached_root_wins_witness:
  "\<exists>st d. PreCompute 2 8 17 Reset = Inr st \<and>
    FTT_ForwardTransformToBitReverseInPlace 8 8 \<lparr>m_modulus = 17, m_data = [1, 2, 3, 4]\<rparr> st
      = Inr (st, \<lparr>m_modulus = 17, m_data = d\<rparr>) \<and>
    ntt_values 17 2 2 (coeffs \<lparr>m_modulus = 17, m_data = [1, 2, 3, 4]\<rparr>) d"
proof -
  obtain st where st: "PreCompute 2 8 17 Reset = Inr st" "tables_ok 17 2 2 st"
    using PreCompute_ok [OF params_17 Reset_cache_ok] by auto
  show ?thesis using st(1) cached_root_wins [OF st(2) _ vec_17, of 8 8] by simp
qed

end
