(* ===== verification/Roots.thy ===== *)
theory Roots
  imports Primes Ftt
begin

text \<open>
  Generators and roots of unity (\<open>nbtheory-impl.h\<close>) and Euler's totient (\<open>nbtheory2.cpp\<close>) for the
  64-bit integers, over the random routines of \<open>Primes\<close>. \<open>RootOfUnity\<close> picks a random generator and
  then the least primitive root among its powers; the main fact is that its result does not depend
  on the random choice.
\<close>

section \<open>Definitions\<close>

subsection \<open>Generators\<close>

text \<open>The loop over the prime factors: counts those passed before the first \<open>break\<close>.\<close>

fun count_factors :: "u64 \<Rightarrow> u64 \<Rightarrow> u64 \<Rightarrow> u64 list \<Rightarrow> nat \<Rightarrow> nat res" where
  "count_factors gen e q [] cnt = Inr cnt"
| "count_factors gen e q (r # rs) cnt =
     ebind (DividedBy e r) (\<lambda>d.
       if ModExp gen d q = 1 then Inr cnt else count_factors gen e q rs (cnt + 1))"

partial_function (option) FindGenerator_loop :: "'s prng \<Rightarrow> u64 \<Rightarrow> u64 \<Rightarrow> u64 \<Rightarrow> u64 list \<Rightarrow> 's \<Rightarrow> (u64, 's) run" where
  "FindGenerator_loop draw q qm1 qm2 primeFactors st =
     rbind (RNG draw qm2 st) (\<lambda>r st.
     rbind (rlift (Add r 1) st) (\<lambda>gen st.
     rbind (rlift (count_factors gen qm1 q primeFactors 0) st) (\<lambda>cnt st.
       if cnt \<noteq> length primeFactors then FindGenerator_loop draw q qm1 qm2 primeFactors st
       else Some (Inr (gen, st)))))"

declare FindGenerator_loop.simps [code]

definition FindGenerator :: "'s prng \<Rightarrow> u64 \<Rightarrow> 's \<Rightarrow> (u64, 's) run" where
  "FindGenerator draw q st =
     (let qm1 = Sub q 1; qm2 = Sub q 2
      in rbind (PrimeFactorize draw qm1 [] st) (\<lambda>primeFactors st.
           FindGenerator_loop draw q qm1 qm2 primeFactors st))"

subsection \<open>Totient\<close>

fun GetTotient_loop :: "u64 list \<Rightarrow> u64 \<Rightarrow> u64 \<Rightarrow> (u64 \<times> u64) res" where
  "GetTotient_loop [] numerator primeProd = Inr (numerator, primeProd)"
| "GetTotient_loop (r # rs) numerator primeProd =
     ebind (Mul numerator (Sub r 1)) (\<lambda>numerator.
     ebind (Mul primeProd r) (\<lambda>primeProd.
       GetTotient_loop rs numerator primeProd))"

definition GetTotient :: "'s prng \<Rightarrow> u64 \<Rightarrow> 's \<Rightarrow> (u64, 's) run" where
  "GetTotient draw n st =
     rbind (PrimeFactorize draw n [] st) (\<lambda>factors st.
     rbind (rlift (GetTotient_loop factors 1 1) st) (\<lambda>(numerator, primeProd) st.
     rbind (rlift (DividedBy n primeProd) st) (\<lambda>d st.
     rlift (Mul d numerator) st)))"

definition GetTotientList :: "u64 \<Rightarrow> u64 list" where
  "GetTotientList n =
     for_range 1 (unat n) (\<lambda>i result. if GreatestCommonDivisor (of_nat i) n = 1 then result @ [of_nat i] else result) []"

subsection \<open>Generators of a cyclic group\<close>

text \<open>
  \<open>continue\<close> in the \<open>do while\<close> loop goes on to the loop condition with \<open>cnt = 0\<close>.
\<close>

partial_function (option) FindGeneratorCyclic_loop :: "'s prng \<Rightarrow> u64 \<Rightarrow> u64 \<Rightarrow> u64 \<Rightarrow> u64 list \<Rightarrow> 's \<Rightarrow> (u64, 's) run" where
  "FindGeneratorCyclic_loop draw q phi_q phi_q_m1 primeFactors st =
     rbind (RNG draw phi_q_m1 st) (\<lambda>r st.
     rbind (rlift (Add r 1) st) (\<lambda>gen st.
     rbind (if GreatestCommonDivisor gen q \<noteq> 1 then Some (Inr (0, st))
            else rlift (count_factors gen phi_q q primeFactors 0) st) (\<lambda>cnt st.
       if cnt \<noteq> length primeFactors then FindGeneratorCyclic_loop draw q phi_q phi_q_m1 primeFactors st
       else Some (Inr (gen, st)))))"

declare FindGeneratorCyclic_loop.simps [code]

definition FindGeneratorCyclic :: "'s prng \<Rightarrow> u64 \<Rightarrow> 's \<Rightarrow> (u64, 's) run" where
  "FindGeneratorCyclic draw q st =
     rbind (GetTotient draw q st) (\<lambda>phi_q st.
     rbind (GetTotient draw q st) (\<lambda>phi_q_m1 st.
     rbind (PrimeFactorize draw phi_q [] st) (\<lambda>primeFactors st.
       FindGeneratorCyclic_loop draw q phi_q phi_q_m1 primeFactors st)))"

definition IsGenerator :: "'s prng \<Rightarrow> u64 \<Rightarrow> u64 \<Rightarrow> 's \<Rightarrow> (bool, 's) run" where
  "IsGenerator draw g q st =
     rbind (GetTotient draw q st) (\<lambda>qm1 st.
     rbind (PrimeFactorize draw qm1 [] st) (\<lambda>primeFactors st.
     rbind (rlift (count_factors g qm1 q primeFactors 0) st) (\<lambda>cnt st.
       Some (Inr (cnt = length primeFactors, st)))))"

subsection \<open>Roots of unity\<close>

definition root_error :: "u32 \<Rightarrow> u64 \<Rightarrow> exn" where
  "root_error m modl =
     OpenFHEError (''Please provide a primeModulus(q) and a cyclotomic number(m) '' @
       ''satisfying the condition: (q-1)/m is an integer. The values of '' @
       ''primeModulus = '' @ ToString modl @ '' and m = '' @ std_to_string (unat m) @
       '' do not satisfy this condition'')"

text \<open>The loop over the residues coprime to \<open>m\<close>: \<open>x\<close> steps through the powers of \<open>result\<close>.\<close>

definition min_root_step :: "u64 \<Rightarrow> u64 \<Rightarrow> u64 \<Rightarrow> u64 \<Rightarrow> u64 \<times> u64 \<times> u64 \<Rightarrow> u64 \<times> u64 \<times> u64" where
  "min_root_step result modl mu nextPowIdx = (\<lambda>(x, minRU, curPowIdx).
     let diffPow = Sub nextPowIdx curPowIdx;
         x = for_range 0 (unat diffPow) (\<lambda>j x. ModMulEq_mu x result modl mu) x;
         minRU = (if x < minRU \<and> x \<noteq> 1 then x else minRU)
     in (x, minRU, nextPowIdx))"

partial_function (option) RootOfUnity :: "'s prng \<Rightarrow> u32 \<Rightarrow> u64 \<Rightarrow> 's \<Rightarrow> (u64, 's) run" where
  "RootOfUnity draw m modl st =
     (if m = 0 then Some (Inl DivideByZero)
      else if Mod (Sub modl 1) (ucast m) \<noteq> 0 then Some (Inl (root_error m modl))
      else rbind (FindGenerator draw modl st) (\<lambda>gen st.
        rbind (rlift (DividedBy (Sub modl 1) (ucast m)) st) (\<lambda>e st.
        rbind (if ModExp gen e modl = 1 then RootOfUnity draw m modl st
               else Some (Inr (ModExp gen e modl, st))) (\<lambda>result st.
        rbind (rlift (ComputeMu modl) st) (\<lambda>mu st.
          let x = ModMulEq_mu 1 result modl mu;
              (x, minRU, curPowIdx) = fold (min_root_step result modl mu) (GetTotientList (ucast m)) (x, x, 1)
          in Some (Inr (minRU, st)))))))"

declare RootOfUnity.simps [code]

fun RootsOfUnity :: "'s prng \<Rightarrow> u32 \<Rightarrow> u64 list \<Rightarrow> 's \<Rightarrow> (u64 list, 's) run" where
  "RootsOfUnity draw m [] st = Some (Inr ([], st))"
| "RootsOfUnity draw m (q # qs) st =
     rbind (RootOfUnity draw m q st) (\<lambda>r st.
     rbind (RootsOfUnity draw m qs st) (\<lambda>rs st. Some (Inr (r # rs, st))))"

section \<open>Facts\<close>

subsection \<open>Generators\<close>

lemma count_factors_all:
  "count_factors gen e q rs c = Inr n \<Longrightarrow> n \<le> c + length rs \<and>
     (n = c + length rs \<longrightarrow> (\<forall>r\<in>set rs. r \<noteq> 0 \<and> ModExp gen (e div r) q \<noteq> 1))"
proof (induction rs arbitrary: c)
  case (Cons r rs)
  then have r: "r \<noteq> 0" by (auto simp: DividedBy_def split: if_splits)
  show ?case
  proof (cases "ModExp gen (e div r) q = 1")
    case True
    with Cons.prems r show ?thesis by (auto simp: DividedBy_def)
  next
    case False
    with Cons.prems r have "count_factors gen e q rs (c + 1) = Inr n" by (simp add: DividedBy_def)
    from Cons.IH [OF this] False r show ?thesis by auto
  qed
qed simp

lemma FindGenerator_loop_result:
  "FindGenerator_loop draw q e b fs st = Some r \<Longrightarrow> r = Inr (g, st') \<Longrightarrow> unat b < 2 ^ 64 - 1 \<Longrightarrow>
     0 < unat g \<and> unat g \<le> unat b \<and> (\<forall>x\<in>set fs. x \<noteq> 0 \<and> ModExp g (e div x) q \<noteq> 1)"
proof (induction rule: FindGenerator_loop.raw_induct [rotated, consumes 1])
  case (1 loop draw q e b fs st r)
  from 1(2) obtain v st1 st2 n where v: "RNG draw b st = Some (Inr (v, st1))"
    and n: "count_factors (v + 1) e q fs 0 = Inr n"
    and rest: "(if n \<noteq> length fs then loop draw q e b fs st2 else Some (Inr (v + 1, st2))) = Some r"
    unfolding 1(3) by (auto simp: Add_def AddFast_def NATIVEINT_DO_CHECKS_def add.commute elim!: rbind_InrE rlift_InrE)
  show ?case
  proof (cases "n = length fs")
    case False
    with rest 1(1) [OF _ 1(3,4)] show ?thesis by simp
  next
    case True
    have "unat v < unat b" using RNG_less [OF v] by (simp add: word_less_nat_alt)
    then have "unat (v + 1) = unat v + 1" using 1(4) by (subst unat_add_small) simp_all
    with True rest 1(3) count_factors_all [OF n] \<open>unat v < unat b\<close> show ?thesis by auto
  qed
qed

lemma FindGenerator_order:
  assumes q: "is_prime (unat q)" "3 < unat q" "unat q \<le> 2 ^ 63"
    and sound: "\<And>x. unat x dvd unat q - 1 \<Longrightarrow> passes draw x \<Longrightarrow> is_prime (unat x)"
    and r: "FindGenerator draw q st = Some (Inr (g, st'))"
  shows "has_order (unat q) (unat g) (unat q - 1)" "unat g < unat q"
proof -
  have s: "unat (Sub q 1) = unat q - 1" "unat (Sub q 2) = unat q - 2" using q by (simp_all add: Sub_unat)
  from r obtain fs st1 where pf: "PrimeFactorize draw (Sub q 1) [] st = Some (Inr (fs, st1))"
    and l: "FindGenerator_loop draw q (Sub q 1) (Sub q 2) fs st1 = Some (Inr (g, st'))"
    by (auto simp: FindGenerator_def Let_def elim!: rbind_InrE)
  have b: "unat (Sub q 2) < 2 ^ 64 - 1" using q s by simp
  note g = FindGenerator_loop_result [OF l refl b]
  then show gq: "unat g < unat q" using s q by linarith
  have pos: "0 < unat (Sub q 1)" using s q by simp
  from PrimeFactorize_result [OF pf pos refl] s have
    cover: "\<And>p. is_prime p \<Longrightarrow> p dvd unat q - 1 \<Longrightarrow> \<exists>x\<in>set fs. p dvd unat x"
    and mem: "\<And>x. x \<in> set fs \<Longrightarrow> unat x dvd unat q - 1 \<and> passes draw x" by auto
  show "has_order (unat q) (unat g) (unat q - 1)"
  proof (rule has_order_from_prime_factors)
    show "1 < unat q" "0 < unat q - 1" using q by simp_all
    have "\<not> unat q dvd unat g" using g gq by (auto dest: dvd_imp_le)
    then show "unat g ^ (unat q - 1) mod unat q = 1" by (rule fermat [OF q(1)])
    fix p assume p: "is_prime p" "p dvd unat q - 1"
    then obtain x where x: "x \<in> set fs" "p dvd unat x" using cover by blast
    then have "is_prime (unat x)" using mem sound by blast
    then have px: "p = unat x" using is_prime_divisor [OF _ x(2)] is_prime_gt_1 [OF p(1)] by auto
    from g x(1) have "ModExp g (Sub q 1 div x) q \<noteq> 1" by blast
    moreover have "unat (ModExp g (Sub q 1 div x) q) = unat g ^ ((unat q - 1) div p) mod unat q"
      using q s px by (subst ModExp_correct) (simp_all add: unat_div)
    ultimately show "unat g ^ ((unat q - 1) div p) mod unat q \<noteq> 1"
      by (metis unat_1 word_unat_eq_iff)
  qed
qed

subsection \<open>The least primitive root\<close>

lemma GetTotientList_eq:
  "GetTotientList n = map of_nat (filter (\<lambda>i. coprime i (unat n)) [1..<unat n])"
proof -
  have "for_range 1 k (\<lambda>i result. if GreatestCommonDivisor (of_nat i) n = 1 then result @ [of_nat i] else result) ([] :: u64 list)
      = map of_nat (filter (\<lambda>i. coprime i (unat n)) [1..<k])" if "k \<le> unat n" for k
    using that
  proof (induction k)
    case (Suc k)
    then have "k < 2 ^ 64" using unat_less_64 [of n] by linarith
    then have "unat (of_nat k :: u64) = k" by (simp add: unat_of_nat)
    with Suc show ?case by (cases "k = 0") (simp_all add: for_range_Suc gcd_word_one)
  qed simp
  then show ?thesis by (simp add: GetTotientList_def)
qed

lemma unat_ModMulEq_mu:
  assumes "barrett_modulus m" "unat a < unat m" "unat b < unat m"
  shows "unat (ModMulEq_mu a b m (mu_of m)) = unat a * unat b mod unat m"
proof -
  have "0 < unat m" using assms(1) by (simp add: barrett_modulus_def)
  then show ?thesis
    using ModMul_mu_eq(2) [OF assms(1) unat_mu_of [OF assms(1)] reduced_bound [OF assms(2)] reduced_bound [OF assms(3)]]
    by (simp add: ModMul_correct)
qed

lemma power_loop:
  assumes m: "barrett_modulus q" and w: "unat w < unat q" and x: "unat x < unat q"
  shows "unat (for_range 0 n (\<lambda>j x. ModMulEq_mu x w q (mu_of q)) x) = unat x * unat w ^ n mod unat q"
proof (induction n)
  case 0
  show ?case using x by simp
next
  case (Suc n)
  have q: "0 < unat q" using x by simp
  have "unat (for_range 0 n (\<lambda>j x. ModMulEq_mu x w q (mu_of q)) x) < unat q" using Suc q by simp
  from unat_ModMulEq_mu [OF m this w] Suc show ?case
    by (simp add: for_range_Suc mod_mult_left_eq mod_mult_right_eq algebra_simps)
qed

definition root_powers :: "nat \<Rightarrow> nat \<Rightarrow> nat list \<Rightarrow> nat set" where
  "root_powers q w ks = {w ^ k mod q |k. k \<in> set ks \<and> w ^ k mod q \<noteq> 1}"

lemma root_powers_Cons:
  "root_powers q w (k # ks) = (if w ^ k mod q = 1 then root_powers q w ks else insert (w ^ k mod q) (root_powers q w ks))"
  by (auto simp: root_powers_def)

lemma finite_root_powers: "finite (root_powers q w ks)"
proof -
  have "root_powers q w ks \<subseteq> (\<lambda>k. w ^ k mod q) ` set ks" by (auto simp: root_powers_def)
  then show ?thesis by (rule finite_subset) simp
qed

lemma min_root_fold:
  assumes m: "barrett_modulus q" and w: "unat w < unat q"
  shows "unat x = unat w ^ c mod unat q \<Longrightarrow> sorted (c # ks) \<Longrightarrow> \<forall>k\<in>set ks. k < 2 ^ 64 \<Longrightarrow> c < 2 ^ 64 \<Longrightarrow>
    \<exists>x' mn' c'. fold (min_root_step w q (mu_of q)) (map of_nat ks) (x, mn, of_nat c) = (x', mn', c') \<and>
      unat mn' = Min (insert (unat mn) (root_powers (unat q) (unat w) ks))"
proof (induction ks arbitrary: x mn c)
  case Nil
  then show ?case by (simp add: root_powers_def)
next
  case (Cons k ks)
  have q: "1 < unat q" using m by (simp add: barrett_modulus_def)
  have kc: "unat (of_nat k :: u64) = k" "unat (of_nat c :: u64) = c" "c \<le> k"
    using Cons.prems by (auto simp: unat_of_nat)
  define x1 where "x1 = for_range 0 (unat (Sub (of_nat k) (of_nat c))) (\<lambda>j x. ModMulEq_mu x w q (mu_of q)) x"
  have "unat x < unat q" using Cons.prems(1) q by simp
  from power_loop [OF m w this] have "unat x1 = unat x * unat w ^ (k - c) mod unat q"
    using kc by (simp add: x1_def Sub_unat)
  also have "\<dots> = unat w ^ c * unat w ^ (k - c) mod unat q" using Cons.prems(1) by (simp add: mod_mult_left_eq)
  also have "\<dots> = unat w ^ k mod unat q" using kc by (simp flip: power_add)
  finally have x1: "unat x1 = unat w ^ k mod unat q" .
  define mn1 where "mn1 = (if x1 < mn \<and> x1 \<noteq> 1 then x1 else mn)"
  have step: "min_root_step w q (mu_of q) (of_nat k) (x, mn, of_nat c) = (x1, mn1, of_nat k)"
    by (simp add: min_root_step_def Let_def x1_def mn1_def)
  from Cons.IH [OF x1, of mn1] Cons.prems obtain x' mn' c' where
    f: "fold (min_root_step w q (mu_of q)) (map of_nat ks) (x1, mn1, of_nat k) = (x', mn', c')"
    and mn': "unat mn' = Min (insert (unat mn1) (root_powers (unat q) (unat w) ks))" by auto
  have one: "x1 = 1 \<longleftrightarrow> unat w ^ k mod unat q = 1" using x1 by (metis unat_1 word_unat_eq_iff)
  note fin = finite_root_powers [of "unat q" "unat w" ks]
  have "Min (insert (unat mn1) (root_powers (unat q) (unat w) ks))
      = Min (insert (unat mn) (root_powers (unat q) (unat w) (k # ks)))"
  proof (cases "x1 = 1")
    case True
    then show ?thesis using one by (simp add: root_powers_Cons mn1_def)
  next
    case False
    have u: "unat mn1 = min (unat mn) (unat x1)" using False by (simp add: mn1_def word_less_nat_alt min_def)
    have "Min (insert (unat mn) (insert (unat x1) A)) = Min (insert (min (unat mn) (unat x1)) A)" if "finite A" for A
      using that by (cases "A = {}") (simp_all add: min.assoc)
    with False one fin show ?thesis by (simp add: root_powers_Cons u x1)
  qed
  with f mn' step show ?case by simp
qed

lemma Min_root_powers:
  assumes q: "is_prime q" and g: "has_order q g (q - 1)" and cm: "c * m = q - 1" and m: "2 \<le> m"
    and w: "w = g ^ c mod q"
  defines "S \<equiv> insert w (root_powers q w (filter (\<lambda>i. coprime i m) [1..<m]))"
  shows "has_order q (Min S) m" "Min S < q" "Min S = (LEAST x. has_order q x m)"
proof -
  have gcm: "has_order q g (c * m)" using g cm by simp
  have wm: "has_order q w m" unfolding w using gcm by (rule has_order_power)
  have q1: "1 < q" using q by (rule is_prime_gt_1)
  have fin: "finite S" by (simp add: S_def finite_root_powers)
  have ord: "has_order q x m \<and> x < q" if "x \<in> S" for x
  proof (cases "x = w")
    case False
    with that obtain k where "x = w ^ k mod q" "coprime k m" by (auto simp: S_def root_powers_def)
    then show ?thesis using has_order_power_iff [OF wm] q1 by simp
  qed (use wm q1 in \<open>simp add: w\<close>)
  have low: "Min S \<le> x" if x: "has_order q x m" for x
  proof -
    have o: "has_order q (x mod q) m" using x by (simp add: has_order_mod)
    obtain k where k: "k < m" "coprime k m" "x mod q = (g ^ c) ^ k mod q"
      using same_order_power [OF q gcm cm o] q1 by auto
    have k0: "0 < k" using k(2) m by (cases k) auto
    have e: "x mod q = w ^ k mod q" using k(3) by (simp add: w power_mod)
    have "x mod q \<noteq> 1" using order_dvd [OF o, of 1] m by auto
    with e k k0 have "x mod q \<in> S" unfolding S_def root_powers_def by auto
    then have "Min S \<le> x mod q" using fin by simp
    then show ?thesis using mod_less_eq_dividend [of x q] by linarith
  qed
  have "Min S \<in> S" using fin by (rule Min_in) (simp add: S_def)
  with ord show o: "has_order q (Min S) m" and "Min S < q" by blast+
  show "Min S = (LEAST x. has_order q x m)" using o low by (intro Least_equality [symmetric])
qed

lemma sorted_totients: "sorted (1 # filter (\<lambda>i. coprime i m) [1..<m :: nat])"
  by (auto intro: sorted_wrt_filter)

lemma RootOfUnity_result:
  assumes q: "is_prime (unat q)" "barrett_modulus q" and m: "2 \<le> unat m" "unat m dvd unat q - 1"
    and sound: "\<And>x. unat x dvd unat q - 1 \<Longrightarrow> passes draw x \<Longrightarrow> is_prime (unat x)"
    and r: "RootOfUnity draw m q st = Some (Inr (w, st'))"
  shows "has_order (unat q) (unat w) (unat m)" "unat w < unat q"
    "unat w = (LEAST x. has_order (unat q) x (unat m))"
proof -
  have q4: "4 \<le> unat q" "unat q \<le> 2 ^ 63" using q(2) by (simp_all add: barrett_modulus_def)
  define e where "e = Sub q 1 div (ucast m :: u64)"
  define c where "c = (unat q - 1) div unat m"
  have ue: "unat e = c" using q4 by (simp add: e_def c_def unat_div Sub_unat)
  have cm: "c * unat m = unat q - 1" using m by (simp add: c_def)
  have m0: "m \<noteq> 0" "(ucast m :: u64) \<noteq> 0" using m by (auto simp: word_unat_eq_iff)
  have mod0: "Mod (Sub q 1) (ucast m) = 0"
    using m q4 by (simp add: Mod_def word_unat_eq_iff unat_mod Sub_unat)
  have "rbind (FindGenerator draw q st) (\<lambda>gen st.
      rbind (if ModExp gen e q = 1 then RootOfUnity draw m q st else Some (Inr (ModExp gen e q, st))) (\<lambda>result st.
      rbind (rlift (ComputeMu q) st) (\<lambda>mu st.
        let x = ModMulEq_mu 1 result q mu;
            (x, minRU, curPowIdx) = fold (min_root_step result q mu) (GetTotientList (ucast m)) (x, x, 1)
        in Some (Inr (minRU, st))))) = Some (Inr (w, st'))"
    using r [unfolded RootOfUnity.simps [of draw m q st]] m0 mod0 by (simp add: DividedBy_def flip: e_def)
  then obtain g st1 where g: "FindGenerator draw q st = Some (Inr (g, st1))"
    and 1: "rbind (if ModExp g e q = 1 then RootOfUnity draw m q st1 else Some (Inr (ModExp g e q, st1))) (\<lambda>result st.
      rbind (rlift (ComputeMu q) st) (\<lambda>mu st.
        let x = ModMulEq_mu 1 result q mu;
            (x, minRU, curPowIdx) = fold (min_root_step result q mu) (GetTotientList (ucast m)) (x, x, 1)
        in Some (Inr (minRU, st)))) = Some (Inr (w, st'))"
    by (rule rbind_InrE)
  note g = FindGenerator_order [OF q(1) _ q4(2) sound g]
  have go: "has_order (unat q) (unat g) (unat q - 1)" using g q4 by simp
  define R where "R = ModExp g e q"
  have R: "unat R = unat g ^ c mod unat q" using q4 by (simp add: R_def ModExp_correct ue)
  have Ro: "has_order (unat q) (unat R) (unat m)"
    unfolding R using go cm by (intro has_order_power) simp
  have "unat R \<noteq> 1"
  proof
    assume "unat R = 1"
    then have "unat R ^ 1 mod unat q = 1" using q4 by simp
    then show False using order_dvd [OF Ro, of 1] m by simp
  qed
  then have R1: "R \<noteq> 1" by auto
  have Rq: "unat R < unat q" using R q4 by simp
  have x: "ModMulEq_mu 1 R q (mu_of q) = R"
    using unat_ModMulEq_mu [OF q(2), of 1 R] Rq q4 by (simp add: word_unat_eq_iff)
  let ?ks = "filter (\<lambda>i. coprime i (unat m)) [1..<unat m]"
  have tl: "GetTotientList (ucast m) = map of_nat ?ks" by (simp add: GetTotientList_eq)
  have ks: "\<forall>k\<in>set ?ks. k < 2 ^ 64"
    using unsigned_less [of m, where ?'a = nat] by auto
  from min_root_fold [OF q(2) Rq, of R 1 ?ks R] sorted_totients [of "unat m"] ks Rq obtain x' mn' c' where
    f: "fold (min_root_step R q (mu_of q)) (map of_nat ?ks) (R, R, 1) = (x', mn', c')"
    and mn: "unat mn' = Min (insert (unat R) (root_powers (unat q) (unat R) ?ks))" by auto
  from 1 R1 have "w = mn'" unfolding R_def [symmetric] by (simp add: ComputeMu_eq [OF q(2)] x tl f [simplified])
  with mn Min_root_powers [OF q(1) go cm m(1) R] show
    "has_order (unat q) (unat w) (unat m)" "unat w < unat q"
    "unat w = (LEAST x. has_order (unat q) x (unat m))" by simp_all
qed

text \<open>A primitive root of order \<open>2 ^ (L + 1)\<close> is a root of \<open>x ^ (2 ^ L) + 1\<close>.\<close>

lemma order_power2_root:
  assumes "is_prime q" "has_order q w (2 ^ Suc L)"
  shows "w ^ (2 ^ L) mod q = q - 1"
proof -
  define y where "y = w ^ (2 ^ L) mod q"
  have q1: "1 < q" using assms(1) by (rule is_prime_gt_1)
  have "y * y mod q = w ^ (2 ^ Suc L) mod q" by (simp add: y_def mod_mult_eq flip: power_add mult_2)
  then have "y * y mod q = 1" using assms(2) by (simp add: has_order_def)
  moreover have "y < q" using q1 by (simp add: y_def)
  moreover have "y \<noteq> 1" using order_dvd [OF assms(2), of "2 ^ L"] by (auto simp: y_def dest: dvd_imp_le)
  ultimately show ?thesis using square_root_of_one [OF assms(1), of y] by (simp add: y_def)
qed

lemma order_ntt_params:
  assumes q: "is_prime (unat q)" "barrett_modulus q" and L: "0 < L" "L \<le> 24" and m: "unat m = 2 ^ Suc L"
    and w: "has_order (unat q) (unat w) (unat m)" "unat w < unat q"
  shows "ntt_params q w m L"
proof -
  have q4: "4 \<le> unat q" using q(2) by (simp add: barrett_modulus_def)
  then have od: "odd (unat q)" using is_prime_divisor [OF q(1), of 2] by auto
  have "unat w ^ (2 ^ L) mod unat q = unat q - 1" using order_power2_root [OF q(1)] w(1) m by simp
  then have "iu w ^ (2 ^ L) mod iu q = iu q - 1"
    using q4 by (metis of_nat_1 of_nat_diff of_nat_mod of_nat_power one_le_numeral order_trans)
  also have "\<dots> = (- 1) mod iu q"
  proof (rule zmod_minus1 [symmetric])
    have "0 < unat q" using q4 by simp
    then show "0 < iu q" by (simp only: of_nat_0_less_iff)
  qed
  finally show ?thesis using q L m w od by (simp add: ntt_params_def)
qed

subsection \<open>Totient of a power of two\<close>

lemma odd_dvd_power2: "odd x \<Longrightarrow> x dvd 2 ^ k \<Longrightarrow> x = (1 :: nat)"
proof -
  assume "odd x" "x dvd 2 ^ k"
  moreover from this have "coprime x (2 ^ k)" by simp
  ultimately show "x = 1" by (metis coprime_absorb_left nat_dvd_1_iff_1)
qed

lemma unat_power2: "k < 64 \<Longrightarrow> unat (2 ^ k :: u64) = 2 ^ k"
proof -
  assume "k < 64"
  then have "(2::nat) ^ k < 2 ^ 64" by (intro power_strict_increasing) simp_all
  moreover have "(2 ^ k :: u64) = of_nat (2 ^ k)" by simp
  ultimately show ?thesis by (simp only: unat_of_nat) simp
qed

lemma PrimeFactorize_power2:
  "k < 63 \<Longrightarrow> set fs \<subseteq> {2} \<Longrightarrow> distinct fs \<Longrightarrow>
     PrimeFactorize draw (2 ^ Suc k) fs st = Some (Inr ([2], st))"
proof (induction k arbitrary: fs st)
  case 0
  have "fs = [] \<or> fs = [2]" using 0 by (cases fs; cases "tl fs") auto
  then show ?case by (subst PrimeFactorize.simps) (auto simp: MillerRabinPrimalityTest_def insort_insert_key_def)
next
  case (Suc k)
  have u: "unat (2 ^ Suc (Suc k) :: u64) = 2 ^ Suc (Suc k)" by (rule unat_power2) (use Suc.prems in simp)
  have u1: "unat (2 ^ Suc k :: u64) = 2 ^ Suc k" by (rule unat_power2) (use Suc.prems in simp)
  have ne: "(2 ^ Suc (Suc k) :: u64) \<notin> {0, 1, 2, 3, 5}"
  proof -
    have "(2::nat) ^ Suc (Suc k) \<notin> {0, 1, 2, 3, 5}"
    proof -
      have "(2::nat) ^ Suc (Suc k) = 4 * 2 ^ k" by simp
      moreover have "(4::nat) * 2 ^ k \<ge> 4" by simp
      moreover have "(4::nat) * 2 ^ k \<noteq> 5" "(4::nat) * 2 ^ k \<noteq> 3" by presburger+
      ultimately show ?thesis by simp
    qed
    then show ?thesis unfolding word_unat_eq_iff insert_iff u by simp
  qed
  have ev: "Mod (2 ^ Suc (Suc k)) 2 = 0" unfolding Mod_def word_unat_eq_iff unat_mod u by simp
  have mr: "MillerRabinPrimalityTest draw (2 ^ Suc (Suc k)) niter_default st = Some (Inr (False, st))"
    using ne ev by (simp add: MillerRabinPrimalityTest_def)
  have pr: "PollardRhoFactorization draw (2 ^ Suc (Suc k)) st = Some (Inr (2, st))"
    using ev by (simp add: PollardRhoFactorization_def)
  have two: "PrimeFactorize draw 2 fs st = Some (Inr ([2], st))"
  proof -
    have "fs = [] \<or> fs = [2]" using Suc.prems by (cases fs; cases "tl fs") auto
    then show ?thesis by (subst PrimeFactorize.simps) (auto simp: MillerRabinPrimalityTest_def insort_insert_key_def)
  qed
  have dv: "(2 ^ Suc (Suc k) :: u64) div 2 = 2 ^ Suc k"
    unfolding word_unat_eq_iff unat_div u u1 by simp
  have "DividedBy (2 ^ Suc (Suc k)) 2 = Inr (2 ^ Suc k)" unfolding DividedBy_def dv by simp
  with Suc.IH [of "[2]" st] Suc.prems(1) ne show ?case
    by (subst PrimeFactorize.simps) (simp add: mr pr two del: power_Suc)
qed

lemma GetTotient_power2:
  assumes "k < 63"
  shows "GetTotient draw (2 ^ Suc k) st = Some (Inr (2 ^ k, st))"
proof -
  have dv: "(2 ^ Suc k :: u64) div 2 = 2 ^ k"
    unfolding word_unat_eq_iff unat_div using assms by (simp only: unat_power2) simp
  show ?thesis using assms unfolding GetTotient_def
    by (simp add: PrimeFactorize_power2 Mul_def MulFast_def NATIVEINT_DO_CHECKS_def Sub_def SubFast_def
        DividedBy_def dv del: power_Suc)
qed

subsection \<open>Concrete runs\<close>

lemma FindGenerator_17: "FindGenerator fixed_draw 17 () = Some (Inr (3, ()))"
  by code_simp

lemma mult_17: "a < 17 \<Longrightarrow> b < 17 \<Longrightarrow> ModMulEq_mu (of_nat a) (of_nat b) 17 (mu_of 17) = of_nat (a * b mod 17)"
  using unat_ModMulEq_mu [OF barrett_17, of "of_nat a" "of_nat b"] by (simp add: unat_of_nat word_unat_eq_iff)

lemma RootOfUnity_17: "RootOfUnity fixed_draw 8 17 () = Some (Inr (2, ()))"
proof -
  have "ModExp 3 2 17 = 9" by code_simp
  moreover have "GetTotientList 8 = [1, 3, 5, 7]" by code_simp
  moreover have "ModMulEq_mu 1 9 17 (mu_of 17) = 9" using mult_17 [of 1 9] by simp
  moreover have "fold (min_root_step 9 17 (mu_of 17)) [1, 3, 5, 7] (9, 9, 1) = (2, 2, 7)"
    using mult_17 [of 9 9] mult_17 [of 13 9] mult_17 [of 15 9] mult_17 [of 16 9] mult_17 [of 8 9] mult_17 [of 4 9]
    by (simp add: min_root_step_def Let_def Sub_def SubFast_def NATIVEINT_DO_CHECKS_def for_range_def
        upt_conv_Cons)
  ultimately show ?thesis
    by (subst RootOfUnity.simps)
       (simp add: FindGenerator_17 DividedBy_def Mod_def Sub_def SubFast_def NATIVEINT_DO_CHECKS_def
         ComputeMu_eq [OF barrett_17])
qed

lemma prime_17: "is_prime (unat (17 :: u64))"
  by code_simp

lemma sound_17:
  assumes "unat x dvd unat (17 :: u64) - 1" "passes draw x"
  shows "is_prime (unat x)"
proof -
  from assms(2) obtain st st' where r: "MillerRabinPrimalityTest draw x niter_default st = Some (Inr (True, st'))"
    unfolding passes_def by blast
  have "unat x dvd 2 ^ 4" using assms(1) by simp
  with MillerRabin_True [OF r] odd_dvd_power2 have "unat x = 2" by fastforce
  then show ?thesis by (simp add: is_prime_2_3)
qed

lemmas sound_17_fixed = sound_17 [where draw = fixed_draw]

definition draw_five :: "unit prng" where
  "draw_five hi s = (if hi > 5 then 5 else 0, s)"

lemma FindGenerator_41: "FindGenerator draw_five 41 () = Some (Inr (6, ()))"
  by code_simp

lemma barrett_41: "barrett_modulus 41"
  by (simp add: barrett_modulus_def)

lemma prime_word_41: "is_prime (unat (41 :: u64))"
  by code_simp

lemma mult_41: "a < 41 \<Longrightarrow> b < 41 \<Longrightarrow> ModMulEq_mu (of_nat a) (of_nat b) 41 (mu_of 41) = of_nat (a * b mod 41)"
  using unat_ModMulEq_mu [OF barrett_41, of "of_nat a" "of_nat b"] by (simp add: unat_of_nat word_unat_eq_iff)

lemma RootOfUnity_41: "RootOfUnity draw_five 8 41 () = Some (Inr (3, ()))"
proof -
  have "ModExp 6 5 41 = 27" by code_simp
  moreover have "GetTotientList 8 = [1, 3, 5, 7]" by code_simp
  moreover have "ModMulEq_mu 1 27 41 (mu_of 41) = 27" using mult_41 [of 1 27] by simp
  moreover have "fold (min_root_step 27 41 (mu_of 41)) [1, 3, 5, 7] (27, 27, 1) = (38, 3, 7)"
    using mult_41 [of 27 27] mult_41 [of 32 27] mult_41 [of 3 27] mult_41 [of 40 27] mult_41 [of 14 27] mult_41 [of 9 27]
    by (simp add: min_root_step_def Let_def Sub_def SubFast_def NATIVEINT_DO_CHECKS_def for_range_def
        upt_conv_Cons)
  ultimately show ?thesis
    by (subst RootOfUnity.simps)
       (simp add: FindGenerator_41 DividedBy_def Mod_def Sub_def SubFast_def NATIVEINT_DO_CHECKS_def
         ComputeMu_eq [OF barrett_41])
qed

lemma sound_41:
  assumes "unat x dvd unat (41 :: u64) - 1" "passes draw x"
  shows "is_prime (unat x)"
proof -
  from assms(2) obtain st st' where r: "MillerRabinPrimalityTest draw x niter_default st = Some (Inr (True, st'))"
    unfolding passes_def by blast
  have d: "unat x dvd 2 ^ 3 * 5" using assms(1) by simp
  note m = MillerRabin_True [OF r]
  show ?thesis
  proof (cases "unat x = 2")
    case False
    then have "odd (unat x)" using m(2) by simp
    then have "coprime (unat x) (2 ^ 3)" by (simp only: coprime_power_right_iff coprime_right_2_iff_odd simp_thms)
    then have "unat x dvd 5" using d by (simp only: coprime_dvd_mult_right_iff)
    then have "unat x \<le> 5" by (simp add: dvd_imp_le)
    then have "unat x \<in> {0, 1, 2, 3, 4, 5}" by auto
    then have "unat x = 5" using \<open>unat x dvd 5\<close> m(1) by auto
    moreover have "is_prime 5" by code_simp
    ultimately show ?thesis by simp
  qed (simp add: is_prime_2_3)
qed

lemma vec_41: "ntt_vec 41 2 \<lparr>m_modulus = 41, m_data = [1, 2, 3, 4]\<rparr>"
  by (simp add: ntt_vec_def nv_ok_def reduced_def head_room_def)

section \<open>Properties\<close>

text \<open>
  For a prime modulus in the Barrett range and an order \<open>m\<close> dividing \<open>q - 1\<close>, whatever the random
  generator draws, \<open>RootOfUnity\<close> returns the least of all primitive \<open>m\<close>-th roots of unity, so two runs
  agree. The one hypothesis on the run is that the primality test accepts no composite divisor of \<open>q - 1\<close>.
\<close>

theorem root_of_unity_is_least:
  assumes "is_prime (unat q)" "barrett_modulus q" and "2 \<le> unat m" "unat m dvd unat q - 1"
    and "\<And>x. unat x dvd unat q - 1 \<Longrightarrow> passes draw x \<Longrightarrow> is_prime (unat x)"
    and "RootOfUnity draw m q st = Some (Inr (w, st'))"
  shows "has_order (unat q) (unat w) (unat m) \<and> unat w < unat q \<and>
    unat w = (LEAST x. has_order (unat q) x (unat m))"
  using RootOfUnity_result [OF assms] by simp_all

theorem root_of_unity_is_least_witness:
  "has_order 17 2 8 \<and> 2 = (LEAST x. has_order 17 x 8)"
proof -
  have h: "2 \<le> unat (8 :: u32)" "unat (8 :: u32) dvd unat (17 :: u64) - 1" by simp_all
  from root_of_unity_is_least [OF prime_17 barrett_17 h sound_17_fixed RootOfUnity_17] show ?thesis by simp
qed

text \<open>
  C37. For a prime modulus \<open>q\<close> with \<open>2 ^ (L + 1)\<close> dividing \<open>q - 1\<close>, and provided that the probabilistic primality
  test lets no composite divisor of \<open>q - 1\<close> through from any state of the generator: the root that \<open>RootOfUnity\<close> returns
  for the order \<open>2 ^ (L + 1)\<close> is fit for the transform. With empty caches, transforming two reduced vectors,
  multiplying them entry by entry and transforming back returns the product of the polynomials modulo
  \<open>x ^ (2 ^ L) + 1\<close>.
\<close>

theorem found_root_multiplies_polynomials:
  assumes "is_prime (unat q)" "barrett_modulus q" "0 < L" "L \<le> 24" "unat m = 2 ^ Suc L" "unat m dvd unat q - 1"
    and "\<And>x. unat x dvd unat q - 1 \<Longrightarrow> passes draw x \<Longrightarrow> is_prime (unat x)"
    and "RootOfUnity draw m q s = Some (Inr (w, s'))"
    and "ntt_vec q L a" "ntt_vec q L b"
  shows "\<exists>st1 x st2 y z st3 u.
    FTT_ForwardTransformToBitReverseInPlace w m a Reset = Inr (st1, x) \<and>
    FTT_ForwardTransformToBitReverseInPlace w m b st1 = Inr (st2, y) \<and>
    vModMul x y = Inr z \<and>
    FTT_InverseTransformFromBitReverseInPlace w m z st2 = Inr (st3, u) \<and>
    m_modulus u = q \<and> restores q (2 ^ L) (negacyclic (2 ^ L) (coeffs a) (coeffs b)) (m_data u)"
proof -
  have m2: "2 \<le> unat m" using assms(5) by simp
  note w = RootOfUnity_result [OF assms(1,2) m2 assms(6-8)]
  have "ntt_params q w m L" by (rule order_ntt_params [OF assms(1-5) w(1,2)])
  then show ?thesis by (rule multiply_by_transform [OF _ assms(9,10) Reset_cache_ok])
qed

theorem found_root_multiplies_polynomials_witness:
  "RootOfUnity draw_five 8 41 () = Some (Inr (3, ())) \<and> (\<exists>st1 x st2 y z st3 u.
    FTT_ForwardTransformToBitReverseInPlace 3 8 \<lparr>m_modulus = 41, m_data = [1, 2, 3, 4]\<rparr> Reset = Inr (st1, x) \<and>
    FTT_ForwardTransformToBitReverseInPlace 3 8 \<lparr>m_modulus = 41, m_data = [1, 2, 3, 4]\<rparr> st1 = Inr (st2, y) \<and>
    vModMul x y = Inr z \<and>
    FTT_InverseTransformFromBitReverseInPlace 3 8 z st2 = Inr (st3, u) \<and> m_modulus u = 41)"
proof -
  have h: "0 < (2::nat)" "(2::nat) \<le> 24" "unat (8 :: u32) = 2 ^ Suc 2" "unat (8 :: u32) dvd unat (41 :: u64) - 1"
    by simp_all
  from found_root_multiplies_polynomials [OF prime_word_41 barrett_41 h sound_41 [where draw = draw_five] RootOfUnity_41 vec_41 vec_41] RootOfUnity_41
  show ?thesis by blast
qed

text \<open>
  Euler's totient of a power of two: \<open>GetTotient\<close> returns \<open>2 ^ k\<close> for \<open>2 ^ (k + 1)\<close> up to 64 bits,
  without drawing a random number.
\<close>

theorem totient_power_of_two:
  assumes "k < 63"
  shows "GetTotient draw (2 ^ Suc k) st = Some (Inr (2 ^ k, st)) \<and>
    2 ^ k = card {i\<in>{0..<2 ^ Suc k}. coprime i (2 ^ Suc k :: nat)}"
proof (intro conjI)
  show "GetTotient draw (2 ^ Suc k) st = Some (Inr (2 ^ k, st))" by (rule GetTotient_power2 [OF assms])
  have "{i\<in>{0..<2 ^ Suc k}. coprime i (2 ^ Suc k :: nat)} = (\<lambda>j. 2 * j + 1) ` {0..<2 ^ k}"
    by (auto elim!: oddE simp: image_iff)
  moreover have "card ((\<lambda>j. 2 * j + 1) ` {0..<2 ^ k :: nat}) = 2 ^ k"
    by (subst card_image) (auto intro: inj_onI)
  ultimately show "2 ^ k = card {i\<in>{0..<2 ^ Suc k}. coprime i (2 ^ Suc k :: nat)}" by simp
qed

theorem totient_power_of_two_witness: "GetTotient fixed_draw 16 () = Some (Inr (8, ()))"
  using totient_power_of_two [of 3 fixed_draw "()"] by simp

end
