(* ===== verification/Automorph.thy ===== *)
theory Automorph
  imports Roots
begin

text \<open>
  The number theory of \<open>nbtheory2.cpp\<close> behind the automorphisms of the cyclotomic ring: inverses of
  32-bit numbers, the index of the automorphism that rotates by \<open>i\<close> slots, and the table that turns an
  automorphism into a permutation of the transform's values.
\<close>

section \<open>Definitions\<close>

text \<open>\<open>ModInverse(usint, usint)\<close>: all in 32 bits, so \<open>x1 - q * x0\<close> wraps.\<close>

function ModInverse_usint_loop :: "u32 \<Rightarrow> u32 \<Rightarrow> u32 \<Rightarrow> u32 \<Rightarrow> u32 res" where
  "ModInverse_usint_loop a b x0 x1 =
     (if a > 1
      then if b = 0 then Inl DivideByZero
           else let q = a div b in ModInverse_usint_loop b (a mod b) (x1 - q * x0) x0
      else Inr x1)"
  by auto
termination
proof (relation "measure (\<lambda>(a, b, x0, x1). unat b)")
  fix a b x0 x1 q :: u32
  assume "b \<noteq> 0"
  then have "unat a mod unat b < unat b" by (simp add: unat_gt_0)
  then show "((b, a mod b, x1 - q * x0, x0), a, b, x0, x1) \<in> measure (\<lambda>(a, b, x0, x1). unat b)"
    by (simp add: unat_mod)
qed simp

declare ModInverse_usint_loop.simps [simp del]

definition ModInverse_usint :: "u32 \<Rightarrow> u32 \<Rightarrow> u32 res" where
  "ModInverse_usint a b = (if b = 1 then Inr 1 else ModInverse_usint_loop a b 0 1)"

definition IsPowerOfTwo :: "u32 \<Rightarrow> bool" where
  "IsPowerOfTwo Input \<longleftrightarrow> Input \<noteq> 0 \<and> Input AND (Input - 1) = 0"

text \<open>
  \<open>int32_t\<close> parameters are integers in its range; \<open>(uint32_t)std::abs(i)\<close> overflows for the least one.
\<close>

definition abs_u32 :: "int \<Rightarrow> u32 res" where
  "abs_u32 i = (if i = - (2 ^ 31) then Inl SignedOverflow else Inr (word_of_int \<bar>i\<bar>))"

definition mul_mod_u32 :: "u32 \<Rightarrow> u32 \<Rightarrow> u32 \<Rightarrow> u32 res" where
  "mul_mod_u32 m g0 g = (if m = 0 then Inl DivideByZero else Inr ((g * g0) mod m))"

definition FindAutomorphismIndex2n :: "'s prng \<Rightarrow> int \<Rightarrow> u32 \<Rightarrow> 's \<Rightarrow> (u32, 's) run" where
  "FindAutomorphismIndex2n draw i m st =
     (if i = 0 then Some (Inr (1, st))
      else rbind (GetTotient draw (ucast m) st) (\<lambda>n st.
        let n = ucast n :: u32 in
        rbind (rlift (if i < 0 then ebind (ModInverse 5 (ucast m)) (\<lambda>f. Inr (ucast f)) else Inr 5) st) (\<lambda>f1 st.
        rbind (rlift (if i < 0 then ebind (ModInverse (ucast (m - 1)) (ucast m)) (\<lambda>f. Inr (ucast f)) else Inr (m - 1)) st) (\<lambda>f2 st.
        rbind (rlift (abs_u32 i) st) (\<lambda>i_unsigned st.
          let g0 = f1 in
          rlift (if i_unsigned < n div 2
                 then efor 1 (unat i_unsigned) (\<lambda>j g. mul_mod_u32 m g0 g) f1
                 else efor (unat (n div 2)) (unat i_unsigned) (\<lambda>j g. mul_mod_u32 m g0 g) f2) st)))))"

definition FindAutomorphismIndexCyclic :: "'s prng \<Rightarrow> int \<Rightarrow> u32 \<Rightarrow> u32 \<Rightarrow> 's \<Rightarrow> (u32, 's) run" where
  "FindAutomorphismIndexCyclic draw i m g st =
     (if i = 0 then Some (Inr (1, st))
      else rbind (GetTotient draw (ucast m) st) (\<lambda>n st.
        let n = sint (ucast n :: u32) in
        if n = 0 then Some (Inl DivideByZero)
        else
          let i_signed = i smod n;
              i_signed = (if i_signed \<le> 0 then i_signed + n else i_signed);
              i_unsigned = (word_of_int i_signed :: u32)
          in rlift (efor 2 (unat i_unsigned) (\<lambda>ii k. mul_mod_u32 m g k) g) st))"

definition FindAutomorphismIndex2nComplex :: "int \<Rightarrow> u32 \<Rightarrow> u32 res" where
  "FindAutomorphismIndex2nComplex i m =
     (if i = 0 then Inr 1
      else if i = sint m - 1 then Inr (word_of_int i)
      else if \<not> IsPowerOfTwo m then Inl (OpenFHEError ''m should be a power of two.'')
      else ebind (if i < 0 then ModInverse 5 (ucast m) else Inr 5) (\<lambda>g0.
           ebind (abs_u32 i) (\<lambda>i_unsigned.
             Inr (ucast (for_range 1 (unat i_unsigned) (\<lambda>j g. (g * g0) AND ucast (m - 1)) g0)))))"

text \<open>\<open>std::round(std::log2(m))\<close> for a positive number: up when \<open>m \<ge> sqrt 2 * 2 ^ k\<close>.\<close>

definition round_log2 :: "nat \<Rightarrow> nat" where
  "round_log2 m = (let k = bit_len m - 1 in if m * m \<ge> 2 ^ (2 * k + 1) then k + 1 else k)"

definition PrecomputeAutoMap :: "u32 \<Rightarrow> u32 \<Rightarrow> u32 list \<Rightarrow> u32 list res" where
  "PrecomputeAutoMap n k precomp =
     (let m = push_bit 1 n
      in if n = 0 \<or> m = 0 then Inl OutOfRange
         else let logm = round_log2 (unat m); logn = round_log2 (unat n)
           in efor 0 (unat n) (\<lambda>j precomp.
                let jTmp = push_bit 1 (of_nat j) + 1
                in if logm \<ge> 32 then Inl ShiftOutOfRange
                   else let idx = drop_bit 1 (jTmp * k - push_bit logm (drop_bit logm (jTmp * k)))
                     in ebind (ReverseBits (of_nat j) (of_nat logn)) (\<lambda>jrev.
                        ebind (ReverseBits idx (of_nat logn)) (\<lambda>idxrev.
                          set_at precomp (unat jrev) idxrev))) precomp)"

text \<open>\<open>GetDigits\<close> of \<open>nbtheory.h\<close>: \<open>k\<close> digits to the base \<open>2 ^ round (log2 base)\<close>, least significant first.\<close>

fun GetDigits_loop :: "nat \<Rightarrow> nat \<Rightarrow> u64 \<Rightarrow> int list res" where
  "GetDigits_loop 0 baseDigits uu = Inr []"
| "GetDigits_loop (Suc k) baseDigits uu =
     ebind (RShift uu baseDigits) (\<lambda>uTemp.
     ebind (LShift uTemp baseDigits) (\<lambda>t.
     let d = Sub uu t in
     ebind (GetDigits_loop k baseDigits uTemp) (\<lambda>ds. Inr (sint d # ds))))"

definition GetDigits :: "u64 \<Rightarrow> u64 \<Rightarrow> u32 \<Rightarrow> int list res" where
  "GetDigits u base k =
     (if base = 0 then Inl OutOfRange
      else GetDigits_loop (unat k) (unat (ucast (of_nat (round_log2 (unat base)) :: u32) :: 16 word)) u)"

section \<open>Facts\<close>

subsection \<open>Residues modulo a power of two\<close>

lemma u32_mod_power2:
  assumes "K \<le> 32"
  shows "unat (x * y :: u32) mod 2 ^ K = unat x * unat y mod 2 ^ K"
    "uint (x - q * y :: u32) mod 2 ^ K = (uint x - uint q * uint y) mod 2 ^ K"
proof -
  have n: "(2::nat) ^ K dvd 2 ^ 32" and i: "(2::int) ^ K dvd 2 ^ 32"
    using assms by (simp_all only: le_imp_power_dvd)
  show "unat (x * y) mod 2 ^ K = unat x * unat y mod 2 ^ K"
    using n by (simp add: unat_word_ariths mod_mod_cancel)
  show "uint (x - q * y) mod 2 ^ K = (uint x - uint q * uint y) mod 2 ^ K"
    using i by (simp add: uint_word_ariths mod_mod_cancel mod_simps)
qed

lemma mul_mod_loop:
  assumes m: "unat m = 2 ^ K" "K \<le> 31" and ab: "a < b"
  obtains g' where "efor a b (\<lambda>j g. mul_mod_u32 m g0 g) g = Inr g'"
    "unat g' = unat g * unat g0 ^ (b - a) mod 2 ^ K"
proof -
  have m0: "m \<noteq> 0" using m by (auto simp: word_unat_eq_iff)
  define P where "P = (\<lambda>j (g' :: u32). unat g' mod 2 ^ K = unat g * unat g0 ^ (j - a) mod 2 ^ K \<and> (a < j \<longrightarrow> unat g' < 2 ^ K))"
  have "\<exists>g'. efor a b (\<lambda>j g. mul_mod_u32 m g0 g) g = Inr g' \<and> P b g'"
  proof (rule efor_Inr)
    fix j and g1 :: u32
    assume j: "a \<le> j" "j < b" and P: "P j g1"
    define g2 where "g2 = g1 * g0 mod m"
    have "unat g2 = unat (g1 * g0) mod 2 ^ K" using m by (simp add: g2_def unat_mod)
    also have "\<dots> = unat g1 * unat g0 mod 2 ^ K" using m by (intro u32_mod_power2) simp
    also have "\<dots> = unat g * unat g0 ^ (j - a) * unat g0 mod 2 ^ K"
      using P by (intro mod_mult_cong refl) (simp add: P_def)
    also have "\<dots> = unat g * unat g0 ^ (Suc j - a) mod 2 ^ K"
      using j by (simp add: Suc_diff_le algebra_simps)
    finally have u: "unat g2 = unat g * unat g0 ^ (Suc j - a) mod 2 ^ K" .
    then show "\<exists>g'. mul_mod_u32 m g0 g1 = Inr g' \<and> P (Suc j) g'"
      using m0 by (simp add: mul_mod_u32_def P_def g2_def)
  qed (use ab in \<open>simp_all add: P_def\<close>)
  then obtain g' where "efor a b (\<lambda>j g. mul_mod_u32 m g0 g) g = Inr g'" "P b g'" by blast
  with ab show ?thesis by (intro that [of g']) (auto simp: P_def)
qed

subsection \<open>Inverses in 32 bits\<close>

lemma ModInverse_usint_loop_power2:
  assumes K: "K \<le> 32"
  shows "uint x1 * A mod 2 ^ K = uint a mod 2 ^ K \<Longrightarrow> uint x0 * A mod 2 ^ K = uint b mod 2 ^ K \<Longrightarrow>
    coprime (unat a) (unat b) \<Longrightarrow> 0 < unat a \<Longrightarrow>
    \<exists>r. ModInverse_usint_loop a b x0 x1 = Inr r \<and> uint r * A mod 2 ^ K = 1 mod 2 ^ K"
proof (induction a b x0 x1 rule: ModInverse_usint_loop.induct)
  case (1 a b x0 x1)
  show ?case
  proof (cases "a > 1")
    case False
    then have "unat a \<le> 1" by (simp add: word_less_nat_alt)
    with 1(5) have "unat a = 1" by linarith
    then have "a = 1" by (simp add: word_unat_eq_iff)
    then have "ModInverse_usint_loop a b x0 x1 = Inr x1" by (subst ModInverse_usint_loop.simps) simp
    with 1(2) \<open>a = 1\<close> show ?thesis by (intro exI [of _ x1]) (simp only: uint_1)
  next
    case True
    then have a1: "1 < unat a" by (simp add: word_less_nat_alt)
    have b: "b \<noteq> 0"
    proof
      assume "b = 0"
      with 1(4) a1 show False by simp
    qed
    define q where "q = a div b"
    have am: "uint (a mod b) = uint a - uint q * uint b"
      unfolding q_def uint_div uint_mod by (simp add: minus_div_mult_eq_mod)
    have "uint (x1 - q * x0) * A mod 2 ^ K = (uint x1 - uint q * uint x0) * A mod 2 ^ K"
      using u32_mod_power2(2) [OF K, of x1 q x0] by (metis mod_mult_left_eq)
    also have "\<dots> = (uint x1 * A - uint q * (uint x0 * A)) mod 2 ^ K" by (simp add: algebra_simps)
    also have "\<dots> = (uint a - uint q * uint b) mod 2 ^ K"
      using 1(2,3) by (intro mod_diff_cong mod_mult_cong refl)
    finally have x: "uint (x1 - q * x0) * A mod 2 ^ K = uint (a mod b) mod 2 ^ K" by (simp add: am)
    have cop: "coprime (unat b) (unat (a mod b))"
      using 1(4) b coprime_mod_left_iff [of "unat b" "unat a"]
      by (simp only: unat_mod coprime_commute [of "unat b"] unat_gt_0 [symmetric] neq0_conv)
    have "0 < unat b" using b by (simp add: unat_gt_0)
    from 1(1) [OF True b q_def 1(3) x cop this] True b show ?thesis
      by (simp add: ModInverse_usint_loop.simps [of a b] Let_def q_def)
  qed
qed

lemma ModInverse_usint_power2:
  assumes "unat b = 2 ^ K" "0 < K" "K \<le> 31" "odd (unat a)"
  shows "\<exists>r. ModInverse_usint a b = Inr r \<and> unat r * unat a mod 2 ^ K = 1"
proof -
  have K: "K \<le> 32" and ub: "uint b = 2 ^ K" using assms(1,3) by (simp_all flip: uint_nat add: uint_nat)
  have b1: "b \<noteq> 1" using assms(1,2) by (auto simp: word_unat_eq_iff)
  have c: "coprime (unat a) (unat b)" using assms by simp
  have "0 < unat a" using assms(4) by (cases "unat a") auto
  from ModInverse_usint_loop_power2 [OF K, of 1 "uint a" a 0 b, OF _ _ c this] obtain r where
    r: "ModInverse_usint_loop a b 0 1 = Inr r" "uint r * uint a mod 2 ^ K = 1 mod 2 ^ K"
    by (auto simp: ub)
  have "int (unat r * unat a mod 2 ^ K) = 1 mod 2 ^ K"
    using r(2) by (simp add: zmod_int)
  also have "\<dots> = int 1" using assms(2) by (intro mod_pos_pos_trivial [THEN trans]) auto
  finally have "unat r * unat a mod 2 ^ K = 1" by (simp only: of_nat_eq_iff)
  with r(1) b1 show ?thesis by (simp add: ModInverse_usint_def)
qed

subsection \<open>Automorphism indices for a power of two\<close>

lemma coprime_5_power2: "coprime (5::nat) (2 ^ K)"
  by (cases K) auto

lemma IsPowerOfTwo_power2: "unat m = 2 ^ K \<Longrightarrow> IsPowerOfTwo m"
proof -
  assume m: "unat m = 2 ^ K"
  then have "2 ^ K < (2::nat) ^ 32" using unsigned_less [of m, where ?'a = nat] by simp
  then have K: "K < 32" by (rule power_less_imp_less_exp [rotated]) simp
  have mm: "m = push_bit K 1"
  proof -
    have "unat (push_bit K 1 :: u32) = 2 ^ K" using K by (intro unat_power2_u32) simp
    with m show ?thesis by (simp add: word_unat_eq_iff)
  qed
  have "m - 1 = mask K" unfolding mm mask_eq_exp_minus_1 by (simp add: push_bit_eq_mult)
  moreover have "(push_bit K 1 AND mask K :: u32) = 0" by (rule bit_word_eqI) (simp add: bit_simps)
  moreover have "m \<noteq> 0" using m by auto
  ultimately show ?thesis by (simp add: IsPowerOfTwo_def mm)
qed

lemma ucast_mask_32: "K \<le> 31 \<Longrightarrow> unat m = 2 ^ K \<Longrightarrow> (ucast (m - 1 :: u32) :: u64) = mask K"
proof -
  assume K: "K \<le> 31" and m: "unat m = 2 ^ K"
  have "1 \<le> m" using m by (simp add: word_le_nat_alt)
  then have "unat (m - 1) = 2 ^ K - 1" using m by (simp add: unat_sub)
  moreover have "unat (mask K :: u64) = 2 ^ K - 1"
  proof -
    have "(2::nat) ^ K \<le> 2 ^ 31" using K by (intro power_increasing) simp_all
    then have p: "unat (push_bit K 1 :: u64) = 2 ^ K" unfolding unat_push_bit by simp
    then have "unat (push_bit K 1 - 1 :: u64) = 2 ^ K - 1" by (subst unat_sub) (simp_all add: word_le_nat_alt)
    then show ?thesis by (simp add: mask_eq_exp_minus_1 push_bit_eq_mult)
  qed
  ultimately show ?thesis by (simp add: word_unat_eq_iff)
qed

lemma power_mask_loop:
  assumes "0 < n" "K \<le> 31" "unat g0 < 2 ^ K"
  shows "unat (for_range 1 n (\<lambda>j g. (g * g0) AND mask K) (g0 :: u64)) = unat g0 ^ n mod 2 ^ K"
  using assms(1)
proof (induction n)
  case (Suc n)
  show ?case
  proof (cases n)
    case 0
    then show ?thesis using assms(3) by simp
  next
    case (Suc k)
    define g where "g = for_range 1 n (\<lambda>j g. (g * g0) AND mask K) g0"
    have d: "(2::nat) ^ K dvd 2 ^ 64" using assms(2) by (intro le_imp_power_dvd) simp
    have "unat (g * g0 AND mask K) = unat (g * g0) mod 2 ^ K"
      by (simp only: unsigned_take_bit_eq flip: take_bit_eq_mask) (simp add: take_bit_eq_mod)
    also have "\<dots> = unat g * unat g0 mod 2 ^ K" using d by (simp add: unat_word_ariths mod_mod_cancel)
    also have "\<dots> = unat g0 ^ n * unat g0 mod 2 ^ K" using Suc.IH Suc by (simp add: g_def mod_mult_left_eq)
    finally show ?thesis using Suc by (simp add: for_range_Suc g_def mult.commute)
  qed
qed simp

lemma abs_u32_ok: "\<bar>i\<bar> < 2 ^ 31 \<Longrightarrow> \<exists>w. abs_u32 i = Inr w \<and> unat w = nat \<bar>i\<bar>"
  by (intro exI [of _ "word_of_int \<bar>i\<bar>"]) (auto simp: abs_u32_def unsigned_of_int take_bit_int_eq_self_iff
    nat_take_bit_eq take_bit_nat_eq_self_iff nat_less_iff)

text \<open>Multiplying two residues that are inverse base by base.\<close>

lemma inverse_power_mod:
  fixes a b :: nat
  assumes "a * b mod m = 1 mod m"
  shows "a ^ n * b ^ n mod m = 1 mod m"
proof -
  have "(a * b) ^ n mod m = 1 ^ n mod m" using assms by (metis power_mod)
  then show ?thesis by (simp add: power_mult_distrib)
qed

lemma ucast_u32_u64: "unat (ucast (x :: u32) :: u64) = unat x"
  by simp

lemma unat_ucast_32: "unat (x :: u64) < 2 ^ 32 \<Longrightarrow> unat (ucast x :: u32) = unat x"
  by (simp add: unsigned_ucast_eq take_bit_nat_eq_self_iff)

lemma inverse_power2:
  assumes "unat m = 2 ^ K" "0 < K" "K \<le> 31" "odd v"  "v < 2 ^ 64"
  obtains r where "ModInverse (of_nat v) (ucast (m :: u32)) = Inr r" "unat r < 2 ^ K" "unat r * v mod 2 ^ K = 1"
proof -
  have v: "unat (of_nat v :: u64) = v" using assms(5) by (simp add: unat_of_nat)
  have K: "(2::nat) ^ K \<le> 2 ^ 31" using assms(3) by (intro power_increasing) simp_all
  have "1 < (2::nat) ^ K" using assms(2) by (intro one_less_power) simp_all
  then have "1 < unat (ucast m :: u64)" "unat (ucast m :: u64) < 2 ^ 63" using assms K by simp_all
  moreover have "coprime (unat (of_nat v :: u64)) (unat (ucast m :: u64))" using assms v by simp
  ultimately obtain r where "ModInverse (of_nat v) (ucast m) = Inr r" "unat r < unat (ucast m :: u64)"
    "unat r * unat (of_nat v :: u64) mod unat (ucast m :: u64) = 1" by (rule ModInverse_correct)
  with v assms(1) show ?thesis by (intro that) simp_all
qed

lemma sint_power2: "unat (m :: u32) = 2 ^ K \<Longrightarrow> K \<le> 30 \<Longrightarrow> sint m = 2 ^ K"
proof -
  assume m: "unat m = 2 ^ K" and K: "K \<le> 30"
  have "(2::int) ^ K < 2 ^ 31" using K by (intro power_strict_increasing) simp_all
  moreover have "m = word_of_int (2 ^ K)"
  proof -
    have "m = of_nat (unat m)" by simp
    also have "\<dots> = 2 ^ K" by (simp only: m) simp
    finally show ?thesis by simp
  qed
  ultimately show ?thesis
    by (simp only: signed_of_int len_of_numeral_defs) (simp add: signed_take_bit_int_eq_self_iff order.trans [OF _ zero_le_power])
qed

lemma FindAutomorphismIndex2nComplex_pos:
  assumes m: "unat m = 2 ^ K" "3 \<le> K" "K \<le> 30" and i: "0 < i" "i < 2 ^ 31" "i \<noteq> 2 ^ K - 1"
  obtains r where "FindAutomorphismIndex2nComplex i m = Inr r" "unat r = 5 ^ nat i mod 2 ^ K"
proof -
  have K8: "(8::nat) \<le> 2 ^ K" using power_increasing [OF m(2), of "2::nat"] by simp
  have sm: "sint m = 2 ^ K" by (rule sint_power2) (use m in simp_all)
  obtain w where w: "abs_u32 i = Inr w" "unat w = nat i" using abs_u32_ok [of i] i by auto
  define g where "g = for_range 1 (nat i) (\<lambda>j g. (g * 5) AND mask K) (5 :: u64)"
  have g: "unat g = 5 ^ nat i mod 2 ^ K" unfolding g_def using power_mask_loop [of "nat i" K 5] i m K8 by simp
  have "(2::nat) ^ K \<le> 2 ^ 32" using m(3) by (intro power_increasing) simp_all
  moreover have "unat g < 2 ^ K" using g by simp
  ultimately have "unat g < 2 ^ 32" by (rule less_le_trans [rotated])
  then have "unat (ucast g :: u32) = unat g" by (rule unat_ucast_32)
  moreover have "FindAutomorphismIndex2nComplex i m = Inr (ucast g)"
    using i m w sm ucast_mask_32 [of K m] IsPowerOfTwo_power2 [OF m(1)]
    by (simp add: FindAutomorphismIndex2nComplex_def g_def)
  ultimately show ?thesis using g by (intro that) simp_all
qed

lemma FindAutomorphismIndex2nComplex_neg:
  assumes m: "unat m = 2 ^ K" "3 \<le> K" "K \<le> 30" and i: "i < 0" "- (2 ^ 31) < i"
  obtains r where "FindAutomorphismIndex2nComplex i m = Inr r" "unat r < 2 ^ K"
    "unat r * 5 ^ nat (- i) mod 2 ^ K = 1"
proof -
  have sm: "sint m = 2 ^ K" by (rule sint_power2) (use m in simp_all)
  then have ne: "i \<noteq> sint m - 1" using i by (simp add: not_less) (smt (verit) zero_less_power)
  obtain w where w: "abs_u32 i = Inr w" "unat w = nat (- i)" using abs_u32_ok [of i] i by auto
  obtain f where f: "ModInverse 5 (ucast m) = Inr f" "unat f < 2 ^ K" "unat f * 5 mod 2 ^ K = 1"
    using inverse_power2 [OF m(1), of 5] m by auto
  define g where "g = for_range 1 (nat (- i)) (\<lambda>j g. (g * f) AND mask K) f"
  have g: "unat g = unat f ^ nat (- i) mod 2 ^ K" unfolding g_def using power_mask_loop [of "nat (- i)" K f] i m f by simp
  have "(2::nat) ^ K \<le> 2 ^ 32" using m(3) by (intro power_increasing) simp_all
  moreover have gK: "unat g < 2 ^ K" using g by simp
  ultimately have "unat g < 2 ^ 32" by (rule less_le_trans [rotated])
  then have u: "unat (ucast g :: u32) = unat g" by (rule unat_ucast_32)
  have "FindAutomorphismIndex2nComplex i m = Inr (ucast g)"
    using i m w ne f ucast_mask_32 [of K m] IsPowerOfTwo_power2 [OF m(1)]
    by (simp add: FindAutomorphismIndex2nComplex_def g_def)
  moreover have "unat (ucast g :: u32) < 2 ^ K" unfolding u by (rule gK)
  moreover have "unat (ucast g :: u32) * 5 ^ nat (- i) mod 2 ^ K = 1" unfolding u
  proof -
    have "unat g * 5 ^ nat (- i) mod 2 ^ K = unat f ^ nat (- i) * 5 ^ nat (- i) mod 2 ^ K"
      by (simp add: g mod_mult_left_eq)
    also have "\<dots> = 1 mod 2 ^ K" by (rule inverse_power_mod) (use f m in simp)
    finally show "unat g * 5 ^ nat (- i) mod 2 ^ K = 1" using m by simp
  qed
  ultimately show ?thesis by (rule that)
qed

text \<open>
  The exponent of the automorphism for slot index \<open>i\<close>: powers of 5 for the first half of the
  slots, then minus the powers of 5.
\<close>

definition slot_exponent :: "nat \<Rightarrow> nat \<Rightarrow> nat" where
  "slot_exponent L i = (if i < 2 ^ (L - 1) then 5 ^ i else (2 ^ Suc L - 1) * 5 ^ (i - 2 ^ (L - 1))) mod 2 ^ Suc L"

lemma mul_mod_loop_le:
  assumes m: "unat m = 2 ^ K" "K \<le> 31" and ab: "a \<le> b" and g: "unat g < 2 ^ K"
  obtains g' where "efor a b (\<lambda>j g. mul_mod_u32 m g0 g) g = Inr g'"
    "unat g' = unat g * unat g0 ^ (b - a) mod 2 ^ K"
proof (cases "a < b")
  case True
  then show ?thesis by (rule mul_mod_loop [OF m _ that])
next
  case False
  with ab g show ?thesis by (intro that [of g]) (simp_all add: efor_def)
qed

lemma slot_loop:
  fixes ia f1 f2 :: u32
  assumes m: "unat m = 2 ^ Suc L" "2 \<le> L" "L \<le> 29"
    and f: "unat f1 < 2 ^ Suc L" "unat f2 < 2 ^ Suc L" and i: "0 < unat ia"
  obtains g where
    "(if ia < of_nat (2 ^ (L - 1)) then efor 1 (unat ia) (\<lambda>j g. mul_mod_u32 m f1 g) f1
      else efor (2 ^ (L - 1)) (unat ia) (\<lambda>j g. mul_mod_u32 m f1 g) f2) = Inr g"
    "unat g = (if unat ia < 2 ^ (L - 1) then unat f1 ^ unat ia else unat f2 * unat f1 ^ (unat ia - 2 ^ (L - 1))) mod 2 ^ Suc L"
proof -
  have K: "Suc L \<le> 31" using m by simp
  have h: "unat (of_nat (2 ^ (L - 1)) :: u32) = 2 ^ (L - 1)" using m by (intro unat_power2_u32) simp
  show ?thesis
  proof (cases "unat ia < 2 ^ (L - 1)")
    case True
    obtain g where g: "efor 1 (unat ia) (\<lambda>j g. mul_mod_u32 m f1 g) f1 = Inr g"
      "unat g = unat f1 * unat f1 ^ (unat ia - 1) mod 2 ^ Suc L"
      using mul_mod_loop_le [OF m(1) K _ f(1), of 1 "unat ia" f1] i by (auto simp: Suc_le_eq)
    have "unat f1 * unat f1 ^ (unat ia - 1) = unat f1 ^ unat ia" using i by (cases "unat ia") simp_all
    with g True h show ?thesis by (intro that [of g]) (simp_all add: word_less_nat_alt del: of_nat_power)
  next
    case False
    obtain g where "efor (2 ^ (L - 1)) (unat ia) (\<lambda>j g. mul_mod_u32 m f1 g) f2 = Inr g"
      "unat g = unat f2 * unat f1 ^ (unat ia - 2 ^ (L - 1)) mod 2 ^ Suc L"
      using mul_mod_loop_le [OF m(1) K _ f(2), of "2 ^ (L - 1)" "unat ia" f1] False by auto
    with False h show ?thesis by (intro that [of g]) (simp_all add: word_less_nat_alt del: of_nat_power)
  qed
qed

lemma FindAutomorphismIndex2n_unfold:
  fixes f1 f2 :: u32
  assumes m: "unat m = 2 ^ Suc L" "2 \<le> L" "L \<le> 29" and i: "i \<noteq> 0" "\<bar>i\<bar> < 2 ^ 31"
    and f: "(if i < 0 then ebind (ModInverse 5 (ucast m)) (\<lambda>f. Inr (ucast f)) else Inr 5) = Inr f1"
      "(if i < 0 then ebind (ModInverse (ucast (m - 1)) (ucast m)) (\<lambda>f. Inr (ucast f)) else Inr (m - 1)) = Inr f2"
      "unat f1 < 2 ^ Suc L" "unat f2 < 2 ^ Suc L"
  obtains g where "FindAutomorphismIndex2n draw i m st = Some (Inr (g, st))"
    "unat g = (if nat \<bar>i\<bar> < 2 ^ (L - 1) then unat f1 ^ nat \<bar>i\<bar>
      else unat f2 * unat f1 ^ (nat \<bar>i\<bar> - 2 ^ (L - 1))) mod 2 ^ Suc L"
proof -
  have L63: "L < 63" "Suc L \<le> 31" using m by simp_all
  have um: "(ucast m :: u64) = 2 ^ Suc L"
    using m(1) unat_power2 [of "Suc L"] L63 by (simp add: word_unat_eq_iff del: power_Suc)
  have tot: "GetTotient draw (ucast m) st = Some (Inr (2 ^ L, st))"
    unfolding um using L63(1) by (rule GetTotient_power2)
  have "unat (2 ^ L :: u64) = 2 ^ L" by (rule unat_power2) (use m in simp)
  moreover have "(2::nat) ^ L < 2 ^ 32" using m by (intro power_strict_increasing) simp_all
  ultimately have n: "unat (ucast (2 ^ L :: u64) :: u32) = 2 ^ L" by (subst unat_ucast_32) simp_all
  have Ls: "(2::nat) ^ L = 2 * 2 ^ (L - 1)" using m by (cases L) simp_all
  have n2: "(ucast (2 ^ L :: u64) :: u32) div 2 = of_nat (2 ^ (L - 1))"
    using n m by (simp add: word_unat_eq_iff unat_div unat_power2_u32 Ls del: of_nat_power)
  obtain ia where ia: "abs_u32 i = Inr ia" "unat ia = nat \<bar>i\<bar>" using abs_u32_ok [OF i(2)] by blast
  have ui: "unat (of_nat (2 ^ (L - 1)) :: u32) = 2 ^ (L - 1)" using m by (intro unat_power2_u32) simp
  have "0 < unat ia" using ia(2) i by simp
  from slot_loop [OF m f(3,4) this] obtain g where
    g: "(if ia < of_nat (2 ^ (L - 1)) then efor 1 (unat ia) (\<lambda>j g. mul_mod_u32 m f1 g) f1
      else efor (2 ^ (L - 1)) (unat ia) (\<lambda>j g. mul_mod_u32 m f1 g) f2) = Inr g"
    "unat g = (if unat ia < 2 ^ (L - 1) then unat f1 ^ unat ia
      else unat f2 * unat f1 ^ (unat ia - 2 ^ (L - 1))) mod 2 ^ Suc L" by blast
  have "FindAutomorphismIndex2n draw i m st = Some (Inr (g, st))"
    unfolding FindAutomorphismIndex2n_def Let_def
    using i(1) by (simp only: tot f(1,2) ia(1) n2 ui g(1) rbind_simps rlift_simps if_False)
  then show ?thesis using g(2) unfolding ia(2) by (rule that)
qed

lemma automorphism_index_pos:
  assumes m: "unat m = 2 ^ Suc L" "2 \<le> L" "L \<le> 29" and i: "0 < i" "i < 2 ^ 31"
  obtains g where "FindAutomorphismIndex2n draw i m st = Some (Inr (g, st))" "unat g = slot_exponent L (nat i)"
proof -
  have L8: "(8::nat) \<le> 2 ^ Suc L" using power_increasing [of 3 "Suc L" "2::nat"] m(2) by simp
  have "1 \<le> m" using m(1) by (simp add: word_le_nat_alt)
  then have m1: "unat (m - 1) = 2 ^ Suc L - 1" using m(1) by (simp add: unat_sub)
  obtain g where "FindAutomorphismIndex2n draw i m st = Some (Inr (g, st))"
    "unat g = (if nat \<bar>i\<bar> < 2 ^ (L - 1) then unat (5 :: u32) ^ nat \<bar>i\<bar>
      else unat (m - 1) * unat (5 :: u32) ^ (nat \<bar>i\<bar> - 2 ^ (L - 1))) mod 2 ^ Suc L"
    by (rule FindAutomorphismIndex2n_unfold [OF m, of i 5 "m - 1" draw st]) (use i L8 m1 in simp_all)
  moreover have "nat \<bar>i\<bar> = nat i" "unat (5 :: u32) = 5" using i by simp_all
  ultimately show ?thesis by (intro that) (simp_all only: slot_exponent_def m1)
qed

lemma automorphism_index_neg:
  assumes m: "unat m = 2 ^ Suc L" "2 \<le> L" "L \<le> 29" and i: "i < 0" "- (2 ^ 31) < i"
  obtains g where "FindAutomorphismIndex2n draw i m st = Some (Inr (g, st))"
    "unat g * slot_exponent L (nat (- i)) mod 2 ^ Suc L = 1"
proof -
  let ?M = "(2::nat) ^ Suc L"
  have L8: "8 \<le> ?M" using power_increasing [of 3 "Suc L" "2::nat"] m(2) by simp
  have M32: "?M \<le> 2 ^ 31" using m by (intro power_increasing) simp_all
  have K: "0 < Suc L" "Suc L \<le> 31" using m by simp_all
  have "1 \<le> m" using m(1) by (simp add: word_le_nat_alt)
  then have m1: "unat (m - 1) = ?M - 1" using m(1) by (simp add: unat_sub)
  have od: "odd (?M - 1)" by simp
  have lt: "?M - 1 < 2 ^ 64" using M32 by simp
  obtain f1 where f1: "ModInverse (of_nat 5) (ucast m) = Inr f1" "unat f1 < ?M" "unat f1 * 5 mod ?M = 1"
    by (rule inverse_power2 [OF m(1) K, of 5]) simp_all
  obtain f2 where f2: "ModInverse (of_nat (?M - 1)) (ucast m) = Inr f2" "unat f2 < ?M" "unat f2 * (?M - 1) mod ?M = 1"
    by (rule inverse_power2 [OF m(1) K od lt])
  have e: "(ucast (m - 1) :: u64) = of_nat (?M - 1)"
    using m1 lt by (simp only: word_unat_eq_iff unat_ucast_32_64 unat_of_nat) simp
  have u: "unat (ucast f1 :: u32) = unat f1" "unat (ucast f2 :: u32) = unat f2"
    using f1(2) f2(2) M32 by (intro unat_ucast_32; simp)+
  obtain g where g: "FindAutomorphismIndex2n draw i m st = Some (Inr (g, st))"
    "unat g = (if nat \<bar>i\<bar> < 2 ^ (L - 1) then unat f1 ^ nat \<bar>i\<bar>
      else unat f2 * unat f1 ^ (nat \<bar>i\<bar> - 2 ^ (L - 1))) mod ?M"
    by (rule FindAutomorphismIndex2n_unfold [OF m, of i "ucast f1" "ucast f2" draw st, unfolded u])
       (use i f1 f2 e in simp_all)
  have inv: "unat f1 ^ n * 5 ^ n mod ?M = 1 mod ?M" for n by (rule inverse_power_mod) (use f1(3) L8 in simp)
  have "unat g * slot_exponent L (nat (- i)) mod ?M = 1 mod ?M"
  proof (cases "nat (- i) < 2 ^ (L - 1)")
    case True
    then have "unat g * slot_exponent L (nat (- i)) mod ?M = unat f1 ^ nat (- i) * 5 ^ nat (- i) mod ?M"
      using g(2) i by (simp add: slot_exponent_def mod_mult_eq)
    then show ?thesis using inv by simp
  next
    case False
    define n where "n = nat (- i) - 2 ^ (L - 1)"
    have "unat g * slot_exponent L (nat (- i)) mod ?M = (unat f2 * unat f1 ^ n) * ((?M - 1) * 5 ^ n) mod ?M"
      using g(2) i False by (simp add: slot_exponent_def mod_mult_eq n_def)
    also have "\<dots> = (unat f2 * (?M - 1)) * (unat f1 ^ n * 5 ^ n) mod ?M" by (simp only: ac_simps)
    also have "\<dots> = (unat f2 * (?M - 1) mod ?M) * (unat f1 ^ n * 5 ^ n mod ?M) mod ?M" by (simp only: mod_mult_eq)
    finally show ?thesis using f2(3) inv L8 by simp
  qed
  with g(1) L8 show ?thesis by (intro that) simp_all
qed

subsection \<open>The permutation of an automorphism\<close>

definition auto_idx :: "nat \<Rightarrow> nat \<Rightarrow> nat \<Rightarrow> nat" where
  "auto_idx L k j = ((2 * j + 1) * k mod 2 ^ Suc L) div 2"

lemma auto_idx_less: "auto_idx L k j < 2 ^ L"
proof -
  have "(2 * j + 1) * k mod 2 ^ Suc L < 2 ^ Suc L" by simp
  then show ?thesis unfolding auto_idx_def by (simp add: less_mult_imp_div_less mult.commute)
qed

lemma auto_idx_odd: "odd k \<Longrightarrow> 2 * auto_idx L k j + 1 = (2 * j + 1) * k mod 2 ^ Suc L"
proof -
  assume "odd k"
  then have "odd ((2 * j + 1) * k)" by simp
  then have "odd ((2 * j + 1) * k mod 2 ^ Suc L)" by (simp only: odd_iff_mod_2_eq_one) (simp add: mod_mod_cancel)
  then show ?thesis unfolding auto_idx_def by (rule odd_two_times_div_two_succ)
qed

lemma auto_idx_inj:
  assumes "odd k" "i < 2 ^ L" "j < 2 ^ L" "auto_idx L k i = auto_idx L k j"
  shows "i = j"
proof -
  have "k * (2 * i + 1) mod 2 ^ Suc L = k * (2 * j + 1) mod 2 ^ Suc L"
    using auto_idx_odd [OF assms(1), of L i] auto_idx_odd [OF assms(1), of L j] assms(4) by (simp add: mult.commute)
  then have "(2 * i + 1) mod 2 ^ Suc L = (2 * j + 1) mod 2 ^ Suc L"
    by (rule mult_cancel_mod [rotated]) (use assms(1) in simp)
  then show ?thesis using assms(2,3) by simp
qed

lemma round_log2_power2: "round_log2 (2 ^ L) = L"
  by (simp add: round_log2_def Let_def mult_2 flip: power_add)

lemma auto_idx_word:
  assumes "L \<le> 24" "j < 2 ^ L"
  shows "unat (drop_bit 1 ((push_bit 1 (of_nat j) + 1) * k - push_bit (Suc L) (drop_bit (Suc L) ((push_bit 1 (of_nat j) + 1) * k)) :: u32))
       = auto_idx L (unat k) j"
proof -
  define x where "x = (push_bit 1 (of_nat j) + 1) * k"
  have L: "Suc L \<le> 32" using assms(1) by simp
  have "(2::nat) ^ L \<le> 2 ^ 24" using assms(1) by (intro power_increasing) simp_all
  then have j: "2 * j + 1 < 2 ^ 32" using assms(2) by simp
  then have jw: "unat (of_nat j :: u32) = j" by (simp add: unat_of_nat)
  have "unat (push_bit 1 (of_nat j) + 1 :: u32) = 2 * j + 1"
    using j by (simp add: unat_word_ariths unat_push_bit jw)
  then have x: "unat x mod 2 ^ Suc L = (2 * j + 1) * unat k mod 2 ^ Suc L"
    unfolding x_def using u32_mod_power2(1) [OF L] by simp
  have le: "unat x div 2 ^ Suc L * 2 ^ Suc L \<le> unat x" by (rule div_times_less_eq_dividend)
  have x32: "unat x < 2 ^ 32" using unsigned_less [of x, where ?'a = nat] by simp
  have p: "unat (push_bit (Suc L) (drop_bit (Suc L) x)) = unat x div 2 ^ Suc L * 2 ^ Suc L"
    unfolding unat_push_bit unat_drop_bit using order.strict_trans1 [OF le x32] by simp
  have "unat (x - push_bit (Suc L) (drop_bit (Suc L) x)) = unat x - unat x div 2 ^ Suc L * 2 ^ Suc L"
    using le p by (subst unat_sub) (simp_all add: word_le_nat_alt del: power_Suc)
  also have "\<dots> = unat x mod 2 ^ Suc L" by (rule minus_div_mult_eq_mod)
  finally show ?thesis unfolding x_def [symmetric] unat_drop_bit by (simp add: x auto_idx_def del: power_Suc)
qed

lemma PrecomputeAutoMap_correct:
  assumes n: "unat n = 2 ^ L" "0 < L" "L \<le> 24" and p: "length precomp = 2 ^ L"
  obtains q where "PrecomputeAutoMap n k precomp = Inr q" "length q = 2 ^ L"
    "\<And>j. j < 2 ^ L \<Longrightarrow> unat (q ! brv L j) = brv L (auto_idx L (unat k) j)"
proof -
  have L32: "(2::nat) ^ Suc L < 2 ^ 32" using n by (intro power_strict_increasing) simp_all
  have m: "unat (push_bit 1 n) = 2 ^ Suc L" using L32 unfolding unat_push_bit n(1) by simp
  have lw: "unat (of_nat L :: u32) = L" using n by (simp add: unat_of_nat)
  define step where "step = (\<lambda>j (precomp :: u32 list).
      let jTmp = push_bit 1 (of_nat j) + 1
      in if Suc L \<ge> 32 then Inl ShiftOutOfRange
         else let idx = drop_bit 1 (jTmp * k - push_bit (Suc L) (drop_bit (Suc L) (jTmp * k)))
           in ebind (ReverseBits (of_nat j) (of_nat L)) (\<lambda>jrev.
              ebind (ReverseBits idx (of_nat L)) (\<lambda>idxrev. set_at precomp (unat jrev) idxrev)))"
  define P where "P = (\<lambda>j (q :: u32 list). length q = 2 ^ L \<and> (\<forall>i<j. unat (q ! brv L i) = brv L (auto_idx L (unat k) i)))"
  have "\<exists>q. efor 0 (2 ^ L) step precomp = Inr q \<and> P (2 ^ L) q"
  proof (rule efor_Inr)
    fix j and q :: "u32 list"
    assume j: "j < 2 ^ L" and q: "P j q"
    have "j < 2 ^ 32" using j L32 by simp
    then have jw: "unat (of_nat j :: u32) = j" by (simp add: unat_of_nat)
    obtain a where a: "ReverseBits (of_nat j) (of_nat L) = Inr a" "unat a = brv L j"
      by (rule ReverseBits_correct [of "of_nat L" "of_nat j"]) (use n lw jw in simp_all)
    let ?idx = "drop_bit 1 ((push_bit 1 (of_nat j) + 1) * k - push_bit (Suc L) (drop_bit (Suc L) ((push_bit 1 (of_nat j) + 1) * k)))"
    obtain b where b: "ReverseBits ?idx (of_nat L) = Inr b" "unat b = brv L (auto_idx L (unat k) j)"
      by (rule ReverseBits_correct [of "of_nat L" ?idx])
         (use n lw auto_idx_word [OF n(3) j, of k] in \<open>simp_all del: drop_bit_eq_div\<close>)
    have s: "step j q = Inr (q[brv L j := b])"
      using n(3) q brv_less [of L j] unfolding step_def Let_def a(1) b(1) ebind_simps by (simp add: set_at_def a(2) P_def)
    have "P (Suc j) (q[brv L j := b])"
      unfolding P_def
    proof (intro conjI allI impI)
      fix i assume i: "i < Suc j"
      show "unat (q[brv L j := b] ! brv L i) = brv L (auto_idx L (unat k) i)"
      proof (cases "i = j")
        case True
        then show ?thesis using q b(2) brv_less [of L j] by (simp add: P_def)
      next
        case False
        then have "brv L i \<noteq> brv L j" using brv_inj [of L] i j by (auto simp: inj_on_def)
        then show ?thesis using q i False by (simp add: P_def)
      qed
    qed (use q in \<open>simp add: P_def\<close>)
    then show "\<exists>q'. step j q = Inr q' \<and> P (Suc j) q'" using s by blast
  qed (simp_all add: P_def p)
  then obtain q where q: "efor 0 (2 ^ L) step precomp = Inr q" "P (2 ^ L) q" by blast
  have "n \<noteq> 0" "push_bit 1 n \<noteq> 0" using n(1) m by auto
  then have "PrecomputeAutoMap n k precomp = efor 0 (2 ^ L) step precomp"
    unfolding PrecomputeAutoMap_def Let_def step_def m n(1) round_log2_power2 by simp
  with q show ?thesis by (intro that [of q]) (simp_all add: P_def)
qed

lemma auto_table_permutation:
  assumes "odd k" and q: "length q = 2 ^ L" "\<And>j. j < 2 ^ L \<Longrightarrow> unat (q ! brv L j) = brv L (auto_idx L k j)"
  shows "distinct q" "unat ` set q = {..<2 ^ L}"
proof -
  have nth: "unat (q ! i) = brv L (auto_idx L k (brv L i))" if "i < 2 ^ L" for i
    using q(2) [of "brv L i"] brv_less [of L i] brv_brv [OF that] by simp
  show "distinct q"
  proof (unfold distinct_conv_nth, intro allI impI)
    fix i j assume ij: "i < length q" "j < length q" "i \<noteq> j"
    show "q ! i \<noteq> q ! j"
    proof
      assume "q ! i = q ! j"
      then have "brv L (auto_idx L k (brv L i)) = brv L (auto_idx L k (brv L j))"
        using nth ij q(1) by metis
      then have "auto_idx L k (brv L i) = auto_idx L k (brv L j)"
        using brv_brv [OF auto_idx_less] by metis
      then have "brv L i = brv L j" by (rule auto_idx_inj [OF assms(1) brv_less brv_less])
      then show False using ij q(1) brv_brv [of i L] brv_brv [of j L] by metis
    qed
  qed
  then have "card (set q) = 2 ^ L" by (simp add: distinct_card q(1))
  moreover have "inj_on unat (set q)" by (simp add: inj_on_def word_unat_eq_iff)
  ultimately have "card (unat ` set q) = 2 ^ L" by (simp add: card_image)
  moreover have "unat ` set q \<subseteq> {..<2 ^ L}" using nth q(1) brv_less by (auto simp: in_set_conv_nth)
  ultimately show "unat ` set q = {..<2 ^ L}" by (intro card_subset_eq) simp_all
qed

text \<open>\<open>GetDigits\<close> to the base \<open>2 ^ r\<close>.\<close>

lemma GetDigits_loop_value:
  assumes r: "0 < r" "r < 63"
  shows "\<exists>ds. GetDigits_loop k r u = Inr ds \<and> length ds = k \<and>
    (\<forall>i<k. ds ! i = int (unat u div 2 ^ (i * r) mod 2 ^ r))"
proof (induction k arbitrary: u)
  case (Suc k)
  define t where "t = (drop_bit r u :: u64)"
  have t: "unat t = unat u div 2 ^ r" by (simp add: t_def unat_drop_bit del: drop_bit_eq_div)
  have le: "unat u div 2 ^ r * 2 ^ r \<le> unat u" by (rule div_times_less_eq_dividend)
  have p: "unat (push_bit r t) = unat u div 2 ^ r * 2 ^ r"
    unfolding unat_push_bit t using order.strict_trans1 [OF le unat_less_64] by simp
  define d where "d = Sub u (push_bit r t)"
  have d: "unat d = unat u mod 2 ^ r"
    using le p by (simp add: d_def Sub_unat minus_div_mult_eq_mod)
  have d63: "unat d < 2 ^ 63"
  proof -
    have "unat d < 2 ^ r" by (simp add: d)
    also have "\<dots> \<le> (2::nat) ^ 63" using r by (intro power_increasing) simp_all
    finally show ?thesis .
  qed
  have "d = word_of_int (int (unat d))" by simp
  moreover have "int (unat d) < 2 ^ 63" using d63 by (simp only: of_nat_less_numeral_power_cancel_iff)
  moreover have "- (2 ^ 63) \<le> int (unat d)" by (rule order_trans [of _ 0]) simp_all
  ultimately have sd: "sint d = int (unat d)" using sint_word_of_int_64 [of "int (unat d)"] by (simp only:)
  from Suc.IH [of t] obtain ds where ds: "GetDigits_loop k r t = Inr ds" "length ds = k"
    "\<forall>i<k. ds ! i = int (unat t div 2 ^ (i * r) mod 2 ^ r)" by blast
  have "GetDigits_loop (Suc k) r u = Inr (sint d # ds)"
    using r ds(1) by (simp add: RShift_def LShift_def MaxBits_def Let_def t_def [symmetric] d_def)
  moreover have "(sint d # ds) ! i = int (unat u div 2 ^ (i * r) mod 2 ^ r)" if "i < Suc k" for i
  proof (cases i)
    case 0
    then show ?thesis by (simp only: nth_Cons_0 sd d) simp
  next
    case (Suc j)
    then show ?thesis using ds(3) that by (simp add: t power_add div_mult2_eq)
  qed
  ultimately show ?case using ds(2) by (intro exI [of _ "sint d # ds"]) simp
qed simp

section \<open>Properties\<close>

text \<open>
  For a ring dimension \<open>2 ^ L\<close> and an odd automorphism exponent \<open>k\<close>, \<open>PrecomputeAutoMap\<close> fills the
  table with a permutation of the positions, and entry \<open>brv j\<close> is the position of the
  transform's value at the root power \<open>(2 j + 1) k\<close>.
\<close>

theorem automorphism_table:
  assumes n: "unat n = 2 ^ L" "0 < L" "L \<le> 24" and p: "length precomp = 2 ^ L" and k: "odd (unat k)"
  shows "\<exists>q. PrecomputeAutoMap n k precomp = Inr q \<and> length q = 2 ^ L \<and> distinct q \<and> unat ` set q = {..<2 ^ L} \<and>
    (\<forall>j<2 ^ L. 2 * brv L (unat (q ! brv L j)) + 1 = (2 * j + 1) * unat k mod 2 ^ Suc L)"
proof -
  obtain q where q: "PrecomputeAutoMap n k precomp = Inr q" "length q = 2 ^ L"
    "\<And>j. j < 2 ^ L \<Longrightarrow> unat (q ! brv L j) = brv L (auto_idx L (unat k) j)"
    using PrecomputeAutoMap_correct [OF n p, of k] by blast
  note perm = auto_table_permutation [OF k q(2,3)]
  have "2 * brv L (unat (q ! brv L j)) + 1 = (2 * j + 1) * unat k mod 2 ^ Suc L" if "j < 2 ^ L" for j
    using q(3) [OF that] auto_idx_odd [OF k, of L j] brv_brv [OF auto_idx_less, of L "unat k" j] by simp
  with q(1,2) perm show ?thesis by blast
qed

theorem automorphism_table_witness:
  "\<exists>q. PrecomputeAutoMap 8 5 (replicate 8 0) = Inr q \<and> distinct q"
  using automorphism_table [of 8 3 "replicate 8 0" 5] by auto

text \<open>
  The rotation index for a ring of order \<open>2 ^ (L + 1)\<close>: for \<open>i > 0\<close> \<open>FindAutomorphismIndex2n\<close> returns the
  exponent of slot \<open>i\<close>, and for \<open>- i\<close> the inverse of that exponent modulo the order, so the
  automorphism for \<open>- i\<close> undoes the one for \<open>i\<close>; no random number is drawn.
\<close>

theorem rotation_index:
  assumes m: "unat m = 2 ^ Suc L" "2 \<le> L" "L \<le> 29" and i: "0 < i" "i < 2 ^ 31"
  shows "\<exists>g h. FindAutomorphismIndex2n draw i m st = Some (Inr (g, st)) \<and> unat g = slot_exponent L (nat i) \<and>
    FindAutomorphismIndex2n draw (- i) m st = Some (Inr (h, st)) \<and> unat h * unat g mod 2 ^ Suc L = 1"
proof -
  obtain g where g: "FindAutomorphismIndex2n draw i m st = Some (Inr (g, st))" "unat g = slot_exponent L (nat i)"
    by (rule automorphism_index_pos [OF m i])
  have "- i < 0" "- (2 ^ 31) < - i" using i by simp_all
  then obtain h where h: "FindAutomorphismIndex2n draw (- i) m st = Some (Inr (h, st))"
    "unat h * slot_exponent L (nat (- (- i))) mod 2 ^ Suc L = 1" by (rule automorphism_index_neg [OF m])
  from g h show ?thesis by (intro exI [of _ g] exI [of _ h]) simp
qed

theorem rotation_index_witness:
  "\<exists>g h. FindAutomorphismIndex2n fixed_draw 3 32 () = Some (Inr (g, ())) \<and> unat g = 29 \<and>
    FindAutomorphismIndex2n fixed_draw (- 3) 32 () = Some (Inr (h, ())) \<and> unat h * unat g mod 32 = 1"
  using rotation_index [of 32 4 3 fixed_draw "()"] by (simp add: slot_exponent_def)

text \<open>
  The CKKS rotation index: in a ring of order \<open>2 ^ K\<close> the automorphism for a positive \<open>i\<close> is the power
  \<open>5 ^ i\<close>, reduced, the one for \<open>- i\<close> its inverse, and \<open>m - 1\<close> is the conjugation.
\<close>

theorem ckks_rotation_index:
  assumes m: "unat m = 2 ^ K" "3 \<le> K" "K \<le> 30" and i: "0 < i" "i < 2 ^ 31" "i \<noteq> 2 ^ K - 1"
  shows "(\<exists>g h. FindAutomorphismIndex2nComplex i m = Inr g \<and> unat g = 5 ^ nat i mod 2 ^ K \<and>
    FindAutomorphismIndex2nComplex (- i) m = Inr h \<and> unat h * unat g mod 2 ^ K = 1) \<and>
    FindAutomorphismIndex2nComplex (2 ^ K - 1) m = Inr (m - 1)"
proof
  obtain g where g: "FindAutomorphismIndex2nComplex i m = Inr g" "unat g = 5 ^ nat i mod 2 ^ K"
    by (rule FindAutomorphismIndex2nComplex_pos [OF m i])
  have "- i < 0" "- (2 ^ 31) < - i" using i by simp_all
  then obtain h where h: "FindAutomorphismIndex2nComplex (- i) m = Inr h" "unat h * 5 ^ nat (- (- i)) mod 2 ^ K = 1"
    by (rule FindAutomorphismIndex2nComplex_neg [OF m])
  from g h show "\<exists>g h. FindAutomorphismIndex2nComplex i m = Inr g \<and> unat g = 5 ^ nat i mod 2 ^ K \<and>
    FindAutomorphismIndex2nComplex (- i) m = Inr h \<and> unat h * unat g mod 2 ^ K = 1"
    by (intro exI [of _ g] exI [of _ h]) (simp add: mod_mult_right_eq)
  have "m = word_of_int (2 ^ K)"
  proof -
    have "m = of_nat (unat m)" by simp
    also have "\<dots> = 2 ^ K" by (simp only: m(1)) simp
    finally show ?thesis by simp
  qed
  moreover have "(2::int) ^ K - 1 \<noteq> 0" using power_increasing [OF m(2), of "2::int"] by simp
  ultimately show "FindAutomorphismIndex2nComplex (2 ^ K - 1) m = Inr (m - 1)"
    using sint_power2 [OF m(1,3)] by (simp add: FindAutomorphismIndex2nComplex_def)
qed

theorem ckks_rotation_index_witness:
  "\<exists>g h. FindAutomorphismIndex2nComplex 3 16 = Inr g \<and> unat g = 13 \<and>
    FindAutomorphismIndex2nComplex (- 3) 16 = Inr h \<and> unat h * unat g mod 16 = 1"
  using ckks_rotation_index [of 16 4 3] by simp

text \<open>
  The 32-bit \<open>ModInverse\<close> computes the inverse of an odd number modulo a power of two; its wrapping
  subtraction gives the wrong answer already for 3 modulo 7.
\<close>

theorem usint_inverse:
  assumes "unat b = 2 ^ K" "0 < K" "K \<le> 31" "odd (unat a)"
  shows "(\<exists>r. ModInverse_usint a b = Inr r \<and> unat r * unat a mod 2 ^ K = 1) \<and>
    ModInverse_usint 3 7 = Inr 4294967294"
proof
  show "\<exists>r. ModInverse_usint a b = Inr r \<and> unat r * unat a mod 2 ^ K = 1"
    by (rule ModInverse_usint_power2 [OF assms])
  show "ModInverse_usint 3 7 = Inr 4294967294" by code_simp
qed

theorem usint_inverse_witness: "\<exists>r. ModInverse_usint 5 16 = Inr r \<and> unat r * 5 mod 16 = 1"
  using usint_inverse [of 16 4 5] by simp

text \<open>\<open>FindAutomorphismIndexCyclic\<close> gives the indices 1 and 2 the same automorphism.\<close>

lemma cyclic_index_repeats:
  "FindAutomorphismIndexCyclic fixed_draw 1 5 2 () = Some (Inr (2, ()))"
  "FindAutomorphismIndexCyclic fixed_draw 2 5 2 () = Some (Inr (2, ()))"
  "FindAutomorphismIndexCyclic fixed_draw 3 5 2 () = Some (Inr (4, ()))"
  by code_simp+

end
