(* ===== verification/PolyArith.thy ===== *)
theory PolyArith
  imports Automorph
begin

text \<open>
  Polynomial arithmetic on coefficient vectors (\<open>nbtheory-impl.h\<close>) and the cyclotomic polynomials
  (\<open>nbtheory2.cpp\<close>). The products \<open>a[i] * b[j]\<close> are plain 64-bit products, reduced only after they
  have wrapped: the facts say for which moduli they are right.
\<close>

section \<open>Definitions\<close>

text \<open>Lengths and indices are \<open>usint\<close>.\<close>

definition len32 :: "'a list \<Rightarrow> u32" where
  "len32 xs = of_nat (length xs)"

subsection \<open>Division and multiplication of polynomials\<close>

definition PolyMod_step :: "u64 list \<Rightarrow> u64 \<Rightarrow> u64 \<Rightarrow> u32 \<Rightarrow> u32 \<Rightarrow> nat \<Rightarrow> u64 list \<Rightarrow> u64 list res" where
  "PolyMod_step divisor modulus mu dividendLength divisorLength i rd =
     ebind (get_at rd (unat (dividendLength - 1))) (\<lambda>divConst.
     let divisorPtr = divisorLength - 1
     in efor 0 (unat (dividendLength - of_nat i - 1)) (\<lambda>j rd.
          ebind (get_at rd (unat (dividendLength - 2 - of_nat j))) (\<lambda>v.
          ebind (set_at rd (unat (dividendLength - 1 - of_nat j)) v) (\<lambda>rd.
            if divisorPtr > of_nat j
            then ebind (get_at divisor (unat (divisorPtr - 1 - of_nat j))) (\<lambda>c.
                 ebind (Mul c divConst) (\<lambda>p.
                   set_at rd (unat (dividendLength - 1 - of_nat j)) (ModSubEq_mu v p modulus mu)))
            else Inr rd))) rd)"

definition PolyMod :: "nvec \<Rightarrow> nvec \<Rightarrow> u64 \<Rightarrow> nvec res" where
  "PolyMod dividend divisor modulus =
     ebind (ComputeMu modulus) (\<lambda>mu.
     let divisorLength = len32 (m_data divisor); dividendLength = len32 (m_data dividend);
         runs = dividendLength - divisorLength + 1
     in ebind (efor 0 (unat runs) (PolyMod_step (m_data divisor) modulus mu dividendLength divisorLength) (m_data dividend)) (\<lambda>rd.
        ebind (efor 0 (unat (divisorLength - 1)) (\<lambda>i result.
            ebind (get_at rd (unat (runs + of_nat i))) (set_at result i))
          (replicate (unat (divisorLength - 1)) 0)) (\<lambda>d.
        Inr \<lparr>m_modulus = modulus, m_data = d\<rparr>)))"

definition PolynomialMultiplication :: "nvec \<Rightarrow> nvec \<Rightarrow> nvec res" where
  "PolynomialMultiplication a b =
     (let degreeA = len32 (m_data a); degreeB = len32 (m_data b);
          degreeResultant = degreeA + degreeB - 1; modulus = m_modulus a
      in ebind (efor 0 (unat degreeA) (\<lambda>i result.
           efor 0 (unat degreeB) (\<lambda>j result.
             ebind (get_at result (i + j)) (\<lambda>r.
             ebind (Mul (m_data a ! i) (m_data b ! j)) (\<lambda>p.
               set_at result (i + j) (ModAddEq r p modulus)))) result)
           (replicate (unat degreeResultant) 0)) (\<lambda>d.
         Inr \<lparr>m_modulus = modulus, m_data = d\<rparr>))"

subsection \<open>Synthetic division\<close>

definition SyntheticRemainder :: "nvec \<Rightarrow> u64 \<Rightarrow> u64 \<Rightarrow> u64 res" where
  "SyntheticRemainder dividend a modulus =
     ebind (ComputeMu modulus) (\<lambda>mu.
     ebind (get_at (m_data dividend) (unat (len32 (m_data dividend) - 1))) (\<lambda>v.
       efold (\<lambda>i v.
           ebind (Mul a v) (\<lambda>p. ebind (Add (m_data dividend ! i) p) (\<lambda>s. Inr (Mod_mu s modulus mu))))
         (rev [0..<length (m_data dividend) - 1]) v))"

definition SyntheticPolyRemainder :: "nvec \<Rightarrow> nvec \<Rightarrow> u64 \<Rightarrow> nvec res" where
  "SyntheticPolyRemainder dividend aList modulus =
     ebind (emap (\<lambda>a. SyntheticRemainder dividend a modulus) (m_data aList)) (\<lambda>d.
       Inr \<lparr>m_modulus = modulus, m_data = d\<rparr>)"

definition PolynomialPower :: "nvec \<Rightarrow> u32 \<Rightarrow> nvec res" where
  "PolynomialPower input pw =
     (let finalDegree = (len32 (m_data input) - 1) * pw
      in ebind (efor 0 (length (m_data input)) (\<lambda>i finalPoly.
             set_at finalPoly (unat (of_nat i * pw)) (m_data input ! i))
           (replicate (unat (finalDegree + 1)) 0)) (\<lambda>d.
         Inr \<lparr>m_modulus = m_modulus input, m_data = d\<rparr>))"

definition SyntheticPolynomialDivision :: "nvec \<Rightarrow> u64 \<Rightarrow> u64 \<Rightarrow> nvec res" where
  "SyntheticPolynomialDivision dividend a modulus =
     ebind (ComputeMu modulus) (\<lambda>mu.
     let n = len32 (m_data dividend) - 1
     in ebind (get_at (m_data dividend) (unat n)) (\<lambda>v.
        ebind (set_at (replicate (unat n) 0) (unat (n - 1)) v) (\<lambda>result.
        ebind (efold (\<lambda>i (v, result).
            ebind (Mul v a) (\<lambda>p. ebind (Add p (m_data dividend ! i)) (\<lambda>s.
              let v = Mod_mu s modulus mu
              in ebind (set_at result (i - 1) v) (\<lambda>result. Inr (v, result)))))
          (rev [1..<unat n]) (v, result)) (\<lambda>(v, result).
        Inr \<lparr>m_modulus = modulus, m_data = result\<rparr>))))"

subsection \<open>Cyclotomic polynomials\<close>

text \<open>\<open>int\<close> arithmetic: a result outside 32 bits is undefined.\<close>

definition i32 :: "int \<Rightarrow> int res" where
  "i32 x = (if - (2 ^ 31) \<le> x \<and> x < 2 ^ 31 then Inr x else Inl SignedOverflow)"

definition IsPrime :: "nat \<Rightarrow> bool" where
  "IsPrime v = (if v mod 2 = 0 then False else list_all (\<lambda>i. v mod i \<noteq> 0) (filter odd [3..<v]))"

definition GetDivisibleNumbers :: "nat \<Rightarrow> nat list" where
  "GetDivisibleNumbers val = filter (\<lambda>i. val mod i = 0) [1..<val]"

definition PolyMult :: "int list \<Rightarrow> int list \<Rightarrow> int list res" where
  "PolyMult a b =
     efor 0 (length a) (\<lambda>i product.
       efor 0 (length b) (\<lambda>j product.
         ebind (get_at product (i + j)) (\<lambda>r.
         ebind (i32 (a ! i * b ! j)) (\<lambda>p.
         ebind (i32 (r + p)) (set_at product (i + j))))) product)
       (replicate (unat (len32 a + len32 b - 1)) 0)"

definition PolyQuotient_step :: "int list \<Rightarrow> u32 \<Rightarrow> u32 \<Rightarrow> nat \<Rightarrow> int list \<times> int list \<Rightarrow> (int list \<times> int list) res" where
  "PolyQuotient_step divisor dividendLength divisorLength i = (\<lambda>(quotient, rd).
     ebind (get_at rd (unat (dividendLength - 1))) (\<lambda>divConst.
     let divisorPtr = divisorLength - 1
     in ebind (efor 0 (unat (dividendLength - of_nat i - 1)) (\<lambda>j rd.
          ebind (get_at rd (unat (dividendLength - 2 - of_nat j))) (\<lambda>v.
          ebind (set_at rd (unat (dividendLength - 1 - of_nat j)) v) (\<lambda>rd.
            if divisorPtr > of_nat j
            then ebind (get_at divisor (unat (divisorPtr - 1 - of_nat j))) (\<lambda>c.
                 ebind (i32 (c * divConst)) (\<lambda>p.
                 ebind (i32 (v - p)) (set_at rd (unat (dividendLength - 1 - of_nat j)))))
            else Inr rd))) rd) (\<lambda>rd.
        ebind (get_at rd (unat (dividendLength - 1))) (\<lambda>v.
        ebind (set_at quotient (i + 1) v) (\<lambda>quotient. Inr (quotient, rd))))))"

text \<open>\<open>pop_back\<close> drops the entry the last run stored.\<close>

definition PolyQuotient :: "int list \<Rightarrow> int list \<Rightarrow> int list res" where
  "PolyQuotient dividend divisor =
     (let divisorLength = len32 divisor; dividendLength = len32 dividend;
          runs = dividendLength - divisorLength + 1
      in ebind (efor 0 (unat runs) (PolyQuotient_step divisor dividendLength divisorLength)
           (replicate (unat (runs + 1)) 0, dividend)) (\<lambda>(quotient, rd).
         ebind (set_at quotient 0 1) (\<lambda>quotient. Inr (butlast quotient))))"

function GetCyclotomicPolynomialRecursive :: "nat \<Rightarrow> int list res" where
  "GetCyclotomicPolynomialRecursive m =
     (if m = 1 then Inr [- 1, 1]
      else if m = 2 then Inr [1, 1]
      else if IsPrime m then Inr (replicate m 1)
      else ebind (efold (\<lambda>d product.
             ebind (GetCyclotomicPolynomialRecursive d) (\<lambda>P. PolyMult product P))
           (GetDivisibleNumbers m) [1]) (\<lambda>product.
        ebind (set_at (replicate (unat (of_nat m + 1 :: u32)) 0) 0 (- 1)) (\<lambda>bigPoly.
        ebind (set_at bigPoly m 1) (\<lambda>bigPoly. PolyQuotient bigPoly product))))"
  by auto
termination
  by (relation "measure (\<lambda>m. m)") (auto simp: GetDivisibleNumbers_def)

declare GetCyclotomicPolynomialRecursive.simps [simp del]

definition GetCyclotomicPolynomial :: "u32 \<Rightarrow> u64 \<Rightarrow> nvec res" where
  "GetCyclotomicPolynomial m modulus =
     ebind (GetCyclotomicPolynomialRecursive (unat m)) (\<lambda>intCP.
       Inr \<lparr>m_modulus = modulus,
         m_data = map (\<lambda>v. if v > - 1 then word_of_int v else Sub modulus (word_of_int (- v))) intCP\<rparr>)"

section \<open>Facts\<close>

text \<open>The coefficients of a vector as a function, and the product of two coefficient functions.\<close>

definition pc :: "nvec \<Rightarrow> nat \<Rightarrow> int" where
  "pc v k = (if k < length (m_data v) then uint (m_data v ! k) else 0)"

definition conv :: "(nat \<Rightarrow> int) \<Rightarrow> (nat \<Rightarrow> int) \<Rightarrow> nat \<Rightarrow> int" where
  "conv f g k = (\<Sum>i\<le>k. f i * g (k - i))"

text \<open>A modulus whose residues multiply without leaving 64 bits.\<close>

definition small_modulus :: "u64 \<Rightarrow> bool" where
  "small_modulus m \<longleftrightarrow> barrett_modulus m \<and> unat m \<le> 2 ^ 32"

lemma efold_rev_Inr:
  assumes "\<And>i s. lo \<le> i \<Longrightarrow> i < hi \<Longrightarrow> P (Suc i) s \<Longrightarrow> \<exists>s'. f i s = Inr s' \<and> P i s'" "lo \<le> hi" "P hi s"
  shows "\<exists>s'. efold f (rev [lo..<hi]) s = Inr s' \<and> P lo s'"
  using assms
proof (induction hi arbitrary: s)
  case (Suc hi)
  show ?case
  proof (cases "lo = Suc hi")
    case False
    with Suc.prems(2) have le: "lo \<le> hi" by simp
    obtain s' where s': "f hi s = Inr s'" "P hi s'" using Suc.prems(1,3) le by blast
    have "\<exists>s''. efold f (rev [lo..<hi]) s' = Inr s'' \<and> P lo s''"
      by (rule Suc.IH) (use Suc.prems(1) le s' in auto)
    with s' le show ?thesis by simp
  qed (use Suc.prems in simp)
qed simp

lemma unat_diff_u32: "b \<le> a \<Longrightarrow> a < 2 ^ 32 \<Longrightarrow> unat (of_nat a - of_nat b :: u32) = a - b"
  by (simp add: unsigned_of_nat take_bit_nat_eq_self flip: of_nat_diff)

subsection \<open>Products of residues\<close>

lemma small_product:
  fixes m a b :: u64
  assumes "unat m \<le> 2 ^ 32" "unat a < unat m" "unat b < unat m"
  shows "unat (a * b) = unat a * unat b" "unat a * unat b + unat m \<le> unat m * unat m"
proof -
  have "unat a * unat b + unat m \<le> unat a * unat m + unat m"
    using mult_le_mono2 [OF less_imp_le [OF assms(3)], of "unat a"] by linarith
  also have "\<dots> = Suc (unat a) * unat m" by simp
  also have "\<dots> \<le> unat m * unat m" using assms(2) by (intro mult_le_mono1) simp
  finally show le: "unat a * unat b + unat m \<le> unat m * unat m" .
  have "unat m * unat m \<le> 2 ^ 32 * 2 ^ 32" using assms by (intro mult_le_mono)
  with le assms(2) have "unat a * unat b < 2 ^ 64" by simp
  then show "unat (a * b) = unat a * unat b" by (subst unat_mult_lem [THEN iffD1]) simp_all
qed

lemma square_bound: "unat m * unat m \<le> 2 ^ (2 * bit_len (unat m))"
  using mult_le_mono [OF less_imp_le [OF bit_len_upper [of "unat m"]] less_imp_le [OF bit_len_upper [of "unat m"]]]
  by (simp add: mult_2 power_add)

lemma Mod_mu_small:
  assumes m: "small_modulus m" and x: "unat x \<le> unat m * unat m"
  shows "unat (Mod_mu x m (mu_of m)) = unat x mod unat m"
proof -
  have "unat x < 2 ^ (2 * bit_len (unat m) + 2)"
    using x square_bound [of m] power_strict_increasing [of "2 * bit_len (unat m)" "2 * bit_len (unat m) + 2" "2::nat"]
    by linarith
  then show ?thesis
    using m unfolding Mod_mu_def by (intro ModMu_correct) (auto simp: small_modulus_def unat_mu_of)
qed

lemma horner_step:
  assumes m: "small_modulus m" and b: "unat a < unat m" "unat v < unat m" "unat c < unat m"
  shows "unat (Mod_mu (c + v * a) m (mu_of m)) = (unat c + unat v * unat a) mod unat m"
proof -
  have 32: "unat m \<le> 2 ^ 32" using m by (simp add: small_modulus_def)
  note p = small_product [OF 32 b(2,1)]
  have "unat m * unat m \<le> 2 ^ 32 * 2 ^ 32" using 32 by (intro mult_le_mono)
  then have "unat c + unat v * unat a < 2 ^ 64" using p(2) b(3) by simp
  then have "unat (c + v * a) = unat c + unat v * unat a" using p(1) by (subst unat_add_lem [THEN iffD1]) auto
  moreover from this have "unat (c + v * a) \<le> unat m * unat m" using p(2) b(3) by simp
  ultimately show ?thesis using Mod_mu_small [OF m] by metis
qed

lemma ModSubEq_mu_small:
  assumes m: "small_modulus m" and b: "unat a < unat m" "unat p \<le> unat m * unat m"
  shows "unat (ModSubEq_mu a p m (mu_of m)) = (unat a + (unat m - unat p mod unat m)) mod unat m"
proof -
  have "m > 0" "unat m \<le> 2 ^ 63" using m by (auto simp: small_modulus_def barrett_modulus_def word_less_nat_alt)
  then have pos: "0 < unat m" by (simp add: word_less_nat_alt)
  define q where "q = (if p \<ge> m then ModEq_mu p m (mu_of m) else p)"
  have q: "unat q = unat p mod unat m"
    using Mod_mu_small [OF m b(2)] by (auto simp: q_def ModEq_mu_def Mod_mu_def word_le_nat_alt)
  have "ModSubEq_mu a p m (mu_of m) = ModSubFast a q m"
    using b(1) by (simp add: ModSubEq_mu_def Let_def q_def ModSubFast_def word_le_nat_alt)
  moreover have "unat (ModSubFast a q m) = (unat a + (unat m - unat q)) mod unat m"
    using b(1) q pos \<open>unat m \<le> 2 ^ 63\<close> by (intro ModSubFast_correct) auto
  ultimately show ?thesis using q by simp
qed

text \<open>The same facts on integers.\<close>

lemma uint_horner_step:
  assumes "small_modulus m" "a < m" "v < m" "c < m"
  shows "uint (Mod_mu (c + v * a) m (mu_of m)) = (uint c + uint v * uint a) mod uint m"
    "Mod_mu (c + v * a) m (mu_of m) < m"
proof -
  have u: "unat (Mod_mu (c + v * a) m (mu_of m)) = (unat c + unat v * unat a) mod unat m"
    using assms by (intro horner_step) (auto simp: word_less_nat_alt)
  then have "int (unat (Mod_mu (c + v * a) m (mu_of m))) = (int (unat c) + int (unat v) * int (unat a)) mod int (unat m)"
    by (simp add: zmod_int del: int_nat_eq unsigned_of_nat)
  then show "uint (Mod_mu (c + v * a) m (mu_of m)) = (uint c + uint v * uint a) mod uint m" by simp
  have "0 < unat m" using assms(2) by (simp add: word_less_nat_alt)
  with u show "Mod_mu (c + v * a) m (mu_of m) < m" by (simp add: word_less_nat_alt)
qed

lemma uint_sub_step:
  assumes "small_modulus m" "a < m" "c < m" "d < m"
  shows "uint (ModSubEq_mu a (d * c) m (mu_of m)) = (uint a - uint d * uint c) mod uint m"
    "ModSubEq_mu a (d * c) m (mu_of m) < m"
proof -
  have 32: "unat m \<le> 2 ^ 32" using assms by (simp add: small_modulus_def)
  note p = small_product [OF 32, of d c]
  have u: "unat (ModSubEq_mu a (d * c) m (mu_of m)) = (unat a + (unat m - unat (d * c) mod unat m)) mod unat m"
    using assms p by (intro ModSubEq_mu_small) (auto simp: word_less_nat_alt)
  have pos: "0 < unat m" using assms(2) by (simp add: word_less_nat_alt)
  have "unat (d * c) mod unat m \<le> unat m" using pos by (simp add: less_imp_le)
  then have i: "int (unat a + (unat m - unat (d * c) mod unat m))
      = int (unat a) + (int (unat m) - int (unat (d * c)) mod int (unat m))"
    by (simp only: of_nat_add of_nat_diff zmod_int)
  have "unat (d * c) = unat d * unat c" using p(1) assms by (simp add: word_less_nat_alt)
  with u i have "int (unat (ModSubEq_mu a (d * c) m (mu_of m)))
      = (int (unat a) + (int (unat m) - int (unat d) * int (unat c) mod int (unat m))) mod int (unat m)"
    by (simp only: zmod_int of_nat_mult)
  also have "\<dots> = (int (unat a) - int (unat d) * int (unat c)) mod int (unat m)"
  proof -
    have "(A + (M - B mod M)) mod M = (A - B) mod M" for A B M :: int
    proof -
      have "A + (M - B mod M) = (A - B mod M) + M" by simp
      then show ?thesis by (simp only: mod_add_self2 mod_diff_right_eq)
    qed
    then show ?thesis .
  qed
  finally show "uint (ModSubEq_mu a (d * c) m (mu_of m)) = (uint a - uint d * uint c) mod uint m" by simp
  show "ModSubEq_mu a (d * c) m (mu_of m) < m" using u pos by (simp add: word_less_nat_alt)
qed

subsection \<open>Synthetic division is Horner's rule\<close>

fun horner :: "int \<Rightarrow> int \<Rightarrow> int list \<Rightarrow> int" where
  "horner m a [] = 0"
| "horner m a (c # cs) = (c + a * horner m a cs) mod m"

lemma horner_sum: "0 < m \<Longrightarrow> horner m a cs = (\<Sum>i<length cs. cs ! i * a ^ i) mod m"
proof (induction cs)
  case (Cons c cs)
  have "(\<Sum>i<Suc (length cs). (c # cs) ! i * a ^ i) = c + a * (\<Sum>i<length cs. cs ! i * a ^ i)"
    by (subst sum.lessThan_Suc_shift) (simp add: sum_distrib_left mult_ac)
  moreover have "(c + a * (S mod m)) mod m = (c + a * S) mod m" for S
    by (metis mod_add_right_eq mod_mult_right_eq)
  ultimately show ?case using Cons by simp
qed simp

lemma horner_drop:
  "i < length cs \<Longrightarrow> horner m a (drop i cs) = (cs ! i + a * horner m a (drop (Suc i) cs)) mod m"
  by (subst Cons_nth_drop_Suc [symmetric]) simp_all

lemma SyntheticRemainder_horner:
  assumes m: "small_modulus m" and p: "reduced m (m_data p)" "m_data p \<noteq> []" "length (m_data p) < 2 ^ 32" and a: "a < m"
  shows "\<exists>r. SyntheticRemainder p a m = Inr r \<and> r < m \<and> uint r = horner (uint m) (uint a) (map uint (m_data p))"
proof -
  let ?cs = "map uint (m_data p)"
  define n where "n = length (m_data p) - 1"
  have l: "length (m_data p) = Suc n" using p(2) by (simp add: n_def)
  have red: "m_data p ! i < m" if "i \<le> n" for i
    using reduced_nth [OF p(1)] that l by (simp add: word_less_nat_alt)
  have n32: "unat (len32 (m_data p) - 1) = n"
    using p(3) l unat_diff_u32 [of 1 "Suc n"] by (simp add: len32_def)
  have b: "barrett_modulus m" using m by (simp add: small_modulus_def)
  have top: "uint (m_data p ! n) = horner (uint m) (uint a) (drop n ?cs)"
    using l red [of n] by (subst horner_drop) (simp_all add: word_less_def)
  define P where "P = (\<lambda>i v. v < m \<and> uint v = horner (uint m) (uint a) (drop i ?cs))"
  have "\<exists>s'. efold (\<lambda>i v. ebind (Mul a v) (\<lambda>q. ebind (Add (m_data p ! i) q) (\<lambda>s. Inr (Mod_mu s m (mu_of m)))))
      (rev [0..<n]) (m_data p ! n) = Inr s' \<and> P 0 s'"
  proof (rule efold_rev_Inr)
    fix i v assume i: "i < n" and v: "P (Suc i) v"
    note h = uint_horner_step [OF m a, of v "m_data p ! i"]
    have d: "horner (uint m) (uint a) (drop i ?cs) = (uint (m_data p ! i) + uint a * horner (uint m) (uint a) (drop (Suc i) ?cs)) mod uint m"
      using l i by (subst horner_drop) simp_all
    show "\<exists>s'. ebind (Mul a v) (\<lambda>q. ebind (Add (m_data p ! i) q) (\<lambda>s. Inr (Mod_mu s m (mu_of m)))) = Inr s' \<and> P i s'"
      using h v red [of i] i d
      by (simp add: Mul_def MulFast_def Add_def AddFast_def NATIVEINT_DO_CHECKS_def P_def mult.commute add.commute)
  qed (use top red [of n] in \<open>auto simp: P_def\<close>)
  then show ?thesis
    using l by (auto simp: SyntheticRemainder_def ComputeMu_eq [OF b] n32 get_at_def P_def)
qed

lemma SyntheticPolynomialDivision_horner:
  assumes m: "small_modulus m" and p: "reduced m (m_data p)" "2 \<le> length (m_data p)" "length (m_data p) < 2 ^ 31" and a: "a < m"
  shows "\<exists>d. SyntheticPolynomialDivision p a m = Inr \<lparr>m_modulus = m, m_data = d\<rparr> \<and> Suc (length d) = length (m_data p) \<and>
    (\<forall>k<length d. d ! k < m \<and> uint (d ! k) = horner (uint m) (uint a) (drop (Suc k) (map uint (m_data p))))"
proof -
  let ?cs = "map uint (m_data p)"
  define n where "n = length (m_data p) - 1"
  have l: "length (m_data p) = Suc n" and n1: "1 \<le> n" using p(2) by (auto simp: n_def)
  have red: "m_data p ! i < m" if "i \<le> n" for i
    using reduced_nth [OF p(1)] that l by (simp add: word_less_nat_alt)
  have n32: "len32 (m_data p) - 1 = of_nat n" "unat (of_nat n :: u32) = n" "unat (of_nat n - 1 :: u32) = n - 1"
    using p(3) l n1 unat_diff_u32 [of 0 n] unat_diff_u32 [of 1 n] by (simp_all add: len32_def)
  have b: "barrett_modulus m" using m by (simp add: small_modulus_def)
  have top: "uint (m_data p ! n) = horner (uint m) (uint a) (drop n ?cs)"
    using l red [of n] by (subst horner_drop) (simp_all add: word_less_def)
  define H where "H = (\<lambda>k. horner (uint m) (uint a) (drop k ?cs))"
  define step where "step = (\<lambda>i (v, result). ebind (Mul v a) (\<lambda>q. ebind (Add q (m_data p ! i)) (\<lambda>s.
      let v = Mod_mu s m (mu_of m) in ebind (set_at result (i - 1) v) (\<lambda>result. Inr (v, result)))))"
  define P where "P = (\<lambda>i (v, d). v < m \<and> uint v = H i \<and> length d = n \<and>
    (\<forall>k<n. i \<le> Suc k \<longrightarrow> d ! k < m \<and> uint (d ! k) = H (Suc k)))"
  have "\<exists>s'. efold step (rev [1..<n]) (m_data p ! n, (replicate n 0)[n - 1 := m_data p ! n]) = Inr s' \<and> P 1 s'"
  proof (rule efold_rev_Inr)
    fix i s assume i: "1 \<le> i" "i < n" and s: "P (Suc i) s"
    obtain v d where vd: "s = (v, d)" by (cases s)
    note h = uint_horner_step [OF m a, of v "m_data p ! i"]
    have d: "H i = (uint (m_data p ! i) + uint a * H (Suc i)) mod uint m"
      unfolding H_def using l i by (subst horner_drop) simp_all
    have "step i s = Inr (Mod_mu (m_data p ! i + v * a) m (mu_of m), d[i - 1 := Mod_mu (m_data p ! i + v * a) m (mu_of m)])"
      using s i by (simp add: vd step_def P_def set_at_def Let_def Mul_def MulFast_def Add_def AddFast_def NATIVEINT_DO_CHECKS_def mult.commute)
    moreover have "P i (Mod_mu (m_data p ! i + v * a) m (mu_of m), d[i - 1 := Mod_mu (m_data p ! i + v * a) m (mu_of m)])"
      using s h d red [of i] i by (auto simp: vd P_def nth_list_update mult.commute)
    ultimately show "\<exists>s'. step i s = Inr s' \<and> P i s'" by blast
  qed (use n1 top red [of n] in \<open>auto simp: P_def H_def nth_list_update\<close>)
  then obtain v d where e: "efold step (rev [1..<n]) (m_data p ! n, (replicate n 0)[n - 1 := m_data p ! n]) = Inr (v, d)" "P 1 (v, d)"
    by force
  have "SyntheticPolynomialDivision p a m = ebind (efold step (rev [1..<n]) (m_data p ! n, (replicate n 0)[n - 1 := m_data p ! n]))
      (\<lambda>(v, result). Inr \<lparr>m_modulus = m, m_data = result\<rparr>)"
    unfolding step_def SyntheticPolynomialDivision_def using l n1
    by (simp add: ComputeMu_eq [OF b] n32 get_at_def set_at_def Let_def)
  with e l show ?thesis by (auto simp: P_def H_def)
qed

subsection \<open>Long division\<close>

text \<open>One run of the division loop: the entries above \<open>i\<close> move up and lose a multiple of the divisor.\<close>

definition run_entry :: "u64 \<Rightarrow> u64 list \<Rightarrow> u64 list \<Rightarrow> nat \<Rightarrow> nat \<Rightarrow> u64" where
  "run_entry m dv rd runs k =
     (if runs \<le> k then ModSubEq_mu (rd ! (k - 1)) (dv ! (k - runs) * rd ! (length rd - 1)) m (mu_of m) else rd ! (k - 1))"

lemma PolyMod_step_entries:
  assumes L: "1 \<le> length dv" "length dv \<le> length rd" "length rd < 2 ^ 32"
    and i: "i \<le> length rd - length dv" and runs: "runs = length rd - length dv + 1"
  shows "\<exists>rd'. PolyMod_step dv m (mu_of m) (len32 rd) (len32 dv) i rd = Inr rd' \<and> length rd' = length rd \<and>
    (\<forall>k<length rd. i < k \<longrightarrow> rd' ! k = run_entry m dv rd runs k)"
proof -
  define N where "N = length rd"
  define D where "D = length dv"
  have ND: "1 \<le> D" "D \<le> N" "N < 2 ^ 32" "i \<le> N - D" using L i by (simp_all add: N_def D_def)
  have u: "unat (len32 rd - 1) = N - 1" "unat (len32 rd - of_nat i - 1) = N - 1 - i"
    "\<And>j. j < N \<Longrightarrow> unat (len32 rd - 1 - of_nat j) = N - 1 - j"
    "\<And>j. j + 1 < N \<Longrightarrow> unat (len32 rd - 2 - of_nat j) = N - 2 - j"
    "\<And>j. j < D \<Longrightarrow> unat (len32 dv - 1 - of_nat j) = D - 1 - j"
    "\<And>j. j + 1 < D \<Longrightarrow> unat (len32 dv - 1 - 1 - of_nat j) = D - 2 - j"
    using ND unat_diff_u32 [of 1 N] unat_diff_u32 [of "i + 1" N] unat_diff_u32 [of "1 + j" N for j]
      unat_diff_u32 [of "2 + j" N for j] unat_diff_u32 [of "1 + j" D for j] unat_diff_u32 [of "2 + j" D for j]
    by (simp_all add: len32_def N_def D_def algebra_simps)
  have lt: "of_nat j < len32 dv - 1 \<longleftrightarrow> j + 1 < D" if "j < N" for j
    using that u(5) [of 0] ND by (auto simp: word_less_nat_alt unsigned_of_nat take_bit_nat_eq_self)
  define c where "c = rd ! (N - 1)"
  define P where "P = (\<lambda>j rd'. length rd' = N \<and> (\<forall>k<N. rd' ! k = (if N \<le> k + j then run_entry m dv rd runs k else rd ! k)))"
  define body where "body = (\<lambda>j rd'. ebind (get_at rd' (unat (len32 rd - 2 - of_nat j))) (\<lambda>v.
          ebind (set_at rd' (unat (len32 rd - 1 - of_nat j)) v) (\<lambda>rd'.
            if len32 dv - 1 > of_nat j
            then ebind (get_at dv (unat (len32 dv - 1 - 1 - of_nat j))) (\<lambda>d.
                 ebind (Mul d c) (\<lambda>p.
                   set_at rd' (unat (len32 rd - 1 - of_nat j)) (ModSubEq_mu v p m (mu_of m))))
            else Inr rd')))"
  have "\<exists>s'. efor 0 (N - 1 - i) body rd = Inr s' \<and> P (N - 1 - i) s'"
  proof (rule efor_Inr)
    fix j rd' assume j: "j < N - 1 - i" and P: "P j rd'"
    have len: "length rd' = N" using P by (simp add: P_def)
    have j': "j < N" "j + 1 < N" using j by auto
    have v: "rd' ! (N - 2 - j) = rd ! (N - 2 - j)" proof -
      have "N - 2 - j < N" "\<not> N \<le> N - 2 - j + j" using j' by auto
      with P show ?thesis unfolding P_def by auto
    qed
    have e: "run_entry m dv rd runs (N - 1 - j)
        = (if j + 1 < D then ModSubEq_mu (rd ! (N - 2 - j)) (dv ! (D - 2 - j) * c) m (mu_of m) else rd ! (N - 2 - j))"
    proof -
      have "runs \<le> N - 1 - j \<longleftrightarrow> j + 1 < D" using j ND runs by (auto simp: N_def D_def)
      moreover have "N - 1 - j - runs = D - 2 - j" if "j + 1 < D" using that ND runs by (auto simp: N_def D_def)
      moreover have "N - 1 - j - 1 = N - 2 - j" by simp
      ultimately show ?thesis by (simp add: run_entry_def c_def N_def)
    qed
    have "body j rd' = Inr (rd'[N - 1 - j := run_entry m dv rd runs (N - 1 - j)])"
      unfolding body_def using j j' len v e lt [OF j'(1)] u(3) [OF j'(1)] u(4) [OF j'(2)] u(6) [of j]
      by (auto simp: get_at_def set_at_def Mul_def MulFast_def NATIVEINT_DO_CHECKS_def D_def mult.commute)
    moreover have "P (Suc j) (rd'[N - 1 - j := run_entry m dv rd runs (N - 1 - j)])"
    proof -
      have "N \<le> k + Suc j \<longleftrightarrow> N \<le> k + j \<or> k = N - 1 - j" if "k < N" for k using that j by auto
      then show ?thesis using P unfolding P_def by (simp add: nth_list_update)
    qed
    ultimately show "\<exists>s'. body j rd' = Inr s' \<and> P (Suc j) s'" by blast
  qed (use ND in \<open>auto simp: P_def N_def\<close>)
  then obtain rd' where r: "efor 0 (N - 1 - i) body rd = Inr rd'" "P (N - 1 - i) rd'" by blast
  have "PolyMod_step dv m (mu_of m) (len32 rd) (len32 dv) i rd = efor 0 (N - 1 - i) body rd"
  proof -
    have get: "get_at rd (N - 1) = Inr c" using ND by (simp add: get_at_def c_def flip: N_def)
    show ?thesis unfolding PolyMod_step_def body_def u(1,2) get by (simp add: Let_def)
  qed
  with r ND show ?thesis unfolding P_def N_def [symmetric] by auto
qed


lemma conv_update:
  assumes "q t = 0"
  shows "conv (q(t := c)) g k = conv q g k + (if t \<le> k then c * g (k - t) else 0)"
proof (cases "t \<le> k")
  case True
  have split: "conv f g k = f t * g (k - t) + (\<Sum>j\<in>{..k} - {t}. f j * g (k - j))" for f
    unfolding conv_def using True by (intro sum.remove) auto
  have "(\<Sum>j\<in>{..k} - {t}. (q(t := c)) j * g (k - j)) = (\<Sum>j\<in>{..k} - {t}. q j * g (k - j))"
    by (intro sum.cong) auto
  then show ?thesis unfolding split [of "q(t := c)"] split [of q] using True assms by (simp del: fun_upd_apply add: fun_upd_same)
next
  case False
  then have "(\<Sum>j\<le>k. (q(t := c)) j * g (k - j)) = (\<Sum>j\<le>k. q j * g (k - j))"
    by (intro sum.cong) auto
  with False show ?thesis unfolding conv_def by simp
qed

definition division_inv :: "u64 \<Rightarrow> nvec \<Rightarrow> nvec \<Rightarrow> nat \<Rightarrow> u64 list \<Rightarrow> bool" where
  "division_inv m p dv i rd \<longleftrightarrow>
     (let N = length (m_data p); D = length (m_data dv) in
      length rd = N \<and> (\<forall>k. i \<le> k \<longrightarrow> k < N \<longrightarrow> rd ! k < m) \<and>
      (\<exists>q. (\<forall>j. j + i \<le> N - D \<longrightarrow> q j = 0) \<and>
        (\<forall>k. (pc p k - (conv q (pc dv) k + (if k + i < N then uint (rd ! (k + i)) else 0))) mod uint m = 0)))"

lemma run_entry_spec:
  assumes "small_modulus m" "rd ! (k - 1) < m" "rd ! (length rd - 1) < m" "runs \<le> k \<Longrightarrow> dv ! (k - runs) < m"
  shows "run_entry m dv rd runs k < m"
    "uint (run_entry m dv rd runs k) mod uint m
       = (uint (rd ! (k - 1)) - (if runs \<le> k then uint (dv ! (k - runs)) * uint (rd ! (length rd - 1)) else 0)) mod uint m"
proof -
  have "run_entry m dv rd runs k < m \<and> uint (run_entry m dv rd runs k) mod uint m
       = (uint (rd ! (k - 1)) - (if runs \<le> k then uint (dv ! (k - runs)) * uint (rd ! (length rd - 1)) else 0)) mod uint m"
  proof (cases "runs \<le> k")
    case True
    show ?thesis
      unfolding run_entry_def if_P [OF True]
      using uint_sub_step [OF assms(1-3) assms(4) [OF True]] by simp
  qed (use assms(2) in \<open>simp add: run_entry_def\<close>)
  then show "run_entry m dv rd runs k < m"
    "uint (run_entry m dv rd runs k) mod uint m
       = (uint (rd ! (k - 1)) - (if runs \<le> k then uint (dv ! (k - runs)) * uint (rd ! (length rd - 1)) else 0)) mod uint m"
    by blast+
qed

lemma division_inv_step:
  assumes m: "small_modulus m" and dv: "reduced m (m_data dv)" "1 \<le> length (m_data dv)" "last (m_data dv) = 1"
    and N: "length (m_data dv) \<le> length (m_data p)" "length (m_data p) < 2 ^ 32"
    and i: "i < length (m_data p) - length (m_data dv) + 1" and inv: "division_inv m p dv i rd"
  shows "\<exists>rd'. PolyMod_step (m_data dv) m (mu_of m) (len32 (m_data p)) (len32 (m_data dv)) i rd = Inr rd' \<and>
    division_inv m p dv (Suc i) rd'"
proof -
  define N where "N = length (m_data p)"
  define D where "D = length (m_data dv)"
  define t where "t = N - D - i"
  have ND: "1 \<le> D" "D \<le> N" "i \<le> N - D" using dv N i by (auto simp: N_def D_def)
  obtain q where len: "length rd = N" and red: "\<And>k. i \<le> k \<Longrightarrow> k < N \<Longrightarrow> rd ! k < m"
    and q: "\<And>j. j + i \<le> N - D \<Longrightarrow> q j = 0"
    and e: "\<And>k. (pc p k - (conv q (pc dv) k + (if k + i < N then uint (rd ! (k + i)) else 0))) mod uint m = 0"
    using inv unfolding division_inv_def N_def D_def Let_def by auto
  have l32: "len32 (m_data p) = len32 rd" by (simp add: len32_def len N_def)
  obtain rd' where r: "PolyMod_step (m_data dv) m (mu_of m) (len32 rd) (len32 (m_data dv)) i rd = Inr rd'" "length rd' = N"
    and r': "\<And>k. k < N \<Longrightarrow> i < k \<Longrightarrow> rd' ! k = run_entry m (m_data dv) rd (N - D + 1) k"
    using PolyMod_step_entries [of "m_data dv" rd i "N - D + 1" m] dv N i len unfolding N_def D_def by auto
  have one: "m_data dv ! (D - 1) = 1" using dv by (cases "m_data dv" rule: rev_cases) (auto simp: D_def)
  define c where "c = rd ! (N - 1)"
  have dvm: "m_data dv ! k < m" if "k < D" for k
    using reduced_nth [OF dv(1)] that by (simp add: word_less_nat_alt D_def)
  have spec: "run_entry m (m_data dv) rd (N - D + 1) k < m"
    "uint (run_entry m (m_data dv) rd (N - D + 1) k) mod uint m
       = (uint (rd ! (k - 1)) - (if N - D + 1 \<le> k then uint (m_data dv ! (k - (N - D + 1))) * uint c else 0)) mod uint m"
    if k: "i < k" "k < N" for k
    using run_entry_spec [OF m, of rd k "N - D + 1" "m_data dv"] red [of "k - 1"] red [of "N - 1"] dvm [of "k - (N - D + 1)"] k ND len
    by (auto simp: c_def)
  define q' where "q' = q(t := uint c)"
  have qt: "q t = 0" using q ND by (simp add: t_def)
  have "(pc p k - (conv q' (pc dv) k + (if k + Suc i < N then uint (rd' ! (k + Suc i)) else 0))) mod uint m = 0" for k
  proof -
    define E where "E = (if k + i < N then uint (rd ! (k + i)) else 0)"
    define E' where "E' = (if k + Suc i < N then uint (rd' ! (k + Suc i)) else 0)"
    define w where "w = (if t \<le> k then uint c * pc dv (k - t) else 0)"
    have "E' mod uint m = (E - w) mod uint m"
    proof (cases "k + Suc i < N")
      case True
      have "t \<le> k \<longleftrightarrow> N - D + 1 \<le> k + Suc i" "k - t = k + Suc i - (N - D + 1)" if "t \<le> k \<or> N - D + 1 \<le> k + Suc i"
        using that ND by (auto simp: t_def)
      moreover have "k + Suc i - (N - D + 1) < D" using True ND by auto
      ultimately show ?thesis
        using spec(2) [of "k + Suc i"] r' [of "k + Suc i"] True
        by (auto simp: E_def E'_def w_def pc_def D_def [symmetric] mult.commute)
    next
      case False
      have z: "E' = 0" using False by (simp add: E'_def)
      show ?thesis
      proof (cases "k + i = N - 1")
        case True
        then have "k - t = D - 1" "t \<le> k" using ND by (auto simp: t_def)
        then have "E = w" using True ND one by (auto simp: E_def w_def pc_def D_def [symmetric] c_def)
        then show ?thesis using z by simp
      next
        case F: False
        then have "E = 0" "\<not> k - t < D" using False ND by (auto simp: E_def t_def)
        then show ?thesis using z by (simp add: w_def pc_def D_def [symmetric])
      qed
    qed
    then have "(pc p k - (conv q (pc dv) k + w + E')) mod uint m = (pc p k - (conv q (pc dv) k + w + (E - w))) mod uint m"
      by (metis mod_add_right_eq mod_diff_right_eq)
    also have "\<dots> = 0" using e [of k] by (simp add: E_def)
    finally show ?thesis by (simp add: q'_def conv_update [where q = q, OF qt] w_def E'_def)
  qed
  moreover have "q' j = 0" if "j + Suc i \<le> N - D" for j
    using q [of j] that by (auto simp: q'_def t_def)
  moreover have "rd' ! k < m" if "Suc i \<le> k" "k < N" for k
    using spec(1) [of k] r' [of k] that by simp
  ultimately have "division_inv m p dv (Suc i) rd'"
    unfolding division_inv_def N_def [symmetric] D_def [symmetric] Let_def using r(2) by (intro conjI exI [of _ q']) auto
  with r(1) show ?thesis by (auto simp: l32)
qed

subsection \<open>Schoolbook multiplication\<close>

definition partial_conv :: "nvec \<Rightarrow> nvec \<Rightarrow> nat \<Rightarrow> nat \<Rightarrow> int" where
  "partial_conv a b i k = (\<Sum>i'<i. if i' \<le> k then pc a i' * pc b (k - i') else 0)"

lemma partial_conv_all: "partial_conv a b (length (m_data a)) k = conv (pc a) (pc b) k"
proof -
  define n where "n = length (m_data a)"
  have "partial_conv a b n k = (\<Sum>i\<in>{..<n} \<inter> {..k}. pc a i * pc b (k - i))"
    unfolding partial_conv_def by (subst sum.inter_restrict) auto
  also have "\<dots> = (\<Sum>i\<le>k. pc a i * pc b (k - i))"
    by (rule sum.mono_neutral_left) (auto simp: pc_def n_def)
  finally show ?thesis by (simp add: conv_def n_def)
qed

lemma conv_beyond: "length (m_data a) + length (m_data b) \<le> Suc k \<Longrightarrow> conv (pc a) (pc b) k = 0"
  unfolding conv_def by (rule sum.neutral) (auto simp: pc_def)

lemma uint_mul_add_step:
  assumes m: "small_modulus m" and b: "r < m" "x < m" "y < m"
  shows "uint (ModAddEq r (y * x) m) = (uint r + uint x * uint y) mod uint m" "ModAddEq r (y * x) m < m"
proof -
  have 32: "unat m \<le> 2 ^ 32" using m by (simp add: small_modulus_def)
  have pos: "0 < unat m" using b by (simp add: word_less_nat_alt)
  have u: "unat (ModAddEq r (y * x) m) = (unat r + unat x * unat y) mod unat m"
    using small_product(1) [OF 32, of y x] b 32 pos
    by (simp add: ModAddEq_eq ModAdd_correct word_less_nat_alt mult.commute)
  then have "int (unat (ModAddEq r (y * x) m)) = (int (unat r) + int (unat x) * int (unat y)) mod int (unat m)"
    by (simp only: zmod_int of_nat_add of_nat_mult)
  then show "uint (ModAddEq r (y * x) m) = (uint r + uint x * uint y) mod uint m" by simp
  from u pos show "ModAddEq r (y * x) m < m" by (simp add: word_less_nat_alt)
qed

definition mult_inv :: "u64 \<Rightarrow> nvec \<Rightarrow> nvec \<Rightarrow> nat \<Rightarrow> nat \<Rightarrow> u64 list \<Rightarrow> bool" where
  "mult_inv m a b i j d \<longleftrightarrow> length d = length (m_data a) + length (m_data b) - 1 \<and>
     (\<forall>k<length d. d ! k < m \<and> uint (d ! k) =
       (partial_conv a b i k + (if i \<le> k \<and> k < i + j then pc a i * pc b (k - i) else 0)) mod uint m)"

lemma mult_inv_next: "mult_inv m a b i (length (m_data b)) d \<Longrightarrow> mult_inv m a b (Suc i) 0 d"
  unfolding mult_inv_def partial_conv_def by (auto simp: pc_def)

lemma mult_inv_step:
  assumes m: "small_modulus m" and r: "reduced m (m_data a)" "reduced m (m_data b)"
    and i: "i < length (m_data a)" and j: "j < length (m_data b)" and inv: "mult_inv m a b i j d"
  shows "mult_inv m a b i (Suc j) (d[i + j := ModAddEq (d ! (i + j)) (m_data b ! j * m_data a ! i) m])" "i + j < length d"
proof -
  show ij: "i + j < length d" using inv i j by (auto simp: mult_inv_def)
  have lt: "m_data a ! i < m" "m_data b ! j < m"
    using reduced_nth [OF r(1) i] reduced_nth [OF r(2) j] by (simp_all add: word_less_nat_alt)
  have d: "d ! (i + j) < m" "uint (d ! (i + j)) = partial_conv a b i (i + j) mod uint m"
    using inv ij by (auto simp: mult_inv_def)
  note s = uint_mul_add_step [OF m d(1) lt]
  have p: "pc a i = uint (m_data a ! i)" "pc b j = uint (m_data b ! j)" using i j by (simp_all add: pc_def)
  have new: "uint (ModAddEq (d ! (i + j)) (m_data b ! j * m_data a ! i) m) = (partial_conv a b i (i + j) + pc a i * pc b j) mod uint m"
    unfolding s(1) d(2) p by (rule mod_add_left_eq)
  have c: "(i \<le> k \<and> k < i + Suc j) \<longleftrightarrow> (i \<le> k \<and> k < i + j) \<or> k = i + j" for k by auto
  show "mult_inv m a b i (Suc j) (d[i + j := ModAddEq (d ! (i + j)) (m_data b ! j * m_data a ! i) m])"
    using inv ij new s(2) unfolding mult_inv_def c by (auto simp: nth_list_update)
qed

lemma PolynomialMultiplication_conv:
  assumes m: "small_modulus (m_modulus a)" and r: "reduced (m_modulus a) (m_data a)" "reduced (m_modulus a) (m_data b)"
    and l: "m_data a \<noteq> []" "m_data b \<noteq> []" "length (m_data a) + length (m_data b) \<le> 2 ^ 32"
  shows "\<exists>d. PolynomialMultiplication a b = Inr \<lparr>m_modulus = m_modulus a, m_data = d\<rparr> \<and>
    length d = length (m_data a) + length (m_data b) - 1 \<and> reduced (m_modulus a) d \<and>
    (\<forall>k<length d. uint (d ! k) = conv (pc a) (pc b) k mod uint (m_modulus a))"
proof -
  let ?m = "m_modulus a"
  define A where "A = length (m_data a)"
  define B where "B = length (m_data b)"
  have AB: "0 < A" "0 < B" "A + B \<le> 2 ^ 32" using l by (simp_all add: A_def B_def)
  define R where "R = A + B - 1"
  have R: "R < 2 ^ 32" "Suc R = A + B" using AB by (simp_all add: R_def)
  have "len32 (m_data a) + len32 (m_data b) - 1 = of_nat (A + B) - 1"
    by (simp add: len32_def A_def B_def)
  then have eR: "len32 (m_data a) + len32 (m_data b) - 1 = of_nat R"
    by (simp flip: R(2))
  have uR: "unat (of_nat R :: u32) = R" using R by (simp add: unsigned_of_nat take_bit_nat_eq_self)
  have u: "unat (len32 (m_data a)) = A" "unat (len32 (m_data b)) = B" "unat (len32 (m_data a) + len32 (m_data b) - 1) = A + B - 1"
    unfolding eR uR using AB by (simp_all add: R_def len32_def A_def [symmetric] B_def [symmetric] unsigned_of_nat take_bit_nat_eq_self)
  define inner where "inner = (\<lambda>i j d. ebind (get_at d (i + j)) (\<lambda>r.
             ebind (Mul (m_data a ! i) (m_data b ! j)) (\<lambda>p. set_at d (i + j) (ModAddEq r p ?m))))"
  have step: "\<exists>d'. efor 0 B (inner i) d = Inr d' \<and> mult_inv ?m a b (Suc i) 0 d'" if i: "i < A" and inv: "mult_inv ?m a b i 0 d" for i d
  proof -
    have "\<exists>d'. efor 0 B (inner i) d = Inr d' \<and> mult_inv ?m a b i B d'"
    proof (rule efor_Inr)
      fix j d assume "j < B" and inv: "mult_inv ?m a b i j d"
      with i have b: "i < length (m_data a)" "j < length (m_data b)" by (simp_all add: A_def B_def)
      show "\<exists>d'. inner i j d = Inr d' \<and> mult_inv ?m a b i (Suc j) d'"
        using mult_inv_step [OF m r b inv]
        by (simp add: inner_def get_at_def set_at_def Mul_def MulFast_def NATIVEINT_DO_CHECKS_def)
    qed (use inv in auto)
    then show ?thesis using mult_inv_next by (auto simp: B_def)
  qed
  have "?m > 0" using m by (auto simp: small_modulus_def barrett_modulus_def word_less_nat_alt)
  then have "mult_inv ?m a b 0 0 (replicate (A + B - 1) 0)"
    by (auto simp: mult_inv_def A_def B_def partial_conv_def)
  then have "\<exists>d. efor 0 A (\<lambda>i. efor 0 B (inner i)) (replicate (A + B - 1) 0) = Inr d \<and> mult_inv ?m a b A 0 d"
    by (intro efor_Inr [where P = "\<lambda>i. mult_inv ?m a b i 0"]) (auto intro: step)
  then obtain d where d: "efor 0 A (\<lambda>i. efor 0 B (inner i)) (replicate (A + B - 1) 0) = Inr d" "mult_inv ?m a b A 0 d" by blast
  have "PolynomialMultiplication a b = Inr \<lparr>m_modulus = ?m, m_data = d\<rparr>"
    using d(1) unfolding PolynomialMultiplication_def inner_def Let_def u by simp
  with d(2) show ?thesis
    unfolding mult_inv_def A_def partial_conv_all B_def
    by (intro exI [of _ d]) (auto intro: reducedI simp: word_less_nat_alt)
qed

section \<open>Properties\<close>

lemma small_17: "small_modulus 17"
  by (simp add: small_modulus_def barrett_17)

text \<open>
  Schoolbook multiplication: for a modulus of at most 32 bits and reduced non-empty factors,
  \<open>PolynomialMultiplication\<close> returns the reduced coefficients of the product polynomial, each the
  convolution sum of the factors modulo \<open>m\<close>; the 64-bit products do not wrap there.
\<close>

theorem polynomial_multiplication:
  assumes "small_modulus (m_modulus a)" "reduced (m_modulus a) (m_data a)" "reduced (m_modulus a) (m_data b)"
    "m_data a \<noteq> []" "m_data b \<noteq> []" "length (m_data a) + length (m_data b) \<le> 2 ^ 32"
  shows "\<exists>r. PolynomialMultiplication a b = Inr r \<and> m_modulus r = m_modulus a \<and>
    length (m_data r) = length (m_data a) + length (m_data b) - 1 \<and> reduced (m_modulus a) (m_data r) \<and>
    (\<forall>k. pc r k = conv (pc a) (pc b) k mod uint (m_modulus a))"
proof -
  obtain d where d: "PolynomialMultiplication a b = Inr \<lparr>m_modulus = m_modulus a, m_data = d\<rparr>"
    "length d = length (m_data a) + length (m_data b) - 1" "reduced (m_modulus a) d"
    "\<forall>k<length d. uint (d ! k) = conv (pc a) (pc b) k mod uint (m_modulus a)"
    using PolynomialMultiplication_conv [OF assms] by blast
  have "pc \<lparr>m_modulus = m_modulus a, m_data = d\<rparr> k = conv (pc a) (pc b) k mod uint (m_modulus a)" for k
    using d(2,4) conv_beyond [of a b k] by (cases "k < length d") (simp_all add: pc_def)
  with d(1-3) show ?thesis by simp
qed

theorem polynomial_multiplication_witness:
  "\<exists>r. PolynomialMultiplication \<lparr>m_modulus = 17, m_data = [1, 2]\<rparr> \<lparr>m_modulus = 17, m_data = [3, 16]\<rparr> = Inr r \<and>
    pc r 1 = 5"
proof -
  let ?a = "\<lparr>m_modulus = 17, m_data = [1, 2 :: u64]\<rparr>" and ?b = "\<lparr>m_modulus = 17, m_data = [3, 16 :: u64]\<rparr>"
  have "\<exists>r. PolynomialMultiplication ?a ?b = Inr r \<and> m_modulus r = m_modulus ?a \<and>
    length (m_data r) = length (m_data ?a) + length (m_data ?b) - 1 \<and> reduced (m_modulus ?a) (m_data r) \<and>
    (\<forall>k. pc r k = conv (pc ?a) (pc ?b) k mod uint (m_modulus ?a))"
    by (rule polynomial_multiplication) (simp_all add: small_17 reduced_def)
  moreover have "conv (pc ?a) (pc ?b) 1 mod uint (17 :: u64) = 5" by (simp add: conv_def pc_def)
  ultimately show ?thesis by auto
qed

text \<open>
  Division with remainder: for a modulus of at most 32 bits, a monic divisor that is no longer
  than the dividend and reduced coefficients, \<open>PolyMod\<close> returns a reduced remainder shorter than
  the divisor, and the dividend is, coefficient by coefficient modulo \<open>m\<close>, a multiple of the
  divisor plus that remainder.
\<close>

theorem polynomial_remainder:
  assumes m: "small_modulus m" and p: "reduced m (m_data p)" "length (m_data p) < 2 ^ 32"
    and dv: "reduced m (m_data dv)" "m_data dv \<noteq> []" "last (m_data dv) = 1" "length (m_data dv) \<le> length (m_data p)"
  shows "\<exists>r q. PolyMod p dv m = Inr r \<and> m_modulus r = m \<and> Suc (length (m_data r)) = length (m_data dv) \<and>
    reduced m (m_data r) \<and> (\<forall>k. pc p k mod uint m = (conv q (pc dv) k + pc r k) mod uint m)"
proof -
  define N where "N = length (m_data p)"
  define D where "D = length (m_data dv)"
  define runs where "runs = N - D + 1"
  have D1: "1 \<le> D" using dv by (simp add: D_def Suc_le_eq)
  have ND': "D \<le> N" "N < 2 ^ 32" using dv p by (auto simp: D_def N_def)
  have "runs + (D - 1) = N" unfolding runs_def using ND' D1 by linarith
  note ND = ND' this
  have b: "barrett_modulus m" using m by (simp add: small_modulus_def)
  have u: "unat (len32 (m_data p) - len32 (m_data dv) + 1) = runs" "unat (len32 (m_data dv) - 1) = D - 1"
    "\<And>i. i < D - 1 \<Longrightarrow> unat (len32 (m_data p) - len32 (m_data dv) + 1 + of_nat i) = runs + i"
  proof -
    have e: "len32 (m_data p) - len32 (m_data dv) + 1 = of_nat runs"
      using ND by (simp add: len32_def runs_def N_def [symmetric] D_def [symmetric] of_nat_diff)
    have "runs < 2 ^ 32" using ND D1 unfolding runs_def by linarith
    show "unat (len32 (m_data p) - len32 (m_data dv) + 1) = runs"
      unfolding e using \<open>runs < 2 ^ 32\<close> by (simp add: unsigned_of_nat take_bit_nat_eq_self)
    show "unat (len32 (m_data dv) - 1) = D - 1"
      using unat_diff_u32 [of 1 D] D1 ND by (simp add: len32_def D_def [symmetric])
    fix i assume "i < D - 1"
    then have "runs + i < 2 ^ 32" using ND by linarith
    then show "unat (len32 (m_data p) - len32 (m_data dv) + 1 + of_nat i) = runs + i"
      unfolding e by (simp add: unsigned_of_nat take_bit_nat_eq_self flip: of_nat_add)
  qed
  have "division_inv m p dv 0 (m_data p)"
    unfolding division_inv_def Let_def using reduced_nth [OF p(1)]
    by (intro conjI exI [of _ "\<lambda>_. 0"]) (auto simp: word_less_nat_alt conv_def pc_def)
  then have "\<exists>rd. efor 0 runs (PolyMod_step (m_data dv) m (mu_of m) (len32 (m_data p)) (len32 (m_data dv))) (m_data p) = Inr rd \<and>
      division_inv m p dv runs rd"
    by (intro efor_Inr [where P = "division_inv m p dv"] division_inv_step)
       (use m dv p D1 in \<open>auto simp: runs_def N_def D_def\<close>)
  then obtain rd q where rd: "efor 0 runs (PolyMod_step (m_data dv) m (mu_of m) (len32 (m_data p)) (len32 (m_data dv))) (m_data p) = Inr rd"
    and len: "length rd = N" and red: "\<And>k. runs \<le> k \<Longrightarrow> k < N \<Longrightarrow> rd ! k < m"
    and q: "\<And>k. (pc p k - (conv q (pc dv) k + (if k + runs < N then uint (rd ! (k + runs)) else 0))) mod uint m = 0"
    unfolding division_inv_def Let_def N_def by auto
  define copy where "copy = (\<lambda>i result. ebind (get_at rd (unat (len32 (m_data p) - len32 (m_data dv) + 1 + of_nat i))) (set_at result i))"
  have "\<exists>d. efor 0 (D - 1) copy (replicate (D - 1) 0) = Inr d \<and> (length d = D - 1 \<and> (\<forall>k<D - 1. d ! k = rd ! (runs + k)))"
  proof -
    have "\<exists>d. efor 0 (D - 1) copy (replicate (D - 1) 0) = Inr d \<and> (length d = D - 1 \<and> (\<forall>k<D - 1. k < D - 1 \<longrightarrow> d ! k = rd ! (runs + k)))"
      by (rule efor_Inr [where P = "\<lambda>i d. length d = D - 1 \<and> (\<forall>k<i. k < D - 1 \<longrightarrow> d ! k = rd ! (runs + k))"])
         (use ND len in \<open>auto simp: copy_def u get_at_def set_at_def nth_list_update less_Suc_eq\<close>)
    then show ?thesis by auto
  qed
  then obtain d where d: "efor 0 (D - 1) copy (replicate (D - 1) 0) = Inr d" "length d = D - 1" "\<And>k. k < D - 1 \<Longrightarrow> d ! k = rd ! (runs + k)"
    by blast
  have e: "PolyMod p dv m = Inr \<lparr>m_modulus = m, m_data = d\<rparr>"
    using rd d(1) unfolding PolyMod_def ComputeMu_eq [OF b] ebind_simps Let_def u copy_def by simp
  have "pc p k mod uint m = (conv q (pc dv) k + pc \<lparr>m_modulus = m, m_data = d\<rparr> k) mod uint m" for k
  proof -
    have "pc \<lparr>m_modulus = m, m_data = d\<rparr> k = (if k + runs < N then uint (rd ! (k + runs)) else 0)"
      using d(2,3) ND by (auto simp: pc_def add.commute)
    then show ?thesis using q [of k] by (simp only: mod_eq_dvd_iff mod_0_imp_dvd)
  qed
  moreover have "reduced m d" using d ND red by (intro reducedI) (auto simp: word_less_nat_alt)
  ultimately show ?thesis
    using d(2) D1 by (intro exI [of _ "\<lparr>m_modulus = m, m_data = d\<rparr>"] exI [of _ q]) (auto simp: e D_def)
qed


theorem polynomial_remainder_witness:
  "\<exists>r q. PolyMod \<lparr>m_modulus = 17, m_data = [1, 2, 3, 4, 5]\<rparr> \<lparr>m_modulus = 17, m_data = [1, 0, 1]\<rparr> 17 = Inr r \<and>
    reduced 17 (m_data r) \<and> (\<forall>k. pc \<lparr>m_modulus = 17, m_data = [1, 2, 3, 4, 5]\<rparr> k mod 17
      = (conv q (pc \<lparr>m_modulus = 17, m_data = [1, 0, 1]\<rparr>) k + pc r k) mod 17)"
  using polynomial_remainder [of 17 "\<lparr>m_modulus = 17, m_data = [1, 2, 3, 4, 5]\<rparr>" "\<lparr>m_modulus = 17, m_data = [1, 0, 1]\<rparr>"]
  by (auto simp: small_17 reduced_def)

text \<open>
  Synthetic division: for a modulus of at most 32 bits, reduced coefficients, at least two of
  them, and a reduced \<open>a\<close>, \<open>SyntheticRemainder\<close> is the value of the polynomial at \<open>a\<close> and
  \<open>SyntheticPolynomialDivision\<close> its quotient by \<open>X - a\<close>: modulo \<open>m\<close> the polynomial equals
  \<open>(X - a)\<close> times the quotient plus the remainder.
\<close>

theorem synthetic_division:
  assumes m: "small_modulus m" and p: "reduced m (m_data p)" "2 \<le> length (m_data p)" "length (m_data p) < 2 ^ 31"
    and a: "a < m"
  shows "\<exists>r d. SyntheticRemainder p a m = Inr r \<and> SyntheticPolynomialDivision p a m = Inr d \<and>
    Suc (length (m_data d)) = length (m_data p) \<and> reduced m (m_data d) \<and>
    uint r = (\<Sum>i<length (m_data p). pc p i * uint a ^ i) mod uint m \<and>
    (\<forall>k. pc p k mod uint m = ((if k = 0 then uint r else pc d (k - 1)) - uint a * pc d k) mod uint m)"
proof -
  define N where "N = length (m_data p)"
  define H where "H = (\<lambda>k. horner (uint m) (uint a) (drop k (map uint (m_data p))))"
  obtain r where r: "SyntheticRemainder p a m = Inr r" "uint r = H 0"
  proof -
    have "m_data p \<noteq> []" "length (m_data p) < 2 ^ 32" using p(2,3) by auto
    then show ?thesis using SyntheticRemainder_horner [OF m p(1) _ _ a] that by (auto simp: H_def)
  qed
  obtain d where d: "SyntheticPolynomialDivision p a m = Inr \<lparr>m_modulus = m, m_data = d\<rparr>" "Suc (length d) = N"
    and dk: "\<And>k. k < length d \<Longrightarrow> d ! k < m \<and> uint (d ! k) = H (Suc k)"
    using SyntheticPolynomialDivision_horner [OF m p a] by (auto simp: H_def N_def)
  have pos: "0 < uint m" using a unsigned_greater_eq [of a, where ?'a = int] unfolding word_less_def by linarith
  have H: "H k = (pc p k + uint a * H (Suc k)) mod uint m" for k
  proof (cases "k < N")
    case True
    then show ?thesis unfolding H_def by (subst horner_drop) (simp_all add: pc_def N_def)
  qed (simp add: H_def pc_def N_def)
  have q: "pc \<lparr>m_modulus = m, m_data = d\<rparr> k = H (Suc k)" for k
    using dk [of k] d(2) by (auto simp: pc_def H_def N_def)
  have "pc p k mod uint m = ((if k = 0 then uint r else pc \<lparr>m_modulus = m, m_data = d\<rparr> (k - 1))
      - uint a * pc \<lparr>m_modulus = m, m_data = d\<rparr> k) mod uint m" for k
  proof -
    have "(if k = 0 then uint r else pc \<lparr>m_modulus = m, m_data = d\<rparr> (k - 1)) = H k"
      using r(2) by (simp add: q)
    moreover have "(H k - uint a * H (Suc k)) mod uint m = pc p k mod uint m"
      unfolding H [of k] by (simp add: mod_diff_left_eq)
    ultimately show ?thesis by (simp add: q)
  qed
  moreover have "uint r = (\<Sum>i<N. pc p i * uint a ^ i) mod uint m"
    unfolding r(2) H_def using pos by (subst horner_sum) (auto simp: N_def pc_def intro!: sum.cong arg_cong2 [where f = "(mod)"])
  moreover have "reduced m d" using dk by (intro reducedI) (auto simp: word_less_nat_alt)
  ultimately show ?thesis
    using r(1) d by (intro exI [of _ r] exI [of _ "\<lparr>m_modulus = m, m_data = d\<rparr>"]) (auto simp: N_def)
qed

theorem synthetic_division_witness:
  "\<exists>r. SyntheticRemainder \<lparr>m_modulus = 17, m_data = [1, 2, 3]\<rparr> 2 17 = Inr r \<and> uint r = 0"
proof -
  let ?p = "\<lparr>m_modulus = 17, m_data = [1, 2, 3 :: u64]\<rparr>"
  have "\<exists>r d. SyntheticRemainder ?p 2 17 = Inr r \<and> SyntheticPolynomialDivision ?p 2 17 = Inr d \<and>
    Suc (length (m_data d)) = length (m_data ?p) \<and> reduced 17 (m_data d) \<and>
    uint r = (\<Sum>i<length (m_data ?p). pc ?p i * uint (2 :: u64) ^ i) mod uint (17 :: u64) \<and>
    (\<forall>k. pc ?p k mod uint (17 :: u64) = ((if k = 0 then uint r else pc d (k - 1)) - uint (2 :: u64) * pc d k) mod uint (17 :: u64))"
    by (rule synthetic_division) (simp_all add: small_17 reduced_def)
  moreover have "(\<Sum>i<length (m_data ?p). pc ?p i * uint (2 :: u64) ^ i) mod uint (17 :: u64) = 0"
    by (simp add: pc_def)
  ultimately show ?thesis by auto
qed

end
