(* ===== verification/Bluestein.thy ===== *)
theory Bluestein
  imports PolyArith
begin

text \<open>
  \<open>BluesteinFFTNat\<close> and \<open>ChineseRemainderTransformArbNat\<close> of
  \<open>src/core/include/math/hal/intnat/transformnat-impl.h\<close>: the transform of any length by a
  convolution in a power-of-two transform, and the transform for an arbitrary cyclotomic order on
  top of it. The static maps of the first class are the record \<open>bft\<close>, those of the second
  extend it. \<open>operator[]\<close> on a missing key reads the default value; that it also inserts it is
  left out, as every reader goes through \<open>operator[]\<close>. \<open>usint\<close> products wrap.
\<close>

section \<open>Definitions\<close>

type_synonym modroot = "u64 \<times> u64"

record bft =
  m_rootOfUnityTableByModulusRoot :: "modroot \<rightharpoonup> nvec"
  m_rootOfUnityInverseTableByModulusRoot :: "modroot \<rightharpoonup> nvec"
  m_powersTableByModulusRoot :: "modroot \<rightharpoonup> nvec"
  m_RBTableByModulusRootPair :: "modroot \<times> modroot \<rightharpoonup> nvec"
  m_defaultNTTModulusRoot :: "u64 \<rightharpoonup> modroot"

definition mget :: "'v \<Rightarrow> ('k \<rightharpoonup> 'v) \<Rightarrow> 'k \<Rightarrow> 'v" where
  "mget d M k = (case M k of Some v \<Rightarrow> v | None \<Rightarrow> d)"

definition no_vec :: nvec where
  "no_vec = \<lparr>m_modulus = 0, m_data = []\<rparr>"

text \<open>
  \<open>std::pow(2, std::ceil(std::log2(n)))\<close> converted to \<open>usint\<close>: 0 for \<open>n = 0\<close>, and out of range
  of the conversion above \<open>2 ^ 31\<close>.
\<close>

definition pow2_ceil :: "u32 \<Rightarrow> u32 res" where
  "pow2_ceil n =
     (if n = 0 then Inr 0
      else let k = ceil_log2 (unat n) in if k \<ge> 32 then Inl OutOfRange else Inr (push_bit k 1))"

definition square_index :: "u32 \<Rightarrow> nat \<Rightarrow> u32 res" where
  "square_index cycloOrder i =
     (if 2 * cycloOrder = 0 then Inl DivideByZero else Inr ((of_nat i * of_nat i) mod (2 * cycloOrder)))"

subsection \<open>Tables of the power-of-two transform\<close>

definition PreComputeRootTableForNTT :: "u32 \<Rightarrow> modroot \<Rightarrow> 'z bft_scheme \<Rightarrow> 'z bft_scheme res" where
  "PreComputeRootTableForNTT cyclotoOrder nttModulusRoot st =
     ebind (pow2_ceil (2 * cyclotoOrder - 1)) (\<lambda>nttDim.
     let (nttModulus, root) = nttModulusRoot
     in ebind (ModInverse root nttModulus) (\<lambda>rootInv.
        let nttDimHf = unat (drop_bit 1 nttDim); zeros = replicate nttDimHf 0;
            (x, y, rootTable, rootTableInverse) = for_range 0 nttDimHf (\<lambda>i (x, y, rootTable, rootTableInverse).
              (ModMulEq x root nttModulus, ModMulEq y rootInv nttModulus, rootTable[i := x], rootTableInverse[i := y]))
              (1, 1, zeros, zeros)
        in Inr (st\<lparr>m_rootOfUnityTableByModulusRoot :=
                 (m_rootOfUnityTableByModulusRoot st)(nttModulusRoot \<mapsto> \<lparr>m_modulus = nttModulus, m_data = rootTable\<rparr>),
               m_rootOfUnityInverseTableByModulusRoot :=
                 (m_rootOfUnityInverseTableByModulusRoot st)(nttModulusRoot \<mapsto> \<lparr>m_modulus = nttModulus, m_data = rootTableInverse\<rparr>)\<rparr>)))"

definition PreComputeDefaultNTTModulusRoot ::
    "'s prng \<Rightarrow> u32 \<Rightarrow> u64 \<Rightarrow> 'z bft_scheme \<Rightarrow> 's \<Rightarrow> ('z bft_scheme, 's) run" where
  "PreComputeDefaultNTTModulusRoot draw cycloOrder modulus st s =
     rbind (rlift (pow2_ceil (2 * cycloOrder - 1)) s) (\<lambda>nttDim s.
     rbind (LastPrime draw (GetMSB (ucast nttDim) - 1 + 2 * GetMSB modulus) (ucast nttDim) s) (\<lambda>nttModulus s.
     rbind (RootOfUnity draw nttDim nttModulus s) (\<lambda>nttRoot s.
     let nttModulusRoot = (nttModulus, nttRoot);
         st = st\<lparr>m_defaultNTTModulusRoot := (m_defaultNTTModulusRoot st)(modulus \<mapsto> nttModulusRoot)\<rparr>
     in rlift (PreComputeRootTableForNTT cycloOrder nttModulusRoot st) s)))"

subsection \<open>Tables of the chirp\<close>

definition PreComputePowers :: "u32 \<Rightarrow> modroot \<Rightarrow> 'z bft_scheme \<Rightarrow> 'z bft_scheme res" where
  "PreComputePowers cycloOrder modulusRoot st =
     (let (modulus, root) = modulusRoot
      in ebind (set_at (replicate (unat cycloOrder) 0) 0 1) (\<lambda>powers.
         ebind (efor 1 (unat cycloOrder) (\<lambda>i powers.
             ebind (square_index cycloOrder i) (\<lambda>iSqr.
               set_at powers i (ModExp root (ucast iSqr) modulus))) powers) (\<lambda>powers.
         Inr (st\<lparr>m_powersTableByModulusRoot :=
           (m_powersTableByModulusRoot st)(modulusRoot \<mapsto> \<lparr>m_modulus = modulus, m_data = powers\<rparr>)\<rparr>))))"

definition PadZeros :: "nvec \<Rightarrow> u32 \<Rightarrow> nvec res" where
  "PadZeros a finalSize =
     ebind (efor 0 (length (m_data a)) (\<lambda>i d. set_at d i (m_data a ! i)) (replicate (unat finalSize) 0)) (\<lambda>d.
     ebind (efor (length (m_data a)) (unat finalSize) (\<lambda>i d. set_at d i 0) d) (\<lambda>d.
       Inr \<lparr>m_modulus = m_modulus a, m_data = d\<rparr>))"

definition Resize :: "nvec \<Rightarrow> u32 \<Rightarrow> u32 \<Rightarrow> nvec res" where
  "Resize a lo hi =
     ebind (efor (unat lo) (unat hi + 1) (\<lambda>i d.
         ebind (get_at (m_data a) i) (set_at d (i - unat lo)))
       (replicate (unat (hi - lo + 1)) 0)) (\<lambda>d.
     Inr \<lparr>m_modulus = m_modulus a, m_data = d\<rparr>)"

definition PreComputeRBTable :: "u32 \<Rightarrow> modroot \<times> modroot \<Rightarrow> 'z bft_scheme \<Rightarrow> 'z bft_scheme res" where
  "PreComputeRBTable cycloOrder modulusRootPair st =
     (let ((modulus, root), nttModulusRoot) = modulusRootPair
      in ebind (ModInverse root modulus) (\<lambda>rootInv.
         let nttModulus = fst nttModulusRoot;
             rootTable = mget no_vec (m_rootOfUnityTableByModulusRoot st) nttModulusRoot;
             c = unat (cycloOrder - 1)
         in ebind (pow2_ceil (2 * cycloOrder - 1)) (\<lambda>nttDim.
            ebind (set_at (replicate (unat (2 * cycloOrder - 1)) 0) c 1) (\<lambda>b.
            ebind (efor 1 (unat cycloOrder) (\<lambda>i b.
                ebind (square_index cycloOrder i) (\<lambda>iSqr.
                let v = ModExp rootInv (ucast iSqr) modulus
                in ebind (set_at b (c + i) v) (\<lambda>b. set_at b (c - i) v))) b) (\<lambda>b.
            ebind (PadZeros \<lparr>m_modulus = modulus, m_data = b\<rparr> nttDim) (\<lambda>Rb.
            ebind (SetModulus Rb nttModulus) (\<lambda>Rb.
            ebind (ForwardTransformIterative Rb rootTable (nvec_zero (unat nttDim) 0)) (\<lambda>RB.
              Inr (st\<lparr>m_RBTableByModulusRootPair := (m_RBTableByModulusRootPair st)(modulusRootPair \<mapsto> RB)\<rparr>)))))))))"

subsection \<open>The transform of any length\<close>

definition BFT_ForwardTransform_root :: "nvec \<Rightarrow> u64 \<Rightarrow> u32 \<Rightarrow> modroot \<Rightarrow> 'z bft_scheme \<Rightarrow> nvec res" where
  "BFT_ForwardTransform_root element root_elt cycloOrder nttModulusRoot st =
     (if GetLength element \<noteq> unat cycloOrder
      then Inl (OpenFHEError ''expected size of element vector should be equal to cyclotomic order'')
      else let modulus = m_modulus element; modulusRoot = (modulus, root_elt);
               powers = mget no_vec (m_powersTableByModulusRoot st) modulusRoot;
               nttModulus = fst nttModulusRoot;
               rootTable = mget no_vec (m_rootOfUnityTableByModulusRoot st) nttModulusRoot;
               rootTableInverse = mget no_vec (m_rootOfUnityInverseTableByModulusRoot st) nttModulusRoot
       in ebind (vModMul element powers) (\<lambda>x.
          ebind (pow2_ceil (2 * cycloOrder - 1)) (\<lambda>nttDim.
          ebind (PadZeros x nttDim) (\<lambda>Ra.
          ebind (SetModulus Ra nttModulus) (\<lambda>Ra.
          ebind (ForwardTransformIterative Ra rootTable (nvec_zero (unat nttDim) 0)) (\<lambda>RA.
          let RB = mget no_vec (m_RBTableByModulusRootPair st) (modulusRoot, nttModulusRoot)
          in ebind (vModMul RA RB) (\<lambda>RC.
             ebind (InverseTransformIterative RC rootTableInverse (nvec_zero (unat nttDim) 0)) (\<lambda>Rc.
             ebind (Resize Rc (cycloOrder - 1) (2 * (cycloOrder - 1))) (\<lambda>resizeRc.
             ebind (SetModulus resizeRc modulus) (\<lambda>resizeRc.
               vModMul (vModEq resizeRc modulus) powers))))))))))"

definition BFT_ForwardTransform :: "nvec \<Rightarrow> u64 \<Rightarrow> u32 \<Rightarrow> 'z bft_scheme \<Rightarrow> nvec res" where
  "BFT_ForwardTransform element root_elt cycloOrder st =
     BFT_ForwardTransform_root element root_elt cycloOrder
       (mget (0, 0) (m_defaultNTTModulusRoot st) (m_modulus element)) st"

definition BFT_Reset :: "'z bft_scheme \<Rightarrow> 'z bft_scheme" where
  "BFT_Reset st = st\<lparr>m_rootOfUnityTableByModulusRoot := Map.empty,
     m_rootOfUnityInverseTableByModulusRoot := Map.empty,
     m_powersTableByModulusRoot := Map.empty,
     m_RBTableByModulusRootPair := Map.empty,
     m_defaultNTTModulusRoot := Map.empty\<rparr>"

subsection \<open>The transform of an arbitrary cyclotomic order\<close>

record arb = bft +
  m_cyclotomicPolyMap :: "u64 \<rightharpoonup> nvec"
  m_cyclotomicPolyReverseNTTMap :: "u64 \<rightharpoonup> nvec"
  m_cyclotomicPolyNTTMap :: "u64 \<rightharpoonup> nvec"
  m_rootOfUnityDivisionTableByModulus :: "u64 \<rightharpoonup> nvec"
  m_rootOfUnityDivisionInverseTableByModulus :: "u64 \<rightharpoonup> nvec"
  m_DivisionNTTModulus :: "u64 \<rightharpoonup> u64"
  m_DivisionNTTRootOfUnity :: "u64 \<rightharpoonup> u64"
  m_nttDivisionDim :: "u32 \<rightharpoonup> u32"

text \<open>The maps before the first use.\<close>

definition arb_init :: arb where
  "arb_init = \<lparr>m_rootOfUnityTableByModulusRoot = Map.empty, m_rootOfUnityInverseTableByModulusRoot = Map.empty,
     m_powersTableByModulusRoot = Map.empty, m_RBTableByModulusRootPair = Map.empty, m_defaultNTTModulusRoot = Map.empty,
     m_cyclotomicPolyMap = Map.empty, m_cyclotomicPolyReverseNTTMap = Map.empty, m_cyclotomicPolyNTTMap = Map.empty,
     m_rootOfUnityDivisionTableByModulus = Map.empty, m_rootOfUnityDivisionInverseTableByModulus = Map.empty,
     m_DivisionNTTModulus = Map.empty, m_DivisionNTTRootOfUnity = Map.empty, m_nttDivisionDim = Map.empty\<rparr>"

definition SetCylotomicPolynomial :: "nvec \<Rightarrow> u64 \<Rightarrow> arb \<Rightarrow> arb" where
  "SetCylotomicPolynomial poly modl st =
     st\<lparr>m_cyclotomicPolyMap := (m_cyclotomicPolyMap st)(modl \<mapsto> poly)\<rparr>"

definition Arb_PreCompute :: "'s prng \<Rightarrow> u32 \<Rightarrow> u64 \<Rightarrow> arb \<Rightarrow> 's \<Rightarrow> (arb, 's) run" where
  "Arb_PreCompute draw cyclotoOrder modulus st s = PreComputeDefaultNTTModulusRoot draw cyclotoOrder modulus st s"

definition SetPreComputedNTTModulus :: "u32 \<Rightarrow> u64 \<Rightarrow> u64 \<Rightarrow> u64 \<Rightarrow> arb \<Rightarrow> arb res" where
  "SetPreComputedNTTModulus cyclotoOrder modulus nttModulus nttRoot st =
     PreComputeRootTableForNTT cyclotoOrder (nttModulus, nttRoot) st"

subsection \<open>Division by the cyclotomic polynomial\<close>

text \<open>One Newton step: \<open>h\<close> becomes \<open>2 h - g h^2\<close> modulo \<open>x ^ (2 ^ (i + 1))\<close>.\<close>

definition InversePolyMod_step :: "nvec \<Rightarrow> u64 \<Rightarrow> u64 \<Rightarrow> nat \<Rightarrow> nvec \<Rightarrow> nvec res" where
  "InversePolyMod_step cycloPoly modulus mu i h =
     (let qDegree = 2 ^ (i + 1); q = \<lparr>m_modulus = modulus, m_data = (replicate (qDegree + 1) 0)[qDegree := 1]\<rparr>
      in ebind (PolynomialMultiplication h h) (\<lambda>hSquare.
         ebind (vModMul_s h 2) (\<lambda>a.
         ebind (PolynomialMultiplication hSquare cycloPoly) (\<lambda>b.
         let b = b\<lparr>m_data := map (\<lambda>j. if j < GetLength a
               then ModSub_mu (m_data a ! j) (m_data b ! j) modulus mu
               else ModSub_mu modulus (m_data b ! j) modulus mu) [0..<GetLength b]\<rparr>
         in PolyMod b q modulus))))"

definition InversePolyMod :: "nvec \<Rightarrow> u64 \<Rightarrow> u32 \<Rightarrow> nvec res" where
  "InversePolyMod cycloPoly modulus pw =
     (if pw = 0 then Inl OutOfRange
      else ebind (ComputeMu modulus) (\<lambda>mu.
        ebind (efor 0 (ceil_log2 (unat pw)) (InversePolyMod_step cycloPoly modulus mu)
          \<lparr>m_modulus = modulus, m_data = [1]\<rparr>) (\<lambda>h.
        ebind (efor 0 (unat pw) (\<lambda>i d. ebind (get_at (m_data h) i) (set_at d i)) (replicate (unat pw) 0)) (\<lambda>d.
          Inr \<lparr>m_modulus = modulus, m_data = d\<rparr>))))"

text \<open>The powers \<open>1, r, r^2, \<dots>\<close> of a root, by repeated multiplication.\<close>

definition root_powers :: "u64 \<Rightarrow> u64 \<Rightarrow> nat \<Rightarrow> u64 list" where
  "root_powers r modulus n =
     fst (for_range 0 n (\<lambda>i (table, x). (table[i := x], ModMul x r modulus)) (replicate n 0, 1))"

definition SetPreComputedNTTDivisionModulus ::
    "'s prng \<Rightarrow> u32 \<Rightarrow> u64 \<Rightarrow> u64 \<Rightarrow> u64 \<Rightarrow> arb \<Rightarrow> 's \<Rightarrow> (arb, 's) run" where
  "SetPreComputedNTTDivisionModulus draw cyclotoOrder modulus nttMod nttRootBig st s =
     rbind (GetTotient draw (ucast cyclotoOrder) s) (\<lambda>n s.
     let n = ucast n :: u32; power' = cyclotoOrder - n in
     rbind (rlift (pow2_ceil power') s) (\<lambda>p2 s.
     let nttDim = 2 * p2; st = st\<lparr>m_nttDivisionDim := (m_nttDivisionDim st)(cyclotoOrder \<mapsto> nttDim)\<rparr> in
     rbind (rlift (pow2_ceil (2 * cyclotoOrder - 1)) s) (\<lambda>nttDimBig s.
     rbind (rlift (if nttDim = 0 then Inl DivideByZero else Inr (nttDimBig div nttDim)) s) (\<lambda>e s.
     let nttRoot = ModExp nttRootBig (ucast e) nttMod;
         st = st\<lparr>m_DivisionNTTModulus := (m_DivisionNTTModulus st)(modulus \<mapsto> nttMod),
                 m_DivisionNTTRootOfUnity := (m_DivisionNTTRootOfUnity st)(modulus \<mapsto> nttRoot)\<rparr> in
     rbind (rlift (ModInverse nttRoot nttMod) s) (\<lambda>rootInv s.
     let nttDimHf = unat (drop_bit 1 nttDim);
         rootTable = \<lparr>m_modulus = nttMod, m_data = root_powers nttRoot nttMod nttDimHf\<rparr>;
         rootTableInverse = \<lparr>m_modulus = nttMod, m_data = root_powers rootInv nttMod nttDimHf\<rparr>;
         st = st\<lparr>m_rootOfUnityDivisionTableByModulus := (m_rootOfUnityDivisionTableByModulus st)(nttMod \<mapsto> rootTable),
                 m_rootOfUnityDivisionInverseTableByModulus :=
                   (m_rootOfUnityDivisionInverseTableByModulus st)(nttMod \<mapsto> rootTableInverse)\<rparr>;
         cycloPoly = mget no_vec (m_cyclotomicPolyMap st) modulus in
     rbind (rlift (InversePolyMod cycloPoly modulus power') s) (\<lambda>RevCPM s.
     rbind (rlift (PadZeros RevCPM nttDim) s) (\<lambda>RevCPMPadded s.
     rbind (rlift (SetModulus RevCPMPadded nttMod) s) (\<lambda>RevCPMPadded s.
     rbind (rlift (ForwardTransformIterative RevCPMPadded rootTable (nvec_zero (unat nttDim) 0)) s) (\<lambda>RA s.
     let st = st\<lparr>m_cyclotomicPolyReverseNTTMap := (m_cyclotomicPolyReverseNTTMap st)(modulus \<mapsto> RA)\<rparr> in
     rbind (rlift (efor 0 (GetLength cycloPoly) (\<lambda>i d. set_at d i (m_data cycloPoly ! i)) (replicate (unat nttDim) 0)) s) (\<lambda>d s.
     rbind (rlift (ForwardTransformIterative \<lparr>m_modulus = nttMod, m_data = d\<rparr> rootTable (nvec_zero (unat nttDim) 0)) s) (\<lambda>QFwdResult s.
       Some (Inr (st\<lparr>m_cyclotomicPolyNTTMap := (m_cyclotomicPolyNTTMap st)(modulus \<mapsto> QFwdResult)\<rparr>, s)))))))))))))"

subsection \<open>Padding and dropping\<close>

text \<open>\<open>GetTotientList\<close> for \<open>usint\<close> gives the same numbers as for 64 bits.\<close>

definition totient_list :: "u32 \<Rightarrow> nat list" where
  "totient_list n = map unat (GetTotientList (ucast n))"

definition Pad :: "'s prng \<Rightarrow> nvec \<Rightarrow> u32 \<Rightarrow> bool \<Rightarrow> 's \<Rightarrow> (nvec, 's) run" where
  "Pad draw element cycloOrder forward s =
     rbind (GetTotient draw (ucast cycloOrder) s) (\<lambda>n s.
     let n = unat (ucast n :: u32); zeros = replicate (unat cycloOrder) 0 in
     rbind (rlift (if forward
         then efor 0 n (\<lambda>i d. ebind (get_at (m_data element) i) (set_at d i)) zeros
         else ebind (efold (\<lambda>coprime (d, i). ebind (get_at (m_data element) i) (\<lambda>v.
                ebind (set_at d coprime v) (\<lambda>d. Inr (d, i + 1)))) (totient_list cycloOrder) (zeros, 0)) (\<lambda>(d, i). Inr d)) s) (\<lambda>d s.
       Some (Inr (\<lparr>m_modulus = m_modulus element, m_data = d\<rparr>, s))))"

text \<open>The inverse drop for a prime order, and for twice a prime.\<close>

definition Drop_prime :: "nvec \<Rightarrow> nat \<Rightarrow> nvec res" where
  "Drop_prime element n =
     (let modulus = m_modulus element
      in ebind (ComputeMu modulus) (\<lambda>mu.
         ebind (get_at (m_data element) n) (\<lambda>coeff_n.
         ebind (emap (\<lambda>i. ebind (get_at (m_data element) i) (\<lambda>c. Inr (ModSub_mu c coeff_n modulus mu))) [0..<n]) (\<lambda>d.
           Inr \<lparr>m_modulus = modulus, m_data = d\<rparr>))))"

definition Drop_twice_prime :: "nvec \<Rightarrow> nat \<Rightarrow> nvec res" where
  "Drop_twice_prime element n =
     (let modulus = m_modulus element
      in ebind (ComputeMu modulus) (\<lambda>mu.
         ebind (emap (\<lambda>i. ebind (get_at (m_data element) i) (\<lambda>coeff_i. ebind (get_at (m_data element) (i + n + 1)) (\<lambda>coeff_ip.
             Inr (ModSub_mu coeff_i coeff_ip modulus mu)))) [0..<n]) (\<lambda>d.
         ebind (get_at (m_data element) n) (\<lambda>c. ebind (get_at (m_data element) (2 * n + 1)) (\<lambda>c'.
         let coeff_n = ModSub_mu c c' modulus mu
         in Inr \<lparr>m_modulus = modulus, m_data = map (\<lambda>i. if i mod 2 = 0
              then ModSubEq_mu (d ! i) coeff_n modulus mu
              else ModAddEq_mu (d ! i) coeff_n modulus mu) [0..<n]\<rparr>)))))"

text \<open>
  The inverse drop for any other order: the quotient by the cyclotomic polynomial comes from the
  reversed upper coefficients and the prepared inverse, both products in the division transform.
\<close>

definition Drop_arbitrary :: "nvec \<Rightarrow> u32 \<Rightarrow> u32 \<Rightarrow> arb \<Rightarrow> nvec res" where
  "Drop_arbitrary element cycloOrder n st =
     (let modulus = m_modulus element;
          nttMod = mget 0 (m_DivisionNTTModulus st) modulus;
          rootTable = mget no_vec (m_rootOfUnityDivisionTableByModulus st) nttMod;
          rootTableInverse = mget no_vec (m_rootOfUnityDivisionInverseTableByModulus st) nttMod;
          dim = unat (mget 0 (m_nttDivisionDim st) cycloOrder);
          pw = cycloOrder - n
      in ebind (efor (unat n) (GetLength element) (\<lambda>i d.
             set_at d (unat (pw - (of_nat i - n) - 1)) (m_data element ! i)) (replicate dim 0)) (\<lambda>d.
         ebind (ForwardTransformIterative \<lparr>m_modulus = nttMod, m_data = d\<rparr> rootTable (nvec_zero dim 0)) (\<lambda>A.
         ebind (vModMul A (mget no_vec (m_cyclotomicPolyReverseNTTMap st) modulus)) (\<lambda>AB.
         ebind (InverseTransformIterative AB rootTableInverse (nvec_zero dim 0)) (\<lambda>a.
         ebind (efor 0 (unat pw) (\<lambda>i d. ebind (get_at (m_data a) i) (set_at d i)) (replicate dim 0)) (\<lambda>d.
         ebind (SetModulus (vModEq \<lparr>m_modulus = modulus, m_data = d\<rparr> modulus) nttMod) (\<lambda>quotient.
         ebind (ForwardTransformIterative quotient rootTable (nvec_zero dim 0)) (\<lambda>newQuotient.
         ebind (vModMulEq newQuotient (mget no_vec (m_cyclotomicPolyNTTMap st) modulus)) (\<lambda>newQuotient.
         ebind (InverseTransformIterative newQuotient rootTableInverse (nvec_zero dim 0)) (\<lambda>newQuotient2.
         ebind (SetModulus newQuotient2 modulus) (\<lambda>newQuotient2.
         let newQuotient2 = vModEq newQuotient2 modulus
         in ebind (ComputeMu modulus) (\<lambda>mu.
            ebind (emap (\<lambda>i. ebind (get_at (m_data element) i) (\<lambda>c.
                ebind (get_at (m_data newQuotient2) (unat (cycloOrder - 1 - of_nat i))) (\<lambda>c'.
                  Inr (ModSub_mu c c' modulus mu)))) [0..<unat n]) (\<lambda>d.
              Inr \<lparr>m_modulus = modulus, m_data = d\<rparr>)))))))))))))"

definition Drop :: "'s prng \<Rightarrow> nvec \<Rightarrow> u32 \<Rightarrow> bool \<Rightarrow> u64 \<Rightarrow> u64 \<Rightarrow> arb \<Rightarrow> 's \<Rightarrow> (arb \<times> nvec, 's) run" where
  "Drop draw element cycloOrder forward bigMod bigRoot st s =
     rbind (GetTotient draw (ucast cycloOrder) s) (\<lambda>n s.
     let n = ucast n :: u32; modulus = m_modulus element in
     if forward
     then rlift (ebind (emap (\<lambda>i. ebind (get_at (totient_list cycloOrder) i) (get_at (m_data element))) [0..<unat n]) (\<lambda>d.
            Inr (st, \<lparr>m_modulus = modulus, m_data = d\<rparr>))) s
     else if n + 1 = cycloOrder then rlift (ebind (Drop_prime element (unat n)) (\<lambda>v. Inr (st, v))) s
     else if (n + 1) * 2 = cycloOrder then rlift (ebind (Drop_twice_prime element (unat n)) (\<lambda>v. Inr (st, v))) s
     else rbind (if GetLength (mget no_vec (m_rootOfUnityDivisionTableByModulus st) bigMod) = 0 \<or>
                    mget 0 (m_DivisionNTTModulus st) modulus \<noteq> bigMod
                 then SetPreComputedNTTDivisionModulus draw cycloOrder modulus bigMod bigRoot st s
                 else Some (Inr (st, s))) (\<lambda>st s.
            rlift (ebind (Drop_arbitrary element cycloOrder n st) (\<lambda>v. Inr (st, v))) s))"

subsection \<open>Forward and inverse\<close>

text \<open>Fills the three tables a Bluestein transform reads, each unless it is there.\<close>

definition fill_tables :: "u32 \<Rightarrow> modroot \<Rightarrow> modroot \<Rightarrow> arb \<Rightarrow> arb res" where
  "fill_tables cycloOrder modulusRoot nttModulusRoot st =
     ebind (if GetLength (mget no_vec (m_rootOfUnityTableByModulusRoot st) nttModulusRoot) = 0
            then PreComputeRootTableForNTT cycloOrder nttModulusRoot st else Inr st) (\<lambda>st.
     ebind (if GetLength (mget no_vec (m_powersTableByModulusRoot st) modulusRoot) = 0
            then PreComputePowers cycloOrder modulusRoot st else Inr st) (\<lambda>st.
     if GetLength (mget no_vec (m_RBTableByModulusRootPair st) (modulusRoot, nttModulusRoot)) = 0
     then PreComputeRBTable cycloOrder (modulusRoot, nttModulusRoot) st else Inr st))"

definition phim_error :: exn where
  "phim_error = OpenFHEError ''element size should be equal to phim''"

definition Arb_ForwardTransform ::
    "'s prng \<Rightarrow> nvec \<Rightarrow> u64 \<Rightarrow> u64 \<Rightarrow> u64 \<Rightarrow> u32 \<Rightarrow> arb \<Rightarrow> 's \<Rightarrow> (arb \<times> nvec, 's) run" where
  "Arb_ForwardTransform draw element root_elt nttModulus nttRoot cycloOrder st s =
     rbind (GetTotient draw (ucast cycloOrder) s) (\<lambda>phim s.
     if GetLength element \<noteq> unat (ucast phim :: u32) then Some (Inl phim_error)
     else rbind (rlift (fill_tables cycloOrder (m_modulus element, root_elt) (nttModulus, nttRoot) st) s) (\<lambda>st s.
          rbind (Pad draw element cycloOrder True s) (\<lambda>inputToBluestein s.
          rbind (rlift (BFT_ForwardTransform_root inputToBluestein root_elt cycloOrder (nttModulus, nttRoot) st) s) (\<lambda>outputBluestein s.
            Drop draw outputBluestein cycloOrder True nttModulus nttRoot st s))))"

definition Arb_InverseTransform ::
    "'s prng \<Rightarrow> nvec \<Rightarrow> u64 \<Rightarrow> u64 \<Rightarrow> u64 \<Rightarrow> u32 \<Rightarrow> arb \<Rightarrow> 's \<Rightarrow> (arb \<times> nvec, 's) run" where
  "Arb_InverseTransform draw element root_elt nttModulus nttRoot cycloOrder st s =
     rbind (GetTotient draw (ucast cycloOrder) s) (\<lambda>phim s.
     if GetLength element \<noteq> unat (ucast phim :: u32) then Some (Inl phim_error)
     else let modulus = m_modulus element in
          rbind (rlift (ModInverse root_elt modulus) s) (\<lambda>rootInverse s.
          rbind (rlift (fill_tables cycloOrder (modulus, rootInverse) (nttModulus, nttRoot) st) s) (\<lambda>st s.
          rbind (Pad draw element cycloOrder False s) (\<lambda>inputToBluestein s.
          rbind (rlift (BFT_ForwardTransform_root inputToBluestein rootInverse cycloOrder (nttModulus, nttRoot) st) s) (\<lambda>outputBluestein s.
          rbind (rlift (ModInverse (ucast cycloOrder) modulus) s) (\<lambda>cyclotomicInverse s.
          rbind (rlift (vModMul_s outputBluestein cyclotomicInverse) s) (\<lambda>outputBluestein s.
            Drop draw outputBluestein cycloOrder False nttModulus nttRoot st s)))))))"

definition Arb_Reset :: "arb \<Rightarrow> arb" where
  "Arb_Reset st = BFT_Reset (st\<lparr>m_cyclotomicPolyMap := Map.empty,
     m_cyclotomicPolyReverseNTTMap := Map.empty,
     m_cyclotomicPolyNTTMap := Map.empty,
     m_rootOfUnityDivisionTableByModulus := Map.empty,
     m_rootOfUnityDivisionInverseTableByModulus := Map.empty,
     m_DivisionNTTModulus := Map.empty,
     m_DivisionNTTRootOfUnity := Map.empty,
     m_nttDivisionDim := Map.empty\<rparr>)"

end
