(* ===== verification/Rounding.thy ===== *)
theory Rounding
  imports NatVec Complex_Main
begin

text \<open>
  \<open>MultiplyAndRound\<close> of \<open>ubintnat.h\<close> and \<open>mubintvecnat.cpp\<close>, which computes
  \<open>p * (x / q) + 0.5\<close> in double precision. A double is the rational number it stands for; each
  operation rounds to 53 significant bits, half to even. The values stay between \<open>2^-64\<close> and
  \<open>2^129\<close>, so no operation overflows or underflows.
\<close>

section \<open>Definitions\<close>

subsection \<open>Double precision\<close>

text \<open>The exponent of the leading bit of \<open>a / b\<close>, and rounding of a rational to an integer, half to even.\<close>

definition ratio_log2 :: "int \<Rightarrow> int \<Rightarrow> int" where
  "ratio_log2 a b =
     (if a \<ge> b then int (bit_len (nat (a div b))) - 1 else - int (bit_len (nat ((b - 1) div a))))"

definition round_half_even :: "int \<Rightarrow> int \<Rightarrow> int" where
  "round_half_even a b =
     (let q = a div b; r = 2 * (a mod b)
      in if r < b \<or> (r = b \<and> even q) then q else q + 1)"

definition double_round :: "rat \<Rightarrow> rat" where
  "double_round x =
     (if x \<le> 0 then 0
      else let (a, b) = quotient_of x; e = ratio_log2 a b - 52
       in if e \<ge> 0 then of_int (round_half_even a (b * 2 ^ nat e) * 2 ^ nat e)
          else of_int (round_half_even (a * 2 ^ nat (- e)) b) / 2 ^ nat (- e))"

definition ConvertToDouble :: "u64 \<Rightarrow> rat" where
  "ConvertToDouble x = double_round (of_nat (unat x))"

text \<open>The conversion to \<open>uint64_t\<close> is undefined from \<open>2^64\<close> on.\<close>

definition double_to_u64 :: "rat \<Rightarrow> u64 res" where
  "double_to_u64 x = (if x \<ge> 2 ^ 64 then Inl OutOfRange else Inr (of_int \<lfloor>x\<rfloor>))"

subsection \<open>Multiplication by a fraction\<close>

definition MultiplyAndRound :: "u64 \<Rightarrow> u64 \<Rightarrow> u64 \<Rightarrow> u64 res" where
  "MultiplyAndRound x p q =
     (if q = 0 then Inl (OpenFHEError ''NativeIntegerT MultiplyAndRound: Divide by zero'')
      else double_to_u64 (double_round (double_round (ConvertToDouble p * double_round (ConvertToDouble x / ConvertToDouble q)) + 1 / 2)))"

definition MultiplyAndRoundEq :: "u64 \<Rightarrow> u64 \<Rightarrow> u64 \<Rightarrow> u64 res" where
  "MultiplyAndRoundEq x p q =
     (if q = 0 then Inl (OpenFHEError ''NativeIntegerT MultiplyAndRoundEq: Divide by zero'')
      else double_to_u64 (double_round (double_round (ConvertToDouble p * double_round (ConvertToDouble x / ConvertToDouble q)) + 1 / 2)))"

definition vMultiplyAndRound :: "nvec \<Rightarrow> u64 \<Rightarrow> u64 \<Rightarrow> nvec res" where
  "vMultiplyAndRound a p q =
     (let halfQ = drop_bit 1 (m_modulus a); mv = m_modulus a
      in ebind (emap (\<lambda>x. if x > halfQ
             then ebind (MultiplyAndRound (Sub mv x) p q) (\<lambda>r. Inr (Sub mv r))
             else ebind (MultiplyAndRound x p q) (\<lambda>r. Inr (Mod r mv))) (m_data a)) (\<lambda>d.
           Inr (a\<lparr>m_data := d\<rparr>)))"

definition vMultiplyAndRoundEq :: "nvec \<Rightarrow> u64 \<Rightarrow> u64 \<Rightarrow> nvec res" where
  "vMultiplyAndRoundEq a p q =
     (let halfQ = drop_bit 1 (m_modulus a); mv = m_modulus a
      in ebind (emap (\<lambda>x. if x > halfQ
             then ebind (MultiplyAndRound (Sub mv x) p q) (\<lambda>r. Inr (Sub mv r))
             else ebind (MultiplyAndRound x p q) (\<lambda>r. Inr (Mod r mv))) (m_data a)) (\<lambda>d.
           Inr (a\<lparr>m_data := d\<rparr>)))"

end
