(* ===== verification/PolyRing.thy ===== *)
theory PolyRing
  imports Bluestein Rounding
begin

text \<open>
  \<open>PolyImpl<NativeVector>\<close> of \<open>src/core/include/lattice/hal/default\<close> (\<open>poly.h\<close>,
  \<open>poly-impl.h\<close>) with its parameters \<open>ILParamsImpl\<close>, \<open>ElemParams\<close>: an element of the ring
  \<open>Z_q[X] / Phi_m\<close>, either by its coefficients or by its values at the roots of unity.

  A shared or unique pointer is an option; a null pointer that the code follows is the error
  \<open>NullPointer\<close>. Parameters are never changed in place, so sharing them is not modelled. The static
  caches of the transforms are a pair threaded through the operations that transform. \<open>Integer\<close>
  is the 64-bit \<open>NativeInteger\<close>. The operations are named after the methods with a leading
  \<open>Poly_\<close>; a scalar overload ends in \<open>_s\<close>, a compound assignment in \<open>Eq\<close>.
\<close>

section \<open>Definitions\<close>

datatype Format = EVALUATION | COEFFICIENT

record elem_params =
  m_ringDimension :: u32
  m_cyclotomicOrder :: u32
  m_ciphertextModulus :: u64
  m_rootOfUnity :: u64
  m_bigCiphertextModulus :: u64
  m_bigRootOfUnity :: u64

record poly =
  m_format :: Format
  m_params :: "elem_params option"
  m_values :: "nvec option"

type_synonym caches = "ftt \<times> arb"

definition deref :: "'a option \<Rightarrow> 'a res" where
  "deref x = (case x of None \<Rightarrow> Inl NullPointer | Some v \<Rightarrow> Inr v)"

subsection \<open>Parameters\<close>

definition ElemParams :: "'s prng \<Rightarrow> u32 \<Rightarrow> u64 \<Rightarrow> u64 \<Rightarrow> u64 \<Rightarrow> u64 \<Rightarrow> 's \<Rightarrow> (elem_params, 's) run" where
  "ElemParams draw order ctModulus rUnity bigCtModulus bigRUnity s =
     rbind (GetTotient draw (ucast order) s) (\<lambda>n s.
       Some (Inr (\<lparr>m_ringDimension = ucast n, m_cyclotomicOrder = order, m_ciphertextModulus = ctModulus,
         m_rootOfUnity = rUnity, m_bigCiphertextModulus = bigCtModulus, m_bigRootOfUnity = bigRUnity\<rparr>, s)))"

definition ILParams_modulus :: "'s prng \<Rightarrow> u32 \<Rightarrow> u64 \<Rightarrow> 's \<Rightarrow> (elem_params, 's) run" where
  "ILParams_modulus draw order modulus s =
     rbind (RootOfUnity draw order modulus s) (\<lambda>r s. ElemParams draw order modulus r 0 0 s)"

definition ILParams_bits :: "'s prng \<Rightarrow> u32 \<Rightarrow> u32 \<Rightarrow> 's \<Rightarrow> (elem_params, 's) run" where
  "ILParams_bits draw order bits s =
     rbind (LastPrime draw bits (ucast order) s) (\<lambda>q s. ILParams_modulus draw order q s)"

definition ILParams_root :: "'s prng \<Rightarrow> u32 \<Rightarrow> u64 \<Rightarrow> u64 \<Rightarrow> 's \<Rightarrow> (elem_params, 's) run" where
  "ILParams_root draw order modulus rootOfUnity s = ElemParams draw order modulus rootOfUnity 0 0 s"

definition elem_params_eq :: "elem_params \<Rightarrow> elem_params \<Rightarrow> bool" where
  "elem_params_eq a b \<longleftrightarrow> m_ringDimension a = m_ringDimension b \<and> m_cyclotomicOrder a = m_cyclotomicOrder b \<and>
     m_ciphertextModulus a = m_ciphertextModulus b \<and> m_rootOfUnity a = m_rootOfUnity b \<and>
     m_bigCiphertextModulus a = m_bigCiphertextModulus b \<and> m_bigRootOfUnity a = m_bigRootOfUnity b"

text \<open>An archive of parameters holds the fields in this order, one word each.\<close>

definition save_elem_params :: "elem_params \<Rightarrow> u64 list" where
  "save_elem_params P = [ucast (m_cyclotomicOrder P), ucast (m_ringDimension P)] @ save_u64 (m_ciphertextModulus P) @
     save_u64 (m_rootOfUnity P) @ save_u64 (m_bigCiphertextModulus P) @ save_u64 (m_bigRootOfUnity P)"

definition load_elem_params :: "nat \<Rightarrow> u64 list \<Rightarrow> elem_params res" where
  "load_elem_params version ar =
     (if version > SerializedVersion
      then Inl (OpenFHEError (''serialized object version '' @ std_to_string version @
             '' is from a later version of the library''))
      else case ar of
          co # rd # ar \<Rightarrow>
            ebind (load_u64 version ar) (\<lambda>cm. ebind (load_u64 version (drop 1 ar)) (\<lambda>ru.
            ebind (load_u64 version (drop 2 ar)) (\<lambda>bm. ebind (load_u64 version (drop 3 ar)) (\<lambda>br.
              Inr \<lparr>m_ringDimension = ucast rd, m_cyclotomicOrder = ucast co, m_ciphertextModulus = cm,
                m_rootOfUnity = ru, m_bigCiphertextModulus = bm, m_bigRootOfUnity = br\<rparr>))))
        | _ \<Rightarrow> Inl OutOfRange)"

subsection \<open>Construction\<close>

definition PolyImpl_default :: poly where
  "PolyImpl_default = \<lparr>m_format = EVALUATION, m_params = None, m_values = None\<rparr>"

definition SetValuesToZero :: "poly \<Rightarrow> poly res" where
  "SetValuesToZero p = ebind (deref (m_params p)) (\<lambda>P.
     Inr (p\<lparr>m_values := Some (nvec_zero (unat (m_ringDimension P)) (m_ciphertextModulus P))\<rparr>))"

definition SetValuesToMax :: "poly \<Rightarrow> poly res" where
  "SetValuesToMax p = ebind (deref (m_params p)) (\<lambda>P.
     Inr (p\<lparr>m_values := Some (nvec_fill (unat (m_ringDimension P)) (m_ciphertextModulus P)
       (Sub (m_ciphertextModulus P) 1))\<rparr>))"

definition PolyImpl :: "elem_params option \<Rightarrow> Format \<Rightarrow> bool \<Rightarrow> poly res" where
  "PolyImpl params format initializeElementToZero =
     (let p = \<lparr>m_format = format, m_params = params, m_values = None\<rparr>
      in if initializeElementToZero then SetValuesToZero p else Inr p)"

definition PolyImpl_max :: "bool \<Rightarrow> elem_params option \<Rightarrow> Format \<Rightarrow> poly res" where
  "PolyImpl_max initializeElementToMax params format =
     (let p = \<lparr>m_format = format, m_params = params, m_values = None\<rparr>
      in if initializeElementToMax then SetValuesToMax p else Inr p)"

definition Poly_SetValues :: "nvec \<Rightarrow> Format \<Rightarrow> poly \<Rightarrow> poly res" where
  "Poly_SetValues values format p = ebind (deref (m_params p)) (\<lambda>P.
     if m_rootOfUnity P = 0 then Inl (OpenFHEError ''Polynomial has a 0 root of unity'')
     else if unat (m_ringDimension P) \<noteq> GetLength values \<or> m_ciphertextModulus P \<noteq> m_modulus values
     then Inl (OpenFHEError ''Parameter mismatch on SetValues for Polynomial'')
     else Inr (p\<lparr>m_format := format, m_values := Some values\<rparr>))"

definition GetValues :: "poly \<Rightarrow> nvec res" where
  "GetValues p = (case m_values p of None \<Rightarrow> Inl (OpenFHEError ''No values in PolyImpl'') | Some v \<Rightarrow> Inr v)"

definition Poly_at :: "poly \<Rightarrow> nat \<Rightarrow> u64 res" where
  "Poly_at p i = (case m_values p of None \<Rightarrow> Inl (OpenFHEError ''No values in PolyImpl'') | Some v \<Rightarrow> NatVec.at v i)"

subsection \<open>Assignment\<close>

definition Poly_assign :: "poly \<Rightarrow> poly \<Rightarrow> poly" where
  "Poly_assign p rhs =
     (let p = p\<lparr>m_format := m_format rhs, m_params := m_params rhs\<rparr>
      in case m_values rhs of
           None \<Rightarrow> p\<lparr>m_values := None\<rparr>
         | Some w \<Rightarrow> (case m_values p of
               Some v \<Rightarrow> p\<lparr>m_values := Some (assign_vec v w)\<rparr>
             | None \<Rightarrow> p\<lparr>m_values := Some w\<rparr>))"

text \<open>A vector of the right shape when there is none yet.\<close>

definition fresh_values :: "poly \<Rightarrow> poly res" where
  "fresh_values p = (case m_values p of
       Some v \<Rightarrow> Inr p
     | None \<Rightarrow> ebind (deref (m_params p)) (\<lambda>P.
         ebind (SetModulus (nvec_zero (unat (m_ringDimension P)) 0) (m_ciphertextModulus P)) (\<lambda>temp.
           Poly_SetValues temp (m_format p) p)))"

text \<open>Writes \<open>f j\<close> to the first \<open>vlen\<close> entries.\<close>

definition store_values :: "nat \<Rightarrow> (nat \<Rightarrow> u64 res) \<Rightarrow> poly \<Rightarrow> poly res" where
  "store_values vlen f p = ebind (deref (m_values p)) (\<lambda>v.
     ebind (efor 0 vlen (\<lambda>j d. ebind (f j) (set_at d j)) (m_data v)) (\<lambda>d.
       Inr (p\<lparr>m_values := Some (v\<lparr>m_data := d\<rparr>)\<rparr>)))"

definition Poly_assign_u64s :: "u64 list \<Rightarrow> poly \<Rightarrow> poly res" where
  "Poly_assign_u64s rhs p = ebind (deref (m_params p)) (\<lambda>P.
     ebind (fresh_values p)
       (store_values (unat (m_ringDimension P)) (\<lambda>j. Inr (if j < length rhs then rhs ! j else 0))))"

text \<open>
  A signed entry becomes \<open>m - |r|\<close> without reduction; negating the least value of the type
  (\<open>neg\<close> fails) is undefined.
\<close>

definition signed_entry :: "(int \<Rightarrow> int res) \<Rightarrow> u64 \<Rightarrow> int \<Rightarrow> u64 res" where
  "signed_entry chk m r =
     (if r < 0 then ebind (chk (- r)) (\<lambda>a. Inr (Sub m (word_of_int a))) else Inr (word_of_int r))"

definition Poly_assign_i64s :: "int list \<Rightarrow> poly \<Rightarrow> poly res" where
  "Poly_assign_i64s rhs p =
     (let p = p\<lparr>m_format := COEFFICIENT\<rparr>
      in ebind (deref (m_params p)) (\<lambda>P. ebind (fresh_values p)
           (store_values (unat (m_ringDimension P)) (\<lambda>j.
             if j < length rhs then signed_entry i64 (m_ciphertextModulus P) (rhs ! j) else Inr 0))))"

definition Poly_assign_i32s :: "int list \<Rightarrow> poly \<Rightarrow> poly res" where
  "Poly_assign_i32s rhs p =
     (let p = p\<lparr>m_format := COEFFICIENT\<rparr>
      in ebind (deref (m_params p)) (\<lambda>P. ebind (fresh_values p)
           (store_values (unat (m_ringDimension P)) (\<lambda>j.
             if j < length rhs then signed_entry i32 (m_ciphertextModulus P) (rhs ! j) else Inr 0))))"

definition Poly_assign_strings :: "string list \<Rightarrow> poly \<Rightarrow> poly res" where
  "Poly_assign_strings rhs p = ebind (deref (m_params p)) (\<lambda>P.
     ebind (fresh_values p) (\<lambda>p. ebind (deref (m_values p)) (\<lambda>v.
     ebind (assign_strings v rhs) (\<lambda>v. Inr (p\<lparr>m_values := Some v\<rparr>)))))"

definition Poly_assign_u64 :: "u64 \<Rightarrow> poly \<Rightarrow> poly res" where
  "Poly_assign_u64 val p =
     (let p = p\<lparr>m_format := EVALUATION\<rparr>
      in ebind (case m_values p of Some v \<Rightarrow> Inr p | None \<Rightarrow> SetValuesToZero p) (\<lambda>p.
         ebind (deref (m_values p)) (\<lambda>v. Inr (p\<lparr>m_values := Some (v\<lparr>m_data := map (\<lambda>_. val) (m_data v)\<rparr>)\<rparr>))))"

subsection \<open>Arithmetic\<close>

text \<open>\<open>PolyImpl tmp(m_params, m_format); tmp.SetValues(f(*m_values), m_format)\<close>\<close>

definition with_values :: "poly \<Rightarrow> (nvec \<Rightarrow> nvec res) \<Rightarrow> poly res" where
  "with_values p f = ebind (PolyImpl (m_params p) (m_format p) False) (\<lambda>tmp.
     ebind (deref (m_values p)) (\<lambda>v. ebind (f v) (\<lambda>w. Poly_SetValues w (m_format p) tmp)))"

text \<open>\<open>m_values->f(*rhs.m_values)\<close>\<close>

definition update_values :: "(nvec \<Rightarrow> nvec \<Rightarrow> nvec res) \<Rightarrow> poly \<Rightarrow> poly \<Rightarrow> poly res" where
  "update_values f p rhs = ebind (deref (m_values p)) (\<lambda>v. ebind (deref (m_values rhs)) (\<lambda>w.
     ebind (f v w) (\<lambda>u. Inr (p\<lparr>m_values := Some u\<rparr>))))"

definition Poly_Plus_s :: "poly \<Rightarrow> u64 \<Rightarrow> poly res" where
  "Poly_Plus_s p element =
     (if m_format p = COEFFICIENT then with_values p (\<lambda>v. ModAddAtIndex v 0 element)
      else with_values p (\<lambda>v. Inr (vModAdd_s v element)))"

definition Poly_PlusEq_s :: "poly \<Rightarrow> u64 \<Rightarrow> poly res" where
  "Poly_PlusEq_s p element = ebind (Poly_Plus_s p element) (\<lambda>q. Inr (Poly_assign p q))"

definition Poly_Minus_s :: "poly \<Rightarrow> u64 \<Rightarrow> poly res" where
  "Poly_Minus_s p element = with_values p (\<lambda>v. Inr (vModSub_s v element))"

definition Poly_MinusEq_s :: "poly \<Rightarrow> u64 \<Rightarrow> poly res" where
  "Poly_MinusEq_s p element = ebind (deref (m_values p)) (\<lambda>v.
     Inr (p\<lparr>m_values := Some (vModSubEq_s v element)\<rparr>))"

definition Poly_Times_s :: "poly \<Rightarrow> u64 \<Rightarrow> poly res" where
  "Poly_Times_s p element = with_values p (\<lambda>v. vModMul_s v element)"

definition Poly_TimesEq_s :: "poly \<Rightarrow> u64 \<Rightarrow> poly res" where
  "Poly_TimesEq_s p element = ebind (deref (m_values p)) (\<lambda>v.
     ebind (vModMulEq_s v element) (\<lambda>v. Inr (p\<lparr>m_values := Some v\<rparr>)))"

text \<open>A signed factor; \<open>-element\<close> overflows for the least one.\<close>

definition Poly_Times_signed :: "poly \<Rightarrow> int \<Rightarrow> poly res" where
  "Poly_Times_signed p element = ebind (deref (m_params p)) (\<lambda>P.
     let q = m_ciphertextModulus P in
     if element < 0
     then ebind (i64 (- element)) (\<lambda>a.
          let elementReduced = word_of_int a;
              elementReduced = (if elementReduced > q then ModEq elementReduced q else elementReduced)
          in with_values p (\<lambda>v. vModMul_s v (Sub q elementReduced)))
     else let elementReduced = word_of_int element;
              elementReduced = (if elementReduced > q then ModEq elementReduced q else elementReduced)
          in with_values p (\<lambda>v. vModMul_s v elementReduced))"

definition params_mismatch :: "poly \<Rightarrow> poly \<Rightarrow> unit res" where
  "params_mismatch p rhs = ebind (deref (m_params p)) (\<lambda>P. ebind (deref (m_params rhs)) (\<lambda>Q.
     if m_ringDimension P \<noteq> m_ringDimension Q then Inl (OpenFHEError ''RingDimension mismatch'')
     else if m_ciphertextModulus P \<noteq> m_ciphertextModulus Q then Inl (OpenFHEError ''Modulus mismatch'')
     else Inr ()))"

definition Poly_Plus :: "poly \<Rightarrow> poly \<Rightarrow> poly res" where
  "Poly_Plus p rhs = ebind (params_mismatch p rhs) (\<lambda>_.
     if m_format p \<noteq> m_format rhs then Inl (OpenFHEError ''Format mismatch'')
     else update_values vModAddNoCheckEq p rhs)"

definition Poly_PlusNoCheck :: "poly \<Rightarrow> poly \<Rightarrow> poly res" where
  "Poly_PlusNoCheck p rhs = update_values vModAddNoCheckEq p rhs"

definition Poly_PlusEq :: "poly \<Rightarrow> poly \<Rightarrow> poly res" where
  "Poly_PlusEq p element =
     ebind (case m_values p of None \<Rightarrow> SetValuesToZero p | Some v \<Rightarrow> Inr p) (\<lambda>p. update_values vModAddEq p element)"

definition Poly_Minus :: "poly \<Rightarrow> poly \<Rightarrow> poly res" where
  "Poly_Minus p rhs = with_values p (\<lambda>v. ebind (deref (m_values rhs)) (vModSub v))"

definition Poly_MinusEq :: "poly \<Rightarrow> poly \<Rightarrow> poly res" where
  "Poly_MinusEq p element =
     ebind (case m_values p of None \<Rightarrow> SetValuesToZero p | Some v \<Rightarrow> Inr p) (\<lambda>p. update_values vModSubEq p element)"

definition not_evaluation :: "'a res" where
  "not_evaluation = Inl (OpenFHEError ''operator* for PolyImpl supported only in Format::EVALUATION'')"

definition Poly_Times :: "poly \<Rightarrow> poly \<Rightarrow> poly res" where
  "Poly_Times p rhs = ebind (params_mismatch p rhs) (\<lambda>_.
     if m_format p \<noteq> EVALUATION \<or> m_format rhs \<noteq> EVALUATION then not_evaluation
     else update_values vModMulNoCheckEq p rhs)"

definition Poly_TimesNoCheck :: "poly \<Rightarrow> poly \<Rightarrow> poly res" where
  "Poly_TimesNoCheck p rhs = update_values vModMulNoCheckEq p rhs"

definition Poly_TimesEq :: "poly \<Rightarrow> poly \<Rightarrow> poly res" where
  "Poly_TimesEq p rhs = ebind (params_mismatch p rhs) (\<lambda>_.
     if m_format p \<noteq> EVALUATION \<or> m_format rhs \<noteq> EVALUATION then not_evaluation
     else case m_values p of Some v \<Rightarrow> update_values vModMulNoCheckEq p rhs | None \<Rightarrow> SetValuesToZero p)"

definition Poly_MultAccEqNoCheck :: "poly \<Rightarrow> poly \<Rightarrow> u64 \<Rightarrow> poly res" where
  "Poly_MultAccEqNoCheck p V I = update_values (\<lambda>v w. MultAccEqNoCheck v w I) p V"

definition Poly_MultiplyAndRound :: "poly \<Rightarrow> u64 \<Rightarrow> u64 \<Rightarrow> poly res" where
  "Poly_MultiplyAndRound p r q = with_values p (\<lambda>v. vMultiplyAndRound v r q)"

definition Poly_DivideAndRound :: "poly \<Rightarrow> u64 \<Rightarrow> poly res" where
  "Poly_DivideAndRound p q = with_values p (\<lambda>v. vDivideAndRound v q)"

definition Poly_Negate :: "poly \<Rightarrow> poly res" where
  "Poly_Negate p = ebind (PolyImpl (m_params p) (m_format p) True) (\<lambda>z. Poly_MinusEq z p)"

definition Poly_uminus :: "poly \<Rightarrow> poly res" where
  "Poly_uminus p = ebind (PolyImpl (m_params p) (m_format p) True) (\<lambda>z. Poly_MinusEq z p)"

definition AddILElementOne :: "poly \<Rightarrow> poly res" where
  "AddILElementOne p = ebind (deref (m_params p)) (\<lambda>P. ebind (deref (m_values p)) (\<lambda>v.
     ebind (efor 0 (unat (m_ringDimension P)) (\<lambda>i d. ebind (get_at d i) (\<lambda>x.
         set_at d i (ModAddFastEq x 1 (m_ciphertextModulus P)))) (m_data v)) (\<lambda>d.
       Inr (p\<lparr>m_values := Some (v\<lparr>m_data := d\<rparr>)\<rparr>))))"

definition Poly_MultiplicativeInverse :: "poly \<Rightarrow> poly res" where
  "Poly_MultiplicativeInverse p = with_values p vModInverse"

definition Poly_ModByTwo :: "poly \<Rightarrow> poly res" where
  "Poly_ModByTwo p = with_values p (\<lambda>v. Inr (vModByTwo v))"

definition Poly_Mod :: "poly \<Rightarrow> u64 \<Rightarrow> poly res" where
  "Poly_Mod p modulus = with_values p (\<lambda>v. Inr (vMod v modulus))"

text \<open>Equality compares the format, the root of unity and the values, not the other parameters.\<close>

definition Poly_eq :: "poly \<Rightarrow> poly \<Rightarrow> bool res" where
  "Poly_eq p rhs =
     (if m_format p \<noteq> m_format rhs then Inr False
      else ebind (deref (m_params p)) (\<lambda>P. ebind (deref (m_params rhs)) (\<lambda>Q.
        if m_rootOfUnity P \<noteq> m_rootOfUnity Q then Inr False
        else ebind (GetValues p) (\<lambda>v. ebind (GetValues rhs) (\<lambda>w. Inr (vec_eq v w))))))"

subsection \<open>Automorphisms\<close>

text \<open>The exponents \<open>logm - 1\<close> and \<open>logn - 1\<close> wrap for an order below two, and the shift then traps.\<close>

definition AutomorphismTransform :: "u32 \<Rightarrow> poly \<Rightarrow> poly res" where
  "AutomorphismTransform k p = ebind (deref (m_params p)) (\<lambda>P.
     let n = m_ringDimension P; m = m_cyclotomicOrder P; bp = (n = drop_bit 1 m); bf = (m_format p = EVALUATION) in
     if \<not> bp then Inl (OpenFHEError ''Automorphism Poly Format not EVALUATION or not power-of-two'')
     else if k mod 2 = 0 then Inl (OpenFHEError ''Automorphism index not odd\<newline>'')
     else ebind (PolyImpl (Some P) (m_format p) True) (\<lambda>result.
       let logm = GetMSB (ucast m) - 1; logn = logm - 1 in
       if unat logn \<ge> 32 then Inl ShiftOutOfRange
       else let mask = push_bit (unat logn) 1 - 1 in
       if bf
       then ebind (deref (m_values p)) (\<lambda>v.
            ebind (efor 0 (unat n) (\<lambda>j (d, jk).
              ebind (ReverseBits (of_nat j) logn) (\<lambda>jrev.
              ebind (ReverseBits (drop_bit 1 jk AND mask) logn) (\<lambda>idxrev.
              ebind (get_at (m_data v) (unat idxrev)) (\<lambda>x.
              ebind (set_at d (unat jrev) x) (\<lambda>d. Inr (d, jk + 2 * k))))))
              (replicate (unat n) 0, k)) (\<lambda>(d, jk).
            Inr (result\<lparr>m_values := Some \<lparr>m_modulus = m_ciphertextModulus P, m_data = d\<rparr>\<rparr>)))
       else let q = m_ciphertextModulus P in
            ebind (deref (m_values p)) (\<lambda>v.
            ebind (efor 0 (unat n) (\<lambda>j (d, jk).
              ebind (get_at (m_data v) j) (\<lambda>x.
              ebind (set_at d (unat (jk AND mask)) (if drop_bit (unat logn) jk AND 1 \<noteq> 0 then Sub q x else x)) (\<lambda>d.
                Inr (d, jk + k))))
              (replicate (unat n) 0, 0)) (\<lambda>(d, jk).
            Inr (result\<lparr>m_values := Some \<lparr>m_modulus = q, m_data = d\<rparr>\<rparr>)))))"

definition AutomorphismTransform_precomp :: "u32 \<Rightarrow> u32 list \<Rightarrow> poly \<Rightarrow> poly res" where
  "AutomorphismTransform_precomp k precomp p =
     (if m_format p \<noteq> EVALUATION
      then Inl (OpenFHEError ''Automorphism Poly Format not EVALUATION or not power-of-two'')
      else ebind (deref (m_params p)) (\<lambda>P.
        if m_ringDimension P \<noteq> drop_bit 1 (m_cyclotomicOrder P)
        then Inl (OpenFHEError ''Automorphism Poly Format not EVALUATION or not power-of-two'')
        else if k mod 2 = 0 then Inl (OpenFHEError ''Automorphism index not odd\<newline>'')
        else ebind (PolyImpl (Some P) (m_format p) True) (\<lambda>tmp.
          ebind (deref (m_values p)) (\<lambda>v.
          ebind (efor 0 (unat (m_ringDimension P)) (\<lambda>j d.
            ebind (get_at precomp j) (\<lambda>i. ebind (get_at (m_data v) (unat i)) (set_at d j)))
            (replicate (unat (m_ringDimension P)) 0)) (\<lambda>d.
          Inr (tmp\<lparr>m_values := Some \<lparr>m_modulus = m_ciphertextModulus P, m_data = d\<rparr>\<rparr>))))))"

definition Transpose :: "poly \<Rightarrow> poly res" where
  "Transpose p =
     (if m_format p = COEFFICIENT
      then Inl (OpenFHEError ''PolyInterface element transposition is currently implemented only in the Evaluation representation.'')
      else ebind (deref (m_params p)) (\<lambda>P. AutomorphismTransform (m_cyclotomicOrder P - 1) p))"

subsection \<open>Change of modulus and of format\<close>

definition Poly_SwitchModulus :: "'s prng \<Rightarrow> u64 \<Rightarrow> u64 \<Rightarrow> u64 \<Rightarrow> u64 \<Rightarrow> poly \<Rightarrow> 's \<Rightarrow> (poly, 's) run" where
  "Poly_SwitchModulus draw modulus rootOfUnity modulusArb rootOfUnityArb p s =
     (case m_values p of None \<Rightarrow> Some (Inr (p, s))
      | Some v \<Rightarrow>
          rbind (rlift (SwitchModulus v modulus) s) (\<lambda>v s. rbind (rlift (deref (m_params p)) s) (\<lambda>P s.
          rbind (ElemParams draw (m_cyclotomicOrder P) modulus rootOfUnity modulusArb rootOfUnityArb s) (\<lambda>P s.
            Some (Inr (p\<lparr>m_values := Some v, m_params := Some P\<rparr>, s))))))"

definition Poly_LazySwitchModulus :: "'s prng \<Rightarrow> u64 \<Rightarrow> u64 \<Rightarrow> u64 \<Rightarrow> u64 \<Rightarrow> poly \<Rightarrow> 's \<Rightarrow> (poly, 's) run" where
  "Poly_LazySwitchModulus draw modulus rootOfUnity modulusArb rootOfUnityArb p s =
     (case m_values p of None \<Rightarrow> Some (Inr (p, s))
      | Some v \<Rightarrow>
          rbind (rlift (LazySwitchModulus v modulus) s) (\<lambda>v s. rbind (rlift (deref (m_params p)) s) (\<lambda>P s.
          rbind (ElemParams draw (m_cyclotomicOrder P) modulus rootOfUnity modulusArb rootOfUnityArb s) (\<lambda>P s.
            Some (Inr (p\<lparr>m_values := Some v, m_params := Some P\<rparr>, s))))))"

definition empty_values :: "'a res" where
  "empty_values = Inl (OpenFHEError ''Poly switch format to empty values'')"

definition ArbitrarySwitchFormat :: "'s prng \<Rightarrow> poly \<Rightarrow> caches \<Rightarrow> 's \<Rightarrow> (poly \<times> caches, 's) run" where
  "ArbitrarySwitchFormat draw p cs s =
     (case m_values p of None \<Rightarrow> Some empty_values
      | Some v \<Rightarrow> rbind (rlift (deref (m_params p)) s) (\<lambda>P s.
          let lr = m_rootOfUnity P; bm = m_bigCiphertextModulus P; br = m_bigRootOfUnity P; co = m_cyclotomicOrder P;
              (f, a) = cs in
          if m_format p = COEFFICIENT
          then rbind (Arb_ForwardTransform draw v lr bm br co a s) (\<lambda>(a, v) s.
                 Some (Inr ((p\<lparr>m_format := EVALUATION, m_values := Some v\<rparr>, (f, a)), s)))
          else rbind (Arb_InverseTransform draw v lr bm br co a s) (\<lambda>(a, v) s.
                 Some (Inr ((p\<lparr>m_format := COEFFICIENT, m_values := Some v\<rparr>, (f, a)), s)))))"

definition SwitchFormat :: "'s prng \<Rightarrow> poly \<Rightarrow> caches \<Rightarrow> 's \<Rightarrow> (poly \<times> caches, 's) run" where
  "SwitchFormat draw p cs s = rbind (rlift (deref (m_params p)) s) (\<lambda>P s.
     let co = m_cyclotomicOrder P; rd = m_ringDimension P; ru = m_rootOfUnity P; (f, a) = cs in
     if rd \<noteq> drop_bit 1 co then ArbitrarySwitchFormat draw p cs s
     else case m_values p of None \<Rightarrow> Some empty_values
       | Some v \<Rightarrow>
           if m_format p \<noteq> COEFFICIENT
           then rbind (rlift (FTT_InverseTransformFromBitReverseInPlace ru co v f) s) (\<lambda>(f, v) s.
                  Some (Inr ((p\<lparr>m_format := COEFFICIENT, m_values := Some v\<rparr>, (f, a)), s)))
           else rbind (rlift (FTT_ForwardTransformToBitReverseInPlace ru co v f) s) (\<lambda>(f, v) s.
                  Some (Inr ((p\<lparr>m_format := EVALUATION, m_values := Some v\<rparr>, (f, a)), s))))"

definition SetFormat :: "'s prng \<Rightarrow> Format \<Rightarrow> poly \<Rightarrow> caches \<Rightarrow> 's \<Rightarrow> (poly \<times> caches, 's) run" where
  "SetFormat draw format p cs s =
     (if m_format p \<noteq> format then SwitchFormat draw p cs s else Some (Inr ((p, cs), s)))"

definition OverrideFormat :: "Format \<Rightarrow> poly \<Rightarrow> poly" where
  "OverrideFormat f p = p\<lparr>m_format := f\<rparr>"

text \<open>A polynomial from a generator, and a copy in a given format.\<close>

definition PolyImpl_generated ::
    "'s prng \<Rightarrow> (u32 \<Rightarrow> u64 \<Rightarrow> 's \<Rightarrow> (nvec, 's) run) \<Rightarrow> elem_params option \<Rightarrow> Format \<Rightarrow> caches \<Rightarrow> 's \<Rightarrow> (poly \<times> caches, 's) run" where
  "PolyImpl_generated draw generate params format cs s =
     rbind (rlift (deref params) s) (\<lambda>P s.
     rbind (generate (m_ringDimension P) (m_ciphertextModulus P) s) (\<lambda>v s.
       SetFormat draw format \<lparr>m_format = COEFFICIENT, m_params = params, m_values = Some v\<rparr> cs s))"

definition PolyImpl_uniform ::
    "(u32 \<Rightarrow> u64 \<Rightarrow> 's \<Rightarrow> (nvec, 's) run) \<Rightarrow> elem_params option \<Rightarrow> Format \<Rightarrow> 's \<Rightarrow> (poly, 's) run" where
  "PolyImpl_uniform generate params format s =
     rbind (rlift (deref params) s) (\<lambda>P s.
     rbind (generate (m_ringDimension P) (m_ciphertextModulus P) s) (\<lambda>v s.
       Some (Inr (\<lparr>m_format = format, m_params = params, m_values = Some v\<rparr>, s))))"

definition PolyImpl_copy :: "'s prng \<Rightarrow> poly \<Rightarrow> Format \<Rightarrow> caches \<Rightarrow> 's \<Rightarrow> (poly \<times> caches, 's) run" where
  "PolyImpl_copy draw rhs format cs s = SetFormat draw format rhs cs s"

subsection \<open>Entries\<close>

definition MakeSparse :: "u32 \<Rightarrow> poly \<Rightarrow> poly res" where
  "MakeSparse wFactor p =
     (case m_values p of None \<Rightarrow> Inr p
      | Some v \<Rightarrow> ebind (deref (m_params p)) (\<lambda>P.
          ebind (efor 0 (unat (m_ringDimension P)) (\<lambda>i d.
            if wFactor = 0 then Inl DivideByZero
            else if (of_nat i :: u32) mod wFactor \<noteq> 0 then set_at d i 0 else Inr d) (m_data v)) (\<lambda>d.
          Inr (p\<lparr>m_values := Some (v\<lparr>m_data := d\<rparr>)\<rparr>))))"

definition InverseExists :: "poly \<Rightarrow> bool res" where
  "InverseExists p = ebind (deref (m_params p)) (\<lambda>P.
     efor 0 (unat (m_ringDimension P)) (\<lambda>i ok.
       if ok then ebind (deref (m_values p)) (\<lambda>v. ebind (get_at (m_data v) i) (\<lambda>x. Inr (x \<noteq> 0))) else Inr False) True)"

text \<open>The conversion of the result to a double is left out.\<close>

definition Norm :: "poly \<Rightarrow> u64 res" where
  "Norm p = ebind (deref (m_params p)) (\<lambda>P.
     let q = m_ciphertextModulus P; half = drop_bit 1 q
     in ebind (efor 0 (unat (m_ringDimension P)) (\<lambda>i (maxVal, minVal).
          ebind (deref (m_values p)) (\<lambda>v. ebind (get_at (m_data v) i) (\<lambda>x.
            Inr (if x > half then (maxVal, if x < minVal then x else minVal)
                 else (if x > maxVal then x else maxVal, minVal))))) (0, q)) (\<lambda>(maxVal, minVal).
        let minVal = Sub q minVal in Inr (if minVal > maxVal then minVal else maxVal)))"

subsection \<open>Decomposition in a base\<close>

definition windows :: "u64 \<Rightarrow> u32 \<Rightarrow> u32 res" where
  "windows m baseBits =
     (if baseBits = 0 then Inl DivideByZero
      else let nBits = GetLengthForBase m 2; nWindows = nBits div baseBits
       in Inr (if nBits mod baseBits > 0 then nWindows + 1 else nWindows))"

text \<open>\<open>1 << baseBits\<close> is a shift of a 32-bit \<open>int\<close>.\<close>

fun BaseDecompose_loop ::
    "'s prng \<Rightarrow> nat list \<Rightarrow> u32 \<Rightarrow> bool \<Rightarrow> poly \<Rightarrow> poly \<Rightarrow> caches \<Rightarrow> 's \<Rightarrow> (poly list \<times> caches, 's) run" where
  "BaseDecompose_loop draw [] baseBits evalModeAnswer x xDigit cs s = Some (Inr (([], cs), s))"
| "BaseDecompose_loop draw (i # is) baseBits evalModeAnswer x xDigit cs s =
     (if unat baseBits \<ge> 32 then Some (Inl ShiftOutOfRange)
      else rbind (rlift (ebind (GetValues x) (\<lambda>v.
          ebind (vGetDigitAtIndexForBase v (of_nat (i + 1)) (push_bit (unat baseBits) 1)) (\<lambda>w.
            Poly_SetValues w (m_format x) xDigit))) s) (\<lambda>xDigit s.
        rbind (if evalModeAnswer then SwitchFormat draw xDigit cs s else Some (Inr ((xDigit, cs), s))) (\<lambda>(xDigit, cs) s.
        rbind (BaseDecompose_loop draw is baseBits evalModeAnswer x xDigit cs s) (\<lambda>(ps, cs) s.
          Some (Inr ((xDigit # ps, cs), s))))))"

definition BaseDecompose :: "'s prng \<Rightarrow> u32 \<Rightarrow> bool \<Rightarrow> poly \<Rightarrow> caches \<Rightarrow> 's \<Rightarrow> (poly list \<times> caches, 's) run" where
  "BaseDecompose draw baseBits evalModeAnswer p cs s =
     rbind (rlift (deref (m_params p)) s) (\<lambda>P s.
     rbind (rlift (windows (m_ciphertextModulus P) baseBits) s) (\<lambda>nWindows s.
     rbind (rlift (PolyImpl (m_params p) EVALUATION False) s) (\<lambda>xDigit s.
     rbind (SetFormat draw COEFFICIENT p cs s) (\<lambda>(x, cs) s.
       BaseDecompose_loop draw [0..<unat nWindows] baseBits evalModeAnswer x xDigit cs s))))"

definition PowersOfBase :: "u32 \<Rightarrow> poly \<Rightarrow> poly list res" where
  "PowersOfBase baseBits p = ebind (deref (m_params p)) (\<lambda>P.
     let m = m_ciphertextModulus P
     in ebind (windows m baseBits) (\<lambda>nWindows.
          emap (\<lambda>i. Poly_Times_s p (ModExp 2 (of_nat i * ucast baseBits) m)) [0..<unat nWindows]))"

subsection \<open>Conversions\<close>

definition DecryptionCRTInterpolate :: "'s prng \<Rightarrow> u64 \<Rightarrow> poly \<Rightarrow> 's \<Rightarrow> (poly, 's) run" where
  "DecryptionCRTInterpolate draw ptm p s =
     rbind (rlift (Poly_Mod p ptm) s) (\<lambda>smaller s.
     rbind (rlift (deref (m_params p)) s) (\<lambda>P s.
     rbind (ILParams_root draw (m_cyclotomicOrder P) ptm 1 s) (\<lambda>params s.
     rbind (rlift (PolyImpl (Some params) (m_format p) True) s) (\<lambda>tmp s.
     rlift (ebind (deref (m_values smaller)) (\<lambda>v.
       store_values (unat (m_ringDimension P)) (get_at (m_data v)) tmp)) s))))"

definition ToNativePoly :: "poly \<Rightarrow> poly" where
  "ToNativePoly p = p"

definition CRTInterpolate :: "poly \<Rightarrow> poly" where
  "CRTInterpolate p = p"

definition CloneParametersOnly :: "poly \<Rightarrow> poly res" where
  "CloneParametersOnly p = PolyImpl (m_params p) (m_format p) False"

definition CloneWithNoise ::
    "'s prng \<Rightarrow> (u32 \<Rightarrow> u64 \<Rightarrow> 's \<Rightarrow> (nvec, 's) run) \<Rightarrow> poly \<Rightarrow> caches \<Rightarrow> 's \<Rightarrow> (poly \<times> caches, 's) run" where
  "CloneWithNoise draw dgg p cs s = PolyImpl_generated draw dgg (m_params p) (m_format p) cs s"

end
