(* ===== verification/Dft.thy ===== *)
theory Dft
  imports Bluestein
begin

text \<open>
  The iterative transforms in natural order compute the discrete Fourier transform modulo \<open>m\<close>:
  for a table of the powers of \<open>w\<close> with \<open>w ^ (n / 2) = - 1\<close> the forward transform returns the
  values of the input polynomial at \<open>1, w, w^2, \<dots>\<close>, the inverse transform recovers the
  coefficients from them, and the product of two value vectors comes back as the cyclic convolution.
\<close>

section \<open>Facts\<close>

subsection \<open>Values of a polynomial, split by parity\<close>

lemma peval_Suc: "peval (Suc n) a x = peval n a x + a n * x ^ n"
  by (simp add: peval_def)

lemma peval_parity: "peval (2 * t) a x = peval t (\<lambda>k. a (2 * k)) (x ^ 2) + x * peval t (\<lambda>k. a (2 * k + 1)) (x ^ 2)"
  by (induction t) (simp_all add: peval_def algebra_simps power_mult [symmetric] power_add)

text \<open>The state before stage \<open>s\<close>: block \<open>b\<close> holds the transform of a subsequence.\<close>

definition dit_spec :: "nat \<Rightarrow> int \<Rightarrow> (nat \<Rightarrow> int) \<Rightarrow> nat \<Rightarrow> nat \<Rightarrow> int" where
  "dit_spec L w a s p =
     peval (2 ^ s) (\<lambda>t. a (brv (L - s) (p div 2 ^ s) + t * 2 ^ (L - s))) (w ^ (p mod 2 ^ s * 2 ^ (L - s)))"

lemma dit_spec_final: "p < 2 ^ L \<Longrightarrow> dit_spec L w a L p = peval (2 ^ L) a (w ^ p)"
  by (simp add: dit_spec_def)

lemma dit_spec_start: "p < 2 ^ L \<Longrightarrow> dit_spec L w a 0 p = a (brv L p)"
  by (simp add: dit_spec_def peval_def)

text \<open>One stage combines the transforms of the even and of the odd part.\<close>

lemma dit_block:
  assumes s: "s < L" and i: "i < 2 ^ s"
  defines "h \<equiv> 2 ^ (L - Suc s)"
  shows "dit_spec L w a s (b * 2 ^ Suc s + i) =
      peval (2 ^ s) (\<lambda>t. a (brv (L - Suc s) b + (2 * t) * h)) ((w ^ (i * h)) ^ 2)"
    "dit_spec L w a s (b * 2 ^ Suc s + i + 2 ^ s) =
      peval (2 ^ s) (\<lambda>t. a (brv (L - Suc s) b + (2 * t + 1) * h)) ((w ^ (i * h)) ^ 2)"
proof -
  have h: "2 ^ (L - s) = 2 * h" "L - s = Suc (L - Suc s)"
    using s by (simp_all add: h_def Suc_diff_Suc flip: power_Suc)
  have e: "(b * 2 ^ Suc s + i) div 2 ^ s = 2 * b" "(b * 2 ^ Suc s + i) mod 2 ^ s = i"
    "(b * 2 ^ Suc s + i + 2 ^ s) div 2 ^ s = 2 * b + 1" "(b * 2 ^ Suc s + i + 2 ^ s) mod 2 ^ s = i"
  proof -
    have "b * 2 ^ Suc s + i = i + 2 ^ s * (2 * b)" "b * 2 ^ Suc s + i + 2 ^ s = i + 2 ^ s * (2 * b + 1)" by simp_all
    then show "(b * 2 ^ Suc s + i) div 2 ^ s = 2 * b" "(b * 2 ^ Suc s + i) mod 2 ^ s = i"
      "(b * 2 ^ Suc s + i + 2 ^ s) div 2 ^ s = 2 * b + 1" "(b * 2 ^ Suc s + i + 2 ^ s) mod 2 ^ s = i"
      using i by (simp_all only: div_mult_self2 mod_mult_self2 div_less mod_less)
  qed
  have w: "w ^ (i * (2 * h)) = (w ^ (i * h)) ^ 2" by (simp add: power_mult [symmetric] mult_ac)
  show "dit_spec L w a s (b * 2 ^ Suc s + i) =
      peval (2 ^ s) (\<lambda>t. a (brv (L - Suc s) b + (2 * t) * h)) ((w ^ (i * h)) ^ 2)"
    unfolding dit_spec_def e h(1) w unfolding h(2) brv_even_odd by (simp add: mult_ac)
  show "dit_spec L w a s (b * 2 ^ Suc s + i + 2 ^ s) =
      peval (2 ^ s) (\<lambda>t. a (brv (L - Suc s) b + (2 * t + 1) * h)) ((w ^ (i * h)) ^ 2)"
    unfolding dit_spec_def e h(1) w unfolding h(2) brv_even_odd by (simp add: algebra_simps h_def)
qed

lemma dit_spec_step:
  assumes s: "s < L" and i: "i < 2 ^ s" and w: "w ^ 2 ^ (L - 1) mod m = (- 1) mod m"
  defines "h \<equiv> 2 ^ (L - Suc s)"
  shows "dit_spec L w a (Suc s) (b * 2 ^ Suc s + i) =
      dit_spec L w a s (b * 2 ^ Suc s + i) + w ^ (i * h) * dit_spec L w a s (b * 2 ^ Suc s + i + 2 ^ s)"
    "dit_spec L w a (Suc s) (b * 2 ^ Suc s + i + 2 ^ s) mod m =
      (dit_spec L w a s (b * 2 ^ Suc s + i) - w ^ (i * h) * dit_spec L w a s (b * 2 ^ Suc s + i + 2 ^ s)) mod m"
proof -
  define A where "A = (\<lambda>t. a (brv (L - Suc s) b + t * h))"
  define x where "x = w ^ (i * h)"
  have lt: "i < 2 ^ Suc s" "i + 2 ^ s < 2 ^ Suc s" using i by simp_all
  have e: "(b * 2 ^ Suc s + i) div 2 ^ Suc s = b" "(b * 2 ^ Suc s + i) mod 2 ^ Suc s = i"
    "(b * 2 ^ Suc s + i + 2 ^ s) div 2 ^ Suc s = b" "(b * 2 ^ Suc s + i + 2 ^ s) mod 2 ^ Suc s = i + 2 ^ s"
    using lt by (simp_all add: add.assoc del: power_Suc)
  have lo: "dit_spec L w a (Suc s) (b * 2 ^ Suc s + i) = peval (2 * 2 ^ s) A x"
    unfolding dit_spec_def e by (simp add: A_def x_def h_def)
  have hi: "dit_spec L w a (Suc s) (b * 2 ^ Suc s + i + 2 ^ s) = peval (2 * 2 ^ s) A (w ^ ((i + 2 ^ s) * h))"
    unfolding dit_spec_def e by (simp add: A_def h_def)
  note B = dit_block [OF s i, of w a b, folded h_def x_def A_def]
  have B': "dit_spec L w a s (b * 2 ^ Suc s + i) = peval (2 ^ s) (\<lambda>k. A (2 * k)) (x ^ 2)"
    "dit_spec L w a s (b * 2 ^ Suc s + i + 2 ^ s) = peval (2 ^ s) (\<lambda>k. A (2 * k + 1)) (x ^ 2)"
    using dit_block [OF s i, of w a b] by (simp_all add: A_def x_def h_def)
  show "dit_spec L w a (Suc s) (b * 2 ^ Suc s + i) =
      dit_spec L w a s (b * 2 ^ Suc s + i) + w ^ (i * h) * dit_spec L w a s (b * 2 ^ Suc s + i + 2 ^ s)"
    unfolding lo B' peval_parity by (simp add: x_def)
  have "(2::nat) ^ s * h = 2 ^ (L - 1)" using s by (simp add: h_def flip: power_add)
  then have "w ^ ((i + 2 ^ s) * h) = x * w ^ 2 ^ (L - 1)"
    by (simp add: x_def add_mult_distrib power_add)
  then have "w ^ ((i + 2 ^ s) * h) mod m = (- x) mod m"
    using mod_mult_cong [OF refl [of "x mod m"] w] by simp
  then have "peval (2 * 2 ^ s) A (w ^ ((i + 2 ^ s) * h)) mod m = peval (2 * 2 ^ s) A (- x) mod m"
    by (intro peval_mod_cong) auto
  also have "peval (2 * 2 ^ s) A (- x) = dit_spec L w a s (b * 2 ^ Suc s + i) - x * dit_spec L w a s (b * 2 ^ Suc s + i + 2 ^ s)"
    unfolding B' peval_parity by simp
  finally show "dit_spec L w a (Suc s) (b * 2 ^ Suc s + i + 2 ^ s) mod m =
      (dit_spec L w a s (b * 2 ^ Suc s + i) - w ^ (i * h) * dit_spec L w a s (b * 2 ^ Suc s + i + 2 ^ s)) mod m"
    unfolding hi x_def .
qed

subsection \<open>The forward transform\<close>

interpretation barrett_swap: const_mul "\<lambda>m w c. barrett_modulus m \<and> unat w < unat m \<and> c = mu_of m" "\<lambda>x w m c. ModMul_mu w x m c"
proof
  fix m w c x :: u64
  assume ok: "barrett_modulus m \<and> unat w < unat m \<and> c = mu_of m" and x: "unat x < unat m"
  have pos: "0 < unat m" using x by simp
  have "unat v < 2 ^ (2 * bit_len (unat m) + 2)" if "unat v < unat m" for v :: u64
    using that bit_len_upper [of "unat m"] power_increasing [of "bit_len (unat m)" "2 * bit_len (unat m) + 2" "2::nat"]
    by linarith
  then have "ModMul_mu w x m c = ModMul w x m"
    using ok x by (intro ModMul_mu_eq) (auto simp: unat_mu_of)
  then show "unat (ModMul_mu w x m c) = unat x * unat w mod unat m"
    using ModMul_correct [OF pos] by (simp add: mult.commute)
qed (auto simp: barrett_head_room)

text \<open>\<open>power_table m n w tab\<close>: the first \<open>n\<close> powers of \<open>w\<close>, reduced.\<close>

definition power_table :: "u64 \<Rightarrow> nat \<Rightarrow> int \<Rightarrow> nvec \<Rightarrow> bool" where
  "power_table m n w tab \<longleftrightarrow> (\<forall>i < n. unat (m_data tab ! i) < unat m \<and> coeffs tab i mod iu m = w ^ i mod iu m)"

definition dft_values :: "u64 \<Rightarrow> nat \<Rightarrow> int \<Rightarrow> (nat \<Rightarrow> int) \<Rightarrow> u64 list \<Rightarrow> bool" where
  "dft_values m L w a e \<longleftrightarrow> stage_rel m (2 ^ L) 1 (\<lambda>k. peval (2 ^ L) a (w ^ k)) e"

lemma dit_stage:
  assumes e: "stage_rel m (2 ^ L) 1 (dit_spec L w a s) e" and s: "s < L"
    and w: "w ^ 2 ^ (L - 1) mod iu m = (- 1) mod iu m"
    and F: "\<And>b i. i < 2 ^ s \<Longrightarrow> \<exists>c. ct_bf m c (F b i) \<and> c mod iu m = w ^ (i * 2 ^ (L - Suc s)) mod iu m"
  shows "stage_rel m (2 ^ L) 1 (dit_spec L w a (Suc s)) (bf_stage_at F (2 ^ (L - Suc s)) (2 ^ s) e)"
  unfolding stage_rel_def
proof (intro conjI allI impI)
  define t :: nat where "t = 2 ^ s"
  have N: "2 ^ (L - Suc s) * (2 * t) = (2::nat) ^ L" using s unfolding t_def by (simp flip: power_add power_Suc)
  have len: "2 ^ (L - Suc s) * (2 * t) \<le> length e" using stage_relD(1) [OF e] N by simp
  note r = bf_stage_at_nth [OF len, where F = F]
  show "length (bf_stage_at F (2 ^ (L - Suc s)) (2 ^ s) e) = 2 ^ L"
    using r(1) stage_relD(1) [OF e] by (simp add: t_def)
  fix p :: nat assume "p < 2 ^ L"
  then have "p < 2 ^ (L - Suc s) * (2 * t)" by (simp add: N)
  then obtain b i where bi: "b < 2 ^ (L - Suc s)" "i < t" "p = b * (2 * t) + i \<or> p = b * (2 * t) + i + t"
    by (rule block_position)
  define lo hi where "lo = b * (2 * t) + i" and "hi = b * (2 * t) + i + t"
  have "b * (2 * t) + (2 * t) \<le> 2 ^ (L - Suc s) * (2 * t)" using bi(1) by (metis Suc_leI add.commute mult_Suc mult_le_mono1)
  then have q: "lo < 2 ^ L" "hi < 2 ^ L" using bi(2) N unfolding lo_def hi_def by linarith+
  obtain c where c: "ct_bf m c (F b i)" "c mod iu m = w ^ (i * 2 ^ (L - Suc s)) mod iu m"
    using F [of i b] bi(2) by (auto simp: t_def)
  note x = stage_relD(2,3) [OF e q(1)] stage_relD(2,3) [OF e q(2)]
  note f = c(1) [unfolded ct_bf_def, rule_format, OF x(1,3)]
  have ix: "b * 2 ^ Suc s + i = lo" "lo + 2 ^ s = hi" by (simp_all add: lo_def hi_def t_def)
  note sp = dit_spec_step [OF s bi(2) [unfolded t_def] w, of a b, unfolded ix]
  have ch: "(c * iu (e ! hi)) mod iu m = (w ^ (i * 2 ^ (L - Suc s)) * dit_spec L w a s hi) mod iu m"
    using x(4) by (intro mod_mult_cong c(2)) simp
  have "(iu (e ! lo) + c * iu (e ! hi)) mod iu m = dit_spec L w a (Suc s) lo mod iu m"
    unfolding sp(1) using x(2) by (intro mod_add_cong ch) simp
  moreover have "(iu (e ! lo) - c * iu (e ! hi)) mod iu m = dit_spec L w a (Suc s) hi mod iu m"
    unfolding sp(2) using x(2) by (intro mod_diff_cong ch) simp
  moreover have rl: "bf_stage_at F (2 ^ (L - Suc s)) t e ! lo = fst (F b i (e ! lo) (e ! hi))"
    "bf_stage_at F (2 ^ (L - Suc s)) t e ! hi = snd (F b i (e ! lo) (e ! hi))"
    using r(2,3) [OF bi(1,2)] by (simp_all add: lo_def hi_def)
  moreover have "p = lo \<or> p = hi" using bi(3) by (simp add: lo_def hi_def)
  ultimately show "unat (bf_stage_at F (2 ^ (L - Suc s)) (2 ^ s) e ! p) < unat m"
    "iu (bf_stage_at F (2 ^ (L - Suc s)) (2 ^ s) e ! p) mod iu m = (1 * dit_spec L w a (Suc s) p) mod iu m"
    unfolding t_def [symmetric] using f by auto
qed

text \<open>The loop over the stages, with the blocks visited by a stepping loop.\<close>

lemma dit_loop:
  assumes step: "\<And>s d. s < L \<Longrightarrow> P s d \<Longrightarrow> P (Suc s) (bf_stage_at (\<lambda>b i. G (Suc s) i) (2 ^ (L - Suc s)) (2 ^ s) d)"
    and "P 0 d"
  shows "P L (for_range 1 (L + 1) (\<lambda>logm d. for_step 0 (2 ^ L) (2 ^ logm) (\<lambda>j d.
      for_range 0 (2 ^ (logm - 1)) (\<lambda>i d. bf_at (G logm i) (j + i) (j + i + 2 ^ (logm - 1)) d) d) d) d)"
proof -
  define body where "body = (\<lambda>logm d. for_step 0 (2 ^ L) (2 ^ logm) (\<lambda>j d.
      for_range 0 (2 ^ (logm - 1)) (\<lambda>i d. bf_at (G logm i) (j + i) (j + i + 2 ^ (logm - 1)) d) d) d)"
  have stage: "body (Suc s) d = bf_stage_at (\<lambda>b i. G (Suc s) i) (2 ^ (L - Suc s)) (2 ^ s) d" if "s < L" for s d
  proof -
    have "(2::nat) ^ L = 0 + 2 ^ (L - Suc s) * 2 ^ Suc s" using that by (simp flip: power_add power_Suc)
    then have "body (Suc s) d = for_range 0 (2 ^ (L - Suc s)) (\<lambda>b d. for_range 0 (2 ^ s)
        (\<lambda>i d. bf_at (G (Suc s) i) (0 + b * 2 ^ Suc s + i) (0 + b * 2 ^ Suc s + i + 2 ^ s) d) d) d"
      unfolding body_def by (simp only: for_step_range zero_less_power zero_less_numeral diff_Suc_1)
    then show ?thesis by (simp add: bf_stage_at_def mult_ac)
  qed
  have "P (L + 1 - 1) (for_range 1 (L + 1) body d)"
  proof (rule for_range_invariant [where P = "\<lambda>i. P (i - 1)"])
    fix i d assume i: "1 \<le> i" "i < L + 1" and p: "P (i - 1) d"
    then show "P (Suc i - 1) (body i d)" using step [of "i - 1" d] stage [of "i - 1" d] by simp
  qed (use assms(2) in auto)
  then show ?thesis by (simp add: body_def)
qed

lemma bit_reverse_loop:
  assumes L: "0 < L" "L \<le> 24 \<or> L = 32" and msb: "unat msb = L" and len: "length xs = 2 ^ L" "length d = 2 ^ L"
  shows "efor 0 (2 ^ L) (\<lambda>i d. ebind (ReverseBits (of_nat i) msb) (\<lambda>r.
      if unat r < 2 ^ L then set_at d i (xs ! unat r) else Inl OutOfRange)) d = Inr (map (\<lambda>i. xs ! brv L i) [0..<2 ^ L])"
proof -
  let ?body = "\<lambda>i d. ebind (ReverseBits (of_nat i) msb) (\<lambda>r.
      if unat r < 2 ^ L then set_at d i (xs ! unat r) else Inl OutOfRange)"
  have "\<exists>d'. efor 0 (2 ^ L) ?body d = Inr d' \<and> (length d' = 2 ^ L \<and> (\<forall>k<2 ^ L. k < 2 ^ L \<longrightarrow> d' ! k = xs ! brv L k))"
  proof (rule efor_Inr [where P = "\<lambda>i d. length d = 2 ^ L \<and> (\<forall>k<i. k < 2 ^ L \<longrightarrow> d ! k = xs ! brv L k)"])
    fix i d assume i: "i < 2 ^ L" and d: "length d = 2 ^ L \<and> (\<forall>k<i. k < 2 ^ L \<longrightarrow> d ! k = xs ! brv L k)"
    have i32: "unat (of_nat i :: u32) = i"
    proof -
      have "(2::nat) ^ L \<le> 2 ^ 32" using L by (intro power_increasing) auto
      with i show ?thesis by (simp add: unsigned_of_nat take_bit_nat_eq_self)
    qed
    obtain r where r: "ReverseBits (of_nat i) msb = Inr r" "unat r = brv L i"
      using ReverseBits_correct [of msb "of_nat i"] L msb i32 by auto
    then show "\<exists>d'. ?body i d = Inr d' \<and> (length d' = 2 ^ L \<and> (\<forall>k<Suc i. k < 2 ^ L \<longrightarrow> d' ! k = xs ! brv L k))"
      using d i brv_less [of L i] by (auto simp: set_at_def nth_list_update less_Suc_eq)
  qed (use len in auto)
  then show ?thesis by (auto intro!: nth_equalityI)
qed

lemma ForwardTransformIterative_dft:
  assumes L: "0 < L" "L \<le> 24 \<or> L = 32" and m: "barrett_modulus (m_modulus v)"
    and v: "reduced (m_modulus v) (m_data v)" "length (m_data v) = 2 ^ L" and r: "length (m_data r) = 2 ^ L"
    and tab: "power_table (m_modulus v) (2 ^ (L - 1)) w tab"
    and w: "w ^ 2 ^ (L - 1) mod iu (m_modulus v) = (- 1) mod iu (m_modulus v)"
  shows "\<exists>d. ForwardTransformIterative v tab r = Inr (r\<lparr>m_modulus := m_modulus v, m_data := d\<rparr>) \<and>
    dft_values (m_modulus v) L w (coeffs v) d"
proof -
  let ?m = "m_modulus v"
  have L32: "L \<le> 32" using L by auto
  define msb where "msb = GetMSB (ucast (of_nat (2 ^ L) - 1 :: u32))"
  have msb: "unat msb = L"
  proof -
    have "unat (of_nat (2 ^ L) - 1 :: u32) = 2 ^ L - 1"
    proof (cases "L = 32")
      case False
      then have "(2::nat) ^ L < 2 ^ 32" using L32 by (intro power_strict_increasing) auto
      then show ?thesis using unat_diff_u32 [of 1 "2 ^ L"] by simp
    qed simp
    moreover have "unat (ucast x :: u64) = unat x" for x :: u32
      by (simp add: unsigned_ucast_eq take_bit_nat_eq_self_iff order.strict_trans2 [OF unsigned_less])
    ultimately show ?thesis unfolding msb_def unat_GetMSB by (simp only: bit_len_power2_minus_1)
  qed
  have msb': "GetMSB (ucast (2 ^ L - 1 :: u32)) = msb" by (simp add: msb_def)
  define G where "G = (\<lambda>logm i evenVal oddVal. let omega = m_data tab ! (i * 2 ^ (L - logm));
                      omegaFactor = ModMul_mu omega oddVal ?m (mu_of ?m)
                  in ct_butterfly ?m evenVal omegaFactor)"
  define d0 where "d0 = map (\<lambda>i. m_data v ! brv L i) [0..<2 ^ L]"
  define d where "d = for_range 1 (L + 1) (\<lambda>logm d. for_step 0 (2 ^ L) (2 ^ logm) (\<lambda>j d.
      for_range 0 (2 ^ (logm - 1)) (\<lambda>i d. bf_at (G logm i) (j + i) (j + i + 2 ^ (logm - 1)) d) d) d) d0"
  have "stage_rel ?m (2 ^ L) 1 (dit_spec L w (coeffs v) L) d"
    unfolding d_def
  proof (rule dit_loop [where P = "\<lambda>s. stage_rel ?m (2 ^ L) 1 (dit_spec L w (coeffs v) s)"])
    show "stage_rel ?m (2 ^ L) 1 (dit_spec L w (coeffs v) 0) d0"
      using reduced_nth [OF v(1)] v(2) brv_less [of L]
      by (auto simp: stage_rel_def d0_def dit_spec_start)
  next
    fix s d assume s: "s < L" and d: "stage_rel ?m (2 ^ L) 1 (dit_spec L w (coeffs v) s) d"
    show "stage_rel ?m (2 ^ L) 1 (dit_spec L w (coeffs v) (Suc s)) (bf_stage_at (\<lambda>b i. G (Suc s) i) (2 ^ (L - Suc s)) (2 ^ s) d)"
    proof (rule dit_stage [OF d s w])
      fix i :: nat assume i: "i < 2 ^ s"
      have "i * 2 ^ (L - Suc s) < 2 ^ s * 2 ^ (L - Suc s)" using i by simp
      also have "\<dots> = (2::nat) ^ (L - 1)" using s by (simp flip: power_add)
      finally have t: "unat (m_data tab ! (i * 2 ^ (L - Suc s))) < unat ?m"
        "coeffs tab (i * 2 ^ (L - Suc s)) mod iu ?m = w ^ (i * 2 ^ (L - Suc s)) mod iu ?m"
        using tab unfolding power_table_def by blast+
      have "ct_bf ?m (coeffs tab (i * 2 ^ (L - Suc s))) (G (Suc s) i)"
        unfolding G_def Let_def by (rule barrett_swap.ct) (use m t in simp)
      with t(2) show "\<exists>c. ct_bf ?m c (G (Suc s) i) \<and> c mod iu ?m = w ^ (i * 2 ^ (L - Suc s)) mod iu ?m" by blast
    qed
  qed
  then have "dft_values ?m L w (coeffs v) d"
    unfolding dft_values_def stage_rel_def by (simp add: dit_spec_final)
  moreover have "ForwardTransformIterative v tab r = Inr (r\<lparr>m_modulus := ?m, m_data := d\<rparr>)"
    using bit_reverse_loop [OF L msb v(2) r]
    unfolding ForwardTransformIterative_def d_def d0_def G_def
    by (simp add: GetLength_def v(2) r ComputeMu_eq m SetModulus_ok msb' msb Let_def)
  ultimately show ?thesis by blast
qed

subsection \<open>The inverse transform\<close>

lemma peval_one_vanishes:
  assumes "j < L" "z ^ 2 ^ j mod q = (- 1) mod q"
  shows "peval (2 ^ L) (\<lambda>_. 1) z mod q = 0"
  using assms(1)
proof (induction L)
  case (Suc L)
  have e: "peval (2 ^ Suc L) (\<lambda>_. 1) z = (1 + z ^ 2 ^ L) * peval (2 ^ L) (\<lambda>_. 1) z"
    using peval_double [of "2 ^ L" "\<lambda>_. 1" z] by (simp add: peval_def sum_distrib_left)
  show ?case
  proof (cases "j = L")
    case True
    have "(1 + z ^ 2 ^ L) mod q = (1 + (- 1)) mod q"
      using assms(2) True by (intro mod_add_cong) auto
    then have "((1 + z ^ 2 ^ L) * peval (2 ^ L) (\<lambda>_. 1) z) mod q = (0 * peval (2 ^ L) (\<lambda>_. 1) z) mod q"
      by (intro mod_mult_cong) auto
    then show ?thesis unfolding e by simp
  next
    case False
    with Suc have "peval (2 ^ L) (\<lambda>_. 1) z mod q = 0 mod q" by simp
    then have "((1 + z ^ 2 ^ L) * peval (2 ^ L) (\<lambda>_. 1) z) mod q = ((1 + z ^ 2 ^ L) * 0) mod q"
      by (intro mod_mult_cong) auto
    then show ?thesis unfolding e by simp
  qed
qed simp

lemma odd_part: "0 < d \<Longrightarrow> \<exists>e c. d = 2 ^ e * (2 * c + 1)" for d :: nat
proof (induction d rule: less_induct)
  case (less d)
  show ?case
  proof (cases "even d")
    case True
    then obtain d' where d': "d = 2 * d'" by blast
    with less.prems less.IH [of d'] obtain e c where "d' = 2 ^ e * (2 * c + 1)" by auto
    then have "d = 2 ^ Suc e * (2 * c + 1)" using d' by simp
    then show ?thesis by blast
  next
    case False
    then obtain c where "d = 2 * c + 1" by (rule oddE)
    then have "d = 2 ^ 0 * (2 * c + 1)" by simp
    then show ?thesis by blast
  qed
qed

text \<open>The sum of the powers of \<open>w ^ d\<close> is zero unless \<open>n\<close> divides \<open>d\<close>.\<close>

lemma root_sum_zero:
  assumes w: "w ^ 2 ^ (L - 1) mod q = (- 1) mod q" and d: "0 < d" "d < 2 ^ L" and z: "z mod q = w ^ d mod q"
  shows "peval (2 ^ L) (\<lambda>_. 1) z mod q = 0"
proof -
  obtain e c where ec: "d = 2 ^ e * (2 * c + 1)" using odd_part [OF d(1)] by blast
  then have "(2::nat) ^ e \<le> d" by simp
  then have "(2::nat) ^ e < 2 ^ L" using d(2) by linarith
  then have e: "e < L" by simp
  have "d * 2 ^ (L - 1 - e) = 2 ^ (L - 1) * (2 * c + 1)"
  proof -
    have "(2::nat) ^ e * 2 ^ (L - 1 - e) = 2 ^ (L - 1)" using e by (simp flip: power_add)
    then show ?thesis unfolding ec by (metis mult.assoc mult.commute)
  qed
  then have "(w ^ d) ^ 2 ^ (L - 1 - e) = (w ^ 2 ^ (L - 1)) ^ (2 * c + 1)" by (simp only: power_mult [symmetric])
  moreover have "(w ^ 2 ^ (L - 1)) ^ (2 * c + 1) mod q = (- 1) ^ (2 * c + 1) mod q" by (rule power_mod_cong [OF w])
  ultimately have "z ^ 2 ^ (L - 1 - e) mod q = (- 1) mod q"
    using power_mod_cong [OF z, of "2 ^ (L - 1 - e)"] by simp
  then show ?thesis using e by (intro peval_one_vanishes [where j = "L - 1 - e"]) auto
qed

text \<open>Transforming the values with the inverse root gives \<open>n\<close> times the coefficients.\<close>

lemma dft_inversion:
  assumes L: "0 < L" and w: "w ^ 2 ^ (L - 1) mod q = (- 1) mod q" and wi: "(w * wi) mod q = 1 mod q"
    and X: "\<And>k. k < 2 ^ L \<Longrightarrow> X k mod q = peval (2 ^ L) a (w ^ k) mod q" and i: "i < 2 ^ L"
  shows "peval (2 ^ L) X (wi ^ i) mod q = (2 ^ L * a i) mod q"
proof -
  let ?N = "2 ^ L :: nat"
  have one: "((w * wi) ^ n) mod q = 1 mod q" for n using power_mod_cong [OF wi, of n] by simp
  have "(w ^ 2 ^ (L - 1) * wi ^ 2 ^ (L - 1)) mod q = 1 mod q" using one [of "2 ^ (L - 1)"] by (simp add: power_mult_distrib)
  moreover have "(w ^ 2 ^ (L - 1) * wi ^ 2 ^ (L - 1)) mod q = (- 1 * wi ^ 2 ^ (L - 1)) mod q"
    by (intro mod_mult_cong w refl)
  ultimately have "(- 1 * wi ^ 2 ^ (L - 1)) mod q = 1 mod q" by simp
  then have "(- 1 * (- 1 * wi ^ 2 ^ (L - 1))) mod q = (- 1 * 1) mod q" by (intro mod_mult_cong refl)
  then have wiN: "wi ^ 2 ^ (L - 1) mod q = (- 1) mod q" by simp
  have z: "peval ?N (\<lambda>_. 1) (w ^ j * wi ^ i) mod q = (if j = i then 2 ^ L else 0) mod q" if j: "j < ?N" for j
  proof -
    consider "j = i" | "i < j" | "j < i" by linarith
    then show ?thesis
    proof cases
      case 1
      have "peval ?N (\<lambda>_. 1) (w ^ j * wi ^ i) mod q = peval ?N (\<lambda>_. 1) 1 mod q"
        using one [of i] 1 by (intro peval_mod_cong) (simp_all add: power_mult_distrib)
      with 1 show ?thesis by (simp add: peval_def)
    next
      case 2
      then have "w ^ j * wi ^ i = w ^ (j - i) * (w * wi) ^ i" by (simp add: power_mult_distrib flip: power_add)
      then have "(w ^ j * wi ^ i) mod q = w ^ (j - i) mod q"
        using mod_mult_cong [OF refl one, of "w ^ (j - i)" i] by simp
      with 2 j show ?thesis using root_sum_zero [OF w, of "j - i"] by simp
    next
      case 3
      then have "w ^ j * wi ^ i = wi ^ (i - j) * (w * wi) ^ j" by (simp add: power_mult_distrib mult_ac flip: power_add)
      then have "(w ^ j * wi ^ i) mod q = wi ^ (i - j) mod q"
        using mod_mult_cong [OF refl one, of "wi ^ (i - j)" j] by simp
      with 3 i show ?thesis using root_sum_zero [OF wiN, of "i - j"] by simp
    qed
  qed
  have "peval ?N X (wi ^ i) mod q = (\<Sum>k<?N. peval ?N a (w ^ k) * (wi ^ i) ^ k) mod q"
    unfolding peval_def [of ?N X] by (intro sum_mod_cong mod_mult_cong refl X) simp
  also have "(\<Sum>k<?N. peval ?N a (w ^ k) * (wi ^ i) ^ k) = (\<Sum>j<?N. a j * peval ?N (\<lambda>_. 1) (w ^ j * wi ^ i))"
    unfolding peval_def sum_distrib_left sum_distrib_right
    by (subst sum.swap) (simp add: power_mult_distrib mult_ac power_mult [symmetric])
  also have "\<dots> mod q = (\<Sum>j<?N. a j * (if j = i then 2 ^ L else 0)) mod q"
    by (intro sum_mod_cong mod_mult_cong refl z) simp
  also have "(\<Sum>j<?N. a j * (if j = i then 2 ^ L else 0)) = 2 ^ L * a i"
    using i by (simp add: if_distrib [of "(*) _"] cong: if_cong)
  finally show ?thesis .
qed

lemma InverseTransformIterative_restores:
  assumes L: "0 < L" "L \<le> 24 \<or> L = 32" and m: "barrett_modulus (m_modulus v)" "odd (unat (m_modulus v))"
    and v: "dft_values (m_modulus v) L w a (m_data v)" and r: "length (m_data r) = 2 ^ L"
    and tab: "power_table (m_modulus v) (2 ^ (L - 1)) wi tab"
    and w: "w ^ 2 ^ (L - 1) mod iu (m_modulus v) = (- 1) mod iu (m_modulus v)" and wi: "(w * wi) mod iu (m_modulus v) = 1 mod iu (m_modulus v)"
  shows "\<exists>d. InverseTransformIterative v tab r = Inr (r\<lparr>m_modulus := m_modulus v, m_data := d\<rparr>) \<and>
    restores (m_modulus v) (2 ^ L) a d"
proof -
  let ?m = "m_modulus v"
  have vs: "length (m_data v) = 2 ^ L" "\<And>k. k < 2 ^ L \<Longrightarrow> unat (m_data v ! k) < unat ?m"
    "\<And>k. k < 2 ^ L \<Longrightarrow> coeffs v k mod iu ?m = peval (2 ^ L) a (w ^ k) mod iu ?m"
    using v stage_relD unfolding dft_values_def by fastforce+
  have one: "(w ^ 2 ^ (L - 1) * wi ^ 2 ^ (L - 1)) mod iu ?m = 1 mod iu ?m"
    using power_mod_cong [OF wi, of "2 ^ (L - 1)"] by (simp add: power_mult_distrib)
  have "(w ^ 2 ^ (L - 1) * wi ^ 2 ^ (L - 1)) mod iu ?m = (- 1 * wi ^ 2 ^ (L - 1)) mod iu ?m"
    by (intro mod_mult_cong w refl)
  with one have "(- 1 * (- 1 * wi ^ 2 ^ (L - 1))) mod iu ?m = (- 1 * 1) mod iu ?m" by (intro mod_mult_cong refl) simp
  then have wiN: "wi ^ 2 ^ (L - 1) mod iu ?m = (- 1) mod iu ?m" by simp
  obtain y where y: "ForwardTransformIterative v tab r = Inr (r\<lparr>m_modulus := ?m, m_data := y\<rparr>)"
    "dft_values ?m L wi (coeffs v) y"
  proof -
    have "reduced ?m (m_data v)" using vs(1,2) by (auto intro: reducedI)
    then show ?thesis using ForwardTransformIterative_dft [OF L m(1) _ vs(1) r tab wiN] that by blast
  qed
  have ys: "length y = 2 ^ L" "\<And>k. k < 2 ^ L \<Longrightarrow> unat (y ! k) < unat ?m"
    "\<And>k. k < 2 ^ L \<Longrightarrow> iu (y ! k) mod iu ?m = (2 ^ L * a k) mod iu ?m"
  proof -
    show "length y = 2 ^ L" "\<And>k. k < 2 ^ L \<Longrightarrow> unat (y ! k) < unat ?m"
      using y(2) stage_relD unfolding dft_values_def by blast+
    fix k :: nat assume k: "k < 2 ^ L"
    have "iu (y ! k) mod iu ?m = peval (2 ^ L) (coeffs v) (wi ^ k) mod iu ?m"
      using y(2) stage_relD(3) [OF _ k] unfolding dft_values_def by fastforce
    also have "\<dots> = (2 ^ L * a k) mod iu ?m" by (rule dft_inversion [OF L(1) w wi vs(3) k])
    finally show "iu (y ! k) mod iu ?m = (2 ^ L * a k) mod iu ?m" .
  qed
  have m1: "1 < unat ?m" "unat ?m < 2 ^ 63" using m(1) by (auto simp: barrett_modulus_def)
  have uL: "unat (of_nat (2 ^ L) :: u64) = 2 ^ L"
  proof -
    have "(2::nat) ^ L \<le> 2 ^ 32" using L by (intro power_increasing) auto
    also have "(2::nat) ^ 32 < 2 ^ 64" by simp
    finally have "(2::nat) ^ L < 2 ^ 64" .
    then have "take_bit 64 ((2::nat) ^ L) = 2 ^ L" by (rule take_bit_nat_eq_self)
    then show ?thesis unfolding unsigned_of_nat by simp
  qed
  have "coprime (unat (of_nat (2 ^ L) :: u64)) (unat ?m)" unfolding uL using m(2) by simp
  then obtain k where k: "ModInverse (of_nat (2 ^ L)) ?m = Inr k" "unat k < unat ?m" "unat k * 2 ^ L mod unat ?m = 1"
    using ModInverse_correct [OF m1] uL by metis
  have k1: "(iu k * 2 ^ L) mod iu ?m = 1 mod iu ?m"
  proof -
    have "int (unat k * 2 ^ L mod unat ?m) = 1" using k(3) by simp
    moreover have "1 mod iu ?m = 1" using m1 by (intro mod_pos_pos_trivial) linarith+
    ultimately show ?thesis by (simp only: of_nat_mod of_nat_mult of_nat_power of_nat_numeral)
  qed
  define d where "d = map (\<lambda>x. ModMulEq_mu x k ?m (mu_of ?m)) y"
  have mul: "unat (ModMulEq_mu x k ?m (mu_of ?m)) = unat k * unat x mod unat ?m" if "unat x < unat ?m" for x
  proof -
    have "unat u < 2 ^ (2 * bit_len (unat ?m) + 2)" if "unat u < unat ?m" for u :: u64
      using that bit_len_upper [of "unat ?m"] power_increasing [of "bit_len (unat ?m)" "2 * bit_len (unat ?m) + 2" "2::nat"]
      by linarith
    then have "ModMulEq_mu x k ?m (mu_of ?m) = ModMul x k ?m"
      using that k(2) m(1) by (intro ModMul_mu_eq) (auto simp: unat_mu_of)
    then show ?thesis using m1 by (simp add: ModMul_correct mult.commute)
  qed
  have "restores ?m (2 ^ L) a d"
    unfolding restores_def
  proof (intro conjI allI impI)
    show "length d = 2 ^ L" using ys(1) by (simp add: d_def)
    fix p :: nat assume p: "p < 2 ^ L"
    have dp: "d ! p = ModMulEq_mu (y ! p) k ?m (mu_of ?m)" using p ys(1) by (simp add: d_def)
    show "unat (d ! p) < unat ?m" unfolding dp mul [OF ys(2) [OF p]] using m1 by simp
    have "iu (d ! p) mod iu ?m = (iu k * iu (y ! p)) mod iu ?m"
      unfolding dp mul [OF ys(2) [OF p]] by (simp only: of_nat_mod of_nat_mult mod_mod_trivial)
    also have "\<dots> = a p mod iu ?m" by (rule scale_cong [OF ys(3) [OF p] k1])
    finally show "iu (d ! p) mod iu ?m = a p mod iu ?m" .
  qed
  moreover have "InverseTransformIterative v tab r = Inr (r\<lparr>m_modulus := ?m, m_data := d\<rparr>)"
    using update_loop [of "2 ^ L" y "\<lambda>x. ModMulEq_mu x k ?m (mu_of ?m)"] ys(1) vs(1) k(1)
    unfolding d_def InverseTransformIterative_def
    by (simp add: GetLength_def ComputeMu_eq m(1) y(1) Let_def)
  ultimately show ?thesis by blast
qed

end
