(* ===== verification/Chirp.thy ===== *)
theory Chirp
  imports Dft
begin

text \<open>
  What \<open>BluesteinFFTNat\<close> (theory \<open>Bluestein\<close>) computes: the cyclic convolution through the iterative
  transforms, the tables of the roots and of the chirp, and the transform of any length.
\<close>

section \<open>Facts\<close>

subsection \<open>Entrywise products and cyclic convolution\<close>

lemma vModMul_entries:
  assumes m: "barrett_modulus m" and x: "reduced m xs" "reduced m ys" "length xs = length ys"
  obtains d where "vModMul \<lparr>m_modulus = m, m_data = xs\<rparr> \<lparr>m_modulus = m, m_data = ys\<rparr> = Inr \<lparr>m_modulus = m, m_data = d\<rparr>"
    "reduced m d" "length d = length xs" "\<And>i. i < length xs \<Longrightarrow> unat (d ! i) = unat (xs ! i) * unat (ys ! i) mod unat m"
proof -
  let ?x = "\<lparr>m_modulus = m, m_data = xs\<rparr>" and ?y = "\<lparr>m_modulus = m, m_data = ys\<rparr>"
  have ok: "nv_ok ?x" "nv_ok ?y" "same_params ?x ?y"
    using x barrett_head_room [OF m] by (auto simp: nv_ok_def same_params_def)
  define z where "z = vec_map2 (\<lambda>m x y. ModMulFast_mu x y m (mu_of m)) ?x ?y"
  have z: "vModMul ?x ?y = Inr z" using vec_binop_eqs(3) [OF ok(3)] m by (simp add: z_def)
  have zm: "z = \<lparr>m_modulus = m, m_data = m_data z\<rparr>" by (simp add: z_def vec_map2_def)
  note mz = mul.vec_map2 [OF _ ok, simplified, OF m, folded z_def]
  show ?thesis
    by (rule that [of "m_data z"]) (use z zm mz in \<open>auto simp: same_params_def nv_ok_def z_def vec_map2_def\<close>)
qed

lemma dft_values_mult:
  assumes m: "barrett_modulus m" and w: "w ^ 2 ^ L mod iu m = 1 mod iu m"
    and a: "dft_values m L w a xs" and b: "dft_values m L w b ys"
  obtains d where "vModMul \<lparr>m_modulus = m, m_data = xs\<rparr> \<lparr>m_modulus = m, m_data = ys\<rparr> = Inr \<lparr>m_modulus = m, m_data = d\<rparr>"
    "dft_values m L w (wrap_conv 1 (2 ^ L) a b) d"
proof -
  note ab = a [unfolded dft_values_def stage_rel_def] b [unfolded dft_values_def stage_rel_def]
  have red: "reduced m xs" "reduced m ys" "length xs = length ys" using ab by (auto intro!: reducedI)
  obtain d where d: "vModMul \<lparr>m_modulus = m, m_data = xs\<rparr> \<lparr>m_modulus = m, m_data = ys\<rparr> = Inr \<lparr>m_modulus = m, m_data = d\<rparr>"
    "reduced m d" "length d = length xs" "\<And>i. i < length xs \<Longrightarrow> unat (d ! i) = unat (xs ! i) * unat (ys ! i) mod unat m"
    by (rule vModMul_entries [OF m red]) blast
  have "dft_values m L w (wrap_conv 1 (2 ^ L) a b) d"
    unfolding dft_values_def stage_rel_def
  proof (intro conjI allI impI)
    show "length d = 2 ^ L" using d(3) ab by simp
    fix k :: nat assume k: "k < 2 ^ L"
    then show "unat (d ! k) < unat m" using d(3) ab reduced_nth [OF d(2)] by simp
    have "(w ^ k) ^ 2 ^ L mod iu m = 1 mod iu m"
      using power_mod_cong [OF w, of k] by (simp add: mult.commute flip: power_mult)
    note ev = wrap_conv_eval [OF this, of a b]
    have "iu (d ! k) mod iu m = (iu (xs ! k) * iu (ys ! k)) mod iu m"
      using d(4) [of k] ab k by (simp only: of_nat_mod of_nat_mult mod_mod_trivial)
    also have "\<dots> = (peval (2 ^ L) a (w ^ k) * peval (2 ^ L) b (w ^ k)) mod iu m"
      using ab k by (intro mod_mult_cong) auto
    finally show "iu (d ! k) mod iu m = (1 * peval (2 ^ L) (wrap_conv 1 (2 ^ L) a b) (w ^ k)) mod iu m"
      using ev by simp
  qed
  with d(1) show ?thesis by (rule that)
qed

text \<open>
  Two vectors transformed, multiplied entrywise and transformed back with the table of the inverse
  root are the cyclic convolution.
\<close>

lemma cyclic_convolution:
  assumes L: "0 < L" "L \<le> 24 \<or> L = 32" and m: "barrett_modulus m" "odd (unat m)"
    and xs: "reduced m xs" "length xs = 2 ^ L" and ys: "reduced m ys" "length ys = 2 ^ L"
    and tab: "power_table m (2 ^ (L - 1)) w tab" "power_table m (2 ^ (L - 1)) wi tab'"
    and w: "w ^ 2 ^ (L - 1) mod iu m = (- 1) mod iu m" "(w * wi) mod iu m = 1 mod iu m"
  obtains A B C d where
    "ForwardTransformIterative \<lparr>m_modulus = m, m_data = xs\<rparr> tab (nvec_zero (2 ^ L) 0) = Inr A"
    "ForwardTransformIterative \<lparr>m_modulus = m, m_data = ys\<rparr> tab (nvec_zero (2 ^ L) 0) = Inr B"
    "vModMul A B = Inr C"
    "InverseTransformIterative C tab' (nvec_zero (2 ^ L) 0) = Inr \<lparr>m_modulus = m, m_data = d\<rparr>"
    "restores m (2 ^ L) (wrap_conv 1 (2 ^ L) (\<lambda>i. iu (xs ! i)) (\<lambda>i. iu (ys ! i))) d"
proof -
  let ?r = "nvec_zero (2 ^ L) 0" and ?x = "\<lparr>m_modulus = m, m_data = xs\<rparr>" and ?y = "\<lparr>m_modulus = m, m_data = ys\<rparr>"
  have r: "length (m_data ?r) = 2 ^ L" by (simp add: nvec_zero_def)
  obtain A where A: "ForwardTransformIterative ?x tab ?r = Inr \<lparr>m_modulus = m, m_data = A\<rparr>" "dft_values m L w (coeffs ?x) A"
    using ForwardTransformIterative_dft [OF L, where v = ?x and r = ?r and tab = tab and w = w] m xs tab w r by (auto simp: nvec_zero_def)
  obtain B where B: "ForwardTransformIterative ?y tab ?r = Inr \<lparr>m_modulus = m, m_data = B\<rparr>" "dft_values m L w (coeffs ?y) B"
    using ForwardTransformIterative_dft [OF L, where v = ?y and r = ?r and tab = tab and w = w] m ys tab w r by (auto simp: nvec_zero_def)
  have "w ^ 2 ^ L = (w ^ 2 ^ (L - 1)) ^ 2" using L(1) by (cases L) (simp_all add: mult.commute flip: power_mult)
  then have one: "w ^ 2 ^ L mod iu m = 1 mod iu m" using power_mod_cong [OF w(1), of 2] by simp
  obtain C where C: "vModMul \<lparr>m_modulus = m, m_data = A\<rparr> \<lparr>m_modulus = m, m_data = B\<rparr> = Inr \<lparr>m_modulus = m, m_data = C\<rparr>"
    "dft_values m L w (wrap_conv 1 (2 ^ L) (coeffs ?x) (coeffs ?y)) C"
    by (rule dft_values_mult [OF m(1) one A(2) B(2)])
  obtain d where d: "InverseTransformIterative \<lparr>m_modulus = m, m_data = C\<rparr> tab' ?r = Inr \<lparr>m_modulus = m, m_data = d\<rparr>"
    "restores m (2 ^ L) (wrap_conv 1 (2 ^ L) (coeffs ?x) (coeffs ?y)) d"
    using InverseTransformIterative_restores [OF L, where v = "\<lparr>m_modulus = m, m_data = C\<rparr>" and w = w and r = ?r and wi = wi and tab = tab'] m C(2) tab w r
    by (auto simp: nvec_zero_def)
  show ?thesis by (rule that [OF A(1) B(1) C(1) d(1)]) (use d(2) in simp)
qed

subsection \<open>The tables\<close>

lemma ModMulEq_power:
  assumes "0 < unat m" "unat x = unat r ^ i mod unat m"
  shows "unat (ModMulEq x r m) = unat r ^ Suc i mod unat m"
  using assms by (simp add: ModMulEq_eq ModMul_correct mod_mult_right_eq mult.commute)

lemma table_loop:
  fixes m r r' :: u64 and n :: nat
  assumes m: "1 < unat m"
  defines "st \<equiv> for_range 0 n (\<lambda>i (x, y, T, T'). (ModMulEq x r m, ModMulEq y r' m, T[i := x], T'[i := y]))
    (1, 1, replicate n 0, replicate n 0)"
  shows "\<exists>x y T T'. st = (x, y, T, T') \<and> length T = n \<and> length T' = n \<and>
    (\<forall>i<n. unat (T ! i) = unat r ^ i mod unat m \<and> unat (T' ! i) = unat r' ^ i mod unat m)"
proof -
  let ?P = "\<lambda>k (x :: u64, y :: u64, T :: u64 list, T' :: u64 list). unat x = unat r ^ k mod unat m \<and> unat y = unat r' ^ k mod unat m \<and>
    length T = n \<and> length T' = n \<and> (\<forall>i<k. i < n \<longrightarrow> unat (T ! i) = unat r ^ i mod unat m \<and> unat (T' ! i) = unat r' ^ i mod unat m)"
  have "?P n st"
    unfolding st_def
  proof (rule for_range_invariant [where P = ?P])
    show "?P 0 (1, 1, replicate n 0, replicate n 0)" using m by simp
    fix i s assume "0 \<le> i" "i < n" and s: "?P i s"
    obtain x y T T' where e: "s = (x, y, T, T')" by (cases s) auto
    have m0: "0 < unat m" using m by simp
    note p = ModMulEq_power [OF m0, of x r i] ModMulEq_power [OF m0, of y r' i]
    show "?P (Suc i) (case s of (x, y, T, T') \<Rightarrow> (ModMulEq x r m, ModMulEq y r' m, T[i := x], T'[i := y]))"
      using s p unfolding e prod.case by (simp add: less_Suc_eq nth_list_update del: power_Suc)
  qed simp
  then show ?thesis by (cases st) auto
qed

lemma power_tableI:
  assumes "1 < unat m" "\<And>i. i < n \<Longrightarrow> unat (m_data tab ! i) = unat r ^ i mod unat m"
  shows "power_table m n (iu r) tab"
  unfolding power_table_def
proof (intro allI impI conjI)
  fix i assume i: "i < n"
  show "unat (m_data tab ! i) < unat m" using assms i by simp
  have "iu (m_data tab ! i) = iu r ^ i mod iu m" using assms(2) [OF i] by (simp only: of_nat_mod of_nat_power)
  then show "coeffs tab i mod iu m = iu r ^ i mod iu m" by simp
qed

lemma coprime_power_one:
  assumes "a ^ n mod m = 1" "0 < n"
  shows "coprime a (m :: nat)"
proof (rule coprimeI)
  fix c assume "c dvd a" "c dvd m"
  then have "c dvd a ^ n" using assms(2) by (meson dvd_power dvd_trans)
  then have "c dvd a ^ n mod m" using \<open>c dvd m\<close> by (simp add: dvd_mod)
  then show "c dvd 1" using assms(1) by simp
qed

text \<open>The inverse of a root of unity.\<close>

lemma root_inverse:
  assumes m: "1 < unat m" "unat m < 2 ^ 63" and r: "unat r ^ n mod unat m = 1" "0 < n"
  obtains r' where "ModInverse r m = Inr r'" "unat r' < unat m" "(iu r * iu r') mod iu m = 1 mod iu m"
proof -
  obtain r' where r': "ModInverse r m = Inr r'" "unat r' < unat m" "unat r' * unat r mod unat m = 1"
    using ModInverse_correct [OF m, of r] coprime_power_one [OF r] by auto
  have "int (unat r * unat r' mod unat m) = 1" using r'(3) by (simp add: mult.commute)
  then have "(iu r * iu r') mod iu m = 1" by (simp only: of_nat_mod of_nat_mult)
  moreover have "1 mod iu m = 1" using m by (intro mod_pos_pos_trivial) linarith+
  ultimately show ?thesis using r' that by simp
qed

lemma pow2_ceil_eq:
  assumes "1 \<le> n" "n < 2 ^ 31" "L = ceil_log2 n"
  shows "pow2_ceil (of_nat n) = Inr (push_bit L 1)" "L \<le> 31" "unat (push_bit L 1 :: u32) = 2 ^ L" "n \<le> 2 ^ L"
proof -
  note L = assms(3)
  have n: "unat (of_nat n :: u32) = n" using assms(2) by (simp add: unsigned_of_nat take_bit_nat_eq_self)
  then have n0: "(of_nat n :: u32) \<noteq> 0" using assms(1) by (metis unsigned_0 not_one_le_zero)
  show l31: "L \<le> 31" unfolding L ceil_log2_def bit_len_le_iff using assms(2) by simp
  show "pow2_ceil (of_nat n) = Inr (push_bit L 1)" using l31 n n0 by (simp add: pow2_ceil_def L Let_def)
  have "(2::nat) ^ L < 2 ^ 32" using l31 by (intro power_strict_increasing) auto
  then show "unat (push_bit L 1 :: u32) = 2 ^ L" unfolding unat_push_bit by simp
  show "n \<le> 2 ^ L" using bit_len_upper [of "n - 1"] assms(1) by (simp add: L ceil_log2_def)
qed

lemma unat_of_nat_u32: "n < 2 ^ 32 \<Longrightarrow> unat (of_nat n :: u32) = n"
  by (simp add: unsigned_of_nat take_bit_nat_eq_self)

lemma square_index_eq:
  assumes "i < c" "c \<le> 2 ^ 16"
  shows "\<exists>w. square_index (of_nat c) i = Inr w \<and> unat (ucast w :: u64) = i * i mod (2 * c)"
proof -
  have "i * i \<le> 2 ^ 16 * 2 ^ 16 - 1"
  proof -
    have "i * i \<le> (2 ^ 16 - 1) * (2 ^ 16 - 1)" using assms by (intro mult_le_mono) auto
    then show ?thesis by simp
  qed
  then have ii: "unat (of_nat i * of_nat i :: u32) = i * i"
    unfolding of_nat_mult [symmetric] by (intro unat_of_nat_u32) simp
  have c: "unat (2 * of_nat c :: u32) = 2 * c"
  proof -
    have "(2 * of_nat c :: u32) = of_nat (2 * c)" by simp
    then show ?thesis using unat_of_nat_u32 [of "2 * c"] assms(2) by simp
  qed
  then have "(2 * of_nat c :: u32) \<noteq> 0" using assms(1) by (metis unsigned_0 gr_implies_not0 mult_is_0 zero_neq_numeral)
  moreover have "unat (ucast w :: u64) = unat w" for w :: u32
    by (simp add: unsigned_ucast_eq take_bit_nat_eq_self_iff order.strict_trans2 [OF unsigned_less])
  ultimately show ?thesis using ii c by (simp add: square_index_def unat_mod)
qed

lemma power_mod_order:
  assumes "r ^ n mod m = (1 :: nat)"
  shows "r ^ (k mod n) mod m = r ^ k mod m"
proof -
  have "r ^ k = (r ^ n) ^ (k div n) * r ^ (k mod n)" by (simp flip: power_mult power_add)
  also have "\<dots> mod m = ((r ^ n) mod m) ^ (k div n) * r ^ (k mod n) mod m"
    by (metis mod_mult_left_eq power_mod)
  finally show ?thesis using assms by simp
qed

lemma chirp_entry:
  assumes "1 < unat m" "unat r ^ (2 * c) mod unat m = 1" "i < c" "c \<le> 2 ^ 16"
  obtains w where "square_index (of_nat c) i = Inr w" "unat (ModExp r (ucast w) m) = unat r ^ (i * i) mod unat m"
  using square_index_eq [OF assms(3,4)] ModExp_correct [OF assms(1)] power_mod_order [OF assms(2)] by metis

lemma PreComputePowers_entries:
  assumes m: "1 < unat m" and r: "unat r ^ (2 * c) mod unat m = 1" and c: "0 < c" "c \<le> 2 ^ 16"
  obtains P where "PreComputePowers (of_nat c) (m, r) st =
      Inr (st\<lparr>m_powersTableByModulusRoot := (m_powersTableByModulusRoot st)((m, r) \<mapsto> \<lparr>m_modulus = m, m_data = P\<rparr>)\<rparr>)"
    "length P = c" "\<And>i. i < c \<Longrightarrow> unat (P ! i) = unat r ^ (i * i) mod unat m"
proof -
  have uc: "unat (of_nat c :: u32) = c" using c by (intro unat_of_nat_u32) simp
  let ?body = "\<lambda>i powers. ebind (square_index (of_nat c) i) (\<lambda>iSqr. set_at powers i (ModExp r (ucast iSqr) m))"
  have "\<exists>P. efor 1 c ?body ((replicate c 0)[0 := 1]) = Inr P \<and>
      (length P = c \<and> (\<forall>i<c. unat (P ! i) = unat r ^ (i * i) mod unat m))"
  proof (rule efor_Inr [where P = "\<lambda>k (P :: u64 list). length P = c \<and> (\<forall>i<k. unat (P ! i) = unat r ^ (i * i) mod unat m)"])
    fix i and P :: "u64 list" assume i: "1 \<le> i" "i < c" and P: "length P = c \<and> (\<forall>j<i. unat (P ! j) = unat r ^ (j * j) mod unat m)"
    obtain w where "square_index (of_nat c) i = Inr w" "unat (ModExp r (ucast w) m) = unat r ^ (i * i) mod unat m"
      by (rule chirp_entry [OF m r i(2) c(2)])
    with P i show "\<exists>P'. ?body i P = Inr P' \<and> (length P' = c \<and> (\<forall>j<Suc i. unat (P' ! j) = unat r ^ (j * j) mod unat m))"
      by (auto simp: set_at_def less_Suc_eq)
  qed (use c m in auto)
  then obtain P where P: "efor 1 c ?body ((replicate c 0)[0 := 1]) = Inr P"
    "length P = c" "\<forall>i<c. unat (P ! i) = unat r ^ (i * i) mod unat m" by blast
  show ?thesis
    by (rule that [OF _ P(2)]) (use P(1,3) c in \<open>auto simp: PreComputePowers_def uc set_at_def\<close>)
qed

lemma PadZeros_eq:
  assumes "length xs \<le> unat n"
  shows "PadZeros \<lparr>m_modulus = m, m_data = xs\<rparr> n = Inr \<lparr>m_modulus = m, m_data = xs @ replicate (unat n - length xs) 0\<rparr>"
proof -
  let ?n = "unat n" and ?l = "length xs"
  have "\<exists>d. efor 0 ?l (\<lambda>i d. set_at d i (xs ! i)) (replicate ?n 0) = Inr d \<and>
      (length d = ?n \<and> (\<forall>k<?n. d ! k = (if k < ?l then xs ! k else 0)))"
    by (rule efor_Inr [where P = "\<lambda>i d. length d = ?n \<and> (\<forall>k<?n. d ! k = (if k < i then xs ! k else 0))"])
      (use assms in \<open>auto simp: set_at_def nth_list_update less_Suc_eq\<close>)
  then obtain d where d: "efor 0 ?l (\<lambda>i d. set_at d i (xs ! i)) (replicate ?n 0) = Inr d"
    "length d = ?n" "\<forall>k<?n. d ! k = (if k < ?l then xs ! k else 0)" by blast
  have "\<exists>e. efor ?l ?n (\<lambda>i d. set_at d i 0) d = Inr e \<and>
      (length e = ?n \<and> (\<forall>k<?n. e ! k = (if k < ?l then xs ! k else 0)))"
    by (rule efor_Inr [where P = "\<lambda>i e. length e = ?n \<and> (\<forall>k<?n. e ! k = (if k < ?l then xs ! k else 0))"])
      (use assms d in \<open>auto simp: set_at_def nth_list_update\<close>)
  then obtain e where e: "efor ?l ?n (\<lambda>i d. set_at d i 0) d = Inr e"
    "length e = ?n" "\<forall>k<?n. e ! k = (if k < ?l then xs ! k else 0)" by blast
  have "e = xs @ replicate (?n - ?l) 0"
    using e(2,3) assms by (intro nth_equalityI) (auto simp: nth_append)
  then show ?thesis using d(1) e(1) by (simp add: PadZeros_def)
qed

text \<open>The chirp on both sides of its centre \<open>c - 1\<close>, as \<open>PreComputeRBTable\<close> lays it out.\<close>

definition chirp_list :: "u64 \<Rightarrow> u64 \<Rightarrow> nat \<Rightarrow> nat \<Rightarrow> u64 list \<Rightarrow> bool" where
  "chirp_list m r c n B \<longleftrightarrow> length B = n \<and>
     (\<forall>i<c. unat (B ! (c - 1 + i)) = unat r ^ (i * i) mod unat m \<and> unat (B ! (c - 1 - i)) = unat r ^ (i * i) mod unat m) \<and>
     (\<forall>k<n. 2 * c - 1 \<le> k \<longrightarrow> B ! k = 0)"

lemma chirp_loop:
  fixes m r :: u64
  assumes m: "1 < unat m" and r: "unat r ^ (2 * c) mod unat m = 1" and c: "0 < c" "c \<le> 2 ^ 16"
  shows "\<exists>b. efor 1 c (\<lambda>i b. ebind (square_index (of_nat c) i) (\<lambda>iSqr.
        let v = ModExp r (ucast iSqr) m
        in ebind (set_at b (c - 1 + i) v) (\<lambda>b. set_at b (c - 1 - i) v))) ((replicate (2 * c - 1) 0)[c - 1 := 1]) = Inr b \<and>
      (length b = 2 * c - 1 \<and> (\<forall>i<c. unat (b ! (c - 1 + i)) = unat r ^ (i * i) mod unat m \<and>
        unat (b ! (c - 1 - i)) = unat r ^ (i * i) mod unat m))"
proof (rule efor_Inr [where P = "\<lambda>k (b :: u64 list). length b = 2 * c - 1 \<and> (\<forall>i<k. unat (b ! (c - 1 + i)) = unat r ^ (i * i) mod unat m \<and>
    unat (b ! (c - 1 - i)) = unat r ^ (i * i) mod unat m)"])
  fix i and b :: "u64 list"
  assume i: "1 \<le> i" "i < c" and b: "length b = 2 * c - 1 \<and> (\<forall>j<i. unat (b ! (c - 1 + j)) = unat r ^ (j * j) mod unat m \<and>
    unat (b ! (c - 1 - j)) = unat r ^ (j * j) mod unat m)"
  obtain w where w: "square_index (of_nat c) i = Inr w" "unat (ModExp r (ucast w) m) = unat r ^ (i * i) mod unat m"
    by (rule chirp_entry [OF m r i(2) c(2)])
  define v where "v = ModExp r (ucast w) m"
  define b' where "b' = b[c - 1 + i := v, c - 1 - i := v]"
  have "\<forall>j<Suc i. unat (b' ! (c - 1 + j)) = unat r ^ (j * j) mod unat m \<and> unat (b' ! (c - 1 - j)) = unat r ^ (j * j) mod unat m"
  proof (intro allI impI)
    fix j assume j: "j < Suc i"
    show "unat (b' ! (c - 1 + j)) = unat r ^ (j * j) mod unat m \<and> unat (b' ! (c - 1 - j)) = unat r ^ (j * j) mod unat m"
    proof (cases "j = i")
      case True
      then show ?thesis using b i w(2) by (auto simp: b'_def v_def nth_list_update)
    next
      case False
      then have "c - 1 + j \<noteq> c - 1 + i" "c - 1 + j \<noteq> c - 1 - i" "c - 1 - j \<noteq> c - 1 + i" "c - 1 - j \<noteq> c - 1 - i"
        using i j by auto
      then show ?thesis using b j False by (simp add: b'_def less_Suc_eq)
    qed
  qed
  moreover have lt: "c - 1 + i < 2 * c - 1" "c - 1 - i < 2 * c - 1" using i by auto
  ultimately show "\<exists>b'. ebind (square_index (of_nat c) i) (\<lambda>iSqr. let v = ModExp r (ucast iSqr) m
        in ebind (set_at b (c - 1 + i) v) (\<lambda>b. set_at b (c - 1 - i) v)) = Inr b' \<and>
      (length b' = 2 * c - 1 \<and> (\<forall>j<Suc i. unat (b' ! (c - 1 + j)) = unat r ^ (j * j) mod unat m \<and>
        unat (b' ! (c - 1 - j)) = unat r ^ (j * j) mod unat m))"
    using b w(1) lt by (intro exI [of _ b']) (simp add: set_at_def b'_def v_def Let_def)
qed (use c m in auto)

lemma PreComputeRBTable_eq:
  assumes m: "1 < unat m" and inv: "ModInverse r m = Inr ri" and r: "unat ri ^ (2 * c) mod unat m = 1"
    and c: "0 < c" "c \<le> 2 ^ 16" and L: "L = ceil_log2 (2 * c - 1)" and p: "barrett_modulus p"
  obtains B where "chirp_list m ri c (2 ^ L) B" "reduced m B"
    "PreComputeRBTable (of_nat c) ((m, r), (p, w)) st =
      ebind (ForwardTransformIterative \<lparr>m_modulus = p, m_data = B\<rparr> (mget no_vec (m_rootOfUnityTableByModulusRoot st) (p, w)) (nvec_zero (2 ^ L) 0))
        (\<lambda>RB. Inr (st\<lparr>m_RBTableByModulusRootPair := (m_RBTableByModulusRootPair st)(((m, r), (p, w)) \<mapsto> RB)\<rparr>))"
proof -
  have c2: "1 \<le> 2 * c - 1" "2 * c - 1 < 2 ^ 31" using c by auto
  note P = pow2_ceil_eq [OF c2 L]
  have u: "unat (of_nat c :: u32) = c" "unat (of_nat c - 1 :: u32) = c - 1" "of_nat (2 * c - 1) = (2 * of_nat c - 1 :: u32)"
    using unat_of_nat_u32 [of c] unat_diff_u32 [of 1 c] c by (auto simp: of_nat_diff)
  have u2: "unat (2 * of_nat c - 1 :: u32) = 2 * c - 1" unfolding u(3) [symmetric] using c2 by (intro unat_of_nat_u32) simp
  obtain b where b: "efor 1 c (\<lambda>i b. ebind (square_index (of_nat c) i) (\<lambda>iSqr.
        let v = ModExp ri (ucast iSqr) m
        in ebind (set_at b (c - 1 + i) v) (\<lambda>b. set_at b (c - 1 - i) v))) ((replicate (2 * c - 1) 0)[c - 1 := 1]) = Inr b"
    "length b = 2 * c - 1" "\<forall>i<c. unat (b ! (c - 1 + i)) = unat ri ^ (i * i) mod unat m \<and>
        unat (b ! (c - 1 - i)) = unat ri ^ (i * i) mod unat m"
    using chirp_loop [OF m r c] by blast
  define B where "B = b @ replicate (2 ^ L - length b) 0"
  have B: "chirp_list m ri c (2 ^ L) B"
    using b(2,3) P(4) c(1) by (auto simp: chirp_list_def B_def nth_append)
  moreover have "reduced m B"
  proof (rule reducedI)
    fix k assume k: "k < length B"
    consider i where "i < c" "k = c - 1 + i" | i where "i < c" "k = c - 1 - i" | "2 * c - 1 \<le> k"
    proof -
      assume h: "\<And>i. i < c \<Longrightarrow> k = c - 1 + i \<Longrightarrow> thesis" "\<And>i. i < c \<Longrightarrow> k = c - 1 - i \<Longrightarrow> thesis" "2 * c - 1 \<le> k \<Longrightarrow> thesis"
      show thesis
      proof (cases "2 * c - 1 \<le> k")
        case False
        then show ?thesis using h(1) [of "k - (c - 1)"] h(2) [of "c - 1 - k"] c(1) by (cases "c - 1 \<le> k") auto
      qed (rule h(3))
    qed
    then show "unat (B ! k) < unat m" using B k m unfolding chirp_list_def by cases auto
  qed
  moreover have "PreComputeRBTable (of_nat c) ((m, r), (p, w)) st =
      ebind (ForwardTransformIterative \<lparr>m_modulus = p, m_data = B\<rparr> (mget no_vec (m_rootOfUnityTableByModulusRoot st) (p, w)) (nvec_zero (2 ^ L) 0))
        (\<lambda>RB. Inr (st\<lparr>m_RBTableByModulusRootPair := (m_RBTableByModulusRootPair st)(((m, r), (p, w)) \<mapsto> RB)\<rparr>))"
  proof -
    have "set_at (replicate (2 * c - 1) (0 :: u64)) (c - 1) 1 = Inr ((replicate (2 * c - 1) 0)[c - 1 := 1])"
      using c(1) by (simp add: set_at_def)
    moreover have "PadZeros \<lparr>m_modulus = m, m_data = b\<rparr> (push_bit L 1) = Inr \<lparr>m_modulus = m, m_data = B\<rparr>"
      using PadZeros_eq [of b "push_bit L 1" m] P(3,4) b(2) by (simp only: B_def)
    ultimately show ?thesis
      using inv b(1) P(1) [unfolded u(3)] P(3) SetModulus_ok [OF p]
      by (simp add: PreComputeRBTable_def u(1,2) u2 Let_def)
  qed
  ultimately show ?thesis by (rule that)
qed

subsection \<open>The chirp transform\<close>

lemma chirp_listD:
  assumes B: "chirp_list m r c n B" and i: "i < c" "k < c"
  shows "iu (B ! (c - 1 + k - i)) = iu r ^ ((k - i) * (k - i) + (i - k) * (i - k)) mod iu m"
proof -
  have b: "unat (B ! (c - 1 + j)) = unat r ^ (j * j) mod unat m" "unat (B ! (c - 1 - j)) = unat r ^ (j * j) mod unat m"
    if "j < c" for j using B that unfolding chirp_list_def by blast+
  have "unat (B ! (c - 1 + k - i)) = unat r ^ ((k - i) * (k - i) + (i - k) * (i - k)) mod unat m"
  proof (cases "i \<le> k")
    case True
    then have e: "c - 1 + k - i = c - 1 + (k - i)" "k - i < c" "i - k = 0" using i by auto
    show ?thesis unfolding e(1,3) b(1) [OF e(2)] by simp
  next
    case False
    then have e: "c - 1 + k - i = c - 1 - (i - k)" "i - k < c" "k - i = 0" using i by auto
    show ?thesis unfolding e(1,3) b(2) [OF e(2)] by simp
  qed
  then show ?thesis by (simp only: of_nat_mod of_nat_power)
qed

lemma wrap_conv_middle:
  assumes X: "\<And>i. c \<le> i \<Longrightarrow> i < n \<Longrightarrow> X i = 0" and c: "0 < c" "2 * c - 1 \<le> n" "k < c"
  shows "wrap_conv 1 n X Y (c - 1 + k) = (\<Sum>i<c. X i * Y (c - 1 + k - i))"
proof -
  have "wrap_conv 1 n X Y (c - 1 + k) = (\<Sum>i<c. X i * (if i \<le> c - 1 + k then Y (c - 1 + k - i) else 1 * Y (n + (c - 1 + k) - i)))"
    unfolding wrap_conv_def using X c by (intro sum.mono_neutral_right) auto
  also have "\<dots> = (\<Sum>i<c. X i * Y (c - 1 + k - i))" using c by (intro sum.cong) auto
  finally show ?thesis .
qed

text \<open>Multiplying out the chirps: \<open>j\<^sup>2 + k\<^sup>2 - (k - j)\<^sup>2 = 2 j k\<close>.\<close>

lemma chirp_product:
  fixes r s q :: int
  assumes rs: "(r * s) mod q = 1 mod q"
  shows "(r ^ (i * i) * s ^ ((k - i) * (k - i) + (i - k) * (i - k)) * r ^ (k * k)) mod q = r ^ (2 * i * k) mod q"
proof -
  define e where "e = (k - i) * (k - i) + (i - k) * (i - k)"
  have "i * i + k * k = 2 * i * k + e"
  proof (cases "i \<le> k")
    case True
    then obtain d where "k = i + d" using le_Suc_ex by blast
    then show ?thesis by (simp add: e_def algebra_simps)
  next
    case False
    then obtain d where "i = k + d" using le_Suc_ex nat_le_linear by blast
    then show ?thesis by (simp add: e_def algebra_simps)
  qed
  moreover have "r ^ (i * i) * s ^ e * r ^ (k * k) = r ^ (i * i + k * k) * s ^ e" by (simp add: power_add)
  ultimately have "r ^ (i * i) * s ^ e * r ^ (k * k) = r ^ (2 * i * k) * (r * s) ^ e"
    by (simp only: power_add power_mult_distrib mult.assoc)
  also have "\<dots> mod q = (r ^ (2 * i * k) * 1) mod q"
    using power_mod_cong [OF rs, of e] by (intro mod_mult_cong refl) simp
  finally show ?thesis by (simp add: e_def)
qed

lemma Resize_eq:
  assumes "unat lo \<le> unat hi" "unat hi < length xs" "unat (hi - lo + 1) = unat hi - unat lo + 1"
  shows "Resize \<lparr>m_modulus = m, m_data = xs\<rparr> lo hi =
    Inr \<lparr>m_modulus = m, m_data = map (\<lambda>k. xs ! (unat lo + k)) [0..<unat hi - unat lo + 1]\<rparr>"
proof -
  let ?n = "unat hi - unat lo + 1"
  have "\<exists>d. efor (unat lo) (unat hi + 1) (\<lambda>i d. ebind (get_at xs i) (set_at d (i - unat lo))) (replicate ?n 0) = Inr d \<and>
      (length d = ?n \<and> (\<forall>k. k < unat hi + 1 - unat lo \<longrightarrow> d ! k = xs ! (unat lo + k)))"
  proof (rule efor_Inr [where P = "\<lambda>i d. length d = ?n \<and> (\<forall>k. k < i - unat lo \<longrightarrow> d ! k = xs ! (unat lo + k))"])
    fix i d assume i: "unat lo \<le> i" "i < unat hi + 1"
      and d: "length d = ?n \<and> (\<forall>k. k < i - unat lo \<longrightarrow> d ! k = xs ! (unat lo + k))"
    have "i - unat lo < ?n" "i < length xs" using i assms by auto
    moreover have "k < Suc i - unat lo \<longleftrightarrow> k < i - unat lo \<or> k = i - unat lo" for k using i by auto
    ultimately show "\<exists>d'. ebind (get_at xs i) (set_at d (i - unat lo)) = Inr d' \<and>
        (length d' = ?n \<and> (\<forall>k. k < Suc i - unat lo \<longrightarrow> d' ! k = xs ! (unat lo + k)))"
      using d i by (auto simp: get_at_def set_at_def nth_list_update)
  qed (use assms in auto)
  then obtain d where d: "efor (unat lo) (unat hi + 1) (\<lambda>i d. ebind (get_at xs i) (set_at d (i - unat lo))) (replicate ?n 0) = Inr d"
    "length d = ?n" "\<forall>k. k < unat hi + 1 - unat lo \<longrightarrow> d ! k = xs ! (unat lo + k)" by blast
  then have "d = map (\<lambda>k. xs ! (unat lo + k)) [0..<?n]" using assms(1) by (intro nth_equalityI) (auto simp del: upt_Suc)
  then show ?thesis using d(1) assms(3) by (simp add: Resize_def)
qed

lemma vModEq_same:
  assumes m: "barrett_modulus m"
  shows "length (m_data (vModEq \<lparr>m_modulus = m, m_data = xs\<rparr> m)) = length xs"
    "m_modulus (vModEq \<lparr>m_modulus = m, m_data = xs\<rparr> m) = m"
    "i < length xs \<Longrightarrow> unat (m_data (vModEq \<lparr>m_modulus = m, m_data = xs\<rparr> m) ! i) = unat (xs ! i) mod unat m"
proof -
  have m2: "m \<noteq> 2" using m by (auto simp: barrett_modulus_def)
  have e: "vModEq \<lparr>m_modulus = m, m_data = xs\<rparr> m = \<lparr>m_modulus = m, m_data = map (\<lambda>x. ModSub x 0 m) xs\<rparr>"
    using m2 by (simp add: vModEq_def ModSubEq_eq Let_def)
  have b: "0 < unat m" "unat m \<le> 2 ^ 63" using m by (auto simp: barrett_modulus_def)
  show "length (m_data (vModEq \<lparr>m_modulus = m, m_data = xs\<rparr> m)) = length xs"
    "m_modulus (vModEq \<lparr>m_modulus = m, m_data = xs\<rparr> m) = m"
    "i < length xs \<Longrightarrow> unat (m_data (vModEq \<lparr>m_modulus = m, m_data = xs\<rparr> m) ! i) = unat (xs ! i) mod unat m"
    unfolding e using ModSub_correct [OF b, of "xs ! i" 0] by simp_all
qed

lemma chirp_words:
  assumes "2 \<le> c" "c \<le> 2 ^ 16"
  shows "unat (of_nat c :: u32) = c" "unat (of_nat c - 1 :: u32) = c - 1" "of_nat (2 * c - 1) = (2 * of_nat c - 1 :: u32)"
    "unat (2 * (of_nat c - 1) :: u32) = 2 * c - 2" "unat (2 * (of_nat c - 1) - (of_nat c - 1) + 1 :: u32) = c"
proof -
  have e: "(of_nat c - 1 :: u32) = of_nat (c - 1)" "(2 * (of_nat c - 1) :: u32) = of_nat (2 * c - 2)"
    "(2 * (of_nat c - 1) - (of_nat c - 1) + 1 :: u32) = of_nat c"
    using assms by (simp_all add: of_nat_diff)
  show "unat (of_nat c :: u32) = c" using assms by (intro unat_of_nat_u32) simp
  then show "unat (2 * (of_nat c - 1) - (of_nat c - 1) + 1 :: u32) = c" by (simp only: e(3))
  show "unat (of_nat c - 1 :: u32) = c - 1" unfolding e(1) using assms by (intro unat_of_nat_u32) simp
  show "unat (2 * (of_nat c - 1) :: u32) = 2 * c - 2" unfolding e(2) using assms by (intro unat_of_nat_u32) simp
  show "of_nat (2 * c - 1) = (2 * of_nat c - 1 :: u32)" using assms by (simp add: of_nat_diff)
qed

lemma modulus_room:
  assumes "c * (unat q * unat q) \<le> unat p" "0 < c"
  shows "unat q \<le> unat p"
proof (cases "unat q = 0")
  case False
  then have "1 \<le> c * unat q" using assms(2) by (simp add: Suc_le_eq)
  then have "unat q * 1 \<le> unat q * (c * unat q)" by (rule mult_le_mono2)
  also have "\<dots> = c * (unat q * unat q)" by (simp add: mult_ac)
  finally show ?thesis using assms(1) by linarith
qed simp

lemma chirp_length:
  assumes "2 \<le> c" "c \<le> 2 ^ 16" "L = ceil_log2 (2 * c - 1)"
  shows "0 < L" "L \<le> 24 \<or> L = 32"
proof -
  show "0 < L" unfolding assms(3) ceil_log2_def using assms(1) by simp
  have "L \<le> 17" unfolding assms(3) ceil_log2_def bit_len_le_iff using assms(2) by simp
  then show "L \<le> 24 \<or> L = 32" by simp
qed

text \<open>The middle entries of the convolution modulo \<open>p\<close> are exact.\<close>

lemma chirp_middle:
  assumes d: "restores p n (wrap_conv 1 n (\<lambda>i. iu (X ! i)) (\<lambda>i. iu (B ! i))) d"
    and X: "\<And>i. i < n \<Longrightarrow> X ! i = (if i < c then x ! i else 0)" and x: "reduced q x" "length x = c"
    and B: "reduced q B" "length B = n" and c: "0 < c" "2 \<le> c" "2 * c - 1 \<le> n" "k < c"
    and room: "c * (unat q * unat q) \<le> unat p"
  shows "iu (d ! (c - 1 + k)) = (\<Sum>i<c. iu (x ! i) * iu (B ! (c - 1 + k - i)))"
proof -
  define S where "S = (\<Sum>i<c. iu (x ! i) * iu (B ! (c - 1 + k - i)))"
  have lt: "c - 1 + k < n" using c by linarith
  have "wrap_conv 1 n (\<lambda>i. iu (X ! i)) (\<lambda>i. iu (B ! i)) (c - 1 + k) = (\<Sum>i<c. iu (X ! i) * iu (B ! (c - 1 + k - i)))"
    using X c by (intro wrap_conv_middle) auto
  also have "\<dots> = S" unfolding S_def using X c by (intro sum.cong refl) auto
  finally have d': "iu (d ! (c - 1 + k)) mod iu p = S mod iu p" "unat (d ! (c - 1 + k)) < unat p"
    using d lt unfolding restores_def by auto
  have S0: "0 \<le> S" unfolding S_def by (intro sum_nonneg) simp
  have "iu (x ! i) * iu (B ! (c - 1 + k - i)) \<le> iu q * iu q - 1" if i: "i < c" for i
  proof -
    have "unat (x ! i) * unat (B ! (c - 1 + k - i)) < unat q * unat q"
      using reduced_nth [OF x(1)] reduced_nth [OF B(1)] x(2) B(2) i lt by (intro mult_strict_mono') auto
    then have "int (unat (x ! i) * unat (B ! (c - 1 + k - i))) < int (unat q * unat q)" by (simp only: of_nat_less_iff)
    then show ?thesis unfolding of_nat_mult by linarith
  qed
  then have "S \<le> (\<Sum>i<c. iu q * iu q - 1)" unfolding S_def by (intro sum_mono) simp
  also have "\<dots> = iu q * iu q * int c - int c" by (simp add: algebra_simps)
  also have "\<dots> < iu p"
  proof -
    have "int (c * (unat q * unat q)) \<le> iu p" using room by (simp only: of_nat_le_iff)
    then show ?thesis using c(1) by (simp only: of_nat_mult) (simp add: mult_ac)
  qed
  finally have "S mod iu p = S" by (intro mod_pos_pos_trivial S0)
  moreover have "iu (d ! (c - 1 + k)) mod iu p = iu (d ! (c - 1 + k))"
    using d'(2) by (intro mod_pos_pos_trivial) (simp_all only: of_nat_0_le_iff of_nat_less_iff)
  ultimately show ?thesis using d'(1) unfolding S_def by (simp only:)
qed

lemma chirp_sum:
  assumes B: "chirp_list q s c n B" and rs: "(iu r * iu s) mod iu q = 1 mod iu q"
    and x: "\<And>j. j < c \<Longrightarrow> iu (x ! j) mod iu q = (A j * iu r ^ (j * j)) mod iu q" and k: "k < c"
  shows "((\<Sum>j<c. iu (x ! j) * iu (B ! (c - 1 + k - j))) * iu r ^ (k * k)) mod iu q = (\<Sum>j<c. A j * iu r ^ (2 * j * k)) mod iu q"
  unfolding sum_distrib_right
proof (intro sum_mod_cong)
  fix j assume "j \<in> {..<c}"
  then have j: "j < c" by simp
  define e where "e = (k - j) * (k - j) + (j - k) * (j - k)"
  have Bj: "iu (B ! (c - 1 + k - j)) mod iu q = iu s ^ e mod iu q"
    unfolding chirp_listD [OF B j k] by (simp add: e_def)
  have "(iu (x ! j) * iu (B ! (c - 1 + k - j)) * iu r ^ (k * k)) mod iu q
    = (A j * iu r ^ (j * j) * iu s ^ e * iu r ^ (k * k)) mod iu q"
    by (intro mod_mult_cong refl x Bj j)
  also have "\<dots> = (A j * (iu r ^ (j * j) * iu s ^ e * iu r ^ (k * k))) mod iu q" by (simp only: mult.assoc)
  also have "\<dots> = (A j * iu r ^ (2 * j * k)) mod iu q"
    unfolding e_def by (intro mod_mult_cong refl chirp_product rs)
  finally show "(iu (x ! j) * iu (B ! (c - 1 + k - j)) * iu r ^ (k * k)) mod iu q = (A j * iu r ^ (2 * j * k)) mod iu q" .
qed

text \<open>
  The main part: with the tables in place the transform of any length returns the values of the
  input polynomial at the powers of \<open>root ^ 2\<close>. The convolution is taken modulo the larger
  modulus \<open>p\<close>, where nothing wraps.
\<close>

lemma BFT_values:
  assumes q: "barrett_modulus q" and p: "barrett_modulus p" "odd (unat p)" and room: "c * (unat q * unat q) \<le> unat p"
    and c: "2 \<le> c" "c \<le> 2 ^ 16" and L: "L = ceil_log2 (2 * c - 1)"
    and a: "m_modulus a = q" "length (m_data a) = c" "reduced q (m_data a)"
    and rs: "(iu r * iu s) mod iu q = 1 mod iu q"
    and P: "length P = c" "\<And>i. i < c \<Longrightarrow> unat (P ! i) = unat r ^ (i * i) mod unat q" and B: "chirp_list q s c (2 ^ L) B" "reduced q B"
    and tab: "power_table p (2 ^ (L - 1)) (iu w) tab" "power_table p (2 ^ (L - 1)) wi tab'"
    and w: "iu w ^ 2 ^ (L - 1) mod iu p = (- 1) mod iu p" "(iu w * wi) mod iu p = 1 mod iu p"
    and RB: "ForwardTransformIterative \<lparr>m_modulus = p, m_data = B\<rparr> tab (nvec_zero (2 ^ L) 0) = Inr RB"
    and st: "m_powersTableByModulusRoot st (q, r) = Some \<lparr>m_modulus = q, m_data = P\<rparr>"
      "m_rootOfUnityTableByModulusRoot st (p, w) = Some tab"
      "m_rootOfUnityInverseTableByModulusRoot st (p, w) = Some tab'"
      "m_RBTableByModulusRootPair st ((q, r), (p, w)) = Some RB"
  shows "\<exists>d. BFT_ForwardTransform_root a r (of_nat c) (p, w) st = Inr \<lparr>m_modulus = q, m_data = d\<rparr> \<and> length d = c \<and> reduced q d \<and>
    (\<forall>k<c. iu (d ! k) = (\<Sum>j<c. coeffs a j * iu r ^ (2 * j * k)) mod iu q)"
proof -
  have c2: "1 \<le> 2 * c - 1" "2 * c - 1 < 2 ^ 31" using c by auto
  note pw = pow2_ceil_eq [OF c2 L]
  have q0: "0 < unat q" using q by (simp add: barrett_modulus_def)
  have qp: "unat q \<le> unat p" using modulus_room [OF room] c by simp
  note L1 = chirp_length [OF c L]
  note u = chirp_words [OF c]
  have pc: "pow2_ceil (2 * of_nat c - 1) = Inr (push_bit L 1)" using pw(1) u(3) by simp
  have redP: "reduced q P" using P q0 by (intro reducedI) simp
  have a': "a = \<lparr>m_modulus = q, m_data = m_data a\<rparr>" using a(1) by simp
  have len: "length (m_data a) = length P" using a(2) P(1) by simp
  obtain x where x: "vModMul \<lparr>m_modulus = q, m_data = m_data a\<rparr> \<lparr>m_modulus = q, m_data = P\<rparr> = Inr \<lparr>m_modulus = q, m_data = x\<rparr>"
    "reduced q x" "length x = length (m_data a)"
    "\<And>i. i < length (m_data a) \<Longrightarrow> unat (x ! i) = unat (m_data a ! i) * unat (P ! i) mod unat q"
    by (rule vModMul_entries [OF q a(3) redP len]) blast
  define X where "X = x @ replicate (2 ^ L - c) 0"
  have X: "PadZeros \<lparr>m_modulus = q, m_data = x\<rparr> (push_bit L 1) = Inr \<lparr>m_modulus = q, m_data = X\<rparr>"
    "length X = 2 ^ L"
    using PadZeros_eq [of x "push_bit L 1" q] pw(3,4) x(3) a(2) c by (simp_all add: X_def)
  have redX: "reduced p X"
  proof (rule reducedI)
    fix i assume "i < length X"
    then show "unat (X ! i) < unat p"
      using reduced_nth [OF x(2), of i] qp x(3) a(2) q0 by (auto simp: X_def nth_append)
  qed
  have redB: "reduced p B" "length B = 2 ^ L"
    using B qp by (auto simp: chirp_list_def intro!: reducedI dest: reduced_nth intro: order.strict_trans2)
  obtain RA RB' C d where T: "ForwardTransformIterative \<lparr>m_modulus = p, m_data = X\<rparr> tab (nvec_zero (2 ^ L) 0) = Inr RA"
    "ForwardTransformIterative \<lparr>m_modulus = p, m_data = B\<rparr> tab (nvec_zero (2 ^ L) 0) = Inr RB'" "vModMul RA RB' = Inr C"
    "InverseTransformIterative C tab' (nvec_zero (2 ^ L) 0) = Inr \<lparr>m_modulus = p, m_data = d\<rparr>"
    "restores p (2 ^ L) (wrap_conv 1 (2 ^ L) (\<lambda>i. iu (X ! i)) (\<lambda>i. iu (B ! i))) d"
    by (rule cyclic_convolution [OF L1 p redX X(2) redB tab w])
  have RB': "RB' = RB" using T(2) RB by simp
  define D where "D = map (\<lambda>k. d ! (c - 1 + k)) [0..<c]"
  define S where "S = (\<lambda>k. \<Sum>i<c. iu (x ! i) * iu (B ! (c - 1 + k - i)))"
  have Xn: "X ! i = (if i < c then x ! i else 0)" if "i < 2 ^ L" for i
    using that x(3) a(2) by (auto simp: X_def nth_append)
  have mid: "iu (d ! (c - 1 + k)) = S k" if k: "k < c" for k
    unfolding S_def by (rule chirp_middle [OF T(5) Xn x(2) _ B(2) redB(2) _ c(1) pw(4) k room]) (use x(3) a(2) c in auto)
  have R: "Resize \<lparr>m_modulus = p, m_data = d\<rparr> (of_nat c - 1) (2 * (of_nat c - 1)) = Inr \<lparr>m_modulus = p, m_data = D\<rparr>"
  proof -
    have "length d = 2 ^ L" using T(5) by (simp add: restores_def)
    then have h: "unat (of_nat c - 1 :: u32) \<le> unat (2 * (of_nat c - 1) :: u32)"
      "unat (2 * (of_nat c - 1) :: u32) < length d"
      "unat (2 * (of_nat c - 1) - (of_nat c - 1) + 1 :: u32) = unat (2 * (of_nat c - 1) :: u32) - unat (of_nat c - 1 :: u32) + 1"
      unfolding u using pw(4) c by auto
    have "2 * c - 2 - (c - 1) + 1 = c" using c by simp
    then show ?thesis using Resize_eq [OF h, of p] unfolding u D_def by simp
  qed
  define E where "E = m_data (vModEq \<lparr>m_modulus = q, m_data = D\<rparr> q)"
  have lenD: "length D = c" by (simp add: D_def)
  have E: "vModEq \<lparr>m_modulus = q, m_data = D\<rparr> q = \<lparr>m_modulus = q, m_data = E\<rparr>" "length E = c"
    "\<And>k. k < c \<Longrightarrow> unat (E ! k) = unat (D ! k) mod unat q"
    using vModEq_same [OF q, where xs = D] lenD by (simp_all add: E_def)
  have redE: "reduced q E" using E(2,3) q0 by (intro reducedI) simp
  obtain y where y: "vModMul \<lparr>m_modulus = q, m_data = E\<rparr> \<lparr>m_modulus = q, m_data = P\<rparr> = Inr \<lparr>m_modulus = q, m_data = y\<rparr>"
    "reduced q y" "length y = length E" "\<And>i. i < length E \<Longrightarrow> unat (y ! i) = unat (E ! i) * unat (P ! i) mod unat q"
    by (rule vModMul_entries [OF q redE redP]) (use E(2) P(1) in auto)
  have "iu (y ! k) = (\<Sum>j<c. coeffs a j * iu r ^ (2 * j * k)) mod iu q" if k: "k < c" for k
  proof -
    have Pk: "iu (P ! j) mod iu q = iu r ^ (j * j) mod iu q" if "j < c" for j
      using P(2) [OF that] by (simp only: of_nat_mod of_nat_power mod_mod_trivial)
    have xj: "iu (x ! j) mod iu q = (coeffs a j * iu r ^ (j * j)) mod iu q" if j: "j < c" for j
    proof -
      have "iu (x ! j) mod iu q = (coeffs a j * iu (P ! j)) mod iu q"
        using x(4) [of j] a(2) j by (simp only: of_nat_mod of_nat_mult mod_mod_trivial)
      also have "\<dots> = (coeffs a j * iu r ^ (j * j)) mod iu q" by (intro mod_mult_cong refl Pk j)
      finally show ?thesis .
    qed
    have Ek: "iu (E ! k) mod iu q = S k mod iu q"
      using E(3) [OF k] mid [OF k] k by (simp only: of_nat_mod mod_mod_trivial) (simp add: D_def)
    have "iu (y ! k) = (iu (E ! k) * iu (P ! k)) mod iu q"
      using y(4) [of k] E(2) k by (simp only: of_nat_mod of_nat_mult)
    also have "\<dots> = (S k * iu r ^ (k * k)) mod iu q" by (intro mod_mult_cong Ek Pk k)
    also have "\<dots> = (\<Sum>j<c. coeffs a j * iu r ^ (2 * j * k)) mod iu q"
      unfolding S_def by (rule chirp_sum [OF B(1) rs xj k])
    finally show ?thesis .
  qed
  moreover have "BFT_ForwardTransform_root a r (of_nat c) (p, w) st = Inr \<lparr>m_modulus = q, m_data = y\<rparr>"
  proof -
    have x': "vModMul a \<lparr>m_modulus = q, m_data = P\<rparr> = Inr \<lparr>m_modulus = q, m_data = x\<rparr>" using x(1) a' by simp
    show ?thesis
      unfolding BFT_ForwardTransform_root_def GetLength_def a(2) u(1) a(1) Let_def pc x' pw(3) fst_conv
      using X(1) x' pw(3) T(1-4) R RB' E(1) y(1) SetModulus_ok [OF p(1)] SetModulus_ok [OF q] by (simp add: st mget_def)
  qed
  ultimately show ?thesis using y(2,3) E(2) by auto
qed

subsection \<open>Filling the tables\<close>

text \<open>Parameters of a transform of length \<open>c\<close> modulo \<open>q\<close> through a transform of length \<open>2 ^ L\<close> modulo \<open>p\<close>.\<close>

definition bluestein_params :: "nat \<Rightarrow> u64 \<Rightarrow> u64 \<Rightarrow> u64 \<Rightarrow> u64 \<Rightarrow> bool" where
  "bluestein_params c q r p w \<longleftrightarrow>
     2 \<le> c \<and> c \<le> 2 ^ 16 \<and> barrett_modulus q \<and> unat r ^ (2 * c) mod unat q = 1 \<and>
     barrett_modulus p \<and> odd (unat p) \<and> c * (unat q * unat q) \<le> unat p \<and>
     unat w ^ 2 ^ (ceil_log2 (2 * c - 1) - 1) mod unat p = unat p - 1"

definition fresh_tables :: "'z bft_scheme \<Rightarrow> modroot \<Rightarrow> modroot \<Rightarrow> bool" where
  "fresh_tables st qr pw \<longleftrightarrow> m_rootOfUnityTableByModulusRoot st pw = None \<and>
     m_powersTableByModulusRoot st qr = None \<and> m_RBTableByModulusRootPair st (qr, pw) = None"

lemma neg_one_int:
  assumes "0 < unat p" "unat w ^ n mod unat p = unat p - 1"
  shows "iu w ^ n mod iu p = (- 1) mod iu p"
proof -
  have "int (unat w ^ n mod unat p) = iu p - 1" using assms by (simp add: of_nat_diff)
  then have e: "iu w ^ n mod iu p = iu p - 1" by (simp only: of_nat_mod of_nat_power)
  have "(- 1 + iu p) mod iu p = (- 1) mod iu p" by (rule mod_add_self2)
  moreover have "(- 1 + iu p) mod iu p = - 1 + iu p" using assms(1) by (intro mod_pos_pos_trivial) linarith+
  ultimately show ?thesis using e by linarith
qed

lemma inverse_order:
  assumes m: "1 < unat m" and rs: "(iu r * iu s) mod iu m = 1 mod iu m" and r: "unat r ^ n mod unat m = 1"
  shows "unat s ^ n mod unat m = 1"
proof -
  have one: "1 mod iu m = 1" using m by (intro mod_pos_pos_trivial) linarith+
  have "int (unat r ^ n mod unat m) = 1" using r by simp
  then have "iu r ^ n mod iu m = 1 mod iu m" unfolding one by (simp only: of_nat_mod of_nat_power)
  then have "(iu r ^ n * iu s ^ n) mod iu m = (1 * iu s ^ n) mod iu m" by (intro mod_mult_cong refl)
  moreover have "(iu r ^ n * iu s ^ n) mod iu m = 1" using power_mod_cong [OF rs, of n] one by (simp add: power_mult_distrib)
  ultimately have "int (unat s ^ n mod unat m) = int 1" by (simp only: of_nat_mod of_nat_power mult_1 of_nat_1)
  then show ?thesis by (simp only: of_nat_eq_iff)
qed

lemma minus_one_square:
  assumes "1 < (n :: nat)"
  shows "(n - 1) ^ 2 mod n = 1"
proof -
  obtain k where k: "n = k + 2" using assms by (metis add.commute less_natE plus_nat.simps(2) add_2_eq_Suc' Suc_1)
  have "(n - 1) ^ 2 = 1 + k * n" by (simp add: k power2_eq_square algebra_simps)
  then show ?thesis using assms by (simp only: mod_mult_self1) simp
qed

lemma PreComputeRootTableForNTT_tables:
  fixes st :: "'z bft_scheme"
  assumes c: "2 \<le> c" "c \<le> 2 ^ 16" and L: "L = ceil_log2 (2 * c - 1)" and p: "1 < unat p" "unat p < 2 ^ 63"
    and w: "unat w ^ 2 ^ (L - 1) mod unat p = unat p - 1"
  obtains tab tab' wi where
    "PreComputeRootTableForNTT (of_nat c) (p, w) st = Inr (st\<lparr>
       m_rootOfUnityTableByModulusRoot := (m_rootOfUnityTableByModulusRoot st)((p, w) \<mapsto> tab),
       m_rootOfUnityInverseTableByModulusRoot := (m_rootOfUnityInverseTableByModulusRoot st)((p, w) \<mapsto> tab')\<rparr>)"
    "power_table p (2 ^ (L - 1)) (iu w) tab" "power_table p (2 ^ (L - 1)) (iu wi) tab'"
    "(iu w * iu wi) mod iu p = 1 mod iu p"
proof -
  have c2: "1 \<le> 2 * c - 1" "2 * c - 1 < 2 ^ 31" using c by auto
  note pw = pow2_ceil_eq [OF c2 L]
  have L0: "0 < L" unfolding L ceil_log2_def using c by simp
  have "unat w ^ (2 ^ (L - 1) * 2) mod unat p = (unat p - 1) ^ 2 mod unat p"
    using w by (metis power_mod power_mult)
  also have "\<dots> = 1" by (rule minus_one_square) (rule p)
  finally have "unat w ^ (2 ^ (L - 1) * 2) mod unat p = 1" .
  then obtain wi where wi: "ModInverse w p = Inr wi" "unat wi < unat p" "(iu w * iu wi) mod iu p = 1 mod iu p"
    using root_inverse [OF p, of w "2 ^ (L - 1) * 2"] by auto
  obtain x y T T' where T: "for_range 0 (2 ^ (L - 1)) (\<lambda>i (x, y, T, T'). (ModMulEq x w p, ModMulEq y wi p, T[i := x], T'[i := y]))
      (1, 1, replicate (2 ^ (L - 1)) 0, replicate (2 ^ (L - 1)) 0) = (x, y, T, T')"
    "\<forall>i<2 ^ (L - 1). unat (T ! i) = unat w ^ i mod unat p \<and> unat (T' ! i) = unat wi ^ i mod unat p"
    using table_loop [OF p(1), where r = w and r' = wi and n = "2 ^ (L - 1)"] by blast
  have half: "unat (drop_bit 1 (push_bit L 1 :: u32)) = 2 ^ (L - 1)"
    unfolding unat_drop_bit pw(3) using L0 by (cases L) simp_all
  have "2 * of_nat c - 1 = (of_nat (2 * c - 1) :: u32)" using chirp_words(3) [OF c] by simp
  then have pc: "pow2_ceil (2 * of_nat c - 1) = Inr (push_bit L 1)" using pw(1) by simp
  have "PreComputeRootTableForNTT (of_nat c) (p, w) st = Inr (st\<lparr>
       m_rootOfUnityTableByModulusRoot := (m_rootOfUnityTableByModulusRoot st)((p, w) \<mapsto> \<lparr>m_modulus = p, m_data = T\<rparr>),
       m_rootOfUnityInverseTableByModulusRoot := (m_rootOfUnityInverseTableByModulusRoot st)((p, w) \<mapsto> \<lparr>m_modulus = p, m_data = T'\<rparr>)\<rparr>)"
      unfolding PreComputeRootTableForNTT_def pc prod.case Let_def ebind_simps wi(1) half T(1) ..
  moreover have "power_table p (2 ^ (L - 1)) (iu w) \<lparr>m_modulus = p, m_data = T\<rparr>"
    "power_table p (2 ^ (L - 1)) (iu wi) \<lparr>m_modulus = p, m_data = T'\<rparr>"
    using T(2) p(1) by (intro power_tableI; simp)+
  ultimately show ?thesis using wi(3) by (rule that)
qed

lemma fill_tables_fresh:
  fixes st :: arb
  assumes b: "bluestein_params c q r p w" and f: "fresh_tables st (q, r) (p, w)"
    and a: "m_modulus a = q" "length (m_data a) = c" "reduced q (m_data a)"
  shows "\<exists>st' d. fill_tables (of_nat c) (q, r) (p, w) st = Inr st' \<and>
    BFT_ForwardTransform_root a r (of_nat c) (p, w) st' = Inr \<lparr>m_modulus = q, m_data = d\<rparr> \<and> length d = c \<and> reduced q d \<and>
    (\<forall>k<c. iu (d ! k) = (\<Sum>j<c. coeffs a j * iu r ^ (2 * j * k)) mod iu q)"
proof -
  define L where "L = ceil_log2 (2 * c - 1)"
  note b = b [unfolded bluestein_params_def, folded L_def]
  have c: "2 \<le> c" "c \<le> 2 ^ 16" and q: "barrett_modulus q" and p: "barrett_modulus p" "odd (unat p)"
    and room: "c * (unat q * unat q) \<le> unat p" and r: "unat r ^ (2 * c) mod unat q = 1"
    and w: "unat w ^ 2 ^ (L - 1) mod unat p = unat p - 1" using b by blast+
  have qr: "1 < unat q" "unat q < 2 ^ 63" and pr: "1 < unat p" "unat p < 2 ^ 63"
    using q p by (auto simp: barrett_modulus_def)
  have c0: "0 < c" "0 < 2 * c" using c by auto
  have w1: "iu w ^ 2 ^ (L - 1) mod iu p = (- 1) mod iu p" using neg_one_int w pr by simp
  obtain s where s: "ModInverse r q = Inr s" "(iu r * iu s) mod iu q = 1 mod iu q"
    using root_inverse [OF qr r c0(2)] by blast
  note s1 = inverse_order [OF qr(1) s(2) r]
  obtain tab tab' wi where T: "PreComputeRootTableForNTT (of_nat c) (p, w) st = Inr (st\<lparr>
       m_rootOfUnityTableByModulusRoot := (m_rootOfUnityTableByModulusRoot st)((p, w) \<mapsto> tab),
       m_rootOfUnityInverseTableByModulusRoot := (m_rootOfUnityInverseTableByModulusRoot st)((p, w) \<mapsto> tab')\<rparr>)"
    "power_table p (2 ^ (L - 1)) (iu w) tab" "power_table p (2 ^ (L - 1)) (iu wi) tab'"
    "(iu w * iu wi) mod iu p = 1 mod iu p"
    by (rule PreComputeRootTableForNTT_tables [OF c L_def pr w])
  define st1 where "st1 = st\<lparr>
       m_rootOfUnityTableByModulusRoot := (m_rootOfUnityTableByModulusRoot st)((p, w) \<mapsto> tab),
       m_rootOfUnityInverseTableByModulusRoot := (m_rootOfUnityInverseTableByModulusRoot st)((p, w) \<mapsto> tab')\<rparr>"
  obtain P where P: "PreComputePowers (of_nat c) (q, r) st1 =
      Inr (st1\<lparr>m_powersTableByModulusRoot := (m_powersTableByModulusRoot st1)((q, r) \<mapsto> \<lparr>m_modulus = q, m_data = P\<rparr>)\<rparr>)"
    "length P = c" "\<And>i. i < c \<Longrightarrow> unat (P ! i) = unat r ^ (i * i) mod unat q"
    by (rule PreComputePowers_entries [OF qr(1) r c0(1) c(2)]) blast
  define st2 where "st2 = st1\<lparr>m_powersTableByModulusRoot := (m_powersTableByModulusRoot st1)((q, r) \<mapsto> \<lparr>m_modulus = q, m_data = P\<rparr>)\<rparr>"
  have m2: "mget no_vec (m_rootOfUnityTableByModulusRoot st2) (p, w) = tab" by (simp add: st2_def st1_def mget_def)
  obtain B where B: "chirp_list q s c (2 ^ L) B" "reduced q B"
    "PreComputeRBTable (of_nat c) ((q, r), (p, w)) st2 =
      ebind (ForwardTransformIterative \<lparr>m_modulus = p, m_data = B\<rparr> tab (nvec_zero (2 ^ L) 0))
        (\<lambda>RB. Inr (st2\<lparr>m_RBTableByModulusRootPair := (m_RBTableByModulusRootPair st2)(((q, r), (p, w)) \<mapsto> RB)\<rparr>))"
    by (rule PreComputeRBTable_eq [OF qr(1) s(1) s1 c0(1) c(2) L_def p(1), of w st2, unfolded m2])
  have B': "reduced p B" "length B = 2 ^ L"
    using B(1,2) modulus_room [OF room] c0 by (auto simp: chirp_list_def intro!: reducedI dest: reduced_nth intro: order.strict_trans2)
  obtain RB where RB: "ForwardTransformIterative \<lparr>m_modulus = p, m_data = B\<rparr> tab (nvec_zero (2 ^ L) 0) = Inr RB"
    using ForwardTransformIterative_dft [OF chirp_length [OF c L_def], where v = "\<lparr>m_modulus = p, m_data = B\<rparr>"
        and r = "nvec_zero (2 ^ L) 0" and tab = tab and w = "iu w"] p(1) B' T(2) w1 by (auto simp: nvec_zero_def)
  define st3 where "st3 = st2\<lparr>m_RBTableByModulusRootPair := (m_RBTableByModulusRootPair st2)(((q, r), (p, w)) \<mapsto> RB)\<rparr>"
  have "fill_tables (of_nat c) (q, r) (p, w) st = Inr st3"
    using f T(1) P(1) B(3) RB
    by (simp add: fill_tables_def fresh_tables_def mget_def no_vec_def GetLength_def st1_def st2_def st3_def)
  moreover have "\<exists>d. BFT_ForwardTransform_root a r (of_nat c) (p, w) st3 = Inr \<lparr>m_modulus = q, m_data = d\<rparr> \<and> length d = c \<and> reduced q d \<and>
    (\<forall>k<c. iu (d ! k) = (\<Sum>j<c. coeffs a j * iu r ^ (2 * j * k)) mod iu q)"
    by (rule BFT_values [OF q p room c L_def a s(2) P(2,3) B(1,2) T(2,3) w1 T(4) RB])
      (simp_all add: st3_def st2_def st1_def)
  ultimately show ?thesis by blast
qed

section \<open>Properties\<close>

text \<open>
  Cyclic convolution: for a table of the powers of \<open>w\<close>, \<open>w ^ (n / 2) = - 1\<close>, and one of its
  inverse, transforming two vectors with \<open>ForwardTransformIterative\<close>, multiplying entrywise and
  going back with \<open>InverseTransformIterative\<close> gives their product modulo \<open>X ^ n - 1\<close>.
\<close>

theorem iterative_convolution:
  assumes "0 < L" "L \<le> 24 \<or> L = 32" "barrett_modulus m" "odd (unat m)"
    and "reduced m xs" "length xs = 2 ^ L" "reduced m ys" "length ys = 2 ^ L"
    and "power_table m (2 ^ (L - 1)) w tab" "power_table m (2 ^ (L - 1)) wi tab'"
    and "w ^ 2 ^ (L - 1) mod iu m = (- 1) mod iu m" "(w * wi) mod iu m = 1 mod iu m"
  shows "\<exists>A B C d. ForwardTransformIterative \<lparr>m_modulus = m, m_data = xs\<rparr> tab (nvec_zero (2 ^ L) 0) = Inr A \<and>
    ForwardTransformIterative \<lparr>m_modulus = m, m_data = ys\<rparr> tab (nvec_zero (2 ^ L) 0) = Inr B \<and>
    vModMul A B = Inr C \<and>
    InverseTransformIterative C tab' (nvec_zero (2 ^ L) 0) = Inr \<lparr>m_modulus = m, m_data = d\<rparr> \<and>
    restores m (2 ^ L) (wrap_conv 1 (2 ^ L) (\<lambda>i. iu (xs ! i)) (\<lambda>i. iu (ys ! i))) d"
  using cyclic_convolution [OF assms] by metis

theorem iterative_convolution_witness:
  "\<exists>A B C d. ForwardTransformIterative \<lparr>m_modulus = 17, m_data = [1, 2, 3, 4]\<rparr> \<lparr>m_modulus = 17, m_data = [1, 4]\<rparr> (nvec_zero 4 0) = Inr A \<and>
    ForwardTransformIterative \<lparr>m_modulus = 17, m_data = [0, 1, 0, 0]\<rparr> \<lparr>m_modulus = 17, m_data = [1, 4]\<rparr> (nvec_zero 4 0) = Inr B \<and>
    vModMul A B = Inr C \<and>
    InverseTransformIterative C \<lparr>m_modulus = 17, m_data = [1, 13]\<rparr> (nvec_zero 4 0) = Inr \<lparr>m_modulus = 17, m_data = d\<rparr> \<and>
    unat (d ! 0) mod 17 = 4"
proof -
  have t: "power_table 17 (2 ^ (2 - 1)) 4 \<lparr>m_modulus = 17, m_data = [1, 4]\<rparr>"
    "power_table 17 (2 ^ (2 - 1)) 13 \<lparr>m_modulus = 17, m_data = [1, 13]\<rparr>"
    by (auto simp: power_table_def less_2_cases_iff)
  have b: "barrett_modulus 17" "reduced 17 [1, 2, 3, 4]" "reduced 17 [0, 1, 0, 0]" by (simp_all add: barrett_modulus_def reduced_def)
  have "\<exists>A B C d. ForwardTransformIterative \<lparr>m_modulus = 17, m_data = [1, 2, 3, 4]\<rparr> \<lparr>m_modulus = 17, m_data = [1, 4]\<rparr> (nvec_zero (2 ^ 2) 0) = Inr A \<and>
    ForwardTransformIterative \<lparr>m_modulus = 17, m_data = [0, 1, 0, 0]\<rparr> \<lparr>m_modulus = 17, m_data = [1, 4]\<rparr> (nvec_zero (2 ^ 2) 0) = Inr B \<and>
    vModMul A B = Inr C \<and>
    InverseTransformIterative C \<lparr>m_modulus = 17, m_data = [1, 13]\<rparr> (nvec_zero (2 ^ 2) 0) = Inr \<lparr>m_modulus = 17, m_data = d\<rparr> \<and>
    restores 17 (2 ^ 2) (wrap_conv 1 (2 ^ 2) (\<lambda>i. iu ([1, 2, 3, 4] ! i)) (\<lambda>i. iu ([0, 1, 0, 0] ! i))) d"
    by (rule iterative_convolution [OF _ _ b(1) _ b(2) _ b(3) _ t]) simp_all
  then obtain A B C d where f: "ForwardTransformIterative \<lparr>m_modulus = 17, m_data = [1, 2, 3, 4]\<rparr> \<lparr>m_modulus = 17, m_data = [1, 4]\<rparr> (nvec_zero 4 0) = Inr A"
    "ForwardTransformIterative \<lparr>m_modulus = 17, m_data = [0, 1, 0, 0]\<rparr> \<lparr>m_modulus = 17, m_data = [1, 4]\<rparr> (nvec_zero 4 0) = Inr B"
    "vModMul A B = Inr C" "InverseTransformIterative C \<lparr>m_modulus = 17, m_data = [1, 13]\<rparr> (nvec_zero 4 0) = Inr \<lparr>m_modulus = 17, m_data = d\<rparr>"
    and r: "restores 17 (2 ^ 2) (wrap_conv 1 (2 ^ 2) (\<lambda>i. iu ([1, 2, 3, 4] ! i)) (\<lambda>i. iu ([0, 1, 0, 0] ! i))) d" by auto
  have "iu (d ! 0) mod iu 17 = wrap_conv 1 (2 ^ 2) (\<lambda>i. iu ([1, 2, 3, 4] ! i)) (\<lambda>i. iu ([0, 1, 0, 0] ! i)) 0 mod iu 17"
    using r unfolding restores_def by simp
  also have "\<dots> = 4" by (simp add: wrap_conv_def lessThan_nat_numeral lessThan_Suc)
  finally have "int (unat (d ! 0) mod 17) = 4" by (simp add: of_nat_mod del: int_nat_eq unsigned_of_nat)
  then show ?thesis using f by auto
qed

text \<open>
  C26. Bluestein's transform: from tables not yet filled for the two roots, the code fills them and
  returns, for a vector of any length \<open>c\<close> up to \<open>2 ^ 16\<close>, the values of its polynomial at the powers of
  \<open>r ^ 2\<close>, where \<open>r ^ (2 c) = 1\<close>. The convolution runs through the iterative power-of-two transform
  modulo a second modulus \<open>p\<close> of at least \<open>c q ^ 2\<close>, so that nothing wraps there.
\<close>

theorem bluestein_transform:
  assumes "bluestein_params c q r p w" "fresh_tables (st :: arb) (q, r) (p, w)"
    and "m_modulus a = q" "length (m_data a) = c" "reduced q (m_data a)"
  shows "\<exists>st' d. fill_tables (of_nat c) (q, r) (p, w) st = Inr st' \<and>
    BFT_ForwardTransform_root a r (of_nat c) (p, w) st' = Inr \<lparr>m_modulus = q, m_data = d\<rparr> \<and> length d = c \<and> reduced q d \<and>
    (\<forall>k<c. iu (d ! k) = (\<Sum>j<c. coeffs a j * iu r ^ (2 * j * k)) mod iu q)"
  by (rule fill_tables_fresh [OF assms])

lemma bluestein_17: "bluestein_params 3 19 7 1097 79"
proof -
  have "ceil_log2 (2 * 3 - 1) = 3" using bit_len_power2 [of 2] by (simp add: ceil_log2_def)
  then show ?thesis by (simp add: bluestein_params_def barrett_modulus_def)
qed

theorem bluestein_transform_witness:
  "\<exists>st' d. fill_tables 3 (19, 7) (1097, 79) arb_init = Inr st' \<and>
    BFT_ForwardTransform_root \<lparr>m_modulus = 19, m_data = [1, 2, 3]\<rparr> 7 3 (1097, 79) st' = Inr \<lparr>m_modulus = 19, m_data = d\<rparr> \<and>
    length d = 3 \<and> iu (d ! 1) = (1 + 2 * 7 ^ 2 + 3 * 7 ^ 4) mod 19"
proof -
  have "fresh_tables arb_init (19, 7) (1097, 79)" by (simp add: fresh_tables_def arb_init_def)
  then have "\<exists>st' d. fill_tables (of_nat 3) (19, 7) (1097, 79) arb_init = Inr st' \<and>
    BFT_ForwardTransform_root \<lparr>m_modulus = 19, m_data = [1, 2, 3]\<rparr> 7 (of_nat 3) (1097, 79) st' = Inr \<lparr>m_modulus = 19, m_data = d\<rparr> \<and>
    length d = 3 \<and> reduced 19 d \<and>
    (\<forall>k<3. iu (d ! k) = (\<Sum>j<3. coeffs \<lparr>m_modulus = 19, m_data = [1, 2, 3]\<rparr> j * iu 7 ^ (2 * j * k)) mod iu 19)"
    by (intro bluestein_transform bluestein_17) (simp_all add: reduced_def)
  then show ?thesis by (auto simp: lessThan_nat_numeral lessThan_Suc)
qed

end
