(* ===== verification/PolySem.thy ===== *)
theory PolySem
  imports PolyRing Chirp
begin

text \<open>
  What an object of \<open>PolyImpl\<close> stands for: an element of \<open>Z_q[X] / (X ^ n + 1)\<close> given by its
  coefficients or by its values at the odd powers of the root of unity, and the effect of each
  operation of \<open>PolyRing\<close> on that element.
\<close>

section \<open>The ring\<close>

text \<open>
  The ring behind the class: residues modulo \<open>X ^ n + 1\<close>, \<open>n = 2 ^ L\<close>, and modulo \<open>q\<close>, as integer
  sequences up to congruence. In coefficient format entry \<open>i\<close> of the vector is coefficient \<open>i\<close>, in
  evaluation format the value at an odd power of the root of unity, in bit-reversed order.
\<close>

definition ring_ok :: "elem_params \<Rightarrow> nat \<Rightarrow> bool" where
  "ring_ok P L \<longleftrightarrow> ntt_params (m_ciphertextModulus P) (m_rootOfUnity P) (m_cyclotomicOrder P) L \<and>
     unat (m_ringDimension P) = 2 ^ L"

definition slot :: "elem_params \<Rightarrow> nat \<Rightarrow> Format \<Rightarrow> (nat \<Rightarrow> int) \<Rightarrow> nat \<Rightarrow> int" where
  "slot P L fmt a i =
     (case fmt of COEFFICIENT \<Rightarrow> a i | EVALUATION \<Rightarrow> peval (2 ^ L) a (iu (m_rootOfUnity P) ^ (1 + 2 * brv L i)))"

definition represents :: "elem_params \<Rightarrow> nat \<Rightarrow> (nat \<Rightarrow> int) \<Rightarrow> poly \<Rightarrow> bool" where
  "represents P L a p \<longleftrightarrow> m_params p = Some P \<and>
     (\<exists>d. m_values p = Some \<lparr>m_modulus = m_ciphertextModulus P, m_data = d\<rparr> \<and>
       restores (m_ciphertextModulus P) (2 ^ L) (slot P L (m_format p) a) d)"

text \<open>The type invariant: parameters of the ring, and a reduced vector of the right length.\<close>

definition poly_ok :: "elem_params \<Rightarrow> nat \<Rightarrow> poly \<Rightarrow> bool" where
  "poly_ok P L p \<longleftrightarrow> m_params p = Some P \<and> (\<exists>v. m_values p = Some v \<and> ntt_vec (m_ciphertextModulus P) L v)"

section \<open>Facts\<close>

lemma ring_okD:
  assumes "ring_ok P L"
  shows "barrett_modulus (m_ciphertextModulus P)" "odd (unat (m_ciphertextModulus P))" "0 < L" "L \<le> 24"
    "unat (m_cyclotomicOrder P) = 2 ^ Suc L" "unat (m_ringDimension P) = 2 ^ L" "0 < unat (m_ciphertextModulus P)"
    "m_ringDimension P = drop_bit 1 (m_cyclotomicOrder P)" "m_rootOfUnity P \<noteq> 0" "unat (m_ciphertextModulus P) \<le> 2 ^ 63"
    "iu (m_rootOfUnity P) ^ (2 ^ L) mod iu (m_ciphertextModulus P) = (- 1) mod iu (m_ciphertextModulus P)"
proof -
  note p = assms [unfolded ring_ok_def]
  show b: "barrett_modulus (m_ciphertextModulus P)" "odd (unat (m_ciphertextModulus P))" "0 < L" "L \<le> 24"
    "unat (m_cyclotomicOrder P) = 2 ^ Suc L" "unat (m_ringDimension P) = 2 ^ L"
    "iu (m_rootOfUnity P) ^ (2 ^ L) mod iu (m_ciphertextModulus P) = (- 1) mod iu (m_ciphertextModulus P)"
    using p by (auto simp: ntt_params_def)
  show "0 < unat (m_ciphertextModulus P)" "unat (m_ciphertextModulus P) \<le> 2 ^ 63" using b(1) by (auto simp: barrett_modulus_def)
  show "m_ringDimension P = drop_bit 1 (m_cyclotomicOrder P)"
    using ntt_paramsD(1) [of "m_ciphertextModulus P" "m_rootOfUnity P" "m_cyclotomicOrder P" L] p
    by (simp add: word_unat_eq_iff)
  show "m_rootOfUnity P \<noteq> 0"
  proof
    assume "m_rootOfUnity P = 0"
    then have "(- 1) mod iu (m_ciphertextModulus P) = 0" using b(7) by (simp add: power_0_left)
    then have "int (unat (m_ciphertextModulus P)) dvd 1" using dvd_minus_iff by (metis mod_0_imp_dvd)
    then have "int (unat (m_ciphertextModulus P)) \<le> 1" by (rule zdvd_imp_le) simp
    moreover have "4 \<le> unat (m_ciphertextModulus P)" using b(1) by (simp add: barrett_modulus_def)
    ultimately show False by linarith
  qed
qed

lemma restoresD:
  "restores m n f d \<Longrightarrow> length d = n" "restores m n f d \<Longrightarrow> i < n \<Longrightarrow> unat (d ! i) < unat m"
  "restores m n f d \<Longrightarrow> i < n \<Longrightarrow> iu (d ! i) mod iu m = f i mod iu m" "restores m n f d \<Longrightarrow> reduced m d"
  by (auto simp: restores_def intro: reducedI)

lemma restores_cong:
  "restores m n f d \<Longrightarrow> (\<And>i. i < n \<Longrightarrow> f i mod iu m = g i mod iu m) \<Longrightarrow> restores m n g d"
  by (auto simp: restores_def)

lemma restores_own: "reduced m d \<Longrightarrow> length d = n \<Longrightarrow> restores m n (\<lambda>i. iu (d ! i)) d"
  using reduced_nth by (auto simp: restores_def)

lemma ntt_values_restores:
  "ntt_values m L psi a d \<longleftrightarrow> restores m (2 ^ L) (\<lambda>i. peval (2 ^ L) a (psi ^ (1 + 2 * brv L i))) d"
  by (simp add: ntt_values_def restores_def)

text \<open>
  An entrywise operation on residues that stands for the operation \<open>h\<close> on integers: what it does to
  the entries of vectors that stand for integer sequences.
\<close>

locale ring_op = residue_op ok f g for ok f g +
  fixes h :: "int \<Rightarrow> int \<Rightarrow> int"
  assumes h: "y \<le> m \<Longrightarrow> int (g m x y) mod int m = h (int x) (int y) mod int m"
    and h_cong: "a mod q = a' mod q \<Longrightarrow> b mod q = b' mod q \<Longrightarrow> h a b mod q = h a' b' mod q"
begin

lemma entries:
  assumes m: "ok m" and x: "restores m n u xs" and y: "restores m n v ys"
  shows "restores m n (\<lambda>i. h (u i) (v i)) (map2 (f m) xs ys)"
  unfolding restores_def
proof (intro conjI allI impI)
  have len: "length xs = length ys" using restoresD(1) [OF x] restoresD(1) [OF y] by simp
  show "length (map2 (f m) xs ys) = n" using len restoresD(1) [OF x] by simp
  fix i assume i: "i < n"
  then have e: "map2 (f m) xs ys ! i = f m (xs ! i) (ys ! i)" using len restoresD(1) [OF x] by simp
  note b = restoresD(2) [OF x i] restoresD(2) [OF y i]
  show "unat (map2 (f m) xs ys ! i) < unat m" unfolding e by (rule less [OF m b])
  have "iu (map2 (f m) xs ys ! i) mod iu m = h (iu (xs ! i)) (iu (ys ! i)) mod iu m"
    unfolding e op [OF m b] by (simp only: of_nat_mod mod_mod_trivial h [OF less_imp_le [OF b(2)]])
  also have "\<dots> = h (u i) (v i) mod iu m" by (rule h_cong [OF restoresD(3) [OF x i] restoresD(3) [OF y i]])
  finally show "iu (map2 (f m) xs ys ! i) mod iu m = h (u i) (v i) mod iu m" .
qed

lemma scalar_entries:
  assumes m: "ok m" and x: "restores m n u xs" and y: "unat y < unat m"
  shows "restores m n (\<lambda>i. h (u i) (iu y)) (map (\<lambda>x. f m x y) xs)"
proof -
  have "restores m n (\<lambda>i. iu y) (replicate n y)" using y by (simp add: restores_def)
  from entries [OF m x this] have "restores m n (\<lambda>i. h (u i) (iu y)) (map2 (f m) xs (replicate n y))" .
  moreover have "map2 (f m) xs (replicate n y) = map (\<lambda>x. f m x y) xs"
    using restoresD(1) [OF x] by (intro nth_equalityI) auto
  ultimately show ?thesis by simp
qed

end

interpretation add_ring: ring_op head_room "\<lambda>m x y. ModAddFast x y m" "\<lambda>m a b. a + b" "\<lambda>a b. a + b"
  by unfold_locales (auto intro: mod_add_cong)

lemma int_mod_sub: "y \<le> m \<Longrightarrow> int (x + (m - y)) mod int m = (int x - int y) mod int m"
  using mod_add_self2 [of "int x - int y" "int m"] by (simp add: of_nat_diff algebra_simps)

interpretation sub_ring: ring_op head_room "\<lambda>m x y. ModSubFast x y m" "\<lambda>m a b. a + (m - b)" "\<lambda>a b. a - b"
  by unfold_locales (auto intro: mod_diff_cong int_mod_sub)

interpretation mul_ring: ring_op barrett_modulus "\<lambda>m x y. ModMulFast_mu x y m (mu_of m)" "\<lambda>m a b. a * b" "\<lambda>a b. a * b"
  by unfold_locales (auto intro: mod_mult_cong)

interpretation cmul_ring: ring_op head_room "\<lambda>m x y. ModMulFastConst x y m (shoup_of y m)" "\<lambda>m a b. a * b" "\<lambda>a b. a * b"
  by unfold_locales (auto intro: mod_mult_cong)

abbreviation vec :: "u64 \<Rightarrow> u64 list \<Rightarrow> nvec" where
  "vec m d \<equiv> \<lparr>m_modulus = m, m_data = d\<rparr>"

lemma restores_vec_ops:
  assumes m: "barrett_modulus m" and x: "restores m n u xs" and y: "restores m n v ys"
  shows "\<exists>d. vModAdd (vec m xs) (vec m ys) = Inr (vec m d) \<and> vModAddNoCheckEq (vec m xs) (vec m ys) = Inr (vec m d) \<and>
      restores m n (\<lambda>i. u i + v i) d"
    "\<exists>d. vModSub (vec m xs) (vec m ys) = Inr (vec m d) \<and> restores m n (\<lambda>i. u i - v i) d"
    "\<exists>d. vModMul (vec m xs) (vec m ys) = Inr (vec m d) \<and> vModMulNoCheckEq (vec m xs) (vec m ys) = Inr (vec m d) \<and>
      restores m n (\<lambda>i. u i * v i) d"
proof -
  have s: "same_params (vec m xs) (vec m ys)" using restoresD(1) [OF x] restoresD(1) [OF y] by (simp add: same_params_def)
  note h = barrett_head_room [OF m]
  show "\<exists>d. vModAdd (vec m xs) (vec m ys) = Inr (vec m d) \<and> vModAddNoCheckEq (vec m xs) (vec m ys) = Inr (vec m d) \<and>
      restores m n (\<lambda>i. u i + v i) d"
    using add_ring.entries [OF h x y] vec_binop_eqs(1) [OF s] vec_binop_variants(4) [OF s] by (simp add: vec_map2_def)
  show "\<exists>d. vModSub (vec m xs) (vec m ys) = Inr (vec m d) \<and> restores m n (\<lambda>i. u i - v i) d"
    using sub_ring.entries [OF h x y] vec_binop_eqs(2) [OF s] by (simp add: vec_map2_def)
  show "\<exists>d. vModMul (vec m xs) (vec m ys) = Inr (vec m d) \<and> vModMulNoCheckEq (vec m xs) (vec m ys) = Inr (vec m d) \<and>
      restores m n (\<lambda>i. u i * v i) d"
    using mul_ring.entries [OF m x y] vec_binop_eqs(3) [OF s] vec_binop_variants(5) [OF s] m by (simp add: vec_map2_def)
qed

subsection \<open>What an entry stands for is a ring homomorphism\<close>

lemma peval_add: "peval n (\<lambda>i. a i + b i) x = peval n a x + peval n b x"
  by (simp add: peval_def sum.distrib algebra_simps)

lemma peval_diff: "peval n (\<lambda>i. a i - b i) x = peval n a x - peval n b x"
  by (simp add: peval_def sum_subtractf algebra_simps)

lemma peval_scale: "peval n (\<lambda>i. a i * c) x = peval n a x * c"
  by (simp add: peval_def sum_distrib_right sum_distrib_left mult_ac)

lemma slot_hom:
  "slot P L fmt (\<lambda>i. a i + b i) i = slot P L fmt a i + slot P L fmt b i"
  "slot P L fmt (\<lambda>i. a i - b i) i = slot P L fmt a i - slot P L fmt b i"
  "slot P L fmt (\<lambda>i. a i * c) i = slot P L fmt a i * c"
  by (cases fmt; simp add: slot_def peval_add peval_diff peval_scale)+

lemma slot_mult:
  assumes "ring_ok P L"
  shows "slot P L EVALUATION (negacyclic (2 ^ L) a b) i mod iu (m_ciphertextModulus P) =
    (slot P L EVALUATION a i * slot P L EVALUATION b i) mod iu (m_ciphertextModulus P)"
  unfolding slot_def Format.case
proof (rule negacyclic_eval)
  let ?r = "iu (m_rootOfUnity P)" and ?m = "iu (m_ciphertextModulus P)"
  have "(?r ^ (1 + 2 * brv L i)) ^ 2 ^ L = (?r ^ 2 ^ L) ^ (1 + 2 * brv L i)" by (simp only: power_mult [symmetric] mult.commute)
  moreover have "(?r ^ 2 ^ L) ^ (1 + 2 * brv L i) mod ?m = (- 1) ^ (1 + 2 * brv L i) mod ?m"
    by (rule power_mod_cong [OF ring_okD(11) [OF assms]])
  ultimately show "(?r ^ (1 + 2 * brv L i)) ^ 2 ^ L mod ?m = (- 1) mod ?m" by simp
qed

lemma slot_cong:
  assumes "\<And>i. i < 2 ^ L \<Longrightarrow> a i mod q = b i mod q" "i < 2 ^ L"
  shows "slot P L fmt a i mod q = slot P L fmt b i mod q"
  using assms by (cases fmt) (auto simp: slot_def intro: peval_mod_cong)

lemma represents_cong:
  assumes "represents P L a p" "\<And>i. i < 2 ^ L \<Longrightarrow> a i mod iu (m_ciphertextModulus P) = b i mod iu (m_ciphertextModulus P)"
  shows "represents P L b p"
  using assms slot_cong [of L a _ b] unfolding represents_def by (blast intro: restores_cong)

lemma representsE:
  assumes "represents P L a p"
  obtains d where "p = \<lparr>m_format = m_format p, m_params = Some P, m_values = Some (vec (m_ciphertextModulus P) d)\<rparr>"
    "restores (m_ciphertextModulus P) (2 ^ L) (slot P L (m_format p) a) d"
  using assms unfolding represents_def by (cases p) auto

lemma representsI:
  assumes "restores (m_ciphertextModulus P) (2 ^ L) (slot P L fmt a) d"
  shows "represents P L a \<lparr>m_format = fmt, m_params = Some P, m_values = Some (vec (m_ciphertextModulus P) d)\<rparr>"
  using assms by (auto simp: represents_def)

lemma represents_ok:
  assumes "ring_ok P L" "represents P L a p"
  shows "poly_ok P L p"
  using assms(2) restoresD(1,4) barrett_head_room [OF ring_okD(1) [OF assms(1)]]
  unfolding represents_def poly_ok_def ntt_vec_def nv_ok_def by fastforce

text \<open>In coefficient format the vector is the sequence, reduced.\<close>

lemma represents_coefficients:
  assumes "represents P L a p" "m_format p = COEFFICIENT" "m_values p = Some v" "i < 2 ^ L"
  shows "iu (m_data v ! i) = a i mod iu (m_ciphertextModulus P)"
proof -
  obtain d where d: "v = vec (m_ciphertextModulus P) d" "restores (m_ciphertextModulus P) (2 ^ L) (slot P L COEFFICIENT a) d"
    using assms unfolding represents_def by auto
  have "iu (d ! i) mod iu (m_ciphertextModulus P) = iu (d ! i)"
    using restoresD(2) [OF d(2) assms(4)] by (intro mod_pos_pos_trivial) (simp_all only: of_nat_0_le_iff of_nat_less_iff)
  then show ?thesis using restoresD(3) [OF d(2) assms(4)] d(1) by (simp add: slot_def)
qed

subsection \<open>Sums, differences, products\<close>

lemma Poly_SetValues_ok:
  assumes "ring_ok P L" "length d = 2 ^ L" "m_params p = Some P"
  shows "Poly_SetValues (vec (m_ciphertextModulus P) d) fmt p =
    Inr \<lparr>m_format = fmt, m_params = Some P, m_values = Some (vec (m_ciphertextModulus P) d)\<rparr>"
  using assms ring_okD(6,9) [OF assms(1)] by (cases p) (simp add: Poly_SetValues_def deref_def GetLength_def)

lemma zero_represents:
  assumes "ring_ok P L"
  shows "\<exists>z. PolyImpl (Some P) fmt True = Inr z \<and> m_format z = fmt \<and> represents P L (\<lambda>i. 0) z"
proof -
  have "restores (m_ciphertextModulus P) (2 ^ L) (slot P L fmt (\<lambda>i. 0)) (replicate (2 ^ L) 0)"
    using ring_okD(7) [OF assms] by (cases fmt) (auto simp: restores_def slot_def peval_def)
  then show ?thesis
    using representsI [of P L fmt "\<lambda>i. 0"] ring_okD(6) [OF assms]
    by (simp add: PolyImpl_def SetValuesToZero_def deref_def nvec_zero_def)
qed

lemma Poly_Plus_represents:
  assumes r: "ring_ok P L" and p: "represents P L a p" and q: "represents P L b q" and f: "m_format p = m_format q"
  shows "\<exists>s. Poly_Plus p q = Inr s \<and> Poly_PlusEq p q = Inr s \<and> Poly_PlusNoCheck p q = Inr s \<and> m_format s = m_format p \<and>
    represents P L (\<lambda>i. a i + b i) s"
proof -
  obtain x where x: "p = \<lparr>m_format = m_format p, m_params = Some P, m_values = Some (vec (m_ciphertextModulus P) x)\<rparr>"
    "restores (m_ciphertextModulus P) (2 ^ L) (slot P L (m_format p) a) x" by (rule representsE [OF p])
  obtain y where y: "q = \<lparr>m_format = m_format q, m_params = Some P, m_values = Some (vec (m_ciphertextModulus P) y)\<rparr>"
    "restores (m_ciphertextModulus P) (2 ^ L) (slot P L (m_format q) b) y" by (rule representsE [OF q])
  obtain d where d: "vModAdd (vec (m_ciphertextModulus P) x) (vec (m_ciphertextModulus P) y) = Inr (vec (m_ciphertextModulus P) d)"
    "vModAddNoCheckEq (vec (m_ciphertextModulus P) x) (vec (m_ciphertextModulus P) y) = Inr (vec (m_ciphertextModulus P) d)"
    "restores (m_ciphertextModulus P) (2 ^ L) (slot P L (m_format p) (\<lambda>i. a i + b i)) d"
    using restores_vec_ops(1) [OF ring_okD(1) [OF r] x(2) y(2) [folded f]] by (auto simp: slot_hom(1) [abs_def])
  define s where "s = \<lparr>m_format = m_format p, m_params = Some P, m_values = Some (vec (m_ciphertextModulus P) d)\<rparr>"
  have "Poly_Plus p q = Inr s" "Poly_PlusEq p q = Inr s" "Poly_PlusNoCheck p q = Inr s"
    using d(1,2) f unfolding s_def
    by (subst x(1), subst y(1), simp add: Poly_Plus_def Poly_PlusEq_def Poly_PlusNoCheck_def params_mismatch_def update_values_def
        deref_def vec_binop_variants(1))+
  then show ?thesis using representsI [OF d(3)] by (auto simp: s_def)
qed

text \<open>The two vectors of a binary operation.\<close>

lemma represents_pairE:
  assumes "represents P L a p" "represents P L b q"
  obtains x y where "p = \<lparr>m_format = m_format p, m_params = Some P, m_values = Some (vec (m_ciphertextModulus P) x)\<rparr>"
    "q = \<lparr>m_format = m_format q, m_params = Some P, m_values = Some (vec (m_ciphertextModulus P) y)\<rparr>"
    "restores (m_ciphertextModulus P) (2 ^ L) (slot P L (m_format p) a) x"
    "restores (m_ciphertextModulus P) (2 ^ L) (slot P L (m_format q) b) y"
  using assms by (metis representsE)

lemma Poly_Minus_represents:
  assumes r: "ring_ok P L" and p: "represents P L a p" and q: "represents P L b q" and f: "m_format p = m_format q"
  shows "\<exists>s. Poly_Minus p q = Inr s \<and> Poly_MinusEq p q = Inr s \<and> m_format s = m_format p \<and> represents P L (\<lambda>i. a i - b i) s"
proof -
  obtain x y where x: "p = \<lparr>m_format = m_format p, m_params = Some P, m_values = Some (vec (m_ciphertextModulus P) x)\<rparr>"
    and y: "q = \<lparr>m_format = m_format q, m_params = Some P, m_values = Some (vec (m_ciphertextModulus P) y)\<rparr>"
    and xy: "restores (m_ciphertextModulus P) (2 ^ L) (slot P L (m_format p) a) x"
      "restores (m_ciphertextModulus P) (2 ^ L) (slot P L (m_format q) b) y" by (rule represents_pairE [OF p q])
  obtain d where d: "vModSub (vec (m_ciphertextModulus P) x) (vec (m_ciphertextModulus P) y) = Inr (vec (m_ciphertextModulus P) d)"
    "restores (m_ciphertextModulus P) (2 ^ L) (slot P L (m_format p) (\<lambda>i. a i - b i)) d"
    using restores_vec_ops(2) [OF ring_okD(1) [OF r] xy(1) xy(2) [folded f]] by (auto simp: slot_hom(2) [abs_def])
  define s where "s = \<lparr>m_format = m_format p, m_params = Some P, m_values = Some (vec (m_ciphertextModulus P) d)\<rparr>"
  have "Poly_Minus p q = Inr s" "Poly_MinusEq p q = Inr s"
    using d(1) f Poly_SetValues_ok [OF r restoresD(1) [OF d(2)]] unfolding s_def
    by (subst x, subst y, simp add: Poly_Minus_def Poly_MinusEq_def with_values_def PolyImpl_def update_values_def
        deref_def vec_binop_variants(2))+
  then show ?thesis using representsI [OF d(2)] by (auto simp: s_def)
qed

lemma Poly_Negate_represents:
  assumes r: "ring_ok P L" and p: "represents P L a p"
  shows "\<exists>s. Poly_Negate p = Inr s \<and> Poly_uminus p = Inr s \<and> m_format s = m_format p \<and> represents P L (\<lambda>i. - a i) s"
proof -
  obtain z where z: "PolyImpl (Some P) (m_format p) True = Inr z" "m_format z = m_format p" "represents P L (\<lambda>i. 0) z"
    using zero_represents [OF r] by blast
  have "m_params p = Some P" using p by (simp add: represents_def)
  then show ?thesis using Poly_Minus_represents [OF r z(3) p z(2)] z(1,2) by (auto simp: Poly_Negate_def Poly_uminus_def)
qed

lemma Poly_Times_represents:
  assumes r: "ring_ok P L" and p: "represents P L a p" and q: "represents P L b q"
    and f: "m_format p = EVALUATION" "m_format q = EVALUATION"
  shows "\<exists>s. Poly_Times p q = Inr s \<and> Poly_TimesEq p q = Inr s \<and> Poly_TimesNoCheck p q = Inr s \<and>
    m_format s = EVALUATION \<and> represents P L (negacyclic (2 ^ L) a b) s"
proof -
  obtain x y where x: "p = \<lparr>m_format = m_format p, m_params = Some P, m_values = Some (vec (m_ciphertextModulus P) x)\<rparr>"
    and y: "q = \<lparr>m_format = m_format q, m_params = Some P, m_values = Some (vec (m_ciphertextModulus P) y)\<rparr>"
    and xy: "restores (m_ciphertextModulus P) (2 ^ L) (slot P L (m_format p) a) x"
      "restores (m_ciphertextModulus P) (2 ^ L) (slot P L (m_format q) b) y" by (rule represents_pairE [OF p q])
  obtain d where d: "vModMulNoCheckEq (vec (m_ciphertextModulus P) x) (vec (m_ciphertextModulus P) y) = Inr (vec (m_ciphertextModulus P) d)"
    "restores (m_ciphertextModulus P) (2 ^ L) (\<lambda>i. slot P L EVALUATION a i * slot P L EVALUATION b i) d"
    using restores_vec_ops(3) [OF ring_okD(1) [OF r] xy] f by auto
  have d': "restores (m_ciphertextModulus P) (2 ^ L) (slot P L EVALUATION (negacyclic (2 ^ L) a b)) d"
    by (rule restores_cong [OF d(2)]) (rule slot_mult [OF r, symmetric])
  define s where "s = \<lparr>m_format = EVALUATION, m_params = Some P, m_values = Some (vec (m_ciphertextModulus P) d)\<rparr>"
  have "Poly_Times p q = Inr s" "Poly_TimesEq p q = Inr s" "Poly_TimesNoCheck p q = Inr s"
    using d(1) f unfolding s_def
    by (subst x, subst y, simp add: Poly_Times_def Poly_TimesEq_def Poly_TimesNoCheck_def params_mismatch_def update_values_def deref_def)+
  then show ?thesis using representsI [OF d'] by (auto simp: s_def)
qed

subsection \<open>Scalars\<close>

lemma restores_scalar_ops:
  assumes m: "barrett_modulus m" and x: "restores m n u xs"
  shows "\<exists>d. vModAdd_s (vec m xs) c = vec m d \<and> restores m n (\<lambda>i. u i + iu c) d"
    "\<exists>d. vModSub_s (vec m xs) c = vec m d \<and> restores m n (\<lambda>i. u i - iu c) d"
    "\<exists>d. vModMul_s (vec m xs) c = Inr (vec m d) \<and> restores m n (\<lambda>i. u i * iu c) d"
proof -
  have pos: "0 < unat m" using m by (simp add: barrett_modulus_def)
  define y where "y = reduce_arg c m"
  have uy: "unat y = unat c mod unat m" unfolding y_def by (rule unat_reduce_arg [OF pos])
  then have y: "unat y < unat m" using pos by simp
  have yc: "iu y mod iu m = iu c mod iu m" unfolding uy by (simp only: of_nat_mod mod_mod_trivial)
  have pos': "0 < unat (m_modulus (vec m xs))" using pos by simp
  note h = barrett_head_room [OF m] and e = vec_scalar_eqs [OF pos', of c, unfolded vec_map_def, simplified, folded y_def]
  show "\<exists>d. vModAdd_s (vec m xs) c = vec m d \<and> restores m n (\<lambda>i. u i + iu c) d"
    by (intro exI conjI, rule e(1), rule restores_cong [OF add_ring.scalar_entries [OF h x y]], intro mod_add_cong refl yc)
  show "\<exists>d. vModSub_s (vec m xs) c = vec m d \<and> restores m n (\<lambda>i. u i - iu c) d"
    by (intro exI conjI, rule e(2), rule restores_cong [OF sub_ring.scalar_entries [OF h x y]], intro mod_diff_cong refl yc)
  show "\<exists>d. vModMul_s (vec m xs) c = Inr (vec m d) \<and> restores m n (\<lambda>i. u i * iu c) d"
    by (intro exI conjI, rule e(3), rule restores_cong [OF cmul_ring.scalar_entries [OF h x y]], intro mod_mult_cong refl yc)
qed

definition const_poly :: "int \<Rightarrow> nat \<Rightarrow> int" where
  "const_poly c i = (if i = 0 then c else 0)"

lemma peval_const: "0 < n \<Longrightarrow> peval n (const_poly c) x = c"
proof -
  assume "0 < n"
  then have "(\<Sum>k<n. const_poly c k * x ^ k) = (\<Sum>k\<in>{0}. const_poly c k * x ^ k)"
    by (intro sum.mono_neutral_right) (auto simp: const_poly_def)
  then show ?thesis by (simp add: peval_def const_poly_def)
qed

lemma slot_coeff: "slot P L COEFFICIENT a i = a i"
  by (simp add: slot_def)

lemma slot_const: "slot P L EVALUATION (const_poly c) i = c" "slot P L COEFFICIENT (const_poly c) i = const_poly c i"
  by (simp_all add: slot_def peval_const)

text \<open>\<open>with_values\<close> with an entrywise operation.\<close>

lemma with_values_represents:
  assumes r: "ring_ok P L" and p: "represents P L a p"
    and f: "\<And>d. restores (m_ciphertextModulus P) (2 ^ L) (slot P L (m_format p) a) d \<Longrightarrow>
      \<exists>e. f (vec (m_ciphertextModulus P) d) = Inr (vec (m_ciphertextModulus P) e) \<and>
        restores (m_ciphertextModulus P) (2 ^ L) (slot P L (m_format p) b) e"
  shows "\<exists>s. with_values p f = Inr s \<and> m_format s = m_format p \<and> represents P L b s"
proof -
  obtain x where x: "p = \<lparr>m_format = m_format p, m_params = Some P, m_values = Some (vec (m_ciphertextModulus P) x)\<rparr>"
    "restores (m_ciphertextModulus P) (2 ^ L) (slot P L (m_format p) a) x" by (rule representsE [OF p])
  obtain e where e: "f (vec (m_ciphertextModulus P) x) = Inr (vec (m_ciphertextModulus P) e)"
    "restores (m_ciphertextModulus P) (2 ^ L) (slot P L (m_format p) b) e" using f [OF x(2)] by blast
  have "with_values p f = Inr \<lparr>m_format = m_format p, m_params = Some P, m_values = Some (vec (m_ciphertextModulus P) e)\<rparr>"
    using e(1) Poly_SetValues_ok [OF r restoresD(1) [OF e(2)]]
    by (subst x(1)) (simp add: with_values_def PolyImpl_def deref_def)
  then show ?thesis using representsI [OF e(2)] by auto
qed

lemma Poly_Times_s_represents:
  assumes r: "ring_ok P L" and p: "represents P L a p"
  shows "\<exists>s. Poly_Times_s p c = Inr s \<and> Poly_TimesEq_s p c = Inr s \<and> m_format s = m_format p \<and> represents P L (\<lambda>i. a i * iu c) s"
proof -
  obtain x where x: "p = \<lparr>m_format = m_format p, m_params = Some P, m_values = Some (vec (m_ciphertextModulus P) x)\<rparr>"
    "restores (m_ciphertextModulus P) (2 ^ L) (slot P L (m_format p) a) x" by (rule representsE [OF p])
  obtain d where d: "vModMul_s (vec (m_ciphertextModulus P) x) c = Inr (vec (m_ciphertextModulus P) d)"
    "restores (m_ciphertextModulus P) (2 ^ L) (slot P L (m_format p) (\<lambda>i. a i * iu c)) d"
    using restores_scalar_ops(3) [OF ring_okD(1) [OF r] x(2)] unfolding slot_hom(3) [abs_def] by blast
  define s where "s = \<lparr>m_format = m_format p, m_params = Some P, m_values = Some (vec (m_ciphertextModulus P) d)\<rparr>"
  have "Poly_Times_s p c = Inr s" "Poly_TimesEq_s p c = Inr s"
    using d(1) Poly_SetValues_ok [OF r restoresD(1) [OF d(2)]] unfolding s_def
    by (subst x(1), simp add: Poly_Times_s_def Poly_TimesEq_s_def with_values_def PolyImpl_def deref_def vec_scalar_variants(3))+
  then show ?thesis using representsI [OF d(2)] by (auto simp: s_def)
qed

lemma ModAddAtIndex_restores:
  assumes m: "barrett_modulus m" and x: "restores m n u xs" and i: "j < n"
  shows "\<exists>d. ModAddAtIndex (vec m xs) j c = Inr (vec m d) \<and> restores m n (\<lambda>i. u i + (if i = j then iu c else 0)) d"
proof -
  have pos: "0 < unat m" and m63: "unat m \<le> 2 ^ 63" using m by (auto simp: barrett_modulus_def)
  define y where "y = ModAddEq (xs ! j) c m"
  have y: "unat y = (unat (xs ! j) + unat c) mod unat m" unfolding y_def ModAddEq_eq by (rule ModAdd_correct [OF pos m63])
  have "iu y mod iu m = (iu (xs ! j) + iu c) mod iu m" unfolding y by (simp only: of_nat_mod of_nat_add mod_mod_trivial)
  also have "\<dots> = (u j + iu c) mod iu m" by (intro mod_add_cong refl restoresD(3) [OF x i])
  finally have yi: "iu y mod iu m = (u j + iu c) mod iu m" .
  have "restores m n (\<lambda>i. u i + (if i = j then iu c else 0)) (xs[j := y])"
    unfolding restores_def
  proof (intro conjI allI impI)
    show "length (xs[j := y]) = n" using restoresD(1) [OF x] by simp
    fix k assume k: "k < n"
    show "unat (xs[j := y] ! k) < unat m"
      using restoresD(2) [OF x k] restoresD(1) [OF x] k y pos by (cases "k = j") simp_all
    show "iu (xs[j := y] ! k) mod iu m = (u k + (if k = j then iu c else 0)) mod iu m"
    proof (cases "k = j")
      case True
      then show ?thesis using yi restoresD(1) [OF x] k by simp
    next
      case False
      then have "xs[j := y] ! k = xs ! k" by simp
      then show ?thesis using restoresD(3) [OF x k] False by (simp only: if_False add_0_right)
    qed
  qed
  moreover have "ModAddAtIndex (vec m xs) j c = Inr (vec m (xs[j := y]))"
    using restoresD(1) [OF x] i by (simp add: ModAddAtIndex_def NatVec.at_def IndexCheck_def GetLength_def y_def)
  ultimately show ?thesis by blast
qed

text \<open>Adding a scalar adds the constant polynomial in both formats.\<close>

lemma Poly_Plus_s_represents:
  assumes r: "ring_ok P L" and p: "represents P L a p"
  shows "\<exists>s. Poly_Plus_s p c = Inr s \<and> Poly_PlusEq_s p c = Inr s \<and> m_format s = m_format p \<and>
    represents P L (\<lambda>i. a i + const_poly (iu c) i) s"
proof -
  let ?m = "m_ciphertextModulus P"
  have "\<exists>s. Poly_Plus_s p c = Inr s \<and> m_format s = m_format p \<and> represents P L (\<lambda>i. a i + const_poly (iu c) i) s"
  proof (cases "m_format p")
    case COEFFICIENT
    have "\<exists>e. ModAddAtIndex (vec ?m d) 0 c = Inr (vec ?m e) \<and>
        restores ?m (2 ^ L) (slot P L (m_format p) (\<lambda>i. a i + const_poly (iu c) i)) e"
      if "restores ?m (2 ^ L) (slot P L (m_format p) a) d" for d
      using ModAddAtIndex_restores [OF ring_okD(1) [OF r] that, of 0 c]
      unfolding slot_hom(1) COEFFICIENT slot_coeff const_poly_def by simp
    from with_values_represents [where f = "\<lambda>v. ModAddAtIndex v 0 c", OF r p this] show ?thesis
      by (simp add: Poly_Plus_s_def COEFFICIENT)
  next
    case EVALUATION
    have "\<exists>e. Inr (vModAdd_s (vec ?m d) c) = Inr (vec ?m e) \<and>
        restores ?m (2 ^ L) (slot P L (m_format p) (\<lambda>i. a i + const_poly (iu c) i)) e"
      if "restores ?m (2 ^ L) (slot P L (m_format p) a) d" for d
      using restores_scalar_ops(1) [OF ring_okD(1) [OF r] that, of c]
      by (simp only: slot_hom(1) [abs_def] EVALUATION slot_const) auto
    from with_values_represents [where f = "\<lambda>v. Inr (vModAdd_s v c)", OF r p this] show ?thesis
      by (simp add: Poly_Plus_s_def EVALUATION)
  qed
  then obtain s where s: "Poly_Plus_s p c = Inr s" "m_format s = m_format p" "represents P L (\<lambda>i. a i + const_poly (iu c) i) s"
    by blast
  have "Poly_assign p s = s"
    using p s(3) unfolding represents_def by (cases p; cases s) (auto simp: Poly_assign_def assign_vec_def restoresD(1) Let_def)
  then show ?thesis using s by (auto simp: Poly_PlusEq_s_def)
qed

text \<open>
  Subtracting a scalar subtracts the constant polynomial in evaluation format; in coefficient format
  it subtracts the scalar from every coefficient.
\<close>

lemma Poly_Minus_s_represents:
  assumes r: "ring_ok P L" and p: "represents P L a p"
  shows "\<exists>s. Poly_Minus_s p c = Inr s \<and> Poly_MinusEq_s p c = Inr s \<and> m_format s = m_format p \<and>
    represents P L (\<lambda>i. a i - (if m_format p = EVALUATION then const_poly (iu c) i else iu c)) s"
proof -
  let ?m = "m_ciphertextModulus P" and ?b = "\<lambda>i. a i - (if m_format p = EVALUATION then const_poly (iu c) i else iu c)"
  obtain x where x: "p = \<lparr>m_format = m_format p, m_params = Some P, m_values = Some (vec ?m x)\<rparr>"
    "restores ?m (2 ^ L) (slot P L (m_format p) a) x" by (rule representsE [OF p])
  obtain d where d: "vModSub_s (vec ?m x) c = vec ?m d" "restores ?m (2 ^ L) (\<lambda>i. slot P L (m_format p) a i - iu c) d"
    using restores_scalar_ops(2) [OF ring_okD(1) [OF r] x(2)] by blast
  have "slot P L (m_format p) ?b = (\<lambda>i. slot P L (m_format p) a i - iu c)"
    by (cases "m_format p") (simp_all add: slot_hom(2) slot_const fun_eq_iff, simp add: slot_def)
  with d(2) have d': "restores ?m (2 ^ L) (slot P L (m_format p) ?b) d" by simp
  define s where "s = \<lparr>m_format = m_format p, m_params = Some P, m_values = Some (vec ?m d)\<rparr>"
  have "Poly_Minus_s p c = Inr s" "Poly_MinusEq_s p c = Inr s"
    using d(1) Poly_SetValues_ok [OF r restoresD(1) [OF d(2)]] unfolding s_def
    by (subst x(1), simp add: Poly_Minus_s_def Poly_MinusEq_s_def with_values_def PolyImpl_def deref_def vec_scalar_variants(2))+
  then show ?thesis using representsI [OF d'] by (auto simp: s_def)
qed

text \<open>A signed factor.\<close>

lemma Poly_Times_signed_represents:
  assumes r: "ring_ok P L" and p: "represents P L a p" and c: "- (2 ^ 63) < c" "c < 2 ^ 63"
  shows "\<exists>s. Poly_Times_signed p c = Inr s \<and> m_format s = m_format p \<and> represents P L (\<lambda>i. a i * c) s"
proof -
  let ?m = "m_ciphertextModulus P"
  have P: "m_params p = Some P" using p by (simp add: represents_def)
  have pos: "0 < unat ?m" using ring_okD(7) [OF r] .
  define red where "red = (\<lambda>w. if w > ?m then ModEq w ?m else w)"
  have red: "iu (red w) mod iu ?m = iu w mod iu ?m" "unat (red w) \<le> unat ?m" for w
  proof -
    have e: "unat (w mod ?m) = unat w mod unat ?m" by (rule unat_mod)
    then have "iu (w mod ?m) mod iu ?m = iu w mod iu ?m" by (simp only: of_nat_mod mod_mod_trivial)
    then show "iu (red w) mod iu ?m = iu w mod iu ?m" by (cases "w > ?m") (auto simp only: red_def ModEq_def if_True if_False)
    have "unat w mod unat ?m \<le> unat ?m" using pos by (simp add: less_imp_le)
    then show "unat (red w) \<le> unat ?m" unfolding red_def ModEq_def using e by (simp add: word_less_nat_alt not_less)
  qed
  have done': "\<exists>s. Poly_Times_signed p c = Inr s \<and> m_format s = m_format p \<and> represents P L (\<lambda>i. a i * c) s"
    if w: "Poly_Times_signed p c = Poly_Times_s p w" "iu w mod iu ?m = c mod iu ?m" for w
  proof -
    obtain s where s: "Poly_Times_s p w = Inr s" "m_format s = m_format p" "represents P L (\<lambda>i. a i * iu w) s"
      using Poly_Times_s_represents [OF r p] by blast
    have "represents P L (\<lambda>i. a i * c) s"
      by (rule represents_cong [OF s(3)]) (intro mod_mult_cong refl w(2))
    then show ?thesis using s w(1) by auto
  qed
  show ?thesis
  proof (cases "c < 0")
    case True
    then have "i64 (- c) = Inr (- c)" using c by (simp add: i64_def)
    then have e: "Poly_Times_signed p c = Poly_Times_s p (Sub ?m (red (word_of_int (- c))))"
      using True P by (simp add: Poly_Times_signed_def Poly_Times_s_def deref_def red_def Let_def)
    have u: "iu (word_of_int (- c)) = - c" using unat_word_of_int_64 [of "- c"] True c by simp
    have "unat (Sub ?m (red (word_of_int (- c)))) = unat ?m - unat (red (word_of_int (- c)))"
      using unat_sub_small [OF red(2)] by (simp add: Sub_def SubFast_def NATIVEINT_DO_CHECKS_def)
    then have "iu (Sub ?m (red (word_of_int (- c)))) = iu ?m - iu (red (word_of_int (- c)))"
      using red(2) by (simp only: of_nat_diff)
    moreover have "(iu ?m - iu (red (word_of_int (- c)))) mod iu ?m = (iu ?m - iu (word_of_int (- c))) mod iu ?m"
      by (intro mod_diff_cong refl red(1))
    moreover have "(iu ?m - (- c)) mod iu ?m = c mod iu ?m" using mod_add_self1 [of "iu ?m" c] by simp
    ultimately show ?thesis by (intro done' [OF e]) (simp only: u)
  next
    case False
    have e: "Poly_Times_signed p c = Poly_Times_s p (red (word_of_int c))"
      using False P by (simp add: Poly_Times_signed_def Poly_Times_s_def deref_def red_def Let_def)
    have u: "iu (word_of_int c) = c" using unat_word_of_int_64 [of c] False c by simp
    show ?thesis by (rule done' [OF e]) (simp only: red(1) u)
  qed
qed

subsection \<open>Change of format\<close>

abbreviation caches_ok :: "elem_params \<Rightarrow> nat \<Rightarrow> caches \<Rightarrow> bool" where
  "caches_ok P L cs \<equiv> cache_ok (m_ciphertextModulus P) L (m_rootOfUnity P) (fst cs)"

lemma SwitchFormat_represents:
  assumes r: "ring_ok P L" and p: "represents P L a p" and c: "caches_ok P L cs"
  obtains q cs' where "SwitchFormat draw p cs s = Some (Inr ((q, cs'), s))" "caches_ok P L cs'"
    "m_format q \<noteq> m_format p" "represents P L a q"
proof -
  let ?m = "m_ciphertextModulus P" and ?r = "m_rootOfUnity P"
  obtain f ar where cs: "cs = (f, ar)" by (cases cs)
  obtain x where x: "p = \<lparr>m_format = m_format p, m_params = Some P, m_values = Some (vec ?m x)\<rparr>"
    "restores ?m (2 ^ L) (slot P L (m_format p) a) x" by (rule representsE [OF p])
  have pr: "ntt_params ?m ?r (m_cyclotomicOrder P) L" and f: "cache_ok ?m L ?r f" using r c by (auto simp: ring_ok_def cs)
  have dim: "m_ringDimension P = drop_bit 1 (m_cyclotomicOrder P)" by (rule ring_okD(8) [OF r])
  show ?thesis
  proof (cases "m_format p")
    case COEFFICIENT
    have v: "ntt_vec ?m L (vec ?m x)"
      using restoresD(1,4) [OF x(2)] barrett_head_room [OF ring_okD(1) [OF r]] by (simp add: ntt_vec_def nv_ok_def)
    obtain f' d where d: "FTT_ForwardTransformToBitReverseInPlace ?r (m_cyclotomicOrder P) (vec ?m x) f = Inr (f', (vec ?m x)\<lparr>m_data := d\<rparr>)"
      "tables_ok ?m L (iu ?r) f'" "ntt_values ?m L (iu ?r) (coeffs (vec ?m x)) d"
      by (rule FTT_ForwardInPlace_values [OF pr v f])
    have "restores ?m (2 ^ L) (slot P L EVALUATION (coeffs (vec ?m x))) d"
      using d(3) by (simp only: ntt_values_restores slot_def [abs_def] Format.case)
    moreover have "coeffs (vec ?m x) i mod iu ?m = a i mod iu ?m" if "i < 2 ^ L" for i
      using restoresD(3) [OF x(2) that] unfolding COEFFICIENT slot_coeff by simp
    ultimately have q: "restores ?m (2 ^ L) (slot P L EVALUATION a) d" by (blast intro: restores_cong slot_cong)
    show ?thesis
    proof (rule that)
      show "SwitchFormat draw p cs s = Some (Inr ((\<lparr>m_format = EVALUATION, m_params = Some P, m_values = Some (vec ?m d)\<rparr>, (f', ar)), s))"
        using d(1) dim by (subst x(1)) (simp add: SwitchFormat_def deref_def cs COEFFICIENT Let_def)
    qed (use d(2) representsI [OF q] COEFFICIENT in \<open>simp_all add: cache_ok_def\<close>)
  next
    case EVALUATION
    have v: "ntt_values ?m L (iu ?r) a (m_data (vec ?m x))"
      using x(2) unfolding EVALUATION ntt_values_restores by (simp add: slot_def [abs_def])
    obtain f' d where d: "FTT_InverseTransformFromBitReverseInPlace ?r (m_cyclotomicOrder P) (vec ?m x) f = Inr (f', (vec ?m x)\<lparr>m_data := d\<rparr>)"
      "tables_ok ?m L (iu ?r) f'" "restores ?m (2 ^ L) a d"
      by (rule FTT_InverseInPlace_restores [OF pr _ v f]) simp
    have q: "restores ?m (2 ^ L) (slot P L COEFFICIENT a) d" using d(3) by (simp add: slot_def [abs_def])
    show ?thesis
    proof (rule that)
      show "SwitchFormat draw p cs s = Some (Inr ((\<lparr>m_format = COEFFICIENT, m_params = Some P, m_values = Some (vec ?m d)\<rparr>, (f', ar)), s))"
        using d(1) dim by (subst x(1)) (simp add: SwitchFormat_def deref_def cs EVALUATION Let_def)
    qed (use d(2) representsI [OF q] EVALUATION in \<open>simp_all add: cache_ok_def\<close>)
  qed
qed

lemma SetFormat_represents:
  assumes "ring_ok P L" "represents P L a p" "caches_ok P L cs"
  obtains q cs' where "SetFormat draw fmt p cs s = Some (Inr ((q, cs'), s))" "caches_ok P L cs'"
    "m_format q = fmt" "represents P L a q"
proof (cases "m_format p = fmt")
  case True
  then show ?thesis using that [of p cs] assms(2,3) by (simp add: SetFormat_def)
next
  case False
  obtain q cs' where q: "SwitchFormat draw p cs s = Some (Inr ((q, cs'), s))" "caches_ok P L cs'"
    "m_format q \<noteq> m_format p" "represents P L a q" by (rule SwitchFormat_represents [OF assms])
  moreover have "m_format q = fmt" using q(3) False by (cases fmt; cases "m_format p"; cases "m_format q") auto
  ultimately show ?thesis using that False by (simp add: SetFormat_def)
qed

text \<open>An element is determined by the sequence it stands for.\<close>

lemma represents_unique:
  assumes "represents P L a p" "represents P L a q" "m_format p = m_format q"
  shows "p = q"
proof -
  obtain x y where xy: "p = \<lparr>m_format = m_format p, m_params = Some P, m_values = Some (vec (m_ciphertextModulus P) x)\<rparr>"
    "q = \<lparr>m_format = m_format q, m_params = Some P, m_values = Some (vec (m_ciphertextModulus P) y)\<rparr>"
    "restores (m_ciphertextModulus P) (2 ^ L) (slot P L (m_format p) a) x"
    "restores (m_ciphertextModulus P) (2 ^ L) (slot P L (m_format q) a) y" by (rule represents_pairE [OF assms(1,2)])
  have "stage_rel (m_ciphertextModulus P) (2 ^ L) 1 (slot P L (m_format p) a) x"
    "stage_rel (m_ciphertextModulus P) (2 ^ L) 1 (slot P L (m_format p) a) y"
    using xy(3,4) assms(3) by (simp_all add: restores_def stage_rel_def)
  then have "x = y" by (rule stage_rel_unique)
  then show ?thesis using xy(1,2) assms(3) by simp
qed

text \<open>
  Every well-formed element stands for a sequence: its coefficients, or, as there are finitely many
  vectors and the transform is injective, the sequence whose values it holds.
\<close>

lemma coefficients_represented:
  assumes "poly_ok P L p" "m_format p = COEFFICIENT"
  shows "represents P L (\<lambda>i. iu (m_data (the (m_values p)) ! i)) p"
proof -
  obtain v where v: "m_params p = Some P" "m_values p = Some v" "ntt_vec (m_ciphertextModulus P) L v"
    using assms(1) by (auto simp: poly_ok_def)
  moreover have "v = vec (m_ciphertextModulus P) (m_data v)" using v(3) by (simp add: ntt_vec_def)
  moreover have "restores (m_ciphertextModulus P) (2 ^ L) (\<lambda>i. iu (m_data v ! i)) (m_data v)"
    using v(3) by (intro restores_own) (auto simp: ntt_vec_def nv_ok_def)
  ultimately show ?thesis unfolding represents_def assms(2) slot_coeff [abs_def]
    by (intro conjI exI [of _ "m_data v"]) simp_all
qed

lemma forward_exists:
  assumes r: "ring_ok P L"
  shows "\<exists>d. restores (m_ciphertextModulus P) (2 ^ L) (slot P L EVALUATION a) d"
proof -
  let ?m = "m_ciphertextModulus P"
  define xs where "xs = map (\<lambda>i. word_of_int (a i mod iu ?m) :: u64) [0..<2 ^ L]"
  have "restores ?m (2 ^ L) (slot P L COEFFICIENT a) xs"
    unfolding restores_def slot_coeff
  proof (intro conjI allI impI)
    show "length xs = 2 ^ L" by (simp add: xs_def)
    fix i :: nat assume i: "i < 2 ^ L"
    have "0 < iu ?m" using ring_okD(7) [OF r] by (simp only: of_nat_0_less_iff)
    then have b: "0 \<le> a i mod iu ?m" "a i mod iu ?m < iu ?m" by (rule pos_mod_sign, rule pos_mod_bound)
    moreover have "iu ?m < 2 ^ 64" using unat_less_64 [of ?m] by (metis of_nat_less_numeral_power_cancel_iff)
    ultimately have "unat (xs ! i) = nat (a i mod iu ?m)" using unat_word_of_int_64 [of "a i mod iu ?m"] i by (simp add: xs_def)
    then have u: "iu (xs ! i) = a i mod iu ?m" using b(1) by (simp only: int_nat_eq if_True)
    show "unat (xs ! i) < unat ?m" using b(2) u by linarith
    show "iu (xs ! i) mod iu ?m = a i mod iu ?m" unfolding u by simp
  qed
  then have "represents P L a \<lparr>m_format = COEFFICIENT, m_params = Some P, m_values = Some (vec ?m xs)\<rparr>" by (rule representsI)
  moreover have "caches_ok P L (Reset, arb_init)" using Reset_cache_ok by simp
  ultimately obtain q cs' where q: "m_format q = EVALUATION" "represents P L a q"
    by (rule SetFormat_represents [OF r, where fmt = EVALUATION and draw = fixed_draw and s = "()"])
  then show ?thesis by (auto simp: represents_def)
qed

lemma forward_injective:
  assumes r: "ring_ok P L"
    and d: "restores (m_ciphertextModulus P) (2 ^ L) (slot P L EVALUATION a) d" "restores (m_ciphertextModulus P) (2 ^ L) (slot P L EVALUATION b) d"
    and i: "i < 2 ^ L"
  shows "a i mod iu (m_ciphertextModulus P) = b i mod iu (m_ciphertextModulus P)"
proof -
  define p where "p = \<lparr>m_format = EVALUATION, m_params = Some P, m_values = Some (vec (m_ciphertextModulus P) d)\<rparr>"
  have p: "represents P L a p" "represents P L b p" using d by (simp_all add: p_def representsI)
  have c: "caches_ok P L (Reset, arb_init)" using Reset_cache_ok by simp
  obtain q cs where q: "SetFormat fixed_draw COEFFICIENT p (Reset, arb_init) () = Some (Inr ((q, cs), ()))"
    "m_format q = COEFFICIENT" "represents P L a q" by (rule SetFormat_represents [OF r p(1) c])
  obtain q' cs' where q': "SetFormat fixed_draw COEFFICIENT p (Reset, arb_init) () = Some (Inr ((q', cs'), ()))"
    "m_format q' = COEFFICIENT" "represents P L b q'" by (rule SetFormat_represents [OF r p(2) c])
  have e: "q' = q" using q(1) q'(1) by simp
  obtain v where v: "m_values q = Some v" using q(3) by (auto simp: represents_def)
  show ?thesis
    using represents_coefficients [OF q(3,2) v i] represents_coefficients [OF q'(3) [unfolded e] q(2) v i] by simp
qed

lemma every_element_represents:
  assumes r: "ring_ok P L" and p: "poly_ok P L p"
  shows "\<exists>a. represents P L a p"
proof (cases "m_format p")
  case COEFFICIENT
  then show ?thesis using coefficients_represented [OF p] by blast
next
  case EVALUATION
  let ?m = "m_ciphertextModulus P"
  define V where "V = {xs :: u64 list. reduced ?m xs \<and> length xs = 2 ^ L}"
  define F where "F = (\<lambda>xs :: u64 list. SOME d. restores ?m (2 ^ L) (slot P L EVALUATION (\<lambda>i. iu (xs ! i))) d)"
  have F: "restores ?m (2 ^ L) (slot P L EVALUATION (\<lambda>i. iu (xs ! i))) (F xs)" for xs
    unfolding F_def by (rule someI_ex [OF forward_exists [OF r]])
  have "finite V"
  proof (rule finite_subset)
    show "V \<subseteq> {xs. set xs \<subseteq> UNIV \<and> length xs = 2 ^ L}" by (auto simp: V_def)
  qed (intro finite_lists_length_eq finite)
  moreover have "F ` V \<subseteq> V" using F restoresD(1,4) by (fastforce simp: V_def)
  moreover have "inj_on F V"
  proof (rule inj_onI)
    fix xs ys assume V: "xs \<in> V" "ys \<in> V" and e: "F xs = F ys"
    show "xs = ys"
    proof (rule nth_equalityI)
      show "length xs = length ys" using V by (simp add: V_def)
      fix i assume "i < length xs"
      then have i: "i < 2 ^ L" using V by (simp add: V_def)
      have "unat (xs ! i) < unat ?m" "unat (ys ! i) < unat ?m" using V i by (auto simp: V_def reduced_nth)
      then show "xs ! i = ys ! i"
        using forward_injective [OF r F [of xs] _ i] F [of ys] e by (intro residue_eqI [of _ ?m]) simp_all
    qed
  qed
  ultimately have "F ` V = V" by (intro endo_inj_surj)
  moreover obtain v where v: "m_params p = Some P" "m_values p = Some v" "ntt_vec ?m L v" using p by (auto simp: poly_ok_def)
  moreover have "m_data v \<in> V" using v(3) by (auto simp: V_def ntt_vec_def nv_ok_def)
  ultimately obtain xs where "m_data v = F xs" by auto
  then have "restores ?m (2 ^ L) (slot P L (m_format p) (\<lambda>i. iu (xs ! i))) (m_data v)" using F EVALUATION by simp
  moreover have "v = vec ?m (m_data v)" using v(3) by (simp add: ntt_vec_def)
  ultimately have "represents P L (\<lambda>i. iu (xs ! i)) p" unfolding represents_def using v(1,2) by (intro conjI exI [of _ "m_data v"]) simp_all
  then show ?thesis by blast
qed

end
