(* ===== verification/PolyAuto.thy ===== *)
theory PolyAuto
  imports PolySem
begin

text \<open>
  The automorphisms \<open>X\<close> to \<open>X ^ k\<close> of the ring, on coefficients and on values, and the loops of
  \<open>AutomorphismTransform\<close>.
\<close>

subsection \<open>Automorphisms\<close>

text \<open>The image of \<open>a\<close> under \<open>X \<mapsto> X ^ k\<close> modulo \<open>X ^ n + 1\<close>.\<close>

definition auto_poly :: "nat \<Rightarrow> nat \<Rightarrow> (nat \<Rightarrow> int) \<Rightarrow> nat \<Rightarrow> int" where
  "auto_poly n k a p = (\<Sum>i<n. if i * k mod n = p then (- 1) ^ (i * k div n) * a i else 0)"

lemma peval_auto:
  assumes "0 < n" "x ^ n mod q = (- 1) mod q"
  shows "peval n (auto_poly n k a) x mod q = peval n a (x ^ k) mod q"
proof -
  have "peval n (auto_poly n k a) x = (\<Sum>i<n. \<Sum>p<n. (if i * k mod n = p then (- 1) ^ (i * k div n) * a i else 0) * x ^ p)"
    unfolding peval_def auto_poly_def sum_distrib_right by (rule sum.swap)
  also have "\<dots> = (\<Sum>i<n. a i * ((- 1) ^ (i * k div n) * x ^ (i * k mod n)))"
  proof (rule sum.cong [OF refl])
    fix i
    have "(\<Sum>p<n. (if i * k mod n = p then (- 1) ^ (i * k div n) * a i else 0) * x ^ p) =
        (\<Sum>p<n. if i * k mod n = p then (- 1) ^ (i * k div n) * a i * x ^ p else 0)"
      by (intro sum.cong refl) simp
    also have "\<dots> = (- 1) ^ (i * k div n) * a i * x ^ (i * k mod n)" using assms(1) by simp
    finally show "(\<Sum>p<n. (if i * k mod n = p then (- 1) ^ (i * k div n) * a i else 0) * x ^ p) =
        a i * ((- 1) ^ (i * k div n) * x ^ (i * k mod n))" by simp
  qed
  also have "\<dots> mod q = (\<Sum>i<n. a i * (x ^ k) ^ i) mod q"
  proof (intro sum_mod_cong mod_mult_cong refl)
    fix i
    have "(x ^ k) ^ i = (x ^ n) ^ (i * k div n) * x ^ (i * k mod n)"
      by (simp add: mult.commute flip: power_mult power_add)
    also have "\<dots> mod q = ((- 1) ^ (i * k div n) * x ^ (i * k mod n)) mod q"
      by (intro mod_mult_cong refl power_mod_cong assms(2))
    finally show "((- 1) ^ (i * k div n) * x ^ (i * k mod n)) mod q = (x ^ k) ^ i mod q" ..
  qed
  finally show ?thesis by (simp add: peval_def)
qed

lemma odd_mult_inj:
  fixes i j k :: nat
  assumes "odd k" "i < 2 ^ L" "j < 2 ^ L" "i * k mod 2 ^ L = j * k mod 2 ^ L"
  shows "i = j"
proof -
  have "k * i mod 2 ^ L = k * j mod 2 ^ L" using assms(4) by (simp only: mult.commute)
  then have "i mod 2 ^ L = j mod 2 ^ L" by (rule mult_cancel_mod [rotated]) (use assms(1) in simp)
  with assms(2,3) show ?thesis by simp
qed

lemma auto_poly_at:
  assumes "odd k" "j < 2 ^ L"
  shows "auto_poly (2 ^ L) k a (j * k mod 2 ^ L) = (- 1) ^ (j * k div 2 ^ L) * a j"
proof -
  have "auto_poly (2 ^ L) k a (j * k mod 2 ^ L) = (\<Sum>i<2 ^ L. if i = j then (- 1) ^ (i * k div 2 ^ L) * a i else 0)"
    unfolding auto_poly_def using odd_mult_inj [OF assms(1) _ assms(2)] by (intro sum.cong refl) auto
  then show ?thesis using assms(2) by simp
qed

lemma odd_mult_surj:
  assumes "odd k" "p < 2 ^ L"
  shows "\<exists>j<2 ^ L. p = j * k mod (2 ^ L :: nat)"
proof -
  have "(\<lambda>j. j * k mod 2 ^ L) ` {..<2 ^ L} = {..<2 ^ L :: nat}"
    using odd_mult_inj [OF assms(1)] by (intro endo_inj_surj inj_onI) auto
  then have "p \<in> (\<lambda>j. j * k mod 2 ^ L) ` {..<2 ^ L}" using assms(2) by simp
  then show ?thesis by auto
qed

lemma slot_auto:
  assumes r: "ring_ok P L" and k: "odd k" and j: "j < 2 ^ L"
  shows "slot P L EVALUATION (auto_poly (2 ^ L) k a) (brv L j) mod iu (m_ciphertextModulus P) =
    slot P L EVALUATION a (brv L (auto_idx L k j)) mod iu (m_ciphertextModulus P)"
proof -
  let ?r = "iu (m_rootOfUnity P)" and ?q = "iu (m_ciphertextModulus P)"
  define x where "x = ?r ^ (1 + 2 * j)"
  have root: "?r ^ 2 ^ L mod ?q = (- 1) mod ?q" by (rule ring_okD(11) [OF r])
  have "x ^ 2 ^ L = (?r ^ 2 ^ L) ^ (1 + 2 * j)" unfolding x_def by (simp only: power_mult [symmetric] mult.commute)
  then have x: "x ^ 2 ^ L mod ?q = (- 1) mod ?q" using power_mod_cong [OF root, of "1 + 2 * j"] by simp
  have two: "(?r ^ 2 ^ Suc L) mod ?q = 1 mod ?q"
    using power_mod_cong [OF root, of 2] by (simp add: power_mult [symmetric] mult.commute)
  define e where "e = (2 * j + 1) * k"
  have "x ^ k = ?r ^ e" by (simp only: x_def e_def power_mult [symmetric] add.commute)
  also have "\<dots> = (?r ^ 2 ^ Suc L) ^ (e div 2 ^ Suc L) * ?r ^ (e mod 2 ^ Suc L)"
    by (simp only: power_mult [symmetric] power_add [symmetric] mult_div_mod_eq)
  also have "\<dots> mod ?q = (1 ^ (e div 2 ^ Suc L) * ?r ^ (e mod 2 ^ Suc L)) mod ?q"
    by (intro mod_mult_cong refl power_mod_cong two)
  also have "e mod 2 ^ Suc L = 1 + 2 * auto_idx L k j" using auto_idx_odd [OF k, of L j] by (simp add: e_def)
  finally have xk: "x ^ k mod ?q = ?r ^ (1 + 2 * auto_idx L k j) mod ?q" by simp
  have "slot P L EVALUATION (auto_poly (2 ^ L) k a) (brv L j) mod ?q = peval (2 ^ L) (auto_poly (2 ^ L) k a) x mod ?q"
    using brv_brv [OF j] by (simp add: slot_def x_def)
  also have "\<dots> = peval (2 ^ L) a (x ^ k) mod ?q" by (rule peval_auto [OF _ x]) simp
  also have "\<dots> = peval (2 ^ L) a (?r ^ (1 + 2 * auto_idx L k j)) mod ?q" by (rule peval_mod_cong [OF refl xk])
  also have "\<dots> = slot P L EVALUATION a (brv L (auto_idx L k j)) mod ?q"
    using brv_brv [OF auto_idx_less] by (simp add: slot_def)
  finally show ?thesis .
qed

text \<open>The exponents the code derives from the order, and the masks.\<close>

lemma automorphism_words:
  assumes "unat (m :: u32) = 2 ^ Suc L" "0 < L" "L \<le> 24"
  shows "unat (GetMSB (ucast m) - 1 - 1) = L" "unat (GetMSB (ucast m) - 2) = L" "2 ^ L - 1 = (mask L :: u32)"
proof -
  have "unat (ucast m :: u64) = unat m"
    by (simp add: unsigned_ucast_eq take_bit_nat_eq_self_iff order.strict_trans2 [OF unsigned_less])
  then have "unat (GetMSB (ucast m)) = L + 2" using assms(1) bit_len_power2 [of "Suc L"] by (simp only: unat_GetMSB)
  then have g: "GetMSB (ucast m) = of_nat (L + 2)" by (rule word_of_unat_eq)
  show "unat (GetMSB (ucast m) - 1 - 1) = L" unfolding g using assms(3) by (simp add: unat_of_nat_u32)
  then show "unat (GetMSB (ucast m) - 2) = L" by simp
  show "2 ^ L - 1 = (mask L :: u32)" by (simp add: mask_eq_exp_minus_1)
qed

lemma unat_and_mask: "unat (x AND mask L :: u32) = unat x mod 2 ^ L"
proof -
  have "x AND mask L = take_bit L x" by (rule take_bit_eq_mask [symmetric])
  then have "unat (x AND mask L) = take_bit L (unat x)" by (simp only: unsigned_take_bit_eq)
  then show ?thesis by (simp only: take_bit_eq_mod)
qed

lemma mod_wrap_u32: "K \<le> 32 \<Longrightarrow> unat (of_nat n :: u32) mod 2 ^ K = n mod 2 ^ K"
proof -
  assume "K \<le> 32"
  then have "(2::nat) ^ K dvd 2 ^ 32" by (simp only: le_imp_power_dvd)
  then show ?thesis by (simp add: unsigned_of_nat take_bit_eq_mod mod_mod_cancel)
qed

lemma auto_idx_shift:
  assumes "L \<le> 24"
  shows "unat (drop_bit 1 (of_nat ((2 * j + 1) * k)) AND mask L :: u32) = auto_idx L k j"
proof -
  define e where "e = (2 * j + 1) * k"
  have "unat (drop_bit 1 (of_nat e) AND mask L :: u32) = unat (of_nat e :: u32) div 2 mod 2 ^ L"
    unfolding unat_and_mask unat_drop_bit by simp
  also have "\<dots> = unat (of_nat e :: u32) mod 2 ^ Suc L div 2"
    using mod_mult2_eq [of "unat (of_nat e :: u32)" 2 "2 ^ L"] by simp
  also have "\<dots> = e mod 2 ^ Suc L div 2" using mod_wrap_u32 [of "Suc L" e] assms by simp
  finally show ?thesis by (simp add: e_def auto_idx_def)
qed

lemma coefficient_position:
  assumes "L \<le> 24"
  shows "unat (of_nat e AND mask L :: u32) = e mod 2 ^ L"
    "(drop_bit L (of_nat e) AND 1 \<noteq> (0 :: u32)) \<longleftrightarrow> odd (e div 2 ^ L)"
proof -
  show "unat (of_nat e AND mask L :: u32) = e mod 2 ^ L" using mod_wrap_u32 [of L e] assms by (simp add: unat_and_mask)
  have "(drop_bit L (of_nat e) AND 1 \<noteq> (0 :: u32)) \<longleftrightarrow> odd (unat (of_nat e :: u32) div 2 ^ L)"
    unfolding odd_word unat_drop_bit ..
  also have "unat (of_nat e :: u32) div 2 ^ L mod 2 = unat (of_nat e :: u32) mod 2 ^ Suc L div 2 ^ L"
    by (simp add: mod_mult2_eq power_Suc2 del: power_Suc)
  then have "odd (unat (of_nat e :: u32) div 2 ^ L) \<longleftrightarrow> odd (e div 2 ^ L)"
    using mod_wrap_u32 [of "Suc L" e] assms mod_mult2_eq [of e "2 ^ L" 2]
    by (simp add: odd_iff_mod_2_eq_one power_Suc2 del: power_Suc)
  finally show "(drop_bit L (of_nat e) AND 1 \<noteq> (0 :: u32)) \<longleftrightarrow> odd (e div 2 ^ L)" .
qed

text \<open>The loop of the evaluation format permutes the entries.\<close>

lemma automorphism_evaluation_loop:
  fixes xs :: "u64 list" and k l :: u32
  assumes L: "0 < L" "L \<le> 24" and v: "length xs = 2 ^ L" and l: "unat l = L" and k: "odd (unat k)"
  shows "\<exists>d jk. efor 0 (2 ^ L) (\<lambda>j (d, jk).
      ebind (ReverseBits (of_nat j) l) (\<lambda>jrev.
      ebind (ReverseBits (drop_bit 1 jk AND mask L) l) (\<lambda>idxrev.
      ebind (get_at xs (unat idxrev)) (\<lambda>x.
      ebind (set_at d (unat jrev) x) (\<lambda>d. Inr (d, jk + 2 * k)))))) (replicate (2 ^ L) 0, k) = Inr (d, jk) \<and>
    length d = 2 ^ L \<and> (\<forall>j<2 ^ L. d ! brv L j = xs ! brv L (auto_idx L (unat k) j))"
proof -
  let ?body = "\<lambda>j (d, jk). ebind (ReverseBits (of_nat j) l) (\<lambda>jrev.
      ebind (ReverseBits (drop_bit 1 jk AND mask L) l) (\<lambda>idxrev.
      ebind (get_at xs (unat idxrev)) (\<lambda>x.
      ebind (set_at d (unat jrev) x) (\<lambda>d. Inr (d, jk + 2 * k)))))"
  let ?P = "\<lambda>j (d :: u64 list, jk :: u32). jk = of_nat ((2 * j + 1) * unat k) \<and> length d = 2 ^ L \<and>
    (\<forall>i<j. d ! brv L i = xs ! brv L (auto_idx L (unat k) i))"
  have "\<exists>s. efor 0 (2 ^ L) ?body (replicate (2 ^ L) 0, k) = Inr s \<and> ?P (2 ^ L) s"
  proof (rule efor_Inr [where P = ?P])
    fix j and s :: "u64 list \<times> u32" assume j: "j < 2 ^ L" and s: "?P j s"
    obtain d jk where e: "s = (d, jk)" by (cases s)
    have s': "jk = of_nat ((2 * j + 1) * unat k)" "length d = 2 ^ L" "\<forall>i<j. d ! brv L i = xs ! brv L (auto_idx L (unat k) i)"
      using s unfolding e prod.case by blast+
    have "(2::nat) ^ L \<le> 2 ^ 24" using L by (intro power_increasing) simp_all
    then have jw: "unat (of_nat j :: u32) = j" using j by (intro unat_of_nat_u32) simp
    obtain a where a: "ReverseBits (of_nat j) l = Inr a" "unat a = brv L j"
      by (rule ReverseBits_correct [of l "of_nat j"]) (use L l jw in simp_all)
    have ix: "unat (drop_bit 1 jk AND mask L) = auto_idx L (unat k) j" unfolding s'(1) by (rule auto_idx_shift [OF L(2)])
    obtain b where b: "ReverseBits (drop_bit 1 jk AND mask L) l = Inr b" "unat b = brv L (auto_idx L (unat k) j)"
      by (rule ReverseBits_correct [of l "drop_bit 1 jk AND mask L"]) (use L l ix in \<open>simp_all del: drop_bit_eq_div\<close>)
    define d' where "d' = d[brv L j := xs ! brv L (auto_idx L (unat k) j)]"
    have "?body j s = Inr (d', jk + 2 * k)"
      unfolding e prod.case a(1) b(1) ebind_simps a(2) b(2) d'_def
      using s'(2) v brv_less [of L] by (simp add: get_at_def set_at_def)
    moreover have "jk + 2 * k = of_nat ((2 * Suc j + 1) * unat k)" unfolding s'(1) by (simp add: algebra_simps)
    moreover have "\<forall>i<Suc j. d' ! brv L i = xs ! brv L (auto_idx L (unat k) i)"
    proof (intro allI impI)
      fix i assume i: "i < Suc j"
      show "d' ! brv L i = xs ! brv L (auto_idx L (unat k) i)"
      proof (cases "i = j")
        case False
        then have "brv L i \<noteq> brv L j" using brv_inj [of L] i j by (auto simp: inj_on_def)
        then show ?thesis using s'(3) i False by (simp add: d'_def)
      qed (use s'(2) brv_less [of L j] in \<open>simp add: d'_def\<close>)
    qed
    ultimately show "\<exists>s'. ?body j s = Inr s' \<and> ?P (Suc j) s'" using s'(2) by (intro exI [of _ "(d', jk + 2 * k)"]) (simp add: d'_def)
  qed (simp_all)
  then show ?thesis by fastforce
qed

text \<open>The loop of the coefficient format moves coefficient \<open>j\<close> to \<open>j k\<close>, negated as \<open>m - x\<close> when it wraps.\<close>

lemma automorphism_coefficient_loop:
  fixes xs :: "u64 list" and k :: u32
  assumes L: "0 < L" "L \<le> 24" and v: "length xs = 2 ^ L" and k: "odd (unat k)"
  shows "\<exists>d jk. efor 0 (2 ^ L) (\<lambda>j (d, jk).
      ebind (get_at xs j) (\<lambda>x.
      ebind (set_at d (unat (jk AND mask L)) (if drop_bit L jk AND 1 \<noteq> 0 then Sub q x else x)) (\<lambda>d.
        Inr (d, jk + k)))) (replicate (2 ^ L) 0, 0 :: u32) = Inr (d, jk) \<and>
    length d = 2 ^ L \<and>
    (\<forall>j<2 ^ L. d ! (j * unat k mod 2 ^ L) = (if odd (j * unat k div 2 ^ L) then Sub q (xs ! j) else xs ! j))"
proof -
  let ?body = "\<lambda>j (d, jk). ebind (get_at xs j) (\<lambda>x.
      ebind (set_at d (unat (jk AND mask L)) (if drop_bit L jk AND 1 \<noteq> 0 then Sub q x else x)) (\<lambda>d. Inr (d, jk + k)))"
  let ?f = "\<lambda>j. if odd (j * unat k div 2 ^ L) then Sub q (xs ! j) else xs ! j"
  let ?P = "\<lambda>j (d :: u64 list, jk :: u32). jk = of_nat (j * unat k) \<and> length d = 2 ^ L \<and> (\<forall>i<j. d ! (i * unat k mod 2 ^ L) = ?f i)"
  have "\<exists>s. efor 0 (2 ^ L) ?body (replicate (2 ^ L) 0, 0) = Inr s \<and> ?P (2 ^ L) s"
  proof (rule efor_Inr [where P = ?P])
    fix j and s :: "u64 list \<times> u32" assume j: "j < 2 ^ L" and s: "?P j s"
    obtain d jk where e: "s = (d, jk)" by (cases s)
    have s': "jk = of_nat (j * unat k)" "length d = 2 ^ L" "\<forall>i<j. d ! (i * unat k mod 2 ^ L) = ?f i"
      using s unfolding e prod.case by blast+
    define d' where "d' = d[j * unat k mod 2 ^ L := ?f j]"
    have "?body j s = Inr (d', jk + k)"
      unfolding e prod.case s'(1) coefficient_position [OF L(2)] d'_def
      using s'(2) v j by (simp add: get_at_def set_at_def)
    moreover have "jk + k = of_nat (Suc j * unat k)" unfolding s'(1) by (simp add: algebra_simps)
    moreover have "\<forall>i<Suc j. d' ! (i * unat k mod 2 ^ L) = ?f i"
    proof (intro allI impI)
      fix i assume i: "i < Suc j"
      show "d' ! (i * unat k mod 2 ^ L) = ?f i"
      proof (cases "i = j")
        case False
        then have "i * unat k mod 2 ^ L \<noteq> j * unat k mod 2 ^ L" using odd_mult_inj [OF k, of i L j] i j by auto
        then show ?thesis using s'(3) i False by (simp add: d'_def)
      qed (use s'(2) in \<open>simp add: d'_def\<close>)
    qed
    ultimately show "\<exists>s'. ?body j s = Inr s' \<and> ?P (Suc j) s'" using s'(2) by (intro exI [of _ "(d', jk + k)"]) (simp add: d'_def)
  qed (simp_all)
  then show ?thesis by fastforce
qed

lemma odd_u32: "odd (unat k) \<Longrightarrow> (k :: u32) mod 2 \<noteq> 0"
proof
  assume "odd (unat k)" "k mod 2 = 0"
  then have "unat (k mod 2) = 0" by simp
  then have "unat k mod 2 = 0" by (simp add: unat_mod)
  with \<open>odd (unat k)\<close> show False by presburger
qed

lemma all_brv: "(\<And>j. j < 2 ^ L \<Longrightarrow> Q (brv L j)) \<Longrightarrow> i < 2 ^ L \<Longrightarrow> Q i"
  using brv_brv [of i L] brv_less [of L i] by metis

lemma automorphism_entries:
  assumes r: "ring_ok P L" and k: "odd k" and x: "restores (m_ciphertextModulus P) (2 ^ L) (slot P L EVALUATION a) xs"
    and d: "length d = 2 ^ L" "\<And>j. j < 2 ^ L \<Longrightarrow> d ! brv L j = xs ! brv L (auto_idx L k j)"
  shows "restores (m_ciphertextModulus P) (2 ^ L) (slot P L EVALUATION (auto_poly (2 ^ L) k a)) d"
  unfolding restores_def
proof (intro conjI allI impI)
  let ?m = "m_ciphertextModulus P"
  fix i :: nat assume i: "i < 2 ^ L"
  show "unat (d ! i) < unat ?m"
    by (rule all_brv [OF _ i]) (simp add: d(2) restoresD(2) [OF x] brv_less)
  show "iu (d ! i) mod iu ?m = slot P L EVALUATION (auto_poly (2 ^ L) k a) i mod iu ?m"
  proof (rule all_brv [OF _ i])
    fix j :: nat assume j: "j < 2 ^ L"
    show "iu (d ! brv L j) mod iu ?m = slot P L EVALUATION (auto_poly (2 ^ L) k a) (brv L j) mod iu ?m"
      unfolding d(2) [OF j] slot_auto [OF r k j] by (rule restoresD(3) [OF x brv_less])
  qed
qed (rule d(1))

lemma AutomorphismTransform_evaluation:
  assumes r: "ring_ok P L" and p: "represents P L a p" and f: "m_format p = EVALUATION" and k: "odd (unat k)"
  obtains d where "AutomorphismTransform k p =
      Inr \<lparr>m_format = EVALUATION, m_params = Some P, m_values = Some (vec (m_ciphertextModulus P) d)\<rparr>"
    "restores (m_ciphertextModulus P) (2 ^ L) (slot P L EVALUATION (auto_poly (2 ^ L) (unat k) a)) d"
    "\<And>v. m_values p = Some v \<Longrightarrow> length d = 2 ^ L \<and> (\<forall>j<2 ^ L. d ! brv L j = m_data v ! brv L (auto_idx L (unat k) j))"
proof -
  let ?m = "m_ciphertextModulus P"
  obtain x where x: "p = \<lparr>m_format = m_format p, m_params = Some P, m_values = Some (vec ?m x)\<rparr>"
    "restores ?m (2 ^ L) (slot P L (m_format p) a) x" by (rule representsE [OF p])
  note x2 = x(2) [unfolded f]
  note L = ring_okD(3,4) [OF r]
  note w = automorphism_words [OF ring_okD(5) [OF r] L]
  obtain d jk where d: "efor 0 (2 ^ L) (\<lambda>j (d, jk).
      ebind (ReverseBits (of_nat j) (GetMSB (ucast (m_cyclotomicOrder P)) - 1 - 1)) (\<lambda>jrev.
      ebind (ReverseBits (drop_bit 1 jk AND mask L) (GetMSB (ucast (m_cyclotomicOrder P)) - 1 - 1)) (\<lambda>idxrev.
      ebind (get_at x (unat idxrev)) (\<lambda>x.
      ebind (set_at d (unat jrev) x) (\<lambda>d. Inr (d, jk + 2 * k)))))) (replicate (2 ^ L) 0, k) = Inr (d, jk)"
    "length d = 2 ^ L" "\<forall>j<2 ^ L. d ! brv L j = x ! brv L (auto_idx L (unat k) j)"
    using automorphism_evaluation_loop [OF L restoresD(1) [OF x2] w(1) k] by metis
  have L32: "\<not> 32 \<le> L" using L(2) by simp
  have "AutomorphismTransform k p = Inr \<lparr>m_format = EVALUATION, m_params = Some P, m_values = Some (vec ?m d)\<rparr>"
    using d(1) ring_okD(6) [OF r] ring_okD(8) [OF r, symmetric] odd_u32 [OF k] L32
    by (subst x(1)) (simp add: AutomorphismTransform_def deref_def f w PolyImpl_def SetValuesToZero_def Let_def del: push_bit_eq_mult drop_bit_eq_div)
  moreover have "restores ?m (2 ^ L) (slot P L EVALUATION (auto_poly (2 ^ L) (unat k) a)) d"
    by (rule automorphism_entries [OF r k x2 d(2)]) (use d(3) in simp)
  moreover have "length d = 2 ^ L \<and> (\<forall>j<2 ^ L. d ! brv L j = m_data v ! brv L (auto_idx L (unat k) j))"
    if "m_values p = Some v" for v
  proof -
    have "v = vec ?m x" using that x(1) by (cases p) auto
    then show ?thesis using d(2,3) by simp
  qed
  ultimately show ?thesis by (rule that)
qed

text \<open>With the table of \<open>PrecomputeAutoMap\<close> the result is the same.\<close>

lemma AutomorphismTransform_precomp_eq:
  assumes r: "ring_ok P L" and p: "represents P L a p" and f: "m_format p = EVALUATION" and k: "odd (unat k)"
    and t: "length table = 2 ^ L"
  shows "\<exists>q. PrecomputeAutoMap (m_ringDimension P) k table = Inr q \<and> AutomorphismTransform_precomp k q p = AutomorphismTransform k p"
proof -
  let ?m = "m_ciphertextModulus P"
  obtain x where x: "p = \<lparr>m_format = m_format p, m_params = Some P, m_values = Some (vec ?m x)\<rparr>"
    "restores ?m (2 ^ L) (slot P L (m_format p) a) x" by (rule representsE [OF p])
  have lx: "length x = 2 ^ L" by (rule restoresD(1) [OF x(2)])
  have vx: "m_values p = Some (vec ?m x)" using x(1) by (cases p) auto
  obtain d where d: "AutomorphismTransform k p =
      Inr \<lparr>m_format = EVALUATION, m_params = Some P, m_values = Some (vec ?m d)\<rparr>"
    "\<And>v. m_values p = Some v \<Longrightarrow> length d = 2 ^ L \<and> (\<forall>j<2 ^ L. d ! brv L j = m_data v ! brv L (auto_idx L (unat k) j))"
    by (rule AutomorphismTransform_evaluation [OF r p f k]) blast
  from d(2) [OF vx] have d': "length d = 2 ^ L" "\<And>j. j < 2 ^ L \<Longrightarrow> d ! brv L j = x ! brv L (auto_idx L (unat k) j)" by auto
  obtain q where q: "PrecomputeAutoMap (m_ringDimension P) k table = Inr q" "length q = 2 ^ L"
    "\<And>j. j < 2 ^ L \<Longrightarrow> unat (q ! brv L j) = brv L (auto_idx L (unat k) j)"
    by (rule PrecomputeAutoMap_correct [OF ring_okD(6,3,4) [OF r] t]) blast
  have dq: "unat (q ! i) < 2 ^ L \<and> d ! i = x ! unat (q ! i)" if i: "i < 2 ^ L" for i
    by (rule all_brv [OF _ i]) (simp add: q(3) d'(2) brv_less)
  let ?body = "\<lambda>j d. ebind (get_at q j) (\<lambda>i. ebind (get_at x (unat i)) (set_at d j))"
  have "\<exists>e. efor 0 (2 ^ L) ?body (replicate (2 ^ L) 0) = Inr e \<and> (length e = 2 ^ L \<and> (\<forall>i<2 ^ L. e ! i = d ! i))"
  proof (rule efor_Inr [where P = "\<lambda>j e. length e = 2 ^ L \<and> (\<forall>i<j. e ! i = d ! i)"])
    fix j and e :: "u64 list" assume j: "j < 2 ^ L" and e: "length e = 2 ^ L \<and> (\<forall>i<j. e ! i = d ! i)"
    have "?body j e = Inr (e[j := d ! j])" using dq [OF j] q(2) lx e j by (simp add: get_at_def set_at_def)
    then show "\<exists>e'. ?body j e = Inr e' \<and> (length e' = 2 ^ L \<and> (\<forall>i<Suc j. e' ! i = d ! i))"
      using e j by (auto simp: less_Suc_eq)
  qed simp_all
  then obtain e where e: "efor 0 (2 ^ L) ?body (replicate (2 ^ L) 0) = Inr e" "length e = 2 ^ L" "\<forall>i<2 ^ L. e ! i = d ! i" by blast
  then have "e = d" using d'(1) by (intro nth_equalityI) auto
  with e(1) have "AutomorphismTransform_precomp k q p =
      Inr \<lparr>m_format = EVALUATION, m_params = Some P, m_values = Some (vec ?m d)\<rparr>"
    using ring_okD(6) [OF r] ring_okD(8) [OF r, symmetric] odd_u32 [OF k]
    by (subst x(1)) (simp add: AutomorphismTransform_precomp_def deref_def f PolyImpl_def SetValuesToZero_def)
  with q(1) d(1) show ?thesis by auto
qed

text \<open>
  In coefficient format a negated zero becomes the modulus itself, which is not a residue; every
  other entry is right.
\<close>

lemma AutomorphismTransform_coefficient:
  assumes r: "ring_ok P L" and p: "represents P L a p" and f: "m_format p = COEFFICIENT" and k: "odd (unat k)"
    and v: "m_values p = Some v"
  obtains d where "AutomorphismTransform k p =
      Inr \<lparr>m_format = COEFFICIENT, m_params = Some P, m_values = Some (vec (m_ciphertextModulus P) d)\<rparr>" "length d = 2 ^ L"
    "\<And>j. j < 2 ^ L \<Longrightarrow> unat (d ! (j * unat k mod 2 ^ L)) =
       (if odd (j * unat k div 2 ^ L) then unat (m_ciphertextModulus P) - unat (m_data v ! j) else unat (m_data v ! j))"
    "\<And>i. i < 2 ^ L \<Longrightarrow> iu (d ! i) mod iu (m_ciphertextModulus P) = auto_poly (2 ^ L) (unat k) a i mod iu (m_ciphertextModulus P)"
proof -
  let ?m = "m_ciphertextModulus P"
  obtain x where x: "p = \<lparr>m_format = m_format p, m_params = Some P, m_values = Some (vec ?m x)\<rparr>"
    "restores ?m (2 ^ L) (slot P L (m_format p) a) x" by (rule representsE [OF p])
  have vx: "m_data v = x" using x(1) v by (cases p) auto
  note L = ring_okD(3,4) [OF r]
  note w = automorphism_words [OF ring_okD(5) [OF r] L]
  obtain d jk where d: "efor 0 (2 ^ L) (\<lambda>j (d, jk).
      ebind (get_at x j) (\<lambda>y.
      ebind (set_at d (unat (jk AND mask L)) (if drop_bit L jk AND 1 \<noteq> 0 then Sub ?m y else y)) (\<lambda>d.
        Inr (d, jk + k)))) (replicate (2 ^ L) 0, 0 :: u32) = Inr (d, jk)" "length d = 2 ^ L"
    "\<forall>j<2 ^ L. d ! (j * unat k mod 2 ^ L) = (if odd (j * unat k div 2 ^ L) then Sub ?m (x ! j) else x ! j)"
    using automorphism_coefficient_loop [OF L restoresD(1) [OF x(2)] k, of ?m] by blast
  have L32: "\<not> 32 \<le> L" using L(2) by simp
  have "AutomorphismTransform k p = Inr \<lparr>m_format = COEFFICIENT, m_params = Some P, m_values = Some (vec ?m d)\<rparr>"
    using d(1) ring_okD(6) [OF r] ring_okD(8) [OF r, symmetric] odd_u32 [OF k] L32
    by (subst x(1)) (simp add: AutomorphismTransform_def deref_def f w PolyImpl_def SetValuesToZero_def Let_def del: push_bit_eq_mult drop_bit_eq_div)
  moreover note d(2)
  moreover have e: "unat (d ! (j * unat k mod 2 ^ L)) = (if odd (j * unat k div 2 ^ L) then unat ?m - unat (m_data v ! j) else unat (m_data v ! j))"
    if j: "j < 2 ^ L" for j
    using d(3) j unat_sub_small [OF less_imp_le [OF restoresD(2) [OF x(2) j]]] vx
    by (simp add: Sub_def SubFast_def NATIVEINT_DO_CHECKS_def)
  moreover have "iu (d ! i) mod iu ?m = auto_poly (2 ^ L) (unat k) a i mod iu ?m" if i: "i < 2 ^ L" for i
  proof -
    obtain j where j: "j < 2 ^ L" "i = j * unat k mod 2 ^ L" using odd_mult_surj [OF k i] by blast
    have xj: "iu (x ! j) mod iu ?m = a j mod iu ?m" using restoresD(3) [OF x(2) j(1)] unfolding f slot_coeff .
    show ?thesis
    proof (cases "odd (j * unat k div 2 ^ L)")
      case True
      then have "iu (d ! i) = iu ?m - iu (x ! j)"
        using e [OF j(1)] less_imp_le [OF restoresD(2) [OF x(2) j(1)]] j(2) vx by (simp add: of_nat_diff del: int_nat_eq unsigned_of_nat)
      also have "\<dots> mod iu ?m = (iu ?m - a j) mod iu ?m" by (intro mod_diff_cong refl xj)
      also have "\<dots> = (- a j) mod iu ?m" using mod_add_self1 [of "iu ?m" "- a j"] by simp
      finally show ?thesis using auto_poly_at [OF k j(1), of a] True j(2) by simp
    next
      case False
      then have "iu (d ! i) mod iu ?m = a j mod iu ?m" using e [OF j(1)] j(2) vx xj by simp
      then show ?thesis using auto_poly_at [OF k j(1), of a] False j(2) by simp
    qed
  qed
  ultimately show ?thesis by (rule that)
qed

end
