(* ===== verification/Gadget.thy ===== *)
theory Gadget
  imports PolySem
begin

text \<open>
  \<open>BaseDecompose\<close> and \<open>PowersOfBase\<close>: digits of the coefficients and powers of the base, whose
  inner product is the product of the polynomials.
\<close>

subsection \<open>Decomposition in a base\<close>

definition digit :: "nat \<Rightarrow> nat \<Rightarrow> nat \<Rightarrow> nat" where
  "digit k i x = x div (2 ^ k) ^ i mod 2 ^ k"

lemma digit_sum: "(\<Sum>i<n. digit k i x * 2 ^ (i * k)) = x mod 2 ^ (n * k)"
proof (induction n)
  case (Suc n)
  have "x mod 2 ^ (Suc n * k) = 2 ^ (n * k) * (x div 2 ^ (n * k) mod 2 ^ k) + x mod 2 ^ (n * k)"
    using mod_mult2_eq [of x "2 ^ (n * k)" "2 ^ k"] by (simp add: power_add mult.commute)
  then show ?case using Suc by (simp add: digit_def power_mult [symmetric] mult.commute)
qed simp

lemma digit_le: "digit k i x \<le> x"
  unfolding digit_def by (meson div_le_dividend mod_less_eq_dividend order_trans)

lemma vGetDigit_entries:
  assumes k: "0 < k" "k \<le> 31" and i: "Suc i * k \<le> 64" and x: "restores m n u xs"
  obtains d where "vGetDigitAtIndexForBase (vec m xs) (of_nat (i + 1)) (push_bit k 1) = Inr (vec m d)"
    "restores m n (\<lambda>j. int (digit k i (unat (xs ! j)))) d"
proof -
  have "Suc i \<le> Suc i * k" using mult_le_mono2 [of 1 k "Suc i"] k(1) by simp
  then have i64: "i + 1 \<le> 64" using i by linarith
  then have ui: "unat (of_nat (i + 1) :: u32) = Suc i" by (subst unat_of_nat_u32) simp_all
  have b: "push_bit k 1 = (of_nat (2 ^ k) :: u32)" by (simp add: push_bit_eq_mult)
  have "\<exists>r. GetDigitAtIndexForBase x (of_nat (i + 1)) (push_bit k 1) = Inr r \<and> unat r = digit k i (unat x)" for x
    using GetDigitAtIndexForBase_correct [OF k, of "of_nat (i + 1)" x] i ui unfolding b digit_def by simp
  then obtain f where f: "\<And>x. GetDigitAtIndexForBase x (of_nat (i + 1)) (push_bit k 1) = Inr (f x)"
    "\<And>x. unat (f x) = digit k i (unat x)" by metis
  have uc: "unat (ucast w :: u64) = unat w" for w :: u32
    by (simp add: unsigned_ucast_eq take_bit_nat_eq_self_iff order.strict_trans2 [OF unsigned_less])
  define d where "d = map (\<lambda>x. ucast (f x) :: u64) xs"
  have "vGetDigitAtIndexForBase (vec m xs) (of_nat (i + 1)) (push_bit k 1) = Inr (vec m d)"
    unfolding vGetDigitAtIndexForBase_def f(1) ebind_simps nvec.simps d_def by (simp add: emap_all_Inr)
  moreover have "restores m n (\<lambda>j. int (digit k i (unat (xs ! j)))) d"
    unfolding restores_def
  proof (intro conjI allI impI)
    show "length d = n" using restoresD(1) [OF x] by (simp add: d_def)
    fix j assume j: "j < n"
    then have e: "unat (d ! j) = digit k i (unat (xs ! j))" using restoresD(1) [OF x] by (simp add: d_def uc f(2))
    show "unat (d ! j) < unat m" unfolding e using digit_le order.strict_trans1 restoresD(2) [OF x j] by blast
    show "iu (d ! j) mod iu m = int (digit k i (unat (xs ! j))) mod iu m" unfolding e ..
  qed
  ultimately show ?thesis by (rule that)
qed

lemma windows_eq:
  assumes "0 < unat b" "windows m b = Inr w"
  shows "bit_len (unat m) \<le> unat w * unat b"
proof -
  define N :: u32 where "N = GetLengthForBase m 2"
  have N: "unat N = bit_len (unat m)" by (simp add: N_def GetLengthForBase_def unat_GetMSB)
  have b: "b \<noteq> 0" using assms(1) by auto
  have w: "w = (if N mod b > 0 then N div b + 1 else N div b)" using assms(2) b by (auto simp: windows_def N_def Let_def split: if_splits)
  have e: "unat N = unat b * (unat N div unat b) + unat N mod unat b" by simp
  have small: "unat (N div b) + 1 < 2 ^ 32"
  proof -
    have "unat N \<le> 64" unfolding N by (rule bit_len_unat_le)
    moreover have "unat (N div b) \<le> unat N" by (simp add: unat_div)
    ultimately show ?thesis by simp
  qed
  show ?thesis
  proof (cases "N mod b > 0")
    case True
    have "unat (N div b + 1) = unat (N div b) + 1" using small unat_add_lem [of "N div b" 1] by simp
    then have "unat w = unat N div unat b + 1" using w True by (simp add: unat_div)
    moreover have "unat N mod unat b < unat b" using assms(1) by simp
    then have "unat N \<le> unat b * (unat N div unat b) + unat b" using e by linarith
    ultimately show ?thesis unfolding N [symmetric] by (simp add: algebra_simps)
  next
    case False
    then have "unat (N mod b) = 0" by (simp add: word_less_nat_alt)
    then have "unat N mod unat b = 0" by (simp add: unat_mod)
    moreover have "unat w = unat N div unat b" using False w by (simp add: unat_div)
    ultimately show ?thesis unfolding N [symmetric] using e by (simp add: mult.commute)
  qed
qed

text \<open>The loop over the windows, from the coefficients \<open>x\<close>.\<close>

lemma BaseDecompose_loop_represents:
  assumes r: "ring_ok P L" and k: "0 < unat bb" "unat bb \<le> 31"
    and x: "restores (m_ciphertextModulus P) (2 ^ L) u xs"
    and X: "X = \<lparr>m_format = COEFFICIENT, m_params = Some P, m_values = Some (vec (m_ciphertextModulus P) xs)\<rparr>"
    and D: "m_params D = Some P" and c: "caches_ok P L cs" and ws: "\<forall>i\<in>set ws. Suc i * unat bb \<le> 64"
  shows "\<exists>ds cs'. BaseDecompose_loop draw ws bb ev X D cs s = Some (Inr ((ds, cs'), s)) \<and> caches_ok P L cs' \<and>
    length ds = length ws \<and> (\<forall>i<length ws. m_format (ds ! i) = (if ev then EVALUATION else COEFFICIENT) \<and>
      represents P L (\<lambda>j. int (digit (unat bb) (ws ! i) (unat (xs ! j)))) (ds ! i))"
  using D c ws
proof (induction ws arbitrary: D cs)
  case Nil
  then show ?case by simp
next
  case (Cons i ws)
  let ?m = "m_ciphertextModulus P" and ?g = "\<lambda>i j. int (digit (unat bb) i (unat (xs ! j)))"
  have i: "Suc i * unat bb \<le> 64" using Cons.prems(3) by simp
  obtain d where d: "vGetDigitAtIndexForBase (vec ?m xs) (of_nat (i + 1)) (push_bit (unat bb) 1) = Inr (vec ?m d)"
    "restores ?m (2 ^ L) (?g i) d" by (rule vGetDigit_entries [OF k i x])
  define q where "q = \<lparr>m_format = COEFFICIENT, m_params = Some P, m_values = Some (vec ?m d)\<rparr>"
  have q: "represents P L (?g i) q" unfolding q_def by (rule representsI) (use d(2) in \<open>simp add: slot_coeff [abs_def]\<close>)
  have st: "ebind (GetValues X) (\<lambda>v. ebind (vGetDigitAtIndexForBase v (of_nat (i + 1)) (push_bit (unat bb) 1))
      (\<lambda>w. Poly_SetValues w (m_format X) D)) = Inr q"
    using Poly_SetValues_ok [OF r restoresD(1) [OF d(2)] Cons.prems(1)] d(1) by (simp add: X GetValues_def q_def)
  obtain p cs1 where p: "(if ev then SwitchFormat draw q cs s else Some (Inr ((q, cs), s))) = Some (Inr ((p, cs1), s))"
    "caches_ok P L cs1" "m_format p = (if ev then EVALUATION else COEFFICIENT)" "represents P L (?g i) p"
  proof (cases ev)
    case True
    obtain p cs1 where p: "SwitchFormat draw q cs s = Some (Inr ((p, cs1), s))" "caches_ok P L cs1"
      "m_format p \<noteq> m_format q" "represents P L (?g i) p" by (rule SwitchFormat_represents [OF r q Cons.prems(2)])
    have "m_format p = EVALUATION" using p(3) by (cases "m_format p") (simp_all add: q_def)
    then show ?thesis using that p True by simp
  next
    case False
    then show ?thesis using that q Cons.prems(2) by (simp add: q_def)
  qed
  have "m_params p = Some P" using p(4) by (simp add: represents_def)
  moreover have "\<forall>i\<in>set ws. Suc i * unat bb \<le> 64" using Cons.prems(3) by simp
  ultimately obtain ds cs' where ds: "BaseDecompose_loop draw ws bb ev X p cs1 s = Some (Inr ((ds, cs'), s))" "caches_ok P L cs'"
    "length ds = length ws" "\<forall>i<length ws. m_format (ds ! i) = (if ev then EVALUATION else COEFFICIENT) \<and> represents P L (?g (ws ! i)) (ds ! i)"
    using Cons.IH [of p cs1] p(2) by blast
  have "BaseDecompose_loop draw (i # ws) bb ev X D cs s = Some (Inr ((p # ds, cs'), s))"
    using st p(1) ds(1) k(2) by (simp add: rbind_def rlift_def)
  moreover have "m_format ((p # ds) ! j) = (if ev then EVALUATION else COEFFICIENT) \<and> represents P L (?g ((i # ws) ! j)) ((p # ds) ! j)"
    if "j < length (i # ws)" for j
    using that p(3,4) ds(4) by (cases j) simp_all
  ultimately show ?case using ds(2,3) by (intro exI [of _ "p # ds"] exI [of _ cs']) auto
qed

lemma BaseDecompose_represents:
  assumes r: "ring_ok P L" and p: "represents P L a p" and c: "caches_ok P L cs"
    and k: "0 < unat bb" "unat bb \<le> 31" and w: "windows (m_ciphertextModulus P) bb = Inr w" "unat w * unat bb \<le> 64"
  obtains ds cs' g where "BaseDecompose draw bb ev p cs s = Some (Inr ((ds, cs'), s))" "caches_ok P L cs'" "length ds = unat w"
    "\<And>i. i < unat w \<Longrightarrow> m_format (ds ! i) = (if ev then EVALUATION else COEFFICIENT) \<and> represents P L (g i) (ds ! i)"
    "\<And>i j. 0 \<le> g i j \<and> g i j < 2 ^ unat bb"
    "\<And>j. j < 2 ^ L \<Longrightarrow> (\<Sum>i<unat w. g i j * 2 ^ (i * unat bb)) = a j mod iu (m_ciphertextModulus P)"
proof -
  let ?m = "m_ciphertextModulus P"
  obtain x cs1 where x: "SetFormat draw COEFFICIENT p cs s = Some (Inr ((x, cs1), s))" "caches_ok P L cs1"
    "m_format x = COEFFICIENT" "represents P L a x" by (rule SetFormat_represents [OF r p c])
  obtain xs where xs: "x = \<lparr>m_format = m_format x, m_params = Some P, m_values = Some (vec ?m xs)\<rparr>"
    "restores ?m (2 ^ L) (slot P L (m_format x) a) xs" by (rule representsE [OF x(4)])
  define D where "D = \<lparr>m_format = EVALUATION, m_params = Some P, m_values = None\<rparr>"
  have ws: "\<forall>i\<in>set [0..<unat w]. Suc i * unat bb \<le> 64"
  proof
    fix i assume "i \<in> set [0..<unat w]"
    then have "Suc i * unat bb \<le> unat w * unat bb" by (intro mult_le_mono1) auto
    then show "Suc i * unat bb \<le> 64" using w(2) by linarith
  qed
  define g where "g = (\<lambda>i j. int (digit (unat bb) i (unat (xs ! j))))"
  obtain ds cs' where ds: "BaseDecompose_loop draw [0..<unat w] bb ev x D cs1 s = Some (Inr ((ds, cs'), s))" "caches_ok P L cs'"
    "length ds = unat w" "\<forall>i<unat w. m_format (ds ! i) = (if ev then EVALUATION else COEFFICIENT) \<and> represents P L (g i) (ds ! i)"
    using BaseDecompose_loop_represents [OF r k xs(2) xs(1) [unfolded x(3)], of D cs1 "[0..<unat w]" draw ev s] x(2) ws
    by (auto simp: D_def g_def)
  have P: "m_params p = Some P" using p by (simp add: represents_def)
  have "BaseDecompose draw bb ev p cs s = Some (Inr ((ds, cs'), s))"
    using ds(1) x(1) w(1) P by (simp add: BaseDecompose_def rbind_def rlift_def deref_def PolyImpl_def D_def)
  moreover have "0 \<le> g i j \<and> g i j < 2 ^ unat bb" for i j
  proof -
    have "digit (unat bb) i (unat (xs ! j)) < 2 ^ unat bb" by (simp add: digit_def)
    then have "int (digit (unat bb) i (unat (xs ! j))) < int (2 ^ unat bb)" by (simp only: of_nat_less_iff)
    then show ?thesis by (simp add: g_def)
  qed
  moreover have "(\<Sum>i<unat w. g i j * 2 ^ (i * unat bb)) = a j mod iu ?m" if j: "j < 2 ^ L" for j
  proof -
    have "unat (xs ! j) < unat ?m" by (rule restoresD(2) [OF xs(2) j])
    also have "\<dots> < 2 ^ bit_len (unat ?m)" by (rule bit_len_upper)
    also have "\<dots> \<le> 2 ^ (unat w * unat bb)" using windows_eq [OF k(1) w(1)] by (intro power_increasing) simp_all
    finally have "(\<Sum>i<unat w. digit (unat bb) i (unat (xs ! j)) * 2 ^ (i * unat bb)) = unat (xs ! j)"
      unfolding digit_sum by (rule mod_less)
    then have "int (\<Sum>i<unat w. digit (unat bb) i (unat (xs ! j)) * 2 ^ (i * unat bb)) = iu (xs ! j)" by simp
    then have "(\<Sum>i<unat w. g i j * 2 ^ (i * unat bb)) = iu (xs ! j)" by (simp add: g_def)
    moreover have "m_values x = Some (vec ?m xs)" using xs(1) by (cases x) auto
    ultimately show ?thesis using represents_coefficients [OF x(4,3) _ j] by simp
  qed
  ultimately show ?thesis using that ds(2-4) by blast
qed

lemma PowersOfBase_represents:
  assumes r: "ring_ok P L" and p: "represents P L a p" and k: "unat bb \<le> 31"
    and w: "windows (m_ciphertextModulus P) bb = Inr w" "unat w * unat bb \<le> 64"
  obtains ps where "PowersOfBase bb p = Inr ps" "length ps = unat w"
    "\<And>i. i < unat w \<Longrightarrow> m_format (ps ! i) = m_format p \<and> represents P L (\<lambda>j. a j * 2 ^ (i * unat bb)) (ps ! i)"
proof -
  let ?m = "m_ciphertextModulus P" and ?e = "\<lambda>i. ModExp 2 (of_nat i * ucast bb) (m_ciphertextModulus P)"
  have P: "m_params p = Some P" using p by (simp add: represents_def)
  have m1: "1 < unat ?m" using ring_okD(1) [OF r] by (auto simp: barrett_modulus_def)
  have e: "iu (?e i) mod iu ?m = 2 ^ (i * unat bb) mod iu ?m" if i: "i < unat w" for i
  proof -
    have "unat (ucast bb :: u64) = unat bb"
      by (simp add: unsigned_ucast_eq take_bit_nat_eq_self_iff order.strict_trans2 [OF unsigned_less])
    then have "ucast bb = (of_nat (unat bb) :: u64)" by (rule word_of_unat_eq)
    then have c: "of_nat i * ucast bb = (of_nat (i * unat bb) :: u64)" by simp
    have "i * unat bb \<le> unat w * unat bb" using i by (intro mult_le_mono1) simp
    then have "i * unat bb \<le> 64" using w(2) by (rule order_trans)
    then have "i * unat bb < 2 ^ 64" by simp
    then have "unat (of_nat (i * unat bb) :: u64) = i * unat bb"
      unfolding unsigned_of_nat by (simp add: take_bit_nat_eq_self)
    then have "unat (of_nat i * ucast bb :: u64) = i * unat bb" unfolding c .
    moreover have "unat (2 :: u64) = 2" by simp
    ultimately have "unat (?e i) = 2 ^ (i * unat bb) mod unat ?m" using ModExp_correct [OF m1, of 2 "of_nat i * ucast bb"] by (simp only:)
    then show ?thesis by (simp only: of_nat_mod of_nat_power of_nat_numeral mod_mod_trivial)
  qed
  have "\<exists>s. Poly_Times_s p (?e i) = Inr s \<and> m_format s = m_format p \<and> (i < unat w \<longrightarrow> represents P L (\<lambda>j. a j * 2 ^ (i * unat bb)) s)" for i
  proof -
    obtain s where s: "Poly_Times_s p (?e i) = Inr s" "m_format s = m_format p" "represents P L (\<lambda>j. a j * iu (?e i)) s"
      using Poly_Times_s_represents [OF r p, of "?e i"] by (elim exE conjE) (rule that)
    have "represents P L (\<lambda>j. a j * 2 ^ (i * unat bb)) s" if i: "i < unat w"
      by (rule represents_cong [OF s(3)]) (intro mod_mult_cong refl e i)
    then show ?thesis using s(1,2) by (intro exI [of _ s] conjI impI) assumption+
  qed
  then have "\<forall>i. \<exists>s. Poly_Times_s p (?e i) = Inr s \<and> m_format s = m_format p \<and>
    (i < unat w \<longrightarrow> represents P L (\<lambda>j. a j * 2 ^ (i * unat bb)) s)" by (rule allI)
  from choice [OF this] obtain f where f: "\<And>i. Poly_Times_s p (?e i) = Inr (f i)" "\<And>i. m_format (f i) = m_format p"
    "\<And>i. i < unat w \<Longrightarrow> represents P L (\<lambda>j. a j * 2 ^ (i * unat bb)) (f i)" by blast
  show ?thesis
  proof (rule that [of "map f [0..<unat w]"])
    show "PowersOfBase bb p = Inr (map f [0..<unat w])"
      using P w(1) f(1) by (simp add: PowersOfBase_def deref_def emap_all_Inr)
  qed (use f in simp_all)
qed

end
