(* ===== verification/RingModel.thy ===== *)
theory RingModel
  imports PolySem
begin

text \<open>
  The interface a client of the polynomial class relies on, as a locale over a relation between ring
  elements and their representations; programs over it (expressions, inner products) and what they
  compute; its interpretation on \<open>PolyImpl\<close> in evaluation format.
\<close>

section \<open>Facts\<close>

subsection \<open>A ring of represented elements\<close>

text \<open>
  What a client of the class may assume of it: a context \<open>c\<close> (the parameters), a relation between
  ring elements and their representations, and operations that respect it.
\<close>

locale represented_ring =
  fixes R :: "'c \<Rightarrow> 'r \<Rightarrow> 'p \<Rightarrow> bool"
    and radd rsub rmul :: "'c \<Rightarrow> 'r \<Rightarrow> 'r \<Rightarrow> 'r" and rneg :: "'c \<Rightarrow> 'r \<Rightarrow> 'r"
    and padd psub pmul :: "'p \<Rightarrow> 'p \<Rightarrow> 'p res" and pneg :: "'p \<Rightarrow> 'p res"
  assumes add: "R c a p \<Longrightarrow> R c b q \<Longrightarrow> \<exists>s. padd p q = Inr s \<and> R c (radd c a b) s"
    and sub: "R c a p \<Longrightarrow> R c b q \<Longrightarrow> \<exists>s. psub p q = Inr s \<and> R c (rsub c a b) s"
    and mul: "R c a p \<Longrightarrow> R c b q \<Longrightarrow> \<exists>s. pmul p q = Inr s \<and> R c (rmul c a b) s"
    and neg: "R c a p \<Longrightarrow> \<exists>s. pneg p = Inr s \<and> R c (rneg c a) s"

text \<open>Programs over the operations: expressions, and the inner product of two lists.\<close>

datatype ring_expr = EVar nat | EAdd ring_expr ring_expr | ESub ring_expr ring_expr | EMul ring_expr ring_expr | ENeg ring_expr

fun ring_value :: "('r \<Rightarrow> 'r \<Rightarrow> 'r) \<Rightarrow> ('r \<Rightarrow> 'r \<Rightarrow> 'r) \<Rightarrow> ('r \<Rightarrow> 'r \<Rightarrow> 'r) \<Rightarrow> ('r \<Rightarrow> 'r) \<Rightarrow> (nat \<Rightarrow> 'r) \<Rightarrow> ring_expr \<Rightarrow> 'r" where
  "ring_value A S M N env (EVar i) = env i"
| "ring_value A S M N env (EAdd x y) = A (ring_value A S M N env x) (ring_value A S M N env y)"
| "ring_value A S M N env (ESub x y) = S (ring_value A S M N env x) (ring_value A S M N env y)"
| "ring_value A S M N env (EMul x y) = M (ring_value A S M N env x) (ring_value A S M N env y)"
| "ring_value A S M N env (ENeg x) = N (ring_value A S M N env x)"

fun run_expr :: "('p \<Rightarrow> 'p \<Rightarrow> 'p res) \<Rightarrow> ('p \<Rightarrow> 'p \<Rightarrow> 'p res) \<Rightarrow> ('p \<Rightarrow> 'p \<Rightarrow> 'p res) \<Rightarrow> ('p \<Rightarrow> 'p res) \<Rightarrow> (nat \<Rightarrow> 'p) \<Rightarrow> ring_expr \<Rightarrow> 'p res" where
  "run_expr A S M N env (EVar i) = Inr (env i)"
| "run_expr A S M N env (EAdd x y) = ebind (run_expr A S M N env x) (\<lambda>p. ebind (run_expr A S M N env y) (A p))"
| "run_expr A S M N env (ESub x y) = ebind (run_expr A S M N env x) (\<lambda>p. ebind (run_expr A S M N env y) (S p))"
| "run_expr A S M N env (EMul x y) = ebind (run_expr A S M N env x) (\<lambda>p. ebind (run_expr A S M N env y) (M p))"
| "run_expr A S M N env (ENeg x) = ebind (run_expr A S M N env x) N"

fun dot :: "('p \<Rightarrow> 'p \<Rightarrow> 'p res) \<Rightarrow> ('p \<Rightarrow> 'p \<Rightarrow> 'p res) \<Rightarrow> 'p \<Rightarrow> ('p \<times> 'p) list \<Rightarrow> 'p res" where
  "dot A M z [] = Inr z"
| "dot A M z ((x, y) # r) = ebind (M x y) (\<lambda>t. ebind (A z t) (\<lambda>z. dot A M z r))"

context represented_ring
begin

lemma expression_represents:
  assumes "\<And>i. R c (a i) (p i)"
  shows "\<exists>s. run_expr padd psub pmul pneg p e = Inr s \<and> R c (ring_value (radd c) (rsub c) (rmul c) (rneg c) a e) s"
proof (induction e)
  case (EAdd x y)
  then show ?case using add by fastforce
next
  case (ESub x y)
  then show ?case using sub by fastforce
next
  case (EMul x y)
  then show ?case using mul by fastforce
next
  case (ENeg x)
  then show ?case using neg by fastforce
qed (use assms in simp)

lemma dot_represents:
  assumes "R c z p" "length xs = length ys" "\<And>i. i < length ys \<Longrightarrow> R c (a i) (xs ! i)" "\<And>i. i < length ys \<Longrightarrow> R c (b i) (ys ! i)"
  shows "\<exists>s. dot padd pmul p (zip xs ys) = Inr s \<and>
    R c (fold (\<lambda>i z. radd c z (rmul c (a i) (b i))) [0..<length ys] z) s"
  using assms
proof (induction ys arbitrary: xs z p a b)
  case (Cons y ys)
  then obtain x xs' where xs: "xs = x # xs'" by (cases xs) auto
  obtain t where t: "pmul x y = Inr t" "R c (rmul c (a 0) (b 0)) t" using mul [of c "a 0" x "b 0" y] Cons.prems(3,4) [of 0] by (auto simp: xs)
  obtain u where u: "padd p t = Inr u" "R c (radd c z (rmul c (a 0) (b 0))) u" using add [OF Cons.prems(1) t(2)] by blast
  have "R c (a (Suc i)) (xs' ! i)" "R c (b (Suc i)) (ys ! i)" if "i < length ys" for i
    using that Cons.prems(3,4) [of "Suc i"] by (simp_all add: xs)
  from Cons.IH [OF u(2) _ this] obtain s where s: "dot padd pmul u (zip xs' ys) = Inr s"
    "R c (fold (\<lambda>i z. radd c z (rmul c (a (Suc i)) (b (Suc i)))) [0..<length ys] (radd c z (rmul c (a 0) (b 0)))) s"
    using Cons.prems(2) xs by auto
  have "[0..<length (y # ys)] = 0 # map Suc [0..<length ys]" by (simp add: upt_conv_Cons map_Suc_upt del: upt_Suc)
  then show ?case using s t(1) u(1) by (simp add: xs fold_map comp_def)
qed simp

end

text \<open>The class in evaluation format is such a ring.\<close>

definition represented :: "elem_params \<times> nat \<Rightarrow> (nat \<Rightarrow> int) \<Rightarrow> poly \<Rightarrow> bool" where
  "represented c a p \<longleftrightarrow> ring_ok (fst c) (snd c) \<and> represents (fst c) (snd c) a p \<and> m_format p = EVALUATION"

interpretation evaluation_ring: represented_ring represented "\<lambda>c a b i. a i + b i" "\<lambda>c a b i. a i - b i"
  "\<lambda>c. negacyclic (2 ^ snd c)" "\<lambda>c a i. - a i" Poly_Plus Poly_Minus Poly_Times Poly_Negate
proof unfold_locales
  fix c :: "elem_params \<times> nat" and a b p q
  assume p: "represented c a p"
  note r = p [unfolded represented_def]
  show "\<exists>s. Poly_Negate p = Inr s \<and> represented c (\<lambda>i. - a i) s"
    using Poly_Negate_represents [of "fst c" "snd c" a p] r by (auto simp: represented_def)
  assume "represented c b q"
  note r = r this [unfolded represented_def]
  show "\<exists>s. Poly_Plus p q = Inr s \<and> represented c (\<lambda>i. a i + b i) s"
    using Poly_Plus_represents [of "fst c" "snd c" a p b q] r by (auto simp: represented_def)
  show "\<exists>s. Poly_Minus p q = Inr s \<and> represented c (\<lambda>i. a i - b i) s"
    using Poly_Minus_represents [of "fst c" "snd c" a p b q] r by (auto simp: represented_def)
  show "\<exists>s. Poly_Times p q = Inr s \<and> represented c (negacyclic (2 ^ snd c) a b) s"
    using Poly_Times_represents [of "fst c" "snd c" a p b q] r by (auto simp: represented_def)
qed

subsection \<open>Sums of negacyclic products\<close>

lemma negacyclic_scale: "negacyclic n a (\<lambda>j. b j * c) k = negacyclic n (\<lambda>j. a j * c) b k"
  unfolding negacyclic_def by (intro sum.cong) (auto simp: algebra_simps)

lemma negacyclic_sum: "(\<Sum>i<w. negacyclic n (g i) b k) = negacyclic n (\<lambda>j. \<Sum>i<w. g i j) b k"
  unfolding negacyclic_def by (subst sum.swap) (simp add: sum_distrib_right)

lemma negacyclic_cong_left:
  assumes "\<And>i. i < n \<Longrightarrow> a i mod q = a' i mod q"
  shows "negacyclic n a b k mod q = negacyclic n a' b k mod q"
  unfolding negacyclic_def by (intro sum_mod_cong mod_mult_cong refl assms) simp

lemma fold_sum: "fold (\<lambda>i z. (\<lambda>j. z j + f i j)) [0..<w] z = (\<lambda>j. z j + (\<Sum>i<w. f i j))" for f :: "nat \<Rightarrow> nat \<Rightarrow> int"
  by (induction w) (simp_all add: fun_eq_iff)

end
