(* ===== verification/PolyProps.thy ===== *)
theory PolyProps
  imports PolyAuto Gadget RingModel
begin

text \<open>
  The properties of \<open>PolyImpl\<close>: its operations refine those of the ring \<open>Z_q[X] / (X ^ n + 1)\<close>.
\<close>

section \<open>Facts\<close>

definition params_of_17 :: elem_params where
  "params_of_17 = \<lparr>m_ringDimension = 4, m_cyclotomicOrder = 8, m_ciphertextModulus = 17, m_rootOfUnity = 2,
     m_bigCiphertextModulus = 0, m_bigRootOfUnity = 0\<rparr>"

definition poly_17 :: "Format \<Rightarrow> u64 list \<Rightarrow> poly" where
  "poly_17 fmt xs = \<lparr>m_format = fmt, m_params = Some params_of_17, m_values = Some (vec 17 xs)\<rparr>"

lemma ring_17: "ring_ok params_of_17 2"
  using params_17 by (simp add: ring_ok_def params_of_17_def)

lemma poly_17_ok: "length xs = 4 \<Longrightarrow> reduced 17 xs \<Longrightarrow> poly_ok params_of_17 2 (poly_17 fmt xs)"
  using ring_okD(1) [OF ring_17]
  by (auto simp: poly_ok_def poly_17_def ntt_vec_def nv_ok_def params_of_17_def barrett_head_room)

lemma poly_17_represents:
  assumes "length xs = 4" "reduced 17 xs"
  shows "represents params_of_17 2 (\<lambda>i. iu (xs ! i)) (poly_17 COEFFICIENT xs)"
  using coefficients_represented [OF poly_17_ok [OF assms]] by (simp add: poly_17_def)

lemma poly_17_element:
  assumes "length xs = 4" "reduced 17 xs"
  obtains a where "represents params_of_17 2 a (poly_17 fmt xs)"
  using every_element_represents [OF ring_17 poly_17_ok [OF assms]] by blast

lemmas poly_17_simps = poly_17_def params_of_17_def reduced_def

lemma load_save_u64: "v \<le> SerializedVersion \<Longrightarrow> load_u64 v (save_u64 y @ r) = Inr y"
  by (simp add: load_u64_def save_u64_def)

lemma ucast_ucast_u32: "ucast (ucast (y :: u32) :: u64) = y"
  by (simp add: ucast_up_ucast_id is_up)

subsection \<open>Polynomials in different formats\<close>

lemma mixed_format_entries:
  assumes r: "ring_ok P L" and p: "poly_ok P L p" and q: "poly_ok P L q"
  shows "\<exists>s t. Poly_Minus p q = Inr s \<and> Poly_MinusEq p q = Inr s \<and> Poly_PlusEq p q = Inr t \<and> Poly_PlusNoCheck p q = Inr t \<and>
    m_format s = m_format p \<and> m_format t = m_format p \<and> poly_ok P L s \<and> poly_ok P L t"
proof -
  define q' where "q' = q\<lparr>m_format := m_format p\<rparr>"
  have "poly_ok P L q'" using q by (simp add: poly_ok_def q'_def)
  then obtain a b where ab: "represents P L a p" "represents P L b q'"
    using every_element_represents [OF r] p by blast
  have f: "m_format p = m_format q'" by (simp add: q'_def)
  have e: "Poly_Minus p q = Poly_Minus p q'" "Poly_MinusEq p q = Poly_MinusEq p q'" "Poly_PlusEq p q = Poly_PlusEq p q'"
    "Poly_PlusNoCheck p q = Poly_PlusNoCheck p q'"
    by (simp_all add: q'_def Poly_Minus_def Poly_MinusEq_def Poly_PlusEq_def Poly_PlusNoCheck_def update_values_def split: option.splits)
  obtain s where s: "Poly_Minus p q' = Inr s" "Poly_MinusEq p q' = Inr s" "m_format s = m_format p"
    "represents P L (\<lambda>i. a i - b i) s" using Poly_Minus_represents [OF r ab f] by blast
  obtain t where t: "Poly_PlusEq p q' = Inr t" "Poly_PlusNoCheck p q' = Inr t" "m_format t = m_format p"
    "represents P L (\<lambda>i. a i + b i) t" using Poly_Plus_represents [OF r ab f] by blast
  show ?thesis using s t represents_ok [OF r] unfolding e by blast
qed

definition yields_ok :: "elem_params \<Rightarrow> nat \<Rightarrow> Format \<Rightarrow> poly res \<Rightarrow> bool" where
  "yields_ok P L fmt r \<longleftrightarrow> (\<exists>s. r = Inr s \<and> poly_ok P L s \<and> m_format s = fmt)"

lemma yields_okI: "ring_ok P L \<Longrightarrow> \<exists>s. r = Inr s \<and> m_format s = fmt \<and> represents P L c s \<Longrightarrow> yields_ok P L fmt r"
  using represents_ok by (auto simp: yields_ok_def)

lemma yields_okI2: "ring_ok P L \<Longrightarrow> \<exists>s. r = Inr s \<and> r' = Inr s \<and> m_format s = fmt \<and> represents P L c s \<Longrightarrow>
    yields_ok P L fmt r \<and> yields_ok P L fmt r'"
  using represents_ok by (auto simp: yields_ok_def)

lemma yields_okI3: "ring_ok P L \<Longrightarrow> \<exists>s. r = Inr s \<and> r' = Inr s \<and> r'' = Inr s \<and> m_format s = fmt \<and> represents P L c s \<Longrightarrow>
    yields_ok P L fmt r \<and> yields_ok P L fmt r' \<and> yields_ok P L fmt r''"
  using represents_ok by (auto simp: yields_ok_def)

section \<open>Properties\<close>

text \<open>
  Addition, subtraction and negation of polynomials in the same format refine those of the ring, in
  either format; the checked, unchecked and compound versions give the same polynomial.
\<close>

theorem addition_refines:
  assumes "ring_ok P L" "represents P L a p" "represents P L b q" "m_format p = m_format q"
  shows "(\<exists>s. Poly_Plus p q = Inr s \<and> Poly_PlusEq p q = Inr s \<and> Poly_PlusNoCheck p q = Inr s \<and>
      m_format s = m_format p \<and> represents P L (\<lambda>i. a i + b i) s) \<and>
    (\<exists>s. Poly_Minus p q = Inr s \<and> Poly_MinusEq p q = Inr s \<and>
      m_format s = m_format p \<and> represents P L (\<lambda>i. a i - b i) s) \<and>
    (\<exists>s. Poly_Negate p = Inr s \<and> Poly_uminus p = Inr s \<and>
      m_format s = m_format p \<and> represents P L (\<lambda>i. - a i) s)"
  using Poly_Plus_represents [OF assms] Poly_Minus_represents [OF assms] Poly_Negate_represents [OF assms(1,2)]
  by (intro conjI)

theorem addition_refines_witness:
  "\<exists>s. Poly_Plus (poly_17 COEFFICIENT [1, 2, 3, 4]) (poly_17 COEFFICIENT [16, 0, 5, 15]) = Inr s \<and>
    represents params_of_17 2 (\<lambda>i. iu ([1, 2, 3, 4 :: u64] ! i) + iu ([16, 0, 5, 15 :: u64] ! i)) s"
  using addition_refines [OF ring_17 poly_17_represents [of "[1, 2, 3, 4]"] poly_17_represents [of "[16, 0, 5, 15]"]]
  by (auto simp: poly_17_simps)

text \<open>
  C2. Multiplication of polynomials in evaluation format refines the product modulo \<open>X ^ n + 1\<close>; the
  checked, unchecked and compound versions give the same polynomial.
\<close>

theorem multiplication_refines:
  assumes "ring_ok P L" "represents P L a p" "represents P L b q" "m_format p = EVALUATION" "m_format q = EVALUATION"
  shows "\<exists>s. Poly_Times p q = Inr s \<and> Poly_TimesEq p q = Inr s \<and> Poly_TimesNoCheck p q = Inr s \<and>
    m_format s = EVALUATION \<and> represents P L (negacyclic (2 ^ L) a b) s"
  by (rule Poly_Times_represents [OF assms])

theorem multiplication_refines_witness:
  "\<exists>a b s. represents params_of_17 2 a (poly_17 EVALUATION [3, 2, 0, 4]) \<and>
    represents params_of_17 2 b (poly_17 EVALUATION [16, 1, 5, 15]) \<and>
    Poly_Times (poly_17 EVALUATION [3, 2, 0, 4]) (poly_17 EVALUATION [16, 1, 5, 15]) = Inr s \<and>
    represents params_of_17 2 (negacyclic (2 ^ 2) a b) s"
proof -
  obtain a where a: "represents params_of_17 2 a (poly_17 EVALUATION [3, 2, 0, 4])"
    by (rule poly_17_element [of "[3, 2, 0, 4]"]) (simp_all add: reduced_def)
  obtain b where b: "represents params_of_17 2 b (poly_17 EVALUATION [16, 1, 5, 15])"
    by (rule poly_17_element [of "[16, 1, 5, 15]"]) (simp_all add: reduced_def)
  show ?thesis using a b multiplication_refines [OF ring_17 a b] by (auto simp: poly_17_def)
qed

text \<open>
  C28. A change of format does not change the ring element and never fails, from caches that hold nothing for the
  modulus or the tables of this very root; changing twice gives the polynomial back, word for word.
\<close>

theorem format_switch:
  assumes "ring_ok P L" "represents P L a p" "caches_ok P L cs"
  shows "\<exists>q cs' cs''. SwitchFormat draw p cs s = Some (Inr ((q, cs'), s)) \<and> represents P L a q \<and>
    m_format q \<noteq> m_format p \<and> caches_ok P L cs' \<and> SwitchFormat draw q cs' s' = Some (Inr ((p, cs''), s'))"
proof -
  obtain q cs' where q: "SwitchFormat draw p cs s = Some (Inr ((q, cs'), s))" "caches_ok P L cs'"
    "m_format q \<noteq> m_format p" "represents P L a q" by (rule SwitchFormat_represents [OF assms])
  obtain r cs'' where r: "SwitchFormat draw q cs' s' = Some (Inr ((r, cs''), s'))" "m_format r \<noteq> m_format q"
    "represents P L a r" by (rule SwitchFormat_represents [OF assms(1) q(4,2)])
  have "m_format r = m_format p" using r(2) q(3) Format.exhaust by metis
  then have "r = p" by (rule represents_unique [OF r(3) assms(2)])
  then show ?thesis using q r(1) by blast
qed

theorem format_switch_witness:
  "\<exists>q cs' cs''. SwitchFormat (\<lambda>n s. (0, s)) (poly_17 COEFFICIENT [1, 2, 3, 4]) (Reset, arb_init) () = Some (Inr ((q, cs'), ())) \<and>
    SwitchFormat (\<lambda>n s. (0, s)) q cs' () = Some (Inr ((poly_17 COEFFICIENT [1, 2, 3, 4], cs''), ()))"
  using format_switch [OF ring_17 poly_17_represents [of "[1, 2, 3, 4]"], of "(Reset, arb_init)" "\<lambda>n s. (0, s)" "()" "()"]
  by (auto simp: Reset_cache_ok reduced_def)

text \<open>
  C5. In evaluation format the automorphism of an odd index \<open>k\<close> takes the element \<open>a(X)\<close> to \<open>a(X^k)\<close>
  modulo \<open>X ^ n + 1\<close>, and the variant with the precomputed table of \<open>k\<close> gives the same polynomial.
\<close>

theorem automorphism_refines:
  assumes "ring_ok P L" "represents P L a p" "m_format p = EVALUATION" "odd (unat k)" "length table = 2 ^ L"
  shows "\<exists>s t. AutomorphismTransform k p = Inr s \<and> m_format s = EVALUATION \<and>
    represents P L (auto_poly (2 ^ L) (unat k) a) s \<and>
    PrecomputeAutoMap (m_ringDimension P) k table = Inr t \<and> AutomorphismTransform_precomp k t p = Inr s"
proof -
  obtain d where d: "AutomorphismTransform k p =
      Inr \<lparr>m_format = EVALUATION, m_params = Some P, m_values = Some (vec (m_ciphertextModulus P) d)\<rparr>"
    "restores (m_ciphertextModulus P) (2 ^ L) (slot P L EVALUATION (auto_poly (2 ^ L) (unat k) a)) d"
    by (rule AutomorphismTransform_evaluation [OF assms(1-4)])
  obtain t where "PrecomputeAutoMap (m_ringDimension P) k table = Inr t"
    "AutomorphismTransform_precomp k t p = AutomorphismTransform k p"
    using AutomorphismTransform_precomp_eq [OF assms] by blast
  then show ?thesis using d(1) representsI [OF d(2)] by auto
qed

theorem automorphism_refines_witness:
  "\<exists>a s t. represents params_of_17 2 a (poly_17 EVALUATION [3, 2, 0, 4]) \<and>
    AutomorphismTransform 5 (poly_17 EVALUATION [3, 2, 0, 4]) = Inr s \<and> represents params_of_17 2 (auto_poly (2 ^ 2) 5 a) s \<and>
    PrecomputeAutoMap 4 5 [0, 0, 0, 0] = Inr t \<and> AutomorphismTransform_precomp 5 t (poly_17 EVALUATION [3, 2, 0, 4]) = Inr s"
proof -
  obtain a where a: "represents params_of_17 2 a (poly_17 EVALUATION [3, 2, 0, 4])"
    by (rule poly_17_element [of "[3, 2, 0, 4]"]) (simp_all add: reduced_def)
  show ?thesis using a automorphism_refines [OF ring_17 a, of 5 "[0, 0, 0, 0]"] by (auto simp: poly_17_simps)
qed

text \<open>
  In coefficient format the automorphism is right modulo \<open>q\<close>, but the entry it writes for a
  coefficient \<open>0\<close> whose power of \<open>X\<close> turns negative is \<open>q\<close> itself: the result breaks the invariant that
  entries are less than the modulus.
\<close>

theorem automorphism_unreduced:
  assumes "ring_ok P L" "represents P L a p" "m_format p = COEFFICIENT" "odd (unat k)" "m_values p = Some v"
    and "j < 2 ^ L" "m_data v ! j = 0" "odd (j * unat k div 2 ^ L)"
  shows "\<exists>s d. AutomorphismTransform k p = Inr s \<and> m_values s = Some (vec (m_ciphertextModulus P) d) \<and>
    (\<forall>i<2 ^ L. iu (d ! i) mod iu (m_ciphertextModulus P) = auto_poly (2 ^ L) (unat k) a i mod iu (m_ciphertextModulus P)) \<and>
    d ! (j * unat k mod 2 ^ L) = m_ciphertextModulus P \<and> \<not> poly_ok P L s"
proof -
  obtain d where d: "AutomorphismTransform k p =
      Inr \<lparr>m_format = COEFFICIENT, m_params = Some P, m_values = Some (vec (m_ciphertextModulus P) d)\<rparr>" "length d = 2 ^ L"
    "\<And>j. j < 2 ^ L \<Longrightarrow> unat (d ! (j * unat k mod 2 ^ L)) =
       (if odd (j * unat k div 2 ^ L) then unat (m_ciphertextModulus P) - unat (m_data v ! j) else unat (m_data v ! j))"
    "\<And>i. i < 2 ^ L \<Longrightarrow> iu (d ! i) mod iu (m_ciphertextModulus P) = auto_poly (2 ^ L) (unat k) a i mod iu (m_ciphertextModulus P)"
    by (rule AutomorphismTransform_coefficient [OF assms(1-5)]) blast
  have e: "d ! (j * unat k mod 2 ^ L) = m_ciphertextModulus P" using d(3) [OF assms(6)] assms(7,8) by (simp add: word_unat_eq_iff)
  have "\<not> reduced (m_ciphertextModulus P) d" using reduced_nth [of _ d "j * unat k mod 2 ^ L"] d(2) e by fastforce
  then show ?thesis using d(1,4) e by (intro exI conjI) (auto simp: poly_ok_def ntt_vec_def nv_ok_def)
qed

theorem automorphism_unreduced_witness:
  "\<exists>s d. AutomorphismTransform 3 (poly_17 COEFFICIENT [1, 0, 0, 2]) = Inr s \<and> m_values s = Some (vec 17 d) \<and>
    d ! 2 = 17 \<and> \<not> poly_ok params_of_17 2 s"
  using automorphism_unreduced [OF ring_17 poly_17_represents [of "[1, 0, 0, 2]"], of 3 "vec 17 [1, 0, 0, 2]" 2]
  by (auto simp: poly_17_simps)

text \<open>
  A scalar. Multiplication by a word or a signed integer scales the element; addition adds the
  constant polynomial in either format, but subtraction does so only in evaluation format and
  subtracts the scalar from every coefficient otherwise.
\<close>

theorem scalar_operations:
  assumes "ring_ok P L" "represents P L a p" "- (2 ^ 63) < z" "z < 2 ^ 63"
  shows "(\<exists>s. Poly_Times_s p c = Inr s \<and> Poly_TimesEq_s p c = Inr s \<and> represents P L (\<lambda>i. a i * iu c) s) \<and>
    (\<exists>s. Poly_Times_signed p z = Inr s \<and> represents P L (\<lambda>i. a i * z) s) \<and>
    (\<exists>s. Poly_Plus_s p c = Inr s \<and> Poly_PlusEq_s p c = Inr s \<and> represents P L (\<lambda>i. a i + const_poly (iu c) i) s) \<and>
    (\<exists>s. Poly_Minus_s p c = Inr s \<and> Poly_MinusEq_s p c = Inr s \<and>
      represents P L (\<lambda>i. a i - (if m_format p = EVALUATION then const_poly (iu c) i else iu c)) s)"
  using Poly_Times_s_represents [OF assms(1,2), of c] Poly_Times_signed_represents [OF assms]
    Poly_Plus_s_represents [OF assms(1,2), of c] Poly_Minus_s_represents [OF assms(1,2), of c]
  by (elim exE conjE) (intro conjI exI; assumption)

theorem scalar_operations_witness:
  "(\<exists>s. Poly_Minus_s (poly_17 COEFFICIENT [1, 2, 3, 4]) 5 = Inr s \<and>
      represents params_of_17 2 (\<lambda>i. iu ([1, 2, 3, 4 :: u64] ! i) - 5) s) \<and>
    (\<exists>s. Poly_Plus_s (poly_17 COEFFICIENT [1, 2, 3, 4]) 5 = Inr s \<and>
      represents params_of_17 2 (\<lambda>i. iu ([1, 2, 3, 4 :: u64] ! i) + const_poly 5 i) s)"
  using scalar_operations [OF ring_17 poly_17_represents [of "[1, 2, 3, 4]"], of 3 5] by (auto simp: poly_17_simps)

text \<open>
  C27. A program over the operators \<open>+\<close>, \<open>-\<close>, \<open>*\<close> and \<open>Negate\<close> on polynomials in evaluation format
  never fails, and its result stands for the value of the same expression in the ring: the class is a
  faithful implementation of \<open>Z_q[X] / (X ^ n + 1)\<close> and not only operation by operation.
\<close>

theorem ring_expressions:
  assumes "ring_ok P L" "\<And>i. represents P L (a i) (p i)" "\<And>i. m_format (p i) = EVALUATION"
  shows "\<exists>s. run_expr Poly_Plus Poly_Minus Poly_Times Poly_Negate p e = Inr s \<and> m_format s = EVALUATION \<and>
    represents P L (ring_value (\<lambda>a b i. a i + b i) (\<lambda>a b i. a i - b i) (negacyclic (2 ^ L)) (\<lambda>a i. - a i) a e) s"
  using evaluation_ring.expression_represents [of "(P, L)" a p e] assms by (auto simp: represented_def)

theorem ring_expressions_witness:
  "\<exists>a s. represents params_of_17 2 a (poly_17 EVALUATION [3, 2, 0, 4]) \<and>
    run_expr Poly_Plus Poly_Minus Poly_Times Poly_Negate (\<lambda>_. poly_17 EVALUATION [3, 2, 0, 4])
      (ESub (EMul (EVar 0) (EAdd (EVar 1) (EVar 0))) (ENeg (EVar 2))) = Inr s \<and>
    represents params_of_17 2 (\<lambda>i. negacyclic (2 ^ 2) a (\<lambda>i. a i + a i) i - - a i) s"
proof -
  obtain a where a: "represents params_of_17 2 a (poly_17 EVALUATION [3, 2, 0, 4])"
    by (rule poly_17_element [of "[3, 2, 0, 4]"]) (simp_all add: reduced_def)
  show ?thesis using a ring_expressions [OF ring_17 a, of "ESub (EMul (EVar 0) (EAdd (EVar 1) (EVar 0))) (ENeg (EVar 2))"]
    by (auto simp: poly_17_def)
qed

text \<open>
  C6. The digits of \<open>BaseDecompose\<close> and the powers of \<open>PowersOfBase\<close> are dual: the inner product of
  the two lists, as a key switch forms it, is the product of the two polynomials, while every digit is
  small. The windows must fit in the word: \<open>nWindows * baseBits \<le> 64\<close>.
\<close>

theorem gadget_decomposition:
  assumes "ring_ok P L" "represents P L a p" "represents P L b q" "m_format q = EVALUATION" "caches_ok P L cs"
    and "0 < unat baseBits" "unat baseBits \<le> 31"
    and "windows (m_ciphertextModulus P) baseBits = Inr w" "unat w * unat baseBits \<le> 64"
  shows "\<exists>ds cs' ps z g r. BaseDecompose draw baseBits True p cs s = Some (Inr ((ds, cs'), s)) \<and>
    PowersOfBase baseBits q = Inr ps \<and> length ds = unat w \<and> length ps = unat w \<and>
    (\<forall>i<unat w. represents P L (g i) (ds ! i) \<and> (\<forall>j. 0 \<le> g i j \<and> g i j < 2 ^ unat baseBits)) \<and>
    PolyImpl (Some P) EVALUATION True = Inr z \<and> dot Poly_Plus Poly_Times z (zip ds ps) = Inr r \<and>
    represents P L (negacyclic (2 ^ L) a b) r"
proof -
  let ?n = "2 ^ L :: nat" and ?k = "unat baseBits" and ?q = "iu (m_ciphertextModulus P)"
  obtain ds cs' g where ds: "BaseDecompose draw baseBits True p cs s = Some (Inr ((ds, cs'), s))" "caches_ok P L cs'" "length ds = unat w"
    "\<And>i. i < unat w \<Longrightarrow> m_format (ds ! i) = (if True then EVALUATION else COEFFICIENT) \<and> represents P L (g i) (ds ! i)"
    "\<And>i j. 0 \<le> g i j \<and> g i j < 2 ^ ?k"
    "\<And>j. j < 2 ^ L \<Longrightarrow> (\<Sum>i<unat w. g i j * 2 ^ (i * ?k)) = a j mod ?q"
    by (rule BaseDecompose_represents [OF assms(1,2,5-9), of draw True s]) blast
  obtain ps where ps: "PowersOfBase baseBits q = Inr ps" "length ps = unat w"
    "\<And>i. i < unat w \<Longrightarrow> m_format (ps ! i) = m_format q \<and> represents P L (\<lambda>j. b j * 2 ^ (i * ?k)) (ps ! i)"
    by (rule PowersOfBase_represents [OF assms(1,3,7-9)]) blast
  obtain z where z: "PolyImpl (Some P) EVALUATION True = Inr z" "m_format z = EVALUATION" "represents P L (\<lambda>i. 0) z"
    using zero_represents [OF assms(1)] by blast
  have "\<exists>r. dot Poly_Plus Poly_Times z (zip ds ps) = Inr r \<and> represented (P, L)
      (fold (\<lambda>i z j. z j + negacyclic (2 ^ snd (P, L)) (g i) (\<lambda>j. b j * 2 ^ (i * ?k)) j) [0..<length ps] (\<lambda>i. 0)) r"
    by (rule evaluation_ring.dot_represents)
      (use assms(1,4) ds(3,4) ps z in \<open>simp_all add: represented_def\<close>)
  then obtain r where r: "dot Poly_Plus Poly_Times z (zip ds ps) = Inr r"
    "represents P L (\<lambda>j. \<Sum>i<unat w. negacyclic ?n (g i) (\<lambda>j. b j * 2 ^ (i * ?k)) j) r"
    unfolding fold_sum ps(2) by (auto simp: represented_def)
  have "(\<Sum>i<unat w. negacyclic ?n (g i) (\<lambda>j. b j * 2 ^ (i * ?k)) j) = negacyclic ?n (\<lambda>j. \<Sum>i<unat w. g i j * 2 ^ (i * ?k)) b j" for j
    unfolding negacyclic_scale by (rule negacyclic_sum)
  moreover have "negacyclic ?n (\<lambda>j. \<Sum>i<unat w. g i j * 2 ^ (i * ?k)) b j mod ?q = negacyclic ?n a b j mod ?q" for j
    by (rule negacyclic_cong_left) (simp only: ds(6) mod_mod_trivial)
  ultimately have "represents P L (negacyclic ?n a b) r" by (intro represents_cong [OF r(2)]) simp
  then show ?thesis using ds(1,3-5) ps(1,2) z(1) r(1) by blast
qed

theorem gadget_decomposition_witness:
  "\<exists>a b ds cs' ps z r. represents params_of_17 2 a (poly_17 COEFFICIENT [16, 7, 0, 12]) \<and>
    represents params_of_17 2 b (poly_17 EVALUATION [3, 2, 0, 4]) \<and>
    BaseDecompose (\<lambda>n s. (0, s)) 2 True (poly_17 COEFFICIENT [16, 7, 0, 12]) (Reset, arb_init) () = Some (Inr ((ds, cs'), ())) \<and>
    PowersOfBase 2 (poly_17 EVALUATION [3, 2, 0, 4]) = Inr ps \<and> length ds = 3 \<and>
    dot Poly_Plus Poly_Times z (zip ds ps) = Inr r \<and> represents params_of_17 2 (negacyclic (2 ^ 2) a b) r"
proof -
  have a: "represents params_of_17 2 (\<lambda>i. iu ([16, 7, 0, 12 :: u64] ! i)) (poly_17 COEFFICIENT [16, 7, 0, 12])"
    by (rule poly_17_represents) (simp_all add: reduced_def)
  obtain b where b: "represents params_of_17 2 b (poly_17 EVALUATION [3, 2, 0, 4])"
    by (rule poly_17_element [of "[3, 2, 0, 4]"]) (simp_all add: reduced_def)
  have w: "windows (m_ciphertextModulus params_of_17) 2 = Inr 3" unfolding params_of_17_def by code_simp
  have c: "caches_ok params_of_17 2 (Reset, arb_init)" by (simp add: Reset_cache_ok)
  have f: "m_format (poly_17 EVALUATION [3, 2, 0, 4]) = EVALUATION" by (simp add: poly_17_def)
  have k: "0 < unat (2 :: u32)" "unat (2 :: u32) \<le> 31" "unat (3 :: u32) * unat (2 :: u32) \<le> 64" "unat (3 :: u32) = 3" by simp_all
  show ?thesis using a b gadget_decomposition [OF ring_17 a b f c k(1,2) w k(3), of "\<lambda>n s. (0, s)" "()"]
    unfolding k(4) by blast
qed

text \<open>
  C29. Well-formedness of polynomials (parameters of the ring, a vector of its dimension, every entry
  less than the modulus) is an invariant of the arithmetic: no operation fails on well-formed operands in
  the right format, and every result is well formed in the expected format.
\<close>

theorem operations_well_formed:
  assumes "ring_ok P L" "poly_ok P L p" "poly_ok P L q" "m_format p = m_format q" "odd (unat k)" "caches_ok P L cs"
  shows "(\<forall>r\<in>set [Poly_Plus p q, Poly_PlusEq p q, Poly_PlusNoCheck p q, Poly_Minus p q, Poly_MinusEq p q, Poly_Negate p, Poly_uminus p,
        Poly_Times_s p c, Poly_TimesEq_s p c, Poly_Plus_s p c, Poly_PlusEq_s p c, Poly_Minus_s p c, Poly_MinusEq_s p c].
      yields_ok P L (m_format p) r) \<and>
    (m_format p = EVALUATION \<longrightarrow>
      (\<forall>r\<in>set [Poly_Times p q, Poly_TimesEq p q, Poly_TimesNoCheck p q, AutomorphismTransform k p]. yields_ok P L EVALUATION r)) \<and>
    (\<exists>s' cs'. SetFormat draw fmt p cs s = Some (Inr ((s', cs'), s)) \<and> poly_ok P L s' \<and> m_format s' = fmt)"
proof (intro conjI impI)
  obtain a b where p: "represents P L a p" and q: "represents P L b q"
    using every_element_represents [OF assms(1)] assms(2,3) by blast
  note r = assms(1)
  show "\<forall>r\<in>set [Poly_Plus p q, Poly_PlusEq p q, Poly_PlusNoCheck p q, Poly_Minus p q, Poly_MinusEq p q, Poly_Negate p, Poly_uminus p,
        Poly_Times_s p c, Poly_TimesEq_s p c, Poly_Plus_s p c, Poly_PlusEq_s p c, Poly_Minus_s p c, Poly_MinusEq_s p c].
      yields_ok P L (m_format p) r"
    using yields_okI3 [OF r Poly_Plus_represents [OF r p q assms(4)]] yields_okI2 [OF r Poly_Minus_represents [OF r p q assms(4)]]
      yields_okI2 [OF r Poly_Negate_represents [OF r p]] yields_okI2 [OF r Poly_Times_s_represents [OF r p]]
      yields_okI2 [OF r Poly_Plus_s_represents [OF r p]] yields_okI2 [OF r Poly_Minus_s_represents [OF r p]] by simp
  show "\<exists>s' cs'. SetFormat draw fmt p cs s = Some (Inr ((s', cs'), s)) \<and> poly_ok P L s' \<and> m_format s' = fmt"
  proof -
    obtain s' cs' where "SetFormat draw fmt p cs s = Some (Inr ((s', cs'), s))" "m_format s' = fmt" "represents P L a s'"
      by (rule SetFormat_represents [OF r p assms(6)])
    then show ?thesis using represents_ok [OF r] by (intro exI [of _ s'] exI [of _ cs'] conjI)
  qed
  assume e: "m_format p = EVALUATION"
  obtain d where d: "AutomorphismTransform k p =
      Inr \<lparr>m_format = EVALUATION, m_params = Some P, m_values = Some (vec (m_ciphertextModulus P) d)\<rparr>"
    "restores (m_ciphertextModulus P) (2 ^ L) (slot P L EVALUATION (auto_poly (2 ^ L) (unat k) a)) d"
    by (rule AutomorphismTransform_evaluation [OF r p e assms(5)])
  have "yields_ok P L EVALUATION (AutomorphismTransform k p)"
    using represents_ok [OF r representsI [OF d(2)]] d(1) by (simp add: yields_ok_def)
  then show "\<forall>r\<in>set [Poly_Times p q, Poly_TimesEq p q, Poly_TimesNoCheck p q, AutomorphismTransform k p]. yields_ok P L EVALUATION r"
    using yields_okI3 [OF r Poly_Times_represents [OF r p q e]] e assms(4) by simp
qed

theorem operations_well_formed_witness:
  "yields_ok params_of_17 2 EVALUATION (Poly_Times (poly_17 EVALUATION [3, 2, 0, 4]) (poly_17 EVALUATION [16, 1, 5, 15])) \<and>
    yields_ok params_of_17 2 EVALUATION (Poly_Minus_s (poly_17 EVALUATION [3, 2, 0, 4]) 5) \<and>
    yields_ok params_of_17 2 EVALUATION (AutomorphismTransform 7 (poly_17 EVALUATION [3, 2, 0, 4]))"
  using operations_well_formed [OF ring_17 poly_17_ok [of "[3, 2, 0, 4]" EVALUATION] poly_17_ok [of "[16, 1, 5, 15]" EVALUATION],
      of 7 "(Reset, arb_init)" 5 "\<lambda>n s. (0, s)" EVALUATION "()"]
  by (auto simp: poly_17_def reduced_def Reset_cache_ok)

text \<open>
  What the operators check. \<open>operator+\<close>, \<open>Plus\<close> and \<open>Times\<close> compare ring dimension and modulus and
  throw, in this order; then \<open>Plus\<close> compares the formats and \<open>Times\<close> wants both in evaluation format.
  \<open>Minus\<close>, \<open>-=\<close> and \<open>+=\<close> check no format: they combine coefficients with values and return normally.
\<close>

theorem operator_checks:
  assumes "m_params p = Some P" "m_params q = Some Q"
  shows "(m_ringDimension P \<noteq> m_ringDimension Q \<longrightarrow> (\<forall>f\<in>set [Poly_Plus, Poly_Times, Poly_TimesEq]. f p q = Inl (OpenFHEError ''RingDimension mismatch''))) \<and>
    (m_ringDimension P = m_ringDimension Q \<and> m_ciphertextModulus P \<noteq> m_ciphertextModulus Q \<longrightarrow>
      (\<forall>f\<in>set [Poly_Plus, Poly_Times, Poly_TimesEq]. f p q = Inl (OpenFHEError ''Modulus mismatch''))) \<and>
    (ring_ok P L \<and> poly_ok P L p \<and> poly_ok P L q \<and> m_format p \<noteq> m_format q \<longrightarrow>
      Poly_Plus p q = Inl (OpenFHEError ''Format mismatch'') \<and> Poly_Times p q = not_evaluation \<and> Poly_TimesEq p q = not_evaluation \<and>
      (\<forall>f\<in>set [Poly_Minus, Poly_MinusEq, Poly_PlusEq, Poly_PlusNoCheck]. \<exists>s. f p q = Inr s \<and> poly_ok P L s))"
  using assms mixed_format_entries [of P L p q] Format.exhaust
  by (auto simp: Poly_Plus_def Poly_Times_def Poly_TimesEq_def params_mismatch_def deref_def poly_ok_def)

theorem operator_checks_witness:
  "Poly_Plus (poly_17 COEFFICIENT [1, 2, 3, 4]) (poly_17 EVALUATION [3, 2, 0, 4]) = Inl (OpenFHEError ''Format mismatch'') \<and>
    (\<exists>s. Poly_Minus (poly_17 COEFFICIENT [1, 2, 3, 4]) (poly_17 EVALUATION [3, 2, 0, 4]) = Inr s \<and> poly_ok params_of_17 2 s)"
  using operator_checks [of "poly_17 COEFFICIENT [1, 2, 3, 4]" params_of_17 "poly_17 EVALUATION [3, 2, 0, 4]" params_of_17 2]
    ring_17 poly_17_ok [of "[1, 2, 3, 4]" COEFFICIENT] poly_17_ok [of "[3, 2, 0, 4]" EVALUATION]
  by (simp add: poly_17_def reduced_def)

text \<open>
  Parameters survive the archive: loading what was saved gives equal parameters, for every version the
  library knows, and a later version is refused.
\<close>

theorem parameter_archive:
  "load_elem_params v (save_elem_params P) =
     (if v \<le> SerializedVersion then Inr P
      else Inl (OpenFHEError (''serialized object version '' @ std_to_string v @ '' is from a later version of the library'')))"
  using load_save_u64 [of v] ucast_ucast_u32
  by (cases P) (simp add: load_elem_params_def save_elem_params_def save_u64_def load_u64_def)

end
