(* ===== verification/Generators.thy ===== *)
theory Generators
  imports PolySem
begin

text \<open>
  The distribution generators of \<open>src/core/include/math\<close> for 64-bit vectors: discrete uniform,
  binary, ternary (dense and of a given weight) and discrete Gaussian (inversion and Karney's method).
  The engine behind them is a parameter, a record of the draws of the standard library's distributions
  with the generator state passed along; what the standard promises of the draws is never needed, since
  the code checks what it draws. Loops that may not end are partial functions.
\<close>

section \<open>Definitions\<close>

text \<open>The source of randomness: the draws of the standard library's distributions from the engine.\<close>

record 's source =
  draw_u32 :: "'s prng"
  draw_int :: "int \<Rightarrow> int \<Rightarrow> 's \<Rightarrow> int \<times> 's"
  draw_bit :: "'s \<Rightarrow> bool \<times> 's"
  draw_real :: "'s \<Rightarrow> rat \<times> 's"
  draw_float :: "'s \<Rightarrow> rat \<times> 's"

text \<open>A run for every element of a list, in order.\<close>

fun rmap :: "('i \<Rightarrow> 's \<Rightarrow> ('a, 's) run) \<Rightarrow> 'i list \<Rightarrow> 's \<Rightarrow> ('a list, 's) run" where
  "rmap f [] s = Some (Inr ([], s))"
| "rmap f (i # is) s = rbind (f i s) (\<lambda>y s. rbind (rmap f is s) (\<lambda>ys s. Some (Inr (y # ys, s))))"

subsection \<open>Uniform residues\<close>

record dug =
  dug_modulus :: u64
  m_chunksPerValue :: u32
  m_shiftChunk :: u32
  m_bound :: u32

definition DUG_default :: dug where
  "DUG_default = \<lparr>dug_modulus = 0, m_chunksPerValue = 0, m_shiftChunk = 0, m_bound = - 1\<rparr>"

definition DUG_SetModulus :: "u64 \<Rightarrow> dug res" where
  "DUG_SetModulus modulus =
     (let chunks = (GetMSB modulus - 1) div 32; shift = chunks * 32
      in ebind (RShift modulus (unat (ucast shift :: 16 word))) (\<lambda>b.
           Inr \<lparr>dug_modulus = modulus, m_chunksPerValue = chunks, m_shiftChunk = shift, m_bound = ucast b\<rparr>))"

definition DUG_GenerateInteger :: "'s source \<Rightarrow> dug \<Rightarrow> 's \<Rightarrow> (u64, 's) run" where
  "DUG_GenerateInteger R g s =
     (if dug_modulus g = 0 then Some (Inl (OpenFHEError ''0 modulus?''))
      else RNG_loop (draw_u32 R) (unat (m_chunksPerValue g)) (unat (ucast (m_shiftChunk g) :: 16 word)) (m_bound g) (dug_modulus g) s)"

definition DUG_GenerateVector :: "'s source \<Rightarrow> dug \<Rightarrow> u32 \<Rightarrow> 's \<Rightarrow> (nvec, 's) run" where
  "DUG_GenerateVector R g sz s =
     rbind (rmap (\<lambda>_. DUG_GenerateInteger R g) [0..<unat sz] s) (\<lambda>d s.
       Some (Inr (\<lparr>m_modulus = dug_modulus g, m_data = d\<rparr>, s)))"

definition DUG_GenerateVector_modulus :: "'s source \<Rightarrow> u32 \<Rightarrow> u64 \<Rightarrow> 's \<Rightarrow> (nvec \<times> dug, 's) run" where
  "DUG_GenerateVector_modulus R sz modulus s =
     rbind (rlift (DUG_SetModulus modulus) s) (\<lambda>g s. rbind (DUG_GenerateVector R g sz s) (\<lambda>v s. Some (Inr ((v, g), s))))"

subsection \<open>Binary and ternary values\<close>

definition Binary_GenerateInteger :: "'s source \<Rightarrow> 's \<Rightarrow> (u64, 's) run" where
  "Binary_GenerateInteger R s = (let (b, s) = draw_bit R s in Some (Inr (if b then 1 else 0, s)))"

definition Binary_GenerateVector :: "'s source \<Rightarrow> u32 \<Rightarrow> u64 \<Rightarrow> 's \<Rightarrow> (nvec, 's) run" where
  "Binary_GenerateVector R sz modulus s =
     rbind (rmap (\<lambda>_. Binary_GenerateInteger R) [0..<unat sz] s) (\<lambda>d s. Some (Inr (\<lparr>m_modulus = modulus, m_data = d\<rparr>, s)))"

text \<open>
  The sparse loops, for entries \<open>neg\<close> and \<open>pos\<close>: the inner one places \<open>h\<close> values at random free
  positions, the outer one repeats until about half of them are positive.
\<close>

partial_function (option) sparse_fill ::
    "'s source \<Rightarrow> u32 \<Rightarrow> u32 \<Rightarrow> 'v::zero \<Rightarrow> 'v \<Rightarrow> 'v list \<Rightarrow> u32 \<Rightarrow> u32 \<Rightarrow> 's \<Rightarrow> ('v list \<times> u32, 's) run" where
  "sparse_fill R sz h neg pos v counterPlus i s =
     (if i < h
      then let (randomIndex, s) = draw_int R 0 (sint (sz - 1)) s
        in if randomIndex < 0 then Some (Inl OutOfRange)
           else rbind (rlift (get_at v (nat randomIndex)) s) (\<lambda>y s.
             if y = 0
             then rbind (Binary_GenerateInteger R s) (\<lambda>b s.
                    if b = 0 then sparse_fill R sz h neg pos (v[nat randomIndex := neg]) counterPlus (i + 1) s
                    else sparse_fill R sz h neg pos (v[nat randomIndex := pos]) (counterPlus + 1) (i + 1) s)
             else sparse_fill R sz h neg pos v counterPlus i s)
      else Some (Inr ((v, counterPlus), s)))"

partial_function (option) sparse_balance ::
    "'s source \<Rightarrow> u32 \<Rightarrow> u32 \<Rightarrow> 'v::zero \<Rightarrow> 'v \<Rightarrow> 'v list \<Rightarrow> u32 \<Rightarrow> 's \<Rightarrow> ('v list, 's) run" where
  "sparse_balance R sz h neg pos v counterPlus s =
     (if counterPlus < h div 2 - 1 \<or> counterPlus > h div 2 + 1
      then rbind (sparse_fill R sz h neg pos (replicate (unat sz) 0) 0 0 s) (\<lambda>(v, counterPlus) s.
             sparse_balance R sz h neg pos v counterPlus s)
      else Some (Inr (v, s)))"

definition Ternary_GenerateVector :: "'s source \<Rightarrow> u32 \<Rightarrow> u64 \<Rightarrow> u32 \<Rightarrow> 's \<Rightarrow> (nvec, 's) run" where
  "Ternary_GenerateVector R sz modulus h s =
     (if h = 0
      then rbind (rmap (\<lambda>_ s. let (rn, s) = draw_int R (- 1) 1 s
               in Some (Inr (if rn \<ge> 0 then word_of_int rn else Mod (Sub modulus 1) modulus, s))) [0..<unat sz] s) (\<lambda>d s.
             Some (Inr (\<lparr>m_modulus = modulus, m_data = d\<rparr>, s)))
      else let h = (if h > sz then sz else h)
        in rbind (sparse_balance R sz h (Sub modulus 1) 1 (replicate (unat sz) 0) 0 s) (\<lambda>d s.
             Some (Inr (\<lparr>m_modulus = modulus, m_data = d\<rparr>, s))))"

definition Ternary_GenerateIntVector :: "'s source \<Rightarrow> u32 \<Rightarrow> u32 \<Rightarrow> 's \<Rightarrow> (int list, 's) run" where
  "Ternary_GenerateIntVector R sz h s =
     (if h = 0 then rmap (\<lambda>_ s. Some (Inr (draw_int R (- 1) 1 s))) [0..<unat sz] s
      else let h = (if h > sz then sz else h)
        in sparse_balance R sz h (- 1) 1 (replicate (unat sz) 0) 0 s)"

subsection \<open>Floating point\<close>

text \<open>
  Doubles and floats as rationals, rounded after each operation; the functions of the mathematics
  library are parameters. Infinities and NaN are not values of the model.
\<close>

definition dround :: "rat \<Rightarrow> rat" where
  "dround y = (if y < 0 then - double_round (- y) else double_round y)"

definition float_round :: "rat \<Rightarrow> rat" where
  "float_round y =
     (if y \<le> 0 then 0
      else let (a, b) = quotient_of y; e = ratio_log2 a b - 23
       in if e \<ge> 0 then of_int (round_half_even a (b * 2 ^ nat e) * 2 ^ nat e)
          else of_int (round_half_even (a * 2 ^ nat (- e)) b) / 2 ^ nat (- e))"

definition fround :: "rat \<Rightarrow> rat" where
  "fround y = (if y < 0 then - float_round (- y) else float_round y)"

record libm =
  std_exp :: "rat \<Rightarrow> rat"
  std_log :: "rat \<Rightarrow> rat"
  std_log2 :: "rat \<Rightarrow> rat"
  std_pow :: "rat \<Rightarrow> rat \<Rightarrow> rat"

definition M_E :: rat where
  "M_E = double_round (27182818284590452354 / 10 ^ 19)"

text \<open>\<open>std::to_string\<close> of a double: six decimals.\<close>

definition std_to_string_double :: "rat \<Rightarrow> string" where
  "std_to_string_double y =
     (let (a, b) = quotient_of (\<bar>y\<bar> * 10 ^ 6); n = nat (round_half_even a b);
          frac = std_to_string (n mod 10 ^ 6)
      in (if y < 0 then ''-'' else '''') @ std_to_string (n div 10 ^ 6) @ ''.'' @ replicate (6 - length frac) (CHR ''0'') @ frac)"

subsection \<open>Discrete Gaussian: inversion sampling\<close>

record gauss =
  m_std :: rat
  m_vals :: "rat list"
  m_a :: rat
  m_peikert :: bool

definition KARNEY_THRESHOLD :: rat where
  "KARNEY_THRESHOLD = 300"

definition DGG_IsInitialized :: "gauss \<Rightarrow> bool" where
  "DGG_IsInitialized g \<longleftrightarrow> m_std g > double_round (1000000001 / 10 ^ 9)"

definition DGG_fin :: "rat \<Rightarrow> int" where
  "DGG_fin std = \<lceil>dround (std * double_round (1200610553538285 / 10 ^ 14))\<rceil>"

definition DGG_Initialize :: "libm \<Rightarrow> gauss \<Rightarrow> gauss res" where
  "DGG_Initialize lm g =
     (let fin = DGG_fin (m_std g) in
      if fin < 0 then Inl OutOfRange
      else let variance = dround (dround (2 * m_std g) * m_std g);
               (cusum, vals) = for_range 1 (nat fin + 1) (\<lambda>y (cusum, vals).
                 let cusum = dround (cusum + std_exp lm (- dround (dround (of_nat (y * y)) / variance)))
                 in (cusum, vals @ [cusum])) (0, []);
               a = dround (1 / dround (dround (2 * cusum) + 1))
        in Inr (g\<lparr>m_vals := map (\<lambda>v. dround (v * a)) vals, m_a := a\<rparr>))"

definition DGG_SetStd :: "libm \<Rightarrow> rat \<Rightarrow> gauss \<Rightarrow> gauss res" where
  "DGG_SetStd lm std g =
     (let g = g\<lparr>m_std := std\<rparr> in
      if std_log2 lm (m_std g) > 59 then Inl (OpenFHEError ''Standard deviation cannot exceed 59 bits'')
      else let g = g\<lparr>m_peikert := (m_std g < KARNEY_THRESHOLD)\<rparr>
        in if m_peikert g then DGG_Initialize lm g else Inr g)"

definition DGG :: "libm \<Rightarrow> rat \<Rightarrow> gauss res" where
  "DGG lm std = DGG_SetStd lm std \<lparr>m_std = 1, m_vals = [], m_a = 0, m_peikert = False\<rparr>"

text \<open>\<open>std::lower_bound\<close> on a sorted vector: the first element that is not less.\<close>

definition FindInVector :: "rat list \<Rightarrow> rat \<Rightarrow> int res" where
  "FindInVector S search =
     (let lower = length (takeWhile (\<lambda>y. y < search) S)
      in if lower \<noteq> length S then Inr (int lower + 1)
         else Inl (OpenFHEError (''DGG Inversion Sampling. FindInVector value not found: '' @ std_to_string_double search)))"

definition DGG_GenerateInt :: "'s source \<Rightarrow> gauss \<Rightarrow> 's \<Rightarrow> (int, 's) run" where
  "DGG_GenerateInt R g s =
     (let (u, s) = draw_real R s; seed = dround (u - 1 / 2); tmp = dround (\<bar>seed\<bar> - dround (m_a g / 2))
      in if tmp \<le> 0 then Some (Inr (0, s))
         else rlift (ebind (FindInVector (m_vals g) tmp) (\<lambda>k. Inr (k * (if seed > 0 then 1 else - 1)))) s)"

subsection \<open>Discrete Gaussian: Karney's sampling\<close>

partial_function (option) AlgorithmHDouble_loop :: "'s source \<Rightarrow> rat \<Rightarrow> 's \<Rightarrow> (bool, 's) run" where
  "AlgorithmHDouble_loop R h_a s =
     (let (h_b, s) = draw_real R s in
      if \<not> h_b < h_a then Some (Inr (False, s))
      else let (h_a, s) = draw_real R s in
        if \<not> h_a < h_b then Some (Inr (True, s)) else AlgorithmHDouble_loop R h_a s)"

definition AlgorithmHDouble :: "'s source \<Rightarrow> 's \<Rightarrow> (bool, 's) run" where
  "AlgorithmHDouble R s =
     (let (h_a, s) = draw_real R s in if \<not> h_a < 1 / 2 then Some (Inr (True, s)) else AlgorithmHDouble_loop R h_a s)"

partial_function (option) AlgorithmH_loop :: "'s source \<Rightarrow> rat \<Rightarrow> 's \<Rightarrow> (bool, 's) run" where
  "AlgorithmH_loop R h_a s =
     (let (h_b, s) = draw_float R s in
      if h_b > h_a then Some (Inr (False, s))
      else if h_b < h_a
      then let (h_a, s) = draw_float R s in
        if h_a > h_b then Some (Inr (True, s))
        else if h_a = h_b then AlgorithmHDouble R s
        else AlgorithmH_loop R h_a s
      else AlgorithmHDouble R s)"

definition AlgorithmH :: "'s source \<Rightarrow> 's \<Rightarrow> (bool, 's) run" where
  "AlgorithmH R s =
     (let (h_a, s) = draw_float R s in
      if h_a > 1 / 2 then Some (Inr (True, s))
      else if h_a < 1 / 2 then AlgorithmH_loop R h_a s
      else AlgorithmHDouble R s)"

partial_function (option) AlgorithmG_loop :: "'s source \<Rightarrow> int \<Rightarrow> 's \<Rightarrow> (int, 's) run" where
  "AlgorithmG_loop R n s =
     rbind (AlgorithmH R s) (\<lambda>b s. if b then rbind (rlift (i32 (n + 1)) s) (AlgorithmG_loop R) else Some (Inr (n, s)))"

definition AlgorithmG :: "'s source \<Rightarrow> 's \<Rightarrow> (int, 's) run" where
  "AlgorithmG R s = AlgorithmG_loop R 0 s"

text \<open>\<open>while (n-- && f(g)) {}  return n < 0;\<close>\<close>

partial_function (option) count_down :: "('s \<Rightarrow> (bool, 's) run) \<Rightarrow> int \<Rightarrow> 's \<Rightarrow> (bool, 's) run" where
  "count_down f n s =
     (if n = 0 then Some (Inr (True, s))
      else rbind (f s) (\<lambda>b s. if b then count_down f (n - 1) s else Some (Inr (n - 1 < 0, s))))"

definition AlgorithmP :: "'s source \<Rightarrow> int \<Rightarrow> 's \<Rightarrow> (bool, 's) run" where
  "AlgorithmP R n s = count_down (AlgorithmH R) n s"

partial_function (option) AlgorithmBDouble_loop :: "'s source \<Rightarrow> int \<Rightarrow> rat \<Rightarrow> rat \<Rightarrow> int \<Rightarrow> 's \<Rightarrow> (bool, 's) run" where
  "AlgorithmBDouble_loop R k xx y n s =
     (let (z, s) = draw_real R s in
      if \<not> z < y then Some (Inr (n mod 2 = 0, s))
      else let (r, s) = draw_real R s in
        if \<not> r < dround (dround (of_int (2 * k) + xx) / of_int (2 * k + 2)) then Some (Inr (n mod 2 = 0, s))
        else rbind (rlift (i32 (n + 1)) s) (AlgorithmBDouble_loop R k xx z))"

definition AlgorithmBDouble :: "'s source \<Rightarrow> int \<Rightarrow> rat \<Rightarrow> 's \<Rightarrow> (bool, 's) run" where
  "AlgorithmBDouble R k xx s = AlgorithmBDouble_loop R k xx xx 0 s"

partial_function (option) AlgorithmB_loop :: "'s source \<Rightarrow> int \<Rightarrow> rat \<Rightarrow> rat \<Rightarrow> int \<Rightarrow> 's \<Rightarrow> (bool, 's) run" where
  "AlgorithmB_loop R k xx y n s =
     (let (z, s) = draw_float R s in
      if z > y then Some (Inr (n mod 2 = 0, s))
      else if z < y
      then let (r, s) = draw_float R s; rTemp = fround (dround (dround (of_int (2 * k) + xx) / of_int (2 * k + 2))) in
        if r > rTemp then Some (Inr (n mod 2 = 0, s))
        else if r < rTemp then rbind (rlift (i32 (n + 1)) s) (AlgorithmB_loop R k xx z)
        else AlgorithmBDouble R k xx s
      else AlgorithmBDouble R k xx s)"

definition AlgorithmB :: "'s source \<Rightarrow> int \<Rightarrow> rat \<Rightarrow> 's \<Rightarrow> (bool, 's) run" where
  "AlgorithmB R k xx s = AlgorithmB_loop R k xx (fround xx) 0 s"

partial_function (option) GenerateIntegerKarney :: "'s source \<Rightarrow> rat \<Rightarrow> rat \<Rightarrow> 's \<Rightarrow> (int, 's) run" where
  "GenerateIntegerKarney R mean stddev s =
     rbind (AlgorithmG R s) (\<lambda>k s.
     rbind (rlift (i32 (k * (k - 1))) s) (\<lambda>n s.
     rbind (AlgorithmP R n s) (\<lambda>ok s.
       if \<not> ok then GenerateIntegerKarney R mean stddev s
       else let (sb, s) = draw_int R 0 1 s;
                sg = (if sb = 0 then - 1 else sb);
                di0 = dround (dround (stddev * of_int k) + dround (of_int sg * mean));
                i0 = \<lceil>di0\<rceil>;
                x0 = dround (dround (dround (of_int i0) - di0) / stddev);
                (j, s) = draw_int R 0 (\<lceil>stddev\<rceil> - 1) s;
                xx = dround (x0 + dround (dround (of_int j) / stddev))
        in if \<not> xx < 1 \<or> (xx = 0 \<and> sg < 0 \<and> k = 0) then GenerateIntegerKarney R mean stddev s
           else rbind (count_down (AlgorithmB R k xx) (k + 1) s) (\<lambda>ok s.
                  if \<not> ok then GenerateIntegerKarney R mean stddev s
                  else rbind (rlift (i64 (i0 + j)) s) (\<lambda>r s. rlift (i64 (sg * r)) s)))))"

subsection \<open>Discrete Gaussian: residues and vectors\<close>

definition gauss_int :: "'s source \<Rightarrow> gauss \<Rightarrow> 's \<Rightarrow> (int, 's) run" where
  "gauss_int R g s = (if m_peikert g then DGG_GenerateInt R g s else GenerateIntegerKarney R 0 (m_std g) s)"

definition gauss_residue :: "u64 \<Rightarrow> int \<Rightarrow> u64" where
  "gauss_residue modulus val = (if val < 0 then Sub modulus (word_of_int (- val)) else word_of_int val)"

definition DGG_GenerateIntVector :: "'s source \<Rightarrow> gauss \<Rightarrow> u32 \<Rightarrow> 's \<Rightarrow> (int list, 's) run" where
  "DGG_GenerateIntVector R g sz s = rmap (\<lambda>_. gauss_int R g) [0..<unat sz] s"

definition DGG_GenerateInteger :: "'s source \<Rightarrow> gauss \<Rightarrow> u64 \<Rightarrow> 's \<Rightarrow> (u64, 's) run" where
  "DGG_GenerateInteger R g modulus s = rbind (gauss_int R g s) (\<lambda>val s. Some (Inr (gauss_residue modulus val, s)))"

definition DGG_GenerateVector :: "'s source \<Rightarrow> gauss \<Rightarrow> u32 \<Rightarrow> u64 \<Rightarrow> 's \<Rightarrow> (nvec, 's) run" where
  "DGG_GenerateVector R g sz modulus s =
     rbind (rmap (\<lambda>_ s. rbind (gauss_int R g s) (\<lambda>val s. Some (Inr (gauss_residue modulus val, s)))) [0..<unat sz] s) (\<lambda>d s.
       Some (Inr (\<lparr>m_modulus = modulus, m_data = d\<rparr>, s)))"

text \<open>Rejection sampling around a mean: without a limit for residues, with one for integers.\<close>

definition UnnormalizedGaussianPDF :: "libm \<Rightarrow> rat \<Rightarrow> rat \<Rightarrow> int \<Rightarrow> rat" where
  "UnnormalizedGaussianPDF lm mean sigma y =
     std_pow lm M_E (dround (- std_pow lm (dround (of_int y - mean)) 2 / dround (dround (2 * sigma) * sigma)))"

definition UnnormalizedGaussianPDFOptimized :: "libm \<Rightarrow> rat \<Rightarrow> rat \<Rightarrow> int \<Rightarrow> rat" where
  "UnnormalizedGaussianPDFOptimized lm mean sigmaFactor y =
     std_pow lm M_E (dround (dround (sigmaFactor * dround (of_int y - mean)) * dround (of_int y - mean)))"

definition rejection_range :: "libm \<Rightarrow> rat \<Rightarrow> rat \<Rightarrow> u64 \<Rightarrow> (int \<times> int) res" where
  "rejection_range lm mean stddev n =
     (let t = dround (std_log2 lm (dround (of_nat (unat n))) * stddev)
      in ebind (i32 \<lfloor>dround (mean - t)\<rfloor>) (\<lambda>a. ebind (i32 \<lceil>dround (mean + t)\<rceil>) (\<lambda>b. Inr (a, b))))"

partial_function (option) rejection_loop :: "'s source \<Rightarrow> libm \<Rightarrow> rat \<Rightarrow> rat \<Rightarrow> int \<Rightarrow> int \<Rightarrow> 's \<Rightarrow> (int, 's) run" where
  "rejection_loop R lm mean stddev a b s =
     (let (y, s) = draw_int R a b s; (dice, s) = draw_real R s
      in if dice > UnnormalizedGaussianPDF lm mean stddev y then rejection_loop R lm mean stddev a b s
         else Some (Inr (y, s)))"

definition DGG_GenerateInteger_mean :: "'s source \<Rightarrow> libm \<Rightarrow> rat \<Rightarrow> rat \<Rightarrow> u64 \<Rightarrow> u64 \<Rightarrow> 's \<Rightarrow> (u64, 's) run" where
  "DGG_GenerateInteger_mean R lm mean stddev n modulus s =
     rbind (rlift (rejection_range lm mean stddev n) s) (\<lambda>(a, b) s.
     rbind (rejection_loop R lm mean stddev a b s) (\<lambda>y s. Some (Inr (gauss_residue modulus y, s))))"

definition rejection_limit :: u32 where
  "rejection_limit = 10000"

partial_function (option) limited_loop ::
    "'s source \<Rightarrow> libm \<Rightarrow> rat \<Rightarrow> rat \<Rightarrow> int \<Rightarrow> int \<Rightarrow> u32 \<Rightarrow> 's \<Rightarrow> (int, 's) run" where
  "limited_loop R lm mean sigmaFactor a b count s =
     (let (y, s) = draw_int R a b s; (dice, s) = draw_real R s;
          flagSuccess = (dice \<le> UnnormalizedGaussianPDFOptimized lm mean sigmaFactor y); count = count + 1
      in if count > rejection_limit
         then Some (Inl (OpenFHEError ''GenerateInteger could not find success after repeated attempts''))
         else if flagSuccess then Some (Inr (y, s)) else limited_loop R lm mean sigmaFactor a b count s)"

definition DGG_GenerateInteger_int :: "'s source \<Rightarrow> libm \<Rightarrow> rat \<Rightarrow> rat \<Rightarrow> u64 \<Rightarrow> 's \<Rightarrow> (int, 's) run" where
  "DGG_GenerateInteger_int R lm mean stddev n s =
     rbind (rlift (rejection_range lm mean stddev n) s) (\<lambda>(a, b) s.
       limited_loop R lm mean (dround (1 / dround (dround (- 2 * stddev) * stddev))) a b 0 s)"

section \<open>Facts\<close>

subsection \<open>Runs over a list\<close>

lemma rmap_Some:
  assumes "rmap f is s = Some r" "\<And>i s r. i \<in> set is \<Longrightarrow> f i s = Some r \<Longrightarrow> \<exists>y s'. r = Inr (y, s') \<and> Q i y"
  shows "\<exists>ys s'. r = Inr (ys, s') \<and> length ys = length is \<and> (\<forall>i<length is. Q (is ! i) (ys ! i))"
  using assms
proof (induction "is" arbitrary: s r)
  case (Cons i "is")
  from Cons.prems(1) obtain r1 where r1: "f i s = Some r1" by (cases "f i s") auto
  with Cons.prems(2) [of i s r1] obtain y s1 where y: "r1 = Inr (y, s1)" "Q i y" by auto
  with Cons.prems(1) r1 obtain r2 where r2: "rmap f is s1 = Some r2" by (cases "rmap f is s1") auto
  obtain ys s2 where ys: "r2 = Inr (ys, s2)" "length ys = length is" "\<forall>i<length is. Q (is ! i) (ys ! i)"
    using Cons.IH [OF r2] Cons.prems(2) by auto
  have "r = Inr (y # ys, s2)" using Cons.prems(1) r1 y(1) r2 ys(1) by simp
  moreover have "Q ((i # is) ! j) ((y # ys) ! j)" if "j < length (i # is)" for j
    using that y(2) ys(3) by (cases j) simp_all
  ultimately show ?case using ys(2) by auto
qed simp

lemma rmap_returns:
  assumes "\<And>i s. i \<in> set is \<Longrightarrow> \<exists>y s'. f i s = Some (Inr (y, s'))"
  shows "\<exists>ys s'. rmap f is s = Some (Inr (ys, s'))"
  using assms
proof (induction "is" arbitrary: s)
  case (Cons i "is")
  obtain y s1 where y: "f i s = Some (Inr (y, s1))" using Cons.prems [of i s] by auto
  obtain ys s2 where "rmap f is s1 = Some (Inr (ys, s2))" using Cons.IH [of s1] Cons.prems by auto
  then show ?case using y by simp
qed simp

subsection \<open>Uniform residues\<close>

lemma chunks_shift:
  fixes m :: u64
  assumes "m \<noteq> 0"
  shows "unat (ucast ((GetMSB m - 1) div 32 * 32 :: u32) :: 16 word) < 64"
proof -
  define c where "c = (GetMSB m - 1) div (32 :: u32)"
  have b: "0 < bit_len (unat m)" "bit_len (unat m) \<le> 64"
    using assms(1) bit_len_unat_le [of m] by (simp_all add: unat_gt_0)
  have u: "unat (GetMSB m - 1) = bit_len (unat m) - 1"
    using b unat_GetMSB [of m] by (subst unat_sub) (simp_all add: word_le_nat_alt Suc_le_eq del: bit_len_pos_iff)
  then have "unat c = (bit_len (unat m) - 1) div 32" by (simp add: c_def unat_div)
  then have "unat c \<le> 1" using b by simp
  then have "unat c = 0 \<or> unat c = 1" by linarith
  then have "c = 0 \<or> c = 1" by (simp add: word_unat_eq_iff)
  then show ?thesis unfolding c_def [symmetric] by auto
qed

lemma DUG_SetModulus_ok:
  assumes "m \<noteq> 0"
  obtains g where "DUG_SetModulus m = Inr g" "dug_modulus g = m" "\<And>s. DUG_GenerateInteger R g s = RNG (draw_u32 R) m s"
proof -
  have sh: "unat (ucast ((GetMSB m - 1) div 32 * 32 :: u32) :: 16 word) < 64" by (rule chunks_shift [OF assms])
  then obtain b where b: "RShift m (unat (ucast ((GetMSB m - 1) div 32 * 32 :: u32) :: 16 word)) = Inr b"
    by (auto simp: RShift_def MaxBits_def)
  define g where "g = \<lparr>dug_modulus = m, m_chunksPerValue = (GetMSB m - 1) div 32, m_shiftChunk = (GetMSB m - 1) div 32 * 32, m_bound = ucast b\<rparr>"
  have "DUG_SetModulus m = Inr g" using b by (simp add: DUG_SetModulus_def Let_def g_def)
  moreover have "DUG_GenerateInteger R g s = RNG (draw_u32 R) m s" for s
    using assms b by (simp add: DUG_GenerateInteger_def RNG_def Let_def g_def)
  ultimately show ?thesis using that by (simp add: g_def)
qed

lemma DUG_GenerateVector_ok:
  assumes "m \<noteq> 0" "DUG_SetModulus m = Inr g" "DUG_GenerateVector R g n s = Some r"
  shows "\<exists>d s'. r = Inr (vec m d, s') \<and> length d = unat n \<and> reduced m d"
proof -
  obtain g' where g: "DUG_SetModulus m = Inr g'" "dug_modulus g' = m" "\<And>s. DUG_GenerateInteger R g' s = RNG (draw_u32 R) m s"
    by (rule DUG_SetModulus_ok [OF assms(1), where R = R]) blast
  with assms(2) have e: "g' = g" by simp
  obtain r1 where r1: "rmap (\<lambda>_. DUG_GenerateInteger R g) [0..<unat n] s = Some r1"
    using assms(3) by (cases "rmap (\<lambda>_. DUG_GenerateInteger R g) [0..<unat n] s") (auto simp: DUG_GenerateVector_def)
  have "\<exists>y s'. r = Inr (y, s') \<and> unat y < unat m" if "DUG_GenerateInteger R g s = Some r" for s r
    using that RNG_no_error [OF assms(1), of "draw_u32 R" s r] RNG_less g(3) unfolding e by (auto simp: word_less_nat_alt)
  from rmap_Some [OF r1, where Q = "\<lambda>_ y. unat y < unat m"] this obtain d s' where d: "r1 = Inr (d, s')" "length d = unat n" "\<forall>i<unat n. unat (d ! i) < unat m"
    by auto
  then have "reduced m d" by (intro reducedI) simp
  then show ?thesis using assms(3) r1 d(1,2) g(2) by (auto simp: DUG_GenerateVector_def e)
qed

lemma DUG_GenerateVector_returns:
  assumes "m \<noteq> 0" "DUG_SetModulus m = Inr g" "low_draws (draw_u32 R)"
  shows "\<exists>d s'. DUG_GenerateVector R g n s = Some (Inr (vec m d, s'))"
proof -
  obtain g' where g: "DUG_SetModulus m = Inr g'" "dug_modulus g' = m" "\<And>s. DUG_GenerateInteger R g' s = RNG (draw_u32 R) m s"
    by (rule DUG_SetModulus_ok [OF assms(1), where R = R]) blast
  with assms(2) have e: "g' = g" by simp
  have "\<exists>d s'. rmap (\<lambda>_. DUG_GenerateInteger R g) [0..<unat n] s = Some (Inr (d, s'))"
    by (rule rmap_returns) (use RNG_returns [OF assms(3,1)] g(3) in \<open>simp add: e\<close>)
  then show ?thesis using g(2) by (auto simp: DUG_GenerateVector_def e)
qed

subsection \<open>Sparse ternary values\<close>

text \<open>One non-zero entry requested: the bounds wrap and the loop condition is always true.\<close>

lemma sparse_balance_one: "sparse_balance R sz 1 neg pos v counterPlus s = Some r \<Longrightarrow> \<exists>e. r = Inl e"
proof -
  have "h = 1 \<Longrightarrow> \<exists>e. r = Inl e" if "sparse_balance R sz h neg pos v counterPlus s = Some r" for h
    using that
  proof (induction rule: sparse_balance.raw_induct [rotated, consumes 1])
    case (1 loop R sz h neg pos v counterPlus s r)
    have c: "counterPlus < h div 2 - 1 \<or> counterPlus > h div 2 + 1"
    proof -
      have h2: "h div 2 - 1 = - 1" "h div 2 + 1 = 1" using 1(3) by simp_all
      have "counterPlus < - 1 \<or> counterPlus = - 1" using word_order.not_eq_extremum by auto
      moreover have "(1 :: u32) < - 1" by code_simp
      ultimately show ?thesis unfolding h2 by auto
    qed
    show ?case
    proof (cases "sparse_fill R sz h neg pos (replicate (unat sz) 0) 0 0 s")
      case None
      then show ?thesis using 1(2) c by simp
    next
      case (Some r1)
      then show ?thesis using 1 c by (cases r1) (auto split: prod.splits)
    qed
  qed
  then show "sparse_balance R sz 1 neg pos v counterPlus s = Some r \<Longrightarrow> \<exists>e. r = Inl e" by simp
qed

lemma sparse_balance_small: "h = 2 \<or> h = 3 \<Longrightarrow> sparse_balance R sz h neg pos v 0 s = Some (Inr (v, s))"
  by (subst sparse_balance.simps) auto

definition nonzero :: "'v::zero list \<Rightarrow> nat" where
  "nonzero xs = length (filter (\<lambda>y. y \<noteq> 0) xs)"

lemma nonzero_update: "k < length xs \<Longrightarrow> xs ! k = 0 \<Longrightarrow> y \<noteq> 0 \<Longrightarrow> nonzero (xs[k := y]) = Suc (nonzero xs)"
proof (induction xs arbitrary: k)
  case (Cons a xs)
  then show ?case by (cases k) (simp_all add: nonzero_def)
qed simp

definition fill_inv :: "'v::zero \<Rightarrow> 'v \<Rightarrow> nat \<Rightarrow> 'v list \<Rightarrow> u32 \<Rightarrow> u32 \<Rightarrow> bool" where
  "fill_inv neg pos n v cnt i \<longleftrightarrow> length v = n \<and> set v \<subseteq> {0, neg, pos} \<and> nonzero v = unat i \<and>
     count_list v pos = unat cnt \<and> unat cnt \<le> unat i"

lemma count_list_update:
  assumes "k < length xs" "xs ! k \<noteq> z"
  shows "count_list (xs[k := y]) z = count_list xs z + (if y = z then 1 else 0)"
  using assms
proof (induction xs arbitrary: k)
  case (Cons a xs)
  then show ?case by (cases k) simp_all
qed simp

lemma sparse_fill_weight:
  "sparse_fill R sz h neg pos v cnt i s = Some r \<Longrightarrow> fill_inv neg pos n v cnt i \<Longrightarrow> unat i \<le> unat h \<Longrightarrow>
    r = Inr ((v', cnt'), s') \<Longrightarrow> neg \<noteq> 0 \<Longrightarrow> pos \<noteq> 0 \<Longrightarrow> neg \<noteq> pos \<Longrightarrow> fill_inv neg pos n v' cnt' h"
proof (induction arbitrary: v' cnt' s' rule: sparse_fill.raw_induct [rotated, consumes 1])
  case (1 loop R sz h neg pos v cnt i s r)
  note np = 1(6-8) and inv = 1(3) [unfolded fill_inv_def] and le = 1(4) and r = 1(5)
  show ?case
  proof (cases "i < h")
    case False
    then have "i = h" using le by (simp add: word_unat_eq_iff word_less_nat_alt)
    then show ?thesis using 1(2,3) False r by simp
  next
    case True
    obtain k s1 where k: "draw_int R 0 (sint (sz - 1)) s = (k, s1)" by (cases "draw_int R 0 (sint (sz - 1)) s")
    have k0: "\<not> k < 0" using 1(2) True k r by auto
    have kl: "nat k < length v" using 1(2) True k k0 r by (auto simp: get_at_def split: if_splits)
    have i1: "unat (i + 1) = Suc (unat i)"
      using True unsigned_less [of h, where ?'a = nat] by (simp add: word_less_nat_alt unat_plus_if')
    show ?thesis
    proof (cases "v ! nat k = 0")
      case False
      then have "loop R sz h neg pos v cnt i s1 = Some r" using 1(2) True k k0 kl by (simp add: get_at_def)
      from 1(1) [OF this 1(3) le r np] show ?thesis .
    next
      case free: True
      obtain b s2 where b: "draw_bit R s1 = (b, s2)" by (cases "draw_bit R s1")
      have ih: "i + 1 \<le> h" "unat (i + 1) \<le> unat h" using True i1 by (simp_all add: word_le_nat_alt word_less_nat_alt)
      have np0: "v ! nat k \<noteq> pos" using free np(2) by simp
      show ?thesis
      proof (cases b)
        case False
        then have l: "loop R sz h neg pos (v[nat k := neg]) cnt (i + 1) s2 = Some r"
          using 1(2) True k k0 kl free b by (simp add: get_at_def Binary_GenerateInteger_def)
        have "fill_inv neg pos n (v[nat k := neg]) cnt (i + 1)"
          using inv kl free np nonzero_update [OF kl free np(1)] count_list_update [OF kl np0, of neg] set_update_subset_insert [of v "nat k" neg] i1
          by (auto simp: fill_inv_def)
        from 1(1) [OF l this ih(2) r np] show ?thesis .
      next
        case bt: True
        then have l: "loop R sz h neg pos (v[nat k := pos]) (cnt + 1) (i + 1) s2 = Some r"
          using 1(2) True k k0 kl free b by (simp add: get_at_def Binary_GenerateInteger_def)
        have "unat (cnt + 1) = Suc (unat cnt)"
        proof -
          have "unat cnt < unat h" using inv True by (simp add: word_less_nat_alt)
          then show ?thesis using unsigned_less [of h, where ?'a = nat] by (simp add: unat_plus_if')
        qed
        then have "fill_inv neg pos n (v[nat k := pos]) (cnt + 1) (i + 1)"
          using inv kl free np nonzero_update [OF kl free np(2)] count_list_update [OF kl np0, of pos] set_update_subset_insert [of v "nat k" pos] i1
          by (auto simp: fill_inv_def)
        from 1(1) [OF l this ih(2) r np] show ?thesis .
      qed
    qed
  qed
qed

lemma sparse_balance_weight:
  "sparse_balance R sz h neg pos v cnt s = Some r \<Longrightarrow> r = Inr (v', s') \<Longrightarrow> neg \<noteq> 0 \<Longrightarrow> pos \<noteq> 0 \<Longrightarrow> neg \<noteq> pos \<Longrightarrow>
    (cnt < h div 2 - 1 \<or> cnt > h div 2 + 1) \<or> fill_inv neg pos (unat sz) v cnt h \<Longrightarrow>
    \<exists>cnt'. fill_inv neg pos (unat sz) v' cnt' h \<and> h div 2 - 1 \<le> cnt' \<and> cnt' \<le> h div 2 + 1"
proof (induction arbitrary: v' s' rule: sparse_balance.raw_induct [rotated, consumes 1])
  case (1 loop R sz h neg pos v cnt s r)
  show ?case
  proof (cases "cnt < h div 2 - 1 \<or> cnt > h div 2 + 1")
    case False
    then show ?thesis using 1(2,3,7) by (intro exI [of _ cnt]) auto
  next
    case True
    obtain v1 c1 s1 where f: "sparse_fill R sz h neg pos (replicate (unat sz) 0) 0 0 s = Some (Inr ((v1, c1), s1))"
      "loop R sz h neg pos v1 c1 s1 = Some r"
      using 1(2,3) True by (auto simp: rbind_def split: Option.bind_splits sum.splits)
    have "fill_inv neg pos (unat sz) (replicate (unat sz) 0) 0 0"
      using 1(5) by (auto simp: fill_inv_def nonzero_def count_list_0_iff)
    from sparse_fill_weight [OF f(1) this _ refl 1(4-6)] have "fill_inv neg pos (unat sz) v1 c1 h" by simp
    with 1(1) [OF f(2) 1(3-6)] show ?thesis by blast
  qed
qed

subsection \<open>Discrete Gaussian\<close>

lemma FindInVector_bound: "FindInVector S y = Inr k \<Longrightarrow> 1 \<le> k \<and> k \<le> int (length S)"
  using length_takeWhile_le [of "\<lambda>z. z < y" S] by (auto simp: FindInVector_def Let_def split: if_splits)

lemma DGG_GenerateInt_bound:
  assumes "DGG_GenerateInt R g s = Some (Inr (k, s'))"
  shows "\<bar>k\<bar> \<le> int (length (m_vals g))"
  using assms FindInVector_bound
  by (auto simp: DGG_GenerateInt_def Let_def rlift_def split: prod.splits if_splits sum.splits elim!: ebind_InrE) fastforce+

lemma DGG_peikert:
  assumes "DGG lm std = Inr g" "std < KARNEY_THRESHOLD"
  shows "m_peikert g" "0 \<le> DGG_fin std" "length (m_vals g) = nat (DGG_fin std)"
proof -
  let ?g = "\<lparr>m_std = std, m_vals = [], m_a = 0, m_peikert = True\<rparr>"
  have i: "DGG_Initialize lm ?g = Inr g" using assms by (auto simp: DGG_def DGG_SetStd_def Let_def split: if_splits)
  then show f: "0 \<le> DGG_fin std" by (auto simp: DGG_Initialize_def Let_def split: if_splits)
  define step where "step = (\<lambda>y (cusum, vals). let cusum = dround (cusum + std_exp lm (- dround (dround (of_nat (y * y)) / dround (dround (2 * std) * std)))) in (cusum, vals @ [cusum]))"
  obtain c vs where cv: "for_range 1 (nat (DGG_fin std) + 1) step (0, []) = (c, vs)"
    by (cases "for_range 1 (nat (DGG_fin std) + 1) step (0, [])")
  have "length (snd (for_range 1 (nat (DGG_fin std) + 1) step (0, []))) = nat (DGG_fin std) + 1 - 1"
    by (rule for_range_invariant [where P = "\<lambda>i st. length (snd st) = i - 1"]) (auto simp: step_def Let_def split: prod.splits)
  then have "length vs = nat (DGG_fin std)" using cv by simp
  then show "m_peikert g" "length (m_vals g) = nat (DGG_fin std)"
    using i f cv by (auto simp: DGG_Initialize_def Let_def step_def)
qed

lemma unat_of_int_small: "0 \<le> z \<Longrightarrow> z < 2 ^ 64 \<Longrightarrow> unat (word_of_int z :: u64) = nat z"
  unfolding unat_eq_nat_uint unsigned_of_int by (simp add: take_bit_int_eq_self)

lemma gauss_residue_spec:
  assumes "\<bar>k\<bar> < iu m"
  shows "unat (gauss_residue m k) < unat m \<and> iu (gauss_residue m k) mod iu m = k mod iu m"
proof -
  have b: "\<bar>k\<bar> < 2 ^ 64" by (rule order.strict_trans [OF assms]) (use unsigned_less [of m, where ?'a = int] in simp)
  show ?thesis
  proof (cases "k < 0")
    case True
    have u: "unat (word_of_int (- k) :: u64) = nat (- k)" by (rule unat_of_int_small) (use True b in linarith)+
    have le: "nat (- k) \<le> unat m" using assms by linarith
    have e: "unat (gauss_residue m k) = unat m - nat (- k)" using True Sub_unat [of "word_of_int (- k)" m] u le by (simp add: gauss_residue_def)
    have i: "iu (gauss_residue m k) = k + iu m" unfolding e using le True by (simp add: of_nat_diff)
    show ?thesis unfolding i e using True le assms by simp
  next
    case False
    have u: "unat (word_of_int k :: u64) = nat k" by (rule unat_of_int_small) (use False b in linarith)+
    then have e: "unat (gauss_residue m k) = nat k" using False by (simp add: gauss_residue_def)
    have "nat k < unat m" using False assms by linarith
    then show ?thesis unfolding e using False by simp
  qed
qed

subsection \<open>The limited rejection loop\<close>

lemma limited_loop_returns: "unat count \<le> 10000 \<Longrightarrow> \<exists>r. limited_loop R lm mean sf a b count s = Some r"
proof (induction "10000 - unat count" arbitrary: count s)
  case 0
  then have "unat (count + 1) = 10001" by (simp add: unat_plus_if')
  then have "count + 1 > rejection_limit" by (simp add: rejection_limit_def word_less_nat_alt)
  then show ?case by (subst limited_loop.simps) (auto split: prod.splits)
next
  case (Suc n)
  have u: "unat (count + 1) = unat count + 1" using Suc.prems by (simp add: unat_plus_if')
  have "\<exists>r. limited_loop R lm mean sf a b (count + 1) s = Some r" for s using Suc.hyps(1) [of "count + 1" s] Suc.hyps(2) u by simp
  then show ?case by (subst limited_loop.simps) (auto simp: Let_def split: prod.splits)
qed

lemma limited_loop_accepts:
  "limited_loop R lm mean sf a b count s = Some (Inr (y, s')) \<Longrightarrow>
    \<exists>s0 s1. draw_int R a b s0 = (y, s1) \<and> fst (draw_real R s1) \<le> UnnormalizedGaussianPDFOptimized lm mean sf y"
proof -
  have "r = Inr (y, s') \<Longrightarrow>
      \<exists>s0 s1. draw_int R a b s0 = (y, s1) \<and> fst (draw_real R s1) \<le> UnnormalizedGaussianPDFOptimized lm mean sf y"
    if "limited_loop R lm mean sf a b count s = Some r" for r
    using that
  proof (induction rule: limited_loop.raw_induct [rotated, consumes 1])
    case (1 loop R lm mean sf a b count s r)
    obtain z s1 where z: "draw_int R a b s = (z, s1)" by (cases "draw_int R a b s")
    obtain d s2 where d: "draw_real R s1 = (d, s2)" by (cases "draw_real R s1")
    show ?case
    proof (cases "d \<le> UnnormalizedGaussianPDFOptimized lm mean sf z")
      case True
      then have "z = y" using 1(2,3) z d by (auto simp: Let_def split: if_splits)
      then show ?thesis using True z d by force
    next
      case False
      then have "loop R lm mean sf a b (count + 1) s2 = Some r" using 1(2,3) z d by (auto simp: Let_def split: if_splits)
      from 1(1) [OF this 1(3)] show ?thesis .
    qed
  qed
  then show "limited_loop R lm mean sf a b count s = Some (Inr (y, s')) \<Longrightarrow> ?thesis" by simp
qed

declare sparse_fill.simps [code] sparse_balance.simps [code]

text \<open>A source for examples: a counter that walks through the first four positions and alternates bits.\<close>

definition counter_source :: "nat source" where
  "counter_source = \<lparr>draw_u32 = (\<lambda>_ s. (0, s)), draw_int = (\<lambda>a b s. (int (s mod 4), s)), draw_bit = (\<lambda>s. (even s, s + 1)),
     draw_real = (\<lambda>s. (1 / 8, s)), draw_float = (\<lambda>s. (0, s))\<rparr>"

lemma counter_ternary: "Ternary_GenerateVector counter_source 4 17 4 0 = Some (Inr (vec 17 [1, 16, 1, 16], 4))"
  by code_simp

definition balanced_ternary :: "u64 \<Rightarrow> nat \<Rightarrow> nat \<Rightarrow> u64 list \<Rightarrow> bool" where
  "balanced_ternary q n h d \<longleftrightarrow> length d = n \<and> set d \<subseteq> {0, q - 1, 1} \<and> nonzero d = h \<and>
     h div 2 - 1 \<le> count_list d 1 \<and> count_list d 1 \<le> h div 2 + 1"

lemma Sub_one: "Sub q 1 = q - 1"
  by (simp add: Sub_def SubFast_def NATIVEINT_DO_CHECKS_def)

lemma Ternary_balanced:
  assumes q: "2 < unat q" and h: "4 \<le> unat h" "unat h \<le> unat n" and r: "Ternary_GenerateVector R n q h s = Some (Inr (v, s'))"
  shows "balanced_ternary q (unat n) (unat h) (m_data v)"
proof -
  have neg: "q - 1 \<noteq> 0" "q - 1 \<noteq> 1" using q by (auto simp: word_unat_eq_iff unat_sub_if')
  have h0: "h \<noteq> 0" "\<not> n < h" using h by (auto simp: word_less_nat_alt)
  have b: "sparse_balance R n h (q - 1) 1 (replicate (unat n) 0) 0 s = Some (Inr (m_data v, s'))"
    using r h0 by (auto simp: Ternary_GenerateVector_def Sub_one rbind_def split: Option.bind_splits sum.splits)
  have u: "unat (h div 2) = unat h div 2" by (simp add: unat_div)
  have lt: "unat h div 2 + 1 < 2 ^ 32" using unsigned_less [of h, where ?'a = nat] by simp
  have "1 \<le> unat h div 2" using h(1) by linarith
  then have u1: "unat (h div 2 - 1) = unat h div 2 - 1" using u by (subst unat_sub) (simp_all add: word_le_nat_alt)
  have u2: "unat (h div 2 + 1) = unat h div 2 + 1" using lt unat_add_lem [of "h div 2" 1] u by simp
  have "0 < unat h div 2 - 1" using h(1) by linarith
  then have "(0 :: u32) < h div 2 - 1" using u1 by (simp add: word_less_nat_alt)
  then obtain cnt where "fill_inv (q - 1) 1 (unat n) (m_data v) cnt h" "h div 2 - 1 \<le> cnt" "cnt \<le> h div 2 + 1"
    using sparse_balance_weight [OF b refl neg(1) _ neg(2)] by auto
  then show ?thesis using u1 u2 by (auto simp: fill_inv_def word_le_nat_alt balanced_ternary_def)
qed

definition flat_libm :: libm where
  "flat_libm = \<lparr>std_exp = (\<lambda>_. 1 / 2), std_log = (\<lambda>_. 0), std_log2 = (\<lambda>_. 0), std_pow = (\<lambda>_ _. 1)\<rparr>"

lemma flat_fin: "DGG_fin 1 = 13"
  by code_simp

lemma gauss_example:
  "(case DGG flat_libm 1 of Inl e \<Rightarrow> False | Inr g \<Rightarrow> DGG_GenerateInteger counter_source g 1000 0 = Some (Inr (990, 0)))"
  by code_simp

section \<open>Properties\<close>

text \<open>
  The uniform generator set to a modulus draws exactly as the function \<open>RNG\<close> of the number theory;
  a vector that it returns has the length asked for and entries less than the modulus, it cannot end in an
  error, and it does return when the draws are low enough.
\<close>

theorem uniform_vector:
  assumes "m \<noteq> 0" "DUG_SetModulus m = Inr g"
  shows "DUG_GenerateInteger R g s = RNG (draw_u32 R) m s \<and>
    (DUG_GenerateVector R g n s = Some r \<longrightarrow> (\<exists>d s'. r = Inr (vec m d, s') \<and> length d = unat n \<and> reduced m d)) \<and>
    (low_draws (draw_u32 R) \<longrightarrow> (\<exists>d s'. DUG_GenerateVector R g n s = Some (Inr (vec m d, s'))))"
proof (intro conjI)
  obtain g' where "DUG_SetModulus m = Inr g'" "\<And>s. DUG_GenerateInteger R g' s = RNG (draw_u32 R) m s"
    by (rule DUG_SetModulus_ok [OF assms(1), where R = R]) blast
  then show "DUG_GenerateInteger R g s = RNG (draw_u32 R) m s" using assms(2) by simp
  show "DUG_GenerateVector R g n s = Some r \<longrightarrow> (\<exists>d s'. r = Inr (vec m d, s') \<and> length d = unat n \<and> reduced m d)"
    by (intro impI DUG_GenerateVector_ok [OF assms])
  show "low_draws (draw_u32 R) \<longrightarrow> (\<exists>d s'. DUG_GenerateVector R g n s = Some (Inr (vec m d, s')))"
    by (intro impI DUG_GenerateVector_returns [OF assms])
qed

theorem uniform_vector_witness:
  "\<exists>g d s'. DUG_SetModulus 1000 = Inr g \<and> DUG_GenerateVector counter_source g 3 0 = Some (Inr (vec 1000 d, s')) \<and> reduced 1000 d"
proof -
  obtain g where g: "DUG_SetModulus 1000 = Inr g" by (rule DUG_SetModulus_ok [of 1000, where R = counter_source]) auto
  have "low_draws (draw_u32 counter_source)" by (simp add: low_draws_def counter_source_def)
  then show ?thesis using g uniform_vector [of 1000 g counter_source 0 3] by fastforce
qed

text \<open>
  C34. Sparse ternary vectors. For \<open>4 \<le> h \<le> size\<close> a vector that is returned has exactly \<open>h\<close> non-zero
  entries, all of them \<open>1\<close> or \<open>q - 1\<close>, and within one of half of them are \<open>1\<close>. For \<open>h = 2\<close> and \<open>h = 3\<close>
  the loop that fills the vector is never entered and the zero vector is returned, and for \<open>h = 1\<close> the bound
  \<open>h / 2 - 1\<close> wraps around and the generator never returns a vector.
\<close>

theorem sparse_ternary:
  assumes "2 < unat q" "3 \<le> unat n"
  shows "(4 \<le> unat h \<and> unat h \<le> unat n \<and> Ternary_GenerateVector R n q h s = Some (Inr (v, s')) \<longrightarrow>
      balanced_ternary q (unat n) (unat h) (m_data v)) \<and>
    (h = 2 \<or> h = 3 \<longrightarrow> Ternary_GenerateVector R n q h s = Some (Inr (vec q (replicate (unat n) 0), s))) \<and>
    (h = 1 \<longrightarrow> Ternary_GenerateVector R n q h s \<noteq> Some (Inr (v, s')))"
proof (intro conjI impI)
  show "balanced_ternary q (unat n) (unat h) (m_data v)"
    if "4 \<le> unat h \<and> unat h \<le> unat n \<and> Ternary_GenerateVector R n q h s = Some (Inr (v, s'))"
    using that by (elim conjE) (rule Ternary_balanced [OF assms(1)])
  show "Ternary_GenerateVector R n q h s = Some (Inr (vec q (replicate (unat n) 0), s))" if h: "h = 2 \<or> h = 3"
  proof -
    have "h \<noteq> 0" "\<not> n < h" using h assms(2) by (auto simp: word_less_nat_alt)
    then show ?thesis by (simp add: Ternary_GenerateVector_def sparse_balance_small [OF h])
  qed
  show "Ternary_GenerateVector R n q h s \<noteq> Some (Inr (v, s'))" if h: "h = 1"
  proof -
    have "\<not> n < 1" using assms(2) by (simp add: word_less_nat_alt)
    then have "Ternary_GenerateVector R n q h s = rbind (sparse_balance R n 1 (q - 1) 1 (replicate (unat n) 0) 0 s)
        (\<lambda>d s. Some (Inr (vec q d, s)))" by (simp add: Ternary_GenerateVector_def Sub_one h)
    then show ?thesis using sparse_balance_one [of R n "q - 1" 1 "replicate (unat n) 0" 0 s] by (auto elim: rbind_InrE)
  qed
qed

theorem sparse_ternary_witness:
  "Ternary_GenerateVector counter_source 4 17 4 0 = Some (Inr (vec 17 [1, 16, 1, 16], 4)) \<and>
    balanced_ternary 17 4 4 [1, 16, 1, 16] \<and>
    Ternary_GenerateVector counter_source 4 17 2 0 = Some (Inr (vec 17 (replicate 4 0), 0)) \<and>
    Ternary_GenerateVector counter_source 4 17 1 0 \<noteq> Some (Inr (vec 17 [0, 0, 0, 0], 0))"
  using sparse_ternary [of 17 4 4 counter_source 0 "vec 17 [1, 16, 1, 16]" 4] counter_ternary
    sparse_ternary [of 17 4 2 counter_source 0] sparse_ternary [of 17 4 1 counter_source 0 "vec 17 [0, 0, 0, 0]" 0]
  by simp

text \<open>
  C35. The inversion sampler for a standard deviation below 300 only returns integers within its table, of
  \<open>ceil(12.006 * std)\<close> entries, and for a modulus above that bound the residue it stores is a reduced one
  of the sampled integer.
\<close>

theorem gaussian_bounded:
  assumes "DGG lm std = Inr g" "std < KARNEY_THRESHOLD" "DGG_fin std < iu q"
    and "DGG_GenerateInteger R g q s = Some (Inr (y, s'))"
  shows "\<exists>k. \<bar>k\<bar> \<le> DGG_fin std \<and> unat y < unat q \<and> iu y mod iu q = k mod iu q"
proof -
  note p = DGG_peikert [OF assms(1,2)]
  obtain k where k: "DGG_GenerateInt R g s = Some (Inr (k, s'))" "y = gauss_residue q k"
    using assms(4) p(1) by (auto simp: DGG_GenerateInteger_def gauss_int_def elim!: rbind_InrE)
  have b: "\<bar>k\<bar> \<le> DGG_fin std" using DGG_GenerateInt_bound [OF k(1)] p(2,3) by simp
  then have "\<bar>k\<bar> < iu q" using assms(3) by linarith
  from gauss_residue_spec [OF this] show ?thesis using b k(2) by blast
qed

theorem gaussian_bounded_witness:
  "\<exists>g. DGG flat_libm 1 = Inr g \<and> DGG_GenerateInteger counter_source g 1000 0 = Some (Inr (990, 0)) \<and>
    (\<exists>k. \<bar>k\<bar> \<le> 13 \<and> 990 mod 1000 = k mod (1000 :: int))"
proof -
  obtain g where g: "DGG flat_libm 1 = Inr g" "DGG_GenerateInteger counter_source g 1000 0 = Some (Inr (990, 0))"
    using gauss_example by (auto split: sum.splits)
  have "\<exists>k. \<bar>k\<bar> \<le> DGG_fin 1 \<and> unat (990 :: u64) < unat (1000 :: u64) \<and> iu (990 :: u64) mod iu (1000 :: u64) = k mod iu (1000 :: u64)"
    using gaussian_bounded [OF g(1) _ _ g(2)] by (simp add: KARNEY_THRESHOLD_def flat_fin)
  then show ?thesis using g by (auto simp: flat_fin)
qed

text \<open>
  C36. The sampler with a mean and a limit always comes to an end, whatever the generator draws: with an
  integer whose draw was accepted, or with an exception.
\<close>

theorem limited_rejection_ends:
  "\<exists>r. DGG_GenerateInteger_int R lm mean stddev n s = Some r \<and> (case r of Inl e \<Rightarrow> True
    | Inr (y, s') \<Rightarrow> \<exists>a b s0 s1. rejection_range lm mean stddev n = Inr (a, b) \<and> draw_int R a b s0 = (y, s1) \<and>
      fst (draw_real R s1) \<le> UnnormalizedGaussianPDFOptimized lm mean (dround (1 / dround (dround (- 2 * stddev) * stddev))) y)"
proof (cases "rejection_range lm mean stddev n")
  case (Inl e)
  then show ?thesis by (simp add: DGG_GenerateInteger_int_def)
next
  case (Inr ab)
  obtain a b where ab: "rejection_range lm mean stddev n = Inr (a, b)" using Inr by (cases ab) simp
  let ?sf = "dround (1 / dround (dround (- 2 * stddev) * stddev))"
  obtain r where r: "limited_loop R lm mean ?sf a b 0 s = Some r"
    using limited_loop_returns [of 0 R lm mean ?sf a b s] by auto
  then have "\<exists>s0 s1. draw_int R a b s0 = (y, s1) \<and> fst (draw_real R s1) \<le> UnnormalizedGaussianPDFOptimized lm mean ?sf y"
    if "r = Inr (y, s')" for y s' using limited_loop_accepts [of R lm mean ?sf a b 0 s y s'] r that by simp
  then show ?thesis using r ab by (auto simp: DGG_GenerateInteger_int_def split: sum.splits)
qed

end
