(* ===== verification/Lwe.thy ===== *)
theory Lwe
  imports PolySem Generators
begin

text \<open>
  The LWE scheme of \<open>src/binfhe\<close> over 64-bit words: parameters, secret, public and switching keys and
  ciphertexts as records, and the operations of \<open>LWEEncryptionScheme\<close> (\<open>lwe-pke.cpp\<close>): key
  generation, encryption, decryption, the homomorphic operations, modulus and key switching.
\<close>

section \<open>Definitions\<close>

subsection \<open>Parameters\<close>

datatype SecretKeyDist = GAUSSIAN | UNIFORM_TERNARY | SPARSE_TERNARY | SPARSE_ENCAPSULATED

record lwe_params =
  m_q :: u64
  m_Q :: u64
  m_qKS :: u64
  m_n :: u32
  m_N :: u32
  m_baseKS :: u32
  m_keyDist :: SecretKeyDist
  m_dgg :: gauss
  m_ks_dgg :: gauss

definition LWECryptoParams :: "libm \<Rightarrow> u32 \<Rightarrow> u32 \<Rightarrow> u64 \<Rightarrow> u64 \<Rightarrow> u64 \<Rightarrow> rat \<Rightarrow> u32 \<Rightarrow> SecretKeyDist \<Rightarrow> lwe_params res" where
  "LWECryptoParams lm n N q Q q_KS std baseKS keyDist =
     ebind (DGG lm 1) (\<lambda>g.
     if n = 0 then Inl (OpenFHEError ''m_n (lattice parameter) can not be zero'')
     else if N = 0 then Inl (OpenFHEError ''m_N (ring dimension) can not be zero'')
     else if q = 0 then Inl (OpenFHEError ''m_q (modulus for additive LWE) can not be zero'')
     else if Q = 0 then Inl (OpenFHEError ''m_Q (modulus for RingGSW/RLWE) can not be zero'')
     else if q_KS = 0 then Inl (OpenFHEError ''q_KS (modulus for key switching) can not be zero'')
     else if baseKS = 0 then Inl (OpenFHEError ''m_baseKS (the base used for key switching) can not be zero'')
     else if unat (GetMSB Q) > MAX_MODULUS_SIZE then Inl (OpenFHEError ''Q.GetMSB() > MAX_MODULUS_SIZE'')
     else ebind (DGG_SetStd lm std g) (\<lambda>d. ebind (DGG_SetStd lm std g) (\<lambda>ks.
       Inr \<lparr>m_q = q, m_Q = Q, m_qKS = q_KS, m_n = n, m_N = N, m_baseKS = baseKS, m_keyDist = keyDist, m_dgg = d, m_ks_dgg = ks\<rparr>)))"

text \<open>The copy leaves out the key switching modulus and its generator, which keep their defaults.\<close>

definition LWECryptoParams_copy :: "libm \<Rightarrow> lwe_params \<Rightarrow> lwe_params res" where
  "LWECryptoParams_copy lm rhs =
     ebind (DGG lm 1) (\<lambda>g. ebind (DGG_SetStd lm (m_std (m_dgg rhs)) g) (\<lambda>d.
       Inr \<lparr>m_q = m_q rhs, m_Q = m_Q rhs, m_qKS = 0, m_n = m_n rhs, m_N = m_N rhs, m_baseKS = m_baseKS rhs,
         m_keyDist = m_keyDist rhs, m_dgg = d, m_ks_dgg = g\<rparr>))"

definition LWECryptoParams_assign :: "libm \<Rightarrow> lwe_params \<Rightarrow> lwe_params \<Rightarrow> lwe_params res" where
  "LWECryptoParams_assign lm P rhs =
     ebind (DGG_SetStd lm (m_std (m_dgg rhs)) (m_dgg P)) (\<lambda>d.
       Inr (P\<lparr>m_q := m_q rhs, m_Q := m_Q rhs, m_n := m_n rhs, m_N := m_N rhs, m_baseKS := m_baseKS rhs, m_dgg := d\<rparr>))"

definition LWECryptoParams_eq :: "lwe_params \<Rightarrow> lwe_params \<Rightarrow> bool" where
  "LWECryptoParams_eq P other \<longleftrightarrow> m_n P = m_n other \<and> m_N P = m_N other \<and> m_q P = m_q other \<and> m_Q P = m_Q other \<and>
     m_std (m_dgg P) = m_std (m_dgg other) \<and> m_baseKS P = m_baseKS other"

subsection \<open>Keys and ciphertexts\<close>

type_synonym lwe_sk = nvec

record lwe_pk =
  pk_A :: "nvec list"
  pk_v :: nvec

record lwe_ksk =
  m_keyA :: "nvec list list list"
  m_keyB :: "u64 list list list"

record lwe_ct =
  ct_a :: nvec
  ct_b :: u64
  ct_p :: u64

definition LWECiphertext :: "nvec \<Rightarrow> u64 \<Rightarrow> lwe_ct" where
  "LWECiphertext a b = \<lparr>ct_a = a, ct_b = b, ct_p = 4\<rparr>"

text \<open>Copies leave out the plaintext modulus.\<close>

definition LWECiphertext_copy :: "lwe_ct \<Rightarrow> lwe_ct" where
  "LWECiphertext_copy rhs = \<lparr>ct_a = ct_a rhs, ct_b = ct_b rhs, ct_p = 4\<rparr>"

definition LWECiphertext_assign :: "lwe_ct \<Rightarrow> lwe_ct \<Rightarrow> lwe_ct" where
  "LWECiphertext_assign ct rhs = ct\<lparr>ct_a := assign_vec (ct_a ct) (ct_a rhs), ct_b := ct_b rhs\<rparr>"

definition ct_modulus :: "lwe_ct \<Rightarrow> u64" where
  "ct_modulus ct = m_modulus (ct_a ct)"

definition LWECiphertext_SetModulus :: "u64 \<Rightarrow> lwe_ct \<Rightarrow> lwe_ct res" where
  "LWECiphertext_SetModulus q ct = ebind (SetModulus (vModEq (ct_a ct) q) q) (\<lambda>a.
     Inr (ct\<lparr>ct_a := a, ct_b := ModEq (ct_b ct) q\<rparr>))"

definition LWECiphertext_eq :: "lwe_ct \<Rightarrow> lwe_ct \<Rightarrow> bool" where
  "LWECiphertext_eq ct other \<longleftrightarrow> vec_eq (ct_a ct) (ct_a other) \<and> ct_b ct = ct_b other"

subsection \<open>Key generation\<close>

definition LWE_KeyGen :: "'s source \<Rightarrow> u32 \<Rightarrow> u64 \<Rightarrow> 's \<Rightarrow> (lwe_sk, 's) run" where
  "LWE_KeyGen R sz modulus s = Ternary_GenerateVector R sz modulus 0 s"

definition LWE_KeyGenGaussian :: "'s source \<Rightarrow> libm \<Rightarrow> u32 \<Rightarrow> u64 \<Rightarrow> 's \<Rightarrow> (lwe_sk, 's) run" where
  "LWE_KeyGenGaussian R lm sz modulus s =
     rbind (rlift (DGG lm (319 / 100)) s) (\<lambda>g s. DGG_GenerateVector R g sz modulus s)"

definition LWE_PubKeyGen :: "'s source \<Rightarrow> lwe_params \<Rightarrow> lwe_sk \<Rightarrow> 's \<Rightarrow> (lwe_pk, 's) run" where
  "LWE_PubKeyGen R P skN s =
     (let dim = m_N P; modulus = m_Q P; ske = m_data skN in
      rbind (rlift (ComputeMu modulus) s) (\<lambda>mu s.
      rbind (DGG_GenerateVector R (m_dgg P) dim modulus s) (\<lambda>v s.
      rbind (rlift (DUG_SetModulus modulus) s) (\<lambda>g s.
      rbind (rmap (\<lambda>j s. rbind (DUG_GenerateVector R g dim s) (\<lambda>A s.
          rbind (rlift (ebind (get_at (m_data v) j) (efor 0 (unat dim) (\<lambda>i b.
            ebind (get_at (m_data A) i) (\<lambda>aji. ebind (get_at ske i) (\<lambda>si.
              Inr (ModAddFastEq b (ModMulFast_mu aji si modulus mu) modulus)))))) s) (\<lambda>vj s.
            Some (Inr ((A, vj), s))))) [0..<unat dim] s) (\<lambda>rows s.
        Some (Inr (\<lparr>pk_A = map fst rows, pk_v = v\<lparr>m_data := map snd rows\<rparr>\<rparr>, s)))))))"

definition LWE_KeyGenPair :: "'s source \<Rightarrow> libm \<Rightarrow> lwe_params \<Rightarrow> 's \<Rightarrow> (lwe_pk \<times> lwe_sk, 's) run" where
  "LWE_KeyGenPair R lm P s =
     rbind (if m_keyDist P = GAUSSIAN then LWE_KeyGenGaussian R lm (m_N P) (m_Q P) s else LWE_KeyGen R (m_N P) (m_Q P) s) (\<lambda>skN s.
     rbind (LWE_PubKeyGen R P skN s) (\<lambda>pkN s. Some (Inr ((pkN, skN), s))))"

subsection \<open>Encryption and decryption\<close>

text \<open>
  \<open>q % p != 0 && q.ConvertToInt() & (1 == 0)\<close>: the comparison binds tighter than the bitwise operator and
  is false, so the test can only fail by dividing by zero.
\<close>

definition modulus_check :: "string \<Rightarrow> u64 \<Rightarrow> u64 \<Rightarrow> unit res" where
  "modulus_check msg q p =
     (if p = 0 then Inl DivideByZero
      else if Mod q p \<noteq> 0 \<and> q AND (if (1 :: int) = 0 then 1 else 0) \<noteq> 0 then Inl (OpenFHEError msg) else Inr ())"

text \<open>\<open>for (i = 0; i < n; ++i) b += a[i].ModMulFast(s[i], q, mu)\<close>\<close>

definition add_products :: "u64 \<Rightarrow> u64 \<Rightarrow> u64 list \<Rightarrow> u64 list \<Rightarrow> nat \<Rightarrow> u64 \<Rightarrow> u64 res" where
  "add_products q mu a t n b = efor 0 n (\<lambda>i b. ebind (get_at a i) (\<lambda>ai. ebind (get_at t i) (\<lambda>ti.
     AddEq b (ModMulFast_mu ai ti q mu)))) b"

definition LWE_Encrypt :: "'s source \<Rightarrow> lwe_params \<Rightarrow> lwe_sk \<Rightarrow> int \<Rightarrow> u64 \<Rightarrow> u64 \<Rightarrow> 's \<Rightarrow> (lwe_ct, 's) run" where
  "LWE_Encrypt R P sk m p q s =
     rbind (rlift (modulus_check ''plaintext modulus p must divide ciphertext modulus q'' q p) s) (\<lambda>_ s.
     rbind (rlift (SwitchModulus sk q) s) (\<lambda>t s.
     rbind (DUG_GenerateVector_modulus R (of_nat (GetLength t)) q s) (\<lambda>(a, _) s.
     rbind (DGG_GenerateInteger R (m_dgg P) q s) (\<lambda>e s.
     rlift (ebind (DividedBy q p) (\<lambda>d. ebind (Mul (word_of_int m mod p) d) (\<lambda>mp. ebind (Add mp e) (\<lambda>b.
       ebind (ComputeMu q) (\<lambda>mu. ebind (add_products q mu (m_data a) (m_data t) (GetLength t) b) (\<lambda>b.
         Inr \<lparr>ct_a = a, ct_b = Mod b q, ct_p = p\<rparr>)))))) s))))"

definition LWE_EncryptN :: "'s source \<Rightarrow> lwe_params \<Rightarrow> lwe_pk \<Rightarrow> int \<Rightarrow> u64 \<Rightarrow> u64 \<Rightarrow> 's \<Rightarrow> (lwe_ct, 's) run" where
  "LWE_EncryptN R P pk m p q s =
     rbind (rlift (modulus_check ''plaintext modulus p must divide ciphertext modulus q'' q p) s) (\<lambda>_ s.
     rbind (rlift (SwitchModulus (pk_v pk) q) s) (\<lambda>bp s. let N = GetLength bp in
     rbind (Ternary_GenerateVector R (of_nat N) q 0 s) (\<lambda>sp s.
     rbind (DGG_GenerateVector R (m_dgg P) (of_nat N) q s) (\<lambda>a s.
     rbind (rlift (efor 0 N (\<lambda>j a. ebind (get_at (pk_A pk) j) (\<lambda>Aj. ebind (get_at (m_data sp) j) (\<lambda>spj.
         ebind (vModMul_s Aj spj) (vModAddEq a)))) a) s) (\<lambda>a s.
     rbind (rlift (ComputeMu q) s) (\<lambda>mu s.
     rbind (DGG_GenerateInteger R (m_dgg P) q s) (\<lambda>e s.
     rlift (ebind (DividedBy q p) (\<lambda>d. ebind (Mul (word_of_int m mod p) d) (\<lambda>mp. ebind (Add mp e) (\<lambda>b.
       ebind (efor 0 N (\<lambda>i b. ebind (get_at (m_data bp) i) (\<lambda>x. ebind (get_at (m_data sp) i) (\<lambda>y.
           Inr (ModAddFastEq b (ModMulFast_mu x y q mu) q)))) (if b \<ge> q then ModEq b q else b)) (\<lambda>b.
         Inr \<lparr>ct_a = a, ct_b = b, ct_p = p\<rparr>))))) s)))))))"

definition LWE_Decrypt :: "lwe_sk option \<Rightarrow> lwe_ct option \<Rightarrow> bool \<Rightarrow> u64 \<Rightarrow> int res" where
  "LWE_Decrypt sk ct hasResult p =
     (case sk of None \<Rightarrow> Inl (OpenFHEError ''PrivateKey is empty'')
      | Some s \<Rightarrow> (case ct of None \<Rightarrow> Inl (OpenFHEError ''Ciphertext is empty'')
        | Some ct \<Rightarrow> if \<not> hasResult then Inl (OpenFHEError ''result is nullptr'') else
          let q = ct_modulus ct in
          ebind (modulus_check ''plaintext modulus p*2 must divide ciphertext modulus q'' q (p * 2)) (\<lambda>_.
          let n = GetLength s in
          ebind (ComputeMu q) (\<lambda>mu. ebind (SwitchModulus s q) (\<lambda>t.
          ebind (add_products q mu (m_data (ct_a ct)) (m_data t) n 0) (\<lambda>inner.
          let inner = ModEq inner q; r = ModSubFastEq (ct_b ct) inner q in
          ebind (DividedBy q (p * 2)) (\<lambda>h. let r = ModAddFastEq r h q in
          ebind (Mul p r) (\<lambda>pr. ebind (DividedBy pr q) (\<lambda>res. Inr (sint res))))))))))"

subsection \<open>Homomorphic operations\<close>

definition LWE_EvalAddEq :: "lwe_ct \<Rightarrow> lwe_ct \<Rightarrow> lwe_ct res" where
  "LWE_EvalAddEq ct1 ct2 = ebind (vModAddEq (ct_a ct1) (ct_a ct2)) (\<lambda>a.
     let ct1 = ct1\<lparr>ct_a := a\<rparr> in Inr (ct1\<lparr>ct_b := ModAddFast (ct_b ct1) (ct_b ct2) (ct_modulus ct1)\<rparr>))"

definition LWE_EvalAddConstEq :: "lwe_ct \<Rightarrow> u64 \<Rightarrow> lwe_ct" where
  "LWE_EvalAddConstEq ct cnst = ct\<lparr>ct_b := ModAddFast (ct_b ct) cnst (ct_modulus ct)\<rparr>"

definition LWE_EvalSubEq :: "lwe_ct \<Rightarrow> lwe_ct \<Rightarrow> lwe_ct res" where
  "LWE_EvalSubEq ct1 ct2 = ebind (vModSubEq (ct_a ct1) (ct_a ct2)) (\<lambda>a.
     let ct1 = ct1\<lparr>ct_a := a\<rparr> in Inr (ct1\<lparr>ct_b := ModSubFast (ct_b ct1) (ct_b ct2) (ct_modulus ct1)\<rparr>))"

definition LWE_EvalSubEq2 :: "lwe_ct \<Rightarrow> lwe_ct \<Rightarrow> lwe_ct res" where
  "LWE_EvalSubEq2 ct1 ct2 = ebind (vModSub (ct_a ct1) (ct_a ct2)) (\<lambda>a.
     Inr (ct2\<lparr>ct_a := assign_vec (ct_a ct2) a, ct_b := ModSubFast (ct_b ct1) (ct_b ct2) (ct_modulus ct1)\<rparr>))"

definition LWE_EvalSubConstEq :: "lwe_ct \<Rightarrow> u64 \<Rightarrow> lwe_ct" where
  "LWE_EvalSubConstEq ct cnst = ct\<lparr>ct_b := ModSubFast (ct_b ct) cnst (ct_modulus ct)\<rparr>"

definition LWE_EvalMultConstEq :: "lwe_ct \<Rightarrow> u64 \<Rightarrow> lwe_ct res" where
  "LWE_EvalMultConstEq ct1 cnst = ebind (vModMulEq_s (ct_a ct1) cnst) (\<lambda>a.
     let ct1 = ct1\<lparr>ct_a := a\<rparr> in Inr (ct1\<lparr>ct_b := ModMulFast (ct_b ct1) cnst (ct_modulus ct1)\<rparr>))"

subsection \<open>Switching of modulus and key\<close>

text \<open>\<open>floor(0.5 + v * q / Q)\<close> in doubles, modulo \<open>q\<close>.\<close>

definition RoundqQ :: "u64 \<Rightarrow> u64 \<Rightarrow> u64 \<Rightarrow> u64 res" where
  "RoundqQ v q Q =
     (if Q = 0 then Inl OutOfRange
      else ebind (double_to_u64 (double_round (1 / 2 + double_round (double_round (ConvertToDouble v * ConvertToDouble q) / ConvertToDouble Q)))) (\<lambda>r.
        if q = 0 then Inl DivideByZero else Inr (Mod r q)))"

definition LWE_ModSwitch :: "u64 \<Rightarrow> lwe_ct \<Rightarrow> lwe_ct res" where
  "LWE_ModSwitch q ctQ =
     (let Q = ct_modulus ctQ in
      ebind (emap (\<lambda>v. RoundqQ v q Q) (m_data (ct_a ctQ))) (\<lambda>a. ebind (RoundqQ (ct_b ctQ) q Q) (\<lambda>b.
        Inr (LWECiphertext \<lparr>m_modulus = q, m_data = a\<rparr> b))))"

text \<open>The number of digits of \<open>q\<close> in a base, from logarithms in doubles.\<close>

definition digit_count :: "libm \<Rightarrow> u64 \<Rightarrow> u64 \<Rightarrow> nat res" where
  "digit_count lm q base =
     (if std_log lm (ConvertToDouble base) = 0 then Inl OutOfRange
      else let c = \<lceil>dround (std_log lm (ConvertToDouble q) / std_log lm (ConvertToDouble base))\<rceil>
        in if c < 0 \<or> c \<ge> 2 ^ 32 then Inl OutOfRange else Inr (nat c))"

fun base_powers :: "nat \<Rightarrow> u64 \<Rightarrow> u64 \<Rightarrow> u64 list res" where
  "base_powers 0 base value = Inr []"
| "base_powers (Suc k) base value = ebind (MulEq value base) (\<lambda>v. ebind (base_powers k base v) (\<lambda>vs. Inr (value # vs)))"

text \<open>One encryption of \<open>j * digitsKS[k]\<close> times an entry of the old key under the new key \<open>sv\<close>.\<close>

definition ksk_entry :: "'s source \<Rightarrow> lwe_params \<Rightarrow> dug \<Rightarrow> u64 \<Rightarrow> u64 list \<Rightarrow> u64 \<Rightarrow> u64 \<Rightarrow> u64 \<Rightarrow> 's \<Rightarrow> (nvec \<times> u64, 's) run" where
  "ksk_entry R P g mu sv svNi j dg s =
     (let qKS = m_qKS P; n = m_n P in
      rbind (DUG_GenerateVector R g n s) (\<lambda>a s.
      rbind (DGG_GenerateInteger R (m_ks_dgg P) qKS s) (\<lambda>e s.
      rlift (ebind (Mul j dg) (\<lambda>jd. ebind (add_products qKS mu (m_data a) sv (unat n) (ModAdd e (ModMul svNi jd qKS) qKS)) (\<lambda>b.
        Inr (a, ModEq b qKS)))) s)))"

definition LWE_KeySwitchGen :: "'s source \<Rightarrow> libm \<Rightarrow> lwe_params \<Rightarrow> lwe_sk \<Rightarrow> lwe_sk \<Rightarrow> 's \<Rightarrow> (lwe_ksk, 's) run" where
  "LWE_KeySwitchGen R lm P sk skN s =
     (let qKS = m_qKS P; baseKS = ucast (m_baseKS P) in
      rbind (rlift (digit_count lm qKS baseKS) s) (\<lambda>digitCount s.
      rbind (rlift (base_powers digitCount baseKS 1) s) (\<lambda>digitsKS s.
      rbind (rlift (SwitchModulus sk qKS) s) (\<lambda>sv s.
      rbind (rlift (SwitchModulus skN qKS) s) (\<lambda>svN s.
      rbind (rlift (DUG_SetModulus qKS) s) (\<lambda>g s.
      rbind (rlift (ComputeMu qKS) s) (\<lambda>mu s.
      rbind (rmap (\<lambda>i s. rbind (rlift (get_at (m_data svN) i) s) (\<lambda>svNi s.
          rmap (\<lambda>j. rmap (\<lambda>dg. ksk_entry R P g mu (m_data sv) svNi (of_nat j) dg) digitsKS) [0..<unat (m_baseKS P)] s))
          [0..<unat (m_N P)] s) (\<lambda>entries s.
        Some (Inr (\<lparr>m_keyA = map (map (map fst)) entries, m_keyB = map (map (map snd)) entries\<rparr>, s))))))))))"

definition ks_digit :: "u64 \<Rightarrow> u32 \<Rightarrow> nvec list list \<Rightarrow> u64 list list \<Rightarrow> nat \<Rightarrow> u64 list \<times> u64 \<times> u64 \<Rightarrow> (u64 list \<times> u64 \<times> u64) res" where
  "ks_digit Q baseKS refA refB j st =
     (let (a, b, atmp) = st in
      if baseKS = 0 then Inl DivideByZero
      else let a0 = unat (atmp mod ucast baseKS); atmp = atmp div ucast baseKS in
        ebind (get_at refB a0) (\<lambda>rb. ebind (get_at rb j) (\<lambda>rbj. let b = ModSubFastEq b rbj Q in
        ebind (get_at refA a0) (\<lambda>ra. ebind (get_at ra j) (\<lambda>refAj.
        ebind (efor 0 (length a) (\<lambda>k a. ebind (get_at a k) (\<lambda>ak. ebind (get_at (m_data refAj) k) (\<lambda>x.
          set_at a k (ModSubFastEq ak x Q)))) a) (\<lambda>a. Inr (a, b, atmp)))))))"

definition LWE_KeySwitch :: "libm \<Rightarrow> lwe_params \<Rightarrow> lwe_ksk \<Rightarrow> lwe_ct \<Rightarrow> lwe_ct res" where
  "LWE_KeySwitch lm P K ctQN =
     (let Q = m_qKS P; baseKS = m_baseKS P in
      ebind (digit_count lm Q (ucast baseKS)) (\<lambda>digitCount.
      ebind (efor 0 (unat (m_N P)) (\<lambda>i (a, b).
        ebind (get_at (m_keyA K) i) (\<lambda>refA. ebind (get_at (m_keyB K) i) (\<lambda>refB.
        ebind (get_at (m_data (ct_a ctQN)) i) (\<lambda>atmp.
        ebind (efor 0 digitCount (ks_digit Q baseKS refA refB) (a, b, atmp)) (\<lambda>(a, b, atmp). Inr (a, b))))))
        (replicate (unat (m_n P)) 0, ct_b ctQN)) (\<lambda>(a, b).
      Inr (LWECiphertext \<lparr>m_modulus = Q, m_data = a\<rparr> b))))"

definition LWE_SwitchCTtoqn :: "libm \<Rightarrow> lwe_params \<Rightarrow> lwe_ksk \<Rightarrow> lwe_ct \<Rightarrow> lwe_ct res" where
  "LWE_SwitchCTtoqn lm P ksk ct =
     ebind (LWE_ModSwitch (m_qKS P) ct) (\<lambda>ctMS. ebind (LWE_KeySwitch lm P ksk ctMS) (\<lambda>ctKS. LWE_ModSwitch (m_q P) ctKS))"

definition LWE_NoiselessEmbedding :: "lwe_params \<Rightarrow> int \<Rightarrow> lwe_ct res" where
  "LWE_NoiselessEmbedding P m = (let q = m_q P in
     ebind (RShift q 2) (\<lambda>d. ebind (Mul d (word_of_int m)) (\<lambda>b. Inr (LWECiphertext (nvec_zero (unat (m_n P)) q) b))))"

end
