(* ===== verification/LweSem.thy ===== *)
theory LweSem
  imports Lwe
begin

text \<open>
  What the LWE operations do to the phase \<open>b - <a, s>\<close> of a ciphertext: decryption rounds it, encryption
  sets it to the encoded message plus noise, the homomorphic operations add and scale it, and the key switch
  keeps it up to the noise of the switching key.
\<close>

section \<open>Facts\<close>

text \<open>
  The secret as integers \<open>t i\<close>, and the phase of a ciphertext: \<open>b - <a, t>\<close> modulo \<open>q\<close>.
\<close>

definition secret :: "lwe_sk \<Rightarrow> nat \<Rightarrow> int" where
  "secret sk i = centered (unat (m_modulus sk)) (unat (m_data sk ! i))"

definition inner :: "nat \<Rightarrow> u64 list \<Rightarrow> (nat \<Rightarrow> int) \<Rightarrow> int" where
  "inner n a t = (\<Sum>i<n. iu (a ! i) * t i)"

definition lwe_ok :: "u64 \<Rightarrow> nat \<Rightarrow> lwe_ct \<Rightarrow> bool" where
  "lwe_ok q n ct \<longleftrightarrow> m_modulus (ct_a ct) = q \<and> length (m_data (ct_a ct)) = n \<and> reduced q (m_data (ct_a ct)) \<and> unat (ct_b ct) < unat q"

definition has_phase :: "u64 \<Rightarrow> nat \<Rightarrow> (nat \<Rightarrow> int) \<Rightarrow> int \<Rightarrow> lwe_ct \<Rightarrow> bool" where
  "has_phase q n t y ct \<longleftrightarrow> lwe_ok q n ct \<and> (iu (ct_b ct) - inner n (m_data (ct_a ct)) t) mod iu q = y mod iu q"

subsection \<open>Sums of products\<close>

lemma barrettD: "barrett_modulus q \<Longrightarrow> 0 < unat q" "barrett_modulus q \<Longrightarrow> unat q < 2 ^ 60" "barrett_modulus q \<Longrightarrow> q \<noteq> 0"
  by (auto simp: barrett_modulus_def)

lemma AddEq_Inr: "AddEq a b = Inr (a + b)"
  by (simp add: AddEq_def AddEqFast_def NATIVEINT_DO_CHECKS_def)

lemma Add_Inr: "Add a b = Inr (a + b)"
  by (simp add: Add_def AddFast_def NATIVEINT_DO_CHECKS_def)

lemma Mul_Inr: "Mul a b = Inr (a * b)"
  by (simp add: Mul_def MulFast_def NATIVEINT_DO_CHECKS_def)

lemma MulEq_Inr: "MulEq a b = Inr (a * b)"
  by (simp add: MulEq_def MulEqFast_def NATIVEINT_DO_CHECKS_def)

text \<open>The accumulated sum does not wrap as long as \<open>b + n * q\<close> fits in the word.\<close>

lemma add_products_ok:
  assumes q: "barrett_modulus q" and a: "length a = n" "reduced q a" and t: "length t = n" "reduced q t"
    and b: "unat b + n * unat q < 2 ^ 64"
  shows "\<exists>r. add_products q (mu_of q) a t n b = Inr r \<and> unat r \<le> unat b + n * unat q \<and>
    iu r mod iu q = (iu b + (\<Sum>i<n. iu (a ! i) * iu (t ! i))) mod iu q"
proof -
  define P where "P = (\<lambda>k (r :: u64). unat r \<le> unat b + k * unat q \<and>
    iu r mod iu q = (iu b + (\<Sum>i<k. iu (a ! i) * iu (t ! i))) mod iu q)"
  have "\<exists>r. add_products q (mu_of q) a t n b = Inr r \<and> P n r"
    unfolding add_products_def
  proof (rule efor_Inr [where P = P])
    fix k and r :: u64 assume k: "k < n" and r: "P k r"
    define w where "w = ModMulFast_mu (a ! k) (t ! k) q (mu_of q)"
    have lt: "unat (a ! k) < unat q" "unat (t ! k) < unat q" using reduced_nth a t k by auto
    have w: "unat w = unat (a ! k) * unat (t ! k) mod unat q"
      unfolding w_def by (rule ModMulFast_mu_reduced [OF q unat_mu_of [OF q] lt])
    then have wq: "unat w < unat q" using barrettD(1) [OF q] by simp
    have "Suc k * unat q \<le> n * unat q" using k by (intro mult_le_mono1) simp
    then have s: "unat r + unat w < 2 ^ 64" using r wq b by (simp add: P_def)
    then have u: "unat (r + w) = unat r + unat w" by (rule unat_add_small)
    have "iu (r + w) mod iu q = (iu r + iu w) mod iu q" unfolding u by simp
    also have "\<dots> = (iu b + (\<Sum>i<k. iu (a ! i) * iu (t ! i)) + iu (a ! k) * iu (t ! k)) mod iu q"
      using r w by (intro mod_add_cong) (simp_all only: P_def of_nat_mod of_nat_mult mod_mod_trivial)
    finally have "iu (r + w) mod iu q = (iu b + (\<Sum>i<Suc k. iu (a ! i) * iu (t ! i))) mod iu q"
      by (simp only: sum.lessThan_Suc add.assoc)
    moreover have "unat (r + w) \<le> unat b + Suc k * unat q" using u r wq by (simp add: P_def)
    ultimately have "P (Suc k) (r + w)" by (simp only: P_def)
    then show "\<exists>s. ebind (get_at a k) (\<lambda>ai. ebind (get_at t k) (\<lambda>ti. AddEq r (ModMulFast_mu ai ti q (mu_of q)))) = Inr s \<and> P (Suc k) s"
      using k a(1) t(1) by (simp add: get_at_def AddEq_Inr w_def)
  qed (simp_all add: P_def)
  then show ?thesis by (simp only: P_def)
qed

text \<open>The secret brought to the modulus of the ciphertext.\<close>

lemma switched_secret:
  assumes "nv_ok sk" "barrett_modulus q"
  obtains t where "SwitchModulus sk q = Inr \<lparr>m_modulus = q, m_data = t\<rparr>" "length t = GetLength sk" "reduced q t"
    "\<And>i. i < GetLength sk \<Longrightarrow> iu (t ! i) = secret sk i mod iu q"
proof -
  obtain w where w: "SwitchModulus sk q = Inr w" "m_modulus w = q" "nv_ok w" "length (m_data w) = length (m_data sk)"
    "\<forall>i < length (m_data sk). int (unat (m_data w ! i)) = centered (unat (m_modulus sk)) (unat (m_data sk ! i)) mod int (unat q)"
    using SwitchModulus_ok [OF assms(1) barrettD(1,2) [OF assms(2)]] by blast
  have "w = \<lparr>m_modulus = q, m_data = m_data w\<rparr>" using w(2) by simp
  moreover have "reduced q (m_data w)" using w(2,3) by (simp add: nv_ok_def)
  ultimately show ?thesis using w(1,4,5) that [of "m_data w"] by (simp add: GetLength_def secret_def)
qed

lemma inner_secret_cong:
  assumes "\<And>i. i < n \<Longrightarrow> iu (t ! i) = u i mod iu q"
  shows "(\<Sum>i<n. iu (a ! i) * iu (t ! i)) mod iu q = inner n a u mod iu q"
  unfolding inner_def by (intro sum_mod_cong mod_mult_cong refl) (simp only: assms lessThan_iff mod_mod_trivial)

subsection \<open>Decryption\<close>

lemma iu_ModAddFast:
  assumes "barrett_modulus q" "unat a < unat q" "unat b < unat q"
  shows "iu (ModAddFast a b q) = (iu a + iu b) mod iu q"
proof -
  have "unat q \<le> 2 ^ 63" using barrettD(2) [OF assms(1)] by simp
  from ModAddFast_correct [OF assms(2,3) this] show ?thesis by (simp only: of_nat_mod of_nat_add)
qed

lemma iu_ModSubFast:
  assumes "barrett_modulus q" "unat a < unat q" "unat b < unat q"
  shows "iu (ModSubFast a b q) = (iu a - iu b) mod iu q"
proof -
  have "unat q \<le> 2 ^ 63" using barrettD(2) [OF assms(1)] by simp
  from ModSubFast_correct [OF assms(2,3) this] have e: "iu (ModSubFast a b q) = int (unat a + (unat q - unat b)) mod iu q"
    by (simp only: of_nat_mod)
  have "unat b \<le> unat q" using assms(3) by simp
  from int_mod_sub [OF this, of "unat a"] show ?thesis unfolding e .
qed

lemma fast_less:
  assumes "barrett_modulus q" "unat a < unat q" "unat b < unat q"
  shows "unat (ModAddFast a b q) < unat q" "unat (ModSubFast a b q) < unat q"
proof -
  have q: "0 < iu q" using barrettD(1) [OF assms(1)] by (simp only: of_nat_0_less_iff)
  have "iu (ModAddFast a b q) < iu q" unfolding iu_ModAddFast [OF assms] by (rule pos_mod_bound [OF q])
  then show "unat (ModAddFast a b q) < unat q" by (simp only: of_nat_less_iff)
  have "iu (ModSubFast a b q) < iu q" unfolding iu_ModSubFast [OF assms] by (rule pos_mod_bound [OF q])
  then show "unat (ModSubFast a b q) < unat q" by (simp only: of_nat_less_iff)
qed

lemma modulus_check_eq: "modulus_check msg q p = (if p = 0 then Inl DivideByZero else Inr ())"
  by (simp add: modulus_check_def)

lemma DividedBy_Inr: "b \<noteq> 0 \<Longrightarrow> DividedBy a b = Inr (a div b)"
  by (simp add: DividedBy_def)

lemma unat_mult_small: "unat a * unat b < 2 ^ 64 \<Longrightarrow> unat (a * b :: u64) = unat a * unat b"
  by (subst unat_mult_lem [symmetric]) simp

lemma sint_small: "unat (w :: u64) < 2 ^ 63 \<Longrightarrow> sint w = iu w"
proof -
  assume "unat w < 2 ^ 63"
  then have "iu w < int (2 ^ 63)" by (simp only: of_nat_less_iff)
  then have "signed_take_bit 63 (uint w) = uint w" by (intro signed_take_bit_int_eq_self) (simp_all add: order_trans [OF _ uint_ge_0])
  then show ?thesis by (simp add: sint_uint)
qed

text \<open>The value that decryption computes from the phase \<open>y\<close>.\<close>

definition decoded :: "int \<Rightarrow> int \<Rightarrow> int \<Rightarrow> int" where
  "decoded q p y = p * ((y + q div (p * 2)) mod q) div q"

lemma decoded_less: "0 < q \<Longrightarrow> 0 < p \<Longrightarrow> 0 \<le> decoded q p y \<and> decoded q p y < p"
proof -
  assume q: "0 < q" "0 < p"
  define r where "r = (y + q div (p * 2)) mod q"
  have r: "0 \<le> r" "r < q" using q by (simp_all add: r_def)
  have "p * r div q < p"
  proof (rule ccontr)
    assume "\<not> p * r div q < p"
    then have "p * q \<le> p * r div q * q" using q by (intro mult_right_mono) simp_all
    also have "\<dots> \<le> p * r" using div_mult_mod_eq [of "p * r" q] pos_mod_sign [OF q(1), of "p * r"] by linarith
    also have "\<dots> < p * q" using r q by (intro mult_strict_left_mono) simp_all
    finally show False by simp
  qed
  then show ?thesis using q r by (simp add: decoded_def r_def pos_imp_zdiv_nonneg_iff)
qed

lemma decoded_message:
  assumes d: "p * 2 dvd q" and q: "0 < q" "0 < p" and m: "0 \<le> m" "m < p" and e: "- (q div (p * 2)) \<le> e" "e < q div (p * 2)"
    and y: "y mod q = (m * (q div p) + e) mod q"
  shows "decoded q p y = m"
proof -
  obtain h where h: "q = p * 2 * h" using d by blast
  have h0: "0 < h" using q h by (simp add: zero_less_mult_iff)
  have qp: "q div p = 2 * h" "q div (p * 2) = h" using h q(2) by simp_all
  define r where "r = m * (2 * h) + e + h"
  have eh: "0 \<le> e + h" "e + h < 2 * h" using e qp(2) by linarith+
  have "(m + 1) * (2 * h) \<le> p * (2 * h)" using m(2) h0 by (intro mult_right_mono) simp_all
  then have "r < q" using eh by (simp add: r_def h algebra_simps)
  moreover have "0 \<le> m * (2 * h)" using m(1) h0 by (intro mult_nonneg_nonneg) simp_all
  then have "0 \<le> r" using eh unfolding r_def by linarith
  moreover have "(y + h) mod q = r mod q" unfolding r_def using y qp by (intro mod_add_cong refl) simp
  ultimately have "(y + h) mod q = r" by simp
  then have "decoded q p y = (p * r) div q" by (simp only: decoded_def qp)
  then have "decoded q p y = (p * r) div (p * (2 * h))" by (simp only: h mult.assoc)
  also have "\<dots> = r div (2 * h)" using q(2) by simp
  also have "\<dots> = ((e + h) + m * (2 * h)) div (2 * h)" by (simp only: r_def ac_simps)
  also have "\<dots> = m + (e + h) div (2 * h)" by (rule div_mult_self1) (use h0 in simp)
  also have "\<dots> = m" using eh by simp
  finally show ?thesis .
qed

lemma LWE_Decrypt_ok:
  assumes q: "barrett_modulus q" and sk: "nv_ok sk" "GetLength sk = n" "n * unat q < 2 ^ 64"
    and ct: "has_phase q n (secret sk) y ct" and p: "0 < unat p" "unat p * 2 < 2 ^ 64" "unat p * unat q < 2 ^ 64"
  shows "LWE_Decrypt (Some sk) (Some ct) True p = Inr (decoded (iu q) (int (unat p)) y)"
proof -
  note c = ct [unfolded has_phase_def lwe_ok_def]
  obtain t where t: "SwitchModulus sk q = Inr \<lparr>m_modulus = q, m_data = t\<rparr>" "length t = GetLength sk" "reduced q t"
    "\<And>i. i < GetLength sk \<Longrightarrow> iu (t ! i) = secret sk i mod iu q" by (rule switched_secret [OF sk(1) q]) blast
  obtain r where r: "add_products q (mu_of q) (m_data (ct_a ct)) t n 0 = Inr r"
    "iu r mod iu q = (iu (0 :: u64) + (\<Sum>i<n. iu (m_data (ct_a ct) ! i) * iu (t ! i))) mod iu q"
    using add_products_ok [OF q _ _ _ t(3), of "m_data (ct_a ct)" n 0] c t(2) sk(2,3) by auto
  have q0: "0 < unat q" "unat q < 2 ^ 60" "q \<noteq> 0" using barrettD [OF q] by auto
  define i where "i = ModEq r q"
  have ui: "unat i = unat r mod unat q" by (simp add: i_def ModEq_def unat_mod)
  then have i: "unat i < unat q" using q0(1) by simp
  have i2: "iu i mod iu q = iu r mod iu q" unfolding ui by (simp only: of_nat_mod mod_mod_trivial)
  define x where "x = ModSubFast (ct_b ct) i q"
  have b: "unat (ct_b ct) < unat q" using c by simp
  have x: "unat x < unat q" "iu x = (iu (ct_b ct) - iu i) mod iu q"
    unfolding x_def by (rule fast_less(2) [OF q b i], rule iu_ModSubFast [OF q b i])
  have "(iu (ct_b ct) - iu i) mod iu q = (iu (ct_b ct) - inner n (m_data (ct_a ct)) (secret sk)) mod iu q"
  proof (rule mod_diff_cong [OF refl])
    show "iu i mod iu q = inner n (m_data (ct_a ct)) (secret sk) mod iu q"
      using i2 r(2) inner_secret_cong [of n t "secret sk" q "m_data (ct_a ct)"] t(4) sk(2) by simp
  qed
  then have xy: "iu x = y mod iu q" using x(2) c by simp
  have p2: "unat (p * 2) = unat p * 2" using unat_mult_small [of p 2] p(2) by simp
  then have p20: "p * 2 \<noteq> 0" using p(1) by auto
  define h where "h = q div (p * 2)"
  have h: "unat h = unat q div (unat p * 2)" by (simp add: h_def unat_div p2)
  have hq: "unat h < unat q" unfolding h using q0(1) p(1) by (intro div_less_dividend) simp_all
  define w where "w = ModAddFast x h q"
  have w: "iu w = (iu x + iu h) mod iu q" "unat w < unat q"
    unfolding w_def by (rule iu_ModAddFast [OF q x(1) hq], rule fast_less(1) [OF q x(1) hq])
  have "iu h = iu q div (int (unat p) * 2)" unfolding h by (simp only: zdiv_int of_nat_mult of_nat_numeral)
  then have wy: "iu w = (y + iu q div (int (unat p) * 2)) mod iu q" unfolding w xy by (simp only: mod_add_left_eq)
  have "unat p * unat w \<le> unat p * unat q" using w(2) by (intro mult_le_mono2) simp
  then have pw: "unat (p * w) = unat p * unat w" using p(3) by (intro unat_mult_small) linarith
  define res where "res = (p * w) div q"
  have res: "unat res = unat p * unat w div unat q" by (simp add: res_def unat_div pw)
  have ires: "iu res = decoded (iu q) (int (unat p)) y"
    unfolding res decoded_def wy [symmetric] by (simp only: zdiv_int of_nat_mult)
  have "iu res < int (unat p)" using decoded_less [of "iu q" "int (unat p)" y] q0(1) p(1) unfolding ires [symmetric] of_nat_0_less_iff by blast
  then have "unat res < 2 ^ 63" using p(2) by (simp only: of_nat_less_iff) simp
  then have s: "sint res = decoded (iu q) (int (unat p)) y" using sint_small ires by simp
  have m: "m_modulus (ct_a ct) = q" using c by simp
  show ?thesis using t(1) r(1) p20 q0(3) s sk(2)
    by (simp add: LWE_Decrypt_def Let_def m ct_modulus_def modulus_check_eq ComputeMu_eq [OF q] DividedBy_Inr Mul_Inr
        ModSubFastEq_eq ModAddFastEq_eq i_def x_def h_def w_def res_def)
qed

subsection \<open>Encryption\<close>

lemma unat_word_of_int: "int (unat (word_of_int z :: u64)) = z mod 2 ^ 64"
  unfolding unat_eq_nat_uint unsigned_of_int by (simp add: take_bit_eq_mod)

definition encoded :: "int \<Rightarrow> nat \<Rightarrow> nat \<Rightarrow> int" where
  "encoded m p q = (m mod 2 ^ 64) mod int p * (int q div int p)"

lemma encoded_small: "0 \<le> m \<Longrightarrow> m < int p \<Longrightarrow> m < 2 ^ 64 \<Longrightarrow> encoded m p q = m * (int q div int p)"
  by (simp add: encoded_def)

lemma message_word:
  fixes p q :: u64
  assumes "0 < unat p"
  shows "iu (word_of_int m mod p * (q div p)) = encoded m (unat p) (unat q)" "unat (word_of_int m mod p * (q div p)) \<le> unat q"
proof -
  let ?w = "word_of_int m mod p :: u64" and ?d = "q div p"
  have w: "unat ?w = unat (word_of_int m :: u64) mod unat p" and d: "unat ?d = unat q div unat p"
    by (simp_all only: unat_mod unat_div)
  have "unat ?w < unat p" using assms by (simp only: w) simp
  then have "unat ?w * unat ?d \<le> unat p * unat ?d" by (intro mult_le_mono1) simp
  also have "\<dots> \<le> unat q" unfolding d by (rule times_div_less_eq_dividend)
  finally have le: "unat ?w * unat ?d \<le> unat q" .
  then have u: "unat (?w * ?d) = unat ?w * unat ?d"
    using unsigned_less [of q, where ?'a = nat] by (intro unat_mult_small) simp
  then show "unat (?w * ?d) \<le> unat q" using le by simp
  have "iu ?w = m mod 2 ^ 64 mod int (unat p)" unfolding w zmod_int by (simp only: unat_word_of_int)
  then show "iu (?w * ?d) = encoded m (unat p) (unat q)" unfolding u encoded_def of_nat_mult by (simp only: d zdiv_int)
qed

lemma DUG_GenerateVector_modulus_ok:
  assumes "m \<noteq> 0" "DUG_GenerateVector_modulus R n m s = Some (Inr ((a, g), s'))"
  shows "m_modulus a = m" "length (m_data a) = unat n" "reduced m (m_data a)"
proof -
  obtain g' where g: "DUG_SetModulus m = Inr g'" by (rule DUG_SetModulus_ok [OF assms(1), where R = R]) blast
  with assms(2) have "DUG_GenerateVector R g' n s = Some (Inr (a, s'))"
    by (auto simp: DUG_GenerateVector_modulus_def elim!: rbind_InrE)
  from DUG_GenerateVector_ok [OF assms(1) g this]
  show "m_modulus a = m" "length (m_data a) = unat n" "reduced m (m_data a)" by auto
qed

lemma LWE_Encrypt_ok:
  assumes q: "barrett_modulus q" and sk: "nv_ok sk" "GetLength sk = n" "n < 2 ^ 32" "(n + 2) * unat q < 2 ^ 64" and p: "0 < unat p"
    and a: "DUG_GenerateVector_modulus R (of_nat n) q s = Some (Inr ((a, g), s1))"
    and e: "DGG_GenerateInteger R (m_dgg P) q s1 = Some (Inr (e, s2))" "unat e < unat q"
  obtains ct where "LWE_Encrypt R P sk m p q s = Some (Inr (ct, s2))" "ct_p ct = p"
    "has_phase q n (secret sk) (encoded m (unat p) (unat q) + iu e) ct"
proof -
  have q0: "0 < unat q" "q \<noteq> 0" using barrettD [OF q] by auto
  note a' = DUG_GenerateVector_modulus_ok [OF q0(2) a]
  have an: "length (m_data a) = n" using a'(2) sk(3) by (simp add: unat_of_nat_u32)
  obtain t where t: "SwitchModulus sk q = Inr \<lparr>m_modulus = q, m_data = t\<rparr>" "length t = GetLength sk" "reduced q t"
    "\<And>i. i < GetLength sk \<Longrightarrow> iu (t ! i) = secret sk i mod iu q" by (rule switched_secret [OF sk(1) q]) blast
  define mp where "mp = word_of_int m mod p * (q div p)"
  have mp: "iu mp = encoded m (unat p) (unat q)" "unat mp \<le> unat q" unfolding mp_def by (rule message_word [OF p])+
  have "(n + 2) * unat q = n * unat q + 2 * unat q" by (simp add: algebra_simps)
  then have room: "unat mp + unat e + n * unat q < 2 ^ 64" using mp(2) e(2) sk(4) by linarith
  then have ue: "unat (mp + e) = unat mp + unat e" by (intro unat_add_small) linarith
  have room': "unat (mp + e) + n * unat q < 2 ^ 64" unfolding ue by (rule room)
  obtain r where r: "add_products q (mu_of q) (m_data a) t n (mp + e) = Inr r"
    "iu r mod iu q = (iu (mp + e) + (\<Sum>i<n. iu (m_data a ! i) * iu (t ! i))) mod iu q"
    using add_products_ok [OF q an a'(3) _ t(3) room'] t(2) sk(2) by auto
  define ct where "ct = \<lparr>ct_a = a, ct_b = Mod r q, ct_p = p\<rparr>"
  have p0: "p \<noteq> 0" using p by auto
  have "LWE_Encrypt R P sk m p q s = Some (Inr (ct, s2))"
    using t(1,2) a e(1) r(1) p0 sk(2)
    by (simp add: LWE_Encrypt_def modulus_check_eq GetLength_def DividedBy_Inr Mul_Inr Add_Inr ComputeMu_eq [OF q] mp_def ct_def)
  moreover have "has_phase q n (secret sk) (encoded m (unat p) (unat q) + iu e) ct"
    unfolding has_phase_def lwe_ok_def
  proof (intro conjI)
    have ub: "unat (Mod r q) = unat r mod unat q" by (simp add: Mod_def unat_mod)
    show "m_modulus (ct_a ct) = q" "length (m_data (ct_a ct)) = n" "reduced q (m_data (ct_a ct))"
      using a' an by (simp_all add: ct_def)
    show "unat (ct_b ct) < unat q" using q0(1) ub by (simp add: ct_def)
    have "iu (Mod r q) mod iu q = iu r mod iu q" unfolding ub by (simp only: of_nat_mod mod_mod_trivial)
    also have "\<dots> = (iu (mp + e) + inner n (m_data a) (secret sk)) mod iu q"
      unfolding r(2) using inner_secret_cong [of n t "secret sk" q "m_data a"] t(4) sk(2) by (intro mod_add_cong refl) simp
    finally have "(iu (Mod r q) - inner n (m_data a) (secret sk)) mod iu q =
        (iu (mp + e) + inner n (m_data a) (secret sk) - inner n (m_data a) (secret sk)) mod iu q"
      by (rule mod_diff_cong [OF _ refl])
    then have "(iu (Mod r q) - inner n (m_data a) (secret sk)) mod iu q = iu (mp + e) mod iu q"
      by (simp only: add_diff_cancel_right')
    moreover have "iu (mp + e) = encoded m (unat p) (unat q) + iu e" unfolding ue mp(1) [symmetric] by simp
    ultimately show "(iu (ct_b ct) - inner n (m_data (ct_a ct)) (secret sk)) mod iu q = (encoded m (unat p) (unat q) + iu e) mod iu q"
      by (simp only: ct_def lwe_ct.simps)
  qed
  ultimately show ?thesis using that by (simp add: ct_def)
qed

subsection \<open>Homomorphic operations\<close>

lemma inner_hom:
  assumes "restores q n (\<lambda>i. f i) d" "\<And>i. i < n \<Longrightarrow> f i mod iu q = (iu (x ! i) * c + iu (y ! i) * c') mod iu q"
  shows "inner n d t mod iu q = (inner n x t * c + inner n y t * c') mod iu q"
proof -
  have "(iu (d ! i) * t i) mod iu q = ((iu (x ! i) * t i) * c + (iu (y ! i) * t i) * c') mod iu q" if i: "i < n" for i
  proof -
    have "iu (d ! i) mod iu q = (iu (x ! i) * c + iu (y ! i) * c') mod iu q" using restoresD(3) [OF assms(1) i] assms(2) [OF i] by simp
    then have "(iu (d ! i) * t i) mod iu q = ((iu (x ! i) * c + iu (y ! i) * c') * t i) mod iu q" by (intro mod_mult_cong refl)
    also have "(iu (x ! i) * c + iu (y ! i) * c') * t i = (iu (x ! i) * t i) * c + (iu (y ! i) * t i) * c'"
      by (simp add: algebra_simps)
    finally show ?thesis .
  qed
  then have "inner n d t mod iu q = (\<Sum>i<n. (iu (x ! i) * t i) * c + (iu (y ! i) * t i) * c') mod iu q"
    unfolding inner_def by (intro sum_mod_cong) simp
  then show ?thesis by (simp only: inner_def sum.distrib sum_distrib_right)
qed

lemma assign_vec_eq: "assign_vec v w = w"
  by (simp add: assign_vec_def Let_def)

lemma has_phaseE:
  assumes "has_phase q n t y ct"
  obtains xs where "ct = \<lparr>ct_a = vec q xs, ct_b = ct_b ct, ct_p = ct_p ct\<rparr>" "restores q n (\<lambda>i. iu (xs ! i)) xs"
    "unat (ct_b ct) < unat q" "(iu (ct_b ct) - inner n xs t) mod iu q = y mod iu q"
proof -
  note c = assms [unfolded has_phase_def lwe_ok_def]
  have "ct_a ct = vec q (m_data (ct_a ct))" using c by simp
  then have "ct = \<lparr>ct_a = vec q (m_data (ct_a ct)), ct_b = ct_b ct, ct_p = ct_p ct\<rparr>" by (cases ct) simp
  moreover have "restores q n (\<lambda>i. iu (m_data (ct_a ct) ! i)) (m_data (ct_a ct))" using c by (intro restores_own) simp_all
  moreover have "unat (ct_b ct) < unat q" "(iu (ct_b ct) - inner n (m_data (ct_a ct)) t) mod iu q = y mod iu q"
    using c by blast+
  ultimately show ?thesis by (rule that)
qed

lemma has_phaseI:
  assumes "restores q n f d" "unat b < unat q" "(iu b - inner n d t) mod iu q = y mod iu q"
  shows "has_phase q n t y \<lparr>ct_a = vec q d, ct_b = b, ct_p = p\<rparr>"
  using assms restoresD(1,4) [OF assms(1)] by (simp add: has_phase_def lwe_ok_def)

lemma inner_add:
  assumes "restores q n (\<lambda>i. iu (xs ! i) + iu (ys ! i)) d"
  shows "inner n d t mod iu q = (inner n xs t + inner n ys t) mod iu q"
  using inner_hom [OF assms, of xs 1 ys 1 t] by simp

lemma inner_diff:
  assumes "restores q n (\<lambda>i. iu (xs ! i) - iu (ys ! i)) d"
  shows "inner n d t mod iu q = (inner n xs t - inner n ys t) mod iu q"
  using inner_hom [OF assms, of xs 1 ys "- 1" t] by simp

lemma inner_scale:
  assumes "restores q n (\<lambda>i. iu (xs ! i) * c) d"
  shows "inner n d t mod iu q = (inner n xs t * c) mod iu q"
  using inner_hom [OF assms, of xs c xs 0 t] by simp

text \<open>The phase of a result from the phases of the operands.\<close>

lemma phase_add:
  fixes q :: int
  assumes "(b1 - i1) mod q = y1 mod q" "(b2 - i2) mod q = y2 mod q" "b = (b1 + b2) mod q" "i mod q = (i1 + i2) mod q"
  shows "(b - i) mod q = (y1 + y2) mod q"
proof -
  have "(b - i) mod q = ((b1 + b2) - (i1 + i2)) mod q" by (rule mod_diff_cong) (simp_all add: assms(3,4))
  also have "\<dots> = ((b1 - i1) + (b2 - i2)) mod q" by (simp add: algebra_simps)
  also have "\<dots> = (y1 + y2) mod q" by (rule mod_add_cong [OF assms(1,2)])
  finally show ?thesis .
qed

lemma phase_diff:
  fixes q :: int
  assumes "(b1 - i1) mod q = y1 mod q" "(b2 - i2) mod q = y2 mod q" "b = (b1 - b2) mod q" "i mod q = (i1 - i2) mod q"
  shows "(b - i) mod q = (y1 - y2) mod q"
proof -
  have "(b - i) mod q = ((b1 - b2) - (i1 - i2)) mod q" by (rule mod_diff_cong) (simp_all add: assms(3,4))
  also have "\<dots> = ((b1 - i1) - (b2 - i2)) mod q" by (simp add: algebra_simps)
  also have "\<dots> = (y1 - y2) mod q" by (rule mod_diff_cong [OF assms(1,2)])
  finally show ?thesis .
qed

lemma LWE_EvalAddEq_ok:
  assumes q: "barrett_modulus q" and c: "has_phase q n t y1 ct1" "has_phase q n t y2 ct2"
  shows "\<exists>ct. LWE_EvalAddEq ct1 ct2 = Inr ct \<and> has_phase q n t (y1 + y2) ct"
proof -
  obtain xs where 1: "ct1 = \<lparr>ct_a = vec q xs, ct_b = ct_b ct1, ct_p = ct_p ct1\<rparr>" "restores q n (\<lambda>i. iu (xs ! i)) xs"
    "unat (ct_b ct1) < unat q" "(iu (ct_b ct1) - inner n xs t) mod iu q = y1 mod iu q" by (rule has_phaseE [OF c(1)])
  obtain ys where 2: "ct2 = \<lparr>ct_a = vec q ys, ct_b = ct_b ct2, ct_p = ct_p ct2\<rparr>" "restores q n (\<lambda>i. iu (ys ! i)) ys"
    "unat (ct_b ct2) < unat q" "(iu (ct_b ct2) - inner n ys t) mod iu q = y2 mod iu q" by (rule has_phaseE [OF c(2)])
  obtain d where d: "vModAdd (vec q xs) (vec q ys) = Inr (vec q d)" "restores q n (\<lambda>i. iu (xs ! i) + iu (ys ! i)) d"
    using restores_vec_ops(1) [OF q 1(2) 2(2)] by blast
  let ?b = "ModAddFast (ct_b ct1) (ct_b ct2) q"
  have "LWE_EvalAddEq ct1 ct2 = Inr \<lparr>ct_a = vec q d, ct_b = ?b, ct_p = ct_p ct1\<rparr>"
    using d(1) by (subst 1(1), subst 2(1)) (simp add: LWE_EvalAddEq_def vec_binop_variants(1) ct_modulus_def)
  moreover have "has_phase q n t (y1 + y2) \<lparr>ct_a = vec q d, ct_b = ?b, ct_p = ct_p ct1\<rparr>"
    by (rule has_phaseI [OF d(2) fast_less(1) [OF q 1(3) 2(3)]])
      (rule phase_add [OF 1(4) 2(4) iu_ModAddFast [OF q 1(3) 2(3)] inner_add [OF d(2)]])
  ultimately show ?thesis by blast
qed

lemma LWE_EvalSub_ok:
  assumes q: "barrett_modulus q" and c: "has_phase q n t y1 ct1" "has_phase q n t y2 ct2"
  shows "\<exists>ct. LWE_EvalSubEq ct1 ct2 = Inr ct \<and> has_phase q n t (y1 - y2) ct"
    "\<exists>ct. LWE_EvalSubEq2 ct1 ct2 = Inr ct \<and> has_phase q n t (y1 - y2) ct"
proof -
  obtain xs where 1: "ct1 = \<lparr>ct_a = vec q xs, ct_b = ct_b ct1, ct_p = ct_p ct1\<rparr>" "restores q n (\<lambda>i. iu (xs ! i)) xs"
    "unat (ct_b ct1) < unat q" "(iu (ct_b ct1) - inner n xs t) mod iu q = y1 mod iu q" by (rule has_phaseE [OF c(1)])
  obtain ys where 2: "ct2 = \<lparr>ct_a = vec q ys, ct_b = ct_b ct2, ct_p = ct_p ct2\<rparr>" "restores q n (\<lambda>i. iu (ys ! i)) ys"
    "unat (ct_b ct2) < unat q" "(iu (ct_b ct2) - inner n ys t) mod iu q = y2 mod iu q" by (rule has_phaseE [OF c(2)])
  obtain d where d: "vModSub (vec q xs) (vec q ys) = Inr (vec q d)" "restores q n (\<lambda>i. iu (xs ! i) - iu (ys ! i)) d"
    using restores_vec_ops(2) [OF q 1(2) 2(2)] by blast
  let ?b = "ModSubFast (ct_b ct1) (ct_b ct2) q"
  have p: "has_phase q n t (y1 - y2) \<lparr>ct_a = vec q d, ct_b = ?b, ct_p = z\<rparr>" for z
    by (rule has_phaseI [OF d(2) fast_less(2) [OF q 1(3) 2(3)]])
      (rule phase_diff [OF 1(4) 2(4) iu_ModSubFast [OF q 1(3) 2(3)] inner_diff [OF d(2)]])
  have "LWE_EvalSubEq ct1 ct2 = Inr \<lparr>ct_a = vec q d, ct_b = ?b, ct_p = ct_p ct1\<rparr>"
    using d(1) by (subst 1(1), subst 2(1)) (simp add: LWE_EvalSubEq_def vec_binop_variants(2) ct_modulus_def)
  then show "\<exists>ct. LWE_EvalSubEq ct1 ct2 = Inr ct \<and> has_phase q n t (y1 - y2) ct" using p by blast
  have "LWE_EvalSubEq2 ct1 ct2 = Inr \<lparr>ct_a = vec q d, ct_b = ?b, ct_p = ct_p ct2\<rparr>"
    using d(1) by (subst 1(1), subst 2(1)) (simp add: LWE_EvalSubEq2_def ct_modulus_def assign_vec_eq)
  then show "\<exists>ct. LWE_EvalSubEq2 ct1 ct2 = Inr ct \<and> has_phase q n t (y1 - y2) ct" using p by blast
qed

lemma LWE_EvalConst_ok:
  assumes q: "barrett_modulus q" and c: "has_phase q n t y ct" and k: "unat k < unat q"
  shows "has_phase q n t (y + iu k) (LWE_EvalAddConstEq ct k)" "has_phase q n t (y - iu k) (LWE_EvalSubConstEq ct k)"
proof -
  obtain xs where 1: "ct = \<lparr>ct_a = vec q xs, ct_b = ct_b ct, ct_p = ct_p ct\<rparr>" "restores q n (\<lambda>i. iu (xs ! i)) xs"
    "unat (ct_b ct) < unat q" "(iu (ct_b ct) - inner n xs t) mod iu q = y mod iu q" by (rule has_phaseE [OF c])
  have k0: "(iu k - 0) mod iu q = iu k mod iu q" by simp
  have a: "inner n xs t mod iu q = (inner n xs t + 0) mod iu q" "inner n xs t mod iu q = (inner n xs t - 0) mod iu q" by simp_all
  have e: "LWE_EvalAddConstEq ct k = \<lparr>ct_a = vec q xs, ct_b = ModAddFast (ct_b ct) k q, ct_p = ct_p ct\<rparr>"
    "LWE_EvalSubConstEq ct k = \<lparr>ct_a = vec q xs, ct_b = ModSubFast (ct_b ct) k q, ct_p = ct_p ct\<rparr>"
    by (subst 1(1), simp add: LWE_EvalAddConstEq_def ct_modulus_def, subst 1(1), simp add: LWE_EvalSubConstEq_def ct_modulus_def)
  show "has_phase q n t (y + iu k) (LWE_EvalAddConstEq ct k)"
    unfolding e by (rule has_phaseI [OF 1(2) fast_less(1) [OF q 1(3) k]])
      (rule phase_add [OF 1(4) k0 iu_ModAddFast [OF q 1(3) k] a(1)])
  show "has_phase q n t (y - iu k) (LWE_EvalSubConstEq ct k)"
    unfolding e by (rule has_phaseI [OF 1(2) fast_less(2) [OF q 1(3) k]])
      (rule phase_diff [OF 1(4) k0 iu_ModSubFast [OF q 1(3) k] a(2)])
qed

lemma LWE_EvalMultConstEq_ok:
  assumes q: "barrett_modulus q" and c: "has_phase q n t y ct"
  shows "\<exists>ct'. LWE_EvalMultConstEq ct k = Inr ct' \<and> has_phase q n t (y * iu k) ct'"
proof -
  obtain xs where 1: "ct = \<lparr>ct_a = vec q xs, ct_b = ct_b ct, ct_p = ct_p ct\<rparr>" "restores q n (\<lambda>i. iu (xs ! i)) xs"
    "unat (ct_b ct) < unat q" "(iu (ct_b ct) - inner n xs t) mod iu q = y mod iu q" by (rule has_phaseE [OF c])
  obtain d where d: "vModMul_s (vec q xs) k = Inr (vec q d)" "restores q n (\<lambda>i. iu (xs ! i) * iu k) d"
    using restores_scalar_ops(3) [OF q 1(2)] by blast
  let ?b = "ModMulFast (ct_b ct) k q"
  have ub: "unat ?b = unat (ct_b ct) * unat k mod unat q" by (rule ModMulFast_correct [OF barrettD(1) [OF q]])
  have ib: "iu ?b mod iu q = (iu (ct_b ct) * iu k) mod iu q" unfolding ub by (simp only: of_nat_mod of_nat_mult mod_mod_trivial)
  have "(iu ?b - inner n d t) mod iu q = (iu (ct_b ct) * iu k - inner n xs t * iu k) mod iu q"
    by (rule mod_diff_cong [OF ib inner_scale [OF d(2)]])
  also have "\<dots> = ((iu (ct_b ct) - inner n xs t) * iu k) mod iu q" by (simp only: left_diff_distrib)
  also have "\<dots> = (y * iu k) mod iu q" by (rule mod_mult_cong [OF 1(4) refl])
  finally have "has_phase q n t (y * iu k) \<lparr>ct_a = vec q d, ct_b = ?b, ct_p = ct_p ct\<rparr>"
    by (intro has_phaseI [OF d(2)]) (use ub barrettD(1) [OF q] in simp)
  moreover have "LWE_EvalMultConstEq ct k = Inr \<lparr>ct_a = vec q d, ct_b = ?b, ct_p = ct_p ct\<rparr>"
    using d(1) by (subst 1(1)) (simp add: LWE_EvalMultConstEq_def vec_scalar_variants(3) ct_modulus_def)
  ultimately show ?thesis by blast
qed

subsection \<open>Key switching\<close>

text \<open>
  What a switching key from the secret \<open>u\<close> to the secret \<open>t\<close> holds: for every entry \<open>i\<close> of the old key,
  digit value \<open>j\<close> and digit position \<open>k\<close> an encryption of \<open>u i * j * base ^ k\<close> under \<open>t\<close>, with noise of
  at most \<open>B\<close>.
\<close>

definition ksk_ok :: "u64 \<Rightarrow> nat \<Rightarrow> nat \<Rightarrow> nat \<Rightarrow> nat \<Rightarrow> int \<Rightarrow> (nat \<Rightarrow> int) \<Rightarrow> (nat \<Rightarrow> int) \<Rightarrow> lwe_ksk \<Rightarrow> bool" where
  "ksk_ok q n N base D B t u K \<longleftrightarrow> length (m_keyA K) = N \<and> length (m_keyB K) = N \<and>
     (\<forall>i<N. length (m_keyA K ! i) = base \<and> length (m_keyB K ! i) = base \<and>
       (\<forall>j<base. length (m_keyA K ! i ! j) = D \<and> length (m_keyB K ! i ! j) = D \<and>
         (\<forall>k<D. \<exists>e. \<bar>e\<bar> \<le> B \<and>
            has_phase q n t (e + u i * int (j * base ^ k)) (LWECiphertext (m_keyA K ! i ! j ! k) (m_keyB K ! i ! j ! k)))))"

lemma efor_map2:
  assumes "length y = length x"
  shows "efor 0 (length x) (\<lambda>k a. ebind (get_at a k) (\<lambda>ak. ebind (get_at y k) (\<lambda>yk. set_at a k (f ak yk)))) x = Inr (map2 f x y)"
proof -
  have "\<exists>a. efor 0 (length x) (\<lambda>k a. ebind (get_at a k) (\<lambda>ak. ebind (get_at y k) (\<lambda>yk. set_at a k (f ak yk)))) x = Inr a \<and>
      length a = length x \<and> (\<forall>j<length x. a ! j = (if j < length x then f (x ! j) (y ! j) else x ! j))"
    by (rule efor_Inr [where P = "\<lambda>k a. length a = length x \<and> (\<forall>j<length x. a ! j = (if j < k then f (x ! j) (y ! j) else x ! j))"])
      (use assms in \<open>auto simp: get_at_def set_at_def nth_list_update\<close>)
  then obtain a where a: "efor 0 (length x) (\<lambda>k a. ebind (get_at a k) (\<lambda>ak. ebind (get_at y k) (\<lambda>yk. set_at a k (f ak yk)))) x = Inr a"
    "length a = length x" "\<forall>j<length x. a ! j = f (x ! j) (y ! j)" by auto
  have "a = map2 f x y" using a(2,3) assms by (intro nth_equalityI) simp_all
  then show ?thesis using a(1) by simp
qed

lemma has_phaseD:
  assumes "has_phase q n t y (LWECiphertext A b)"
  shows "restores q n (\<lambda>i. iu (m_data A ! i)) (m_data A)" "unat b < unat q" "(iu b - inner n (m_data A) t) mod iu q = y mod iu q"
proof -
  note c = assms [unfolded has_phase_def lwe_ok_def LWECiphertext_def lwe_ct.simps]
  show "restores q n (\<lambda>i. iu (m_data A ! i)) (m_data A)" by (rule restores_own) (use c in blast)+
  show "unat b < unat q" "(iu b - inner n (m_data A) t) mod iu q = y mod iu q" using c by blast+
qed

lemma ksk_okD:
  assumes "ksk_ok q n N base D B t u K" "i < N"
  shows "length (m_keyA K) = N" "length (m_keyB K) = N" "length (m_keyA K ! i) = base" "length (m_keyB K ! i) = base"
    "j < base \<Longrightarrow> length (m_keyA K ! i ! j) = D" "j < base \<Longrightarrow> length (m_keyB K ! i ! j) = D"
    "j < base \<Longrightarrow> k < D \<Longrightarrow> \<exists>e. \<bar>e\<bar> \<le> B \<and>
      has_phase q n t (e + u i * int (j * base ^ k)) (LWECiphertext (m_keyA K ! i ! j ! k) (m_keyB K ! i ! j ! k))"
  using assms unfolding ksk_ok_def by blast+

text \<open>One digit: subtracting an entry of the key subtracts its phase.\<close>

lemma phase_step:
  assumes q: "barrett_modulus q" and a: "has_phase q n t y (LWECiphertext (vec q xs) b)" and r: "has_phase q n t z (LWECiphertext A rb)"
  shows "has_phase q n t (y - z) (LWECiphertext (vec q (map2 (\<lambda>x y. ModSubFast x y q) xs (m_data A))) (ModSubFast b rb q))"
    "length (m_data A) = length xs"
proof -
  note 1 = has_phaseD [OF a, unfolded nvec.simps] and 2 = has_phaseD [OF r]
  note d = sub_ring.entries [OF barrett_head_room [OF q] 1(1) 2(1)]
  show "has_phase q n t (y - z) (LWECiphertext (vec q (map2 (\<lambda>x y. ModSubFast x y q) xs (m_data A))) (ModSubFast b rb q))"
    unfolding LWECiphertext_def
    by (rule has_phaseI [OF d fast_less(2) [OF q 1(2) 2(2)]])
      (rule phase_diff [OF 1(3) 2(3) iu_ModSubFast [OF q 1(2) 2(2)] inner_diff [OF d]])
  show "length (m_data A) = length xs" using restoresD(1) [OF 1(1)] restoresD(1) [OF 2(1)] by simp
qed

lemma has_phase_cong: "has_phase q n t y ct \<Longrightarrow> y mod iu q = z mod iu q \<Longrightarrow> has_phase q n t z ct"
  by (simp add: has_phase_def)

lemma mod_power_Suc_nat: "x mod b ^ Suc k = x mod b ^ k + (x div b ^ k mod b) * b ^ k" for x :: nat
  using mod_mult2_eq [of x "b ^ k" b] by (simp add: mult.commute)

definition ks_state :: "u64 \<Rightarrow> nat \<Rightarrow> (nat \<Rightarrow> int) \<Rightarrow> nat \<Rightarrow> u64 \<Rightarrow> int \<Rightarrow> int \<Rightarrow> int \<Rightarrow> nat \<Rightarrow> u64 list \<times> u64 \<times> u64 \<Rightarrow> bool" where
  "ks_state q n t base ai y ui B k st \<longleftrightarrow> (case st of (a, b, atmp) \<Rightarrow> unat atmp = unat ai div base ^ k \<and>
     (\<exists>E. \<bar>E\<bar> \<le> int k * B \<and> has_phase q n t (y - ui * int (unat ai mod base ^ k) - E) (LWECiphertext (vec q a) b)))"

lemma ks_digit_step:
  assumes q: "barrett_modulus q" and base: "0 < unat base" and K: "ksk_ok q n N (unat base) D B t u K" and i: "i < N" and k: "k < D"
    and st: "ks_state q n t (unat base) ai y (u i) B k st"
  shows "\<exists>st'. ks_digit q base (m_keyA K ! i) (m_keyB K ! i) k st = Inr st' \<and> ks_state q n t (unat base) ai y (u i) B (Suc k) st'"
proof -
  obtain a b atmp where s: "st = (a, b, atmp)" by (cases st)
  obtain E where E: "unat atmp = unat ai div unat base ^ k" "\<bar>E\<bar> \<le> int k * B"
    "has_phase q n t (y - u i * int (unat ai mod unat base ^ k) - E) (LWECiphertext (vec q a) b)"
    using st by (auto simp: ks_state_def s)
  let ?bw = "ucast base :: u64"
  have ub: "unat ?bw = unat base" by simp
  define j where "j = unat (atmp mod ?bw)"
  have j: "j = unat ai div unat base ^ k mod unat base" by (simp only: j_def unat_mod ub E(1))
  then have jb: "j < unat base" using base by simp
  obtain e where e: "\<bar>e\<bar> \<le> B" "has_phase q n t (e + u i * int (j * unat base ^ k)) (LWECiphertext (m_keyA K ! i ! j ! k) (m_keyB K ! i ! j ! k))"
    using ksk_okD(7) [OF K i jb k] by blast
  have len: "length (m_keyA K ! i) = unat base" "length (m_keyB K ! i) = unat base"
    "length (m_keyA K ! i ! j) = D" "length (m_keyB K ! i ! j) = D" using ksk_okD(3-6) [OF K i] jb by blast+
  note p = phase_step [OF q E(3) e(2)]
  let ?a = "map2 (\<lambda>x y. ModSubFast x y q) a (m_data (m_keyA K ! i ! j ! k))" and ?b = "ModSubFast b (m_keyB K ! i ! j ! k) q"
  have b0: "base \<noteq> 0" using base by auto
  have "ks_digit q base (m_keyA K ! i) (m_keyB K ! i) k st = Inr (?a, ?b, atmp div ?bw)"
    using b0 len jb k efor_map2 [OF p(2), of "\<lambda>x y. ModSubFast x y q"]
    by (simp add: ks_digit_def s j_def [symmetric] get_at_def [of "_ ! _"] get_at_def [of "m_keyA K"] get_at_def [of "m_keyB K"] ModSubFastEq_eq Let_def)
  moreover have "ks_state q n t (unat base) ai y (u i) B (Suc k) (?a, ?b, atmp div ?bw)"
  proof -
    have "unat (atmp div ?bw) = unat ai div unat base ^ Suc k"
      by (simp only: unat_div ub E(1) div_mult2_eq [symmetric] power_Suc2)
    moreover have "\<bar>E + e\<bar> \<le> int (Suc k) * B" using E(2) e(1) by (simp add: algebra_simps)
    moreover have "y - u i * int (unat ai mod unat base ^ k) - E - (e + u i * int (j * unat base ^ k)) =
        y - u i * int (unat ai mod unat base ^ Suc k) - (E + e)"
      unfolding mod_power_Suc_nat j by (simp add: algebra_simps)
    note eq = this
    have "has_phase q n t (y - u i * int (unat ai mod unat base ^ Suc k) - (E + e)) (LWECiphertext (vec q ?a) ?b)"
      using p(1) unfolding eq .
    ultimately show ?thesis unfolding ks_state_def prod.case by blast
  qed
  ultimately show ?thesis by blast
qed


lemma ks_digits:
  assumes q: "barrett_modulus q" and base: "0 < unat base" and K: "ksk_ok q n N (unat base) D B t u K" and i: "i < N"
    and ai: "unat ai < unat base ^ D" and a: "has_phase q n t y (LWECiphertext (vec q a) b)"
  shows "\<exists>a' b' atmp E. efor 0 D (ks_digit q base (m_keyA K ! i) (m_keyB K ! i)) (a, b, ai) = Inr (a', b', atmp) \<and>
    \<bar>E\<bar> \<le> int D * B \<and> has_phase q n t (y - u i * iu ai - E) (LWECiphertext (vec q a') b')"
proof -
  have "\<exists>st. efor 0 D (ks_digit q base (m_keyA K ! i) (m_keyB K ! i)) (a, b, ai) = Inr st \<and>
      ks_state q n t (unat base) ai y (u i) B D st"
  proof (rule efor_Inr [where P = "\<lambda>k. ks_state q n t (unat base) ai y (u i) B k"])
    show "ks_state q n t (unat base) ai y (u i) B 0 (a, b, ai)"
      unfolding ks_state_def using a by (auto intro!: exI [of _ 0])
    show "\<exists>st'. ks_digit q base (m_keyA K ! i) (m_keyB K ! i) k st = Inr st' \<and> ks_state q n t (unat base) ai y (u i) B (Suc k) st'"
      if "k < D" "ks_state q n t (unat base) ai y (u i) B k st" for k st by (rule ks_digit_step [OF q base K i that])
  qed simp
  then obtain a' b' atmp where "efor 0 D (ks_digit q base (m_keyA K ! i) (m_keyB K ! i)) (a, b, ai) = Inr (a', b', atmp)"
    "ks_state q n t (unat base) ai y (u i) B D (a', b', atmp)" by auto
  then show ?thesis using ai by (auto simp: ks_state_def)
qed

lemma LWE_KeySwitch_ok:
  assumes q: "barrett_modulus (m_qKS P)" and base: "0 < unat (m_baseKS P)" "0 \<le> B"
    and D: "digit_count lm (m_qKS P) (ucast (m_baseKS P)) = Inr D" "unat (m_qKS P) \<le> unat (m_baseKS P) ^ D"
    and K: "ksk_ok (m_qKS P) (unat (m_n P)) (unat (m_N P)) (unat (m_baseKS P)) D B t u K"
    and c: "has_phase (m_qKS P) (unat (m_N P)) u y ct"
  shows "\<exists>ct' E. LWE_KeySwitch lm P K ct = Inr ct' \<and> \<bar>E\<bar> \<le> int (unat (m_N P) * D) * B \<and>
    has_phase (m_qKS P) (unat (m_n P)) t (y - E) ct'"
proof -
  let ?q = "m_qKS P" and ?n = "unat (m_n P)" and ?N = "unat (m_N P)" and ?base = "m_baseKS P"
  obtain xs where x: "ct = \<lparr>ct_a = vec ?q xs, ct_b = ct_b ct, ct_p = ct_p ct\<rparr>" "restores ?q ?N (\<lambda>i. iu (xs ! i)) xs"
    "unat (ct_b ct) < unat ?q" "(iu (ct_b ct) - inner ?N xs u) mod iu ?q = y mod iu ?q" by (rule has_phaseE [OF c])
  define S where "S = (\<lambda>i st. case st of (a, b) \<Rightarrow> \<exists>E. \<bar>E\<bar> \<le> int (i * D) * B \<and>
    has_phase ?q ?n t (iu (ct_b ct) - (\<Sum>j<i. u j * iu (xs ! j)) - E) (LWECiphertext (vec ?q a) b))"
  define f where "f = (\<lambda>i (a, b). ebind (get_at (m_keyA K) i) (\<lambda>refA. ebind (get_at (m_keyB K) i) (\<lambda>refB.
        ebind (get_at xs i) (\<lambda>atmp. ebind (efor 0 D (ks_digit ?q ?base refA refB) (a, b, atmp)) (\<lambda>(a, b, atmp). Inr (a, b))))))"
  have "\<exists>st. efor 0 ?N f (replicate ?n 0, ct_b ct) = Inr st \<and> S ?N st"
  proof (rule efor_Inr [where P = S])
    have "restores ?q ?n (\<lambda>i. 0) (replicate ?n 0)" using barrettD(1) [OF q] by (simp add: restores_def)
    then have "has_phase ?q ?n t (iu (ct_b ct)) \<lparr>ct_a = vec ?q (replicate ?n 0), ct_b = ct_b ct, ct_p = 4\<rparr>"
      by (rule has_phaseI [OF _ x(3)]) (simp add: inner_def)
    then show "S 0 (replicate ?n 0, ct_b ct)" by (simp add: S_def LWECiphertext_def)
    fix i st assume i: "i < ?N" and st: "S i st"
    obtain a b where s: "st = (a, b)" by (cases st)
    obtain E where E: "\<bar>E\<bar> \<le> int (i * D) * B"
      "has_phase ?q ?n t (iu (ct_b ct) - (\<Sum>j<i. u j * iu (xs ! j)) - E) (LWECiphertext (vec ?q a) b)"
      using st by (auto simp: S_def s)
    have "unat (xs ! i) < unat ?base ^ D" using restoresD(2) [OF x(2) i] D(2) by linarith
    from ks_digits [OF q base(1) K i this E(2)] obtain a' b' atmp E' where
      d: "efor 0 D (ks_digit ?q ?base (m_keyA K ! i) (m_keyB K ! i)) (a, b, xs ! i) = Inr (a', b', atmp)"
      "\<bar>E'\<bar> \<le> int D * B" "has_phase ?q ?n t (iu (ct_b ct) - (\<Sum>j<i. u j * iu (xs ! j)) - E - u i * iu (xs ! i) - E') (LWECiphertext (vec ?q a') b')"
      by blast
    have "f i st = Inr (a', b')"
      using d(1) i ksk_okD(1,2) [OF K i] restoresD(1) [OF x(2)] by (simp add: f_def s get_at_def)
    moreover have "S (Suc i) (a', b')"
    proof -
      have "iu (ct_b ct) - (\<Sum>j<i. u j * iu (xs ! j)) - E - u i * iu (xs ! i) - E' =
          iu (ct_b ct) - (\<Sum>j<Suc i. u j * iu (xs ! j)) - (E + E')" by simp
      note d(3) [unfolded this]
      moreover have "\<bar>E + E'\<bar> \<le> int (Suc i * D) * B" using E(1) d(2) by (simp add: algebra_simps)
      ultimately show ?thesis unfolding S_def prod.case by blast
    qed
    ultimately show "\<exists>st'. f i st = Inr st' \<and> S (Suc i) st'" by blast
  qed simp
  then obtain a b E where r: "efor 0 ?N f (replicate ?n 0, ct_b ct) = Inr (a, b)" "\<bar>E\<bar> \<le> int (?N * D) * B"
    "has_phase ?q ?n t (iu (ct_b ct) - (\<Sum>j<?N. u j * iu (xs ! j)) - E) (LWECiphertext (vec ?q a) b)"
    by (auto simp: S_def)
  have "m_data (ct_a ct) = xs" by (subst x(1)) simp
  then have "LWE_KeySwitch lm P K ct = Inr (LWECiphertext (vec ?q a) b)"
    using D(1) r(1) by (simp add: LWE_KeySwitch_def Let_def f_def)
  moreover have "has_phase ?q ?n t (y - E) (LWECiphertext (vec ?q a) b)"
  proof (rule has_phase_cong [OF r(3)])
    have "(\<Sum>j<?N. u j * iu (xs ! j)) = inner ?N xs u" by (simp add: inner_def mult.commute)
    then show "(iu (ct_b ct) - (\<Sum>j<?N. u j * iu (xs ! j)) - E) mod iu ?q = (y - E) mod iu ?q"
      using x(4) by (intro mod_diff_cong refl) simp
  qed
  ultimately show ?thesis using r(2) by blast
qed

subsection \<open>Generation of a switching key\<close>

lemma rmap_Inr:
  assumes "rmap f is s = Some (Inr (ys, s'))"
  shows "length ys = length is \<and> (\<forall>i<length is. \<exists>s s'. f (is ! i) s = Some (Inr (ys ! i, s')))"
  using assms
proof (induction "is" arbitrary: s ys)
  case (Cons i "is")
  from Cons.prems obtain y s1 zs where r: "f i s = Some (Inr (y, s1))" "rmap f is s1 = Some (Inr (zs, s'))" "ys = y # zs"
    by (auto elim!: rbind_InrE)
  have "\<exists>s s'. f ((i # is) ! j) s = Some (Inr (ys ! j, s'))" if "j < length (i # is)" for j
    using that r(1,3) Cons.IH [OF r(2)] by (cases j) auto
  then show ?case using r(3) Cons.IH [OF r(2)] by auto
qed simp

lemma base_powers_eq: "base_powers k b v = Inr (map (\<lambda>i. v * b ^ i) [0..<k])"
proof (induction k arbitrary: v)
  case (Suc k)
  have "[0..<Suc k] = 0 # map Suc [0..<k]" by (simp add: map_Suc_upt upt_conv_Cons del: upt_Suc)
  then show ?case using Suc by (simp add: MulEq_Inr mult.assoc comp_def del: upt_Suc)
qed simp

lemma unat_power_small: "unat b ^ k < 2 ^ 64 \<Longrightarrow> unat (b ^ k :: u64) = unat b ^ k"
proof (induction k)
  case (Suc k)
  show ?case
  proof (cases "unat b = 0")
    case True
    then have "b = 0" by (simp add: word_unat_eq_iff)
    then show ?thesis by simp
  next
    case False
    then have "unat b ^ k \<le> unat b ^ Suc k" by (intro power_increasing) simp_all
    then have "unat b ^ k < 2 ^ 64" using Suc.prems by (rule order.strict_trans1)
    then have u: "unat (b ^ k) = unat b ^ k" by (rule Suc.IH)
    then have "unat b * unat (b ^ k) < 2 ^ 64" using Suc.prems by simp
    then show ?thesis using unat_mult_small [of b "b ^ k"] u by simp
  qed
qed simp

text \<open>The noise that a generator adds: small integers, as residues.\<close>

definition noise_ok :: "'s source \<Rightarrow> gauss \<Rightarrow> u64 \<Rightarrow> int \<Rightarrow> bool" where
  "noise_ok R g q B \<longleftrightarrow> (\<forall>s w s'. DGG_GenerateInteger R g q s = Some (Inr (w, s')) \<longrightarrow>
     (\<exists>e. \<bar>e\<bar> \<le> B \<and> unat w < unat q \<and> iu w mod iu q = e mod iu q))"

lemma noise_DGG:
  assumes "DGG lm std = Inr g" "std < KARNEY_THRESHOLD" "DGG_fin std < iu q"
  shows "noise_ok R g q (DGG_fin std)"
  unfolding noise_ok_def
proof (intro allI impI)
  fix s w s' assume r: "DGG_GenerateInteger R g q s = Some (Inr (w, s'))"
  note p = DGG_peikert [OF assms(1,2)]
  obtain k where k: "DGG_GenerateInt R g s = Some (Inr (k, s'))" "w = gauss_residue q k"
    using r p(1) by (auto simp: DGG_GenerateInteger_def gauss_int_def elim!: rbind_InrE)
  have b: "\<bar>k\<bar> \<le> DGG_fin std" using DGG_GenerateInt_bound [OF k(1)] p(2,3) by simp
  then have "\<bar>k\<bar> < iu q" using assms(3) by linarith
  from gauss_residue_spec [OF this] show "\<exists>e. \<bar>e\<bar> \<le> DGG_fin std \<and> unat w < unat q \<and> iu w mod iu q = e mod iu q" using b k(2) by blast
qed

lemma ksk_entry_ok:
  assumes q: "barrett_modulus (m_qKS P)" and t: "length sv = unat (m_n P)" "reduced (m_qKS P) sv"
      "\<And>i. i < unat (m_n P) \<Longrightarrow> iu (sv ! i) = t i mod iu (m_qKS P)"
    and g: "DUG_SetModulus (m_qKS P) = Inr g" and noise: "noise_ok R (m_ks_dgg P) (m_qKS P) B"
    and room: "(unat (m_n P) + 1) * unat (m_qKS P) < 2 ^ 64" and jd: "unat j * unat dg < 2 ^ 64"
    and z: "iu svNi mod iu (m_qKS P) = z mod iu (m_qKS P)"
    and r: "ksk_entry R P g (mu_of (m_qKS P)) sv svNi j dg s = Some (Inr ((a, b), s'))"
  shows "\<exists>e. \<bar>e\<bar> \<le> B \<and> has_phase (m_qKS P) (unat (m_n P)) t (e + z * int (unat j * unat dg)) (LWECiphertext a b)"
proof -
  let ?q = "m_qKS P" and ?n = "unat (m_n P)"
  have q0: "0 < unat ?q" "?q \<noteq> 0" "unat ?q \<le> 2 ^ 63" using barrettD [OF q] by auto
  obtain s1 w s2 where d: "DUG_GenerateVector R g (m_n P) s = Some (Inr (a, s1))"
    "DGG_GenerateInteger R (m_ks_dgg P) ?q s1 = Some (Inr (w, s2))"
    and r': "ebind (add_products ?q (mu_of ?q) (m_data a) sv ?n (ModAdd w (ModMul svNi (j * dg) ?q) ?q)) (\<lambda>b. Inr (a, ModEq b ?q)) = Inr (a, b)"
    using r by (auto simp: ksk_entry_def Let_def Mul_Inr elim!: rbind_InrE rlift_InrE ebind_InrE)
  have A: "m_modulus a = ?q" "length (m_data a) = ?n" "reduced ?q (m_data a)"
    using DUG_GenerateVector_ok [OF q0(2) g d(1)] by auto
  obtain e where e: "\<bar>e\<bar> \<le> B" "unat w < unat ?q" "iu w mod iu ?q = e mod iu ?q" using noise d(2) unfolding noise_ok_def by blast
  define v where "v = ModAdd w (ModMul svNi (j * dg) ?q) ?q"
  have m: "unat (ModMul svNi (j * dg) ?q) = unat svNi * (unat j * unat dg) mod unat ?q"
    using ModMul_correct [OF q0(1), of svNi "j * dg"] unat_mult_small [OF jd] by simp
  have v: "unat v = (unat w + unat (ModMul svNi (j * dg) ?q)) mod unat ?q" unfolding v_def by (rule ModAdd_correct [OF q0(1,3)])
  then have vq: "unat v < unat ?q" using q0(1) by simp
  have "iu v mod iu ?q = (iu w + iu (ModMul svNi (j * dg) ?q)) mod iu ?q" unfolding v by (simp only: of_nat_mod of_nat_add mod_mod_trivial)
  also have "\<dots> = (e + z * int (unat j * unat dg)) mod iu ?q"
  proof (rule mod_add_cong [OF e(3)])
    have "iu (ModMul svNi (j * dg) ?q) mod iu ?q = (iu svNi * int (unat j * unat dg)) mod iu ?q"
      unfolding m by (simp only: of_nat_mod of_nat_mult mod_mod_trivial)
    then show "iu (ModMul svNi (j * dg) ?q) mod iu ?q = (z * int (unat j * unat dg)) mod iu ?q"
      using mod_mult_cong [OF z refl] by simp
  qed
  finally have vz: "iu v mod iu ?q = (e + z * int (unat j * unat dg)) mod iu ?q" .
  have "unat v + ?n * unat ?q < 2 ^ 64" using vq room by (simp add: algebra_simps)
  from add_products_ok [OF q A(2,3) t(1,2) this] obtain x where
    x: "add_products ?q (mu_of ?q) (m_data a) sv ?n v = Inr x" "iu x mod iu ?q = (iu v + (\<Sum>i<?n. iu (m_data a ! i) * iu (sv ! i))) mod iu ?q"
    by blast
  have b: "b = ModEq x ?q" using r' x(1) by (simp add: v_def)
  have ub: "unat b = unat x mod unat ?q" by (simp add: b ModEq_def unat_mod)
  have "iu b mod iu ?q = (e + z * int (unat j * unat dg) + inner ?n (m_data a) t) mod iu ?q"
  proof -
    have "iu b mod iu ?q = iu x mod iu ?q" unfolding ub by (simp only: of_nat_mod mod_mod_trivial)
    also have "\<dots> = (e + z * int (unat j * unat dg) + inner ?n (m_data a) t) mod iu ?q"
      unfolding x(2) by (rule mod_add_cong [OF vz inner_secret_cong [OF t(3)]])
    finally show ?thesis .
  qed
  from mod_diff_cong [OF this refl, of "inner ?n (m_data a) t"]
  have "(iu b - inner ?n (m_data a) t) mod iu ?q = (e + z * int (unat j * unat dg)) mod iu ?q" by (simp only: add_diff_cancel_right')
  then have "has_phase ?q ?n t (e + z * int (unat j * unat dg)) (LWECiphertext a b)"
    using A ub q0(1) unfolding has_phase_def lwe_ok_def LWECiphertext_def by simp
  then show ?thesis using e(1) by blast
qed

lemma LWE_KeySwitchGen_ok:
  assumes q: "barrett_modulus (m_qKS P)" and sk: "nv_ok sk" "GetLength sk = unat (m_n P)" and skN: "nv_ok skN" "GetLength skN = unat (m_N P)"
    and D: "digit_count lm (m_qKS P) (ucast (m_baseKS P)) = Inr D" "unat (m_baseKS P) ^ D < 2 ^ 64"
    and noise: "noise_ok R (m_ks_dgg P) (m_qKS P) B" and room: "(unat (m_n P) + 1) * unat (m_qKS P) < 2 ^ 64"
    and r: "LWE_KeySwitchGen R lm P sk skN s = Some (Inr (K, s'))"
  shows "ksk_ok (m_qKS P) (unat (m_n P)) (unat (m_N P)) (unat (m_baseKS P)) D B (secret sk) (secret skN) K"
proof -
  let ?q = "m_qKS P" and ?base = "m_baseKS P"
  obtain sv where sv: "SwitchModulus sk ?q = Inr (vec ?q sv)" "length sv = GetLength sk" "reduced ?q sv"
    "\<And>i. i < GetLength sk \<Longrightarrow> iu (sv ! i) = secret sk i mod iu ?q" by (rule switched_secret [OF sk(1) q]) blast
  obtain u where u: "SwitchModulus skN ?q = Inr (vec ?q u)" "length u = GetLength skN"
    "\<And>i. i < GetLength skN \<Longrightarrow> iu (u ! i) = secret skN i mod iu ?q" by (rule switched_secret [OF skN(1) q]) blast
  obtain g where g: "DUG_SetModulus ?q = Inr g" by (rule DUG_SetModulus_ok [OF barrettD(3) [OF q], where R = R]) blast
  define powers where "powers = map (\<lambda>i. (ucast ?base :: u64) ^ i) [0..<D]"
  define F where "F = (\<lambda>svNi j dg. ksk_entry R P g (mu_of ?q) sv svNi (of_nat j) dg)"
  obtain entries s1 where en: "rmap (\<lambda>i s. rbind (rlift (get_at u i) s) (\<lambda>svNi s. rmap (\<lambda>j. rmap (F svNi j) powers) [0..<unat ?base] s))
      [0..<unat (m_N P)] s = Some (Inr (entries, s1))"
    and K: "K = \<lparr>m_keyA = map (map (map fst)) entries, m_keyB = map (map (map snd)) entries\<rparr>"
    using r sv(1) u(1) g D(1) base_powers_eq [of D "ucast ?base" 1] ComputeMu_eq [OF q]
    by (auto simp: LWE_KeySwitchGen_def Let_def F_def powers_def elim!: rbind_InrE)
  note e1 = rmap_Inr [OF en]
  have row: "length (entries ! i) = unat ?base \<and> (\<forall>j<unat ?base. length (entries ! i ! j) = D \<and>
      (\<forall>k<D. \<exists>s s'. F (u ! i) j (ucast ?base ^ k) s = Some (Inr (entries ! i ! j ! k, s'))))" if i: "i < unat (m_N P)" for i
  proof -
    obtain s2 s3 where "rbind (rlift (get_at u i) s2) (\<lambda>svNi s. rmap (\<lambda>j. rmap (F svNi j) powers) [0..<unat ?base] s) = Some (Inr (entries ! i, s3))"
      using e1 i by auto
    then have "rmap (\<lambda>j. rmap (F (u ! i) j) powers) [0..<unat ?base] s2 = Some (Inr (entries ! i, s3))"
      using i u(2) skN(2) by (simp add: get_at_def)
    note e2 = rmap_Inr [OF this]
    have "length (entries ! i ! j) = D \<and> (\<forall>k<D. \<exists>s s'. F (u ! i) j (ucast ?base ^ k) s = Some (Inr (entries ! i ! j ! k, s')))"
      if j: "j < unat ?base" for j
    proof -
      obtain s4 s5 where "rmap (F (u ! i) j) powers s4 = Some (Inr (entries ! i ! j, s5))" using e2 j by auto
      from rmap_Inr [OF this] show ?thesis by (auto simp: powers_def)
    qed
    then show ?thesis using e2 by simp
  qed
  have noisy: "\<exists>e. \<bar>e\<bar> \<le> B \<and> has_phase ?q (unat (m_n P)) (secret sk) (e + secret skN i * int (j * unat ?base ^ k))
      (LWECiphertext (fst (entries ! i ! j ! k)) (snd (entries ! i ! j ! k)))"
    if ijk: "i < unat (m_N P)" "j < unat ?base" "k < D" for i j k
  proof -
    obtain a b where ab: "entries ! i ! j ! k = (a, b)" by (cases "entries ! i ! j ! k")
    obtain s4 s5 where f: "ksk_entry R P g (mu_of ?q) sv (u ! i) (of_nat j) (ucast ?base ^ k) s4 = Some (Inr ((a, b), s5))"
      using row [OF ijk(1)] ijk(2,3) unfolding F_def ab [symmetric] by blast
    have ub: "unat (ucast ?base :: u64) = unat ?base" by simp
    have "unat ?base ^ Suc k \<le> unat ?base ^ D" by (rule power_increasing) (use ijk in simp_all)
    then have "unat ?base ^ k * unat ?base \<le> unat ?base ^ D" by (simp only: power_Suc2)
    moreover have "j * unat ?base ^ k \<le> unat ?base * unat ?base ^ k" using ijk(2) by (intro mult_le_mono1) simp
    ultimately have "j * unat ?base ^ k \<le> unat ?base ^ D" by (metis mult.commute order_trans)
    then have jk: "j * unat ?base ^ k < 2 ^ 64" using D(2) by (rule order.strict_trans1)
    have "unat ?base ^ k \<le> unat ?base ^ D" using ijk by (intro power_increasing) simp_all
    then have pk: "unat (ucast ?base ^ k :: u64) = unat ?base ^ k" using unat_power_small [of "ucast ?base" k] D(2) ub by simp
    have "j < 2 ^ 64" using ijk(2) unsigned_less [of ?base, where ?'a = nat] by simp
    then have uj: "unat (of_nat j :: u64) = j" unfolding unsigned_of_nat by (simp add: take_bit_nat_eq_self)
    have zi: "iu (u ! i) mod iu ?q = secret skN i mod iu ?q" using u(3) ijk(1) skN(2) by (simp only: mod_mod_trivial)
    have tt: "iu (sv ! i) = secret sk i mod iu ?q" if "i < unat (m_n P)" for i using sv(4) that sk(2) by simp
    have "\<exists>e. \<bar>e\<bar> \<le> B \<and> has_phase ?q (unat (m_n P)) (secret sk)
        (e + secret skN i * int (unat (of_nat j :: u64) * unat (ucast ?base ^ k :: u64))) (LWECiphertext a b)"
      by (rule ksk_entry_ok [OF q _ sv(3) tt g noise room _ zi f]) (use sv(2) sk(2) jk pk uj in simp_all)
    then show ?thesis unfolding pk uj ab by simp
  qed
  show ?thesis unfolding ksk_ok_def K using e1 row noisy by (simp add: map_map comp_def)
qed

text \<open>Key generation returns when the draws are low enough for the rejection loop and the noise is sampled.\<close>

lemma ksk_entry_returns:
  assumes q: "barrett_modulus (m_qKS P)" and sv: "length sv = unat (m_n P)" "reduced (m_qKS P) sv"
    and g: "DUG_SetModulus (m_qKS P) = Inr g" "low_draws (draw_u32 R)"
    and noise: "\<And>s. \<exists>w s'. DGG_GenerateInteger R (m_ks_dgg P) (m_qKS P) s = Some (Inr (w, s'))"
    and room: "(unat (m_n P) + 1) * unat (m_qKS P) < 2 ^ 64"
  shows "\<exists>y s'. ksk_entry R P g (mu_of (m_qKS P)) sv svNi j dg s = Some (Inr (y, s'))"
proof -
  let ?q = "m_qKS P" and ?n = "unat (m_n P)"
  have q0: "0 < unat ?q" "?q \<noteq> 0" "unat ?q \<le> 2 ^ 63" using barrettD [OF q] by auto
  obtain d s1 where d: "DUG_GenerateVector R g (m_n P) s = Some (Inr (vec ?q d, s1))" using DUG_GenerateVector_returns [OF q0(2) g] by blast
  have A: "length d = ?n" "reduced ?q d" using DUG_GenerateVector_ok [OF q0(2) g(1) d] by auto
  obtain w s2 where w: "DGG_GenerateInteger R (m_ks_dgg P) ?q s1 = Some (Inr (w, s2))" using noise by blast
  let ?v = "ModAdd w (ModMul svNi (j * dg) ?q) ?q"
  have "unat ?v < unat ?q" using ModAdd_correct [OF q0(1,3)] q0(1) by simp
  then have "unat ?v + ?n * unat ?q < 2 ^ 64" using room by (simp add: algebra_simps)
  from add_products_ok [OF q A sv this] obtain x where "add_products ?q (mu_of ?q) d sv ?n ?v = Inr x" by blast
  then show ?thesis using d w by (simp add: ksk_entry_def Let_def Mul_Inr)
qed

lemma LWE_KeySwitchGen_returns:
  assumes q: "barrett_modulus (m_qKS P)" and sk: "nv_ok sk" "GetLength sk = unat (m_n P)" and skN: "nv_ok skN" "GetLength skN = unat (m_N P)"
    and D: "digit_count lm (m_qKS P) (ucast (m_baseKS P)) = Inr D" and room: "(unat (m_n P) + 1) * unat (m_qKS P) < 2 ^ 64"
    and R: "low_draws (draw_u32 R)" and noise: "\<And>s. \<exists>w s'. DGG_GenerateInteger R (m_ks_dgg P) (m_qKS P) s = Some (Inr (w, s'))"
  shows "\<exists>K s'. LWE_KeySwitchGen R lm P sk skN s = Some (Inr (K, s'))"
proof -
  let ?q = "m_qKS P"
  obtain sv where sv: "SwitchModulus sk ?q = Inr (vec ?q sv)" "length sv = unat (m_n P)" "reduced ?q sv"
    using switched_secret [OF sk(1) q] sk(2) by metis
  obtain u where u: "SwitchModulus skN ?q = Inr (vec ?q u)" "length u = unat (m_N P)"
    using switched_secret [OF skN(1) q] skN(2) by metis
  obtain g where g: "DUG_SetModulus ?q = Inr g" by (rule DUG_SetModulus_ok [OF barrettD(3) [OF q], where R = R]) blast
  note entry = ksk_entry_returns [OF q sv(2,3) g R noise room]
  have "\<exists>en s'. rmap (\<lambda>i s. rbind (rlift (get_at u i) s) (\<lambda>svNi s.
      rmap (\<lambda>j. rmap (\<lambda>dg. ksk_entry R P g (mu_of ?q) sv svNi (of_nat j) dg) ps) [0..<unat (m_baseKS P)] s))
      [0..<unat (m_N P)] s = Some (Inr (en, s'))" for ps s
    by (rule rmap_returns) (auto simp: get_at_def u(2) intro!: rmap_returns entry)
  then obtain en s' where "rmap (\<lambda>i s. rbind (rlift (get_at u i) s) (\<lambda>svNi s.
      rmap (\<lambda>j. rmap (\<lambda>dg. ksk_entry R P g (mu_of ?q) sv svNi (of_nat j) dg) (map (\<lambda>i. 1 * ucast (m_baseKS P) ^ i) [0..<D]))
        [0..<unat (m_baseKS P)] s)) [0..<unat (m_N P)] s = Some (Inr (en, s'))" by blast
  then show ?thesis using sv(1) u(1) g D ComputeMu_eq [OF q] base_powers_eq [of D "ucast (m_baseKS P)" 1]
    by (simp add: LWE_KeySwitchGen_def Let_def)
qed

end
