(* ===== verification/LweProps.thy ===== *)
theory LweProps
  imports LweSem
begin

text \<open>
  The error of rounding in double precision, modulus switching, the composed switch, and the properties
  of the LWE scheme.
\<close>

subsection \<open>Rounding to doubles\<close>

lemma round_half_even_bound:
  assumes "0 < b"
  shows "2 * \<bar>round_half_even a b * b - a\<bar> \<le> b"
proof -
  define q r where "q = a div b" and "r = a mod b"
  have e: "a = q * b + r" by (simp add: q_def r_def)
  have r: "0 \<le> r" "r < b" using assms by (simp_all add: r_def)
  have d: "round_half_even a b = (if 2 * r < b \<or> (2 * r = b \<and> even q) then q else q + 1)"
    by (simp add: round_half_even_def q_def r_def Let_def)
  have "round_half_even a b * b - a = (if 2 * r < b \<or> (2 * r = b \<and> even q) then - r else b - r)"
    unfolding d using e by (simp add: algebra_simps)
  then show ?thesis using r by (auto split: if_splits)
qed

lemma round_half_even_rat:
  assumes "0 < b"
  shows "\<bar>of_int (round_half_even a b) - of_int a / (of_int b :: rat)\<bar> \<le> 1 / 2"
proof -
  have b: "(0 :: rat) < of_int b" using assms by simp
  have "of_int (2 * \<bar>round_half_even a b * b - a\<bar>) \<le> (of_int b :: rat)"
    using round_half_even_bound [OF assms, of a] by (simp only: of_int_le_iff)
  then have "\<bar>of_int (round_half_even a b) * of_int b - of_int a\<bar> \<le> (of_int b :: rat) / 2" by simp
  moreover have "of_int (round_half_even a b) * of_int b - of_int a = (of_int (round_half_even a b) - of_int a / of_int b) * (of_int b :: rat)"
    using b by (simp add: field_simps)
  ultimately have "\<bar>of_int (round_half_even a b) - of_int a / of_int b\<bar> * of_int b \<le> (1 / 2) * (of_int b :: rat)"
    using b by (simp add: abs_mult)
  then show ?thesis by (rule mult_right_le_imp_le [OF _ b])
qed

lemma ratio_log2_lower:
  assumes "0 < a" "0 < b"
  shows "0 \<le> ratio_log2 a b \<Longrightarrow> b * 2 ^ nat (ratio_log2 a b) \<le> a"
    "ratio_log2 a b < 0 \<Longrightarrow> b \<le> a * 2 ^ nat (- ratio_log2 a b)"
proof -
  have up: "b * 2 ^ nat (ratio_log2 a b) \<le> a" if ab: "b \<le> a"
  proof -
    define k where "k = nat (a div b)"
    have k: "0 < k" using assms ab by (simp add: k_def pos_imp_zdiv_pos_iff)
    have "int (2 ^ (bit_len k - 1)) \<le> int k" using bit_len_lower [OF k] by (simp only: of_nat_le_iff)
    then have "2 ^ (bit_len k - 1) \<le> a div b" using k by (simp add: k_def)
    then have "b * 2 ^ (bit_len k - 1) \<le> b * (a div b)" using assms(2) by (intro mult_left_mono) simp_all
    also have "\<dots> \<le> a" using assms(2) by (simp add: mult_div_mod_eq [symmetric] minus_mod_eq_mult_div [symmetric])
    finally have "b * 2 ^ (bit_len k - 1) \<le> a" .
    moreover have "nat (ratio_log2 a b) = bit_len k - 1" using ab k by (simp add: ratio_log2_def k_def)
    ultimately show ?thesis by simp
  qed
  have down: "b \<le> a * 2 ^ nat (- ratio_log2 a b)" if ab: "\<not> b \<le> a"
  proof -
    define k where "k = nat ((b - 1) div a)"
    have "int k < int (2 ^ bit_len k)" using bit_len_upper [of k] by (simp only: of_nat_less_iff)
    moreover have "int k = (b - 1) div a" using assms by (simp add: k_def pos_imp_zdiv_nonneg_iff)
    ultimately have "(b - 1) div a + 1 \<le> 2 ^ bit_len k" by simp
    then have "a * ((b - 1) div a + 1) \<le> a * 2 ^ bit_len k" using assms(1) by (intro mult_left_mono) simp_all
    moreover have "b - 1 < a * ((b - 1) div a + 1)"
      using assms(1) mult_div_mod_eq [of a "b - 1"] pos_mod_bound [OF assms(1), of "b - 1"] by (simp only: distrib_left mult_1_right)
    ultimately have "b \<le> a * 2 ^ bit_len k" by linarith
    moreover have "nat (- ratio_log2 a b) = bit_len k" using ab by (simp add: ratio_log2_def k_def)
    ultimately show ?thesis by simp
  qed
  show "0 \<le> ratio_log2 a b \<Longrightarrow> b * 2 ^ nat (ratio_log2 a b) \<le> a"
  proof (cases "b \<le> a")
    case False
    assume "0 \<le> ratio_log2 a b"
    then have "ratio_log2 a b = 0" using False by (simp add: ratio_log2_def)
    then show ?thesis using down [OF False] False by simp
  qed (rule up)
  show "ratio_log2 a b < 0 \<Longrightarrow> b \<le> a * 2 ^ nat (- ratio_log2 a b)"
  proof (cases "b \<le> a")
    case True
    then have pos: "0 < a div b" using pos_imp_zdiv_pos_iff [OF assms(2), of a] by simp
    then have "0 \<le> ratio_log2 a b" using True by (simp add: ratio_log2_def)
    then show "ratio_log2 a b < 0 \<Longrightarrow> ?thesis" by simp
  qed (rule down)
qed

lemma double_round_error:
  assumes "0 \<le> y"
  shows "\<bar>double_round y - y\<bar> \<le> y / 2 ^ 53"
proof (cases "y = 0")
  case True
  then show ?thesis by (simp add: double_round_def)
next
  case False
  obtain a b where ab: "quotient_of y = (a, b)" by (cases "quotient_of y")
  have b: "0 < b" using quotient_of_denom_pos [OF ab] .
  have y: "y = of_int a / of_int b" using quotient_of_div [OF ab] .
  have b': "(0 :: rat) < of_int b" using b by simp
  have "0 < y" using assms False by simp
  then have a: "0 < a" unfolding y using b' by (simp add: zero_less_divide_iff)
  define E where "E = ratio_log2 a b"
  define e where "e = E - 52"
  have d: "double_round y = (if e \<ge> 0 then of_int (round_half_even a (b * 2 ^ nat e) * 2 ^ nat e)
      else of_int (round_half_even (a * 2 ^ nat (- e)) b) / 2 ^ nat (- e))"
    using \<open>0 < y\<close> by (simp add: double_round_def ab E_def e_def Let_def)
  show ?thesis
  proof (cases "e \<ge> 0")
    case True
    define m where "m = nat e"
    have Em: "nat E = m + 52" "0 \<le> E" using True by (simp_all add: e_def m_def)
    have "b * 2 ^ (m + 52) \<le> a" using ratio_log2_lower(1) [OF a b] Em by (simp add: E_def)
    then have "of_int (b * 2 ^ (m + 52)) \<le> (of_int a :: rat)" by (simp only: of_int_le_iff)
    then have low: "2 ^ (m + 52) \<le> y" unfolding y using b' by (simp add: field_simps)
    have B: "0 < b * 2 ^ m" using b by simp
    have "\<bar>of_int (round_half_even a (b * 2 ^ m)) - of_int a / (of_int (b * 2 ^ m) :: rat)\<bar> \<le> 1 / 2" by (rule round_half_even_rat [OF B])
    then have "\<bar>of_int (round_half_even a (b * 2 ^ m)) - y / 2 ^ m\<bar> * 2 ^ m \<le> 1 / 2 * 2 ^ m"
      unfolding y by (intro mult_right_mono) simp_all
    then have "\<bar>(of_int (round_half_even a (b * 2 ^ m)) - y / 2 ^ m) * 2 ^ m\<bar> \<le> 1 / 2 * 2 ^ m" by (simp add: abs_mult)
    then have "\<bar>of_int (round_half_even a (b * 2 ^ m)) * 2 ^ m - y\<bar> \<le> 1 / 2 * 2 ^ m" by (simp add: left_diff_distrib)
    also have "1 / 2 * 2 ^ m = (2 ^ (m + 52)) / (2 ^ 53 :: rat)" by (simp add: power_add)
    also have "\<dots> \<le> y / 2 ^ 53" using low by (intro divide_right_mono) simp_all
    finally show ?thesis using True by (simp add: d m_def)
  next
    case False
    define m where "m = nat (- e)"
    have low: "2 ^ 52 \<le> y * 2 ^ m"
    proof (cases "0 \<le> E")
      case True
      have m: "m + nat E = 52" using True False by (simp add: e_def m_def)
      have "of_int (b * 2 ^ nat E) \<le> (of_int a :: rat)" using ratio_log2_lower(1) [OF a b] True by (simp only: of_int_le_iff E_def)
      then have "2 ^ nat E \<le> y" unfolding y using b' by (simp add: field_simps)
      then have "2 ^ nat E * 2 ^ m \<le> y * 2 ^ m" by (rule mult_right_mono) simp
      then show ?thesis using m by (simp add: power_add [symmetric] add.commute)
    next
      case neg: False
      have m: "m = 52 + nat (- E)" using neg by (simp add: e_def m_def)
      have "of_int b \<le> (of_int (a * 2 ^ nat (- E)) :: rat)" using ratio_log2_lower(2) [OF a b] neg by (simp only: of_int_le_iff E_def)
      then have "1 \<le> y * 2 ^ nat (- E)" unfolding y using b' by (simp add: field_simps)
      then have "2 ^ 52 * 1 \<le> 2 ^ 52 * (y * 2 ^ nat (- E))" by (rule mult_left_mono) simp
      then show ?thesis by (simp add: m power_add ac_simps)
    qed
    have "\<bar>of_int (round_half_even (a * 2 ^ m) b) - of_int (a * 2 ^ m) / (of_int b :: rat)\<bar> \<le> 1 / 2" by (rule round_half_even_rat [OF b])
    then have "\<bar>of_int (round_half_even (a * 2 ^ m) b) - y * 2 ^ m\<bar> \<le> 1 / 2" by (simp add: y)
    also have "1 / 2 = 2 ^ 52 / (2 ^ 53 :: rat)" by simp
    also have "\<dots> \<le> y * 2 ^ m / 2 ^ 53" using low by (intro divide_right_mono) simp_all
    finally have "\<bar>of_int (round_half_even (a * 2 ^ m) b) - y * 2 ^ m\<bar> / 2 ^ m \<le> y * 2 ^ m / 2 ^ 53 / 2 ^ m"
      by (intro divide_right_mono) simp_all
    moreover have "\<bar>of_int (round_half_even (a * 2 ^ m) b) - y * 2 ^ m\<bar> / 2 ^ m = \<bar>of_int (round_half_even (a * 2 ^ m) b) / 2 ^ m - y\<bar>"
    proof -
      have "(of_int (round_half_even (a * 2 ^ m) b) - y * 2 ^ m) / 2 ^ m = of_int (round_half_even (a * 2 ^ m) b) / 2 ^ m - y"
        by (simp add: diff_divide_distrib)
      then show ?thesis by (metis abs_divide abs_of_pos zero_less_numeral zero_less_power)
    qed
    moreover have "y * 2 ^ m / 2 ^ 53 / 2 ^ m = y / 2 ^ 53" by simp
    ultimately have "\<bar>of_int (round_half_even (a * 2 ^ m) b) / 2 ^ m - y\<bar> \<le> y / 2 ^ 53" by (simp only:)
    moreover have "double_round y = of_int (round_half_even (a * 2 ^ m) b) / 2 ^ m" using False by (simp add: d m_def)
    ultimately show ?thesis by (simp only:)
  qed
qed

lemma round_half_even_one: "round_half_even a 1 = a"
  by (simp add: round_half_even_def Let_def)

lemma double_round_exact:
  assumes "n < 2 ^ 53"
  shows "double_round (of_nat n) = of_nat n"
proof (cases "n = 0")
  case True
  then show ?thesis by (simp add: double_round_def)
next
  case False
  have q: "quotient_of (of_nat n) = (int n, 1)" using quotient_of_int [of "int n"] by simp
  have E: "ratio_log2 (int n) 1 = int (bit_len n) - 1" using False by (simp add: ratio_log2_def)
  have "bit_len n \<le> 53" using assms by (simp add: bit_len_le_iff)
  then have e: "ratio_log2 (int n) 1 - 52 \<le> 0" using E by simp
  show ?thesis
  proof (cases "ratio_log2 (int n) 1 - 52 = 0")
    case True
    then show ?thesis using False by (simp add: double_round_def q Let_def round_half_even_one)
  next
    case neg: False
    then have "\<not> 0 \<le> ratio_log2 (int n) 1 - 52" using e by linarith
    then show ?thesis using False by (simp add: double_round_def q Let_def round_half_even_one)
  qed
qed

lemma ConvertToDouble_exact: "unat w < 2 ^ 53 \<Longrightarrow> ConvertToDouble w = of_nat (unat w)"
  unfolding ConvertToDouble_def by (rule double_round_exact)

lemma double_round_nonneg: "0 \<le> y \<Longrightarrow> 0 \<le> double_round y"
proof -
  assume y: "0 \<le> y"
  have "y / 2 ^ 53 \<le> y" using y by (simp add: divide_le_eq)
  then show ?thesis using double_round_error [OF y] by linarith
qed

text \<open>How far the rounded entry may be from the scaled one.\<close>

definition round_err :: "nat \<Rightarrow> rat" where
  "round_err q = 1 / 2 + (2 * of_nat q + 2) / 2 ^ 53"

lemma scaled_rounding:
  fixes v q Q :: nat
  assumes Q: "v < Q" and q: "0 < q" "q < 2 ^ 53" and vq: "Q * q \<le> 2 ^ 53"
  defines "y2 \<equiv> double_round (1 / 2 + double_round (double_round (of_nat v * of_nat q) / of_nat Q))"
  shows "0 \<le> y2" "y2 < 2 ^ 64" "\<bar>of_int \<lfloor>y2\<rfloor> - of_nat v * of_nat q / of_nat Q\<bar> \<le> round_err q"
proof -
  let ?v = "of_nat v :: rat" and ?q = "of_nat q :: rat" and ?Q = "of_nat Q :: rat"
  have Q0: "0 < Q" using Q by simp
  have "v * q < Q * q" using Q q(1) by simp
  then have p: "v * q < 2 ^ 53" using vq by linarith
  have prod: "double_round (?v * ?q) = ?v * ?q" using double_round_exact [OF p] by simp
  define y where "y = ?v * ?q / ?Q"
  have vQ: "?v \<le> ?Q" using Q by simp
  have y: "0 \<le> y" "y \<le> ?q"
  proof -
    show "0 \<le> y" by (simp add: y_def)
    have "?v * ?q \<le> ?Q * ?q" using vQ by (rule mult_right_mono) simp
    then show "y \<le> ?q" using Q0 by (simp add: y_def divide_le_eq mult.commute)
  qed
  define y1 where "y1 = double_round y"
  have "\<bar>y1 - y\<bar> \<le> y / 2 ^ 53" unfolding y1_def by (rule double_round_error [OF y(1)])
  also have "\<dots> \<le> ?q / 2 ^ 53" using y(2) by (intro divide_right_mono) simp_all
  finally have y1: "\<bar>y1 - y\<bar> \<le> ?q / 2 ^ 53" .
  have y10: "0 \<le> y1" unfolding y1_def by (rule double_round_nonneg [OF y(1)])
  have "?q \<le> of_nat (2 ^ 53)" using q(2) by (intro of_nat_mono) simp
  then have q53: "?q \<le> 2 ^ 53" by simp
  then have "?q / 2 ^ 53 \<le> 1" by (simp add: divide_le_eq)
  then have y1q: "1 / 2 + y1 \<le> ?q + 2" using y1 y(2) by linarith
  have y2: "y2 = double_round (1 / 2 + y1)" by (simp only: y2_def prod y_def y1_def)
  have pos2: "0 \<le> 1 / 2 + y1" using y10 by simp
  have "\<bar>y2 - (1 / 2 + y1)\<bar> \<le> (1 / 2 + y1) / 2 ^ 53" unfolding y2 by (rule double_round_error [OF pos2])
  also have "\<dots> \<le> (?q + 2) / 2 ^ 53" using y1q by (intro divide_right_mono) simp_all
  finally have d2: "\<bar>y2 - (1 / 2 + y1)\<bar> \<le> (?q + 2) / 2 ^ 53" .
  show "0 \<le> y2" unfolding y2 by (rule double_round_nonneg [OF pos2])
  have r: "of_int \<lfloor>y2\<rfloor> \<le> y2" "y2 < of_int \<lfloor>y2\<rfloor> + 1" by (rule of_int_floor_le, rule floor_correct [THEN conjunct2, simplified])
  have split: "(2 * ?q + 2) / 2 ^ 53 = ?q / 2 ^ 53 + (?q + 2) / (2 ^ 53 :: rat)" by (simp add: add_divide_distrib)
  show "\<bar>of_int \<lfloor>y2\<rfloor> - ?v * ?q / ?Q\<bar> \<le> round_err q"
    using y1 d2 r unfolding round_err_def split y_def [symmetric] by linarith
  have "(?q + 2) / 2 ^ 53 \<le> 2" using q53 by (simp add: divide_le_eq)
  then have "y2 \<le> 2 ^ 53 + 4" using d2 y1q q53 by linarith
  then show "y2 < 2 ^ 64" by simp
qed

lemma RoundqQ_bound:
  assumes Q: "unat v < unat Q" "unat Q < 2 ^ 53" and q: "0 < unat q" "unat q < 2 ^ 53" and vq: "unat Q * unat q \<le> 2 ^ 53"
  shows "\<exists>r :: int. RoundqQ v q Q = Inr (Mod (word_of_int r) q) \<and> 0 \<le> r \<and> r < 2 ^ 64 \<and>
    \<bar>of_int r - of_int (iu v) * of_int (iu q) / of_int (iu Q)\<bar> \<le> round_err (unat q)"
proof -
  define y2 where "y2 = double_round (1 / 2 + double_round (double_round (of_nat (unat v) * of_nat (unat q)) / of_nat (unat Q)))"
  note s = scaled_rounding [OF Q(1) q vq, folded y2_def]
  have conv: "ConvertToDouble v = of_nat (unat v)" "ConvertToDouble q = of_nat (unat q)" "ConvertToDouble Q = of_nat (unat Q)"
    by (rule ConvertToDouble_exact, use Q q in linarith)+
  have "Q \<noteq> 0" "q \<noteq> 0" using Q(1) q(1) by auto
  moreover have "double_to_u64 y2 = Inr (word_of_int \<lfloor>y2\<rfloor>)" using s(2) by (simp add: double_to_u64_def)
  ultimately have "RoundqQ v q Q = Inr (Mod (word_of_int \<lfloor>y2\<rfloor>) q)"
    unfolding RoundqQ_def conv y2_def [symmetric] by simp
  moreover have "0 \<le> \<lfloor>y2\<rfloor>" "\<lfloor>y2\<rfloor> < 2 ^ 64" using s(1,2) by (simp_all add: floor_less_iff)
  ultimately show ?thesis using s(3) by (intro exI [of _ "\<lfloor>y2\<rfloor>"] conjI) (simp_all only: of_int_of_nat_eq)
qed

subsection \<open>Modulus switching\<close>

lemma reduced_word:
  assumes "0 \<le> r" "r < 2 ^ 64" "0 < unat q"
  shows "unat (Mod (word_of_int r) q) < unat q" "iu (Mod (word_of_int r :: u64) q) mod iu q = r mod iu q"
proof -
  have u: "unat (Mod (word_of_int r) q) = nat r mod unat q"
    using unat_of_int_small [OF assms(1,2)] by (simp only: Mod_def unat_mod)
  then show "unat (Mod (word_of_int r) q) < unat q" using assms(3) by simp
  have "int (nat r) = r" using assms(1) by simp
  then show "iu (Mod (word_of_int r :: u64) q) mod iu q = r mod iu q" unfolding u by (simp only: of_nat_mod mod_mod_trivial)
qed

lemma LWE_ModSwitch_ok:
  assumes c: "has_phase Q n t y ct" and Q: "0 < unat Q" "unat Q < 2 ^ 53" and q: "0 < unat q" "unat q < 2 ^ 53" and Qq: "unat Q * unat q \<le> 2 ^ 53"
  shows "\<exists>ct' z. LWE_ModSwitch q ct = Inr ct' \<and> has_phase q n t z ct' \<and>
    \<bar>of_int z - of_int (y * iu q) / of_int (iu Q)\<bar> \<le> (1 + (\<Sum>i<n. of_int \<bar>t i\<bar>)) * round_err (unat q)"
proof -
  obtain xs where x: "ct = \<lparr>ct_a = vec Q xs, ct_b = ct_b ct, ct_p = ct_p ct\<rparr>" "restores Q n (\<lambda>i. iu (xs ! i)) xs"
    "unat (ct_b ct) < unat Q" "(iu (ct_b ct) - inner n xs t) mod iu Q = y mod iu Q" by (rule has_phaseE [OF c])
  let ?S = "\<lambda>v :: u64. of_int (iu v) * of_int (iu q) / of_int (iu Q) :: rat"
  have "\<forall>v. \<exists>r :: int. unat v < unat Q \<longrightarrow> RoundqQ v q Q = Inr (Mod (word_of_int r) q) \<and> 0 \<le> r \<and> r < 2 ^ 64 \<and>
      \<bar>of_int r - ?S v\<bar> \<le> round_err (unat q)" using RoundqQ_bound [OF _ Q(2) q Qq] by blast
  from choice [OF this] obtain f :: "u64 \<Rightarrow> int" where f: "\<And>v. unat v < unat Q \<Longrightarrow> RoundqQ v q Q = Inr (Mod (word_of_int (f v)) q)"
    "\<And>v. unat v < unat Q \<Longrightarrow> 0 \<le> f v" "\<And>v. unat v < unat Q \<Longrightarrow> f v < 2 ^ 64"
    "\<And>v. unat v < unat Q \<Longrightarrow> \<bar>of_int (f v) - ?S v\<bar> \<le> round_err (unat q)" by blast
  define g where "g = (\<lambda>v. Mod (word_of_int (f v)) q)"
  have g: "unat (g v) < unat q" "iu (g v) mod iu q = f v mod iu q" if "unat v < unat Q" for v
    unfolding g_def by (rule reduced_word [OF f(2) [OF that] f(3) [OF that] q(1)])+
  have xs: "length xs = n" "\<And>i. i < n \<Longrightarrow> unat (xs ! i) < unat Q" using restoresD(1,2) [OF x(2)] by auto
  define d where "d = map g xs"
  define b where "b = g (ct_b ct)"
  have ea: "emap (\<lambda>v. RoundqQ v q Q) xs = Inr d"
    unfolding d_def using f(1) xs by (intro emap_all_Inr) (auto simp: g_def in_set_conv_nth)
  have "m_data (ct_a ct) = xs" "ct_modulus ct = Q" by (subst x(1), simp add: ct_modulus_def)+
  then have ms: "LWE_ModSwitch q ct = Inr (LWECiphertext (vec q d) b)"
    using ea f(1) [OF x(3)] by (simp add: LWE_ModSwitch_def Let_def b_def g_def)
  obtain k where k: "iu (ct_b ct) - inner n xs t = y + k * iu Q" using x(4) by (metis mod_eqE add_diff_eq diff_add_cancel mult.commute uminus_add_conv_diff)
  define z where "z = f (ct_b ct) - (\<Sum>i<n. f (xs ! i) * t i) - k * iu q"
  have rd: "restores q n (\<lambda>i. f (xs ! i)) d"
    using g xs by (auto simp: restores_def d_def simp del: int_nat_eq)
  have ph: "has_phase q n t z (LWECiphertext (vec q d) b)"
    unfolding LWECiphertext_def
  proof (rule has_phaseI [OF rd])
    show "unat b < unat q" unfolding b_def by (rule g(1) [OF x(3)])
    have "inner n d t mod iu q = (\<Sum>i<n. f (xs ! i) * t i) mod iu q"
      unfolding inner_def by (intro sum_mod_cong mod_mult_cong refl restoresD(3) [OF rd]) simp
    then have "(iu b - inner n d t) mod iu q = (f (ct_b ct) - (\<Sum>i<n. f (xs ! i) * t i)) mod iu q"
      using g(2) [OF x(3)] by (intro mod_diff_cong) (simp_all only: b_def)
    moreover have "z = (f (ct_b ct) - (\<Sum>i<n. f (xs ! i) * t i)) + (- k) * iu q" by (simp add: z_def)
    ultimately show "(iu b - inner n d t) mod iu q = z mod iu q" by (simp only: mod_mult_self1)
  qed
  have Q0: "(0 :: rat) < of_int (iu Q)" using Q(1) by (simp only: of_int_0_less_iff of_nat_0_less_iff)
  have scaled: "?S (ct_b ct) - (\<Sum>i<n. ?S (xs ! i) * of_int (t i)) - of_int (k * iu q) = of_int (y * iu q) / of_int (iu Q)"
  proof -
    have "of_int (y * iu q) / of_int (iu Q) = (of_int (iu (ct_b ct) - inner n xs t - k * iu Q) * of_int (iu q)) / (of_int (iu Q) :: rat)"
      using k by simp
    also have "\<dots> = ?S (ct_b ct) - of_int (inner n xs t) * of_int (iu q) / of_int (iu Q) - of_int (k * iu q)"
      using Q0 by (simp add: field_simps)
    also have "of_int (inner n xs t) * of_int (iu q) / of_int (iu Q) = (\<Sum>i<n. ?S (xs ! i) * of_int (t i))"
      unfolding inner_def of_int_sum sum_distrib_right sum_divide_distrib by (intro sum.cong refl) (simp add: field_simps)
    finally show ?thesis by simp
  qed
  have "of_int z - of_int (y * iu q) / (of_int (iu Q) :: rat) =
      (of_int (f (ct_b ct)) - ?S (ct_b ct)) - (\<Sum>i<n. (of_int (f (xs ! i)) - ?S (xs ! i)) * of_int (t i))"
    unfolding scaled [symmetric] z_def by (simp add: left_diff_distrib sum_subtractf)
  also have "\<bar>\<dots>\<bar> \<le> \<bar>of_int (f (ct_b ct)) - ?S (ct_b ct)\<bar> + \<bar>\<Sum>i<n. (of_int (f (xs ! i)) - ?S (xs ! i)) * of_int (t i)\<bar>"
    by (rule abs_triangle_ineq4)
  also have "\<dots> \<le> round_err (unat q) + (\<Sum>i<n. round_err (unat q) * of_int \<bar>t i\<bar>)"
  proof (intro add_mono f(4) [OF x(3)] order_trans [OF sum_abs] sum_mono)
    fix i assume "i \<in> {..<n}"
    then have "\<bar>of_int (f (xs ! i)) - ?S (xs ! i)\<bar> \<le> round_err (unat q)" using f(4) xs(2) by simp
    then show "\<bar>(of_int (f (xs ! i)) - ?S (xs ! i)) * of_int (t i)\<bar> \<le> round_err (unat q) * of_int \<bar>t i\<bar>"
      unfolding abs_mult of_int_abs by (rule mult_right_mono) simp
  qed
  also have "\<dots> = (1 + (\<Sum>i<n. of_int \<bar>t i\<bar>)) * round_err (unat q)" by (simp add: distrib_right sum_distrib_right mult.commute [of "round_err (unat q)"])
  finally show ?thesis using ms ph by blast
qed

subsection \<open>The whole switch\<close>

definition secret_weight :: "nat \<Rightarrow> (nat \<Rightarrow> int) \<Rightarrow> rat" where
  "secret_weight n t = (\<Sum>i<n. of_int \<bar>t i\<bar>)"

lemma LWE_SwitchCTtoqn_ok:
  assumes qKS: "barrett_modulus (m_qKS P)" and base: "0 < unat (m_baseKS P)" "0 \<le> B"
    and D: "digit_count lm (m_qKS P) (ucast (m_baseKS P)) = Inr D" "unat (m_qKS P) \<le> unat (m_baseKS P) ^ D"
    and K: "ksk_ok (m_qKS P) (unat (m_n P)) (unat (m_N P)) (unat (m_baseKS P)) D B t u K"
    and Q: "0 < unat Q" "unat Q < 2 ^ 53" "unat Q * unat (m_qKS P) \<le> 2 ^ 53"
    and q: "0 < unat (m_q P)" "unat (m_q P) < 2 ^ 53" "unat (m_qKS P) < 2 ^ 53" "unat (m_qKS P) * unat (m_q P) \<le> 2 ^ 53"
    and c: "has_phase Q (unat (m_N P)) u y ct"
  shows "\<exists>ct' z. LWE_SwitchCTtoqn lm P K ct = Inr ct' \<and> has_phase (m_q P) (unat (m_n P)) t z ct' \<and>
    \<bar>of_int z - of_int (y * iu (m_q P)) / of_int (iu Q)\<bar> \<le>
      (1 + secret_weight (unat (m_n P)) t) * round_err (unat (m_q P)) +
      of_int (iu (m_q P)) / of_int (iu (m_qKS P)) *
        (of_int (int (unat (m_N P) * D) * B) + (1 + secret_weight (unat (m_N P)) u) * round_err (unat (m_qKS P)))"
proof -
  let ?k = "of_int (iu (m_qKS P)) :: rat" and ?q = "of_int (iu (m_q P)) :: rat" and ?Q = "of_int (iu Q) :: rat"
  have k0: "0 < unat (m_qKS P)" by (rule barrettD(1) [OF qKS])
  obtain c1 z1 where 1: "LWE_ModSwitch (m_qKS P) ct = Inr c1" "has_phase (m_qKS P) (unat (m_N P)) u z1 c1"
    "\<bar>of_int z1 - of_int (y * iu (m_qKS P)) / ?Q\<bar> \<le> (1 + secret_weight (unat (m_N P)) u) * round_err (unat (m_qKS P))"
    using LWE_ModSwitch_ok [OF c Q(1,2) k0 q(3) Q(3)] unfolding secret_weight_def by blast
  obtain c2 E where 2: "LWE_KeySwitch lm P K c1 = Inr c2" "\<bar>E\<bar> \<le> int (unat (m_N P) * D) * B"
    "has_phase (m_qKS P) (unat (m_n P)) t (z1 - E) c2" using LWE_KeySwitch_ok [OF qKS base D K 1(2)] by blast
  obtain c3 z where 3: "LWE_ModSwitch (m_q P) c2 = Inr c3" "has_phase (m_q P) (unat (m_n P)) t z c3"
    "\<bar>of_int z - of_int ((z1 - E) * iu (m_q P)) / ?k\<bar> \<le> (1 + secret_weight (unat (m_n P)) t) * round_err (unat (m_q P))"
    using LWE_ModSwitch_ok [OF 2(3) k0 q(3,1,2,4)] unfolding secret_weight_def by blast
  have pos: "0 < ?k" "0 < ?Q" "0 \<le> ?q" using k0 Q(1) by (simp_all only: of_int_0_less_iff of_nat_0_less_iff of_int_0_le_iff of_nat_0_le_iff)
  have "of_int ((z1 - E) * iu (m_q P)) / ?k - of_int (y * iu (m_q P)) / ?Q = ?q / ?k * ((of_int z1 - of_int (y * iu (m_qKS P)) / ?Q) - of_int E)"
    using pos by (simp add: field_simps)
  moreover have "\<bar>(of_int z1 - of_int (y * iu (m_qKS P)) / ?Q) - of_int E\<bar> \<le>
      of_int (int (unat (m_N P) * D) * B) + (1 + secret_weight (unat (m_N P)) u) * round_err (unat (m_qKS P))"
  proof -
    have "of_int \<bar>E\<bar> \<le> (of_int (int (unat (m_N P) * D) * B) :: rat)" using 2(2) by (simp only: of_int_le_iff)
    then have "\<bar>of_int E\<bar> \<le> (of_int (int (unat (m_N P) * D) * B) :: rat)" by (simp only: of_int_abs)
    then show ?thesis using 1(3) by linarith
  qed
  then have "?q / ?k * \<bar>(of_int z1 - of_int (y * iu (m_qKS P)) / ?Q) - of_int E\<bar> \<le>
      ?q / ?k * (of_int (int (unat (m_N P) * D) * B) + (1 + secret_weight (unat (m_N P)) u) * round_err (unat (m_qKS P)))"
    using pos by (intro mult_left_mono) simp_all
  moreover have "\<bar>?q / ?k * ((of_int z1 - of_int (y * iu (m_qKS P)) / ?Q) - of_int E)\<bar> =
      ?q / ?k * \<bar>(of_int z1 - of_int (y * iu (m_qKS P)) / ?Q) - of_int E\<bar>" using pos by (simp add: abs_mult)
  ultimately have "\<bar>of_int ((z1 - E) * iu (m_q P)) / ?k - of_int (y * iu (m_q P)) / ?Q\<bar> \<le>
      ?q / ?k * (of_int (int (unat (m_N P) * D) * B) + (1 + secret_weight (unat (m_N P)) u) * round_err (unat (m_qKS P)))" by (simp only:)
  with 3(3) have "\<bar>of_int z - of_int (y * iu (m_q P)) / ?Q\<bar> \<le>
      (1 + secret_weight (unat (m_n P)) t) * round_err (unat (m_q P)) +
      ?q / ?k * (of_int (int (unat (m_N P) * D) * B) + (1 + secret_weight (unat (m_N P)) u) * round_err (unat (m_qKS P)))" by linarith
  then show ?thesis using 1(1) 2(1) 3(1,2) by (auto simp: LWE_SwitchCTtoqn_def)
qed

text \<open>A source whose words count the draws, and parameters, for concrete runs.\<close>

definition step_source :: "nat source" where
  "step_source = counter_source\<lparr>draw_u32 := (\<lambda>b s. ((of_nat s * 37 + 5) mod (b + 1), s + 1))\<rparr>"

definition step_libm :: libm where
  "step_libm = flat_libm\<lparr>std_log := (\<lambda>x. if x = 16 then 2 else 1)\<rparr>"

definition small_params :: "gauss \<Rightarrow> lwe_params" where
  "small_params g = \<lparr>m_q = 8, m_Q = 64, m_qKS = 16, m_n = 1, m_N = 1, m_baseKS = 4, m_keyDist = UNIFORM_TERNARY, m_dgg = g, m_ks_dgg = g\<rparr>"

definition no_gauss :: gauss where
  "no_gauss = \<lparr>m_std = 1, m_vals = [], m_a = 0, m_peikert = True\<rparr>"

definition trivial_key :: lwe_ksk where
  "trivial_key = \<lparr>m_keyA = [replicate 4 (replicate 2 (vec 16 [0]))], m_keyB = [[[0, 0], [1, 4], [2, 8], [3, 12]]]\<rparr>"

lemma encrypt_example:
  "(case DGG flat_libm 1 of Inl e \<Rightarrow> False | Inr g \<Rightarrow> DGG_GenerateInteger step_source g 1024 3 = Some (Inr (1014, 3)))"
  by code_simp

lemma uniform_example:
  "(case DUG_GenerateVector_modulus step_source 3 1024 0 of Some (Inr ((a, _), s)) \<Rightarrow> s = 3 \<and> m_data a = [5, 42, 79] | _ \<Rightarrow> False)"
  by code_simp

lemma step_example:
  "(case DGG step_libm 1 of Inl e \<Rightarrow> False | Inr g \<Rightarrow> DGG_GenerateInteger counter_source g 16 0 = Some (Inr (6, 0)))"
  by code_simp

lemma counter_noise:
  assumes "m_peikert g" "DGG_GenerateInteger counter_source g q 0 = Some (Inr (w, 0))"
  shows "DGG_GenerateInteger counter_source g q s = Some (Inr (w, s))"
  using assms by (auto simp: DGG_GenerateInteger_def gauss_int_def DGG_GenerateInt_def counter_source_def Let_def rbind_def rlift_def
      split: if_splits sum.splits)

lemma step_digits: "digit_count step_libm 16 4 = Inr 2"
  by code_simp

lemma low_counter: "low_draws (draw_u32 counter_source)"
  by (simp add: low_draws_def counter_source_def)

lemma all_less_4: "(\<forall>j<4 :: nat. P j) \<longleftrightarrow> P 0 \<and> P 1 \<and> P 2 \<and> P 3"
  by (auto simp: less_Suc_eq numeral_eq_Suc)

lemma all_less_2: "(\<forall>j<2 :: nat. P j) \<longleftrightarrow> P 0 \<and> P 1"
  by (auto simp: less_Suc_eq numeral_eq_Suc)

lemma trivial_key_ok: "ksk_ok 16 1 1 4 2 0 (\<lambda>_. 0) (\<lambda>_. 1) trivial_key"
  by (simp add: ksk_ok_def trivial_key_def has_phase_def lwe_ok_def LWECiphertext_def inner_def reduced_def all_less_4 all_less_2)

lemma weight_one: "secret_weight (Suc 0) t = of_int \<bar>t 0\<bar>"
  by (simp add: secret_weight_def)

section \<open>Properties\<close>

text \<open>
  C3. LWE encryption is correct: when the sampled noise \<open>e\<close> is below half a step, \<open>- q / 2p \<le> e < q / 2p\<close>, a message
  \<open>0 \<le> m < p\<close> encrypted with any secret key decrypts to \<open>m\<close>, for every uniform vector drawn, where \<open>2 p\<close> divides \<open>q\<close>,
  as the documentation asks. The hypotheses on the sizes say that the sums and the product of the code do not wrap;
  the code tests none of them.
\<close>

theorem lwe_encrypt_decrypt:
  assumes "barrett_modulus q" "nv_ok sk" "GetLength sk = n" "n < 2 ^ 32" "(n + 2) * unat q < 2 ^ 64"
    and "0 < unat p" "unat p * 2 dvd unat q" "unat p * unat q < 2 ^ 64" "0 \<le> m" "m < int (unat p)"
    and "DUG_GenerateVector_modulus R (of_nat n) q s = Some (Inr ((a, g), s1))"
    and "DGG_GenerateInteger R (m_dgg P) q s1 = Some (Inr (y, s2))" "unat y < unat q" "iu y mod iu q = e mod iu q"
    and "- (iu q div (2 * int (unat p))) \<le> e" "e < iu q div (2 * int (unat p))"
  shows "\<exists>ct. LWE_Encrypt R P sk m p q s = Some (Inr (ct, s2)) \<and> LWE_Decrypt (Some sk) (Some ct) True p = Inr m"
proof -
  obtain ct where ct: "LWE_Encrypt R P sk m p q s = Some (Inr (ct, s2))" "ct_p ct = p"
    "has_phase q n (secret sk) (encoded m (unat p) (unat q) + iu y) ct"
    by (rule LWE_Encrypt_ok [OF assms(1-6,11-13)])
  have q0: "0 < unat q" by (rule barrettD(1) [OF assms(1)])
  have "unat p * 2 \<le> unat q" using assms(7) q0 by (rule dvd_imp_le)
  then have p2: "unat p * 2 < 2 ^ 64" using barrettD(2) [OF assms(1)] by simp
  have nq: "n * unat q < 2 ^ 64" using assms(5) by (simp add: algebra_simps)
  have d: "int (unat p) * 2 dvd iu q" using assms(7) by (metis int_dvd_int_iff of_nat_mult of_nat_numeral)
  have "m < 2 ^ 64" using assms(10) unsigned_less [of p, where ?'a = int] by simp
  then have en: "encoded m (unat p) (unat q) = m * (iu q div int (unat p))" by (rule encoded_small [OF assms(9,10)])
  have "decoded (iu q) (int (unat p)) (encoded m (unat p) (unat q) + iu y) = m"
  proof (rule decoded_message [OF d _ _ assms(9,10)])
    show "(encoded m (unat p) (unat q) + iu y) mod iu q = (m * (iu q div int (unat p)) + e) mod iu q"
      unfolding en by (rule mod_add_cong [OF refl assms(14)])
  qed (use q0 assms(6,15,16) in \<open>simp_all only: of_nat_0_less_iff mult.commute\<close>)
  then show ?thesis using ct(1) LWE_Decrypt_ok [OF assms(1-3) nq ct(3) assms(6) p2 assms(8)] by auto
qed

text \<open>
  C25. The homomorphic operations act on the phase \<open>b - <a, s>\<close> of the ciphertexts, noise included: sums, differences
  in both argument orders, addition and subtraction of a constant, multiplication by a constant. The constant that is added
  or subtracted is reduced modulo \<open>q\<close>.
\<close>

theorem lwe_homomorphic:
  assumes "barrett_modulus q" "has_phase q n t y1 ct1" "has_phase q n t y2 ct2" "unat k < unat q"
  shows "(\<exists>ct. LWE_EvalAddEq ct1 ct2 = Inr ct \<and> has_phase q n t (y1 + y2) ct) \<and>
    (\<exists>ct. LWE_EvalSubEq ct1 ct2 = Inr ct \<and> has_phase q n t (y1 - y2) ct) \<and>
    (\<exists>ct. LWE_EvalSubEq2 ct1 ct2 = Inr ct \<and> has_phase q n t (y1 - y2) ct) \<and>
    has_phase q n t (y1 + iu k) (LWE_EvalAddConstEq ct1 k) \<and> has_phase q n t (y1 - iu k) (LWE_EvalSubConstEq ct1 k) \<and>
    (\<exists>ct. LWE_EvalMultConstEq ct1 c = Inr ct \<and> has_phase q n t (y1 * iu c) ct)"
  using LWE_EvalAddEq_ok [OF assms(1-3)] LWE_EvalSub_ok [OF assms(1-3)] LWE_EvalConst_ok [OF assms(1,2,4)]
    LWE_EvalMultConstEq_ok [OF assms(1,2)] by (intro conjI) assumption+

text \<open>
  C4. Key switching is correct. \<open>KeySwitchGen\<close> returns a key from the secret \<open>skN\<close> to the secret \<open>sk\<close> when the draws
  are low enough and the noise is sampled; with any key that it returns, \<open>KeySwitch\<close> turns a ciphertext under
  \<open>skN\<close> into one under \<open>sk\<close> whose phase differs by at most \<open>N * digits * bound\<close>, the bound being that of the
  Gaussian sampler. The number of digits, which the code computes with logarithms in floating point, is enough when
  the base to that power is at least the modulus.
\<close>

theorem lwe_key_switch:
  assumes "barrett_modulus (m_qKS P)" "0 < unat (m_baseKS P)" "(unat (m_n P) + 1) * unat (m_qKS P) < 2 ^ 64"
    and "nv_ok sk" "GetLength sk = unat (m_n P)" "nv_ok skN" "GetLength skN = unat (m_N P)"
    and "digit_count lm (m_qKS P) (ucast (m_baseKS P)) = Inr D" "unat (m_qKS P) \<le> unat (m_baseKS P) ^ D" "unat (m_baseKS P) ^ D < 2 ^ 64"
    and "DGG lm std = Inr (m_ks_dgg P)" "std < KARNEY_THRESHOLD" "DGG_fin std < iu (m_qKS P)"
  shows "(low_draws (draw_u32 R) \<and> (\<forall>s. \<exists>w s'. DGG_GenerateInteger R (m_ks_dgg P) (m_qKS P) s = Some (Inr (w, s'))) \<longrightarrow>
      (\<exists>K s'. LWE_KeySwitchGen R lm P sk skN s = Some (Inr (K, s')))) \<and>
    (LWE_KeySwitchGen R lm P sk skN s = Some (Inr (K, s')) \<and> has_phase (m_qKS P) (unat (m_N P)) (secret skN) y ct \<longrightarrow>
      (\<exists>ct' E. LWE_KeySwitch lm P K ct = Inr ct' \<and> \<bar>E\<bar> \<le> int (unat (m_N P) * D) * DGG_fin std \<and>
        has_phase (m_qKS P) (unat (m_n P)) (secret sk) (y - E) ct'))"
proof (intro conjI impI; elim conjE)
  show "\<exists>K s'. LWE_KeySwitchGen R lm P sk skN s = Some (Inr (K, s'))"
    if "low_draws (draw_u32 R)" "\<forall>s. \<exists>w s'. DGG_GenerateInteger R (m_ks_dgg P) (m_qKS P) s = Some (Inr (w, s'))"
    by (rule LWE_KeySwitchGen_returns [OF assms(1,4-8,3) that(1)]) (use that(2) in blast)
  show "\<exists>ct' E. LWE_KeySwitch lm P K ct = Inr ct' \<and> \<bar>E\<bar> \<le> int (unat (m_N P) * D) * DGG_fin std \<and>
      has_phase (m_qKS P) (unat (m_n P)) (secret sk) (y - E) ct'"
    if "LWE_KeySwitchGen R lm P sk skN s = Some (Inr (K, s'))" "has_phase (m_qKS P) (unat (m_N P)) (secret skN) y ct"
    by (rule LWE_KeySwitch_ok [OF assms(1,2) DGG_peikert(2) [OF assms(11,12)] assms(8,9)
          LWE_KeySwitchGen_ok [OF assms(1,4-8,10) noise_DGG [OF assms(11-13)] assms(3) that(1)] that(2)])
qed

text \<open>
  C24. \<open>SwitchCTtoqn\<close> (modulus switch, key switch, modulus switch) scales the phase by \<open>q / Q\<close> up to a bound made of
  the rounding of the two modulus switches, computed in double precision, and of the scaled noise of the key. The
  products \<open>Q * qKS\<close> and \<open>qKS * q\<close> must be exact in a double.
\<close>

theorem lwe_switch_modulus_and_key:
  assumes "barrett_modulus (m_qKS P)" "0 < unat (m_baseKS P)" "0 \<le> B"
    and "digit_count lm (m_qKS P) (ucast (m_baseKS P)) = Inr D" "unat (m_qKS P) \<le> unat (m_baseKS P) ^ D"
    and "ksk_ok (m_qKS P) (unat (m_n P)) (unat (m_N P)) (unat (m_baseKS P)) D B t u K"
    and "0 < unat Q" "unat Q < 2 ^ 53" "unat Q * unat (m_qKS P) \<le> 2 ^ 53"
    and "0 < unat (m_q P)" "unat (m_q P) < 2 ^ 53" "unat (m_qKS P) < 2 ^ 53" "unat (m_qKS P) * unat (m_q P) \<le> 2 ^ 53"
    and "has_phase Q (unat (m_N P)) u y ct"
  shows "\<exists>ct' z. LWE_SwitchCTtoqn lm P K ct = Inr ct' \<and> has_phase (m_q P) (unat (m_n P)) t z ct' \<and>
    \<bar>of_int z - of_int (y * iu (m_q P)) / of_int (iu Q)\<bar> \<le>
      (1 + secret_weight (unat (m_n P)) t) * round_err (unat (m_q P)) +
      of_int (iu (m_q P)) / of_int (iu (m_qKS P)) *
        (of_int (int (unat (m_N P) * D) * B) + (1 + secret_weight (unat (m_N P)) u) * round_err (unat (m_qKS P)))"
  by (rule LWE_SwitchCTtoqn_ok [OF assms])

text \<open>
  C40. The tests of \<open>Encrypt\<close> and \<open>Decrypt\<close> that the plaintext modulus divides the ciphertext modulus never throw: with
  the sizes that keep the sums from wrapping, every plaintext modulus \<open>p\<close> but zero, by which the test divides, is
  accepted, divisor or not, and decryption returns the rounded multiple \<open>p / q\<close> of the encoded message plus noise.
\<close>

theorem lwe_any_modulus:
  assumes "barrett_modulus q" "nv_ok sk" "GetLength sk = n" "n < 2 ^ 32" "(n + 2) * unat q < 2 ^ 64"
    and "0 < unat p" "unat p * 2 < 2 ^ 64" "unat p * unat q < 2 ^ 64"
    and "DUG_GenerateVector_modulus R (of_nat n) q s = Some (Inr ((a, g), s1))"
    and "DGG_GenerateInteger R (m_dgg P) q s1 = Some (Inr (y, s2))" "unat y < unat q"
  shows "LWE_Encrypt R P sk m 0 q s = Some (Inl DivideByZero) \<and> (\<exists>ct. LWE_Encrypt R P sk m p q s = Some (Inr (ct, s2)) \<and>
    LWE_Decrypt (Some sk) (Some ct) True p = Inr (decoded (iu q) (int (unat p)) (encoded m (unat p) (unat q) + iu y)))"
proof -
  have zero: "LWE_Encrypt R P sk m 0 q s = Some (Inl DivideByZero)" by (simp add: LWE_Encrypt_def modulus_check_def)
  obtain ct where ct: "LWE_Encrypt R P sk m p q s = Some (Inr (ct, s2))" "ct_p ct = p"
    "has_phase q n (secret sk) (encoded m (unat p) (unat q) + iu y) ct"
    by (rule LWE_Encrypt_ok [OF assms(1-6,9-11)])
  have "n * unat q < 2 ^ 64" using assms(5) by (simp add: algebra_simps)
  then show ?thesis using zero ct(1) LWE_Decrypt_ok [OF assms(1-3) _ ct(3) assms(6-8)] by blast
qed

theorem lwe_encrypt_decrypt_witness:
  "\<exists>g ct. DGG flat_libm 1 = Inr g \<and> LWE_Encrypt step_source (small_params g) (vec 1024 [1, 1023, 0]) 3 4 1024 0 = Some (Inr (ct, 3)) \<and>
    LWE_Decrypt (Some (vec 1024 [1, 1023, 0])) (Some ct) True 4 = Inr 3"
proof -
  obtain g where g: "DGG flat_libm 1 = Inr g" "DGG_GenerateInteger step_source g 1024 3 = Some (Inr (1014, 3))"
    using encrypt_example by (auto split: sum.splits)
  obtain a d where a: "DUG_GenerateVector_modulus step_source 3 1024 0 = Some (Inr ((a, d), 3))"
    using uniform_example by (auto split: option.splits sum.splits prod.splits)
  have "\<exists>ct. LWE_Encrypt step_source (small_params g) (vec 1024 [1, 1023, 0]) 3 4 1024 0 = Some (Inr (ct, 3)) \<and>
      LWE_Decrypt (Some (vec 1024 [1, 1023, 0])) (Some ct) True 4 = Inr 3"
    by (rule lwe_encrypt_decrypt [where n = 3 and a = a and g = d and e = "- 10" and y = 1014])
      (use a g in \<open>simp_all add: barrett_modulus_def small_params_def nv_ok_def reduced_def head_room_def GetLength_def\<close>)
  then show ?thesis using g(1) by blast
qed

theorem lwe_any_modulus_witness:
  "\<exists>g ct. DGG flat_libm 1 = Inr g \<and> LWE_Encrypt step_source (small_params g) (vec 1024 [1, 1023, 0]) 2 3 1024 0 = Some (Inr (ct, 3)) \<and>
    LWE_Decrypt (Some (vec 1024 [1, 1023, 0])) (Some ct) True 3 = Inr 2"
proof -
  obtain g where g: "DGG flat_libm 1 = Inr g" "DGG_GenerateInteger step_source g 1024 3 = Some (Inr (1014, 3))"
    using encrypt_example by (auto split: sum.splits)
  obtain a d where a: "DUG_GenerateVector_modulus step_source 3 1024 0 = Some (Inr ((a, d), 3))"
    using uniform_example by (auto split: option.splits sum.splits prod.splits)
  have e: "decoded (iu (1024 :: u64)) (int (unat (3 :: u64))) (encoded 2 (unat (3 :: u64)) (unat (1024 :: u64)) + iu (1014 :: u64)) = 2"
    by (simp add: decoded_def encoded_def)
  have "LWE_Encrypt step_source (small_params g) (vec 1024 [1, 1023, 0]) 2 0 1024 0 = Some (Inl DivideByZero) \<and>
      (\<exists>ct. LWE_Encrypt step_source (small_params g) (vec 1024 [1, 1023, 0]) 2 3 1024 0 = Some (Inr (ct, 3)) \<and>
      LWE_Decrypt (Some (vec 1024 [1, 1023, 0])) (Some ct) True 3 =
        Inr (decoded (iu (1024 :: u64)) (int (unat (3 :: u64))) (encoded 2 (unat (3 :: u64)) (unat (1024 :: u64)) + iu (1014 :: u64))))"
    by (rule lwe_any_modulus [where n = 3 and a = a and g = d and y = 1014])
      (use a g in \<open>simp_all add: barrett_modulus_def small_params_def nv_ok_def reduced_def head_room_def GetLength_def\<close>)
  then show ?thesis using g(1) unfolding e by blast
qed

theorem lwe_homomorphic_witness:
  "has_phase 1024 2 (\<lambda>_. 1) 88 \<lparr>ct_a = vec 1024 [5, 7], ct_b = 100, ct_p = 4\<rparr> \<and>
    (\<exists>ct. LWE_EvalAddEq \<lparr>ct_a = vec 1024 [5, 7], ct_b = 100, ct_p = 4\<rparr> \<lparr>ct_a = vec 1024 [5, 7], ct_b = 100, ct_p = 4\<rparr> = Inr ct \<and>
      has_phase 1024 2 (\<lambda>_. 1) 176 ct)"
proof -
  have p: "has_phase 1024 2 (\<lambda>_. 1) 88 \<lparr>ct_a = vec 1024 [5, 7], ct_b = 100, ct_p = 4\<rparr>"
    by (simp add: has_phase_def lwe_ok_def inner_def reduced_def lessThan_nat_numeral)
  have "barrett_modulus 1024" "unat (3 :: u64) < unat (1024 :: u64)" by (simp_all add: barrett_modulus_def)
  from conjunct1 [OF lwe_homomorphic [OF this(1) p p this(2)]] p show ?thesis by simp
qed

theorem lwe_key_switch_witness:
  "\<exists>g K s' ct' E. DGG step_libm 1 = Inr g \<and>
    LWE_KeySwitchGen counter_source step_libm (small_params g) (vec 16 [1]) (vec 64 [63]) 0 = Some (Inr (K, s')) \<and>
    LWE_KeySwitch step_libm (small_params g) K \<lparr>ct_a = vec 16 [3], ct_b = 9, ct_p = 4\<rparr> = Inr ct' \<and>
    \<bar>E\<bar> \<le> 26 \<and> has_phase 16 1 (secret (vec 16 [1])) (12 - E) ct'"
proof -
  obtain g where g: "DGG step_libm 1 = Inr g" "DGG_GenerateInteger counter_source g 16 0 = Some (Inr (6, 0))"
    using step_example by (auto split: sum.splits)
  let ?P = "small_params g"
  have std: "(1 :: rat) < KARNEY_THRESHOLD" by (simp add: KARNEY_THRESHOLD_def)
  have noise: "\<exists>w s'. DGG_GenerateInteger counter_source (m_ks_dgg ?P) (m_qKS ?P) s = Some (Inr (w, s'))" for s
    using counter_noise [OF DGG_peikert(1) [OF g(1) std] g(2), of s] by (simp add: small_params_def)
  have p: "has_phase (m_qKS ?P) (unat (m_N ?P)) (secret (vec 64 [63])) 12 \<lparr>ct_a = vec 16 [3], ct_b = 9, ct_p = 4\<rparr>"
    by (simp add: has_phase_def lwe_ok_def inner_def reduced_def secret_def centered_def small_params_def)
  have c: "barrett_modulus (m_qKS ?P)" "0 < unat (m_baseKS ?P)" "(unat (m_n ?P) + 1) * unat (m_qKS ?P) < 2 ^ 64"
    "nv_ok (vec 16 [1])" "GetLength (vec 16 [1]) = unat (m_n ?P)" "nv_ok (vec 64 [63])" "GetLength (vec 64 [63]) = unat (m_N ?P)"
    "digit_count step_libm (m_qKS ?P) (ucast (m_baseKS ?P)) = Inr 2" "unat (m_qKS ?P) \<le> unat (m_baseKS ?P) ^ 2"
    "unat (m_baseKS ?P) ^ 2 < 2 ^ 64" "DGG step_libm 1 = Inr (m_ks_dgg ?P)" "DGG_fin 1 < iu (m_qKS ?P)"
    using step_digits g(1) by (simp_all add: small_params_def barrett_modulus_def nv_ok_def reduced_def head_room_def GetLength_def flat_fin)
  note t = lwe_key_switch [OF c(1-11) std c(12)]
  obtain K s' where K: "LWE_KeySwitchGen counter_source step_libm ?P (vec 16 [1]) (vec 64 [63]) 0 = Some (Inr (K, s'))"
    using conjunct1 [OF t, rule_format, OF conjI, OF low_counter] noise by blast
  from conjunct2 [OF t, rule_format, OF conjI, OF K p] K g(1) show ?thesis by (fastforce simp: small_params_def flat_fin)
qed

theorem lwe_switch_modulus_and_key_witness:
  "\<exists>ct' z. LWE_SwitchCTtoqn step_libm (small_params no_gauss) trivial_key \<lparr>ct_a = vec 64 [10], ct_b = 30, ct_p = 4\<rparr> = Inr ct' \<and>
    has_phase 8 1 (\<lambda>_. 0) z ct' \<and> \<bar>of_int z - 20 * 8 / (64 :: rat)\<bar> < 2"
proof -
  let ?P = "small_params no_gauss"
  have p: "has_phase 64 (unat (m_N ?P)) (\<lambda>_. 1) 20 \<lparr>ct_a = vec 64 [10], ct_b = 30, ct_p = 4\<rparr>"
    by (simp add: has_phase_def lwe_ok_def inner_def reduced_def small_params_def)
  have "\<exists>ct' z. LWE_SwitchCTtoqn step_libm ?P trivial_key \<lparr>ct_a = vec 64 [10], ct_b = 30, ct_p = 4\<rparr> = Inr ct' \<and>
      has_phase (m_q ?P) (unat (m_n ?P)) (\<lambda>_. 0) z ct' \<and>
      \<bar>of_int z - of_int (20 * iu (m_q ?P)) / of_int (iu (64 :: u64))\<bar> \<le>
      (1 + secret_weight (unat (m_n ?P)) (\<lambda>_. 0)) * round_err (unat (m_q ?P)) +
      of_int (iu (m_q ?P)) / of_int (iu (m_qKS ?P)) *
        (of_int (int (unat (m_N ?P) * 2) * 0) + (1 + secret_weight (unat (m_N ?P)) (\<lambda>_. 1)) * round_err (unat (m_qKS ?P)))"
    by (rule lwe_switch_modulus_and_key [OF _ _ _ _ _ _ _ _ _ _ _ _ _ p])
      (use step_digits trivial_key_ok in \<open>simp_all add: small_params_def barrett_modulus_def\<close>)
  then obtain ct' z where "LWE_SwitchCTtoqn step_libm ?P trivial_key \<lparr>ct_a = vec 64 [10], ct_b = 30, ct_p = 4\<rparr> = Inr ct'"
    "has_phase 8 1 (\<lambda>_. 0) z ct'" "\<bar>of_int z - 160 / (64 :: rat)\<bar> \<le> round_err 8 + 8 / 16 * (2 * round_err 16)"
    by (auto simp: small_params_def weight_one)
  moreover have "round_err 8 + 8 / 16 * (2 * round_err 16) < 2" by (simp add: round_err_def)
  ultimately show ?thesis by (intro exI conjI) (assumption+, simp)
qed

end
