(* ===== verification/BigInt.thy ===== *)
theory BigInt
  imports NatInt Loops
begin

text \<open>
  Multi-precision integers of dynamic size (\<open>hal/bigintdyn/ubintdyn.h\<close> and \<open>ubintdyn.cpp\<close>) with
  64-bit limbs: the object keeps its limbs, least significant first, and the most significant bit. The limbs are
  kept without leading zero limbs; every operation is translated with its loops over the limbs and its shortcuts.
\<close>

section \<open>Definitions\<close>

type_synonym u16 = "16 word"

record ubint =
  m_MSB :: u32
  m_value :: "u64 list"

definition m_MaxLimb :: u64 where
  "m_MaxLimb = - 1"

subsection \<open>Normal form and construction\<close>

fun drop_zero_limbs :: "u64 list \<Rightarrow> u64 list" where
  "drop_zero_limbs v = (if 1 < length v \<and> last v = 0 then drop_zero_limbs (butlast v) else v)"

declare drop_zero_limbs.simps [simp del]

definition SetMSB :: "u64 list \<Rightarrow> u32" where
  "SetMSB v = 64 * of_nat (length v - 1) + GetMSB (last v)"

definition NormalizeLimbs :: "u64 list \<Rightarrow> ubint" where
  "NormalizeLimbs v = (let w = drop_zero_limbs v in \<lparr>m_MSB = SetMSB w, m_value = w\<rparr>)"

definition ubint_default :: ubint where
  "ubint_default = \<lparr>m_MSB = 0, m_value = [0]\<rparr>"

definition ubint_of_limb :: "u64 \<Rightarrow> ubint" where
  "ubint_of_limb val = \<lparr>m_MSB = GetMSB val, m_value = [val]\<rparr>"

definition MSBToLimbs :: "u32 \<Rightarrow> u32" where
  "MSBToLimbs msb = (if msb = 0 then 1 else drop_bit 6 msb + (if msb AND 63 \<noteq> 0 then 1 else 0))"

subsection \<open>Comparison\<close>

text \<open>
  Limbs are compared from the top. Objects with the same most significant bit have the same number of limbs, so
  the other object has every limb that is read.
\<close>

fun compare_limbs :: "nat \<Rightarrow> u64 list \<Rightarrow> u64 list \<Rightarrow> int" where
  "compare_limbs 0 v w = 0"
| "compare_limbs (Suc i) v w = (if v ! i < w ! i then - 1 else if v ! i > w ! i then 1 else compare_limbs i v w)"

definition Big_Compare :: "ubint \<Rightarrow> ubint \<Rightarrow> int" where
  "Big_Compare x a =
     (if m_MSB x < m_MSB a then - 1 else if m_MSB x > m_MSB a then 1
      else compare_limbs (length (m_value x)) (m_value x) (m_value a))"

definition big_less :: "ubint \<Rightarrow> ubint \<Rightarrow> bool" where
  "big_less x a \<longleftrightarrow> Big_Compare x a < 0"

definition big_le :: "ubint \<Rightarrow> ubint \<Rightarrow> bool" where
  "big_le x a \<longleftrightarrow> Big_Compare x a \<le> 0"

subsection \<open>Addition and subtraction\<close>

text \<open>\<open>c += av + bv; r[i] = c; c >>= 64\<close> over the limbs of the longer operand.\<close>

fun add_limbs :: "u128 \<Rightarrow> u64 list \<Rightarrow> u64 list \<Rightarrow> u64 list" where
  "add_limbs c [] B = [ucast c]"
| "add_limbs c (av # A) B =
     (let c = c + (ucast av + (case B of [] \<Rightarrow> 0 | bv # _ \<Rightarrow> ucast bv))
      in ucast c # add_limbs (drop_bit 64 c) A (tl B))"

definition Big_Add :: "ubint \<Rightarrow> ubint \<Rightarrow> ubint" where
  "Big_Add x b =
     (let (A, B) = (if length (m_value x) < length (m_value b) then (b, x) else (x, b))
      in if m_MSB B = 0 then A else NormalizeLimbs (add_limbs 0 (m_value A) (m_value B)))"

definition Big_AddEq :: "ubint \<Rightarrow> ubint \<Rightarrow> ubint" where
  "Big_AddEq x b =
     (let (A, B) = (if length (m_value x) < length (m_value b) then (b, x) else (x, b))
      in if m_MSB B = 0 then A else NormalizeLimbs (add_limbs 0 (m_value A) (m_value B)))"

text \<open>\<open>while (0 == r[++cntr]) r[cntr] = max; r[cntr]--\<close>, entered with the incremented counter.\<close>

function borrow :: "u64 list \<Rightarrow> nat \<Rightarrow> u64 list res" where
  "borrow r cntr =
     (if cntr \<ge> length r then Inl OutOfRange
      else if r ! cntr = 0 then borrow (r[cntr := m_MaxLimb]) (cntr + 1)
      else Inr (r[cntr := r ! cntr - 1]))"
  by pat_completeness auto
termination by (relation "measure (\<lambda>(r, cntr). length r - cntr)") auto

declare borrow.simps [simp del]

definition sub_limb :: "u64 list \<Rightarrow> nat \<Rightarrow> u64 list \<Rightarrow> u64 list res" where
  "sub_limb b i r = ebind (get_at r i) (\<lambda>ri. ebind (get_at b i) (\<lambda>bi.
     if ri < bi then borrow (r[i := ri + ((m_MaxLimb - bi) + 1)]) (i + 1)
     else Inr (r[i := ri - bi])))"

definition Big_Sub :: "ubint \<Rightarrow> ubint \<Rightarrow> ubint res" where
  "Big_Sub x b =
     (if big_le x b then Inr ubint_default
      else ebind (efor 0 (length (m_value b)) (sub_limb (m_value b)) (m_value x)) (\<lambda>r. Inr (NormalizeLimbs r)))"

definition Big_SubEq :: "ubint \<Rightarrow> ubint \<Rightarrow> ubint res" where
  "Big_SubEq x b =
     (if big_le x b then Inr \<lparr>m_MSB = 0, m_value = [0]\<rparr>
      else ebind (efor 0 (length (m_value b)) (sub_limb (m_value b)) (m_value x)) (\<lambda>r. Inr (NormalizeLimbs r)))"

subsection \<open>Multiplication\<close>

text \<open>\<open>c[i + j] = (ofl += limbb * A[j]); ofl >>= 64\<close>\<close>

fun mul_limbs :: "u128 \<Rightarrow> u64 \<Rightarrow> u64 list \<Rightarrow> u64 list" where
  "mul_limbs ofl limbb [] = [ucast ofl]"
| "mul_limbs ofl limbb (av # A) =
     (let ofl = ofl + ucast limbb * ucast av in ucast ofl # mul_limbs (drop_bit 64 ofl) limbb A)"

definition mul_rows :: "u64 list \<Rightarrow> u64 list \<Rightarrow> ubint" where
  "mul_rows A B = for_range 0 (length B) (\<lambda>i ans.
     Big_Add ans (NormalizeLimbs (replicate i 0 @ mul_limbs 0 (B ! i) A))) ubint_default"

definition Big_Mul :: "ubint \<Rightarrow> ubint \<Rightarrow> ubint" where
  "Big_Mul x b =
     (if m_MSB x = 0 \<or> m_MSB b = 0 then ubint_default
      else if m_MSB b = 1 then x
      else if m_MSB x = 1 then b
      else let (A, B) = (if length (m_value x) < length (m_value b) then (b, x) else (x, b))
        in mul_rows (m_value A) (m_value B))"

definition Big_MulEq :: "ubint \<Rightarrow> ubint \<Rightarrow> ubint" where
  "Big_MulEq x b = Big_Mul x b"

fun Big_Exp :: "ubint \<Rightarrow> nat \<Rightarrow> ubint" where
  "Big_Exp x p =
     (if p = 0 then ubint_of_limb 1
      else if p = 1 then x
      else let tmp = Big_Exp x (p div 2); tmp = Big_Mul tmp tmp
        in if odd p then Big_Mul tmp x else tmp)"

declare Big_Exp.simps [simp del]

subsection \<open>Shifts\<close>

text \<open>
  \<open>ofl |= v << shift; v = ofl; ofl >>= 64\<close> over the limbs; the last carry is returned too. The shift to the right is
  the same loop with the complementary shift, entered with the rest of the lowest limb.
\<close>

fun carry_limbs :: "nat \<Rightarrow> u128 \<Rightarrow> u64 list \<Rightarrow> u64 list \<times> u128" where
  "carry_limbs sl ofl [] = ([], ofl)"
| "carry_limbs sl ofl (v # vs) =
     (let ofl = ofl OR push_bit sl (ucast v); (ws, out) = carry_limbs sl (drop_bit 64 ofl) vs in (ucast ofl # ws, out))"

definition Big_LShift :: "ubint \<Rightarrow> u16 \<Rightarrow> ubint" where
  "Big_LShift x shift =
     (if m_MSB x = 0 then ubint_default
      else let shiftByLimb = unat (drop_bit 6 shift); sl = unat (shift AND 63);
             (ws, ofl) = (if sl \<noteq> 0 then carry_limbs sl 0 (m_value x) else (m_value x, 0));
             ws = (if sl \<noteq> 0 \<and> ofl \<noteq> 0 then ws @ [ucast ofl] else ws)
        in \<lparr>m_MSB = m_MSB x + ucast shift, m_value = replicate shiftByLimb 0 @ ws\<rparr>)"

definition Big_LShiftEq :: "ubint \<Rightarrow> u16 \<Rightarrow> ubint" where
  "Big_LShiftEq x shift =
     (if m_MSB x = 0 then x
      else let shiftByLimb = unat (drop_bit 6 shift); sl = unat (shift AND 63);
             (ws, ofl) = (if sl \<noteq> 0 then carry_limbs sl 0 (m_value x) else (m_value x, 0));
             ws = (if sl \<noteq> 0 \<and> ofl \<noteq> 0 then ws @ [ucast ofl] else ws)
        in \<lparr>m_MSB = m_MSB x + ucast shift, m_value = replicate shiftByLimb 0 @ ws\<rparr>)"

definition Big_RShift :: "ubint \<Rightarrow> u16 \<Rightarrow> ubint res" where
  "Big_RShift x shift =
     (if m_MSB x \<le> ucast shift then Inr (ubint_of_limb 0)
      else let shiftByLimb = unat (drop_bit 6 shift); sr = unat (shift AND 63)
        in ebind (get_at (m_value x) shiftByLimb) (\<lambda>v.
          let (ws, tmp) = carry_limbs (64 - sr) (ucast (drop_bit sr v)) (drop (shiftByLimb + 1) (m_value x));
              ws = (if tmp \<noteq> 0 then ws @ [ucast tmp] else ws)
          in Inr \<lparr>m_MSB = m_MSB x - ucast shift, m_value = ws\<rparr>))"

definition Big_RShiftEq :: "ubint \<Rightarrow> u16 \<Rightarrow> ubint res" where
  "Big_RShiftEq x shift =
     (if m_MSB x \<le> ucast shift then Inr \<lparr>m_MSB = 0, m_value = [0]\<rparr>
      else let shiftByLimb = unat (drop_bit 6 shift); sr = unat (shift AND 63)
        in ebind (get_at (m_value x) shiftByLimb) (\<lambda>v.
          let (ws, tmp) = carry_limbs (64 - sr) (ucast (drop_bit sr v)) (drop (shiftByLimb + 1) (m_value x));
              ws = (if tmp \<noteq> 0 then ws @ [ucast tmp] else ws)
          in Inr \<lparr>m_MSB = m_MSB x - ucast shift, m_value = ws\<rparr>))"

subsection \<open>Division: Knuth's Algorithm D\<close>

text \<open>
  A divisor of one limb: \<open>ofl = (ofl << 64) | u[i]; q[i] = ofl / v0; ofl %= v0\<close> from the top limb down. The
  limbs are given and returned from the top.
\<close>

fun div_limb :: "u64 \<Rightarrow> u128 \<Rightarrow> u64 list \<Rightarrow> u64 list \<times> u128" where
  "div_limb v0 ofl [] = ([], ofl)"
| "div_limb v0 ofl (u # us) =
     (let ofl = push_bit 64 ofl OR ucast u; (qs, out) = div_limb v0 (ofl mod ucast v0) us in (ucast (ofl div ucast v0) # qs, out))"

text \<open>
  The correction of the quotient digit: \<open>while ((qhat >> 64) || qhat * vn[n-2] > ((rhat << 64) | un[j+n-2]))\<close>.
  It ends because \<open>qhat\<close> decreases and the condition is false for zero.
\<close>

function qhat_loop :: "u64 \<Rightarrow> u64 \<Rightarrow> u64 \<Rightarrow> u128 \<Rightarrow> u128 \<Rightarrow> u128" where
  "qhat_loop v1 v2 u2 qhat rhat =
     (if drop_bit 64 qhat \<noteq> 0 \<or> qhat * ucast v2 > (push_bit 64 rhat OR ucast u2)
      then let qhat = qhat - 1; rhat = rhat + ucast v1
        in if drop_bit 64 rhat \<noteq> 0 then qhat else qhat_loop v1 v2 u2 qhat rhat
      else qhat)"
  by pat_completeness auto
termination
proof (relation "measure (\<lambda>(v1, v2, u2, qhat, rhat). unat qhat)", goal_cases)
  case (2 v1 v2 u2 qhat rhat x xa)
  then have "qhat \<noteq> 0" by auto
  then have "unat (qhat - 1) < unat qhat" by (simp add: unat_gt_0 unat_minus_one)
  then show ?case using 2 by simp
qed simp

declare qhat_loop.simps [simp del]

text \<open>The inner loops: subtraction of \<open>qhat * vn\<close>, and the addition that undoes one subtraction too many.\<close>

fun mul_sub :: "u128 \<Rightarrow> u128 \<Rightarrow> u64 list \<Rightarrow> u64 list \<Rightarrow> u64 list \<times> u128" where
  "mul_sub qhat k (u # us) (v # vs) =
     (let p = qhat * ucast v; t = ucast u - k - (p AND ucast m_MaxLimb); k = drop_bit 64 p - signed_drop_bit 64 t;
          (ws, k) = mul_sub qhat k us vs
      in (ucast t # ws, k))"
| "mul_sub qhat k us vs = ([], k)"

fun add_back :: "u128 \<Rightarrow> u64 list \<Rightarrow> u64 list \<Rightarrow> u64 list \<times> u128" where
  "add_back k (u # us) (v # vs) =
     (let t = ucast u + ucast v + k; (ws, k) = add_back (signed_drop_bit 64 t) us vs in (ucast t # ws, k))"
| "add_back k us vs = ([], k)"

text \<open>
  One pass of the main loop works on the window \<open>un[j .. j+n]\<close>: the digit estimated from the top limbs, the
  subtraction of its multiple of the divisor, and the correction when the result is negative.
\<close>

definition guess_digit :: "u64 list \<Rightarrow> u64 list \<Rightarrow> u128" where
  "guess_digit vn w =
     (let n = length vn; ofl = push_bit 64 (ucast (w ! n)) OR ucast (w ! (n - 1))
      in qhat_loop (vn ! (n - 1)) (vn ! (n - 2)) (w ! (n - 2)) (ofl div ucast (vn ! (n - 1))) (ofl mod ucast (vn ! (n - 1))))"

definition reduce_window :: "u64 list \<Rightarrow> u64 list \<Rightarrow> u64 \<times> u64 list" where
  "reduce_window vn w =
     (let n = length vn; qhat = guess_digit vn w;
          (ws, k) = mul_sub qhat 0 (take n w) vn;
          t = ucast (w ! n) - k :: u128
      in if sint t < 0
         then let (zs, k) = add_back 0 ws vn in (ucast qhat - 1, zs @ [ucast t + ucast k])
         else (ucast qhat, ws @ [ucast t]))"

definition div_step :: "u64 list \<Rightarrow> nat \<Rightarrow> u64 list \<times> u64 list \<Rightarrow> u64 list \<times> u64 list" where
  "div_step vn j st =
     (let (q, un) = st; n = length vn; (qj, w) = reduce_window vn (take (n + 1) (drop j un))
      in (q[j := qj], take j un @ w @ drop (j + n + 1) un))"

text \<open>The operands shifted so that the top limb of the divisor has its high bit set.\<close>

definition norm_shift :: "u64 list \<Rightarrow> nat" where
  "norm_shift v = 64 - unat (GetMSB (last v))"

definition knuth_loop :: "u64 list \<Rightarrow> u64 list \<Rightarrow> u64 list \<times> u64 list" where
  "knuth_loop u v =
     (let m = length u; n = length v; sl = norm_shift v;
          vn = fst (carry_limbs sl 0 v);
          (us, ofl) = carry_limbs sl 0 u
      in fold (div_step vn) (rev [0..<m - n + 1]) (replicate (m - n + 1) 0, us @ [ucast ofl]))"

definition shift_remainder :: "u64 list \<Rightarrow> u64 list \<Rightarrow> u64 list" where
  "shift_remainder v un =
     (let n = length v; sl = norm_shift v
      in fst (carry_limbs (64 - sl) (ucast (drop_bit sl (un ! 0))) (take (n - 1) (tl un))) @ [drop_bit sl (un ! (n - 1))])"

text \<open>
  The sizes that the callers guarantee: a quotient vector of negative length cannot be allocated, and a divisor
  whose top limb is zero divides by zero.
\<close>

definition div_guard :: "u64 list \<Rightarrow> u64 list \<Rightarrow> unit res" where
  "div_guard u v = (if length u < length v then Inl OutOfRange else if last v = 0 then Inl DivideByZero else Inr ())"

definition divqr_vect :: "ubint \<Rightarrow> ubint \<Rightarrow> (ubint \<times> ubint) res" where
  "divqr_vect uin vin = (let u = m_value uin; v = m_value vin in
     ebind (div_guard u v) (\<lambda>_.
       if length v = 1
       then let (qs, ofl) = div_limb (v ! 0) 0 (rev u)
         in Inr (NormalizeLimbs (rev qs), \<lparr>m_MSB = GetMSB (ucast ofl), m_value = [ucast ofl]\<rparr>)
       else let (q, un) = knuth_loop u v in Inr (NormalizeLimbs q, NormalizeLimbs (shift_remainder v un))))"

definition divq_vect :: "ubint \<Rightarrow> ubint \<Rightarrow> ubint res" where
  "divq_vect uin vin = (let u = m_value uin; v = m_value vin in
     ebind (div_guard u v) (\<lambda>_.
       if length v = 1 then Inr (NormalizeLimbs (rev (fst (div_limb (v ! 0) 0 (rev u)))))
       else Inr (NormalizeLimbs (fst (knuth_loop u v)))))"

definition divr_vect :: "ubint \<Rightarrow> ubint \<Rightarrow> ubint res" where
  "divr_vect uin vin = (let u = m_value uin; v = m_value vin in
     ebind (div_guard u v) (\<lambda>_.
       if length v = 1
       then let ofl = snd (div_limb (v ! 0) 0 (rev u)) in Inr \<lparr>m_MSB = GetMSB (ucast ofl), m_value = [ucast ofl]\<rparr>
       else Inr (NormalizeLimbs (shift_remainder v (snd (knuth_loop u v))))))"

definition Big_DividedBy :: "ubint \<Rightarrow> ubint \<Rightarrow> ubint res" where
  "Big_DividedBy x b =
     (if m_MSB b = 0 then Inl (OpenFHEError ''Divisor is zero'')
      else if m_MSB b > m_MSB x then Inr ubint_default
      else if m_MSB b = m_MSB x \<and> last (m_value b) = last (m_value x) then Inr (ubint_of_limb 1)
      else divq_vect x b)"

definition Big_DividedByEq :: "ubint \<Rightarrow> ubint \<Rightarrow> ubint res" where
  "Big_DividedByEq x b =
     (if m_MSB b = 0 then Inl (OpenFHEError ''Divisor is zero'')
      else if m_MSB b > m_MSB x then Inr \<lparr>m_MSB = 0, m_value = [0]\<rparr>
      else if m_MSB b = m_MSB x \<and> last (m_value b) = last (m_value x) then Inr \<lparr>m_MSB = 1, m_value = [1]\<rparr>
      else divq_vect x b)"

definition Big_MultiplyAndRound :: "ubint \<Rightarrow> ubint \<Rightarrow> ubint \<Rightarrow> ubint res" where
  "Big_MultiplyAndRound x p q =
     (if m_MSB q = 0 then Inl (OpenFHEError ''MultiplyAndRound() Divisor is zero'')
      else let t = Big_Mul x p in ebind (Big_RShift q 1) (\<lambda>halfQ.
        if big_le t halfQ then Inr ubint_default
        else if m_MSB t = m_MSB halfQ \<or> m_MSB t = m_MSB q \<and> last (m_value t) < last (m_value q) then Inr (ubint_of_limb 1)
        else ebind (divqr_vect t q) (\<lambda>(ans, rv). Inr (if big_less halfQ rv then Big_Add ans (ubint_of_limb 1) else ans))))"

definition Big_DivideAndRound :: "ubint \<Rightarrow> ubint \<Rightarrow> ubint res" where
  "Big_DivideAndRound x q =
     (if m_MSB q = 0 then Inl (OpenFHEError ''DivideAndRound() Divisor is zero'')
      else ebind (Big_RShift q 1) (\<lambda>halfQ.
        if big_le x halfQ then Inr ubint_default
        else if m_MSB x = m_MSB halfQ \<or> m_MSB x = m_MSB q \<and> last (m_value x) < last (m_value q) then Inr (ubint_of_limb 1)
        else ebind (divqr_vect x q) (\<lambda>(ans, rv). Inr (if big_less halfQ rv then Big_Add ans (ubint_of_limb 1) else ans))))"

subsection \<open>Strings and bits\<close>

text \<open>Bits count from one; \<open>MSBToLimbs\<close> finds the limb. Objects in normal form have the limb that is read.\<close>

definition Big_GetBitAtIndex :: "ubint \<Rightarrow> u32 \<Rightarrow> u64" where
  "Big_GetBitAtIndex x index =
     (if index > m_MSB x then 0
      else let idx = unat (MSBToLimbs index - 1); i = index AND 63
        in drop_bit (if i \<noteq> 0 then unat (i - 1) else 63) (m_value x ! idx) AND 1)"

fun dbl_digits :: "nat \<Rightarrow> nat list \<Rightarrow> nat list" where
  "dbl_digits ofl [] = (if ofl \<noteq> 0 then [1] else [])"
| "dbl_digits ofl (a # as) = (let a = 2 * a + ofl in if a > 9 then (a - 10) # dbl_digits 1 as else a # dbl_digits 0 as)"

definition Big_ToString :: "ubint \<Rightarrow> string" where
  "Big_ToString x = map (\<lambda>a. char_of (48 + a)) (rev
     (fold (\<lambda>i. dbl_digits (unat (Big_GetBitAtIndex x (of_nat i)))) (rev [1..<unat (m_MSB x) + 1]) [0]))"

text \<open>
  Decimal input is halved in place, from the first digit that is not zero: each digit receives ten when the one
  before it is odd. Characters are signed; one below the digits stays negative and the loop does not end.
\<close>

fun halve_digits :: "u8 \<Rightarrow> u8 list \<Rightarrow> u8 list" where
  "halve_digits c [] = []"
| "halve_digits c (d # ds) = (let d = d + c in signed_drop_bit 1 d # halve_digits ((d AND 1) * 10) ds)"

partial_function (option) Big_SetValue_loop :: "u8 list \<Rightarrow> nat \<Rightarrow> u64 \<Rightarrow> u64 list \<Rightarrow> u64 list option" where
  "Big_SetValue_loop ds cnt val limbs =
     (if ds = [] then Some limbs
      else let val = val OR push_bit cnt (ucast (last ds AND 1)); cnt = cnt + 1;
             ds = halve_digits 0 ds; ds = (if hd ds = 0 then tl ds else ds)
        in if cnt = 64 \<or> ds = [] then Big_SetValue_loop ds 0 0 (limbs @ [val]) else Big_SetValue_loop ds cnt val limbs)"

definition Big_SetValue :: "string \<Rightarrow> ubint option" where
  "Big_SetValue vin =
     (let v = dropWhile (\<lambda>c. c = CHR ''0'') vin; v = (if v = [] then ''0'' else v)
      in map_option NormalizeLimbs (Big_SetValue_loop (map (\<lambda>c. of_nat (of_char c) - 48) v) 0 0 []))"

text \<open>Binary input in chunks of a limb, from the end; \<open>std::stoi\<close> of one character throws unless it is a digit.\<close>

fun bits_value :: "string \<Rightarrow> u128 \<Rightarrow> u128 res" where
  "bits_value [] acc = Inr acc"
| "bits_value (c # cs) acc =
     (if char_minus_0 c < 0 \<or> char_minus_0 c > 9 then Inl (OpenFHEError ''stoi'')
      else bits_value cs (push_bit 1 (acc + word_of_int (char_minus_0 c))))"

definition Big_FromBinaryString :: "string \<Rightarrow> ubint res" where
  "Big_FromBinaryString vin =
     (let v = dropWhile (\<lambda>c. c = CHR ''0'') vin; len = length v
      in if len = 0 then Inr ubint_default
         else ebind (emap (\<lambda>i.
             let val = (if len > (i + 1) * 64 then take 64 (drop (len - (i + 1) * 64) v) else take (len mod 64) v)
             in ebind (bits_value val 0) (\<lambda>p. Inr (ucast (drop_bit 1 p)))) [0..<unat (MSBToLimbs (of_nat len))]) (\<lambda>limbs.
           Inr \<lparr>m_MSB = SetMSB limbs, m_value = limbs\<rparr>))"

text \<open>The conversion to a 64-bit integer takes the lowest limb; the negation is always zero.\<close>

definition Big_ConvertToInt :: "ubint \<Rightarrow> u64" where
  "Big_ConvertToInt x = hd (m_value x)"

definition Big_negate :: "ubint \<Rightarrow> ubint" where
  "Big_negate x = ubint_default"

definition Big_SetIdentity :: ubint where
  "Big_SetIdentity = \<lparr>m_MSB = 1, m_value = [1]\<rparr>"

subsection \<open>Modular arithmetic\<close>

definition Big_Mod :: "ubint \<Rightarrow> ubint \<Rightarrow> ubint res" where
  "Big_Mod x modulus =
     (if m_MSB modulus = 0 then Inl (OpenFHEError ''Mod() using zero modulus'')
      else if big_less x modulus then Inr x
      else if m_MSB modulus = 2 \<and> hd (m_value modulus) = 2 then Inr (ubint_of_limb (hd (m_value x) AND 1))
      else divr_vect x modulus)"

definition Big_ModEq :: "ubint \<Rightarrow> ubint \<Rightarrow> ubint res" where
  "Big_ModEq x modulus =
     (if m_MSB modulus = 0 then Inl (OpenFHEError ''Mod() using zero modulus'')
      else if big_less x modulus then Inr x
      else if m_MSB modulus = 2 \<and> hd (m_value modulus) = 2
      then let v = hd (m_value x) AND 1 in Inr \<lparr>m_MSB = ucast v, m_value = [v]\<rparr>
      else divr_vect x modulus)"

definition Big_ComputeMu :: "ubint \<Rightarrow> ubint res" where
  "Big_ComputeMu x = Big_DividedBy (Big_LShift (ubint_of_limb 1) (ucast (2 * m_MSB x + 3))) x"

text \<open>The overloads with a Barrett constant ignore it for limbs narrower than the double limb.\<close>

definition Big_Mod_mu :: "ubint \<Rightarrow> ubint \<Rightarrow> ubint \<Rightarrow> ubint res" where
  "Big_Mod_mu x modulus mu = Big_Mod x modulus"

definition Big_ModEq_mu :: "ubint \<Rightarrow> ubint \<Rightarrow> ubint \<Rightarrow> ubint res" where
  "Big_ModEq_mu x modulus mu = Big_ModEq x modulus"

definition big_reduce :: "ubint \<Rightarrow> ubint \<Rightarrow> ubint res" where
  "big_reduce x modulus = (if \<not> big_less x modulus then Big_ModEq x modulus else Inr x)"

definition Big_ModAdd :: "ubint \<Rightarrow> ubint \<Rightarrow> ubint \<Rightarrow> ubint res" where
  "Big_ModAdd x b modulus = ebind (big_reduce b modulus) (\<lambda>bv. ebind (big_reduce x modulus) (\<lambda>av.
     let av = Big_Add av bv in if \<not> big_less av modulus then Big_Sub av modulus else Inr av))"

definition Big_ModAddEq :: "ubint \<Rightarrow> ubint \<Rightarrow> ubint \<Rightarrow> ubint res" where
  "Big_ModAddEq x b modulus = ebind (big_reduce b modulus) (\<lambda>bv. ebind (big_reduce x modulus) (\<lambda>av.
     let av = Big_Add bv av in if \<not> big_less av modulus then Big_SubEq av modulus else Inr av))"

definition Big_ModAddFast :: "ubint \<Rightarrow> ubint \<Rightarrow> ubint \<Rightarrow> ubint res" where
  "Big_ModAddFast x b modulus = (let ans = Big_Add b x in if \<not> big_less ans modulus then Big_Sub ans modulus else Inr ans)"

definition Big_ModAddFastEq :: "ubint \<Rightarrow> ubint \<Rightarrow> ubint \<Rightarrow> ubint res" where
  "Big_ModAddFastEq x b modulus = (let ans = Big_Add b x in if \<not> big_less ans modulus then Big_SubEq ans modulus else Inr ans)"

definition Big_ModSub :: "ubint \<Rightarrow> ubint \<Rightarrow> ubint \<Rightarrow> ubint res" where
  "Big_ModSub x b modulus = ebind (big_reduce b modulus) (\<lambda>bv. ebind (big_reduce x modulus) (\<lambda>av.
     Big_Sub (if big_less av bv then Big_Add modulus av else av) bv))"

definition Big_ModSubEq :: "ubint \<Rightarrow> ubint \<Rightarrow> ubint \<Rightarrow> ubint res" where
  "Big_ModSubEq x b modulus = ebind (big_reduce b modulus) (\<lambda>bv. ebind (big_reduce x modulus) (\<lambda>av.
     Big_SubEq (if big_less av bv then Big_Add modulus av else av) bv))"

definition Big_ModSubFast :: "ubint \<Rightarrow> ubint \<Rightarrow> ubint \<Rightarrow> ubint res" where
  "Big_ModSubFast x b modulus = (if big_less x b then Big_Sub (Big_Add modulus x) b else Big_Sub x b)"

definition Big_ModSubFastEq :: "ubint \<Rightarrow> ubint \<Rightarrow> ubint \<Rightarrow> ubint res" where
  "Big_ModSubFastEq x b modulus = (if big_less x b then Big_Sub (Big_Add modulus x) b else Big_SubEq x b)"

text \<open>The early returns do not reduce.\<close>

definition Big_ModMulFast :: "ubint \<Rightarrow> ubint \<Rightarrow> ubint \<Rightarrow> ubint res" where
  "Big_ModMulFast x b modulus =
     (if m_MSB x = 0 \<or> m_MSB b = 0 then Inr ubint_default
      else if m_MSB b = 1 then Inr x
      else if m_MSB x = 1 then Inr b
      else let (A, B) = (if length (m_value x) < length (m_value b) then (b, x) else (x, b));
               ans = mul_rows (m_value A) (m_value B)
        in if \<not> big_less ans modulus then Big_Mod ans modulus else Inr ans)"

definition Big_ModMul :: "ubint \<Rightarrow> ubint \<Rightarrow> ubint \<Rightarrow> ubint res" where
  "Big_ModMul x b modulus = ebind (big_reduce b modulus) (\<lambda>bv. ebind (big_reduce x modulus) (\<lambda>av. Big_ModMulFast av bv modulus))"

definition Big_ModMulEq :: "ubint \<Rightarrow> ubint \<Rightarrow> ubint \<Rightarrow> ubint res" where
  "Big_ModMulEq x b modulus = ebind (big_reduce b modulus) (\<lambda>bv. ebind (big_reduce x modulus) (\<lambda>av. Big_ModMulFast bv av modulus))"

definition Big_ModMul_mu :: "ubint \<Rightarrow> ubint \<Rightarrow> ubint \<Rightarrow> ubint \<Rightarrow> ubint res" where
  "Big_ModMul_mu x b modulus mu = ebind (big_reduce b modulus) (\<lambda>bv. ebind (big_reduce x modulus) (\<lambda>av.
     Big_Mod_mu (Big_Mul av bv) modulus mu))"

definition Big_ModMulFast_mu :: "ubint \<Rightarrow> ubint \<Rightarrow> ubint \<Rightarrow> ubint \<Rightarrow> ubint res" where
  "Big_ModMulFast_mu x b modulus mu = Big_Mod_mu (Big_Mul b x) modulus mu"

text \<open>The extended Euclidean algorithm: quotients on the way down, the cofactor on the way back.\<close>

partial_function (option) north :: "ubint \<Rightarrow> ubint \<Rightarrow> ubint list \<Rightarrow> ubint list res option" where
  "north second mod_back quots =
     (if m_MSB mod_back = 1 then Some (Inr quots)
      else case divqr_vect second mod_back of Inl e \<Rightarrow> Some (Inl e) | Inr (q, r) \<Rightarrow> north mod_back r (quots @ [q]))"

definition south :: "ubint list \<Rightarrow> ubint" where
  "south quots = snd (fold (\<lambda>q (first, second). (second, Big_Add (Big_Mul q second) first)) (rev quots)
     (ubint_default, ubint_of_limb 1))"

definition Big_ModInverse :: "ubint \<Rightarrow> ubint \<Rightarrow> ubint res option" where
  "Big_ModInverse x modulus =
     (if m_MSB x = 0 then Some (Inl (OpenFHEError ''Zero has no inverse''))
      else case (if \<not> big_less x modulus then Big_Mod x modulus else Inr x) of Inl e \<Rightarrow> Some (Inl e)
      | Inr second \<Rightarrow> if m_MSB second = 1 then Some (Inr second)
        else case divqr_vect modulus second of Inl e \<Rightarrow> Some (Inl e)
        | Inr (q, mod_back) \<Rightarrow>
            if m_MSB mod_back = 0
            then Some (Inl (OpenFHEError (Big_ToString x @ '' does not have a ModInverse using '' @ Big_ToString modulus)))
            else case north second mod_back [q] of None \<Rightarrow> None | Some (Inl e) \<Rightarrow> Some (Inl e)
            | Some (Inr quots) \<Rightarrow> Some (if odd (length quots) then Big_Sub modulus (south quots) else Inr (south quots)))"

text \<open>Square and multiply; the exponent is halved by the shift.\<close>

partial_function (option) Big_ModExp_loop :: "ubint \<Rightarrow> ubint \<Rightarrow> ubint \<Rightarrow> ubint \<Rightarrow> ubint res option" where
  "Big_ModExp_loop modulus t p r =
     (case Big_RShiftEq p 1 of Inl e \<Rightarrow> Some (Inl e)
      | Inr p \<Rightarrow> if m_MSB p = 0 then Some (Inr r)
        else case Big_ModMulFast t t modulus of Inl e \<Rightarrow> Some (Inl e)
        | Inr t \<Rightarrow> case (if hd (m_value p) AND 1 \<noteq> 0 then Big_ModMulFast r t modulus else Inr r) of Inl e \<Rightarrow> Some (Inl e)
          | Inr r \<Rightarrow> Big_ModExp_loop modulus t p r)"

definition Big_ModExp :: "ubint \<Rightarrow> ubint \<Rightarrow> ubint \<Rightarrow> ubint res option" where
  "Big_ModExp x b modulus =
     (case Big_Mod x modulus of Inl e \<Rightarrow> Some (Inl e)
      | Inr t \<Rightarrow> case (if hd (m_value b) AND 1 \<noteq> 0 then Big_ModMulFast (ubint_of_limb 1) t modulus else Inr (ubint_of_limb 1)) of
          Inl e \<Rightarrow> Some (Inl e)
        | Inr r \<Rightarrow> Big_ModExp_loop modulus t b r)"

end
