(* ===== verification/BigIntSem.thy ===== *)
theory BigIntSem
  imports BigInt NumFacts
begin

text \<open>
  The number that a list of limbs spells, the well-formed objects that stand for a number, and the arithmetic of
  the objects as arithmetic of the numbers: comparison, addition, subtraction, multiplication, shifts.
\<close>

section \<open>Facts\<close>

subsection \<open>The value of a list of limbs\<close>

fun lval :: "u64 list \<Rightarrow> nat" where
  "lval [] = 0"
| "lval (v # vs) = unat v + 2 ^ 64 * lval vs"

definition normal :: "u64 list \<Rightarrow> bool" where
  "normal v \<longleftrightarrow> v \<noteq> [] \<and> (1 < length v \<longrightarrow> last v \<noteq> 0)"

definition big_val :: "ubint \<Rightarrow> nat" where
  "big_val x = lval (m_value x)"

text \<open>Sizes whose bit length fits the field \<open>m_MSB\<close>.\<close>

definition big_fits :: "nat \<Rightarrow> bool" where
  "big_fits n \<longleftrightarrow> bit_len n < 2 ^ 32"

text \<open>The object \<open>x\<close> is in normal form and stands for the number \<open>n\<close>.\<close>

definition repr :: "ubint \<Rightarrow> nat \<Rightarrow> bool" where
  "repr x n \<longleftrightarrow> normal (m_value x) \<and> unat (m_MSB x) = bit_len n \<and> lval (m_value x) = n"

lemma lval_append: "lval (v @ w) = lval v + 2 ^ (64 * length v) * lval w"
  by (induction v) (simp_all add: algebra_simps power_add)

lemma lval_less: "lval v < 2 ^ (64 * length v)"
proof (induction v)
  case (Cons a v)
  have "unat a + 2 ^ 64 * lval v < 2 ^ 64 * (lval v + 1)" using unat_less_64 [of a] by simp
  also have "\<dots> \<le> 2 ^ 64 * 2 ^ (64 * length v)" using Cons by (intro mult_le_mono2) simp
  finally show ?case by (simp add: power_add)
qed simp

lemma lval_replicate_0 [simp]: "lval (replicate k 0) = 0"
  by (induction k) simp_all

lemma lval_shift: "lval (replicate k 0 @ v) = 2 ^ (64 * k) * lval v"
  by (simp add: lval_append)

lemma lval_butlast: "v \<noteq> [] \<Longrightarrow> lval v = lval (butlast v) + 2 ^ (64 * (length v - 1)) * unat (last v)"
  using lval_append [of "butlast v" "[last v]"] by simp

lemma lval_drop_zero_limbs: "lval (drop_zero_limbs v) = lval v"
proof (induction v rule: drop_zero_limbs.induct)
  case (1 v)
  have "v \<noteq> []" if "1 < length v" using that by auto
  then show ?case using 1 lval_butlast [of v] by (subst drop_zero_limbs.simps) auto
qed

lemma normal_drop_zero_limbs: "v \<noteq> [] \<Longrightarrow> normal (drop_zero_limbs v)"
proof (induction v rule: drop_zero_limbs.induct)
  case (1 v)
  have "butlast v \<noteq> []" if "1 < length v" using that by (cases v rule: rev_cases) auto
  then show ?case using 1 by (subst drop_zero_limbs.simps) (auto simp: normal_def)
qed

lemma drop_zero_limbs_normal: "normal v \<Longrightarrow> drop_zero_limbs v = v"
  by (subst drop_zero_limbs.simps) (auto simp: normal_def)

lemma bit_len_normal:
  assumes "normal v"
  shows "bit_len (lval v) = 64 * (length v - 1) + bit_len (unat (last v))"
proof (cases "last v = 0")
  case True
  then have "length v = 1" using assms by (cases v rule: rev_cases) (auto simp: normal_def)
  then show ?thesis using True by (cases v) auto
next
  case False
  define k where "k = 64 * (length v - 1)"
  define l where "l = bit_len (unat (last v))"
  have e: "lval v = lval (butlast v) + 2 ^ k * unat (last v)" using lval_butlast [of v] assms by (simp add: normal_def k_def)
  have b: "lval (butlast v) < 2 ^ k" using lval_less [of "butlast v"] by (simp add: k_def)
  have "0 < unat (last v)" using False by (simp add: unat_gt_0)
  then obtain j where l: "l = Suc j" "2 ^ j \<le> unat (last v)" using bit_len_lower [of "unat (last v)"] bit_len_pos_iff [of "unat (last v)"] unfolding l_def
    by (cases "bit_len (unat (last v))") (auto simp del: bit_len_pos_iff)
  have "2 ^ (k + j) \<le> lval v" unfolding e power_add using mult_le_mono2 [OF l(2), of "2 ^ k"] by linarith
  moreover have "lval v < 2 ^ Suc (k + j)"
  proof -
    have "unat (last v) + 1 \<le> 2 ^ Suc j" using bit_len_upper [of "unat (last v)"] l(1) by (simp add: l_def)
    then have "2 ^ k * (unat (last v) + 1) \<le> 2 ^ k * 2 ^ Suc j" by (rule mult_le_mono2)
    then show ?thesis using b by (simp add: e power_add)
  qed
  ultimately have "bit_len (lval v) = Suc (k + j)" by (rule bit_len_eqI)
  then show ?thesis using l(1) by (simp add: k_def l_def)
qed

lemma big_fits_mono: "m \<le> n \<Longrightarrow> big_fits n \<Longrightarrow> big_fits m"
  using bit_len_mono [of m n] by (simp add: big_fits_def)

lemma repr_fits: "repr x n \<Longrightarrow> big_fits n"
  using unsigned_less [of "m_MSB x", where ?'a = nat] by (simp add: repr_def big_fits_def)

lemma unat_SetMSB:
  assumes "normal v" "big_fits (lval v)"
  shows "unat (SetMSB v) = bit_len (lval v)"
proof -
  have lt: "64 * (length v - 1) + bit_len (unat (last v)) < 2 ^ 32"
    using assms(2) by (simp add: big_fits_def bit_len_normal [OF assms(1)])
  have g: "GetMSB (last v) = of_nat (bit_len (unat (last v)))" unfolding unat_GetMSB [of "last v", symmetric] by simp
  have "SetMSB v = of_nat (64 * (length v - 1) + bit_len (unat (last v)))" by (simp add: SetMSB_def g)
  then have "unat (SetMSB v) = 64 * (length v - 1) + bit_len (unat (last v))"
    using lt by (simp only: unat_of_nat) simp
  then show ?thesis by (simp add: bit_len_normal [OF assms(1)])
qed

lemma repr_NormalizeLimbs:
  assumes "v \<noteq> []" "lval v = n" "big_fits n"
  shows "repr (NormalizeLimbs v) n"
  using normal_drop_zero_limbs [OF assms(1)] assms lval_drop_zero_limbs [of v] unat_SetMSB [of "drop_zero_limbs v"]
  by (simp add: repr_def NormalizeLimbs_def Let_def)

lemma repr_limb: "repr (ubint_of_limb v) (unat v)"
  by (simp add: repr_def ubint_of_limb_def normal_def unat_GetMSB)

lemma repr_default: "repr ubint_default 0"
  by (simp add: repr_def ubint_default_def normal_def)

lemma repr_MSB: "repr x n \<Longrightarrow> m_MSB x = 0 \<longleftrightarrow> n = 0" "repr x n \<Longrightarrow> m_MSB x = 1 \<longleftrightarrow> n = 1"
proof -
  assume r: "repr x n"
  then have u: "unat (m_MSB x) = bit_len n" by (simp add: repr_def)
  show "m_MSB x = 0 \<longleftrightarrow> n = 0" using u by (metis bit_len_0 bit_len_pos_iff neq0_conv unat_eq_zero)
  have "bit_len n = 1 \<longleftrightarrow> n = 1"
  proof
    assume "bit_len n = 1"
    then have "n < 2 ^ 1" "0 < n" using bit_len_upper [of n] bit_len_pos_iff [of n] by simp_all
    then show "n = 1" by simp
  qed (simp add: bit_len.simps)
  then show "m_MSB x = 1 \<longleftrightarrow> n = 1" using u by (metis unat_1 word_unat_eq_iff)
qed

lemma repr_length:
  assumes "repr x n"
  shows "length (m_value x) = (if n = 0 then 1 else (bit_len n - 1) div 64 + 1)"
proof -
  let ?v = "m_value x"
  have v: "normal ?v" "lval ?v = n" using assms by (simp_all add: repr_def)
  have b: "bit_len n = 64 * (length ?v - 1) + bit_len (unat (last ?v))" using bit_len_normal [OF v(1)] v(2) by simp
  have l: "0 < length ?v" "1 < length ?v \<Longrightarrow> last ?v \<noteq> 0" using v(1) by (simp_all add: normal_def)
  have le: "bit_len (unat (last ?v)) \<le> 64" by (rule bit_len_unat_le)
  show ?thesis
  proof (cases "last ?v = 0")
    case True
    then have "length ?v = 1" using l by linarith
    moreover have "bit_len n = 0" using calculation b True by simp
    ultimately show ?thesis using bit_len_pos_iff [of n] by simp
  next
    case False
    then have "0 < bit_len (unat (last ?v))" by (simp add: unat_gt_0)
    then obtain k where k: "bit_len (unat (last ?v)) = Suc k" "k < 64" using le by (cases "bit_len (unat (last ?v))") auto
    have "0 < n" using b k(1) by (metis bit_len_pos_iff add_gr_0 zero_less_Suc)
    moreover have "(bit_len n - 1) div 64 = length ?v - 1" using k by (simp add: b)
    ultimately show ?thesis using l(1) by simp
  qed
qed

subsection \<open>Comparison\<close>

lemma lval_take_Suc: "i < length v \<Longrightarrow> lval (take (Suc i) v) = lval (take i v) + 2 ^ (64 * i) * unat (v ! i)"
  by (simp add: take_Suc_conv_app_nth lval_append)

lemma compare_limbs_sgn:
  assumes "n \<le> length v" "n \<le> length w"
  shows "compare_limbs n v w = (if lval (take n v) < lval (take n w) then - 1 else if lval (take n v) = lval (take n w) then 0 else 1)"
  using assms
proof (induction n)
  case (Suc i)
  have b: "lval (take i v) < 2 ^ (64 * i)" "lval (take i w) < 2 ^ (64 * i)"
    using lval_less [of "take i v"] lval_less [of "take i w"] Suc.prems by simp_all
  have s: "lval (take (Suc i) v) = lval (take i v) + 2 ^ (64 * i) * unat (v ! i)"
    "lval (take (Suc i) w) = lval (take i w) + 2 ^ (64 * i) * unat (w ! i)" using Suc.prems by (simp_all add: lval_take_Suc)
  have top: "a + 2 ^ (64 * i) * unat x < c + 2 ^ (64 * i) * unat y"
    if "x < y" "a < 2 ^ (64 * i)" for x y :: u64 and a c :: nat
  proof -
    have "a + 2 ^ (64 * i) * unat x < 2 ^ (64 * i) * (unat x + 1)" using that(2) by simp
    also have "\<dots> \<le> 2 ^ (64 * i) * unat y" using that(1) by (intro mult_le_mono2) (simp add: word_less_nat_alt)
    finally show ?thesis by simp
  qed
  consider "v ! i < w ! i" | "w ! i < v ! i" | "v ! i = w ! i" by fastforce
  then show ?case
  proof cases
    case 1
    then show ?thesis using top [OF 1 b(1), of "lval (take i w)"] unfolding s by simp
  next
    case 2
    then show ?thesis using top [OF 2 b(2), of "lval (take i v)"] unfolding s by (simp add: order.asym)
  next
    case 3
    then show ?thesis using Suc unfolding s by simp
  qed
qed simp

lemma Big_Compare_sgn:
  assumes "repr x m" "repr y n"
  shows "Big_Compare x y = (if m < n then - 1 else if m = n then 0 else 1)"
proof -
  have u: "unat (m_MSB x) = bit_len m" "unat (m_MSB y) = bit_len n" using assms by (simp_all add: repr_def)
  consider "bit_len m < bit_len n" | "bit_len n < bit_len m" | "bit_len m = bit_len n" by linarith
  then show ?thesis
  proof cases
    case 1
    then have "\<not> n \<le> m" using bit_len_mono [of n m] by linarith
    then show ?thesis using 1 u by (simp add: Big_Compare_def word_less_nat_alt)
  next
    case 2
    then have "\<not> m \<le> n" using bit_len_mono [of m n] by linarith
    then show ?thesis using 2 u by (simp add: Big_Compare_def word_less_nat_alt)
  next
    case 3
    have "m = 0 \<longleftrightarrow> n = 0" using 3 bit_len_pos_iff by (metis neq0_conv)
    then have "length (m_value x) = length (m_value y)" using repr_length [OF assms(1)] repr_length [OF assms(2)] 3 by simp
    then show ?thesis using 3 u compare_limbs_sgn [of "length (m_value x)" "m_value x" "m_value y"] assms
      by (simp add: Big_Compare_def word_less_nat_alt repr_def)
  qed
qed

lemma big_less_iff: "repr x m \<Longrightarrow> repr y n \<Longrightarrow> big_less x y \<longleftrightarrow> m < n"
  by (simp add: big_less_def Big_Compare_sgn)

lemma big_le_iff: "repr x m \<Longrightarrow> repr y n \<Longrightarrow> big_le x y \<longleftrightarrow> m \<le> n"
  by (simp add: big_le_def Big_Compare_sgn)

subsection \<open>Addition\<close>

lemma unat_less_128: "unat (x :: u128) < 2 ^ 128"
  using unsigned_less [of x, where ?'a = nat] by simp

lemma lval_carry: "unat (ucast c :: u64) + 2 ^ 64 * unat (drop_bit 64 c) = unat (c :: u128)"
  by (simp only: unat_ucast_64 unat_drop_bit mod_mult_div_eq)

lemma length_add_limbs: "length (add_limbs c A B) = Suc (length A)"
  by (induction c A B rule: add_limbs.induct) (simp_all add: Let_def)

lemma lval_add_limbs:
  assumes "length B \<le> length A" "unat c < 2 ^ 64"
  shows "lval (add_limbs c A B) = unat c + lval A + lval B"
  using assms
proof (induction c A B rule: add_limbs.induct)
  case (1 c B)
  then show ?case by (simp add: unat_ucast_64)
next
  case (2 c av A B)
  define bv :: u128 where "bv = (case B of [] \<Rightarrow> 0 | bv # _ \<Rightarrow> ucast bv)"
  define c' where "c' = c + (ucast av + bv)"
  have bv: "unat bv < 2 ^ 64" "lval B = unat bv + 2 ^ 64 * lval (tl B)"
    using unat_less_64 by (cases B; simp add: bv_def)+
  have "unat (ucast av + bv) = unat av + unat bv" using bv(1) unat_less_64 [of av] by (simp add: unat_word_ariths)
  then have c': "unat c' = unat c + (unat av + unat bv)" using bv(1) unat_less_64 [of av] 2(3) by (simp add: c'_def unat_word_ariths)
  then have "unat (drop_bit 64 c') < 2 ^ 64" using unat_less_128 [of c'] by (simp only: unat_drop_bit) (simp add: less_mult_imp_div_less)
  moreover have "length (tl B) \<le> length A" using 2(2) by (cases B) simp_all
  ultimately have "lval (add_limbs (drop_bit 64 c') A (tl B)) = unat (drop_bit 64 c') + lval A + lval (tl B)"
    using 2(1) by (simp add: c'_def bv_def)
  then have "lval (add_limbs c (av # A) B) = unat (ucast c' :: u64) + 2 ^ 64 * unat (drop_bit 64 c') + 2 ^ 64 * lval A + 2 ^ 64 * lval (tl B)"
    unfolding add_limbs.simps Let_def bv_def [symmetric] c'_def [symmetric] lval.simps by (simp only: distrib_left add.assoc)
  also have "\<dots> = unat c' + 2 ^ 64 * lval A + 2 ^ 64 * lval (tl B)" by (simp only: lval_carry)
  finally show ?case using bv(2) c' by simp
qed

lemma repr_Add:
  assumes "repr x m" "repr y n" "big_fits (m + n)"
  shows "repr (Big_Add x y) (m + n)"
proof -
  have main: "repr (if m_MSB B = 0 then A else NormalizeLimbs (add_limbs 0 (m_value A) (m_value B))) (a + b)"
    if "repr A a" "repr B b" "length (m_value B) \<le> length (m_value A)" "big_fits (a + b)" for A B a b
  proof (cases "b = 0")
    case False
    have "lval (add_limbs 0 (m_value A) (m_value B)) = a + b"
      using lval_add_limbs [OF that(3), of 0] that(1,2) by (simp add: repr_def)
    moreover have "add_limbs 0 (m_value A) (m_value B) \<noteq> []" using length_add_limbs [of 0 "m_value A" "m_value B"] by auto
    ultimately show ?thesis using False repr_MSB(1) [OF that(2)] that(4) repr_NormalizeLimbs by simp
  qed (use repr_MSB(1) [OF that(2)] that(1) in simp)
  show ?thesis using main [OF assms(1,2)] main [OF assms(2,1)] assms(3) by (simp add: Big_Add_def add.commute)
qed

lemma Big_AddEq_Add: "Big_AddEq x b = Big_Add x b"
  by (simp add: Big_AddEq_def Big_Add_def)

subsection \<open>Subtraction\<close>

lemma lval_update: "i < length v \<Longrightarrow> lval (v[i := x]) + 2 ^ (64 * i) * unat (v ! i) = lval v + 2 ^ (64 * i) * unat x"
proof (induction v arbitrary: i)
  case (Cons a v)
  show ?case
  proof (cases i)
    case (Suc j)
    then have "lval (v[j := x]) + 2 ^ (64 * j) * unat (v ! j) = lval v + 2 ^ (64 * j) * unat x" using Cons by simp
    from arg_cong [OF this, of "\<lambda>z. 2 ^ 64 * z"] show ?thesis using Suc by (simp add: power_add distrib_left mult.assoc)
  qed simp
qed simp

lemma lval_split: "i \<le> length v \<Longrightarrow> lval v = lval (take i v) + 2 ^ (64 * i) * lval (drop i v)"
  using lval_append [of "take i v" "drop i v"] by simp

lemma lval_take_less: "lval (take i v) < 2 ^ (64 * i)"
proof -
  have "lval (take i v) < 2 ^ (64 * length (take i v))" by (rule lval_less)
  also have "\<dots> \<le> 2 ^ (64 * i)" by (intro power_increasing) simp_all
  finally show ?thesis .
qed

lemma lval_drop_nth: "i < length v \<Longrightarrow> lval (drop i v) = unat (v ! i) + 2 ^ 64 * lval (drop (Suc i) v)"
  by (simp add: Cons_nth_drop_Suc [symmetric])

lemma unat_MaxLimb: "unat m_MaxLimb = 2 ^ 64 - 1"
  unfolding m_MaxLimb_def unsigned_minus_1_eq_mask by (simp add: mask_eq_exp_minus_1)

lemma borrow_ok:
  assumes "0 < lval (drop cntr r)"
  shows "\<exists>r'. borrow r cntr = Inr r' \<and> length r' = length r \<and> lval r' + 2 ^ (64 * cntr) = lval r"
  using assms
proof (induction r cntr rule: borrow.induct)
  case (1 r cntr)
  have c: "cntr < length r" using 1(2) by (cases "cntr < length r") simp_all
  show ?case
  proof (cases "r ! cntr = 0")
    case True
    have "0 < lval (drop (cntr + 1) (r[cntr := m_MaxLimb]))" using 1(2) c True by (simp add: lval_drop_nth)
    then obtain r' where r': "borrow (r[cntr := m_MaxLimb]) (cntr + 1) = Inr r'" "length r' = length r"
      "lval r' + 2 ^ (64 * (cntr + 1)) = lval (r[cntr := m_MaxLimb])" using 1(1) c True by auto
    have "lval (r[cntr := m_MaxLimb]) + 2 ^ (64 * cntr) = lval r + 2 ^ (64 * cntr) * 2 ^ 64"
      using lval_update [OF c, of m_MaxLimb] True unat_MaxLimb by (simp add: algebra_simps)
    then have "lval r' + 2 ^ (64 * cntr) = lval r" using r'(3) by (simp add: power_add)
    then show ?thesis using r'(1,2) c True by (subst borrow.simps) simp
  next
    case False
    have u: "unat (r ! cntr - 1) + 1 = unat (r ! cntr)" using False by (simp add: unat_minus_one unat_gt_0)
    have "lval (r[cntr := r ! cntr - 1]) + 2 ^ (64 * cntr) * (unat (r ! cntr - 1) + 1) = lval r + 2 ^ (64 * cntr) * unat (r ! cntr - 1)"
      using lval_update [OF c, of "r ! cntr - 1"] u by simp
    then show ?thesis using c False by (subst borrow.simps) simp
  qed
qed

lemma sub_limb_ok:
  assumes i: "i < length b" "length b \<le> length r" and v: "lval r + lval (take i b) = A" "lval b \<le> A"
  shows "\<exists>r'. sub_limb b i r = Inr r' \<and> length r' = length r \<and> lval r' + lval (take (Suc i) b) = A"
proof -
  have ir: "i < length r" using i by simp
  have t: "lval (take (Suc i) b) = lval (take i b) + 2 ^ (64 * i) * unat (b ! i)" by (rule lval_take_Suc [OF i(1)])
  show ?thesis
  proof (cases "r ! i < b ! i")
    case False
    then have le: "unat (b ! i) \<le> unat (r ! i)" by (simp add: word_le_nat_alt not_less)
    have "lval (r[i := r ! i - b ! i]) + 2 ^ (64 * i) * unat (r ! i) = lval r + 2 ^ (64 * i) * (unat (r ! i) - unat (b ! i))"
      using lval_update [OF ir, of "r ! i - b ! i"] le by (simp add: unat_sub_small)
    moreover have "2 ^ (64 * i) * (unat (r ! i) - unat (b ! i)) + 2 ^ (64 * i) * unat (b ! i) = 2 ^ (64 * i) * unat (r ! i)"
      using le by (simp add: distrib_left [symmetric])
    ultimately show ?thesis using False ir i(1) v(1) t by (simp add: sub_limb_def get_at_def)
  next
    case True
    then have lt: "unat (r ! i) < unat (b ! i)" by (simp add: word_less_nat_alt)
    have "2 ^ (64 * i) * lval (drop i b) < 2 ^ (64 * i) * (lval (drop i r) + 1)"
    proof -
      have "lval b \<le> lval r + lval (take i b)" using v by simp
      then have "2 ^ (64 * i) * lval (drop i b) \<le> lval r" using lval_split [of i b] i(1) by simp
      also have "\<dots> < 2 ^ (64 * i) * (lval (drop i r) + 1)" using lval_split [of i r] ir lval_take_less [of i r] by simp
      finally show ?thesis .
    qed
    then have "lval (drop i b) \<le> lval (drop i r)" by (simp only: mult_less_cancel1) simp
    then have pos: "0 < lval (drop (i + 1) r)" using lt ir i(1) by (cases "lval (drop (Suc i) r)") (simp_all add: lval_drop_nth)
    define w where "w = r ! i + ((m_MaxLimb - b ! i) + 1)"
    have "unat (m_MaxLimb - b ! i) = 2 ^ 64 - 1 - unat (b ! i)"
      using unat_less_64 [of "b ! i"] unat_sub_small [of "b ! i" m_MaxLimb] unat_MaxLimb by simp
    then have "unat ((m_MaxLimb - b ! i) + 1) = 2 ^ 64 - unat (b ! i)"
      using lt unat_less_64 [of "b ! i"] unat_add_small [of "m_MaxLimb - b ! i" 1] by simp
    then have w: "unat w + unat (b ! i) = unat (r ! i) + 2 ^ 64"
      using lt unat_less_64 [of "b ! i"] unat_add_small [of "r ! i" "(m_MaxLimb - b ! i) + 1"] by (simp add: w_def)
    obtain r' where r': "borrow (r[i := w]) (i + 1) = Inr r'" "length r' = length r" "lval r' + 2 ^ (64 * (i + 1)) = lval (r[i := w])"
      using borrow_ok [of "i + 1" "r[i := w]"] pos by auto
    have "lval (r[i := w]) + 2 ^ (64 * i) * unat (b ! i) = lval r + 2 ^ (64 * i) * 2 ^ 64"
    proof -
      have "2 ^ (64 * i) * unat w + 2 ^ (64 * i) * unat (b ! i) = 2 ^ (64 * i) * unat (r ! i) + 2 ^ (64 * i) * 2 ^ 64"
        using arg_cong [OF w, of "\<lambda>z. 2 ^ (64 * i) * z"] by (simp only: distrib_left)
      then show ?thesis using lval_update [OF ir, of w] by linarith
    qed
    then have "lval r' + 2 ^ (64 * i) * unat (b ! i) = lval r" using r'(3) by (simp add: power_add)
    then show ?thesis using True r'(1,2) ir i(1) v(1) t by (simp add: sub_limb_def get_at_def w_def)
  qed
qed

lemma sub_limbs_ok:
  assumes "length b \<le> length a" "lval b \<le> lval a"
  shows "\<exists>r. efor 0 (length b) (sub_limb b) a = Inr r \<and> length r = length a \<and> lval r = lval a - lval b"
proof -
  have "\<exists>r. efor 0 (length b) (sub_limb b) a = Inr r \<and> length r = length a \<and> lval r + lval (take (length b) b) = lval a"
  proof (rule efor_Inr [where P = "\<lambda>i r. length r = length a \<and> lval r + lval (take i b) = lval a"])
    show "\<exists>s'. sub_limb b i r = Inr s' \<and> length s' = length a \<and> lval s' + lval (take (Suc i) b) = lval a"
      if "i < length b" "length r = length a \<and> lval r + lval (take i b) = lval a" for i r
      using sub_limb_ok [of i b r "lval a"] that assms by auto
  qed simp_all
  then show ?thesis by auto
qed

lemma repr_length_mono: "repr x m \<Longrightarrow> repr y n \<Longrightarrow> n \<le> m \<Longrightarrow> length (m_value y) \<le> length (m_value x)"
  using bit_len_mono [of n m] by (auto simp: repr_length div_le_mono diff_le_mono)

lemma repr_Sub:
  assumes "repr x m" "repr y n"
  shows "\<exists>z. Big_Sub x y = Inr z \<and> repr z (m - n)"
proof (cases "m \<le> n")
  case True
  then show ?thesis using big_le_iff [OF assms] repr_default by (simp add: Big_Sub_def)
next
  case False
  then obtain r where r: "efor 0 (length (m_value y)) (sub_limb (m_value y)) (m_value x) = Inr r"
    "length r = length (m_value x)" "lval r = m - n"
    using sub_limbs_ok [of "m_value y" "m_value x"] repr_length_mono [OF assms] assms by (auto simp: repr_def)
  have "r \<noteq> []" using r(2) assms(1) by (auto simp: repr_def normal_def)
  then have "repr (NormalizeLimbs r) (m - n)"
    using r(3) big_fits_mono [of "m - n" m] repr_fits [OF assms(1)] by (intro repr_NormalizeLimbs) simp_all
  then show ?thesis using r(1) big_le_iff [OF assms] False by (simp add: Big_Sub_def)
qed

lemma Big_SubEq_Sub: "Big_SubEq x b = Big_Sub x b"
  by (simp add: Big_SubEq_def Big_Sub_def ubint_default_def)

subsection \<open>Multiplication\<close>

lemma length_mul_limbs: "length (mul_limbs ofl b A) = Suc (length A)"
  by (induction ofl b A rule: mul_limbs.induct) (simp_all add: Let_def)

lemma lval_mul_limbs: "unat ofl < 2 ^ 64 \<Longrightarrow> lval (mul_limbs ofl b A) = unat ofl + unat b * lval A"
proof (induction ofl b A rule: mul_limbs.induct)
  case (1 ofl limbb)
  then show ?case by (simp add: unat_ucast_64)
next
  case (2 ofl limbb av A)
  define c where "c = ofl + ucast limbb * ucast av"
  have "unat limbb * unat av \<le> (2 ^ 64 - 1) * (2 ^ 64 - 1)"
    using unat_less_64 [of limbb] unat_less_64 [of av] by (intro mult_le_mono) simp_all
  then have "unat ofl + unat limbb * unat av < 2 ^ 128" using 2(2) by simp
  then have c: "unat c = unat ofl + unat limbb * unat av" by (simp add: c_def unat_mult_ucast unat_word_ariths(1))
  have "unat (drop_bit 64 c) < 2 ^ 64" using unat_less_128 [of c] by (simp only: unat_drop_bit) (simp add: less_mult_imp_div_less)
  then have "lval (mul_limbs (drop_bit 64 c) limbb A) = unat (drop_bit 64 c) + unat limbb * lval A" using 2(1) by (simp add: c_def)
  then have "lval (mul_limbs ofl limbb (av # A)) = unat (ucast c :: u64) + 2 ^ 64 * unat (drop_bit 64 c) + unat limbb * (2 ^ 64 * lval A)"
    unfolding mul_limbs.simps Let_def c_def [symmetric] lval.simps by (simp only: distrib_left add.assoc mult.left_commute)
  also have "\<dots> = unat c + unat limbb * (2 ^ 64 * lval A)" by (simp only: lval_carry)
  finally show ?case using c by (simp add: algebra_simps)
qed

lemma repr_mul_rows:
  assumes "big_fits (lval A * lval B)" "A \<noteq> []"
  shows "repr (mul_rows A B) (lval A * lval B)"
proof -
  have "repr (mul_rows A B) (lval A * lval (take (length B) B))" unfolding mul_rows_def
  proof (rule for_range_invariant [where P = "\<lambda>i ans. repr ans (lval A * lval (take i B))"])
    show "repr ubint_default (lval A * lval (take 0 B))" using repr_default by simp
    fix i ans assume i: "i < length B" and ans: "repr ans (lval A * lval (take i B))"
    have t: "lval (take (Suc i) B) = lval (take i B) + 2 ^ (64 * i) * unat (B ! i)" by (rule lval_take_Suc [OF i])
    have le: "lval A * lval (take (Suc i) B) \<le> lval A * lval B" using lval_split [of "Suc i" B] i by (intro mult_le_mono2) simp
    have s: "lval A * lval (take (Suc i) B) = lval A * lval (take i B) + 2 ^ (64 * i) * (unat (B ! i) * lval A)"
      by (simp add: t algebra_simps)
    have "repr (NormalizeLimbs (replicate i 0 @ mul_limbs 0 (B ! i) A)) (2 ^ (64 * i) * (unat (B ! i) * lval A))"
    proof (rule repr_NormalizeLimbs)
      show "replicate i 0 @ mul_limbs 0 (B ! i) A \<noteq> []" using length_mul_limbs [of 0 "B ! i" A] by auto
      show "lval (replicate i 0 @ mul_limbs 0 (B ! i) A) = 2 ^ (64 * i) * (unat (B ! i) * lval A)"
        by (simp add: lval_shift lval_mul_limbs)
      show "big_fits (2 ^ (64 * i) * (unat (B ! i) * lval A))"
        by (rule big_fits_mono [OF _ assms(1)]) (use le s in linarith)
    qed
    from repr_Add [OF ans this] show "repr (Big_Add ans (NormalizeLimbs (replicate i 0 @ mul_limbs 0 (B ! i) A))) (lval A * lval (take (Suc i) B))"
      using big_fits_mono [OF le assms(1)] unfolding s by simp
  qed simp
  then show ?thesis by simp
qed

lemma repr_Mul:
  assumes "repr x m" "repr y n" "big_fits (m * n)"
  shows "repr (Big_Mul x y) (m * n)"
proof -
  have v: "lval (m_value x) = m" "lval (m_value y) = n" "m_value x \<noteq> []" "m_value y \<noteq> []"
    using assms(1,2) by (auto simp: repr_def normal_def)
  show ?thesis
  proof (cases "m = 0 \<or> n = 0 \<or> m = 1 \<or> n = 1")
    case True
    then show ?thesis using repr_MSB [OF assms(1)] repr_MSB [OF assms(2)] assms(1,2) repr_default by (auto simp: Big_Mul_def)
  next
    case False
    then show ?thesis
      using repr_MSB [OF assms(1)] repr_MSB [OF assms(2)] repr_mul_rows [of "m_value x" "m_value y"] repr_mul_rows [of "m_value y" "m_value x"] v assms(3)
      by (simp add: Big_Mul_def mult.commute)
  qed
qed

subsection \<open>Shifts\<close>

lemma unat_or_disjoint:
  assumes "unat (a :: u128) < 2 ^ n" "unat b * 2 ^ n < 2 ^ 128"
  shows "unat (a OR push_bit n b) = unat a + 2 ^ n * unat b"
proof -
  have "\<not> bit a i" if "n \<le> i" for i
  proof -
    have "(2 :: nat) ^ n \<le> 2 ^ i" using that by (intro power_increasing) simp_all
    with assms(1) have "unat a < 2 ^ i" by (rule order.strict_trans2)
    then have "\<not> bit (unat a) i" by (simp add: bit_iff_odd)
    then show ?thesis by (auto simp: bit_unsigned_iff dest: bit_imp_le_length)
  qed
  then have "a AND push_bit n b = 0" by (intro bit_eqI) (auto simp: bit_and_iff bit_push_bit_iff)
  then have "a OR push_bit n b = a + push_bit n b" by (simp add: disjunctive_add_eq_or)
  moreover have p: "unat (push_bit n b) = 2 ^ n * unat b" using assms(2) by (simp add: unat_push_bit mult.commute)
  moreover have "unat a + 2 ^ n * unat b < 2 ^ 128"
  proof (cases "n \<le> 128")
    case True
    then have e: "(2 :: nat) ^ 128 = 2 ^ (128 - n) * 2 ^ n" by (simp add: power_add [symmetric])
    have "unat b < 2 ^ (128 - n)" using assms(2) unfolding e by simp
    then have "(unat b + 1) * 2 ^ n \<le> 2 ^ (128 - n) * 2 ^ n" by (intro mult_le_mono1) simp
    then show ?thesis using assms(1) e by (simp add: algebra_simps)
  next
    case False
    then have "(2 :: nat) ^ 128 < 2 ^ n" by (intro power_strict_increasing) simp_all
    then have "unat b = 0" using assms(2) by (cases "unat b") auto
    then show ?thesis using unat_less_128 [of a] by simp
  qed
  ultimately show ?thesis by (simp add: unat_word_ariths(1) del: unat_push_bit)
qed

lemma carry_limbs_ok:
  assumes "sl \<le> 64" "unat ofl < 2 ^ sl"
  shows "length (fst (carry_limbs sl ofl v)) = length v \<and> unat (snd (carry_limbs sl ofl v)) < 2 ^ sl \<and>
    lval (fst (carry_limbs sl ofl v)) + 2 ^ (64 * length v) * unat (snd (carry_limbs sl ofl v)) = unat ofl + 2 ^ sl * lval v"
  using assms(2)
proof (induction v arbitrary: ofl)
  case (Cons v vs)
  define c where "c = ofl OR push_bit sl (ucast v)"
  have s: "(2 :: nat) ^ sl \<le> 2 ^ 64" using assms(1) by (intro power_increasing) simp_all
  have "unat v * 2 ^ sl < 2 ^ 64 * 2 ^ 64" using unat_less_64 [of v] s by (intro mult_less_le_imp_less) simp_all
  then have c: "unat c = unat ofl + 2 ^ sl * unat v" using unat_or_disjoint [OF Cons(2), of "ucast v"] by (simp add: c_def)
  have "unat c < 2 ^ sl * 2 ^ 64"
  proof -
    have "unat c < 2 ^ sl * (unat v + 1)" using c Cons(2) by simp
    also have "\<dots> \<le> 2 ^ sl * 2 ^ 64" using unat_less_64 [of v] by (intro mult_le_mono2) simp
    finally show ?thesis .
  qed
  then have d: "unat (drop_bit 64 c) < 2 ^ sl" by (simp only: unat_drop_bit less_mult_imp_div_less)
  obtain ws out where r: "carry_limbs sl (drop_bit 64 c) vs = (ws, out)" by (cases "carry_limbs sl (drop_bit 64 c) vs")
  have ih: "length ws = length vs" "unat out < 2 ^ sl" "lval ws + 2 ^ (64 * length vs) * unat out = unat (drop_bit 64 c) + 2 ^ sl * lval vs"
    using Cons.IH [OF d] r by simp_all
  have "lval (ucast c # ws) + 2 ^ (64 * length (v # vs)) * unat out = unat (ucast c :: u64) + 2 ^ 64 * (lval ws + 2 ^ (64 * length vs) * unat out)"
    by (simp add: power_add algebra_simps)
  also have "\<dots> = unat (ucast c :: u64) + 2 ^ 64 * unat (drop_bit 64 c) + 2 ^ 64 * (2 ^ sl * lval vs)"
    unfolding ih(3) by (simp only: distrib_left add.assoc)
  also have "\<dots> = unat ofl + 2 ^ sl * lval (v # vs)" unfolding lval_carry c lval.simps by (simp only: distrib_left add.assoc mult.left_commute)
  finally show ?case using ih r by (simp add: c_def [symmetric] Let_def)
qed simp

lemma bit_len_mult_power: "0 < n \<Longrightarrow> bit_len (n * 2 ^ k) = bit_len n + k"
proof -
  assume n: "0 < n"
  then obtain j where j: "bit_len n = Suc j" using bit_len_pos_iff [of n] by (cases "bit_len n") simp_all
  have "2 ^ j \<le> n" "n < 2 ^ Suc j" using bit_len_lower [OF n] bit_len_upper [of n] j by simp_all
  then have "2 ^ j * 2 ^ k \<le> n * 2 ^ k" "n * 2 ^ k < 2 ^ Suc j * 2 ^ k" by simp_all
  then show ?thesis using bit_len_eqI [of "j + k" "n * 2 ^ k"] j by (simp add: power_add)
qed

lemma bit_len_div_power: "bit_len (n div 2 ^ k) = bit_len n - k"
proof (induction k arbitrary: n)
  case (Suc k)
  have "bit_len (n div 2) = bit_len n - 1" by (simp add: bit_len.simps [of n])
  then show ?case using Suc [of "n div 2"] by (simp add: div_mult2_eq mult.commute)
qed simp

lemma normal_tightI:
  assumes "v \<noteq> []" "2 ^ (64 * (length v - 1)) \<le> lval v"
  shows "normal v"
proof -
  have "last v \<noteq> 0"
  proof
    assume "last v = 0"
    then have "lval v = lval (butlast v)" using lval_butlast [OF assms(1)] by simp
    then show False using lval_less [of "butlast v"] assms(2) by simp
  qed
  then show ?thesis using assms(1) by (simp add: normal_def)
qed

lemma normal_tight:
  assumes "normal v" "0 < lval v"
  shows "2 ^ (64 * (length v - 1)) \<le> lval v"
proof -
  have "last v \<noteq> 0"
  proof
    assume l: "last v = 0"
    then have "length v = 1" using assms(1) by (cases v rule: rev_cases) (auto simp: normal_def)
    then show False using l assms(2) by (cases v) auto
  qed
  then have "1 \<le> unat (last v)" by (simp add: Suc_le_eq unat_gt_0)
  then have "2 ^ (64 * (length v - 1)) * 1 \<le> 2 ^ (64 * (length v - 1)) * unat (last v)" by (rule mult_le_mono2)
  moreover have "lval v = lval (butlast v) + 2 ^ (64 * (length v - 1)) * unat (last v)" using lval_butlast [of v] assms(1) by (simp add: normal_def)
  ultimately show ?thesis by linarith
qed

lemma shift_parts: "unat (s :: u16) = 64 * unat (drop_bit 6 s) + unat (s AND 63)" "unat (s AND 63) < 64"
proof -
  have "s AND 63 = take_bit 6 s" by (simp add: take_bit_eq_mask mask_numeral)
  then have "unat (s AND 63) = unat s mod 64" by (simp only: unsigned_take_bit_eq) (simp add: take_bit_eq_mod)
  then show "unat s = 64 * unat (drop_bit 6 s) + unat (s AND 63)" "unat (s AND 63) < 64" by (simp_all add: unat_drop_bit)
qed

lemma unat_ucast_16_32: "unat (ucast (s :: u16) :: u32) = unat s"
  using unsigned_less [of s, where ?'a = nat] by (simp add: unsigned_ucast_eq take_bit_nat_eq_self_iff)

lemma repr_LShift:
  assumes "repr x n" "big_fits (n * 2 ^ unat s)"
  shows "repr (Big_LShift x s) (n * 2 ^ unat s)"
proof (cases "n = 0")
  case True
  then show ?thesis using repr_MSB(1) [OF assms(1)] repr_default by (simp add: Big_LShift_def)
next
  case False
  let ?v = "m_value x" and ?k = "unat (drop_bit 6 s)" and ?sl = "unat (s AND 63)"
  have v: "normal ?v" "lval ?v = n" "unat (m_MSB x) = bit_len n" "?v \<noteq> []" using assms(1) by (auto simp: repr_def normal_def)
  have msb: "unat (m_MSB x + ucast s) = bit_len (n * 2 ^ unat s)"
    using assms(2) v(3) False by (simp add: bit_len_mult_power big_fits_def unat_word_ariths(1) unat_ucast_16_32)
  obtain ws where ws: "Big_LShift x s = \<lparr>m_MSB = m_MSB x + ucast s, m_value = replicate ?k 0 @ ws\<rparr>" "normal ws" "lval ws = n * 2 ^ ?sl"
  proof (cases "?sl = 0")
    case True
    then have "s AND 63 = 0" by (simp add: unat_eq_zero)
    then show ?thesis using that [of ?v] v False repr_MSB(1) [OF assms(1)] by (simp add: Big_LShift_def Let_def)
  next
    case sl: False
    then have s0: "s AND 63 \<noteq> 0" by auto
    obtain us out where r: "carry_limbs ?sl 0 ?v = (us, out)" by (cases "carry_limbs ?sl 0 ?v")
    have c: "length us = length ?v" "lval us + 2 ^ (64 * length ?v) * unat out = 2 ^ ?sl * n"
      using carry_limbs_ok [of ?sl 0 ?v] shift_parts(2) [of s] r v(2) by simp_all
    have u: "unat out < 2 ^ 64" using carry_limbs_ok [of ?sl 0 ?v] shift_parts(2) [of s] r power_increasing [of ?sl 64 "2 :: nat"] by auto
    let ?w = "if out \<noteq> 0 then us @ [ucast out] else us"
    have val: "lval ?w = n * 2 ^ ?sl" using c u by (cases "out = 0") (simp_all add: lval_append unat_ucast_64 mult.commute)
    have "?w \<noteq> []" using c(1) v(4) by auto
    moreover have "2 ^ (64 * (length ?w - 1)) \<le> lval ?w"
    proof (cases "out = 0")
      case True
      have "2 ^ (64 * (length ?v - 1)) \<le> n" using normal_tight [OF v(1)] v(2) False by simp
      also have "\<dots> \<le> n * 2 ^ ?sl" by simp
      finally show ?thesis using True c(1) val by simp
    next
      case out: False
      then have "1 \<le> unat out" by (simp add: Suc_le_eq unat_gt_0)
      then have "2 ^ (64 * length ?v) * 1 \<le> 2 ^ (64 * length ?v) * unat out" by (rule mult_le_mono2)
      also have "\<dots> \<le> n * 2 ^ ?sl" unfolding mult.commute [of n] c(2) [symmetric] by simp
      finally show ?thesis using out c(1) val by simp
    qed
    ultimately have "normal ?w" by (rule normal_tightI)
    moreover have "Big_LShift x s = \<lparr>m_MSB = m_MSB x + ucast s, m_value = replicate ?k 0 @ ?w\<rparr>"
      using False repr_MSB(1) [OF assms(1)] s0 r by (simp add: Big_LShift_def Let_def unat_eq_zero)
    ultimately show ?thesis using that val by blast
  qed
  have "normal (replicate ?k 0 @ ws)" using ws(2) normal_tight [OF ws(2)] ws(3) False by (cases ws rule: rev_cases) (auto simp: normal_def)
  moreover have "lval (replicate ?k 0 @ ws) = n * 2 ^ unat s"
    unfolding lval_shift ws(3) shift_parts(1) [of s] by (simp add: power_add)
  ultimately show ?thesis using ws(1) msb by (simp add: repr_def)
qed

lemma Big_LShiftEq_LShift: "repr x n \<Longrightarrow> big_fits (n * 2 ^ unat s) \<Longrightarrow> repr (Big_LShiftEq x s) (n * 2 ^ unat s)"
  using repr_LShift [of x n s] repr_MSB(1) [of x n] by (cases "m_MSB x = 0") (auto simp: Big_LShiftEq_def Big_LShift_def)

lemma repr_RShift:
  assumes "repr x n"
  shows "\<exists>y. Big_RShift x s = Inr y \<and> repr y (n div 2 ^ unat s)"
proof -
  have u: "unat (m_MSB x) = bit_len n" using assms by (simp add: repr_def)
  show ?thesis
  proof (cases "bit_len n \<le> unat s")
    case True
    then have "n div 2 ^ unat s = 0" by (simp add: bit_len_le_iff)
    moreover have "m_MSB x \<le> ucast s" using True u by (simp add: word_le_nat_alt unat_ucast_16_32)
    ultimately show ?thesis using repr_limb [of 0] by (simp add: Big_RShift_def)
  next
    case False
    let ?v = "m_value x" and ?k = "unat (drop_bit 6 s)" and ?sr = "unat (s AND 63)"
    have v: "normal ?v" "lval ?v = n" using assms by (simp_all add: repr_def)
    have n0: "0 < n" using False by (cases n) simp_all
    have len: "length ?v = (bit_len n - 1) div 64 + 1" using repr_length [OF assms] n0 by simp
    have "64 * ?k \<le> bit_len n - 1" using False shift_parts(1) [of s] by simp
    then have "?k \<le> (bit_len n - 1) div 64" by (simp add: div_greater_zero_iff less_eq_div_iff_mult_less_eq mult.commute)
    then have k: "?k < length ?v" using len by simp
    let ?t = "drop (?k + 1) ?v" and ?c = "ucast (drop_bit ?sr (?v ! ?k)) :: u128"
    obtain ws out where r: "carry_limbs (64 - ?sr) ?c ?t = (ws, out)" by (cases "carry_limbs (64 - ?sr) ?c ?t")
    have c: "unat ?c = unat (?v ! ?k) div 2 ^ ?sr" by (simp only: unat_ucast_128 unat_drop_bit)
    have sr: "?sr < 64" by (rule shift_parts(2))
    have "(2 :: nat) ^ 64 = 2 ^ (64 - ?sr) * 2 ^ ?sr" using sr by (simp only: power_add [symmetric]) simp
    then have "unat ?c < 2 ^ (64 - ?sr)" using unat_less_64 [of "?v ! ?k"] unfolding c by (simp add: less_mult_imp_div_less)
    from carry_limbs_ok [OF _ this, of ?t] have cl: "length ws = length ?t" "unat out < 2 ^ (64 - ?sr)"
      "lval ws + 2 ^ (64 * length ?t) * unat out = unat ?c + 2 ^ (64 - ?sr) * lval ?t" using r by simp_all
    have out: "unat out < 2 ^ 64" using cl(2) power_increasing [of "64 - ?sr" 64 "2 :: nat"] by simp
    have quot: "n div 2 ^ unat s = unat ?c + 2 ^ (64 - ?sr) * lval ?t"
    proof -
      have "n div 2 ^ unat s = n div 2 ^ (64 * ?k) div 2 ^ ?sr" unfolding shift_parts(1) [of s] by (simp add: power_add div_mult2_eq)
      also have "n div 2 ^ (64 * ?k) = unat (?v ! ?k) + 2 ^ 64 * lval ?t"
        using lval_split [of ?k ?v] lval_take_less [of ?k ?v] k v(2) lval_drop_nth [OF k] by (simp add: div_add1_eq)
      also have "\<dots> = unat (?v ! ?k) + 2 ^ ?sr * (2 ^ (64 - ?sr) * lval ?t)"
        using sr by (simp only: mult.assoc [symmetric] power_add [symmetric]) simp
      also have "\<dots> div 2 ^ ?sr = unat (?v ! ?k) div 2 ^ ?sr + 2 ^ (64 - ?sr) * lval ?t" by simp
      finally show ?thesis unfolding c .
    qed
    let ?w = "if out \<noteq> 0 then ws @ [ucast out] else ws"
    have val: "lval ?w = n div 2 ^ unat s" using cl out unfolding quot by (cases "out = 0") (simp_all add: lval_append unat_ucast_64)
    have pos: "0 < n div 2 ^ unat s" using False by (simp add: bit_len_le_iff div_greater_zero_iff)
    have tight: "2 ^ (64 * (length ?w - 1)) \<le> lval ?w"
    proof (cases "out = 0")
      case True
      have "?t \<noteq> []"
      proof
        assume "?t = []"
        then show False using cl val True pos by simp
      qed
      then have t: "0 < length ?t" by simp
      have "2 ^ (64 * (length ?t - 1)) \<le> lval ?t"
      proof -
        have "last ?t = last ?v" using t by (simp add: last_drop)
        moreover have "1 < length ?v" using t k by simp
        ultimately have "normal ?t" using v(1) t by (simp add: normal_def)
        moreover have "0 < lval ?t" using lval_butlast [of ?t] t \<open>last ?t = last ?v\<close> v(1) \<open>1 < length ?v\<close> by (simp add: normal_def unat_gt_0)
        ultimately show ?thesis by (rule normal_tight)
      qed
      also have "\<dots> \<le> 2 ^ (64 - ?sr) * lval ?t" by simp
      also have "\<dots> \<le> lval ?w" unfolding val quot by simp
      finally show ?thesis using True cl(1) by simp
    next
      case o: False
      then have "1 \<le> unat out" by (simp add: Suc_le_eq unat_gt_0)
      then have "2 ^ (64 * length ?t) * 1 \<le> 2 ^ (64 * length ?t) * unat out" by (rule mult_le_mono2)
      also have "\<dots> \<le> lval ?w" unfolding val quot cl(3) [symmetric] by simp
      finally show ?thesis using o cl(1) by simp
    qed
    have "?w \<noteq> []" using val pos by auto
    then have nm: "normal ?w" using tight by (rule normal_tightI)
    have "unat (ucast s :: u32) < unat (m_MSB x)" using False u by (simp add: unat_ucast_16_32)
    then have "unat (m_MSB x - ucast s) = bit_len n - unat s" "\<not> m_MSB x \<le> ucast s"
      using u by (simp_all add: unat_sub word_le_nat_alt unat_ucast_16_32)
    then have "Big_RShift x s = Inr \<lparr>m_MSB = m_MSB x - ucast s, m_value = ?w\<rparr>" "unat (m_MSB x - ucast s) = bit_len (n div 2 ^ unat s)"
      using r k by (simp_all add: Big_RShift_def get_at_def Let_def bit_len_div_power)
    then show ?thesis using nm val by (simp add: repr_def)
  qed
qed

lemma Big_RShiftEq_RShift: "Big_RShiftEq x s = Big_RShift x s"
  by (simp add: Big_RShiftEq_def Big_RShift_def ubint_of_limb_def GetMSB_def)

end
