(* ===== verification/KnuthD.thy ===== *)
theory KnuthD
  imports BigIntSem
begin

text \<open>
  The division of multi-precision integers: the estimate of a quotient digit, the subtraction of its multiple in
  two's complement, the loop over the digits, normalisation and remainder, and the division of objects.
\<close>

subsection \<open>Division: the quotient digit\<close>

lemma unat_join:
  assumes "unat (a :: u128) < 2 ^ 64"
  shows "unat (push_bit 64 a OR ucast (b :: u64)) = unat a * 2 ^ 64 + unat b"
proof -
  have "unat a * 2 ^ 64 < 2 ^ 64 * 2 ^ 64" using assms by simp
  then show ?thesis using unat_or_disjoint [of "ucast b" 64 a] unat_less_64 [of b] by (simp add: or.commute)
qed

lemma drop_bit_64_eq_0: "drop_bit 64 (x :: u128) = 0 \<longleftrightarrow> unat x < 2 ^ 64"
proof -
  have "drop_bit 64 x = 0 \<longleftrightarrow> unat (drop_bit 64 x) = 0" by (rule unat_eq_zero [symmetric])
  also have "\<dots> \<longleftrightarrow> unat x < 2 ^ 64" by (simp only: unat_drop_bit) (simp add: div_eq_0_iff)
  finally show ?thesis .
qed

text \<open>
  For normalised divisors the corrected digit is at least the true one, and its product with the top two limbs of
  the divisor does not exceed the top three limbs of the dividend.
\<close>

lemma qhat_loop_ok:
  assumes "unat qhat * unat v1 + unat rhat = N" "N < unat v1 * 2 ^ 64 + 2 ^ 64" "unat rhat < 2 ^ 64" "unat qhat < 2 ^ 65"
    "q \<le> unat qhat" "q < 2 ^ 64" "q * (unat v1 * 2 ^ 64 + unat v2) \<le> N * 2 ^ 64 + unat u2"
  shows "q \<le> unat (qhat_loop v1 v2 u2 qhat rhat) \<and> unat (qhat_loop v1 v2 u2 qhat rhat) < 2 ^ 64 \<and>
    unat (qhat_loop v1 v2 u2 qhat rhat) * (unat v1 * 2 ^ 64 + unat v2) \<le> N * 2 ^ 64 + unat u2"
  using assms
proof (induction v1 v2 u2 qhat rhat rule: qhat_loop.induct)
  case (1 v1 v2 u2 qhat rhat)
  note N = "1.prems"(1) and Nb = "1.prems"(2) and rb = "1.prems"(3) and qb = "1.prems"(4) and ql = "1.prems"(5-7)
  let ?c = "drop_bit 64 qhat \<noteq> 0 \<or> qhat * ucast v2 > (push_bit 64 rhat OR ucast u2)"
  have prod: "unat (qhat * ucast v2) = unat qhat * unat v2" if "unat qhat < 2 ^ 64"
  proof -
    have "unat qhat * unat v2 < 2 ^ 64 * 2 ^ 64" using that unat_less_64 [of v2] by (intro mult_strict_mono) simp_all
    then show ?thesis by (simp add: unat_word_ariths(2))
  qed
  have top: "x * (unat v1 * 2 ^ 64 + unat v2) = (x * unat v1 + r) * 2 ^ 64 + x * unat v2 - r * 2 ^ 64" for x r
    by (simp add: algebra_simps)
  show ?case
  proof (cases ?c)
    case False
    then have lt: "unat qhat < 2 ^ 64" by (simp add: drop_bit_64_eq_0)
    have "unat qhat * unat v2 \<le> unat rhat * 2 ^ 64 + unat u2"
      using False unat_join [OF rb, of u2] prod [OF lt] by (simp add: word_less_nat_alt not_less)
    then have "unat qhat * (unat v1 * 2 ^ 64 + unat v2) \<le> N * 2 ^ 64 + unat u2"
      unfolding N [symmetric] by (simp add: algebra_simps)
    then show ?thesis using False lt ql by (subst (1 2 3) qhat_loop.simps) simp
  next
    case True
    have less: "q < unat qhat"
    proof (cases "unat qhat < 2 ^ 64")
      case False
      then show ?thesis using ql by simp
    next
      case lt: True
      then have "unat rhat * 2 ^ 64 + unat u2 < unat qhat * unat v2"
        using True unat_join [OF rb, of u2] prod [OF lt] by (auto simp: drop_bit_64_eq_0 word_less_nat_alt)
      then have "N * 2 ^ 64 + unat u2 < unat qhat * (unat v1 * 2 ^ 64 + unat v2)" unfolding N [symmetric] by (simp add: algebra_simps)
      then have "q * (unat v1 * 2 ^ 64 + unat v2) < unat qhat * (unat v1 * 2 ^ 64 + unat v2)" using ql(3) by linarith
      then show ?thesis by (simp only: mult_less_cancel2)
    qed
    let ?q = "qhat - 1" and ?r = "rhat + ucast v1"
    have uq: "unat ?q = unat qhat - 1" using less by (intro unat_minus_one) auto
    have ur: "unat ?r = unat rhat + unat v1" using rb unat_less_64 [of v1] by (simp add: unat_word_ariths(1))
    have N': "unat ?q * unat v1 + unat ?r = N" using less N unfolding uq ur by (cases "unat qhat") simp_all
    show ?thesis
    proof (cases "drop_bit 64 ?r = 0")
      case r: True
      have step: "qhat_loop v1 v2 u2 qhat rhat = qhat_loop v1 v2 u2 ?q ?r" using True r by (subst qhat_loop.simps) (simp add: Let_def)
      show ?thesis unfolding step using r qb less uq by (intro "1.IH" [OF True refl refl]) (use N' Nb ql r in \<open>simp_all add: drop_bit_64_eq_0\<close>)
    next
      case False
      have step: "qhat_loop v1 v2 u2 qhat rhat = ?q" using True False by (subst qhat_loop.simps) (simp add: Let_def)
      have big: "2 ^ 64 \<le> unat ?r" using False by (simp add: drop_bit_64_eq_0)
      have lt: "unat ?q < 2 ^ 64"
      proof (rule ccontr)
        assume "\<not> ?thesis"
        then have "2 ^ 64 * unat v1 \<le> unat ?q * unat v1" by (intro mult_le_mono1) simp
        then show False using N' Nb big mult.commute [of "2 ^ 64" "unat v1"] by linarith
      qed
      have "unat ?q * unat v2 \<le> 2 ^ 64 * 2 ^ 64" using lt unat_less_64 [of v2] by (intro mult_le_mono) simp_all
      also have "\<dots> \<le> unat ?r * 2 ^ 64" using big by simp
      finally have "unat ?q * (unat v1 * 2 ^ 64 + unat v2) \<le> N * 2 ^ 64 + unat u2" unfolding N' [symmetric] by (simp add: algebra_simps)
      then show ?thesis unfolding step using lt less uq by simp
    qed
  qed
qed

subsection \<open>Division: subtracting a multiple of the divisor\<close>

lemma sint_small_128: "- (2 ^ 100) \<le> x \<Longrightarrow> x < 2 ^ 100 \<Longrightarrow> sint (word_of_int x :: u128) = x"
  unfolding sint_sbintrunc' by (intro signed_take_bit_int_eq_self) simp_all

lemma uint_small_128: "0 \<le> x \<Longrightarrow> x < 2 ^ 128 \<Longrightarrow> uint (word_of_int x :: u128) = x"
  by (simp add: uint_word_of_int)

lemma signed_drop_64: "- (2 ^ 100) \<le> x \<Longrightarrow> x < 2 ^ 100 \<Longrightarrow> signed_drop_bit 64 (word_of_int x :: u128) = word_of_int (x div 2 ^ 64)"
proof -
  assume x: "- (2 ^ 100) \<le> x" "x < 2 ^ 100"
  have "sint (signed_drop_bit 64 (word_of_int x :: u128)) = x div 2 ^ 64"
    unfolding sint_signed_drop_bit_eq sint_small_128 [OF x] by (simp add: drop_bit_eq_div)
  from arg_cong [OF this, of "word_of_int :: int \<Rightarrow> u128"] show ?thesis by simp
qed

lemma ucast_64_of_int: "ucast (word_of_int x :: u128) = (word_of_int x :: u64)"
  by (rule bit_eqI) (simp add: bit_ucast_iff bit_word_of_int_iff)

lemma take_bit_word_of_int_64: "take_bit 64 (word_of_int x :: u128) = word_of_int (x mod 2 ^ 64)"
  unfolding take_bit_eq_mod [symmetric] by (rule bit_eqI) (auto simp: bit_take_bit_iff bit_word_of_int_iff)

lemma drop_64_of_int: "0 \<le> x \<Longrightarrow> x < 2 ^ 128 \<Longrightarrow> drop_bit 64 (word_of_int x :: u128) = word_of_int (x div 2 ^ 64)"
proof -
  assume x: "0 \<le> x" "x < 2 ^ 128"
  have "uint (drop_bit 64 (word_of_int x :: u128)) = drop_bit 64 x"
    unfolding unsigned_drop_bit_eq uint_small_128 [OF x] using x by (simp add: take_bit_int_eq_self)
  from arg_cong [OF this, of "word_of_int :: int \<Rightarrow> u128"] show ?thesis by (simp add: drop_bit_eq_div)
qed

lemma uint_64_of_int: "uint (word_of_int x :: u64) = x mod 2 ^ 64"
  by (simp add: uint_word_of_int)

text \<open>The carry of the subtraction is \<open>k\<close>: what has been borrowed from the limbs above.\<close>

lemma mul_sub_ok:
  assumes "length us = length vs" "uint qhat < 2 ^ 64" "uint k < 2 ^ 64"
  shows "length (fst (mul_sub qhat k us vs)) = length us \<and> uint (snd (mul_sub qhat k us vs)) < 2 ^ 64 \<and>
    int (lval (fst (mul_sub qhat k us vs))) - 2 ^ (64 * length us) * uint (snd (mul_sub qhat k us vs)) =
      int (lval us) - uint k - uint qhat * int (lval vs)"
  using assms
proof (induction us vs arbitrary: k rule: list_induct2)
  case (Cons u us v vs)
  define p where "p = uint qhat * uint v"
  define t where "t = uint u - uint k - p mod 2 ^ 64"
  define k' where "k' = p div 2 ^ 64 - t div 2 ^ 64"
  have b: "0 \<le> uint u" "uint u < 2 ^ 64" "0 \<le> uint v" "uint v < 2 ^ 64" "0 \<le> uint qhat" "0 \<le> uint k"
    using uint_bounded [of u] uint_bounded [of v] by simp_all
  have pb: "0 \<le> p" "p \<le> (2 ^ 64 - 1) * (2 ^ 64 - 1)" unfolding p_def
    using b Cons.prems(1) by (simp, intro mult_mono) simp_all
  have "uint (ucast v :: u128) = uint v" by (simp only: uint_nat unat_ucast_128)
  then have "uint (qhat * ucast v) = p" using pb by (simp add: p_def uint_word_ariths)
  then have pw: "qhat * ucast v = word_of_int p" by (metis word_of_int_uint)
  have "t div 2 ^ 64 = (uint u - uint k - p) div 2 ^ 64 + p div 2 ^ 64"
  proof -
    have "t = (uint u - uint k - p) + 2 ^ 64 * (p div 2 ^ 64)" unfolding t_def using mult_div_mod_eq [of "2 ^ 64" p] by linarith
    then show ?thesis by (simp only: div_mult_self2 power_not_zero) simp
  qed
  then have k': "k' = - ((uint u - uint k - p) div 2 ^ 64)" by (simp add: k'_def)
  have k0: "0 \<le> k'"
  proof -
    have "uint u - uint k - p \<le> 2 ^ 64 - 1" using b pb by linarith
    from zdiv_mono1 [OF this, of "2 ^ 64"] show ?thesis unfolding k' by simp
  qed
  have k64: "k' < 2 ^ 64"
  proof -
    have "- (2 ^ 64 - 1) * 2 ^ 64 \<le> uint u - uint k - p" using pb(2) Cons.prems(2) by (simp, insert b(1), linarith)
    from zdiv_mono1 [OF this, of "2 ^ 64"] have "- (2 ^ 64 - 1) \<le> (uint u - uint k - p) div 2 ^ 64"
      by (simp only: nonzero_mult_div_cancel_right power_not_zero zero_less_power) simp
    then show ?thesis unfolding k' by simp
  qed
  have "t < 2 ^ 64" "- (2 ^ 64) - 2 ^ 64 \<le> t" unfolding t_def using b Cons.prems(2) pos_mod_bound [of "2 ^ 64" p] pos_mod_sign [of "2 ^ 64" p] by linarith+
  then have tb: "- (2 ^ 100) \<le> t" "t < 2 ^ 100" by simp_all
  have vw: "ucast u - k - (qhat * ucast v AND ucast m_MaxLimb) = word_of_int t"
  proof -
    have "(ucast m_MaxLimb :: u128) = mask 64" by (simp add: m_MaxLimb_def mask_eq_exp_minus_1 unsigned_minus_1_eq_mask)
    then have "(word_of_int p AND ucast m_MaxLimb :: u128) = word_of_int (p mod 2 ^ 64)"
      by (simp only: take_bit_eq_mask [symmetric] take_bit_word_of_int_64)
    moreover have "ucast u - k = word_of_int (uint u - uint k)" by (simp only: ucast_eq wi_hom_sub [symmetric] word_of_int_uint)
    ultimately show ?thesis unfolding pw t_def by (simp only: wi_hom_sub)
  qed
  have kw: "drop_bit 64 (qhat * ucast v) - signed_drop_bit 64 (word_of_int t :: u128) = word_of_int k'"
  proof -
    have "drop_bit 64 (word_of_int p :: u128) = word_of_int (p div 2 ^ 64)" using pb by (intro drop_64_of_int) simp_all
    then show ?thesis unfolding pw signed_drop_64 [OF tb] k'_def by (simp only: wi_hom_sub)
  qed
  obtain ws kk where r: "mul_sub qhat (word_of_int k') us vs = (ws, kk)" by (cases "mul_sub qhat (word_of_int k') us vs")
  have uk: "uint (word_of_int k' :: u128) = k'" using k0 k64 by (intro uint_small_128) simp_all
  have ih: "length ws = length us" "uint kk < 2 ^ 64" "int (lval ws) - 2 ^ (64 * length us) * uint kk = int (lval us) - k' - uint qhat * int (lval vs)"
    using Cons.IH [OF Cons.prems(1), of "word_of_int k'"] k64 r uk by simp_all
  have split: "t mod 2 ^ 64 - 2 ^ 64 * k' = uint u - uint k - p"
    unfolding k'_def using mult_div_mod_eq [of "2 ^ 64" t] mult_div_mod_eq [of "2 ^ 64" p] unfolding t_def by (simp add: algebra_simps)
  have "int (lval (word_of_int t # ws)) - 2 ^ (64 * length (u # us)) * uint kk = t mod 2 ^ 64 + 2 ^ 64 * (int (lval ws) - 2 ^ (64 * length us) * uint kk)"
    using uint_64_of_int [of t] by (simp add: power_add algebra_simps)
  also have "\<dots> = (t mod 2 ^ 64 - 2 ^ 64 * k') + 2 ^ 64 * int (lval us) - uint qhat * (2 ^ 64 * int (lval vs))"
    unfolding ih(3) by (simp add: algebra_simps)
  also have "\<dots> = int (lval (u # us)) - uint k - uint qhat * int (lval (v # vs))"
    unfolding split p_def by (simp add: algebra_simps)
  finally have "int (lval (word_of_int t # ws)) - 2 ^ (64 * length (u # us)) * uint kk = int (lval (u # us)) - uint k - uint qhat * int (lval (v # vs))" .
  moreover have "mul_sub qhat k (u # us) (v # vs) = (word_of_int t # ws, kk)"
    using r by (simp only: mul_sub.simps Let_def vw kw ucast_64_of_int prod.case)
  ultimately show ?case using ih by simp
qed simp

lemma add_back_ok:
  assumes "length us = length vs" "uint k \<le> 1"
  shows "length (fst (add_back k us vs)) = length us \<and> uint (snd (add_back k us vs)) \<le> 1 \<and>
    int (lval (fst (add_back k us vs))) + 2 ^ (64 * length us) * uint (snd (add_back k us vs)) =
      int (lval us) + int (lval vs) + uint k"
  using assms
proof (induction us vs arbitrary: k rule: list_induct2)
  case (Cons u us v vs)
  define t where "t = uint u + uint v + uint k"
  have b: "0 \<le> uint u" "uint u < 2 ^ 64" "0 \<le> uint v" "uint v < 2 ^ 64" "0 \<le> uint k"
    using uint_bounded [of u] uint_bounded [of v] by simp_all
  have "0 \<le> t" "t \<le> 2 * 2 ^ 64 - 1" unfolding t_def using b Cons.prems(1) by linarith+
  then have tb: "- (2 ^ 100) \<le> t" "t < 2 ^ 100" by simp_all
  have vw: "ucast u + ucast v + k = word_of_int t"
    unfolding t_def by (simp only: ucast_eq wi_hom_add [symmetric] word_of_int_uint)
  have "0 \<le> t div 2 ^ 64" using \<open>0 \<le> t\<close> by simp
  moreover have "t div 2 ^ 64 \<le> 1" using zdiv_mono1 [OF \<open>t \<le> 2 * 2 ^ 64 - 1\<close>, of "2 ^ 64"] by simp
  ultimately have uk: "t div 2 ^ 64 \<le> 1" "uint (word_of_int (t div 2 ^ 64) :: u128) = t div 2 ^ 64"
    by (simp, intro uint_small_128, simp_all)
  obtain ws kk where r: "add_back (word_of_int (t div 2 ^ 64)) us vs = (ws, kk)" by (cases "add_back (word_of_int (t div 2 ^ 64)) us vs")
  have ih: "length ws = length us" "uint kk \<le> 1" "int (lval ws) + 2 ^ (64 * length us) * uint kk = int (lval us) + int (lval vs) + t div 2 ^ 64"
    using Cons.IH [of "word_of_int (t div 2 ^ 64)"] uk r by simp_all
  have "int (lval (word_of_int t # ws)) + 2 ^ (64 * length (u # us)) * uint kk = t mod 2 ^ 64 + 2 ^ 64 * (int (lval ws) + 2 ^ (64 * length us) * uint kk)"
    using uint_64_of_int [of t] by (simp add: power_add algebra_simps)
  also have "\<dots> = (t mod 2 ^ 64 + 2 ^ 64 * (t div 2 ^ 64)) + 2 ^ 64 * int (lval us) + 2 ^ 64 * int (lval vs)"
    unfolding ih(3) by (simp only: distrib_left add_ac)
  also have "\<dots> = int (lval (u # us)) + int (lval (v # vs)) + uint k" unfolding mod_mult_div_eq unfolding t_def by simp
  finally have "int (lval (word_of_int t # ws)) + 2 ^ (64 * length (u # us)) * uint kk = int (lval (u # us)) + int (lval (v # vs)) + uint k" .
  moreover have "add_back k (u # us) (v # vs) = (word_of_int t # ws, kk)"
    using r by (simp only: add_back.simps Let_def vw signed_drop_64 [OF tb] ucast_64_of_int prod.case)
  ultimately show ?case using ih by simp
qed simp

subsection \<open>Division: one step of the loop\<close>

text \<open>The top limbs of a window and of a divisor decide the quotient digit up to one.\<close>

lemma top_limbs:
  assumes "2 \<le> length v"
  obtains l where "lval v = 2 ^ (64 * (length v - 2)) * (unat (v ! (length v - 1)) * 2 ^ 64 + unat (v ! (length v - 2))) + l"
    "l < 2 ^ (64 * (length v - 2))"
proof -
  define k where "k = length v - 2"
  have k: "length v = Suc (Suc k)" using assms by (simp add: k_def)
  have "lval v = lval (take k v) + 2 ^ (64 * k) * lval (drop k v)" using lval_split [of k v] k by simp
  also have "lval (drop k v) = unat (v ! k) + 2 ^ 64 * unat (v ! Suc k)"
    using k by (simp add: lval_drop_nth)
  finally have "lval v = 2 ^ (64 * k) * (unat (v ! Suc k) * 2 ^ 64 + unat (v ! k)) + lval (take k v)" by simp
  then show ?thesis using that [of "lval (take k v)"] lval_take_less [of k v] k by simp
qed

lemma digit_lower:
  assumes "W = P * u + lw" "lw < P" "V = P * v + lv" "(q :: nat) * V \<le> W"
  shows "q * v \<le> u"
proof -
  have "q * (P * v) \<le> q * V" using assms(3) by (intro mult_le_mono2) simp
  then have "P * (q * v) < P * (u + 1)" using assms mult.left_commute [of q P v] distrib_left [of P u 1] by linarith
  then show ?thesis by (simp only: mult_less_cancel1) simp
qed

lemma digit_upper:
  assumes "W = P * u + lw" "V = P * v + lv" "lv < P" "(q :: nat) * v \<le> u" "q * P \<le> V" "0 < V"
  shows "q \<le> W div V + 1"
proof -
  have "q * V \<le> q * (P * v) + q * P" using assms(3) unfolding assms(2) by (simp add: distrib_left)
  also have "q * (P * v) = P * (q * v)" by (rule mult.left_commute)
  also have "P * (q * v) \<le> W" using mult_le_mono2 [OF assms(4), of P] assms(1) by linarith
  also have "W + q * P \<le> W + V" using assms(5) by simp
  finally have "q * V \<le> W + V" by simp
  from div_le_mono [OF this, of V] have "q \<le> (W + V) div V" using assms(6) by simp
  then show ?thesis using assms(6) by simp
qed


lemma quotient_digit:
  fixes u0 u1 u2 v1 v2 :: u64
  assumes W: "W = P * ((unat u0 * 2 ^ 64 + unat u1) * 2 ^ 64 + unat u2) + lw" "lw < P"
    and V: "V = P * (unat v1 * 2 ^ 64 + unat v2) + lv" "lv < P" and v1: "2 ^ 63 \<le> unat v1" and lt: "W < 2 ^ 64 * V"
  defines "ofl \<equiv> push_bit 64 (ucast u0) OR ucast u1 :: u128"
  defines "qhat \<equiv> qhat_loop v1 v2 u2 (ofl div ucast v1) (ofl mod ucast v1)"
  shows "W div V \<le> unat qhat \<and> unat qhat \<le> W div V + 1 \<and> unat qhat < 2 ^ 64"
proof -
  define N where "N = unat u0 * 2 ^ 64 + unat u1"
  have P: "0 < P" using W(2) by simp
  have V0: "0 < V" using lt by (cases V) simp_all
  have ofl: "unat ofl = N" using unat_join [of "ucast u0" u1] unat_less_64 [of u0] by (simp add: ofl_def N_def)
  have q0: "unat (ofl div ucast v1) = N div unat v1" "unat (ofl mod ucast v1) = N mod unat v1"
    by (simp_all only: unat_div_distrib unat_mod_distrib ofl unat_ucast_128)
  have u0: "unat u0 \<le> unat v1"
  proof -
    have "P * 2 ^ 64 * 2 ^ 64 * unat u0 \<le> W" unfolding W(1) by (simp add: algebra_simps)
    also have "W < 2 ^ 64 * V" by (rule lt)
    also have "2 ^ 64 * V \<le> 2 ^ 64 * (P * (unat v1 * 2 ^ 64 + unat v2 + 1))" using V by (intro mult_le_mono2) simp
    also have "\<dots> \<le> 2 ^ 64 * (P * ((unat v1 + 1) * 2 ^ 64))" using unat_less_64 [of v2] by (intro mult_le_mono2) simp
    also have "\<dots> = P * 2 ^ 64 * 2 ^ 64 * (unat v1 + 1)" by (simp only: mult_ac)
    finally show ?thesis using P by (simp only: mult_less_cancel1) simp
  qed
  have Nb: "N < unat v1 * 2 ^ 64 + 2 ^ 64" unfolding N_def using u0 unat_less_64 [of u1] by (intro add_le_less_mono) simp_all
  have rb: "N mod unat v1 < 2 ^ 64" using v1 unat_less_64 [of v1] by (intro less_trans [OF mod_less_divisor]) simp_all
  have qb: "N div unat v1 < 2 ^ 65"
  proof (rule less_mult_imp_div_less)
    have "2 ^ 64 \<le> unat v1 * 2 ^ 64" using v1 by (simp add: Suc_le_eq)
    then show "N < 2 ^ 65 * unat v1" using Nb by simp
  qed
  have low: "W div V * (unat v1 * 2 ^ 64 + unat v2) \<le> N * 2 ^ 64 + unat u2"
    using digit_lower [OF W V(1), of "W div V"] unfolding N_def by simp
  have lo: "W div V \<le> N div unat v1"
  proof -
    have "(W div V * unat v1) * 2 ^ 64 < (N + 1) * 2 ^ 64" using low unat_less_64 [of u2] by (simp add: algebra_simps)
    then have "W div V * unat v1 \<le> N" by simp
    then show ?thesis using v1 by (simp add: less_eq_div_iff_mult_less_eq)
  qed
  have wb: "W div V < 2 ^ 64" using lt by (rule less_mult_imp_div_less)
  have q: "W div V \<le> unat qhat" "unat qhat < 2 ^ 64" "unat qhat * (unat v1 * 2 ^ 64 + unat v2) \<le> N * 2 ^ 64 + unat u2"
    using qhat_loop_ok [of "ofl div ucast v1" v1 "ofl mod ucast v1" N "W div V" v2 u2] Nb rb qb lo wb low unfolding q0 qhat_def by simp_all
  have "unat qhat * P \<le> V"
  proof -
    have "unat qhat * P \<le> 2 ^ 64 * P" using q(2) by (intro mult_le_mono1) simp
    also have "\<dots> \<le> unat v1 * 2 ^ 64 * P" using v1 by (intro mult_le_mono1) simp
    also have "\<dots> \<le> V" unfolding V(1) by (simp add: algebra_simps)
    finally show ?thesis .
  qed
  from digit_upper [OF W(1) V q(3) [unfolded N_def] this V0] show ?thesis using q by simp
qed

text \<open>The window \<open>w\<close> with the divisor \<open>vn\<close>: \<open>n\<close> limbs, normalised, and a quotient of one limb.\<close>

definition window :: "u64 list \<Rightarrow> u64 list \<Rightarrow> bool" where
  "window vn w \<longleftrightarrow> 2 \<le> length vn \<and> length w = length vn + 1 \<and> 2 ^ 63 \<le> unat (vn ! (length vn - 1)) \<and> lval w < 2 ^ 64 * lval vn"

lemma guess_digit_ok:
  assumes "window vn w"
  shows "lval w div lval vn \<le> unat (guess_digit vn w) \<and> unat (guess_digit vn w) \<le> lval w div lval vn + 1 \<and> unat (guess_digit vn w) < 2 ^ 64"
proof -
  let ?n = "length vn" and ?us = "take (length vn) w"
  define P :: nat where "P = 2 ^ (64 * (?n - 2))"
  have n: "2 \<le> ?n" "length w = ?n + 1" using assms by (simp_all add: window_def)
  obtain lv where V: "lval vn = P * (unat (vn ! (?n - 1)) * 2 ^ 64 + unat (vn ! (?n - 2))) + lv" "lv < P"
    using top_limbs [OF n(1)] unfolding P_def by blast
  have us: "length ?us = ?n" "?us ! (?n - 1) = w ! (?n - 1)" "?us ! (?n - 2) = w ! (?n - 2)" using n by simp_all
  obtain l where l: "lval ?us = P * (unat (w ! (?n - 1)) * 2 ^ 64 + unat (w ! (?n - 2))) + l" "l < P"
    using top_limbs [of ?us, unfolded us] n(1) unfolding P_def by blast
  have "64 * ?n = 64 * (?n - 2) + 64 + 64" using n(1) by simp
  then have B: "(2 :: nat) ^ (64 * ?n) = P * 2 ^ 64 * 2 ^ 64" unfolding P_def by (simp only: power_add)
  have "w = ?us @ [w ! ?n]" using n(2) take_Suc_conv_app_nth [of ?n w] by simp
  then have "lval w = lval ?us + 2 ^ (64 * ?n) * unat (w ! ?n)" using lval_append [of ?us "[w ! ?n]"] us(1) by simp
  then have "lval w = P * ((unat (w ! ?n) * 2 ^ 64 + unat (w ! (?n - 1))) * 2 ^ 64 + unat (w ! (?n - 2))) + l"
    unfolding B l(1) by (simp only: distrib_left distrib_right mult_ac add_ac)
  from quotient_digit [OF this l(2) V] show ?thesis using assms by (simp add: window_def guess_digit_def Let_def)
qed

text \<open>The signed difference that is left of the top limb.\<close>

lemma mul_sub_window:
  assumes "window vn w" "mul_sub qhat 0 (take (length vn) w) vn = (ws, k)" "unat qhat < 2 ^ 64"
  defines "T \<equiv> uint (w ! length vn) - uint k"
  shows "length ws = length vn" "- (2 ^ 64) < T" "T < 2 ^ 64" "ucast (w ! length vn) - k = word_of_int T"
    "int (lval ws) + 2 ^ (64 * length vn) * T = int (lval w) - int (unat qhat) * int (lval vn)"
proof -
  let ?n = "length vn" and ?us = "take (length vn) w" and ?u = "w ! length vn"
  have n: "length w = ?n + 1" using assms(1) by (simp add: window_def)
  have us: "length ?us = ?n" using n by simp
  have "int (unat qhat) < int (2 ^ 64)" using assms(3) by (simp only: of_nat_less_iff)
  then have uq: "uint qhat < 2 ^ 64" by (simp only: uint_nat of_nat_power of_nat_numeral)
  have sub: "length ws = ?n" "uint k < 2 ^ 64" "int (lval ws) - 2 ^ (64 * ?n) * uint k = int (lval ?us) - uint qhat * int (lval vn)"
    using mul_sub_ok [OF us uq, of 0] assms(2) us by simp_all
  show "length ws = length vn" by (rule sub(1))
  have "uint ?u < 2 ^ 64" using uint_bounded [of ?u] by simp
  then show "- (2 ^ 64) < T" "T < 2 ^ 64" unfolding T_def using sub(2) uint_ge_0 [of ?u] uint_ge_0 [of k] by linarith+
  show "ucast ?u - k = word_of_int T" unfolding T_def by (simp only: ucast_eq wi_hom_sub [symmetric] word_of_int_uint)
  have "w = ?us @ [?u]" using n take_Suc_conv_app_nth [of ?n w] by simp
  then have "lval w = lval ?us + 2 ^ (64 * ?n) * unat ?u" using lval_append [of ?us "[?u]"] us by simp
  then have "int (lval w) = int (lval ?us) + 2 ^ (64 * ?n) * uint ?u" by simp
  then show "int (lval ws) + 2 ^ (64 * ?n) * T = int (lval w) - int (unat qhat) * int (lval vn)"
    using sub(3) unfolding T_def uint_nat [symmetric] by (simp add: algebra_simps)
qed

text \<open>The sign of \<open>T\<close> says whether the digit was one too large.\<close>

lemma digit_sign:
  assumes "0 \<le> l" "l < (M :: int)" "l + M * T = W - qh * V" "W = q * V + R" "0 \<le> R" "R < V" "q \<le> qh" "qh \<le> q + 1"
  shows "T < 0 \<longleftrightarrow> qh = q + 1"
proof
  assume "T < 0"
  then have "M * T \<le> M * (- 1)" using assms(1,2) by (intro mult_left_mono) simp_all
  then have "W - qh * V < 0" using assms(2,3) by linarith
  then have "qh \<noteq> q" using assms(4,5) by auto
  then show "qh = q + 1" using assms(7,8) by simp
next
  assume "qh = q + 1"
  then have "l + M * T < 0" using assms(3,4,6) by (simp add: algebra_simps)
  then show "T < 0" using assms(1,2) by (metis add_nonneg_nonneg less_le_trans linorder_not_less mult_nonneg_nonneg order_less_le)
qed

lemma carried_zero:
  assumes "0 \<le> z" "z < (M :: int)" "z + M * T = R" "0 \<le> R" "R < M"
  shows "T = 0 \<and> z = R"
proof -
  have "T = 0"
  proof (rule ccontr)
    assume "T \<noteq> 0"
    then consider "1 \<le> T" | "T \<le> - 1" by linarith
    then show False
    proof cases
      case 1
      then have "M * 1 \<le> M * T" using assms(1,2) by (intro mult_left_mono) simp_all
      then show False using assms by linarith
    next
      case 2
      then have "M * T \<le> M * (- 1)" using assms(1,2) by (intro mult_left_mono) simp_all
      then show False using assms by linarith
    qed
  qed
  then show ?thesis using assms(3) by simp
qed

lemma reduce_window_ok:
  assumes w: "window vn w"
  shows "\<exists>r. reduce_window vn w = (of_nat (lval w div lval vn), r) \<and> length r = length w \<and> lval r = lval w mod lval vn"
proof -
  let ?n = "length vn" and ?V = "lval vn" and ?q = "lval w div lval vn" and ?R = "lval w mod lval vn"
  define M :: int where "M = 2 ^ (64 * ?n)"
  define qhat where "qhat = guess_digit vn w"
  have q: "?q \<le> unat qhat" "unat qhat \<le> ?q + 1" "unat qhat < 2 ^ 64" using guess_digit_ok [OF w] by (simp_all add: qhat_def)
  obtain ws k where ws: "mul_sub qhat 0 (take ?n w) vn = (ws, k)" by (cases "mul_sub qhat 0 (take ?n w) vn")
  define T where "T = uint (w ! ?n) - uint k"
  note T = mul_sub_window [OF w ws q(3), folded T_def M_def]
  have sT: "sint (ucast (w ! ?n) - k) = T" using sint_small_128 [of T] T(2,3) unfolding T(4) by simp
  have lt: "int (lval ws) < M" "int ?V < M" using lval_less [of ws] lval_less [of vn] T(1) unfolding M_def by (simp_all add: of_nat_less_iff [symmetric])
  have V0: "0 < ?V" using w by (cases "?V") (simp_all add: window_def)
  have WqR: "int (lval w) = int ?q * int ?V + int ?R" by (metis div_mult_mod_eq of_nat_add of_nat_mult)
  have R: "int ?R < int ?V" using mod_less_divisor [OF V0, of "lval w"] by (simp only: of_nat_less_iff)
  have "int ?q \<le> int (unat qhat)" "int (unat qhat) \<le> int ?q + 1" using q by linarith+
  from digit_sign [OF _ lt(1) T(5) WqR _ R this] have "T < 0 \<longleftrightarrow> int (unat qhat) = int ?q + 1" by linarith
  also have "\<dots> \<longleftrightarrow> unat qhat = ?q + 1" by linarith
  finally have sign: "T < 0 \<longleftrightarrow> unat qhat = ?q + 1" .
  have uc: "ucast qhat = (of_nat (unat qhat) :: u64)" by (simp add: unsigned_ucast_eq)
  show ?thesis
  proof (cases "T < 0")
    case True
    obtain zs k2 where zs: "add_back 0 ws vn = (zs, k2)" by (cases "add_back 0 ws vn")
    have ab: "length zs = ?n" "int (lval zs) + M * uint k2 = int (lval ws) + int ?V"
      using add_back_ok [of ws vn 0] T(1) zs unfolding M_def by simp_all
    have qe: "unat qhat = ?q + 1" using True sign by simp
    have "int (lval zs) + M * (T + uint k2) = int ?R" using ab(2) T(5) WqR unfolding qe by (simp add: algebra_simps)
    moreover have "int (lval zs) < M" using lval_less [of zs] ab(1) unfolding M_def by (simp add: of_nat_less_iff [symmetric])
    ultimately have z: "T + uint k2 = 0" "int (lval zs) = int ?R"
      using carried_zero [of "int (lval zs)" M "T + uint k2" "int ?R"] R lt(2) by simp_all
    have "ucast (ucast (w ! ?n) - k) + ucast k2 = (word_of_int (T + uint k2) :: u64)"
      unfolding T(4) ucast_64_of_int by (simp only: wi_hom_add [symmetric] ucast_eq)
    then have "reduce_window vn w = (of_nat ?q, zs @ [0])"
      using ws zs sT True z(1) qe uc by (simp add: reduce_window_def Let_def qhat_def [symmetric])
    then show ?thesis using ab(1) z(2) w by (simp add: lval_append window_def)
  next
    case False
    have qe: "unat qhat = ?q" using False sign q by simp
    have "uint (ucast (ucast (w ! ?n) - k) :: u64) = T" unfolding T(4) ucast_64_of_int uint_64_of_int using T(3) False by simp
    then have "int (lval (ws @ [ucast (ucast (w ! ?n) - k)])) = int (lval ws) + M * T"
      using T(1) unfolding M_def by (simp add: lval_append)
    also have "\<dots> = int ?R" unfolding T(5) qe using WqR by simp
    finally have "lval (ws @ [ucast (ucast (w ! ?n) - k)]) = ?R" by linarith
    moreover have "reduce_window vn w = (of_nat ?q, ws @ [ucast (ucast (w ! ?n) - k)])"
      using ws sT False qe uc by (simp add: reduce_window_def Let_def qhat_def [symmetric])
    ultimately show ?thesis using T(1) w by (simp add: window_def)
  qed
qed

subsection \<open>Division: the loop over the digits\<close>

lemma lval_take_fits: "lval r < 2 ^ (64 * n) \<Longrightarrow> lval (take n r) = lval r"
proof (cases "n \<le> length r")
  case True
  assume "lval r < 2 ^ (64 * n)"
  then have "2 ^ (64 * n) * lval (drop n r) < 2 ^ (64 * n) * 1" using lval_split [OF True] by linarith
  then have "lval (drop n r) = 0" by (simp only: mult_less_cancel1) simp
  then show ?thesis using lval_split [OF True] by simp
qed simp

lemma div_steps_ok:
  assumes n: "2 \<le> length vn" "2 ^ 63 \<le> unat (vn ! (length vn - 1))"
    and s: "J + length vn \<le> length un" "J \<le> length q" "lval (take (length vn) (drop J un)) < lval vn"
  shows "\<exists>q' un'. fold (div_step vn) (rev [0..<J]) (q, un) = (q', un') \<and> length q' = length q \<and> length un' = length un \<and>
    drop J q' = drop J q \<and> lval (take J q') = lval (take (J + length vn) un) div lval vn \<and>
    lval (take (length vn) un') = lval (take (J + length vn) un) mod lval vn"
  using s
proof (induction J arbitrary: q un)
  case (Suc J)
  let ?n = "length vn" and ?V = "lval vn"
  define w where "w = take (?n + 1) (drop J un)"
  have w: "w = un ! J # take ?n (drop (Suc J) un)" using Suc.prems(1) by (simp add: w_def Cons_nth_drop_Suc [symmetric])
  have "lval w < 2 ^ 64 * (lval (take ?n (drop (Suc J) un)) + 1)" using unat_less_64 [of "un ! J"] by (simp add: w)
  also have "\<dots> \<le> 2 ^ 64 * ?V" using Suc.prems(3) by (intro mult_le_mono2) simp
  finally have W: "lval w < 2 ^ 64 * ?V" .
  then have win: "window vn w" using n Suc.prems(1) by (simp add: window_def w_def)
  have V0: "0 < ?V" using W by (cases "?V") simp_all
  obtain r where r: "reduce_window vn w = (of_nat (lval w div ?V), r)" "length r = ?n + 1" "lval r = lval w mod ?V"
    using reduce_window_ok [OF win] win by (auto simp: window_def)
  define q1 where "q1 = q[J := of_nat (lval w div ?V)]"
  define un1 where "un1 = take J un @ r @ drop (J + ?n + 1) un"
  have step: "div_step vn J (q, un) = (q1, un1)" using r(1) by (simp add: div_step_def w_def [unfolded Suc_eq_plus1 [symmetric]] q1_def un1_def Let_def)
  have len: "length q1 = length q" "length un1 = length un" using Suc.prems(1) r(2) by (simp_all add: q1_def un1_def)
  have rV: "lval r < ?V" using r(3) V0 by simp
  then have rn: "lval (take ?n r) = lval r" using lval_less [of vn] by (intro lval_take_fits) linarith
  have tk: "take ?n (drop J un1) = take ?n r" "take (J + ?n) un1 = take J un @ take ?n r"
    using Suc.prems(1) r(2) by (simp_all add: un1_def)
  have "lval (take ?n (drop J un1)) < ?V" using rV rn tk(1) by simp
  then obtain q' un' where ih: "fold (div_step vn) (rev [0..<J]) (q1, un1) = (q', un')" "length q' = length q1" "length un' = length un1"
    "drop J q' = drop J q1" "lval (take J q') = lval (take (J + ?n) un1) div ?V" "lval (take ?n un') = lval (take (J + ?n) un1) mod ?V"
    using Suc.IH [of un1 q1] Suc.prems(1,2) len by auto
  define U1 where "U1 = lval (take (J + ?n) un1)"
  have U1: "U1 = lval (take J un) + 2 ^ (64 * J) * (lval w mod ?V)" using Suc.prems(1) tk(2) rn r(3) by (simp add: U1_def lval_append)
  have "take (Suc J + ?n) un = take J un @ w" using Suc.prems(1) by (simp add: w_def take_add [symmetric])
  then have "lval (take (Suc J + ?n) un) = lval (take J un) + 2 ^ (64 * J) * lval w" using Suc.prems(1) by (simp add: lval_append)
  also have "2 ^ (64 * J) * lval w = 2 ^ (64 * J) * (lval w mod ?V) + 2 ^ (64 * J) * (lval w div ?V) * ?V"
    by (metis add_mult_distrib2 mod_div_mult_eq mult.assoc)
  finally have U: "lval (take (Suc J + ?n) un) = U1 + 2 ^ (64 * J) * (lval w div ?V) * ?V" by (simp only: U1 add.assoc)
  have qJ: "unat (q' ! J) = lval w div ?V"
  proof -
    have "lval w div ?V < 2 ^ 64" using W by (rule less_mult_imp_div_less)
    moreover have "q' ! J = q1 ! J" using arg_cong [OF ih(4), of hd] Suc.prems(2) ih(2) len by (simp add: hd_drop_conv_nth)
    ultimately show ?thesis using Suc.prems(2) by (simp add: q1_def unat_of_nat)
  qed
  have "lval (take (Suc J) q') = lval (take (Suc J + ?n) un) div ?V"
    using lval_take_Suc [of J q'] Suc.prems(2) ih(2,5) len qJ V0 unfolding U by (simp add: U1_def)
  moreover have "lval (take ?n un') = lval (take (Suc J + ?n) un) mod ?V" unfolding U using ih(6) by (simp add: U1_def)
  moreover have "drop (Suc J) q' = drop (Suc J) q" using arg_cong [OF ih(4), of tl] unfolding drop_Suc tl_drop [symmetric] by (simp add: q1_def tl_drop drop_Suc [symmetric])
  ultimately show ?case using ih(1-3) len step by simp
qed simp

subsection \<open>Division: normalisation and the remainder\<close>

lemma norm_shift_ok:
  assumes "last v \<noteq> 0"
  shows "norm_shift v < 64" "64 - norm_shift v = bit_len (unat (last v))"
proof -
  have "0 < bit_len (unat (last v))" "bit_len (unat (last v)) \<le> 64" using assms bit_len_unat_le by (simp_all add: unat_gt_0)
  then show "norm_shift v < 64" "64 - norm_shift v = bit_len (unat (last v))" by (simp_all add: norm_shift_def unat_GetMSB)
qed

lemma normalised_divisor:
  assumes v: "v \<noteq> []" "last v \<noteq> 0"
  defines "vn \<equiv> fst (carry_limbs (norm_shift v) 0 v)"
  shows "length vn = length v" "lval vn = 2 ^ norm_shift v * lval v" "2 ^ 63 \<le> unat (vn ! (length v - 1))"
proof -
  let ?n = "length v" and ?sl = "norm_shift v"
  have sl: "?sl < 64" by (rule norm_shift_ok(1) [OF v(2)])
  obtain out where r: "carry_limbs ?sl 0 v = (vn, out)" by (cases "carry_limbs ?sl 0 v") (simp add: vn_def)
  have c: "length vn = ?n" "lval vn + 2 ^ (64 * ?n) * unat out = 2 ^ ?sl * lval v" using carry_limbs_ok [of ?sl 0 v] r sl by simp_all
  have bl: "bit_len (lval v) = 64 * (?n - 1) + bit_len (unat (last v))" using v by (intro bit_len_normal) (simp add: normal_def)
  have v0: "0 < lval v" using v bit_len_pos_iff [of "lval v"] by (simp add: bl unat_gt_0)
  have bs: "bit_len (lval v * 2 ^ ?sl) = 64 * ?n"
    using bit_len_mult_power [OF v0, of ?sl] bl norm_shift_ok [OF v(2)] v(1) by (cases ?n) simp_all
  have "2 ^ ?sl * lval v < 2 ^ (64 * ?n)" using bit_len_upper [of "lval v * 2 ^ ?sl"] by (simp add: bs mult.commute)
  then have "2 ^ (64 * ?n) * unat out < 2 ^ (64 * ?n) * 1" using c(2) by linarith
  then have "unat out = 0" by (simp only: mult_less_cancel1) simp
  then show val: "lval vn = 2 ^ ?sl * lval v" using c(2) by simp
  show "length vn = ?n" by (rule c(1))
  have "2 ^ (64 * ?n - 1) \<le> lval vn" using bit_len_lower [of "lval v * 2 ^ ?sl"] v0 by (simp add: val bs mult.commute)
  also have "lval vn < 2 ^ (64 * (?n - 1)) * (unat (vn ! (?n - 1)) + 1)"
    using lval_butlast [of vn] lval_less [of "butlast vn"] c(1) v(1) by (cases "vn = []") (simp_all add: last_conv_nth)
  also have "2 ^ (64 * ?n - 1) = 2 ^ (64 * (?n - 1)) * (2 :: nat) ^ 63" using v(1) by (cases ?n) (simp_all only: power_add [symmetric], simp_all)
  finally show "2 ^ 63 \<le> unat (vn ! (?n - 1))" by (simp only: mult_less_cancel1) simp
qed

lemma shift_remainder_ok:
  assumes n: "0 < length v" "length v \<le> length un" and sl: "norm_shift v < 64"
  shows "length (shift_remainder v un) = length v \<and> lval (shift_remainder v un) = lval (take (length v) un) div 2 ^ norm_shift v"
proof -
  let ?n = "length v" and ?sl = "norm_shift v"
  define u0 where "u0 = un ! 0"
  define t where "t = take (?n - 1) (tl un)"
  have ut: "take ?n un = u0 # t" using n by (cases un; cases ?n) (simp_all add: u0_def t_def)
  have tl: "length t = ?n - 1" using n by (simp add: t_def)
  obtain ws out where r: "carry_limbs (64 - ?sl) (ucast (drop_bit ?sl u0)) t = (ws, out)" by (cases "carry_limbs (64 - ?sl) (ucast (drop_bit ?sl u0)) t")
  have c0: "unat (ucast (drop_bit ?sl u0) :: u128) = unat u0 div 2 ^ ?sl" by (simp only: unat_ucast_128 unat_drop_bit)
  have e: "(2 :: nat) ^ 64 = 2 ^ (64 - ?sl) * 2 ^ ?sl" using sl by (simp only: power_add [symmetric]) simp
  have "unat u0 div 2 ^ ?sl < 2 ^ (64 - ?sl)" using unat_less_64 [of u0] by (intro less_mult_imp_div_less) (simp only: e)
  then have c: "length ws = ?n - 1" "lval ws + 2 ^ (64 * (?n - 1)) * unat out = unat u0 div 2 ^ ?sl + 2 ^ (64 - ?sl) * lval t"
    using carry_limbs_ok [of "64 - ?sl" "ucast (drop_bit ?sl u0)" t] r tl unfolding c0 by simp_all
  define X where "X = lval (take ?n un)"
  have "X = unat u0 + 2 ^ ?sl * (2 ^ (64 - ?sl) * lval t)" unfolding X_def ut using e by (simp add: mult.assoc [symmetric] mult.commute)
  then have Xs: "X div 2 ^ ?sl = unat u0 div 2 ^ ?sl + 2 ^ (64 - ?sl) * lval t" by simp
  have "take ?n un \<noteq> []" using n by auto
  from lval_butlast [OF this] have "X = lval (butlast (take ?n un)) + 2 ^ (64 * (?n - 1)) * unat (un ! (?n - 1))"
    using n by (simp add: X_def last_conv_nth [OF \<open>take ?n un \<noteq> []\<close>])
  moreover have "lval (butlast (take ?n un)) < 2 ^ (64 * (?n - 1))" using lval_less [of "butlast (take ?n un)"] n by (simp add: min_absorb2)
  ultimately have "X div 2 ^ (64 * (?n - 1)) = unat (un ! (?n - 1))" by simp
  moreover have "(X div 2 ^ ?sl) div 2 ^ (64 * (?n - 1)) = X div 2 ^ (64 * (?n - 1)) div 2 ^ ?sl" by (metis div_mult2_eq mult.commute)
  ultimately have "(X div 2 ^ ?sl) div 2 ^ (64 * (?n - 1)) = unat (drop_bit ?sl (un ! (?n - 1)))" by (simp only: unat_drop_bit)
  moreover have "lval ws < 2 ^ (64 * (?n - 1))" using lval_less [of ws] c(1) by simp
  then have "(X div 2 ^ ?sl) div 2 ^ (64 * (?n - 1)) = unat out" unfolding Xs c(2) [symmetric] by simp
  ultimately have "unat (drop_bit ?sl (un ! (?n - 1))) = unat out" by simp
  then have "lval (ws @ [drop_bit ?sl (un ! (?n - 1))]) = X div 2 ^ ?sl" unfolding Xs c(2) [symmetric] using c(1) by (simp add: lval_append)
  then show ?thesis unfolding shift_remainder_def Let_def u0_def [symmetric] t_def [symmetric] using r c(1) n by (simp add: X_def)
qed


text \<open>The loop computes quotient and (shifted) remainder of the two limb lists.\<close>

lemma knuth_loop_ok:
  assumes v: "2 \<le> length v" "last v \<noteq> 0" and u: "length v \<le> length u"
  shows "\<exists>q un. knuth_loop u v = (q, un) \<and> length q = length u - length v + 1 \<and> length un = length u + 1 \<and>
    lval q = lval u div lval v \<and> lval (take (length v) un) = 2 ^ norm_shift v * (lval u mod lval v)"
proof -
  let ?n = "length v" and ?m = "length u" and ?sl = "norm_shift v"
  define J where "J = ?m - ?n + 1"
  define vn where "vn = fst (carry_limbs ?sl 0 v)"
  have vne: "v \<noteq> []" using v(1) by auto
  note vn = normalised_divisor [OF vne v(2), folded vn_def]
  have sl: "?sl < 64" by (rule norm_shift_ok(1) [OF v(2)])
  obtain us out where r: "carry_limbs ?sl 0 u = (us, out)" by (cases "carry_limbs ?sl 0 u")
  have c: "length us = ?m" "unat out < 2 ^ ?sl" "lval us + 2 ^ (64 * ?m) * unat out = 2 ^ ?sl * lval u"
    using carry_limbs_ok [of ?sl 0 u] r sl by simp_all
  have "(2 :: nat) ^ ?sl < 2 ^ 64" using sl by (intro power_strict_increasing) simp_all
  then have out: "unat out < 2 ^ 64" using c(2) by simp
  define un0 where "un0 = us @ [ucast out]"
  have un0: "length un0 = J + ?n" "lval un0 = 2 ^ ?sl * lval u" using c out u by (simp_all add: un0_def J_def lval_append unat_ucast_64)
  have "lval (take ?n (drop J un0)) < lval vn"
  proof -
    have "2 ^ (64 * J) * lval (drop J un0) \<le> 2 ^ ?sl * lval u" using lval_split [of J un0] un0 by simp
    also have "\<dots> < 2 ^ ?sl * 2 ^ (64 * ?m)" using lval_less [of u] by simp
    also have "64 * ?m = 64 * J + 64 * (?n - 1)" using u v(1) by (simp add: J_def)
    also have "2 ^ ?sl * (2 :: nat) ^ (64 * J + 64 * (?n - 1)) = 2 ^ (64 * J) * (2 ^ ?sl * 2 ^ (64 * (?n - 1)))" unfolding power_add by (rule mult.left_commute)
    finally have "lval (drop J un0) < 2 ^ ?sl * 2 ^ (64 * (?n - 1))" by (simp only: mult_less_cancel1)
    also have "\<dots> \<le> 2 ^ ?sl * lval v"
    proof (rule mult_le_mono2, rule normal_tight)
      show "normal v" using vne v(2) by (simp add: normal_def)
      show "0 < lval v" using lval_butlast [OF vne] v(2) by (simp add: unat_gt_0)
    qed
    finally show ?thesis using un0(1) vn(2) by simp
  qed
  then obtain q un where f: "fold (div_step vn) (rev [0..<J]) (replicate J 0, un0) = (q, un)" "length q = J" "length un = length un0"
    "lval (take J q) = lval (take (J + ?n) un0) div lval vn" "lval (take ?n un) = lval (take (J + ?n) un0) mod lval vn"
    using div_steps_ok [of vn J un0 "replicate J 0"] v(1) vn un0(1) by auto
  have "knuth_loop u v = (q, un)" using f(1) r unfolding knuth_loop_def Let_def vn_def [symmetric] J_def [symmetric] un0_def by simp
  moreover have "take J q = q" "take (J + ?n) un0 = un0" using f(2) un0(1) by simp_all
  then have "lval q = (2 ^ ?sl * lval u) div (2 ^ ?sl * lval v)" "lval (take ?n un) = (2 ^ ?sl * lval u) mod (2 ^ ?sl * lval v)"
    using f(4,5) by (simp_all only: un0(2) vn(2))
  then have "lval q = lval u div lval v" "lval (take ?n un) = 2 ^ ?sl * (lval u mod lval v)" by (simp_all only: div_mult_mult1 mult_mod_right) simp
  ultimately show ?thesis using f(2,3) un0(1) u by (simp add: J_def)
qed

subsection \<open>Division by one limb\<close>

lemma div_limb_ok:
  assumes "unat ofl < unat v0"
  shows "length (fst (div_limb v0 ofl us)) = length us \<and>
    lval (rev (fst (div_limb v0 ofl us))) = (unat ofl * 2 ^ (64 * length us) + lval (rev us)) div unat v0 \<and>
    unat (snd (div_limb v0 ofl us)) = (unat ofl * 2 ^ (64 * length us) + lval (rev us)) mod unat v0"
  using assms
proof (induction us arbitrary: ofl)
  case (Cons u us)
  define o' where "o' = push_bit 64 ofl OR ucast u"
  have "unat ofl < 2 ^ 64" using Cons.prems unat_less_64 [of v0] by simp
  then have o': "unat o' = unat ofl * 2 ^ 64 + unat u" unfolding o'_def by (rule unat_join)
  have m: "unat (o' mod ucast v0) = unat o' mod unat v0" "unat (o' div ucast v0) = unat o' div unat v0"
    by (simp_all only: unat_mod_distrib unat_div_distrib unat_ucast_128)
  have v0: "0 < unat v0" using Cons.prems by simp
  obtain qs out where r: "div_limb v0 (o' mod ucast v0) us = (qs, out)" by (cases "div_limb v0 (o' mod ucast v0) us")
  let ?L = "2 ^ (64 * length us) :: nat"
  have ih: "length qs = length us" "lval (rev qs) = ((unat o' mod unat v0) * ?L + lval (rev us)) div unat v0"
    "unat out = ((unat o' mod unat v0) * ?L + lval (rev us)) mod unat v0"
    using Cons.IH [of "o' mod ucast v0"] v0 r by (simp_all add: m)
  have dig: "unat (ucast (o' div ucast v0) :: u64) = unat o' div unat v0"
  proof -
    have "unat o' < (unat ofl + 1) * 2 ^ 64" using o' unat_less_64 [of u] by simp
    also have "\<dots> \<le> unat v0 * 2 ^ 64" using Cons.prems by (intro mult_le_mono1) simp
    finally have "unat o' div unat v0 < 2 ^ 64" by (simp add: less_mult_imp_div_less mult.commute)
    then show ?thesis unfolding unat_ucast_64 m by simp
  qed
  define N where "N = unat ofl * 2 ^ (64 * length (u # us)) + lval (rev (u # us))"
  have "2 ^ (64 * length (u # us)) = 2 ^ 64 * ?L" "lval (rev (u # us)) = lval (rev us) + ?L * unat u"
    by (simp_all add: power_add lval_append)
  then have "N = unat o' * ?L + lval (rev us)" unfolding N_def o' by (simp only: distrib_left distrib_right mult_ac add_ac)
  also have "unat o' * ?L = (unat o' mod unat v0 + unat v0 * (unat o' div unat v0)) * ?L" by (simp only: mod_mult_div_eq)
  also have "\<dots> = (unat o' mod unat v0) * ?L + unat v0 * (unat o' div unat v0 * ?L)" by (simp only: distrib_right mult.assoc)
  finally have N: "N = ((unat o' mod unat v0) * ?L + lval (rev us)) + unat v0 * (unat o' div unat v0 * ?L)" by (simp only: add.assoc add.commute add.left_commute)
  have "N div unat v0 = lval (rev (ucast (o' div ucast v0) # qs))" "N mod unat v0 = unat out"
    unfolding N using v0 ih dig by (simp_all add: lval_append mult.commute)
  then show ?case using r ih(1) unfolding N_def by (simp add: o'_def [symmetric] Let_def)
qed simp

subsection \<open>Division of objects\<close>

lemma repr_last_nonzero: "repr x n \<Longrightarrow> 0 < n \<Longrightarrow> last (m_value x) \<noteq> 0"
proof
  assume r: "repr x n" "0 < n" "last (m_value x) = 0"
  then have "length (m_value x) = 1" by (cases "m_value x" rule: rev_cases) (auto simp: repr_def normal_def)
  then show False using r by (cases "m_value x") (auto simp: repr_def)
qed

lemma repr_length_bits: "repr x m \<Longrightarrow> repr y n \<Longrightarrow> bit_len n \<le> bit_len m \<Longrightarrow> length (m_value y) \<le> length (m_value x)"
  by (auto simp: repr_length div_le_mono diff_le_mono)

lemma div_guard_ok:
  "repr x m \<Longrightarrow> repr y n \<Longrightarrow> 0 < n \<Longrightarrow> bit_len n \<le> bit_len m \<Longrightarrow> div_guard (m_value x) (m_value y) = Inr ()"
  using repr_length_bits [of x m y n] repr_last_nonzero [of y n] by (simp add: div_guard_def)

text \<open>The two ways through the division: one limb, or the loop.\<close>

lemma one_limb_division:
  assumes "repr x m" "repr y n" "0 < n" "length (m_value y) = 1"
  defines "r \<equiv> div_limb (m_value y ! 0) 0 (rev (m_value x))"
  shows "repr (NormalizeLimbs (rev (fst r))) (m div n)" "repr \<lparr>m_MSB = GetMSB (ucast (snd r)), m_value = [ucast (snd r)]\<rparr> (m mod n)"
proof -
  obtain v0 where y: "m_value y = [v0]" using assms(4) by (cases "m_value y") auto
  have n: "unat v0 = n" "lval (m_value x) = m" "m_value x \<noteq> []" using assms(1,2) y by (auto simp: repr_def normal_def)
  have d: "length (fst r) = length (m_value x)" "lval (rev (fst r)) = m div n" "unat (snd r) = m mod n"
    using div_limb_ok [of 0 v0 "rev (m_value x)"] assms(3) n by (simp_all add: r_def y)
  have "rev (fst r) \<noteq> []" using d(1) n(3) by auto
  then show "repr (NormalizeLimbs (rev (fst r))) (m div n)"
    using d(2) big_fits_mono [OF _ repr_fits [OF assms(1)], of "m div n"] by (intro repr_NormalizeLimbs) simp_all
  have "m mod n < 2 ^ 64" using mod_less_divisor [OF assms(3), of m] unat_less_64 [of v0] n(1) by simp
  then have "unat (ucast (snd r) :: u64) = m mod n" using d(3) by (simp add: unat_ucast_64)
  then show "repr \<lparr>m_MSB = GetMSB (ucast (snd r)), m_value = [ucast (snd r)]\<rparr> (m mod n)"
    using repr_limb [of "ucast (snd r)"] by (simp add: ubint_of_limb_def)
qed

lemma knuth_division:
  assumes "repr x m" "repr y n" "0 < n" "bit_len n \<le> bit_len m" "length (m_value y) \<noteq> 1"
  defines "r \<equiv> knuth_loop (m_value x) (m_value y)"
  shows "repr (NormalizeLimbs (fst r)) (m div n)" "repr (NormalizeLimbs (shift_remainder (m_value y) (snd r))) (m mod n)"
proof -
  let ?u = "m_value x" and ?v = "m_value y"
  have v: "lval ?v = n" "lval ?u = m" "?v \<noteq> []" using assms(1,2) by (auto simp: repr_def normal_def)
  have l: "2 \<le> length ?v" using v(3) assms(5) by (cases ?v; cases "tl ?v") auto
  have lu: "length ?v \<le> length ?u" by (rule repr_length_bits [OF assms(1,2,4)])
  have last: "last ?v \<noteq> 0" by (rule repr_last_nonzero [OF assms(2,3)])
  obtain q un where k: "r = (q, un)" "length q = length ?u - length ?v + 1" "length un = length ?u + 1"
    "lval q = m div n" "lval (take (length ?v) un) = 2 ^ norm_shift ?v * (m mod n)"
    using knuth_loop_ok [OF l last lu] v by (auto simp: r_def)
  have q: "q \<noteq> []" using k(2) by auto
  have f: "big_fits (m div n)" "big_fits (m mod n)" using big_fits_mono [OF _ repr_fits [OF assms(1)]] by simp_all
  show "repr (NormalizeLimbs (fst r)) (m div n)" using k(1,4) q f(1) repr_NormalizeLimbs by simp
  have s: "length (shift_remainder ?v un) = length ?v" "lval (shift_remainder ?v un) = m mod n"
    using shift_remainder_ok [of ?v un] norm_shift_ok [OF last] v(3) lu k by simp_all
  then have "shift_remainder ?v un \<noteq> []" using l by auto
  then show "repr (NormalizeLimbs (shift_remainder ?v (snd r))) (m mod n)" using k(1) s(2) f(2) repr_NormalizeLimbs by simp
qed

lemma repr_divq:
  assumes "repr x m" "repr y n" "0 < n" "bit_len n \<le> bit_len m"
  shows "\<exists>q. divq_vect x y = Inr q \<and> repr q (m div n)"
  using one_limb_division [OF assms(1-3)] knuth_division [OF assms] div_guard_ok [OF assms]
  by (cases "length (m_value y) = 1") (simp_all add: divq_vect_def Let_def)

lemma repr_divr:
  assumes "repr x m" "repr y n" "0 < n" "bit_len n \<le> bit_len m"
  shows "\<exists>r. divr_vect x y = Inr r \<and> repr r (m mod n)"
  using one_limb_division [OF assms(1-3)] knuth_division [OF assms] div_guard_ok [OF assms]
  by (cases "length (m_value y) = 1") (simp_all add: divr_vect_def Let_def)

lemma repr_divqr:
  assumes "repr x m" "repr y n" "0 < n" "bit_len n \<le> bit_len m"
  shows "\<exists>q r. divqr_vect x y = Inr (q, r) \<and> repr q (m div n) \<and> repr r (m mod n)"
  using one_limb_division [OF assms(1-3)] knuth_division [OF assms] div_guard_ok [OF assms]
  by (cases "length (m_value y) = 1") (simp_all add: divqr_vect_def Let_def case_prod_beta)

lemma divqr_zero: "repr x m \<Longrightarrow> repr y 0 \<Longrightarrow> divqr_vect x y = Inl DivideByZero"
proof -
  assume r: "repr x m" "repr y 0"
  have l: "length (m_value y) = 1" using repr_length [OF r(2)] by simp
  then have "m_value y = [0]" using r(2) by (cases "m_value y") (auto simp: repr_def unat_eq_zero)
  moreover have "m_value x \<noteq> []" using r(1) by (simp add: repr_def normal_def)
  ultimately show ?thesis by (cases "m_value x") (simp_all add: divqr_vect_def div_guard_def)
qed

text \<open>
  The shortcut of the division: equal top bits and equal top limbs are taken for a quotient of one, also when the
  dividend is the smaller one.
\<close>

definition same_top :: "ubint \<Rightarrow> ubint \<Rightarrow> bool" where
  "same_top x y \<longleftrightarrow> m_MSB y = m_MSB x \<and> last (m_value y) = last (m_value x)"

lemma repr_MSB_less: "repr x m \<Longrightarrow> repr y n \<Longrightarrow> m_MSB x < m_MSB y \<longleftrightarrow> bit_len m < bit_len n"
  by (simp add: repr_def word_less_nat_alt)

lemma repr_MSB_eq: "repr x m \<Longrightarrow> repr y n \<Longrightarrow> m_MSB x = m_MSB y \<longleftrightarrow> bit_len m = bit_len n"
  by (simp add: repr_def word_unat_eq_iff)

lemma bit_len_less_double: "bit_len m = bit_len n \<Longrightarrow> m < 2 * n" if "0 < n" for m n :: nat
proof -
  assume e: "bit_len m = bit_len n"
  have "0 < bit_len n" using that by simp
  then obtain k where k: "bit_len n = Suc k" by (cases "bit_len n") simp_all
  have "m < 2 ^ Suc k" "2 ^ k \<le> n" using bit_len_upper [of m] bit_len_lower [OF that] e k by simp_all
  then show ?thesis by simp
qed

lemma repr_DividedBy:
  assumes "repr x m" "repr y n" "0 < n"
  shows "\<exists>z. Big_DividedBy x y = Inr z \<and> repr z (if same_top x y then 1 else m div n)"
proof -
  have nz: "m_MSB y \<noteq> 0" using repr_MSB [OF assms(2)] assms(3) by simp
  consider "bit_len m < bit_len n" | "bit_len n \<le> bit_len m" "same_top x y" | "bit_len n \<le> bit_len m" "\<not> same_top x y" by linarith
  then show ?thesis
  proof cases
    case 1
    then have "m < n" using bit_len_mono [of n m] by linarith
    moreover have "\<not> same_top x y" using 1 repr_MSB_eq [OF assms(2,1)] by (simp add: same_top_def)
    ultimately show ?thesis using 1 nz repr_MSB_less [OF assms(1,2)] repr_default by (simp add: Big_DividedBy_def)
  next
    case 2
    then show ?thesis using nz repr_MSB_less [OF assms(1,2)] repr_limb [of 1] by (simp add: Big_DividedBy_def same_top_def)
  next
    case 3
    obtain q where "divq_vect x y = Inr q" "repr q (m div n)" using repr_divq [OF assms 3(1)] by blast
    then show ?thesis using 3 nz repr_MSB_less [OF assms(1,2)] by (auto simp: Big_DividedBy_def same_top_def)
  qed
qed

lemma repr_DividedBy_le:
  assumes "repr x m" "repr y n" "0 < n" "n \<le> m"
  shows "\<exists>z. Big_DividedBy x y = Inr z \<and> repr z (m div n)"
proof -
  have "m div n = 1" if "same_top x y"
  proof -
    have "m < 2 * n" using that repr_MSB_eq [OF assms(2,1)] bit_len_less_double [OF assms(3)] by (simp add: same_top_def)
    then have "m div n < 2" "1 \<le> m div n" using assms(3,4) by (simp_all add: less_mult_imp_div_less Suc_le_eq div_greater_zero_iff)
    then show ?thesis by simp
  qed
  then show ?thesis using repr_DividedBy [OF assms(1-3)] by (auto split: if_splits)
qed

lemma GetMSB_1: "GetMSB 1 = 1"
  by (simp add: word_unat_eq_iff unat_GetMSB bit_len.simps)

lemma Big_DividedByEq_DividedBy: "Big_DividedByEq x y = Big_DividedBy x y"
  by (simp add: Big_DividedByEq_def Big_DividedBy_def ubint_default_def ubint_of_limb_def GetMSB_1)

subsection \<open>Rounded division\<close>

lemma rounded_quotient:
  assumes x: "repr x m" "repr q n" "0 < n"
  shows "\<exists>z. ebind (Big_RShift q 1) (\<lambda>halfQ.
        if big_le x halfQ then Inr ubint_default
        else if m_MSB x = m_MSB halfQ \<or> m_MSB x = m_MSB q \<and> last (m_value x) < last (m_value q) then Inr (ubint_of_limb 1)
        else ebind (divqr_vect x q) (\<lambda>(ans, rv). Inr (if big_less halfQ rv then Big_Add ans (ubint_of_limb 1) else ans))) = Inr z \<and>
      repr z (m div n + of_bool (n div 2 < m mod n))"
proof -
  obtain h where h: "Big_RShift q 1 = Inr h" "repr h (n div 2)" using repr_RShift [OF x(2), of 1] by auto
  have bl: "bit_len n = Suc (bit_len (n div 2))" using x(3) by (simp add: bit_len.simps [of n])
  have lt: "m < n" if "last (m_value x) < last (m_value q)" "m_MSB x = m_MSB q"
  proof -
    have e: "bit_len m = bit_len n" using that(2) repr_MSB_eq [OF x(1,2)] by simp
    have "m = 0 \<longleftrightarrow> n = 0" using e bit_len_pos_iff by (metis neq0_conv)
    then have l: "length (m_value x) = length (m_value q)" using repr_length [OF x(1)] repr_length [OF x(2)] e by simp
    let ?k = "2 ^ (64 * (length (m_value q) - 1)) :: nat"
    have "m < ?k * (unat (last (m_value x)) + 1)"
      using lval_butlast [of "m_value x"] lval_less [of "butlast (m_value x)"] x(1) l by (auto simp: repr_def normal_def)
    also have "\<dots> \<le> ?k * unat (last (m_value q))" using that(1) by (intro mult_le_mono2) (simp add: word_less_nat_alt)
    also have "\<dots> \<le> n" using lval_butlast [of "m_value q"] x(2) by (auto simp: repr_def normal_def)
    finally show ?thesis .
  qed
  consider (small) "m \<le> n div 2" | (one) "n div 2 < m" "m_MSB x = m_MSB h \<or> m_MSB x = m_MSB q \<and> last (m_value x) < last (m_value q)"
    | (big) "n div 2 < m" "\<not> (m_MSB x = m_MSB h \<or> m_MSB x = m_MSB q \<and> last (m_value x) < last (m_value q))" by linarith
  then show ?thesis
  proof cases
    case small
    then have "m < n" using x(3) by linarith
    then show ?thesis using small h big_le_iff [OF x(1) h(2)] repr_default by simp
  next
    case one
    have "m < n"
    proof (cases "m_MSB x = m_MSB h")
      case True
      then have "bit_len m < bit_len n" using repr_MSB_eq [OF x(1) h(2)] bl by simp
      then show ?thesis using bit_len_mono [of n m] by linarith
    qed (use one lt in auto)
    then show ?thesis using one h big_le_iff [OF x(1) h(2)] repr_limb [of 1] by simp
  next
    case big
    have "bit_len (n div 2) \<le> bit_len m" using big(1) by (intro bit_len_mono) simp
    moreover have "bit_len m \<noteq> bit_len (n div 2)" using big(2) repr_MSB_eq [OF x(1) h(2)] by simp
    ultimately have le: "bit_len n \<le> bit_len m" using bl by simp
    obtain a r where ar: "divqr_vect x q = Inr (a, r)" "repr a (m div n)" "repr r (m mod n)" using repr_divqr [OF x le] by auto
    have "repr (if big_less h r then Big_Add a (ubint_of_limb 1) else a) (m div n + of_bool (n div 2 < m mod n))"
    proof (cases "n div 2 < m mod n")
      case True
      then have "1 < n" using x(3) by (cases "n = 1") simp_all
      then have "m div n + 1 \<le> m \<or> m = 0" by (cases m) (simp_all add: Suc_le_eq)
      then have "m div n + 1 \<le> m" using True by (cases m) simp_all
      then have "big_fits (m div n + 1)" using big_fits_mono repr_fits [OF x(1)] by blast
      then show ?thesis using True big_less_iff [OF h(2) ar(3)] repr_Add [OF ar(2) repr_limb, of 1] by simp
    qed (use big_less_iff [OF h(2) ar(3)] ar(2) in simp)
    moreover have "\<not> big_le x h" using big(1) big_le_iff [OF x(1) h(2)] by simp
    ultimately show ?thesis by (simp add: h(1) ar(1) big(2))
  qed
qed

lemma repr_DivideAndRound:
  "repr x m \<Longrightarrow> repr q n \<Longrightarrow> 0 < n \<Longrightarrow> \<exists>z. Big_DivideAndRound x q = Inr z \<and> repr z (m div n + of_bool (n div 2 < m mod n))"
  using rounded_quotient [of x m q n] repr_MSB(1) [of q n] by (simp add: Big_DivideAndRound_def)

lemma repr_MultiplyAndRound:
  assumes "repr x a" "repr p b" "repr q n" "0 < n" "big_fits (a * b)"
  shows "\<exists>z. Big_MultiplyAndRound x p q = Inr z \<and> repr z (a * b div n + of_bool (n div 2 < a * b mod n))"
  using rounded_quotient [OF repr_Mul [OF assms(1,2,5)] assms(3,4)] repr_MSB(1) [OF assms(3)] assms(4)
  by (simp add: Big_MultiplyAndRound_def Let_def)

end
