(* ===== verification/BigMod.thy ===== *)
theory BigMod
  imports KnuthD
begin

text \<open>
  Modular arithmetic of multi-precision integers, proved for every representation of the numbers that obeys the
  laws of an interface; exponentiation, and the extended Euclidean algorithm.
\<close>

subsection \<open>Modular arithmetic over any representation of the numbers\<close>

text \<open>
  What the modular operations rely on: objects that stand for numbers, with a comparison, a sum that is right when
  it fits, a difference cut off at zero and a remainder.
\<close>

locale represented_numbers =
  fixes rep :: "'a \<Rightarrow> nat \<Rightarrow> bool" and fits :: "nat \<Rightarrow> bool" and less :: "'a \<Rightarrow> 'a \<Rightarrow> bool"
    and add :: "'a \<Rightarrow> 'a \<Rightarrow> 'a" and sub :: "'a \<Rightarrow> 'a \<Rightarrow> 'a res" and remainder :: "'a \<Rightarrow> 'a \<Rightarrow> 'a res"
  assumes fits_mono: "m \<le> n \<Longrightarrow> fits n \<Longrightarrow> fits m"
    and rep_less: "rep x m \<Longrightarrow> rep y n \<Longrightarrow> less x y \<longleftrightarrow> m < n"
    and rep_add: "rep x m \<Longrightarrow> rep y n \<Longrightarrow> fits (m + n) \<Longrightarrow> rep (add x y) (m + n)"
    and rep_sub: "rep x m \<Longrightarrow> rep y n \<Longrightarrow> \<exists>z. sub x y = Inr z \<and> rep z (m - n)"
    and rep_remainder: "rep x m \<Longrightarrow> rep y n \<Longrightarrow> 0 < n \<Longrightarrow> \<exists>z. remainder x y = Inr z \<and> rep z (m mod n)"
begin

lemma operand: "rep x m \<Longrightarrow> rep y n \<Longrightarrow> 0 < n \<Longrightarrow> \<exists>z. (if \<not> less x y then remainder x y else Inr x) = Inr z \<and> rep z (m mod n)"
  using rep_less [of x m y n] rep_remainder [of x m y n] by auto

lemma add_fast:
  assumes "rep x a" "rep y b" "rep p n" "a < n" "b < n" "fits (2 * n)"
  shows "\<exists>z. (if \<not> less (add x y) p then sub (add x y) p else Inr (add x y)) = Inr z \<and> rep z ((a + b) mod n)"
proof -
  have s: "rep (add x y) (a + b)" using assms by (intro rep_add fits_mono [OF _ assms(6)]) simp_all
  have "(a + b) mod n = (if a + b < n then a + b else a + b - n)" using assms(4,5) by (simp add: mod_if)
  then show ?thesis using rep_less [OF s assms(3)] rep_sub [OF s assms(3)] s by auto
qed

lemma sub_fast:
  assumes "rep x a" "rep y b" "rep p n" "a < n" "b < n" "fits (2 * n)"
  shows "\<exists>z. sub (if less x y then add p x else x) y = Inr z \<and> rep z ((a + (n - b)) mod n)"
proof (cases "a < b")
  case True
  have "rep (add p x) (n + a)" using assms by (intro rep_add fits_mono [OF _ assms(6)]) simp_all
  from rep_sub [OF this assms(2)] show ?thesis using True rep_less [OF assms(1,2)] assms(4,5) by (simp add: mod_less algebra_simps)
next
  case False
  then have "(a + (n - b)) mod n = a - b" using assms(4,5) by (simp add: mod_if)
  then show ?thesis using False rep_less [OF assms(1,2)] rep_sub [OF assms(1,2)] by simp
qed

lemma add_reduced:
  assumes "rep x a" "rep y b" "rep p n" "0 < n" "fits (2 * n)"
  shows "\<exists>z. ebind (if \<not> less y p then remainder y p else Inr y) (\<lambda>bv. ebind (if \<not> less x p then remainder x p else Inr x) (\<lambda>av.
    let s = add av bv in if \<not> less s p then sub s p else Inr s)) = Inr z \<and> rep z ((a + b) mod n)"
proof -
  obtain bv av where "(if \<not> less y p then remainder y p else Inr y) = Inr bv" "rep bv (b mod n)"
    "(if \<not> less x p then remainder x p else Inr x) = Inr av" "rep av (a mod n)"
    using operand [OF assms(2,3,4)] operand [OF assms(1,3,4)] by blast
  then show ?thesis using add_fast [of av "a mod n" bv "b mod n" p n] assms(3-5) by (simp add: Let_def mod_add_eq)
qed

lemma sub_reduced:
  assumes "rep x a" "rep y b" "rep p n" "0 < n" "fits (2 * n)"
  shows "\<exists>z. ebind (if \<not> less y p then remainder y p else Inr y) (\<lambda>bv. ebind (if \<not> less x p then remainder x p else Inr x) (\<lambda>av.
    sub (if less av bv then add p av else av) bv)) = Inr z \<and> rep z ((a + (n - b mod n)) mod n)"
proof -
  obtain bv av where "(if \<not> less y p then remainder y p else Inr y) = Inr bv" "rep bv (b mod n)"
    "(if \<not> less x p then remainder x p else Inr x) = Inr av" "rep av (a mod n)"
    using operand [OF assms(2,3,4)] operand [OF assms(1,3,4)] by blast
  then show ?thesis using sub_fast [of av "a mod n" bv "b mod n" p n, unfolded mod_add_left_eq] assms(3-5) by simp
qed

end

lemma lval_mod_2: "v \<noteq> [] \<Longrightarrow> unat (hd v AND 1) = lval v mod 2"
proof -
  assume "v \<noteq> []"
  then obtain a w where v: "v = a # w" by (cases v) auto
  have "lval v mod 2 = unat a mod 2" unfolding v by (simp add: mod_add_eq [symmetric])
  moreover have "unat (a AND 1) = unat a mod 2"
    by (cases "odd (unat a)") (use odd_word [of a] in \<open>auto simp: and_one_eq mod_2_eq_odd\<close>)
  ultimately show ?thesis unfolding v by simp
qed

lemma repr_Mod:
  assumes "repr x m" "repr y n" "0 < n"
  shows "\<exists>z. Big_Mod x y = Inr z \<and> repr z (m mod n)"
proof -
  have nz: "m_MSB y \<noteq> 0" using repr_MSB [OF assms(2)] assms(3) by simp
  consider "m < n" | "n \<le> m" "m_MSB y = 2" "hd (m_value y) = 2" | "n \<le> m" "\<not> (m_MSB y = 2 \<and> hd (m_value y) = 2)" by linarith
  then show ?thesis
  proof cases
    case 1
    then show ?thesis using nz assms big_less_iff [OF assms(1,2)] by (simp add: Big_Mod_def)
  next
    case 2
    have b: "bit_len n = 2" using assms(2) 2(2) by (simp add: repr_def)
    then have "length (m_value y) = 1" using repr_length [OF assms(2)] assms(3) by simp
    then have "m_value y = [2]" using 2(3) by (cases "m_value y") auto
    then have n: "n = 2" using assms(2) by (simp add: repr_def)
    have "unat (hd (m_value x) AND 1) = m mod 2" using lval_mod_2 [of "m_value x"] assms(1) by (simp add: repr_def normal_def)
    then show ?thesis using 2 nz big_less_iff [OF assms(1,2)] repr_limb [of "hd (m_value x) AND 1"] n by (simp add: Big_Mod_def)
  next
    case 3
    then show ?thesis using nz big_less_iff [OF assms(1,2)] repr_divr [OF assms bit_len_mono] by (auto simp: Big_Mod_def)
  qed
qed

lemma Big_ModEq_Mod: "Big_ModEq x y = Big_Mod x y"
proof -
  have "GetMSB (a AND 1) = ucast (a AND 1)" for a :: u64
  proof -
    have "a AND 1 = 1 \<or> a AND 1 = 0" by (simp add: and_one_eq mod_2_eq_odd)
    then show ?thesis
    proof
      assume "a AND 1 = 1"
      then show ?thesis unfolding GetMSB_1 \<open>a AND 1 = 1\<close> by simp
    next
      assume "a AND 1 = 0"
      then show ?thesis unfolding \<open>a AND 1 = 0\<close> by (simp add: GetMSB_def)
    qed
  qed
  then show ?thesis by (simp add: Big_ModEq_def Big_Mod_def ubint_of_limb_def Let_def)
qed

interpretation big: represented_numbers repr big_fits big_less Big_Add Big_Sub Big_Mod
  by unfold_locales (auto intro: big_fits_mono repr_Add repr_Sub repr_Mod simp: big_less_iff)

lemma big_reduce_ok: "repr x m \<Longrightarrow> repr y n \<Longrightarrow> 0 < n \<Longrightarrow> \<exists>z. big_reduce x y = Inr z \<and> repr z (m mod n)"
  using big.operand [of x m y n] unfolding big_reduce_def Big_ModEq_Mod .

lemma Big_Add_commute_repr: "repr x m \<Longrightarrow> repr y n \<Longrightarrow> big_fits (m + n) \<Longrightarrow> repr (Big_Add y x) (m + n)"
  using repr_Add [of y n x m] by (simp add: add.commute)

lemma repr_ModAddFast:
  "repr x a \<Longrightarrow> repr y b \<Longrightarrow> repr p n \<Longrightarrow> a < n \<Longrightarrow> b < n \<Longrightarrow> big_fits (2 * n) \<Longrightarrow>
    \<exists>z. Big_ModAddFast x y p = Inr z \<and> repr z ((a + b) mod n)"
  using big.add_fast [of y b x a p n] by (simp add: Big_ModAddFast_def Let_def add.commute)

lemma repr_ModSubFast:
  "repr x a \<Longrightarrow> repr y b \<Longrightarrow> repr p n \<Longrightarrow> a < n \<Longrightarrow> b < n \<Longrightarrow> big_fits (2 * n) \<Longrightarrow>
    \<exists>z. Big_ModSubFast x y p = Inr z \<and> repr z ((a + (n - b)) mod n)"
  using big.sub_fast [of x a y b p n] by (cases "big_less x y") (simp_all add: Big_ModSubFast_def)

lemma repr_ModAdd:
  "repr x a \<Longrightarrow> repr y b \<Longrightarrow> repr p n \<Longrightarrow> 0 < n \<Longrightarrow> big_fits (2 * n) \<Longrightarrow> \<exists>z. Big_ModAdd x y p = Inr z \<and> repr z ((a + b) mod n)"
  using big.add_reduced [of x a y b p n] unfolding Big_ModAdd_def big_reduce_def Big_ModEq_Mod .

lemma repr_ModSub:
  "repr x a \<Longrightarrow> repr y b \<Longrightarrow> repr p n \<Longrightarrow> 0 < n \<Longrightarrow> big_fits (2 * n) \<Longrightarrow> \<exists>z. Big_ModSub x y p = Inr z \<and> repr z ((a + (n - b mod n)) mod n)"
  using big.sub_reduced [of x a y b p n] unfolding Big_ModSub_def big_reduce_def Big_ModEq_Mod .

text \<open>The assigning variants are the same functions.\<close>

lemma Big_Eq_variants:
  "Big_ModAddFastEq x y p = Big_ModAddFast x y p" "Big_ModSubEq x y p = Big_ModSub x y p" "Big_ModSubFastEq x y p = Big_ModSubFast x y p"
  by (simp_all add: Big_ModAddFastEq_def Big_ModAddFast_def Big_ModSubEq_def Big_ModSub_def Big_ModSubFastEq_def Big_ModSubFast_def Big_SubEq_Sub Let_def)

lemma repr_ModMulFast:
  assumes "repr x a" "repr y b" "repr p n" "a < n" "b < n" "big_fits (n * n)"
  shows "\<exists>z. Big_ModMulFast x y p = Inr z \<and> repr z (a * b mod n)"
proof -
  have le: "a * b \<le> n * n" using assms(4,5) by (intro mult_le_mono) simp_all
  have v: "lval (m_value x) = a" "lval (m_value y) = b" "m_value x \<noteq> []" "m_value y \<noteq> []"
    using assms(1,2) by (auto simp: repr_def normal_def)
  note z = repr_MSB [OF assms(1)] repr_MSB [OF assms(2)]
  consider (zero) "a = 0 \<or> b = 0" | (one) "a \<noteq> 0" "b \<noteq> 0" "a = 1 \<or> b = 1" | (big) "a \<noteq> 0" "b \<noteq> 0" "a \<noteq> 1" "b \<noteq> 1" by blast
  then show ?thesis
  proof cases
    case zero
    then show ?thesis using z repr_default by (auto simp: Big_ModMulFast_def)
  next
    case one
    then show ?thesis using z assms by (auto simp: Big_ModMulFast_def)
  next
    case big
    define ans where "ans = (let (A, B) = (if length (m_value x) < length (m_value y) then (y, x) else (x, y)) in mul_rows (m_value A) (m_value B))"
    have r: "repr ans (a * b)"
      using repr_mul_rows [of "m_value x" "m_value y"] repr_mul_rows [of "m_value y" "m_value x"] v big_fits_mono [OF le assms(6)]
      by (simp add: ans_def mult.commute)
    have "Big_ModMulFast x y p = (if \<not> big_less ans p then Big_Mod ans p else Inr ans)"
      using big z by (simp add: Big_ModMulFast_def ans_def Let_def split: prod.split)
    then show ?thesis using big.operand [OF r assms(3)] assms(4) by simp
  qed
qed

lemma repr_ModMul:
  assumes "repr x a" "repr y b" "repr p n" "0 < n" "big_fits (n * n)"
  shows "\<exists>z. Big_ModMul x y p = Inr z \<and> repr z (a * b mod n)"
proof -
  obtain bv av where "big_reduce y p = Inr bv" "repr bv (b mod n)" "big_reduce x p = Inr av" "repr av (a mod n)"
    using big_reduce_ok [OF assms(2-4)] big_reduce_ok [OF assms(1,3,4)] by blast
  then show ?thesis using repr_ModMulFast [of av "a mod n" bv "b mod n" p n] assms(3-5) by (simp add: Big_ModMul_def mod_mult_eq)
qed

subsection \<open>Exponentiation\<close>

lemma repr_Exp:
  assumes "repr x m" "big_fits (m ^ p)"
  shows "repr (Big_Exp x p) (m ^ p)"
  using assms(2)
proof (induction p rule: less_induct)
  case (less p)
  show ?case
  proof (cases "p \<le> 1")
    case True
    then consider "p = 0" | "p = 1" by linarith
    then show ?thesis using assms(1) repr_limb [of 1] by cases (simp_all add: Big_Exp.simps)
  next
    case False
    let ?h = "p div 2"
    have p: "?h < p" "?h + ?h \<le> p" "p = ?h + ?h + p mod 2" using False mult_div_mod_eq [of 2 p] by linarith+
    have mono: "m ^ k \<le> m ^ p" if "k \<le> p" "0 < k" for k
      using that False by (cases "m = 0") (simp_all add: power_increasing zero_power)
    have h: "repr (Big_Exp x ?h) (m ^ ?h)" using less.IH [OF p(1)] big_fits_mono [OF mono less.prems] p(1) False by simp
    have "big_fits (m ^ (?h + ?h))" using big_fits_mono [OF mono [OF p(2)] less.prems] False by simp
    then have sq: "repr (Big_Mul (Big_Exp x ?h) (Big_Exp x ?h)) (m ^ (?h + ?h))" using repr_Mul [OF h h] by (simp add: power_add)
    show ?thesis
    proof (cases "odd p")
      case True
      then have e: "m ^ p = m ^ (?h + ?h) * m" using p(3) by (metis odd_iff_mod_2_eq_one power_add power_one_right)
      show ?thesis using repr_Mul [OF sq assms(1)] less.prems True False unfolding e by (subst Big_Exp.simps) (simp add: Let_def)
    next
      case even: False
      then have "m ^ p = m ^ (?h + ?h)" using p(3) by (metis add.right_neutral even_iff_mod_2_eq_zero)
      then show ?thesis using sq even False by (subst Big_Exp.simps) (simp add: Let_def)
    qed
  qed
qed

lemma square_power_mod: "c * ((x mod n) * (x mod n)) ^ k mod n = c * (x * x) ^ k mod (n :: nat)"
proof -
  have "((x mod n) * (x mod n)) ^ k mod n = (x * x) ^ k mod n" by (metis mod_mult_eq power_mod)
  then show ?thesis by (metis mod_mult_right_eq)
qed

lemma odd_step_mod: "(if odd e then c * (x mod n) mod n else c) * (x * x) ^ (e div 2) mod n = c * x ^ e mod (n :: nat)"
proof (cases "odd e")
  case True
  then have "x ^ e = x * (x * x) ^ (e div 2)" by (metis odd_two_times_div_two_succ power2_eq_square power_Suc power_mult Suc_eq_plus1)
  moreover have "(c * (x mod n) mod n) * (x * x) ^ (e div 2) mod n = c * x * (x * x) ^ (e div 2) mod n"
    by (metis mod_mult_left_eq mod_mult_right_eq)
  ultimately show ?thesis using True by (simp add: mult.assoc)
next
  case False
  then have "x ^ e = (x * x) ^ (e div 2)" by (metis dvd_mult_div_cancel power2_eq_square power_mult)
  then show ?thesis using False by simp
qed

lemma repr_ModMul_if:
  assumes "repr r c" "repr t a" "repr m n" "c < n" "a < n" "big_fits (n * n)"
  shows "\<exists>z. (if b then Big_ModMulFast r t m else Inr r) = Inr z \<and> repr z (if b then c * a mod n else c)"
  using repr_ModMulFast [OF assms] assms(1) by (cases b) simp_all

lemma repr_ModExp_loop:
  assumes "repr p e" "repr t a" "repr r c" "repr m n" "a < n" "c < n" "big_fits (n * n)"
  shows "\<exists>z. Big_ModExp_loop m t p r = Some (Inr z) \<and> repr z (c * (a * a) ^ (e div 2) mod n)"
  using assms(1-3,5,6)
proof (induction e arbitrary: p t r a c rule: less_induct)
  case (less e)
  obtain p' where p': "Big_RShiftEq p 1 = Inr p'" "repr p' (e div 2)" using repr_RShift [OF less.prems(1), of 1] by (auto simp: Big_RShiftEq_RShift)
  show ?case
  proof (cases "e div 2 = 0")
    case True
    then show ?thesis using p' repr_MSB(1) [OF p'(2)] less.prems by (subst Big_ModExp_loop.simps) simp
  next
    case False
    obtain t' where t': "Big_ModMulFast t t m = Inr t'" "repr t' (a * a mod n)"
      using repr_ModMulFast [OF less.prems(2,2) assms(4) less.prems(4,4) assms(7)] by blast
    have n: "0 < n" using less.prems(4) by simp
    define c' where "c' = (if odd (e div 2) then c * (a * a mod n) mod n else c)"
    have od: "(hd (m_value p') AND 1 \<noteq> 0) \<longleftrightarrow> odd (e div 2)"
      using lval_mod_2 [of "m_value p'"] p'(2) odd_word [of "hd (m_value p')"] by (auto simp: repr_def normal_def unat_eq_zero [symmetric] odd_iff_mod_2_eq_one)
    obtain r' where r': "(if hd (m_value p') AND 1 \<noteq> 0 then Big_ModMulFast r t' m else Inr r) = Inr r'" "repr r' c'"
      using repr_ModMul_if [OF less.prems(3) t'(2) assms(4) less.prems(5) _ assms(7)] n unfolding od c'_def by fastforce
    have cn: "c' < n" using less.prems(5) n by (simp add: c'_def)
    have lt: "e div 2 < e" using False by simp
    obtain z where z: "Big_ModExp_loop m t' p' r' = Some (Inr z)" "repr z (c' * ((a * a mod n) * (a * a mod n)) ^ (e div 2 div 2) mod n)"
      using less.IH [OF lt p'(2) t'(2) r'(2) _ cn] n by auto
    have "c' * ((a * a mod n) * (a * a mod n)) ^ (e div 2 div 2) mod n = c' * ((a * a) * (a * a)) ^ (e div 2 div 2) mod n"
      by (rule square_power_mod)
    also have "\<dots> = c * (a * a) ^ (e div 2) mod n" unfolding c'_def by (rule odd_step_mod)
    finally show ?thesis using z p'(1) t'(1) r'(1) False repr_MSB(1) [OF p'(2)] by (subst Big_ModExp_loop.simps) simp
  qed
qed

lemma repr_ModExp:
  assumes "repr x a" "repr b e" "repr m n" "1 < n" "big_fits (n * n)"
  shows "\<exists>z. Big_ModExp x b m = Some (Inr z) \<and> repr z (a ^ e mod n)"
proof -
  obtain t where t: "Big_Mod x m = Inr t" "repr t (a mod n)" using repr_Mod [OF assms(1,3)] assms(4) by auto
  define c where "c = (if odd e then 1 * (a mod n) mod n else 1)"
  have od: "(hd (m_value b) AND 1 \<noteq> 0) \<longleftrightarrow> odd e"
    using lval_mod_2 [of "m_value b"] assms(2) by (auto simp: repr_def normal_def unat_eq_zero [symmetric] odd_iff_mod_2_eq_one)
  have one: "repr (ubint_of_limb 1) 1" using repr_limb [of 1] by simp
  obtain r where r: "(if hd (m_value b) AND 1 \<noteq> 0 then Big_ModMulFast (ubint_of_limb 1) t m else Inr (ubint_of_limb 1)) = Inr r" "repr r c"
    using repr_ModMul_if [OF one t(2) assms(3,4) _ assms(5), of "odd e"] assms(4) unfolding od c_def by auto
  have cn: "c < n" using assms(4) by (simp add: c_def)
  obtain z where z: "Big_ModExp_loop m t b r = Some (Inr z)" "repr z (c * ((a mod n) * (a mod n)) ^ (e div 2) mod n)"
    using repr_ModExp_loop [OF assms(2) t(2) r(2) assms(3) _ cn assms(5)] assms(4) by auto
  have "c * ((a mod n) * (a mod n)) ^ (e div 2) mod n = c * (a * a) ^ (e div 2) mod n" by (rule square_power_mod)
  also have "\<dots> = a ^ e mod n" unfolding c_def odd_step_mod by simp
  finally show ?thesis using t(1) r(1) z by (simp add: Big_ModExp_def)
qed

subsection \<open>The extended Euclidean algorithm\<close>

text \<open>The quotients of the Euclidean algorithm until the remainder one, and the continuants that \<open>south\<close> computes.\<close>

function euclid_quotients :: "nat \<Rightarrow> nat \<Rightarrow> nat list" where
  "euclid_quotients a b = (if b \<le> 1 then [] else a div b # euclid_quotients b (a mod b))"
  by pat_completeness auto
termination by (relation "measure snd") auto

declare euclid_quotients.simps [simp del]

fun continuants :: "nat list \<Rightarrow> nat \<times> nat" where
  "continuants [] = (0, 1)"
| "continuants (q # qs) = (let (f, s) = continuants qs in (s, q * s + f))"

lemma euclid_step: "coprime b (a mod b)" "\<not> b \<le> 1 \<Longrightarrow> 0 < a mod b" if "coprime a (b :: nat)"
proof -
  show c: "coprime b (a mod b)" using that unfolding coprime_iff_gcd_eq_1 by (metis gcd_red_nat)
  show "0 < a mod b" if "\<not> b \<le> 1" using c that by (cases "a mod b") auto
qed

lemma continuants_ok:
  assumes "coprime a b" "0 < b"
  defines "K \<equiv> continuants (euclid_quotients a b)"
  shows "int (snd K) * int b - int (fst K) * int a = (- 1) ^ length (euclid_quotients a b)"
    "b \<le> a \<Longrightarrow> snd K \<le> a" "fst K \<le> b" "1 < b \<Longrightarrow> b < a \<Longrightarrow> snd K < a"
proof -
  have all: "int (snd (continuants (euclid_quotients a b))) * int b - int (fst (continuants (euclid_quotients a b))) * int a = (- 1) ^ length (euclid_quotients a b) \<and>
    (b \<le> a \<longrightarrow> snd (continuants (euclid_quotients a b)) \<le> a) \<and> fst (continuants (euclid_quotients a b)) \<le> b \<and>
    (1 < b \<and> b < a \<longrightarrow> snd (continuants (euclid_quotients a b)) < a)"
    using assms(1,2)
  proof (induction a b rule: euclid_quotients.induct)
    case (1 a b)
    show ?case
    proof (cases "b \<le> 1")
      case True
      then have "b = 1" using 1(3) by simp
      then show ?thesis by (subst (1 2 3 4 5 6) euclid_quotients.simps) simp
    next
      case False
      note step = euclid_step [OF 1(2)]
      have r0: "0 < a mod b" and cop: "coprime b (a mod b)" using step False by simp_all
      let ?qs = "euclid_quotients b (a mod b)"
      obtain f s where fs: "continuants ?qs = (f, s)" by (cases "continuants ?qs")
      have lt: "a mod b < b" using False by simp
      have ih: "int s * int (a mod b) - int f * int b = (- 1) ^ length ?qs" "s \<le> b" "f \<le> a mod b" "1 < a mod b \<Longrightarrow> s < b"
        using 1(1) [OF False cop r0] fs lt by auto
      have e: "euclid_quotients a b = a div b # ?qs" using False by (subst euclid_quotients.simps) simp
      have K: "continuants (euclid_quotients a b) = (s, (a div b) * s + f)" using fs by (simp add: e)
      have a: "int a = int (a div b) * int b + int (a mod b)" by (metis div_mult_mod_eq of_nat_add of_nat_mult)
      have "int ((a div b) * s + f) * int b - int s * int a = int f * int b - int s * int (a mod b)" unfolding a by (simp add: algebra_simps)
      also have "\<dots> = - ((- 1) ^ length ?qs)" using ih(1) by simp
      finally have sg: "int ((a div b) * s + f) * int b - int s * int a = (- 1) ^ length (euclid_quotients a b)" by (simp add: e)
      have le: "(a div b) * s + f \<le> a"
      proof -
        have "(a div b) * s + f \<le> (a div b) * b + a mod b" using ih(2,3) by (intro add_mono mult_le_mono2)
        then show ?thesis by simp
      qed
      have ls: "(a div b) * s + f < a" if "b < a"
      proof (cases "1 < a mod b")
        case True
        have "0 < a div b" using that False by (simp add: div_greater_zero_iff)
        then have "(a div b) * s < (a div b) * b" using ih(4) [OF True] by simp
        then have "(a div b) * s + f < (a div b) * b + a mod b" using ih(3) by linarith
        then show ?thesis by simp
      next
        case False
        then have "a mod b = 1" using r0 by simp
        then have "f = 0" "s = 1" using fs by (auto simp: euclid_quotients.simps)
        then show ?thesis using that \<open>\<not> b \<le> 1\<close> by (simp add: div_less_dividend)
      qed
      show ?thesis unfolding K using sg le ls ih(2) by simp
    qed
  qed
  show "int (snd K) * int b - int (fst K) * int a = (- 1) ^ length (euclid_quotients a b)"
    "b \<le> a \<Longrightarrow> snd K \<le> a" "fst K \<le> b" "1 < b \<Longrightarrow> b < a \<Longrightarrow> snd K < a"
    using all by (simp_all add: K_def)
qed

lemma north_ok:
  assumes "repr s a" "repr r b" "b < a" "0 < b" "coprime a b"
  shows "\<exists>qs. north s r quots = Some (Inr (quots @ qs)) \<and> list_all2 repr qs (euclid_quotients a b)"
  using assms
proof (induction b arbitrary: s r a quots rule: less_induct)
  case (less b)
  show ?case
  proof (cases "b = 1")
    case True
    then show ?thesis using repr_MSB(2) [OF less.prems(2)] by (subst north.simps) (simp add: euclid_quotients.simps)
  next
    case False
    then have b1: "\<not> b \<le> 1" using less.prems(4) by simp
    obtain q t where d: "divqr_vect s r = Inr (q, t)" "repr q (a div b)" "repr t (a mod b)"
      using repr_divqr [OF less.prems(1,2,4) bit_len_mono] less.prems(3) by auto
    note step = euclid_step [OF less.prems(5)]
    have r0: "0 < a mod b" and cop: "coprime b (a mod b)" using step b1 by simp_all
    have lt: "a mod b < b" using less.prems(4) by simp
    obtain qs where qs: "north r t (quots @ [q]) = Some (Inr ((quots @ [q]) @ qs))" "list_all2 repr qs (euclid_quotients b (a mod b))"
      using less.IH [OF lt less.prems(2) d(3) lt r0 cop] by blast
    have "euclid_quotients a b = a div b # euclid_quotients b (a mod b)" using b1 by (subst euclid_quotients.simps) simp
    then show ?thesis using qs d False repr_MSB(2) [OF less.prems(2)] by (intro exI [of _ "q # qs"]) (subst north.simps, simp)
  qed
qed

lemma south_ok:
  assumes "list_all2 repr qs ns" "big_fits (snd (continuants ns))" "list_all (\<lambda>q. 0 < q) ns"
  shows "repr (south qs) (snd (continuants ns))"
proof -
  define step where "step = (\<lambda>q p. (snd p, Big_Add (Big_Mul q (snd p)) (fst p)))"
  have "repr (fst (foldr step qs (ubint_default, ubint_of_limb 1))) (fst (continuants ns)) \<and>
    repr (snd (foldr step qs (ubint_default, ubint_of_limb 1))) (snd (continuants ns))"
    using assms
  proof (induction qs ns rule: list_all2_induct)
    case Nil
    then show ?case using repr_default repr_limb [of 1] by simp
  next
    case (Cons q qs n ns)
    obtain f s where fs: "continuants ns = (f, s)" by (cases "continuants ns")
    have n: "0 < n" using Cons.prems by simp
    have le: "s \<le> n * s" "n * s \<le> n * s + f" using n by simp_all
    have fit: "big_fits (n * s + f)" using Cons.prems fs by simp
    have ih: "repr (fst (foldr step qs (ubint_default, ubint_of_limb 1))) f" "repr (snd (foldr step qs (ubint_default, ubint_of_limb 1))) s"
      using Cons.IH Cons.prems fs big_fits_mono [OF order.trans [OF le] fit] by simp_all
    then show ?case using fs repr_Mul [OF Cons.hyps(1) ih(2) big_fits_mono [OF le(2) fit]] repr_Add [OF _ ih(1) fit]
      by (simp add: step_def)
  qed
  moreover have "step = (\<lambda>q (first, second). (second, Big_Add (Big_Mul q second) first))" by (simp add: step_def fun_eq_iff)
  ultimately show ?thesis by (simp add: south_def foldr_conv_fold)
qed

lemma euclid_quotients_pos: "b < a \<Longrightarrow> list_all (\<lambda>q. 0 < q) (euclid_quotients a b)"
proof (induction a b rule: euclid_quotients.induct)
  case (1 a b)
  then show ?case by (subst euclid_quotients.simps) (auto simp: div_greater_zero_iff)
qed

text \<open>The inverse, for numbers that are coprime to the modulus.\<close>

lemma repr_ModInverse:
  assumes "repr x a" "repr m n" "1 < n" "coprime a n"
  shows "\<exists>z v. Big_ModInverse x m = Some (Inr z) \<and> repr z v \<and> v < n \<and> a * v mod n = 1"
proof -
  define b where "b = a mod n"
  have a0: "a \<noteq> 0" using assms(3,4) by (cases a) simp_all
  have cop: "coprime n b" using euclid_step(1) [OF assms(4)] by (simp add: b_def)
  have b0: "0 < b" "b < n" using cop assms(3) by (cases b, simp_all, simp add: b_def)
  obtain s where s: "(if \<not> big_less x m then Big_Mod x m else Inr x) = Inr s" "repr s b"
    using big.operand [OF assms(1,2)] assms(3) by (auto simp: b_def)
  have nz: "m_MSB x \<noteq> 0" using repr_MSB(1) [OF assms(1)] a0 by simp
  have red: "a * v mod n = b * v mod n" for v by (simp add: b_def mod_mult_left_eq)
  show ?thesis
  proof (cases "b = 1")
    case True
    then have "Big_ModInverse x m = Some (Inr s)" using nz s repr_MSB(2) [OF s(2)] by (simp add: Big_ModInverse_def)
    then show ?thesis using s(2) True b0(2) red [of 1] by (intro exI [of _ s] exI [of _ 1]) simp
  next
    case False
    then have b1: "\<not> b \<le> 1" using b0(1) by simp
    obtain q t where d: "divqr_vect m s = Inr (q, t)" "repr q (n div b)" "repr t (n mod b)"
      using repr_divqr [OF assms(2) s(2) b0(1) bit_len_mono] b0(2) by auto
    have lt: "n mod b < b" using b0(1) by simp
    note step = euclid_step [OF cop]
    have t0: "n mod b \<noteq> 0" and cop': "coprime b (n mod b)" using step b1 by simp_all
    obtain qs where qs: "north s t [q] = Some (Inr ([q] @ qs))" "list_all2 repr qs (euclid_quotients b (n mod b))"
      using north_ok [OF s(2) d(3) lt _ cop', of "[q]"] t0 by auto
    define ns where "ns = euclid_quotients n b"
    define v where "v = snd (continuants ns)"
    have "ns = n div b # euclid_quotients b (n mod b)" unfolding ns_def using b1 by (subst euclid_quotients.simps) simp
    then have all: "list_all2 repr (q # qs) ns" using qs(2) d(2) by simp
    have vn: "v < n" using continuants_ok(4) [OF cop b0(1)] b1 b0(2) by (simp add: v_def ns_def)
    have sg: "int v * int b - int (fst (continuants ns)) * int n = (- 1) ^ length ns"
      using continuants_ok(1) [OF cop b0(1)] by (simp add: v_def ns_def)
    have south: "repr (south (q # qs)) v" unfolding v_def
      using all euclid_quotients_pos [OF b0(2)] big_fits_mono [OF _ repr_fits [OF assms(2)], of v] vn by (intro south_ok) (simp_all add: ns_def v_def)
    have len: "length (q # qs) = length ns" using all by (rule list_all2_lengthD)
    have run: "Big_ModInverse x m = Some (if odd (length (q # qs)) then Big_Sub m (south (q # qs)) else Inr (south (q # qs)))"
      using nz s(1) repr_MSB(2) [OF s(2)] False d(1) repr_MSB(1) [OF d(3)] t0 qs(1) by (simp add: Big_ModInverse_def)
    have one: "int 1 = int 1 mod int n" using assms(3) by simp
    show ?thesis
    proof (cases "odd (length ns)")
      case True
      obtain z where z: "Big_Sub m (south (q # qs)) = Inr z" "repr z (n - v)" using repr_Sub [OF assms(2) south] by blast
      have "int v * int b = int (fst (continuants ns)) * int n - 1" using sg True by simp
      then have "int (b * (n - v)) = 1 + int n * (int b - int (fst (continuants ns)))" using vn by (simp add: algebra_simps of_nat_diff)
      then have "int (b * (n - v)) mod int n = 1 mod int n" by simp
      then have "b * (n - v) mod n = 1 mod n" by (metis of_nat_1 of_nat_eq_iff zmod_int)
      moreover have "v \<noteq> 0" using calculation assms(3) by (cases v) simp_all
      moreover have "Big_ModInverse x m = Some (Inr z)" using True unfolding run len z(1) by simp
      ultimately show ?thesis using z red [of "n - v"] assms(3) vn by (intro exI [of _ z] exI [of _ "n - v"]) simp
    next
      case False
      then have "int (b * v) = 1 + int n * int (fst (continuants ns))" using sg by (simp add: algebra_simps)
      then have "int (b * v) mod int n = 1 mod int n" by simp
      then have "b * v mod n = 1 mod n" by (metis of_nat_1 of_nat_eq_iff zmod_int)
      moreover have "Big_ModInverse x m = Some (Inr (south (q # qs)))" using False unfolding run len by simp
      ultimately show ?thesis using south red [of v] assms(3) vn by (intro exI [of _ "south (q # qs)"] exI [of _ v]) simp
    qed
  qed
qed

text \<open>Without an inverse the code reports an error, or divides by a remainder of zero.\<close>

lemma north_fails:
  assumes "repr s a" "repr r b" "b < a" "\<not> coprime a b"
  shows "north s r quots = Some (Inl DivideByZero)"
  using assms
proof (induction b arbitrary: s r a quots rule: less_induct)
  case (less b)
  have b1: "b \<noteq> 1" using less.prems(4) by auto
  show ?case
  proof (cases "b = 0")
    case True
    then show ?thesis using less.prems divqr_zero [of s a r] repr_MSB(2) [OF less.prems(2)] by (subst north.simps) simp
  next
    case False
    obtain q t where d: "divqr_vect s r = Inr (q, t)" "repr t (a mod b)"
      using repr_divqr [OF less.prems(1,2) _ bit_len_mono] less.prems(3) False by auto
    have lt: "a mod b < b" using False by simp
    have "\<not> coprime b (a mod b)" using less.prems(4) unfolding coprime_iff_gcd_eq_1 by (metis gcd_red_nat)
    then have "north r t (quots @ [q]) = Some (Inl DivideByZero)" using less.IH [OF lt less.prems(2) d(2) lt] by blast
    then show ?thesis using d(1) b1 repr_MSB(2) [OF less.prems(2)] by (subst north.simps) simp
  qed
qed

lemma ModInverse_fails:
  assumes "repr x a" "repr m n" "1 < n" "\<not> coprime a n"
  shows "Big_ModInverse x m = Some (Inl (if a = 0 then OpenFHEError ''Zero has no inverse''
    else if a mod n \<noteq> 0 \<and> n mod (a mod n) = 0 then OpenFHEError (Big_ToString x @ '' does not have a ModInverse using '' @ Big_ToString m)
    else DivideByZero))"
proof (cases "a = 0")
  case True
  then show ?thesis using repr_MSB(1) [OF assms(1)] by (simp add: Big_ModInverse_def)
next
  case False
  define b where "b = a mod n"
  have nc: "\<not> coprime n b" using assms(4) unfolding b_def coprime_iff_gcd_eq_1 by (metis gcd_red_nat)
  obtain s where s: "(if \<not> big_less x m then Big_Mod x m else Inr x) = Inr s" "repr s b"
    using big.operand [OF assms(1,2)] assms(3) by (auto simp: b_def)
  have "coprime n 1" by simp
  then have "b \<noteq> 1" using nc by (cases "b = 1") simp_all
  then have b1: "b \<noteq> 1" "b < n" using assms(3) by (simp_all add: b_def)
  note nz = repr_MSB(1) [OF assms(1)] repr_MSB(2) [OF s(2)]
  show ?thesis
  proof (cases "b = 0")
    case True
    then show ?thesis using nz False s divqr_zero [OF assms(2), of s] unfolding b_def [symmetric] by (simp add: Big_ModInverse_def)
  next
    case b0: False
    obtain q t where d: "divqr_vect m s = Inr (q, t)" "repr t (n mod b)"
      using repr_divqr [OF assms(2) s(2) _ bit_len_mono] b0 b1(2) by auto
    have "\<not> coprime b (n mod b)" using nc unfolding coprime_iff_gcd_eq_1 by (metis gcd_red_nat)
    then have "north s t [q] = Some (Inl DivideByZero)" using b0 by (intro north_fails [OF s(2) d(2)]) simp_all
    then show ?thesis using nz False s b1(1) b0 d repr_MSB(1) [OF d(2)] unfolding b_def [symmetric] by (simp add: Big_ModInverse_def)
  qed
qed

end
