(* ===== verification/BigIntProps.thy ===== *)
theory BigIntProps
  imports BigMod
begin

text \<open>
  Decimal text of multi-precision integers, and the properties of the component.
\<close>

subsection \<open>Bits\<close>

lemma unat_MSBToLimbs: "0 < unat i \<Longrightarrow> unat (MSBToLimbs i - 1) = (unat i - 1) div 64"
proof -
  assume i: "0 < unat i"
  have e: "i AND 63 = take_bit 6 i" by (simp add: take_bit_eq_mask mask_numeral)
  have m: "unat (i AND 63) = unat i mod 64" unfolding e by (simp only: unsigned_take_bit_eq) (simp add: take_bit_eq_mod)
  have d: "unat (drop_bit 6 i) = unat i div 64" by (simp only: unat_drop_bit) simp
  have ne: "i \<noteq> 0" using i by auto
  show ?thesis
  proof (cases "unat i mod 64 = 0")
    case True
    then have z: "i AND 63 = 0" using m by (simp add: unat_eq_zero)
    obtain k where k: "unat i = 64 * k" using True by auto
    then have "0 < k" using i by simp
    have "unat (drop_bit 6 i - 1) = unat (drop_bit 6 i) - 1" using d k \<open>0 < k\<close> by (intro unat_minus_one) auto
    moreover have "(64 * k - 1) div 64 = k - 1" using \<open>0 < k\<close> by (cases k) simp_all
    ultimately show ?thesis using ne z d k by (simp add: MSBToLimbs_def)
  next
    case False
    then have z: "i AND 63 \<noteq> 0" using m by auto
    have "(unat i - 1) div 64 = unat i div 64"
    proof -
      have "unat i - 1 = 64 * (unat i div 64) + (unat i mod 64 - 1)" using False mult_div_mod_eq [of 64 "unat i"] by linarith
      moreover have "unat i mod 64 - 1 < 64" by (simp add: less_imp_diff_less)
      ultimately show ?thesis by (metis add.right_neutral div_less div_mult_self4 mult.commute zero_neq_numeral)
    qed
    then show ?thesis using ne z d by (simp add: MSBToLimbs_def)
  qed
qed

lemma lval_nth: "i < length v \<Longrightarrow> unat (v ! i) = lval v div 2 ^ (64 * i) mod 2 ^ 64"
  using lval_split [of i v] lval_take_less [of i v] lval_drop_nth [of i v] unat_less_64 [of "v ! i"] by simp

lemma unat_GetBitAtIndex:
  assumes "repr x n" "0 < unat i" "unat i \<le> bit_len n"
  shows "unat (Big_GetBitAtIndex x i) = n div 2 ^ (unat i - 1) mod 2"
proof -
  define k where "k = (unat i - 1) div 64"
  define s where "s = (unat i - 1) mod 64"
  have v: "lval (m_value x) = n" "unat (m_MSB x) = bit_len n" using assms(1) by (simp_all add: repr_def)
  have n0: "0 < n" using assms(2,3) by (cases n) simp_all
  have "k \<le> (bit_len n - 1) div 64" unfolding k_def using assms(3) by (intro div_le_mono) simp
  then have k: "k < length (m_value x)" using repr_length [OF assms(1)] n0 by simp
  have e: "i AND 63 = take_bit 6 i" by (simp add: take_bit_eq_mask mask_numeral)
  have m: "unat (i AND 63) = unat i mod 64" unfolding e by (simp only: unsigned_take_bit_eq) (simp add: take_bit_eq_mod)
  have "(if i AND 63 \<noteq> 0 then unat ((i AND 63) - 1) else 63) = s"
  proof (cases "i AND 63 = 0")
    case True
    then have "unat i mod 64 = 0" using m by simp
    then obtain j where "unat i = 64 * j" by auto
    moreover have "64 * j - 1 = 64 * (j - 1) + 63" if "0 < j" using that by (cases j) simp_all
    ultimately show ?thesis using True assms(2) by (simp add: s_def)
  next
    case False
    then have "unat ((i AND 63) - 1) = unat (i AND 63) - 1" by (rule unat_minus_one)
    moreover have "unat (i AND 63) \<noteq> 0" using False by (simp only: unat_eq_zero not_False_eq_True)
    ultimately have "unat ((i AND 63) - 1) = unat i mod 64 - 1" "unat i mod 64 \<noteq> 0" by (simp_all only: m not_False_eq_True)
    moreover have "s = unat i mod 64 - 1" unfolding s_def using calculation(2) by (metis Suc_pred' assms(2) diff_Suc_1 mod_Suc zero_less_iff_neq_zero)
    ultimately show ?thesis using False by simp
  qed
  then have "Big_GetBitAtIndex x i = drop_bit s (m_value x ! k) AND 1"
    using assms(3) v(2) unat_MSBToLimbs [OF assms(2)] by (simp add: Big_GetBitAtIndex_def Let_def word_less_nat_alt k_def)
  moreover have "unat (drop_bit s (m_value x ! k) AND 1) = unat (drop_bit s (m_value x ! k)) mod 2"
    using lval_mod_2 [of "[drop_bit s (m_value x ! k)]"] by simp
  ultimately have "unat (Big_GetBitAtIndex x i) = (n div 2 ^ (64 * k) mod 2 ^ 64) div 2 ^ s mod 2"
    by (simp only: unat_drop_bit lval_nth [OF k] v(1))
  also have "\<dots> = n div 2 ^ (64 * k) div 2 ^ s mod 2"
  proof -
    have "s < 64" by (simp add: s_def)
    then have e: "(2 :: nat) ^ 64 = 2 ^ s * 2 ^ (64 - s)" "(2 :: nat) dvd 2 ^ (64 - s)" by (simp_all only: power_add [symmetric], simp_all)
    have "y mod 2 ^ 64 div 2 ^ s = y div 2 ^ s mod 2 ^ (64 - s)" for y :: nat unfolding e(1) mod_mult2_eq by simp
    then show ?thesis using e(2) by (simp add: mod_mod_cancel)
  qed
  also have "\<dots> = n div 2 ^ (unat i - 1) mod 2"
    by (simp add: div_mult2_eq [symmetric] power_add [symmetric] k_def s_def)
  finally show ?thesis .
qed

subsection \<open>Decimal output\<close>

text \<open>Digits from the least significant one, as \<open>ToString\<close> keeps them.\<close>

fun digits_value :: "nat list \<Rightarrow> nat" where
  "digits_value [] = 0"
| "digits_value (d # ds) = d + 10 * digits_value ds"

lemma dbl_digits_ok:
  assumes "ofl \<le> 1" "list_all (\<lambda>d. d \<le> 9) ds"
  shows "digits_value (dbl_digits ofl ds) = 2 * digits_value ds + ofl \<and> list_all (\<lambda>d. d \<le> 9) (dbl_digits ofl ds)"
  using assms by (induction ofl ds rule: dbl_digits.induct) (auto simp: Let_def)

lemma upt_rev_Suc: "rev [1..<Suc n + 1] = Suc n # rev [1..<n + 1]"
  by simp

lemma doubling_loop:
  assumes "repr x n" "k \<le> bit_len n" "list_all (\<lambda>d. d \<le> 9) ds"
  shows "digits_value (fold (\<lambda>i. dbl_digits (unat (Big_GetBitAtIndex x (of_nat i)))) (rev [1..<k + 1]) ds) = 2 ^ k * digits_value ds + n mod 2 ^ k \<and>
    list_all (\<lambda>d. d \<le> 9) (fold (\<lambda>i. dbl_digits (unat (Big_GetBitAtIndex x (of_nat i)))) (rev [1..<k + 1]) ds)"
  using assms(2,3)
proof (induction k arbitrary: ds)
  case 0
  then show ?case by simp
next
  case (Suc k)
  have "bit_len n < 2 ^ 32" using repr_fits [OF assms(1)] by (simp add: big_fits_def)
  then have u: "unat (of_nat (Suc k) :: u32) = Suc k" using Suc.prems(1) by (simp only: unat_of_nat) simp
  have bit: "unat (Big_GetBitAtIndex x (of_nat (Suc k))) = n div 2 ^ k mod 2"
    using unat_GetBitAtIndex [OF assms(1), of "of_nat (Suc k)"] Suc.prems(1) unfolding u by simp
  define ds' where "ds' = dbl_digits (n div 2 ^ k mod 2) ds"
  have d: "digits_value ds' = 2 * digits_value ds + n div 2 ^ k mod 2" "list_all (\<lambda>d. d \<le> 9) ds'"
    using dbl_digits_ok [of "n div 2 ^ k mod 2" ds] Suc.prems(2) by (simp_all add: ds'_def)
  have "2 ^ k * digits_value ds' + n mod 2 ^ k = 2 ^ Suc k * digits_value ds + n mod 2 ^ Suc k"
    unfolding d(1) using mod_mult2_eq [of n "2 ^ k" 2] by (simp add: algebra_simps)
  then show ?case using Suc.IH [OF _ d(2)] Suc.prems(1) unfolding upt_rev_Suc fold_simps bit ds'_def [symmetric] by simp
qed

definition decimal_digits :: "ubint \<Rightarrow> nat list" where
  "decimal_digits x = fold (\<lambda>i. dbl_digits (unat (Big_GetBitAtIndex x (of_nat i)))) (rev [1..<unat (m_MSB x) + 1]) [0]"

lemma decimal_digits_ok: "repr x n \<Longrightarrow> digits_value (decimal_digits x) = n \<and> list_all (\<lambda>d. d \<le> 9) (decimal_digits x)"
  using doubling_loop [of x n "bit_len n" "[0]"] bit_len_upper [of n] by (simp add: decimal_digits_def repr_def)

lemma ToString_digits: "Big_ToString x = map (\<lambda>a. char_of (48 + a)) (rev (decimal_digits x))"
  by (simp add: Big_ToString_def decimal_digits_def)

subsection \<open>Decimal input\<close>

text \<open>Digits from the most significant one, as \<open>SetValue\<close> halves them.\<close>

fun word_digits :: "u8 list \<Rightarrow> nat" where
  "word_digits [] = 0"
| "word_digits (d # ds) = unat d * 10 ^ length ds + word_digits ds"

lemma length_halve_digits: "length (halve_digits c ds) = length ds"
  by (induction c ds rule: halve_digits.induct) (simp_all add: Let_def)

lemma halve_byte:
  assumes "unat (d :: u8) < 128"
  shows "unat (signed_drop_bit 1 d) = unat d div 2" "unat ((d AND 1) * 10) = unat d mod 2 * 10"
proof -
  have "\<not> bit d 7"
  proof -
    have "\<not> bit (unat d) 7" using assms by (simp add: bit_iff_odd)
    then show ?thesis by (simp add: bit_unsigned_iff)
  qed
  moreover have "\<not> bit d 8" by (auto dest: bit_imp_le_length)
  ultimately have "signed_drop_bit 1 d = drop_bit 1 d" by (intro bit_eqI) (auto simp: bit_signed_drop_bit_iff bit_drop_bit_eq le_less Suc_le_eq not_le)
  then show "unat (signed_drop_bit 1 d) = unat d div 2" by (simp add: unat_drop_bit)
  have "d AND 1 = of_nat (unat d mod 2)"
    by (cases "odd (unat d)") (use odd_word [of d] in \<open>auto simp: and_one_eq mod_2_eq_odd\<close>)
  then show "unat ((d AND 1) * 10) = unat d mod 2 * 10" by (cases "odd (unat d)") (simp_all add: mod_2_eq_odd)
qed

lemma halve_digits_ok:
  assumes "unat c = 10 * k" "k \<le> 1" "list_all (\<lambda>d. unat d \<le> 9) ds"
  shows "word_digits (halve_digits c ds) = (k * 10 ^ length ds + word_digits ds) div 2 \<and> list_all (\<lambda>d. unat d \<le> 9) (halve_digits c ds)"
  using assms
proof (induction ds arbitrary: c k)
  case Nil
  then show ?case by simp
next
  case (Cons d ds)
  define e where "e = d + c"
  have e: "unat e = unat d + 10 * k" using Cons.prems by (simp add: e_def unat_word_ariths(1))
  then have h: "unat (signed_drop_bit 1 e) = unat e div 2" "unat ((e AND 1) * 10) = 10 * (unat e mod 2)"
    using halve_byte [of e] Cons.prems by simp_all
  have ih: "word_digits (halve_digits ((e AND 1) * 10) ds) = (unat e mod 2 * 10 ^ length ds + word_digits ds) div 2"
    "list_all (\<lambda>d. unat d \<le> 9) (halve_digits ((e AND 1) * 10) ds)"
    using Cons.IH [OF h(2)] Cons.prems(3) by simp_all
  have "k * 10 ^ length (d # ds) + word_digits (d # ds) = unat e * 10 ^ length ds + word_digits ds" by (simp add: e algebra_simps)
  also have "\<dots> = 2 * (unat e div 2 * 10 ^ length ds) + (unat e mod 2 * 10 ^ length ds + word_digits ds)"
    by (subst (1) mult_div_mod_eq [of 2 "unat e", symmetric]) (simp only: distrib_right mult.assoc add.assoc)
  finally have "(k * 10 ^ length (d # ds) + word_digits (d # ds)) div 2 = unat e div 2 * 10 ^ length ds + (unat e mod 2 * 10 ^ length ds + word_digits ds) div 2"
    by simp
  moreover have "unat e div 2 \<le> 9" using div_le_mono [of "unat e" 19 2] e Cons.prems by simp
  ultimately show ?case using ih h(1) by (simp add: e_def [symmetric] Let_def length_halve_digits)
qed

lemma even_tens: "(u * 10 ^ Suc n + z) mod 2 = z mod (2 :: nat)"
proof -
  have "u * 10 ^ Suc n + z = z + 2 * (5 * u * 10 ^ n)" by simp
  then show ?thesis by (simp only: mod_mult_self2)
qed

lemma word_digits_parity: "ds \<noteq> [] \<Longrightarrow> word_digits ds mod 2 = unat (last ds) mod 2"
proof (induction ds)
  case (Cons d ds)
  then show ?case using even_tens [of "unat d" "length (tl ds)" "word_digits ds"] by (cases ds) simp_all
qed simp

text \<open>What the halving loop keeps: no leading zero, except that the number zero is the digit zero.\<close>

definition decimal :: "u8 list \<Rightarrow> bool" where
  "decimal ds \<longleftrightarrow> list_all (\<lambda>d. unat d \<le> 9) ds \<and> (ds = [] \<or> hd ds \<noteq> 0)"

lemma decimal_step:
  assumes "decimal ds" "ds \<noteq> []"
  defines "h \<equiv> halve_digits 0 ds"
  defines "ds' \<equiv> if hd h = 0 then tl h else h"
  shows "decimal ds'" "word_digits ds' = word_digits ds div 2" "0 < word_digits ds"
proof -
  obtain d es where ds: "ds = d # es" using assms(2) by (cases ds) auto
  have d: "unat d \<le> 9" "d \<noteq> 0" using assms(1) ds by (simp_all add: decimal_def)
  have all: "word_digits h = word_digits ds div 2" "list_all (\<lambda>d. unat d \<le> 9) h"
    using halve_digits_ok [of 0 0 ds] assms(1) by (simp_all add: h_def decimal_def)
  have d0: "0 < unat d" using d(2) by (simp add: unat_gt_0)
  then show "0 < word_digits ds" by (simp add: ds)
  define t where "t = halve_digits ((d AND 1) * 10) es"
  have h: "h = signed_drop_bit 1 d # t" by (simp add: h_def ds t_def)
  have b: "unat (signed_drop_bit 1 d) = unat d div 2" "unat ((d AND 1) * 10) = unat d mod 2 * 10" using halve_byte [of d] d(1) by simp_all
  show "word_digits ds' = word_digits ds div 2" unfolding all(1) [symmetric] using h by (simp add: ds'_def)
  show "decimal ds'"
  proof (cases "hd h = 0")
    case False
    then show ?thesis using all(2) by (simp add: ds'_def decimal_def)
  next
    case True
    then have "unat d div 2 = 0" using b(1) h by simp
    then have one: "unat d = 1" using d0 by linarith
    have "hd t \<noteq> 0" if "t \<noteq> []"
    proof (cases es)
      case Nil
      then show ?thesis using that by (simp add: t_def)
    next
      case (Cons e fs)
      define f where "f = e + (d AND 1) * 10"
      have "unat e \<le> 9" using assms(1) ds Cons by (simp add: decimal_def)
      then have f: "unat f = unat e + 10" unfolding f_def using b(2) one by (simp add: unat_word_ariths(1))
      then have "unat (signed_drop_bit 1 f) = unat f div 2" using halve_byte [of f] \<open>unat e \<le> 9\<close> by simp
      then have "0 < unat (signed_drop_bit 1 f)" using f by simp
      moreover have "hd t = signed_drop_bit 1 f" by (simp add: t_def Cons f_def Let_def)
      ultimately show ?thesis by auto
    qed
    then show ?thesis using all(2) True h by (auto simp: ds'_def decimal_def)
  qed
qed

lemma or_new_bit:
  assumes "unat (val :: u64) < 2 ^ cnt" "cnt < 64"
  shows "unat (val OR push_bit cnt (b AND 1)) = unat val + 2 ^ cnt * (unat b mod 2)" "unat val + 2 ^ cnt * (unat b mod 2) < 2 ^ Suc cnt"
proof -
  have b: "unat (b AND 1) = unat b mod 2" using lval_mod_2 [of "[b]"] by simp
  have lt: "unat b mod 2 \<le> 1" by linarith
  then have "2 ^ cnt * (unat b mod 2) \<le> 2 ^ cnt * 1" by (rule mult_le_mono2)
  then show lt2: "unat val + 2 ^ cnt * (unat b mod 2) < 2 ^ Suc cnt" using assms(1) unfolding power_Suc mult_2 by linarith
  have c: "(2 :: nat) ^ Suc cnt \<le> 2 ^ 64" using assms(2) by (intro power_increasing) simp_all
  have "\<not> bit val i" if "cnt \<le> i" for i
  proof -
    have "(2 :: nat) ^ cnt \<le> 2 ^ i" using that by (intro power_increasing) simp_all
    with assms(1) have "unat val < 2 ^ i" by (rule order.strict_trans2)
    then have "\<not> bit (unat val) i" by (simp add: bit_iff_odd)
    then show ?thesis by (auto simp: bit_unsigned_iff dest: bit_imp_le_length)
  qed
  then have "val AND push_bit cnt (b AND 1) = 0" by (intro bit_eqI) (auto simp: bit_and_iff bit_push_bit_iff)
  then have "val OR push_bit cnt (b AND 1) = val + push_bit cnt (b AND 1)" by (simp add: disjunctive_add_eq_or)
  moreover have "2 ^ cnt * (unat b mod 2) < 2 ^ 64" using lt2 c by linarith
  then have "unat (push_bit cnt (b AND 1)) = 2 ^ cnt * (unat b mod 2)" unfolding unat_push_bit b by (simp add: mult.commute)
  moreover have "unat val + 2 ^ cnt * (unat b mod 2) < 2 ^ 64" using lt2 c by linarith
  ultimately show "unat (val OR push_bit cnt (b AND 1)) = unat val + 2 ^ cnt * (unat b mod 2)" by (simp only: unat_word_ariths(1)) simp
qed

lemma SetValue_loop_ok:
  assumes "decimal ds \<or> ds = [0]" "unat val < 2 ^ cnt" "cnt < 64" "ds = [] \<Longrightarrow> val = 0"
  shows "\<exists>ls. Big_SetValue_loop ds cnt val limbs = Some ls \<and> lval ls = lval limbs + 2 ^ (64 * length limbs) * (unat val + 2 ^ cnt * word_digits ds) \<and>
    (ds \<noteq> [] \<or> limbs \<noteq> [] \<longrightarrow> ls \<noteq> [])"
  using assms
proof (induction "word_digits ds + length ds" arbitrary: ds cnt val limbs rule: less_induct)
  case less
  show ?case
  proof (cases "ds = []")
    case True
    then show ?thesis using less.prems(4) by (subst Big_SetValue_loop.simps) simp
  next
    case False
    define h where "h = halve_digits 0 ds"
    define ds' where "ds' = (if hd h = 0 then tl h else h)"
    define val' where "val' = val OR push_bit cnt (ucast (last ds AND 1))"
    have st: "decimal ds'" "word_digits ds' = word_digits ds div 2" "word_digits ds' + length ds' < word_digits ds + length ds"
    proof -
      have z: "ds' = []" if "ds = [0]" using that by (simp add: ds'_def h_def)
      have l: "length ds' \<le> length ds" by (simp add: ds'_def h_def length_halve_digits)
      consider "ds = [0]" | "decimal ds" using less.prems(1) by blast
      then have "decimal ds' \<and> word_digits ds' = word_digits ds div 2 \<and> word_digits ds' + length ds' < word_digits ds + length ds"
      proof cases
        case 1
        then show ?thesis using z by (simp add: decimal_def)
      next
        case 2
        then show ?thesis using decimal_step [OF 2 False, folded h_def, folded ds'_def] l by simp
      qed
      then show "decimal ds'" "word_digits ds' = word_digits ds div 2" "word_digits ds' + length ds' < word_digits ds + length ds" by simp_all
    qed
    have "take_bit 64 (unat (last ds)) = unat (last ds)"
      using unsigned_less [of "last ds", where ?'a = nat] by (simp add: take_bit_nat_eq_self_iff)
    then have par: "unat (ucast (last ds) :: u64) mod 2 = word_digits ds mod 2"
      using word_digits_parity [OF False] by (simp add: unsigned_ucast_eq)
    have "ucast (last ds AND 1) = (ucast (last ds) AND 1 :: u64)" by (rule bit_eqI) (auto simp: bit_ucast_iff bit_and_iff bit_1_iff)
    then have v': "unat val' = unat val + 2 ^ cnt * (word_digits ds mod 2)" "unat val' < 2 ^ Suc cnt"
      using or_new_bit [OF less.prems(2,3), of "ucast (last ds)"] par unfolding val'_def by simp_all
    have val: "unat val' + 2 ^ Suc cnt * word_digits ds' = unat val + 2 ^ cnt * word_digits ds"
    proof -
      have "2 ^ Suc cnt * word_digits ds' + 2 ^ cnt * (word_digits ds mod 2) = 2 ^ cnt * (2 * (word_digits ds div 2) + word_digits ds mod 2)"
        unfolding st(2) by (simp only: power_Suc distrib_left mult.assoc mult.left_commute [of 2])
      then show ?thesis unfolding v'(1) mult_div_mod_eq by linarith
    qed
    have run: "Big_SetValue_loop ds cnt val limbs = (if cnt + 1 = 64 \<or> ds' = [] then Big_SetValue_loop ds' 0 0 (limbs @ [val']) else Big_SetValue_loop ds' (cnt + 1) val' limbs)"
      using False by (subst Big_SetValue_loop.simps) (simp add: Let_def h_def ds'_def val'_def)
    show ?thesis
    proof (cases "cnt + 1 = 64 \<or> ds' = []")
      case True
      obtain ls where ls: "Big_SetValue_loop ds' 0 0 (limbs @ [val']) = Some ls"
        "lval ls = lval (limbs @ [val']) + 2 ^ (64 * length (limbs @ [val'])) * word_digits ds'" "ls \<noteq> []"
        using less.hyps [OF st(3), of 0 0 "limbs @ [val']"] st(1) by auto
      have e: "2 ^ 64 * word_digits ds' = 2 ^ Suc cnt * word_digits ds'" 
      proof (cases "ds' = []")
        case False
        then have "Suc cnt = 64" using True by simp
        then show ?thesis by (simp only:)
      qed simp
      have "lval ls = lval limbs + 2 ^ (64 * length limbs) * (unat val' + 2 ^ 64 * word_digits ds')"
        unfolding ls(2) by (simp add: lval_append power_add distrib_left)
      then have "lval ls = lval limbs + 2 ^ (64 * length limbs) * (unat val' + 2 ^ Suc cnt * word_digits ds')"
        by (simp only: e)
      then show ?thesis using ls run True unfolding val by simp
    next
      case F: False
      then have c: "cnt + 1 < 64" using less.prems(3) by simp
      obtain ls where ls: "Big_SetValue_loop ds' (cnt + 1) val' limbs = Some ls"
        "lval ls = lval limbs + 2 ^ (64 * length limbs) * (unat val' + 2 ^ (cnt + 1) * word_digits ds')" "ls \<noteq> []"
        using less.hyps [OF st(3), of val' "cnt + 1" limbs] st(1) v'(2) c F by auto
      then show ?thesis using run F val by simp
    qed
  qed
qed

text \<open>The number that a string of digits denotes.\<close>

definition digit_words :: "string \<Rightarrow> u8 list" where
  "digit_words s = map (\<lambda>c. of_nat (of_char c) - 48) s"

definition decimal_string :: "string \<Rightarrow> bool" where
  "decimal_string s \<longleftrightarrow> list_all (\<lambda>c. 48 \<le> (of_char c :: nat) \<and> (of_char c :: nat) \<le> 57) s"

lemma digit_word:
  assumes "48 \<le> (of_char c :: nat)" "(of_char c :: nat) \<le> 57"
  shows "unat (of_nat (of_char c) - 48 :: u8) = of_char c - 48" "(of_nat (of_char c) - 48 :: u8) = 0 \<longleftrightarrow> c = CHR ''0''"
proof -
  have u: "unat (of_nat (of_char c) :: u8) = of_char c" using assms(2) by (simp only: unat_of_nat) simp
  then show v: "unat (of_nat (of_char c) - 48 :: u8) = of_char c - 48" using assms(1) by (subst unat_sub) (simp_all add: word_le_nat_alt)
  have "(of_nat (of_char c) - 48 :: u8) = 0 \<longleftrightarrow> (of_char c :: nat) = 48" 
    unfolding unat_eq_zero [symmetric] v using assms(1) by auto
  also have "\<dots> \<longleftrightarrow> of_char c = (of_char CHR ''0'' :: nat)" by simp
  finally show "(of_nat (of_char c) - 48 :: u8) = 0 \<longleftrightarrow> c = CHR ''0''" by (simp only: of_char_eq_iff)
qed

lemma repr_SetValue:
  assumes "decimal_string s" "big_fits (word_digits (digit_words s))"
  shows "\<exists>y. Big_SetValue s = Some y \<and> repr y (word_digits (digit_words s))"
proof -
  define v where "v = dropWhile (\<lambda>c. c = CHR ''0'') s"
  define w where "w = (if v = [] then ''0'' else v)"
  have lead: "word_digits (digit_words s) = word_digits (digit_words v)" unfolding v_def
    by (induction s) (simp_all add: digit_words_def)
  have sv: "list_all (\<lambda>c. 48 \<le> (of_char c :: nat) \<and> (of_char c :: nat) \<le> 57) v"
    using assms(1) unfolding decimal_string_def v_def list_all_iff by (auto dest: set_dropWhileD)
  have wv: "word_digits (digit_words w) = word_digits (digit_words v)" by (simp add: w_def digit_words_def)
  have dec: "decimal (digit_words w) \<or> digit_words w = [0]"
  proof (cases "v = []")
    case True
    then show ?thesis by (simp add: w_def digit_words_def)
  next
    case False
    then have "hd v \<noteq> CHR ''0''" unfolding v_def by (metis (full_types) hd_dropWhile)
    moreover have "48 \<le> (of_char (hd v) :: nat) \<and> (of_char (hd v) :: nat) \<le> 57" using sv False by (cases v) auto
    ultimately have h: "hd (digit_words v) \<noteq> 0" using False digit_word(2) [of "hd v"] by (cases v) (simp_all add: digit_words_def)
    have "list_all (\<lambda>d. unat d \<le> 9) (digit_words v)" unfolding digit_words_def list_all_iff
    proof
      fix d :: u8 assume "d \<in> set (map (\<lambda>c. of_nat (of_char c) - 48) v)"
      then obtain c where c: "c \<in> set v" "d = of_nat (of_char c) - 48" by auto
      then have "48 \<le> (of_char c :: nat) \<and> (of_char c :: nat) \<le> 57" using sv by (auto simp: list_all_iff)
      then show "unat d \<le> 9" unfolding c(2) using digit_word(1) [of c] by linarith
    qed
    then show ?thesis using h False by (simp add: w_def decimal_def)
  qed
  have ne: "digit_words w \<noteq> []" by (simp add: w_def digit_words_def)
  obtain ls where ls: "Big_SetValue_loop (digit_words w) 0 0 [] = Some ls" "lval ls = word_digits (digit_words w)" "ls \<noteq> []"
    using SetValue_loop_ok [OF dec, of 0 0 "[]"] ne by auto
  have "Big_SetValue s = Some (NormalizeLimbs ls)"
    using ls(1) by (simp add: Big_SetValue_def Let_def v_def [symmetric] w_def [symmetric] digit_words_def)
  then show ?thesis using ls wv lead assms(2) repr_NormalizeLimbs by simp
qed

text \<open>The digits written are the digits read.\<close>

lemma word_digits_append: "word_digits (xs @ [d]) = 10 * word_digits xs + unat d"
  by (induction xs) simp_all

lemma ToString_value:
  assumes "repr x n"
  shows "decimal_string (Big_ToString x)" "word_digits (digit_words (Big_ToString x)) = n"
proof -
  have c: "(of_char (char_of (48 + a) :: char) :: nat) = 48 + a" if "a \<le> 9" for a :: nat using that by simp
  have all: "list_all (\<lambda>d. d \<le> 9) (decimal_digits x)" "digits_value (decimal_digits x) = n" using decimal_digits_ok [OF assms] by simp_all
  show "decimal_string (Big_ToString x)" using all(1) c unfolding decimal_string_def ToString_digits list_all_iff by auto
  have "word_digits (digit_words (map (\<lambda>a. char_of (48 + a)) (rev ds))) = digits_value ds" if "list_all (\<lambda>d. d \<le> 9) ds" for ds
    using that
  proof (induction ds)
    case (Cons d ds)
    have u: "unat (of_nat (of_char (char_of (48 + d) :: char)) - 48 :: u8) = d"
      using digit_word(1) [of "char_of (48 + d)"] c [of d] Cons.prems by simp
    show ?case using Cons u by (simp add: digit_words_def word_digits_append)
  qed (simp add: digit_words_def)
  then show "word_digits (digit_words (Big_ToString x)) = n" using all by (simp add: ToString_digits)
qed

subsection \<open>The representation is unique\<close>

lemma lval_inj: "length v = length w \<Longrightarrow> lval v = lval w \<Longrightarrow> v = w"
proof (induction v w rule: list_induct2)
  case (Cons a v b w)
  have "unat a = lval (a # v) mod 2 ^ 64" "unat b = lval (b # w) mod 2 ^ 64" using unat_less_64 [of a] unat_less_64 [of b] by simp_all
  then have "unat a = unat b" by (simp only: Cons.prems)
  then show ?case using Cons by (simp add: word_unat_eq_iff)
qed simp

lemma repr_unique: "repr x n \<Longrightarrow> repr y n \<Longrightarrow> x = y"
  using repr_length [of x n] repr_length [of y n] lval_inj [of "m_value x" "m_value y"]
  by (cases x; cases y) (simp add: repr_def word_unat_eq_iff)

lemma Big_SetValue_ToString: "repr x n \<Longrightarrow> Big_SetValue (Big_ToString x) = Some x"
  using repr_SetValue [OF ToString_value(1)] ToString_value(2) [of x n] repr_fits [of x n] repr_unique by fastforce

text \<open>The well-formed objects: normal form, and the most significant bit of the number that the limbs spell.\<close>

definition big_wf :: "ubint \<Rightarrow> bool" where
  "big_wf x \<longleftrightarrow> normal (m_value x) \<and> unat (m_MSB x) = bit_len (big_val x)"

lemma repr_iff: "repr x n \<longleftrightarrow> big_wf x \<and> big_val x = n"
  by (auto simp: repr_def big_wf_def big_val_def)

lemma repr_res: "(\<exists>z. r = Inr z \<and> repr z n) \<Longrightarrow> (case r of Inl e \<Rightarrow> False | Inr z \<Rightarrow> big_wf z)"
  by (auto simp: repr_iff)

section \<open>Properties\<close>

text \<open>
  C20. Addition, multiplication, shifts and comparison on the limbs compute what they compute on the numbers, subtraction
  is cut off at zero.
\<close>
theorem big_arithmetic:
  assumes "repr x m" "repr y n" "big_fits (m + n)" "big_fits (m * n)" "big_fits (m * 2 ^ unat s)"
  shows "repr (Big_Add x y) (m + n) \<and> repr (Big_Mul x y) (m * n) \<and> (\<exists>z. Big_Sub x y = Inr z \<and> repr z (m - n)) \<and>
    repr (Big_LShift x s) (m * 2 ^ unat s) \<and> (\<exists>z. Big_RShift x s = Inr z \<and> repr z (m div 2 ^ unat s)) \<and>
    Big_Compare x y = (if m < n then - 1 else if m = n then 0 else 1)"
  using repr_Add [OF assms(1-3)] repr_Mul [OF assms(1,2,4)] repr_Sub [OF assms(1,2)] repr_LShift [OF assms(1,5)]
    repr_RShift [OF assms(1)] Big_Compare_sgn [OF assms(1,2)] by simp

lemma big_arithmetic_witness:
  "repr (Big_Mul (Big_LShift (ubint_of_limb 3) 100) (ubint_of_limb 9)) (27 * 2 ^ 100)"
proof -
  have f: "big_fits n" if "n < 2 ^ 200" for n :: nat
  proof -
    have "bit_len n \<le> 200" using that by (simp only: bit_len_le_iff)
    then show ?thesis by (simp add: big_fits_def)
  qed
  have 3: "repr (ubint_of_limb 3) 3" "repr (ubint_of_limb 9) 9" using repr_limb [of 3] repr_limb [of 9] by simp_all
  have "repr (Big_LShift (ubint_of_limb 3) 100) (3 * 2 ^ 100)"
    using big_arithmetic [OF 3 f f f, of 100] by simp
  from big_arithmetic [OF this 3(2) f f f, of 0] show ?thesis by simp
qed

text \<open>
  C19. Knuth's algorithm: the remainder by a number that is not zero is that of the numbers, and so is the quotient, except
  that a smaller dividend with the same most significant bit and the same top limb as the divisor is divided to one.
\<close>
theorem big_division:
  assumes "repr x m" "repr y n" "0 < n"
  shows "(\<exists>z. Big_Mod x y = Inr z \<and> repr z (m mod n)) \<and>
    (\<exists>z. Big_DividedBy x y = Inr z \<and> repr z (if m < n \<and> same_top x y then 1 else m div n))"
  using repr_Mod [OF assms] repr_DividedBy [OF assms] repr_DividedBy_le [OF assms] by (cases "m < n") simp_all

lemma big_fits_200: "n < 2 ^ 200 \<Longrightarrow> big_fits n"
proof -
  assume "n < 2 ^ 200"
  then have "bit_len n \<le> 200" by (simp only: bit_len_le_iff)
  then show ?thesis by (simp add: big_fits_def)
qed

lemma big_division_witness:
  "\<exists>z. Big_DividedBy (Big_LShift (ubint_of_limb 5) 64) (Big_Add (Big_LShift (ubint_of_limb 5) 64) (ubint_of_limb 5)) = Inr z \<and> repr z 1"
proof -
  have 5: "repr (ubint_of_limb 5) 5" using repr_limb [of 5] by simp
  have x: "repr (Big_LShift (ubint_of_limb 5) 64) (5 * 2 ^ 64)" using repr_LShift [OF 5, of 64] big_fits_200 [of "5 * 2 ^ 64"] by simp
  have y: "repr (Big_Add (Big_LShift (ubint_of_limb 5) 64) (ubint_of_limb 5)) (5 * 2 ^ 64 + 5)" by (intro repr_Add x 5 big_fits_200) simp
  have "same_top (Big_LShift (ubint_of_limb 5) 64) (Big_Add (Big_LShift (ubint_of_limb 5) 64) (ubint_of_limb 5))"
    by (simp add: same_top_def Big_LShift_def Big_Add_def ubint_of_limb_def NormalizeLimbs_def drop_zero_limbs.simps) code_simp
  then show ?thesis using big_division [OF x y] by simp
qed

text \<open>
  The rounded division returns the quotient, plus one when the remainder exceeds half of the divisor; a remainder of
  exactly one half is rounded down. The shortcuts for small dividends agree with the division.
\<close>
theorem big_rounding:
  assumes "repr x m" "repr p b" "repr q n" "0 < n" "big_fits (m * b)"
  shows "(\<exists>z. Big_DivideAndRound x q = Inr z \<and> repr z (m div n + of_bool (n div 2 < m mod n))) \<and>
    (\<exists>z. Big_MultiplyAndRound x p q = Inr z \<and> repr z (m * b div n + of_bool (n div 2 < m * b mod n)))"
  using repr_DivideAndRound [OF assms(1,3,4)] repr_MultiplyAndRound [OF assms] by simp

lemma big_rounding_witness: "\<exists>z. Big_MultiplyAndRound (ubint_of_limb 7) (ubint_of_limb 3) (ubint_of_limb 2) = Inr z \<and> repr z 10"
  using big_rounding [of "ubint_of_limb 7" 7 "ubint_of_limb 3" 3 "ubint_of_limb 2" 2] repr_limb [of 7] repr_limb [of 3] repr_limb [of 2]
    big_fits_200 [of 21] by simp

text \<open>
  C22. Modular arithmetic: sum, difference and product of any operands are reduced below the modulus, powers by square and
  multiply too for moduli above one.
\<close>
theorem big_modular:
  assumes "repr x a" "repr y b" "repr p n" "1 < n" "big_fits (n * n)"
  shows "(\<exists>z. Big_ModAdd x y p = Inr z \<and> repr z ((a + b) mod n)) \<and>
    (\<exists>z. Big_ModSub x y p = Inr z \<and> repr z ((a + (n - b mod n)) mod n)) \<and>
    (\<exists>z. Big_ModMul x y p = Inr z \<and> repr z (a * b mod n)) \<and>
    (\<exists>z. Big_ModExp x y p = Some (Inr z) \<and> repr z (a ^ b mod n))"
proof -
  have "2 * n \<le> n * n" using assms(4) by simp
  then have "big_fits (2 * n)" using big_fits_mono assms(5) by blast
  then show ?thesis
    using repr_ModAdd [OF assms(1-3)] repr_ModSub [OF assms(1-3)] repr_ModMul [OF assms(1-3)] repr_ModExp [OF assms] assms(4,5) by simp
qed

lemma big_modular_witness: "\<exists>z. Big_ModExp (ubint_of_limb 3) (ubint_of_limb 4) (ubint_of_limb 7) = Some (Inr z) \<and> repr z 4"
  using big_modular [of "ubint_of_limb 3" 3 "ubint_of_limb 4" 4 "ubint_of_limb 7" 7] repr_limb [of 3] repr_limb [of 4] repr_limb [of 7]
    big_fits_200 [of 49] by simp

text \<open>
  C21. The extended Euclidean algorithm ends, and for a modulus above 1 returns the inverse below the modulus when there
  is one. When there is none, the code tests for it only twice: zero throws, and a number whose residue divides the
  modulus throws; in every other case, a nonzero multiple of the modulus included, the run divides by zero.
\<close>

theorem big_inverse:
  assumes "repr x a" "repr p n" "1 < n"
  shows "if coprime a n then \<exists>z v. Big_ModInverse x p = Some (Inr z) \<and> repr z v \<and> v < n \<and> a * v mod n = 1
    else Big_ModInverse x p = Some (Inl (if a = 0 then OpenFHEError ''Zero has no inverse''
      else if a mod n \<noteq> 0 \<and> n mod (a mod n) = 0
        then OpenFHEError (Big_ToString x @ '' does not have a ModInverse using '' @ Big_ToString p)
        else DivideByZero))"
  using repr_ModInverse [OF assms] ModInverse_fails [OF assms] by simp

lemma big_inverse_witness:
  "(\<exists>z. Big_ModInverse (ubint_of_limb 3) (ubint_of_limb 7) = Some (Inr z) \<and> repr z 5) \<and>
    Big_ModInverse (ubint_of_limb 6) (ubint_of_limb 9) = Some (Inl DivideByZero)"
proof
  have "coprime (3 :: nat) 7" by (simp add: coprime_iff_gcd_eq_1 gcd_non_0_nat)
  then obtain z v where z: "Big_ModInverse (ubint_of_limb 3) (ubint_of_limb 7) = Some (Inr z)" "repr z v" "v < 7" "3 * v mod 7 = 1"
    using big_inverse [of "ubint_of_limb 3" 3 "ubint_of_limb 7" 7] repr_limb [of 3] repr_limb [of 7] by auto
  have "v \<in> {0, 1, 2, 3, 4, 5, 6}" using z(3) by auto
  then have "v = 5" using z(4) by auto
  then show "\<exists>z. Big_ModInverse (ubint_of_limb 3) (ubint_of_limb 7) = Some (Inr z) \<and> repr z 5" using z by simp
  have "\<not> coprime (6 :: nat) 9" by (simp add: coprime_iff_gcd_eq_1 gcd_non_0_nat)
  then show "Big_ModInverse (ubint_of_limb 6) (ubint_of_limb 9) = Some (Inl DivideByZero)"
    using big_inverse [of "ubint_of_limb 6" 6 "ubint_of_limb 9" 9] repr_limb [of 6] repr_limb [of 9] by simp
qed

text \<open>
  C23. Decimal text: what is printed denotes the number and reads back as the very same object, and every string of
  digits, with or without leading zeros, is read as the number it denotes.
\<close>
theorem big_decimal:
  assumes "repr x n" "decimal_string s" "big_fits (word_digits (digit_words s))"
  shows "decimal_string (Big_ToString x) \<and> word_digits (digit_words (Big_ToString x)) = n \<and>
    Big_SetValue (Big_ToString x) = Some x \<and> (\<exists>y. Big_SetValue s = Some y \<and> repr y (word_digits (digit_words s)))"
  using ToString_value [OF assms(1)] Big_SetValue_ToString [OF assms(1)] repr_SetValue [OF assms(2,3)] by simp

lemma big_decimal_witness:
  "Big_SetValue (Big_ToString (ubint_of_limb 47)) = Some (ubint_of_limb 47) \<and> (\<exists>y. Big_SetValue ''0047'' = Some y \<and> repr y 47)"
proof -
  have "word_digits (digit_words ''0047'') = 47" by code_simp
  then show ?thesis
    using big_decimal [of "ubint_of_limb 47" 47 "''0047''"] repr_limb [of 47] big_fits_200 [of 47] by (simp add: decimal_string_def)
qed

end
