(* ===== verification/Dcrt.thy ===== *)
theory Dcrt
  imports PolyProps Generators BigIntProps
begin

text \<open>
  Polynomials over several moduli (\<open>lattice/hal/default/dcrtpoly.h\<close>, \<open>dcrtpoly-impl.h\<close>) and their
  parameters (\<open>ildcrtparams.h\<close>): construction and assignment, arithmetic, formats, automorphisms, interpolation,
  rescaling, modulus reduction and decomposition. Random values and root searches draw from the generator of the
  model; the loops over the towers are run in order.
\<close>

section \<open>Definitions\<close>

subsection \<open>Loops that draw random values\<close>

text \<open>A loop over a list whose body may fail, not return, and draw.\<close>

fun rfold :: "('b \<Rightarrow> 'a \<Rightarrow> 's \<Rightarrow> ('a, 's) run) \<Rightarrow> 'b list \<Rightarrow> 'a \<Rightarrow> 's \<Rightarrow> ('a, 's) run" where
  "rfold f [] a s = Some (Inr (a, s))"
| "rfold f (x # xs) a s = rbind (f x a s) (rfold f xs)"

subsection \<open>Parameters\<close>

text \<open>
  \<open>ILDCRTParams<BigInteger>\<close>: the fields of its base class with multi-precision moduli, and the parameters of the
  towers.
\<close>

record dcrt_params =
  dp_ringDimension :: u32
  dp_cyclotomicOrder :: u32
  dp_ciphertextModulus :: ubint
  dp_rootOfUnity :: ubint
  dp_bigCiphertextModulus :: ubint
  dp_bigRootOfUnity :: ubint
  dp_params :: "elem_params list"

definition Dcrt_ElemParams :: "'s prng \<Rightarrow> u32 \<Rightarrow> ubint \<Rightarrow> elem_params list \<Rightarrow> 's \<Rightarrow> (dcrt_params, 's) run" where
  "Dcrt_ElemParams draw order ctModulus params s =
     rbind (GetTotient draw (ucast order) s) (\<lambda>n s.
       Some (Inr (\<lparr>dp_ringDimension = ucast n, dp_cyclotomicOrder = order, dp_ciphertextModulus = ctModulus,
         dp_rootOfUnity = ubint_of_limb 0, dp_bigCiphertextModulus = ubint_of_limb 0, dp_bigRootOfUnity = ubint_of_limb 0,
         dp_params = params\<rparr>, s)))"

text \<open>The towers for a modulus of at least the given size: primes downwards from 60 bits.\<close>

partial_function (option) modulus_chain ::
    "'s prng \<Rightarrow> u32 \<Rightarrow> ubint \<Rightarrow> u64 \<Rightarrow> ubint \<Rightarrow> elem_params list \<Rightarrow> 's \<Rightarrow> (ubint \<times> elem_params list, 's) run" where
  "modulus_chain draw corder modulus q compositeModulus params s =
     (if big_less (Big_MulEq compositeModulus (ubint_of_limb q)) modulus
      then rbind (PreviousPrime draw q (ucast corder) s) (\<lambda>q' s. rbind (ILParams_modulus draw corder q' s) (\<lambda>P s.
             modulus_chain draw corder modulus q' (Big_MulEq compositeModulus (ubint_of_limb q)) (params @ [P]) s))
      else Some (Inr ((Big_MulEq compositeModulus (ubint_of_limb q), params), s)))"

definition ILDCRTParams_modulus :: "'s prng \<Rightarrow> u32 \<Rightarrow> ubint \<Rightarrow> 's \<Rightarrow> (dcrt_params, 's) run" where
  "ILDCRTParams_modulus draw corder modulus s =
     rbind (Dcrt_ElemParams draw corder modulus [] s) (\<lambda>D s.
       if corder = 0 then Some (Inr (D, s))
       else rbind (LastPrime draw (of_nat MAX_MODULUS_SIZE) (ucast corder) s) (\<lambda>q s.
            rbind (ILParams_modulus draw corder q s) (\<lambda>P s.
            rbind (modulus_chain draw corder modulus q (ubint_of_limb 1) [P] s) (\<lambda>(m, Ps) s.
              Some (Inr (D\<lparr>dp_ciphertextModulus := m, dp_params := Ps\<rparr>, s))))))"

definition ILDCRTParams_depth :: "'s prng \<Rightarrow> u32 \<Rightarrow> u32 \<Rightarrow> u32 \<Rightarrow> 's \<Rightarrow> (dcrt_params, 's) run" where
  "ILDCRTParams_depth draw corder depth bits s =
     rbind (Dcrt_ElemParams draw corder (ubint_of_limb 0) [] s) (\<lambda>D s.
       if corder = 0 then Some (Inr (D, s))
       else if unat bits > MAX_MODULUS_SIZE then Some (Inl (OpenFHEError ''Invalid bits for ILDCRTParams''))
       else rbind (LastPrime draw bits (ucast corder) s) (\<lambda>q s.
            rbind (ILParams_modulus draw corder q s) (\<lambda>P s.
            rbind (rfold (\<lambda>_ (q, m, Ps) s.
                rbind (PreviousPrime draw q (ucast corder) s) (\<lambda>q s. rbind (ILParams_modulus draw corder q s) (\<lambda>P s.
                  Some (Inr ((q, Big_MulEq m (ubint_of_limb q), Ps @ [P]), s)))))
              [1..<unat depth] (q, ubint_of_limb q, [P]) s) (\<lambda>(q, m, Ps) s.
              Some (Inr (D\<lparr>dp_ciphertextModulus := m, dp_params := Ps\<rparr>, s))))))"

text \<open>\<open>compositeModulus *= moduli[i]\<close> while the parameters of the towers are made by \<open>mk\<close>.\<close>

definition Dcrt_collect ::
    "'s prng \<Rightarrow> u32 \<Rightarrow> u64 list \<Rightarrow> (nat \<Rightarrow> 's \<Rightarrow> (elem_params, 's) run) \<Rightarrow> 's \<Rightarrow> (dcrt_params, 's) run" where
  "Dcrt_collect draw corder moduli mk s =
     rbind (Dcrt_ElemParams draw corder (ubint_of_limb 0) [] s) (\<lambda>D s.
     rbind (rfold (\<lambda>i (m, Ps) s. rbind (mk i s) (\<lambda>P s.
         Some (Inr ((Big_MulEq m (ubint_of_limb (moduli ! i)), Ps @ [P]), s))))
       [0..<length moduli] (ubint_of_limb 1, []) s) (\<lambda>(m, Ps) s.
       Some (Inr (D\<lparr>dp_ciphertextModulus := m, dp_params := Ps\<rparr>, s))))"

definition ILDCRTParams_roots :: "'s prng \<Rightarrow> u32 \<Rightarrow> u64 list \<Rightarrow> u64 list \<Rightarrow> 's \<Rightarrow> (dcrt_params, 's) run" where
  "ILDCRTParams_roots draw corder moduli rootsOfUnity s =
     (if length moduli \<noteq> length rootsOfUnity
      then rbind (Dcrt_ElemParams draw corder (ubint_of_limb 0) [] s) (\<lambda>_ s.
             Some (Inl (OpenFHEError ''sizes of moduli and roots of unity do not match 1'')))
      else Dcrt_collect draw corder moduli (\<lambda>i. ILParams_root draw corder (moduli ! i) (rootsOfUnity ! i)) s)"

definition ILDCRTParams_big ::
    "'s prng \<Rightarrow> u32 \<Rightarrow> u64 list \<Rightarrow> u64 list \<Rightarrow> u64 list \<Rightarrow> u64 list \<Rightarrow> 's \<Rightarrow> (dcrt_params, 's) run" where
  "ILDCRTParams_big draw corder moduli rootsOfUnity moduliBig rootsOfUnityBig s =
     (if length moduli \<noteq> length rootsOfUnity \<or> length moduli \<noteq> length moduliBig \<or> length moduli \<noteq> length rootsOfUnityBig
      then rbind (Dcrt_ElemParams draw corder (ubint_of_limb 0) [] s) (\<lambda>_ s.
             Some (Inl (OpenFHEError ''sizes of moduli and roots of unity do not match 2'')))
      else Dcrt_collect draw corder moduli
             (\<lambda>i. ElemParams draw corder (moduli ! i) (rootsOfUnity ! i) (moduliBig ! i) (rootsOfUnityBig ! i)) s)"

definition ILDCRTParams_moduli :: "'s prng \<Rightarrow> u32 \<Rightarrow> u64 list \<Rightarrow> 's \<Rightarrow> (dcrt_params, 's) run" where
  "ILDCRTParams_moduli draw corder moduli s =
     Dcrt_collect draw corder moduli (\<lambda>i. ILParams_modulus draw corder (moduli ! i)) s"

definition RecalculateModulus :: "dcrt_params \<Rightarrow> dcrt_params" where
  "RecalculateModulus D = D\<lparr>dp_ciphertextModulus :=
     fold (\<lambda>P m. Big_MulEq m (ubint_of_limb (m_ciphertextModulus P))) (dp_params D) (ubint_of_limb 1)\<rparr>"

definition RecalculateBigModulus :: "dcrt_params \<Rightarrow> dcrt_params" where
  "RecalculateBigModulus D = D\<lparr>dp_bigCiphertextModulus :=
     fold (\<lambda>P m. Big_MulEq m (ubint_of_limb (m_bigCiphertextModulus P))) (dp_params D) (ubint_of_limb 1)\<rparr>"

definition ILDCRTParams_params :: "'s prng \<Rightarrow> u32 \<Rightarrow> elem_params list \<Rightarrow> 's \<Rightarrow> (dcrt_params, 's) run" where
  "ILDCRTParams_params draw corder params s =
     rbind (Dcrt_ElemParams draw corder (ubint_of_limb 0) params s) (\<lambda>D s. Some (Inr (RecalculateModulus D, s)))"

definition GetParamPartition :: "dcrt_params \<Rightarrow> nat \<Rightarrow> nat \<Rightarrow> elem_params list res" where
  "GetParamPartition D start_ix end_ix =
     (if end_ix < start_ix \<or> end_ix \<ge> length (dp_params D)
      then Inl (OpenFHEError (''Incorrect parameters for GetParamPartition - (start: '' @ std_to_string start_ix @
             '', end:'' @ std_to_string end_ix @ '')''))
      else Inr (take (end_ix + 1 - start_ix) (drop start_ix (dp_params D))))"

text \<open>The last or the first tower is removed and its modulus divided out.\<close>

definition PopLastParam :: "dcrt_params \<Rightarrow> dcrt_params res" where
  "PopLastParam D =
     (if dp_params D = [] then Inl OutOfRange
      else ebind (Big_DividedByEq (dp_ciphertextModulus D) (ubint_of_limb (m_ciphertextModulus (last (dp_params D))))) (\<lambda>m.
        Inr (D\<lparr>dp_ciphertextModulus := m, dp_params := butlast (dp_params D)\<rparr>)))"

definition PopFirstParam :: "dcrt_params \<Rightarrow> dcrt_params res" where
  "PopFirstParam D =
     (if dp_params D = [] then Inl OutOfRange
      else ebind (Big_DividedByEq (dp_ciphertextModulus D) (ubint_of_limb (m_ciphertextModulus (hd (dp_params D))))) (\<lambda>m.
        Inr (D\<lparr>dp_ciphertextModulus := m, dp_params := tl (dp_params D)\<rparr>)))"

definition big_eq :: "ubint \<Rightarrow> ubint \<Rightarrow> bool" where
  "big_eq x a \<longleftrightarrow> Big_Compare x a = 0"

definition dcrt_params_eq :: "dcrt_params \<Rightarrow> dcrt_params \<Rightarrow> bool" where
  "dcrt_params_eq D E \<longleftrightarrow> dp_ringDimension D = dp_ringDimension E \<and> dp_cyclotomicOrder D = dp_cyclotomicOrder E \<and>
     big_eq (dp_ciphertextModulus D) (dp_ciphertextModulus E) \<and> big_eq (dp_rootOfUnity D) (dp_rootOfUnity E) \<and>
     big_eq (dp_bigCiphertextModulus D) (dp_bigCiphertextModulus E) \<and> big_eq (dp_bigRootOfUnity D) (dp_bigRootOfUnity E) \<and>
     list_all2 elem_params_eq (dp_params D) (dp_params E)"

subsection \<open>Construction and assignment\<close>

record dcrt =
  dc_params :: dcrt_params
  dc_format :: Format
  dc_vectors :: "poly list"

text \<open>A polynomial over a multi-precision modulus, as \<open>CRTInterpolate\<close> returns it.\<close>

record big_poly =
  bp_format :: Format
  bp_cyclotomicOrder :: u32
  bp_ringDimension :: u32
  bp_modulus :: ubint
  bp_rootOfUnity :: ubint
  bp_values :: "ubint list"

definition DCRTPolyImpl :: "dcrt_params \<Rightarrow> Format \<Rightarrow> bool \<Rightarrow> dcrt res" where
  "DCRTPolyImpl params format initializeElementToZero =
     ebind (emap (\<lambda>P. PolyImpl (Some P) format initializeElementToZero) (dp_params params)) (\<lambda>vs.
       Inr \<lparr>dc_params = params, dc_format = format, dc_vectors = vs\<rparr>)"

text \<open>The entries of a tower become the residues of multi-precision entries.\<close>

definition residues_of :: "big_poly \<Rightarrow> poly \<Rightarrow> poly res" where
  "residues_of rhs v = ebind (deref (m_params v)) (\<lambda>P. ebind (deref (m_values v)) (\<lambda>w.
     ebind (efor 0 (length (bp_values rhs)) (\<lambda>i d.
         ebind (Big_Mod (bp_values rhs ! i) (ubint_of_limb (m_ciphertextModulus P))) (\<lambda>r. set_at d i (Big_ConvertToInt r)))
       (m_data w)) (\<lambda>d. Inr (v\<lparr>m_values := Some (w\<lparr>m_data := d\<rparr>)\<rparr>))))"

definition DCRTPolyImpl_large :: "big_poly \<Rightarrow> dcrt_params \<Rightarrow> dcrt res" where
  "DCRTPolyImpl_large rhs params = ebind (DCRTPolyImpl params (bp_format rhs) True) (\<lambda>x.
     ebind (emap (residues_of rhs) (dc_vectors x)) (\<lambda>vs. Inr (x\<lparr>dc_vectors := vs\<rparr>)))"

definition Dcrt_assign_large :: "big_poly \<Rightarrow> dcrt \<Rightarrow> dcrt res" where
  "Dcrt_assign_large rhs x =
     ebind (emap (\<lambda>P. ebind (PolyImpl (Some P) (dc_format x) True) (residues_of rhs)) (dp_params (dc_params x))) (\<lambda>vs.
       Inr (x\<lparr>dc_vectors := vs\<rparr>))"

text \<open>
  Copies of a polynomial over one modulus, switched to the modulus of each tower but the first. An assignment keeps
  the format that the object had.
\<close>

definition switched_copies :: "'s prng \<Rightarrow> poly \<Rightarrow> elem_params list \<Rightarrow> 's \<Rightarrow> (poly list, 's) run" where
  "switched_copies draw rhs Ps s = rfold (\<lambda>i vs s.
     rbind (if i = 0 then Some (Inr (rhs, s))
       else Poly_SwitchModulus draw (m_ciphertextModulus (Ps ! i)) (m_rootOfUnity (Ps ! i)) 0 0 rhs s) (\<lambda>v s.
     Some (Inr (vs @ [v], s)))) [0..<length Ps] [] s"

definition DCRTPolyImpl_poly :: "'s prng \<Rightarrow> poly \<Rightarrow> dcrt_params \<Rightarrow> 's \<Rightarrow> (dcrt, 's) run" where
  "DCRTPolyImpl_poly draw rhs params s =
     rbind (switched_copies draw rhs (dp_params params) s) (\<lambda>vs s.
       Some (Inr (\<lparr>dc_params = params, dc_format = m_format rhs, dc_vectors = vs\<rparr>, s)))"

definition Dcrt_assign_poly :: "'s prng \<Rightarrow> poly \<Rightarrow> dcrt \<Rightarrow> 's \<Rightarrow> (dcrt, 's) run" where
  "Dcrt_assign_poly draw rhs x s =
     rbind (switched_copies draw rhs (dp_params (dc_params x)) s) (\<lambda>vs s. Some (Inr (x\<lparr>dc_vectors := vs\<rparr>, s)))"

definition DCRTPolyImpl_towers :: "'s prng \<Rightarrow> poly list \<Rightarrow> 's \<Rightarrow> (dcrt, 's) run" where
  "DCRTPolyImpl_towers draw towers s =
     rbind (rlift (ebind (get_at towers 0) (\<lambda>t. ebind (deref (m_params t)) (\<lambda>P.
       ebind (emap (\<lambda>v. ebind (deref (m_params v)) (\<lambda>R.
           if m_cyclotomicOrder R \<noteq> m_cyclotomicOrder P
           then Inl (OpenFHEError ''Polys provided to constructor must have the same ring dimension'')
           else Inr R)) towers) (\<lambda>Ps. Inr (m_format t, m_cyclotomicOrder P, Ps))))) s) (\<lambda>(fmt, order, Ps) s.
     rbind (ILDCRTParams_params draw order Ps s) (\<lambda>D s.
       Some (Inr (\<lparr>dc_params = D, dc_format = fmt, dc_vectors = towers\<rparr>, s))))"

subsection \<open>Construction from generators\<close>

text \<open>A vector of signed values taken into each tower in coefficient format, then brought into the format asked for.\<close>

definition tower_of_values ::
    "'s prng \<Rightarrow> Format \<Rightarrow> elem_params \<Rightarrow> u64 list res \<Rightarrow> caches \<Rightarrow> 's \<Rightarrow> (poly \<times> caches, 's) run" where
  "tower_of_values draw format P d cs s =
     rbind (rlift (ebind d (\<lambda>d. ebind (PolyImpl (Some P) EVALUATION False)
         (Poly_SetValues \<lparr>m_modulus = m_ciphertextModulus P, m_data = d\<rparr> COEFFICIENT))) s) (\<lambda>v s.
       SetFormat draw format v cs s)"

definition towers_of_values ::
    "'s prng \<Rightarrow> Format \<Rightarrow> (elem_params \<Rightarrow> u64 list res) \<Rightarrow> elem_params list \<Rightarrow> caches \<Rightarrow> 's \<Rightarrow> (poly list \<times> caches, 's) run" where
  "towers_of_values draw format entries Ps cs s = rfold (\<lambda>P (vs, cs) s.
     rbind (tower_of_values draw format P (entries P) cs s) (\<lambda>(v, cs) s. Some (Inr ((vs @ [v], cs), s)))) Ps ([], cs) s"

text \<open>Gaussian values are reduced first when the standard deviation exceeds the modulus.\<close>

definition gauss_entries :: "rat \<Rightarrow> int list \<Rightarrow> elem_params \<Rightarrow> u64 list res" where
  "gauss_entries std dggValues P =
     (let q = m_ciphertextModulus P
      in emap (\<lambda>k. if std > ConvertToDouble q
           then if q = 0 then Inl DivideByZero else signed_entry i64 q (k smod sint q)
           else signed_entry i64 q k) dggValues)"

definition DCRTPolyImpl_gauss ::
    "'s prng \<Rightarrow> rat \<Rightarrow> (u32 \<Rightarrow> 's \<Rightarrow> (int list, 's) run) \<Rightarrow> dcrt_params \<Rightarrow> Format \<Rightarrow> caches \<Rightarrow> 's \<Rightarrow> (dcrt \<times> caches, 's) run" where
  "DCRTPolyImpl_gauss draw std GenerateIntVector params format cs s =
     rbind (GenerateIntVector (dp_ringDimension params) s) (\<lambda>dggValues s.
     rbind (towers_of_values draw format (gauss_entries std dggValues) (dp_params params) cs s) (\<lambda>(vs, cs) s.
       Some (Inr ((\<lparr>dc_params = params, dc_format = format, dc_vectors = vs\<rparr>, cs), s))))"

definition DCRTPolyImpl_ternary ::
    "'s prng \<Rightarrow> (u32 \<Rightarrow> u32 \<Rightarrow> 's \<Rightarrow> (int list, 's) run) \<Rightarrow> dcrt_params \<Rightarrow> Format \<Rightarrow> u32 \<Rightarrow> caches \<Rightarrow> 's \<Rightarrow> (dcrt \<times> caches, 's) run" where
  "DCRTPolyImpl_ternary draw GenerateIntVector params format h cs s =
     rbind (GenerateIntVector (dp_ringDimension params) h s) (\<lambda>tugValues s.
     rbind (towers_of_values draw format (\<lambda>P. emap (signed_entry i32 (m_ciphertextModulus P)) tugValues) (dp_params params) cs s)
       (\<lambda>(vs, cs) s. Some (Inr ((\<lparr>dc_params = params, dc_format = format, dc_vectors = vs\<rparr>, cs), s))))"

definition DCRTPolyImpl_uniform ::
    "(u32 \<Rightarrow> u64 \<Rightarrow> 's \<Rightarrow> (nvec, 's) run) \<Rightarrow> dcrt_params \<Rightarrow> Format \<Rightarrow> 's \<Rightarrow> (dcrt, 's) run" where
  "DCRTPolyImpl_uniform GenerateVector params format s =
     rbind (rfold (\<lambda>P vs s. rbind (GenerateVector (m_ringDimension P) (m_ciphertextModulus P) s) (\<lambda>w s.
         rlift (ebind (PolyImpl (Some P) EVALUATION False) (\<lambda>v. ebind (Poly_SetValues w format v) (\<lambda>v. Inr (vs @ [v])))) s))
       (dp_params params) [] s) (\<lambda>vs s. Some (Inr (\<lparr>dc_params = params, dc_format = format, dc_vectors = vs\<rparr>, s)))"

text \<open>A binary polynomial is drawn for the first tower and switched from modulus to modulus.\<close>

definition DCRTPolyImpl_binary ::
    "'s prng \<Rightarrow> (u32 \<Rightarrow> u64 \<Rightarrow> 's \<Rightarrow> (nvec, 's) run) \<Rightarrow> dcrt_params \<Rightarrow> Format \<Rightarrow> caches \<Rightarrow> 's \<Rightarrow> (dcrt \<times> caches, 's) run" where
  "DCRTPolyImpl_binary draw GenerateVector params format cs s =
     rbind (rlift (get_at (dp_params params) 0) s) (\<lambda>P s.
     rbind (PolyImpl_generated draw GenerateVector (Some P) COEFFICIENT cs s) (\<lambda>(ilvector, cs) s.
     rbind (rfold (\<lambda>i (ilvector, vs, cs) s.
         rbind (if i = 0 then Some (Inr (ilvector, s))
           else Poly_SwitchModulus draw (m_ciphertextModulus (dp_params params ! i)) (m_rootOfUnity (dp_params params ! i)) 0 0 ilvector s)
           (\<lambda>ilvector s.
         rbind (SetFormat draw format ilvector cs s) (\<lambda>(v, cs) s. Some (Inr ((ilvector, vs @ [v], cs), s)))))
       [0..<length (dp_params params)] (ilvector, [], cs) s) (\<lambda>(ilvector, vs, cs) s.
       Some (Inr ((\<lparr>dc_params = params, dc_format = format, dc_vectors = vs\<rparr>, cs), s)))))"

subsection \<open>Loops over the towers\<close>

text \<open>
  \<open>m_vectors[i] = f(m_vectors[i])\<close> for the first \<open>n\<close> towers, and the same into a new object
  \<open>tmp(m_params, m_format)\<close>.
\<close>

definition each_tower :: "(nat \<Rightarrow> poly \<Rightarrow> poly res) \<Rightarrow> nat \<Rightarrow> poly list \<Rightarrow> poly list res" where
  "each_tower f n ts = efor 0 n (\<lambda>i ts. ebind (get_at ts i) (\<lambda>t. ebind (f i t) (set_at ts i))) ts"

definition new_towers :: "(nat \<Rightarrow> poly \<Rightarrow> poly res) \<Rightarrow> nat \<Rightarrow> dcrt \<Rightarrow> dcrt res" where
  "new_towers f n x = ebind (DCRTPolyImpl (dc_params x) (dc_format x) False) (\<lambda>tmp.
     ebind (efor 0 n (\<lambda>i ts. ebind (get_at (dc_vectors x) i) (\<lambda>t. ebind (f i t) (set_at ts i))) (dc_vectors tmp)) (\<lambda>ts.
       Inr (tmp\<lparr>dc_vectors := ts\<rparr>)))"

definition update_towers :: "(nat \<Rightarrow> poly \<Rightarrow> poly res) \<Rightarrow> dcrt \<Rightarrow> dcrt res" where
  "update_towers f x = ebind (each_tower f (length (dc_vectors x)) (dc_vectors x)) (\<lambda>ts. Inr (x\<lparr>dc_vectors := ts\<rparr>))"

definition each_tower_run ::
    "(nat \<Rightarrow> poly \<Rightarrow> caches \<Rightarrow> 's \<Rightarrow> (poly \<times> caches, 's) run) \<Rightarrow> nat \<Rightarrow> poly list \<Rightarrow> caches \<Rightarrow> 's \<Rightarrow> (poly list \<times> caches, 's) run" where
  "each_tower_run f n ts cs s = rfold (\<lambda>i (ts, cs) s.
     rbind (rlift (get_at ts i) s) (\<lambda>t s. rbind (f i t cs s) (\<lambda>(t, cs) s.
     rbind (rlift (set_at ts i t) s) (\<lambda>ts s. Some (Inr ((ts, cs), s)))))) [0..<n] (ts, cs) s"

subsection \<open>Arithmetic\<close>

definition Dcrt_Negate :: "dcrt \<Rightarrow> dcrt res" where
  "Dcrt_Negate x = new_towers (\<lambda>i. Poly_Negate) (length (dc_vectors x)) x"

definition Dcrt_PlusEq :: "dcrt \<Rightarrow> dcrt \<Rightarrow> dcrt res" where
  "Dcrt_PlusEq x rhs = update_towers (\<lambda>i t. ebind (get_at (dc_vectors rhs) i) (Poly_PlusEq t)) x"

definition Dcrt_MinusEq :: "dcrt \<Rightarrow> dcrt \<Rightarrow> dcrt res" where
  "Dcrt_MinusEq x rhs = update_towers (\<lambda>i t. ebind (get_at (dc_vectors rhs) i) (Poly_MinusEq t)) x"

definition Dcrt_TimesEq :: "dcrt \<Rightarrow> dcrt \<Rightarrow> dcrt res" where
  "Dcrt_TimesEq x rhs = update_towers (\<lambda>i t. ebind (get_at (dc_vectors rhs) i) (Poly_TimesEq t)) x"

definition Dcrt_uminus :: "dcrt \<Rightarrow> dcrt res" where
  "Dcrt_uminus x = ebind (DCRTPolyImpl (dc_params x) (dc_format x) True) (\<lambda>z. Dcrt_MinusEq z x)"

text \<open>The modulus of the first tower, which a binary operation compares.\<close>

definition first_modulus :: "dcrt \<Rightarrow> u64 res" where
  "first_modulus x = ebind (get_at (dc_vectors x) 0) (\<lambda>t. ebind (deref (m_params t)) (\<lambda>P. Inr (m_ciphertextModulus P)))"

definition Dcrt_Plus :: "dcrt \<Rightarrow> dcrt \<Rightarrow> dcrt res" where
  "Dcrt_Plus x rhs =
     (if dp_ringDimension (dc_params x) \<noteq> dp_ringDimension (dc_params rhs) then Inl (OpenFHEError ''RingDimension mismatch'')
      else if dc_format x \<noteq> dc_format rhs then Inl (OpenFHEError ''Format mismatch'')
      else if length (dc_vectors x) \<noteq> length (dc_vectors rhs) then Inl (OpenFHEError ''tower size mismatch; cannot add'')
      else ebind (first_modulus x) (\<lambda>m. ebind (first_modulus rhs) (\<lambda>m'.
        if m \<noteq> m' then Inl (OpenFHEError ''Modulus mismatch'')
        else new_towers (\<lambda>i t. ebind (get_at (dc_vectors rhs) i) (Poly_PlusNoCheck t)) (length (dc_vectors x)) x)))"

definition Dcrt_Minus :: "dcrt \<Rightarrow> dcrt \<Rightarrow> dcrt res" where
  "Dcrt_Minus x rhs =
     (if length (dc_vectors x) \<noteq> length (dc_vectors rhs) then Inl (OpenFHEError ''tower size mismatch; cannot subtract'')
      else new_towers (\<lambda>i t. ebind (get_at (dc_vectors rhs) i) (Poly_Minus t)) (length (dc_vectors x)) x)"

definition Dcrt_Times :: "dcrt \<Rightarrow> dcrt \<Rightarrow> dcrt res" where
  "Dcrt_Times x rhs =
     (if dp_ringDimension (dc_params x) \<noteq> dp_ringDimension (dc_params rhs) then Inl (OpenFHEError ''RingDimension mismatch'')
      else if dc_format x \<noteq> EVALUATION \<or> dc_format rhs \<noteq> EVALUATION
      then Inl (OpenFHEError ''operator* for DCRTPolyImpl supported only in Format::EVALUATION'')
      else if length (dc_vectors x) \<noteq> length (dc_vectors rhs) then Inl (OpenFHEError ''tower size mismatch; cannot multiply'')
      else ebind (first_modulus x) (\<lambda>m. ebind (first_modulus rhs) (\<lambda>m'.
        if m \<noteq> m' then Inl (OpenFHEError ''Modulus mismatch'')
        else new_towers (\<lambda>i t. ebind (get_at (dc_vectors rhs) i) (Poly_TimesNoCheck t)) (length (dc_vectors x)) x)))"

text \<open>A multi-precision scalar is cut to its lowest 64 bits; a list of scalars has one for each tower.\<close>

definition Dcrt_Plus_int :: "dcrt \<Rightarrow> ubint \<Rightarrow> dcrt res" where
  "Dcrt_Plus_int x rhs = new_towers (\<lambda>i t. Poly_Plus_s t (Big_ConvertToInt rhs)) (length (dc_vectors x)) x"

definition Dcrt_Minus_int :: "dcrt \<Rightarrow> ubint \<Rightarrow> dcrt res" where
  "Dcrt_Minus_int x rhs = new_towers (\<lambda>i t. Poly_Minus_s t (Big_ConvertToInt rhs)) (length (dc_vectors x)) x"

definition Dcrt_Times_int :: "dcrt \<Rightarrow> ubint \<Rightarrow> dcrt res" where
  "Dcrt_Times_int x rhs = new_towers (\<lambda>i t. Poly_Times_s t (Big_ConvertToInt rhs)) (length (dc_vectors x)) x"

definition Dcrt_PlusEq_s :: "dcrt \<Rightarrow> u64 \<Rightarrow> dcrt res" where
  "Dcrt_PlusEq_s x rhs = update_towers (\<lambda>i t. Poly_PlusEq_s t rhs) x"

definition Dcrt_MinusEq_s :: "dcrt \<Rightarrow> u64 \<Rightarrow> dcrt res" where
  "Dcrt_MinusEq_s x rhs = update_towers (\<lambda>i t. Poly_MinusEq_s t rhs) x"

definition Dcrt_TimesEq_s :: "dcrt \<Rightarrow> u64 \<Rightarrow> dcrt res" where
  "Dcrt_TimesEq_s x rhs = update_towers (\<lambda>i t. Poly_TimesEq_s t rhs) x"

definition Dcrt_PlusEq_int :: "dcrt \<Rightarrow> ubint \<Rightarrow> dcrt res" where
  "Dcrt_PlusEq_int x rhs = update_towers (\<lambda>i t. Poly_PlusEq_s t (Big_ConvertToInt rhs)) x"

definition Dcrt_MinusEq_int :: "dcrt \<Rightarrow> ubint \<Rightarrow> dcrt res" where
  "Dcrt_MinusEq_int x rhs = update_towers (\<lambda>i t. Poly_MinusEq_s t (Big_ConvertToInt rhs)) x"

definition Dcrt_TimesEq_int :: "dcrt \<Rightarrow> ubint \<Rightarrow> dcrt res" where
  "Dcrt_TimesEq_int x rhs = update_towers (\<lambda>i t. Poly_TimesEq_s t (Big_ConvertToInt rhs)) x"

definition Dcrt_Plus_crt :: "dcrt \<Rightarrow> ubint list \<Rightarrow> dcrt res" where
  "Dcrt_Plus_crt x crtElement =
     new_towers (\<lambda>i t. ebind (get_at crtElement i) (\<lambda>c. Poly_Plus_s t (Big_ConvertToInt c))) (length (dc_vectors x)) x"

definition Dcrt_Minus_crt :: "dcrt \<Rightarrow> ubint list \<Rightarrow> dcrt res" where
  "Dcrt_Minus_crt x crtElement =
     new_towers (\<lambda>i t. ebind (get_at crtElement i) (\<lambda>c. Poly_Minus_s t (Big_ConvertToInt c))) (length (dc_vectors x)) x"

definition Dcrt_Times_crt :: "dcrt \<Rightarrow> ubint list \<Rightarrow> dcrt res" where
  "Dcrt_Times_crt x crtElement =
     new_towers (\<lambda>i t. ebind (get_at crtElement i) (\<lambda>c. Poly_Times_s t (Big_ConvertToInt c))) (length (dc_vectors x)) x"

definition Dcrt_Times_signed :: "dcrt \<Rightarrow> int \<Rightarrow> dcrt res" where
  "Dcrt_Times_signed x rhs = new_towers (\<lambda>i t. Poly_Times_signed t rhs) (length (dc_vectors x)) x"

definition Dcrt_Times_each :: "dcrt \<Rightarrow> u64 list \<Rightarrow> dcrt res" where
  "Dcrt_Times_each x rhs =
     (if length (dc_vectors x) \<noteq> length rhs then Inl (OpenFHEError ''tower size mismatch; cannot multiply'')
      else new_towers (\<lambda>i t. ebind (get_at rhs i) (Poly_Times_s t)) (length (dc_vectors x)) x)"

definition Dcrt_TimesNoCheck :: "dcrt \<Rightarrow> u64 list \<Rightarrow> dcrt res" where
  "Dcrt_TimesNoCheck x rhs =
     new_towers (\<lambda>i t. ebind (get_at rhs i) (Poly_Times_s t))
       (if length (dc_vectors x) < length rhs then length (dc_vectors x) else length rhs) x"

definition Dcrt_MultiplicativeInverse :: "dcrt \<Rightarrow> dcrt res" where
  "Dcrt_MultiplicativeInverse x = new_towers (\<lambda>i. Poly_MultiplicativeInverse) (length (dc_vectors x)) x"

fun towers_invertible :: "poly list \<Rightarrow> bool res" where
  "towers_invertible [] = Inr True"
| "towers_invertible (v # vs) = ebind (InverseExists v) (\<lambda>b. if b then towers_invertible vs else Inr False)"

definition Dcrt_InverseExists :: "dcrt \<Rightarrow> bool res" where
  "Dcrt_InverseExists x = towers_invertible (dc_vectors x)"

definition Dcrt_IsEmpty :: "dcrt \<Rightarrow> bool" where
  "Dcrt_IsEmpty x \<longleftrightarrow> list_all (\<lambda>v. m_values v = None) (dc_vectors x)"

definition Dcrt_SetValuesToZero :: "dcrt \<Rightarrow> dcrt res" where
  "Dcrt_SetValuesToZero x = update_towers (\<lambda>i. SetValuesToZero) x"

definition Dcrt_AddILElementOne :: "dcrt \<Rightarrow> dcrt res" where
  "Dcrt_AddILElementOne x =
     (if dc_format x \<noteq> EVALUATION then Inl (OpenFHEError ''Only available in COEFFICIENT format.'')
      else update_towers (\<lambda>i. AddILElementOne) x)"

text \<open>The comparison of the towers stops at the first difference.\<close>

fun towers_eq :: "poly list \<Rightarrow> poly list \<Rightarrow> bool res" where
  "towers_eq (v # vs) (w # ws) = ebind (Poly_eq v w) (\<lambda>b. if b then towers_eq vs ws else Inr False)"
| "towers_eq _ _ = Inr True"

definition Dcrt_eq :: "dcrt \<Rightarrow> dcrt \<Rightarrow> bool res" where
  "Dcrt_eq x rhs =
     (if dc_format x = dc_format rhs \<and> dp_cyclotomicOrder (dc_params x) = dp_cyclotomicOrder (dc_params rhs) \<and>
        big_eq (dp_ciphertextModulus (dc_params x)) (dp_ciphertextModulus (dc_params rhs)) \<and>
        length (dc_vectors x) = length (dc_vectors rhs)
      then towers_eq (dc_vectors x) (dc_vectors rhs) else Inr False)"

subsection \<open>Format, automorphisms, assignment of lists\<close>

definition Dcrt_SwitchFormat :: "'s prng \<Rightarrow> dcrt \<Rightarrow> caches \<Rightarrow> 's \<Rightarrow> (dcrt \<times> caches, 's) run" where
  "Dcrt_SwitchFormat draw x cs s =
     rbind (each_tower_run (\<lambda>i. SwitchFormat draw) (length (dc_vectors x)) (dc_vectors x) cs s) (\<lambda>(ts, cs) s.
       Some (Inr ((x\<lparr>dc_format := (if dc_format x = COEFFICIENT then EVALUATION else COEFFICIENT), dc_vectors := ts\<rparr>, cs), s)))"

definition Dcrt_SetFormat :: "'s prng \<Rightarrow> Format \<Rightarrow> dcrt \<Rightarrow> caches \<Rightarrow> 's \<Rightarrow> (dcrt \<times> caches, 's) run" where
  "Dcrt_SetFormat draw format x cs s =
     (if dc_format x \<noteq> format then Dcrt_SwitchFormat draw x cs s else Some (Inr ((x, cs), s)))"

definition Dcrt_AutomorphismTransform :: "u32 \<Rightarrow> dcrt \<Rightarrow> dcrt res" where
  "Dcrt_AutomorphismTransform k x = ebind (emap (AutomorphismTransform k) (dc_vectors x)) (\<lambda>vs. Inr (x\<lparr>dc_vectors := vs\<rparr>))"

definition Dcrt_AutomorphismTransform_precomp :: "u32 \<Rightarrow> u32 list \<Rightarrow> dcrt \<Rightarrow> dcrt res" where
  "Dcrt_AutomorphismTransform_precomp k precomp x =
     ebind (emap (AutomorphismTransform_precomp k precomp) (dc_vectors x)) (\<lambda>vs. Inr (x\<lparr>dc_vectors := vs\<rparr>))"

definition Dcrt_Transpose :: "dcrt \<Rightarrow> dcrt res" where
  "Dcrt_Transpose x =
     (if dc_format x = COEFFICIENT
      then Inl (OpenFHEError ''DCRTPolyInterface element transposition is currently implemented only in the Evaluation representation.'')
      else Dcrt_AutomorphismTransform (dp_cyclotomicOrder (dc_params x) - 1) x)"

text \<open>A tower without values gets a vector of the right shape first.\<close>

definition fresh_tower :: "dcrt \<Rightarrow> poly \<Rightarrow> poly res" where
  "fresh_tower x v = (case m_values v of
       Some w \<Rightarrow> Inr v
     | None \<Rightarrow> ebind (deref (m_params v)) (\<lambda>P.
         ebind (SetModulus (nvec_zero (unat (dp_ringDimension (dc_params x))) 0) (m_ciphertextModulus P)) (\<lambda>temp.
           Poly_SetValues temp (dc_format x) v)))"

definition Dcrt_assign_u64s :: "u64 list \<Rightarrow> dcrt \<Rightarrow> dcrt res" where
  "Dcrt_assign_u64s rhs x = update_towers (\<lambda>i v. ebind (fresh_tower x v)
     (store_values (unat (dp_ringDimension (dc_params x))) (\<lambda>j. Inr (if j < length rhs then rhs ! j else 0)))) x"

definition Dcrt_assign_strings :: "string list \<Rightarrow> dcrt \<Rightarrow> dcrt res" where
  "Dcrt_assign_strings rhs x = update_towers (\<lambda>i v. ebind (fresh_tower x v)
     (store_values (unat (dp_ringDimension (dc_params x))) (\<lambda>j. if j < length rhs then SetValue (rhs ! j) else Inr 0))) x"

definition Dcrt_assign_u64 :: "u64 \<Rightarrow> dcrt \<Rightarrow> dcrt res" where
  "Dcrt_assign_u64 val x = update_towers (\<lambda>i. Poly_assign_u64 val) x"

definition Dcrt_assign_i64s :: "int list \<Rightarrow> dcrt \<Rightarrow> dcrt res" where
  "Dcrt_assign_i64s val x = ebind (update_towers (\<lambda>i v. ebind (fresh_tower x v) (Poly_assign_i64s val)) x) (\<lambda>x.
     Inr (x\<lparr>dc_format := COEFFICIENT\<rparr>))"

definition Dcrt_assign_i32s :: "int list \<Rightarrow> dcrt \<Rightarrow> dcrt res" where
  "Dcrt_assign_i32s val x = ebind (update_towers (\<lambda>i v. ebind (fresh_tower x v) (Poly_assign_i32s val)) x) (\<lambda>x.
     Inr (x\<lparr>dc_format := COEFFICIENT\<rparr>))"

definition SetElementAtIndex :: "nat \<Rightarrow> poly \<Rightarrow> dcrt \<Rightarrow> dcrt res" where
  "SetElementAtIndex index element x = ebind (get_at (dc_vectors x) index) (\<lambda>t.
     ebind (set_at (dc_vectors x) index (Poly_assign t element)) (\<lambda>ts. Inr (x\<lparr>dc_vectors := ts\<rparr>)))"

definition CloneTowers :: "'s prng \<Rightarrow> nat \<Rightarrow> nat \<Rightarrow> dcrt \<Rightarrow> 's \<Rightarrow> (dcrt, 's) run" where
  "CloneTowers draw startTower endTower x s =
     rbind (rlift (GetParamPartition (dc_params x) startTower endTower) s) (\<lambda>Ps s.
     rbind (ILDCRTParams_params draw (dp_cyclotomicOrder (dc_params x)) Ps s) (\<lambda>D s.
     rlift (ebind (DCRTPolyImpl D (dc_format x) False) (\<lambda>res.
       efor startTower (endTower + 1) (\<lambda>i res. ebind (get_at (dc_vectors x) i) (\<lambda>t.
         SetElementAtIndex (i - startTower) t res)) res)) s))"

text \<open>The parameters of the object are not told of the new modulus; recomputing their product changes nothing.\<close>

definition SwitchModulusAtIndex :: "'s prng \<Rightarrow> nat \<Rightarrow> ubint \<Rightarrow> ubint \<Rightarrow> dcrt \<Rightarrow> 's \<Rightarrow> (dcrt, 's) run" where
  "SwitchModulusAtIndex draw index modulus rootOfUnity x s =
     (if index \<ge> length (dc_vectors x) then Some (Inl (OpenFHEError ''Index out of range''))
      else rbind (Poly_SwitchModulus draw (Big_ConvertToInt modulus) (Big_ConvertToInt rootOfUnity) 0 0 (dc_vectors x ! index) s)
        (\<lambda>t s. Some (Inr (x\<lparr>dc_params := RecalculateModulus (dc_params x), dc_vectors := (dc_vectors x)[index := t]\<rparr>, s))))"

subsection \<open>Dropping towers, rescaling, modulus reduction\<close>

definition DropLastElement :: "dcrt \<Rightarrow> dcrt res" where
  "DropLastElement x =
     (if length (dc_vectors x) = 0 then Inl (OpenFHEError ''Input has no elements to drop.'')
      else if length (dc_vectors x) = 1
      then Inl (OpenFHEError ''Removing last element of DCRTPoly renders it invalid.'')
      else ebind (PopLastParam (dc_params x)) (\<lambda>D.
        Inr (x\<lparr>dc_params := D, dc_vectors := take (length (dc_vectors x) - 1) (dc_vectors x)\<rparr>)))"

definition DropLastElements :: "nat \<Rightarrow> dcrt \<Rightarrow> dcrt res" where
  "DropLastElements i x =
     (if length (dc_vectors x) \<le> i then Inl (OpenFHEError ''Too few towers in input.'')
      else ebind (efor 0 i (\<lambda>_. PopLastParam) (dc_params x)) (\<lambda>D.
        Inr (x\<lparr>dc_params := D, dc_vectors := take (length (dc_vectors x) - i) (dc_vectors x)\<rparr>)))"

text \<open>A copy of a polynomial over the modulus of another one.\<close>

definition switched_to :: "'s prng \<Rightarrow> poly \<Rightarrow> poly \<Rightarrow> 's \<Rightarrow> (poly, 's) run" where
  "switched_to draw t tmp s = rbind (rlift (deref (m_params t)) s) (\<lambda>P s.
     Poly_SwitchModulus draw (m_ciphertextModulus P) (m_rootOfUnity P) 0 0 tmp s)"

definition last_tower :: "dcrt \<Rightarrow> poly res" where
  "last_tower x = (if dc_vectors x = [] then Inl OutOfRange else Inr (last (dc_vectors x)))"

text \<open>
  Rescaling by the last modulus. In coefficient format the code leaves the towers in evaluation format: the sum is
  switched although it has not been switched before.
\<close>

definition rescale_tower ::
    "'s prng \<Rightarrow> Format \<Rightarrow> u64 list \<Rightarrow> u64 list \<Rightarrow> poly \<Rightarrow> nat \<Rightarrow> poly \<Rightarrow> caches \<Rightarrow> 's \<Rightarrow> (poly \<times> caches, 's) run" where
  "rescale_tower draw fmt QlQlInvModqlDivqlModq qlInvModq lastPoly i t cs s =
     rbind (switched_to draw t lastPoly s) (\<lambda>tmp s.
     rbind (rlift (ebind (get_at QlQlInvModqlDivqlModq i) (Poly_TimesEq_s tmp)) s) (\<lambda>tmp s.
     rbind (if fmt = EVALUATION then SwitchFormat draw tmp cs s else Some (Inr ((tmp, cs), s))) (\<lambda>(tmp, cs) s.
     rbind (rlift (ebind (get_at qlInvModq i) (\<lambda>c. ebind (Poly_TimesEq_s t c) (\<lambda>t. Poly_PlusEq t tmp))) s) (\<lambda>t s.
       if fmt = COEFFICIENT then SwitchFormat draw t cs s else Some (Inr ((t, cs), s))))))"

definition DropLastElementAndScale ::
    "'s prng \<Rightarrow> u64 list \<Rightarrow> u64 list \<Rightarrow> dcrt \<Rightarrow> caches \<Rightarrow> 's \<Rightarrow> (dcrt \<times> caches, 's) run" where
  "DropLastElementAndScale draw QlQlInvModqlDivqlModq qlInvModq x cs s =
     rbind (rlift (last_tower x) s) (\<lambda>lastPoly s. rbind (SetFormat draw COEFFICIENT lastPoly cs s) (\<lambda>(lastPoly, cs) s.
     rbind (rlift (DropLastElement x) s) (\<lambda>x s.
     rbind (each_tower_run (rescale_tower draw (dc_format x) QlQlInvModqlDivqlModq qlInvModq lastPoly)
         (length (dc_vectors x)) (dc_vectors x) cs s) (\<lambda>(ts, cs) s. Some (Inr ((x\<lparr>dc_vectors := ts\<rparr>, cs), s))))))"

text \<open>The switch of the modulus of BGV; the prepared quotients among its arguments are not used.\<close>

definition reduce_tower ::
    "'s prng \<Rightarrow> Format \<Rightarrow> u64 \<Rightarrow> u64 list \<Rightarrow> poly \<Rightarrow> nat \<Rightarrow> poly \<Rightarrow> caches \<Rightarrow> 's \<Rightarrow> (poly \<times> caches, 's) run" where
  "reduce_tower draw fmt t qlInvModq delta i v cs s =
     rbind (switched_to draw v delta s) (\<lambda>tmp s.
     rbind (if fmt = EVALUATION then SwitchFormat draw tmp cs s else Some (Inr ((tmp, cs), s))) (\<lambda>(tmp, cs) s.
     rbind (rlift (ebind (Poly_TimesEq_s tmp t) (\<lambda>tmp. ebind (Poly_PlusEq v tmp) (\<lambda>v.
       ebind (get_at qlInvModq i) (Poly_TimesEq_s v)))) s) (\<lambda>v s. Some (Inr ((v, cs), s)))))"

definition ModReduce ::
    "'s prng \<Rightarrow> u64 \<Rightarrow> u64 \<Rightarrow> u64 list \<Rightarrow> dcrt \<Rightarrow> caches \<Rightarrow> 's \<Rightarrow> (dcrt \<times> caches, 's) run" where
  "ModReduce draw t negtInvModq qlInvModq x cs s =
     rbind (rlift (last_tower x) s) (\<lambda>delta s. rbind (SetFormat draw COEFFICIENT delta cs s) (\<lambda>(delta, cs) s.
     rbind (rlift (Poly_TimesEq_s delta negtInvModq) s) (\<lambda>delta s.
     rbind (rlift (DropLastElement x) s) (\<lambda>x s.
     rbind (each_tower_run (reduce_tower draw (dc_format x) t qlInvModq delta)
         (length (dc_vectors x)) (dc_vectors x) cs s) (\<lambda>(ts, cs) s. Some (Inr ((x\<lparr>dc_vectors := ts\<rparr>, cs), s)))))))"

definition ScaleAndRoundPOverQ ::
    "'s prng \<Rightarrow> dcrt_params \<Rightarrow> u64 list \<Rightarrow> dcrt \<Rightarrow> 's \<Rightarrow> (dcrt, 's) run" where
  "ScaleAndRoundPOverQ draw paramsQ pInvModq x s =
     rbind (rlift (last_tower x) s) (\<lambda>lastPoly s.
     rbind (rfold (\<lambda>i ts s. rbind (rlift (get_at ts i) s) (\<lambda>t s. rbind (switched_to draw t lastPoly s) (\<lambda>tmp s.
         rlift (ebind (Poly_MinusEq t tmp) (\<lambda>t. ebind (get_at pInvModq i) (\<lambda>c. ebind (Poly_TimesEq_s t c) (set_at ts i)))) s)))
       [0..<length (dc_vectors x) - 1] (dc_vectors x) s) (\<lambda>ts s.
       Some (Inr (x\<lparr>dc_params := paramsQ, dc_vectors := take (length (dc_vectors x) - 1) ts\<rparr>, s))))"

subsection \<open>Interpolation\<close>

definition tower_entry :: "poly \<Rightarrow> nat \<Rightarrow> u64 res" where
  "tower_entry t j = ebind (GetValues t) (\<lambda>v. NatVec.at v j)"

definition tower_modulus :: "poly \<Rightarrow> u64 res" where
  "tower_modulus t = ebind (deref (m_params t)) (\<lambda>P. Inr (m_ciphertextModulus P))"

text \<open>\<open>qt/qi * [(qt/qi)^(-1) mod qi]\<close>\<close>

definition rpartial :: "'a res option \<Rightarrow> 's \<Rightarrow> ('a, 's) run" where
  "rpartial r s = Option.bind r (\<lambda>r. rlift r s)"

definition crt_multiplier :: "ubint \<Rightarrow> poly \<Rightarrow> 's \<Rightarrow> (ubint, 's) run" where
  "crt_multiplier qt v s = rbind (rlift (tower_modulus v) s) (\<lambda>q s.
     rbind (rlift (Big_DividedBy qt (ubint_of_limb q)) s) (\<lambda>tmp2 s.
     rbind (rpartial (Big_ModInverse tmp2 (ubint_of_limb q)) s) (\<lambda>inv s. Some (Inr (Big_Mul inv tmp2, s)))))"

text \<open>The polynomial over the large modulus; its root of unity is set to one and not used.\<close>

definition large_poly :: "'s prng \<Rightarrow> u32 \<Rightarrow> ubint \<Rightarrow> ubint list \<Rightarrow> 's \<Rightarrow> (big_poly, 's) run" where
  "large_poly draw r qt V s = rbind (GetTotient draw (ucast (2 * r)) s) (\<lambda>n s.
     if ucast n \<noteq> (of_nat (length V) :: u32) then Some (Inl (OpenFHEError ''Parameter mismatch on SetValues for Polynomial''))
     else Some (Inr (\<lparr>bp_format = COEFFICIENT, bp_cyclotomicOrder = 2 * r, bp_ringDimension = ucast n, bp_modulus = qt,
       bp_rootOfUnity = ubint_of_limb 1, bp_values = V\<rparr>, s)))"

definition interpolated_entry :: "poly list \<Rightarrow> ubint list \<Rightarrow> ubint \<Rightarrow> nat \<Rightarrow> ubint res" where
  "interpolated_entry ts multiplier qt j =
     ebind (efor 0 (length ts) (\<lambda>i V. ebind (tower_entry (ts ! i) j) (\<lambda>e.
         Inr (Big_AddEq V (Big_Mul (ubint_of_limb e) (multiplier ! i))))) ubint_default) (\<lambda>V. Big_ModEq V qt)"

definition Dcrt_CRTInterpolate :: "'s prng \<Rightarrow> dcrt \<Rightarrow> 's \<Rightarrow> (big_poly, 's) run" where
  "Dcrt_CRTInterpolate draw x s =
     (if dc_format x \<noteq> COEFFICIENT then Some (Inl (OpenFHEError ''Only available in COEFFICIENT format.''))
      else let r = dp_ringDimension (dc_params x); qt = dp_ciphertextModulus (dc_params x) in
       rbind (rmap (crt_multiplier qt) (dc_vectors x) s) (\<lambda>multiplier s.
       rbind (rlift (emap (interpolated_entry (dc_vectors x) multiplier qt) [0..<unat r]) s) (\<lambda>V s.
       large_poly draw r qt V s)))"

definition Dcrt_CRTInterpolateIndex :: "'s prng \<Rightarrow> nat \<Rightarrow> dcrt \<Rightarrow> 's \<Rightarrow> (big_poly, 's) run" where
  "Dcrt_CRTInterpolateIndex draw j x s =
     (if dc_format x \<noteq> COEFFICIENT then Some (Inl (OpenFHEError ''Only available in COEFFICIENT format.''))
      else let r = dp_ringDimension (dc_params x); qt = dp_ciphertextModulus (dc_params x) in
       rbind (rfold (\<lambda>t V s. rbind (crt_multiplier qt t s) (\<lambda>m s.
           rlift (ebind (tower_entry t j) (\<lambda>e. ebind (get_at V j) (\<lambda>v. set_at V j (Big_AddEq v (Big_Mul m (ubint_of_limb e)))))) s))
         (dc_vectors x) (replicate (unat r) ubint_default) s) (\<lambda>V s.
       rbind (rlift (ebind (get_at V j) (\<lambda>v. ebind (Big_ComputeMu qt) (\<lambda>mu. ebind (Big_ModEq_mu v qt mu) (set_at V j)))) s) (\<lambda>V s.
       large_poly draw r qt V s)))"

definition GetWorkingModulus :: "dcrt \<Rightarrow> ubint" where
  "GetWorkingModulus x =
     fold (\<lambda>P m. Big_MulEq m (ubint_of_limb (m_ciphertextModulus P))) (dp_params (dc_params x)) (ubint_of_limb 1)"

definition GetExtendedCRTBasis :: "'s prng \<Rightarrow> dcrt \<Rightarrow> dcrt_params \<Rightarrow> 's \<Rightarrow> (dcrt_params, 's) run" where
  "GetExtendedCRTBasis draw x paramsP s =
     rbind (rlift (emap (get_at (dp_params (dc_params x))) [0..<length (dc_vectors x)]) s) (\<lambda>parq s.
       let Ps = parq @ dp_params paramsP
       in ILDCRTParams_roots draw (2 * dp_ringDimension (dc_params x)) (map m_ciphertextModulus Ps) (map m_rootOfUnity Ps) s)"

subsection \<open>Decomposition\<close>

text \<open>
  The powers of the base; the code shifts before it uses the power, so the first one is the base itself and not one.
\<close>

definition Dcrt_PowersOfBase :: "u32 \<Rightarrow> dcrt \<Rightarrow> dcrt list res" where
  "Dcrt_PowersOfBase baseBits x =
     (if baseBits = 0 then Inl DivideByZero
      else let nBits = m_MSB (dp_ciphertextModulus (dc_params x)); nWindows = nBits div baseBits;
               nWindows = (if nBits mod baseBits \<noteq> 0 then nWindows + 1 else nWindows)
       in ebind (efor 0 (unat nWindows) (\<lambda>i (twoPow, result).
            let twoPow = Big_LShiftEq twoPow (ucast baseBits)
            in ebind (new_towers (\<lambda>t v. ebind (get_at (dp_params (dc_params x)) t) (\<lambda>P.
                   ebind (Big_Mod twoPow (ubint_of_limb (m_ciphertextModulus P))) (\<lambda>c. Poly_Times_s v (Big_ConvertToInt c))))
                 (length (dc_vectors x)) x) (\<lambda>r. Inr (twoPow, result @ [r]))) (ubint_of_limb 1, [])) (\<lambda>(twoPow, result).
          Inr result))"

text \<open>
  The residues of one tower, taken into the other towers: with base zero in evaluation format, else digit by digit.
\<close>

definition crt_pieces :: "'s prng \<Rightarrow> dcrt \<Rightarrow> dcrt \<Rightarrow> caches \<Rightarrow> 's \<Rightarrow> (dcrt list \<times> caches, 's) run" where
  "crt_pieces draw coef eval cs s = rfold (\<lambda>i (result, cs) s.
     rbind (rfold (\<lambda>k (d, cs) s.
         if i = k then Some (Inr ((d, cs), s))
         else rbind (switched_to draw (dc_vectors coef ! k) (dc_vectors coef ! i) s) (\<lambda>tmp s.
              rbind (SetFormat draw EVALUATION tmp cs s) (\<lambda>(tmp, cs) s.
                Some (Inr ((d\<lparr>dc_vectors := (dc_vectors d)[k := tmp]\<rparr>, cs), s)))))
       [0..<length (dc_vectors coef)] (eval, cs) s) (\<lambda>(d, cs) s. Some (Inr ((result @ [d], cs), s))))
     [0..<length (dc_vectors coef)] ([], cs) s"

definition crt_digits :: "'s prng \<Rightarrow> u32 \<Rightarrow> dcrt \<Rightarrow> caches \<Rightarrow> 's \<Rightarrow> (dcrt list \<times> caches, 's) run" where
  "crt_digits draw baseBits coef cs s = rfold (\<lambda>i (result, cs) s.
     rbind (BaseDecompose draw baseBits False (dc_vectors coef ! i) cs s) (\<lambda>(decomposed, cs) s.
     rfold (\<lambda>p (result, cs) s.
         rbind (rfold (\<lambda>k d s.
             rbind (if i \<noteq> k then switched_to draw (dc_vectors coef ! k) p s else Some (Inr (p, s))) (\<lambda>tmp s.
               Some (Inr (d\<lparr>dc_vectors := (dc_vectors d)[k := tmp]\<rparr>, s))))
           [0..<length (dc_vectors coef)] coef s) (\<lambda>d s.
         rbind (Dcrt_SwitchFormat draw d cs s) (\<lambda>(d, cs) s. Some (Inr ((result @ [d], cs), s)))))
       decomposed (result, cs) s))
     [0..<length (dc_vectors coef)] ([], cs) s"

definition CRTDecompose :: "'s prng \<Rightarrow> u32 \<Rightarrow> dcrt \<Rightarrow> caches \<Rightarrow> 's \<Rightarrow> (dcrt list \<times> caches, 's) run" where
  "CRTDecompose draw baseBits x cs s =
     rbind (Dcrt_SwitchFormat draw x cs s) (\<lambda>(cp, cs) s.
       let coef = (if dc_format x = COEFFICIENT then x else cp); eval = (if dc_format x = COEFFICIENT then cp else x)
       in if baseBits = 0 then crt_pieces draw coef eval cs s else crt_digits draw baseBits coef cs s)"

end
