(* ===== verification/DcrtSem.thy ===== *)
theory DcrtSem
  imports Dcrt
begin

text \<open>
  The integer polynomial that a polynomial over several moduli stands for, and its arithmetic tower by tower: every
  operation returns, keeps the parameters and the format, and computes in the ring of integer polynomials.
\<close>

section \<open>Facts\<close>

subsection \<open>Loops\<close>

lemma rfold_upt_Inr:
  assumes "\<And>i a. lo \<le> i \<Longrightarrow> i < n \<Longrightarrow> I i a \<Longrightarrow> \<exists>a'. f i a s = Some (Inr (a', s)) \<and> I (Suc i) a'" "lo \<le> n" "I lo a"
  shows "\<exists>a'. rfold f [lo..<n] a s = Some (Inr (a', s)) \<and> I n a'"
  using assms
proof (induction "n - lo" arbitrary: lo a)
  case 0
  then show ?case by simp
next
  case (Suc k)
  then have lo: "lo < n" by simp
  obtain a' where a': "f lo a s = Some (Inr (a', s))" "I (Suc lo) a'" using Suc.prems(1) [OF _ lo Suc.prems(3)] by auto
  have "\<exists>a''. rfold f [Suc lo..<n] a' s = Some (Inr (a'', s)) \<and> I n a''"
    by (rule Suc.hyps(1)) (use Suc.hyps(2) Suc.prems(1) lo a'(2) in auto)
  then show ?case using a'(1) lo by (simp add: upt_conv_Cons)
qed

text \<open>A loop over the towers that succeeds at each of them.\<close>

lemma each_tower_Inr:
  assumes "\<And>i. i < n \<Longrightarrow> \<exists>t. f i (ts ! i) = Inr t" "n \<le> length ts"
  shows "\<exists>us. each_tower f n ts = Inr us \<and> length us = length ts \<and> (\<forall>i < n. f i (ts ! i) = Inr (us ! i)) \<and> (\<forall>i \<ge> n. us ! i = ts ! i)"
proof -
  have "\<exists>us. each_tower f n ts = Inr us \<and> (length us = length ts \<and> (\<forall>i < n. f i (ts ! i) = Inr (us ! i)) \<and> (\<forall>i \<ge> n. us ! i = ts ! i))"
    unfolding each_tower_def
  proof (rule efor_Inr [where P = "\<lambda>n us. length us = length ts \<and> (\<forall>i < n. f i (ts ! i) = Inr (us ! i)) \<and> (\<forall>i \<ge> n. us ! i = ts ! i)"])
    fix i us
    assume i: "i < n" and us: "length us = length ts \<and> (\<forall>j < i. f j (ts ! j) = Inr (us ! j)) \<and> (\<forall>j \<ge> i. us ! j = ts ! j)"
    obtain t where t: "f i (ts ! i) = Inr t" using assms(1) i by blast
    have "i < length us" "us ! i = ts ! i" using us i assms(2) by auto
    then show "\<exists>vs. ebind (get_at us i) (\<lambda>t. ebind (f i t) (set_at us i)) = Inr vs \<and> length vs = length ts \<and>
        (\<forall>j < Suc i. f j (ts ! j) = Inr (vs ! j)) \<and> (\<forall>j \<ge> Suc i. vs ! j = ts ! j)"
      using us t by (simp add: get_at_def set_at_def nth_list_update less_Suc_eq)
  qed (use assms(2) in auto)
  then show ?thesis by blast
qed

lemma update_towers_Inr:
  assumes "\<And>i. i < length (dc_vectors x) \<Longrightarrow> \<exists>t. f i (dc_vectors x ! i) = Inr t"
  shows "\<exists>us. update_towers f x = Inr (x\<lparr>dc_vectors := us\<rparr>) \<and> length us = length (dc_vectors x) \<and>
    (\<forall>i < length us. f i (dc_vectors x ! i) = Inr (us ! i))"
  using each_tower_Inr [of "length (dc_vectors x)" f "dc_vectors x"] assms by (auto simp: update_towers_def)

lemma new_object: "\<exists>vs. DCRTPolyImpl D fmt False = Inr \<lparr>dc_params = D, dc_format = fmt, dc_vectors = vs\<rparr> \<and> length vs = length (dp_params D)"
proof -
  have "emap (\<lambda>P. PolyImpl (Some P) fmt False) (dp_params D) =
      Inr (map (\<lambda>P. \<lparr>m_format = fmt, m_params = Some P, m_values = None\<rparr>) (dp_params D))"
    by (rule emap_all_Inr) (simp add: PolyImpl_def)
  then show ?thesis by (simp add: DCRTPolyImpl_def)
qed

lemma new_towers_Inr:
  assumes "\<And>i. i < n \<Longrightarrow> \<exists>t. f i (dc_vectors x ! i) = Inr t" "n \<le> length (dc_vectors x)" "n \<le> length (dp_params (dc_params x))"
  shows "\<exists>us. new_towers f n x = Inr (x\<lparr>dc_vectors := us\<rparr>) \<and> length us = length (dp_params (dc_params x)) \<and>
    (\<forall>i < n. f i (dc_vectors x ! i) = Inr (us ! i))"
proof -
  obtain vs where vs: "DCRTPolyImpl (dc_params x) (dc_format x) False = Inr \<lparr>dc_params = dc_params x, dc_format = dc_format x, dc_vectors = vs\<rparr>"
    "length vs = length (dp_params (dc_params x))" using new_object by blast
  have "\<exists>us. efor 0 n (\<lambda>i ts. ebind (get_at (dc_vectors x) i) (\<lambda>t. ebind (f i t) (set_at ts i))) vs = Inr us \<and>
      length us = length vs \<and> (\<forall>i < n. f i (dc_vectors x ! i) = Inr (us ! i))"
  proof (rule efor_Inr [where P = "\<lambda>n us. length us = length vs \<and> (\<forall>i < n. f i (dc_vectors x ! i) = Inr (us ! i))"])
    fix i us assume i: "i < n" and us: "length us = length vs \<and> (\<forall>j < i. f j (dc_vectors x ! j) = Inr (us ! j))"
    obtain t where "f i (dc_vectors x ! i) = Inr t" using assms(1) i by blast
    then show "\<exists>ws. ebind (get_at (dc_vectors x) i) (\<lambda>t. ebind (f i t) (set_at us i)) = Inr ws \<and> length ws = length vs \<and>
        (\<forall>j < Suc i. f j (dc_vectors x ! j) = Inr (ws ! j))"
      using us i assms(2,3) vs(2) by (simp add: get_at_def set_at_def nth_list_update less_Suc_eq)
  qed auto
  then show ?thesis using vs by (cases x) (auto simp: new_towers_def)
qed

lemma each_tower_run_Inr:
  assumes f: "\<And>i cs. i < n \<Longrightarrow> C cs \<Longrightarrow> \<exists>t cs'. f i (ts ! i) cs s = Some (Inr ((t, cs'), s)) \<and> C cs' \<and> R i t"
    and n: "n \<le> length ts" and cs: "C cs"
  shows "\<exists>us cs'. each_tower_run f n ts cs s = Some (Inr ((us, cs'), s)) \<and> C cs' \<and> length us = length ts \<and>
    (\<forall>i < n. R i (us ! i)) \<and> (\<forall>i \<ge> n. us ! i = ts ! i)"
proof -
  let ?I = "\<lambda>n (us, cs). C cs \<and> length us = length ts \<and> (\<forall>i < n. R i (us ! i)) \<and> (\<forall>i \<ge> n. us ! i = ts ! i)"
  have "\<exists>a. each_tower_run f n ts cs s = Some (Inr (a, s)) \<and> ?I n a"
    unfolding each_tower_run_def
  proof (rule rfold_upt_Inr [where I = ?I])
    fix i a assume i: "i < n" and a: "?I i a"
    obtain us cs1 where ua: "a = (us, cs1)" by (cases a)
    have u: "C cs1" "length us = length ts" "\<forall>j < i. R j (us ! j)" "\<forall>j \<ge> i. us ! j = ts ! j" using a by (auto simp: ua)
    obtain t cs2 where t: "f i (ts ! i) cs1 s = Some (Inr ((t, cs2), s))" "C cs2" "R i t" using f [OF i u(1)] by blast
    have "i < length us" "us ! i = ts ! i" using i n u by auto
    then show "\<exists>a'. (case a of (ts, cs) \<Rightarrow> \<lambda>s. rbind (rlift (get_at ts i) s) (\<lambda>t s. rbind (f i t cs s) (\<lambda>(t, cs) s.
        rbind (rlift (set_at ts i t) s) (\<lambda>ts s. Some (Inr ((ts, cs), s)))))) s = Some (Inr (a', s)) \<and> ?I (Suc i) a'"
      using t u by (simp add: ua get_at_def set_at_def nth_list_update less_Suc_eq)
  qed (use cs in auto)
  then show ?thesis by auto
qed

subsection \<open>The cached tables of other moduli\<close>

definition same_tables :: "u64 \<Rightarrow> ftt \<Rightarrow> ftt \<Rightarrow> bool" where
  "same_tables m st st' \<longleftrightarrow>
     m_cycloOrderInverseTableByModulus st' m = m_cycloOrderInverseTableByModulus st m \<and>
     m_cycloOrderInversePreconTableByModulus st' m = m_cycloOrderInversePreconTableByModulus st m \<and>
     m_rootOfUnityReverseTableByModulus st' m = m_rootOfUnityReverseTableByModulus st m \<and>
     m_rootOfUnityInverseReverseTableByModulus st' m = m_rootOfUnityInverseReverseTableByModulus st m \<and>
     m_rootOfUnityPreconReverseTableByModulus st' m = m_rootOfUnityPreconReverseTableByModulus st m \<and>
     m_rootOfUnityInversePreconReverseTableByModulus st' m = m_rootOfUnityInversePreconReverseTableByModulus st m"

lemma same_tables_refl: "same_tables m st st"
  by (simp add: same_tables_def)

lemma PreCompute_same_tables: "PreCompute r c q st = Inr st' \<Longrightarrow> m \<noteq> q \<Longrightarrow> same_tables m st st'"
  unfolding PreCompute_def Let_def
  by (auto elim!: ebind_InrE simp: same_tables_def split: if_splits)

lemma cache_ok_same: "same_tables m st st' \<Longrightarrow> cache_ok m L r st \<Longrightarrow> cache_ok m L r st'"
  by (simp add: same_tables_def cache_ok_def tables_ok_def tab_get_def)

lemma FTT_same_tables:
  "FTT_ForwardTransformToBitReverseInPlace r c v st = Inr (st', w) \<Longrightarrow> m \<noteq> m_modulus v \<Longrightarrow> same_tables m st st'"
  "FTT_InverseTransformFromBitReverseInPlace r c v st = Inr (st', w) \<Longrightarrow> m \<noteq> m_modulus v \<Longrightarrow> same_tables m st st'"
  unfolding FTT_ForwardTransformToBitReverseInPlace_def FTT_InverseTransformFromBitReverseInPlace_def Let_def
  by (auto elim!: ebind_InrE intro: same_tables_refl PreCompute_same_tables split: if_splits)

lemma SwitchFormat_same_tables:
  assumes r: "ring_ok P L" and p: "represents P L a p" and m: "m \<noteq> m_ciphertextModulus P"
    and e: "SwitchFormat draw p cs s = Some (Inr ((q, cs'), s'))"
  shows "same_tables m (fst cs) (fst cs')"
proof -
  obtain x where x: "p = \<lparr>m_format = m_format p, m_params = Some P, m_values = Some (vec (m_ciphertextModulus P) x)\<rparr>"
    by (rule representsE [OF p])
  have px: "m_params p = Some P" "m_values p = Some (vec (m_ciphertextModulus P) x)" by (subst x, simp)+
  show ?thesis
    using e ring_okD(8) [OF r] m unfolding SwitchFormat_def px deref_def Let_def
    by (auto simp: rlift_def rbind_def split: if_splits sum.splits prod.splits Option.bind_splits intro: FTT_same_tables)
qed

subsection \<open>Chains of moduli\<close>

text \<open>
  The towers: parameters of the ring of the same dimension with pairwise coprime moduli and without a second modulus
  for arbitrary orders; the caches are valid for all of them.
\<close>

definition tower_q :: "elem_params list \<Rightarrow> nat \<Rightarrow> nat" where
  "tower_q Ps i = unat (m_ciphertextModulus (Ps ! i))"

definition rns_ok :: "elem_params list \<Rightarrow> nat \<Rightarrow> bool" where
  "rns_ok Ps L \<longleftrightarrow> Ps \<noteq> [] \<and> (\<forall>P \<in> set Ps. ring_ok P L \<and> m_bigCiphertextModulus P = 0 \<and> m_bigRootOfUnity P = 0) \<and>
     (\<forall>i < length Ps. \<forall>j < length Ps. i \<noteq> j \<longrightarrow> coprime (tower_q Ps i) (tower_q Ps j))"

definition towers_cached :: "elem_params list \<Rightarrow> nat \<Rightarrow> caches \<Rightarrow> bool" where
  "towers_cached Ps L cs \<longleftrightarrow> (\<forall>P \<in> set Ps. caches_ok P L cs)"

lemma rns_okD:
  assumes "rns_ok Ps L" "i < length Ps"
  shows "ring_ok (Ps ! i) L" "4 \<le> tower_q Ps i" "tower_q Ps i < 2 ^ 60"
    "j < length Ps \<Longrightarrow> i \<noteq> j \<Longrightarrow> coprime (tower_q Ps i) (tower_q Ps j)"
    "j < length Ps \<Longrightarrow> m_ciphertextModulus (Ps ! i) = m_ciphertextModulus (Ps ! j) \<Longrightarrow> i = j"
proof -
  show r: "ring_ok (Ps ! i) L" using assms by (auto simp: rns_ok_def)
  show b: "4 \<le> tower_q Ps i" "tower_q Ps i < 2 ^ 60" using ring_okD(1) [OF r] by (auto simp: barrett_modulus_def tower_q_def)
  show c: "j < length Ps \<Longrightarrow> i \<noteq> j \<Longrightarrow> coprime (tower_q Ps i) (tower_q Ps j)" for j
    using assms unfolding rns_ok_def by blast
  show "i = j" if j: "j < length Ps" "m_ciphertextModulus (Ps ! i) = m_ciphertextModulus (Ps ! j)"
  proof (rule ccontr)
    assume "i \<noteq> j"
    from c [OF j(1) this] have "coprime (tower_q Ps i) (tower_q Ps i)" using j(2) by (simp add: tower_q_def)
    then show False using b(1) by simp
  qed
qed

lemma tower_SwitchFormat:
  assumes ps: "rns_ok Ps L" "i < length Ps" and p: "represents (Ps ! i) L a p" and c: "towers_cached Ps L cs"
  shows "\<exists>q cs'. SwitchFormat draw p cs s = Some (Inr ((q, cs'), s)) \<and> towers_cached Ps L cs' \<and>
    m_format q \<noteq> m_format p \<and> represents (Ps ! i) L a q"
proof -
  note r = rns_okD(1) [OF ps]
  have ci: "caches_ok (Ps ! i) L cs" using c ps(2) by (auto simp: towers_cached_def)
  obtain q cs' where q: "SwitchFormat draw p cs s = Some (Inr ((q, cs'), s))" "caches_ok (Ps ! i) L cs'"
    "m_format q \<noteq> m_format p" "represents (Ps ! i) L a q" by (rule SwitchFormat_represents [OF r p ci])
  have "caches_ok P L cs'" if P: "P \<in> set Ps" for P
  proof (cases "m_ciphertextModulus P = m_ciphertextModulus (Ps ! i)")
    case True
    obtain j where "j < length Ps" "P = Ps ! j" using P by (auto simp: in_set_conv_nth)
    with True rns_okD(5) [OF ps, of j] have "P = Ps ! i" by auto
    then show ?thesis using q(2) by simp
  next
    case False
    show ?thesis by (rule cache_ok_same [OF SwitchFormat_same_tables [OF r p False q(1)]]) (use c P in \<open>auto simp: towers_cached_def\<close>)
  qed
  then show ?thesis using q by (auto simp: towers_cached_def)
qed

lemma tower_SetFormat:
  assumes "rns_ok Ps L" "i < length Ps" "represents (Ps ! i) L a p" "towers_cached Ps L cs"
  shows "\<exists>q cs'. SetFormat draw fmt p cs s = Some (Inr ((q, cs'), s)) \<and> towers_cached Ps L cs' \<and>
    m_format q = fmt \<and> represents (Ps ! i) L a q"
proof (cases "m_format p = fmt")
  case True
  then show ?thesis using assms(3,4) by (auto simp: SetFormat_def)
next
  case False
  obtain q cs' where "SwitchFormat draw p cs s = Some (Inr ((q, cs'), s))" "towers_cached Ps L cs'" "m_format q \<noteq> m_format p"
    "represents (Ps ! i) L a q" using tower_SwitchFormat [OF assms, of draw s] by (elim exE conjE) (rule that)
  moreover have "m_format q = fmt" using \<open>m_format q \<noteq> m_format p\<close> False by (cases "m_format q"; cases "m_format p"; cases fmt) auto
  ultimately show ?thesis using False by (simp add: SetFormat_def)
qed

subsection \<open>The integer polynomial that an object represents\<close>

text \<open>
  An object stands for a sequence of integers, known modulo the product of the moduli: every tower holds its
  residues, all in the format of the object.
\<close>

definition dcrt_params_ok :: "dcrt_params \<Rightarrow> nat \<Rightarrow> bool" where
  "dcrt_params_ok D L \<longleftrightarrow> rns_ok (dp_params D) L \<and> unat (dp_ringDimension D) = 2 ^ L \<and>
     unat (dp_cyclotomicOrder D) = 2 ^ Suc L \<and>
     repr (dp_ciphertextModulus D) (prod_list (map (\<lambda>P. unat (m_ciphertextModulus P)) (dp_params D)))"

definition drep :: "dcrt_params \<Rightarrow> nat \<Rightarrow> (nat \<Rightarrow> int) \<Rightarrow> dcrt \<Rightarrow> bool" where
  "drep D L a x \<longleftrightarrow> dc_params x = D \<and> length (dc_vectors x) = length (dp_params D) \<and>
     (\<forall>i < length (dp_params D). represents (dp_params D ! i) L a (dc_vectors x ! i) \<and> m_format (dc_vectors x ! i) = dc_format x)"

lemma drepD:
  assumes "drep D L a x"
  shows "dc_params x = D" "length (dc_vectors x) = length (dp_params D)"
    "i < length (dp_params D) \<Longrightarrow> represents (dp_params D ! i) L a (dc_vectors x ! i)"
    "i < length (dp_params D) \<Longrightarrow> m_format (dc_vectors x ! i) = dc_format x"
  using assms by (auto simp: drep_def)

lemma dcrt_params_okD:
  assumes "dcrt_params_ok D L"
  shows "rns_ok (dp_params D) L" "i < length (dp_params D) \<Longrightarrow> ring_ok (dp_params D ! i) L" "0 < length (dp_params D)"
  using assms rns_okD(1) unfolding dcrt_params_ok_def by (auto simp: rns_ok_def)

text \<open>An operation that works tower by tower.\<close>

lemma new_towers_drep:
  assumes x: "drep D L a x" and n: "n = length (dc_vectors x)"
    and f: "\<And>i. i < length (dp_params D) \<Longrightarrow> \<exists>t. f i (dc_vectors x ! i) = Inr t \<and> represents (dp_params D ! i) L b t \<and>
      m_format t = dc_format x"
  shows "\<exists>y. new_towers f n x = Inr y \<and> dc_format y = dc_format x \<and> drep D L b y"
proof -
  note xd = drepD [OF x]
  obtain us where us: "new_towers f n x = Inr (x\<lparr>dc_vectors := us\<rparr>)" "length us = length (dp_params D)"
    "\<forall>i < n. f i (dc_vectors x ! i) = Inr (us ! i)"
    using new_towers_Inr [of n f x] f xd n by fastforce
  have "represents (dp_params D ! i) L b (us ! i) \<and> m_format (us ! i) = dc_format x" if "i < length (dp_params D)" for i
    using f [OF that] us(3) xd n that by auto
  then show ?thesis using us(1,2) xd(1) by (auto simp: drep_def)
qed

lemma update_towers_drep:
  assumes x: "drep D L a x"
    and f: "\<And>i. i < length (dp_params D) \<Longrightarrow> \<exists>t. f i (dc_vectors x ! i) = Inr t \<and> represents (dp_params D ! i) L b t \<and>
      m_format t = dc_format x"
  shows "\<exists>y. update_towers f x = Inr y \<and> dc_format y = dc_format x \<and> drep D L b y"
proof -
  note xd = drepD [OF x]
  obtain us where us: "update_towers f x = Inr (x\<lparr>dc_vectors := us\<rparr>)" "length us = length (dc_vectors x)"
    "\<forall>i < length us. f i (dc_vectors x ! i) = Inr (us ! i)"
    using update_towers_Inr [of x f] f xd by fastforce
  have "represents (dp_params D ! i) L b (us ! i) \<and> m_format (us ! i) = dc_format x" if "i < length (dp_params D)" for i
    using f [OF that] us(2,3) xd that by auto
  then show ?thesis using us(1,2) xd(1,2) by (auto simp: drep_def)
qed

subsection \<open>Sums, differences, products\<close>

lemma first_modulus_drep:
  assumes "dcrt_params_ok D L" "drep D L a x"
  shows "first_modulus x = Inr (m_ciphertextModulus (dp_params D ! 0))"
proof -
  have "represents (dp_params D ! 0) L a (dc_vectors x ! 0)" "0 < length (dc_vectors x)"
    using drepD [OF assms(2)] dcrt_params_okD(3) [OF assms(1)] by auto
  then show ?thesis by (simp add: first_modulus_def get_at_def represents_def deref_def)
qed

lemma Dcrt_Plus_drep:
  assumes d: "dcrt_params_ok D L" and x: "drep D L a x" and y: "drep D L b y" and f: "dc_format x = dc_format y"
  shows "\<exists>z. Dcrt_Plus x y = Inr z \<and> dc_format z = dc_format x \<and> drep D L (\<lambda>i. a i + b i) z"
    "\<exists>z. Dcrt_PlusEq x y = Inr z \<and> dc_format z = dc_format x \<and> drep D L (\<lambda>i. a i + b i) z"
proof -
  note xd = drepD [OF x] and yd = drepD [OF y]
  have t: "\<exists>t. Poly_Plus (dc_vectors x ! i) (dc_vectors y ! i) = Inr t \<and> Poly_PlusEq (dc_vectors x ! i) (dc_vectors y ! i) = Inr t \<and>
      Poly_PlusNoCheck (dc_vectors x ! i) (dc_vectors y ! i) = Inr t \<and> m_format t = m_format (dc_vectors x ! i) \<and>
      represents (dp_params D ! i) L (\<lambda>i. a i + b i) t"
    if "i < length (dp_params D)" for i
    by (rule Poly_Plus_represents) (use that dcrt_params_okD(2) [OF d] xd yd f in auto)
  have "\<exists>z. new_towers (\<lambda>i t. ebind (get_at (dc_vectors y) i) (Poly_PlusNoCheck t)) (length (dc_vectors x)) x = Inr z \<and>
      dc_format z = dc_format x \<and> drep D L (\<lambda>i. a i + b i) z"
    by (rule new_towers_drep [OF x refl]) (use t xd yd in \<open>fastforce simp: get_at_def\<close>)
  then show "\<exists>z. Dcrt_Plus x y = Inr z \<and> dc_format z = dc_format x \<and> drep D L (\<lambda>i. a i + b i) z"
    using xd yd f first_modulus_drep [OF d x] first_modulus_drep [OF d y] by (simp add: Dcrt_Plus_def)
  show "\<exists>z. Dcrt_PlusEq x y = Inr z \<and> dc_format z = dc_format x \<and> drep D L (\<lambda>i. a i + b i) z"
    unfolding Dcrt_PlusEq_def by (rule update_towers_drep [OF x]) (use t xd yd in \<open>fastforce simp: get_at_def\<close>)
qed

lemma Dcrt_Minus_drep:
  assumes d: "dcrt_params_ok D L" and x: "drep D L a x" and y: "drep D L b y" and f: "dc_format x = dc_format y"
  shows "\<exists>z. Dcrt_Minus x y = Inr z \<and> dc_format z = dc_format x \<and> drep D L (\<lambda>i. a i - b i) z"
    "\<exists>z. Dcrt_MinusEq x y = Inr z \<and> dc_format z = dc_format x \<and> drep D L (\<lambda>i. a i - b i) z"
proof -
  note xd = drepD [OF x] and yd = drepD [OF y]
  have t: "\<exists>t. Poly_Minus (dc_vectors x ! i) (dc_vectors y ! i) = Inr t \<and> Poly_MinusEq (dc_vectors x ! i) (dc_vectors y ! i) = Inr t \<and>
      m_format t = m_format (dc_vectors x ! i) \<and> represents (dp_params D ! i) L (\<lambda>i. a i - b i) t"
    if "i < length (dp_params D)" for i
    by (rule Poly_Minus_represents) (use that dcrt_params_okD(2) [OF d] xd yd f in auto)
  have "\<exists>z. new_towers (\<lambda>i t. ebind (get_at (dc_vectors y) i) (Poly_Minus t)) (length (dc_vectors x)) x = Inr z \<and>
      dc_format z = dc_format x \<and> drep D L (\<lambda>i. a i - b i) z"
    by (rule new_towers_drep [OF x refl]) (use t xd yd in \<open>fastforce simp: get_at_def\<close>)
  then show "\<exists>z. Dcrt_Minus x y = Inr z \<and> dc_format z = dc_format x \<and> drep D L (\<lambda>i. a i - b i) z"
    using xd yd by (simp add: Dcrt_Minus_def)
  show "\<exists>z. Dcrt_MinusEq x y = Inr z \<and> dc_format z = dc_format x \<and> drep D L (\<lambda>i. a i - b i) z"
    unfolding Dcrt_MinusEq_def by (rule update_towers_drep [OF x]) (use t xd yd in \<open>fastforce simp: get_at_def\<close>)
qed

lemma Dcrt_Times_drep:
  assumes d: "dcrt_params_ok D L" and x: "drep D L a x" and y: "drep D L b y"
    and f: "dc_format x = EVALUATION" "dc_format y = EVALUATION"
  shows "\<exists>z. Dcrt_Times x y = Inr z \<and> dc_format z = EVALUATION \<and> drep D L (negacyclic (2 ^ L) a b) z"
    "\<exists>z. Dcrt_TimesEq x y = Inr z \<and> dc_format z = EVALUATION \<and> drep D L (negacyclic (2 ^ L) a b) z"
proof -
  note xd = drepD [OF x] and yd = drepD [OF y]
  have t: "\<exists>t. Poly_Times (dc_vectors x ! i) (dc_vectors y ! i) = Inr t \<and> Poly_TimesEq (dc_vectors x ! i) (dc_vectors y ! i) = Inr t \<and>
      Poly_TimesNoCheck (dc_vectors x ! i) (dc_vectors y ! i) = Inr t \<and> m_format t = EVALUATION \<and>
      represents (dp_params D ! i) L (negacyclic (2 ^ L) a b) t"
    if "i < length (dp_params D)" for i
    by (rule Poly_Times_represents) (use that dcrt_params_okD(2) [OF d] xd yd f in auto)
  have "\<exists>z. new_towers (\<lambda>i t. ebind (get_at (dc_vectors y) i) (Poly_TimesNoCheck t)) (length (dc_vectors x)) x = Inr z \<and>
      dc_format z = dc_format x \<and> drep D L (negacyclic (2 ^ L) a b) z"
    by (rule new_towers_drep [OF x refl]) (use t xd yd f in \<open>fastforce simp: get_at_def\<close>)
  then show "\<exists>z. Dcrt_Times x y = Inr z \<and> dc_format z = EVALUATION \<and> drep D L (negacyclic (2 ^ L) a b) z"
    using xd yd f first_modulus_drep [OF d x] first_modulus_drep [OF d y] by (simp add: Dcrt_Times_def)
  have "\<exists>z. update_towers (\<lambda>i t. ebind (get_at (dc_vectors y) i) (Poly_TimesEq t)) x = Inr z \<and>
      dc_format z = dc_format x \<and> drep D L (negacyclic (2 ^ L) a b) z"
    by (rule update_towers_drep [OF x]) (use t xd yd f in \<open>fastforce simp: get_at_def\<close>)
  then show "\<exists>z. Dcrt_TimesEq x y = Inr z \<and> dc_format z = EVALUATION \<and> drep D L (negacyclic (2 ^ L) a b) z"
    using f by (simp add: Dcrt_TimesEq_def)
qed

subsection \<open>Zero, negation, scalars\<close>

lemma new_object_zero:
  assumes "dcrt_params_ok D L"
  shows "\<exists>z. DCRTPolyImpl D fmt True = Inr z \<and> dc_format z = fmt \<and> drep D L (\<lambda>i. 0) z"
proof -
  have z: "\<exists>z. PolyImpl (Some P) fmt True = Inr z \<and> m_format z = fmt \<and> represents P L (\<lambda>i. 0) z" if "P \<in> set (dp_params D)" for P
    using that dcrt_params_okD(1) [OF assms] by (intro zero_represents) (simp add: rns_ok_def)
  then obtain g where g: "\<And>P. P \<in> set (dp_params D) \<Longrightarrow> PolyImpl (Some P) fmt True = Inr (g P) \<and> m_format (g P) = fmt \<and>
      represents P L (\<lambda>i. 0) (g P)" by metis
  have "emap (\<lambda>P. PolyImpl (Some P) fmt True) (dp_params D) = Inr (map g (dp_params D))" by (rule emap_all_Inr) (use g in blast)
  then show ?thesis using g by (auto simp: DCRTPolyImpl_def drep_def)
qed

lemma Dcrt_Negate_drep:
  assumes d: "dcrt_params_ok D L" and x: "drep D L a x"
  shows "\<exists>z. Dcrt_Negate x = Inr z \<and> dc_format z = dc_format x \<and> drep D L (\<lambda>i. - a i) z"
    "\<exists>z. Dcrt_uminus x = Inr z \<and> dc_format z = dc_format x \<and> drep D L (\<lambda>i. - a i) z"
proof -
  note xd = drepD [OF x]
  have t: "\<exists>t. Poly_Negate (dc_vectors x ! i) = Inr t \<and> Poly_uminus (dc_vectors x ! i) = Inr t \<and> m_format t = m_format (dc_vectors x ! i) \<and>
      represents (dp_params D ! i) L (\<lambda>i. - a i) t" if "i < length (dp_params D)" for i
    by (rule Poly_Negate_represents) (use that dcrt_params_okD(2) [OF d] xd in auto)
  show "\<exists>z. Dcrt_Negate x = Inr z \<and> dc_format z = dc_format x \<and> drep D L (\<lambda>i. - a i) z"
    unfolding Dcrt_Negate_def by (rule new_towers_drep [OF x refl]) (use t xd in fastforce)
  obtain z where z: "DCRTPolyImpl D (dc_format x) True = Inr z" "dc_format z = dc_format x" "drep D L (\<lambda>i. 0) z"
    using new_object_zero [OF d] by blast
  show "\<exists>z. Dcrt_uminus x = Inr z \<and> dc_format z = dc_format x \<and> drep D L (\<lambda>i. - a i) z"
    using Dcrt_Minus_drep(2) [OF d z(3) x z(2)] z(1,2) xd(1) by (simp add: Dcrt_uminus_def)
qed

lemma represents_scaled:
  assumes "represents P L (\<lambda>i. a i * c) p" "c mod iu (m_ciphertextModulus P) = k mod iu (m_ciphertextModulus P)"
  shows "represents P L (\<lambda>i. a i * k) p"
  by (rule represents_cong [OF assms(1)]) (rule mod_mult_cong [OF refl assms(2)])

lemma tower_times:
  assumes d: "dcrt_params_ok D L" and x: "drep D L a x" and i: "i < length (dp_params D)"
    and c: "iu c mod iu (m_ciphertextModulus (dp_params D ! i)) = k mod iu (m_ciphertextModulus (dp_params D ! i))"
  shows "\<exists>t. Poly_Times_s (dc_vectors x ! i) c = Inr t \<and> Poly_TimesEq_s (dc_vectors x ! i) c = Inr t \<and> m_format t = dc_format x \<and>
    represents (dp_params D ! i) L (\<lambda>i. a i * k) t"
  using Poly_Times_s_represents [OF dcrt_params_okD(2) [OF d i] drepD(3) [OF x i], of c] represents_scaled [OF _ c]
    drepD(4) [OF x i] by fastforce

text \<open>A factor given by its residues, one for each tower.\<close>

lemma Dcrt_Times_each_drep:
  assumes d: "dcrt_params_ok D L" and x: "drep D L a x" and l: "length cs = length (dp_params D)"
    and c: "\<And>i. i < length cs \<Longrightarrow> iu (cs ! i) mod iu (m_ciphertextModulus (dp_params D ! i)) = k mod iu (m_ciphertextModulus (dp_params D ! i))"
  shows "\<exists>z. Dcrt_Times_each x cs = Inr z \<and> Dcrt_TimesNoCheck x cs = Inr z \<and> dc_format z = dc_format x \<and> drep D L (\<lambda>i. a i * k) z"
proof -
  have "\<exists>z. new_towers (\<lambda>i t. ebind (get_at cs i) (Poly_Times_s t)) (length (dc_vectors x)) x = Inr z \<and>
      dc_format z = dc_format x \<and> drep D L (\<lambda>i. a i * k) z"
    by (rule new_towers_drep [OF x refl]) (use tower_times [OF d x] c l in \<open>fastforce simp: get_at_def\<close>)
  then show ?thesis using l drepD(2) [OF x] by (auto simp: Dcrt_Times_each_def Dcrt_TimesNoCheck_def)
qed

text \<open>Only the lowest 64 bits of a multi-precision factor take part.\<close>

lemma repr_ConvertToInt:
  assumes "repr c n"
  shows "unat (Big_ConvertToInt c) = n mod 2 ^ 64"
proof -
  obtain v vs where v: "m_value c = v # vs" using assms by (cases "m_value c") (auto simp: repr_def normal_def)
  then have "n = unat v + 2 ^ 64 * lval vs" using assms by (simp add: repr_def)
  then have "n mod 2 ^ 64 = unat v mod 2 ^ 64" by simp
  also have "\<dots> = unat v" using unat_less_64 [of v] by (rule mod_less)
  finally show ?thesis using v by (simp add: Big_ConvertToInt_def)
qed

lemma Dcrt_Times_int_drep:
  assumes d: "dcrt_params_ok D L" and x: "drep D L a x" and c: "repr c n"
  shows "\<exists>z. Dcrt_Times_int x c = Inr z \<and> dc_format z = dc_format x \<and> drep D L (\<lambda>i. a i * int (n mod 2 ^ 64)) z"
    "\<exists>z. Dcrt_TimesEq_int x c = Inr z \<and> dc_format z = dc_format x \<and> drep D L (\<lambda>i. a i * int (n mod 2 ^ 64)) z"
proof -
  have k: "iu (Big_ConvertToInt c) = int (n mod 2 ^ 64)" using repr_ConvertToInt [OF c] by simp
  show "\<exists>z. Dcrt_Times_int x c = Inr z \<and> dc_format z = dc_format x \<and> drep D L (\<lambda>i. a i * int (n mod 2 ^ 64)) z"
    unfolding Dcrt_Times_int_def
    by (rule new_towers_drep [OF x refl]) (use tower_times [OF d x, of _ "Big_ConvertToInt c" "int (n mod 2 ^ 64)"] k in fastforce)
  show "\<exists>z. Dcrt_TimesEq_int x c = Inr z \<and> dc_format z = dc_format x \<and> drep D L (\<lambda>i. a i * int (n mod 2 ^ 64)) z"
    unfolding Dcrt_TimesEq_int_def
    by (rule update_towers_drep [OF x]) (use tower_times [OF d x, of _ "Big_ConvertToInt c" "int (n mod 2 ^ 64)"] k in fastforce)
qed

text \<open>A factor given by multi-precision numbers, one for each tower, of which the lowest 64 bits take part.\<close>

lemma Dcrt_Times_crt_drep:
  assumes d: "dcrt_params_ok D L" and x: "drep D L a x" and l: "length (dp_params D) \<le> length es"
    and e: "\<And>i. i < length (dp_params D) \<Longrightarrow> repr (es ! i) (e i) \<and>
      int (e i mod 2 ^ 64) mod iu (m_ciphertextModulus (dp_params D ! i)) = k mod iu (m_ciphertextModulus (dp_params D ! i))"
  shows "\<exists>z. Dcrt_Times_crt x es = Inr z \<and> dc_format z = dc_format x \<and> drep D L (\<lambda>i. a i * k) z"
  unfolding Dcrt_Times_crt_def
proof (rule new_towers_drep [OF x refl])
  fix i assume i: "i < length (dp_params D)"
  have "iu (Big_ConvertToInt (es ! i)) mod iu (m_ciphertextModulus (dp_params D ! i)) = k mod iu (m_ciphertextModulus (dp_params D ! i))"
    using e [OF i] repr_ConvertToInt [of "es ! i" "e i"] by simp
  from tower_times [OF d x i this]
  show "\<exists>t. ebind (get_at es i) (\<lambda>c. Poly_Times_s (dc_vectors x ! i) (Big_ConvertToInt c)) = Inr t \<and>
      represents (dp_params D ! i) L (\<lambda>i. a i * k) t \<and> m_format t = dc_format x"
    using i l by (auto simp: get_at_def)
qed

lemma Dcrt_Times_signed_drep:
  assumes d: "dcrt_params_ok D L" and x: "drep D L a x" and c: "- (2 ^ 63) < c" "c < 2 ^ 63"
  shows "\<exists>z. Dcrt_Times_signed x c = Inr z \<and> dc_format z = dc_format x \<and> drep D L (\<lambda>i. a i * c) z"
  unfolding Dcrt_Times_signed_def
proof (rule new_towers_drep [OF x refl])
  fix i assume i: "i < length (dp_params D)"
  show "\<exists>t. Poly_Times_signed (dc_vectors x ! i) c = Inr t \<and> represents (dp_params D ! i) L (\<lambda>i. a i * c) t \<and> m_format t = dc_format x"
    using Poly_Times_signed_represents [OF dcrt_params_okD(2) [OF d i] drepD(3) [OF x i] c] drepD(4) [OF x i] by auto
qed

subsection \<open>Format and automorphisms\<close>

lemma Dcrt_SwitchFormat_drep:
  assumes d: "dcrt_params_ok D L" and x: "drep D L a x" and c: "towers_cached (dp_params D) L cs"
  shows "\<exists>y cs'. Dcrt_SwitchFormat draw x cs s = Some (Inr ((y, cs'), s)) \<and> towers_cached (dp_params D) L cs' \<and>
    dc_format y \<noteq> dc_format x \<and> drep D L a y"
proof -
  note xd = drepD [OF x]
  let ?f = "if dc_format x = COEFFICIENT then EVALUATION else COEFFICIENT"
  have "\<exists>us cs'. each_tower_run (\<lambda>i. SwitchFormat draw) (length (dc_vectors x)) (dc_vectors x) cs s = Some (Inr ((us, cs'), s)) \<and>
      towers_cached (dp_params D) L cs' \<and> length us = length (dc_vectors x) \<and>
      (\<forall>i < length (dc_vectors x). represents (dp_params D ! i) L a (us ! i) \<and> m_format (us ! i) = ?f) \<and>
      (\<forall>i \<ge> length (dc_vectors x). us ! i = dc_vectors x ! i)"
  proof (rule each_tower_run_Inr [where C = "towers_cached (dp_params D) L"])
    fix i cs assume i: "i < length (dc_vectors x)" and cs: "towers_cached (dp_params D) L cs"
    then have i': "i < length (dp_params D)" using xd(2) by simp
    from tower_SwitchFormat [OF dcrt_params_okD(1) [OF d] i' xd(3) [OF i'] cs, of draw s] obtain q cs' where
      q: "SwitchFormat draw (dc_vectors x ! i) cs s = Some (Inr ((q, cs'), s))" "towers_cached (dp_params D) L cs'"
      "m_format q \<noteq> m_format (dc_vectors x ! i)" "represents (dp_params D ! i) L a q" by (elim exE conjE) (rule that)
    then have "m_format q = ?f" using xd(4) [OF i'] by (cases "m_format q"; cases "dc_format x") auto
    then show "\<exists>t cs'. SwitchFormat draw (dc_vectors x ! i) cs s = Some (Inr ((t, cs'), s)) \<and> towers_cached (dp_params D) L cs' \<and>
        represents (dp_params D ! i) L a t \<and> m_format t = ?f" using q by blast
  qed (use c in auto)
  then obtain us cs' where u: "each_tower_run (\<lambda>i. SwitchFormat draw) (length (dc_vectors x)) (dc_vectors x) cs s = Some (Inr ((us, cs'), s))"
    "towers_cached (dp_params D) L cs'" "length us = length (dc_vectors x)"
    "\<forall>i < length (dc_vectors x). represents (dp_params D ! i) L a (us ! i) \<and> m_format (us ! i) = ?f" by (elim exE conjE) (rule that)
  have "drep D L a (x\<lparr>dc_format := ?f, dc_vectors := us\<rparr>)" using u(3,4) xd(1,2) by (simp add: drep_def)
  moreover have "?f \<noteq> dc_format x" by simp
  ultimately show ?thesis using u(1,2) by (simp add: Dcrt_SwitchFormat_def rbind_def)
qed

lemma Dcrt_SetFormat_drep:
  assumes d: "dcrt_params_ok D L" and x: "drep D L a x" and c: "towers_cached (dp_params D) L cs"
  shows "\<exists>y cs'. Dcrt_SetFormat draw fmt x cs s = Some (Inr ((y, cs'), s)) \<and> towers_cached (dp_params D) L cs' \<and>
    dc_format y = fmt \<and> drep D L a y"
proof (cases "dc_format x = fmt")
  case False
  from Dcrt_SwitchFormat_drep [OF assms, of draw s] obtain y cs' where
    y: "Dcrt_SwitchFormat draw x cs s = Some (Inr ((y, cs'), s))" "towers_cached (dp_params D) L cs'" "dc_format y \<noteq> dc_format x"
    "drep D L a y" by (elim exE conjE) (rule that)
  moreover have "dc_format y = fmt" using y(3) False by (cases "dc_format y"; cases "dc_format x"; cases fmt) auto
  ultimately show ?thesis using False by (simp add: Dcrt_SetFormat_def)
qed (use x c in \<open>simp add: Dcrt_SetFormat_def\<close>)

lemma Dcrt_AutomorphismTransform_drep:
  assumes d: "dcrt_params_ok D L" and x: "drep D L a x" and f: "dc_format x = EVALUATION" and k: "odd (unat k)"
  shows "\<exists>y. Dcrt_AutomorphismTransform k x = Inr y \<and> dc_format y = EVALUATION \<and> drep D L (auto_poly (2 ^ L) (unat k) a) y"
proof -
  note xd = drepD [OF x]
  have t: "\<exists>t. AutomorphismTransform k (dc_vectors x ! i) = Inr t \<and> m_format t = EVALUATION \<and>
      represents (dp_params D ! i) L (auto_poly (2 ^ L) (unat k) a) t" if i: "i < length (dp_params D)" for i
  proof -
    have e: "m_format (dc_vectors x ! i) = EVALUATION" using xd(4) [OF i] f by simp
    obtain e where "AutomorphismTransform k (dc_vectors x ! i) =
        Inr \<lparr>m_format = EVALUATION, m_params = Some (dp_params D ! i), m_values = Some (vec (m_ciphertextModulus (dp_params D ! i)) e)\<rparr>"
      "restores (m_ciphertextModulus (dp_params D ! i)) (2 ^ L) (slot (dp_params D ! i) L EVALUATION (auto_poly (2 ^ L) (unat k) a)) e"
      by (rule AutomorphismTransform_evaluation [OF dcrt_params_okD(2) [OF d i] xd(3) [OF i] e k])
    then show ?thesis using representsI by auto
  qed
  then obtain g where g: "\<And>i. i < length (dp_params D) \<Longrightarrow> AutomorphismTransform k (dc_vectors x ! i) = Inr (g i) \<and>
      m_format (g i) = EVALUATION \<and> represents (dp_params D ! i) L (auto_poly (2 ^ L) (unat k) a) (g i)" by metis
  have "\<exists>ys. emap (AutomorphismTransform k) vs = Inr ys \<and> length ys = length vs \<and> (\<forall>i < length vs. ys ! i = h i)"
    if "\<And>i. i < length vs \<Longrightarrow> AutomorphismTransform k (vs ! i) = Inr (h i)" for vs h
    using that
  proof (induction vs arbitrary: h)
    case (Cons v vs)
    have v: "AutomorphismTransform k v = Inr (h 0)" using Cons.prems [of 0] by simp
    obtain ys where "emap (AutomorphismTransform k) vs = Inr ys" "length ys = length vs" "\<forall>i < length vs. ys ! i = h (Suc i)"
      using Cons.IH [of "h \<circ> Suc"] Cons.prems [of "Suc i" for i] by auto
    then show ?case using v by (auto simp: nth_Cons split: nat.splits)
  qed simp
  from this [of "dc_vectors x" g] g xd(2) obtain ys where "emap (AutomorphismTransform k) (dc_vectors x) = Inr ys"
    "length ys = length (dp_params D)" "\<forall>i < length (dp_params D). ys ! i = g i" by auto
  then show ?thesis using g f xd(1) by (auto simp: Dcrt_AutomorphismTransform_def drep_def)
qed

end
