(* ===== verification/Crt.thy ===== *)
theory Crt
  imports DcrtSem
begin

text \<open>
  The Chinese remainder theorem for the chain of moduli, and the interpolation of a polynomial over several moduli to
  one with multi-precision coefficients and back.
\<close>

subsection \<open>Residues modulo a chain of coprime moduli\<close>

text \<open>The product of all moduli but one.\<close>

definition crt_hat :: "(nat \<Rightarrow> nat) \<Rightarrow> nat \<Rightarrow> nat \<Rightarrow> nat" where
  "crt_hat q n i = (\<Prod>j\<in>{..<n} - {i}. q j)"

definition coprime_chain :: "(nat \<Rightarrow> nat) \<Rightarrow> nat \<Rightarrow> bool" where
  "coprime_chain q n \<longleftrightarrow> (\<forall>i < n. 0 < q i) \<and> (\<forall>i < n. \<forall>j < n. i \<noteq> j \<longrightarrow> coprime (q i) (q j))"

lemma hat_mult: "i < n \<Longrightarrow> (\<Prod>j<n. q j) = q i * crt_hat q n i"
  unfolding crt_hat_def by (rule prod.remove) auto

lemma hat_coprime: "coprime_chain q n \<Longrightarrow> i < n \<Longrightarrow> coprime (crt_hat q n i) (q i)"
  unfolding crt_hat_def coprime_chain_def by (rule prod_coprime_left) auto

lemma hat_dvd: "j < n \<Longrightarrow> j \<noteq> i \<Longrightarrow> q j dvd crt_hat q n i"
  unfolding crt_hat_def by (rule dvd_prodI) auto

lemma chain_pos: "coprime_chain q n \<Longrightarrow> 0 < (\<Prod>j<n. q j)"
  by (rule prod_pos) (auto simp: coprime_chain_def)

lemma chain_dvd:
  fixes z :: int
  assumes "coprime_chain q n" "\<And>i. i < n \<Longrightarrow> int (q i) dvd z"
  shows "int (\<Prod>j<n. q j) dvd z"
  using assms
proof (induction n)
  case (Suc n)
  have c: "coprime (\<Prod>j<n. q j) (q n)" using Suc.prems(1) by (intro prod_coprime_left) (auto simp: coprime_chain_def)
  have "coprime_chain q n" using Suc.prems(1) by (auto simp: coprime_chain_def)
  then have "int (\<Prod>j<n. q j) dvd z" using Suc.IH Suc.prems(2) by auto
  moreover have "int (q n) dvd z" using Suc.prems(2) by simp
  moreover have "coprime (int (\<Prod>j<n. q j)) (int (q n))" using c by (simp only: coprime_int_iff)
  ultimately have "int (\<Prod>j<n. q j) * int (q n) dvd z" by (rule divides_mult)
  then show ?case by simp
qed simp

lemma chain_cong:
  assumes "coprime_chain q n" "\<And>i. i < n \<Longrightarrow> x mod int (q i) = y mod int (q i)"
  shows "x mod int (\<Prod>j<n. q j) = y mod int (\<Prod>j<n. q j)"
  using chain_dvd [OF assms(1), of "x - y"] assms(2) by (simp add: mod_eq_dvd_iff)

text \<open>The interpolation formula: weights that are one modulo their own modulus and zero modulo the others.\<close>

lemma crt_sum_residue:
  assumes "coprime_chain q n" "i < n" "\<And>j. j < n \<Longrightarrow> w j = v j * int (crt_hat q n j)"
  shows "(\<Sum>j<n. w j) mod int (q i) = w i mod int (q i)"
proof -
  have "(\<Sum>j<n. w j) = w i + (\<Sum>j\<in>{..<n} - {i}. w j)" using assms(2) by (intro sum.remove) auto
  moreover have "int (q i) dvd (\<Sum>j\<in>{..<n} - {i}. w j)"
  proof (rule dvd_sum)
    fix j assume j: "j \<in> {..<n} - {i}"
    then have "int (q i) dvd int (crt_hat q n j)" using hat_dvd [of i n j q] assms(2) by (auto simp only: int_dvd_int_iff Diff_iff lessThan_iff insert_iff)
    then show "int (q i) dvd w j" using assms(3) [of j] j by auto
  qed
  ultimately show ?thesis by (simp add: mod_eq_dvd_iff)
qed

lemma crt_sum:
  assumes q: "coprime_chain q n" and y: "\<And>i. i < n \<Longrightarrow> (y i * int (crt_hat q n i)) mod int (q i) = a mod int (q i)"
  shows "(\<Sum>i<n. y i * int (crt_hat q n i)) mod int (\<Prod>j<n. q j) = a mod int (\<Prod>j<n. q j)"
proof (rule chain_cong [OF q])
  fix i assume i: "i < n"
  show "(\<Sum>i<n. y i * int (crt_hat q n i)) mod int (q i) = a mod int (q i)"
    using crt_sum_residue [OF q i, of "\<lambda>i. y i * int (crt_hat q n i)" y] y [OF i] by simp
qed

text \<open>With digits below the moduli the sum exceeds the number by less than \<open>n\<close> times the product.\<close>

lemma crt_overflow:
  assumes q: "coprime_chain q n" and y: "\<And>i. i < n \<Longrightarrow> 0 \<le> y i \<and> y i < int (q i)"
    and c: "\<And>i. i < n \<Longrightarrow> (y i * int (crt_hat q n i)) mod int (q i) = a mod int (q i)" and n: "0 < n"
  obtains \<alpha> where "(\<Sum>i<n. y i * int (crt_hat q n i)) = a mod int (\<Prod>j<n. q j) + \<alpha> * int (\<Prod>j<n. q j)" "0 \<le> \<alpha>" "\<alpha> < int n"
proof -
  define Q where "Q = int (\<Prod>j<n. q j)"
  define S where "S = (\<Sum>i<n. y i * int (crt_hat q n i))"
  have Q: "0 < Q" using chain_pos [OF q] unfolding Q_def by (simp only: of_nat_0_less_iff)
  have "y i * int (crt_hat q n i) < Q" if i: "i < n" for i
  proof -
    have h: "0 < crt_hat q n i" using chain_pos [OF q] unfolding hat_mult [OF i] by (simp add: zero_less_mult_iff)
    have "y i * int (crt_hat q n i) < int (q i) * int (crt_hat q n i)" using y [OF i] h by (intro mult_strict_right_mono) auto
    also have "\<dots> = Q" unfolding Q_def hat_mult [OF i] by simp
    finally show ?thesis .
  qed
  then have "S < (\<Sum>i<n. Q)" unfolding S_def using n by (intro sum_strict_mono) auto
  then have S: "S < int n * Q" by simp
  have S0: "0 \<le> S" unfolding S_def using y by (intro sum_nonneg mult_nonneg_nonneg) auto
  have "S mod Q = a mod Q" unfolding S_def Q_def by (rule crt_sum [OF q c])
  then have e: "S = a mod Q + S div Q * Q" using mod_mult_div_eq [of S Q] by (simp add: mult.commute)
  have "S div Q < int n"
  proof (rule ccontr)
    assume "\<not> S div Q < int n"
    then have "int n * Q \<le> S div Q * Q" using Q by (intro mult_right_mono) auto
    also have "\<dots> \<le> S" using pos_mod_sign [OF Q, of a] e by linarith
    finally show False using S by simp
  qed
  then show ?thesis using that [of "S div Q"] e S0 Q pos_imp_zdiv_nonneg_iff unfolding S_def Q_def by blast
qed

lemma rns_chain: "rns_ok Ps L \<Longrightarrow> coprime_chain (tower_q Ps) (length Ps)"
  using rns_okD(2) by (fastforce simp: coprime_chain_def rns_ok_def)

lemma tower_product: "prod_list (map (\<lambda>P. unat (m_ciphertextModulus P)) Ps) = (\<Prod>i<length Ps. tower_q Ps i)"
  by (simp add: prod.list_conv_set_nth tower_q_def lessThan_atLeast0)

subsection \<open>Interpolation\<close>

lemma tower_modulus_rep: "represents P L a v \<Longrightarrow> tower_modulus v = Inr (m_ciphertextModulus P)"
  by (simp add: tower_modulus_def represents_def deref_def)

lemma crt_multiplier_ok:
  assumes v: "represents P L a v" and q: "unat (m_ciphertextModulus P) = q" "1 < q" and Q: "repr qt (q * h)" "0 < h" and c: "coprime h q"
  shows "\<exists>m y. crt_multiplier qt v s = Some (Inr (m, s)) \<and> repr m (y * h) \<and> y < q \<and> h * y mod q = 1"
proof -
  have l: "repr (ubint_of_limb (m_ciphertextModulus P)) q" using repr_limb q(1) by metis
  have "\<exists>z. Big_DividedBy qt (ubint_of_limb (m_ciphertextModulus P)) = Inr z \<and> repr z (q * h div q)"
    by (rule repr_DividedBy_le [OF Q(1) l]) (use q(2) Q(2) in auto)
  then obtain z where z: "Big_DividedBy qt (ubint_of_limb (m_ciphertextModulus P)) = Inr z" "repr z h" using q(2) by auto
  obtain iv y where y: "Big_ModInverse z (ubint_of_limb (m_ciphertextModulus P)) = Some (Inr iv)" "repr iv y" "y < q" "h * y mod q = 1"
    using repr_ModInverse [OF z(2) l q(2) c] by blast
  have "big_fits (y * h)" by (rule big_fits_mono [OF _ repr_fits [OF Q(1)]]) (use y(3) in auto)
  then have "repr (Big_Mul iv z) (y * h)" by (rule repr_Mul [OF y(2) z(2)])
  then show ?thesis
    using y z(1) tower_modulus_rep [OF v] by (auto simp: crt_multiplier_def rpartial_def)
qed

lemma tower_entry_rep:
  assumes "represents P L a v" "m_format v = COEFFICIENT" "j < 2 ^ L"
  shows "\<exists>e. tower_entry v j = Inr e \<and> unat e < unat (m_ciphertextModulus P) \<and> iu e = a j mod iu (m_ciphertextModulus P)"
proof -
  obtain d where d: "v = \<lparr>m_format = m_format v, m_params = Some P, m_values = Some (vec (m_ciphertextModulus P) d)\<rparr>"
    "restores (m_ciphertextModulus P) (2 ^ L) (slot P L (m_format v) a) d" by (rule representsE [OF assms(1)])
  have mv: "m_values v = Some (vec (m_ciphertextModulus P) d)" by (subst d(1)) simp
  have "iu (d ! j) = a j mod iu (m_ciphertextModulus P)" using represents_coefficients [OF assms(1,2) mv assms(3)] by simp
  then show ?thesis
    using restoresD(1,2) [OF d(2)] assms(3) by (simp add: tower_entry_def GetValues_def mv NatVec.at_def IndexCheck_def GetLength_def)
qed

lemma interpolated_entry_ok:
  assumes n: "length ts = n" "length ms = n" and Q: "repr qt Q" "0 < Q"
    and e: "\<And>i. i < n \<Longrightarrow> tower_entry (ts ! i) j = Inr (e i) \<and> unat (e i) < 2 ^ 60"
    and m: "\<And>i. i < n \<Longrightarrow> repr (ms ! i) (w i) \<and> w i < Q" and fits: "big_fits (n * 2 ^ 60 * Q)"
  shows "\<exists>z. interpolated_entry ts ms qt j = Inr z \<and> repr z ((\<Sum>i<n. unat (e i) * w i) mod Q)"
proof -
  have term_less: "unat (e i) * w i \<le> 2 ^ 60 * Q" if "i < n" for i
    by (rule mult_le_mono) (use e [OF that] m [OF that] in auto)
  have partial: "(\<Sum>i<k. unat (e i) * w i) \<le> n * 2 ^ 60 * Q" if "k \<le> n" for k
  proof -
    have "(\<Sum>i<k. unat (e i) * w i) \<le> (\<Sum>i<k. 2 ^ 60 * Q)" using term_less that by (intro sum_mono) auto
    also have "\<dots> \<le> n * 2 ^ 60 * Q" using that by (simp add: mult.assoc mult_le_mono1)
    finally show ?thesis .
  qed
  have "\<exists>V. efor 0 n (\<lambda>i V. ebind (tower_entry (ts ! i) j) (\<lambda>e.
      Inr (Big_AddEq V (Big_Mul (ubint_of_limb e) (ms ! i))))) ubint_default = Inr V \<and> repr V (\<Sum>i<n. unat (e i) * w i)"
  proof (rule efor_Inr [where P = "\<lambda>k V. repr V (\<Sum>i<k. unat (e i) * w i)"])
    fix i V assume i: "i < n" and V: "repr V (\<Sum>i<i. unat (e i) * w i)"
    have "big_fits (unat (e i) * w i)"
      by (rule big_fits_mono [OF le_trans [OF term_less [OF i]] fits]) (use i in \<open>simp add: mult.assoc\<close>)
    then have p: "repr (Big_Mul (ubint_of_limb (e i)) (ms ! i)) (unat (e i) * w i)"
      using repr_Mul [OF repr_limb] m [OF i] by blast
    have "big_fits ((\<Sum>i<i. unat (e i) * w i) + unat (e i) * w i)"
      using big_fits_mono [OF partial [of "Suc i"] fits] i by simp
    from repr_Add [OF V p this] show "\<exists>V'. ebind (tower_entry (ts ! i) j) (\<lambda>e. Inr (Big_AddEq V (Big_Mul (ubint_of_limb e) (ms ! i)))) = Inr V' \<and>
        repr V' (\<Sum>i<Suc i. unat (e i) * w i)" using e [OF i] by (simp add: Big_AddEq_Add)
  qed (simp_all add: repr_default)
  then obtain V where V: "efor 0 n (\<lambda>i V. ebind (tower_entry (ts ! i) j) (\<lambda>e.
      Inr (Big_AddEq V (Big_Mul (ubint_of_limb e) (ms ! i))))) ubint_default = Inr V" "repr V (\<Sum>i<n. unat (e i) * w i)" by blast
  show ?thesis using repr_Mod [OF V(2) Q] V(1) n(1) by (simp add: interpolated_entry_def Big_ModEq_Mod)
qed

lemma rmap_each:
  assumes "\<And>i. i < length xs \<Longrightarrow> \<exists>y. f (xs ! i) s = Some (Inr (y, s)) \<and> R i y"
  shows "\<exists>ys. rmap f xs s = Some (Inr (ys, s)) \<and> length ys = length xs \<and> (\<forall>i < length xs. R i (ys ! i))"
  using assms
proof (induction xs arbitrary: R)
  case (Cons x xs)
  obtain y where y: "f x s = Some (Inr (y, s))" "R 0 y" using Cons.prems [of 0] by auto
  obtain ys where "rmap f xs s = Some (Inr (ys, s))" "length ys = length xs" "\<forall>i < length xs. R (Suc i) (ys ! i)"
    using Cons.IH [of "\<lambda>i. R (Suc i)"] Cons.prems [of "Suc i" for i] by auto
  then show ?case using y by (auto simp: nth_Cons split: nat.splits)
qed simp

lemma emap_nth_Inr:
  assumes "\<And>i. i < length xs \<Longrightarrow> \<exists>y. f (xs ! i) = Inr y \<and> R i y"
  shows "\<exists>ys. emap f xs = Inr ys \<and> length ys = length xs \<and> (\<forall>i < length xs. R i (ys ! i))"
  using assms
proof (induction xs arbitrary: R)
  case (Cons x xs)
  obtain y where y: "f x = Inr y" "R 0 y" using Cons.prems [of 0] by auto
  obtain ys where "emap f xs = Inr ys" "length ys = length xs" "\<forall>i < length xs. R (Suc i) (ys ! i)"
    using Cons.IH [of "\<lambda>i. R (Suc i)"] Cons.prems [of "Suc i" for i] by auto
  then show ?case using y by (auto simp: nth_Cons split: nat.splits)
qed simp

lemma large_poly_ok:
  assumes L: "0 < L" "L \<le> 24" and r: "unat r = 2 ^ L" and V: "length V = 2 ^ L"
  shows "large_poly draw r qt V s = Some (Inr (\<lparr>bp_format = COEFFICIENT, bp_cyclotomicOrder = 2 * r, bp_ringDimension = r,
    bp_modulus = qt, bp_rootOfUnity = ubint_of_limb 1, bp_values = V\<rparr>, s))"
proof -
  have b: "2 ^ Suc L \<le> (2::nat) ^ 25" using L by (intro power_increasing) auto
  have u2: "unat (2 * r) = 2 ^ Suc L" using b r by (simp add: unat_word_ariths(2))
  have l: "2 ^ Suc L < (2::nat) ^ 64" "2 ^ L < (2::nat) ^ 64" using L by (intro power_strict_increasing; simp)+
  have "unat (ucast (2 * r) :: u64) = unat (2 ^ Suc L :: u64)" using u2 l using L by (simp only: unat_ucast_32_64) (subst unat_power2, simp_all)
  then have e: "(ucast (2 * r) :: u64) = 2 ^ Suc L" by (simp only: word_unat_eq_iff)
  have "unat (ucast (2 ^ L :: u64) :: u32) = unat r"
  proof -
    have "unat (2 ^ L :: u64) = 2 ^ L" using L by (simp add: unat_power2)
    moreover have "2 ^ L < (2::nat) ^ 32" using L by (intro power_strict_increasing) auto
    ultimately show ?thesis by (simp only: unat_ucast_32 r)
  qed
  then have n: "(ucast (2 ^ L :: u64) :: u32) = r" by (simp only: word_unat_eq_iff)
  have v: "(of_nat (length V) :: u32) = r" using V r by (metis word_of_nat_eq_iff word_unat_eq_iff word_of_unat_eq)
  have "GetTotient draw (2 ^ Suc L) s = Some (Inr (2 ^ L, s))" by (rule GetTotient_power2) (use L in simp)
  then show ?thesis unfolding large_poly_def e by (simp add: n v)
qed

text \<open>The residues of a tower in coefficient format, and the sum that interpolates them.\<close>

definition big_q :: "dcrt_params \<Rightarrow> nat" where
  "big_q D = prod_list (map (\<lambda>P. unat (m_ciphertextModulus P)) (dp_params D))"

lemma big_q_prod: "big_q D = (\<Prod>i<length (dp_params D). tower_q (dp_params D) i)"
  by (simp only: big_q_def tower_product)

lemma big_q_pos: "dcrt_params_ok D L \<Longrightarrow> 0 < big_q D"
  using chain_pos [OF rns_chain] dcrt_params_okD(1) unfolding big_q_prod by blast

lemma interpolation_sum:
  assumes d: "dcrt_params_ok D L" and e: "\<And>i. i < length (dp_params D) \<Longrightarrow> iu (e i) = a mod int (tower_q (dp_params D) i)"
    and y: "\<And>i. i < length (dp_params D) \<Longrightarrow>
      crt_hat (tower_q (dp_params D)) (length (dp_params D)) i * y i mod tower_q (dp_params D) i = 1"
  shows "int ((\<Sum>i<length (dp_params D). unat (e i) * (y i * crt_hat (tower_q (dp_params D)) (length (dp_params D)) i)) mod big_q D) =
    a mod int (big_q D)"
proof -
  let ?n = "length (dp_params D)" and ?q = "tower_q (dp_params D)"
  have c: "coprime_chain ?q ?n" by (rule rns_chain [OF dcrt_params_okD(1) [OF d]])
  have "(\<Sum>i<?n. (int (unat (e i)) * int (y i)) * int (crt_hat ?q ?n i)) mod int (\<Prod>j<?n. ?q j) = a mod int (\<Prod>j<?n. ?q j)"
  proof (rule crt_sum [OF c])
    fix i assume i: "i < ?n"
    have one: "(int (y i) * int (crt_hat ?q ?n i)) mod int (?q i) = 1"
      using arg_cong [OF y [OF i], of int] by (simp only: of_nat_mod of_nat_mult mult.commute of_nat_1)
    have "(int (unat (e i)) * int (y i) * int (crt_hat ?q ?n i)) mod int (?q i) =
        (int (unat (e i)) * ((int (y i) * int (crt_hat ?q ?n i)) mod int (?q i))) mod int (?q i)"
      by (simp only: mult.assoc mod_mult_right_eq)
    also have "\<dots> = a mod int (?q i)" unfolding one using e [OF i] by simp
    finally show "(int (unat (e i)) * int (y i) * int (crt_hat ?q ?n i)) mod int (?q i) = a mod int (?q i)" .
  qed
  then show ?thesis unfolding big_q_prod by (simp only: of_nat_mod of_nat_sum of_nat_mult mult.assoc)
qed

lemma tower_hat:
  assumes d: "dcrt_params_ok D L" and i: "i < length (dp_params D)"
  defines "h \<equiv> crt_hat (tower_q (dp_params D)) (length (dp_params D)) i"
  shows "big_q D = tower_q (dp_params D) i * h" "0 < h" "coprime h (tower_q (dp_params D) i)"
    "repr (dp_ciphertextModulus D) (tower_q (dp_params D) i * h)" "1 < tower_q (dp_params D) i" "tower_q (dp_params D) i < 2 ^ 60"
proof -
  show e: "big_q D = tower_q (dp_params D) i * h" unfolding big_q_prod h_def by (rule hat_mult [OF i])
  show "0 < h" using big_q_pos [OF d] unfolding e by (simp add: zero_less_mult_iff)
  show "coprime h (tower_q (dp_params D) i)" unfolding h_def by (rule hat_coprime [OF rns_chain [OF dcrt_params_okD(1) [OF d]] i])
  show "repr (dp_ciphertextModulus D) (tower_q (dp_params D) i * h)" using d unfolding e [symmetric] dcrt_params_ok_def big_q_def by simp
  show "1 < tower_q (dp_params D) i" "tower_q (dp_params D) i < 2 ^ 60" using rns_okD(2,3) [OF dcrt_params_okD(1) [OF d] i] by auto
qed

lemma multipliers_ok:
  assumes d: "dcrt_params_ok D L" and x: "drep D L a x"
  shows "\<exists>ms. rmap (crt_multiplier (dp_ciphertextModulus D)) (dc_vectors x) s = Some (Inr (ms, s)) \<and> length ms = length (dp_params D) \<and>
    (\<forall>i < length (dp_params D). \<exists>y. repr (ms ! i) (y * crt_hat (tower_q (dp_params D)) (length (dp_params D)) i) \<and>
      y < tower_q (dp_params D) i \<and> crt_hat (tower_q (dp_params D)) (length (dp_params D)) i * y mod tower_q (dp_params D) i = 1)"
proof -
  note xd = drepD [OF x]
  have "\<exists>m. crt_multiplier (dp_ciphertextModulus D) (dc_vectors x ! i) s = Some (Inr (m, s)) \<and>
      (\<exists>y. repr m (y * crt_hat (tower_q (dp_params D)) (length (dp_params D)) i) \<and>
        y < tower_q (dp_params D) i \<and> crt_hat (tower_q (dp_params D)) (length (dp_params D)) i * y mod tower_q (dp_params D) i = 1)"
    if i: "i < length (dp_params D)" for i
    using crt_multiplier_ok [OF xd(3) [OF i] tower_q_def [symmetric] tower_hat(5) [OF d i] tower_hat(4,2,3) [OF d i], of s] by blast
  then show ?thesis
    using rmap_each [of "dc_vectors x" "crt_multiplier (dp_ciphertextModulus D)" s "\<lambda>i m.
      \<exists>y. repr m (y * crt_hat (tower_q (dp_params D)) (length (dp_params D)) i) \<and>
        y < tower_q (dp_params D) i \<and> crt_hat (tower_q (dp_params D)) (length (dp_params D)) i * y mod tower_q (dp_params D) i = 1"] xd(2)
    by simp
qed

lemma CRTInterpolate_ok:
  assumes d: "dcrt_params_ok D L" and x: "drep D L a x" and f: "dc_format x = COEFFICIENT"
    and fits: "big_fits (length (dp_params D) * 2 ^ 60 * big_q D)"
  shows "\<exists>V. Dcrt_CRTInterpolate draw x s = Some (Inr (\<lparr>bp_format = COEFFICIENT, bp_cyclotomicOrder = 2 * dp_ringDimension D,
      bp_ringDimension = dp_ringDimension D, bp_modulus = dp_ciphertextModulus D, bp_rootOfUnity = ubint_of_limb 1, bp_values = V\<rparr>, s)) \<and>
    length V = 2 ^ L \<and> (\<forall>j < 2 ^ L. repr (V ! j) (nat (a j mod int (big_q D))))"
proof -
  let ?n = "length (dp_params D)" and ?q = "tower_q (dp_params D)"
  let ?h = "crt_hat ?q ?n"
  note xd = drepD [OF x]
  have Q: "repr (dp_ciphertextModulus D) (big_q D)" using d by (simp add: dcrt_params_ok_def big_q_def)
  obtain ms where ms: "rmap (crt_multiplier (dp_ciphertextModulus D)) (dc_vectors x) s = Some (Inr (ms, s))" "length ms = ?n"
    "\<forall>i < ?n. \<exists>y. repr (ms ! i) (y * ?h i) \<and> y < ?q i \<and> ?h i * y mod ?q i = 1" using multipliers_ok [OF d x, of s] by (elim exE conjE) (rule that)
  then obtain y where y: "\<And>i. i < ?n \<Longrightarrow> repr (ms ! i) (y i * ?h i) \<and> y i < ?q i \<and> ?h i * y i mod ?q i = 1" by metis
  have w: "y i * ?h i < big_q D" if "i < ?n" for i
    unfolding tower_hat(1) [OF d that] using y [OF that] tower_hat(2) [OF d that] by simp
  have entry: "\<exists>z. interpolated_entry (dc_vectors x) ms (dp_ciphertextModulus D) j = Inr z \<and> repr z (nat (a j mod int (big_q D)))"
    if j: "j < 2 ^ L" for j
  proof -
    have "\<exists>e. tower_entry (dc_vectors x ! i) j = Inr e \<and> unat e < ?q i \<and> iu e = a j mod int (?q i)" if "i < ?n" for i
      unfolding tower_q_def by (rule tower_entry_rep) (use xd that j f in auto)
    then obtain e where e: "\<And>i. i < ?n \<Longrightarrow> tower_entry (dc_vectors x ! i) j = Inr (e i) \<and> unat (e i) < ?q i \<and> iu (e i) = a j mod int (?q i)"
      by metis
    have e60: "unat (e i) < 2 ^ 60" if "i < ?n" for i using e [OF that] tower_hat(6) [OF d that] by linarith
    have "\<exists>z. interpolated_entry (dc_vectors x) ms (dp_ciphertextModulus D) j = Inr z \<and>
        repr z ((\<Sum>i<?n. unat (e i) * (y i * ?h i)) mod big_q D)"
      by (rule interpolated_entry_ok [OF xd(2) ms(2) Q big_q_pos [OF d] _ _ fits])
        (use e y w e60 in auto)
    moreover have "(\<Sum>i<?n. unat (e i) * (y i * ?h i)) mod big_q D = nat (a j mod int (big_q D))"
    proof -
      have "int ((\<Sum>i<?n. unat (e i) * (y i * ?h i)) mod big_q D) = a j mod int (big_q D)"
        by (rule interpolation_sum [OF d]) (use e y in auto)
      then show ?thesis by (simp only: nat_int [symmetric])
    qed
    ultimately show ?thesis by simp
  qed
  obtain V where V: "emap (interpolated_entry (dc_vectors x) ms (dp_ciphertextModulus D)) [0..<2 ^ L] = Inr V" "length V = 2 ^ L"
    "\<forall>j < 2 ^ L. repr (V ! j) (nat (a j mod int (big_q D)))"
    using emap_nth_Inr [of "[0..<2 ^ L]" "interpolated_entry (dc_vectors x) ms (dp_ciphertextModulus D)"
        "\<lambda>j z. repr z (nat (a j mod int (big_q D)))"] entry by auto
  have L: "0 < L" "L \<le> 24" using ring_okD(3,4) [OF dcrt_params_okD(2) [OF d dcrt_params_okD(3) [OF d]]] by auto
  have r: "unat (dp_ringDimension D) = 2 ^ L" using d by (simp add: dcrt_params_ok_def)
  have "Dcrt_CRTInterpolate draw x s = large_poly draw (dp_ringDimension D) (dp_ciphertextModulus D) V s"
    using f ms(1) V(1) xd(1) r by (simp add: Dcrt_CRTInterpolate_def)
  then show ?thesis using large_poly_ok [OF L r V(2), of draw "dp_ciphertextModulus D" s] V(2,3) by (intro exI [of _ V] conjI) simp_all
qed

text \<open>The same for one index; the other entries are zero.\<close>

lemma ComputeMu_returns:
  assumes "repr x n" "0 < n"
  shows "\<exists>mu. Big_ComputeMu x = Inr mu"
proof -
  let ?s = "ucast (2 * m_MSB x + 3) :: u16"
  have "unat ?s < 2 ^ 16" using unsigned_less [of ?s, where ?'a = nat] by simp
  then have "bit_len (2 ^ unat ?s) < 2 ^ 32" by (simp only: bit_len_power2) simp
  then have "repr (Big_LShift (ubint_of_limb 1) ?s) (unat (1 :: u64) * 2 ^ unat ?s)"
    by (intro repr_LShift [OF repr_limb]) (simp add: big_fits_def del: bit_len_power2)
  from repr_DividedBy [OF this assms] show ?thesis by (auto simp: Big_ComputeMu_def)
qed

lemma CRTInterpolateIndex_ok:
  assumes d: "dcrt_params_ok D L" and x: "drep D L a x" and f: "dc_format x = COEFFICIENT" and j: "j < 2 ^ L"
    and fits: "big_fits (length (dp_params D) * 2 ^ 60 * big_q D)"
  shows "\<exists>v. Dcrt_CRTInterpolateIndex draw j x s = Some (Inr (\<lparr>bp_format = COEFFICIENT, bp_cyclotomicOrder = 2 * dp_ringDimension D,
      bp_ringDimension = dp_ringDimension D, bp_modulus = dp_ciphertextModulus D, bp_rootOfUnity = ubint_of_limb 1,
      bp_values = (replicate (2 ^ L) ubint_default)[j := v]\<rparr>, s)) \<and> repr v (nat (a j mod int (big_q D)))"
proof -
  let ?n = "length (dp_params D)" and ?q = "tower_q (dp_params D)" and ?Q = "dp_ciphertextModulus D"
  let ?h = "crt_hat ?q ?n" and ?z = "replicate (2 ^ L) ubint_default"
  note xd = drepD [OF x]
  have Q: "repr ?Q (big_q D)" using d by (simp add: dcrt_params_ok_def big_q_def)
  have "\<exists>m y. crt_multiplier ?Q (dc_vectors x ! i) s = Some (Inr (m, s)) \<and> repr m (y * ?h i) \<and> y < ?q i \<and> ?h i * y mod ?q i = 1"
    if i: "i < ?n" for i
    by (rule crt_multiplier_ok [OF xd(3) [OF i] tower_q_def [symmetric] tower_hat(5) [OF d i] tower_hat(4,2,3) [OF d i]])
  then obtain m y where m: "\<And>i. i < ?n \<Longrightarrow> crt_multiplier ?Q (dc_vectors x ! i) s = Some (Inr (m i, s)) \<and>
      repr (m i) (y i * ?h i) \<and> y i < ?q i \<and> ?h i * y i mod ?q i = 1" by metis
  have "\<exists>e. tower_entry (dc_vectors x ! i) j = Inr e \<and> unat e < ?q i \<and> iu e = a j mod int (?q i)" if "i < ?n" for i
    unfolding tower_q_def by (rule tower_entry_rep) (use xd that j f in auto)
  then obtain e where e: "\<And>i. i < ?n \<Longrightarrow> tower_entry (dc_vectors x ! i) j = Inr (e i) \<and> unat (e i) < ?q i \<and> iu (e i) = a j mod int (?q i)"
    by metis
  let ?t = "\<lambda>i. unat (e i) * (y i * ?h i)"
  have term_less: "?t i \<le> 2 ^ 60 * big_q D" if i: "i < ?n" for i
  proof (rule mult_le_mono)
    show "unat (e i) \<le> 2 ^ 60" using e [OF i] tower_hat(6) [OF d i] by linarith
    show "y i * ?h i \<le> big_q D" unfolding tower_hat(1) [OF d i] using m [OF i] by (simp add: mult_le_mono1)
  qed
  have partial: "(\<Sum>i<k. ?t i) \<le> ?n * 2 ^ 60 * big_q D" if "k \<le> ?n" for k
  proof -
    have "(\<Sum>i<k. ?t i) \<le> (\<Sum>i<k. 2 ^ 60 * big_q D)" using term_less that by (intro sum_mono) auto
    also have "\<dots> \<le> ?n * 2 ^ 60 * big_q D" using that by (simp add: mult.assoc mult_le_mono1)
    finally show ?thesis .
  qed
  let ?body = "\<lambda>t V s. rbind (crt_multiplier ?Q t s) (\<lambda>m s.
    rlift (ebind (tower_entry t j) (\<lambda>e. ebind (get_at V j) (\<lambda>v. set_at V j (Big_AddEq v (Big_Mul m (ubint_of_limb e)))))) s)"
  have upto: "\<exists>v. rfold ?body (drop k (dc_vectors x)) (?z[j := w]) s = Some (Inr (?z[j := v], s)) \<and> repr v (\<Sum>i<?n. ?t i)"
    if "k \<le> ?n" "repr w (\<Sum>i<k. ?t i)" for k w
    using that
  proof (induction "?n - k" arbitrary: k w)
    case 0
    then show ?case using xd(2) by auto
  next
    case (Suc l)
    then have k: "k < ?n" by simp
    have dr: "drop k (dc_vectors x) = dc_vectors x ! k # drop (Suc k) (dc_vectors x)" using k xd(2) by (simp add: Cons_nth_drop_Suc)
    have "big_fits (y k * ?h k * unat (e k))"
    proof (rule big_fits_mono [OF le_trans [OF _ partial [of ?n]] fits])
      have "?t k \<le> (\<Sum>i<?n. ?t i)" by (rule member_le_sum) (use k in auto)
      then show "y k * ?h k * unat (e k) \<le> (\<Sum>i<?n. ?t i)" by (simp only: mult.commute)
    qed simp
    then have p: "repr (Big_Mul (m k) (ubint_of_limb (e k))) (y k * ?h k * unat (e k))"
      using repr_Mul [OF _ repr_limb] m [OF k] by blast
    have s: "(\<Sum>i<k. ?t i) + y k * ?h k * unat (e k) = (\<Sum>i<Suc k. ?t i)" by (simp add: mult_ac)
    have "big_fits ((\<Sum>i<k. ?t i) + y k * ?h k * unat (e k))"
      unfolding s by (rule big_fits_mono [OF partial fits]) (use k in simp)
    note w = repr_Add [OF Suc.prems(2) p this, unfolded s]
    have "\<exists>v. rfold ?body (drop (Suc k) (dc_vectors x)) (?z[j := Big_AddEq w (Big_Mul (m k) (ubint_of_limb (e k)))]) s =
        Some (Inr (?z[j := v], s)) \<and> repr v (\<Sum>i<?n. ?t i)"
      by (rule Suc.hyps(1)) (use Suc.hyps(2) k w in \<open>auto simp: Big_AddEq_Add\<close>)
    then show ?case using m [OF k] e [OF k] j by (simp add: dr get_at_def set_at_def)
  qed
  have "?z[j := ubint_default] = ?z" using j by (intro nth_equalityI) (auto simp: nth_list_update)
  then obtain v where v: "rfold ?body (dc_vectors x) ?z s = Some (Inr (?z[j := v], s))" "repr v (\<Sum>i<?n. ?t i)"
    using upto [of 0 ubint_default] repr_default by auto
  obtain w where w: "Big_Mod v ?Q = Inr w" "repr w ((\<Sum>i<?n. ?t i) mod big_q D)" using repr_Mod [OF v(2) Q big_q_pos [OF d]] by blast
  obtain mu where mu: "Big_ComputeMu ?Q = Inr mu" using ComputeMu_returns [OF Q big_q_pos [OF d]] by blast
  have "int ((\<Sum>i<?n. ?t i) mod big_q D) = a j mod int (big_q D)" by (rule interpolation_sum [OF d]) (use e m in auto)
  then have "(\<Sum>i<?n. ?t i) mod big_q D = nat (a j mod int (big_q D))" by (simp only: nat_int [symmetric])
  with w(2) have wr: "repr w (nat (a j mod int (big_q D)))" by (simp only:)
  have L: "0 < L" "L \<le> 24" using ring_okD(3,4) [OF dcrt_params_okD(2) [OF d dcrt_params_okD(3) [OF d]]] by auto
  have r: "unat (dp_ringDimension D) = 2 ^ L" using d by (simp add: dcrt_params_ok_def)
  have "Dcrt_CRTInterpolateIndex draw j x s = large_poly draw (dp_ringDimension D) ?Q (?z[j := w]) s"
    using f v(1) xd(1) r j w(1) mu
    by (simp add: Dcrt_CRTInterpolateIndex_def get_at_def set_at_def Big_ModEq_mu_def Big_ModEq_Mod)
  then show ?thesis using large_poly_ok [OF L r, of "?z[j := w]" draw ?Q s] wr by (intro exI [of _ w] conjI) simp_all
qed

subsection \<open>Residues of a polynomial over the product\<close>

lemma residues_of_ok:
  assumes P: "ring_ok P L" and z: "PolyImpl (Some P) COEFFICIENT True = Inr z"
    and v: "length (bp_values p) = 2 ^ L" "\<And>j. j < 2 ^ L \<Longrightarrow> repr (bp_values p ! j) (n j)"
  shows "\<exists>t. residues_of p z = Inr t \<and> m_format t = COEFFICIENT \<and> represents P L (\<lambda>j. int (n j)) t"
proof -
  let ?q = "m_ciphertextModulus P"
  have zf: "z = \<lparr>m_format = COEFFICIENT, m_params = Some P, m_values = Some (vec ?q (replicate (2 ^ L) 0))\<rparr>"
    using z ring_okD(6) [OF P] by (simp add: PolyImpl_def SetValuesToZero_def deref_def nvec_zero_def)
  have "\<exists>d. efor 0 (2 ^ L) (\<lambda>i d. ebind (Big_Mod (bp_values p ! i) (ubint_of_limb ?q)) (\<lambda>r. set_at d i (Big_ConvertToInt r)))
      (replicate (2 ^ L) 0) = Inr d \<and> (length d = 2 ^ L \<and> (\<forall>i < 2 ^ L. unat (d ! i) = n i mod unat ?q))"
  proof -
    have "\<exists>d. efor 0 (2 ^ L) (\<lambda>i d. ebind (Big_Mod (bp_values p ! i) (ubint_of_limb ?q)) (\<lambda>r. set_at d i (Big_ConvertToInt r)))
        (replicate (2 ^ L) 0) = Inr d \<and> length d = 2 ^ L \<and> (\<forall>i < 2 ^ L. unat (d ! i) = n i mod unat ?q)"
    proof (rule efor_Inr [where P = "\<lambda>k d. length d = 2 ^ L \<and> (\<forall>i < k. unat (d ! i) = n i mod unat ?q)"])
      fix i and d :: "u64 list" assume i: "i < 2 ^ L" and d: "length d = 2 ^ L \<and> (\<forall>j < i. unat (d ! j) = n j mod unat ?q)"
      obtain r where r: "Big_Mod (bp_values p ! i) (ubint_of_limb ?q) = Inr r" "repr r (n i mod unat ?q)"
        using repr_Mod [OF v(2) [OF i] repr_limb [of ?q] ring_okD(7) [OF P]] by blast
      have "n i mod unat ?q < 2 ^ 64" using ring_okD(7) [OF P] unat_less_64 [of ?q] by (meson less_trans mod_less_divisor)
      then have "unat (Big_ConvertToInt r) = n i mod unat ?q" using repr_ConvertToInt [OF r(2)] by simp
      then show "\<exists>d'. ebind (Big_Mod (bp_values p ! i) (ubint_of_limb ?q)) (\<lambda>r. set_at d i (Big_ConvertToInt r)) = Inr d' \<and>
          length d' = 2 ^ L \<and> (\<forall>j < Suc i. unat (d' ! j) = n j mod unat ?q)"
        using d i r(1) by (simp add: set_at_def nth_list_update less_Suc_eq)
    qed simp_all
    then show ?thesis by blast
  qed
  then obtain d where d: "efor 0 (2 ^ L) (\<lambda>i d. ebind (Big_Mod (bp_values p ! i) (ubint_of_limb ?q)) (\<lambda>r. set_at d i (Big_ConvertToInt r)))
      (replicate (2 ^ L) 0) = Inr d" "length d = 2 ^ L" "\<forall>i < 2 ^ L. unat (d ! i) = n i mod unat ?q" by blast
  have "restores ?q (2 ^ L) (slot P L COEFFICIENT (\<lambda>j. int (n j))) d"
    unfolding restores_def slot_coeff
  proof (intro conjI allI impI)
    fix i assume i: "i < (2::nat) ^ L"
    show "unat (d ! i) < unat ?q" using d(3) i ring_okD(7) [OF P] by simp
    have u: "unat (d ! i) = n i mod unat ?q" using d(3) i by blast
    show "iu (d ! i) mod iu ?q = int (n i) mod iu ?q" unfolding u by (simp only: of_nat_mod mod_mod_trivial)
  qed (rule d(2))
  from representsI [OF this] show ?thesis using d(1) v(1) by (simp add: residues_of_def zf deref_def)
qed

lemma DCRTPolyImpl_large_ok:
  assumes d: "dcrt_params_ok D L" and f: "bp_format p = COEFFICIENT"
    and v: "length (bp_values p) = 2 ^ L" "\<And>j. j < 2 ^ L \<Longrightarrow> repr (bp_values p ! j) (n j)"
  shows "\<exists>y. DCRTPolyImpl_large p D = Inr y \<and> dc_format y = COEFFICIENT \<and> drep D L (\<lambda>j. int (n j)) y"
proof -
  let ?Ps = "dp_params D"
  have z: "\<exists>z. PolyImpl (Some (?Ps ! i)) COEFFICIENT True = Inr z" if "i < length ?Ps" for i
    using zero_represents [OF dcrt_params_okD(2) [OF d that]] by blast
  obtain zs where zs: "emap (\<lambda>P. PolyImpl (Some P) COEFFICIENT True) ?Ps = Inr zs" "length zs = length ?Ps"
    "\<forall>i < length ?Ps. PolyImpl (Some (?Ps ! i)) COEFFICIENT True = Inr (zs ! i)"
    using emap_nth_Inr [of ?Ps "\<lambda>P. PolyImpl (Some P) COEFFICIENT True" "\<lambda>i z. PolyImpl (Some (?Ps ! i)) COEFFICIENT True = Inr z"] z by auto
  have "\<exists>ts. emap (residues_of p) zs = Inr ts \<and> length ts = length zs \<and>
      (\<forall>i < length zs. m_format (ts ! i) = COEFFICIENT \<and> represents (?Ps ! i) L (\<lambda>j. int (n j)) (ts ! i))"
    by (rule emap_nth_Inr) (use residues_of_ok [OF dcrt_params_okD(2) [OF d] _ v] zs(2,3) in auto)
  then show ?thesis using zs(1,2) f by (auto simp: DCRTPolyImpl_large_def DCRTPolyImpl_def drep_def)
qed

lemma drep_cong:
  assumes "dcrt_params_ok D L" "drep D L a x" "\<And>i. i < 2 ^ L \<Longrightarrow> a i mod int (big_q D) = b i mod int (big_q D)"
  shows "drep D L b x"
proof -
  have "represents (dp_params D ! i) L b (dc_vectors x ! i)" if i: "i < length (dp_params D)" for i
  proof (rule represents_cong [OF drepD(3) [OF assms(2) i]])
    fix j assume j: "j < (2::nat) ^ L"
    have "int (tower_q (dp_params D) i) dvd int (big_q D)" using tower_hat(1) [OF assms(1) i] by simp
    then have "a j mod int (tower_q (dp_params D) i) = b j mod int (tower_q (dp_params D) i)"
      using assms(3) [OF j] by (metis mod_mod_cancel)
    then show "a j mod iu (m_ciphertextModulus (dp_params D ! i)) = b j mod iu (m_ciphertextModulus (dp_params D ! i))"
      by (simp only: tower_q_def)
  qed
  then show ?thesis using assms(2) by (simp add: drep_def)
qed

lemma drep_unique:
  assumes "drep D L a x" "drep D L a y" "dc_format x = dc_format y"
  shows "x = y"
proof -
  have "dc_vectors x ! i = dc_vectors y ! i" if "i < length (dp_params D)" for i
    using represents_unique [of "dp_params D ! i" L a] drepD(3,4) [OF assms(1) that] drepD(3,4) [OF assms(2) that] assms(3) by simp
  then have "dc_vectors x = dc_vectors y" using drepD(2) [OF assms(1)] drepD(2) [OF assms(2)] by (intro nth_equalityI) auto
  then show ?thesis using drepD(1) [OF assms(1)] drepD(1) [OF assms(2)] assms(3) by (cases x; cases y) simp
qed

text \<open>Two sequences that one object represents agree modulo the product of the moduli.\<close>

lemma drep_residue:
  assumes d: "dcrt_params_ok D L" and x: "drep D L a x" "drep D L b x" and f: "dc_format x = COEFFICIENT" and j: "j < 2 ^ L"
  shows "a j mod int (big_q D) = b j mod int (big_q D)"
  unfolding big_q_prod
proof (rule chain_cong [OF rns_chain [OF dcrt_params_okD(1) [OF d]]])
  fix i assume i: "i < length (dp_params D)"
  have "\<exists>e. tower_entry (dc_vectors x ! i) j = Inr e \<and> unat e < unat (m_ciphertextModulus (dp_params D ! i)) \<and>
      iu e = a j mod iu (m_ciphertextModulus (dp_params D ! i))"
    by (rule tower_entry_rep) (use drepD [OF x(1)] i f j in auto)
  moreover have "\<exists>e. tower_entry (dc_vectors x ! i) j = Inr e \<and> unat e < unat (m_ciphertextModulus (dp_params D ! i)) \<and>
      iu e = b j mod iu (m_ciphertextModulus (dp_params D ! i))"
    by (rule tower_entry_rep) (use drepD [OF x(2)] i f j in auto)
  ultimately show "a j mod int (tower_q (dp_params D) i) = b j mod int (tower_q (dp_params D) i)"
    unfolding tower_q_def by auto
qed

end
