(* ===== verification/Rescale.thy ===== *)
theory Rescale
  imports Crt
begin

text \<open>
  Change of modulus, dropping of towers, rescaling by the last modulus (rounded division) and the modulus reduction
  of BGV.
\<close>

subsection \<open>Change of modulus\<close>

text \<open>The representative of least absolute value.\<close>

definition symmetric_mod :: "int \<Rightarrow> nat \<Rightarrow> int" where
  "symmetric_mod a q = centered q (nat (a mod int q))"

lemma symmetric_mod:
  assumes "0 < q"
  shows "symmetric_mod a q mod int q = a mod int q" "2 * \<bar>symmetric_mod a q\<bar> \<le> int q" "int q dvd a - symmetric_mod a q"
proof -
  have r: "0 \<le> a mod int q" "a mod int q < int q" using assms by auto
  show e: "symmetric_mod a q mod int q = a mod int q"
  proof -
    have "int (nat (a mod int q)) = a mod int q" using r by simp
    then show ?thesis by (simp add: symmetric_mod_def centered_def)
  qed
  show "2 * \<bar>symmetric_mod a q\<bar> \<le> int q"
  proof -
    define v where "v = nat (a mod int q)"
    have v: "v < q" using r unfolding v_def by linarith
    have "q < 2 * v \<longleftrightarrow> q div 2 < v" by presburger
    then have "2 * \<bar>centered q v\<bar> \<le> int q" using v unfolding centered_def by (auto split: if_splits)
    then show ?thesis by (simp add: symmetric_mod_def v_def)
  qed
  show "int q dvd a - symmetric_mod a q" using e [symmetric] by (simp add: mod_eq_dvd_iff)
qed

lemma plain_ElemParams:
  assumes "ring_ok R L" "m_bigCiphertextModulus R = 0" "m_bigRootOfUnity R = 0" "unat order = 2 ^ Suc L"
  shows "ElemParams draw order (m_ciphertextModulus R) (m_rootOfUnity R) 0 0 s = Some (Inr (R, s))"
proof -
  note r = ring_okD [OF assms(1)]
  have b: "2 ^ Suc L < (2::nat) ^ 32" using r(4) by (intro power_strict_increasing) auto
  have "unat (ucast order :: u64) = unat (2 ^ Suc L :: u64)" using assms(4) r(4) by (simp only: unat_ucast_32_64) (subst unat_power2, simp_all)
  then have e: "(ucast order :: u64) = 2 ^ Suc L" by (simp only: word_unat_eq_iff)
  have u: "unat (2 ^ L :: u64) = 2 ^ L" by (rule unat_power2) (use r(4) in simp)
  have "unat (ucast (2 ^ L :: u64) :: u32) = 2 ^ L" unfolding u [symmetric] by (rule unat_ucast_32) (use b u in simp)
  then have n: "(ucast (2 ^ L :: u64) :: u32) = m_ringDimension R" using r(6) by (simp only: word_unat_eq_iff)
  have o: "order = m_cyclotomicOrder R" using assms(4) r(5) by (simp only: word_unat_eq_iff)
  have "GetTotient draw (2 ^ Suc L) s = Some (Inr (2 ^ L, s))" by (rule GetTotient_power2) (use r(4) in simp)
  then show ?thesis unfolding ElemParams_def e by (cases R) (use n o assms(2,3) in simp)
qed

lemma Poly_SwitchModulus_represents:
  assumes P: "ring_ok P L" and p: "represents P L a p" and f: "m_format p = COEFFICIENT"
    and R: "ring_ok R L" "m_bigCiphertextModulus R = 0" "m_bigRootOfUnity R = 0"
  shows "\<exists>t. Poly_SwitchModulus draw (m_ciphertextModulus R) (m_rootOfUnity R) 0 0 p s = Some (Inr (t, s)) \<and>
    m_format t = COEFFICIENT \<and> represents R L (\<lambda>i. symmetric_mod (a i) (unat (m_ciphertextModulus P))) t"
proof -
  let ?q = "m_ciphertextModulus P" and ?m = "m_ciphertextModulus R"
  obtain x where x: "p = \<lparr>m_format = m_format p, m_params = Some P, m_values = Some (vec ?q x)\<rparr>"
    "restores ?q (2 ^ L) (slot P L (m_format p) a) x" by (rule representsE [OF p])
  have pv: "m_values p = Some (vec ?q x)" "m_params p = Some P" by (subst x(1), simp)+
  have nv: "nv_ok (vec ?q x)" using restoresD(4) [OF x(2)] barrett_head_room [OF ring_okD(1) [OF P]] by (simp add: nv_ok_def)
  have m: "0 < unat ?m" "unat ?m < 2 ^ 60" using ring_okD(1) [OF R(1)] by (auto simp: barrett_modulus_def)
  obtain w where w: "SwitchModulus (vec ?q x) ?m = Inr w" "m_modulus w = ?m" "nv_ok w" "length (m_data w) = length x"
    "\<forall>i < length x. int (unat (m_data w ! i)) = centered (unat ?q) (unat (x ! i)) mod int (unat ?m)"
    using SwitchModulus_ok [OF nv m] by auto
  have lx: "length x = 2 ^ L" by (rule restoresD(1) [OF x(2)])
  have order: "unat (m_cyclotomicOrder P) = 2 ^ Suc L" by (rule ring_okD(5) [OF P])
  have "restores ?m (2 ^ L) (slot R L COEFFICIENT (\<lambda>i. symmetric_mod (a i) (unat ?q))) (m_data w)"
    unfolding restores_def slot_coeff
  proof (intro conjI allI impI)
    show "length (m_data w) = 2 ^ L" using w(4) lx by simp
    fix i assume i: "i < (2::nat) ^ L"
    show "unat (m_data w ! i) < unat ?m" using w(3,2,4) lx i reduced_nth by (auto simp: nv_ok_def)
    have xi: "iu (x ! i) = a i mod iu ?q" using represents_coefficients [OF p f pv(1) i] by simp
    have "unat (x ! i) = nat (a i mod iu ?q)" using arg_cong [OF xi, of nat] by simp
    then have "int (unat (m_data w ! i)) = symmetric_mod (a i) (unat ?q) mod int (unat ?m)"
      using w(5) lx i by (simp only: symmetric_mod_def)
    then show "int (unat (m_data w ! i)) mod int (unat ?m) = symmetric_mod (a i) (unat ?q) mod int (unat ?m)" by (simp only: mod_mod_trivial)
  qed
  from representsI [OF this] have "represents R L (\<lambda>i. symmetric_mod (a i) (unat ?q))
      \<lparr>m_format = COEFFICIENT, m_params = Some R, m_values = Some (vec ?m (m_data w))\<rparr>" .
  moreover have "w = vec ?m (m_data w)" using w(2) by (cases w) simp
  ultimately show ?thesis
    using w(1) plain_ElemParams [OF R order, of draw s] f x(1)
    by (cases p) (auto simp: Poly_SwitchModulus_def deref_def)
qed

lemma switched_to_rns:
  assumes ps: "rns_ok Ps L" "i < length Ps" and t: "represents (Ps ! i) L b t" and P: "ring_ok P L"
    and p: "represents P L a p" "m_format p = COEFFICIENT"
  shows "\<exists>u. switched_to draw t p s = Some (Inr (u, s)) \<and> m_format u = COEFFICIENT \<and>
    represents (Ps ! i) L (\<lambda>i. symmetric_mod (a i) (unat (m_ciphertextModulus P))) u"
proof -
  have R: "ring_ok (Ps ! i) L" "m_bigCiphertextModulus (Ps ! i) = 0" "m_bigRootOfUnity (Ps ! i) = 0"
    using ps by (auto simp: rns_ok_def)
  have "m_params t = Some (Ps ! i)" using t by (simp add: represents_def)
  then show ?thesis using Poly_SwitchModulus_represents [OF P p R, of draw s] by (simp add: switched_to_def deref_def)
qed

subsection \<open>Dropping the last tower\<close>

lemma Big_DividedByEq_eq: "Big_DividedByEq x b = Big_DividedBy x b"
  by (rule Big_DividedByEq_DividedBy)

lemma PopLastParam_ok:
  assumes d: "dcrt_params_ok D L" and n: "1 < length (dp_params D)"
  shows "\<exists>m. PopLastParam D = Inr (D\<lparr>dp_ciphertextModulus := m, dp_params := butlast (dp_params D)\<rparr>) \<and>
    dcrt_params_ok (D\<lparr>dp_ciphertextModulus := m, dp_params := butlast (dp_params D)\<rparr>) L"
proof -
  let ?Ps = "dp_params D" and ?l = "last (dp_params D)"
  have ne: "?Ps \<noteq> []" using n by auto
  have bl: "?Ps = butlast ?Ps @ [?l]" using ne by simp
  have Q: "big_q D = prod_list (map (\<lambda>P. unat (m_ciphertextModulus P)) (butlast ?Ps)) * unat (m_ciphertextModulus ?l)"
    unfolding big_q_def by (subst bl) simp
  let ?B = "prod_list (map (\<lambda>P. unat (m_ciphertextModulus P)) (butlast ?Ps))"
  have pos: "0 < ?B" "0 < unat (m_ciphertextModulus ?l)" using big_q_pos [OF d] unfolding Q by simp_all
  have r: "repr (dp_ciphertextModulus D) (?B * unat (m_ciphertextModulus ?l))" using d Q by (simp add: dcrt_params_ok_def big_q_def)
  obtain m where m: "Big_DividedBy (dp_ciphertextModulus D) (ubint_of_limb (m_ciphertextModulus ?l)) = Inr m" "repr m ?B"
    using repr_DividedBy_le [OF r repr_limb [of "m_ciphertextModulus ?l"] pos(2)] pos by auto
  have "butlast ?Ps \<noteq> []" using n by (simp flip: length_greater_0_conv)
  then have "rns_ok (butlast ?Ps) L"
    using dcrt_params_okD(1) [OF d] n unfolding rns_ok_def by (auto simp: tower_q_def nth_butlast in_set_butlastD)
  then have "dcrt_params_ok (D\<lparr>dp_ciphertextModulus := m, dp_params := butlast ?Ps\<rparr>) L"
    using d m(2) by (simp add: dcrt_params_ok_def)
  then show ?thesis using m(1) ne by (auto simp: PopLastParam_def Big_DividedByEq_eq)
qed

lemma butlast_drep:
  assumes "drep D L a x" "0 < length (dp_params D)" "dp_params D' = butlast (dp_params D)"
  shows "drep D' L a (x\<lparr>dc_params := D', dc_vectors := take (length (dc_vectors x) - 1) (dc_vectors x)\<rparr>)"
  using assms by (auto simp: drep_def nth_butlast)

lemma DropLastElement_ok:
  assumes d: "dcrt_params_ok D L" and x: "drep D L a x" and n: "1 < length (dp_params D)"
  obtains m where "DropLastElement x = Inr (x\<lparr>dc_params := D\<lparr>dp_ciphertextModulus := m, dp_params := butlast (dp_params D)\<rparr>,
      dc_vectors := take (length (dc_vectors x) - 1) (dc_vectors x)\<rparr>)"
    "dcrt_params_ok (D\<lparr>dp_ciphertextModulus := m, dp_params := butlast (dp_params D)\<rparr>) L"
    "drep (D\<lparr>dp_ciphertextModulus := m, dp_params := butlast (dp_params D)\<rparr>) L a
      (x\<lparr>dc_params := D\<lparr>dp_ciphertextModulus := m, dp_params := butlast (dp_params D)\<rparr>,
        dc_vectors := take (length (dc_vectors x) - 1) (dc_vectors x)\<rparr>)"
proof -
  have ne: "dp_params D \<noteq> []" using n by auto
  obtain m where m: "PopLastParam D = Inr (D\<lparr>dp_ciphertextModulus := m, dp_params := butlast (dp_params D)\<rparr>)"
    "dcrt_params_ok (D\<lparr>dp_ciphertextModulus := m, dp_params := butlast (dp_params D)\<rparr>) L" using PopLastParam_ok [OF d n] by blast
  show ?thesis
  proof (rule that [of m])
    show "drep (D\<lparr>dp_ciphertextModulus := m, dp_params := butlast (dp_params D)\<rparr>) L a
      (x\<lparr>dc_params := D\<lparr>dp_ciphertextModulus := m, dp_params := butlast (dp_params D)\<rparr>,
        dc_vectors := take (length (dc_vectors x) - 1) (dc_vectors x)\<rparr>)"
      by (rule butlast_drep [OF x]) (use n in auto)
  qed (use m n ne drepD(1,2) [OF x] in \<open>simp_all add: DropLastElement_def\<close>)
qed

lemma last_tower_drep:
  assumes d: "dcrt_params_ok D L" and x: "drep D L a x"
  shows "last_tower x = Inr (last (dc_vectors x))" "represents (last (dp_params D)) L a (last (dc_vectors x))"
    "m_format (last (dc_vectors x)) = dc_format x" "ring_ok (last (dp_params D)) L" "last (dp_params D) = dp_params D ! (length (dp_params D) - 1)"
    "length (dp_params D) - 1 < length (dp_params D)"
proof -
  have n: "0 < length (dp_params D)" by (rule dcrt_params_okD(3) [OF d])
  note xd = drepD [OF x]
  have l: "last (dc_vectors x) = dc_vectors x ! (length (dp_params D) - 1)" "last (dp_params D) = dp_params D ! (length (dp_params D) - 1)"
    using n xd(2) by (simp_all add: last_conv_nth flip: length_greater_0_conv)
  show "last_tower x = Inr (last (dc_vectors x))" using n xd(2) by (auto simp: last_tower_def)
  show "represents (last (dp_params D)) L a (last (dc_vectors x))" "m_format (last (dc_vectors x)) = dc_format x"
    "ring_ok (last (dp_params D)) L" unfolding l using xd(3,4) n dcrt_params_okD(2) [OF d] by simp_all
  show "last (dp_params D) = dp_params D ! (length (dp_params D) - 1)" by (rule l(2))
  show "length (dp_params D) - 1 < length (dp_params D)" using n by simp
qed

subsection \<open>Rescaling\<close>

lemma rescale_residue:
  fixes m ql c t a r b :: int
  assumes "m dvd ql * c - 1" "m dvd ql * t + 1" "a - r = ql * b"
  shows "(a * c + r * t) mod m = b mod m"
proof -
  have "a * c + r * t - b = r * (c * (ql * t + 1) - t * (ql * c - 1)) + b * (ql * c - 1)"
  proof -
    have a: "a = r + ql * b" using assms(3) by simp
    show ?thesis unfolding a by (simp add: algebra_simps)
  qed
  moreover have "m dvd r * (c * (ql * t + 1) - t * (ql * c - 1)) + b * (ql * c - 1)"
    by (rule dvd_add [OF dvd_mult [OF dvd_diff [OF dvd_mult [OF assms(2)] dvd_mult [OF assms(1)]]] dvd_mult [OF assms(1)]])
  ultimately show ?thesis by (simp only: mod_eq_dvd_iff)
qed

text \<open>The number divided by the last modulus and rounded to the nearest integer.\<close>

definition rounded_quotient_by :: "nat \<Rightarrow> int \<Rightarrow> int" where
  "rounded_quotient_by q a = (a - symmetric_mod a q) div int q"

lemma rounded_quotient_by:
  assumes "0 < q"
  shows "a - symmetric_mod a q = int q * rounded_quotient_by q a" "2 * \<bar>a - int q * rounded_quotient_by q a\<bar> \<le> int q"
proof -
  show e: "a - symmetric_mod a q = int q * rounded_quotient_by q a"
    unfolding rounded_quotient_by_def using symmetric_mod(3) [OF assms] by simp
  have "a - int q * rounded_quotient_by q a = symmetric_mod a q" using e by simp
  then show "2 * \<bar>a - int q * rounded_quotient_by q a\<bar> \<le> int q" using symmetric_mod(2) [OF assms] by simp
qed

text \<open>
  What the precomputed tables of rescaling have to satisfy for the last modulus \<open>q\<^sub>l\<close>: the entries of the first are
  the negated inverses of \<open>q\<^sub>l\<close>, those of the second the inverses.
\<close>

definition rescale_tables :: "elem_params list \<Rightarrow> u64 list \<Rightarrow> u64 list \<Rightarrow> bool" where
  "rescale_tables Ps T C \<longleftrightarrow> length Ps - 1 \<le> length T \<and> length Ps - 1 \<le> length C \<and>
     (\<forall>i < length Ps - 1. int (tower_q Ps i) dvd int (tower_q Ps (length Ps - 1)) * iu (T ! i) + 1 \<and>
       int (tower_q Ps i) dvd int (tower_q Ps (length Ps - 1)) * iu (C ! i) - 1)"

lemma rescale_tower_ok:
  assumes ps: "rns_ok Ps L" and i: "i < length Ps - 1" and T: "rescale_tables Ps T C"
    and t: "represents (Ps ! i) L a t" "m_format t = fmt"
    and l: "represents (Ps ! (length Ps - 1)) L a l" "m_format l = COEFFICIENT" and cs: "towers_cached Ps L cs"
  shows "\<exists>u cs'. rescale_tower draw fmt T C l i t cs s = Some (Inr ((u, cs'), s)) \<and> towers_cached Ps L cs' \<and>
    m_format u = EVALUATION \<and> represents (Ps ! i) L (\<lambda>j. rounded_quotient_by (tower_q Ps (length Ps - 1)) (a j)) u"
proof -
  let ?P = "Ps ! i" and ?ql = "tower_q Ps (length Ps - 1)" and ?m = "iu (m_ciphertextModulus (Ps ! i))"
  have i': "i < length Ps" "length Ps - 1 < length Ps" using i by auto
  note P = rns_okD(1) [OF ps i'(1)] and Pl = rns_okD(1) [OF ps i'(2)]
  have ql: "0 < ?ql" using rns_okD(2) [OF ps i'(2)] by simp
  have qle: "unat (m_ciphertextModulus (Ps ! (length Ps - 1))) = ?ql" by (simp add: tower_q_def)
  obtain u1 where u1: "switched_to draw t l s = Some (Inr (u1, s))" "m_format u1 = COEFFICIENT"
    "represents ?P L (\<lambda>j. symmetric_mod (a j) ?ql) u1"
    using switched_to_rns [OF ps i'(1) t(1) Pl l, of draw s] unfolding qle by blast
  obtain u2 where u2: "Poly_TimesEq_s u1 (T ! i) = Inr u2" "m_format u2 = COEFFICIENT"
    "represents ?P L (\<lambda>j. symmetric_mod (a j) ?ql * iu (T ! i)) u2"
    using Poly_Times_s_represents [OF P u1(3), of "T ! i"] u1(2) by auto
  have "\<exists>u3 cs3. (if fmt = EVALUATION then SwitchFormat draw u2 cs s else Some (Inr ((u2, cs), s))) = Some (Inr ((u3, cs3), s)) \<and>
      towers_cached Ps L cs3 \<and> m_format u3 = fmt \<and> represents ?P L (\<lambda>j. symmetric_mod (a j) ?ql * iu (T ! i)) u3"
  proof (cases fmt)
    case EVALUATION
    from tower_SwitchFormat [OF ps i'(1) u2(3) cs, of draw s] obtain u3 cs3 where
      "SwitchFormat draw u2 cs s = Some (Inr ((u3, cs3), s))" "towers_cached Ps L cs3" "m_format u3 \<noteq> m_format u2"
      "represents ?P L (\<lambda>j. symmetric_mod (a j) ?ql * iu (T ! i)) u3" by (elim exE conjE) (rule that)
    moreover have "m_format u3 = EVALUATION" using \<open>m_format u3 \<noteq> m_format u2\<close> u2(2) by (cases "m_format u3") auto
    ultimately show ?thesis using EVALUATION by simp
  qed (use u2 cs in simp)
  then obtain u3 cs3 where u3: "(if fmt = EVALUATION then SwitchFormat draw u2 cs s else Some (Inr ((u2, cs), s))) = Some (Inr ((u3, cs3), s))"
    "towers_cached Ps L cs3" "m_format u3 = fmt" "represents ?P L (\<lambda>j. symmetric_mod (a j) ?ql * iu (T ! i)) u3"
    by (elim exE conjE) (rule that)
  obtain t1 where t1: "Poly_TimesEq_s t (C ! i) = Inr t1" "m_format t1 = fmt" "represents ?P L (\<lambda>j. a j * iu (C ! i)) t1"
    using Poly_Times_s_represents [OF P t(1), of "C ! i"] t(2) by auto
  have f: "m_format t1 = m_format u3" using t1(2) u3(3) by simp
  obtain t2 where t2: "Poly_PlusEq t1 u3 = Inr t2" "m_format t2 = fmt"
    "represents ?P L (\<lambda>j. a j * iu (C ! i) + symmetric_mod (a j) ?ql * iu (T ! i)) t2"
    using Poly_Plus_represents [OF P t1(3) u3(4) f] t1(2) by auto
  have rq: "represents ?P L (\<lambda>j. rounded_quotient_by ?ql (a j)) t2"
  proof (rule represents_cong [OF t2(3)])
    fix j assume "j < (2::nat) ^ L"
    show "(a j * iu (C ! i) + symmetric_mod (a j) ?ql * iu (T ! i)) mod ?m = rounded_quotient_by ?ql (a j) mod ?m"
      using T i by (intro rescale_residue [of _ "int ?ql"] rounded_quotient_by(1) [OF ql]) (auto simp: rescale_tables_def tower_q_def)
  qed
  have tables: "get_at T i = Inr (T ! i)" "get_at C i = Inr (C ! i)" using T i by (auto simp: rescale_tables_def get_at_def)
  have step: "rescale_tower draw fmt T C l i t cs s =
      (if fmt = COEFFICIENT then SwitchFormat draw t2 cs3 s else Some (Inr ((t2, cs3), s)))"
    using u1(1) u2(1) u3(1) t1(1) t2(1) by (simp add: rescale_tower_def tables)
  show ?thesis
  proof (cases fmt)
    case COEFFICIENT
    from tower_SwitchFormat [OF ps i'(1) rq u3(2), of draw s] obtain u cs' where
      u: "SwitchFormat draw t2 cs3 s = Some (Inr ((u, cs'), s))" "towers_cached Ps L cs'" "m_format u \<noteq> m_format t2"
      "represents ?P L (\<lambda>j. rounded_quotient_by ?ql (a j)) u" by (elim exE conjE) (rule that)
    have "m_format u = EVALUATION" using u(3) t2(2) COEFFICIENT by (cases "m_format u") auto
    then show ?thesis using step u COEFFICIENT by simp
  next
    case EVALUATION
    then show ?thesis using step t2(2) rq u3(2) by simp
  qed
qed

lemma DropLastElementAndScale_ok:
  assumes d: "dcrt_params_ok D L" and x: "drep D L a x" and n: "1 < length (dp_params D)"
    and T: "rescale_tables (dp_params D) T C" and cs: "towers_cached (dp_params D) L cs"
  shows "\<exists>y cs' D'. DropLastElementAndScale draw T C x cs s = Some (Inr ((y, cs'), s)) \<and> towers_cached (dp_params D) L cs' \<and>
    dcrt_params_ok D' L \<and> dp_params D' = butlast (dp_params D) \<and> dc_format y = dc_format x \<and>
    drep D' L (\<lambda>j. rounded_quotient_by (tower_q (dp_params D) (length (dp_params D) - 1)) (a j)) (y\<lparr>dc_format := EVALUATION\<rparr>)"
proof -
  let ?Ps = "dp_params D" and ?n = "length (dp_params D) - 1"
  let ?b = "\<lambda>j. rounded_quotient_by (tower_q ?Ps ?n) (a j)"
  note ps = dcrt_params_okD(1) [OF d] and lt = last_tower_drep [OF d x]
  from tower_SetFormat [OF ps lt(6) lt(2) [unfolded lt(5)] cs, of draw COEFFICIENT s] obtain l cs1 where
    l: "SetFormat draw COEFFICIENT (last (dc_vectors x)) cs s = Some (Inr ((l, cs1), s))" "towers_cached ?Ps L cs1"
    "m_format l = COEFFICIENT" "represents (?Ps ! ?n) L a l" by (elim exE conjE) (rule that)
  obtain m where m: "DropLastElement x = Inr (x\<lparr>dc_params := D\<lparr>dp_ciphertextModulus := m, dp_params := butlast ?Ps\<rparr>,
      dc_vectors := take (length (dc_vectors x) - 1) (dc_vectors x)\<rparr>)"
    "dcrt_params_ok (D\<lparr>dp_ciphertextModulus := m, dp_params := butlast ?Ps\<rparr>) L" by (rule DropLastElement_ok [OF d x n])
  let ?D' = "D\<lparr>dp_ciphertextModulus := m, dp_params := butlast ?Ps\<rparr>" and ?ts = "take (length (dc_vectors x) - 1) (dc_vectors x)"
  note xd = drepD [OF x]
  have "\<exists>us cs'. each_tower_run (rescale_tower draw (dc_format x) T C l) (length ?ts) ?ts cs1 s = Some (Inr ((us, cs'), s)) \<and>
      towers_cached ?Ps L cs' \<and> length us = length ?ts \<and>
      (\<forall>i < length ?ts. m_format (us ! i) = EVALUATION \<and> represents (?Ps ! i) L ?b (us ! i)) \<and> (\<forall>i \<ge> length ?ts. us ! i = ?ts ! i)"
  proof (rule each_tower_run_Inr [where C = "towers_cached ?Ps L"])
    fix i cs assume i: "i < length ?ts" and cs: "towers_cached ?Ps L cs"
    then have i': "i < ?n" "i < length ?Ps" using xd(2) by auto
    have t: "represents (?Ps ! i) L a (?ts ! i)" "m_format (?ts ! i) = dc_format x" using xd(3,4) i i' by auto
    show "\<exists>t cs'. rescale_tower draw (dc_format x) T C l i (?ts ! i) cs s = Some (Inr ((t, cs'), s)) \<and> towers_cached ?Ps L cs' \<and>
        m_format t = EVALUATION \<and> represents (?Ps ! i) L ?b t"
      by (rule rescale_tower_ok [OF ps i'(1) T t l(4,3) cs])
  qed (use l(2) in auto)
  then obtain us cs' where us: "each_tower_run (rescale_tower draw (dc_format x) T C l) (length ?ts) ?ts cs1 s = Some (Inr ((us, cs'), s))"
    "towers_cached ?Ps L cs'" "length us = length ?ts" "\<forall>i < length ?ts. m_format (us ! i) = EVALUATION \<and> represents (?Ps ! i) L ?b (us ! i)"
    by (elim exE conjE) (rule that)
  let ?y = "x\<lparr>dc_params := ?D', dc_vectors := us\<rparr>"
  have "DropLastElementAndScale draw T C x cs s = Some (Inr ((?y, cs'), s))"
    using l(1) m(1) us(1) by (simp add: DropLastElementAndScale_def lt(1))
  moreover have "drep ?D' L ?b (?y\<lparr>dc_format := EVALUATION\<rparr>)"
    using us(3,4) xd(2) n by (auto simp: drep_def nth_butlast)
  ultimately show ?thesis using us(2) m(2) by (intro exI [of _ ?y] exI [of _ cs'] exI [of _ ?D']) simp
qed

subsection \<open>Modulus reduction of BGV\<close>

text \<open>
  The number plus the multiple of \<open>t\<close> that makes it divisible by the last modulus, divided by it; \<open>u\<close> is the negated
  inverse of \<open>t\<close>.
\<close>

definition bgv_quotient :: "nat \<Rightarrow> int \<Rightarrow> int \<Rightarrow> int \<Rightarrow> int" where
  "bgv_quotient q t u a = (a + t * symmetric_mod (a * u) q) div int q"

lemma bgv_quotient:
  assumes q: "0 < q" and u: "int q dvd t * u + 1"
  shows "int q * bgv_quotient q t u a = a + t * symmetric_mod (a * u) q"
    "(int q * bgv_quotient q t u a) mod t = a mod t"
    "2 * \<bar>int q * bgv_quotient q t u a - a\<bar> \<le> \<bar>t\<bar> * int q"
proof -
  let ?d = "symmetric_mod (a * u) q"
  have "int q dvd a * u - ?d" by (rule symmetric_mod(3) [OF q])
  then have "int q dvd t * (a * u - ?d)" by (rule dvd_mult)
  moreover have "int q dvd a * (t * u + 1)" using u by (rule dvd_mult)
  ultimately have "int q dvd a * (t * u + 1) - t * (a * u - ?d)" by (rule dvd_diff [rotated])
  moreover have "a * (t * u + 1) - t * (a * u - ?d) = a + t * ?d" by (simp add: algebra_simps)
  ultimately have d: "int q dvd a + t * ?d" by simp
  show e: "int q * bgv_quotient q t u a = a + t * ?d" unfolding bgv_quotient_def using d by simp
  show "(int q * bgv_quotient q t u a) mod t = a mod t" unfolding e by simp
  have "2 * \<bar>t * ?d\<bar> = \<bar>t\<bar> * (2 * \<bar>?d\<bar>)" by (simp add: abs_mult)
  also have "\<dots> \<le> \<bar>t\<bar> * int q" by (rule mult_left_mono [OF symmetric_mod(2) [OF q]]) simp
  finally show "2 * \<bar>int q * bgv_quotient q t u a - a\<bar> \<le> \<bar>t\<bar> * int q" unfolding e by simp
qed

definition reduce_tables :: "elem_params list \<Rightarrow> u64 \<Rightarrow> u64 \<Rightarrow> u64 list \<Rightarrow> bool" where
  "reduce_tables Ps t u C \<longleftrightarrow> length Ps - 1 \<le> length C \<and>
     int (tower_q Ps (length Ps - 1)) dvd iu t * iu u + 1 \<and>
     (\<forall>i < length Ps - 1. int (tower_q Ps i) dvd int (tower_q Ps (length Ps - 1)) * iu (C ! i) - 1)"

lemma reduce_residue:
  fixes m ql c t a d b :: int
  assumes "m dvd ql * c - 1" "ql * b = a + t * d"
  shows "((a + d * t) * c) mod m = b mod m"
proof -
  have "(a + d * t) * c - b = b * (ql * c - 1)"
  proof -
    have "a + d * t = ql * b" using assms(2) by (simp only: mult.commute)
    then show ?thesis by (simp add: algebra_simps)
  qed
  moreover have "m dvd b * (ql * c - 1)" by (rule dvd_mult [OF assms(1)])
  ultimately show ?thesis by (simp only: mod_eq_dvd_iff)
qed

lemma reduce_tower_ok:
  assumes ps: "rns_ok Ps L" and i: "i < length Ps - 1" and T: "reduce_tables Ps t u C"
    and v: "represents (Ps ! i) L a v" "m_format v = fmt"
    and l: "represents (Ps ! (length Ps - 1)) L (\<lambda>j. a j * iu u) l" "m_format l = COEFFICIENT" and cs: "towers_cached Ps L cs"
  shows "\<exists>w cs'. reduce_tower draw fmt t C l i v cs s = Some (Inr ((w, cs'), s)) \<and> towers_cached Ps L cs' \<and>
    m_format w = fmt \<and> represents (Ps ! i) L (\<lambda>j. bgv_quotient (tower_q Ps (length Ps - 1)) (iu t) (iu u) (a j)) w"
proof -
  let ?P = "Ps ! i" and ?ql = "tower_q Ps (length Ps - 1)" and ?m = "iu (m_ciphertextModulus (Ps ! i))"
  let ?d = "\<lambda>j. symmetric_mod (a j * iu u) ?ql"
  have i': "i < length Ps" "length Ps - 1 < length Ps" using i by auto
  note P = rns_okD(1) [OF ps i'(1)] and Pl = rns_okD(1) [OF ps i'(2)]
  have ql: "0 < ?ql" using rns_okD(2) [OF ps i'(2)] by simp
  have qle: "unat (m_ciphertextModulus (Ps ! (length Ps - 1))) = ?ql" by (simp add: tower_q_def)
  obtain u1 where u1: "switched_to draw v l s = Some (Inr (u1, s))" "m_format u1 = COEFFICIENT" "represents ?P L ?d u1"
    using switched_to_rns [OF ps i'(1) v(1) Pl l, of draw s] unfolding qle by blast
  have "\<exists>u3 cs3. (if fmt = EVALUATION then SwitchFormat draw u1 cs s else Some (Inr ((u1, cs), s))) = Some (Inr ((u3, cs3), s)) \<and>
      towers_cached Ps L cs3 \<and> m_format u3 = fmt \<and> represents ?P L ?d u3"
  proof (cases fmt)
    case EVALUATION
    from tower_SwitchFormat [OF ps i'(1) u1(3) cs, of draw s] obtain u3 cs3 where
      "SwitchFormat draw u1 cs s = Some (Inr ((u3, cs3), s))" "towers_cached Ps L cs3" "m_format u3 \<noteq> m_format u1"
      "represents ?P L ?d u3" by (elim exE conjE) (rule that)
    moreover have "m_format u3 = EVALUATION" using \<open>m_format u3 \<noteq> m_format u1\<close> u1(2) by (cases "m_format u3") auto
    ultimately show ?thesis using EVALUATION by simp
  qed (use u1 cs in simp)
  then obtain u3 cs3 where u3: "(if fmt = EVALUATION then SwitchFormat draw u1 cs s else Some (Inr ((u1, cs), s))) = Some (Inr ((u3, cs3), s))"
    "towers_cached Ps L cs3" "m_format u3 = fmt" "represents ?P L ?d u3" by (elim exE conjE) (rule that)
  obtain u4 where u4: "Poly_TimesEq_s u3 t = Inr u4" "m_format u4 = fmt" "represents ?P L (\<lambda>j. ?d j * iu t) u4"
    using Poly_Times_s_represents [OF P u3(4), of t] u3(3) by auto
  have f: "m_format v = m_format u4" using v(2) u4(2) by simp
  obtain v1 where v1: "Poly_PlusEq v u4 = Inr v1" "m_format v1 = fmt" "represents ?P L (\<lambda>j. a j + ?d j * iu t) v1"
    using Poly_Plus_represents [OF P v(1) u4(3) f] v(2) by auto
  obtain w where w: "Poly_TimesEq_s v1 (C ! i) = Inr w" "m_format w = fmt" "represents ?P L (\<lambda>j. (a j + ?d j * iu t) * iu (C ! i)) w"
    using Poly_Times_s_represents [OF P v1(3), of "C ! i"] v1(2) by auto
  have "represents ?P L (\<lambda>j. bgv_quotient ?ql (iu t) (iu u) (a j)) w"
  proof (rule represents_cong [OF w(3)])
    fix j assume "j < (2::nat) ^ L"
    show "((a j + ?d j * iu t) * iu (C ! i)) mod ?m = bgv_quotient ?ql (iu t) (iu u) (a j) mod ?m"
      by (rule reduce_residue [of _ "int ?ql"], use T i in \<open>force simp: reduce_tables_def tower_q_def\<close>)
        (rule bgv_quotient(1) [OF ql], use T in \<open>simp add: reduce_tables_def\<close>)
  qed
  moreover have "get_at C i = Inr (C ! i)" using T i by (auto simp: reduce_tables_def get_at_def)
  ultimately show ?thesis using u1(1) u3(1,2) u4(1) v1(1) w(1,2) by (simp add: reduce_tower_def)
qed

lemma ModReduce_ok:
  assumes d: "dcrt_params_ok D L" and x: "drep D L a x" and n: "1 < length (dp_params D)"
    and T: "reduce_tables (dp_params D) t u C" and cs: "towers_cached (dp_params D) L cs"
  shows "\<exists>y cs' D'. ModReduce draw t u C x cs s = Some (Inr ((y, cs'), s)) \<and> towers_cached (dp_params D) L cs' \<and>
    dcrt_params_ok D' L \<and> dp_params D' = butlast (dp_params D) \<and> dc_format y = dc_format x \<and>
    drep D' L (\<lambda>j. bgv_quotient (tower_q (dp_params D) (length (dp_params D) - 1)) (iu t) (iu u) (a j)) y"
proof -
  let ?Ps = "dp_params D" and ?n = "length (dp_params D) - 1"
  let ?b = "\<lambda>j. bgv_quotient (tower_q ?Ps ?n) (iu t) (iu u) (a j)"
  note ps = dcrt_params_okD(1) [OF d] and lt = last_tower_drep [OF d x]
  from tower_SetFormat [OF ps lt(6) lt(2) [unfolded lt(5)] cs, of draw COEFFICIENT s] obtain l0 cs1 where
    l0: "SetFormat draw COEFFICIENT (last (dc_vectors x)) cs s = Some (Inr ((l0, cs1), s))" "towers_cached ?Ps L cs1"
    "m_format l0 = COEFFICIENT" "represents (?Ps ! ?n) L a l0" by (elim exE conjE) (rule that)
  obtain l where l: "Poly_TimesEq_s l0 u = Inr l" "m_format l = COEFFICIENT" "represents (?Ps ! ?n) L (\<lambda>j. a j * iu u) l"
    using Poly_Times_s_represents [OF rns_okD(1) [OF ps lt(6)] l0(4), of u] l0(3) by auto
  obtain m where m: "DropLastElement x = Inr (x\<lparr>dc_params := D\<lparr>dp_ciphertextModulus := m, dp_params := butlast ?Ps\<rparr>,
      dc_vectors := take (length (dc_vectors x) - 1) (dc_vectors x)\<rparr>)"
    "dcrt_params_ok (D\<lparr>dp_ciphertextModulus := m, dp_params := butlast ?Ps\<rparr>) L" by (rule DropLastElement_ok [OF d x n])
  let ?D' = "D\<lparr>dp_ciphertextModulus := m, dp_params := butlast ?Ps\<rparr>" and ?ts = "take (length (dc_vectors x) - 1) (dc_vectors x)"
  note xd = drepD [OF x]
  have "\<exists>us cs'. each_tower_run (reduce_tower draw (dc_format x) t C l) (length ?ts) ?ts cs1 s = Some (Inr ((us, cs'), s)) \<and>
      towers_cached ?Ps L cs' \<and> length us = length ?ts \<and>
      (\<forall>i < length ?ts. m_format (us ! i) = dc_format x \<and> represents (?Ps ! i) L ?b (us ! i)) \<and> (\<forall>i \<ge> length ?ts. us ! i = ?ts ! i)"
  proof (rule each_tower_run_Inr [where C = "towers_cached ?Ps L"])
    fix i cs assume i: "i < length ?ts" and cs: "towers_cached ?Ps L cs"
    then have i': "i < ?n" "i < length ?Ps" using xd(2) by auto
    have t: "represents (?Ps ! i) L a (?ts ! i)" "m_format (?ts ! i) = dc_format x" using xd(3,4) i i' by auto
    show "\<exists>w cs'. reduce_tower draw (dc_format x) t C l i (?ts ! i) cs s = Some (Inr ((w, cs'), s)) \<and> towers_cached ?Ps L cs' \<and>
        m_format w = dc_format x \<and> represents (?Ps ! i) L ?b w"
      by (rule reduce_tower_ok [OF ps i'(1) T t l(3,2) cs])
  qed (use l0(2) in auto)
  then obtain us cs' where us: "each_tower_run (reduce_tower draw (dc_format x) t C l) (length ?ts) ?ts cs1 s = Some (Inr ((us, cs'), s))"
    "towers_cached ?Ps L cs'" "length us = length ?ts" "\<forall>i < length ?ts. m_format (us ! i) = dc_format x \<and> represents (?Ps ! i) L ?b (us ! i)"
    by (elim exE conjE) (rule that)
  let ?y = "x\<lparr>dc_params := ?D', dc_vectors := us\<rparr>"
  have "ModReduce draw t u C x cs s = Some (Inr ((?y, cs'), s))"
    using l0(1) l(1) m(1) us(1) by (simp add: ModReduce_def lt(1))
  moreover have "drep ?D' L ?b ?y" using us(3,4) xd(2) n by (auto simp: drep_def nth_butlast)
  ultimately show ?thesis using us(2) m(2) by (intro exI [of _ ?y] exI [of _ cs'] exI [of _ ?D']) simp
qed

end
