(* ===== verification/BaseConv.thy ===== *)
theory BaseConv
  imports Rescale
begin

text \<open>
  Conversion between bases of moduli: the reduction of double words (\<open>utils/utilities-int.h\<close>) and the
  approximate conversion.
\<close>

subsection \<open>Reduction of double words\<close>

definition Mul128 :: "u64 \<Rightarrow> u64 \<Rightarrow> u128" where
  "Mul128 a b = ucast a * ucast b"

definition IsAdditionOverflow :: "u64 \<Rightarrow> u64 \<Rightarrow> u64" where
  "IsAdditionOverflow a b = (if a + b < b then 1 else 0)"

text \<open>The carry, and the sum that the reference parameter receives.\<close>

definition AdditionWithCarryOut :: "u64 \<Rightarrow> u64 \<Rightarrow> u64 \<times> u64" where
  "AdditionWithCarryOut a b = (let c = a + b in (if c < b then 1 else 0, c))"

text \<open>\<open>while (result >= modulus) result -= modulus\<close>, which does not end for modulus zero.\<close>

function subtract_loop :: "u64 \<Rightarrow> u64 \<Rightarrow> u64 res" where
  "subtract_loop result modulus =
     (if modulus = 0 then Inl Diverges
      else if result \<ge> modulus then subtract_loop (result - modulus) modulus else Inr result)"
  by pat_completeness auto
termination
proof (relation "measure (\<lambda>(result, modulus). unat result)", goal_cases)
  case (2 result modulus)
  then have "0 < unat modulus" "unat modulus \<le> unat result" by (auto simp: word_le_nat_alt unat_gt_0)
  then show ?case by (simp add: unat_sub_small)
qed simp

declare subtract_loop.simps [simp del]

definition BarrettUint128ModUint64 :: "u128 \<Rightarrow> u64 \<Rightarrow> u128 \<Rightarrow> u64 res" where
  "BarrettUint128ModUint64 a modulus mu =
     (let a_lo = ucast a; a_hi = ucast (drop_bit 64 a); mu_lo = ucast mu; mu_hi = ucast (drop_bit 64 mu);
          left_hi = ucast (drop_bit 64 (Mul128 a_lo mu_lo));
          middle = Mul128 a_lo mu_hi; middle_lo = ucast middle; middle_hi = ucast (drop_bit 64 middle);
          (carry, tmp1) = AdditionWithCarryOut middle_lo left_hi;
          tmp2 = middle_hi + carry;
          middle = Mul128 a_hi mu_lo; middle_lo = ucast middle; middle_hi = ucast (drop_bit 64 middle);
          carry = IsAdditionOverflow middle_lo tmp1;
          left_hi = middle_hi + carry;
          tmp1 = a_hi * mu_hi + tmp2 + left_hi
      in subtract_loop (a_lo - tmp1 * modulus) modulus)"

lemma subtract_loop_mod: "0 < unat m \<Longrightarrow> subtract_loop r m = Inr (r mod m)"
proof (induction r m rule: subtract_loop.induct)
  case (1 r m)
  show ?case
  proof (cases "m \<le> r")
    case True
    then have le: "unat m \<le> unat r" by (simp add: word_le_nat_alt)
    have "unat ((r - m) mod m) = unat (r mod m)" using le True by (simp add: unat_mod unat_sub le_mod_geq)
    then have "(r - m) mod m = r mod m" by (simp only: word_unat_eq_iff)
    then show ?thesis using 1 True by (subst subtract_loop.simps) (auto simp: unat_gt_0)
  next
    case False
    then have "unat (r mod m) = unat r" by (simp add: unat_mod word_le_nat_alt)
    then have "r mod m = r" by (simp only: word_unat_eq_iff)
    then show ?thesis using 1(2) False by (subst subtract_loop.simps) (auto simp: unat_gt_0)
  qed
qed

lemma unat_Mul128: "unat (Mul128 a b) = unat a * unat b"
  unfolding Mul128_def by (rule unat_mult_ucast)

text \<open>The halves of a double word, and of a product.\<close>

lemma halves_128: "unat (a :: u128) = unat (ucast a :: u64) + 2 ^ 64 * unat (ucast (drop_bit 64 a) :: u64)"
proof -
  have "unat (drop_bit 64 a) < 2 ^ 64"
    using unat_less_128 [of a] by (simp only: unat_drop_bit) (simp add: less_mult_imp_div_less)
  then have "unat (ucast (drop_bit 64 a) :: u64) = unat a div 2 ^ 64" by (simp only: unat_ucast_64 unat_drop_bit mod_less)
  then show ?thesis by (simp only: unat_ucast_64 mod_mult_div_eq)
qed

lemma add_carry: "unat (c :: u64) + 2 ^ 64 * (if a + b < b then 1 else 0) = unat a + unat b" if "c = a + b" for a b :: u64
proof (cases "unat a + unat b < 2 ^ 64")
  case True
  then have "unat (a + b) = unat a + unat b" by (rule unat_add_small)
  then show ?thesis using that by (simp add: word_less_nat_alt)
next
  case False
  have "unat (a + b) = (unat a + unat b) mod 2 ^ 64" by (simp add: unat_word_ariths(1))
  also have "\<dots> = unat a + unat b - 2 ^ 64"
    using False unat_less_64 [of a] unat_less_64 [of b] by (subst le_mod_geq) (auto simp: mod_less)
  finally have "unat (a + b) = unat a + unat b - 2 ^ 64" .
  moreover from this have "a + b < b" using False unat_less_64 [of a] by (simp add: word_less_nat_alt)
  ultimately show ?thesis using that False by simp
qed

lemma barrett_high_word:
  fixes a mu :: u128 and a_lo a_hi mu_lo mu_hi left_hi m1_lo m1_hi m2_lo m2_hi tmp c1 c2 :: u64
  assumes "a_lo = ucast a" "a_hi = ucast (drop_bit 64 a)" "mu_lo = ucast mu" "mu_hi = ucast (drop_bit 64 mu)"
    and "left_hi = ucast (drop_bit 64 (Mul128 a_lo mu_lo))"
    and "m1_lo = ucast (Mul128 a_lo mu_hi)" "m1_hi = ucast (drop_bit 64 (Mul128 a_lo mu_hi))"
    and "m2_lo = ucast (Mul128 a_hi mu_lo)" "m2_hi = ucast (drop_bit 64 (Mul128 a_hi mu_lo))"
    and "tmp = m1_lo + left_hi" "c1 = (if m1_lo + left_hi < left_hi then 1 else 0)"
    and "c2 = (if m2_lo + tmp < tmp then 1 else 0)"
  shows "unat (a_hi * mu_hi + (m1_hi + c1) + (m2_hi + c2)) = (unat a * unat mu div 2 ^ 128) mod 2 ^ 64"
proof -
  let ?w = "ucast (Mul128 a_lo mu_lo) :: u64"
  define s :: u64 where "s = m2_lo + tmp"
  have A: "unat a = unat a_lo + 2 ^ 64 * unat a_hi" "unat mu = unat mu_lo + 2 ^ 64 * unat mu_hi"
    unfolding assms(1-4) by (rule halves_128)+
  have l: "unat a_lo * unat mu_lo = unat ?w + 2 ^ 64 * unat left_hi"
    unfolding assms(5) unat_Mul128 [symmetric] by (rule halves_128)
  have m1: "unat a_lo * unat mu_hi = unat m1_lo + 2 ^ 64 * unat m1_hi"
    unfolding assms(6,7) unat_Mul128 [symmetric] by (rule halves_128)
  have m2: "unat a_hi * unat mu_lo = unat m2_lo + 2 ^ 64 * unat m2_hi"
    unfolding assms(8,9) unat_Mul128 [symmetric] by (rule halves_128)
  have c1: "unat tmp + 2 ^ 64 * unat c1 = unat m1_lo + unat left_hi"
    using add_carry [OF assms(10)] unfolding assms(11) by (simp split: if_splits)
  have c2: "unat s + 2 ^ 64 * unat c2 = unat m2_lo + unat tmp"
    using add_carry [OF s_def] unfolding assms(12) by (simp split: if_splits)
  define h where "h = unat a_hi * unat mu_hi + (unat m1_hi + unat c1) + (unat m2_hi + unat c2)"
  have "unat a * unat mu = unat a_lo * unat mu_lo + 2 ^ 64 * (unat a_lo * unat mu_hi + unat a_hi * unat mu_lo) +
      2 ^ 128 * (unat a_hi * unat mu_hi)" unfolding A by (simp add: algebra_simps)
  also have "\<dots> = unat ?w + 2 ^ 64 * unat s + 2 ^ 128 * h"
    unfolding l m1 m2 h_def using c1 c2 by (simp add: algebra_simps)
  finally have e: "unat a * unat mu = (unat ?w + 2 ^ 64 * unat s) + 2 ^ 128 * h" .
  have "unat ?w + 2 ^ 64 * unat s < 2 ^ 128" using unat_less_64 [of ?w] unat_less_64 [of s] by simp
  then have "unat a * unat mu div 2 ^ 128 = h" unfolding e by simp
  moreover have "unat (a_hi * mu_hi + (m1_hi + c1) + (m2_hi + c2)) = h mod 2 ^ 64"
    unfolding h_def by (simp add: unat_word_ariths mod_simps)
  ultimately show ?thesis by simp
qed

lemma barrett_128:
  assumes m: "1 < m" "m \<le> 2 ^ 63" and A: "(A :: nat) < 2 ^ 128"
  shows "A * (2 ^ 128 div m) div 2 ^ 128 * m \<le> A" "A - A * (2 ^ 128 div m) div 2 ^ 128 * m < 2 * m"
proof -
  define mu where "mu = 2 ^ 128 div m"
  define q where "q = A * mu div 2 ^ 128"
  have mm: "mu * m \<le> 2 ^ 128" "2 ^ 128 < mu * m + m"
    using m(1) by (simp_all only: mu_def div_times_less_eq_dividend) (metis div_mult_mod_eq mod_less_divisor less_trans zero_less_one nat_add_left_cancel_less)
  have q1: "q * 2 ^ 128 \<le> A * mu" unfolding q_def by simp
  have q2: "A * mu < q * 2 ^ 128 + 2 ^ 128" unfolding q_def by (metis div_mult_mod_eq mod_less_divisor nat_add_left_cancel_less zero_less_numeral zero_less_power)
  have "q * m * 2 ^ 128 \<le> A * (mu * m)" using mult_le_mono1 [OF q1, of m] by (simp only: mult_ac)
  also have "\<dots> \<le> A * 2 ^ 128" using mm(1) by (rule mult_le_mono2)
  finally show 1: "A * (2 ^ 128 div m) div 2 ^ 128 * m \<le> A" unfolding mu_def [symmetric] q_def [symmetric] by simp
  have "A * 2 ^ 128 \<le> A * (mu * m + m)" using mm(2) by (intro mult_le_mono2) simp
  also have "\<dots> = A * mu * m + A * m" by (simp only: distrib_left mult.assoc)
  also have "\<dots> < (q * 2 ^ 128 + 2 ^ 128) * m + 2 ^ 128 * m"
    using q2 A m(1) by (intro add_less_le_mono mult_strict_right_mono mult_le_mono1) auto
  also have "\<dots> = (q * m + 2 * m) * 2 ^ 128" by (simp add: algebra_simps)
  finally have "A < q * m + 2 * m" by simp
  then show "A - A * (2 ^ 128 div m) div 2 ^ 128 * m < 2 * m"
    using 1 unfolding mu_def [symmetric] q_def [symmetric] by simp
qed

lemma BarrettUint128ModUint64_correct:
  assumes m: "1 < unat m" "unat m \<le> 2 ^ 63" and mu: "unat mu = 2 ^ 128 div unat m"
  shows "\<exists>r. BarrettUint128ModUint64 a m mu = Inr r \<and> unat r = unat a mod unat m"
proof -
  define q where "q = unat a * unat mu div 2 ^ 128"
  have "\<exists>t. BarrettUint128ModUint64 a m mu = subtract_loop (ucast a - t * m) m \<and> unat t = q mod 2 ^ 64"
    unfolding BarrettUint128ModUint64_def AdditionWithCarryOut_def IsAdditionOverflow_def Let_def prod.case q_def
    by (intro exI conjI, rule refl, rule barrett_high_word) (rule refl)+
  then obtain t where e: "BarrettUint128ModUint64 a m mu = subtract_loop (ucast a - t * m) m" and t: "unat t = q mod 2 ^ 64" by blast
  note b = barrett_128 [OF m unat_less_128 [of a], folded mu, folded q_def]
  have "2 * unat m \<le> 2 ^ 64" using m(2) by simp
  with b(2) have lt: "unat a - q * unat m < 2 ^ 64" by (rule less_le_trans)
  have tw: "t = of_nat q" unfolding word_unat_eq_iff t by (simp add: unat_of_nat take_bit_eq_mod)
  have aw: "(ucast a :: u64) = of_nat (unat a)" by simp
  have "(ucast a :: u64) - t * m = of_nat (unat a - q * unat m)"
    unfolding tw aw using b(1) by (simp add: of_nat_diff)
  then have r: "unat (ucast a - t * m :: u64) = unat a - q * unat m" using lt by (simp add: unat_of_nat take_bit_nat_eq_self)
  have "unat ((ucast a - t * m) mod m) = (unat a - q * unat m) mod unat m" by (simp only: unat_mod r)
  also have "\<dots> = unat a mod unat m" using b(1) by (metis le_add_diff_inverse2 mod_mult_self1 mult.commute)
  finally show ?thesis using m(1) subtract_loop_mod [of m] unfolding e by simp
qed

subsection \<open>Conversion between bases\<close>

definition set_entry :: "nat \<Rightarrow> u64 \<Rightarrow> poly \<Rightarrow> poly res" where
  "set_entry ri e t = ebind (GetValues t) (\<lambda>v. ebind (set_at (m_data v) ri e) (\<lambda>d. Inr (t\<lparr>m_values := Some (v\<lparr>m_data := d\<rparr>)\<rparr>)))"

text \<open>\<open>m_vectors[i][ri].ModMulFastConst(w, qi, wPrecon)\<close>\<close>

definition conv_digit :: "poly \<Rightarrow> nat \<Rightarrow> u64 \<Rightarrow> u64 \<Rightarrow> u64 res" where
  "conv_digit t ri w wPrecon = ebind (tower_modulus t) (\<lambda>q. ebind (Poly_at t ri) (\<lambda>x. Inr (ModMulFastConst x w q wPrecon)))"

definition conv_sums ::
    "poly list \<Rightarrow> nat \<Rightarrow> u64 list \<Rightarrow> u64 list \<Rightarrow> u64 list list \<Rightarrow> nat \<Rightarrow> nat \<Rightarrow> u128 list res" where
  "conv_sums ts ri QHatInvModq QHatInvModqPrecon QHatModp sizeQ sizeP = efor 0 sizeQ (\<lambda>i acc.
     ebind (get_at QHatModp i) (\<lambda>QHatModpi. ebind (get_at ts i) (\<lambda>t.
     ebind (get_at QHatInvModq i) (\<lambda>w. ebind (get_at QHatInvModqPrecon i) (\<lambda>wp.
     ebind (conv_digit t ri w wp) (\<lambda>xQHatInvModqi.
       emap (\<lambda>j. ebind (get_at QHatModpi j) (\<lambda>h. Inr (acc ! j + Mul128 xQHatInvModqi h))) [0..<sizeP])))))) (replicate sizeP 0)"

definition store_sum :: "nat \<Rightarrow> u128 list \<Rightarrow> u128 list \<Rightarrow> nat \<Rightarrow> poly \<Rightarrow> poly res" where
  "store_sum ri acc modpBarrettMu j v = ebind (tower_modulus v) (\<lambda>pj. ebind (get_at acc j) (\<lambda>s.
     ebind (get_at modpBarrettMu j) (\<lambda>mu. ebind (BarrettUint128ModUint64 s pj mu) (\<lambda>r. set_entry ri r v))))"

definition ApproxSwitchCRTBasis ::
    "dcrt_params \<Rightarrow> dcrt_params \<Rightarrow> u64 list \<Rightarrow> u64 list \<Rightarrow> u64 list list \<Rightarrow> u128 list \<Rightarrow> dcrt \<Rightarrow> dcrt res" where
  "ApproxSwitchCRTBasis paramsQ paramsP QHatInvModq QHatInvModqPrecon QHatModp modpBarrettMu x =
     ebind (DCRTPolyImpl paramsP (dc_format x) True) (\<lambda>ans.
       let sizeQ = (if length (dc_vectors x) > length (dp_params paramsQ) then length (dp_params paramsQ) else length (dc_vectors x));
           sizeP = length (dc_vectors ans)
       in ebind (efor 0 (unat (dp_ringDimension (dc_params x))) (\<lambda>ri vs.
            ebind (conv_sums (dc_vectors x) ri QHatInvModq QHatInvModqPrecon QHatModp sizeQ sizeP) (\<lambda>acc.
              each_tower (store_sum ri acc modpBarrettMu) sizeP vs)) (dc_vectors ans)) (\<lambda>vs.
          Inr (ans\<lparr>dc_vectors := vs\<rparr>)))"

subsection \<open>Writing the entries of all towers\<close>

text \<open>A tower with the parameters \<open>P\<close> that holds the words \<open>d\<close>.\<close>

abbreviation raw_tower :: "Format \<Rightarrow> elem_params \<Rightarrow> u64 list \<Rightarrow> poly" where
  "raw_tower fmt P d \<equiv> \<lparr>m_format = fmt, m_params = Some P, m_values = Some (vec (m_ciphertextModulus P) d)\<rparr>"

lemma raw_tower_simps [simp]:
  "tower_modulus (raw_tower fmt P d) = Inr (m_ciphertextModulus P)"
  "ri < length d \<Longrightarrow> Poly_at (raw_tower fmt P d) ri = Inr (d ! ri)"
  "ri < length d \<Longrightarrow> set_entry ri e (raw_tower fmt P d) = Inr (raw_tower fmt P (d[ri := e]))"
  by (simp_all add: tower_modulus_def deref_def Poly_at_def NatVec.at_def IndexCheck_def GetLength_def set_entry_def GetValues_def set_at_def)

lemma new_object_raw:
  assumes "\<And>P. P \<in> set (dp_params D) \<Longrightarrow> unat (m_ringDimension P) = N"
  shows "DCRTPolyImpl D fmt True = Inr \<lparr>dc_params = D, dc_format = fmt,
    dc_vectors = map (\<lambda>P. raw_tower fmt P (replicate N 0)) (dp_params D)\<rparr>"
proof -
  have "emap (\<lambda>P. PolyImpl (Some P) fmt True) (dp_params D) = Inr (map (\<lambda>P. raw_tower fmt P (replicate N 0)) (dp_params D))"
    by (rule emap_all_Inr) (simp add: PolyImpl_def SetValuesToZero_def deref_def nvec_zero_def assms)
  then show ?thesis by (simp add: DCRTPolyImpl_def)
qed

lemma store_columns:
  assumes "\<And>ri vs. ri < N \<Longrightarrow> body ri vs = each_tower (g ri) (length Ps) vs"
    and "\<And>ri j d. ri < N \<Longrightarrow> j < length Ps \<Longrightarrow> length d = N \<Longrightarrow>
      g ri j (raw_tower fmt (Ps ! j) d) = Inr (raw_tower fmt (Ps ! j) (d[ri := r j ri]))"
  shows "efor 0 N body (map (\<lambda>P. raw_tower fmt P (replicate N 0)) Ps) =
    Inr (map (\<lambda>j. raw_tower fmt (Ps ! j) (map (r j) [0..<N])) [0..<length Ps])"
proof -
  let ?I = "\<lambda>k vs. length vs = length Ps \<and> (\<forall>j < length Ps. \<exists>d. vs ! j = raw_tower fmt (Ps ! j) d \<and> length d = N \<and> (\<forall>i < k. d ! i = r j i))"
  have "\<exists>vs. efor 0 N body (map (\<lambda>P. raw_tower fmt P (replicate N 0)) Ps) = Inr vs \<and> ?I N vs"
  proof (rule efor_Inr [where P = ?I])
    fix ri vs assume ri: "ri < N" and vs: "?I ri vs"
    from vs obtain d where d: "\<And>j. j < length Ps \<Longrightarrow> vs ! j = raw_tower fmt (Ps ! j) (d j) \<and> length (d j) = N \<and> (\<forall>i < ri. d j ! i = r j i)"
      by metis
    have g: "g ri j (vs ! j) = Inr (raw_tower fmt (Ps ! j) ((d j)[ri := r j ri]))" if "j < length Ps" for j
      using d [OF that] assms(2) [OF ri that] by simp
    obtain us where us: "each_tower (g ri) (length Ps) vs = Inr us" "length us = length vs" "\<forall>j < length Ps. g ri j (vs ! j) = Inr (us ! j)"
      using each_tower_Inr [of "length Ps" "g ri" vs] g vs by auto
    have "us ! j = raw_tower fmt (Ps ! j) ((d j)[ri := r j ri]) \<and> length ((d j)[ri := r j ri]) = N \<and>
        (\<forall>i < Suc ri. (d j)[ri := r j ri] ! i = r j i)" if "j < length Ps" for j
      using us(3) g [OF that] that d [OF that] ri by (auto simp: nth_list_update less_Suc_eq)
    then have "\<forall>j < length Ps. \<exists>d. us ! j = raw_tower fmt (Ps ! j) d \<and> length d = N \<and> (\<forall>i < Suc ri. d ! i = r j i)" by blast
    then have "?I (Suc ri) us" using us(2) vs by simp
    then show "\<exists>vs'. body ri vs = Inr vs' \<and> ?I (Suc ri) vs'" unfolding assms(1) [OF ri] using us(1) by blast
  qed auto
  then obtain vs where vs: "efor 0 N body (map (\<lambda>P. raw_tower fmt P (replicate N 0)) Ps) = Inr vs" "?I N vs" by blast
  have "vs = map (\<lambda>j. raw_tower fmt (Ps ! j) (map (r j) [0..<N])) [0..<length Ps]"
  proof (rule nth_equalityI)
    fix j assume "j < length vs"
    then have j: "j < length Ps" using vs(2) by simp
    then obtain d where d: "vs ! j = raw_tower fmt (Ps ! j) d" "length d = N" "\<forall>i < N. d ! i = r j i" using vs(2) by blast
    have "d = map (r j) [0..<N]" using d(2,3) by (intro nth_equalityI) auto
    then show "vs ! j = map (\<lambda>j. raw_tower fmt (Ps ! j) (map (r j) [0..<N])) [0..<length Ps] ! j" using d(1) j by simp
  qed (use vs(2) in simp)
  then show ?thesis using vs(1) by simp
qed

subsection \<open>Approximate conversion\<close>

lemma represents_raw:
  assumes "represents P L a v" "m_format v = COEFFICIENT"
  obtains d where "v = raw_tower COEFFICIENT P d" "length d = 2 ^ L" "\<And>j. j < 2 ^ L \<Longrightarrow> iu (d ! j) = a j mod iu (m_ciphertextModulus P)"
    "\<And>j. j < 2 ^ L \<Longrightarrow> unat (d ! j) < unat (m_ciphertextModulus P)"
proof -
  obtain d where d: "v = \<lparr>m_format = m_format v, m_params = Some P, m_values = Some (vec (m_ciphertextModulus P) d)\<rparr>"
    "restores (m_ciphertextModulus P) (2 ^ L) (slot P L (m_format v) a) d" by (rule representsE [OF assms(1)])
  have mv: "m_values v = Some (vec (m_ciphertextModulus P) d)" by (subst d(1)) simp
  show ?thesis
    by (rule that [of d]) (use d assms(2) restoresD(1,2) [OF d(2)] represents_coefficients [OF assms mv] in auto)
qed

lemma raw_represents:
  assumes "ring_ok P L" "\<And>j. j < 2 ^ L \<Longrightarrow> unat (r j) < unat (m_ciphertextModulus P) \<and> iu (r j) mod iu (m_ciphertextModulus P) = a j mod iu (m_ciphertextModulus P)"
  shows "represents P L a (raw_tower COEFFICIENT P (map r [0..<2 ^ L]))"
proof -
  have "restores (m_ciphertextModulus P) (2 ^ L) (slot P L COEFFICIENT a) (map r [0..<2 ^ L])"
    unfolding restores_def slot_coeff using assms(2) by simp
  then show ?thesis by (rule representsI)
qed

lemma emap_upt: "(\<And>j. j < n \<Longrightarrow> f j = Inr (g j)) \<Longrightarrow> emap f [0..<n] = Inr (map g [0..<n])"
  by (rule emap_all_Inr) simp

text \<open>The sums of double words are exact.\<close>

lemma conv_sums_ok:
  assumes t: "\<And>i. i < n \<Longrightarrow> i < length ts \<and> i < length w \<and> i < length wp \<and> i < length H \<and> conv_digit (ts ! i) ri (w ! i) (wp ! i) = Inr (y i)"
    and H: "\<And>i. i < n \<Longrightarrow> m \<le> length (H ! i)"
    and b: "\<And>i j. i < n \<Longrightarrow> j < m \<Longrightarrow> unat (y i) * unat (H ! i ! j) \<le> 2 ^ 120" and n: "n \<le> 255"
  shows "\<exists>ss. conv_sums ts ri w wp H n m = Inr ss \<and> length ss = m \<and> (\<forall>j < m. unat (ss ! j) = (\<Sum>i<n. unat (y i) * unat (H ! i ! j)))"
  unfolding conv_sums_def
proof (rule efor_Inr [where P = "\<lambda>k ss. length ss = m \<and> (\<forall>j < m. unat (ss ! j) = (\<Sum>i<k. unat (y i) * unat (H ! i ! j)))"])
  fix i and ss :: "u128 list"
  assume i: "i < n" and ss: "length ss = m \<and> (\<forall>j < m. unat (ss ! j) = (\<Sum>i<i. unat (y i) * unat (H ! i ! j)))"
  let ?g = "\<lambda>j. ss ! j + Mul128 (y i) (H ! i ! j)"
  have e: "emap (\<lambda>j. ebind (get_at (H ! i) j) (\<lambda>h. Inr (ss ! j + Mul128 (y i) h))) [0..<m] = Inr (map ?g [0..<m])"
    by (rule emap_upt) (use H [OF i] in \<open>simp add: get_at_def\<close>)
  have "unat (?g j) = (\<Sum>i<Suc i. unat (y i) * unat (H ! i ! j))" if j: "j < m" for j
  proof -
    have "(\<Sum>i<Suc i. unat (y i) * unat (H ! i ! j)) \<le> (\<Sum>i<Suc i. 2 ^ 120)"
      by (rule sum_mono) (use b [OF _ j] i in auto)
    also have "\<dots> \<le> 255 * 2 ^ 120" using i n by simp
    finally have "unat (ss ! j) + unat (Mul128 (y i) (H ! i ! j)) < 2 ^ 128" using ss j by (simp add: unat_Mul128)
    then show ?thesis using ss j by (simp add: unat_word_ariths(1) unat_Mul128)
  qed
  then show "\<exists>ss'. ebind (get_at H i) (\<lambda>QHatModpi. ebind (get_at ts i) (\<lambda>t. ebind (get_at w i) (\<lambda>w. ebind (get_at wp i) (\<lambda>wp.
      ebind (conv_digit t ri w wp) (\<lambda>x. emap (\<lambda>j. ebind (get_at QHatModpi j) (\<lambda>h. Inr (ss ! j + Mul128 x h))) [0..<m]))))) = Inr ss' \<and>
      length ss' = m \<and> (\<forall>j < m. unat (ss' ! j) = (\<Sum>i<Suc i. unat (y i) * unat (H ! i ! j)))"
    using t [OF i] e by (simp add: get_at_def)
qed simp_all

text \<open>
  What a conversion from the moduli of \<open>Ps\<close> to those of \<open>Rs\<close> is given: the inverses of the products without one
  modulus with their prepared quotients, these products modulo the new moduli, and the constants of the reduction.
\<close>

definition conv_tables :: "elem_params list \<Rightarrow> elem_params list \<Rightarrow> u64 list \<Rightarrow> u64 list \<Rightarrow> u64 list list \<Rightarrow> u128 list \<Rightarrow> bool" where
  "conv_tables Ps Rs w wp H mus \<longleftrightarrow> length Ps \<le> length w \<and> length Ps \<le> length wp \<and> length Ps \<le> length H \<and> length Rs \<le> length mus \<and>
     (\<forall>i < length Ps. unat (w ! i) < tower_q Ps i \<and> wp ! i = shoup_of (w ! i) (m_ciphertextModulus (Ps ! i)) \<and>
        unat (w ! i) * crt_hat (tower_q Ps) (length Ps) i mod tower_q Ps i = 1 \<and> length Rs \<le> length (H ! i) \<and>
        (\<forall>j < length Rs. unat (H ! i ! j) = crt_hat (tower_q Ps) (length Ps) i mod tower_q Rs j)) \<and>
     (\<forall>j < length Rs. unat (mus ! j) = 2 ^ 128 div tower_q Rs j)"

definition approx_conv :: "elem_params list \<Rightarrow> u64 list \<Rightarrow> int \<Rightarrow> int" where
  "approx_conv Ps w a = (\<Sum>i<length Ps. (a * iu (w ! i)) mod int (tower_q Ps i) * int (crt_hat (tower_q Ps) (length Ps) i))"

lemma approx_conv:
  assumes ps: "rns_ok Ps L" and w: "\<And>i. i < length Ps \<Longrightarrow> unat (w ! i) * crt_hat (tower_q Ps) (length Ps) i mod tower_q Ps i = 1"
  obtains \<alpha> where "approx_conv Ps w a = a mod int (\<Prod>i<length Ps. tower_q Ps i) + \<alpha> * int (\<Prod>i<length Ps. tower_q Ps i)" "0 \<le> \<alpha>" "\<alpha> < int (length Ps)"
proof -
  let ?n = "length Ps" and ?q = "tower_q Ps"
  have n: "0 < ?n" using ps by (auto simp: rns_ok_def)
  have y: "0 \<le> (a * iu (w ! i)) mod int (?q i) \<and> (a * iu (w ! i)) mod int (?q i) < int (?q i)" if "i < ?n" for i
    using rns_okD(2) [OF ps that] by simp
  have c: "((a * iu (w ! i)) mod int (?q i) * int (crt_hat ?q ?n i)) mod int (?q i) = a mod int (?q i)" if "i < ?n" for i
  proof -
    have one: "(iu (w ! i) * int (crt_hat ?q ?n i)) mod int (?q i) = 1"
      using arg_cong [OF w [OF that], of int] by (simp only: of_nat_mod of_nat_mult of_nat_1)
    have "((a * iu (w ! i)) mod int (?q i) * int (crt_hat ?q ?n i)) mod int (?q i) =
        (a * ((iu (w ! i) * int (crt_hat ?q ?n i)) mod int (?q i))) mod int (?q i)"
      by (simp only: mod_mult_left_eq mod_mult_right_eq mult.assoc)
    then show ?thesis unfolding one by simp
  qed
  show ?thesis unfolding approx_conv_def
    using crt_overflow [OF rns_chain [OF ps] y c n] that [unfolded approx_conv_def] by blast
qed

lemma conv_digit_ok:
  assumes t: "represents P L a t" "m_format t = COEFFICIENT" and r: "ring_ok P L" and j: "ri < 2 ^ L"
    and w: "unat w < unat (m_ciphertextModulus P)" "wp = shoup_of w (m_ciphertextModulus P)"
  shows "\<exists>y. conv_digit t ri w wp = Inr y \<and> iu y = (a ri * iu w) mod iu (m_ciphertextModulus P)"
proof -
  let ?q = "m_ciphertextModulus P"
  obtain d where d: "t = raw_tower COEFFICIENT P d" "length d = 2 ^ L" "\<And>j. j < 2 ^ L \<Longrightarrow> iu (d ! j) = a j mod iu ?q"
    by (rule represents_raw [OF t]) (rule that)
  have q: "0 < unat ?q" "unat ?q \<le> 2 ^ 63" using ring_okD(1) [OF r] by (auto simp: barrett_modulus_def)
  have sh: "unat wp = unat w * 2 ^ 64 div unat ?q" unfolding w(2) by (rule unat_shoup_of) (use w(1) q in auto)
  have "iu (ModMulFastConst (d ! ri) w ?q wp) = (iu (d ! ri) * iu w) mod iu ?q"
    using arg_cong [OF ModMulFastConst_correct [OF q w(1) sh, of "d ! ri"], of int] by (simp only: of_nat_mod of_nat_mult)
  also have "\<dots> = (a ri * iu w) mod iu ?q" unfolding d(3) [OF j] by (simp only: mod_mult_left_eq)
  finally show ?thesis using d(1,2) j by (simp add: conv_digit_def)
qed

lemma ApproxSwitchCRTBasis_ok:
  assumes d: "dcrt_params_ok D L" and p: "dcrt_params_ok R L" and x: "drep D L a x" and f: "dc_format x = COEFFICIENT"
    and tb: "conv_tables (dp_params D) (dp_params R) w wp H mus"
    and n: "length (dp_params D) \<le> 255" "length (dp_params D) \<le> length (dp_params Q)"
  shows "\<exists>y. ApproxSwitchCRTBasis Q R w wp H mus x = Inr y \<and> dc_format y = COEFFICIENT \<and>
    drep R L (\<lambda>ri. approx_conv (dp_params D) w (a ri)) y"
proof -
  let ?Ps = "dp_params D" and ?Rs = "dp_params R" and ?ts = "dc_vectors x"
  let ?n = "length ?Ps" and ?m = "length ?Rs" and ?q = "tower_q ?Ps"
  note xd = drepD [OF x] and Ps = dcrt_params_okD [OF d] and Rs = dcrt_params_okD [OF p]
  have "\<exists>y. conv_digit (?ts ! i) ri (w ! i) (wp ! i) = Inr y \<and> iu y = (a ri * iu (w ! i)) mod int (?q i)" if "i < ?n" "ri < 2 ^ L" for i ri
    unfolding tower_q_def
    by (rule conv_digit_ok) (use that xd(3,4) f Ps(2) tb in \<open>auto simp: conv_tables_def tower_q_def\<close>)
  then obtain y where y: "\<And>i ri. i < ?n \<Longrightarrow> ri < 2 ^ L \<Longrightarrow> conv_digit (?ts ! i) ri (w ! i) (wp ! i) = Inr (y i ri) \<and>
      iu (y i ri) = (a ri * iu (w ! i)) mod int (?q i)" by metis
  have H: "unat (H ! i ! j) = crt_hat ?q ?n i mod tower_q ?Rs j" if "i < ?n" "j < ?m" for i j
    using tb that by (simp add: conv_tables_def)
  have b: "unat (y i ri) * unat (H ! i ! j) \<le> 2 ^ 120" if i: "i < ?n" "j < ?m" "ri < 2 ^ L" for i j ri
  proof -
    have "iu (y i ri) < int (?q i)" using y [OF i(1,3)] rns_okD(2) [OF Ps(1) i(1)] by simp
    then have "unat (y i ri) < ?q i" by (simp only: of_nat_less_iff)
    then have "unat (y i ri) \<le> 2 ^ 60" using rns_okD(3) [OF Ps(1) i(1)] by simp
    moreover have "unat (H ! i ! j) \<le> 2 ^ 60"
      using H [OF i(1,2)] rns_okD(2,3) [OF Rs(1) i(2)] mod_less_divisor [of "tower_q ?Rs j" "crt_hat ?q ?n i"] by linarith
    ultimately have "unat (y i ri) * unat (H ! i ! j) \<le> 2 ^ 60 * 2 ^ 60" by (rule mult_le_mono)
    then show ?thesis by simp
  qed
  have s: "\<exists>ss. conv_sums ?ts ri w wp H ?n ?m = Inr ss \<and> length ss = ?m \<and>
      (\<forall>j < ?m. unat (ss ! j) = (\<Sum>i<?n. unat (y i ri) * unat (H ! i ! j)))" if "ri < 2 ^ L" for ri
    by (rule conv_sums_ok) (use y b n that xd(2) tb in \<open>auto simp: conv_tables_def\<close>)
  then have "\<forall>ri. \<exists>ss. ri < 2 ^ L \<longrightarrow> conv_sums ?ts ri w wp H ?n ?m = Inr ss \<and> length ss = ?m \<and>
      (\<forall>j < ?m. unat (ss ! j) = (\<Sum>i<?n. unat (y i ri) * unat (H ! i ! j)))" by blast
  from choice [OF this] obtain ss where ss: "\<And>ri. ri < 2 ^ L \<Longrightarrow> conv_sums ?ts ri w wp H ?n ?m = Inr (ss ri) \<and> length (ss ri) = ?m \<and>
      (\<forall>j < ?m. unat (ss ri ! j) = (\<Sum>i<?n. unat (y i ri) * unat (H ! i ! j)))" by blast
  have mu: "j < length mus" "unat (mus ! j) = 2 ^ 128 div tower_q ?Rs j" if "j < ?m" for j
    using tb that by (auto simp: conv_tables_def)
  have "\<exists>r. BarrettUint128ModUint64 (ss ri ! j) (m_ciphertextModulus (?Rs ! j)) (mus ! j) = Inr r \<and>
      unat r = unat (ss ri ! j) mod tower_q ?Rs j" if "j < ?m" for ri j
    unfolding tower_q_def
    by (rule BarrettUint128ModUint64_correct) (use rns_okD(2,3) [OF Rs(1) that] mu [OF that] in \<open>auto simp: tower_q_def\<close>)
  then obtain r where r: "\<And>ri j. j < ?m \<Longrightarrow> BarrettUint128ModUint64 (ss ri ! j) (m_ciphertextModulus (?Rs ! j)) (mus ! j) = Inr (r j ri) \<and>
      unat (r j ri) = unat (ss ri ! j) mod tower_q ?Rs j" by metis
  let ?vs = "map (\<lambda>j. raw_tower COEFFICIENT (?Rs ! j) (map (r j) [0..<2 ^ L])) [0..<?m]"
  have o: "DCRTPolyImpl R COEFFICIENT True = Inr \<lparr>dc_params = R, dc_format = COEFFICIENT,
      dc_vectors = map (\<lambda>P. raw_tower COEFFICIENT P (replicate (2 ^ L) 0)) ?Rs\<rparr>"
    by (rule new_object_raw) (use Rs(1) in \<open>auto simp: rns_ok_def dest: ring_okD\<close>)
  have e: "efor 0 (2 ^ L) (\<lambda>ri vs. ebind (conv_sums ?ts ri w wp H ?n ?m) (\<lambda>acc. each_tower (store_sum ri acc mus) ?m vs))
      (map (\<lambda>P. raw_tower COEFFICIENT P (replicate (2 ^ L) 0)) ?Rs) = Inr ?vs"
    by (rule store_columns [where g = "\<lambda>ri. store_sum ri (ss ri) mus"])
      (use ss r mu(1) in \<open>auto simp: store_sum_def get_at_def\<close>)
  have N: "unat (dp_ringDimension D) = 2 ^ L" using d by (simp add: dcrt_params_ok_def)
  have "ApproxSwitchCRTBasis Q R w wp H mus x = Inr \<lparr>dc_params = R, dc_format = COEFFICIENT, dc_vectors = ?vs\<rparr>"
    using n(2) xd(1,2) e by (simp add: ApproxSwitchCRTBasis_def f o Let_def N)
  moreover have "drep R L (\<lambda>ri. approx_conv ?Ps w (a ri)) \<lparr>dc_params = R, dc_format = COEFFICIENT, dc_vectors = ?vs\<rparr>"
    unfolding drep_def
  proof (intro conjI allI impI)
    fix j assume j: "j < ?m"
    let ?p = "tower_q ?Rs j"
    have rr: "unat (r j ri) < ?p \<and> iu (r j ri) mod int ?p = approx_conv ?Ps w (a ri) mod int ?p" if ri: "ri < 2 ^ L" for ri
    proof -
      have p: "0 < ?p" using rns_okD(2) [OF Rs(1) j] by simp
      have "(\<Sum>i<?n. iu (y i ri) * iu (H ! i ! j)) mod int ?p = (\<Sum>i<?n. iu (y i ri) * int (crt_hat ?q ?n i)) mod int ?p"
        by (rule sum_mod_cong) (use H j in \<open>simp add: zmod_int mod_mult_right_eq\<close>)
      moreover have "(\<Sum>i<?n. iu (y i ri) * int (crt_hat ?q ?n i)) = approx_conv ?Ps w (a ri)"
        unfolding approx_conv_def using y [OF _ ri] by (intro sum.cong) auto
      moreover have "iu (r j ri) = (\<Sum>i<?n. iu (y i ri) * iu (H ! i ! j)) mod int ?p"
      proof -
        have "unat (r j ri) = (\<Sum>i<?n. unat (y i ri) * unat (H ! i ! j)) mod ?p" using r [OF j] ss [OF ri] j by simp
        from arg_cong [OF this, of int] show ?thesis by (simp only: of_nat_mod of_nat_sum of_nat_mult)
      qed
      ultimately show ?thesis using p r [OF j, of ri] mod_less_divisor [OF p, of "unat (ss ri ! j)"] by simp
    qed
    have "represents (?Rs ! j) L (\<lambda>ri. approx_conv ?Ps w (a ri)) (raw_tower COEFFICIENT (?Rs ! j) (map (r j) [0..<2 ^ L]))"
      by (rule raw_represents [OF Rs(2) [OF j]]) (use rr in \<open>simp add: tower_q_def\<close>)
    then show "represents (?Rs ! j) L (\<lambda>ri. approx_conv ?Ps w (a ri))
        (dc_vectors \<lparr>dc_params = R, dc_format = COEFFICIENT, dc_vectors = ?vs\<rparr> ! j)" using j by simp
  qed simp_all
  ultimately show ?thesis by (intro exI conjI) auto
qed

end
