(* ===== verification/DcrtFacts.thy ===== *)
theory DcrtFacts
  imports BaseConv
begin

text \<open>
  Polynomials over several moduli: example chains and objects, construction and shortening of chains, powers of
  the base and the decomposition by residues.
\<close>

section \<open>Facts\<close>

subsection \<open>Chains and objects for examples\<close>

text \<open>The object in a given format that stands for a sequence of integers.\<close>

definition tower_for :: "nat \<Rightarrow> Format \<Rightarrow> (nat \<Rightarrow> int) \<Rightarrow> elem_params \<Rightarrow> poly" where
  "tower_for L fmt a P = \<lparr>m_format = fmt, m_params = Some P, m_values = Some (vec (m_ciphertextModulus P)
     (map (\<lambda>i. word_of_int (slot P L fmt a i mod iu (m_ciphertextModulus P))) [0..<2 ^ L]))\<rparr>"

definition object_for :: "dcrt_params \<Rightarrow> nat \<Rightarrow> Format \<Rightarrow> (nat \<Rightarrow> int) \<Rightarrow> dcrt" where
  "object_for D L fmt a = \<lparr>dc_params = D, dc_format = fmt, dc_vectors = map (tower_for L fmt a) (dp_params D)\<rparr>"

lemma tower_for_represents:
  assumes "ring_ok P L"
  shows "represents P L a (tower_for L fmt a P)"
proof -
  let ?q = "m_ciphertextModulus P"
  have q: "0 < unat ?q" "unat ?q \<le> 2 ^ 64" using ring_okD(1) [OF assms] by (auto simp: barrett_modulus_def)
  have "iu (word_of_int (k mod iu ?q) :: u64) = k mod iu ?q" for k :: int
  proof -
    have "0 \<le> k mod iu ?q" "k mod iu ?q < iu ?q" using q(1) by (simp_all only: of_nat_0_less_iff pos_mod_sign pos_mod_bound)
    moreover have "iu ?q \<le> 2 ^ 64" using q(2) by (simp only: of_nat_le_iff of_nat_power of_nat_numeral flip: of_nat_le_iff [where 'a = int])
    ultimately show ?thesis by (simp add: uint_word_of_int)
  qed
  note e = this
  have "unat (word_of_int (k mod iu ?q) :: u64) < unat ?q" for k :: int
  proof -
    have "iu (word_of_int (k mod iu ?q) :: u64) < iu ?q" unfolding e using q(1) by (simp only: of_nat_0_less_iff pos_mod_bound)
    then show ?thesis by (simp only: of_nat_less_iff)
  qed
  then have "restores ?q (2 ^ L) (slot P L fmt a) (map (\<lambda>i. word_of_int (slot P L fmt a i mod iu ?q)) [0..<2 ^ L])"
    unfolding restores_def by (simp add: e del: of_nat_unat)
  then show ?thesis unfolding tower_for_def by (rule representsI)
qed

lemma object_for_drep:
  assumes "dcrt_params_ok D L"
  shows "drep D L a (object_for D L fmt a)" "dc_format (object_for D L fmt a) = fmt"
  using tower_for_represents dcrt_params_okD(2) [OF assms] by (auto simp: drep_def object_for_def tower_for_def)

definition ring_of :: "u64 \<Rightarrow> u64 \<Rightarrow> elem_params" where
  "ring_of q r = \<lparr>m_ringDimension = 4, m_cyclotomicOrder = 8, m_ciphertextModulus = q, m_rootOfUnity = r,
     m_bigCiphertextModulus = 0, m_bigRootOfUnity = 0\<rparr>"

definition chain_of :: "elem_params list \<Rightarrow> u64 \<Rightarrow> dcrt_params" where
  "chain_of Ps q = \<lparr>dp_ringDimension = 4, dp_cyclotomicOrder = 8, dp_ciphertextModulus = ubint_of_limb q,
     dp_rootOfUnity = ubint_of_limb 0, dp_bigCiphertextModulus = ubint_of_limb 0, dp_bigRootOfUnity = ubint_of_limb 0,
     dp_params = Ps\<rparr>"

abbreviation chain_17_41 :: dcrt_params where
  "chain_17_41 \<equiv> chain_of [ring_of 17 2, ring_of 41 3] 697"

lemma rings_ok: "ring_ok (ring_of 17 2) 2" "ring_ok (ring_of 41 3) 2" "ring_ok (ring_of 73 10) 2"
  by (simp_all add: ring_ok_def ring_of_def ntt_params_def barrett_modulus_def)

lemma coprime_small: "coprime (17::nat) 41" "coprime (41::nat) 17" "coprime (17::nat) 73" "coprime (73::nat) 17"
    "coprime (41::nat) 73" "coprime (73::nat) 41"
  by (simp_all add: coprime_iff_gcd_eq_1 gcd_non_0_nat)

lemma chain_17_41: "dcrt_params_ok chain_17_41 2"
proof -
  have "rns_ok [ring_of 17 2, ring_of 41 3] 2"
    using rings_ok coprime_small by (simp add: rns_ok_def ring_of_def tower_q_def less_Suc_eq all_conj_distrib)
  then show ?thesis using repr_limb [of 697] by (simp add: dcrt_params_ok_def chain_of_def ring_of_def)
qed

lemma chain_73: "dcrt_params_ok (chain_of [ring_of 73 10] 73) 2"
proof -
  have "rns_ok [ring_of 73 10] 2" using rings_ok by (simp add: rns_ok_def ring_of_def)
  then show ?thesis using repr_limb [of 73] by (simp add: dcrt_params_ok_def chain_of_def ring_of_def)
qed

lemma chain_17_41_73: "dcrt_params_ok (chain_of [ring_of 17 2, ring_of 41 3, ring_of 73 10] 50881) 2"
proof -
  have "rns_ok [ring_of 17 2, ring_of 41 3, ring_of 73 10] 2"
    using rings_ok coprime_small by (simp add: rns_ok_def ring_of_def tower_q_def less_Suc_eq all_conj_distrib)
  then show ?thesis using repr_limb [of 50881] by (simp add: dcrt_params_ok_def chain_of_def ring_of_def)
qed

lemma no_tables: "towers_cached Ps L (Reset, arb_init)"
  using Reset_cache_ok by (simp add: towers_cached_def)


subsection \<open>Dropping several towers\<close>

lemma PopLastParams_ok:
  assumes d: "dcrt_params_ok D L" and k: "k < length (dp_params D)"
  shows "\<exists>D'. efor 0 k (\<lambda>_. PopLastParam) D = Inr D' \<and> dcrt_params_ok D' L \<and>
    dp_params D' = take (length (dp_params D) - k) (dp_params D)"
proof (rule efor_Inr [where P = "\<lambda>k D'. dcrt_params_ok D' L \<and> dp_params D' = take (length (dp_params D) - k) (dp_params D)"])
  fix i D' assume i: "i < k" and D': "dcrt_params_ok D' L \<and> dp_params D' = take (length (dp_params D) - i) (dp_params D)"
  then have n: "1 < length (dp_params D')" using k by simp
  obtain m where m: "PopLastParam D' = Inr (D'\<lparr>dp_ciphertextModulus := m, dp_params := butlast (dp_params D')\<rparr>)"
    "dcrt_params_ok (D'\<lparr>dp_ciphertextModulus := m, dp_params := butlast (dp_params D')\<rparr>) L"
    using PopLastParam_ok [of D' L] D' n by metis
  have "butlast (dp_params D') = take (length (dp_params D) - Suc i) (dp_params D)"
    using D' i k by (simp add: butlast_take)
  then show "\<exists>E. PopLastParam D' = Inr E \<and> dcrt_params_ok E L \<and> dp_params E = take (length (dp_params D) - Suc i) (dp_params D)"
    using m by auto
qed (use d in simp_all)

lemma DropLastElements_ok:
  assumes d: "dcrt_params_ok D L" and x: "drep D L a x" and k: "k < length (dp_params D)"
  shows "\<exists>D'. DropLastElements k x = Inr (x\<lparr>dc_params := D', dc_vectors := take (length (dc_vectors x) - k) (dc_vectors x)\<rparr>) \<and>
    dcrt_params_ok D' L \<and> dp_params D' = take (length (dp_params D) - k) (dp_params D) \<and>
    drep D' L a (x\<lparr>dc_params := D', dc_vectors := take (length (dc_vectors x) - k) (dc_vectors x)\<rparr>)"
proof -
  note xd = drepD [OF x]
  obtain D' where D': "efor 0 k (\<lambda>_. PopLastParam) D = Inr D'" "dcrt_params_ok D' L"
    "dp_params D' = take (length (dp_params D) - k) (dp_params D)" using PopLastParams_ok [OF d k] by blast
  have "drep D' L a (x\<lparr>dc_params := D', dc_vectors := take (length (dc_vectors x) - k) (dc_vectors x)\<rparr>)"
    using xd D'(3) by (simp add: drep_def)
  then show ?thesis using D' xd(1,2) k by (intro exI [of _ D']) (simp add: DropLastElements_def)
qed

subsection \<open>Construction of a chain\<close>

lemma fits_power:
  assumes "n < 2 ^ k" "k < 2 ^ 32"
  shows "big_fits n"
proof -
  have "bit_len n \<le> k" using assms(1) by (simp only: bit_len_le_iff)
  then show ?thesis using assms(2) by (simp add: big_fits_def)
qed

lemma GetTotient_order:
  assumes L: "0 < L" "L \<le> 24" and o: "unat order = 2 ^ Suc L"
  shows "GetTotient draw (ucast (order :: u32)) s = Some (Inr (2 ^ L, s))" "unat (ucast (2 ^ L :: u64) :: u32) = 2 ^ L"
proof -
  have l: "2 ^ Suc L < (2::nat) ^ 64" using L by (intro power_strict_increasing) auto
  have "unat (ucast order :: u64) = unat (2 ^ Suc L :: u64)"
    using o l L by (simp only: unat_ucast_32_64) (subst unat_power2, simp_all)
  then have e: "(ucast order :: u64) = 2 ^ Suc L" by (simp only: word_unat_eq_iff)
  show "GetTotient draw (ucast order) s = Some (Inr (2 ^ L, s))" unfolding e by (rule GetTotient_power2) (use L in simp)
  have "unat (2 ^ L :: u64) = 2 ^ L" using L by (simp add: unat_power2)
  moreover have "2 ^ L < (2::nat) ^ 32" using L by (intro power_strict_increasing) auto
  ultimately show "unat (ucast (2 ^ L :: u64) :: u32) = 2 ^ L" by (simp only: unat_ucast_32)
qed

text \<open>The parameters of a tower that the constructor makes.\<close>

definition made_tower :: "nat \<Rightarrow> u32 \<Rightarrow> u64 \<Rightarrow> u64 \<Rightarrow> elem_params" where
  "made_tower L order q r = \<lparr>m_ringDimension = ucast (2 ^ L :: u64), m_cyclotomicOrder = order, m_ciphertextModulus = q,
     m_rootOfUnity = r, m_bigCiphertextModulus = 0, m_bigRootOfUnity = 0\<rparr>"

lemma prod_take_bound:
  fixes qs :: "u64 list"
  assumes "\<And>q. q \<in> set qs \<Longrightarrow> unat q < 2 ^ 60"
  shows "prod_list (map unat qs) \<le> 2 ^ (60 * length qs)"
  using assms
proof (induction qs)
  case (Cons q qs)
  then have "unat q * prod_list (map unat qs) \<le> 2 ^ 60 * 2 ^ (60 * length qs)" by (intro mult_le_mono less_imp_le [OF Cons.prems]) simp_all
  then show ?case by (simp add: power_add)
qed simp

lemma ILDCRTParams_roots_ok:
  assumes L: "0 < L" "L \<le> 24" and o: "unat order = 2 ^ Suc L" and l: "length rs = length qs" and ne: "qs \<noteq> []"
    and p: "\<And>i. i < length qs \<Longrightarrow> ntt_params (qs ! i) (rs ! i) order L"
    and c: "\<And>i j. i < length qs \<Longrightarrow> j < length qs \<Longrightarrow> i \<noteq> j \<Longrightarrow> coprime (unat (qs ! i)) (unat (qs ! j))"
    and fits: "60 * length qs + 1 < 2 ^ 32"
  shows "\<exists>D. ILDCRTParams_roots draw order qs rs s = Some (Inr (D, s)) \<and> dcrt_params_ok D L \<and>
    map m_ciphertextModulus (dp_params D) = qs \<and> map m_rootOfUnity (dp_params D) = rs"
proof -
  let ?P = "\<lambda>i. made_tower L order (qs ! i) (rs ! i)" and ?n = "length qs"
  let ?I = "\<lambda>i (m, Ps). Ps = map ?P [0..<i] \<and> repr m (prod_list (map unat (take i qs)))"
  note T = GetTotient_order [OF L o]
  have mk: "ILParams_root draw order (qs ! i) (rs ! i) s = Some (Inr (?P i, s))" for i
    by (simp add: ILParams_root_def ElemParams_def T made_tower_def)
  have b: "unat q < 2 ^ 60" if "q \<in> set qs" for q
    using that p ne by (auto simp: in_set_conv_nth ntt_params_def barrett_modulus_def)
  let ?f = "\<lambda>i (m, Ps) s. rbind (ILParams_root draw order (qs ! i) (rs ! i) s) (\<lambda>P s.
      Some (Inr ((Big_MulEq m (ubint_of_limb (qs ! i)), Ps @ [P]), s)))"
  have "\<exists>r. rfold ?f [0..<?n] (ubint_of_limb 1, []) s = Some (Inr (r, s)) \<and> ?I ?n r"
  proof (rule rfold_upt_Inr [where I = ?I])
    fix i r assume i: "0 \<le> i" "i < ?n" and I: "?I i r"
    obtain m Ps where r: "r = (m, Ps)" by (cases r)
    let ?k = "prod_list (map unat (take i qs))"
    have "prod_list (map unat (take (Suc i) qs)) \<le> 2 ^ (60 * length (take (Suc i) qs))"
      by (rule prod_take_bound) (use b in \<open>auto dest: in_set_takeD\<close>)
    also have "\<dots> \<le> 2 ^ (60 * ?n)" by (rule power_increasing) auto
    also have "\<dots> < (2::nat) ^ (60 * ?n + 1)" by simp
    finally have "big_fits (prod_list (map unat (take (Suc i) qs)))" by (rule fits_power) (rule fits)
    then have "big_fits (?k * unat (qs ! i))" using i by (simp add: take_Suc_conv_app_nth)
    then have "repr (Big_Mul m (ubint_of_limb (qs ! i))) (?k * unat (qs ! i))" using I r by (intro repr_Mul repr_limb) auto
    then show "\<exists>r'. ?f i r s = Some (Inr (r', s)) \<and> ?I (Suc i) r'"
      using i I r by (simp add: mk take_Suc_conv_app_nth Big_MulEq_def)
  qed (use repr_limb [of 1] in simp_all)
  then obtain m Ps where r: "rfold ?f [0..<?n] (ubint_of_limb 1, []) s = Some (Inr ((m, Ps), s))"
    "Ps = map ?P [0..<?n]" "repr m (prod_list (map unat qs))" by auto
  define D where "D = \<lparr>dp_ringDimension = ucast (2 ^ L :: u64), dp_cyclotomicOrder = order, dp_ciphertextModulus = m,
         dp_rootOfUnity = ubint_of_limb 0, dp_bigCiphertextModulus = ubint_of_limb 0, dp_bigRootOfUnity = ubint_of_limb 0,
         dp_params = Ps\<rparr>"
  have e: "ILDCRTParams_roots draw order qs rs s = Some (Inr (D, s))"
    using r l by (simp add: ILDCRTParams_roots_def Dcrt_collect_def Dcrt_ElemParams_def T D_def)
  have qr: "map m_ciphertextModulus Ps = qs" "map m_rootOfUnity Ps = rs"
    unfolding r(2) using l by (auto simp: made_tower_def o_def intro!: nth_equalityI)
  have "rns_ok Ps L"
    unfolding rns_ok_def
  proof (intro conjI allI ballI impI)
    show "Ps \<noteq> []" using ne r(2) by simp
    fix P assume "P \<in> set Ps"
    then obtain i where i: "i < ?n" "P = ?P i" using r(2) by auto
    then show "ring_ok P L" "m_bigCiphertextModulus P = 0" "m_bigRootOfUnity P = 0"
      using p [OF i(1)] T(2) by (simp_all add: ring_ok_def made_tower_def)
  next
    fix i j assume "i < length Ps" "j < length Ps" "i \<noteq> j"
    then show "coprime (tower_q Ps i) (tower_q Ps j)" using c [of i j] r(2) by (simp add: tower_q_def made_tower_def)
  qed
  moreover have "map (\<lambda>P. unat (m_ciphertextModulus P)) Ps = map unat qs"
    using arg_cong [OF qr(1), of "map unat"] by (simp add: o_def)
  ultimately have "dcrt_params_ok D L" using r(3) o T(2) by (simp add: dcrt_params_ok_def D_def)
  then show ?thesis using e qr by (auto simp: D_def)
qed

subsection \<open>Decomposition\<close>

lemma ceiling_div:
  assumes "0 < b"
  shows "(n + b - 1) div b = (if n mod b = 0 then n div b else n div b + 1 :: nat)"
proof -
  have e: "n div b * b + n mod b = n" by (rule div_mult_mod_eq)
  show ?thesis
  proof (cases "n mod b = 0")
    case True
    then have "n + b - 1 = (b - 1) + n div b * b" using e assms by linarith
    then show ?thesis using True assms by (simp only: div_mult_self1) simp
  next
    case False
    then have s: "n + b - 1 = (n mod b - 1) + (n div b + 1) * b" using e assms unfolding distrib_right mult_1 by linarith
    have "n mod b - 1 < b" using mod_less_divisor [OF assms, of n] by linarith
    then have "(n mod b - 1) div b = 0" by simp
    then show ?thesis unfolding s using False assms by (simp only: div_mult_self1) simp
  qed
qed

lemma PowersOfBase_ok:
  assumes d: "dcrt_params_ok D L" and x: "drep D L a x" and b: "0 < unat baseBits" "unat baseBits < 2 ^ 16"
    and fits: "bit_len (big_q D) + 2 ^ 17 < 2 ^ 32"
  shows "\<exists>rs. Dcrt_PowersOfBase baseBits x = Inr rs \<and>
    length rs = (bit_len (big_q D) + unat baseBits - 1) div unat baseBits \<and>
    (\<forall>i < length rs. drep D L (\<lambda>j. a j * 2 ^ (unat baseBits * Suc i)) (rs ! i) \<and> dc_format (rs ! i) = dc_format x)"
proof -
  let ?b = "unat baseBits" and ?n = "bit_len (big_q D)" and ?Ps = "dp_params D"
  note xd = drepD [OF x]
  have M: "unat (m_MSB (dp_ciphertextModulus D)) = ?n" using d by (simp add: dcrt_params_ok_def big_q_def repr_def)
  let ?w = "let nWindows = m_MSB (dp_ciphertextModulus D) div baseBits
    in (if m_MSB (dp_ciphertextModulus D) mod baseBits \<noteq> 0 then nWindows + 1 else nWindows)"
  have n: "?n < 4294836224" using fits by simp
  have "?n div ?b \<le> ?n" by simp
  with n have "?n div ?b + 1 < 4294967296" by linarith
  then have q1: "?n div ?b + 1 < 2 ^ 32" by simp
  have w: "unat ?w = (?n + ?b - 1) div ?b"
  proof (cases "?n mod ?b = 0")
    case True
    then have "m_MSB (dp_ciphertextModulus D) mod baseBits = 0" using M by (simp add: unat_eq_zero [symmetric] unat_mod)
    then show ?thesis using ceiling_div [OF b(1), of ?n] True by (simp add: unat_div M)
  next
    case False
    have "m_MSB (dp_ciphertextModulus D) mod baseBits \<noteq> 0"
      using False M unat_mod [of "m_MSB (dp_ciphertextModulus D)" baseBits] by (metis unat_0)
    moreover have "unat (m_MSB (dp_ciphertextModulus D) div baseBits + 1) = ?n div ?b + 1"
      using q1 by (simp add: unat_word_ariths(1) unat_div M)
    ultimately show ?thesis using ceiling_div [OF b(1), of ?n] False by simp
  qed
  have c16: "unat (ucast baseBits :: u16) = ?b" using b(2) by (simp add: unsigned_ucast_eq take_bit_nat_eq_self)
  let ?I = "\<lambda>i (t, rs). repr t (2 ^ (?b * i)) \<and> length rs = i \<and>
    (\<forall>k < i. drep D L (\<lambda>j. a j * 2 ^ (?b * Suc k)) (rs ! k) \<and> dc_format (rs ! k) = dc_format x)"
  let ?f = "\<lambda>i (twoPow, result). let twoPow = Big_LShiftEq twoPow (ucast baseBits)
      in ebind (new_towers (\<lambda>t v. ebind (get_at (dp_params (dc_params x)) t) (\<lambda>P.
             ebind (Big_Mod twoPow (ubint_of_limb (m_ciphertextModulus P))) (\<lambda>c. Poly_Times_s v (Big_ConvertToInt c))))
           (length (dc_vectors x)) x) (\<lambda>r. Inr (twoPow, result @ [r]))"
  have "\<exists>r. efor 0 (unat ?w) ?f (ubint_of_limb 1, []) = Inr r \<and> ?I (unat ?w) r"
  proof (rule efor_Inr [where P = ?I])
    fix i r assume i: "0 \<le> i" "i < unat ?w" and I: "?I i r"
    obtain t rs where r: "r = (t, rs)" by (cases r)
    let ?t = "Big_LShiftEq t (ucast baseBits)" and ?p = "2 ^ (?b * Suc i) :: nat"
    have "?b * Suc i \<le> ?b * unat ?w" using i(2) by (intro mult_le_mono2) simp
    also have "\<dots> \<le> ?n + ?b - 1" unfolding w by simp
    finally have "?b * Suc i + 1 < 2 ^ 32" using b(2) fits by simp
    then have "big_fits ?p" by (intro fits_power [of _ "?b * Suc i + 1"]) simp_all
    moreover have p: "?p = 2 ^ (?b * i) * 2 ^ unat (ucast baseBits :: u16)" by (simp add: c16 power_add mult.commute)
    ultimately have t: "repr ?t ?p" using I r Big_LShiftEq_LShift [of t "2 ^ (?b * i)" "ucast baseBits"] by simp
    have "\<exists>z. new_towers (\<lambda>j v. ebind (get_at (dp_params (dc_params x)) j) (\<lambda>P.
           ebind (Big_Mod ?t (ubint_of_limb (m_ciphertextModulus P))) (\<lambda>c. Poly_Times_s v (Big_ConvertToInt c))))
         (length (dc_vectors x)) x = Inr z \<and> dc_format z = dc_format x \<and> drep D L (\<lambda>j. a j * 2 ^ (?b * Suc i)) z"
    proof (rule new_towers_drep [OF x refl])
      fix j assume j: "j < length ?Ps"
      let ?q = "m_ciphertextModulus (?Ps ! j)"
      have q: "0 < unat ?q" using rns_okD(2) [OF dcrt_params_okD(1) [OF d] j] by (simp add: tower_q_def)
      obtain c where c: "Big_Mod ?t (ubint_of_limb ?q) = Inr c" "repr c (?p mod unat ?q)"
        using repr_Mod [OF t repr_limb q] by blast
      have "unat (Big_ConvertToInt c) = ?p mod unat ?q"
        using repr_ConvertToInt [OF c(2)] mod_less_divisor [OF q, of ?p] unat_less_64 [of ?q] by simp
      then have "iu (Big_ConvertToInt c) mod iu ?q = 2 ^ (?b * Suc i) mod iu ?q"
        by (simp only: of_nat_mod [symmetric] mod_mod_trivial of_nat_power of_nat_numeral) (simp only: of_nat_mod of_nat_power of_nat_numeral)
      from tower_times [OF d x j this] show "\<exists>u. ebind (get_at (dp_params (dc_params x)) j) (\<lambda>P.
           ebind (Big_Mod ?t (ubint_of_limb (m_ciphertextModulus P))) (\<lambda>c. Poly_Times_s (dc_vectors x ! j) (Big_ConvertToInt c))) = Inr u \<and>
           represents (?Ps ! j) L (\<lambda>j. a j * 2 ^ (?b * Suc i)) u \<and> m_format u = dc_format x"
        using c(1) j xd(1) by (auto simp: get_at_def)
    qed
    then show "\<exists>r'. ?f i r = Inr r' \<and> ?I (Suc i) r'" using I r t by (auto simp: Let_def nth_append less_Suc_eq)
  qed (use repr_limb [of 1] in simp_all)
  then obtain t rs where r: "efor 0 (unat ?w) ?f (ubint_of_limb 1, []) = Inr (t, rs)" "?I (unat ?w) (t, rs)" by auto
  have b0: "baseBits \<noteq> 0" using b(1) by auto
  have "Dcrt_PowersOfBase baseBits x = ebind (efor 0 (unat ?w) ?f (ubint_of_limb 1, [])) (\<lambda>(twoPow, result). Inr result)"
    unfolding Dcrt_PowersOfBase_def if_not_P [OF b0] xd(1) Let_def by (rule refl)
  then have "Dcrt_PowersOfBase baseBits x = Inr rs" unfolding r(1) by simp
  then show ?thesis using r(2) w by auto
qed

text \<open>One residue, taken into every other tower.\<close>

lemma crt_piece_ok:
  assumes d: "dcrt_params_ok D L" and x: "drep D L a e" and fe: "dc_format e = EVALUATION"
    and c: "drep D L a c" and fc: "dc_format c = COEFFICIENT" and cs: "towers_cached (dp_params D) L cs" and i: "i < length (dp_params D)"
  shows "\<exists>p cs'. rfold (\<lambda>k (d, cs) s.
         if i = k then Some (Inr ((d, cs), s))
         else rbind (switched_to draw (dc_vectors c ! k) (dc_vectors c ! i) s) (\<lambda>tmp s.
              rbind (SetFormat draw EVALUATION tmp cs s) (\<lambda>(tmp, cs) s.
                Some (Inr ((d\<lparr>dc_vectors := (dc_vectors d)[k := tmp]\<rparr>, cs), s)))))
       [0..<length (dp_params D)] (e, cs) s = Some (Inr ((p, cs'), s)) \<and> towers_cached (dp_params D) L cs' \<and>
     dc_format p = EVALUATION \<and> drep D L (\<lambda>j. symmetric_mod (a j) (tower_q (dp_params D) i)) p"
proof -
  let ?Ps = "dp_params D" and ?b = "\<lambda>j. symmetric_mod (a j) (tower_q (dp_params D) i)" and ?n = "length (dp_params D)"
  let ?f = "\<lambda>k (d, cs) s. if i = k then Some (Inr ((d, cs), s))
         else rbind (switched_to draw (dc_vectors c ! k) (dc_vectors c ! i) s) (\<lambda>tmp s.
              rbind (SetFormat draw EVALUATION tmp cs s) (\<lambda>(tmp, cs) s.
                Some (Inr ((d\<lparr>dc_vectors := (dc_vectors d)[k := tmp]\<rparr>, cs), s))))"
  let ?I = "\<lambda>k (p, cs). towers_cached ?Ps L cs \<and> dc_params p = D \<and> dc_format p = EVALUATION \<and> length (dc_vectors p) = ?n \<and>
    (\<forall>j < ?n. m_format (dc_vectors p ! j) = EVALUATION \<and> (j < k \<longrightarrow> represents (?Ps ! j) L ?b (dc_vectors p ! j)) \<and>
      (k \<le> j \<longrightarrow> dc_vectors p ! j = dc_vectors e ! j))"
  note r = dcrt_params_okD(1) [OF d] and xd = drepD [OF x] and cd = drepD [OF c]
  have q: "0 < tower_q ?Ps i" using rns_okD(2) [OF r i] by simp
  have own: "represents (?Ps ! i) L ?b (dc_vectors e ! i)"
    by (rule represents_cong [OF xd(3) [OF i]]) (use symmetric_mod(1) [OF q] in \<open>simp only: tower_q_def\<close>)
  have "\<exists>y. rfold ?f [0..<?n] (e, cs) s = Some (Inr (y, s)) \<and> ?I ?n y"
  proof (rule rfold_upt_Inr [where I = ?I])
    fix k y assume k: "0 \<le> k" "k < ?n" and I: "?I k y"
    obtain p cs where y: "y = (p, cs)" by (cases y)
    show "\<exists>y'. ?f k y s = Some (Inr (y', s)) \<and> ?I (Suc k) y'"
    proof (cases "i = k")
      case True
      then show ?thesis using I y own k by (auto simp: less_Suc_eq)
    next
      case False
      obtain u where u: "switched_to draw (dc_vectors c ! k) (dc_vectors c ! i) s = Some (Inr (u, s))" "m_format u = COEFFICIENT"
        "represents (?Ps ! k) L ?b u"
        using switched_to_rns [OF r k(2) cd(3) [OF k(2)] dcrt_params_okD(2) [OF d i] cd(3) [OF i], of draw s] cd(4) [OF i] fc
        unfolding tower_q_def by auto
      have cs: "towers_cached ?Ps L cs" using I y by simp
      obtain v cs' where v: "SetFormat draw EVALUATION u cs s = Some (Inr ((v, cs'), s))" "towers_cached ?Ps L cs'" "m_format v = EVALUATION"
        "represents (?Ps ! k) L ?b v"
        using tower_SetFormat [OF r k(2) u(3) cs, of draw EVALUATION s] by (elim exE conjE) (rule that)
      show ?thesis using I y k u(1) v False by (auto simp: nth_list_update less_Suc_eq)
    qed
  qed (use cs xd fe in auto)
  then obtain p cs' where p: "rfold ?f [0..<?n] (e, cs) s = Some (Inr ((p, cs'), s))" "?I ?n (p, cs')" by auto
  have "drep D L ?b p" using p(2) by (simp add: drep_def)
  then show ?thesis using p by (intro exI [of _ p] exI [of _ cs']) auto
qed

lemma CRTDecompose_zero_ok:
  assumes d: "dcrt_params_ok D L" and x: "drep D L a x" and cs: "towers_cached (dp_params D) L cs"
  shows "\<exists>ps cs'. CRTDecompose draw 0 x cs s = Some (Inr ((ps, cs'), s)) \<and> towers_cached (dp_params D) L cs' \<and>
    length ps = length (dp_params D) \<and>
    (\<forall>i < length ps. dc_format (ps ! i) = EVALUATION \<and> drep D L (\<lambda>j. symmetric_mod (a j) (tower_q (dp_params D) i)) (ps ! i))"
proof -
  let ?n = "length (dp_params D)"
  let ?ok = "\<lambda>i p. dc_format p = EVALUATION \<and> drep D L (\<lambda>j. symmetric_mod (a j) (tower_q (dp_params D) i)) p"
  obtain y cs1 where y: "Dcrt_SwitchFormat draw x cs s = Some (Inr ((y, cs1), s))" "towers_cached (dp_params D) L cs1"
    "dc_format y \<noteq> dc_format x" "drep D L a y" using Dcrt_SwitchFormat_drep [OF d x cs, of draw s] by (elim exE conjE) (rule that)
  define c e where "c = (if dc_format x = COEFFICIENT then x else y)" and "e = (if dc_format x = COEFFICIENT then y else x)"
  have c: "drep D L a c" "dc_format c = COEFFICIENT" and e: "drep D L a e" "dc_format e = EVALUATION"
    using x y(3,4) by (cases "dc_format x"; cases "dc_format y"; simp add: c_def e_def)+
  have lc: "length (dc_vectors c) = ?n" using drepD(2) [OF c(1)] .
  let ?f = "\<lambda>i (result, cs) s. rbind (rfold (\<lambda>k (d, cs) s.
         if i = k then Some (Inr ((d, cs), s))
         else rbind (switched_to draw (dc_vectors c ! k) (dc_vectors c ! i) s) (\<lambda>tmp s.
              rbind (SetFormat draw EVALUATION tmp cs s) (\<lambda>(tmp, cs) s.
                Some (Inr ((d\<lparr>dc_vectors := (dc_vectors d)[k := tmp]\<rparr>, cs), s)))))
       [0..<?n] (e, cs) s) (\<lambda>(d, cs) s. Some (Inr ((result @ [d], cs), s)))"
  let ?I = "\<lambda>i (ps, cs). towers_cached (dp_params D) L cs \<and> length ps = i \<and> (\<forall>k < i. ?ok k (ps ! k))"
  have "\<exists>z. rfold ?f [0..<?n] ([], cs1) s = Some (Inr (z, s)) \<and> ?I ?n z"
  proof (rule rfold_upt_Inr [where I = ?I])
    fix i z assume i: "0 \<le> i" "i < ?n" and I: "?I i z"
    obtain ps cs where z: "z = (ps, cs)" by (cases z)
    have cs: "towers_cached (dp_params D) L cs" using I z by simp
    from crt_piece_ok [OF d e c cs i(2), of draw s]
    show "\<exists>z'. ?f i z s = Some (Inr (z', s)) \<and> ?I (Suc i) z'" using I z by (auto simp: nth_append less_Suc_eq)
  qed (use y(2) in auto)
  then obtain ps cs' where p: "rfold ?f [0..<?n] ([], cs1) s = Some (Inr ((ps, cs'), s))" "?I ?n (ps, cs')" by auto
  have "CRTDecompose draw 0 x cs s = crt_pieces draw c e cs1 s" using y(1) by (simp add: CRTDecompose_def c_def e_def)
  also have "\<dots> = Some (Inr ((ps, cs'), s))" using p(1) unfolding crt_pieces_def lc .
  finally show ?thesis using p(2) by auto
qed

end
