(* ===== verification/DcrtProps.thy ===== *)
theory DcrtProps
  imports DcrtFacts
begin

text \<open>
  The properties of the polynomials over several moduli.
\<close>

lemma crt_hat_two: "crt_hat q 2 0 = q 1" "crt_hat q 2 (Suc 0) = q 0"
proof -
  have "{..<2} - {0 :: nat} = {1}" "{..<2} - {Suc 0} = {0}" by auto
  then show "crt_hat q 2 0 = q 1" "crt_hat q 2 (Suc 0) = q 0" by (simp_all add: crt_hat_def)
qed

lemma all_less_two: "(\<forall>i < Suc (Suc 0). P i) \<longleftrightarrow> P 0 \<and> P (Suc 0)"
  by (auto simp: less_Suc_eq)

lemma last_modulus:
  assumes "dcrt_params_ok D L" "1 < length (dp_params D)"
  shows "int (tower_q (dp_params D) (length (dp_params D) - 1)) = iu (m_ciphertextModulus (last (dp_params D)))"
    "0 < tower_q (dp_params D) (length (dp_params D) - 1)"
proof -
  have ne: "dp_params D \<noteq> []" and l: "length (dp_params D) - 1 < length (dp_params D)" using assms(2) by auto
  show "int (tower_q (dp_params D) (length (dp_params D) - 1)) = iu (m_ciphertextModulus (last (dp_params D)))"
    by (simp add: tower_q_def last_conv_nth [OF ne])
  show "0 < tower_q (dp_params D) (length (dp_params D) - 1)"
    using rns_okD(2) [OF dcrt_params_okD(1) [OF assms(1)] l] by linarith
qed

section \<open>Properties\<close>

text \<open>
  C16. Arithmetic of polynomials over several moduli refines arithmetic of integer polynomials: sums,
  differences and negation act entry by entry, the compound assignments agree with the operators, and nothing
  fails for objects in one format.
\<close>

theorem dcrt_arithmetic:
  assumes "dcrt_params_ok D L" "drep D L a x" "drep D L b y" "dc_format x = dc_format y"
  shows "\<exists>u v w. Dcrt_Plus x y = Inr u \<and> Dcrt_PlusEq x y = Inr u \<and> drep D L (\<lambda>i. a i + b i) u \<and> dc_format u = dc_format x \<and>
    Dcrt_Minus x y = Inr v \<and> Dcrt_MinusEq x y = Inr v \<and> drep D L (\<lambda>i. a i - b i) v \<and> dc_format v = dc_format x \<and>
    Dcrt_Negate x = Inr w \<and> Dcrt_uminus x = Inr w \<and> drep D L (\<lambda>i. - a i) w \<and> dc_format w = dc_format x"
proof -
  have one: "\<exists>z. r = Inr z \<and> r' = Inr z \<and> drep D L c z \<and> dc_format z = dc_format x"
    if "\<exists>z. r = Inr z \<and> dc_format z = dc_format x \<and> drep D L c z" "\<exists>z. r' = Inr z \<and> dc_format z = dc_format x \<and> drep D L c z" for r r' c
    using that drep_unique by metis
  show ?thesis using one [OF Dcrt_Plus_drep [OF assms]] one [OF Dcrt_Minus_drep [OF assms]] one [OF Dcrt_Negate_drep [OF assms(1,2)]] by blast
qed

theorem dcrt_arithmetic_witness:
  "\<exists>u. Dcrt_Plus (object_for chain_17_41 2 EVALUATION (\<lambda>i. 600 + int i)) (object_for chain_17_41 2 EVALUATION (\<lambda>i. 96)) = Inr u \<and>
    drep chain_17_41 2 (\<lambda>i. 696 + int i) u"
  using dcrt_arithmetic [OF chain_17_41 object_for_drep(1) [OF chain_17_41] object_for_drep(1) [OF chain_17_41],
      of EVALUATION "\<lambda>i. 600 + int i" EVALUATION "\<lambda>i. 96"] object_for_drep(2) [OF chain_17_41]
  by (auto simp: add.assoc add.commute)

text \<open>
  C15. Multiplication in evaluation format is the product of integer polynomials modulo \<open>X ^ n + 1\<close>; a scalar
  of arbitrary length multiplies by its lowest 64 bits only; a list of words, or of multi-precision numbers that fit a
  word, one for each modulus, multiplies by the number with these residues.
\<close>

theorem dcrt_multiplication:
  assumes "dcrt_params_ok D L" "drep D L a x" "drep D L b y" "dc_format x = EVALUATION" "dc_format y = EVALUATION" "repr c n"
    and "length cs = length (dp_params D)" "length es = length (dp_params D)"
    and "\<And>i. i < length (dp_params D) \<Longrightarrow> iu (cs ! i) mod iu (m_ciphertextModulus (dp_params D ! i)) = k mod iu (m_ciphertextModulus (dp_params D ! i))"
    and "\<And>i. i < length (dp_params D) \<Longrightarrow> repr (es ! i) (unat (cs ! i))"
  shows "\<exists>u v w. Dcrt_Times x y = Inr u \<and> Dcrt_TimesEq x y = Inr u \<and> drep D L (negacyclic (2 ^ L) a b) u \<and> dc_format u = EVALUATION \<and>
    Dcrt_Times_int x c = Inr v \<and> Dcrt_TimesEq_int x c = Inr v \<and> drep D L (\<lambda>i. a i * int (n mod 2 ^ 64)) v \<and> dc_format v = EVALUATION \<and>
    Dcrt_Times_each x cs = Inr w \<and> Dcrt_TimesNoCheck x cs = Inr w \<and> Dcrt_Times_crt x es = Inr w \<and> drep D L (\<lambda>i. a i * k) w \<and>
    dc_format w = EVALUATION"
proof -
  have one: "\<exists>z. r = Inr z \<and> r' = Inr z \<and> drep D L c z \<and> dc_format z = EVALUATION"
    if "\<exists>z. r = Inr z \<and> dc_format z = EVALUATION \<and> drep D L c z" "\<exists>z. r' = Inr z \<and> dc_format z = EVALUATION \<and> drep D L c z" for r r' c
    using that drep_unique by metis
  have e: "repr (es ! i) (unat (cs ! i)) \<and>
      int (unat (cs ! i) mod 2 ^ 64) mod iu (m_ciphertextModulus (dp_params D ! i)) = k mod iu (m_ciphertextModulus (dp_params D ! i))"
    if "i < length (dp_params D)" for i using assms(9,10) [OF that] unat_less_64 [of "cs ! i"] by simp
  obtain w where w: "Dcrt_Times_each x cs = Inr w" "Dcrt_TimesNoCheck x cs = Inr w" "dc_format w = EVALUATION" "drep D L (\<lambda>i. a i * k) w"
    using Dcrt_Times_each_drep [OF assms(1,2,7), of k] assms(4,7,9) by auto
  obtain w' where w': "Dcrt_Times_crt x es = Inr w'" "dc_format w' = EVALUATION" "drep D L (\<lambda>i. a i * k) w'"
    using Dcrt_Times_crt_drep [OF assms(1,2) _ e] assms(4,8) by auto
  have "w' = w" by (rule drep_unique [OF w'(3) w(4)]) (simp only: w(3) w'(2))
  then show ?thesis using one [OF Dcrt_Times_drep [OF assms(1-5)]] one [OF Dcrt_Times_int_drep [OF assms(1,2,6), unfolded assms(4)]] w w'(1) by blast
qed

theorem dcrt_multiplication_witness:
  "\<exists>u v w. Dcrt_Times (object_for chain_17_41 2 EVALUATION int) (object_for chain_17_41 2 EVALUATION (\<lambda>i. 100 - int i)) = Inr u \<and>
    drep chain_17_41 2 (negacyclic (2 ^ 2) int (\<lambda>i. 100 - int i)) u \<and>
    Dcrt_Times_int (object_for chain_17_41 2 EVALUATION int) (ubint_of_limb 30) = Inr v \<and>
    drep chain_17_41 2 (\<lambda>i. int i * 30) v \<and>
    Dcrt_Times_each (object_for chain_17_41 2 EVALUATION int) [15, 18] = Inr w \<and>
    Dcrt_Times_crt (object_for chain_17_41 2 EVALUATION int) [ubint_of_limb 15, ubint_of_limb 18] = Inr w \<and>
    drep chain_17_41 2 (\<lambda>i. int i * 100) w"
proof -
  have c: "iu ([15, 18 :: u64] ! i) mod iu (m_ciphertextModulus (dp_params chain_17_41 ! i)) = 100 mod iu (m_ciphertextModulus (dp_params chain_17_41 ! i))"
    if "i < length (dp_params chain_17_41)" for i using that by (auto simp: chain_of_def ring_of_def less_Suc_eq)
  have e: "repr ([ubint_of_limb 15, ubint_of_limb 18] ! i) (unat ([15, 18 :: u64] ! i))" if "i < length (dp_params chain_17_41)" for i
    using that repr_limb [of 15] repr_limb [of 18] by (auto simp: chain_of_def less_Suc_eq)
  have l: "length [15, 18 :: u64] = length (dp_params chain_17_41)" "length [ubint_of_limb 15, ubint_of_limb 18] = length (dp_params chain_17_41)"
    by (simp_all add: chain_of_def)
  have "\<exists>u v w. Dcrt_Times (object_for chain_17_41 2 EVALUATION int) (object_for chain_17_41 2 EVALUATION (\<lambda>i. 100 - int i)) = Inr u \<and>
    Dcrt_TimesEq (object_for chain_17_41 2 EVALUATION int) (object_for chain_17_41 2 EVALUATION (\<lambda>i. 100 - int i)) = Inr u \<and>
    drep chain_17_41 2 (negacyclic (2 ^ 2) int (\<lambda>i. 100 - int i)) u \<and> dc_format u = EVALUATION \<and>
    Dcrt_Times_int (object_for chain_17_41 2 EVALUATION int) (ubint_of_limb 30) = Inr v \<and>
    Dcrt_TimesEq_int (object_for chain_17_41 2 EVALUATION int) (ubint_of_limb 30) = Inr v \<and>
    drep chain_17_41 2 (\<lambda>i. int i * int (unat (30 :: u64) mod 2 ^ 64)) v \<and> dc_format v = EVALUATION \<and>
    Dcrt_Times_each (object_for chain_17_41 2 EVALUATION int) [15, 18] = Inr w \<and>
    Dcrt_TimesNoCheck (object_for chain_17_41 2 EVALUATION int) [15, 18] = Inr w \<and>
    Dcrt_Times_crt (object_for chain_17_41 2 EVALUATION int) [ubint_of_limb 15, ubint_of_limb 18] = Inr w \<and>
    drep chain_17_41 2 (\<lambda>i. int i * 100) w \<and> dc_format w = EVALUATION"
    by (rule dcrt_multiplication [OF chain_17_41 object_for_drep(1) [OF chain_17_41] object_for_drep(1) [OF chain_17_41]
        object_for_drep(2) [OF chain_17_41] object_for_drep(2) [OF chain_17_41] repr_limb l]) (erule c, erule e)
  then show ?thesis by auto
qed

text \<open>
  C7. Interpolation computes the coefficients modulo the product of all moduli as multi-precision numbers, and
  taking their residues again gives the object back, word for word.
\<close>

theorem dcrt_interpolation:
  assumes "dcrt_params_ok D L" "drep D L a x" "dc_format x = COEFFICIENT" "big_fits (length (dp_params D) * 2 ^ 60 * big_q D)"
  shows "\<exists>p. Dcrt_CRTInterpolate draw x s = Some (Inr (p, s)) \<and> length (bp_values p) = 2 ^ L \<and>
    (\<forall>j < 2 ^ L. repr (bp_values p ! j) (nat (a j mod int (big_q D)))) \<and> DCRTPolyImpl_large p D = Inr x"
proof -
  obtain p where p: "Dcrt_CRTInterpolate draw x s = Some (Inr (p, s))" "bp_format p = COEFFICIENT" "length (bp_values p) = 2 ^ L"
    "\<forall>j < 2 ^ L. repr (bp_values p ! j) (nat (a j mod int (big_q D)))"
    using CRTInterpolate_ok [OF assms, of draw s] by auto
  obtain y where y: "DCRTPolyImpl_large p D = Inr y" "dc_format y = COEFFICIENT" "drep D L (\<lambda>j. int (nat (a j mod int (big_q D)))) y"
    using DCRTPolyImpl_large_ok [OF assms(1) p(2,3), of "\<lambda>j. nat (a j mod int (big_q D))"] p(4) by auto
  have "0 < big_q D" using chain_pos [OF rns_chain [OF dcrt_params_okD(1) [OF assms(1)]]] by (simp only: big_q_prod)
  then have "drep D L a y" by (intro drep_cong [OF assms(1) y(3)]) simp
  then have "y = x" by (rule drep_unique [OF _ assms(2)]) (simp add: y(2) assms(3))
  then show ?thesis using p y(1) by auto
qed

theorem dcrt_interpolation_witness:
  "\<exists>p. Dcrt_CRTInterpolate (\<lambda>n s. (0, s)) (object_for chain_17_41 2 COEFFICIENT (\<lambda>i. 600 - int i)) () = Some (Inr (p, ())) \<and>
    repr (bp_values p ! 3) 597 \<and> DCRTPolyImpl_large p chain_17_41 = Inr (object_for chain_17_41 2 COEFFICIENT (\<lambda>i. 600 - int i))"
proof -
  have "big_fits (length (dp_params chain_17_41) * 2 ^ 60 * big_q chain_17_41)"
    by (rule big_fits_200) (simp add: chain_of_def big_q_def ring_of_def)
  from dcrt_interpolation [OF chain_17_41 object_for_drep(1) [OF chain_17_41, of "\<lambda>i. 600 - int i" COEFFICIENT]
      object_for_drep(2) [OF chain_17_41] this, of "\<lambda>n s. (0, s)" "()"]
  obtain p where p: "Dcrt_CRTInterpolate (\<lambda>n s. (0, s)) (object_for chain_17_41 2 COEFFICIENT (\<lambda>i. 600 - int i)) () = Some (Inr (p, ()))"
    "\<forall>j < 2 ^ 2. repr (bp_values p ! j) (nat ((600 - int j) mod int (big_q chain_17_41)))"
    "DCRTPolyImpl_large p chain_17_41 = Inr (object_for chain_17_41 2 COEFFICIENT (\<lambda>i. 600 - int i))" by blast
  have "repr (bp_values p ! 3) (nat ((600 - int 3) mod int (big_q chain_17_41)))" using p(2) by (rule allE [of _ 3]) simp
  then have "repr (bp_values p ! 3) 597" by (simp add: chain_of_def big_q_def ring_of_def)
  then show ?thesis using p by blast
qed

text \<open>
  C8. Rescaling in evaluation format removes the last modulus and divides by it, rounding to a nearest integer; the
  remaining chain is well formed.
\<close>

theorem rescaling_rounds:
  assumes "dcrt_params_ok D L" "drep D L a x" "dc_format x = EVALUATION" "1 < length (dp_params D)"
    "rescale_tables (dp_params D) T C" "towers_cached (dp_params D) L cs"
  shows "\<exists>y cs' D' b. DropLastElementAndScale draw T C x cs s = Some (Inr ((y, cs'), s)) \<and>
    dcrt_params_ok D' L \<and> dp_params D' = butlast (dp_params D) \<and> dc_format y = EVALUATION \<and> drep D' L b y \<and>
    (\<forall>j. 2 * \<bar>a j - iu (m_ciphertextModulus (last (dp_params D))) * b j\<bar> \<le> iu (m_ciphertextModulus (last (dp_params D))))"
proof -
  let ?Ps = "dp_params D" let ?q = "tower_q ?Ps (length ?Ps - 1)" let ?b = "\<lambda>j. rounded_quotient_by ?q (a j)"
  obtain y cs' D' where y: "DropLastElementAndScale draw T C x cs s = Some (Inr ((y, cs'), s))" "dcrt_params_ok D' L"
    "dp_params D' = butlast ?Ps" "dc_format y = dc_format x" "drep D' L ?b (y\<lparr>dc_format := EVALUATION\<rparr>)"
    using DropLastElementAndScale_ok [OF assms(1,2,4-6), of draw s] by (elim exE conjE) (rule that)
  note q = last_modulus [OF assms(1,4)]
  have "y\<lparr>dc_format := EVALUATION\<rparr> = y" using y(4) assms(3) by simp
  with y(5) have "drep D' L ?b y" by simp
  then show ?thesis using y(1-4) assms(3) rounded_quotient_by(2) [OF q(2)] unfolding q(1) [symmetric]
    by (intro exI [of _ y] exI [of _ cs'] exI [of _ D'] exI [of _ ?b]) auto
qed

theorem rescaling_rounds_witness:
  "\<exists>y cs' D' b. DropLastElementAndScale (\<lambda>n s. (0, s)) [12] [5] (object_for chain_17_41 2 EVALUATION (\<lambda>i. 600 - int i)) (Reset, arb_init) () =
      Some (Inr ((y, cs'), ())) \<and> drep D' 2 b y \<and> dp_params D' = [ring_of 17 2] \<and> b 3 = 15"
proof -
  have T: "rescale_tables (dp_params chain_17_41) [12] [5]"
    by (simp add: rescale_tables_def chain_of_def tower_q_def ring_of_def)
  obtain y cs' D' b where y: "DropLastElementAndScale (\<lambda>n s. (0, s)) [12] [5] (object_for chain_17_41 2 EVALUATION (\<lambda>i. 600 - int i)) (Reset, arb_init) () =
      Some (Inr ((y, cs'), ()))" "drep D' 2 b y" "dp_params D' = butlast (dp_params chain_17_41)"
    "\<forall>j. 2 * \<bar>600 - int j - iu (m_ciphertextModulus (last (dp_params chain_17_41))) * b j\<bar> \<le> iu (m_ciphertextModulus (last (dp_params chain_17_41)))"
    using rescaling_rounds [OF chain_17_41 object_for_drep(1) [OF chain_17_41, of "\<lambda>i. 600 - int i" EVALUATION]
      object_for_drep(2) [OF chain_17_41] _ T no_tables, of "\<lambda>n s. (0, s)" "()"] by (auto simp: chain_of_def)
  have "2 * \<bar>597 - 41 * b 3\<bar> \<le> 41" using spec [OF y(4), of 3] by (simp add: chain_of_def ring_of_def)
  then have "b 3 = 15" by presburger
  then show ?thesis using y(1-3) by (auto simp: chain_of_def)
qed

text \<open>
  C31. In coefficient format the same operation leaves every tower in evaluation format while the object still
  says coefficient format.
\<close>

theorem rescaling_format_lost:
  assumes "dcrt_params_ok D L" "drep D L a x" "dc_format x = COEFFICIENT" "1 < length (dp_params D)"
    "rescale_tables (dp_params D) T C" "towers_cached (dp_params D) L cs"
  shows "\<exists>y cs'. DropLastElementAndScale draw T C x cs s = Some (Inr ((y, cs'), s)) \<and> dc_format y = COEFFICIENT \<and>
    dc_vectors y \<noteq> [] \<and> (\<forall>t \<in> set (dc_vectors y). m_format t = EVALUATION)"
proof -
  obtain y cs' D' b where y: "DropLastElementAndScale draw T C x cs s = Some (Inr ((y, cs'), s))" "dcrt_params_ok D' L"
    "dp_params D' = butlast (dp_params D)" "dc_format y = dc_format x" "drep D' L b (y\<lparr>dc_format := EVALUATION\<rparr>)"
    using DropLastElementAndScale_ok [OF assms(1,2,4-6), of draw s] by (elim exE conjE) (rule that)
  have "m_format t = EVALUATION" if "t \<in> set (dc_vectors y)" for t
    using that drepD(2,4) [OF y(5)] by (auto simp: in_set_conv_nth)
  moreover have "dc_vectors y \<noteq> []" using drepD(2) [OF y(5)] dcrt_params_okD(3) [OF y(2)] by auto
  ultimately show ?thesis using y(1,4) assms(3) by auto
qed

theorem rescaling_format_lost_witness:
  "\<exists>y cs'. DropLastElementAndScale (\<lambda>n s. (0, s)) [12] [5] (object_for chain_17_41 2 COEFFICIENT (\<lambda>i. 600 - int i)) (Reset, arb_init) () =
      Some (Inr ((y, cs'), ())) \<and> dc_format y = COEFFICIENT \<and> m_format (hd (dc_vectors y)) = EVALUATION"
proof -
  have T: "rescale_tables (dp_params chain_17_41) [12] [5]"
    by (simp add: rescale_tables_def chain_of_def tower_q_def ring_of_def)
  show ?thesis
    using rescaling_format_lost [OF chain_17_41 object_for_drep(1) [OF chain_17_41, of "\<lambda>i. 600 - int i" COEFFICIENT]
      object_for_drep(2) [OF chain_17_41] _ T no_tables, of "\<lambda>n s. (0, s)" "()"] by (auto simp: chain_of_def)
qed

text \<open>
  C9. The modulus reduction of BGV divides by the last modulus and keeps the value modulo the plaintext modulus
  up to that factor; the error is at most half of the plaintext modulus.
\<close>

theorem modulus_reduction:
  assumes "dcrt_params_ok D L" "drep D L a x" "1 < length (dp_params D)" "reduce_tables (dp_params D) t u C" "towers_cached (dp_params D) L cs"
  shows "\<exists>y cs' D' b. ModReduce draw t u C x cs s = Some (Inr ((y, cs'), s)) \<and> dcrt_params_ok D' L \<and>
    dp_params D' = butlast (dp_params D) \<and> dc_format y = dc_format x \<and> drep D' L b y \<and>
    (\<forall>j. (iu (m_ciphertextModulus (last (dp_params D))) * b j) mod iu t = a j mod iu t \<and>
      2 * \<bar>iu (m_ciphertextModulus (last (dp_params D))) * b j - a j\<bar> \<le> iu t * iu (m_ciphertextModulus (last (dp_params D))))"
proof -
  let ?Ps = "dp_params D" let ?q = "tower_q ?Ps (length ?Ps - 1)" let ?b = "\<lambda>j. bgv_quotient ?q (iu t) (iu u) (a j)"
  obtain y cs' D' where y: "ModReduce draw t u C x cs s = Some (Inr ((y, cs'), s))" "dcrt_params_ok D' L"
    "dp_params D' = butlast ?Ps" "dc_format y = dc_format x" "drep D' L ?b y"
    using ModReduce_ok [OF assms, of draw s] by (elim exE conjE) (rule that)
  note q = last_modulus [OF assms(1,3)]
  have u: "int ?q dvd iu t * iu u + 1" using assms(4) by (simp add: reduce_tables_def)
  show ?thesis using y bgv_quotient(2,3) [OF q(2) u] unfolding q(1) [symmetric]
    by (intro exI [of _ y] exI [of _ cs'] exI [of _ D'] exI [of _ ?b]) auto
qed

theorem modulus_reduction_witness:
  "\<exists>y cs' D' b. ModReduce (\<lambda>n s. (0, s)) 5 8 [5] (object_for chain_17_41 2 EVALUATION (\<lambda>i. 600 - int i)) (Reset, arb_init) () =
      Some (Inr ((y, cs'), ())) \<and> drep D' 2 b y \<and> dp_params D' = [ring_of 17 2] \<and> (41 * b 3) mod 5 = 2"
proof -
  have T: "reduce_tables (dp_params chain_17_41) 5 8 [5]"
    by (simp add: reduce_tables_def chain_of_def tower_q_def ring_of_def)
  obtain y cs' D' b where y: "ModReduce (\<lambda>n s. (0, s)) 5 8 [5] (object_for chain_17_41 2 EVALUATION (\<lambda>i. 600 - int i)) (Reset, arb_init) () =
      Some (Inr ((y, cs'), ()))" "drep D' 2 b y" "dp_params D' = butlast (dp_params chain_17_41)"
    "\<forall>j. (iu (m_ciphertextModulus (last (dp_params chain_17_41))) * b j) mod iu (5 :: u64) = (600 - int j) mod iu (5 :: u64)"
    using modulus_reduction [OF chain_17_41 object_for_drep(1) [OF chain_17_41, of "\<lambda>i. 600 - int i" EVALUATION]
      _ T no_tables, of "\<lambda>n s. (0, s)" "()"] by (auto simp: chain_of_def)
  have "(41 * b 3) mod 5 = 2" using spec [OF y(4), of 3] by (simp add: chain_of_def ring_of_def)
  then show ?thesis using y(1-3) by (auto simp: chain_of_def)
qed

text \<open>
  C17. Invariant of an object: parameters whose modulus is the product of pairwise coprime tower moduli, one
  tower for each of them. The constructor from moduli and roots establishes the invariant of the parameters, and
  dropping towers keeps it and the integer polynomial.
\<close>

theorem dcrt_invariant:
  assumes "0 < L" "L \<le> 24" "unat order = 2 ^ Suc L" "length rs = length qs" "60 * length qs + 1 < 2 ^ 32" "k < length qs"
    "\<And>i. i < length qs \<Longrightarrow> ntt_params (qs ! i) (rs ! i) order L"
    "\<And>i j. i < length qs \<Longrightarrow> j < length qs \<Longrightarrow> i \<noteq> j \<Longrightarrow> coprime (unat (qs ! i)) (unat (qs ! j))"
  shows "\<exists>D D'. ILDCRTParams_roots draw order qs rs s = Some (Inr (D, s)) \<and> dcrt_params_ok D L \<and>
    map m_ciphertextModulus (dp_params D') = take (length qs - k) qs \<and> dcrt_params_ok D' L \<and>
    (\<forall>a x. drep D L a x \<longrightarrow> (\<exists>y. DropLastElements k x = Inr y \<and> dc_format y = dc_format x \<and> drep D' L a y))"
proof -
  have ne: "qs \<noteq> []" using assms(6) by auto
  obtain D where D: "ILDCRTParams_roots draw order qs rs s = Some (Inr (D, s))" "dcrt_params_ok D L"
    "map m_ciphertextModulus (dp_params D) = qs"
    using ILDCRTParams_roots_ok [OF assms(1-4) ne assms(7,8,5), of draw s] by blast
  have k: "k < length (dp_params D)" using assms(6) D(3) by auto
  obtain D' where D': "efor 0 k (\<lambda>_. PopLastParam) D = Inr D'" "dcrt_params_ok D' L"
    "dp_params D' = take (length (dp_params D) - k) (dp_params D)" using PopLastParams_ok [OF D(2) k] by blast
  have "\<exists>y. DropLastElements k x = Inr y \<and> dc_format y = dc_format x \<and> drep D' L a y" if x: "drep D L a x" for a x
  proof -
    obtain E where E: "DropLastElements k x = Inr (x\<lparr>dc_params := E, dc_vectors := take (length (dc_vectors x) - k) (dc_vectors x)\<rparr>)"
      "drep E L a (x\<lparr>dc_params := E, dc_vectors := take (length (dc_vectors x) - k) (dc_vectors x)\<rparr>)"
      using DropLastElements_ok [OF D(2) x k] by blast
    have "x\<lparr>dc_params := D', dc_vectors := take (length (dc_vectors x) - k) (dc_vectors x)\<rparr> =
        x\<lparr>dc_params := E, dc_vectors := take (length (dc_vectors x) - k) (dc_vectors x)\<rparr>"
      using E(1) D'(1) drepD(1,2) [OF x] k by (simp add: DropLastElements_def)
    from arg_cong [OF this, of dc_params] have "E = D'" by simp
    then show ?thesis using E by auto
  qed
  moreover have "map m_ciphertextModulus (dp_params D') = take (length qs - k) qs"
    unfolding D'(3) take_map [symmetric] D(3) using arg_cong [OF D(3), of length] by simp
  ultimately show ?thesis using D D'(2) by blast
qed

theorem dcrt_invariant_witness:
  "\<exists>D D'. ILDCRTParams_roots (\<lambda>n s. (0, s)) 8 [17, 41, 73] [2, 3, 10] () = Some (Inr (D, ())) \<and> dcrt_params_ok D 2 \<and>
    dcrt_params_ok D' 2 \<and> map m_ciphertextModulus (dp_params D') = [17, 41]"
proof -
  have p: "ntt_params ([17, 41, 73 :: u64] ! i) ([2, 3, 10 :: u64] ! i) 8 2" if "i < length [17, 41, 73 :: u64]" for i
    using that rings_ok by (auto simp: less_Suc_eq ring_ok_def ring_of_def)
  have c: "coprime (unat ([17, 41, 73 :: u64] ! i)) (unat ([17, 41, 73 :: u64] ! j))"
    if "i < length [17, 41, 73 :: u64]" "j < length [17, 41, 73 :: u64]" "i \<noteq> j" for i j
    using that coprime_small by (auto simp: less_Suc_eq)
  have o: "unat (8 :: u32) = 2 ^ Suc 2" by simp
  have l: "length [2, 3, 10 :: u64] = length [17, 41, 73 :: u64]" "60 * length [17, 41, 73 :: u64] + 1 < 2 ^ 32" "1 < length [17, 41, 73 :: u64]"
    by simp_all
  have l4: "take (length [17, 41, 73 :: u64] - 1) [17, 41, 73 :: u64] = [17, 41]" by (simp add: numeral_2_eq_2)
  have L: "0 < (2 :: nat)" "(2 :: nat) \<le> 24" by simp_all
  have "\<exists>D D'. ILDCRTParams_roots (\<lambda>n s. (0, s)) 8 [17, 41, 73] [2, 3, 10] () = Some (Inr (D, ())) \<and> dcrt_params_ok D 2 \<and>
      map m_ciphertextModulus (dp_params D') = take (length [17, 41, 73 :: u64] - 1) [17, 41, 73] \<and> dcrt_params_ok D' 2 \<and>
      (\<forall>a x. drep D 2 a x \<longrightarrow> (\<exists>y. DropLastElements 1 x = Inr y \<and> dc_format y = dc_format x \<and> drep D' 2 a y))"
    by (rule dcrt_invariant [OF L o l]) (fact p, fact c)
  then show ?thesis unfolding l4 by (elim exE conjE) (intro exI conjI; assumption)
qed

text \<open>
  C30. The powers of the base that an object is multiplied with start at the base itself: entry \<open>i\<close> stands for
  \<open>a * 2 ^ (baseBits * (i + 1))\<close>.
\<close>

theorem powers_of_base_shifted:
  assumes "dcrt_params_ok D L" "drep D L a x" "0 < unat baseBits" "unat baseBits < 2 ^ 16" "bit_len (big_q D) + 2 ^ 17 < 2 ^ 32"
  shows "\<exists>rs. Dcrt_PowersOfBase baseBits x = Inr rs \<and> length rs = (bit_len (big_q D) + unat baseBits - 1) div unat baseBits \<and>
    (\<forall>i < length rs. drep D L (\<lambda>j. a j * 2 ^ (unat baseBits * Suc i)) (rs ! i) \<and> dc_format (rs ! i) = dc_format x)"
  by (rule PowersOfBase_ok [OF assms])

theorem powers_of_base_shifted_witness:
  "\<exists>rs. Dcrt_PowersOfBase 4 (object_for chain_17_41 2 EVALUATION int) = Inr rs \<and> length rs = 3 \<and>
    drep chain_17_41 2 (\<lambda>j. int j * 16) (rs ! 0)"
proof -
  have q: "bit_len (big_q chain_17_41) = 10" by (simp add: chain_of_def big_q_def ring_of_def bit_len.simps)
  obtain rs where rs: "Dcrt_PowersOfBase 4 (object_for chain_17_41 2 EVALUATION int) = Inr rs" "length rs = (10 + unat (4 :: u32) - 1) div unat (4 :: u32)"
    "\<forall>i < length rs. drep chain_17_41 2 (\<lambda>j. int j * 2 ^ (unat (4 :: u32) * Suc i)) (rs ! i)"
    using powers_of_base_shifted [OF chain_17_41 object_for_drep(1) [OF chain_17_41, of int EVALUATION], of 4] unfolding q by auto
  show ?thesis using rs(1,2) rs(3) [rule_format, of 0] by simp
qed

text \<open>
  C18. The decomposition with base zero splits an object into one object for each modulus, whose integer polynomial
  is the residue of least absolute value modulo it.
\<close>

theorem crt_decomposition:
  assumes "dcrt_params_ok D L" "drep D L a x" "towers_cached (dp_params D) L cs"
  shows "\<exists>ps cs' b. CRTDecompose draw 0 x cs s = Some (Inr ((ps, cs'), s)) \<and> length ps = length (dp_params D) \<and>
    (\<forall>i < length ps. drep D L (b i) (ps ! i) \<and> dc_format (ps ! i) = EVALUATION \<and>
      (\<forall>j. iu (m_ciphertextModulus (dp_params D ! i)) dvd a j - b i j \<and> 2 * \<bar>b i j\<bar> \<le> iu (m_ciphertextModulus (dp_params D ! i))))"
proof -
  obtain ps cs' where p: "CRTDecompose draw 0 x cs s = Some (Inr ((ps, cs'), s))" "length ps = length (dp_params D)"
    "\<forall>i < length ps. dc_format (ps ! i) = EVALUATION \<and> drep D L (\<lambda>j. symmetric_mod (a j) (tower_q (dp_params D) i)) (ps ! i)"
    using CRTDecompose_zero_ok [OF assms, of draw s] by (elim exE conjE) (rule that)
  have "0 < tower_q (dp_params D) i" if "i < length (dp_params D)" for i
    using rns_okD(2) [OF dcrt_params_okD(1) [OF assms(1)] that] by simp
  then show ?thesis using p symmetric_mod(2,3)
    by (intro exI [of _ ps] exI [of _ cs'] exI [of _ "\<lambda>i j. symmetric_mod (a j) (tower_q (dp_params D) i)"])
      (simp add: tower_q_def [symmetric] del: of_nat_unat)
qed

theorem crt_decomposition_witness:
  "\<exists>ps cs' (b :: nat \<Rightarrow> nat \<Rightarrow> int). CRTDecompose (\<lambda>n s. (0, s)) 0 (object_for chain_17_41 2 EVALUATION (\<lambda>i. 600 - int i)) (Reset, arb_init) () =
      Some (Inr ((ps, cs'), ())) \<and> length ps = 2 \<and> drep chain_17_41 2 (b 0) (ps ! 0) \<and> (17 :: int) dvd 597 - b 0 3 \<and> 2 * \<bar>b 0 3\<bar> \<le> (17 :: int)"
proof -
  obtain ps cs' b where p: "CRTDecompose (\<lambda>n s. (0, s)) 0 (object_for chain_17_41 2 EVALUATION (\<lambda>i. 600 - int i)) (Reset, arb_init) () =
      Some (Inr ((ps, cs'), ()))" "length ps = length (dp_params chain_17_41)"
    "\<forall>i < length ps. drep chain_17_41 2 (b i) (ps ! i) \<and> dc_format (ps ! i) = EVALUATION \<and>
      (\<forall>j. iu (m_ciphertextModulus (dp_params chain_17_41 ! i)) dvd 600 - int j - b i j \<and>
        2 * \<bar>b i j\<bar> \<le> iu (m_ciphertextModulus (dp_params chain_17_41 ! i)))"
    using crt_decomposition [OF chain_17_41 object_for_drep(1) [OF chain_17_41, of "\<lambda>i. 600 - int i" EVALUATION] no_tables,
      of "\<lambda>n s. (0, s)" "()"] by (elim exE conjE) (rule that)
  have l: "length ps = 2" using p(2) by (simp add: chain_of_def)
  have h: "drep chain_17_41 2 (b 0) (ps ! 0)" "\<forall>j. iu (m_ciphertextModulus (dp_params chain_17_41 ! 0)) dvd 600 - int j - b 0 j \<and>
      2 * \<bar>b 0 j\<bar> \<le> iu (m_ciphertextModulus (dp_params chain_17_41 ! 0))"
    using p(3) [rule_format, of 0] l by auto
  from h(1) spec [OF h(2), of 3]
  have "drep chain_17_41 2 (b 0) (ps ! 0) \<and> (17 :: int) dvd 597 - b 0 3 \<and> 2 * \<bar>b 0 3\<bar> \<le> (17 :: int)"
    by (simp add: chain_of_def ring_of_def)
  then show ?thesis using p(1) l by (intro exI [of _ ps] exI [of _ cs'] exI [of _ b]) blast
qed

text \<open>
  The reduction of a double word by a precomputed quotient returns the residue, for every double word and
  every modulus up to \<open>2 ^ 63\<close>.
\<close>

theorem double_word_reduction:
  assumes "1 < unat m" "unat m \<le> 2 ^ 63" "unat mu = 2 ^ 128 div unat m"
  shows "\<exists>r. BarrettUint128ModUint64 a m mu = Inr r \<and> unat r = unat a mod unat m"
  by (rule BarrettUint128ModUint64_correct [OF assms])

theorem double_word_reduction_witness:
  "\<exists>r. BarrettUint128ModUint64 (2 ^ 100 + 5) 16 (2 ^ 124) = Inr r \<and> unat r = 5"
proof -
  have u: "unat (2 ^ 124 :: u128) = 2 ^ 124" "unat (2 ^ 100 + 5 :: u128) = 2 ^ 100 + 5" by simp_all
  show ?thesis using double_word_reduction [of 16 "2 ^ 124" "2 ^ 100 + 5"] unfolding u by simp
qed

text \<open>
  C10. The approximate conversion to other moduli returns the residues of the number plus a multiple of the old
  modulus that is smaller than the number of its factors.
\<close>

theorem approximate_conversion:
  assumes "dcrt_params_ok D L" "dcrt_params_ok R L" "drep D L a x" "dc_format x = COEFFICIENT"
    "conv_tables (dp_params D) (dp_params R) w wp H mus" "length (dp_params D) \<le> 255"
  shows "\<exists>y \<alpha>. ApproxSwitchCRTBasis D R w wp H mus x = Inr y \<and> dc_format y = COEFFICIENT \<and>
    drep R L (\<lambda>j. a j mod int (big_q D) + \<alpha> j * int (big_q D)) y \<and> (\<forall>j. 0 \<le> \<alpha> j \<and> \<alpha> j < int (length (dp_params D)))"
proof -
  let ?Ps = "dp_params D"
  obtain y where y: "ApproxSwitchCRTBasis D R w wp H mus x = Inr y" "dc_format y = COEFFICIENT"
    "drep R L (\<lambda>j. approx_conv ?Ps w (a j)) y" using ApproxSwitchCRTBasis_ok [OF assms(1-6) order_refl] by blast
  have w: "unat (w ! i) * crt_hat (tower_q ?Ps) (length ?Ps) i mod tower_q ?Ps i = 1" if "i < length ?Ps" for i
    using assms(5) that by (simp add: conv_tables_def)
  have "\<exists>\<alpha>. approx_conv ?Ps w (a j) = a j mod int (big_q D) + \<alpha> * int (big_q D) \<and> 0 \<le> \<alpha> \<and> \<alpha> < int (length ?Ps)" for j
    by (rule approx_conv [OF dcrt_params_okD(1) [OF assms(1)] w, of "a j"]) (auto simp: big_q_prod)
  then obtain \<alpha> where "\<And>j. approx_conv ?Ps w (a j) = a j mod int (big_q D) + \<alpha> j * int (big_q D) \<and> 0 \<le> \<alpha> j \<and> \<alpha> j < int (length ?Ps)"
    by metis
  then show ?thesis using y by (intro exI [of _ y] exI [of _ \<alpha>]) simp
qed

theorem approximate_conversion_witness:
  "\<exists>y \<alpha>. ApproxSwitchCRTBasis chain_17_41 (chain_of [ring_of 73 10] 73) [5, 29] [shoup_of 5 17, shoup_of 29 41]
      [[41], [17]] [of_nat (2 ^ 128 div 73)] (object_for chain_17_41 2 COEFFICIENT (\<lambda>i. 600 - int i)) = Inr y \<and>
    drep (chain_of [ring_of 73 10] 73) 2 (\<lambda>j. (600 - int j) mod 697 + \<alpha> j * 697) y \<and> (\<forall>j. \<alpha> j \<in> {0, 1})"
proof -
  have h: "crt_hat (tower_q [ring_of 17 2, ring_of 41 3]) 2 0 = 41" "crt_hat (tower_q [ring_of 17 2, ring_of 41 3]) 2 (Suc 0) = 17"
    using crt_hat_two [of "tower_q [ring_of 17 2, ring_of 41 3]"] by (simp_all add: tower_q_def ring_of_def)
  have l: "dp_params chain_17_41 = [ring_of 17 2, ring_of 41 3]" "dp_params (chain_of [ring_of 73 10] 73) = [ring_of 73 10]"
    by (simp_all add: chain_of_def)
  have T: "conv_tables (dp_params chain_17_41) (dp_params (chain_of [ring_of 73 10] 73)) [5, 29] [shoup_of 5 17, shoup_of 29 41]
      [[41], [17]] [of_nat (2 ^ 128 div 73)]"
    unfolding l conv_tables_def by (simp add: all_less_two h [unfolded numeral_2_eq_2]) (simp add: tower_q_def ring_of_def)
  have Q: "int (big_q chain_17_41) = 697" "length (dp_params chain_17_41) = 2" by (simp_all add: big_q_def chain_of_def ring_of_def)
  obtain y \<alpha> where y: "ApproxSwitchCRTBasis chain_17_41 (chain_of [ring_of 73 10] 73) [5, 29] [shoup_of 5 17, shoup_of 29 41]
      [[41], [17]] [of_nat (2 ^ 128 div 73)] (object_for chain_17_41 2 COEFFICIENT (\<lambda>i. 600 - int i)) = Inr y"
    "drep (chain_of [ring_of 73 10] 73) 2 (\<lambda>j. (600 - int j) mod 697 + \<alpha> j * 697) y" "\<forall>j. 0 \<le> \<alpha> j \<and> \<alpha> j < (2 :: int)"
    using approximate_conversion [OF chain_17_41 chain_73 object_for_drep(1) [OF chain_17_41, of "\<lambda>i. 600 - int i" COEFFICIENT]
      object_for_drep(2) [OF chain_17_41] T] unfolding Q by auto
  have "\<alpha> j \<in> {0, 1}" for j using spec [OF y(3), of j] by auto
  then show ?thesis using y(1,2) by blast
qed

end
