(* ===== verification/ModUp.thy ===== *)
theory ModUp
  imports DcrtProps
begin

text \<open>
  Raising the modulus, lowering it and multiplication by the missing moduli
  (\<open>lattice/hal/default/dcrtpoly-impl.h\<close>): the operations, and what raising does to the integer polynomial.
\<close>

section \<open>Definitions\<close>

subsection \<open>Raising and lowering the modulus\<close>

text \<open>
  The towers for the new moduli are appended; towers that were in evaluation format are kept from before the
  change of format.
\<close>

definition ApproxModUp ::
    "'s prng \<Rightarrow> dcrt_params \<Rightarrow> dcrt_params \<Rightarrow> dcrt_params \<Rightarrow> u64 list \<Rightarrow> u64 list \<Rightarrow> u64 list list \<Rightarrow> u128 list \<Rightarrow> dcrt \<Rightarrow> caches \<Rightarrow> 's \<Rightarrow>
      (dcrt \<times> caches, 's) run" where
  "ApproxModUp draw paramsQ paramsP paramsQP QHatInvModq QHatInvModqPrecon QHatModp modpBarrettMu x cs s =
     (let polyInNTT = (if dc_format x = EVALUATION then dc_vectors x else [])
      in rbind (Dcrt_SetFormat draw COEFFICIENT x cs s) (\<lambda>(c, cs) s.
         rbind (rlift (ApproxSwitchCRTBasis paramsQ paramsP QHatInvModq QHatInvModqPrecon QHatModp modpBarrettMu c) s) (\<lambda>partP s.
         rbind (each_tower_run (\<lambda>i. SetFormat draw EVALUATION) (length (dp_params paramsQP))
             ((if polyInNTT \<noteq> [] then polyInNTT else dc_vectors c) @ dc_vectors partP) cs s) (\<lambda>(vs, cs) s.
           Some (Inr ((\<lparr>dc_params = paramsQP, dc_format = EVALUATION, dc_vectors = vs\<rparr>, cs), s))))))"

text \<open>One tower of the part that is dropped: copied, in coefficient format, for BGV times the inverse of \<open>t\<close>.\<close>

definition down_part ::
    "'s prng \<Rightarrow> dcrt \<Rightarrow> nat \<Rightarrow> u64 list \<Rightarrow> u64 \<Rightarrow> nat \<Rightarrow> poly \<Rightarrow> caches \<Rightarrow> 's \<Rightarrow> (poly \<times> caches, 's) run" where
  "down_part draw x sizeQ tInvModp t j v cs s =
     rbind (rlift (get_at (dc_vectors x) (sizeQ + j)) s) (\<lambda>u s.
     rbind (SetFormat draw COEFFICIENT (Poly_assign v u) cs s) (\<lambda>(v, cs) s.
     rbind (rlift (if t > 0 then ebind (get_at tInvModp j) (Poly_TimesEq_s v) else Inr v) s) (\<lambda>v s. Some (Inr ((v, cs), s)))))"

text \<open>One tower of the result: the difference times the inverse of the dropped modulus.\<close>

definition down_tower ::
    "'s prng \<Rightarrow> dcrt \<Rightarrow> dcrt \<Rightarrow> u64 list \<Rightarrow> u64 \<Rightarrow> nat \<Rightarrow> poly \<Rightarrow> caches \<Rightarrow> 's \<Rightarrow> (poly \<times> caches, 's) run" where
  "down_tower draw x switched PInvModq t i v cs s =
     rbind (rlift (ebind (get_at (dc_vectors switched) i) (\<lambda>u. if t > 0 then Poly_TimesEq_s u t else Inr u)) s) (\<lambda>u s.
     rbind (SetFormat draw EVALUATION u cs s) (\<lambda>(u, cs) s.
     rbind (rlift (ebind (get_at (dc_vectors x) i) (\<lambda>w. ebind (Poly_Minus w u) (\<lambda>d. ebind (get_at PInvModq i) (Poly_Times_s d)))) s)
       (\<lambda>r s. Some (Inr ((r, cs), s)))))"

definition ApproxModDown ::
    "'s prng \<Rightarrow> dcrt_params \<Rightarrow> dcrt_params \<Rightarrow> u64 list \<Rightarrow> u64 list \<Rightarrow> u64 list \<Rightarrow> u64 list list \<Rightarrow> u128 list \<Rightarrow> u64 list \<Rightarrow> u64 \<Rightarrow>
      dcrt \<Rightarrow> caches \<Rightarrow> 's \<Rightarrow> (dcrt \<times> caches, 's) run" where
  "ApproxModDown draw paramsQ paramsP PInvModq PHatInvModp PHatInvModpPrecon PHatModq modqBarrettMu tInvModp t x cs s =
     rbind (rlift (DCRTPolyImpl paramsP (dc_format x) True) s) (\<lambda>partP s.
       let sizeP = length (dp_params paramsP); sizeQ = length (dc_vectors x) - sizeP
       in if length (dc_vectors x) < sizeP then Some (Inl OutOfRange)
       else rbind (each_tower_run (down_part draw x sizeQ tInvModp t) sizeP (dc_vectors partP) cs s) (\<lambda>(ps, cs) s.
       rbind (rlift (ApproxSwitchCRTBasis paramsP paramsQ PHatInvModp PHatInvModpPrecon PHatModq modqBarrettMu
           (partP\<lparr>dc_format := COEFFICIENT, dc_vectors := ps\<rparr>)) s) (\<lambda>switched s.
       rbind (rlift (DCRTPolyImpl paramsQ EVALUATION True) s) (\<lambda>ans s.
       let diffQ = of_nat (length (dp_params paramsQ)) - of_nat sizeQ :: u32
       in rbind (rlift (if diffQ > 0 then DropLastElements (unat diffQ) ans else Inr ans) s) (\<lambda>ans s.
       rbind (each_tower_run (down_tower draw x switched PInvModq t) sizeQ (dc_vectors ans) cs s) (\<lambda>(vs, cs) s.
         Some (Inr ((ans\<lparr>dc_vectors := vs\<rparr>, cs), s))))))))"

text \<open>A loop over the entries of one tower.\<close>

definition each_entry :: "nat \<Rightarrow> (nat \<Rightarrow> u64 \<Rightarrow> u64 res) \<Rightarrow> poly \<Rightarrow> poly res" where
  "each_entry ringDim f v = efor 0 ringDim (\<lambda>ri v. ebind (Poly_at v ri) (\<lambda>e. ebind (f ri e) (\<lambda>r. set_entry ri r v))) v"

text \<open>Multiplication by the product of the missing moduli, whose towers become zero.\<close>

definition ExpandCRTBasisQlHat :: "dcrt_params \<Rightarrow> u64 list \<Rightarrow> u64 list \<Rightarrow> nat \<Rightarrow> dcrt \<Rightarrow> dcrt res" where
  "ExpandCRTBasisQlHat paramsQ QlHatModq QlHatModqPrecon sizeQ x =
     (let sizeQl = length (dc_vectors x); ringDim = unat (dp_ringDimension (dc_params x))
      in ebind (each_tower (\<lambda>i v. ebind (tower_modulus v) (\<lambda>qi. ebind (get_at QlHatModq i) (\<lambda>w. ebind (get_at QlHatModqPrecon i) (\<lambda>wp.
             each_entry ringDim (\<lambda>_ e. Inr (ModMulFastConstEq e w qi wp)) v)))) sizeQl (dc_vectors x)) (\<lambda>vs.
         ebind (emap (\<lambda>i. ebind (get_at (dp_params paramsQ) i) (\<lambda>P. PolyImpl (Some P) (dc_format x) True)) [sizeQl..<sizeQ]) (\<lambda>zs.
           Inr (x\<lparr>dc_params := paramsQ, dc_vectors := take sizeQ vs @ zs\<rparr>))))"

text \<open>The scaled message of BFV: entry by entry the residue of \<open>-Q m\<close> modulo \<open>t\<close> divided by \<open>t\<close>.\<close>

definition TimesQovert :: "u64 list \<Rightarrow> u64 \<Rightarrow> u64 \<Rightarrow> u64 \<Rightarrow> dcrt \<Rightarrow> dcrt res" where
  "TimesQovert tInvModq t NegQModt NegQModtPrecon x =
     (if length tInvModq < length (dc_vectors x) then Inl (OpenFHEError ''Sizes of vectors do not match.'')
      else update_towers (\<lambda>i v. ebind (tower_modulus v) (\<lambda>q. ebind (ComputeMu q) (\<lambda>mu.
        each_entry (unat (dp_ringDimension (dc_params x)))
          (\<lambda>_ e. ebind (get_at tInvModq i) (\<lambda>w. Inr (ModMulFastEq_mu (ModMulFastConstEq e NegQModt t NegQModtPrecon) w q mu))) v))) x)"

subsection \<open>Formats within a longer chain\<close>

text \<open>Towers of a part of a chain change their format; the tables of the whole chain stay usable.\<close>

lemma set_formats:
  assumes ps: "rns_ok Ps L" and t: "\<And>i. i < n \<Longrightarrow> off + i < length Ps \<and> represents (Ps ! (off + i)) L (b i) (vs ! i)"
    and n: "n \<le> length vs" and cs: "towers_cached Ps L cs"
  shows "\<exists>us cs'. each_tower_run (\<lambda>i. SetFormat draw fmt) n vs cs s = Some (Inr ((us, cs'), s)) \<and> towers_cached Ps L cs' \<and>
    length us = length vs \<and> (\<forall>i < n. m_format (us ! i) = fmt \<and> represents (Ps ! (off + i)) L (b i) (us ! i)) \<and> (\<forall>i \<ge> n. us ! i = vs ! i)"
proof (rule each_tower_run_Inr [where C = "towers_cached Ps L"])
  fix i cs assume i: "i < n" and cs: "towers_cached Ps L cs"
  from tower_SetFormat [OF ps _ _ cs, of "off + i" "b i" "vs ! i" draw fmt s] t [OF i]
  show "\<exists>t cs'. SetFormat draw fmt (vs ! i) cs s = Some (Inr ((t, cs'), s)) \<and> towers_cached Ps L cs' \<and>
      m_format t = fmt \<and> represents (Ps ! (off + i)) L (b i) t" by blast
qed (use n assms(4) in auto)

lemma Dcrt_SetFormat_within:
  assumes ps: "rns_ok Ps L" and D: "dp_params D = take (length (dp_params D)) Ps" and x: "drep D L a x" and cs: "towers_cached Ps L cs"
  shows "\<exists>y cs'. Dcrt_SetFormat draw fmt x cs s = Some (Inr ((y, cs'), s)) \<and> towers_cached Ps L cs' \<and> dc_format y = fmt \<and> drep D L a y"
proof (cases "dc_format x = fmt")
  case True
  then show ?thesis using x cs by (simp add: Dcrt_SetFormat_def)
next
  case False
  let ?n = "length (dp_params D)"
  note xd = drepD [OF x]
  have n: "?n \<le> length Ps" by (subst D) simp
  have Pi: "dp_params D ! i = Ps ! i" if "i < ?n" for i by (subst D) (simp add: that)
  have "\<exists>us cs'. each_tower_run (\<lambda>i. SwitchFormat draw) ?n (dc_vectors x) cs s = Some (Inr ((us, cs'), s)) \<and> towers_cached Ps L cs' \<and>
      length us = length (dc_vectors x) \<and> (\<forall>i < ?n. m_format (us ! i) = fmt \<and> represents (Ps ! i) L a (us ! i)) \<and>
      (\<forall>i \<ge> ?n. us ! i = dc_vectors x ! i)"
  proof (rule each_tower_run_Inr [where C = "towers_cached Ps L"])
    fix i cs assume i: "i < ?n" and cs: "towers_cached Ps L cs"
    have t: "i < length Ps" "represents (Ps ! i) L a (dc_vectors x ! i)" "m_format (dc_vectors x ! i) = dc_format x"
      using i n xd(3,4) [OF i] Pi [OF i] by auto
    have f: "f = fmt" if "f \<noteq> m_format (dc_vectors x ! i)" for f using that t(3) False by (cases f; cases fmt; cases "dc_format x") auto
    from tower_SwitchFormat [OF ps t(1,2) cs, of draw s] f
    show "\<exists>t cs'. SwitchFormat draw (dc_vectors x ! i) cs s = Some (Inr ((t, cs'), s)) \<and> towers_cached Ps L cs' \<and>
        m_format t = fmt \<and> represents (Ps ! i) L a t" by blast
  qed (use xd(2) cs in auto)
  then obtain us cs' where us: "each_tower_run (\<lambda>i. SwitchFormat draw) ?n (dc_vectors x) cs s = Some (Inr ((us, cs'), s))" "towers_cached Ps L cs'"
    "length us = length (dc_vectors x)" "\<forall>i < ?n. m_format (us ! i) = fmt \<and> represents (Ps ! i) L a (us ! i)" by (elim exE conjE) (rule that)
  have f: "(if dc_format x = COEFFICIENT then EVALUATION else COEFFICIENT) = fmt" using False by (cases fmt; cases "dc_format x") auto
  have "drep D L a (x\<lparr>dc_format := fmt, dc_vectors := us\<rparr>)" using us(3,4) xd(1,2) Pi by (simp add: drep_def)
  then show ?thesis using False us(1,2) xd(2) f by (simp add: Dcrt_SetFormat_def Dcrt_SwitchFormat_def)
qed

subsection \<open>Raising the modulus\<close>

lemma mod_plus_multiple:
  fixes a m q c :: int
  assumes "q dvd m"
  shows "(a mod m + c * m) mod q = a mod q"
proof -
  have "a mod m + c * m - a = m * (c - a div m)" using minus_mult_div_eq_mod [of a m] by (simp add: algebra_simps)
  then have "q dvd a mod m + c * m - a" using assms by simp
  then show ?thesis by (simp only: mod_eq_dvd_iff)
qed

lemma approx_conv_residue:
  assumes d: "dcrt_params_ok D L" and T: "conv_tables (dp_params D) Rs w wp H mus" and i: "i < length (dp_params D)"
  shows "approx_conv (dp_params D) w a mod iu (m_ciphertextModulus (dp_params D ! i)) = a mod iu (m_ciphertextModulus (dp_params D ! i))"
proof -
  let ?Ps = "dp_params D" let ?Q = "int (\<Prod>i<length ?Ps. tower_q ?Ps i)" let ?q = "iu (m_ciphertextModulus (?Ps ! i))"
  have w: "unat (w ! i) * crt_hat (tower_q ?Ps) (length ?Ps) i mod tower_q ?Ps i = 1" if "i < length ?Ps" for i
    using T that by (simp add: conv_tables_def)
  obtain \<alpha> where \<alpha>: "approx_conv ?Ps w a = a mod ?Q + \<alpha> * ?Q" by (rule approx_conv [OF dcrt_params_okD(1) [OF d] w])
  have "int (tower_q ?Ps i) dvd int (big_q D)" using tower_hat(1) [OF d i] by simp
  then have "?q dvd ?Q" unfolding tower_q_def big_q_prod .
  then have "(a mod ?Q + \<alpha> * ?Q) mod ?q = a mod ?q" by (rule mod_plus_multiple)
  then show ?thesis unfolding \<alpha> .
qed

lemma ApproxModUp_ok:
  assumes d: "dcrt_params_ok D L" "dcrt_params_ok R L" "dcrt_params_ok E L" and E: "dp_params E = dp_params D @ dp_params R"
    and x: "drep D L a x" and T: "conv_tables (dp_params D) (dp_params R) w wp H mus" and n: "length (dp_params D) \<le> 255"
    and cs: "towers_cached (dp_params E) L cs"
  shows "\<exists>y cs'. ApproxModUp draw D R E w wp H mus x cs s = Some (Inr ((y, cs'), s)) \<and> towers_cached (dp_params E) L cs' \<and>
    dc_format y = EVALUATION \<and> drep E L (\<lambda>j. approx_conv (dp_params D) w (a j)) y"
proof -
  let ?Ps = "dp_params E" and ?b = "\<lambda>j. approx_conv (dp_params D) w (a j)"
  note ps = dcrt_params_okD(1) [OF d(3)] and xd = drepD [OF x]
  have "dp_params D = take (length (dp_params D)) ?Ps" by (simp add: E)
  from Dcrt_SetFormat_within [OF ps this x cs, of draw COEFFICIENT s] obtain c cs1 where
    c: "Dcrt_SetFormat draw COEFFICIENT x cs s = Some (Inr ((c, cs1), s))" "towers_cached ?Ps L cs1" "dc_format c = COEFFICIENT" "drep D L a c"
    by (elim exE conjE) (rule that)
  obtain p where p: "ApproxSwitchCRTBasis D R w wp H mus c = Inr p" "drep R L ?b p"
    using ApproxSwitchCRTBasis_ok [OF d(1,2) c(4,3) T n order_refl] by blast
  let ?vs = "(if (if dc_format x = EVALUATION then dc_vectors x else []) \<noteq> [] then if dc_format x = EVALUATION then dc_vectors x else []
      else dc_vectors c) @ dc_vectors p"
  note cd = drepD [OF c(4)] and pd = drepD [OF p(2)]
  have rep: "represents (?Ps ! (0 + i)) L ?b (?vs ! i)" if i: "i < length ?Ps" for i
  proof (cases "i < length (dp_params D)")
    case True
    have "represents (dp_params D ! i) L a (if dc_format x = EVALUATION then dc_vectors x ! i else dc_vectors c ! i)"
      using xd(3) [OF True] cd(3) [OF True] by simp
    then have "represents (dp_params D ! i) L ?b (if dc_format x = EVALUATION then dc_vectors x ! i else dc_vectors c ! i)"
      by (rule represents_cong) (rule approx_conv_residue [OF d(1) T True, symmetric])
    moreover have "dc_vectors x \<noteq> []" using True xd(2) by auto
    ultimately show ?thesis using True xd(2) cd(2) by (simp add: E nth_append split: if_splits)
  next
    case False
    then show ?thesis using pd(3) [of "i - length (dp_params D)"] i xd(2) cd(2) by (auto simp: E nth_append)
  qed
  have l: "length ?vs = length ?Ps" using xd(2) cd(2) pd(2) by (simp add: E)
  from set_formats [OF ps, where off = 0 and b = "\<lambda>i. ?b" and n = "length ?Ps" and vs = ?vs and fmt = EVALUATION and draw = draw and s = s, OF _ _ c(2)] rep l
  obtain us cs' where us: "each_tower_run (\<lambda>i. SetFormat draw EVALUATION) (length ?Ps) ?vs cs1 s = Some (Inr ((us, cs'), s))" "towers_cached ?Ps L cs'"
    "length us = length ?vs" "\<forall>i < length ?Ps. m_format (us ! i) = EVALUATION \<and> represents (?Ps ! (0 + i)) L ?b (us ! i)" by auto
  have "drep E L ?b \<lparr>dc_params = E, dc_format = EVALUATION, dc_vectors = us\<rparr>" using us(3,4) l by (simp add: drep_def)
  then show ?thesis using us(1,2) c(1) p(1) by (simp add: ApproxModUp_def Let_def)
qed

end
