(* ===== verification/ModDown.thy ===== *)
theory ModDown
  imports ModUp
begin

text \<open>
  What lowering the modulus, multiplication by the missing moduli and the scaling of a message by \<open>Q / t\<close> do to the
  integer polynomial.
\<close>

subsection \<open>Lowering the modulus\<close>

text \<open>
  What the code is given to drop the moduli of \<open>Rs\<close>: their product inverted modulo the others and, when \<open>t\<close> is not
  zero, the residues of a number \<open>u\<close> that inverts \<open>t\<close> modulo the product.
\<close>

definition down_tables :: "elem_params list \<Rightarrow> elem_params list \<Rightarrow> int \<Rightarrow> u64 list \<Rightarrow> u64 list \<Rightarrow> u64 \<Rightarrow> int \<Rightarrow> bool" where
  "down_tables Qs Rs P PInv tInv t u \<longleftrightarrow> length Qs \<le> length PInv \<and>
     (\<forall>i < length Qs. int (tower_q Qs i) dvd P * iu (PInv ! i) - 1) \<and>
     (if t = 0 then u = 1 else P dvd iu t * u - 1 \<and> length Rs \<le> length tInv \<and>
        (\<forall>j < length Rs. int (tower_q Rs j) dvd iu (tInv ! j) - u))"

definition down_factor :: "u64 \<Rightarrow> int" where
  "down_factor t = (if t = 0 then 1 else iu t)"

lemma down_part_ok:
  assumes ps: "rns_ok Ps L" and j: "sizeQ + j < length Ps" "Ps ! (sizeQ + j) = Rs ! j" "j < length Rs"
    and x: "sizeQ + j < length (dc_vectors x)" "represents (Ps ! (sizeQ + j)) L a (dc_vectors x ! (sizeQ + j))"
    and T: "down_tables Qs Rs P PInv tInv t u" and v: "m_values v \<noteq> None" and cs: "towers_cached Ps L cs"
  shows "\<exists>q cs'. down_part draw x sizeQ tInv t j v cs s = Some (Inr ((q, cs'), s)) \<and> towers_cached Ps L cs' \<and>
    m_format q = COEFFICIENT \<and> represents (Rs ! j) L (\<lambda>i. a i * u) q"
proof -
  let ?u = "dc_vectors x ! (sizeQ + j)"
  have "m_values ?u \<noteq> None" using x(2) by (auto simp: represents_def)
  then have e: "Poly_assign v ?u = ?u" using v by (auto simp: Poly_assign_def assign_vec_def Let_def)
  from tower_SetFormat [OF ps j(1) x(2) cs, of draw COEFFICIENT s] obtain q cs' where
    q: "SetFormat draw COEFFICIENT ?u cs s = Some (Inr ((q, cs'), s))" "towers_cached Ps L cs'" "m_format q = COEFFICIENT"
    "represents (Rs ! j) L a q" unfolding j(2) by (elim exE conjE) (rule that)
  have r: "ring_ok (Rs ! j) L" using rns_okD(1) [OF ps j(1)] j(2) by simp
  show ?thesis
  proof (cases "t = 0")
    case True
    then have "u = 1" using T by (simp add: down_tables_def)
    then show ?thesis using q x(1) e True by (simp add: down_part_def get_at_def)
  next
    case False
    then have t: "j < length tInv" "int (tower_q Rs j) dvd iu (tInv ! j) - u" using T j(3) by (auto simp: down_tables_def)
    have c: "iu (tInv ! j) mod iu (m_ciphertextModulus (Rs ! j)) = u mod iu (m_ciphertextModulus (Rs ! j))"
      using t(2) by (simp only: mod_eq_dvd_iff tower_q_def)
    obtain r' where r': "Poly_TimesEq_s q (tInv ! j) = Inr r'" "m_format r' = COEFFICIENT" "represents (Rs ! j) L (\<lambda>i. a i * u) r'"
      using Poly_Times_s_represents [OF r q(4), of "tInv ! j"] represents_scaled [OF _ c] q(3) by auto
    have "t > 0" using False by (simp add: word_gt_0)
    then show ?thesis using q(1,2) x(1) e r' t(1) by (simp add: down_part_def get_at_def)
  qed
qed

lemma down_tower_ok:
  assumes ps: "rns_ok Ps L" and i: "i < length Ps" "Ps ! i = Qs ! i" "i < length Qs"
    and x: "i < length (dc_vectors x)" "represents (Qs ! i) L a (dc_vectors x ! i)" "m_format (dc_vectors x ! i) = EVALUATION"
    and y: "i < length (dc_vectors y)" "represents (Qs ! i) L c (dc_vectors y ! i)"
    and T: "down_tables Qs Rs P PInv tInv t u" and dv: "\<And>k. a k - down_factor t * c k = P * g k" and cs: "towers_cached Ps L cs"
  shows "\<exists>q cs'. down_tower draw x y PInv t i v cs s = Some (Inr ((q, cs'), s)) \<and> towers_cached Ps L cs' \<and>
    m_format q = EVALUATION \<and> represents (Qs ! i) L g q"
proof -
  have r: "ring_ok (Qs ! i) L" using rns_okD(1) [OF ps i(1)] i(2) by simp
  let ?y = "dc_vectors y ! i" and ?x = "dc_vectors x ! i" and ?q = "iu (m_ciphertextModulus (Qs ! i))"
  obtain w where w: "(if t > 0 then Poly_TimesEq_s ?y t else Inr ?y) = Inr w" "represents (Qs ! i) L (\<lambda>k. c k * down_factor t) w"
  proof (cases "t = 0")
    case True
    then show ?thesis using that [of ?y] y(2) by (simp add: down_factor_def)
  next
    case False
    then have "t > 0" by (simp add: word_gt_0)
    then show ?thesis using that Poly_Times_s_represents [OF r y(2), of t] False by (auto simp: down_factor_def)
  qed
  from tower_SetFormat [OF ps i(1) w(2) [folded i(2)] cs, of draw EVALUATION s] obtain z cs' where
    z: "SetFormat draw EVALUATION w cs s = Some (Inr ((z, cs'), s))" "towers_cached Ps L cs'" "m_format z = EVALUATION"
    "represents (Qs ! i) L (\<lambda>k. c k * down_factor t) z" unfolding i(2) by (elim exE conjE) (rule that)
  obtain d where d: "Poly_Minus ?x z = Inr d" "m_format d = EVALUATION" "represents (Qs ! i) L (\<lambda>k. a k - c k * down_factor t) d"
    using Poly_Minus_represents [OF r x(2) z(4)] x(3) z(3) by auto
  obtain e where e: "Poly_Times_s d (PInv ! i) = Inr e" "m_format e = EVALUATION"
    "represents (Qs ! i) L (\<lambda>k. (a k - c k * down_factor t) * iu (PInv ! i)) e"
    using Poly_Times_s_represents [OF r d(3), of "PInv ! i"] d(2) by auto
  have I: "?q dvd P * iu (PInv ! i) - 1" "i < length PInv" using T i(3) by (auto simp: down_tables_def tower_q_def)
  have "represents (Qs ! i) L g e"
  proof (rule represents_cong [OF e(3)])
    fix k
    have s: "a k - c k * down_factor t = P * g k" using dv [of k] by (simp add: mult.commute)
    have "P * g k * iu (PInv ! i) - g k = g k * (P * iu (PInv ! i) - 1)" by (simp add: algebra_simps)
    then have "?q dvd P * g k * iu (PInv ! i) - g k" using I(1) by (simp only: dvd_mult)
    then show "((a k - c k * down_factor t) * iu (PInv ! i)) mod ?q = g k mod ?q" unfolding s by (simp only: mod_eq_dvd_iff)
  qed
  moreover have "rlift (ebind (get_at (dc_vectors y) i) (\<lambda>u. if t > 0 then Poly_TimesEq_s u t else Inr u)) s = Some (Inr (w, s))"
    using y(1) w(1) by (simp add: get_at_def)
  ultimately show ?thesis using z(1,2) d(1) e(1,2) x(1) I(2) by (simp add: down_tower_def get_at_def)
qed

lemma tower_divides:
  assumes "dcrt_params_ok D L" "\<And>i. i < length (dp_params D) \<Longrightarrow> int (tower_q (dp_params D) i) dvd k"
  shows "int (big_q D) dvd k"
  unfolding big_q_prod by (rule chain_dvd [OF rns_chain [OF dcrt_params_okD(1) [OF assms(1)]] assms(2)])

text \<open>The number minus the multiple of \<open>t\<close> that is subtracted is divisible by the dropped modulus.\<close>

lemma down_exact:
  assumes d: "dcrt_params_ok R L" and T: "conv_tables (dp_params R) Rs w wp H mus"
    and I: "down_tables Qs (dp_params R) (int (big_q R)) PInv tInv t u"
  shows "int (big_q R) dvd a - down_factor t * approx_conv (dp_params R) w (a * u)"
proof (rule tower_divides [OF d])
  fix i assume i: "i < length (dp_params R)"
  let ?q = "int (tower_q (dp_params R) i)" and ?c = "approx_conv (dp_params R) w (a * u)"
  have "?c mod ?q = (a * u) mod ?q" using approx_conv_residue [OF d T i] by (simp only: tower_q_def)
  then have 1: "?q dvd a * u - ?c" by (simp only: mod_eq_dvd_iff [symmetric])
  have "int (big_q R) dvd down_factor t * u - 1" using I by (auto simp: down_tables_def down_factor_def split: if_splits)
  moreover have "?q dvd int (big_q R)" using tower_hat(1) [OF d i] by simp
  ultimately have 2: "?q dvd down_factor t * u - 1" by (rule dvd_trans [rotated])
  have "a - down_factor t * ?c = down_factor t * (a * u - ?c) - a * (down_factor t * u - 1)" by (simp add: algebra_simps)
  then show "?q dvd a - down_factor t * ?c" using 1 2 by (simp only: dvd_diff dvd_mult)
qed

lemma shortened_object:
  assumes d: "dcrt_params_ok Q L" and m: "0 < m" "m \<le> length (dp_params Q)" and l: "length (dp_params Q) < 2 ^ 32"
  shows "\<exists>y ans D'. DCRTPolyImpl Q fmt True = Inr y \<and>
    (if (of_nat (length (dp_params Q)) - of_nat m :: u32) > 0 then DropLastElements (unat (of_nat (length (dp_params Q)) - of_nat m :: u32)) y else Inr y) =
      Inr ans \<and> dc_params ans = D' \<and> dc_format ans = fmt \<and> length (dc_vectors ans) = m \<and> dcrt_params_ok D' L \<and> dp_params D' = take m (dp_params Q)"
proof -
  let ?n = "length (dp_params Q)" let ?d = "of_nat ?n - of_nat m :: u32"
  have e: "?d = of_nat (?n - m)" using m(2) by (simp add: of_nat_diff)
  have "?n - m < 2 ^ 32" using l by simp
  then have u: "unat ?d = ?n - m" unfolding e unat_of_nat by (simp add: take_bit_nat_eq_self)
  obtain y where y: "DCRTPolyImpl Q fmt True = Inr y" "dc_format y = fmt" "drep Q L (\<lambda>i. 0) y"
    using new_object_zero [OF d] by blast
  note yd = drepD [OF y(3)]
  show ?thesis
  proof (cases "?d > 0")
    case True
    then have k: "?n - m < ?n" using m u by (simp add: word_less_nat_alt)
    obtain D' where D': "DropLastElements (?n - m) y = Inr (y\<lparr>dc_params := D', dc_vectors := take (length (dc_vectors y) - (?n - m)) (dc_vectors y)\<rparr>)"
      "dcrt_params_ok D' L" "dp_params D' = take (?n - (?n - m)) (dp_params Q)" using DropLastElements_ok [OF d y(3) k] by blast
    have m': "?n - (?n - m) = m" using m(2) by simp
    show ?thesis using True u y(1,2) D' yd(2) m(2) unfolding m' by (intro exI [of _ y] exI conjI) (assumption | simp)+
  next
    case False
    then have "?n = m" using u m(2) by (simp add: word_less_nat_alt)
    then show ?thesis using False y(1,2) d yd by (intro exI [of _ y] exI conjI) (assumption | simp)+
  qed
qed

lemma ApproxModDown_ok:
  assumes d: "dcrt_params_ok D L" "dcrt_params_ok Q L" "dcrt_params_ok R L"
    and D: "dp_params D = take m (dp_params Q) @ dp_params R" "0 < m" "m \<le> length (dp_params Q)" "length (dp_params Q) < 2 ^ 32"
    and x: "drep D L a x" "dc_format x = EVALUATION"
    and T: "conv_tables (dp_params R) (dp_params Q) w wp H mus" and n: "length (dp_params R) \<le> 255"
    and I: "down_tables (take m (dp_params Q)) (dp_params R) (int (big_q R)) PInv tInv t u"
    and cs: "towers_cached (dp_params D) L cs"
  shows "\<exists>y cs' D'. ApproxModDown draw Q R PInv w wp H mus tInv t x cs s = Some (Inr ((y, cs'), s)) \<and>
    towers_cached (dp_params D) L cs' \<and> dcrt_params_ok D' L \<and> dp_params D' = take m (dp_params Q) \<and> dc_format y = EVALUATION \<and>
    drep D' L (\<lambda>j. (a j - down_factor t * approx_conv (dp_params R) w (a j * u)) div int (big_q R)) y"
proof -
  let ?Ps = "dp_params D" and ?Qs = "take m (dp_params Q)" and ?Rs = "dp_params R" let ?n = "length ?Rs"
  let ?c = "\<lambda>j. approx_conv ?Rs w (a j * u)" let ?g = "\<lambda>j. (a j - down_factor t * ?c j) div int (big_q R)"
  note ps = dcrt_params_okD(1) [OF d(1)] and xd = drepD [OF x(1)]
  have lx: "length (dc_vectors x) = m + ?n" and lp: "length ?Ps = m + ?n" using xd(2) D by simp_all
  have PR: "?Ps ! (m + j) = ?Rs ! j" for j using D by (simp add: nth_append)
  have PQ: "?Ps ! i = ?Qs ! i" if "i < m" for i using D that by (simp add: nth_append)
  obtain z where z: "DCRTPolyImpl R EVALUATION True = Inr z" "drep R L (\<lambda>i. 0) z" using new_object_zero [OF d(3)] by blast
  note zd = drepD [OF z(2)]
  have "\<exists>us cs'. each_tower_run (down_part draw x m tInv t) ?n (dc_vectors z) cs s = Some (Inr ((us, cs'), s)) \<and> towers_cached ?Ps L cs' \<and>
      length us = length (dc_vectors z) \<and> (\<forall>j < ?n. m_format (us ! j) = COEFFICIENT \<and> represents (?Rs ! j) L (\<lambda>i. a i * u) (us ! j)) \<and>
      (\<forall>j \<ge> ?n. us ! j = dc_vectors z ! j)"
  proof (rule each_tower_run_Inr [where C = "towers_cached ?Ps L"])
    fix j cs assume j: "j < ?n" and cs: "towers_cached ?Ps L cs"
    have v: "m_values (dc_vectors z ! j) \<noteq> None" using zd(3) [OF j] by (auto simp: represents_def)
    show "\<exists>q cs'. down_part draw x m tInv t j (dc_vectors z ! j) cs s = Some (Inr ((q, cs'), s)) \<and> towers_cached ?Ps L cs' \<and>
        m_format q = COEFFICIENT \<and> represents (?Rs ! j) L (\<lambda>i. a i * u) q"
      by (rule down_part_ok [OF ps _ PR j _ _ I v cs]) (use j lp lx xd(3) in auto)
  qed (use zd(2) cs in auto)
  then obtain us cs1 where us: "each_tower_run (down_part draw x m tInv t) ?n (dc_vectors z) cs s = Some (Inr ((us, cs1), s))"
    "towers_cached ?Ps L cs1" "length us = length (dc_vectors z)"
    "\<forall>j < ?n. m_format (us ! j) = COEFFICIENT \<and> represents (?Rs ! j) L (\<lambda>i. a i * u) (us ! j)" by (elim exE conjE) (rule that)
  let ?p = "z\<lparr>dc_format := COEFFICIENT, dc_vectors := us\<rparr>"
  have "drep R L (\<lambda>i. a i * u) ?p" using us(3,4) zd(1,2) by (simp add: drep_def)
  from ApproxSwitchCRTBasis_ok [OF d(3,2) this _ T n order_refl] obtain y where
    y: "ApproxSwitchCRTBasis R Q w wp H mus ?p = Inr y" "drep Q L ?c y" by auto
  note yd = drepD [OF y(2)]
  from shortened_object [OF d(2) D(2,3,4), of EVALUATION] obtain o' ans D' where
    o: "DCRTPolyImpl Q EVALUATION True = Inr o'"
    "(if (of_nat (length (dp_params Q)) - of_nat m :: u32) > 0 then DropLastElements (unat (of_nat (length (dp_params Q)) - of_nat m :: u32)) o' else Inr o') = Inr ans"
    "dc_params ans = D'" "dc_format ans = EVALUATION" "length (dc_vectors ans) = m" "dcrt_params_ok D' L" "dp_params D' = ?Qs"
    by (elim exE conjE) (rule that)
  have P: "0 < int (big_q R)" using big_q_pos [OF d(3)] by simp
  have e: "a k - down_factor t * ?c k = int (big_q R) * ?g k" for k
    using down_exact [OF d(3) T I, of "a k"] P by simp
  have "\<exists>vs cs'. each_tower_run (down_tower draw x y PInv t) m (dc_vectors ans) cs1 s = Some (Inr ((vs, cs'), s)) \<and> towers_cached ?Ps L cs' \<and>
      length vs = length (dc_vectors ans) \<and> (\<forall>i < m. m_format (vs ! i) = EVALUATION \<and> represents (?Qs ! i) L ?g (vs ! i)) \<and>
      (\<forall>i \<ge> m. vs ! i = dc_vectors ans ! i)"
  proof (rule each_tower_run_Inr [where C = "towers_cached ?Ps L"])
    fix i cs assume i: "i < m" and cs: "towers_cached ?Ps L cs"
    have i': "i < length (dp_params Q)" "i < length ?Ps" "i < length ?Qs" using i D lp by auto
    have ry: "represents (?Qs ! i) L ?c (dc_vectors y ! i)" using yd(3) [OF i'(1)] i by simp
    show "\<exists>q cs'. down_tower draw x y PInv t i (dc_vectors ans ! i) cs s = Some (Inr ((q, cs'), s)) \<and> towers_cached ?Ps L cs' \<and>
        m_format q = EVALUATION \<and> represents (?Qs ! i) L ?g q"
      by (rule down_tower_ok [OF ps i'(2) PQ [OF i] i'(3) _ _ _ _ ry I e cs])
        (use xd(3,4) [OF i'(2)] x(2) PQ [OF i] lx i yd(2) i'(1) in auto)
  qed (use o(5) us(2) in auto)
  then obtain vs cs' where vs: "each_tower_run (down_tower draw x y PInv t) m (dc_vectors ans) cs1 s = Some (Inr ((vs, cs'), s))"
    "towers_cached ?Ps L cs'" "length vs = length (dc_vectors ans)" "\<forall>i < m. m_format (vs ! i) = EVALUATION \<and> represents (?Qs ! i) L ?g (vs ! i)"
    by (elim exE conjE) (rule that)
  have "ApproxModDown draw Q R PInv w wp H mus tInv t x cs s = Some (Inr ((ans\<lparr>dc_vectors := vs\<rparr>, cs'), s))"
    using z(1) us(1) y(1) o(1) vs(1) by (simp add: ApproxModDown_def Let_def x(2) lx o(2))
  moreover have "drep D' L ?g (ans\<lparr>dc_vectors := vs\<rparr>)" using vs(3,4) o(3-5,7) D(3) by (simp add: drep_def)
  ultimately show ?thesis using vs(2) o(4,6,7) by (intro exI [of _ "ans\<lparr>dc_vectors := vs\<rparr>"] exI [of _ cs'] exI [of _ D']) simp
qed

subsection \<open>Operations on single entries\<close>

lemma each_entry_raw:
  assumes "\<And>i. i < length d \<Longrightarrow> \<exists>r. f i (d ! i) = Inr r"
  shows "\<exists>d'. each_entry (length d) f (raw_tower fmt P d) = Inr (raw_tower fmt P d') \<and> length d' = length d \<and>
    (\<forall>i < length d. f i (d ! i) = Inr (d' ! i))"
proof -
  let ?I = "\<lambda>k v. \<exists>d'. v = raw_tower fmt P d' \<and> length d' = length d \<and> (\<forall>i < k. f i (d ! i) = Inr (d' ! i)) \<and>
    (\<forall>i. k \<le> i \<and> i < length d \<longrightarrow> d' ! i = d ! i)"
  have "\<exists>v. each_entry (length d) f (raw_tower fmt P d) = Inr v \<and> ?I (length d) v"
    unfolding each_entry_def
  proof (rule efor_Inr [where P = ?I])
    fix k v assume k: "k < length d" and I: "?I k v"
    then obtain d' where d': "v = raw_tower fmt P d'" "length d' = length d" "\<forall>i < k. f i (d ! i) = Inr (d' ! i)"
      "\<forall>i. k \<le> i \<and> i < length d \<longrightarrow> d' ! i = d ! i" by blast
    obtain r where r: "f k (d ! k) = Inr r" using assms [OF k] by blast
    have dk: "d' ! k = d ! k" using d'(4) k by simp
    have "ebind (Poly_at v k) (\<lambda>e. ebind (f k e) (\<lambda>r. set_entry k r v)) = Inr (raw_tower fmt P (d'[k := r]))"
      using k d'(1,2) r dk by simp
    moreover have "?I (Suc k) (raw_tower fmt P (d'[k := r]))"
      using d'(2-4) r k by (intro exI [of _ "d'[k := r]"]) (auto simp: nth_list_update less_Suc_eq)
    ultimately show "\<exists>v'. ebind (Poly_at v k) (\<lambda>e. ebind (f k e) (\<lambda>r. set_entry k r v)) = Inr v' \<and> ?I (Suc k) v'" by blast
  qed auto
  then show ?thesis by auto
qed

lemma each_entry_represents:
  assumes v: "represents P L a v"
    and f: "\<And>e i. i < 2 ^ L \<Longrightarrow> unat e < unat (m_ciphertextModulus P) \<Longrightarrow> iu e mod iu (m_ciphertextModulus P) = slot P L (m_format v) a i mod iu (m_ciphertextModulus P) \<Longrightarrow>
      \<exists>r. f i e = Inr r \<and> unat r < unat (m_ciphertextModulus P) \<and> iu r mod iu (m_ciphertextModulus P) = slot P L (m_format v) b i mod iu (m_ciphertextModulus P)"
  shows "\<exists>u. each_entry (2 ^ L) f v = Inr u \<and> m_format u = m_format v \<and> represents P L b u"
proof -
  let ?q = "m_ciphertextModulus P"
  obtain d where d: "v = raw_tower (m_format v) P d" "restores ?q (2 ^ L) (slot P L (m_format v) a) d"
    by (rule representsE [OF v])
  note rd = restoresD [OF d(2)]
  have g: "\<exists>r. f i (d ! i) = Inr r \<and> unat r < unat ?q \<and> iu r mod iu ?q = slot P L (m_format v) b i mod iu ?q" if i: "i < 2 ^ L" for i
    using f [OF i rd(2) [OF i] rd(3) [OF i]] .
  obtain d' where d': "each_entry (2 ^ L) f (raw_tower (m_format v) P d) = Inr (raw_tower (m_format v) P d')" "length d' = 2 ^ L"
    "\<forall>i < 2 ^ L. f i (d ! i) = Inr (d' ! i)"
    using each_entry_raw [of d f "m_format v" P] g unfolding rd(1) by blast
  have "restores ?q (2 ^ L) (slot P L (m_format v) b) d'" unfolding restores_def
  proof (intro conjI allI impI)
    show "length d' = 2 ^ L" by (rule d'(2))
    fix i assume i: "i < (2::nat) ^ L"
    then show "unat (d' ! i) < unat ?q" "iu (d' ! i) mod iu ?q = slot P L (m_format v) b i mod iu ?q"
      using g [OF i] d'(3) by auto
  qed
  then show ?thesis using d'(1) representsI by (subst d(1)) auto
qed

lemma constant_times:
  assumes q: "ring_ok P L" and w: "unat w < unat (m_ciphertextModulus P)" "wp = shoup_of w (m_ciphertextModulus P)"
  shows "unat (ModMulFastConstEq e w (m_ciphertextModulus P) wp) = unat e * unat w mod unat (m_ciphertextModulus P)"
proof -
  have m: "0 < unat (m_ciphertextModulus P)" "unat (m_ciphertextModulus P) \<le> 2 ^ 63"
    using ring_okD(1) [OF q] by (auto simp: barrett_modulus_def)
  show ?thesis unfolding ModMulFastConstEq_eq w(2) by (rule ModMulFastConst_correct [OF m w(1) unat_shoup_of [OF m(1) w(1)]])
qed

lemma ExpandCRTBasisQlHat_ok:
  assumes d: "dcrt_params_ok D L" "dcrt_params_ok Q L" and D: "dp_params D = take m (dp_params Q)" "m \<le> length (dp_params Q)"
    and x: "drep D L a x" and w: "m \<le> length w" "m \<le> length wp"
    and W: "\<And>i. i < m \<Longrightarrow> unat (w ! i) < tower_q (dp_params Q) i \<and> wp ! i = shoup_of (w ! i) (m_ciphertextModulus (dp_params Q ! i)) \<and>
      int (tower_q (dp_params Q) i) dvd iu (w ! i) - k"
    and K: "\<And>i. m \<le> i \<Longrightarrow> i < length (dp_params Q) \<Longrightarrow> int (tower_q (dp_params Q) i) dvd k"
  shows "\<exists>y. ExpandCRTBasisQlHat Q w wp (length (dp_params Q)) x = Inr y \<and> dc_format y = dc_format x \<and> drep Q L (\<lambda>j. a j * k) y"
proof -
  let ?Qs = "dp_params Q" let ?n = "length ?Qs" and ?b = "\<lambda>j. a j * k"
  note xd = drepD [OF x] and qs = dcrt_params_okD [OF d(2)]
  have lx: "length (dc_vectors x) = m" using xd(2) D by simp
  have N: "unat (dp_ringDimension D) = 2 ^ L" using d(1) by (simp add: dcrt_params_ok_def)
  let ?f = "\<lambda>i v. ebind (tower_modulus v) (\<lambda>qi. ebind (get_at w i) (\<lambda>w. ebind (get_at wp i) (\<lambda>wp.
      each_entry (2 ^ L) (\<lambda>_ e. Inr (ModMulFastConstEq e w qi wp)) v)))"
  have one: "\<exists>t. ?f i (dc_vectors x ! i) = Inr t \<and> m_format t = dc_format x \<and> represents (?Qs ! i) L ?b t" if i: "i < m" for i
  proof -
    let ?q = "m_ciphertextModulus (?Qs ! i)"
    have i': "i < length (dp_params D)" "i < ?n" "dp_params D ! i = ?Qs ! i" using D i by simp_all
    have v: "represents (?Qs ! i) L a (dc_vectors x ! i)" "m_format (dc_vectors x ! i) = dc_format x" using xd(3,4) [OF i'(1)] i'(3) by simp_all
    have r: "ring_ok (?Qs ! i) L" by (rule qs(2) [OF i'(2)])
    have wi: "unat (w ! i) < unat ?q" "wp ! i = shoup_of (w ! i) ?q" using W [OF i] by (simp_all add: tower_q_def)
    have q0: "0 < unat ?q" using wi(1) by linarith
    have kw: "iu (w ! i) mod iu ?q = k mod iu ?q" using W [OF i] by (simp only: mod_eq_dvd_iff tower_q_def)
    have "\<exists>u. each_entry (2 ^ L) (\<lambda>_ e. Inr (ModMulFastConstEq e (w ! i) ?q (wp ! i))) (dc_vectors x ! i) = Inr u \<and>
        m_format u = m_format (dc_vectors x ! i) \<and> represents (?Qs ! i) L ?b u"
    proof (rule each_entry_represents [OF v(1)])
      fix e :: u64 and j assume e: "iu e mod iu ?q = slot (?Qs ! i) L (m_format (dc_vectors x ! i)) a j mod iu ?q"
      let ?r = "ModMulFastConstEq e (w ! i) ?q (wp ! i)"
      have u: "unat ?r = unat e * unat (w ! i) mod unat ?q" by (rule constant_times [OF r wi])
      have "iu ?r = (iu e * iu (w ! i)) mod iu ?q" unfolding u by (simp only: of_nat_mod of_nat_mult)
      then have "iu ?r mod iu ?q = (slot (?Qs ! i) L (m_format (dc_vectors x ! i)) a j * k) mod iu ?q"
        using mod_mult_cong [OF e kw] by simp
      then show "\<exists>r. (Inr (ModMulFastConstEq e (w ! i) ?q (wp ! i)) :: u64 res) = Inr r \<and> unat r < unat ?q \<and>
          iu r mod iu ?q = slot (?Qs ! i) L (m_format (dc_vectors x ! i)) ?b j mod iu ?q"
        unfolding slot_hom(3) using u mod_less_divisor [OF q0, of "unat e * unat (w ! i)"] by (intro exI [of _ ?r] conjI refl) linarith
    qed
    then show ?thesis using v w i by (auto simp: tower_modulus_def represents_def deref_def get_at_def)
  qed
  obtain vs where vs: "each_tower ?f m (dc_vectors x) = Inr vs" "length vs = m" "\<forall>i < m. ?f i (dc_vectors x ! i) = Inr (vs ! i)"
    using each_tower_Inr [of m ?f "dc_vectors x"] one lx by blast
  have zero: "\<exists>z. PolyImpl (Some (?Qs ! i)) (dc_format x) True = Inr z \<and> m_format z = dc_format x \<and> represents (?Qs ! i) L (\<lambda>_. 0) z"
    if "i < ?n" for i by (rule zero_represents [OF qs(2) [OF that]])
  have "\<exists>zs. emap (\<lambda>i. ebind (get_at ?Qs i) (\<lambda>P. PolyImpl (Some P) (dc_format x) True)) [m..<?n] = Inr zs \<and> length zs = length [m..<?n] \<and>
      (\<forall>i < length [m..<?n]. m_format (zs ! i) = dc_format x \<and> represents (?Qs ! (m + i)) L (\<lambda>_. 0) (zs ! i))"
    by (rule emap_nth_Inr) (use zero in \<open>auto simp: get_at_def\<close>)
  then obtain zs where zs: "emap (\<lambda>i. ebind (get_at ?Qs i) (\<lambda>P. PolyImpl (Some P) (dc_format x) True)) [m..<?n] = Inr zs" "length zs = ?n - m"
    "\<forall>i < ?n - m. m_format (zs ! i) = dc_format x \<and> represents (?Qs ! (m + i)) L (\<lambda>_. 0) (zs ! i)" by auto
  have "drep Q L ?b (x\<lparr>dc_params := Q, dc_vectors := vs @ zs\<rparr>)"
    unfolding drep_def
  proof (intro conjI allI impI)
    show "length (dc_vectors (x\<lparr>dc_params := Q, dc_vectors := vs @ zs\<rparr>)) = ?n" using vs(2) zs(2) D(2) by simp
    fix i assume i: "i < ?n"
    have "m_format ((vs @ zs) ! i) = dc_format x \<and> represents (?Qs ! i) L ?b ((vs @ zs) ! i)"
    proof (cases "i < m")
      case True
      then show ?thesis using one [OF True] vs(2,3) by (auto simp: nth_append)
    next
      case False
      then have z: "m_format (zs ! (i - m)) = dc_format x" "represents (?Qs ! i) L (\<lambda>_. 0) (zs ! (i - m))"
        using zs(3) [rule_format, of "i - m"] i by auto
      have "represents (?Qs ! i) L ?b (zs ! (i - m))"
      proof (rule represents_cong [OF z(2)])
        fix j
        have "iu (m_ciphertextModulus (?Qs ! i)) dvd a j * k" using K [of i] False i by (simp add: tower_q_def)
        then show "0 mod iu (m_ciphertextModulus (?Qs ! i)) = (a j * k) mod iu (m_ciphertextModulus (?Qs ! i))" by simp
      qed
      then show ?thesis using z(1) False vs(2) by (simp add: nth_append)
    qed
    then show "represents (?Qs ! i) L ?b (dc_vectors (x\<lparr>dc_params := Q, dc_vectors := vs @ zs\<rparr>) ! i)"
      "m_format (dc_vectors (x\<lparr>dc_params := Q, dc_vectors := vs @ zs\<rparr>) ! i) = dc_format (x\<lparr>dc_params := Q, dc_vectors := vs @ zs\<rparr>)" by simp_all
  qed simp
  then show ?thesis using vs(1,2) zs(1) lx N D(2) xd(1) by (simp add: ExpandCRTBasisQlHat_def Let_def)
qed

subsection \<open>Scaling a message\<close>

text \<open>The least integer that is not less than \<open>k / t\<close>.\<close>

definition ceiling_quotient :: "int \<Rightarrow> int \<Rightarrow> int" where
  "ceiling_quotient k t = (k + (- k) mod t) div t"

lemma ceiling_quotient:
  assumes "0 < t"
  shows "t * ceiling_quotient k t = k + (- k) mod t" "0 \<le> t * ceiling_quotient k t - k" "t * ceiling_quotient k t - k < t"
proof -
  have "t dvd k + (- k) mod t" by (simp add: mod_0_imp_dvd mod_add_right_eq dvd_eq_mod_eq_0)
  then show e: "t * ceiling_quotient k t = k + (- k) mod t" by (simp add: ceiling_quotient_def)
  show "0 \<le> t * ceiling_quotient k t - k" "t * ceiling_quotient k t - k < t" unfolding e using assms by simp_all
qed

lemma TimesQovert_ok:
  assumes d: "dcrt_params_ok D L" and x: "drep D L a x" and f: "dc_format x = COEFFICIENT"
    and small: "\<And>i j. i < length (dp_params D) \<Longrightarrow> j < 2 ^ L \<Longrightarrow> 0 \<le> a j \<and> a j < int (tower_q (dp_params D) i)"
    and t: "0 < unat t" "\<And>i. i < length (dp_params D) \<Longrightarrow> unat t \<le> tower_q (dp_params D) i"
    and g: "iu g = (- int (big_q D)) mod iu t" "gp = shoup_of g t"
    and w: "length (dp_params D) \<le> length w" "\<And>i. i < length (dp_params D) \<Longrightarrow> unat (w ! i) < tower_q (dp_params D) i \<and>
      int (tower_q (dp_params D) i) dvd iu t * iu (w ! i) - 1"
  shows "\<exists>y. TimesQovert w t g gp x = Inr y \<and> dc_format y = COEFFICIENT \<and> drep D L (\<lambda>j. ceiling_quotient (int (big_q D) * a j) (iu t)) y"
proof -
  let ?Ps = "dp_params D" let ?b = "\<lambda>j. ceiling_quotient (int (big_q D) * a j) (iu t)"
  note xd = drepD [OF x] and ps = dcrt_params_okD [OF d]
  have N: "unat (dp_ringDimension (dc_params x)) = 2 ^ L" using d xd(1) by (simp add: dcrt_params_ok_def)
  have gt: "unat g < unat t"
  proof -
    have "iu g < iu t" unfolding g(1) using t(1) by (simp only: of_nat_0_less_iff pos_mod_bound)
    then show ?thesis by (simp only: of_nat_less_iff)
  qed
  have ti: "0 < iu t" using t(1) by (simp only: of_nat_0_less_iff)
  have "\<exists>y. update_towers (\<lambda>i v. ebind (tower_modulus v) (\<lambda>q. ebind (ComputeMu q) (\<lambda>mu.
        each_entry (unat (dp_ringDimension (dc_params x)))
          (\<lambda>_ e. ebind (get_at w i) (\<lambda>w. Inr (ModMulFastEq_mu (ModMulFastConstEq e g t gp) w q mu))) v))) x = Inr y \<and>
      dc_format y = dc_format x \<and> drep D L ?b y"
  proof (rule update_towers_drep [OF x])
    fix i assume i: "i < length ?Ps"
    let ?q = "m_ciphertextModulus (?Ps ! i)" and ?v = "dc_vectors x ! i"
    have v: "represents (?Ps ! i) L a ?v" "m_format ?v = COEFFICIENT" using xd(3,4) [OF i] f by simp_all
    have bq: "barrett_modulus ?q" using ring_okD(1) [OF ps(2) [OF i]] .
    have q: "0 < unat ?q" "unat ?q \<le> 2 ^ 63" using bq by (auto simp: barrett_modulus_def)
    have tq: "unat t \<le> unat ?q" using t(2) [OF i] by (simp add: tower_q_def)
    have tm: "unat t \<le> 2 ^ 63" using tq q(2) by simp
    have wi: "unat (w ! i) < unat ?q" "iu ?q dvd iu t * iu (w ! i) - 1" using w(2) [OF i] by (simp_all add: tower_q_def)
    have Qq: "iu ?q dvd int (big_q D)" using tower_hat(1) [OF d i] by (simp add: tower_q_def)
    have "\<exists>u. each_entry (2 ^ L) (\<lambda>_ e. ebind (get_at w i) (\<lambda>w. Inr (ModMulFastEq_mu (ModMulFastConstEq e g t gp) w ?q (mu_of ?q)))) ?v = Inr u \<and>
        m_format u = m_format ?v \<and> represents (?Ps ! i) L ?b u"
    proof (rule each_entry_represents [OF v(1)])
      fix e :: u64 and j assume j: "j < (2::nat) ^ L" and e: "unat e < unat ?q" "iu e mod iu ?q = slot (?Ps ! i) L (m_format ?v) a j mod iu ?q"
      have ea: "iu e = a j"
      proof -
        have "0 \<le> a j" "a j < iu ?q" using small [OF i j] by (simp_all add: tower_q_def)
        moreover have "0 \<le> iu e" "iu e < iu ?q" using e(1) by (simp_all only: of_nat_less_iff of_nat_0_le_iff)
        ultimately show ?thesis using e(2) v(2) by (simp add: slot_coeff)
      qed
      let ?y = "ModMulFastConstEq e g t gp" let ?r = "ModMulFastEq_mu ?y (w ! i) ?q (mu_of ?q)"
      have y: "unat ?y = unat e * unat g mod unat t"
        unfolding ModMulFastConstEq_eq g(2) by (rule ModMulFastConst_correct [OF t(1) tm gt unat_shoup_of [OF t(1) gt]])
      then have yq: "unat ?y < unat ?q" using mod_less_divisor [OF t(1), of "unat e * unat g"] tq by linarith
      have r: "unat ?r = unat ?y * unat (w ! i) mod unat ?q"
        unfolding ModMulFastEq_mu_eq by (rule ModMulFast_mu_reduced [OF bq unat_mu_of [OF bq] yq wi(1)])
      have iy: "iu ?y = (- (int (big_q D) * a j)) mod iu t"
      proof -
        have "iu ?y = (iu e * iu g) mod iu t" unfolding y by (simp only: of_nat_mod of_nat_mult)
        also have "\<dots> = (a j * (- int (big_q D))) mod iu t" unfolding ea g(1) by (simp only: mod_mult_right_eq)
        finally show ?thesis by (simp add: mult.commute)
      qed
      have tb: "iu t * ?b j = int (big_q D) * a j + iu ?y" unfolding iy by (rule ceiling_quotient(1) [OF ti])
      have "iu ?y * iu (w ! i) - ?b j = (iu t * ?b j - int (big_q D) * a j) * iu (w ! i) - ?b j" using tb by simp
      also have "\<dots> = ?b j * (iu t * iu (w ! i) - 1) - int (big_q D) * (a j * iu (w ! i))" by (simp add: algebra_simps)
      finally have "iu ?q dvd iu ?y * iu (w ! i) - ?b j" using wi(2) Qq by (simp only: dvd_diff dvd_mult dvd_mult2)
      then have "(iu ?y * iu (w ! i)) mod iu ?q = ?b j mod iu ?q" by (simp only: mod_eq_dvd_iff)
      moreover have "iu ?r = (iu ?y * iu (w ! i)) mod iu ?q" unfolding r by (simp only: of_nat_mod of_nat_mult)
      ultimately have "iu ?r mod iu ?q = ?b j mod iu ?q" by (simp only: mod_mod_trivial)
      moreover have "unat ?r < unat ?q" unfolding r by (rule mod_less_divisor [OF q(1)])
      ultimately show "\<exists>r. ebind (get_at w i) (\<lambda>w. Inr (ModMulFastEq_mu (ModMulFastConstEq e g t gp) w ?q (mu_of ?q))) = Inr r \<and> unat r < unat ?q \<and>
          iu r mod iu ?q = slot (?Ps ! i) L (m_format ?v) ?b j mod iu ?q"
        unfolding v(2) slot_coeff using i w(1) by (intro exI [of _ ?r]) (simp add: get_at_def)
    qed
    then show "\<exists>u. ebind (tower_modulus ?v) (\<lambda>q. ebind (ComputeMu q) (\<lambda>mu. each_entry (unat (dp_ringDimension (dc_params x)))
          (\<lambda>_ e. ebind (get_at w i) (\<lambda>w. Inr (ModMulFastEq_mu (ModMulFastConstEq e g t gp) w q mu))) ?v)) = Inr u \<and>
        represents (?Ps ! i) L ?b u \<and> m_format u = dc_format x"
      using v(1) f v(2) unfolding N by (auto simp: tower_modulus_def represents_def deref_def ComputeMu_eq [OF bq])
  qed
  then show ?thesis using f w(1) xd(2) by (simp add: TimesQovert_def)
qed

end
