(* ===== verification/Behz.thy ===== *)
theory Behz
  imports ModDown
begin

text \<open>
  Multiplication by an auxiliary base (\<open>lattice/hal/default/dcrtpoly-impl.h\<close>, the functions of the method of Bajard,
  Eynard, Hasan and Zucca): the operations, and what the conversion to the auxiliary base does to the integer polynomial.
\<close>

section \<open>Definitions\<close>

text \<open>The sum over the moduli of one entry's digits times column \<open>j\<close> of a table, in a double word.\<close>

definition column_sum :: "(nat \<Rightarrow> u64 res) \<Rightarrow> u64 list list \<Rightarrow> nat \<Rightarrow> nat \<Rightarrow> u128 res" where
  "column_sum xs H j n = efor 0 n (\<lambda>i acc. ebind (xs i) (\<lambda>y. ebind (get_at H i) (\<lambda>h. ebind (get_at h j) (\<lambda>w.
     Inr (acc + Mul128 y w))))) 0"

subsection \<open>To the auxiliary base, by Montgomery's method\<close>

text \<open>
  The digits of all entries and their sum modulo \<open>2 ^ 64\<close>. The array of the code with index \<open>i * n + k\<close> is kept as one
  row for each \<open>i\<close>.
\<close>

definition twist_row :: "poly \<Rightarrow> u64 \<Rightarrow> u64 \<Rightarrow> u64 \<Rightarrow> nat \<Rightarrow> u64 list res" where
  "twist_row t w q wp n = emap (\<lambda>k. ebind (Poly_at t k) (\<lambda>x. Inr (ModMulFastConst x w q wp))) [0..<n]"

definition twisted_rows ::
    "poly list \<Rightarrow> u64 list \<Rightarrow> u64 list \<Rightarrow> u64 list \<Rightarrow> u64 list \<Rightarrow> nat \<Rightarrow> nat \<Rightarrow> (u64 list list \<times> u64 list) res" where
  "twisted_rows ts moduliQ mtildeQHatInvModq mtildeQHatInvModqPrecon QHatModmtilde numQ n = efor 0 numQ (\<lambda>i (xs, rs).
     ebind (get_at mtildeQHatInvModq i) (\<lambda>w. ebind (get_at mtildeQHatInvModqPrecon i) (\<lambda>wp.
     ebind (get_at QHatModmtilde i) (\<lambda>h. ebind (get_at ts i) (\<lambda>t. ebind (get_at moduliQ i) (\<lambda>q.
     ebind (twist_row t w q wp n) (\<lambda>row. Inr (xs @ [row], map2 (\<lambda>r y. r + y * h) rs row)))))))) ([], replicate n 0)"

definition montgomery_residue :: "u64 \<Rightarrow> u64 \<Rightarrow> u64" where
  "montgomery_residue negQInvModmtilde r = (let mtilde_minus_1 = 2 ^ 16 - 1 in
     ((r AND mtilde_minus_1) * negQInvModmtilde) AND mtilde_minus_1)"

text \<open>One entry of the result: the centred residue times \<open>Q\<close> is added to the sum \<open>s\<close>, which is divided by \<open>mtilde\<close>.\<close>

definition bsk_entry :: "u64 \<Rightarrow> u64 \<Rightarrow> u64 \<Rightarrow> u64 \<Rightarrow> u64 \<Rightarrow> u64 \<Rightarrow> u64 \<Rightarrow> u64" where
  "bsk_entry s r p qMod qModPrecon mtildeInv mtildeInvPrecon =
     (let mtilde = 2 ^ 16; mtilde_half = drop_bit 1 mtilde;
          r_m_tilde = (if r \<ge> mtilde_half then r + (p - mtilde) else r);
          r_m_tilde = ModMulFastConstEq r_m_tilde qMod p qModPrecon;
          r_m_tilde = ModAddFastEq r_m_tilde s p
      in ModMulFastConst r_m_tilde mtildeInv p mtildeInvPrecon)"

definition bsk_tower ::
    "'s prng \<Rightarrow> nat \<Rightarrow> nat \<Rightarrow> u64 list list \<Rightarrow> u64 list \<Rightarrow> u64 list \<Rightarrow> u128 list \<Rightarrow> u64 list list \<Rightarrow> u64 list \<Rightarrow> u64 list \<Rightarrow>
      u64 list \<Rightarrow> u64 list \<Rightarrow> nat \<Rightarrow> poly \<Rightarrow> caches \<Rightarrow> 's \<Rightarrow> (poly \<times> caches, 's) run" where
  "bsk_tower draw n numQ xs rs moduliBsk modbskBarrettMu QHatModbsk QModbsk QModbskPrecon mtildeInvModbsk mtildeInvModbskPrecon j v cs s =
     rbind (rlift (ebind (get_at moduliBsk j) (\<lambda>p. ebind (get_at mtildeInvModbsk j) (\<lambda>ti. ebind (get_at mtildeInvModbskPrecon j) (\<lambda>tip.
       ebind (get_at QModbsk j) (\<lambda>qm. ebind (get_at QModbskPrecon j) (\<lambda>qmp.
       each_entry n (\<lambda>k _. ebind (column_sum (\<lambda>i. ebind (get_at xs i) (\<lambda>row. get_at row k)) QHatModbsk j numQ) (\<lambda>result.
         ebind (get_at modbskBarrettMu j) (\<lambda>mu. ebind (BarrettUint128ModUint64 result p mu) (\<lambda>c.
         ebind (get_at rs k) (\<lambda>r. Inr (bsk_entry c r p qm qmp ti tip)))))) v)))))) s) (\<lambda>v s.
     SetFormat draw EVALUATION v cs s)"

definition FastBaseConvqToBskMontgomery ::
    "'s prng \<Rightarrow> dcrt_params \<Rightarrow> u64 list \<Rightarrow> u64 list \<Rightarrow> u128 list \<Rightarrow> u64 list \<Rightarrow> u64 list \<Rightarrow> u64 list list \<Rightarrow> u64 list \<Rightarrow> u64 list \<Rightarrow> u64 list \<Rightarrow>
      u64 \<Rightarrow> u64 list \<Rightarrow> u64 list \<Rightarrow> dcrt \<Rightarrow> caches \<Rightarrow> 's \<Rightarrow> (dcrt \<times> caches, 's) run" where
  "FastBaseConvqToBskMontgomery draw paramsQBsk moduliQ moduliBsk modbskBarrettMu mtildeQHatInvModq mtildeQHatInvModqPrecon QHatModbsk
      QHatModmtilde QModbsk QModbskPrecon negQInvModmtilde mtildeInvModbsk mtildeInvModbskPrecon x cs s =
     (let polyInNTT = (if dc_format x = EVALUATION then dc_vectors x else []);
          numQ = length moduliQ; numBsk = length moduliBsk; n = unat (dp_ringDimension paramsQBsk)
      in rbind (Dcrt_SetFormat draw COEFFICIENT x cs s) (\<lambda>(c, cs) s.
         rbind (rlift (emap (\<lambda>j. ebind (get_at (dp_params paramsQBsk) (numQ + j)) (\<lambda>P. PolyImpl (Some P) (dc_format c) True)) [0..<numBsk]) s) (\<lambda>zs s.
         rbind (rlift (emap ComputeMu moduliBsk) s) (\<lambda>_ s.
         rbind (rlift (twisted_rows (dc_vectors c) moduliQ mtildeQHatInvModq mtildeQHatInvModqPrecon QHatModmtilde numQ n) s) (\<lambda>(xs, rs) s.
         let rs = map (montgomery_residue negQInvModmtilde) rs
         in rbind (each_tower_run (\<lambda>i v cs s. if i < numQ then Some (Inr ((v, cs), s))
               else bsk_tower draw n numQ xs rs moduliBsk modbskBarrettMu QHatModbsk QModbsk QModbskPrecon mtildeInvModbsk mtildeInvModbskPrecon
                 (i - numQ) v cs s) (numQ + numBsk) (dc_vectors c @ zs) cs s) (\<lambda>(vs, cs) s.
            if polyInNTT \<noteq> [] then Some (Inr ((\<lparr>dc_params = paramsQBsk, dc_format = EVALUATION,
                dc_vectors = polyInNTT @ drop (length polyInNTT) vs\<rparr>, cs), s))
            else rbind (each_tower_run (\<lambda>i. SetFormat draw EVALUATION) numQ vs cs s) (\<lambda>(vs, cs) s.
                Some (Inr ((\<lparr>dc_params = paramsQBsk, dc_format = EVALUATION, dc_vectors = vs\<rparr>, cs), s)))))))))"

subsection \<open>The floor of a quotient by \<open>Q\<close>\<close>

definition floor_tower ::
    "nat \<Rightarrow> nat \<Rightarrow> poly list \<Rightarrow> u64 list \<Rightarrow> u128 list \<Rightarrow> u64 list list \<Rightarrow> u64 list \<Rightarrow> u64 list \<Rightarrow> nat \<Rightarrow> poly \<Rightarrow> poly res" where
  "floor_tower n numQ ts moduliBsk modbskBarrettMu qInvModbsk tQInvModbsk tQInvModbskPrecon j v =
     ebind (get_at moduliBsk j) (\<lambda>p. ebind (get_at tQInvModbsk j) (\<lambda>w. ebind (get_at tQInvModbskPrecon j) (\<lambda>wp.
       each_entry n (\<lambda>k e. ebind (column_sum (\<lambda>i. ebind (get_at ts i) (\<lambda>t. Poly_at t k)) qInvModbsk j numQ) (\<lambda>aq.
         ebind (get_at modbskBarrettMu j) (\<lambda>mu. ebind (BarrettUint128ModUint64 aq p mu) (\<lambda>r.
           Inr (ModSubFastEq (ModMulFastConstEq e w p wp) r p))))) v)))"

definition FastRNSFloorq ::
    "u64 list \<Rightarrow> u64 list \<Rightarrow> u128 list \<Rightarrow> u64 list \<Rightarrow> u64 list \<Rightarrow> u64 list list \<Rightarrow> u64 list \<Rightarrow> u64 list \<Rightarrow> dcrt \<Rightarrow> dcrt res" where
  "FastRNSFloorq moduliQ moduliBsk modbskBarrettMu tQHatInvModq tQHatInvModqPrecon qInvModbsk tQInvModbsk tQInvModbskPrecon x =
     (let numQ = length moduliQ; numBsk = length moduliBsk; n = unat (dp_ringDimension (dc_params x))
      in ebind (emap ComputeMu moduliBsk) (\<lambda>_.
         ebind (each_tower (\<lambda>i v. ebind (get_at tQHatInvModq i) (\<lambda>w. ebind (get_at tQHatInvModqPrecon i) (\<lambda>wp. ebind (get_at moduliQ i) (\<lambda>q.
             each_entry n (\<lambda>_ e. Inr (ModMulFastConstEq e w q wp)) v)))) numQ (dc_vectors x)) (\<lambda>ts.
         ebind (each_tower (\<lambda>i v. if i < numQ then Inr v
             else floor_tower n numQ ts moduliBsk modbskBarrettMu qInvModbsk tQInvModbsk tQInvModbskPrecon (i - numQ) v) (numQ + numBsk) ts) (\<lambda>ts.
           Inr (x\<lparr>dc_vectors := ts\<rparr>)))))"

subsection \<open>Back to \<open>Q\<close>, by the method of Shenoy and Kumaresan\<close>

definition alpha_step ::
    "nat \<Rightarrow> nat \<Rightarrow> u64 list \<Rightarrow> u64 \<Rightarrow> u64 \<Rightarrow> u64 list \<Rightarrow> u64 list \<Rightarrow> u64 list \<Rightarrow> nat \<Rightarrow> poly list \<times> u64 list \<Rightarrow> (poly list \<times> u64 list) res" where
  "alpha_step n sizeQ moduliBsk msk muBsk BHatInvModb BHatInvModbPrecon BHatModmsk i = (\<lambda>(ts, al).
     ebind (get_at moduliBsk i) (\<lambda>b. ebind (get_at BHatModmsk i) (\<lambda>h. ebind (get_at BHatInvModb i) (\<lambda>w. ebind (get_at BHatInvModbPrecon i) (\<lambda>wp.
     ebind (get_at ts (sizeQ + i)) (\<lambda>t. ebind (each_entry n (\<lambda>_ e. Inr (ModMulFastConstEq e w b wp)) t) (\<lambda>t.
     ebind (emap (\<lambda>k. ebind (get_at al k) (\<lambda>a. ebind (Poly_at t k) (\<lambda>e. Inr (ModAddEq a (ModMul_mu e h msk muBsk) msk)))) [0..<n]) (\<lambda>al.
     ebind (set_at ts (sizeQ + i) t) (\<lambda>ts. Inr (ts, al))))))))))"

definition sk_entry :: "u64 \<Rightarrow> u64 \<Rightarrow> u64 \<Rightarrow> u64 \<Rightarrow> u64 \<Rightarrow> u64 \<Rightarrow> u64" where
  "sk_entry c a msk q bMod bModPrecon =
     (let mskDivTwo = drop_bit 1 msk;
          alphaskBModqj = (if a > mskDivTwo then ModSubFast a msk q else a);
          alphaskBModqj = ModMulFastConstEq alphaskBModqj bMod q bModPrecon
      in ModSubFast c alphaskBModqj q)"

definition sk_tower ::
    "nat \<Rightarrow> nat \<Rightarrow> nat \<Rightarrow> poly list \<Rightarrow> u64 list \<Rightarrow> u64 \<Rightarrow> u64 list \<Rightarrow> u128 list \<Rightarrow> u64 list list \<Rightarrow> u64 list \<Rightarrow> u64 list \<Rightarrow> nat \<Rightarrow> poly \<Rightarrow> poly res" where
  "sk_tower n sizeQ sizeBskm1 ts alpha msk moduliQ modqBarrettMu BHatModq BModq BModqPrecon j v =
     ebind (get_at moduliQ j) (\<lambda>q. ebind (get_at BModq j) (\<lambda>w. ebind (get_at BModqPrecon j) (\<lambda>wp.
       each_entry n (\<lambda>k _. ebind (column_sum (\<lambda>i. ebind (get_at ts (sizeQ + i)) (\<lambda>t. Poly_at t k)) BHatModq j sizeBskm1) (\<lambda>result.
         ebind (get_at modqBarrettMu j) (\<lambda>mu. ebind (BarrettUint128ModUint64 result q mu) (\<lambda>c.
         ebind (get_at alpha k) (\<lambda>a. Inr (sk_entry c a msk q w wp)))))) v)))"

definition FastBaseConvSK ::
    "dcrt_params \<Rightarrow> u128 list \<Rightarrow> u64 list \<Rightarrow> u64 list \<Rightarrow> u64 list \<Rightarrow> u64 list \<Rightarrow> u64 \<Rightarrow> u64 \<Rightarrow> u64 list list \<Rightarrow> u64 list \<Rightarrow> u64 list \<Rightarrow> dcrt \<Rightarrow> dcrt res" where
  "FastBaseConvSK paramsQ modqBarrettMu moduliBsk BHatInvModb BHatInvModbPrecon BHatModmsk BInvModmsk BInvModmskPrecon BHatModq BModq BModqPrecon x =
     (let moduliQ = map m_ciphertextModulus (dp_params paramsQ); sizeQ = length moduliQ; sizeBsk = length moduliBsk; sizeBskm1 = sizeBsk - 1;
          n = unat (dp_ringDimension (dc_params x))
      in ebind (emap ComputeMu moduliQ) (\<lambda>_.
         ebind (get_at moduliBsk sizeBskm1) (\<lambda>msk. ebind (ComputeMu msk) (\<lambda>muBsk.
         ebind (efor 0 sizeBskm1 (alpha_step n sizeQ moduliBsk msk muBsk BHatInvModb BHatInvModbPrecon BHatModmsk)
             (dc_vectors x, replicate n 0)) (\<lambda>(ts, al).
         ebind (get_at ts (sizeQ + sizeBskm1)) (\<lambda>tsk.
         ebind (emap (\<lambda>k. ebind (get_at al k) (\<lambda>a. ebind (Poly_at tsk k) (\<lambda>e.
             Inr (ModMulFastConstEq (ModSubFast a e msk) BInvModmsk msk BInvModmskPrecon)))) [0..<n]) (\<lambda>al.
         ebind (each_tower (sk_tower n sizeQ sizeBskm1 ts al msk moduliQ modqBarrettMu BHatModq BModq BModqPrecon) sizeQ ts) (\<lambda>ts.
         Inr (x\<lparr>dc_params := paramsQ, dc_vectors :=
           (if sizeQ < length ts
            then if sizeQ + sizeBsk \<ge> length ts then take sizeQ ts else take sizeQ ts @ drop (sizeQ + sizeBsk) ts
            else ts)\<rparr>)))))))))"

section \<open>Facts\<close>

text \<open>The sums are exact, and their residues are the sums of the residues.\<close>

lemma column_sum_ok:
  assumes x: "\<And>i. i < n \<Longrightarrow> xs i = Inr (y i) \<and> i < length H \<and> j < length (H ! i)"
    and b: "\<And>i. i < n \<Longrightarrow> unat (y i) * unat (H ! i ! j) \<le> 2 ^ 120" and n: "n \<le> 255"
  shows "\<exists>s. column_sum xs H j n = Inr s \<and> unat s = (\<Sum>i<n. unat (y i) * unat (H ! i ! j))"
  unfolding column_sum_def
proof (rule efor_Inr [where P = "\<lambda>k s. unat s = (\<Sum>i<k. unat (y i) * unat (H ! i ! j))"])
  fix i and s :: u128 assume i: "i < n" and s: "unat s = (\<Sum>i<i. unat (y i) * unat (H ! i ! j))"
  have "(\<Sum>i<Suc i. unat (y i) * unat (H ! i ! j)) \<le> (\<Sum>i<Suc i. 2 ^ 120)"
    by (rule sum_mono) (use b i in auto)
  also have "\<dots> \<le> 255 * 2 ^ 120" using i n by simp
  finally have "unat s + unat (Mul128 (y i) (H ! i ! j)) < 2 ^ 128" using s by (simp add: unat_Mul128)
  then have "unat (s + Mul128 (y i) (H ! i ! j)) = (\<Sum>i<Suc i. unat (y i) * unat (H ! i ! j))"
    using s by (simp add: unat_word_ariths(1) unat_Mul128)
  then show "\<exists>s'. ebind (xs i) (\<lambda>y. ebind (get_at H i) (\<lambda>h. ebind (get_at h j) (\<lambda>w. Inr (s + Mul128 y w)))) = Inr s' \<and>
      unat s' = (\<Sum>i<Suc i. unat (y i) * unat (H ! i ! j))" using x [OF i] by (simp add: get_at_def)
qed simp_all

lemma column_residue:
  assumes x: "\<And>i. i < n \<Longrightarrow> xs i = Inr (y i) \<and> unat (y i) < 2 ^ 60 \<and> i < length H \<and> j < length (H ! i) \<and> unat (H ! i ! j) < 2 ^ 60"
    and n: "n \<le> 255" and p: "barrett_modulus p" "unat mu = 2 ^ 128 div unat p"
    and h: "\<And>i. i < n \<Longrightarrow> iu (H ! i ! j) mod iu p = h i mod iu p"
  shows "\<exists>s r. column_sum xs H j n = Inr s \<and> BarrettUint128ModUint64 s p mu = Inr r \<and> unat r < unat p \<and>
    iu r mod iu p = (\<Sum>i<n. iu (y i) * h i) mod iu p"
proof -
  have b: "unat (y i) * unat (H ! i ! j) \<le> 2 ^ 120" if "i < n" for i
  proof -
    have "unat (y i) \<le> 2 ^ 60" "unat (H ! i ! j) \<le> 2 ^ 60" using x [OF that] by simp_all
    then have "unat (y i) * unat (H ! i ! j) \<le> 2 ^ 60 * 2 ^ 60" by (rule mult_le_mono)
    then show ?thesis by simp
  qed
  have "\<exists>s. column_sum xs H j n = Inr s \<and> unat s = (\<Sum>i<n. unat (y i) * unat (H ! i ! j))"
    by (rule column_sum_ok) (use x b n in auto)
  then obtain s where s: "column_sum xs H j n = Inr s" "unat s = (\<Sum>i<n. unat (y i) * unat (H ! i ! j))" by blast
  have p': "1 < unat p" "unat p \<le> 2 ^ 63" using p(1) by (auto simp: barrett_modulus_def)
  obtain r where r: "BarrettUint128ModUint64 s p mu = Inr r" "unat r = unat s mod unat p"
    using BarrettUint128ModUint64_correct [OF p' p(2)] by blast
  have "iu r = (\<Sum>i<n. iu (y i) * iu (H ! i ! j)) mod iu p"
    using arg_cong [OF r(2) [unfolded s(2)], of int] by (simp only: of_nat_mod of_nat_sum of_nat_mult)
  moreover have "(\<Sum>i<n. iu (y i) * iu (H ! i ! j)) mod iu p = (\<Sum>i<n. iu (y i) * h i) mod iu p"
    by (rule sum_mod_cong) (use h in \<open>auto intro!: mod_mult_cong\<close>)
  moreover have "unat r < unat p" unfolding r(2) using p'(1) by simp
  ultimately show ?thesis using s(1) r(1) by (intro exI [of _ s] exI [of _ r]) (simp only: mod_mod_trivial simp_thms)
qed

text \<open>A conversion whose digits carry an additional factor \<open>t\<close>.\<close>

lemma approx_conv_factor:
  assumes ps: "rns_ok Ps L" and w: "\<And>i. i < length Ps \<Longrightarrow> (iu (w ! i) * int (crt_hat (tower_q Ps) (length Ps) i)) mod int (tower_q Ps i) = t mod int (tower_q Ps i)"
  shows "\<exists>\<alpha>. approx_conv Ps w a = (t * a) mod int (\<Prod>i<length Ps. tower_q Ps i) + \<alpha> * int (\<Prod>i<length Ps. tower_q Ps i) \<and> 0 \<le> \<alpha> \<and> \<alpha> < int (length Ps)"
proof -
  let ?n = "length Ps" and ?q = "tower_q Ps"
  have n: "0 < ?n" using ps by (auto simp: rns_ok_def)
  have y: "0 \<le> (a * iu (w ! i)) mod int (?q i) \<and> (a * iu (w ! i)) mod int (?q i) < int (?q i)" if "i < ?n" for i
    using rns_okD(2) [OF ps that] by simp
  have c: "((a * iu (w ! i)) mod int (?q i) * int (crt_hat ?q ?n i)) mod int (?q i) = (t * a) mod int (?q i)" if "i < ?n" for i
  proof -
    have "((a * iu (w ! i)) mod int (?q i) * int (crt_hat ?q ?n i)) mod int (?q i) =
        (a * ((iu (w ! i) * int (crt_hat ?q ?n i)) mod int (?q i))) mod int (?q i)"
      by (simp only: mod_mult_left_eq mod_mult_right_eq mult.assoc)
    then show ?thesis unfolding w [OF that] by (simp only: mod_mult_right_eq mult.commute)
  qed
  show ?thesis
    by (rule crt_overflow [where y = "\<lambda>i. (a * iu (w ! i)) mod int (?q i)" and a = "t * a", OF rns_chain [OF ps] y c n])
      (assumption | auto simp: approx_conv_def)+
qed

text \<open>Residues that are determined by a multiple.\<close>

lemma cancel_inverse:
  fixes p :: int
  assumes "(u * v) mod p = 1 mod p" "(v * x) mod p = z mod p"
  shows "(z * u) mod p = x mod p"
proof -
  have "(z * u) mod p = (v * x * u) mod p" using mod_mult_cong [OF assms(2) refl, of u] by simp
  also have "\<dots> = (u * v mod p * x) mod p" by (simp only: mod_mult_left_eq) (simp only: mult.commute mult.left_commute)
  finally show ?thesis unfolding assms(1) by (simp only: mod_mult_left_eq mult_1)
qed

subsection \<open>Montgomery's method\<close>

text \<open>The residue modulo \<open>2 ^ 16\<close> between \<open>- 2 ^ 15\<close> and \<open>2 ^ 15 - 1\<close>, and the quotient that it makes exact.\<close>

definition centred_16 :: "int \<Rightarrow> int" where
  "centred_16 k = (if 2 ^ 15 \<le> k mod 2 ^ 16 then k mod 2 ^ 16 - 2 ^ 16 else k mod 2 ^ 16)"

lemma centred_16: "centred_16 k mod 2 ^ 16 = k mod 2 ^ 16" "- (2 ^ 15) \<le> centred_16 k" "centred_16 k < 2 ^ 15"
proof -
  have "(k mod 2 ^ 16 - 2 ^ 16) mod 2 ^ 16 = k mod 2 ^ 16" using minus_mod_self2 [of "k mod 2 ^ 16" "2 ^ 16"] by (simp del: minus_mod_self2)
  then show "centred_16 k mod 2 ^ 16 = k mod 2 ^ 16" by (simp add: centred_16_def)
  have "0 \<le> k mod 2 ^ 16" "k mod 2 ^ 16 < 2 ^ 16" by simp_all
  then show "- (2 ^ 15) \<le> centred_16 k" "centred_16 k < 2 ^ 15" by (auto simp: centred_16_def)
qed

definition montgomery_quotient :: "int \<Rightarrow> int \<Rightarrow> int \<Rightarrow> int" where
  "montgomery_quotient Q ninv S = (S + centred_16 (S * ninv) * Q) div 2 ^ 16"

lemma montgomery_quotient:
  assumes "(Q * ninv) mod 2 ^ 16 = (- 1) mod 2 ^ 16"
  shows "2 ^ 16 * montgomery_quotient Q ninv S = S + centred_16 (S * ninv) * Q"
proof -
  have "(S + centred_16 (S * ninv) * Q) mod 2 ^ 16 = (S + S * ninv * Q) mod 2 ^ 16"
    using centred_16(1) [of "S * ninv"] by (intro mod_add_cong mod_mult_cong refl)
  also have "\<dots> = (S + S * (Q * ninv)) mod 2 ^ 16" by (simp only: mult.assoc mult.commute [of ninv])
  also have "\<dots> = (S + S * (- 1)) mod 2 ^ 16" using assms by (intro mod_add_cong mod_mult_cong refl)
  finally have "2 ^ 16 dvd S + centred_16 (S * ninv) * Q" by (simp add: dvd_eq_mod_eq_0)
  then show ?thesis unfolding montgomery_quotient_def by (rule dvd_mult_div_cancel)
qed

lemma montgomery_residue:
  assumes "iu r mod 2 ^ 16 = S mod 2 ^ 16" "iu ninv mod 2 ^ 16 = k mod 2 ^ 16"
  shows "iu (montgomery_residue ninv r) = (S * k) mod 2 ^ 16"
proof -
  have m: "(2 ^ 16 - 1 :: u64) = mask 16" by (simp add: mask_eq_exp_minus_1)
  have "uint (montgomery_residue ninv r) = (((uint r mod 2 ^ 16) * uint ninv) mod 2 ^ 64) mod 2 ^ 16"
    unfolding montgomery_residue_def m Let_def take_bit_eq_mask [symmetric] unsigned_take_bit_eq
    by (simp only: uint_word_ariths(3) unsigned_take_bit_eq len_of_numeral_defs) (simp add: take_bit_eq_mod uint_mod)
  also have "\<dots> = ((uint r mod 2 ^ 16) * uint ninv) mod 2 ^ 16" by (rule mod_mod_cancel) simp
  finally show ?thesis using mod_mult_cong [OF assms] by (simp add: mod_mult_left_eq)
qed

text \<open>
  What the conversion from the moduli of \<open>Ps\<close> to those of \<open>Bs\<close> is given; \<open>mtilde = 2 ^ 16\<close>.
\<close>

definition montgomery_tables ::
    "elem_params list \<Rightarrow> elem_params list \<Rightarrow> u64 list \<Rightarrow> u64 list \<Rightarrow> u64 list list \<Rightarrow> u64 list \<Rightarrow> u64 list \<Rightarrow> u64 list \<Rightarrow> u64 \<Rightarrow> u64 list \<Rightarrow> u64 list \<Rightarrow>
      u128 list \<Rightarrow> bool" where
  "montgomery_tables Ps Bs w wp H h qm qmp ninv mi mip mus \<longleftrightarrow>
     length Ps \<le> length w \<and> length Ps \<le> length wp \<and> length Ps \<le> length H \<and> length Ps \<le> length h \<and>
     (\<forall>i < length Ps. unat (w ! i) < tower_q Ps i \<and> wp ! i = shoup_of (w ! i) (m_ciphertextModulus (Ps ! i)) \<and>
        (iu (w ! i) * int (crt_hat (tower_q Ps) (length Ps) i)) mod int (tower_q Ps i) = 2 ^ 16 mod int (tower_q Ps i) \<and>
        length Bs \<le> length (H ! i) \<and> (\<forall>j < length Bs. unat (H ! i ! j) = crt_hat (tower_q Ps) (length Ps) i mod tower_q Bs j) \<and>
        iu (h ! i) mod 2 ^ 16 = int (crt_hat (tower_q Ps) (length Ps) i) mod 2 ^ 16) \<and>
     (int (\<Prod>i<length Ps. tower_q Ps i) * iu ninv) mod 2 ^ 16 = (- 1) mod 2 ^ 16 \<and>
     length Bs \<le> length qm \<and> length Bs \<le> length qmp \<and> length Bs \<le> length mi \<and> length Bs \<le> length mip \<and> length Bs \<le> length mus \<and>
     (\<forall>j < length Bs. 2 ^ 16 \<le> tower_q Bs j \<and> unat (mus ! j) = 2 ^ 128 div tower_q Bs j \<and>
        unat (qm ! j) = (\<Prod>i<length Ps. tower_q Ps i) mod tower_q Bs j \<and> qmp ! j = shoup_of (qm ! j) (m_ciphertextModulus (Bs ! j)) \<and>
        unat (mi ! j) < tower_q Bs j \<and> (iu (mi ! j) * 2 ^ 16) mod int (tower_q Bs j) = 1 mod int (tower_q Bs j) \<and>
        mip ! j = shoup_of (mi ! j) (m_ciphertextModulus (Bs ! j)))"

lemma bsk_entry_ok:
  assumes P: "ring_ok P L" "2 ^ 16 \<le> unat (m_ciphertextModulus P)"
    and c: "unat c < unat (m_ciphertextModulus P)" "iu c mod iu (m_ciphertextModulus P) = S mod iu (m_ciphertextModulus P)"
    and r: "iu r = (S * k) mod 2 ^ 16" and k: "(Q * k) mod 2 ^ 16 = (- 1) mod 2 ^ 16"
    and qm: "unat qm < unat (m_ciphertextModulus P)" "iu qm mod iu (m_ciphertextModulus P) = Q mod iu (m_ciphertextModulus P)"
      "qmp = shoup_of qm (m_ciphertextModulus P)"
    and mi: "unat mi < unat (m_ciphertextModulus P)" "(iu mi * 2 ^ 16) mod iu (m_ciphertextModulus P) = 1 mod iu (m_ciphertextModulus P)"
      "mip = shoup_of mi (m_ciphertextModulus P)"
  shows "unat (bsk_entry c r (m_ciphertextModulus P) qm qmp mi mip) < unat (m_ciphertextModulus P)"
    "iu (bsk_entry c r (m_ciphertextModulus P) qm qmp mi mip) mod iu (m_ciphertextModulus P) = montgomery_quotient Q k S mod iu (m_ciphertextModulus P)"
proof -
  let ?p = "m_ciphertextModulus P"
  note pr = ring_okD [OF P(1)]
  have p60: "unat ?p < 2 ^ 60" using pr(1) by (simp add: barrett_modulus_def)
  define r' where "r' = (if r \<ge> 2 ^ 15 then r + (?p - 2 ^ 16) else r)"
  have "int (unat r) < int (2 ^ 16)" unfolding r by simp
  then have r16: "unat r < 2 ^ 16" by (simp only: of_nat_less_iff)
  have uint15: "r \<ge> 2 ^ 15 \<longleftrightarrow> 2 ^ 15 \<le> iu r" by (simp add: word_le_def)
  have r': "iu r' mod iu ?p = centred_16 (S * k) mod iu ?p"
  proof (cases "r \<ge> 2 ^ 15")
    case True
    have "unat (?p - 2 ^ 16) = unat ?p - 2 ^ 16" using P(2) by (subst unat_sub) (simp_all add: word_le_nat_alt)
    then have "unat r' = unat r + (unat ?p - 2 ^ 16)" using True r16 p60 by (simp add: r'_def unat_word_ariths(1))
    from arg_cong [OF this, of int] have "iu r' = iu r + iu ?p - 2 ^ 16" using P(2) by (simp only: of_nat_add of_nat_diff of_nat_power of_nat_numeral)
    moreover have "2 ^ 15 \<le> iu r" using uint15 True by simp
    ultimately have "iu r' = centred_16 (S * k) + iu ?p" unfolding r by (simp add: centred_16_def)
    then show ?thesis by simp
  next
    case False
    then have "\<not> 2 ^ 15 \<le> iu r" using uint15 by simp
    then have "centred_16 (S * k) = iu r" unfolding r by (simp only: centred_16_def if_False)
    then show ?thesis using False by (simp add: r'_def)
  qed
  define x1 where "x1 = ModMulFastConstEq r' qm ?p qmp"
  define x2 where "x2 = ModAddFastEq x1 c ?p"
  have 1: "unat x1 = unat r' * unat qm mod unat ?p" unfolding x1_def by (rule constant_times [OF P(1) qm(1,3)])
  then have x1: "unat x1 < unat ?p" "iu x1 mod iu ?p = (centred_16 (S * k) * Q) mod iu ?p"
    using pr(7) mod_mult_cong [OF r' qm(2)] arg_cong [OF 1, of int] by (simp_all only: mod_less_divisor of_nat_mod of_nat_mult mod_mod_trivial)
  note hr = barrett_head_room [OF pr(1)]
  have x2: "unat x2 < unat ?p" "iu x2 mod iu ?p = (S + centred_16 (S * k) * Q) mod iu ?p"
    using ModAddFast_int [OF hr x1(1) c(1)] mod_add_cong [OF x1(2) c(2)] unfolding x2_def ModAddFastEq_eq by (simp_all add: add.commute)
  have e: "bsk_entry c r ?p qm qmp mi mip = ModMulFastConst x2 mi ?p mip"
    unfolding bsk_entry_def x2_def x1_def r'_def Let_def by simp
  have 3: "unat (ModMulFastConst x2 mi ?p mip) = unat x2 * unat mi mod unat ?p"
    using constant_times [OF P(1) mi(1,3)] by (simp only: ModMulFastConstEq_eq)
  show "unat (bsk_entry c r ?p qm qmp mi mip) < unat ?p" unfolding e 3 using pr(7) by simp
  have "iu (bsk_entry c r ?p qm qmp mi mip) mod iu ?p = ((S + centred_16 (S * k) * Q) * iu mi) mod iu ?p"
    unfolding e using arg_cong [OF 3, of int] mod_mult_cong [OF x2(2) refl, of "iu mi"] by (simp only: of_nat_mod of_nat_mult mod_mod_trivial)
  also have "\<dots> = montgomery_quotient Q k S mod iu ?p"
    by (rule cancel_inverse [OF mi(2)]) (simp only: montgomery_quotient [OF k])
  finally show "iu (bsk_entry c r ?p qm qmp mi mip) mod iu ?p = montgomery_quotient Q k S mod iu ?p" .
qed

lemma twist_row_ok:
  assumes t: "represents P L a t" "m_format t = COEFFICIENT" and r: "ring_ok P L"
    and w: "unat w < unat (m_ciphertextModulus P)" "wp = shoup_of w (m_ciphertextModulus P)"
  shows "\<exists>ys. twist_row t w (m_ciphertextModulus P) wp (2 ^ L) = Inr ys \<and> length ys = 2 ^ L \<and>
    (\<forall>k < 2 ^ L. iu (ys ! k) = (a k * iu w) mod iu (m_ciphertextModulus P))"
proof -
  have q: "conv_digit t k w wp = ebind (Poly_at t k) (\<lambda>x. Inr (ModMulFastConst x w (m_ciphertextModulus P) wp))" for k
    using tower_modulus_rep [OF t(1)] by (simp add: conv_digit_def)
  have "\<exists>ys. emap (\<lambda>k. conv_digit t k w wp) [0..<2 ^ L] = Inr ys \<and> length ys = length [0..<2 ^ L] \<and>
      (\<forall>k < length [0..<2 ^ L]. iu (ys ! k) = (a k * iu w) mod iu (m_ciphertextModulus P))"
    by (rule emap_nth_Inr) (use conv_digit_ok [OF t r _ w] in auto)
  then show ?thesis unfolding q twist_row_def by simp
qed

lemma twisted_rows_ok:
  assumes ps: "rns_ok Ps L" and t: "\<And>i. i < length Ps \<Longrightarrow> represents (Ps ! i) L a (ts ! i) \<and> m_format (ts ! i) = COEFFICIENT"
    and l: "length Ps \<le> length ts" and T: "montgomery_tables Ps Bs w wp H h qm qmp ninv mi mip mus"
  shows "\<exists>xs rs. twisted_rows ts (map m_ciphertextModulus Ps) w wp h (length Ps) (2 ^ L) = Inr (xs, rs) \<and> length xs = length Ps \<and>
    (\<forall>i < length Ps. length (xs ! i) = 2 ^ L \<and> (\<forall>k < 2 ^ L. iu (xs ! i ! k) = (a k * iu (w ! i)) mod int (tower_q Ps i))) \<and>
    length rs = 2 ^ L \<and> (\<forall>k < 2 ^ L. iu (rs ! k) mod 2 ^ 16 = approx_conv Ps w (a k) mod 2 ^ 16)"
proof -
  let ?n = "length Ps" and ?hat = "\<lambda>i. int (crt_hat (tower_q Ps) (length Ps) i)"
  let ?d = "\<lambda>i k. (a k * iu (w ! i)) mod int (tower_q Ps i)"
  let ?I = "\<lambda>m (xs, rs). length xs = m \<and> (\<forall>i < m. length (xs ! i) = 2 ^ L \<and> (\<forall>k < 2 ^ L. iu (xs ! i ! k) = ?d i k)) \<and>
    length rs = 2 ^ L \<and> (\<forall>k < 2 ^ L. iu (rs ! k) mod 2 ^ 16 = (\<Sum>i<m. ?d i k * ?hat i) mod 2 ^ 16)"
  have "\<exists>p. twisted_rows ts (map m_ciphertextModulus Ps) w wp h ?n (2 ^ L) = Inr p \<and> ?I ?n p"
    unfolding twisted_rows_def
  proof (rule efor_Inr [where P = ?I])
    fix i and p :: "u64 list list \<times> u64 list" assume i: "i < ?n" and I: "?I i p"
    obtain xs rs where p: "p = (xs, rs)" by (cases p)
    have Ti: "unat (w ! i) < tower_q Ps i" "wp ! i = shoup_of (w ! i) (m_ciphertextModulus (Ps ! i))" "i < length w" "i < length wp" "i < length h"
      "iu (h ! i) mod 2 ^ 16 = ?hat i mod 2 ^ 16" using T i by (auto simp: montgomery_tables_def)
    obtain ys where ys: "twist_row (ts ! i) (w ! i) (m_ciphertextModulus (Ps ! i)) (wp ! i) (2 ^ L) = Inr ys" "length ys = 2 ^ L"
      "\<forall>k < 2 ^ L. iu (ys ! k) = ?d i k"
      using twist_row_ok [of "Ps ! i" L a "ts ! i" "w ! i" "wp ! i"] t [OF i] rns_okD(1) [OF ps i] Ti(1,2) by (auto simp: tower_q_def)
    let ?rs = "map2 (\<lambda>r y. r + y * h ! i) rs ys"
    have "iu (?rs ! k) mod 2 ^ 16 = (\<Sum>i<Suc i. ?d i k * ?hat i) mod 2 ^ 16" if k: "k < 2 ^ L" for k
    proof -
      have e: "?rs ! k = rs ! k + ys ! k * h ! i" using k ys(2) I p by simp
      have "iu (rs ! k + ys ! k * h ! i) mod 2 ^ 16 = (iu (rs ! k) + iu (ys ! k) * iu (h ! i)) mod 2 ^ 16"
        by (simp add: uint_word_ariths mod_mod_cancel mod_add_right_eq)
      also have "\<dots> = ((\<Sum>i<i. ?d i k * ?hat i) + ?d i k * ?hat i) mod 2 ^ 16"
        using I p k ys(3) Ti(6) by (intro mod_add_cong mod_mult_cong) auto
      finally show ?thesis unfolding e by simp
    qed
    then have I': "?I (Suc i) (xs @ [ys], ?rs)" using I p ys(2,3) by (auto simp: nth_append less_Suc_eq)
    have "i < length ts" using i l by simp
    then have "(case p of (xs, rs) \<Rightarrow> ebind (get_at w i) (\<lambda>w. ebind (get_at wp i) (\<lambda>wp. ebind (get_at h i) (\<lambda>h.
        ebind (get_at ts i) (\<lambda>t. ebind (get_at (map m_ciphertextModulus Ps) i) (\<lambda>q. ebind (twist_row t w q wp (2 ^ L)) (\<lambda>row.
        Inr (xs @ [row], map2 (\<lambda>r y. r + y * h) rs row)))))))) = Inr (xs @ [ys], ?rs)"
      using p i Ti(3-5) ys(1) by (simp add: get_at_def)
    then show "\<exists>p'. (case p of (xs, rs) \<Rightarrow> ebind (get_at w i) (\<lambda>w. ebind (get_at wp i) (\<lambda>wp. ebind (get_at h i) (\<lambda>h.
        ebind (get_at ts i) (\<lambda>t. ebind (get_at (map m_ciphertextModulus Ps) i) (\<lambda>q. ebind (twist_row t w q wp (2 ^ L)) (\<lambda>row.
        Inr (xs @ [row], map2 (\<lambda>r y. r + y * h) rs row)))))))) = Inr p' \<and> ?I (Suc i) p'"
      using I' by blast
  qed simp_all
  then show ?thesis by (auto simp: approx_conv_def)
qed

lemma chain_bound:
  assumes "rns_ok Ps L" "i < length Ps" "iu y = z mod int (tower_q Ps i)"
  shows "unat y < 2 ^ 60"
proof -
  have "int (unat y) < int (tower_q Ps i)" unfolding assms(3) using rns_okD(2) [OF assms(1,2)] by simp
  then have "unat y < tower_q Ps i" by (simp only: of_nat_less_iff)
  then show ?thesis using rns_okD(3) [OF assms(1,2)] by simp
qed

lemma residue_bound: "unat h = k mod p \<Longrightarrow> 0 < p \<Longrightarrow> p < 2 ^ 60 \<Longrightarrow> unat h < 2 ^ 60"
  by (rule order.strict_trans [OF _ , of _ p]) simp_all

lemma bsk_tower_ok:
  assumes es: "rns_ok Es L" and j: "m + j < length Es" "Es ! (m + j) = Bs ! j" "j < length Bs"
    and ps: "rns_ok Ps L" and n: "length Ps \<le> 255" and T: "montgomery_tables Ps Bs w wp H h qm qmp ninv mi mip mus"
    and xs: "length xs = length Ps" "\<And>i. i < length Ps \<Longrightarrow> length (xs ! i) = 2 ^ L"
      "\<And>i k. i < length Ps \<Longrightarrow> k < 2 ^ L \<Longrightarrow> iu (xs ! i ! k) = (a k * iu (w ! i)) mod int (tower_q Ps i)"
    and rs: "length rs = 2 ^ L" "\<And>k. k < 2 ^ L \<Longrightarrow> iu (rs ! k) mod 2 ^ 16 = approx_conv Ps w (a k) mod 2 ^ 16"
    and v: "represents (Bs ! j) L b v" "m_format v = COEFFICIENT" and cs: "towers_cached Es L cs"
  shows "\<exists>q cs'. bsk_tower draw (2 ^ L) (length Ps) xs (map (montgomery_residue ninv) rs) (map m_ciphertextModulus Bs) mus H qm qmp mi mip j v cs s =
      Some (Inr ((q, cs'), s)) \<and> towers_cached Es L cs' \<and> m_format q = EVALUATION \<and>
    represents (Bs ! j) L (\<lambda>k. montgomery_quotient (int (\<Prod>i<length Ps. tower_q Ps i)) (iu ninv) (approx_conv Ps w (a k))) q"
proof -
  let ?P = "Bs ! j" and ?Q = "int (\<Prod>i<length Ps. tower_q Ps i)" and ?hat = "\<lambda>i. int (crt_hat (tower_q Ps) (length Ps) i)"
  let ?p = "m_ciphertextModulus ?P" and ?b = "\<lambda>k. montgomery_quotient ?Q (iu ninv) (approx_conv Ps w (a k))"
  have P: "ring_ok ?P L" using rns_okD(1) [OF es j(1)] j(2) by simp
  note Pd = ring_okD [OF P]
  have p60: "0 < tower_q Bs j" "tower_q Bs j < 2 ^ 60" using Pd(1,7) by (auto simp: tower_q_def barrett_modulus_def)
  have t: "2 ^ 16 \<le> unat ?p" "unat (mus ! j) = 2 ^ 128 div unat ?p" "unat (qm ! j) = (\<Prod>i<length Ps. tower_q Ps i) mod unat ?p"
      "qmp ! j = shoup_of (qm ! j) ?p" "unat (mi ! j) < unat ?p" "(iu (mi ! j) * 2 ^ 16) mod iu ?p = 1 mod iu ?p" "mip ! j = shoup_of (mi ! j) ?p"
    and l: "j < length qm" "j < length qmp" "j < length mi" "j < length mip" "j < length mus"
    and k: "(?Q * iu ninv) mod 2 ^ 16 = (- 1) mod 2 ^ 16"
    and H: "\<And>i. i < length Ps \<Longrightarrow> i < length H \<and> j < length (H ! i) \<and> unat (H ! i ! j) = crt_hat (tower_q Ps) (length Ps) i mod tower_q Bs j"
    using T j(3) by (auto simp: montgomery_tables_def tower_q_def)
  have qm: "unat (qm ! j) < unat ?p" "iu (qm ! j) mod iu ?p = ?Q mod iu ?p"
    using t(3) Pd(7) arg_cong [OF t(3), of int] by (simp_all only: mod_less_divisor of_nat_mod mod_mod_trivial)
  let ?f = "\<lambda>k (e :: u64). ebind (column_sum (\<lambda>i. ebind (get_at xs i) (\<lambda>row. get_at row k)) H j (length Ps)) (\<lambda>result.
      ebind (get_at mus j) (\<lambda>mu. ebind (BarrettUint128ModUint64 result ?p mu) (\<lambda>c.
      ebind (get_at (map (montgomery_residue ninv) rs) k) (\<lambda>r. Inr (bsk_entry c r ?p (qm ! j) (qmp ! j) (mi ! j) (mip ! j))))))"
  have entry: "\<exists>r. ?f k e = Inr r \<and> unat r < unat ?p \<and> iu r mod iu ?p = ?b k mod iu ?p" if i: "k < 2 ^ L" for k e
  proof -
    have "\<exists>s r. column_sum (\<lambda>i. ebind (get_at xs i) (\<lambda>row. get_at row k)) H j (length Ps) = Inr s \<and>
        BarrettUint128ModUint64 s ?p (mus ! j) = Inr r \<and> unat r < unat ?p \<and> iu r mod iu ?p = (\<Sum>i<length Ps. iu (xs ! i ! k) * ?hat i) mod iu ?p"
    proof (rule column_residue [OF _ n Pd(1) t(2)])
      fix i assume m: "i < length Ps"
      show "ebind (get_at xs i) (\<lambda>row. get_at row k) = Inr (xs ! i ! k) \<and> unat (xs ! i ! k) < 2 ^ 60 \<and> i < length H \<and> j < length (H ! i) \<and>
          unat (H ! i ! j) < 2 ^ 60"
        using m i xs(1,2) H [OF m] chain_bound [OF ps m xs(3) [OF m i]] residue_bound [of "H ! i ! j", OF _ p60] by (simp add: get_at_def)
      show "iu (H ! i ! j) mod iu ?p = ?hat i mod iu ?p"
        using arg_cong [OF conjunct2 [OF conjunct2 [OF H [OF m]]], of int] by (simp only: of_nat_mod tower_q_def mod_mod_trivial)
    qed
    then obtain s c where c: "column_sum (\<lambda>i. ebind (get_at xs i) (\<lambda>row. get_at row k)) H j (length Ps) = Inr s"
      "BarrettUint128ModUint64 s ?p (mus ! j) = Inr c" "unat c < unat ?p" "iu c mod iu ?p = (\<Sum>i<length Ps. iu (xs ! i ! k) * ?hat i) mod iu ?p"
      by (elim exE conjE) (rule that)
    have "(\<Sum>i<length Ps. iu (xs ! i ! k) * ?hat i) = approx_conv Ps w (a k)"
      unfolding approx_conv_def by (rule sum.cong) (use xs(3) i in auto)
    note c4 = c(4) [unfolded this]
    have r: "iu (montgomery_residue ninv (rs ! k)) = (approx_conv Ps w (a k) * iu ninv) mod 2 ^ 16"
      by (rule montgomery_residue [OF rs(2) [OF i] refl])
    note b = bsk_entry_ok [OF P t(1) c(3) c4 r k qm t(4-7)]
    show ?thesis using c(1,2) l i rs(1) b by (simp add: get_at_def)
  qed
  have "\<exists>u. each_entry (2 ^ L) ?f v = Inr u \<and> m_format u = m_format v \<and> represents ?P L ?b u"
  proof (rule each_entry_represents [OF v(1)])
    fix e :: u64 and i assume i: "i < (2 :: nat) ^ L"
    show "\<exists>r. ?f i e = Inr r \<and> unat r < unat ?p \<and> iu r mod iu ?p = slot ?P L (m_format v) ?b i mod iu ?p"
      unfolding v(2) slot_coeff by (rule entry [OF i])
  qed
  then obtain u where u: "each_entry (2 ^ L) ?f v = Inr u" "represents (Es ! (m + j)) L ?b u" unfolding j(2) by blast
  from tower_SetFormat [OF es j(1) u(2) cs, of draw EVALUATION s] obtain q cs' where
    q: "SetFormat draw EVALUATION u cs s = Some (Inr ((q, cs'), s))" "towers_cached Es L cs'" "m_format q = EVALUATION" "represents ?P L ?b q"
    unfolding j(2) by (elim exE conjE) (rule that)
  show ?thesis using q u(1) l j(3) by (simp add: bsk_tower_def get_at_def)
qed

text \<open>The quotient is the number modulo the old moduli, and it is small.\<close>

lemma montgomery_lift:
  assumes d: "dcrt_params_ok D L" and T: "montgomery_tables (dp_params D) Bs w wp H h qm qmp ninv mi mip mus"
  defines "b \<equiv> \<lambda>k. montgomery_quotient (int (big_q D)) (iu ninv) (approx_conv (dp_params D) w k)"
  shows "i < length (dp_params D) \<Longrightarrow> b k mod int (tower_q (dp_params D) i) = k mod int (tower_q (dp_params D) i)"
    "- int (big_q D) \<le> 2 * b k" "2 ^ 16 * b k < int (big_q D) * (2 ^ 15 + int (length (dp_params D)))"
proof -
  let ?Ps = "dp_params D" and ?Q = "int (big_q D)" let ?S = "approx_conv ?Ps w k" and ?r = "\<lambda>S. centred_16 (S * iu ninv)"
  note ps = dcrt_params_okD(1) [OF d]
  have k: "(?Q * iu ninv) mod 2 ^ 16 = (- 1) mod 2 ^ 16" using T by (simp add: montgomery_tables_def big_q_prod)
  have w: "(iu (w ! i) * int (crt_hat (tower_q ?Ps) (length ?Ps) i)) mod int (tower_q ?Ps i) = 2 ^ 16 mod int (tower_q ?Ps i)" if "i < length ?Ps" for i
    using T that by (simp add: montgomery_tables_def)
  obtain \<alpha> where a: "?S = (2 ^ 16 * k) mod ?Q + \<alpha> * ?Q" "0 \<le> \<alpha>" "\<alpha> < int (length ?Ps)"
    using approx_conv_factor [OF ps w, of k] unfolding big_q_prod by blast
  have e: "2 ^ 16 * b k = ?S + ?r ?S * ?Q" unfolding b_def by (rule montgomery_quotient [OF k])
  have Q: "0 < ?Q" using big_q_pos [OF d] by simp
  have "0 \<le> \<alpha> * ?Q" "\<alpha> * ?Q \<le> (int (length ?Ps) - 1) * ?Q" using a(2,3) Q by (simp_all add: mult_right_mono)
  then have S: "0 \<le> ?S" "?S < int (length ?Ps) * ?Q" unfolding a(1) using pos_mod_bound [OF Q, of "2 ^ 16 * k"] pos_mod_sign [OF Q, of "2 ^ 16 * k"]
    by (simp_all add: algebra_simps)
  have r: "- (2 ^ 15) * ?Q \<le> ?r ?S * ?Q" "?r ?S * ?Q \<le> (2 ^ 15 - 1) * ?Q"
    using centred_16(2,3) [of "?S * iu ninv"] Q by (intro mult_right_mono; simp)+
  have lo: "- (2 ^ 15) * ?Q \<le> 2 ^ 16 * b k" unfolding e using r(1) S(1) by linarith
  then show "- ?Q \<le> 2 * b k" by simp
  have "?S + ?r ?S * ?Q < int (length ?Ps) * ?Q + (2 ^ 15 - 1) * ?Q" using r(2) S(2) by linarith
  also have "\<dots> \<le> ?Q * (2 ^ 15 + int (length ?Ps))" using Q by (simp add: algebra_simps)
  finally show "2 ^ 16 * b k < ?Q * (2 ^ 15 + int (length ?Ps))" unfolding e .
  show "b k mod int (tower_q ?Ps i) = k mod int (tower_q ?Ps i)" if i: "i < length ?Ps"
  proof -
    let ?q = "int (tower_q ?Ps i)"
    have "?Q dvd 2 ^ 16 * k - (2 ^ 16 * k) mod ?Q" by (rule dvd_minus_mod)
    moreover have "2 ^ 16 * (b k - k) = (\<alpha> + ?r ?S) * ?Q - (2 ^ 16 * k - (2 ^ 16 * k) mod ?Q)"
      using e a(1) by (simp only: right_diff_distrib distrib_right)
    ultimately have "?Q dvd 2 ^ 16 * (b k - k)" by (simp only: dvd_diff dvd_triv_right)
    moreover have "?q dvd ?Q" using tower_hat(1) [OF d i] by simp
    ultimately have "?q dvd 2 ^ 16 * (b k - k)" by (rule dvd_trans [rotated])
    moreover have "odd (tower_q ?Ps i)" using ring_okD(2) [OF rns_okD(1) [OF ps i]] by (simp add: tower_q_def)
    then have "coprime ?q (2 ^ 16)" by (simp only: coprime_power_right_iff coprime_right_2_iff_odd even_of_nat simp_thms)
    ultimately have "?q dvd b k - k" by (simp only: coprime_dvd_mult_right_iff)
    then show ?thesis by (simp only: mod_eq_dvd_iff)
  qed
qed

lemma FastBaseConvqToBskMontgomery_ok:
  assumes d: "dcrt_params_ok D L" "dcrt_params_ok E L" and E: "dp_params E = dp_params D @ Bs" and x: "drep D L a x"
    and T: "montgomery_tables (dp_params D) Bs w wp H h qm qmp ninv mi mip mus" and n: "length (dp_params D) \<le> 255"
    and cs: "towers_cached (dp_params E) L cs"
  defines "b \<equiv> \<lambda>k. montgomery_quotient (int (big_q D)) (iu ninv) (approx_conv (dp_params D) w (a k))"
  shows "\<exists>y cs'. FastBaseConvqToBskMontgomery draw E (map m_ciphertextModulus (dp_params D)) (map m_ciphertextModulus Bs) mus w wp H h qm qmp ninv mi mip
      x cs s = Some (Inr ((y, cs'), s)) \<and> towers_cached (dp_params E) L cs' \<and> dc_format y = EVALUATION \<and> drep E L b y"
proof -
  let ?Ps = "dp_params D" and ?Es = "dp_params E" let ?n = "length ?Ps" and ?m = "length Bs"
  note es = dcrt_params_okD(1) [OF d(2)] and ps = dcrt_params_okD(1) [OF d(1)] and xd = drepD [OF x]
  have EB: "?Es ! (?n + j) = Bs ! j" for j by (simp add: E)
  have EP: "?Es ! i = ?Ps ! i" if "i < ?n" for i using that by (simp add: E nth_append)
  have bq: "represents (?Ps ! i) L b v" if "i < ?n" "represents (?Ps ! i) L a v" for i v
    by (rule represents_cong [OF that(2)]) (use montgomery_lift(1) [OF d(1) T that(1)] in \<open>simp add: b_def tower_q_def\<close>)
  have "?Ps = take ?n ?Es" by (simp add: E)
  from Dcrt_SetFormat_within [OF es this x cs, of draw COEFFICIENT s] obtain c cs1 where
    c: "Dcrt_SetFormat draw COEFFICIENT x cs s = Some (Inr ((c, cs1), s))" "towers_cached ?Es L cs1" "dc_format c = COEFFICIENT" "drep D L a c"
    by (elim exE conjE) (rule that)
  note cd = drepD [OF c(4)]
  have rb: "ring_ok (Bs ! j) L" if "j < ?m" for j using dcrt_params_okD(2) [OF d(2), of "?n + j"] that by (simp add: E)
  have "\<exists>zs. emap (\<lambda>j. ebind (get_at ?Es (?n + j)) (\<lambda>P. PolyImpl (Some P) COEFFICIENT True)) [0..<?m] = Inr zs \<and> length zs = length [0..<?m] \<and>
      (\<forall>j < length [0..<?m]. m_format (zs ! j) = COEFFICIENT \<and> represents (Bs ! j) L (\<lambda>_. 0) (zs ! j))"
    by (rule emap_nth_Inr) (use zero_represents [OF rb] E in \<open>auto simp: get_at_def nth_append\<close>)
  then obtain zs where zs: "emap (\<lambda>j. ebind (get_at ?Es (?n + j)) (\<lambda>P. PolyImpl (Some P) COEFFICIENT True)) [0..<?m] = Inr zs" "length zs = ?m"
    "\<forall>j < ?m. m_format (zs ! j) = COEFFICIENT \<and> represents (Bs ! j) L (\<lambda>_. 0) (zs ! j)" by auto
  have "barrett_modulus q" if "q \<in> set (map m_ciphertextModulus Bs)" for q
    using that es by (auto simp: rns_ok_def E dest: ring_okD(1))
  then have mu: "emap ComputeMu (map m_ciphertextModulus Bs) = Inr (map mu_of (map m_ciphertextModulus Bs))"
    by (intro emap_all_Inr) (simp add: ComputeMu_eq)
  have t: "represents (?Ps ! i) L a (dc_vectors c ! i) \<and> m_format (dc_vectors c ! i) = COEFFICIENT" if "i < ?n" for i
    using cd(3,4) [OF that] c(3) by simp
  obtain xs rs where xr: "twisted_rows (dc_vectors c) (map m_ciphertextModulus ?Ps) w wp h ?n (2 ^ L) = Inr (xs, rs)" "length xs = ?n"
    "\<forall>i < ?n. length (xs ! i) = 2 ^ L \<and> (\<forall>k < 2 ^ L. iu (xs ! i ! k) = (a k * iu (w ! i)) mod int (tower_q ?Ps i))"
    "length rs = 2 ^ L" "\<forall>k < 2 ^ L. iu (rs ! k) mod 2 ^ 16 = approx_conv ?Ps w (a k) mod 2 ^ 16"
    using twisted_rows_ok [OF ps t _ T] cd(2) by auto
  let ?F = "\<lambda>i v cs s. if i < ?n then Some (Inr ((v, cs), s))
      else bsk_tower draw (2 ^ L) ?n xs (map (montgomery_residue ninv) rs) (map m_ciphertextModulus Bs) mus H qm qmp mi mip (i - ?n) v cs s"
  let ?ts = "dc_vectors c @ zs"
  let ?R = "\<lambda>i v. if i < ?n then v = dc_vectors c ! i else m_format v = EVALUATION \<and> represents (?Es ! i) L b v"
  have "\<exists>vs cs'. each_tower_run ?F (?n + ?m) ?ts cs1 s = Some (Inr ((vs, cs'), s)) \<and> towers_cached ?Es L cs' \<and> length vs = length ?ts \<and>
      (\<forall>i < ?n + ?m. ?R i (vs ! i)) \<and> (\<forall>i \<ge> ?n + ?m. vs ! i = ?ts ! i)"
  proof (rule each_tower_run_Inr [where C = "towers_cached ?Es L" and R = ?R])
    fix i cs assume i: "i < ?n + ?m" and cs: "towers_cached ?Es L cs"
    show "\<exists>v cs'. ?F i (?ts ! i) cs s = Some (Inr ((v, cs'), s)) \<and> towers_cached ?Es L cs' \<and> ?R i v"
    proof (cases "i < ?n")
      case True
      then show ?thesis using cs cd(2) by (simp add: nth_append)
    next
      case False
      then have j: "?n + (i - ?n) = i" "i - ?n < ?m" using i by simp_all
      have v: "?ts ! i = zs ! (i - ?n)" using False cd(2) by (simp add: nth_append)
      have z: "represents (Bs ! (i - ?n)) L (\<lambda>_. 0) (?ts ! i)" "m_format (?ts ! i) = COEFFICIENT" unfolding v using zs(3) j(2) by simp_all
      have "?n + (i - ?n) < length ?Es" using j E by simp
      from bsk_tower_ok [OF es this EB j(2) ps n T xr(2) _ _ xr(4) _ z cs, of a draw s] xr(3,5)
      show ?thesis unfolding EB [symmetric] j(1) using False by (simp add: b_def big_q_prod)
    qed
  qed (use c(2) cd(2) zs(2) in simp_all)
  then obtain vs cs2 where vs: "each_tower_run ?F (?n + ?m) ?ts cs1 s = Some (Inr ((vs, cs2), s))" "towers_cached ?Es L cs2" "length vs = ?n + ?m"
    "\<forall>i < ?n + ?m. ?R i (vs ! i)" using cd(2) zs(2) by auto
  have N: "unat (dp_ringDimension E) = 2 ^ L" using d(2) by (simp add: dcrt_params_ok_def)
  have hi: "m_format (vs ! i) = EVALUATION \<and> represents (?Es ! i) L b (vs ! i)" if "?n \<le> i" "i < length ?Es" for i
    using vs(4) that by (auto simp: E)
  have ne: "dc_vectors x \<noteq> []" using xd(2) d(1) by (auto simp: dcrt_params_ok_def rns_ok_def)
  show ?thesis
  proof (cases "dc_format x = EVALUATION")
    case True
    let ?y = "\<lparr>dc_params = E, dc_format = EVALUATION, dc_vectors = dc_vectors x @ drop (length (dc_vectors x)) vs\<rparr>"
    have "drep E L b ?y"
      unfolding drep_def
    proof (intro conjI allI impI)
      show "length (dc_vectors ?y) = length ?Es" using vs(3) xd(2) by (simp add: E)
      fix i assume i: "i < length ?Es"
      have "m_format (dc_vectors ?y ! i) = EVALUATION \<and> represents (?Es ! i) L b (dc_vectors ?y ! i)"
      proof (cases "i < ?n")
        case lt: True
        then show ?thesis using xd(2) xd(3,4) [OF lt] bq [OF lt] EP [OF lt] True by (simp add: nth_append)
      next
        case False
        then show ?thesis using hi i xd(2) vs(3) by (simp add: nth_append)
      qed
      then show "represents (?Es ! i) L b (dc_vectors ?y ! i)" "m_format (dc_vectors ?y ! i) = dc_format ?y" by simp_all
    qed simp
    then show ?thesis using c(1,3) zs(1) mu xr(1) vs(1,2) N True ne by (simp add: FastBaseConvqToBskMontgomery_def Let_def)
  next
    case False
    have q: "0 + i < length ?Es \<and> represents (?Es ! (0 + i)) L b (vs ! i)" if "i < ?n" for i
      using vs(4) that bq [OF that] t [OF that] EP [OF that] by (simp add: E)
    from set_formats [OF es, where off = 0 and b = "\<lambda>i. b" and n = ?n and vs = vs and fmt = EVALUATION and draw = draw and s = s, OF q _ vs(2)] vs(3)
    obtain us cs3 where us: "each_tower_run (\<lambda>i. SetFormat draw EVALUATION) ?n vs cs2 s = Some (Inr ((us, cs3), s))" "towers_cached ?Es L cs3"
      "length us = length vs" "\<forall>i < ?n. m_format (us ! i) = EVALUATION \<and> represents (?Es ! (0 + i)) L b (us ! i)" "\<forall>i \<ge> ?n. us ! i = vs ! i" by auto
    have "drep E L b \<lparr>dc_params = E, dc_format = EVALUATION, dc_vectors = us\<rparr>"
      unfolding drep_def
    proof (intro conjI allI impI)
      fix i assume i: "i < length ?Es"
      have "m_format (us ! i) = EVALUATION \<and> represents (?Es ! i) L b (us ! i)" using us(4,5) hi i by (cases "i < ?n") simp_all
      then show "represents (?Es ! i) L b (dc_vectors \<lparr>dc_params = E, dc_format = EVALUATION, dc_vectors = us\<rparr> ! i)"
        "m_format (dc_vectors \<lparr>dc_params = E, dc_format = EVALUATION, dc_vectors = us\<rparr> ! i) = dc_format \<lparr>dc_params = E, dc_format = EVALUATION, dc_vectors = us\<rparr>"
        by simp_all
    qed (use us(3) vs(3) in \<open>simp_all add: E\<close>)
    then show ?thesis using c(1,3) zs(1) mu xr(1) vs(1) us(1,2) N False by (simp add: FastBaseConvqToBskMontgomery_def Let_def)
  qed
qed

end
