(* ===== verification/BehzScale.thy ===== *)
theory BehzScale
  imports Behz
begin

text \<open>
  What the quotient by \<open>Q\<close> and the conversion back from the auxiliary base do to the integer polynomial, and the
  two of them together.
\<close>

section \<open>Facts\<close>

subsection \<open>The floor of a quotient by \<open>Q\<close>\<close>

text \<open>What the code is given to divide \<open>t\<close> times a number by the product of the moduli of \<open>Ps\<close>, modulo those of \<open>Bs\<close>.\<close>

definition floor_tables ::
    "elem_params list \<Rightarrow> elem_params list \<Rightarrow> int \<Rightarrow> u64 list \<Rightarrow> u64 list \<Rightarrow> u64 list list \<Rightarrow> u64 list \<Rightarrow> u64 list \<Rightarrow> u128 list \<Rightarrow> bool" where
  "floor_tables Ps Bs t w wp H tq tqp mus \<longleftrightarrow>
     length Ps \<le> length w \<and> length Ps \<le> length wp \<and> length Ps \<le> length H \<and>
     (\<forall>i < length Ps. unat (w ! i) < tower_q Ps i \<and> wp ! i = shoup_of (w ! i) (m_ciphertextModulus (Ps ! i)) \<and>
        (iu (w ! i) * int (crt_hat (tower_q Ps) (length Ps) i)) mod int (tower_q Ps i) = t mod int (tower_q Ps i) \<and>
        length Bs \<le> length (H ! i) \<and>
        (\<forall>j < length Bs. unat (H ! i ! j) < tower_q Bs j \<and> (iu (H ! i ! j) * int (tower_q Ps i)) mod int (tower_q Bs j) = 1 mod int (tower_q Bs j))) \<and>
     length Bs \<le> length tq \<and> length Bs \<le> length tqp \<and> length Bs \<le> length mus \<and>
     (\<forall>j < length Bs. unat (mus ! j) = 2 ^ 128 div tower_q Bs j \<and> unat (tq ! j) < tower_q Bs j \<and>
        tqp ! j = shoup_of (tq ! j) (m_ciphertextModulus (Bs ! j)) \<and>
        (iu (tq ! j) * int (\<Prod>i<length Ps. tower_q Ps i)) mod int (tower_q Bs j) = t mod int (tower_q Bs j))"

lemma read_entry:
  assumes "represents P L a v" "m_format v = COEFFICIENT" "k < 2 ^ L"
  shows "\<exists>y. Poly_at v k = Inr y \<and> iu y = a k mod iu (m_ciphertextModulus P)"
proof -
  obtain d where "v = raw_tower COEFFICIENT P d" "length d = 2 ^ L" "\<And>j. j < 2 ^ L \<Longrightarrow> iu (d ! j) = a j mod iu (m_ciphertextModulus P)"
    by (rule represents_raw [OF assms(1,2)]) (rule that)
  then show ?thesis using assms(3) by simp
qed

lemma constant_times_represents:
  assumes r: "ring_ok P L" and w: "unat w < unat (m_ciphertextModulus P)" "wp = shoup_of w (m_ciphertextModulus P)" and v: "represents P L a v"
  shows "\<exists>u. each_entry (2 ^ L) (\<lambda>_ e. Inr (ModMulFastConstEq e w (m_ciphertextModulus P) wp)) v = Inr u \<and> m_format u = m_format v \<and>
    represents P L (\<lambda>k. a k * iu w) u"
proof (rule each_entry_represents [OF v])
  let ?q = "m_ciphertextModulus P"
  have q0: "0 < unat ?q" by (rule ring_okD(7) [OF r])
  fix e i assume i: "i < (2 :: nat) ^ L" and e: "unat e < unat ?q" "iu e mod iu ?q = slot P L (m_format v) a i mod iu ?q"
  have u: "unat (ModMulFastConstEq e w ?q wp) = unat e * unat w mod unat ?q" by (rule constant_times [OF r w])
  from arg_cong [OF u, of int] have "iu (ModMulFastConstEq e w ?q wp) mod iu ?q = (iu e * iu w) mod iu ?q"
    by (simp only: of_nat_mod of_nat_mult mod_mod_trivial)
  then have "iu (ModMulFastConstEq e w ?q wp) mod iu ?q = slot P L (m_format v) (\<lambda>k. a k * iu w) i mod iu ?q"
    unfolding slot_hom(3) using mod_mult_cong [OF e(2) refl, of "iu w"] by simp
  moreover have "unat (ModMulFastConstEq e w ?q wp) < unat ?q" unfolding u using q0 by simp
  ultimately show "\<exists>r. (Inr (ModMulFastConstEq e w ?q wp) :: u64 res) = Inr r \<and> unat r < unat ?q \<and>
      iu r mod iu ?q = slot P L (m_format v) (\<lambda>k. a k * iu w) i mod iu ?q" by blast
qed

text \<open>The numerator is divisible, and the quotient is the floor up to the number of moduli.\<close>

lemma floor_quotient:
  assumes d: "dcrt_params_ok D L" and T: "floor_tables (dp_params D) Bs t w wp H tq tqp mus"
  defines "g \<equiv> \<lambda>k. (t * k - approx_conv (dp_params D) w k) div int (big_q D)"
  shows "int (big_q D) * g k = t * k - approx_conv (dp_params D) w k"
    "\<exists>\<alpha>. g k = t * k div int (big_q D) - \<alpha> \<and> 0 \<le> \<alpha> \<and> \<alpha> < int (length (dp_params D))"
proof -
  let ?Ps = "dp_params D" and ?Q = "int (big_q D)"
  have w: "(iu (w ! i) * int (crt_hat (tower_q ?Ps) (length ?Ps) i)) mod int (tower_q ?Ps i) = t mod int (tower_q ?Ps i)" if "i < length ?Ps" for i
    using T that by (simp add: floor_tables_def)
  obtain \<alpha> where a: "approx_conv ?Ps w k = (t * k) mod ?Q + \<alpha> * ?Q" "0 \<le> \<alpha>" "\<alpha> < int (length ?Ps)"
    using approx_conv_factor [OF dcrt_params_okD(1) [OF d] w, of k] unfolding big_q_prod by blast
  have Q: "0 < ?Q" using big_q_pos [OF d] by simp
  have e: "t * k - approx_conv ?Ps w k = (t * k div ?Q - \<alpha>) * ?Q"
    unfolding a(1) using mult_div_mod_eq [of ?Q "t * k"] by (simp only: left_diff_distrib mult.commute [of ?Q])
  then have g: "g k = t * k div ?Q - \<alpha>" unfolding g_def using Q by simp
  show "?Q * g k = t * k - approx_conv ?Ps w k" unfolding g e by (simp only: mult.commute)
  show "\<exists>\<alpha>. g k = t * k div ?Q - \<alpha> \<and> 0 \<le> \<alpha> \<and> \<alpha> < int (length ?Ps)" using g a(2,3) by blast
qed

text \<open>The residue that the code computes for one tower.\<close>

lemma floor_residue:
  assumes T: "floor_tables Ps Bs t w wp H tq tqp mus" and j: "j < length Bs" and c: "\<And>i. i < length Ps \<Longrightarrow> coprime (tower_q Ps i) (tower_q Bs j)"
    and g: "int (\<Prod>i<length Ps. tower_q Ps i) * g = t * a - approx_conv Ps w a"
  shows "(a * iu (tq ! j) - (\<Sum>i<length Ps. (a * iu (w ! i)) mod int (tower_q Ps i) * iu (H ! i ! j))) mod int (tower_q Bs j) = g mod int (tower_q Bs j)"
proof -
  let ?Q = "\<Prod>i<length Ps. tower_q Ps i" and ?p = "int (tower_q Bs j)" and ?y = "\<lambda>i. (a * iu (w ! i)) mod int (tower_q Ps i)"
  let ?hat = "crt_hat (tower_q Ps) (length Ps)" and ?s = "\<Sum>i<length Ps. ?y i * iu (H ! i ! j)"
  have tq: "(iu (tq ! j) * int ?Q) mod ?p = t mod ?p" using T j by (simp add: floor_tables_def)
  have "(?s * int ?Q) mod ?p = (\<Sum>i<length Ps. ?y i * iu (H ! i ! j) * int ?Q) mod ?p" by (simp only: sum_distrib_right)
  also have "\<dots> = (\<Sum>i<length Ps. ?y i * int (?hat i)) mod ?p"
  proof (rule sum_mod_cong)
    fix i assume i: "i \<in> {..<length Ps}"
    have h: "(iu (H ! i ! j) * int (tower_q Ps i)) mod ?p = 1 mod ?p" using T j i by (simp add: floor_tables_def)
    have "?Q = tower_q Ps i * ?hat i" using i by (intro hat_mult) simp
    then have "?y i * iu (H ! i ! j) * int ?Q = (iu (H ! i ! j) * int (tower_q Ps i)) * (?y i * int (?hat i))" by simp
    also have "\<dots> mod ?p = (1 * (?y i * int (?hat i))) mod ?p" by (rule mod_mult_cong [OF h refl])
    finally show "(?y i * iu (H ! i ! j) * int ?Q) mod ?p = (?y i * int (?hat i)) mod ?p" by simp
  qed
  also have "(\<Sum>i<length Ps. ?y i * int (?hat i)) = approx_conv Ps w a" by (simp add: approx_conv_def)
  finally have s: "(?s * int ?Q) mod ?p = approx_conv Ps w a mod ?p" .
  have "(a * iu (tq ! j) * int ?Q) mod ?p = (a * t) mod ?p" using mod_mult_cong [OF refl tq, of a] by (simp only: mult.assoc)
  from mod_diff_cong [OF this s] have "((a * iu (tq ! j) - ?s) * int ?Q) mod ?p = (int ?Q * g) mod ?p"
    unfolding g by (simp only: left_diff_distrib mult.commute [of t a])
  then have "?p dvd (a * iu (tq ! j) - ?s) * int ?Q - int ?Q * g" by (simp only: mod_eq_dvd_iff)
  moreover have "(a * iu (tq ! j) - ?s) * int ?Q - int ?Q * g = int ?Q * (a * iu (tq ! j) - ?s - g)"
    by (simp only: mult.commute [of _ "int ?Q"] right_diff_distrib)
  ultimately have "?p dvd int ?Q * (a * iu (tq ! j) - ?s - g)" by (simp only:)
  moreover have "coprime ?Q (tower_q Bs j)" using c by (intro prod_coprime_left) simp
  then have "coprime ?p (int ?Q)" by (simp only: coprime_int_iff coprime_commute)
  ultimately have "?p dvd a * iu (tq ! j) - ?s - g" by (simp only: coprime_dvd_mult_right_iff)
  then show ?thesis by (simp only: mod_eq_dvd_iff)
qed

lemma floor_tower_ok:
  assumes T: "floor_tables Ps Bs t w wp H tq tqp mus" and j: "j < length Bs" and P: "ring_ok (Bs ! j) L" and ps: "rns_ok Ps L" and n: "length Ps \<le> 255"
    and c: "\<And>i. i < length Ps \<Longrightarrow> coprime (tower_q Ps i) (tower_q Bs j)"
    and ts: "\<And>i. i < length Ps \<Longrightarrow> i < length ts \<and> represents (Ps ! i) L (\<lambda>k. a k * iu (w ! i)) (ts ! i) \<and> m_format (ts ! i) = COEFFICIENT"
    and v: "represents (Bs ! j) L a v" "m_format v = COEFFICIENT"
    and g: "\<And>k. int (\<Prod>i<length Ps. tower_q Ps i) * g k = t * a k - approx_conv Ps w (a k)"
  shows "\<exists>u. floor_tower (2 ^ L) (length Ps) ts (map m_ciphertextModulus Bs) mus H tq tqp j v = Inr u \<and> m_format u = COEFFICIENT \<and>
    represents (Bs ! j) L g u"
proof -
  let ?p = "m_ciphertextModulus (Bs ! j)"
  note Pd = ring_okD [OF P]
  have t: "unat (mus ! j) = 2 ^ 128 div unat ?p" "unat (tq ! j) < unat ?p" "tqp ! j = shoup_of (tq ! j) ?p"
    and l: "j < length tq" "j < length tqp" "j < length mus"
    and H: "\<And>i. i < length Ps \<Longrightarrow> i < length H \<and> j < length (H ! i) \<and> unat (H ! i ! j) < unat ?p"
    using T j by (auto simp: floor_tables_def tower_q_def)
  have p60: "unat ?p < 2 ^ 60" using Pd(1) by (simp add: barrett_modulus_def)
  let ?f = "\<lambda>k e. ebind (column_sum (\<lambda>i. ebind (get_at ts i) (\<lambda>t. Poly_at t k)) H j (length Ps)) (\<lambda>aq.
      ebind (get_at mus j) (\<lambda>mu. ebind (BarrettUint128ModUint64 aq ?p mu) (\<lambda>r. Inr (ModSubFastEq (ModMulFastConstEq e (tq ! j) ?p (tqp ! j)) r ?p))))"
  have "\<exists>u. each_entry (2 ^ L) ?f v = Inr u \<and> m_format u = m_format v \<and> represents (Bs ! j) L g u"
  proof (rule each_entry_represents [OF v(1)])
    fix e k assume k: "k < (2 :: nat) ^ L" and e: "unat e < unat ?p" "iu e mod iu ?p = slot (Bs ! j) L (m_format v) a k mod iu ?p"
    have "\<exists>y. Poly_at (ts ! i) k = Inr y \<and> iu y = (a k * iu (w ! i)) mod int (tower_q Ps i)" if "i < length Ps" for i
      using read_entry [of "Ps ! i" L _ "ts ! i" k] ts [OF that] k by (auto simp: tower_q_def)
    then obtain y where y: "\<And>i. i < length Ps \<Longrightarrow> Poly_at (ts ! i) k = Inr (y i) \<and> iu (y i) = (a k * iu (w ! i)) mod int (tower_q Ps i)" by metis
    have "\<exists>s r. column_sum (\<lambda>i. ebind (get_at ts i) (\<lambda>t. Poly_at t k)) H j (length Ps) = Inr s \<and> BarrettUint128ModUint64 s ?p (mus ! j) = Inr r \<and>
        unat r < unat ?p \<and> iu r mod iu ?p = (\<Sum>i<length Ps. iu (y i) * iu (H ! i ! j)) mod iu ?p"
    proof (rule column_residue [OF _ n Pd(1) t(1) refl])
      fix i assume i: "i < length Ps"
      show "ebind (get_at ts i) (\<lambda>t. Poly_at t k) = Inr (y i) \<and> unat (y i) < 2 ^ 60 \<and> i < length H \<and> j < length (H ! i) \<and> unat (H ! i ! j) < 2 ^ 60"
        using y [OF i] ts [OF i] H [OF i] p60 chain_bound [OF ps i conjunct2 [OF y [OF i]]] by (simp add: get_at_def)
    qed
    then obtain s r where r: "column_sum (\<lambda>i. ebind (get_at ts i) (\<lambda>t. Poly_at t k)) H j (length Ps) = Inr s"
      "BarrettUint128ModUint64 s ?p (mus ! j) = Inr r" "unat r < unat ?p" "iu r mod iu ?p = (\<Sum>i<length Ps. iu (y i) * iu (H ! i ! j)) mod iu ?p"
      by (elim exE conjE) (rule that)
    let ?m = "ModMulFastConstEq e (tq ! j) ?p (tqp ! j)"
    have u: "unat ?m = unat e * unat (tq ! j) mod unat ?p" by (rule constant_times [OF P t(2,3)])
    have m: "unat ?m < unat ?p" unfolding u using Pd(7) by simp
    have "iu ?m mod iu ?p = (iu e * iu (tq ! j)) mod iu ?p" using arg_cong [OF u, of int] by (simp only: of_nat_mod of_nat_mult mod_mod_trivial)
    also have "\<dots> = (a k * iu (tq ! j)) mod iu ?p" using mod_mult_cong [OF e(2) refl, of "iu (tq ! j)"] unfolding v(2) slot_coeff by simp
    finally have m2: "iu ?m mod iu ?p = (a k * iu (tq ! j)) mod iu ?p" .
    note sub = ModSubFast_int [OF barrett_head_room [OF Pd(1)] m r(3)]
    have "iu (ModSubFastEq ?m r ?p) mod iu ?p = (a k * iu (tq ! j) - (\<Sum>i<length Ps. iu (y i) * iu (H ! i ! j))) mod iu ?p"
      unfolding ModSubFastEq_eq sub(2) by (rule mod_diff_cong [OF m2 r(4)])
    also have "(\<Sum>i<length Ps. iu (y i) * iu (H ! i ! j)) = (\<Sum>i<length Ps. (a k * iu (w ! i)) mod int (tower_q Ps i) * iu (H ! i ! j))"
      by (rule sum.cong) (use y in auto)
    also have "(a k * iu (tq ! j) - \<dots>) mod iu ?p = g k mod iu ?p" using floor_residue [OF T j c g] by (simp only: tower_q_def)
    finally show "\<exists>r. ?f k e = Inr r \<and> unat r < unat ?p \<and> iu r mod iu ?p = slot (Bs ! j) L (m_format v) g k mod iu ?p"
      unfolding v(2) slot_coeff using r(1,2) l sub(1) by (simp add: get_at_def ModSubFastEq_eq)
  qed
  then show ?thesis using l j v(2) by (simp add: floor_tower_def get_at_def)
qed

lemma FastRNSFloorq_ok:
  assumes d: "dcrt_params_ok D L" "dcrt_params_ok E L" and E: "dp_params E = dp_params D @ Bs" and x: "drep E L a x" "dc_format x = COEFFICIENT"
    and T: "floor_tables (dp_params D) Bs t w wp H tq tqp mus" and n: "length (dp_params D) \<le> 255"
  defines "g \<equiv> \<lambda>k. (t * a k - approx_conv (dp_params D) w (a k)) div int (big_q D)"
  shows "\<exists>y. FastRNSFloorq (map m_ciphertextModulus (dp_params D)) (map m_ciphertextModulus Bs) mus w wp H tq tqp x = Inr y \<and>
    dc_params y = E \<and> dc_format y = COEFFICIENT \<and> length (dc_vectors y) = length (dp_params D) + length Bs \<and>
    (\<forall>i < length (dp_params D). represents (dp_params D ! i) L (\<lambda>k. a k * iu (w ! i)) (dc_vectors y ! i) \<and> m_format (dc_vectors y ! i) = COEFFICIENT) \<and>
    (\<forall>j < length Bs. represents (Bs ! j) L g (dc_vectors y ! (length (dp_params D) + j)) \<and> m_format (dc_vectors y ! (length (dp_params D) + j)) = COEFFICIENT)"
proof -
  let ?Ps = "dp_params D" and ?Es = "dp_params E" let ?n = "length ?Ps" and ?m = "length Bs"
  note es = dcrt_params_okD(1) [OF d(2)] and ps = dcrt_params_okD(1) [OF d(1)] and xd = drepD [OF x(1)]
  have EB: "?Es ! (?n + j) = Bs ! j" for j by (simp add: E)
  have EP: "?Es ! i = ?Ps ! i" if "i < ?n" for i using that by (simp add: E nth_append)
  have rb: "ring_ok (Bs ! j) L" if "j < ?m" for j using dcrt_params_okD(2) [OF d(2), of "?n + j"] that by (simp add: E)
  have co: "coprime (tower_q ?Ps i) (tower_q Bs j)" if "i < ?n" "j < ?m" for i j
    using rns_okD(4) [OF es, of i "?n + j"] that EP [OF that(1)] EB [of j] by (simp add: E tower_q_def)
  have N: "unat (dp_ringDimension (dc_params x)) = 2 ^ L" using d(2) xd(1) by (simp add: dcrt_params_ok_def)
  have "barrett_modulus q" if "q \<in> set (map m_ciphertextModulus Bs)" for q
    using that es by (auto simp: rns_ok_def E dest: ring_okD(1))
  then have mu: "emap ComputeMu (map m_ciphertextModulus Bs) = Inr (map mu_of (map m_ciphertextModulus Bs))"
    by (intro emap_all_Inr) (simp add: ComputeMu_eq)
  have Qg: "int (\<Prod>i<length ?Ps. tower_q ?Ps i) * g k = t * a k - approx_conv ?Ps w (a k)" for k
    using floor_quotient(1) [OF d(1) T, of "a k"] by (simp add: g_def big_q_prod)
  let ?F = "\<lambda>i v. ebind (get_at w i) (\<lambda>w. ebind (get_at wp i) (\<lambda>wp. ebind (get_at (map m_ciphertextModulus ?Ps) i) (\<lambda>q.
      each_entry (2 ^ L) (\<lambda>_ e. Inr (ModMulFastConstEq e w q wp)) v)))"
  have one: "\<exists>u. ?F i (dc_vectors x ! i) = Inr u \<and> m_format u = COEFFICIENT \<and> represents (?Ps ! i) L (\<lambda>k. a k * iu (w ! i)) u" if i: "i < ?n" for i
  proof -
    have "represents (?Ps ! i) L a (dc_vectors x ! i)" "m_format (dc_vectors x ! i) = COEFFICIENT"
      using xd(3,4) [of i] i EP [OF i] x(2) by (simp_all add: E)
    moreover have "unat (w ! i) < unat (m_ciphertextModulus (?Ps ! i))" "wp ! i = shoup_of (w ! i) (m_ciphertextModulus (?Ps ! i))" "i < length w" "i < length wp"
      using T i by (auto simp: floor_tables_def tower_q_def)
    ultimately show ?thesis using constant_times_represents [OF rns_okD(1) [OF ps i], of "w ! i" "wp ! i" a "dc_vectors x ! i"] i by (simp add: get_at_def)
  qed
  have lx: "length (dc_vectors x) = ?n + ?m" using xd(2) by (simp add: E)
  have "\<exists>u. ?F i (dc_vectors x ! i) = Inr u" if "i < ?n" for i using one [OF that] by blast
  moreover have "?n \<le> length (dc_vectors x)" unfolding lx by simp
  ultimately have "\<exists>ts. each_tower ?F ?n (dc_vectors x) = Inr ts \<and> length ts = length (dc_vectors x) \<and>
      (\<forall>i < ?n. ?F i (dc_vectors x ! i) = Inr (ts ! i)) \<and> (\<forall>i \<ge> ?n. ts ! i = dc_vectors x ! i)" by (rule each_tower_Inr)
  then obtain ts where ts: "each_tower ?F ?n (dc_vectors x) = Inr ts" "length ts = ?n + ?m" "\<forall>i < ?n. ?F i (dc_vectors x ! i) = Inr (ts ! i)"
    "\<forall>i \<ge> ?n. ts ! i = dc_vectors x ! i" unfolding lx by (elim exE conjE) (rule that)
  have t1: "i < length ts \<and> represents (?Ps ! i) L (\<lambda>k. a k * iu (w ! i)) (ts ! i) \<and> m_format (ts ! i) = COEFFICIENT" if "i < ?n" for i
    using one [OF that] ts(2,3) that by auto
  let ?G = "\<lambda>i v. if i < ?n then Inr v else floor_tower (2 ^ L) ?n ts (map m_ciphertextModulus Bs) mus H tq tqp (i - ?n) v"
  have two: "\<exists>u. floor_tower (2 ^ L) ?n ts (map m_ciphertextModulus Bs) mus H tq tqp j (ts ! (?n + j)) = Inr u \<and> m_format u = COEFFICIENT \<and>
      represents (Bs ! j) L g u" if j: "j < ?m" for j
  proof (rule floor_tower_ok [OF T j rb [OF j] ps n co [OF _ j] t1 _ _ Qg])
    show "represents (Bs ! j) L a (ts ! (?n + j))" "m_format (ts ! (?n + j)) = COEFFICIENT"
      using xd(3,4) [of "?n + j"] j EB [of j] x(2) ts(4) by (simp_all add: E)
  qed
  have "\<exists>u. ?G i (ts ! i) = Inr u" if "i < ?n + ?m" for i
  proof (cases "i < ?n")
    case False
    then have "i - ?n < ?m" "?n + (i - ?n) = i" using that by simp_all
    then show ?thesis using two [of "i - ?n"] False by auto
  qed simp
  then obtain us where us: "each_tower ?G (?n + ?m) ts = Inr us" "length us = ?n + ?m" "\<forall>i < ?n + ?m. ?G i (ts ! i) = Inr (us ! i)"
    using each_tower_Inr [of "?n + ?m" ?G ts] ts(2) by auto
  have "represents (?Ps ! i) L (\<lambda>k. a k * iu (w ! i)) (us ! i) \<and> m_format (us ! i) = COEFFICIENT" if "i < ?n" for i
    using us(3) [rule_format, of i] t1 [OF that] that by simp
  moreover have "represents (Bs ! j) L g (us ! (?n + j)) \<and> m_format (us ! (?n + j)) = COEFFICIENT" if "j < ?m" for j
    using us(3) [rule_format, of "?n + j"] two [OF that] that by auto
  ultimately show ?thesis using mu ts(1) us(1,2) N xd(1) x(2) by (simp add: FastRNSFloorq_def Let_def)
qed

subsection \<open>Back to \<open>Q\<close>\<close>

text \<open>
  What the code is given to return from the moduli of \<open>Bs\<close> and the additional one of \<open>M\<close> to those of \<open>Ps\<close>. The
  square of the additional modulus is not below a modulus of \<open>Bs\<close>.
\<close>

definition sk_tables ::
    "elem_params list \<Rightarrow> elem_params list \<Rightarrow> elem_params \<Rightarrow> u64 list \<Rightarrow> u64 list \<Rightarrow> u64 list \<Rightarrow> u64 \<Rightarrow> u64 \<Rightarrow> u64 list list \<Rightarrow> u64 list \<Rightarrow> u64 list \<Rightarrow>
      u128 list \<Rightarrow> bool" where
  "sk_tables Ps Bs M w wp hm bi bip H bq bqp mus \<longleftrightarrow>
     (let hat = crt_hat (tower_q Bs) (length Bs); B = (\<Prod>i<length Bs. tower_q Bs i); msk = m_ciphertextModulus M in
     length Bs \<le> length w \<and> length Bs \<le> length wp \<and> length Bs \<le> length hm \<and> length Bs \<le> length H \<and>
     (\<forall>i < length Bs. unat (w ! i) < tower_q Bs i \<and> wp ! i = shoup_of (w ! i) (m_ciphertextModulus (Bs ! i)) \<and>
        (iu (w ! i) * int (hat i)) mod int (tower_q Bs i) = 1 mod int (tower_q Bs i) \<and> tower_q Bs i \<le> unat msk * unat msk \<and>
        unat (hm ! i) = hat i mod unat msk \<and> length Ps \<le> length (H ! i) \<and> (\<forall>j < length Ps. unat (H ! i ! j) = hat i mod tower_q Ps j)) \<and>
     unat bi < unat msk \<and> (iu bi * int B) mod iu msk = 1 mod iu msk \<and> bip = shoup_of bi msk \<and>
     length Ps \<le> length bq \<and> length Ps \<le> length bqp \<and> length Ps \<le> length mus \<and>
     (\<forall>j < length Ps. unat (mus ! j) = 2 ^ 128 div tower_q Ps j \<and> unat (bq ! j) = B mod tower_q Ps j \<and>
        bqp ! j = shoup_of (bq ! j) (m_ciphertextModulus (Ps ! j))))"

lemma sk_entry_ok:
  assumes P: "ring_ok P L" and c: "unat c < unat (m_ciphertextModulus P)" "iu c mod iu (m_ciphertextModulus P) = S mod iu (m_ciphertextModulus P)"
    and m: "unat msk < 2 ^ 60" "- \<gamma> \<le> iu (m_ciphertextModulus P)"
    and a: "iu a = \<gamma> mod iu msk" "- iu msk < 2 * \<gamma>" "2 * \<gamma> < iu msk"
    and b: "unat bq < unat (m_ciphertextModulus P)" "iu bq mod iu (m_ciphertextModulus P) = B mod iu (m_ciphertextModulus P)"
      "bqp = shoup_of bq (m_ciphertextModulus P)"
  shows "unat (sk_entry c a msk (m_ciphertextModulus P) bq bqp) < unat (m_ciphertextModulus P)"
    "iu (sk_entry c a msk (m_ciphertextModulus P) bq bqp) mod iu (m_ciphertextModulus P) = (S - \<gamma> * B) mod iu (m_ciphertextModulus P)"
proof -
  let ?q = "m_ciphertextModulus P"
  note Pd = ring_okD [OF P]
  have q60: "unat ?q < 2 ^ 60" using Pd(1) by (simp add: barrett_modulus_def)
  have m0: "0 < iu msk" using a(2,3) by linarith
  define r where "r = (if a > drop_bit 1 msk then ModSubFast a msk ?q else a)"
  have half: "a > drop_bit 1 msk \<longleftrightarrow> iu msk div 2 < iu a" 
  proof -
    have "unat (drop_bit 1 msk) = unat msk div 2" by (simp add: drop_bit_eq_div unat_div_distrib)
    moreover have "iu msk div 2 = int (unat msk div 2)" by (simp only: zdiv_int of_nat_numeral)
    ultimately show ?thesis by (simp only: word_less_nat_alt of_nat_less_iff)
  qed
  have am: "unat a < unat msk"
  proof -
    have "iu a < iu msk" unfolding a(1) using m0 by simp
    then show ?thesis by (simp only: of_nat_less_iff)
  qed
  have r: "iu r mod iu ?q = \<gamma> mod iu ?q"
  proof (cases "\<gamma> < 0")
    case True
    have "iu a = \<gamma> + iu msk" unfolding a(1) using True a(2) mod_pos_pos_trivial [of "\<gamma> + iu msk" "iu msk"] by (simp del: of_nat_unat)
    then have g: "int (unat a) = \<gamma> + int (unat msk)" .
    then have big: "a > drop_bit 1 msk" unfolding half using a(2) by linarith
    have k: "unat msk \<le> unat a + unat ?q" using g a(2) m(2) by linarith
    have s: "unat (a + ?q) = unat a + unat ?q" by (rule unat_add_small) (use am m(1) q60 in simp)
    have "unat r = unat a + unat ?q - unat msk" using big am k unfolding r_def
      by (simp add: ModSubFast_def word_less_nat_alt unat_sub_small s)
    then have "iu r = \<gamma> + iu ?q" using g k by linarith
    then show ?thesis by simp
  next
    case False
    have "iu a = \<gamma>" unfolding a(1) using False a(3) by (intro mod_pos_pos_trivial) linarith+
    moreover from this have "\<not> a > drop_bit 1 msk" unfolding half using a(3) by linarith
    ultimately show ?thesis by (simp add: r_def)
  qed
  define x where "x = ModMulFastConstEq r bq ?q bqp"
  have u: "unat x = unat r * unat bq mod unat ?q" unfolding x_def by (rule constant_times [OF P b(1,3)])
  have x: "unat x < unat ?q" "iu x mod iu ?q = (\<gamma> * B) mod iu ?q"
    using Pd(7) mod_mult_cong [OF r b(2)] arg_cong [OF u, of int] u by (simp_all only: mod_less_divisor of_nat_mod of_nat_mult mod_mod_trivial)
  have e: "sk_entry c a msk ?q bq bqp = ModSubFast c x ?q" by (simp add: sk_entry_def x_def r_def Let_def)
  note sub = ModSubFast_int [OF barrett_head_room [OF Pd(1)] c(1) x(1)]
  show "unat (sk_entry c a msk ?q bq bqp) < unat ?q" unfolding e by (rule sub(1))
  show "iu (sk_entry c a msk ?q bq bqp) mod iu ?q = (S - \<gamma> * B) mod iu ?q" unfolding e sub(2) by (rule mod_diff_cong [OF c(2) x(2)])
qed

text \<open>One step of the sum modulo the additional modulus.\<close>

lemma alpha_add:
  assumes m: "barrett_modulus m" and e: "unat e \<le> unat m * unat m" and h: "unat h < unat m"
  shows "unat (ModAddEq a (ModMul_mu e h m (mu_of m)) m) < unat m"
    "iu (ModAddEq a (ModMul_mu e h m (mu_of m)) m) mod iu m = (iu a + iu e * iu h) mod iu m"
proof -
  have m0: "0 < unat m" "unat m \<le> 2 ^ 63" using m by (auto simp: barrett_modulus_def)
  have "unat m < 2 ^ bit_len (unat m)" by (rule bit_len_upper)
  then have "unat m * unat m < 2 ^ bit_len (unat m) * 2 ^ bit_len (unat m)" using m0(1) by (intro mult_strict_mono) simp_all
  also have "\<dots> \<le> 2 ^ (2 * bit_len (unat m) + 2)" by (simp add: power_add [symmetric] mult_2)
  finally have s: "unat m * unat m < 2 ^ (2 * bit_len (unat m) + 2)" .
  have "unat m \<le> unat m * unat m" using m0(1) by simp
  then have "unat e < 2 ^ (2 * bit_len (unat m) + 2)" "unat h < 2 ^ (2 * bit_len (unat m) + 2)" using s e h by linarith+
  from ModMul_mu_eq(1) [OF m unat_mu_of [OF m] this] have p: "unat (ModMul_mu e h m (mu_of m)) = unat e * unat h mod unat m"
    using ModMul_correct [OF m0(1)] by simp
  have u: "unat (ModAddEq a (ModMul_mu e h m (mu_of m)) m) = (unat a + unat e * unat h mod unat m) mod unat m"
    unfolding ModAddEq_eq ModAdd_correct [OF m0] p ..
  show "unat (ModAddEq a (ModMul_mu e h m (mu_of m)) m) < unat m" unfolding u using m0(1) by simp
  show "iu (ModAddEq a (ModMul_mu e h m (mu_of m)) m) mod iu m = (iu a + iu e * iu h) mod iu m"
    using arg_cong [OF u, of int] by (simp only: of_nat_mod of_nat_add of_nat_mult mod_mod_trivial mod_add_right_eq)
qed

lemma alpha_step_ok:
  assumes T: "sk_tables Ps Bs M w wp H0 bi bip H bq bqp mus" and i: "i < length Bs" and r: "ring_ok (Bs ! i) L" "ring_ok M L"
    and t: "n + i < length ts" "represents (Bs ! i) L g (ts ! (n + i))" "m_format (ts ! (n + i)) = COEFFICIENT" and al: "length al = 2 ^ L"
  defines "msk \<equiv> m_ciphertextModulus M"
  shows "\<exists>t as. alpha_step (2 ^ L) n (map m_ciphertextModulus (Bs @ [M])) msk (mu_of msk) w wp H0 i (ts, al) = Inr (ts[n + i := t], as) \<and>
    represents (Bs ! i) L (\<lambda>k. g k * iu (w ! i)) t \<and> m_format t = COEFFICIENT \<and> length as = 2 ^ L \<and>
    (\<forall>k < 2 ^ L. unat (as ! k) < unat msk \<and> iu (as ! k) mod iu msk =
       (iu (al ! k) + (g k * iu (w ! i)) mod int (tower_q Bs i) * int (crt_hat (tower_q Bs) (length Bs) i)) mod iu msk)"
proof -
  let ?b = "m_ciphertextModulus (Bs ! i)" and ?hat = "crt_hat (tower_q Bs) (length Bs) i"
  have w: "unat (w ! i) < unat ?b" "wp ! i = shoup_of (w ! i) ?b" "tower_q Bs i \<le> unat msk * unat msk" "unat (H0 ! i) = ?hat mod unat msk"
    and l: "i < length w" "i < length wp" "i < length H0" using T i by (auto simp: sk_tables_def tower_q_def msk_def Let_def)
  have m: "barrett_modulus msk" "0 < unat msk" using ring_okD(1,7) [OF r(2)] by (simp_all add: msk_def)
  have h: "unat (H0 ! i) < unat msk" "iu (H0 ! i) mod iu msk = int ?hat mod iu msk"
    using w(4) m(2) arg_cong [OF w(4), of int] by (simp_all only: mod_less_divisor of_nat_mod mod_mod_trivial)
  obtain u where u: "each_entry (2 ^ L) (\<lambda>_ e. Inr (ModMulFastConstEq e (w ! i) ?b (wp ! i))) (ts ! (n + i)) = Inr u"
    "m_format u = COEFFICIENT" "represents (Bs ! i) L (\<lambda>k. g k * iu (w ! i)) u"
    using constant_times_represents [OF r(1) w(1,2) t(2)] t(3) by auto
  let ?f = "\<lambda>k. ebind (get_at al k) (\<lambda>a. ebind (Poly_at u k) (\<lambda>e. Inr (ModAddEq a (ModMul_mu e (H0 ! i) msk (mu_of msk)) msk)))"
  let ?R = "\<lambda>k a. unat a < unat msk \<and> iu a mod iu msk = (iu (al ! k) + (g k * iu (w ! i)) mod int (tower_q Bs i) * int ?hat) mod iu msk"
  have "\<exists>y. ?f k = Inr y \<and> ?R k y" if k: "k < 2 ^ L" for k
  proof -
    obtain e where e: "Poly_at u k = Inr e" "iu e = (g k * iu (w ! i)) mod int (tower_q Bs i)"
      using read_entry [OF u(3,2) k] by (auto simp: tower_q_def)
    have "iu e < int (tower_q Bs i)" unfolding e(2) by (rule pos_mod_bound) (use ring_okD(7) [OF r(1)] in \<open>simp only: tower_q_def of_nat_0_less_iff\<close>)
    then have "unat e \<le> unat msk * unat msk" using w(3) by linarith
    note a = alpha_add [OF m(1) this h(1), of "al ! k"]
    have "iu (ModAddEq (al ! k) (ModMul_mu e (H0 ! i) msk (mu_of msk)) msk) mod iu msk = (iu (al ! k) + iu e * int ?hat) mod iu msk"
      unfolding a(2) by (intro mod_add_cong mod_mult_cong refl h(2))
    then show ?thesis using a(1) e k al by (simp add: get_at_def)
  qed
  then obtain as where as: "emap ?f [0..<2 ^ L] = Inr as" "length as = 2 ^ L" "\<forall>k < 2 ^ L. ?R k (as ! k)"
    using emap_nth_Inr [of "[0..<2 ^ L]" ?f ?R] by auto
  show ?thesis using as u l i t(1) by (intro exI [of _ u] exI [of _ as]) (simp add: alpha_step_def get_at_def set_at_def nth_append)
qed

lemma alpha_loop:
  assumes T: "sk_tables Ps Bs M w wp H0 bi bip H bq bqp mus" and bs: "rns_ok Bs L" and M: "ring_ok M L"
    and t: "\<And>j. j < length Bs \<Longrightarrow> represents (Bs ! j) L g (ts ! (n + j)) \<and> m_format (ts ! (n + j)) = COEFFICIENT" "n + length Bs \<le> length ts"
  defines "msk \<equiv> m_ciphertextModulus M"
  shows "\<exists>us al. efor 0 (length Bs) (alpha_step (2 ^ L) n (map m_ciphertextModulus (Bs @ [M])) msk (mu_of msk) w wp H0) (ts, replicate (2 ^ L) 0) =
      Inr (us, al) \<and> length us = length ts \<and> (\<forall>i. i < n \<or> n + length Bs \<le> i \<longrightarrow> us ! i = ts ! i) \<and>
    (\<forall>j < length Bs. represents (Bs ! j) L (\<lambda>k. g k * iu (w ! j)) (us ! (n + j)) \<and> m_format (us ! (n + j)) = COEFFICIENT) \<and> length al = 2 ^ L \<and>
    (\<forall>k < 2 ^ L. unat (al ! k) < unat msk \<and> iu (al ! k) mod iu msk = approx_conv Bs w (g k) mod iu msk)"
proof -
  let ?y = "\<lambda>k j. (g k * iu (w ! j)) mod int (tower_q Bs j) * int (crt_hat (tower_q Bs) (length Bs) j)"
  let ?I = "\<lambda>i (us, al). length us = length ts \<and> (\<forall>l. l < n \<or> n + i \<le> l \<longrightarrow> us ! l = ts ! l) \<and>
    (\<forall>j < i. represents (Bs ! j) L (\<lambda>k. g k * iu (w ! j)) (us ! (n + j)) \<and> m_format (us ! (n + j)) = COEFFICIENT) \<and> length al = 2 ^ L \<and>
    (\<forall>k < 2 ^ L. unat (al ! k) < unat msk \<and> iu (al ! k) mod iu msk = (\<Sum>j<i. ?y k j) mod iu msk)"
  have m0: "0 < unat msk" using ring_okD(7) [OF M] by (simp add: msk_def)
  have "\<exists>s. efor 0 (length Bs) (alpha_step (2 ^ L) n (map m_ciphertextModulus (Bs @ [M])) msk (mu_of msk) w wp H0) (ts, replicate (2 ^ L) 0) = Inr s \<and>
      ?I (length Bs) s"
  proof (rule efor_Inr [where P = ?I])
    fix i and s :: "poly list \<times> u64 list" assume i: "i < length Bs" and s: "?I i s"
    obtain us al where us: "s = (us, al)" by (cases s)
    have I: "length us = length ts" "\<forall>l. l < n \<or> n + i \<le> l \<longrightarrow> us ! l = ts ! l" "length al = 2 ^ L"
      "\<forall>j < i. represents (Bs ! j) L (\<lambda>k. g k * iu (w ! j)) (us ! (n + j)) \<and> m_format (us ! (n + j)) = COEFFICIENT"
      "\<forall>k < 2 ^ L. unat (al ! k) < unat msk \<and> iu (al ! k) mod iu msk = (\<Sum>j<i. ?y k j) mod iu msk" using s unfolding us by simp_all
    have v: "n + i < length us" "us ! (n + i) = ts ! (n + i)" using I(1,2) t(2) i by simp_all
    have "represents (Bs ! i) L g (us ! (n + i))" "m_format (us ! (n + i)) = COEFFICIENT" unfolding v(2) using t(1) [OF i] by simp_all
    from alpha_step_ok [OF T i rns_okD(1) [OF bs i] M v(1) this I(3)] obtain t as where
      a: "alpha_step (2 ^ L) n (map m_ciphertextModulus (Bs @ [M])) msk (mu_of msk) w wp H0 i (us, al) = Inr (us[n + i := t], as)"
      "represents (Bs ! i) L (\<lambda>k. g k * iu (w ! i)) t" "m_format t = COEFFICIENT" "length as = 2 ^ L"
      "\<forall>k < 2 ^ L. unat (as ! k) < unat msk \<and> iu (as ! k) mod iu msk = (iu (al ! k) + ?y k i) mod iu msk"
      by (elim exE conjE) (rule that, simp_all only: msk_def)
    have "iu (as ! k) mod iu msk = (\<Sum>j<Suc i. ?y k j) mod iu msk" if k: "k < 2 ^ L" for k
    proof -
      have "(iu (al ! k) + ?y k i) mod iu msk = ((\<Sum>j<i. ?y k j) + ?y k i) mod iu msk" using I(5) k by (intro mod_add_cong refl) blast
      then show ?thesis using a(5) k by (simp only: sum.lessThan_Suc)
    qed
    moreover have "\<forall>j < Suc i. represents (Bs ! j) L (\<lambda>k. g k * iu (w ! j)) (us[n + i := t] ! (n + j)) \<and> m_format (us[n + i := t] ! (n + j)) = COEFFICIENT"
      using I(4) a(2,3) v(1) by (auto simp: nth_list_update less_Suc_eq)
    ultimately have "?I (Suc i) (us[n + i := t], as)" using I(1,2) a(4,5) by simp
    then show "\<exists>s'. alpha_step (2 ^ L) n (map m_ciphertextModulus (Bs @ [M])) msk (mu_of msk) w wp H0 i s = Inr s' \<and> ?I (Suc i) s'"
      unfolding us using a(1) by blast
  qed (use m0 in simp_all)
  then show ?thesis unfolding approx_conv_def by fastforce
qed

text \<open>The multiple of the product of \<open>Bs\<close> by which the sum is too large, found from the additional modulus.\<close>

lemma sk_excess:
  assumes T: "sk_tables Ps Bs M w wp H0 bi bip H bq bqp mus" and bs: "rns_ok Bs L" and g: "\<bar>g\<bar> \<le> int K * int (\<Prod>i<length Bs. tower_q Bs i)"
    and K: "2 * (K + length Bs) \<le> unat (m_ciphertextModulus M)"
  defines "B \<equiv> int (\<Prod>i<length Bs. tower_q Bs i)" and "msk \<equiv> iu (m_ciphertextModulus M)"
  shows "\<exists>\<gamma>. approx_conv Bs w g - g = \<gamma> * B \<and> - msk < 2 * \<gamma> \<and> 2 * \<gamma> < msk \<and> - \<gamma> \<le> int K \<and> ((approx_conv Bs w g - g) * iu bi) mod msk = \<gamma> mod msk"
proof -
  have w: "(iu (w ! i) * int (crt_hat (tower_q Bs) (length Bs) i)) mod int (tower_q Bs i) = 1 mod int (tower_q Bs i)" if "i < length Bs" for i
    using T that by (simp add: sk_tables_def Let_def)
  obtain \<alpha> where a: "approx_conv Bs w g = (1 * g) mod B + \<alpha> * B" "0 \<le> \<alpha>" "\<alpha> < int (length Bs)"
    using approx_conv_factor [OF bs w, of g] unfolding B_def by blast
  have B: "0 < B" unfolding B_def of_nat_0_less_iff by (rule prod_pos) (use rns_okD(2) [OF bs] in fastforce)
  have e: "approx_conv Bs w g - g = (\<alpha> - g div B) * B" unfolding a(1) using mult_div_mod_eq [of B g]
    by (simp only: left_diff_distrib mult_1 mult.commute [of B])
  have "- int K * B \<le> g" "g \<le> int K * B" using g unfolding B_def by (simp_all add: abs_le_iff)
  then have "- int K \<le> g div B" "g div B \<le> int K" using zdiv_mono1 [OF _ B, of "- int K * B" g] zdiv_mono1 [OF _ B, of g "int K * B"] B by (simp_all del: mult_minus_left)
  moreover have "2 * int K + 2 * int (length Bs) \<le> msk" using of_nat_mono [OF K, where 'a = int] unfolding msk_def
    by (simp only: of_nat_mult of_nat_add of_nat_numeral distrib_left)
  ultimately have k: "- msk < 2 * (\<alpha> - g div B)" "2 * (\<alpha> - g div B) < msk" "- (\<alpha> - g div B) \<le> int K" using a(2,3) unfolding right_diff_distrib by linarith+
  have "(iu bi * B) mod msk = 1 mod msk" using T by (simp add: sk_tables_def Let_def B_def msk_def)
  from cancel_inverse [OF this, of "\<alpha> - g div B" "approx_conv Bs w g - g"]
  have "((approx_conv Bs w g - g) * iu bi) mod msk = (\<alpha> - g div B) mod msk" unfolding e by (simp only: mult.commute)
  then show ?thesis using e k by blast
qed

lemma sk_tower_ok:
  assumes T: "sk_tables Ps Bs M w wp H0 bi bip H bq bqp mus" and j: "j < length Ps" and ps: "rns_ok Ps L" and bs: "rns_ok Bs L" and n: "length Bs \<le> 255"
    and M: "unat (m_ciphertextModulus M) < 2 ^ 60"
    and ts: "\<And>i. i < length Bs \<Longrightarrow> length Ps + i < length ts \<and> represents (Bs ! i) L (\<lambda>k. g k * iu (w ! i)) (ts ! (length Ps + i)) \<and>
       m_format (ts ! (length Ps + i)) = COEFFICIENT"
    and al: "length al = 2 ^ L" "\<And>k. k < 2 ^ L \<Longrightarrow> iu (al ! k) = \<gamma> k mod iu (m_ciphertextModulus M) \<and> - iu (m_ciphertextModulus M) < 2 * \<gamma> k \<and>
       2 * \<gamma> k < iu (m_ciphertextModulus M) \<and> - \<gamma> k \<le> int (tower_q Ps j) \<and> approx_conv Bs w (g k) - g k = \<gamma> k * int (\<Prod>i<length Bs. tower_q Bs i)"
    and v: "represents (Ps ! j) L b v" "m_format v = COEFFICIENT"
  shows "\<exists>u. sk_tower (2 ^ L) (length Ps) (length Bs) ts al (m_ciphertextModulus M) (map m_ciphertextModulus Ps) mus H bq bqp j v = Inr u \<and>
    m_format u = COEFFICIENT \<and> represents (Ps ! j) L g u"
proof -
  let ?q = "m_ciphertextModulus (Ps ! j)" and ?hat = "\<lambda>i. int (crt_hat (tower_q Bs) (length Bs) i)" and ?B = "\<Prod>i<length Bs. tower_q Bs i"
  note P = rns_okD(1) [OF ps j] note Pd = ring_okD [OF P]
  have t: "unat (mus ! j) = 2 ^ 128 div unat ?q" "unat (bq ! j) = ?B mod unat ?q" "bqp ! j = shoup_of (bq ! j) ?q"
    and l: "j < length bq" "j < length bqp" "j < length mus"
    and H: "\<And>i. i < length Bs \<Longrightarrow> i < length H \<and> j < length (H ! i) \<and> unat (H ! i ! j) = crt_hat (tower_q Bs) (length Bs) i mod tower_q Ps j"
    using T j by (auto simp: sk_tables_def tower_q_def Let_def)
  have p60: "0 < tower_q Ps j" "tower_q Ps j < 2 ^ 60" using Pd(1,7) by (auto simp: tower_q_def barrett_modulus_def)
  have bq: "unat (bq ! j) < unat ?q" "iu (bq ! j) mod iu ?q = int ?B mod iu ?q"
    using t(2) Pd(7) arg_cong [OF t(2), of int] by (simp_all only: mod_less_divisor of_nat_mod mod_mod_trivial)
  let ?f = "\<lambda>k (e :: u64). ebind (column_sum (\<lambda>i. ebind (get_at ts (length Ps + i)) (\<lambda>t. Poly_at t k)) H j (length Bs)) (\<lambda>result.
      ebind (get_at mus j) (\<lambda>mu. ebind (BarrettUint128ModUint64 result ?q mu) (\<lambda>c.
      ebind (get_at al k) (\<lambda>a. Inr (sk_entry c a (m_ciphertextModulus M) ?q (bq ! j) (bqp ! j))))))"
  have entry: "\<exists>r. ?f k e = Inr r \<and> unat r < unat ?q \<and> iu r mod iu ?q = g k mod iu ?q" if k: "k < 2 ^ L" for k e
  proof -
    have "\<exists>y. Poly_at (ts ! (length Ps + i)) k = Inr y \<and> iu y = (g k * iu (w ! i)) mod int (tower_q Bs i)" if "i < length Bs" for i
      using read_entry [of "Bs ! i" L _ "ts ! (length Ps + i)" k] ts [OF that] k by (auto simp: tower_q_def)
    then obtain y where y: "\<And>i. i < length Bs \<Longrightarrow> Poly_at (ts ! (length Ps + i)) k = Inr (y i) \<and> iu (y i) = (g k * iu (w ! i)) mod int (tower_q Bs i)" by metis
    have "\<exists>s r. column_sum (\<lambda>i. ebind (get_at ts (length Ps + i)) (\<lambda>t. Poly_at t k)) H j (length Bs) = Inr s \<and>
        BarrettUint128ModUint64 s ?q (mus ! j) = Inr r \<and> unat r < unat ?q \<and> iu r mod iu ?q = (\<Sum>i<length Bs. iu (y i) * ?hat i) mod iu ?q"
    proof (rule column_residue [OF _ n Pd(1) t(1)])
      fix i assume i: "i < length Bs"
      show "ebind (get_at ts (length Ps + i)) (\<lambda>t. Poly_at t k) = Inr (y i) \<and> unat (y i) < 2 ^ 60 \<and> i < length H \<and> j < length (H ! i) \<and>
          unat (H ! i ! j) < 2 ^ 60"
        using i y [OF i] ts [OF i] H [OF i] chain_bound [OF bs i conjunct2 [OF y [OF i]]] residue_bound [of "H ! i ! j", OF _ p60] by (simp add: get_at_def)
      show "iu (H ! i ! j) mod iu ?q = ?hat i mod iu ?q"
        using arg_cong [OF conjunct2 [OF conjunct2 [OF H [OF i]]], of int] by (simp only: of_nat_mod tower_q_def mod_mod_trivial)
    qed
    then obtain s c where c: "column_sum (\<lambda>i. ebind (get_at ts (length Ps + i)) (\<lambda>t. Poly_at t k)) H j (length Bs) = Inr s"
      "BarrettUint128ModUint64 s ?q (mus ! j) = Inr c" "unat c < unat ?q" "iu c mod iu ?q = (\<Sum>i<length Bs. iu (y i) * ?hat i) mod iu ?q"
      by (elim exE conjE) (rule that)
    have "(\<Sum>i<length Bs. iu (y i) * ?hat i) = approx_conv Bs w (g k)"
      unfolding approx_conv_def by (rule sum.cong) (use y in auto)
    note c4 = c(4) [unfolded this]
    have a: "iu (al ! k) = \<gamma> k mod iu (m_ciphertextModulus M)" "- iu (m_ciphertextModulus M) < 2 * \<gamma> k" "2 * \<gamma> k < iu (m_ciphertextModulus M)"
      "- \<gamma> k \<le> iu ?q" "approx_conv Bs w (g k) - \<gamma> k * int ?B = g k" using al(2) [OF k] by (simp_all add: tower_q_def del: of_nat_unat)
    note e = sk_entry_ok [OF P c(3) c4 M a(4) a(1-3) bq t(3), unfolded a(5)]
    show ?thesis using c(1,2) l k al(1) e by (simp add: get_at_def)
  qed
  have "\<exists>u. each_entry (2 ^ L) ?f v = Inr u \<and> m_format u = m_format v \<and> represents (Ps ! j) L g u"
  proof (rule each_entry_represents [OF v(1)])
    fix e :: u64 and i assume i: "i < (2 :: nat) ^ L"
    show "\<exists>r. ?f i e = Inr r \<and> unat r < unat ?q \<and> iu r mod iu ?q = slot (Ps ! j) L (m_format v) g i mod iu ?q"
      unfolding v(2) slot_coeff by (rule entry [OF i])
  qed
  then show ?thesis using l j v(2) by (simp add: sk_tower_def get_at_def)
qed

lemma rns_ok_middle:
  assumes "rns_ok (Ps @ Bs @ Ms) L" "Bs \<noteq> []"
  shows "rns_ok Bs L"
proof -
  have "coprime (tower_q Bs i) (tower_q Bs j)" if "i < length Bs" "j < length Bs" "i \<noteq> j" for i j
    using rns_okD(4) [OF assms(1), of "length Ps + i" "length Ps + j"] that by (simp add: tower_q_def nth_append)
  then show ?thesis using assms by (simp add: rns_ok_def)
qed

lemma FastBaseConvSK_ok:
  assumes d: "dcrt_params_ok D L" "dcrt_params_ok E L" and E: "dp_params E = dp_params D @ Bs @ [M]" and B: "Bs \<noteq> []"
    and x: "dc_params x = E" "dc_format x = COEFFICIENT" "length (dc_vectors x) = length (dp_params E)"
      "\<And>i. i < length (dp_params D) \<Longrightarrow> represents (dp_params D ! i) L (b i) (dc_vectors x ! i) \<and> m_format (dc_vectors x ! i) = COEFFICIENT"
      "\<And>i. length (dp_params D) \<le> i \<Longrightarrow> i < length (dp_params E) \<Longrightarrow> represents (dp_params E ! i) L g (dc_vectors x ! i) \<and>
         m_format (dc_vectors x ! i) = COEFFICIENT"
    and T: "sk_tables (dp_params D) Bs M w wp H0 bi bip H bq bqp mus" and n: "length Bs \<le> 255"
    and g: "\<And>k. k < 2 ^ L \<Longrightarrow> \<bar>g k\<bar> \<le> int K * int (\<Prod>i<length Bs. tower_q Bs i)" and K: "2 * (K + length Bs) \<le> unat (m_ciphertextModulus M)"
      "\<And>j. j < length (dp_params D) \<Longrightarrow> K \<le> tower_q (dp_params D) j"
  shows "\<exists>y. FastBaseConvSK D mus (map m_ciphertextModulus (Bs @ [M])) w wp H0 bi bip H bq bqp x = Inr y \<and> dc_format y = COEFFICIENT \<and> drep D L g y"
proof -
  let ?Ps = "dp_params D" and ?msk = "m_ciphertextModulus M" let ?n = "length ?Ps" and ?m = "length Bs" and ?N = "(2 :: nat) ^ L"
  note es = dcrt_params_okD(1) [OF d(2)] and ps = dcrt_params_okD(1) [OF d(1)]
  have bs: "rns_ok Bs L" by (rule rns_ok_middle [OF es [unfolded E] B])
  have EB: "dp_params E ! (?n + j) = Bs ! j" if "j < ?m" for j using that by (simp add: E nth_append)
  have EM: "dp_params E ! (?n + ?m) = M" by (simp add: E nth_append)
  have rM: "ring_ok M L" using rns_okD(1) [OF es, of "?n + ?m"] EM by (simp add: E)
  note Md = ring_okD [OF rM]
  have M60: "unat ?msk < 2 ^ 60" using Md(1) by (simp add: barrett_modulus_def)
  have N: "unat (dp_ringDimension (dc_params x)) = ?N" using d(2) x(1) by (simp add: dcrt_params_ok_def)
  have "barrett_modulus q" if "q \<in> set (map m_ciphertextModulus ?Ps)" for q
    using that ps by (auto simp: rns_ok_def dest: ring_okD(1))
  then have mu: "emap ComputeMu (map m_ciphertextModulus ?Ps) = Inr (map mu_of (map m_ciphertextModulus ?Ps))"
    by (intro emap_all_Inr) (simp add: ComputeMu_eq)
  have lx: "length (dc_vectors x) = ?n + ?m + 1" using x(3) by (simp add: E)
  have vB: "represents (Bs ! j) L g (dc_vectors x ! (?n + j)) \<and> m_format (dc_vectors x ! (?n + j)) = COEFFICIENT" if "j < ?m" for j
    using x(5) [of "?n + j"] that EB [OF that] by (simp add: E)
  have "?n + ?m \<le> length (dc_vectors x)" unfolding lx by simp
  note lb = this
  obtain us al where
    us: "efor 0 ?m (alpha_step ?N ?n (map m_ciphertextModulus (Bs @ [M])) ?msk (mu_of ?msk) w wp H0) (dc_vectors x, replicate ?N 0) = Inr (us, al)"
    "length us = length (dc_vectors x)" "\<forall>i. i < ?n \<or> ?n + ?m \<le> i \<longrightarrow> us ! i = dc_vectors x ! i"
    "\<forall>j < ?m. represents (Bs ! j) L (\<lambda>k. g k * iu (w ! j)) (us ! (?n + j)) \<and> m_format (us ! (?n + j)) = COEFFICIENT" "length al = ?N"
    "\<forall>k < ?N. unat (al ! k) < unat ?msk \<and> iu (al ! k) mod iu ?msk = approx_conv Bs w (g k) mod iu ?msk"
    using alpha_loop [OF T bs rM vB lb] by blast
  have sk: "represents M L g (us ! (?n + ?m))" "m_format (us ! (?n + ?m)) = COEFFICIENT"
    using x(5) [of "?n + ?m"] us(3) EM by (simp_all add: E)
  let ?a = "\<lambda>k. ebind (get_at al k) (\<lambda>a. ebind (Poly_at (us ! (?n + ?m)) k) (\<lambda>e. Inr (ModMulFastConstEq (ModSubFast a e ?msk) bi ?msk bip)))"
  have bi: "unat bi < unat ?msk" "bip = shoup_of bi ?msk" using T by (simp_all add: sk_tables_def Let_def)
  have "\<exists>y. ?a k = Inr y \<and> iu y = ((approx_conv Bs w (g k) - g k) * iu bi) mod iu ?msk" if k: "k < ?N" for k
  proof -
    obtain e where e: "Poly_at (us ! (?n + ?m)) k = Inr e" "iu e = g k mod iu ?msk" using read_entry [OF sk k] by blast
    have "iu e < iu ?msk" unfolding e(2) by (rule pos_mod_bound) (use Md(7) in \<open>simp only: of_nat_0_less_iff\<close>)
    then have e3: "unat e < unat ?msk" by (simp only: of_nat_less_iff)
    note a = us(6) [rule_format, OF k]
    note sub = ModSubFast_int [OF barrett_head_room [OF Md(1)] conjunct1 [OF a] e3]
    have s: "iu (ModSubFast (al ! k) e ?msk) mod iu ?msk = (approx_conv Bs w (g k) - g k) mod iu ?msk"
      unfolding sub(2) by (rule mod_diff_cong [OF conjunct2 [OF a]]) (simp only: e(2) mod_mod_trivial)
    from arg_cong [OF constant_times [OF rM bi, of "ModSubFast (al ! k) e ?msk"], of int]
    have "iu (ModMulFastConstEq (ModSubFast (al ! k) e ?msk) bi ?msk bip) = ((approx_conv Bs w (g k) - g k) * iu bi) mod iu ?msk"
      using mod_mult_cong [OF s refl, of "iu bi"] by (simp only: of_nat_mod of_nat_mult)
    then show ?thesis using e(1) k us(5) by (simp add: get_at_def)
  qed
  then obtain as where as: "emap ?a [0..<?N] = Inr as" "length as = ?N" "\<forall>k < ?N. iu (as ! k) = ((approx_conv Bs w (g k) - g k) * iu bi) mod iu ?msk"
    using emap_nth_Inr [of "[0..<?N]" ?a "\<lambda>k y. iu y = ((approx_conv Bs w (g k) - g k) * iu bi) mod iu ?msk"] by (auto simp del: of_nat_unat)
  have "\<forall>k < ?N. \<exists>c. approx_conv Bs w (g k) - g k = c * int (\<Prod>i<?m. tower_q Bs i) \<and> - iu ?msk < 2 * c \<and> 2 * c < iu ?msk \<and> - c \<le> int K \<and>
      ((approx_conv Bs w (g k) - g k) * iu bi) mod iu ?msk = c mod iu ?msk"
    using sk_excess [OF T bs g K(1)] by blast
  then obtain \<gamma> where c: "\<forall>k < ?N. approx_conv Bs w (g k) - g k = \<gamma> k * int (\<Prod>i<?m. tower_q Bs i) \<and> - iu ?msk < 2 * \<gamma> k \<and> 2 * \<gamma> k < iu ?msk \<and> - \<gamma> k \<le> int K \<and>
      ((approx_conv Bs w (g k) - g k) * iu bi) mod iu ?msk = \<gamma> k mod iu ?msk" by metis
  let ?F = "sk_tower ?N ?n ?m us as ?msk (map m_ciphertextModulus ?Ps) mus H bq bqp"
  have one: "\<exists>u. ?F j (us ! j) = Inr u \<and> m_format u = COEFFICIENT \<and> represents (?Ps ! j) L g u" if j: "j < ?n" for j
  proof (rule sk_tower_ok [OF T j ps bs n M60 _ as(2)])
    show "represents (?Ps ! j) L (b j) (us ! j)" "m_format (us ! j) = COEFFICIENT" using x(4) [OF j] us(3) j by simp_all
    show "?n + i < length us \<and> represents (Bs ! i) L (\<lambda>k. g k * iu (w ! i)) (us ! (?n + i)) \<and> m_format (us ! (?n + i)) = COEFFICIENT" if "i < ?m" for i
      using us(2,4) lx that by simp
    show "iu (as ! k) = \<gamma> k mod iu ?msk \<and> - iu ?msk < 2 * \<gamma> k \<and> 2 * \<gamma> k < iu ?msk \<and> - \<gamma> k \<le> int (tower_q ?Ps j) \<and> approx_conv Bs w (g k) - g k = \<gamma> k * int (\<Prod>i<?m. tower_q Bs i)" if "k < ?N" for k
      unfolding as(3) [rule_format, OF that] using c that order.trans [OF _ of_nat_mono [OF K(2) [OF j], where 'a = int]] by blast
  qed
  then have "\<exists>u. ?F j (us ! j) = Inr u" if "j < ?n" for j using that by blast
  moreover have "?n \<le> length us" unfolding us(2) lx by simp
  ultimately have "\<exists>zs. each_tower ?F ?n us = Inr zs \<and> length zs = length us \<and> (\<forall>i < ?n. ?F i (us ! i) = Inr (zs ! i)) \<and> (\<forall>i \<ge> ?n. zs ! i = us ! i)"
    by (rule each_tower_Inr)
  then obtain zs where zs: "each_tower ?F ?n us = Inr zs" "length zs = length us" "\<forall>i < ?n. ?F i (us ! i) = Inr (zs ! i)" by blast
  let ?y = "x\<lparr>dc_params := D, dc_vectors := take ?n zs\<rparr>"
  have "drep D L g ?y" unfolding drep_def
  proof (intro conjI allI impI)
    fix i assume i: "i < ?n"
    obtain u where u: "?F i (us ! i) = Inr u" "m_format u = COEFFICIENT" "represents (?Ps ! i) L g u" using one [OF i] by blast
    have "zs ! i = u" using zs(3) i u(1) by simp
    then show "represents (?Ps ! i) L g (dc_vectors ?y ! i)" "m_format (dc_vectors ?y ! i) = dc_format ?y" using i u(2,3) x(2) by simp_all
  qed (use zs(2) us(2) lx in simp_all)
  moreover have "FastBaseConvSK D mus (map m_ciphertextModulus (Bs @ [M])) w wp H0 bi bip H bq bqp x = Inr ?y"
    using mu us(1) as(1) zs(1,2) us(2) lx N ComputeMu_eq [OF Md(1)]
    by (simp add: FastBaseConvSK_def Let_def get_at_def nth_append)
  ultimately show ?thesis using x(2) by auto
qed

subsection \<open>The scaled product\<close>

text \<open>The quotient of \<open>t\<close> times a number by \<open>Q\<close>, rounded down with an error below the number of factors of \<open>Q\<close>.\<close>

lemma scale_down_ok:
  assumes d: "dcrt_params_ok D L" "dcrt_params_ok E L" and E: "dp_params E = dp_params D @ Bs @ [M]" and B: "Bs \<noteq> []"
    and x: "drep E L a x" "dc_format x = COEFFICIENT" and n: "length (dp_params D) \<le> 255" "length Bs \<le> 255"
    and F: "floor_tables (dp_params D) (Bs @ [M]) t w wp H tq tqp mus" and S: "sk_tables (dp_params D) Bs M v vp hm bi bip G bq bqp nus"
    and K: "2 * (K + length Bs) \<le> unat (m_ciphertextModulus M)" "\<And>j. j < length (dp_params D) \<Longrightarrow> K \<le> tower_q (dp_params D) j"
    and a: "\<And>k. k < 2 ^ L \<Longrightarrow> \<bar>t * a k\<bar> + int (length (dp_params D)) * int (big_q D) \<le> int (big_q D) * (int K * int (\<Prod>i<length Bs. tower_q Bs i))"
  shows "\<exists>f y g. FastRNSFloorq (map m_ciphertextModulus (dp_params D)) (map m_ciphertextModulus (Bs @ [M])) mus w wp H tq tqp x = Inr f \<and>
    FastBaseConvSK D nus (map m_ciphertextModulus (Bs @ [M])) v vp hm bi bip G bq bqp f = Inr y \<and> dc_format y = COEFFICIENT \<and> drep D L g y \<and>
    (\<forall>k. \<exists>\<alpha>. g k = t * a k div int (big_q D) - \<alpha> \<and> 0 \<le> \<alpha> \<and> \<alpha> < int (length (dp_params D)))"
proof -
  let ?Ps = "dp_params D" and ?Q = "int (big_q D)" let ?n = "length ?Ps" and ?B = "int K * int (\<Prod>i<length Bs. tower_q Bs i)"
  let ?g = "\<lambda>k. (t * a k - approx_conv ?Ps w (a k)) div ?Q"
  have Q: "0 < ?Q" using big_q_pos [OF d(1)] by simp
  note q = floor_quotient [OF d(1) F]
  have small: "\<bar>?g k\<bar> \<le> ?B" if "k < 2 ^ L" for k
  proof -
    obtain \<alpha> where g: "?g k = t * a k div ?Q - \<alpha>" "0 \<le> \<alpha>" "\<alpha> < int ?n" using q(2) [of "a k"] by blast
    have "t * a k \<le> ?Q * ?B - int ?n * ?Q" "- (?Q * ?B - int ?n * ?Q) \<le> t * a k" using a [OF that] by (simp_all add: abs_le_iff)
    then have "t * a k \<le> (?B - int ?n) * ?Q" "- (?B - int ?n) * ?Q \<le> t * a k" by (simp_all add: algebra_simps)
    from zdiv_mono1 [OF this(1) Q] zdiv_mono1 [OF this(2) Q] have "t * a k div ?Q \<le> ?B - int ?n" "- (?B - int ?n) \<le> t * a k div ?Q"
      using Q by (simp_all only: nonzero_mult_div_cancel_right)
    then show ?thesis unfolding g(1) using g(2,3) by linarith
  qed
  have E': "dp_params E = ?Ps @ (Bs @ [M])" by (simp add: E)
  obtain f where f: "FastRNSFloorq (map m_ciphertextModulus ?Ps) (map m_ciphertextModulus (Bs @ [M])) mus w wp H tq tqp x = Inr f"
    "dc_params f = E" "dc_format f = COEFFICIENT" "length (dc_vectors f) = ?n + length (Bs @ [M])"
    "\<forall>i < ?n. represents (?Ps ! i) L (\<lambda>k. a k * iu (w ! i)) (dc_vectors f ! i) \<and> m_format (dc_vectors f ! i) = COEFFICIENT"
    "\<forall>j < length (Bs @ [M]). represents ((Bs @ [M]) ! j) L ?g (dc_vectors f ! (?n + j)) \<and> m_format (dc_vectors f ! (?n + j)) = COEFFICIENT"
    using FastRNSFloorq_ok [OF d E' x F n(1)] by (elim exE conjE) (rule that)
  have hi: "represents (dp_params E ! i) L ?g (dc_vectors f ! i) \<and> m_format (dc_vectors f ! i) = COEFFICIENT" if "?n \<le> i" "i < length (dp_params E)" for i
    using f(6) [rule_format, of "i - ?n"] that by (simp add: E' nth_append)
  have le: "length (dc_vectors f) = length (dp_params E)" using f(4) by (simp add: E')
  have lo: "represents (?Ps ! i) L (\<lambda>k. a k * iu (w ! i)) (dc_vectors f ! i) \<and> m_format (dc_vectors f ! i) = COEFFICIENT" if "i < ?n" for i
    using f(5) that by blast
  note sk = FastBaseConvSK_ok [OF d E B f(2,3) le lo hi S n(2) small K, simplified]
  show ?thesis using f(1) q(2) sk by simp blast
qed

lemma abs_negacyclic:
  assumes "\<And>i. i < n \<Longrightarrow> s * \<bar>a i\<bar> \<le> A" "\<And>i. i < n \<Longrightarrow> s * \<bar>b i\<bar> \<le> B" "k < n" "0 \<le> s"
  shows "s * s * \<bar>negacyclic n a b k\<bar> \<le> int n * (A * B)"
proof -
  let ?b = "\<lambda>i. if i \<le> k then b (k - i) else - b (n + k - i)"
  have A: "0 \<le> A" using assms(1) [OF assms(3)] mult_nonneg_nonneg [OF assms(4) abs_ge_zero [of "a k"]] by linarith
  have "s * s * \<bar>negacyclic n a b k\<bar> \<le> s * s * (\<Sum>i<n. \<bar>a i * ?b i\<bar>)" unfolding negacyclic_def using assms(4) by (intro mult_left_mono sum_abs) simp
  also have "\<dots> = (\<Sum>i<n. (s * \<bar>a i\<bar>) * (s * \<bar>?b i\<bar>))" unfolding sum_distrib_left abs_mult by (intro sum.cong refl) (simp only: mult.assoc mult.left_commute)
  also have "\<dots> \<le> (\<Sum>i<n. A * B)" using assms A by (intro sum_mono mult_mono) auto
  finally show ?thesis by simp
qed

text \<open>A lift to the auxiliary base stands for the same element as the object, and its entries are small.\<close>

lemma lift_ok:
  assumes d: "dcrt_params_ok D L" "dcrt_params_ok E L" and E: "dp_params E = dp_params D @ Bs" and x: "drep D L a x"
    and T: "montgomery_tables (dp_params D) Bs w wp H h qm qmp ninv mi mip mus" and n: "length (dp_params D) \<le> 255"
    and cs: "towers_cached (dp_params E) L cs"
  shows "\<exists>y cs' b. FastBaseConvqToBskMontgomery draw E (map m_ciphertextModulus (dp_params D)) (map m_ciphertextModulus Bs) mus w wp H h qm qmp ninv mi mip
      x cs s = Some (Inr ((y, cs'), s)) \<and> towers_cached (dp_params E) L cs' \<and> dc_format y = EVALUATION \<and> drep E L b y \<and> drep D L b x \<and>
    (\<forall>k. 2 ^ 16 * \<bar>b k\<bar> \<le> int (big_q D) * (2 ^ 15 + int (length (dp_params D))))"
proof -
  let ?b = "\<lambda>k. montgomery_quotient (int (big_q D)) (iu ninv) (approx_conv (dp_params D) w (a k))"
  have "represents (dp_params D ! i) L ?b v" if "i < length (dp_params D)" "represents (dp_params D ! i) L a v" for i v
    by (rule represents_cong [OF that(2)]) (use montgomery_lift(1) [OF d(1) T that(1)] in \<open>simp add: tower_q_def\<close>)
  then have "drep D L ?b x" using x by (simp add: drep_def)
  moreover have "2 ^ 16 * \<bar>?b k\<bar> \<le> int (big_q D) * (2 ^ 15 + int (length (dp_params D)))" for k
  proof -
    have p: "(2 :: int) ^ 16 = 65536" "(2 :: int) ^ 15 = 32768" by simp_all
    have "0 \<le> int (big_q D) * int (length (dp_params D))" by simp
    then have "- (2 ^ 16 * ?b k) \<le> int (big_q D) * (2 ^ 15 + int (length (dp_params D)))"
      using montgomery_lift(2) [OF d(1) T, of "a k"] unfolding distrib_left p by linarith
    moreover have "2 ^ 16 * \<bar>?b k\<bar> = \<bar>2 ^ 16 * ?b k\<bar>" by (simp only: abs_mult) simp
    ultimately show ?thesis using montgomery_lift(3) [OF d(1) T, of "a k", THEN order_less_imp_le]
      by (simp only: abs_le_iff simp_thms)
  qed
  ultimately show ?thesis using FastBaseConvqToBskMontgomery_ok [OF d E x T n cs, of draw s] by blast
qed

end
