(* ===== verification/ModProps.thy ===== *)
theory ModProps
  imports ModDown
begin

text \<open>
  The properties of raising and lowering the modulus and of the scaled message.
\<close>

section \<open>Facts\<close>

lemma all_less_one: "(\<forall>i < Suc 0. P i) \<longleftrightarrow> P 0"
  by auto

lemma crt_hat_one: "crt_hat q (Suc 0) 0 = 1"
proof -
  have "{..<Suc 0} - {0} = {}" by auto
  then show ?thesis unfolding crt_hat_def by (simp only: prod.empty)
qed

lemma tables_17_41:
  "conv_tables [ring_of 17 2, ring_of 41 3] [ring_of 73 10] [5, 29] [shoup_of 5 17, shoup_of 29 41] [[41], [17]] [of_nat (2 ^ 128 div 73)]"
proof -
  have h: "crt_hat (tower_q [ring_of 17 2, ring_of 41 3]) 2 0 = 41" "crt_hat (tower_q [ring_of 17 2, ring_of 41 3]) 2 (Suc 0) = 17"
    using crt_hat_two [of "tower_q [ring_of 17 2, ring_of 41 3]"] by (simp_all add: tower_q_def ring_of_def)
  show ?thesis
    unfolding conv_tables_def by (simp add: all_less_two h [unfolded numeral_2_eq_2]) (simp add: tower_q_def ring_of_def)
qed

lemma tables_73:
  "conv_tables [ring_of 73 10] [ring_of 17 2, ring_of 41 3] [1] [shoup_of 1 73] [[1, 1]] [of_nat (2 ^ 128 div 17), of_nat (2 ^ 128 div 41)]"
  unfolding conv_tables_def by (simp add: all_less_two all_less_one crt_hat_one) (simp add: tower_q_def ring_of_def)

lemma tables_down:
  "down_tables [ring_of 17 2, ring_of 41 3] [ring_of 73 10] 73 [7, 9] [44] 5 44"
  unfolding down_tables_def by (simp add: all_less_two all_less_one) (simp add: tower_q_def ring_of_def)

lemma moduli_of_chain:
  "dp_params (chain_of Ps q) = Ps" "big_q (chain_of Ps q) = (\<Prod>i<length Ps. tower_q Ps i)"
  by (simp_all add: chain_of_def big_q_prod)

text \<open>The error of an approximate conversion is a multiple of the modulus smaller than the number of its factors.\<close>

lemma approx_conv_bound:
  assumes d: "dcrt_params_ok D L" and T: "conv_tables (dp_params D) Rs w wp H mus"
  shows "0 \<le> approx_conv (dp_params D) w k" "approx_conv (dp_params D) w k < int (length (dp_params D)) * int (big_q D)"
    "\<exists>\<alpha>. approx_conv (dp_params D) w k = k mod int (big_q D) + \<alpha> * int (big_q D) \<and> 0 \<le> \<alpha> \<and> \<alpha> < int (length (dp_params D))"
proof -
  let ?Ps = "dp_params D" and ?Q = "int (big_q D)"
  have "0 < length ?Ps \<and> (\<forall>i < length ?Ps. 0 < tower_q ?Ps i)" using rns_okD(2) [OF dcrt_params_okD(1) [OF d]] d by (fastforce simp: dcrt_params_ok_def rns_ok_def)
  then have Q: "0 < ?Q" unfolding big_q_prod by (simp only: of_nat_0_less_iff) (auto intro: prod_pos)
  have w: "unat (w ! i) * crt_hat (tower_q ?Ps) (length ?Ps) i mod tower_q ?Ps i = 1" if "i < length ?Ps" for i
    using T that by (simp add: conv_tables_def)
  obtain \<alpha> where a: "approx_conv ?Ps w k = k mod ?Q + \<alpha> * ?Q" "0 \<le> \<alpha>" "\<alpha> < int (length ?Ps)"
    by (rule approx_conv [OF dcrt_params_okD(1) [OF d] w, of k]) (auto simp: big_q_prod)
  have "0 \<le> k mod ?Q" "k mod ?Q < ?Q" using Q by simp_all
  moreover have "(\<alpha> + 1) * ?Q \<le> int (length ?Ps) * ?Q" using a(3) Q by (intro mult_right_mono) simp_all
  moreover have "0 \<le> \<alpha> * ?Q" using a(2) Q by simp
  ultimately show "0 \<le> approx_conv ?Ps w k" "approx_conv ?Ps w k < int (length ?Ps) * ?Q" unfolding a(1) by (simp_all add: algebra_simps)
  show "\<exists>\<alpha>. approx_conv ?Ps w k = k mod ?Q + \<alpha> * ?Q \<and> 0 \<le> \<alpha> \<and> \<alpha> < int (length ?Ps)" using a by blast
qed

section \<open>Properties\<close>

text \<open>
  C11. Raising the modulus keeps the residues and appends those of the number plus a multiple of the old modulus
  that is smaller than the number of its factors, in evaluation format.
\<close>

theorem modulus_raised:
  assumes "dcrt_params_ok D L" "dcrt_params_ok R L" "dcrt_params_ok E L" "dp_params E = dp_params D @ dp_params R" "drep D L a x"
    "conv_tables (dp_params D) (dp_params R) w wp H mus" "length (dp_params D) \<le> 255" "towers_cached (dp_params E) L cs"
  shows "\<exists>y cs' \<alpha>. ApproxModUp draw D R E w wp H mus x cs s = Some (Inr ((y, cs'), s)) \<and> towers_cached (dp_params E) L cs' \<and>
    dc_format y = EVALUATION \<and> drep E L (\<lambda>j. a j mod int (big_q D) + \<alpha> j * int (big_q D)) y \<and>
    (\<forall>j. 0 \<le> \<alpha> j \<and> \<alpha> j < int (length (dp_params D)))"
proof -
  obtain y cs' where y: "ApproxModUp draw D R E w wp H mus x cs s = Some (Inr ((y, cs'), s))" "towers_cached (dp_params E) L cs'"
    "dc_format y = EVALUATION" "drep E L (\<lambda>j. approx_conv (dp_params D) w (a j)) y" using ApproxModUp_ok [OF assms, of draw s] by blast
  obtain \<alpha> where "\<And>j. approx_conv (dp_params D) w (a j) = a j mod int (big_q D) + \<alpha> j * int (big_q D) \<and> 0 \<le> \<alpha> j \<and> \<alpha> j < int (length (dp_params D))"
    using choice [OF allI [OF approx_conv_bound(3) [OF assms(1,6)], of a]] by blast
  then show ?thesis using y by (intro exI [of _ y] exI [of _ cs'] exI [of _ \<alpha>]) simp
qed

theorem modulus_raised_witness:
  "\<exists>y cs' \<alpha>. ApproxModUp (\<lambda>n s. (0, s)) chain_17_41 (chain_of [ring_of 73 10] 73) (chain_of [ring_of 17 2, ring_of 41 3, ring_of 73 10] 50881)
      [5, 29] [shoup_of 5 17, shoup_of 29 41] [[41], [17]] [of_nat (2 ^ 128 div 73)] (object_for chain_17_41 2 EVALUATION (\<lambda>i. 600 - int i))
      (Reset, arb_init) () = Some (Inr ((y, cs'), ())) \<and>
    drep (chain_of [ring_of 17 2, ring_of 41 3, ring_of 73 10] 50881) 2 (\<lambda>j. (600 - int j) mod 697 + \<alpha> j * 697) y \<and> (\<forall>j. \<alpha> j \<in> {0, 1})"
proof -
  let ?E = "chain_of [ring_of 17 2, ring_of 41 3, ring_of 73 10] 50881"
  have E: "dp_params ?E = dp_params chain_17_41 @ dp_params (chain_of [ring_of 73 10] 73)" by (simp add: moduli_of_chain)
  have Q: "int (big_q chain_17_41) = 697" "length (dp_params chain_17_41) = 2" by (simp_all add: big_q_def chain_of_def ring_of_def)
  have T: "conv_tables (dp_params chain_17_41) (dp_params (chain_of [ring_of 73 10] 73)) [5, 29] [shoup_of 5 17, shoup_of 29 41]
      [[41], [17]] [of_nat (2 ^ 128 div 73)]" unfolding moduli_of_chain by (rule tables_17_41)
  obtain y cs' \<alpha> where y: "ApproxModUp (\<lambda>n s. (0, s)) chain_17_41 (chain_of [ring_of 73 10] 73) ?E [5, 29] [shoup_of 5 17, shoup_of 29 41]
      [[41], [17]] [of_nat (2 ^ 128 div 73)] (object_for chain_17_41 2 EVALUATION (\<lambda>i. 600 - int i)) (Reset, arb_init) () = Some (Inr ((y, cs'), ()))"
    "drep ?E 2 (\<lambda>j. (600 - int j) mod 697 + \<alpha> j * 697) y" "\<forall>j. 0 \<le> \<alpha> j \<and> \<alpha> j < (2 :: int)"
    using modulus_raised [OF chain_17_41 chain_73 chain_17_41_73 E object_for_drep(1) [OF chain_17_41, of "\<lambda>i. 600 - int i" EVALUATION] T _ no_tables,
      of "\<lambda>n s. (0, s)" "()"] unfolding Q by auto
  have "\<alpha> j \<in> {0, 1}" for j using spec [OF y(3), of j] by auto
  then show ?thesis using y(1,2) by blast
qed

text \<open>
  C12. Lowering the modulus divides exactly by the product \<open>P\<close> of the dropped moduli after subtracting a number \<open>c\<close>
  with \<open>0 \<le> c < n * P\<close> for \<open>n\<close> dropped moduli, or \<open>t * c\<close> where a plaintext modulus \<open>t\<close> is given, so that the
  residue modulo \<open>t\<close> of \<open>P * r\<close> is that of the number.
\<close>

theorem modulus_lowered:
  assumes "dcrt_params_ok D L" "dcrt_params_ok Q L" "dcrt_params_ok R L"
    and "dp_params D = take m (dp_params Q) @ dp_params R" "0 < m" "m \<le> length (dp_params Q)" "length (dp_params Q) < 2 ^ 32"
    and "drep D L a x" "dc_format x = EVALUATION"
    and "conv_tables (dp_params R) (dp_params Q) w wp H mus" "length (dp_params R) \<le> 255"
    and "down_tables (take m (dp_params Q)) (dp_params R) (int (big_q R)) PInv tInv t u" "towers_cached (dp_params D) L cs"
  shows "\<exists>y cs' D' r c. ApproxModDown draw Q R PInv w wp H mus tInv t x cs s = Some (Inr ((y, cs'), s)) \<and>
    towers_cached (dp_params D) L cs' \<and> dcrt_params_ok D' L \<and> dp_params D' = take m (dp_params Q) \<and> dc_format y = EVALUATION \<and> drep D' L r y \<and>
    (\<forall>j. int (big_q R) * r j = a j - (if t = 0 then c j else iu t * c j) \<and> 0 \<le> c j \<and> c j < int (length (dp_params R)) * int (big_q R))"
proof -
  let ?c = "\<lambda>j. approx_conv (dp_params R) w (a j * u)" let ?r = "\<lambda>j. (a j - down_factor t * ?c j) div int (big_q R)"
  obtain y cs' D' where y: "ApproxModDown draw Q R PInv w wp H mus tInv t x cs s = Some (Inr ((y, cs'), s))"
    "towers_cached (dp_params D) L cs'" "dcrt_params_ok D' L" "dp_params D' = take m (dp_params Q)" "dc_format y = EVALUATION" "drep D' L ?r y"
    using ApproxModDown_ok [OF assms, of draw s] by (elim exE conjE) (rule that)
  have "int (big_q R) * ?r j = a j - (if t = 0 then ?c j else iu t * ?c j)" for j
    using dvd_mult_div_cancel [OF down_exact [OF assms(3,10,12), of "a j"]] by (simp add: down_factor_def)
  then show ?thesis using y approx_conv_bound(1,2) [OF assms(3,10)]
    by (intro exI [of _ y] exI [of _ cs'] exI [of _ D'] exI [of _ ?r] exI [of _ ?c]) (intro conjI allI; assumption)
qed

theorem modulus_lowered_witness:
  "\<exists>y cs' D' (r :: nat \<Rightarrow> int) (c :: nat \<Rightarrow> int). ApproxModDown (\<lambda>n s. (0, s)) chain_17_41 (chain_of [ring_of 73 10] 73) [7, 9] [1] [shoup_of 1 73] [[1, 1]]
      [of_nat (2 ^ 128 div 17), of_nat (2 ^ 128 div 41)] [44] 5
      (object_for (chain_of [ring_of 17 2, ring_of 41 3, ring_of 73 10] 50881) 2 EVALUATION (\<lambda>i. 30000 - int i)) (Reset, arb_init) () =
      Some (Inr ((y, cs'), ())) \<and> drep D' 2 r y \<and> dp_params D' = [ring_of 17 2, ring_of 41 3] \<and> 73 * r 3 = 29997 - 5 * c 3 \<and> 0 \<le> c 3 \<and> c 3 < 73"
proof -
  let ?E = "chain_of [ring_of 17 2, ring_of 41 3, ring_of 73 10] 50881" and ?R = "chain_of [ring_of 73 10] 73"
  have E: "dp_params ?E = take 2 (dp_params chain_17_41) @ dp_params ?R" "0 < (2 :: nat)" "2 \<le> length (dp_params chain_17_41)"
    "length (dp_params chain_17_41) < 2 ^ 32" by (simp_all add: moduli_of_chain)
  have Q: "int (big_q ?R) = 73" "length (dp_params ?R) = 1" "take 2 (dp_params chain_17_41) = [ring_of 17 2, ring_of 41 3]"
    by (simp_all add: big_q_def chain_of_def ring_of_def)
  have T: "conv_tables (dp_params ?R) (dp_params chain_17_41) [1] [shoup_of 1 73] [[1, 1]] [of_nat (2 ^ 128 div 17), of_nat (2 ^ 128 div 41)]"
    unfolding moduli_of_chain by (rule tables_73)
  have I: "down_tables (take 2 (dp_params chain_17_41)) (dp_params ?R) (int (big_q ?R)) [7, 9] [44] 5 44"
    unfolding Q by (simp only: moduli_of_chain tables_down)
  have l: "length (dp_params ?R) \<le> 255" unfolding Q by simp
  obtain y cs' D' and r c :: "nat \<Rightarrow> int" where y: "ApproxModDown (\<lambda>n s. (0, s)) chain_17_41 ?R [7, 9] [1] [shoup_of 1 73] [[1, 1]]
      [of_nat (2 ^ 128 div 17), of_nat (2 ^ 128 div 41)] [44] 5 (object_for ?E 2 EVALUATION (\<lambda>i. 30000 - int i)) (Reset, arb_init) () =
      Some (Inr ((y, cs'), ()))" "dp_params D' = [ring_of 17 2, ring_of 41 3]" "drep D' 2 r y"
    "\<forall>j. 73 * r j = 30000 - int j - (if (5 :: u64) = 0 then c j else iu (5 :: u64) * c j) \<and> 0 \<le> c j \<and> c j < int 1 * 73"
    using modulus_lowered [OF chain_17_41_73 chain_17_41 chain_73 E object_for_drep [OF chain_17_41_73, where a = "\<lambda>i. 30000 - int i" and fmt = EVALUATION] T l I no_tables,
      of "\<lambda>n s. (0, s)" "()"] unfolding Q by (elim exE conjE) (rule that)
  have "73 * r 3 = 29997 - 5 * c 3 \<and> 0 \<le> c 3 \<and> c 3 < 73" using spec [OF y(4), of 3] by simp
  then show ?thesis using y(1-3) by blast
qed

text \<open>
  C13. The scaled message of BFV: a message with entries below every modulus becomes the least integers that are not
  less than \<open>Q m / t\<close>.
\<close>

theorem scaled_message:
  assumes "dcrt_params_ok D L" "drep D L a x" "dc_format x = COEFFICIENT"
    and "\<And>i j. i < length (dp_params D) \<Longrightarrow> j < 2 ^ L \<Longrightarrow> 0 \<le> a j \<and> a j < int (tower_q (dp_params D) i)"
    and "0 < unat t" "\<And>i. i < length (dp_params D) \<Longrightarrow> unat t \<le> tower_q (dp_params D) i"
    and "iu g = (- int (big_q D)) mod iu t" "gp = shoup_of g t"
    and "length (dp_params D) \<le> length w" "\<And>i. i < length (dp_params D) \<Longrightarrow> unat (w ! i) < tower_q (dp_params D) i \<and>
      int (tower_q (dp_params D) i) dvd iu t * iu (w ! i) - 1"
  shows "\<exists>y r. TimesQovert w t g gp x = Inr y \<and> dc_format y = COEFFICIENT \<and> drep D L r y \<and>
    (\<forall>j. int (big_q D) * a j \<le> iu t * r j \<and> iu t * r j < int (big_q D) * a j + iu t)"
proof -
  let ?r = "\<lambda>j. ceiling_quotient (int (big_q D) * a j) (iu t)"
  obtain y where y: "TimesQovert w t g gp x = Inr y" "dc_format y = COEFFICIENT" "drep D L ?r y" using TimesQovert_ok [OF assms] by blast
  have t: "0 < iu t" using assms(5) by (simp only: of_nat_0_less_iff)
  have "int (big_q D) * a j \<le> iu t * ?r j \<and> iu t * ?r j < int (big_q D) * a j + iu t" for j
    using ceiling_quotient(2,3) [OF t, of "int (big_q D) * a j"] by linarith
  then show ?thesis using y by (intro exI [of _ y] exI [of _ ?r]) (intro conjI allI; simp only:)
qed

theorem scaled_message_witness:
  "\<exists>y (r :: nat \<Rightarrow> int). TimesQovert [7, 33] 5 3 (shoup_of 3 5) (object_for chain_17_41 2 COEFFICIENT int) = Inr y \<and> drep chain_17_41 2 r y \<and> r 2 = 279"
proof -
  have l: "dp_params chain_17_41 = [ring_of 17 2, ring_of 41 3]" "int (big_q chain_17_41) = 697"
    by (simp_all add: big_q_def chain_of_def ring_of_def)
  have small: "0 \<le> int j \<and> int j < int (tower_q (dp_params chain_17_41) i)" if "i < length (dp_params chain_17_41)" "j < 2 ^ 2" for i j
    using that unfolding l by (auto simp: less_Suc_eq tower_q_def ring_of_def)
  have t: "unat (5 :: u64) \<le> tower_q (dp_params chain_17_41) i" if "i < length (dp_params chain_17_41)" for i
    using that unfolding l by (auto simp: less_Suc_eq tower_q_def ring_of_def)
  have w: "unat ([7, 33 :: u64] ! i) < tower_q (dp_params chain_17_41) i \<and> int (tower_q (dp_params chain_17_41) i) dvd iu (5 :: u64) * iu ([7, 33 :: u64] ! i) - 1"
    if "i < length (dp_params chain_17_41)" for i
    using that unfolding l by (auto simp: less_Suc_eq tower_q_def ring_of_def)
  have g: "iu (3 :: u64) = (- int (big_q chain_17_41)) mod iu (5 :: u64)" "0 < unat (5 :: u64)" "length (dp_params chain_17_41) \<le> length [7, 33 :: u64]"
    unfolding l by simp_all
  have "\<exists>y r. TimesQovert [7, 33] 5 3 (shoup_of 3 5) (object_for chain_17_41 2 COEFFICIENT int) = Inr y \<and> dc_format y = COEFFICIENT \<and>
      drep chain_17_41 2 r y \<and> (\<forall>j. int (big_q chain_17_41) * int j \<le> iu (5 :: u64) * r j \<and>
      iu (5 :: u64) * r j < int (big_q chain_17_41) * int j + iu (5 :: u64))"
    by (rule scaled_message [OF chain_17_41 object_for_drep [OF chain_17_41]])
      (erule (1) small, fact g(2), erule t, fact g(1), rule refl, fact g(3), erule w)
  then obtain y and r :: "nat \<Rightarrow> int" where y: "TimesQovert [7, 33] 5 3 (shoup_of 3 5) (object_for chain_17_41 2 COEFFICIENT int) = Inr y"
    "drep chain_17_41 2 r y" "\<forall>j. 697 * int j \<le> iu (5 :: u64) * r j \<and> iu (5 :: u64) * r j < 697 * int j + iu (5 :: u64)" unfolding l(2)
    by (elim exE conjE) (rule that)
  have "r 2 = 279" using spec [OF y(3), of 2] by simp
  then show ?thesis using y(1,2) by blast
qed

end
