(* ===== verification/BehzProps.thy ===== *)
theory BehzProps
  imports BehzScale ModProps
begin

text \<open>
  The property of multiplication by an auxiliary base.
\<close>

section \<open>Facts\<close>

lemma Dcrt_SetFormat_same:
  assumes "dcrt_params_ok E L" "drep E L a x" "towers_cached (dp_params E) L cs"
  shows "\<exists>y cs'. Dcrt_SetFormat draw fmt x cs s = Some (Inr ((y, cs'), s)) \<and> towers_cached (dp_params E) L cs' \<and> dc_format y = fmt \<and> drep E L a y"
  by (rule Dcrt_SetFormat_within [OF dcrt_params_okD(1) [OF assms(1)] _ assms(2,3)]) simp

lemma scaled_size:
  fixes c :: int
  assumes "2 ^ 16 * 2 ^ 16 * \<bar>c\<bar> \<le> N * ((Q * e) * (Q * e))" "0 \<le> t" "0 < Q" "t * N * Q * (e * e) + 2 ^ 32 * n \<le> 2 ^ 32 * X"
  shows "\<bar>t * c\<bar> + n * Q \<le> Q * X"
proof -
  have "2 ^ 32 * \<bar>t * c\<bar> = t * (2 ^ 16 * 2 ^ 16 * \<bar>c\<bar>)" using assms(2) by (simp add: abs_mult)
  also have "\<dots> \<le> t * (N * ((Q * e) * (Q * e)))" by (rule mult_left_mono [OF assms(1,2)])
  also have "\<dots> = Q * (t * N * Q * (e * e))" by (simp only: mult.assoc mult.left_commute mult.commute)
  finally have "2 ^ 32 * (\<bar>t * c\<bar> + n * Q) \<le> Q * (t * N * Q * (e * e) + 2 ^ 32 * n)" unfolding distrib_left by (simp add: algebra_simps)
  also have "\<dots> \<le> Q * (2 ^ 32 * X)" using assms(3,4) by (intro mult_left_mono) simp_all
  finally show ?thesis by simp
qed

subsection \<open>An auxiliary base of two moduli\<close>

abbreviation aux_ring :: elem_params where
  "aux_ring \<equiv> ring_of 65537 16"

abbreviation msk_ring :: elem_params where
  "msk_ring \<equiv> ring_of 65609 10178"

abbreviation chain_aux :: dcrt_params where
  "chain_aux \<equiv> chain_of [ring_of 17 2, ring_of 41 3, aux_ring, msk_ring] 2996972472001"

lemma chain_aux: "dcrt_params_ok chain_aux 2"
proof -
  have "ring_ok aux_ring 2" "ring_ok msk_ring 2" by (simp_all add: ring_ok_def ring_of_def ntt_params_def barrett_modulus_def)
  moreover have "coprime (17::nat) 65537" "coprime (65537::nat) 17" "coprime (41::nat) 65537" "coprime (65537::nat) 41"
    "coprime (17::nat) 65609" "coprime (65609::nat) 17" "coprime (41::nat) 65609" "coprime (65609::nat) 41"
    "coprime (65537::nat) 65609" "coprime (65609::nat) 65537" by (simp_all add: coprime_iff_gcd_eq_1 gcd_non_0_nat)
  ultimately have "rns_ok [ring_of 17 2, ring_of 41 3, aux_ring, msk_ring] 2"
    using rings_ok coprime_small by (simp add: rns_ok_def ring_of_def tower_q_def less_Suc_eq all_conj_distrib)
  then show ?thesis using repr_limb [of 2996972472001] by (simp add: dcrt_params_ok_def chain_of_def ring_of_def)
qed

lemma hats_17_41: "crt_hat (tower_q [ring_of 17 2, ring_of 41 3]) (Suc (Suc 0)) 0 = 41"
    "crt_hat (tower_q [ring_of 17 2, ring_of 41 3]) (Suc (Suc 0)) (Suc 0) = 17" "(\<Prod>i<Suc (Suc 0). tower_q [ring_of 17 2, ring_of 41 3] i) = 697"
proof -
  show "crt_hat (tower_q [ring_of 17 2, ring_of 41 3]) (Suc (Suc 0)) 0 = 41" "crt_hat (tower_q [ring_of 17 2, ring_of 41 3]) (Suc (Suc 0)) (Suc 0) = 17"
    using crt_hat_two [of "tower_q [ring_of 17 2, ring_of 41 3]"] by (simp_all add: tower_q_def ring_of_def flip: numeral_2_eq_2)
  show "(\<Prod>i<Suc (Suc 0). tower_q [ring_of 17 2, ring_of 41 3] i) = 697" by (simp add: tower_q_def ring_of_def)
qed

lemma montgomery_tables_aux:
  "montgomery_tables [ring_of 17 2, ring_of 41 3] [aux_ring, msk_ring] [5, 30] [shoup_of 5 17, shoup_of 30 41] [[41, 41], [17, 17]] [41, 17]
     [697, 697] [shoup_of 697 65537, shoup_of 697 65609] 40055 [65536, 3595] [shoup_of 65536 65537, shoup_of 3595 65609]
     [of_nat (2 ^ 128 div 65537), of_nat (2 ^ 128 div 65609)]"
  unfolding montgomery_tables_def by (simp add: all_less_two hats_17_41) (simp add: tower_q_def ring_of_def)

lemma floor_tables_aux:
  "floor_tables [ring_of 17 2, ring_of 41 3] [aux_ring, msk_ring] 2 [10, 17] [shoup_of 10 17, shoup_of 17 41] [[30841, 54031], [44757, 14402]]
     [20686, 63444] [shoup_of 20686 65537, shoup_of 63444 65609] [of_nat (2 ^ 128 div 65537), of_nat (2 ^ 128 div 65609)]"
  unfolding floor_tables_def by (simp add: all_less_two hats_17_41) (simp add: tower_q_def ring_of_def)

lemma sk_tables_aux:
  "sk_tables [ring_of 17 2, ring_of 41 3] [aux_ring] msk_ring [1] [shoup_of 1 65537] [1] 15491 (shoup_of 15491 65609) [[1, 1]] [2, 19]
     [shoup_of 2 17, shoup_of 19 41] [of_nat (2 ^ 128 div 17), of_nat (2 ^ 128 div 41)]"
  unfolding sk_tables_def Let_def by (simp add: all_less_two all_less_one crt_hat_one) (simp add: tower_q_def ring_of_def)

section \<open>Properties\<close>

text \<open>
  C14. Multiplication in BFV by an auxiliary base: two elements modulo \<open>Q\<close>, a product of \<open>n\<close> moduli, are lifted to the
  moduli \<open>Bs\<close> and one more by Montgomery's method, multiplied in evaluation format, divided by \<open>Q / t\<close> and taken back to the
  moduli of \<open>Q\<close>. No step fails. The lifts \<open>b\<close>, \<open>b'\<close> represent the operands and have entries of size at most
  \<open>(1 / 2 + n / 2 ^ 16) Q\<close>, and the result is \<open>t / Q\<close> times their negacyclic product over the integers, rounded down, with
  an error below \<open>n\<close>. The tables hold the residues that their names say (\<open>montgomery_tables\<close>, \<open>floor_tables\<close>,
  \<open>sk_tables\<close>), the auxiliary moduli are at least \<open>2 ^ 16\<close>, and the auxiliary base is large enough: for some \<open>K\<close> the scaled
  product is at most \<open>K\<close> times the product of \<open>Bs\<close>, the additional modulus is at least twice \<open>K\<close> plus the number of \<open>Bs\<close>, and
  no modulus of \<open>Q\<close> is below \<open>K\<close>.
\<close>

theorem scaled_product:
  assumes "dcrt_params_ok D L" "dcrt_params_ok E L" "dp_params E = dp_params D @ Bs @ [M]" "Bs \<noteq> []"
    and "drep D L a x" "drep D L a' x'" "length (dp_params D) \<le> 255" "length Bs \<le> 255" "towers_cached (dp_params E) L cs"
    and "montgomery_tables (dp_params D) (Bs @ [M]) w wp H h qm qmp ninv mi mip mus"
    and "floor_tables (dp_params D) (Bs @ [M]) t f fp F tq tqp mus" "sk_tables (dp_params D) Bs M v vp hm bi bip G bq bqp nus"
    and "2 * (K + length Bs) \<le> unat (m_ciphertextModulus M)" "\<forall>j < length (dp_params D). K \<le> tower_q (dp_params D) j" "0 \<le> t"
    and "t * 2 ^ L * int (big_q D) * (2 ^ 15 + int (length (dp_params D))) ^ 2 + 2 ^ 32 * int (length (dp_params D)) \<le>
      2 ^ 32 * (int K * int (\<Prod>i<length Bs. tower_q Bs i))"
  defines "qs \<equiv> map m_ciphertextModulus (dp_params D)" and "bs \<equiv> map m_ciphertextModulus (Bs @ [M])"
  shows "\<exists>u u' z zc fl y b b' g cs1 cs2 cs3.
    FastBaseConvqToBskMontgomery draw E qs bs mus w wp H h qm qmp ninv mi mip x cs s = Some (Inr ((u, cs1), s)) \<and>
    FastBaseConvqToBskMontgomery draw E qs bs mus w wp H h qm qmp ninv mi mip x' cs1 s = Some (Inr ((u', cs2), s)) \<and>
    Dcrt_Times u u' = Inr z \<and> Dcrt_SetFormat draw COEFFICIENT z cs2 s = Some (Inr ((zc, cs3), s)) \<and>
    FastRNSFloorq qs bs mus f fp F tq tqp zc = Inr fl \<and> FastBaseConvSK D nus bs v vp hm bi bip G bq bqp fl = Inr y \<and>
    drep E L b u \<and> drep D L b x \<and> drep E L b' u' \<and> drep D L b' x' \<and>
    (\<forall>k. 2 ^ 16 * \<bar>b k\<bar> \<le> int (big_q D) * (2 ^ 15 + int (length (dp_params D))) \<and>
         2 ^ 16 * \<bar>b' k\<bar> \<le> int (big_q D) * (2 ^ 15 + int (length (dp_params D)))) \<and>
    dc_format y = COEFFICIENT \<and> drep D L g y \<and>
    (\<forall>k. g k \<le> t * negacyclic (2 ^ L) b b' k div int (big_q D) \<and>
         t * negacyclic (2 ^ L) b b' k div int (big_q D) - int (length (dp_params D)) < g k)"
proof -
  let ?e = "2 ^ 15 + int (length (dp_params D))" let ?Q = "int (big_q D)"
  obtain u cs1 b where u: "FastBaseConvqToBskMontgomery draw E qs bs mus w wp H h qm qmp ninv mi mip x cs s = Some (Inr ((u, cs1), s))"
    "towers_cached (dp_params E) L cs1" "dc_format u = EVALUATION" "drep E L b u" "drep D L b x" "\<forall>k. 2 ^ 16 * \<bar>b k\<bar> \<le> ?Q * ?e"
    using lift_ok [OF assms(1-3,5,10,7,9), of draw s] unfolding qs_def bs_def by blast
  obtain u' cs2 b' where u': "FastBaseConvqToBskMontgomery draw E qs bs mus w wp H h qm qmp ninv mi mip x' cs1 s = Some (Inr ((u', cs2), s))"
    "towers_cached (dp_params E) L cs2" "dc_format u' = EVALUATION" "drep E L b' u'" "drep D L b' x'" "\<forall>k. 2 ^ 16 * \<bar>b' k\<bar> \<le> ?Q * ?e"
    using lift_ok [OF assms(1-3,6,10,7) u(2), of draw s] unfolding qs_def bs_def by blast
  let ?c = "negacyclic (2 ^ L) b b'"
  obtain z where z: "Dcrt_Times u u' = Inr z" "drep E L ?c z" using Dcrt_Times_drep(1) [OF assms(2) u(4) u'(4) u(3) u'(3)] by blast
  obtain zc cs3 where zc: "Dcrt_SetFormat draw COEFFICIENT z cs2 s = Some (Inr ((zc, cs3), s))" "dc_format zc = COEFFICIENT" "drep E L ?c zc"
    using Dcrt_SetFormat_same [OF assms(2) z(2) u'(2), of draw COEFFICIENT s] by blast
  have "\<bar>t * ?c k\<bar> + int (length (dp_params D)) * ?Q \<le> ?Q * (int K * int (\<Prod>i<length Bs. tower_q Bs i))" if k: "k < 2 ^ L" for k
  proof (rule scaled_size [of _ "2 ^ L" ?Q ?e])
    show "2 ^ 16 * 2 ^ 16 * \<bar>?c k\<bar> \<le> 2 ^ L * (?Q * ?e * (?Q * ?e))" using abs_negacyclic [of "2 ^ L" "2 ^ 16" b "?Q * ?e" b' "?Q * ?e" k] u(6) u'(6) k by simp
    show "t * 2 ^ L * ?Q * (?e * ?e) + 2 ^ 32 * int (length (dp_params D)) \<le> 2 ^ 32 * (int K * int (\<Prod>i<length Bs. tower_q Bs i))"
      using assms(16) by (simp only: power2_eq_square)
  qed (use assms(15) big_q_pos [OF assms(1)] in simp_all)
  from scale_down_ok [OF assms(1-4) zc(3,2) assms(7,8,11-13) assms(14) [rule_format] this] obtain fl y g where y: "FastRNSFloorq qs bs mus f fp F tq tqp zc = Inr fl"
    "FastBaseConvSK D nus bs v vp hm bi bip G bq bqp fl = Inr y" "dc_format y = COEFFICIENT" "drep D L g y"
    "\<forall>k. \<exists>\<alpha>. g k = t * ?c k div ?Q - \<alpha> \<and> 0 \<le> \<alpha> \<and> \<alpha> < int (length (dp_params D))" unfolding qs_def bs_def by blast
  have "g k \<le> t * ?c k div ?Q \<and> t * ?c k div ?Q - int (length (dp_params D)) < g k" for k using spec [OF y(5), of k] by auto
  then show ?thesis using u(1,4-6) u'(1,4-6) z(1) zc(1) y(1-4) by blast
qed

theorem scaled_product_witness:
  "\<exists>u u' z zc fl y (b :: nat \<Rightarrow> int) b' (g :: nat \<Rightarrow> int) cs1 cs2 cs3.
    FastBaseConvqToBskMontgomery (\<lambda>n s. (0, s)) chain_aux [17, 41] [65537, 65609] [of_nat (2 ^ 128 div 65537), of_nat (2 ^ 128 div 65609)] [5, 30]
      [shoup_of 5 17, shoup_of 30 41] [[41, 41], [17, 17]] [41, 17] [697, 697] [shoup_of 697 65537, shoup_of 697 65609] 40055 [65536, 3595]
      [shoup_of 65536 65537, shoup_of 3595 65609] (object_for chain_17_41 2 EVALUATION int) (Reset, arb_init) () = Some (Inr ((u, cs1), ())) \<and>
    FastBaseConvqToBskMontgomery (\<lambda>n s. (0, s)) chain_aux [17, 41] [65537, 65609] [of_nat (2 ^ 128 div 65537), of_nat (2 ^ 128 div 65609)] [5, 30]
      [shoup_of 5 17, shoup_of 30 41] [[41, 41], [17, 17]] [41, 17] [697, 697] [shoup_of 697 65537, shoup_of 697 65609] 40055 [65536, 3595]
      [shoup_of 65536 65537, shoup_of 3595 65609] (object_for chain_17_41 2 COEFFICIENT (\<lambda>i. 300 - int i)) cs1 () = Some (Inr ((u', cs2), ())) \<and>
    Dcrt_Times u u' = Inr z \<and> Dcrt_SetFormat (\<lambda>n s. (0, s)) COEFFICIENT z cs2 () = Some (Inr ((zc, cs3), ())) \<and>
    FastRNSFloorq [17, 41] [65537, 65609] [of_nat (2 ^ 128 div 65537), of_nat (2 ^ 128 div 65609)] [10, 17] [shoup_of 10 17, shoup_of 17 41]
      [[30841, 54031], [44757, 14402]] [20686, 63444] [shoup_of 20686 65537, shoup_of 63444 65609] zc = Inr fl \<and>
    FastBaseConvSK chain_17_41 [of_nat (2 ^ 128 div 17), of_nat (2 ^ 128 div 41)] [65537, 65609] [1] [shoup_of 1 65537] [1] 15491
      (shoup_of 15491 65609) [[1, 1]] [2, 19] [shoup_of 2 17, shoup_of 19 41] fl = Inr y \<and>
    drep chain_17_41 2 b (object_for chain_17_41 2 EVALUATION int) \<and> 2 ^ 16 * \<bar>b 3\<bar> \<le> 697 * (2 ^ 15 + 2) \<and>
    drep chain_17_41 2 g y \<and> (2 * negacyclic 4 b b' 0 div 697) - g 0 \<in> {0, 1}"
proof -
  let ?D = chain_17_41 and ?E = chain_aux
  have D: "dp_params ?D = [ring_of 17 2, ring_of 41 3]" "int (big_q ?D) = 697" by (simp_all add: big_q_def chain_of_def ring_of_def)
  have E: "dp_params ?E = dp_params ?D @ [aux_ring] @ [msk_ring]" unfolding D by (simp add: chain_of_def)
  have m: "map m_ciphertextModulus (dp_params ?D) = [17, 41]" "map m_ciphertextModulus ([aux_ring] @ [msk_ring]) = [65537, 65609]"
    unfolding D by (simp_all add: ring_of_def)
  have n: "length (dp_params ?D) = 2" unfolding D by simp
  have l: "length (dp_params ?D) \<le> 255" "length [aux_ring] \<le> 255" "[aux_ring] \<noteq> []" unfolding n by simp_all
  have K: "2 * (1 + length [aux_ring]) \<le> unat (m_ciphertextModulus msk_ring)" "(0 :: int) \<le> 2"
    "2 * 2 ^ 2 * int (big_q ?D) * (2 ^ 15 + int (length (dp_params ?D))) ^ 2 + 2 ^ 32 * int (length (dp_params ?D)) \<le>
      2 ^ 32 * (int 1 * int (\<Prod>i<length [aux_ring]. tower_q [aux_ring] i))" unfolding D n by (simp_all add: ring_of_def tower_q_def)
  have q: "\<forall>j < length (dp_params ?D). 1 \<le> tower_q (dp_params ?D) j"
    unfolding D by (auto simp: less_Suc_eq tower_q_def ring_of_def)
  have T: "montgomery_tables (dp_params ?D) ([aux_ring] @ [msk_ring]) [5, 30] [shoup_of 5 17, shoup_of 30 41] [[41, 41], [17, 17]] [41, 17]
     [697, 697] [shoup_of 697 65537, shoup_of 697 65609] 40055 [65536, 3595] [shoup_of 65536 65537, shoup_of 3595 65609]
     [of_nat (2 ^ 128 div 65537), of_nat (2 ^ 128 div 65609)]" unfolding D using montgomery_tables_aux by simp
  have F: "floor_tables (dp_params ?D) ([aux_ring] @ [msk_ring]) 2 [10, 17] [shoup_of 10 17, shoup_of 17 41] [[30841, 54031], [44757, 14402]]
     [20686, 63444] [shoup_of 20686 65537, shoup_of 63444 65609] [of_nat (2 ^ 128 div 65537), of_nat (2 ^ 128 div 65609)]"
    unfolding D using floor_tables_aux by simp
  have S: "sk_tables (dp_params ?D) [aux_ring] msk_ring [1] [shoup_of 1 65537] [1] 15491 (shoup_of 15491 65609) [[1, 1]] [2, 19]
     [shoup_of 2 17, shoup_of 19 41] [of_nat (2 ^ 128 div 17), of_nat (2 ^ 128 div 41)]" unfolding D by (rule sk_tables_aux)
  note p = scaled_product [OF chain_17_41 chain_aux E l(3) object_for_drep(1) [OF chain_17_41, where a = int and fmt = EVALUATION]
    object_for_drep(1) [OF chain_17_41, where a = "\<lambda>i. 300 - int i" and fmt = COEFFICIENT] l(1,2) no_tables T F S K(1) q K(2,3),
    of "\<lambda>n s. (0, s)" "()", unfolded m n D(2)]
  from p obtain u u' z zc fl y b b' cs1 cs2 cs3 and g :: "nat \<Rightarrow> int" where r:
    "FastBaseConvqToBskMontgomery (\<lambda>n s. (0, s)) chain_aux [17, 41] [65537, 65609] [of_nat (2 ^ 128 div 65537), of_nat (2 ^ 128 div 65609)] [5, 30]
      [shoup_of 5 17, shoup_of 30 41] [[41, 41], [17, 17]] [41, 17] [697, 697] [shoup_of 697 65537, shoup_of 697 65609] 40055 [65536, 3595]
      [shoup_of 65536 65537, shoup_of 3595 65609] (object_for chain_17_41 2 EVALUATION int) (Reset, arb_init) () = Some (Inr ((u, cs1), ()))"
    "FastBaseConvqToBskMontgomery (\<lambda>n s. (0, s)) chain_aux [17, 41] [65537, 65609] [of_nat (2 ^ 128 div 65537), of_nat (2 ^ 128 div 65609)] [5, 30]
      [shoup_of 5 17, shoup_of 30 41] [[41, 41], [17, 17]] [41, 17] [697, 697] [shoup_of 697 65537, shoup_of 697 65609] 40055 [65536, 3595]
      [shoup_of 65536 65537, shoup_of 3595 65609] (object_for chain_17_41 2 COEFFICIENT (\<lambda>i. 300 - int i)) cs1 () = Some (Inr ((u', cs2), ()))"
    "Dcrt_Times u u' = Inr z" "Dcrt_SetFormat (\<lambda>n s. (0, s)) COEFFICIENT z cs2 () = Some (Inr ((zc, cs3), ()))"
    "FastRNSFloorq [17, 41] [65537, 65609] [of_nat (2 ^ 128 div 65537), of_nat (2 ^ 128 div 65609)] [10, 17] [shoup_of 10 17, shoup_of 17 41]
      [[30841, 54031], [44757, 14402]] [20686, 63444] [shoup_of 20686 65537, shoup_of 63444 65609] zc = Inr fl"
    "FastBaseConvSK chain_17_41 [of_nat (2 ^ 128 div 17), of_nat (2 ^ 128 div 41)] [65537, 65609] [1] [shoup_of 1 65537] [1] 15491
      (shoup_of 15491 65609) [[1, 1]] [2, 19] [shoup_of 2 17, shoup_of 19 41] fl = Inr y"
    "drep chain_17_41 2 b (object_for chain_17_41 2 EVALUATION int)" "drep chain_17_41 2 g y"
    "\<forall>k. 2 ^ 16 * \<bar>b k\<bar> \<le> 697 * (2 ^ 15 + int 2) \<and> 2 ^ 16 * \<bar>b' k\<bar> \<le> 697 * (2 ^ 15 + int 2)"
    "\<forall>k. g k \<le> 2 * negacyclic (2 ^ 2) b b' k div 697 \<and> 2 * negacyclic (2 ^ 2) b b' k div 697 - int 2 < g k"
    by (elim exE conjE) (rule that)
  have "2 ^ 16 * \<bar>b 3\<bar> \<le> 697 * (2 ^ 15 + 2)" using spec [OF r(9), of 3] by simp
  moreover have "2 * negacyclic 4 b b' 0 div 697 - g 0 \<in> {0, 1}" using spec [OF r(10), of 0] by auto
  ultimately show ?thesis using r(1-8) by blast
qed

end
