(* ===== verification/Spec2Isabelle.thy ===== *)
theory Spec2Isabelle
  imports PolyProps Generators LweProps BehzProps
begin

text \<open>
  A verification development for the core of OpenFHE: the 64-bit and the multi-precision arithmetic, the
  number-theoretic transforms, the polynomial rings over one and over several moduli, the distribution
  generators and the LWE scheme. This theory imports all others and holds their documentation.

  \<^bold>\<open>The program.\<close> \<open>src/core\<close> provides the mathematics: machine integers modulo a word
  (\<open>math/hal/intnat/ubintnat.h\<close>), vectors of residues (\<open>mubintvecnat\<close>), number theory (\<open>nbtheory\<close>), the
  transforms (\<open>transformnat-impl.h\<close>), multi-precision integers (\<open>hal/bigintdyn\<close>), random generators, and on top of them
  polynomials over one modulus (\<open>lattice/hal/default/poly-impl.h\<close>) and over several moduli
  (\<open>dcrtpoly-impl.h\<close>), which keep one polynomial, a tower, for each modulus. \<open>src/binfhe\<close> builds the LWE scheme and its bootstrapping on them,
  \<open>src/pke\<close> the schemes BFV, BGV and CKKS. The modelled configuration is the default one: \<open>NATIVEINT = 64\<close> with a
  128-bit double word, fast (unchecked) native operations, no HEXL, GCC.

  \<^bold>\<open>Conventions.\<close> An integer object is the word it holds; a class with several fields is a record; a shared
  or unique pointer is an option; a method that changes its object returns the new value. \<open>OPENFHE_THROW\<close>, a read past
  the end, a division by zero, a shift by the word size and a null pointer that is followed are values of the
  error type \<open>exn\<close> (theory \<open>Prelude\<close>), so a function that can fail returns \<open>exn + 'a\<close>. Loops with a bound are folds over
  the counter (\<open>efor\<close>, \<open>for_range\<close>), loops that may not end are partial functions, where \<open>None\<close> is the run that does not
  return. Random engines and the mathematics library of C++ are parameters. A double is the rational it stands
  for, rounded to 53 bits after each operation. Names are those of the code, with a prefix where two classes share
  a name.

  \<^bold>\<open>Theories.\<close>
  \<^item> \<open>Prelude\<close>, \<open>Loops\<close>: errors, loops, words. \<open>Barrett\<close>: the arithmetic of the two reductions by a precomputed
    reciprocal.
  \<^item> \<open>NatInt\<close> (\<open>ubintnat.h\<close>): every operation of the native integer, plain and modular, with strings, digits and
    archives. \<open>Rounding\<close>: the operations that go through doubles.
  \<^item> \<open>NatVec\<close> (\<open>mubintvecnat.h\<close>, \<open>mubintvecnat.cpp\<close>): vectors. The locale \<open>residue_op\<close> states when a scalar operation computes an
    operation of the residues and lifts it to vectors; it is interpreted by addition, subtraction and the two
    multiplications.
  \<^item> \<open>BitRev\<close>, \<open>NttSpec\<close>, \<open>Ntt\<close>, \<open>Ftt\<close> (\<open>nbtheory.h\<close>, \<open>transformnat-impl.h\<close>): bit reversal, the abstract butterfly recursion, the
    transforms in all their variants, and the cached negacyclic transform. The locale \<open>const_mul\<close> is the contract of a
    multiplication by a prepared constant; Barrett's and Shoup's methods provide it.
  \<^item> \<open>NumFacts\<close>, \<open>Primes\<close>, \<open>Roots\<close>, \<open>Automorph\<close>, \<open>PolyArith\<close> (\<open>nbtheory-impl.h\<close>, \<open>nbtheory2.cpp\<close>): primality, factorisation,
    searches for primes, generators and roots of unity, automorphism indices, cyclotomic polynomials.
  \<^item> \<open>Bluestein\<close>, \<open>Dft\<close>, \<open>Chirp\<close>: the transforms of arbitrary length and order; that the iterative transforms
    compute the discrete Fourier transform and that Bluestein's chirp computes it for any length.
  \<^item> \<open>PolyRing\<close> (\<open>poly.h\<close>, \<open>poly-impl.h\<close>, \<open>ilparams.h\<close>, \<open>elemparams.h\<close>): polynomials over one modulus with their parameters.
    \<open>PolySem\<close>, \<open>PolyAuto\<close>, \<open>Gadget\<close>: the element of \<open>Z_q[X] / (X^n + 1)\<close> that an object represents and the effect of every
    operation on it. \<open>RingModel\<close>: the locale \<open>represented_ring\<close>, its expressions and their evaluation, interpreted by the
    polynomials in evaluation format. \<open>PolyProps\<close>: the properties.
  \<^item> \<open>Generators\<close> (\<open>math/*generator*\<close>): uniform, binary, ternary and Gaussian sampling.
  \<^item> \<open>Lwe\<close> (\<open>binfhe/lib/lwe-pke.cpp\<close> and its headers), \<open>LweSem\<close>, \<open>LweProps\<close>: the LWE scheme, the phase of its ciphertexts and
    the effect of every operation on it.
  \<^item> \<open>BigInt\<close> (\<open>hal/bigintdyn/ubintdyn.h\<close>, \<open>ubintdyn.cpp\<close>): multi-precision integers with 64-bit limbs, least significant
    first (record \<open>ubint\<close>). \<open>BigIntSem\<close>: the relation \<open>repr x n\<close>, the object \<open>x\<close> is in normal form and stands for \<open>n\<close>, and the
    arithmetic of the objects. \<open>KnuthD\<close>: the division. \<open>BigMod\<close>: modular arithmetic, exponentiation and inverse; the
    locale \<open>represented_numbers\<close> states what these need of a representation of the numbers and is interpreted by
    \<open>repr\<close>. \<open>BigIntProps\<close>: decimal text and the properties.
  \<^item> \<open>Dcrt\<close> (\<open>dcrtpoly.h\<close>, \<open>dcrtpoly-impl.h\<close>, \<open>ildcrtparams.h\<close>): polynomials over several moduli and their parameters.
    \<open>DcrtSem\<close>: well-formed chains of moduli (\<open>dcrt_params_ok\<close>) and the relation \<open>drep D L a x\<close>, the object \<open>x\<close> stands for
    the integer polynomial \<open>a\<close>; the arithmetic. \<open>Crt\<close>: interpolation. \<open>Rescale\<close>: rescaling and modulus reduction. \<open>BaseConv\<close>
    (with \<open>utils/utilities-int.h\<close>): conversion between bases of moduli. \<open>DcrtFacts\<close>, \<open>DcrtProps\<close>: construction, decomposition,
    the properties. \<open>ModUp\<close>, \<open>ModDown\<close>, \<open>ModProps\<close>: raising and lowering the modulus, the scaled message of BFV.
    \<open>Behz\<close>, \<open>BehzScale\<close>, \<open>BehzProps\<close>: multiplication of BFV by an auxiliary base (\<open>FastBaseConvqToBskMontgomery\<close>,
    \<open>FastRNSFloorq\<close>, \<open>FastBaseConvSK\<close>), composed as in \<open>src/pke\<close>.

  \<^bold>\<open>What is shown.\<close> The machine operations compute the residues they should, within the moduli the library
  allows, and where they do not the theorem says so. The transforms compute the values at the odd powers of the
  root, invert each other and turn entrywise products into products modulo \<open>X^n + 1\<close>; the polynomial class is a
  refinement of that ring, in both formats, and keeps its invariant. The samplers return what they promise, or
  the exact circumstances in which they do not. The multi-precision operations compute with the numbers their
  objects stand for, up to the documented shortcut of the division. An object over several moduli stands for an
  integer polynomial modulo their product: arithmetic, interpolation, rescaling, modulus reduction,
  decomposition and conversion of bases act on that polynomial, and the multiplication by an auxiliary base gives
  \<open>t / Q\<close> times the product of small representatives, rounded. LWE decryption inverts encryption for bounded noise, the
  homomorphic operations and the key and modulus switches act on the phase with explicit error bounds.

  \<^bold>\<open>Bounds.\<close> Moduli are at most 60 bits and not \<open>2^59\<close> where Barrett reduction is used (\<open>barrett_modulus\<close>), at most
  63 bits elsewhere (\<open>head_room\<close>). Multi-precision numbers have fewer than \<open>2^32\<close> bits (\<open>big_fits\<close>), the length that the field for
  the most significant bit can hold; a base that is converted has at most 255 moduli, so that the sums of double
  words are exact. Counters of loops are naturals where the code's counter cannot wrap. No fuel is
  used: the loops that may not end are partial functions and the theorems that they return say so.

  \<^bold>\<open>Not modelled.\<close> The vectors and transforms of multi-precision integers, the alternative backends \<open>bigintfxd\<close> and
  \<open>bigintntl\<close> (not in the default build), and of the modelled multi-precision class the conversions to floating point,
  \<open>GetDigitAtIndexForBase\<close>, the archives and the 32-bit limbs. Of the polynomials over several moduli the operations
  that correct by floating-point sums (\<open>SwitchCRTBasis\<close>, \<open>ExpandCRTBasis\<close>, \<open>ScaleAndRound\<close>, \<open>SetValuesModSwitch\<close>) and those that
  go through polynomials with multi-precision coefficients (\<open>BaseDecompose\<close>, \<open>CloneWithNoise\<close>,
  \<open>DecryptionCRTInterpolate\<close>). The schemes of \<open>src/pke\<close> and the bootstrapping of \<open>src/binfhe\<close>. Serialization by cereal,
  streams, allocators, the thread control, the hash-based random engine and the demonstration programs are glue
  or input and output. OpenMP loops are taken in sequential order.
\<close>

end
